(* ===== verification/Nebula_Prelude.thy ===== *)
theory Nebula_Prelude
  imports Main "HOL-Library.Word"
begin

unbundle bit_operations_syntax

text \<open>
  Shared vocabulary of the development: the C integer types of the sources as machine words, the
  negative \<open>errno\<close> results as a datatype, fallible results as sums, and the generic facts on
  lists and words that the component theories use.  Nothing in this theory is specific to one
  component.
\<close>

section \<open>Types\<close>

type_synonym byte = "8 word"
type_synonym u16 = "16 word"
type_synonym u32 = "32 word"
type_synonym u64 = "64 word"

text \<open>
  A function of the sources returns \<open>NEBULA_OK\<close> (0) or a negative errno.  The model returns
  \<open>Inr\<close> with the out-parameters, or \<open>Inl\<close> with the errno.  \<open>Errno\<close> stands for any
  error number of the operating system that the sources do not name.  \<open>UNDEFINED\<close> is no errno: it
  marks the runs on which the C code reads outside an object or reads memory it never wrote.
\<close>

datatype errno =
    EINVAL | ENOMEM | EIO | ERANGE | ENOSPC | ENOENT | EEXIST | EBADF | ENAMETOOLONG
  | EINTR | ENODEV | Errno nat | UNDEFINED

type_synonym 'a res = "errno + 'a"

section \<open>Collections\<close>

named_theorems wordarith \<open>moving word arithmetic to natural numbers\<close>
named_theorems codec_laws \<open>lengths and round trips of the byte codecs\<close>

section \<open>Lists: slices and in-place updates\<close>

text \<open>
  \<open>seg off n xs\<close> is the run of \<open>n\<close> elements at \<open>off\<close>; \<open>put off ys xs\<close> is
  \<open>memcpy(xs + off, ys, length ys)\<close>.
\<close>

definition seg :: "nat \<Rightarrow> nat \<Rightarrow> 'a list \<Rightarrow> 'a list" where
  "seg off n xs = take n (drop off xs)"

definition put :: "nat \<Rightarrow> 'a list \<Rightarrow> 'a list \<Rightarrow> 'a list" where
  "put off ys xs = take off xs @ ys @ drop (off + length ys) xs"

lemma length_seg [simp]: "length (seg off n xs) = min n (length xs - off)"
  by (simp add: seg_def min.commute)

lemma nth_seg [simp]: "i < n \<Longrightarrow> off + i < length xs \<Longrightarrow> seg off n xs ! i = xs ! (off + i)"
  by (simp add: seg_def)

lemma seg_0 [simp]: "seg 0 n xs = take n xs"
  by (simp add: seg_def)

lemma seg_all [simp]: "length xs \<le> n \<Longrightarrow> seg 0 n xs = xs"
  by simp

lemma seg_seg:
  "i + n \<le> m \<Longrightarrow> seg i n (seg off m xs) = seg (off + i) n xs"
  by (simp add: seg_def drop_take take_take min_def add.commute)

lemma seg_append_drop:
  "off' = off + k \<Longrightarrow> seg off k xs @ drop off' xs = drop off xs"
  by (simp add: seg_def) (metis add.commute append_take_drop_id drop_drop)

lemma seg_append_seg:
  "seg off k xs @ seg (off + k) m xs = seg off (k + m) xs"
  by (simp add: seg_def take_add add.commute)

lemma seg_append_left:
  "off + n \<le> length xs \<Longrightarrow> seg off n (xs @ ys) = seg off n xs"
  by (simp add: seg_def)

lemma seg_append_right:
  "length xs \<le> off \<Longrightarrow> seg off n (xs @ ys) = seg (off - length xs) n ys"
  by (simp add: seg_def)

lemma seg_map: "seg off n (map f xs) = map f (seg off n xs)"
  by (simp add: seg_def take_map drop_map)

lemma seg_replicate: "off + n \<le> m \<Longrightarrow> seg off n (replicate m x) = replicate n x"
  by (simp add: seg_def min_def)

lemma seg_upt: "off + n \<le> b - a \<Longrightarrow> seg off n [a..<b] = [a + off..<a + off + n]"
  by (rule nth_equalityI) auto

lemma length_put [simp]: "off + length ys \<le> length xs \<Longrightarrow> length (put off ys xs) = length xs"
  by (simp add: put_def)

lemma nth_put:
  assumes "off + length ys \<le> length xs" and "i < length xs"
  shows "put off ys xs ! i = (if off \<le> i \<and> i < off + length ys then ys ! (i - off) else xs ! i)"
  using assms by (auto simp: put_def nth_append)

lemma seg_put_same: "off + length ys \<le> length xs \<Longrightarrow> seg off (length ys) (put off ys xs) = ys"
  by (simp add: put_def seg_def)

lemma put_seg_same: "off + n \<le> length xs \<Longrightarrow> put off (seg off n xs) xs = xs"
  by (rule nth_equalityI) (auto simp: nth_put min_def)

lemma put_put: "length ys = length zs \<Longrightarrow> off + length ys \<le> length xs
    \<Longrightarrow> put off ys (put off zs xs) = put off ys xs"
  by (rule nth_equalityI) (auto simp: nth_put)

lemma list_update_put: "i < length xs \<Longrightarrow> put i [v] xs = xs[i := v]"
  by (rule nth_equalityI) (auto simp: nth_put nth_list_update)

lemma seg_put_disjoint:
  assumes "off + length ys \<le> length xs" and "o2 + n \<le> off \<or> off + length ys \<le> o2"
  shows "seg o2 n (put off ys xs) = seg o2 n xs"
proof (rule nth_equalityI)
  fix i assume "i < length (seg o2 n (put off ys xs))"
  then have "i < n" "o2 + i < length xs" using assms(1) by auto
  then show "seg o2 n (put off ys xs) ! i = seg o2 n xs ! i"
    using assms by (auto simp: nth_put)
qed (use assms(1) in simp)

lemma concat_segs:
  assumes "length xs = w * n"
  shows "concat (map (\<lambda>i. seg (w * i) w xs) [0..<n]) = xs"
  using assms
proof (induction n arbitrary: xs)
  case 0
  then show ?case by simp
next
  case (Suc n)
  have "concat (map (\<lambda>i. seg (w * i) w xs) [0..<n])
      = concat (map (\<lambda>i. seg (w * i) w (take (w * n) xs)) [0..<n])"
  proof (intro arg_cong [where f = concat] map_cong refl)
    fix i assume "i \<in> set [0..<n]"
    then have "w * i + w \<le> w * n"
      by (metis Suc_leI add.commute atLeastLessThan_iff mult_Suc_right mult_le_mono2 set_upt)
    then have "seg (w * i) w (seg 0 (w * n) xs) = seg (0 + w * i) w xs"
      by (rule seg_seg)
    then show "seg (w * i) w xs = seg (w * i) w (take (w * n) xs)" by simp
  qed
  also have "\<dots> = take (w * n) xs" using Suc.prems by (intro Suc.IH) simp
  finally show ?case using Suc.prems by (simp add: seg_def)
qed

lemma length_concat_const:
  "(\<And>x. x \<in> set xs \<Longrightarrow> length (f x) = w) \<Longrightarrow> length (concat (map f xs)) = w * length xs"
  by (induction xs) auto

lemma seg_concat_const:
  assumes "\<And>x. x \<in> set xs \<Longrightarrow> length (f x) = w" and "i < length xs"
  shows "seg (w * i) w (concat (map f xs)) = f (xs ! i)"
  using assms
proof (induction xs arbitrary: i)
  case Nil
  then show ?case by simp
next
  case (Cons x xs)
  show ?case
  proof (cases i)
    case 0
    then show ?thesis using Cons.prems by (simp add: seg_def)
  next
    case (Suc j)
    have "seg (w * i) w (f x @ concat (map f xs)) = seg (w * j) w (concat (map f xs))"
      using Suc Cons.prems(1) [of x] by (simp add: seg_append_right)
    also have "\<dots> = f (xs ! j)" using Suc Cons.prems by (intro Cons.IH) auto
    finally show ?thesis using Suc by simp
  qed
qed

section \<open>Counting in an index range\<close>

lemma filter_upt_split:
  "a \<le> b \<Longrightarrow> b \<le> c \<Longrightarrow> filter P [a..<c] = filter P [a..<b] @ filter P [b..<c]"
  by (metis filter_append le_Suc_ex upt_add_eq_append)

lemma card_filter_upt: "length (filter P [a..<b]) = card {i. a \<le> i \<and> i < b \<and> P i}"
proof -
  have "length (filter P [a..<b]) = card (set (filter P [a..<b]))"
    by (rule distinct_card [symmetric]) simp
  also have "set (filter P [a..<b]) = {i. a \<le> i \<and> i < b \<and> P i}" by auto
  finally show ?thesis .
qed

section \<open>Words as natural numbers\<close>

lemma unat_plus_if_small [wordarith]:
  "unat (a :: 'a::len word) + unat b < 2 ^ LENGTH('a) \<Longrightarrow> unat (a + b) = unat a + unat b"
  by (simp add: unat_word_ariths)

lemma unat_minus_le [wordarith]:
  "unat (b :: 'a::len word) \<le> unat a \<Longrightarrow> unat (a - b) = unat a - unat b"
  by (simp add: unat_sub word_le_nat_alt)

lemma unat_times_if_small [wordarith]:
  "unat (a :: 'a::len word) * unat b < 2 ^ LENGTH('a) \<Longrightarrow> unat (a * b) = unat a * unat b"
  by (simp add: unat_word_ariths)

lemma unat_less_pow [simp]: "unat (a :: 'a::len word) < 2 ^ LENGTH('a)"
  by (metis unsigned_less)

lemma unat_u64_less [simp]: "unat (a :: u64) < 18446744073709551616"
  using unat_less_pow [of a] by simp

lemma unat_u32_less [simp]: "unat (a :: u32) < 4294967296"
  using unat_less_pow [of a] by simp

lemma unat_u16_less [simp]: "unat (a :: u16) < 65536"
  using unat_less_pow [of a] by simp

lemma unat_ucast_u32_u64 [simp, wordarith]: "unat (ucast (a :: u32) :: u64) = unat a"
proof -
  have "unat a < 2 ^ 64" by (rule less_trans [OF unat_u32_less]) simp
  then show ?thesis by (simp add: unsigned_ucast_eq take_bit_nat_eq_self)
qed

lemma unat_of_nat_u64 [wordarith]: "n < 18446744073709551616 \<Longrightarrow> unat (of_nat n :: u64) = n"
  by (simp add: unat_of_nat take_bit_nat_eq_self)

lemma unat_of_nat_u32 [wordarith]: "n < 4294967296 \<Longrightarrow> unat (of_nat n :: u32) = n"
  by (simp add: unat_of_nat take_bit_nat_eq_self)

lemma unat_div_word [wordarith]: "unat ((a :: 'a::len word) div b) = unat a div unat b"
  by (rule unat_div)

end
