(* ===== verification/Nebula_Bytes.thy ===== *)
theory Nebula_Bytes
  imports Nebula_Prelude
begin

unbundle bit_operations_syntax

text \<open>
  The little-endian byte codecs behind the packed structures of \<open>nebula_format.h\<close>: integers of
  any width as byte lists, arrays of fixed-width elements, and the interface \<open>codec\<close> that every
  on-disk structure implements.
\<close>

section \<open>Little-endian integers\<close>

definition le_bytes :: "nat \<Rightarrow> 'a::len word \<Rightarrow> byte list" where
  "le_bytes n w = map (\<lambda>i. ucast (drop_bit (8 * i) w)) [0..<n]"

fun le_word :: "byte list \<Rightarrow> 'a::len word" where
  "le_word [] = 0"
| "le_word (b # bs) = ucast b OR push_bit 8 (le_word bs)"

lemma length_le_bytes [simp, codec_laws]: "length (le_bytes n w) = n"
  by (simp add: le_bytes_def)

lemma nth_le_bytes: "i < n \<Longrightarrow> le_bytes n w ! i = ucast (drop_bit (8 * i) w)"
  by (simp add: le_bytes_def)

lemma bit_byte_bound: "bit (b :: byte) n \<Longrightarrow> n < 8"
  using bit_imp_le_length [of b n] by simp

lemma bit_le_word:
  "bit (le_word bs :: 'a::len word) k \<longleftrightarrow>
     k < LENGTH('a) \<and> k div 8 < length bs \<and> bit (bs ! (k div 8)) (k mod 8)"
proof (induction bs arbitrary: k)
  case Nil
  then show ?case by simp
next
  case (Cons b bs)
  show ?case
  proof (cases "k < 8")
    case True
    then show ?thesis by (auto simp: bit_simps)
  next
    case False
    then obtain j where k: "k = 8 + j" by (metis le_Suc_ex linorder_not_less)
    have "\<not> bit b (8 + j)" by (auto dest: bit_byte_bound)
    moreover have "(8 + j) div 8 = Suc (j div 8)" by simp
    ultimately show ?thesis using Cons.IH [of j] k by (auto simp: bit_simps)
  qed
qed

lemma le_word_le_bytes [codec_laws]:
  "LENGTH('a::len) = 8 * n \<Longrightarrow> le_word (le_bytes n w) = (w :: 'a word)"
proof (rule bit_word_eqI)
  fix k assume n: "LENGTH('a) = 8 * n" and k: "k < LENGTH('a)"
  then have "k div 8 < n" by (simp add: less_mult_imp_div_less mult.commute)
  then have "bit (le_word (le_bytes n w) :: 'a word) k
      \<longleftrightarrow> bit (ucast (drop_bit (8 * (k div 8)) w) :: byte) (k mod 8)"
    using k by (simp add: bit_le_word nth_le_bytes)
  also have "\<dots> \<longleftrightarrow> bit w (8 * (k div 8) + k mod 8)"
    by (simp add: bit_simps)
  finally show "bit (le_word (le_bytes n w) :: 'a word) k = bit w k" by simp
qed

lemma le_bytes_le_word [codec_laws]:
  assumes "LENGTH('a::len) = 8 * n" and "length bs = n"
  shows "le_bytes n (le_word bs :: 'a word) = bs"
proof (rule nth_equalityI)
  show "length (le_bytes n (le_word bs :: 'a word)) = length bs" by (simp add: assms)
next
  fix i assume "i < length (le_bytes n (le_word bs :: 'a word))"
  then have i: "i < n" by simp
  have "bit (ucast (drop_bit (8 * i) (le_word bs :: 'a word)) :: byte) j = bit (bs ! i) j"
    if "j < 8" for j
  proof -
    have "8 * i + j < 8 * n" "(8 * i + j) div 8 = i" "(8 * i + j) mod 8 = j"
      using that i by auto
    then show ?thesis using that i assms by (simp add: bit_simps bit_le_word)
  qed
  then show "le_bytes n (le_word bs :: 'a word) ! i = bs ! i"
    using i by (auto simp: nth_le_bytes intro!: bit_word_eqI)
qed

section \<open>Fields at fixed offsets\<close>

definition u16_at :: "nat \<Rightarrow> byte list \<Rightarrow> u16" where
  "u16_at off bs = le_word (seg off 2 bs)"

definition u32_at :: "nat \<Rightarrow> byte list \<Rightarrow> u32" where
  "u32_at off bs = le_word (seg off 4 bs)"

definition u64_at :: "nat \<Rightarrow> byte list \<Rightarrow> u64" where
  "u64_at off bs = le_word (seg off 8 bs)"

lemmas field_at_defs = u16_at_def u32_at_def u64_at_def

abbreviation le16 :: "u16 \<Rightarrow> byte list" where "le16 \<equiv> le_bytes 2"
abbreviation le32 :: "u32 \<Rightarrow> byte list" where "le32 \<equiv> le_bytes 4"
abbreviation le64 :: "u64 \<Rightarrow> byte list" where "le64 \<equiv> le_bytes 8"

lemma le16_inverse [simp]: "le_word (le16 w) = w" by (rule le_word_le_bytes) simp
lemma le32_inverse [simp]: "le_word (le32 w) = w" by (rule le_word_le_bytes) simp
lemma le64_inverse [simp]: "le_word (le64 w) = w" by (rule le_word_le_bytes) simp

lemma le16_at: "off + 2 \<le> length bs \<Longrightarrow> le16 (u16_at off bs) = seg off 2 bs"
  by (simp add: u16_at_def le_bytes_le_word)

lemma le32_at: "off + 4 \<le> length bs \<Longrightarrow> le32 (u32_at off bs) = seg off 4 bs"
  by (simp add: u32_at_def le_bytes_le_word)

lemma le64_at: "off + 8 \<le> length bs \<Longrightarrow> le64 (u64_at off bs) = seg off 8 bs"
  by (simp add: u64_at_def le_bytes_le_word)

lemmas le_at = le16_at le32_at le64_at

text \<open>Reading a segment of a right-nested concatenation of fields.\<close>

lemma seg_hit: "length xs = n \<Longrightarrow> seg 0 n (xs @ ys) = xs"
  by (simp add: seg_def)

lemma seg_hit_end: "length xs = n \<Longrightarrow> seg 0 n xs = xs"
  by (simp add: seg_def)

lemma drop_skip: "length xs \<le> off \<Longrightarrow> drop off (xs @ ys) = drop (off - length xs) ys"
  by simp

lemmas enc_reads = seg_append_right seg_hit seg_hit_end drop_skip field_at_defs

section \<open>Codecs\<close>

text \<open>
  The contract of a packed structure: encoding a well-formed value gives exactly \<open>width\<close> bytes,
  decoding gives the value back, and every block of \<open>width\<close> bytes is the encoding of a
  well-formed value, so no byte is lost when the code copies a buffer into a structure.
\<close>

locale codec =
  fixes enc :: "'s \<Rightarrow> byte list" and dec :: "byte list \<Rightarrow> 's" and width :: nat
    and wf :: "'s \<Rightarrow> bool"
  assumes enc_length: "wf s \<Longrightarrow> length (enc s) = width"
    and dec_enc: "wf s \<Longrightarrow> dec (enc s) = s"
    and enc_dec: "length bs = width \<Longrightarrow> enc (dec bs) = bs"
    and dec_wf: "length bs = width \<Longrightarrow> wf (dec bs)"

definition enc_array :: "('s \<Rightarrow> byte list) \<Rightarrow> 's list \<Rightarrow> byte list" where
  "enc_array enc xs = concat (map enc xs)"

definition dec_array :: "(byte list \<Rightarrow> 's) \<Rightarrow> nat \<Rightarrow> nat \<Rightarrow> byte list \<Rightarrow> 's list" where
  "dec_array dec w n bs = map (\<lambda>i. dec (seg (w * i) w bs)) [0..<n]"

lemma length_dec_array [simp]: "length (dec_array dec w n bs) = n"
  by (simp add: dec_array_def)

lemma nth_dec_array: "i < n \<Longrightarrow> dec_array dec w n bs ! i = dec (seg (w * i) w bs)"
  by (simp add: dec_array_def)

lemma seg_block_bound: "i < n \<Longrightarrow> w * i + w \<le> w * (n :: nat)"
  by (metis Suc_leI add.commute mult_Suc_right mult_le_mono2)

lemma seg_block_length: "i < n \<Longrightarrow> length bs = w * n \<Longrightarrow> length (seg (w * i) w bs) = w"
  using seg_block_bound [of i n w] by simp

context codec
begin

lemma length_enc_array: "list_all wf xs \<Longrightarrow> length (enc_array enc xs) = width * length xs"
  unfolding enc_array_def by (rule length_concat_const) (auto simp: list_all_iff enc_length)

lemma seg_enc_array:
  "list_all wf xs \<Longrightarrow> i < length xs \<Longrightarrow> seg (width * i) width (enc_array enc xs) = enc (xs ! i)"
  unfolding enc_array_def by (rule seg_concat_const) (auto simp: list_all_iff enc_length)

lemma dec_enc_array:
  assumes "list_all wf xs" and "length xs = n"
  shows "dec_array dec width n (enc_array enc xs) = xs"
proof (rule nth_equalityI)
  fix i assume "i < length (dec_array dec width n (enc_array enc xs))"
  then have i: "i < length xs" using assms by simp
  then have "wf (xs ! i)" using assms(1) by (simp add: list_all_length)
  with i show "dec_array dec width n (enc_array enc xs) ! i = xs ! i"
    using assms by (simp add: nth_dec_array seg_enc_array dec_enc)
qed (use assms in simp)

lemma enc_dec_array:
  assumes "length bs = width * n"
  shows "enc_array enc (dec_array dec width n bs) = bs"
proof -
  have "map enc (dec_array dec width n bs) = map (\<lambda>i. seg (width * i) width bs) [0..<n]"
    by (auto simp: dec_array_def simp del: length_seg
        intro!: enc_dec seg_block_length [OF _ assms])
  then show ?thesis using concat_segs [OF assms] by (simp add: enc_array_def)
qed

lemma dec_array_wf: "length bs = width * n \<Longrightarrow> list_all wf (dec_array dec width n bs)"
  by (auto simp: list_all_length nth_dec_array simp del: length_seg intro!: dec_wf seg_block_length)

lemma enc_array_update:
  assumes "list_all wf xs" and "i < length xs" and "wf x"
  shows "enc_array enc (xs[i := x]) = put (width * i) (enc x) (enc_array enc xs)"
proof -
  have len: "length xs * width = width * length xs" by simp
  have xs: "xs = take i xs @ xs ! i # drop (Suc i) xs" using assms(2) by (rule id_take_nth_drop)
  have l1: "length (enc_array enc (take i xs)) = width * i"
    using assms(1,2) by (simp add: length_enc_array list_all_length)
  have "enc_array enc xs
      = enc_array enc (take i xs) @ enc (xs ! i) @ enc_array enc (drop (Suc i) xs)"
    by (subst xs) (simp add: enc_array_def)
  moreover have "length (enc (xs ! i)) = length (enc x)"
    using assms by (simp add: enc_length list_all_length)
  moreover have "enc_array enc (xs[i := x])
      = enc_array enc (take i xs) @ enc x @ enc_array enc (drop (Suc i) xs)"
    using assms(2) by (simp add: upd_conv_take_nth_drop enc_array_def)
  ultimately show ?thesis using l1 by (simp add: put_def)
qed

end

end
