(* ===== verification/Crc32c.thy ===== *)
theory Crc32c
  imports Nebula_Bytes
begin

unbundle bit_operations_syntax

text \<open>
  \<open>src/util/crc32c.c\<close>: the table-driven CRC-32C.  The table is built by eight shift steps per
  entry; the update loop consumes one byte per table lookup.  The theory proves the loop equal to
  the bit-serial definition of the checksum, that it can be computed incrementally, and that any
  change confined to one byte of a buffer changes the checksum.
\<close>

section \<open>The code\<close>

definition crc_poly :: u32 where
  "crc_poly = 0x82F63B78"

definition crc_shift :: "u32 \<Rightarrow> u32" where
  "crc_shift c = (if c AND 1 \<noteq> 0 then crc_poly XOR drop_bit 1 c else drop_bit 1 c)"

definition crc32c_init_table :: "u32 list" where
  "crc32c_init_table = map (\<lambda>i. (crc_shift ^^ 8) (of_nat i)) [0..<256]"

definition crc_step :: "u32 \<Rightarrow> byte \<Rightarrow> u32" where
  "crc_step crc b = crc32c_init_table ! unat ((crc XOR ucast b) AND 0xFF) XOR drop_bit 8 crc"

definition crc32c_update :: "u32 \<Rightarrow> byte list \<Rightarrow> u32" where
  "crc32c_update crc buf = NOT (foldl crc_step (NOT crc) buf)"

definition crc32c :: "byte list \<Rightarrow> u32" where
  "crc32c buf = crc32c_update 0 buf"

text \<open>The bit-serial reference: eight shifts per byte, no table.\<close>

definition crc_bitwise :: "u32 \<Rightarrow> byte \<Rightarrow> u32" where
  "crc_bitwise crc b = (crc_shift ^^ 8) (crc XOR ucast b)"

section \<open>The shift register is linear and injective\<close>

lemma crc_shift_alt: "crc_shift c = (if bit c 0 then crc_poly else 0) XOR drop_bit 1 c"
  by (simp add: crc_shift_def and_one_eq bit_0 mod_2_eq_odd)

lemma crc_shift_xor: "crc_shift (a XOR b) = crc_shift a XOR crc_shift b"
  by (rule bit_word_eqI) (auto simp: crc_shift_alt bit_simps)

lemma crc_shift_pow_xor: "(crc_shift ^^ n) (a XOR b) = (crc_shift ^^ n) a XOR (crc_shift ^^ n) b"
  by (induction n) (simp_all add: crc_shift_xor)

lemma crc_shift_pow_high:
  "(\<And>k. k < n \<Longrightarrow> \<not> bit c k) \<Longrightarrow> (crc_shift ^^ n) c = drop_bit n c"
proof (induction n)
  case 0
  then show ?case by simp
next
  case (Suc n)
  then have "(crc_shift ^^ n) c = drop_bit n c" by simp
  moreover have "\<not> bit (drop_bit n c) 0" using Suc.prems [of n] by (simp add: bit_simps)
  ultimately show ?case by (simp add: crc_shift_alt [of "drop_bit n c"])
qed

lemma crc_shift_pow8:
  "(crc_shift ^^ 8) c = crc_shift (crc_shift (crc_shift (crc_shift
     (crc_shift (crc_shift (crc_shift (crc_shift c)))))))"
  by (simp add: numeral_eq_Suc)

lemma crc_shift_zero_iff: "crc_shift c = 0 \<longleftrightarrow> c = 0"
proof
  assume z: "crc_shift c = 0"
  have p31: "bit crc_poly 31" by (simp add: crc_poly_def)
  have d31: "\<not> bit (drop_bit 1 c) 31"
    using bit_imp_le_length [of c 32] by (auto simp: bit_simps)
  have "bit (crc_shift c) 31 \<longleftrightarrow> bit c 0"
    using p31 d31 by (simp add: crc_shift_alt bit_simps)
  then have low: "\<not> bit c 0" using z by simp
  with z have "drop_bit 1 c = 0" by (simp add: crc_shift_alt)
  show "c = 0"
  proof (rule bit_word_eqI)
    fix k assume "k < LENGTH(32)"
    show "bit c k = bit 0 k"
    proof (cases k)
      case 0
      then show ?thesis using low by simp
    next
      case (Suc j)
      then have "bit c k = bit (drop_bit 1 c) j" by (simp add: bit_simps)
      then show ?thesis using \<open>drop_bit 1 c = 0\<close> by simp
    qed
  qed
qed (simp add: crc_shift_alt)

lemma xor_left_cancel: "(a :: 'a::len word) XOR b = a XOR c \<longleftrightarrow> b = c"
proof
  assume "a XOR b = a XOR c"
  then have "a XOR (a XOR b) = a XOR (a XOR c)" by simp
  then show "b = c" by (simp add: xor.assoc [symmetric])
qed simp

lemma xor_right_cancel: "(b :: 'a::len word) XOR a = c XOR a \<longleftrightarrow> b = c"
  using xor_left_cancel [of a b c] by (simp add: xor.commute)

lemma xor_eq_0_iff_u32: "(a :: u32) XOR b = 0 \<longleftrightarrow> a = b"
  using xor_left_cancel [of a b a] by auto

lemma crc_shift_inject: "crc_shift a = crc_shift b \<longleftrightarrow> a = b"
  using crc_shift_zero_iff [of "a XOR b"] by (simp add: crc_shift_xor xor_eq_0_iff_u32)

lemma crc_shift_pow_inject: "(crc_shift ^^ n) a = (crc_shift ^^ n) b \<longleftrightarrow> a = b"
  by (induction n) (simp_all add: crc_shift_inject)

section \<open>The table\<close>

lemma low_byte_bound: "unat ((x :: u32) AND 0xFF) < 256"
proof -
  have "x AND 0xFF \<le> 0xFF" by (rule word_and_le1)
  then show ?thesis by (simp add: word_le_nat_alt)
qed

lemma table_lookup:
  "crc32c_init_table ! unat ((x :: u32) AND 0xFF) = (crc_shift ^^ 8) (x AND 0xFF)"
  using low_byte_bound [of x] by (simp add: crc32c_init_table_def)

lemma low_byte_mask: "(x :: u32) AND 0xFF = take_bit 8 x"
  by (simp add: take_bit_eq_mask mask_eq_exp_minus_1)

lemma ucast_byte_high: "8 \<le> k \<Longrightarrow> \<not> bit (ucast (b :: byte) :: u32) k"
  by (auto simp: bit_simps dest: bit_byte_bound)

text \<open>The property behind the whole file: one table lookup is eight shift steps.\<close>

lemma crc_step_bitwise: "crc_step crc b = crc_bitwise crc b"
proof -
  define x where "x = crc XOR ucast b"
  define hi where "hi = push_bit 8 (drop_bit 8 x)"
  have x: "x = (x AND 0xFF) XOR hi"
    by (rule bit_word_eqI) (auto simp: hi_def low_byte_mask bit_simps)
  have "(crc_shift ^^ 8) hi = drop_bit 8 hi"
    by (rule crc_shift_pow_high) (simp add: hi_def bit_simps)
  also have "drop_bit 8 hi = drop_bit 8 crc"
  proof (rule bit_word_eqI)
    fix k assume "k < LENGTH(32)"
    have "bit crc (8 + k) \<Longrightarrow> k < 24" using bit_imp_le_length [of crc "8 + k"] by simp
    then show "bit (drop_bit 8 hi) k = bit (drop_bit 8 crc) k"
      using ucast_byte_high [of "8 + k" b] by (auto simp: hi_def x_def bit_drop_bit_eq
          bit_push_bit_iff bit_xor_iff)
  qed
  finally have hi: "(crc_shift ^^ 8) hi = drop_bit 8 crc" .
  have "crc_bitwise crc b = (crc_shift ^^ 8) ((x AND 0xFF) XOR hi)"
    using x by (simp add: crc_bitwise_def x_def)
  also have "\<dots> = (crc_shift ^^ 8) (x AND 0xFF) XOR drop_bit 8 crc"
    by (simp only: crc_shift_pow_xor hi)
  finally show ?thesis by (simp add: crc_step_def table_lookup x_def)
qed

lemma ucast_byte_inject: "(ucast (a :: byte) :: u32) = ucast b \<longleftrightarrow> a = b"
proof
  assume "(ucast a :: u32) = ucast b"
  then have eq: "bit (ucast a :: u32) k = bit (ucast b :: u32) k" for k by simp
  show "a = b"
  proof (rule bit_word_eqI)
    fix k assume "k < LENGTH(8)"
    then show "bit a k = bit b k" using eq [of k] by (simp add: bit_simps)
  qed
qed simp

lemma crc_step_inject_state: "crc_step c b = crc_step c' b \<longleftrightarrow> c = c'"
  by (simp only: crc_step_bitwise crc_bitwise_def crc_shift_pow_inject xor_right_cancel)

lemma crc_step_inject_byte: "crc_step c b = crc_step c b' \<longleftrightarrow> b = b'"
  by (simp only: crc_step_bitwise crc_bitwise_def crc_shift_pow_inject xor_left_cancel
      ucast_byte_inject)

lemma foldl_crc_step_inject: "foldl crc_step c bs = foldl crc_step c' bs \<longleftrightarrow> c = c'"
  by (induction bs arbitrary: c c') (simp_all add: crc_step_inject_state)

lemma not_u32_inject: "NOT (a :: u32) = NOT b \<longleftrightarrow> a = b"
  by simp

section \<open>Properties\<close>

text \<open>
  Property C40.  The table-driven loop computes the bit-serial CRC-32C: for every seed and every buffer,
  \<open>crc32c_update\<close> equals the fold of the reference step, with the register inverted on entry and
  on exit.
\<close>

theorem crc32c_update_bitwise:
  "crc32c_update crc buf = NOT (foldl crc_bitwise (NOT crc) buf)"
  by (simp add: crc32c_update_def crc_step_bitwise [abs_def])

text \<open>
  The incremental interface: feeding a buffer in two pieces, the second call seeded with the
  result of the first, gives the checksum of the concatenation.
\<close>

theorem crc32c_update_append:
  "crc32c_update (crc32c_update crc xs) ys = crc32c_update crc (xs @ ys)"
  by (simp add: crc32c_update_def)

lemma crc32c_byte_change:
  "crc32c (xs @ b # ys) = crc32c (xs @ b' # ys) \<longleftrightarrow> b = b'"
  by (simp add: crc32c_def crc32c_update_def foldl_crc_step_inject crc_step_inject_byte)

lemma crc32c_update_byte:
  assumes "i < length buf"
  shows "crc32c (buf[i := v]) = crc32c buf \<longleftrightarrow> v = buf ! i"
proof -
  have "buf = take i buf @ buf ! i # drop (Suc i) buf" using assms by (rule id_take_nth_drop)
  moreover have "buf[i := v] = take i buf @ v # drop (Suc i) buf"
    using assms by (rule upd_conv_take_nth_drop)
  ultimately show ?thesis using crc32c_byte_change by metis
qed

text \<open>
  Error detection: changing one byte of a buffer, to any other value and at any position,
  changes its CRC-32C.
\<close>

theorem crc32c_detects_byte:
  assumes "i < length buf" and "v \<noteq> buf ! i"
  shows "crc32c (buf[i := v]) \<noteq> crc32c buf"
  using assms by (simp add: crc32c_update_byte)

text \<open>The check value of CRC-32C on the ASCII digits 1 to 9.\<close>

lemma crc32c_check_value:
  "crc32c [0x31, 0x32, 0x33, 0x34, 0x35, 0x36, 0x37, 0x38, 0x39] = 0xE3069283"
  by (simp add: crc32c_def crc32c_update_bitwise crc_bitwise_def crc_shift_pow8 crc_shift_def
      crc_poly_def)

theorem crc32c_detects_byte_witness:
  "(0 :: nat) < length [0x31, 0x32 :: byte] \<and> (0x33 :: byte) \<noteq> [0x31, 0x32] ! 0
     \<and> crc32c ([0x31, 0x32][0 := 0x33]) \<noteq> crc32c [0x31, 0x32]"
proof -
  have h: "(0 :: nat) < length [0x31, 0x32 :: byte]" "(0x33 :: byte) \<noteq> [0x31, 0x32] ! 0" by simp_all
  show ?thesis using h crc32c_detects_byte [OF h] by simp
qed

end
