(* ===== verification/Nebula_Seal.thy ===== *)
theory Nebula_Seal
  imports Crc32c
begin

text \<open>
  The checksum discipline shared by every on-disk structure: a 32-bit field holds the CRC-32C of
  the structure with that field set to zero.  The interface \<open>sealed_codec\<close> extends \<open>codec\<close> by
  the checksum field; its lemmas say that sealing a structure makes it valid, that the checksum
  does not depend on the field it is stored in, and that no single-byte corruption of a sealed
  block goes unnoticed.
\<close>

locale sealed_codec = codec +
  fixes get_ck :: "'a \<Rightarrow> u32" and set_ck :: "u32 \<Rightarrow> 'a \<Rightarrow> 'a" and ck_off :: nat
  assumes ck_fits: "ck_off + 4 \<le> width"
    and get_ck_dec: "length bs = width \<Longrightarrow> get_ck (dec bs) = u32_at ck_off bs"
    and set_ck_enc: "wf s \<Longrightarrow> enc (set_ck c s) = put ck_off (le32 c) (enc s)"
    and set_ck_wf: "wf s \<Longrightarrow> wf (set_ck c s)"
    and get_set_ck: "get_ck (set_ck c s) = c"
    and set_set_ck: "set_ck c (set_ck c' s) = set_ck c s"
begin

lemma cksum_indep: "crc32c (enc (set_ck 0 (set_ck c s))) = crc32c (enc (set_ck 0 s))"
  by (simp add: set_set_ck)

lemma seal_valid:
  "s' = set_ck (crc32c (enc (set_ck 0 s))) s \<Longrightarrow> get_ck s' = crc32c (enc (set_ck 0 s'))"
  by (simp add: get_set_ck set_set_ck)

lemma cksum_dec:
  "length bs = width \<Longrightarrow> crc32c (enc (set_ck 0 (dec bs))) = crc32c (put ck_off (le32 0) bs)"
  by (simp add: set_ck_enc dec_wf enc_dec)

lemma put_update_inside:
  assumes "off \<le> i" and "i < off + length ys" and "off + length ys \<le> length xs"
  shows "put off ys (xs[i := v]) = put off ys xs"
  by (rule nth_equalityI) (use assms in \<open>auto simp: nth_put nth_list_update\<close>)

lemma put_update_outside:
  assumes "i < off \<or> off + length ys \<le> i" and "off + length ys \<le> length xs"
    and "i < length xs"
  shows "put off ys (xs[i := v]) = (put off ys xs)[i := v]"
  by (rule nth_equalityI) (use assms in \<open>auto simp: nth_put nth_list_update\<close>)

lemma u32_at_update_inside:
  assumes "off + 4 \<le> length bs" and "off \<le> i" and "i < off + 4" and "v \<noteq> bs ! i"
  shows "u32_at off (bs[i := v]) \<noteq> u32_at off bs"
proof
  assume "u32_at off (bs[i := v]) = u32_at off bs"
  then have "le32 (u32_at off (bs[i := v])) = le32 (u32_at off bs)" by simp
  then have "seg off 4 (bs[i := v]) = seg off 4 bs" using assms(1) by (simp add: le32_at)
  then have "seg off 4 (bs[i := v]) ! (i - off) = seg off 4 bs ! (i - off)" by simp
  then show False using assms by simp
qed

lemma u32_at_update_outside:
  assumes "i < off \<or> off + 4 \<le> i"
  shows "u32_at off (bs[i := v]) = u32_at off bs"
proof -
  have "seg off 4 (bs[i := v]) = seg off 4 bs"
    by (rule nth_equalityI) (use assms in auto)
  then show ?thesis by (simp add: u32_at_def)
qed

text \<open>A sealed block with one byte changed is no longer sealed.\<close>

lemma corruption_detected:
  assumes len: "length bs = width"
    and ok: "get_ck (dec bs) = crc32c (enc (set_ck 0 (dec bs)))"
    and i: "i < width" and v: "v \<noteq> bs ! i"
  shows "get_ck (dec (bs[i := v])) \<noteq> crc32c (enc (set_ck 0 (dec (bs[i := v]))))"
proof (cases "ck_off \<le> i \<and> i < ck_off + 4")
  case True
  have "u32_at ck_off (bs[i := v]) \<noteq> u32_at ck_off bs"
    using True len ck_fits v by (intro u32_at_update_inside) auto
  moreover have "put ck_off (le32 0) (bs[i := v]) = put ck_off (le32 0) bs"
    using True len ck_fits by (intro put_update_inside) auto
  ultimately show ?thesis using ok len by (simp add: get_ck_dec cksum_dec)
next
  case False
  have put: "put ck_off (le32 0) (bs[i := v]) = (put ck_off (le32 0) bs)[i := v]"
    using False len ck_fits i by (intro put_update_outside) auto
  have "put ck_off (le32 0) bs ! i = bs ! i"
    using False len ck_fits i by (subst nth_put) auto
  then have "crc32c ((put ck_off (le32 0) bs)[i := v]) \<noteq> crc32c (put ck_off (le32 0) bs)"
    using len ck_fits i v by (simp add: crc32c_update_byte)
  moreover have "u32_at ck_off (bs[i := v]) = u32_at ck_off bs"
    using False by (intro u32_at_update_outside) auto
  ultimately show ?thesis using ok len put by (simp add: get_ck_dec cksum_dec)
qed

end

end
