(* ===== verification/Nebula_Format.thy ===== *)
theory Nebula_Format
  imports Nebula_Seal
begin

text \<open>
  \<open>include/nebula/nebula_types.h\<close> and \<open>include/nebula/nebula_format.h\<close>: the constants and the
  packed on-disk structures.  A structure is a record with one field per C field (padding and
  reserved bytes included) and a pair \<open>enc\<close>/\<open>dec\<close> that lays it out at the offsets of the packed
  little-endian C structure.  Each pair is an interpretation of \<open>codec\<close> at the size that the C
  \<open>_Static_assert\<close> states, and of \<open>sealed_codec\<close> where the structure has a checksum.
\<close>

section \<open>Constants\<close>

definition NEBULA_BLOCK_SIZE :: nat where [simp]: "NEBULA_BLOCK_SIZE = 4096"
definition NEBULA_VERSION_MAJOR :: u16 where "NEBULA_VERSION_MAJOR = 1"
definition NEBULA_VERSION_MINOR :: u16 where "NEBULA_VERSION_MINOR = 0"
definition NEBULA_INODE_SIZE :: u32 where "NEBULA_INODE_SIZE = 4096"
definition NEBULA_ROOT_INODE_NUM :: u64 where "NEBULA_ROOT_INODE_NUM = 0"
definition NEBULA_UBERBLOCK_SLOTS :: u64 where "NEBULA_UBERBLOCK_SLOTS = 128"
definition NEBULA_ALLOC_ROOTS_TOTAL :: u32 where "NEBULA_ALLOC_ROOTS_TOTAL = 128"
definition NEBULA_ALLOC_ROOTS_HEAD :: nat where [simp]: "NEBULA_ALLOC_ROOTS_HEAD = 64"
definition NEBULA_MIN_DEVICE_BYTES :: u64 where "NEBULA_MIN_DEVICE_BYTES = 268435456"

text \<open>\<open>"NEBULA\0"\<close> with the terminating NUL: eight bytes.\<close>

definition NEBULA_MAGIC_MBR_STR :: "byte list" where
  "NEBULA_MAGIC_MBR_STR = [0x4E, 0x45, 0x42, 0x55, 0x4C, 0x41, 0, 0]"

definition NEBULA_MAGIC_SB :: u64 where "NEBULA_MAGIC_SB = 0x4E45425553420001"
definition NEBULA_MAGIC_UB :: u64 where "NEBULA_MAGIC_UB = 0x4E4542555542424C"
definition NEBULA_MAGIC_INODE :: u64 where "NEBULA_MAGIC_INODE = 0x4E4549444E4F4445"
definition NEBULA_MAGIC_DIR_PAGE :: u64 where "NEBULA_MAGIC_DIR_PAGE = 0x4E45444952504147"

definition NEBULA_LBA_MBR :: u64 where "NEBULA_LBA_MBR = 0"
definition NEBULA_LBA_SB_HEAD :: u64 where "NEBULA_LBA_SB_HEAD = 1"
definition NEBULA_LBA_UBERBLOCK :: u64 where "NEBULA_LBA_UBERBLOCK = 2"
definition NEBULA_LBA_ALLOC_ROOTS_H :: u64 where
  "NEBULA_LBA_ALLOC_ROOTS_H = NEBULA_LBA_UBERBLOCK + NEBULA_UBERBLOCK_SLOTS"

definition NEBULA_BITMAP_BITS_PER_PAGE :: nat where [simp]: "NEBULA_BITMAP_BITS_PER_PAGE = 32768"
definition NEBULA_EXTENTS_PER_INODE :: nat where [simp]: "NEBULA_EXTENTS_PER_INODE = 248"

definition NEBULA_INODE_TYPE_FREE :: u32 where "NEBULA_INODE_TYPE_FREE = 0"
definition NEBULA_INODE_TYPE_FILE :: u32 where "NEBULA_INODE_TYPE_FILE = 1"
definition NEBULA_INODE_TYPE_DIR :: u32 where "NEBULA_INODE_TYPE_DIR = 2"

definition NEBULA_DIR_ENTRY_SIZE :: nat where [simp]: "NEBULA_DIR_ENTRY_SIZE = 1024"
definition NEBULA_DIR_NAME_MAX :: nat where [simp]: "NEBULA_DIR_NAME_MAX = 1000"
definition NEBULA_DIR_ENTRIES_PER_BLOCK :: nat where [simp]: "NEBULA_DIR_ENTRIES_PER_BLOCK = 4"
definition NEBULA_DIR_FLAG_USED :: u16 where "NEBULA_DIR_FLAG_USED = 1"
definition NEBULA_DIR_FLAG_FILE :: u16 where "NEBULA_DIR_FLAG_FILE = 2"
definition NEBULA_DIR_FLAG_DIR :: u16 where "NEBULA_DIR_FLAG_DIR = 4"

definition NEBULA_ROOT_DIR_SLOT_SUBBLOCKS :: nat where [simp]: "NEBULA_ROOT_DIR_SLOT_SUBBLOCKS = 8"
definition NEBULA_ROOT_DIR_SLOTS_PER_CHUNK :: nat where
  [simp]: "NEBULA_ROOT_DIR_SLOTS_PER_CHUNK = 4096"

text \<open>\<open>memset(buf, 0, n)\<close>.\<close>

abbreviation zeros :: "nat \<Rightarrow> byte list" where
  "zeros n \<equiv> replicate n 0"

section \<open>Laying fields out\<close>

lemma seg_take_drop: "off = k \<Longrightarrow> take k xs @ drop off xs = xs"
  by simp

lemma seg_join_end: "off + n = length xs \<Longrightarrow> seg off n xs = drop off xs"
  by (simp add: seg_def)

lemma put_skip: "length xs \<le> off \<Longrightarrow> put off ys (xs @ zs) = xs @ put (off - length xs) ys zs"
  by (simp add: put_def)

lemma put_hit: "length ys = length xs \<Longrightarrow> put 0 ys (xs @ zs) = ys @ zs"
  by (simp add: put_def)

lemmas put_enc = put_skip put_hit

section \<open>MBR\<close>

record nebula_mbr =
  mbr_magic :: "byte list"
  mbr_version_major :: u16
  mbr_version_minor :: u16
  mbr_pad0 :: u32
  mbr_device_uuid :: "byte list"
  mbr_device_capacity_blocks :: u64
  mbr_superblock_head_lba :: u64
  mbr_checksum :: u32
  mbr_reserved :: "byte list"

definition enc_mbr :: "nebula_mbr \<Rightarrow> byte list" where
  "enc_mbr s =
    mbr_magic s @ le16 (mbr_version_major s) @ le16 (mbr_version_minor s) @
    le32 (mbr_pad0 s) @ mbr_device_uuid s @ le64 (mbr_device_capacity_blocks s) @
    le64 (mbr_superblock_head_lba s) @ le32 (mbr_checksum s) @ mbr_reserved s"

definition dec_mbr :: "byte list \<Rightarrow> nebula_mbr" where
  "dec_mbr bs = \<lparr>
    mbr_magic = take 8 bs, mbr_version_major = u16_at 8 bs, mbr_version_minor = u16_at 10 bs,
    mbr_pad0 = u32_at 12 bs, mbr_device_uuid = seg 16 16 bs,
    mbr_device_capacity_blocks = u64_at 32 bs, mbr_superblock_head_lba = u64_at 40 bs,
    mbr_checksum = u32_at 48 bs, mbr_reserved = drop 52 bs\<rparr>"

definition wf_mbr :: "nebula_mbr \<Rightarrow> bool" where
  "wf_mbr s \<longleftrightarrow> length (mbr_magic s) = 8 \<and> length (mbr_device_uuid s) = 16 \<and> length (mbr_reserved s) = 4044"

interpretation mbr: codec enc_mbr dec_mbr 4096 wf_mbr
proof unfold_locales
  fix s :: nebula_mbr assume wf: "wf_mbr s"
  show "length (enc_mbr s) = 4096" using wf by (simp add: enc_mbr_def wf_mbr_def)
  show "dec_mbr (enc_mbr s) = s" using wf by (simp add: enc_mbr_def dec_mbr_def wf_mbr_def enc_reads)
next
  fix bs :: "byte list" assume len: "length bs = 4096"
  show "enc_mbr (dec_mbr bs) = bs" using len
    by (simp add: enc_mbr_def dec_mbr_def wf_mbr_def le_at seg_append_drop seg_join_end seg_take_drop)
  show "wf_mbr (dec_mbr bs)" using len by (simp add: dec_mbr_def wf_mbr_def)
qed

interpretation mbr: sealed_codec enc_mbr dec_mbr 4096 wf_mbr mbr_checksum
  "\<lambda>c s. s\<lparr>mbr_checksum := c\<rparr>" 48
proof unfold_locales
  fix s :: nebula_mbr and c :: u32 assume wf: "wf_mbr s"
  show "enc_mbr (s\<lparr>mbr_checksum := c\<rparr>) = put 48 (le32 c) (enc_mbr s)"
    using wf by (simp add: enc_mbr_def wf_mbr_def put_enc)
  show "wf_mbr (s\<lparr>mbr_checksum := c\<rparr>)" using wf by (simp add: wf_mbr_def)
qed (simp_all add: dec_mbr_def)

section \<open>Superblock\<close>

record nebula_superblock =
  sb_magic :: u64
  sb_version_major :: u16
  sb_version_minor :: u16
  sb_inode_size :: u32
  sb_device_uuid :: "byte list"
  sb_device_capacity_blocks :: u64
  sb_uberblock_lba :: u64
  sb_uberblock_count :: u32
  sb_pad0 :: u32
  sb_alloc_roots_head_lba :: u64
  sb_alloc_roots_tail_lba :: u64
  sb_bitmap_lba :: u64
  sb_bitmap_block_count :: u64
  sb_stream_map_lba :: u64
  sb_stream_map_block_count :: u64
  sb_inode_page_lba :: u64
  sb_inode_page_block_count :: u64
  sb_dir_page_lba :: u64
  sb_dir_page_block_count :: u64
  sb_data_start_lba :: u64
  sb_data_block_count :: u64
  sb_sb_tail_lba :: u64
  sb_checksum :: u32
  sb_pad1 :: u32
  sb_reserved :: "byte list"

definition enc_sb :: "nebula_superblock \<Rightarrow> byte list" where
  "enc_sb s =
    le64 (sb_magic s) @ le16 (sb_version_major s) @ le16 (sb_version_minor s) @
    le32 (sb_inode_size s) @ sb_device_uuid s @ le64 (sb_device_capacity_blocks s) @
    le64 (sb_uberblock_lba s) @ le32 (sb_uberblock_count s) @ le32 (sb_pad0 s) @
    le64 (sb_alloc_roots_head_lba s) @ le64 (sb_alloc_roots_tail_lba s) @
    le64 (sb_bitmap_lba s) @ le64 (sb_bitmap_block_count s) @ le64 (sb_stream_map_lba s) @
    le64 (sb_stream_map_block_count s) @ le64 (sb_inode_page_lba s) @
    le64 (sb_inode_page_block_count s) @ le64 (sb_dir_page_lba s) @
    le64 (sb_dir_page_block_count s) @ le64 (sb_data_start_lba s) @
    le64 (sb_data_block_count s) @ le64 (sb_sb_tail_lba s) @ le32 (sb_checksum s) @
    le32 (sb_pad1 s) @ sb_reserved s"

definition dec_sb :: "byte list \<Rightarrow> nebula_superblock" where
  "dec_sb bs = \<lparr>
    sb_magic = u64_at 0 bs, sb_version_major = u16_at 8 bs, sb_version_minor = u16_at 10 bs,
    sb_inode_size = u32_at 12 bs, sb_device_uuid = seg 16 16 bs,
    sb_device_capacity_blocks = u64_at 32 bs, sb_uberblock_lba = u64_at 40 bs,
    sb_uberblock_count = u32_at 48 bs, sb_pad0 = u32_at 52 bs,
    sb_alloc_roots_head_lba = u64_at 56 bs, sb_alloc_roots_tail_lba = u64_at 64 bs,
    sb_bitmap_lba = u64_at 72 bs, sb_bitmap_block_count = u64_at 80 bs,
    sb_stream_map_lba = u64_at 88 bs, sb_stream_map_block_count = u64_at 96 bs,
    sb_inode_page_lba = u64_at 104 bs, sb_inode_page_block_count = u64_at 112 bs,
    sb_dir_page_lba = u64_at 120 bs, sb_dir_page_block_count = u64_at 128 bs,
    sb_data_start_lba = u64_at 136 bs, sb_data_block_count = u64_at 144 bs,
    sb_sb_tail_lba = u64_at 152 bs, sb_checksum = u32_at 160 bs, sb_pad1 = u32_at 164 bs,
    sb_reserved = drop 168 bs\<rparr>"

definition wf_sb :: "nebula_superblock \<Rightarrow> bool" where
  "wf_sb s \<longleftrightarrow> length (sb_device_uuid s) = 16 \<and> length (sb_reserved s) = 3928"

interpretation sb: codec enc_sb dec_sb 4096 wf_sb
proof unfold_locales
  fix s :: nebula_superblock assume wf: "wf_sb s"
  show "length (enc_sb s) = 4096" using wf by (simp add: enc_sb_def wf_sb_def)
  show "dec_sb (enc_sb s) = s" using wf by (simp add: enc_sb_def dec_sb_def wf_sb_def enc_reads)
next
  fix bs :: "byte list" assume len: "length bs = 4096"
  show "enc_sb (dec_sb bs) = bs" using len
    by (simp add: enc_sb_def dec_sb_def wf_sb_def le_at seg_append_drop seg_join_end seg_take_drop)
  show "wf_sb (dec_sb bs)" using len by (simp add: dec_sb_def wf_sb_def)
qed

interpretation sb: sealed_codec enc_sb dec_sb 4096 wf_sb sb_checksum
  "\<lambda>c s. s\<lparr>sb_checksum := c\<rparr>" 160
proof unfold_locales
  fix s :: nebula_superblock and c :: u32 assume wf: "wf_sb s"
  show "enc_sb (s\<lparr>sb_checksum := c\<rparr>) = put 160 (le32 c) (enc_sb s)"
    using wf by (simp add: enc_sb_def wf_sb_def put_enc)
  show "wf_sb (s\<lparr>sb_checksum := c\<rparr>)" using wf by (simp add: wf_sb_def)
qed (simp_all add: dec_sb_def)

section \<open>Uberblock\<close>

record nebula_uberblock =
  ub_magic :: u64
  ub_txg_id :: u64
  ub_timestamp_ns :: u64
  ub_bitmap_root_lba :: u64
  ub_stream_map_lba :: u64
  ub_stream_map_head_offset :: u64
  ub_alloc_roots_count :: u32
  ub_checksum :: u32
  ub_reserved :: "byte list"

definition enc_ub :: "nebula_uberblock \<Rightarrow> byte list" where
  "enc_ub s =
    le64 (ub_magic s) @ le64 (ub_txg_id s) @ le64 (ub_timestamp_ns s) @
    le64 (ub_bitmap_root_lba s) @ le64 (ub_stream_map_lba s) @
    le64 (ub_stream_map_head_offset s) @ le32 (ub_alloc_roots_count s) @
    le32 (ub_checksum s) @ ub_reserved s"

definition dec_ub :: "byte list \<Rightarrow> nebula_uberblock" where
  "dec_ub bs = \<lparr>
    ub_magic = u64_at 0 bs, ub_txg_id = u64_at 8 bs, ub_timestamp_ns = u64_at 16 bs,
    ub_bitmap_root_lba = u64_at 24 bs, ub_stream_map_lba = u64_at 32 bs,
    ub_stream_map_head_offset = u64_at 40 bs, ub_alloc_roots_count = u32_at 48 bs,
    ub_checksum = u32_at 52 bs, ub_reserved = drop 56 bs\<rparr>"

definition wf_ub :: "nebula_uberblock \<Rightarrow> bool" where
  "wf_ub s \<longleftrightarrow> length (ub_reserved s) = 4040"

interpretation ub: codec enc_ub dec_ub 4096 wf_ub
proof unfold_locales
  fix s :: nebula_uberblock assume wf: "wf_ub s"
  show "length (enc_ub s) = 4096" using wf by (simp add: enc_ub_def wf_ub_def)
  show "dec_ub (enc_ub s) = s" using wf by (simp add: enc_ub_def dec_ub_def wf_ub_def enc_reads)
next
  fix bs :: "byte list" assume len: "length bs = 4096"
  show "enc_ub (dec_ub bs) = bs" using len
    by (simp add: enc_ub_def dec_ub_def wf_ub_def le_at seg_append_drop seg_join_end seg_take_drop)
  show "wf_ub (dec_ub bs)" using len by (simp add: dec_ub_def wf_ub_def)
qed

interpretation ub: sealed_codec enc_ub dec_ub 4096 wf_ub ub_checksum
  "\<lambda>c s. s\<lparr>ub_checksum := c\<rparr>" 52
proof unfold_locales
  fix s :: nebula_uberblock and c :: u32 assume wf: "wf_ub s"
  show "enc_ub (s\<lparr>ub_checksum := c\<rparr>) = put 52 (le32 c) (enc_ub s)"
    using wf by (simp add: enc_ub_def wf_ub_def put_enc)
  show "wf_ub (s\<lparr>ub_checksum := c\<rparr>)" using wf by (simp add: wf_ub_def)
qed (simp_all add: dec_ub_def)

section \<open>Allocator root\<close>

record nebula_allocator_root =
  ar_root_id :: u32
  ar_pad0 :: u32
  ar_range_start_block :: u64
  ar_range_end_block :: u64
  ar_free_block_count :: u64
  ar_last_alloc_hint :: u64
  ar_bitmap_region_lba :: u64
  ar_stream_map_region_lba :: u64
  ar_checksum :: u32
  ar_reserved :: "byte list"

definition enc_ar :: "nebula_allocator_root \<Rightarrow> byte list" where
  "enc_ar s =
    le32 (ar_root_id s) @ le32 (ar_pad0 s) @ le64 (ar_range_start_block s) @
    le64 (ar_range_end_block s) @ le64 (ar_free_block_count s) @ le64 (ar_last_alloc_hint s) @
    le64 (ar_bitmap_region_lba s) @ le64 (ar_stream_map_region_lba s) @ le32 (ar_checksum s) @
    ar_reserved s"

definition dec_ar :: "byte list \<Rightarrow> nebula_allocator_root" where
  "dec_ar bs = \<lparr>
    ar_root_id = u32_at 0 bs, ar_pad0 = u32_at 4 bs, ar_range_start_block = u64_at 8 bs,
    ar_range_end_block = u64_at 16 bs, ar_free_block_count = u64_at 24 bs,
    ar_last_alloc_hint = u64_at 32 bs, ar_bitmap_region_lba = u64_at 40 bs,
    ar_stream_map_region_lba = u64_at 48 bs, ar_checksum = u32_at 56 bs,
    ar_reserved = drop 60 bs\<rparr>"

definition wf_ar :: "nebula_allocator_root \<Rightarrow> bool" where
  "wf_ar s \<longleftrightarrow> length (ar_reserved s) = 4"

interpretation ar: codec enc_ar dec_ar 64 wf_ar
proof unfold_locales
  fix s :: nebula_allocator_root assume wf: "wf_ar s"
  show "length (enc_ar s) = 64" using wf by (simp add: enc_ar_def wf_ar_def)
  show "dec_ar (enc_ar s) = s" using wf by (simp add: enc_ar_def dec_ar_def wf_ar_def enc_reads)
next
  fix bs :: "byte list" assume len: "length bs = 64"
  show "enc_ar (dec_ar bs) = bs" using len
    by (simp add: enc_ar_def dec_ar_def wf_ar_def le_at seg_append_drop seg_join_end seg_take_drop)
  show "wf_ar (dec_ar bs)" using len by (simp add: dec_ar_def wf_ar_def)
qed

interpretation ar: sealed_codec enc_ar dec_ar 64 wf_ar ar_checksum
  "\<lambda>c s. s\<lparr>ar_checksum := c\<rparr>" 56
proof unfold_locales
  fix s :: nebula_allocator_root and c :: u32 assume wf: "wf_ar s"
  show "enc_ar (s\<lparr>ar_checksum := c\<rparr>) = put 56 (le32 c) (enc_ar s)"
    using wf by (simp add: enc_ar_def wf_ar_def put_enc)
  show "wf_ar (s\<lparr>ar_checksum := c\<rparr>)" using wf by (simp add: wf_ar_def)
qed (simp_all add: dec_ar_def)

section \<open>Extent map entry\<close>

record nebula_extent_map_entry =
  em_offset :: u64
  em_size_and_flags :: u32
  em_lba :: u32

definition enc_em :: "nebula_extent_map_entry \<Rightarrow> byte list" where
  "enc_em s =
    le64 (em_offset s) @ le32 (em_size_and_flags s) @ le32 (em_lba s)"

definition dec_em :: "byte list \<Rightarrow> nebula_extent_map_entry" where
  "dec_em bs = \<lparr>
    em_offset = u64_at 0 bs, em_size_and_flags = u32_at 8 bs, em_lba = u32_at 12 bs\<rparr>"

definition wf_em :: "nebula_extent_map_entry \<Rightarrow> bool" where
  "wf_em s \<longleftrightarrow> True"

interpretation em: codec enc_em dec_em 16 wf_em
proof unfold_locales
  fix s :: nebula_extent_map_entry assume wf: "wf_em s"
  show "length (enc_em s) = 16" using wf by (simp add: enc_em_def wf_em_def)
  show "dec_em (enc_em s) = s" using wf by (simp add: enc_em_def dec_em_def wf_em_def enc_reads)
next
  fix bs :: "byte list" assume len: "length bs = 16"
  show "enc_em (dec_em bs) = bs" using len
    by (simp add: enc_em_def dec_em_def wf_em_def le_at seg_append_drop seg_join_end seg_take_drop)
  show "wf_em (dec_em bs)" using len by (simp add: dec_em_def wf_em_def)
qed

lemma list_all_wf_em [simp]: "list_all wf_em xs"
  by (simp add: list_all_iff wf_em_def)

section \<open>Inode\<close>

record nebula_inode =
  ino_magic :: u32
  ino_version :: u32
  ino_inode_num :: u64
  ino_type :: u32
  ino_mode :: u32
  ino_size_bytes :: u64
  ino_alloc_size_bytes :: u64
  ino_atime_ns :: u64
  ino_mtime_ns :: u64
  ino_ctime_ns :: u64
  ino_nlink :: u32
  ino_flags :: u32
  ino_checksum :: u32
  ino_attr_reserved :: "byte list"
  ino_extents :: "nebula_extent_map_entry list"

definition enc_ino :: "nebula_inode \<Rightarrow> byte list" where
  "enc_ino s =
    le32 (ino_magic s) @ le32 (ino_version s) @ le64 (ino_inode_num s) @ le32 (ino_type s) @
    le32 (ino_mode s) @ le64 (ino_size_bytes s) @ le64 (ino_alloc_size_bytes s) @
    le64 (ino_atime_ns s) @ le64 (ino_mtime_ns s) @ le64 (ino_ctime_ns s) @
    le32 (ino_nlink s) @ le32 (ino_flags s) @ le32 (ino_checksum s) @ ino_attr_reserved s @
    enc_array enc_em (ino_extents s)"

definition dec_ino :: "byte list \<Rightarrow> nebula_inode" where
  "dec_ino bs = \<lparr>
    ino_magic = u32_at 0 bs, ino_version = u32_at 4 bs, ino_inode_num = u64_at 8 bs,
    ino_type = u32_at 16 bs, ino_mode = u32_at 20 bs, ino_size_bytes = u64_at 24 bs,
    ino_alloc_size_bytes = u64_at 32 bs, ino_atime_ns = u64_at 40 bs,
    ino_mtime_ns = u64_at 48 bs, ino_ctime_ns = u64_at 56 bs, ino_nlink = u32_at 64 bs,
    ino_flags = u32_at 68 bs, ino_checksum = u32_at 72 bs, ino_attr_reserved = seg 76 52 bs,
    ino_extents = dec_array dec_em 16 248 (drop 128 bs)\<rparr>"

definition wf_ino :: "nebula_inode \<Rightarrow> bool" where
  "wf_ino s \<longleftrightarrow> length (ino_attr_reserved s) = 52 \<and> length (ino_extents s) = 248"

interpretation ino: codec enc_ino dec_ino 4096 wf_ino
proof unfold_locales
  fix s :: nebula_inode assume wf: "wf_ino s"
  show "length (enc_ino s) = 4096" using wf by (simp add: enc_ino_def wf_ino_def em.length_enc_array em.dec_enc_array em.enc_dec_array)
  show "dec_ino (enc_ino s) = s" using wf by (simp add: enc_ino_def dec_ino_def wf_ino_def enc_reads em.length_enc_array em.dec_enc_array em.enc_dec_array)
next
  fix bs :: "byte list" assume len: "length bs = 4096"
  show "enc_ino (dec_ino bs) = bs" using len
    by (simp add: enc_ino_def dec_ino_def wf_ino_def le_at seg_append_drop seg_join_end seg_take_drop em.length_enc_array em.dec_enc_array em.enc_dec_array)
  show "wf_ino (dec_ino bs)" using len by (simp add: dec_ino_def wf_ino_def)
qed

interpretation ino: sealed_codec enc_ino dec_ino 4096 wf_ino ino_checksum
  "\<lambda>c s. s\<lparr>ino_checksum := c\<rparr>" 72
proof unfold_locales
  fix s :: nebula_inode and c :: u32 assume wf: "wf_ino s"
  show "enc_ino (s\<lparr>ino_checksum := c\<rparr>) = put 72 (le32 c) (enc_ino s)"
    using wf by (simp add: enc_ino_def wf_ino_def put_enc)
  show "wf_ino (s\<lparr>ino_checksum := c\<rparr>)" using wf by (simp add: wf_ino_def)
qed (simp_all add: dec_ino_def)

section \<open>Directory page header\<close>

record nebula_dir_page_header =
  dh_magic :: u64
  dh_version :: u32
  dh_entry_size :: u32
  dh_capacity :: u64
  dh_num_entries :: u64
  dh_checksum :: u32
  dh_reserved :: "byte list"

definition enc_dh :: "nebula_dir_page_header \<Rightarrow> byte list" where
  "enc_dh s =
    le64 (dh_magic s) @ le32 (dh_version s) @ le32 (dh_entry_size s) @ le64 (dh_capacity s) @
    le64 (dh_num_entries s) @ le32 (dh_checksum s) @ dh_reserved s"

definition dec_dh :: "byte list \<Rightarrow> nebula_dir_page_header" where
  "dec_dh bs = \<lparr>
    dh_magic = u64_at 0 bs, dh_version = u32_at 8 bs, dh_entry_size = u32_at 12 bs,
    dh_capacity = u64_at 16 bs, dh_num_entries = u64_at 24 bs, dh_checksum = u32_at 32 bs,
    dh_reserved = drop 36 bs\<rparr>"

definition wf_dh :: "nebula_dir_page_header \<Rightarrow> bool" where
  "wf_dh s \<longleftrightarrow> length (dh_reserved s) = 4060"

interpretation dh: codec enc_dh dec_dh 4096 wf_dh
proof unfold_locales
  fix s :: nebula_dir_page_header assume wf: "wf_dh s"
  show "length (enc_dh s) = 4096" using wf by (simp add: enc_dh_def wf_dh_def)
  show "dec_dh (enc_dh s) = s" using wf by (simp add: enc_dh_def dec_dh_def wf_dh_def enc_reads)
next
  fix bs :: "byte list" assume len: "length bs = 4096"
  show "enc_dh (dec_dh bs) = bs" using len
    by (simp add: enc_dh_def dec_dh_def wf_dh_def le_at seg_append_drop seg_join_end seg_take_drop)
  show "wf_dh (dec_dh bs)" using len by (simp add: dec_dh_def wf_dh_def)
qed

interpretation dh: sealed_codec enc_dh dec_dh 4096 wf_dh dh_checksum
  "\<lambda>c s. s\<lparr>dh_checksum := c\<rparr>" 32
proof unfold_locales
  fix s :: nebula_dir_page_header and c :: u32 assume wf: "wf_dh s"
  show "enc_dh (s\<lparr>dh_checksum := c\<rparr>) = put 32 (le32 c) (enc_dh s)"
    using wf by (simp add: enc_dh_def wf_dh_def put_enc)
  show "wf_dh (s\<lparr>dh_checksum := c\<rparr>)" using wf by (simp add: wf_dh_def)
qed (simp_all add: dec_dh_def)

section \<open>Directory entry\<close>

record nebula_dir_entry =
  de_hash :: u64
  de_inode_num :: u64
  de_name_len :: u16
  de_flags :: u16
  de_pad0 :: u32
  de_name :: "byte list"

definition enc_de :: "nebula_dir_entry \<Rightarrow> byte list" where
  "enc_de s =
    le64 (de_hash s) @ le64 (de_inode_num s) @ le16 (de_name_len s) @ le16 (de_flags s) @
    le32 (de_pad0 s) @ de_name s"

definition dec_de :: "byte list \<Rightarrow> nebula_dir_entry" where
  "dec_de bs = \<lparr>
    de_hash = u64_at 0 bs, de_inode_num = u64_at 8 bs, de_name_len = u16_at 16 bs,
    de_flags = u16_at 18 bs, de_pad0 = u32_at 20 bs, de_name = drop 24 bs\<rparr>"

definition wf_de :: "nebula_dir_entry \<Rightarrow> bool" where
  "wf_de s \<longleftrightarrow> length (de_name s) = 1000"

interpretation de: codec enc_de dec_de 1024 wf_de
proof unfold_locales
  fix s :: nebula_dir_entry assume wf: "wf_de s"
  show "length (enc_de s) = 1024" using wf by (simp add: enc_de_def wf_de_def)
  show "dec_de (enc_de s) = s" using wf by (simp add: enc_de_def dec_de_def wf_de_def enc_reads)
next
  fix bs :: "byte list" assume len: "length bs = 1024"
  show "enc_de (dec_de bs) = bs" using len
    by (simp add: enc_de_def dec_de_def wf_de_def le_at seg_append_drop seg_join_end seg_take_drop)
  show "wf_de (dec_de bs)" using len by (simp add: dec_de_def wf_de_def)
qed
end
