(* ===== verification/Nebula_Io.thy ===== *)
theory Nebula_Io
  imports Nebula_Format
begin

text \<open>
  Block I/O: the dispatch of \<open>include/nebula/nebula_io.h\<close> over the operation table of
  \<open>src/io/nebula_io_internal.h\<close>, and the POSIX backend of \<open>src/io/nebula_io_posix.c\<close>.

  A handle carries its operation table, so everything above this theory is written against an
  arbitrary backend with state \<open>'d\<close>.  The interface \<open>block_backend\<close> states what those layers
  rely on; the POSIX backend is an interpretation of it.  The operating system is a pair of finite
  scripts: each transfer consumes an outcome of the first (a transfer of at most so many bytes, or an
  errno such as \<open>EINTR\<close>), each \<open>fsync\<close> one of the second, and a call with no scripted outcome
  transfers all it can, or succeeds.  Every short read, short write, interrupted call and I/O error is
  therefore a run of the model.
\<close>

section \<open>The operation table and the dispatchers\<close>

record 'd nebula_io_ops =
  ops_read :: "u64 \<Rightarrow> 'd \<Rightarrow> u64 \<Rightarrow> u32 \<Rightarrow> byte list res \<times> 'd"
  ops_write :: "u64 \<Rightarrow> 'd \<Rightarrow> u64 \<Rightarrow> u32 \<Rightarrow> byte list \<Rightarrow> unit res \<times> 'd"
  ops_flush :: "'d \<Rightarrow> unit res \<times> 'd"

record 'd nebula_io =
  io_ops :: "'d nebula_io_ops"
  io_capacity_blocks :: u64
  io_dev :: 'd

definition nebula_io_capacity_blocks :: "'d nebula_io \<Rightarrow> u64" where
  "nebula_io_capacity_blocks io = io_capacity_blocks io"

definition nebula_io_read :: "'d nebula_io \<Rightarrow> u64 \<Rightarrow> u32 \<Rightarrow> byte list res \<times> 'd nebula_io" where
  "nebula_io_read io lba n_blocks =
     (case ops_read (io_ops io) (io_capacity_blocks io) (io_dev io) lba n_blocks of
        (r, d) \<Rightarrow> (r, io\<lparr>io_dev := d\<rparr>))"

definition nebula_io_write ::
    "'d nebula_io \<Rightarrow> u64 \<Rightarrow> u32 \<Rightarrow> byte list \<Rightarrow> unit res \<times> 'd nebula_io" where
  "nebula_io_write io lba n_blocks buf =
     (case ops_write (io_ops io) (io_capacity_blocks io) (io_dev io) lba n_blocks buf of
        (r, d) \<Rightarrow> (r, io\<lparr>io_dev := d\<rparr>))"

definition nebula_io_flush :: "'d nebula_io \<Rightarrow> unit res \<times> 'd nebula_io" where
  "nebula_io_flush io = (case ops_flush (io_ops io) (io_dev io) of (r, d) \<Rightarrow> (r, io\<lparr>io_dev := d\<rparr>))"

section \<open>The POSIX backend\<close>

datatype sys_result = Transfer nat | Fail errno

record posix_dev =
  pf_bytes :: "nat \<Rightarrow> byte"
  pf_size :: nat
  pf_script :: "sys_result list"
  pf_fsync :: "errno option list"

text \<open>
  \<open>pread\<close> and \<open>pwrite\<close>: a negative \<open>off_t\<close> is rejected with \<open>EINVAL\<close>; a read stops at the
  end of the file; a write past the end extends the file.
\<close>

definition sys_pread :: "posix_dev \<Rightarrow> nat \<Rightarrow> u64 \<Rightarrow> byte list res \<times> posix_dev" where
  "sys_pread d count off =
     (if bit off 63 then (Inl EINVAL, d)
      else
        let a = unat off; avail = min count (pf_size d - a) in
        case pf_script d of
          [] \<Rightarrow> (Inr (map (pf_bytes d) [a..<a + avail]), d)
        | Fail e # s \<Rightarrow> (Inl e, d\<lparr>pf_script := s\<rparr>)
        | Transfer k # s \<Rightarrow> (Inr (map (pf_bytes d) [a..<a + min k avail]), d\<lparr>pf_script := s\<rparr>))"

definition pf_store :: "posix_dev \<Rightarrow> nat \<Rightarrow> byte list \<Rightarrow> posix_dev" where
  "pf_store d a bs = d\<lparr>
     pf_bytes := (\<lambda>i. if a \<le> i \<and> i < a + length bs then bs ! (i - a) else pf_bytes d i),
     pf_size := (if bs = [] then pf_size d else max (pf_size d) (a + length bs))\<rparr>"

definition sys_pwrite :: "posix_dev \<Rightarrow> byte list \<Rightarrow> u64 \<Rightarrow> nat res \<times> posix_dev" where
  "sys_pwrite d bs off =
     (if bit off 63 then (Inl EINVAL, d)
      else
        case pf_script d of
          [] \<Rightarrow> (Inr (length bs), pf_store d (unat off) bs)
        | Fail e # s \<Rightarrow> (Inl e, d\<lparr>pf_script := s\<rparr>)
        | Transfer k # s \<Rightarrow>
            (Inr (min k (length bs)), (pf_store d (unat off) (take k bs))\<lparr>pf_script := s\<rparr>))"

lemma sys_pread_cases:
  assumes "sys_pread d count off = (r, d')"
  shows "pf_bytes d' = pf_bytes d" "pf_size d' = pf_size d"
    "length (pf_script d') \<le> length (pf_script d)"
    "r = Inl EINTR \<Longrightarrow> length (pf_script d') < length (pf_script d)"
    "set (pf_script d') \<subseteq> set (pf_script d) \<and> pf_fsync d' = pf_fsync d"
    "r = Inr bs \<Longrightarrow> \<not> bit off 63 \<and> length bs \<le> count \<and> unat off + length bs \<le> max (unat off) (pf_size d)
       \<and> bs = map (pf_bytes d) [unat off..<unat off + length bs]"
  using assms
  by (auto simp: sys_pread_def Let_def split: if_splits list.splits sys_result.splits)

lemma sys_pread_retry:
  "(Inl EINTR, d') = sys_pread d n off \<Longrightarrow> length (pf_script d') < length (pf_script d)"
  by (rule sys_pread_cases(4) [OF sym]) simp_all

lemma sys_pread_progress:
  "(Inr bs, d') = sys_pread d n off \<Longrightarrow> length (pf_script d') \<le> length (pf_script d)"
  by (rule sys_pread_cases(3) [OF sym])

text \<open>
  The transfer loops.  An interrupted call is retried, a call that transfers nothing ends the loop
  with \<open>EIO\<close>, any other error is returned.  Each turn consumes an outcome of the script or moves
  at least one byte.
\<close>

function posix_read_loop :: "posix_dev \<Rightarrow> u64 \<Rightarrow> nat \<Rightarrow> byte list \<Rightarrow> byte list res \<times> posix_dev" where
  "posix_read_loop d off tot dst =
     (if length dst < tot then
        (case sys_pread d (tot - length dst) (off + of_nat (length dst)) of
           (Inl e, d') \<Rightarrow> if e = EINTR then posix_read_loop d' off tot dst else (Inl e, d')
         | (Inr bs, d') \<Rightarrow>
             if bs = [] then (Inl EIO, d') else posix_read_loop d' off tot (dst @ bs))
      else (Inr dst, d))"
  by pat_completeness auto
termination
  by (relation "measure (\<lambda>(d, off, tot, dst). length (pf_script d) + (tot - length dst))")
     (auto dest!: sys_pread_progress sys_pread_retry simp flip: length_greater_0_conv)

declare posix_read_loop.simps [simp del]

lemma sys_pwrite_cases:
  assumes "sys_pwrite d bs off = (r, d')"
  shows "length (pf_script d') \<le> length (pf_script d)"
    "r = Inl EINTR \<Longrightarrow> length (pf_script d') < length (pf_script d)"
    "set (pf_script d') \<subseteq> set (pf_script d) \<and> pf_fsync d' = pf_fsync d"
    "r = Inl e \<Longrightarrow> pf_bytes d' = pf_bytes d \<and> pf_size d' = pf_size d"
    "r = Inr k \<Longrightarrow> \<not> bit off 63 \<and> k \<le> length bs
       \<and> pf_bytes d' = pf_bytes (pf_store d (unat off) (take k bs))
       \<and> pf_size d' = (if k = 0 then pf_size d else max (pf_size d) (unat off + k))"
  using assms
  by (auto simp: sys_pwrite_def pf_store_def min_def fun_eq_iff split: if_splits list.splits sys_result.splits)

lemma sys_pwrite_retry:
  "(Inl EINTR, d') = sys_pwrite d bs off \<Longrightarrow> length (pf_script d') < length (pf_script d)"
  by (rule sys_pwrite_cases(2) [OF sym]) simp_all

lemma sys_pwrite_progress:
  "(Inr w, d') = sys_pwrite d bs off \<Longrightarrow> length (pf_script d') \<le> length (pf_script d)"
  by (rule sys_pwrite_cases(1) [OF sym])

function posix_write_loop :: "posix_dev \<Rightarrow> u64 \<Rightarrow> byte list \<Rightarrow> nat \<Rightarrow> unit res \<times> posix_dev" where
  "posix_write_loop d off src done1 =
     (if done1 < length src then
        (case sys_pwrite d (drop done1 src) (off + of_nat done1) of
           (Inl e, d') \<Rightarrow> if e = EINTR then posix_write_loop d' off src done1 else (Inl e, d')
         | (Inr w, d') \<Rightarrow>
             if w = 0 then (Inl EIO, d') else posix_write_loop d' off src (done1 + w))
      else (Inr (), d))"
  by pat_completeness auto
termination
  by (relation "measure (\<lambda>(d, off, src, done1). length (pf_script d) + (length src - done1))")
     (auto dest!: sys_pwrite_progress sys_pwrite_retry)

declare posix_write_loop.simps [simp del]

definition posix_read :: "u64 \<Rightarrow> posix_dev \<Rightarrow> u64 \<Rightarrow> u32 \<Rightarrow> byte list res \<times> posix_dev" where
  "posix_read capacity_blocks d lba n_blocks =
     (if lba + ucast n_blocks > capacity_blocks then (Inl ERANGE, d)
      else posix_read_loop d (push_bit 12 lba) (unat n_blocks * NEBULA_BLOCK_SIZE) [])"

definition posix_write :: "u64 \<Rightarrow> posix_dev \<Rightarrow> u64 \<Rightarrow> u32 \<Rightarrow> byte list \<Rightarrow> unit res \<times> posix_dev" where
  "posix_write capacity_blocks d lba n_blocks buf =
     (if lba + ucast n_blocks > capacity_blocks then (Inl ERANGE, d)
      else posix_write_loop d (push_bit 12 lba) (take (unat n_blocks * NEBULA_BLOCK_SIZE) buf) 0)"

definition posix_flush :: "posix_dev \<Rightarrow> unit res \<times> posix_dev" where
  "posix_flush d = (case pf_fsync d of
       [] \<Rightarrow> (Inr (), d)
     | None # s \<Rightarrow> (Inr (), d\<lparr>pf_fsync := s\<rparr>)
     | Some e # s \<Rightarrow> (Inl e, d\<lparr>pf_fsync := s\<rparr>))"

definition posix_ops :: "posix_dev nebula_io_ops" where
  "posix_ops = \<lparr>ops_read = posix_read, ops_write = posix_write, ops_flush = posix_flush\<rparr>"

text \<open>
  The factory.  The outcome of \<open>open\<close> (the file, or an errno) and of \<open>ftruncate\<close> and \<open>fstat\<close> are
  arguments; \<open>ftruncate\<close> keeps the bytes below the new size and reads zero beyond the old one.
\<close>

definition pf_truncate :: "posix_dev \<Rightarrow> nat \<Rightarrow> posix_dev" where
  "pf_truncate d n =
     d\<lparr>pf_bytes := (\<lambda>i. if i < pf_size d then pf_bytes d i else 0), pf_size := n\<rparr>"

definition nebula_io_open ::
    "posix_dev res \<Rightarrow> bool \<Rightarrow> u64 \<Rightarrow> errno option \<Rightarrow> errno option \<Rightarrow> posix_dev nebula_io res" where
  "nebula_io_open opened create size_bytes truncated stated =
     (case opened of
        Inl e \<Rightarrow> Inl e
      | Inr d \<Rightarrow>
          (case (if create \<and> size_bytes > 0 then truncated else None) of
             Some e \<Rightarrow> Inl e
           | None \<Rightarrow>
               let d1 = (if create \<and> size_bytes > 0 then pf_truncate d (unat size_bytes) else d) in
               case stated of
                 Some e \<Rightarrow> Inl e
               | None \<Rightarrow>
                   if pf_size d1 < NEBULA_BLOCK_SIZE then Inl EINVAL
                   else Inr \<lparr>io_ops = posix_ops,
                             io_capacity_blocks = of_nat (pf_size d1 div NEBULA_BLOCK_SIZE),
                             io_dev = d1\<rparr>))"

section \<open>What the file system relies on\<close>

text \<open>
  The contract of a backend.  \<open>blk d i\<close> is the content of block \<open>i\<close>.  A read that succeeds was in
  range and returns the blocks it names; no read changes a block.  A write that succeeds was in
  range and stores exactly its buffer; a write that fails may have torn its own range but touches
  no other block.  A healthy device (one whose calls do not fail) completes every request in range.
\<close>

locale block_backend =
  fixes ops :: "'d nebula_io_ops" and blk :: "'d \<Rightarrow> nat \<Rightarrow> byte list"
    and dinv :: "u64 \<Rightarrow> 'd \<Rightarrow> bool" and healthy :: "'d \<Rightarrow> bool"
  assumes blk_length: "length (blk d i) = 4096"
    and cap_bound: "dinv cap d \<Longrightarrow> unat cap \<le> 2 ^ 51"
    and read_frame: "dinv cap d \<Longrightarrow> ops_read ops cap d lba n = (r, d') \<Longrightarrow>
          dinv cap d' \<and> blk d' = blk d \<and> (healthy d \<longrightarrow> healthy d')"
    and read_ok: "dinv cap d \<Longrightarrow> ops_read ops cap d lba n = (Inr bs, d') \<Longrightarrow>
          unat lba + unat n \<le> unat cap \<and> bs = concat (map (blk d) [unat lba..<unat lba + unat n])"
    and read_succeeds: "dinv cap d \<Longrightarrow> healthy d \<Longrightarrow> unat lba + unat n \<le> unat cap \<Longrightarrow>
          \<exists>bs d'. ops_read ops cap d lba n = (Inr bs, d')"
    and write_frame: "dinv cap d \<Longrightarrow> ops_write ops cap d lba n buf = (rw, d') \<Longrightarrow>
          dinv cap d' \<and> (healthy d \<longrightarrow> healthy d')
          \<and> (\<forall>i. i < unat lba \<or> unat lba + unat n \<le> i \<longrightarrow> blk d' i = blk d i)"
    and write_ok: "dinv cap d \<Longrightarrow> unat n * 4096 \<le> length buf \<Longrightarrow>
          ops_write ops cap d lba n buf = (Inr u, d') \<Longrightarrow>
          unat lba + unat n \<le> unat cap \<and>
          (\<forall>i. unat lba \<le> i \<and> i < unat lba + unat n \<longrightarrow>
             blk d' i = seg (4096 * (i - unat lba)) 4096 buf)"
    and write_succeeds: "dinv cap d \<Longrightarrow> healthy d \<Longrightarrow> unat lba + unat n \<le> unat cap \<Longrightarrow>
          \<exists>d'. ops_write ops cap d lba n buf = (Inr (), d')"
    and flush_frame: "dinv cap d \<Longrightarrow> ops_flush ops d = (rw, d') \<Longrightarrow>
          dinv cap d' \<and> blk d' = blk d \<and> (healthy d \<longrightarrow> healthy d' \<and> rw = Inr ())"

section \<open>The POSIX backend keeps the contract\<close>

definition posix_blk :: "posix_dev \<Rightarrow> nat \<Rightarrow> byte list" where
  "posix_blk d i = map (pf_bytes d) [i * 4096..<i * 4096 + 4096]"

definition posix_inv :: "u64 \<Rightarrow> posix_dev \<Rightarrow> bool" where
  "posix_inv cap d \<longleftrightarrow> unat cap * 4096 \<le> pf_size d \<and> pf_size d < 2 ^ 63"

text \<open>
  A device whose calls do not fail: transfers may be short and may be interrupted by signals, any number
  of times, but each one that returns moves at least a byte, and \<open>fsync\<close> succeeds.
\<close>

fun benign :: "sys_result \<Rightarrow> bool" where
  "benign (Transfer k) \<longleftrightarrow> 0 < k"
| "benign (Fail e) \<longleftrightarrow> e = EINTR"

definition posix_healthy :: "posix_dev \<Rightarrow> bool" where
  "posix_healthy d \<longleftrightarrow> (\<forall>x \<in> set (pf_script d). benign x) \<and> (\<forall>x \<in> set (pf_fsync d). x = None)"

lemma posix_healthy_later:
  "posix_healthy d \<Longrightarrow> set (pf_script d') \<subseteq> set (pf_script d) \<and> pf_fsync d' = pf_fsync d \<Longrightarrow> posix_healthy d'"
  by (auto simp: posix_healthy_def)

lemma bit_63_iff: "bit (w :: u64) 63 \<longleftrightarrow> 2 ^ 63 \<le> unat w"
proof -
  have "bit w 63 \<longleftrightarrow> bit (unat w) 63" by (simp add: bit_unsigned_iff)
  also have "\<dots> \<longleftrightarrow> odd (unat w div 2 ^ 63)" by (rule bit_iff_odd)
  finally have "bit w 63 \<longleftrightarrow> odd (unat w div 2 ^ 63)" .
  moreover have "unat w div 2 ^ 63 < 2" by (rule less_mult_imp_div_less) simp
  ultimately show ?thesis by (cases "unat w div 2 ^ 63 = 0") (auto simp: div_eq_0_iff)
qed

lemma unat_off_plus: "unat off + k < 2 ^ 64 \<Longrightarrow> unat ((off :: u64) + of_nat k) = unat off + k"
  by (simp add: unat_word_ariths unat_of_nat_u64)

lemma unat_push_bit_12: "unat (lba :: u64) \<le> 2 ^ 51 \<Longrightarrow> unat (push_bit 12 lba) = unat lba * 4096"
  by (simp add: push_bit_eq_mult unat_times_if_small)

text \<open>
  The range check of both transfers, \<open>lba + n > capacity\<close> in 64-bit arithmetic.  Where the sum
  wraps around, the byte offset has its sign bit set and the system call rejects it.
\<close>

lemma posix_range_cases:
  fixes lba cap :: u64 and n :: u32
  assumes "\<not> lba + ucast n > cap" and "unat cap \<le> 2 ^ 51"
  obtains (in_range) "unat lba + unat n \<le> unat cap"
  | (wrapped) "bit (push_bit 12 lba) 63" and "0 < unat n" and "\<not> unat lba + unat n \<le> unat cap"
proof (cases "unat lba + unat n < 2 ^ 64")
  case True
  then have "unat (lba + ucast n) = unat lba + unat n" by (subst unat_plus_if_small) simp_all
  with assms(1) in_range show ?thesis by (simp add: word_less_nat_alt)
next
  case False
  have n: "unat n < 4294967296" by simp
  define k where "k = 2 ^ 64 - unat lba"
  have lba: "unat lba = 2 ^ 64 - k" "0 < k" "k \<le> unat n"
    using False unat_u64_less [of lba] by (simp_all add: k_def del: unat_u64_less)
  have k: "k < 4294967296" using lba(3) n by (rule le_less_trans)
  have "unat (push_bit 12 lba) = (4096 * unat lba) mod 2 ^ 64"
    by (simp add: push_bit_eq_mult unat_word_ariths mult.commute)
  also have "\<dots> = 2 ^ 64 - 4096 * k"
  proof -
    have "4096 * unat lba = (2 ^ 64 - 4096 * k) + 4095 * 2 ^ 64"
      using lba(1) k by simp
    moreover have "2 ^ 64 - 4096 * k < (2 ^ 64 :: nat)" using lba by simp
    ultimately show ?thesis by (metis mod_less mod_mult_self1)
  qed
  finally have "2 ^ 63 \<le> unat (push_bit 12 lba)" using k by simp
  then have "bit (push_bit 12 lba) 63" by (simp only: bit_63_iff)
  moreover have "0 < unat n" using lba by simp
  moreover have "\<not> unat lba + unat n \<le> unat cap" using False assms(2) by simp
  ultimately show ?thesis by (rule wrapped)
qed

lemma posix_read_loop_frame:
  "posix_read_loop d off tot dst = (r, d') \<Longrightarrow>
     pf_bytes d' = pf_bytes d \<and> pf_size d' = pf_size d \<and> set (pf_script d') \<subseteq> set (pf_script d) \<and> pf_fsync d' = pf_fsync d"
proof (induction d off tot dst rule: posix_read_loop.induct)
  case (1 d off tot dst)
  obtain q d1 where q: "sys_pread d (tot - length dst) (off + of_nat (length dst)) = (q, d1)"
    by (metis surj_pair)
  note pr = sys_pread_cases [OF q]
  show ?case
  proof (cases "length dst < tot")
    case False
    then show ?thesis using "1.prems" by (simp add: posix_read_loop.simps [of d off tot dst])
  next
    case True
    note ld = posix_read_loop.simps [of d off tot dst]
    show ?thesis
    proof (cases q)
      case (Inl e)
      then show ?thesis using "1.IH"(1) [OF True q [symmetric] Inl] "1.prems" True q pr(1,2,5) ld
        by (cases "e = EINTR") auto
    next
      case (Inr c)
      then show ?thesis using "1.IH"(2) [OF True q [symmetric] Inr] "1.prems" True q pr(1,2,5) ld
        by (cases "c = []") auto
    qed
  qed
qed

lemma map_upt_extend:
  assumes xs: "xs = map f [a..<a + length xs]"
    and ys: "ys = map f [a + length xs..<a + length xs + length ys]"
  shows "xs @ ys = map f [a..<a + length (xs @ ys)]"
proof (rule nth_equalityI)
  fix i assume i: "i < length (xs @ ys)"
  have 1: "xs ! j = f (a + j)" if "j < length xs" for j
    using arg_cong [OF xs, of "\<lambda>zs. zs ! j"] that by simp
  have 2: "ys ! j = f (a + length xs + j)" if "j < length ys" for j
    using arg_cong [OF ys, of "\<lambda>zs. zs ! j"] that by simp
  show "(xs @ ys) ! i = map f [a..<a + length (xs @ ys)] ! i"
    using i by (auto simp: nth_append 1 2)
qed simp

lemma posix_read_loop_ok:
  assumes "posix_read_loop d off tot dst = (Inr bs, d')"
    and "unat off + tot < 2 ^ 63" and "length dst \<le> tot"
    and "dst = map (pf_bytes d) [unat off..<unat off + length dst]"
  shows "bs = map (pf_bytes d) [unat off..<unat off + tot]"
  using assms
proof (induction d off tot dst rule: posix_read_loop.induct)
  case (1 d off tot dst)
  show ?case
  proof (cases "length dst < tot")
    case False
    then show ?thesis using "1.prems" by (subst (asm) posix_read_loop.simps) simp
  next
    case True
    obtain q d1 where q: "sys_pread d (tot - length dst) (off + of_nat (length dst)) = (q, d1)"
      by (metis surj_pair)
    note pr = sys_pread_cases [OF q]
    show ?thesis
    proof (cases q)
      case (Inl e)
      then have "e = EINTR" and "posix_read_loop d1 off tot dst = (Inr bs, d')"
        using "1.prems"(1) True q by (subst (asm) posix_read_loop.simps, simp split: if_splits)+
      then show ?thesis using "1.IH"(1) [OF True q [symmetric] Inl] "1.prems" pr(1) by simp
    next
      case (Inr c)
      then have c: "c \<noteq> []" and rec: "posix_read_loop d1 off tot (dst @ c) = (Inr bs, d')"
        using "1.prems"(1) True q by (subst (asm) posix_read_loop.simps, simp split: if_splits)+
      have at: "unat (off + of_nat (length dst)) = unat off + length dst"
        using "1.prems"(2,3) by (intro unat_off_plus) simp
      have len: "length c \<le> tot - length dst"
        and cs: "c = map (pf_bytes d) [unat off + length dst..<unat off + length dst + length c]"
        using pr(6) [OF Inr] by (simp_all only: at)
      have "dst @ c = map (pf_bytes d1) [unat off..<unat off + length (dst @ c)]"
        unfolding pr(1) by (rule map_upt_extend [OF "1.prems"(4) cs])
      then show ?thesis
        using "1.IH"(2) [OF True q [symmetric] Inr c rec] "1.prems"(2,3) len pr(1) True by simp
    qed
  qed
qed

lemma posix_read_loop_negative:
  "bit off 63 \<Longrightarrow> 0 < tot \<Longrightarrow> posix_read_loop d off tot [] = (Inl EINVAL, d)"
  by (subst posix_read_loop.simps) (simp add: sys_pread_def)

text \<open>On a healthy device a call in range either moves at least one byte or is interrupted.\<close>

lemma sys_pread_healthy:
  assumes "posix_healthy d" and "unat off + count \<le> pf_size d" and "pf_size d < 2 ^ 63" and "0 < count"
    and "sys_pread d count off = (r, d')"
  shows "posix_healthy d'" and "pf_size d' = pf_size d" and "r = Inl EINTR \<or> (\<exists>bs. r = Inr bs \<and> bs \<noteq> [] \<and> length bs \<le> count)"
proof -
  show "posix_healthy d'" "pf_size d' = pf_size d"
    using posix_healthy_later [OF assms(1)] sys_pread_cases(2,5) [OF assms(5)] by auto
  have "\<not> bit off 63" using assms(2,3) by (simp only: bit_63_iff)
  then show "r = Inl EINTR \<or> (\<exists>bs. r = Inr bs \<and> bs \<noteq> [] \<and> length bs \<le> count)"
    using assms by (cases "pf_script d") (auto simp: sys_pread_def Let_def posix_healthy_def split: sys_result.splits)
qed

lemma posix_read_loop_succeeds:
  assumes "posix_healthy d" and "unat off + tot \<le> pf_size d" and "pf_size d < 2 ^ 63" and "length dst \<le> tot"
  shows "\<exists>bs d'. posix_read_loop d off tot dst = (Inr bs, d')"
  using assms
proof (induction d off tot dst rule: posix_read_loop.induct)
  case (1 d off tot dst)
  note ld = posix_read_loop.simps [of d off tot dst]
  show ?case
  proof (cases "length dst < tot")
    case True
    obtain q d1 where q: "sys_pread d (tot - length dst) (off + of_nat (length dst)) = (q, d1)" by (rule prod.exhaust)
    have "unat (off + of_nat (length dst)) = unat off + length dst" using "1.prems"(2,3) True by (intro unat_off_plus) simp
    then have "unat (off + of_nat (length dst)) + (tot - length dst) \<le> pf_size d" using "1.prems"(2) True by simp
    note c = sys_pread_healthy [OF "1.prems"(1) this "1.prems"(3) _ q]
    have c': "posix_healthy d1" "pf_size d1 = pf_size d" using c(1,2) True by simp_all
    from c(3) True consider "q = Inl EINTR" | bs where "q = Inr bs" "bs \<noteq> []" "length bs \<le> tot - length dst" by auto
    then show ?thesis
    proof cases
      case 1
      then show ?thesis using "1.IH"(1) [OF True q [symmetric] 1] "1.prems" c' True q ld by simp
    next
      case 2
      then show ?thesis using "1.IH"(2) [OF True q [symmetric] 2(1,2)] "1.prems" c' True q ld by simp
    qed
  qed (use ld in simp)
qed

lemma posix_write_loop_spec:
  assumes "posix_write_loop d off src k = (r, d')"
    and "unat off + length src \<le> pf_size d" and "pf_size d < 2 ^ 63" and "k \<le> length src"
  shows "pf_size d' = pf_size d \<and> set (pf_script d') \<subseteq> set (pf_script d) \<and> pf_fsync d' = pf_fsync d
    \<and> (\<forall>i. i < unat off + k \<or> unat off + length src \<le> i \<longrightarrow> pf_bytes d' i = pf_bytes d i)
    \<and> (r = Inr () \<longrightarrow> (\<forall>i. unat off + k \<le> i \<and> i < unat off + length src
          \<longrightarrow> pf_bytes d' i = src ! (i - unat off)))"
  using assms
proof (induction d off src k rule: posix_write_loop.induct)
  case (1 d off src k)
  note ld = posix_write_loop.simps [of d off src k]
  show ?case
  proof (cases "k < length src")
    case False
    then show ?thesis using "1.prems" ld by auto
  next
    case True
    obtain q d1 where q: "sys_pwrite d (drop k src) (off + of_nat k) = (q, d1)"
      by (metis surj_pair)
    note pw = sys_pwrite_cases [OF q]
    show ?thesis
    proof (cases q)
      case (Inl e)
      then show ?thesis using "1.IH"(1) [OF True q [symmetric] Inl] "1.prems" True q pw(3) pw(4) ld
        by (cases "e = EINTR") auto
    next
      case (Inr w)
      have at: "unat (off + of_nat k) = unat off + k"
        using "1.prems"(2,3) True by (intro unat_off_plus) simp
      have w: "w \<le> length src - k"
        and by1: "pf_bytes d1 = pf_bytes (pf_store d (unat off + k) (take w (drop k src)))"
        and sz1: "pf_size d1 = pf_size d"
        using pw(5) [OF Inr] "1.prems"(2) True by (auto simp: at)
      have b1: "pf_bytes d1 i = (if unat off + k \<le> i \<and> i < unat off + k + w
          then src ! (i - unat off) else pf_bytes d i)" for i
        using w True by (auto simp: by1 pf_store_def)
      show ?thesis
      proof (cases "w = 0")
        case True
        then show ?thesis using Inr \<open>k < length src\<close> "1.prems" q pw(3) ld sz1 b1 by auto
      next
        case False
        then have "posix_write_loop d1 off src (k + w) = (r, d')"
          using Inr True "1.prems"(1) q ld by simp
        note IH = "1.IH"(2) [OF True q [symmetric] Inr False this]
        have rest: "pf_size d' = pf_size d \<and> set (pf_script d') \<subseteq> set (pf_script d1) \<and> pf_fsync d' = pf_fsync d1
          \<and> (\<forall>i. i < unat off + (k + w) \<or> unat off + length src \<le> i \<longrightarrow> pf_bytes d' i = pf_bytes d1 i)
          \<and> (r = Inr () \<longrightarrow> (\<forall>i. unat off + (k + w) \<le> i \<and> i < unat off + length src
                \<longrightarrow> pf_bytes d' i = src ! (i - unat off)))"
          using IH "1.prems"(2,3) w True by (simp add: sz1)
        have "pf_bytes d' i = src ! (i - unat off)"
          if "r = Inr ()" "unat off + k \<le> i" "i < unat off + length src" for i
          using rest that by (cases "i < unat off + (k + w)") (auto simp: b1)
        then show ?thesis using rest w pw(3) by (auto simp: b1)
      qed
    qed
  qed
qed

lemma posix_write_loop_negative:
  "bit off 63 \<Longrightarrow> src \<noteq> [] \<Longrightarrow> posix_write_loop d off src 0 = (Inl EINVAL, d)"
  by (subst posix_write_loop.simps) (simp add: sys_pwrite_def)

lemma sys_pwrite_healthy:
  assumes "posix_healthy d" and "unat off + length bs \<le> pf_size d" and "pf_size d < 2 ^ 63" and "bs \<noteq> []"
    and "sys_pwrite d bs off = (r, d')"
  shows "posix_healthy d'" and "pf_size d' = pf_size d" and "r = Inl EINTR \<or> (\<exists>w. r = Inr w \<and> 0 < w \<and> w \<le> length bs)"
proof -
  note c = sys_pwrite_cases [OF assms(5)]
  show "posix_healthy d'" using posix_healthy_later [OF assms(1) c(3)] .
  have "\<not> bit off 63" using assms(2,3) by (simp only: bit_63_iff)
  then show r: "r = Inl EINTR \<or> (\<exists>w. r = Inr w \<and> 0 < w \<and> w \<le> length bs)"
    using assms by (cases "pf_script d") (auto simp: sys_pwrite_def posix_healthy_def split: sys_result.splits)
  show "pf_size d' = pf_size d" using r c(4) c(5) assms(2) by auto
qed

lemma posix_write_loop_succeeds:
  assumes "posix_healthy d" and "unat off + length src \<le> pf_size d" and "pf_size d < 2 ^ 63"
  shows "\<exists>d'. posix_write_loop d off src k = (Inr (), d')"
  using assms
proof (induction d off src k rule: posix_write_loop.induct)
  case (1 d off src k)
  note ld = posix_write_loop.simps [of d off src k]
  show ?case
  proof (cases "k < length src")
    case True
    obtain q d1 where q: "sys_pwrite d (drop k src) (off + of_nat k) = (q, d1)" by (rule prod.exhaust)
    have "unat (off + of_nat k) = unat off + k" using "1.prems"(2,3) True by (intro unat_off_plus) simp
    then have "unat (off + of_nat k) + length (drop k src) \<le> pf_size d" using "1.prems"(2) True by simp
    note c = sys_pwrite_healthy [OF "1.prems"(1) this "1.prems"(3) _ q]
    have c': "posix_healthy d1" "pf_size d1 = pf_size d" using c(1,2) True by simp_all
    from c(3) True consider "q = Inl EINTR" | w where "q = Inr w" "w \<noteq> 0" by auto
    then show ?thesis
    proof cases
      case 1
      then show ?thesis using "1.IH"(1) [OF True q [symmetric] 1] "1.prems" c' True q ld by simp
    next
      case 2
      then show ?thesis using "1.IH"(2) [OF True q [symmetric] 2] "1.prems" c' True q ld by simp
    qed
  qed (use ld in simp)
qed

lemma posix_blk_cong:
  "(\<And>j. i * 4096 \<le> j \<Longrightarrow> j < i * 4096 + 4096 \<Longrightarrow> pf_bytes d j = pf_bytes d' j) \<Longrightarrow>
     posix_blk d i = posix_blk d' i"
  by (simp add: posix_blk_def)

lemma concat_posix_blk:
  "concat (map (posix_blk d) [a..<a + n]) = map (pf_bytes d) [a * 4096..<(a + n) * 4096]"
proof (induction n)
  case 0
  then show ?case by simp
next
  case (Suc n)
  have "[a * 4096..<(a + Suc n) * 4096]
      = [a * 4096..<(a + n) * 4096] @ [(a + n) * 4096..<(a + n) * 4096 + 4096]"
    using upt_add_eq_append [of "a * 4096" "(a + n) * 4096" 4096] by (simp add: algebra_simps)
  then show ?case using Suc by (simp add: posix_blk_def)
qed

lemma posix_write_split:
  assumes dinv: "posix_inv cap d" and w: "posix_write cap d lba n buf = (r, d')"
  obtains (refused) e where "r = Inl e" and "d' = d"
    | (ran) "unat lba + unat n \<le> unat cap"
      and "posix_write_loop d (push_bit 12 lba) (take (unat n * 4096) buf) 0 = (r, d')"
      and "unat (push_bit 12 lba) = unat lba * 4096"
    | (short_buffer) "d' = d" and "\<not> unat n * 4096 \<le> length buf"
proof (cases "lba + ucast n > cap")
  case True
  then have "r = Inl ERANGE" "d' = d" using w by (simp_all add: posix_write_def)
  then show ?thesis by (rule refused)
next
  case False
  have cap: "unat cap \<le> 2 ^ 51" using dinv by (simp add: posix_inv_def)
  have loop: "posix_write_loop d (push_bit 12 lba) (take (unat n * 4096) buf) 0 = (r, d')"
    using False w by (simp add: posix_write_def)
  from False cap show ?thesis
  proof (cases rule: posix_range_cases)
    case in_range
    moreover have "unat lba \<le> 2 ^ 51" using in_range cap by linarith
    ultimately show ?thesis using loop ran unat_push_bit_12 by blast
  next
    case wrapped
    show ?thesis
    proof (cases "take (unat n * 4096) buf = []")
      case True
      then show ?thesis using short_buffer loop wrapped
        by (simp add: posix_write_loop.simps [of d _ "[]" 0])
    next
      case False
      then have "r = Inl EINVAL" "d' = d"
        using loop wrapped(1) by (simp_all add: posix_write_loop_negative)
      then show ?thesis by (rule refused)
    qed
  qed
qed

lemma posix_read_laws:
  assumes dinv: "posix_inv cap d" and rd: "posix_read cap d lba n = (r, d')"
  shows "posix_inv cap d' \<and> posix_blk d' = posix_blk d \<and> (posix_healthy d \<longrightarrow> posix_healthy d')"
    and "r = Inr bs \<Longrightarrow> unat lba + unat n \<le> unat cap
      \<and> bs = concat (map (posix_blk d) [unat lba..<unat lba + unat n])"
proof -
  show "posix_inv cap d' \<and> posix_blk d' = posix_blk d \<and> (posix_healthy d \<longrightarrow> posix_healthy d')"
    using dinv rd
    by (auto simp: posix_read_def posix_inv_def posix_blk_def fun_eq_iff
        dest: posix_read_loop_frame intro: posix_healthy_later split: if_splits)
next
  assume r: "r = Inr bs"
  have cap: "unat cap \<le> 2 ^ 51" using dinv by (simp add: posix_inv_def)
  have nr: "\<not> lba + ucast n > cap" using rd r by (auto simp: posix_read_def)
  then have loop: "posix_read_loop d (push_bit 12 lba) (unat n * 4096) [] = (Inr bs, d')"
    using rd r by (simp add: posix_read_def)
  from nr cap show "unat lba + unat n \<le> unat cap
      \<and> bs = concat (map (posix_blk d) [unat lba..<unat lba + unat n])"
  proof (cases rule: posix_range_cases)
    case in_range
    then have off: "unat (push_bit 12 lba) = unat lba * 4096"
      using cap by (intro unat_push_bit_12) linarith
    have "unat lba * 4096 + unat n * 4096 < 2 ^ 63"
      using in_range dinv unfolding posix_inv_def by linarith
    from posix_read_loop_ok [OF loop] this show ?thesis
      using in_range by (simp add: off concat_posix_blk algebra_simps)
  next
    case wrapped
    then show ?thesis using loop by (simp add: posix_read_loop_negative)
  qed
qed

lemma posix_in_range_word:
  fixes lba cap :: u64 and n :: u32
  assumes "unat lba + unat n \<le> unat cap"
  shows "\<not> lba + ucast n > cap"
proof -
  have "unat lba + unat n < 2 ^ 64" using assms unat_u64_less [of cap] by (simp del: unat_u64_less)
  then have "unat (lba + ucast n) = unat lba + unat n" by (subst unat_plus_if_small) simp_all
  then show ?thesis using assms by (simp add: word_less_nat_alt)
qed

lemma posix_transfers_succeed:
  assumes dinv: "posix_inv cap d" and h: "posix_healthy d" and rng: "unat lba + unat n \<le> unat cap"
  shows "\<exists>bs d'. posix_read cap d lba n = (Inr bs, d')"
    and "\<exists>d'. posix_write cap d lba n buf = (Inr (), d')"
proof -
  have fits: "unat lba * 4096 + unat n * 4096 \<le> pf_size d"
    using rng dinv unfolding posix_inv_def by linarith
  have "unat cap \<le> 2 ^ 51" using dinv by (simp add: posix_inv_def)
  then have off: "unat (push_bit 12 lba) = unat lba * 4096"
    using rng by (intro unat_push_bit_12) linarith
  show "\<exists>bs d'. posix_read cap d lba n = (Inr bs, d')"
    using posix_read_loop_succeeds [of d "push_bit 12 lba" "unat n * 4096" "[]"] dinv h fits
      posix_in_range_word [OF rng]
    by (simp add: posix_read_def off posix_inv_def)
  show "\<exists>d'. posix_write cap d lba n buf = (Inr (), d')"
    using posix_write_loop_succeeds [of d "push_bit 12 lba" "take (unat n * 4096) buf"] dinv h fits
      posix_in_range_word [OF rng]
    by (simp add: posix_write_def off posix_inv_def min_def split: if_splits)
qed

lemma posix_write_frame:
  assumes dinv: "posix_inv cap d" and w: "posix_write cap d lba n buf = (r, d')"
  shows "posix_inv cap d' \<and> (posix_healthy d \<longrightarrow> posix_healthy d')
    \<and> (\<forall>i. i < unat lba \<or> unat lba + unat n \<le> i \<longrightarrow> posix_blk d' i = posix_blk d i)"
  using dinv w
proof (cases rule: posix_write_split)
  case ran
  have "unat lba * 4096 + unat n * 4096 \<le> pf_size d"
    using dinv ran(1) unfolding posix_inv_def by linarith
  then have fits: "unat (push_bit 12 lba) + length (take (unat n * 4096) buf) \<le> pf_size d"
    by (simp add: ran(3))
  have sz: "pf_size d < 2 ^ 63" using dinv by (simp add: posix_inv_def)
  note sp = posix_write_loop_spec [OF ran(2) fits sz]
  have "posix_blk d' i = posix_blk d i" if "i < unat lba \<or> unat lba + unat n \<le> i" for i
  proof (rule posix_blk_cong)
    fix j assume "i * 4096 \<le> j" "j < i * 4096 + 4096"
    then have "j < unat lba * 4096 \<or> unat lba * 4096 + unat n * 4096 \<le> j" using that by linarith
    then show "pf_bytes d' j = pf_bytes d j" using sp by (auto simp: ran(3))
  qed
  then show ?thesis using sp dinv posix_healthy_later [of d d'] by (simp add: posix_inv_def)
qed (use dinv in simp_all)

lemma posix_write_ok:
  assumes dinv: "posix_inv cap d" and buf: "unat n * 4096 \<le> length buf"
    and w: "posix_write cap d lba n buf = (Inr u, d')"
  shows "unat lba + unat n \<le> unat cap \<and> (\<forall>i. unat lba \<le> i \<and> i < unat lba + unat n \<longrightarrow>
     posix_blk d' i = seg (4096 * (i - unat lba)) 4096 buf)"
  using dinv w
proof (cases rule: posix_write_split)
  case ran
  have len: "length (take (unat n * 4096) buf) = unat n * 4096" using buf by simp
  have fits: "unat (push_bit 12 lba) + length (take (unat n * 4096) buf) \<le> pf_size d"
    using dinv ran(1,3) unfolding posix_inv_def len by linarith
  have sz: "pf_size d < 2 ^ 63" using dinv by (simp add: posix_inv_def)
  note sp = posix_write_loop_spec [OF ran(2) fits sz]
  have "posix_blk d' i = seg (4096 * (i - unat lba)) 4096 buf"
    if i: "unat lba \<le> i" "i < unat lba + unat n" for i
  proof (rule nth_equalityI)
    have "4096 * (i - unat lba) + 4096 \<le> unat n * 4096" using i by linarith
    then have fit: "4096 * (i - unat lba) + 4096 \<le> length buf" using buf by linarith
    then show "length (posix_blk d' i) = length (seg (4096 * (i - unat lba)) 4096 buf)"
      by (simp add: posix_blk_def)
    fix j assume "j < length (posix_blk d' i)"
    then have j: "j < 4096" by (simp add: posix_blk_def)
    have pos: "unat lba * 4096 \<le> i * 4096 + j" "i * 4096 + j < unat lba * 4096 + unat n * 4096"
      "i * 4096 + j - unat lba * 4096 = 4096 * (i - unat lba) + j"
      using i j by linarith+
    have "pf_bytes d' (i * 4096 + j) = take (unat n * 4096) buf ! (4096 * (i - unat lba) + j)"
      using sp pos len by (auto simp: ran(3))
    then show "posix_blk d' i ! j = seg (4096 * (i - unat lba)) 4096 buf ! j"
      using j fit pos by (simp add: posix_blk_def)
  qed
  then show ?thesis using ran(1) by blast
qed (use buf in simp_all)

interpretation posix: block_backend posix_ops posix_blk posix_inv posix_healthy
proof unfold_locales
  show "length (posix_blk d i) = 4096" for d i by (simp add: posix_blk_def)
  show "posix_inv cap d \<Longrightarrow> unat cap \<le> 2 ^ 51" for cap d by (simp add: posix_inv_def)
  show "posix_inv cap d' \<and> posix_blk d' = posix_blk d \<and> (posix_healthy d \<longrightarrow> posix_healthy d')"
    if "posix_inv cap d" "ops_read posix_ops cap d lba n = (r, d')" for cap d lba n r d'
    using posix_read_laws(1) that by (simp add: posix_ops_def)
  show "unat lba + unat n \<le> unat cap \<and> bs = concat (map (posix_blk d) [unat lba..<unat lba + unat n])"
    if "posix_inv cap d" "ops_read posix_ops cap d lba n = (Inr bs, d')" for cap d lba n bs d'
    using posix_read_laws(2) that by (simp add: posix_ops_def)
  show "\<exists>bs d'. ops_read posix_ops cap d lba n = (Inr bs, d')"
    if "posix_inv cap d" "posix_healthy d" "unat lba + unat n \<le> unat cap" for cap d lba n
    using posix_transfers_succeed(1) that by (simp add: posix_ops_def)
  show "posix_inv cap d' \<and> (posix_healthy d \<longrightarrow> posix_healthy d')
      \<and> (\<forall>i. i < unat lba \<or> unat lba + unat n \<le> i \<longrightarrow> posix_blk d' i = posix_blk d i)"
    if "posix_inv cap d" "ops_write posix_ops cap d lba n buf = (r, d')" for cap d lba n buf r d'
    using posix_write_frame that by (simp add: posix_ops_def)
  show "unat lba + unat n \<le> unat cap \<and> (\<forall>i. unat lba \<le> i \<and> i < unat lba + unat n \<longrightarrow>
      posix_blk d' i = seg (4096 * (i - unat lba)) 4096 buf)"
    if "posix_inv cap d" "unat n * 4096 \<le> length buf"
      "ops_write posix_ops cap d lba n buf = (Inr u, d')" for cap d lba n buf u d'
    using posix_write_ok that by (simp add: posix_ops_def)
  show "\<exists>d'. ops_write posix_ops cap d lba n buf = (Inr (), d')"
    if "posix_inv cap d" "posix_healthy d" "unat lba + unat n \<le> unat cap" for cap d lba n buf
    using posix_transfers_succeed(2) that by (simp add: posix_ops_def)
  show "posix_inv cap d' \<and> posix_blk d' = posix_blk d
      \<and> (posix_healthy d \<longrightarrow> posix_healthy d' \<and> r = Inr ())"
    if "posix_inv cap d" "ops_flush posix_ops d = (r, d')" for cap d r d'
    using that by (auto simp: posix_ops_def posix_flush_def posix_inv_def posix_healthy_def
        posix_blk_def fun_eq_iff split: list.splits option.splits)
qed

section \<open>Handles\<close>

text \<open>
  A handle is usable when its table is the backend's and its device satisfies the backend's
  invariant; \<open>io_next\<close> relates a handle to a later state of the same handle.
\<close>

definition io_ok :: "'d nebula_io_ops \<Rightarrow> (u64 \<Rightarrow> 'd \<Rightarrow> bool) \<Rightarrow> 'd nebula_io \<Rightarrow> bool" where
  "io_ok ops dinv io \<longleftrightarrow> io_ops io = ops \<and> dinv (io_capacity_blocks io) (io_dev io)"

definition io_next :: "'d nebula_io_ops \<Rightarrow> (u64 \<Rightarrow> 'd \<Rightarrow> bool) \<Rightarrow> ('d \<Rightarrow> bool)
    \<Rightarrow> 'd nebula_io \<Rightarrow> 'd nebula_io \<Rightarrow> bool" where
  "io_next ops dinv healthy io io' \<longleftrightarrow>
     io_ok ops dinv io' \<and> io_capacity_blocks io' = io_capacity_blocks io
     \<and> (healthy (io_dev io) \<longrightarrow> healthy (io_dev io'))"

context block_backend
begin

abbreviation okio :: "'d nebula_io \<Rightarrow> bool" where "okio \<equiv> io_ok ops dinv"
abbreviation next_io :: "'d nebula_io \<Rightarrow> 'd nebula_io \<Rightarrow> bool" where
  "next_io \<equiv> io_next ops dinv healthy"
abbreviation disk :: "'d nebula_io \<Rightarrow> nat \<Rightarrow> byte list" where "disk io \<equiv> blk (io_dev io)"
abbreviation up :: "'d nebula_io \<Rightarrow> bool" where "up io \<equiv> healthy (io_dev io)"
abbreviation ncap :: "'d nebula_io \<Rightarrow> nat" where "ncap io \<equiv> unat (io_capacity_blocks io)"

lemma next_io_refl: "okio io \<Longrightarrow> next_io io io"
  by (simp add: io_next_def)

lemma next_io_trans: "next_io a b \<Longrightarrow> next_io b c \<Longrightarrow> next_io a c"
  by (simp add: io_next_def)

lemma next_io_ok: "next_io a b \<Longrightarrow> okio b"
  by (simp add: io_next_def)

lemma next_io_up: "next_io a b \<Longrightarrow> up a \<Longrightarrow> up b"
  by (simp add: io_next_def)

lemma next_io_cap: "next_io a b \<Longrightarrow> io_capacity_blocks b = io_capacity_blocks a"
  by (simp add: io_next_def)

lemma ncap_bound: "okio io \<Longrightarrow> ncap io \<le> 2 ^ 51"
  by (rule cap_bound) (auto simp: io_ok_def)

lemma io_read_frame:
  assumes "okio io" and "nebula_io_read io lba n = (r, io')"
  shows "next_io io io'" and "disk io' = disk io"
proof -
  obtain d where d: "ops_read ops (io_capacity_blocks io) (io_dev io) lba n = (r, d)"
    and io': "io' = io\<lparr>io_dev := d\<rparr>"
    using assms by (auto simp: nebula_io_read_def io_ok_def split: prod.splits)
  note fr = read_frame [OF _ d]
  show "next_io io io'" "disk io' = disk io"
    using fr assms(1) by (simp_all add: io' io_next_def io_ok_def)
qed

lemma io_read_ok:
  assumes "okio io" and "nebula_io_read io lba n = (Inr bs, io')"
  shows "unat lba + unat n \<le> ncap io" and "bs = concat (map (disk io) [unat lba..<unat lba + unat n])"
    and "length bs = 4096 * unat n"
proof -
  obtain d where d: "ops_read ops (io_capacity_blocks io) (io_dev io) lba n = (Inr bs, d)"
    using assms by (auto simp: nebula_io_read_def io_ok_def split: prod.splits)
  note rd = read_ok [OF _ d]
  show "unat lba + unat n \<le> ncap io" "bs = concat (map (disk io) [unat lba..<unat lba + unat n])"
    using rd assms(1) by (simp_all add: io_ok_def)
  then show "length bs = 4096 * unat n"
    using length_concat_const [of "[unat lba..<unat lba + unat n]" "disk io" 4096]
    by (simp add: blk_length)
qed

lemma io_read1_ok:
  assumes "okio io" and "nebula_io_read io lba 1 = (Inr bs, io')"
  shows "unat lba < ncap io" and "bs = disk io (unat lba)"
  using io_read_ok [OF assms] by simp_all

lemma io_read_succeeds:
  assumes "okio io" and "up io" and "unat lba + unat n \<le> ncap io"
  obtains bs io' where "nebula_io_read io lba n = (Inr bs, io')"
  using read_succeeds [of "io_capacity_blocks io" "io_dev io" lba n] assms
  by (auto simp: nebula_io_read_def io_ok_def)

lemma io_write_frame:
  assumes "okio io" and "nebula_io_write io lba n buf = (r, io')"
  shows "next_io io io'"
    and "i < unat lba \<or> unat lba + unat n \<le> i \<Longrightarrow> disk io' i = disk io i"
proof -
  obtain d where d: "ops_write ops (io_capacity_blocks io) (io_dev io) lba n buf = (r, d)"
    and io': "io' = io\<lparr>io_dev := d\<rparr>"
    using assms by (auto simp: nebula_io_write_def io_ok_def split: prod.splits)
  note fr = write_frame [OF _ d]
  show "next_io io io'" using fr assms(1) by (simp add: io' io_next_def io_ok_def)
  show "i < unat lba \<or> unat lba + unat n \<le> i \<Longrightarrow> disk io' i = disk io i"
    using fr assms(1) by (auto simp: io' io_ok_def)
qed

lemma io_write_ok:
  assumes "okio io" and "nebula_io_write io lba n buf = (Inr u, io')"
    and "4096 * unat n \<le> length buf"
  shows "unat lba + unat n \<le> ncap io"
    and "disk io' = (\<lambda>i. if unat lba \<le> i \<and> i < unat lba + unat n
           then seg (4096 * (i - unat lba)) 4096 buf else disk io i)"
proof -
  obtain d where d: "ops_write ops (io_capacity_blocks io) (io_dev io) lba n buf = (Inr u, d)"
    and io': "io' = io\<lparr>io_dev := d\<rparr>"
    using assms by (auto simp: nebula_io_write_def io_ok_def split: prod.splits)
  have dinv: "dinv (io_capacity_blocks io) (io_dev io)" using assms(1) by (simp add: io_ok_def)
  note wr = write_ok [OF dinv _ d] and fr = write_frame [OF dinv d]
  show "unat lba + unat n \<le> ncap io" using wr assms(3) by (simp add: mult.commute)
  show "disk io' = (\<lambda>i. if unat lba \<le> i \<and> i < unat lba + unat n
           then seg (4096 * (i - unat lba)) 4096 buf else disk io i)"
    using wr fr assms(3) by (auto simp: fun_eq_iff io' mult.commute)
qed

lemma io_write1_ok:
  assumes "okio io" and "nebula_io_write io lba 1 buf = (Inr u, io')" and "length buf = 4096"
  shows "unat lba < ncap io" and "disk io' = (disk io)(unat lba := buf)"
  using io_write_ok [OF assms(1,2)] assms(3) by (auto simp: fun_eq_iff less_Suc_eq)

lemma io_write1_other:
  assumes "okio io" and "nebula_io_write io lba 1 buf = (r, io')" and "i \<noteq> unat lba"
  shows "disk io' i = disk io i"
  using io_write_frame(2) [OF assms(1,2), of i] assms(3) by (cases "i < unat lba") simp_all

lemma io_write_succeeds:
  assumes "okio io" and "up io" and "unat lba + unat n \<le> ncap io"
  obtains io' where "nebula_io_write io lba n buf = (Inr (), io')"
  using write_succeeds [of "io_capacity_blocks io" "io_dev io" lba n buf] assms
  by (auto simp: nebula_io_write_def io_ok_def)

lemma io_write_up:
  assumes "okio io" and "up io" and "unat lba + unat n \<le> ncap io" and "nebula_io_write io lba n buf = (r, io')"
  shows "r = Inr ()"
proof -
  obtain io'' where "nebula_io_write io lba n buf = (Inr (), io'')" using io_write_succeeds [OF assms(1-3)] .
  then show ?thesis using assms(4) by simp
qed

lemma io_flush_frame:
  assumes "okio io" and "nebula_io_flush io = (r, io')"
  shows "next_io io io'" and "disk io' = disk io" and "up io \<Longrightarrow> r = Inr ()"
  using assms flush_frame [of "io_capacity_blocks io" "io_dev io"]
  by (auto simp: nebula_io_flush_def io_ok_def io_next_def split: prod.splits)

text \<open>A block written and read back is unchanged; a write does not disturb other blocks.\<close>

lemma io_write_read:
  assumes "okio io" and "nebula_io_write io lba n buf = (Inr u, io1)"
    and "4096 * unat n = length buf" and "nebula_io_read io1 lba n = (Inr bs, io2)"
  shows "bs = buf"
proof -
  have ok1: "okio io1" using io_write_frame(1) [OF assms(1,2)] by (rule next_io_ok)
  have d1: "disk io1 (unat lba + j) = seg (4096 * j) 4096 buf" if "j < unat n" for j
    using io_write_ok(2) [OF assms(1,2)] assms(3) that by simp
  have "bs = concat (map (disk io1) [unat lba..<unat lba + unat n])"
    using io_read_ok(2) [OF ok1 assms(4)] .
  also have "map (disk io1) [unat lba..<unat lba + unat n] = map (\<lambda>j. seg (4096 * j) 4096 buf) [0..<unat n]"
    by (rule nth_equalityI) (simp_all add: d1)
  also have "concat \<dots> = buf" using assms(3) by (intro concat_segs) simp
  finally show ?thesis .
qed

end

section \<open>Properties\<close>

text \<open>
  Property C36.  Whatever short transfers and interrupted calls the operating system scripts, a
  \<open>posix_write\<close> that returns success stored its whole buffer: a successful \<open>posix_read\<close> of the
  same blocks returns exactly the bytes written.
\<close>

theorem posix_write_then_read:
  assumes "posix_inv cap d" and "length buf = unat n * 4096"
    and "posix_write cap d lba n buf = (Inr u, d1)" and "posix_read cap d1 lba n = (Inr bs, d2)"
  shows "bs = buf"
proof -
  define io where "io = \<lparr>io_ops = posix_ops, io_capacity_blocks = cap, io_dev = d\<rparr>"
  show ?thesis
    using posix.io_write_read [of io lba n buf u "io\<lparr>io_dev := d1\<rparr>" bs "io\<lparr>io_dev := d2\<rparr>"] assms
    by (simp add: io_def io_ok_def nebula_io_write_def nebula_io_read_def posix_ops_def)
qed

text \<open>
  A write, successful or not, changes no block outside its range, and keeps the
  device within its capacity; a failed or torn write damages only the blocks it was aimed at.
\<close>

theorem posix_write_isolated:
  assumes "posix_inv cap d" and "posix_write cap d lba n buf = (r, d')"
    and "i < unat lba \<or> unat lba + unat n \<le> i"
  shows "posix_blk d' i = posix_blk d i \<and> posix_inv cap d'"
  using posix_write_frame [OF assms(1,2)] assms(3) by blast

text \<open>
  Property C37.  Both transfers end with success for every request within the capacity, however often the
  system calls are cut short or interrupted, on a device whose calls move at least a byte when they
  return: the read returns the blocks it names, and the write stores its buffer in them and changes no
  other.
\<close>

theorem posix_transfers_live:
  assumes "posix_inv cap d" and "posix_healthy d" and "unat lba + unat n \<le> unat cap" and "length buf = unat n * 4096"
  shows "(\<exists>d'. posix_read cap d lba n = (Inr (concat (map (posix_blk d) [unat lba..<unat lba + unat n])), d'))
    \<and> (\<exists>d'. posix_write cap d lba n buf = (Inr (), d')
        \<and> (\<forall>i. posix_blk d' i = (if unat lba \<le> i \<and> i < unat lba + unat n then seg (4096 * (i - unat lba)) 4096 buf else posix_blk d i)))"
proof -
  obtain bs d1 where r: "posix_read cap d lba n = (Inr bs, d1)" using posix_transfers_succeed(1) [OF assms(1-3)] by blast
  obtain d2 where w: "posix_write cap d lba n buf = (Inr (), d2)" using posix_transfers_succeed(2) [OF assms(1-3)] by blast
  have "bs = concat (map (posix_blk d) [unat lba..<unat lba + unat n])" using posix_read_laws(2) [OF assms(1) r refl] by blast
  moreover have "posix_blk d2 i = (if unat lba \<le> i \<and> i < unat lba + unat n then seg (4096 * (i - unat lba)) 4096 buf else posix_blk d i)" for i
    using posix_write_ok [OF assms(1) _ w] posix_write_frame [OF assms(1) w] assms(4) by auto
  ultimately show ?thesis using r w by blast
qed

text \<open>A device of two zero blocks whose first write is cut short and then interrupted.\<close>

definition sample_dev :: "sys_result list \<Rightarrow> posix_dev" where
  "sample_dev s = \<lparr>pf_bytes = (\<lambda>_. 0), pf_size = 8192, pf_script = s, pf_fsync = []\<rparr>"

lemma sample_dev_inv: "posix_inv 2 (sample_dev s)"
  by (simp add: posix_inv_def sample_dev_def)

lemma sample_short_write:
  "\<exists>d1. posix_write 2 (sample_dev [Transfer 100, Fail EINTR]) 1 1 (replicate 4096 7) = (Inr (), d1)
     \<and> pf_script d1 = [] \<and> pf_fsync d1 = []"
  by (simp add: posix_write_def sample_dev_def posix_write_loop.simps sys_pwrite_def pf_store_def
      push_bit_eq_mult)

theorem posix_write_then_read_witness:
  "\<exists>d1 bs d2. posix_inv 2 (sample_dev [Transfer 100, Fail EINTR])
     \<and> length (replicate 4096 (7 :: byte)) = unat (1 :: u32) * 4096
     \<and> posix_write 2 (sample_dev [Transfer 100, Fail EINTR]) 1 1 (replicate 4096 7) = (Inr (), d1)
     \<and> posix_read 2 d1 1 1 = (Inr bs, d2) \<and> bs = replicate 4096 7"
proof -
  let ?d = "sample_dev [Transfer 100, Fail EINTR]" and ?b = "replicate 4096 (7 :: byte)"
  obtain d1 where w: "posix_write 2 ?d 1 1 ?b = (Inr (), d1)" and s: "pf_script d1 = []" "pf_fsync d1 = []"
    using sample_short_write by blast
  have "posix_inv 2 d1" using posix_write_frame [OF sample_dev_inv w] by blast
  then obtain bs d2 where r: "posix_read 2 d1 1 1 = (Inr bs, d2)"
    using posix_transfers_succeed(1) [of 2 d1 1 1] s by (auto simp: posix_healthy_def)
  have "length ?b = unat (1 :: u32) * 4096" by simp
  from posix_write_then_read [OF sample_dev_inv this w r] show ?thesis
    using sample_dev_inv w r by auto
qed

theorem posix_write_isolated_witness:
  "\<exists>r d'. posix_inv 2 (sample_dev [Transfer 100, Fail EIO])
     \<and> posix_write 2 (sample_dev [Transfer 100, Fail EIO]) 1 1 (replicate 4096 7) = (r, d')
     \<and> posix_blk d' 0 = posix_blk (sample_dev [Transfer 100, Fail EIO]) 0 \<and> posix_inv 2 d'"
proof -
  obtain r d' where w:
    "posix_write 2 (sample_dev [Transfer 100, Fail EIO]) 1 1 (replicate 4096 7) = (r, d')"
    by (metis surj_pair)
  from posix_write_isolated [OF sample_dev_inv this, of 0] show ?thesis
    using sample_dev_inv w by auto
qed

theorem posix_transfers_live_witness:
  "posix_inv 2 (sample_dev [Fail EINTR, Transfer 100, Fail EINTR]) \<and> posix_healthy (sample_dev [Fail EINTR, Transfer 100, Fail EINTR])
     \<and> (\<exists>d'. posix_write 2 (sample_dev [Fail EINTR, Transfer 100, Fail EINTR]) 1 1 (replicate 4096 7) = (Inr (), d')
          \<and> posix_blk d' 1 = replicate 4096 7)"
proof -
  let ?d = "sample_dev [Fail EINTR, Transfer 100, Fail EINTR]" and ?b = "replicate 4096 (7 :: byte)"
  have h: "posix_healthy ?d" by (simp add: posix_healthy_def sample_dev_def)
  have "unat (1 :: u64) + unat (1 :: u32) \<le> unat (2 :: u64)" "length ?b = unat (1 :: u32) * 4096" by simp_all
  from posix_transfers_live [OF sample_dev_inv h this] obtain d' where w: "posix_write 2 ?d 1 1 ?b = (Inr (), d')"
    "\<forall>i. posix_blk d' i = (if unat (1 :: u64) \<le> i \<and> i < unat (1 :: u64) + unat (1 :: u32) then seg (4096 * (i - unat (1 :: u64))) 4096 ?b else posix_blk ?d i)"
    by blast
  have "posix_blk d' 1 = ?b" using w(2) by (simp add: seg_def)
  then show ?thesis using sample_dev_inv h w(1) by blast
qed

end
