(* ===== verification/Nebula_Layout.thy ===== *)
theory Nebula_Layout
  imports Nebula_Format
begin

text \<open>
  \<open>src/nebula/nebula_layout.c\<close>: where each region of a device lies.  The computation is kept in
  64-bit words; the lemmas read it as natural numbers for every capacity that a signed 64-bit file
  offset can address (\<open>2^51\<close> blocks of 4 KiB).
\<close>

section \<open>The code\<close>

record nebula_layout =
  lay_capacity_blocks :: u64
  lay_inode_size :: u32
  lay_mbr_lba :: u64
  lay_sb_head_lba :: u64
  lay_uberblock_lba :: u64
  lay_uberblock_count :: u64
  lay_alloc_roots_head_lba :: u64
  lay_bitmap_lba :: u64
  lay_bitmap_block_count :: u64
  lay_stream_map_lba :: u64
  lay_stream_map_block_count :: u64
  lay_inode_page_lba :: u64
  lay_inode_page_block_count :: u64
  lay_dir_page_lba :: u64
  lay_dir_page_block_count :: u64
  lay_data_start_lba :: u64
  lay_data_block_count :: u64
  lay_alloc_roots_tail_lba :: u64
  lay_sb_tail_lba :: u64

definition NEBULA_INODE_SIZE_DEFAULT :: u32 where "NEBULA_INODE_SIZE_DEFAULT = 4096"
definition NEBULA_INODE_SIZE_LARGE :: u32 where "NEBULA_INODE_SIZE_LARGE = 8192"

definition div_ceil :: "u64 \<Rightarrow> u64 \<Rightarrow> u64" where
  "div_ceil a b = (a + b - 1) div b"

definition clamp_u64 :: "u64 \<Rightarrow> u64 \<Rightarrow> u64 \<Rightarrow> u64" where
  "clamp_u64 v lo hi = (if v < lo then lo else if v > hi then hi else v)"

definition nebula_layout_compute_ex :: "u64 \<Rightarrow> u32 \<Rightarrow> nebula_layout res" where
  "nebula_layout_compute_ex capacity_blocks inode_size =
    (if capacity_blocks < NEBULA_MIN_DEVICE_BYTES div 4096 then Inl EINVAL
     else if inode_size \<noteq> NEBULA_INODE_SIZE_DEFAULT \<and> inode_size \<noteq> NEBULA_INODE_SIZE_LARGE
     then Inl EINVAL
     else
       let cursor0 = NEBULA_LBA_ALLOC_ROOTS_H + 1;
           bitmap_lba = cursor0;
           bitmap_block_count = div_ceil capacity_blocks 32768;
           cursor1 = cursor0 + bitmap_block_count;
           stream_map_lba = cursor1;
           stream_map_block_count = 256;
           cursor2 = cursor1 + stream_map_block_count;
           scaled_inode = capacity_blocks div 8;
           inode_page_block_count = clamp_u64 scaled_inode (33554432 div 4096) (134217728 div 4096);
           inode_page_lba = cursor2;
           cursor3 = cursor2 + inode_page_block_count;
           dir_page_block_count = inode_page_block_count;
           dir_page_lba = cursor3;
           cursor4 = cursor3 + dir_page_block_count
       in if cursor4 + 2 > capacity_blocks then Inl EINVAL
          else Inr \<lparr>
            lay_capacity_blocks = capacity_blocks,
            lay_inode_size = inode_size,
            lay_mbr_lba = NEBULA_LBA_MBR,
            lay_sb_head_lba = NEBULA_LBA_SB_HEAD,
            lay_uberblock_lba = NEBULA_LBA_UBERBLOCK,
            lay_uberblock_count = NEBULA_UBERBLOCK_SLOTS,
            lay_alloc_roots_head_lba = NEBULA_LBA_ALLOC_ROOTS_H,
            lay_bitmap_lba = bitmap_lba,
            lay_bitmap_block_count = bitmap_block_count,
            lay_stream_map_lba = stream_map_lba,
            lay_stream_map_block_count = stream_map_block_count,
            lay_inode_page_lba = inode_page_lba,
            lay_inode_page_block_count = inode_page_block_count,
            lay_dir_page_lba = dir_page_lba,
            lay_dir_page_block_count = dir_page_block_count,
            lay_data_start_lba = cursor4,
            lay_data_block_count = (capacity_blocks - 2) - cursor4,
            lay_alloc_roots_tail_lba = capacity_blocks - 2,
            lay_sb_tail_lba = capacity_blocks - 1\<rparr>)"

definition nebula_layout_compute :: "u64 \<Rightarrow> nebula_layout res" where
  "nebula_layout_compute capacity_blocks =
     nebula_layout_compute_ex capacity_blocks NEBULA_INODE_SIZE_DEFAULT"

section \<open>The layout tiles the device\<close>

text \<open>
  The specification: the regions follow each other without gap or overlap from LBA 0 to the last
  block, the bitmap has a bit for every block and no superfluous page, and the data region is not
  empty.
\<close>

definition layout_tiles :: "nebula_layout \<Rightarrow> bool" where
  "layout_tiles L \<longleftrightarrow>
     unat (lay_mbr_lba L) = 0 \<and>
     unat (lay_sb_head_lba L) = 1 \<and>
     unat (lay_uberblock_lba L) = 2 \<and>
     unat (lay_uberblock_count L) = 128 \<and>
     unat (lay_alloc_roots_head_lba L) = 130 \<and>
     unat (lay_bitmap_lba L) = 131 \<and>
     unat (lay_capacity_blocks L) \<le> 32768 * unat (lay_bitmap_block_count L) \<and>
     32768 * unat (lay_bitmap_block_count L) < unat (lay_capacity_blocks L) + 32768 \<and>
     unat (lay_stream_map_lba L) = 131 + unat (lay_bitmap_block_count L) \<and>
     unat (lay_stream_map_block_count L) = 256 \<and>
     unat (lay_inode_page_lba L) = unat (lay_stream_map_lba L) + 256 \<and>
     8192 \<le> unat (lay_inode_page_block_count L) \<and>
     unat (lay_inode_page_block_count L) \<le> 32768 \<and>
     unat (lay_dir_page_lba L) = unat (lay_inode_page_lba L) + unat (lay_inode_page_block_count L) \<and>
     unat (lay_dir_page_block_count L) = unat (lay_inode_page_block_count L) \<and>
     unat (lay_data_start_lba L) = unat (lay_dir_page_lba L) + unat (lay_dir_page_block_count L) \<and>
     0 < unat (lay_data_block_count L) \<and>
     unat (lay_alloc_roots_tail_lba L) = unat (lay_data_start_lba L) + unat (lay_data_block_count L) \<and>
     unat (lay_sb_tail_lba L) = unat (lay_alloc_roots_tail_lba L) + 1 \<and>
     unat (lay_capacity_blocks L) = unat (lay_sb_tail_lba L) + 1"

lemma unat_div_ceil_page:
  assumes "unat c \<le> 2 ^ 51"
  shows "unat (div_ceil c 32768) = (unat c + 32767) div 32768"
proof -
  have "div_ceil c 32768 = (c + 32767) div 32768" by (simp add: div_ceil_def add.commute)
  moreover have "unat (c + 32767) = unat c + 32767"
    using assms by (subst unat_plus_if_small) auto
  ultimately show ?thesis by (simp only: unat_div_word) simp
qed

lemma unat_clamp_u64:
  "unat (clamp_u64 v lo hi) = (if unat v < unat lo then unat lo
     else if unat v > unat hi then unat hi else unat v)"
  by (simp add: clamp_u64_def word_less_nat_alt)

lemma nebula_layout_compute_ex_tiles:
  assumes cap: "65536 \<le> unat c" "unat c \<le> 2 ^ 51"
    and isz: "isz = NEBULA_INODE_SIZE_DEFAULT \<or> isz = NEBULA_INODE_SIZE_LARGE"
  shows "\<exists>L. nebula_layout_compute_ex c isz = Inr L \<and> layout_tiles L
    \<and> lay_capacity_blocks L = c \<and> lay_inode_size L = isz"
proof -
  define bm where "bm = div_ceil c 32768"
  define ic where "ic = clamp_u64 (c div 8) 8192 32768"
  define n where "n = unat c"
  have n: "65536 \<le> n" "n \<le> 2251799813685248" using cap by (simp_all add: n_def)
  have bm: "unat bm = (n + 32767) div 32768"
    using cap by (simp add: bm_def n_def unat_div_ceil_page)
  have ic: "unat ic = (if n div 8 < 8192 then 8192 else if n div 8 > 32768 then 32768 else n div 8)"
    by (simp add: ic_def n_def unat_clamp_u64 unat_div_word)
  have bm_le: "unat bm \<le> 68719476737" and bm_cover: "n \<le> 32768 * unat bm"
    and bm_tight: "32768 * unat bm < n + 32768"
    using n by (simp_all add: bm)
  have ic_b: "8192 \<le> unat ic" "unat ic \<le> 32768" by (simp_all add: ic)
  have room: "131 + unat bm + 256 + unat ic + unat ic + 2 < n" using n by (simp add: bm ic) arith
  define k1 where "k1 = 131 + bm"
  define k2 where "k2 = k1 + 256"
  define k3 where "k3 = k2 + ic"
  define k4 where "k4 = k3 + ic"
  have u1: "unat k1 = 131 + unat bm"
    using bm_le unfolding k1_def by (subst unat_plus_if_small) simp_all
  have u2: "unat k2 = 131 + unat bm + 256"
    using bm_le unfolding k2_def by (subst unat_plus_if_small) (simp_all add: u1)
  have u3: "unat k3 = 131 + unat bm + 256 + unat ic"
    using bm_le ic_b unfolding k3_def by (subst unat_plus_if_small) (simp_all add: u2)
  have u4: "unat k4 = 131 + unat bm + 256 + unat ic + unat ic"
    using bm_le ic_b unfolding k4_def by (subst unat_plus_if_small) (simp_all add: u3)
  have u5: "unat (k4 + 2) = 131 + unat bm + 256 + unat ic + unat ic + 2"
    using bm_le ic_b by (subst unat_plus_if_small) (simp_all add: u4)
  have c1: "unat (c - 1) = n - 1" and c2: "unat (c - 2) = n - 2"
    using n by (simp_all add: unat_minus_le n_def)
  have d: "unat ((c - 2) - k4)
      = n - 2 - (131 + unat bm + 256 + unat ic + unat ic)"
    using room by (subst unat_minus_le) (simp_all add: c2 u4)
  have guards: "\<not> c < 65536" "\<not> k4 + 2 > c"
    using n room by (simp_all add: word_less_nat_alt u5 n_def)
  have fixed: "NEBULA_LBA_ALLOC_ROOTS_H + 1 = 131" "NEBULA_MIN_DEVICE_BYTES div 4096 = 65536"
    "(33554432 :: u64) div 4096 = 8192" "(134217728 :: u64) div 4096 = 32768"
    by (simp_all add: NEBULA_LBA_ALLOC_ROOTS_H_def NEBULA_LBA_UBERBLOCK_def
        NEBULA_UBERBLOCK_SLOTS_def NEBULA_MIN_DEVICE_BYTES_def)
  show ?thesis
    unfolding nebula_layout_compute_ex_def fixed Let_def bm_def [symmetric] ic_def [symmetric]
      k1_def [symmetric] k2_def [symmetric] k3_def [symmetric] k4_def [symmetric]
    using isz guards bm_cover bm_tight ic_b room n
    by (simp add: layout_tiles_def u1 u2 u3 u4 c1 c2 d n_def [symmetric] NEBULA_LBA_MBR_def
        NEBULA_LBA_SB_HEAD_def NEBULA_LBA_UBERBLOCK_def NEBULA_UBERBLOCK_SLOTS_def
        NEBULA_LBA_ALLOC_ROOTS_H_def)
qed

section \<open>Properties\<close>

text \<open>
  Property C35.  For every device of at least 256 MiB (65536 blocks) that a file offset can address
  and for both inode sizes, the layout computation succeeds and its regions tile the device.
\<close>

theorem layout_compute_ok:
  assumes "65536 \<le> unat c" and "unat c \<le> 2 ^ 51"
    and "isz = NEBULA_INODE_SIZE_DEFAULT \<or> isz = NEBULA_INODE_SIZE_LARGE"
  shows "\<exists>L. nebula_layout_compute_ex c isz = Inr L \<and> layout_tiles L \<and> lay_capacity_blocks L = c"
  using nebula_layout_compute_ex_tiles [OF assms] by blast

theorem layout_compute_ok_witness:
  "65536 \<le> unat (262144 :: u64) \<and> unat (262144 :: u64) \<le> 2 ^ 51
   \<and> (\<exists>L. nebula_layout_compute_ex 262144 NEBULA_INODE_SIZE_DEFAULT = Inr L \<and> layout_tiles L
        \<and> lay_capacity_blocks L = 262144)"
  using layout_compute_ok [of 262144 NEBULA_INODE_SIZE_DEFAULT] by simp

text \<open>
  The layout computation rejects, with \<open>EINVAL\<close>, every device below 256 MiB and every
  inode size other than 4096 and 8192, and (for capacities a file offset can address) nothing else.
\<close>

theorem layout_compute_error_iff:
  assumes "unat c \<le> 2 ^ 51"
  shows "nebula_layout_compute_ex c isz = Inl e \<longleftrightarrow>
    e = EINVAL \<and> (unat c < 65536 \<or> isz \<notin> {NEBULA_INODE_SIZE_DEFAULT, NEBULA_INODE_SIZE_LARGE})"
proof (cases "unat c < 65536 \<or> isz \<notin> {NEBULA_INODE_SIZE_DEFAULT, NEBULA_INODE_SIZE_LARGE}")
  case True
  have "NEBULA_MIN_DEVICE_BYTES div 4096 = 65536" by (simp add: NEBULA_MIN_DEVICE_BYTES_def)
  with True have "nebula_layout_compute_ex c isz = Inl EINVAL"
    by (auto simp: nebula_layout_compute_ex_def word_less_nat_alt)
  with True show ?thesis by auto
next
  case False
  then show ?thesis using nebula_layout_compute_ex_tiles [of c isz] assms by auto
qed

theorem layout_compute_error_iff_witness:
  "unat (4096 :: u64) \<le> 2 ^ 51 \<and> nebula_layout_compute_ex 4096 4096 = Inl EINVAL"
  using layout_compute_error_iff [of 4096 4096 EINVAL] by simp

end
