(* ===== verification/Nebula_Boot.thy ===== *)
theory Nebula_Boot
  imports Nebula_Io Nebula_Layout
begin

unbundle bit_operations_syntax

text \<open>
  The boot structures: \<open>nebula_mbr.c\<close>, \<open>nebula_superblock.c\<close>, \<open>nebula_uberblock.c\<close> and
  \<open>nebula_allocator_roots.c\<close>, with the two loops they share (a bounded loop with early return, and
  zero-filling a region in batches of 64 blocks).  A reader is a raw block read followed by the
  validation of the buffer; the writers build the structure, seal it and write it.
\<close>

section \<open>Shared loops\<close>

text \<open>\<open>for (i = ...) { rc = body(i); if (rc != NEBULA_OK) return rc; }\<close>\<close>

fun for_each :: "('i \<Rightarrow> 's \<Rightarrow> unit res \<times> 's) \<Rightarrow> 'i list \<Rightarrow> 's \<Rightarrow> unit res \<times> 's" where
  "for_each body [] s = (Inr (), s)"
| "for_each body (i # is) s =
     (case body i s of (Inl e, s') \<Rightarrow> (Inl e, s') | (Inr _, s') \<Rightarrow> for_each body is s')"

text \<open>Read one block and validate it.\<close>

definition io_load ::
    "'d nebula_io \<Rightarrow> u64 \<Rightarrow> (byte list \<Rightarrow> 'a res) \<Rightarrow> 'a res \<times> 'd nebula_io" where
  "io_load io lba validate =
     (case nebula_io_read io lba 1 of
        (Inl e, io') \<Rightarrow> (Inl e, io')
      | (Inr buf, io') \<Rightarrow> (validate buf, io'))"

text \<open>\<open>zero_region\<close> of \<open>nebula_inode_init.c\<close> (and \<open>write_zeros\<close> of \<open>nebula_bitmap.c\<close>).\<close>

function zero_region :: "'d nebula_io \<Rightarrow> u64 \<Rightarrow> nat \<Rightarrow> unit res \<times> 'd nebula_io" where
  "zero_region io cur remaining =
     (if 0 < remaining then
        let n = (if remaining > 64 then 64 else remaining) in
        case nebula_io_write io cur (of_nat n) (zeros (64 * NEBULA_BLOCK_SIZE)) of
          (Inl e, io') \<Rightarrow> (Inl e, io')
        | (Inr _, io') \<Rightarrow> zero_region io' (cur + of_nat n) (remaining - n)
      else (Inr (), io))"
  by pat_completeness auto
termination
  by (relation "measure (\<lambda>(io, cur, remaining). remaining)") (auto split: if_splits)

declare zero_region.simps [simp del]

section \<open>MBR\<close>

definition nebula_mbr_checksum :: "nebula_mbr \<Rightarrow> u32" where
  "nebula_mbr_checksum mbr = crc32c (enc_mbr (mbr\<lparr>mbr_checksum := 0\<rparr>))"

definition mbr_build :: "byte list \<Rightarrow> u64 \<Rightarrow> nebula_mbr" where
  "mbr_build device_uuid capacity_blocks =
     (let mbr = \<lparr>mbr_magic = NEBULA_MAGIC_MBR_STR,
                 mbr_version_major = NEBULA_VERSION_MAJOR,
                 mbr_version_minor = NEBULA_VERSION_MINOR,
                 mbr_pad0 = 0,
                 mbr_device_uuid = device_uuid,
                 mbr_device_capacity_blocks = capacity_blocks,
                 mbr_superblock_head_lba = NEBULA_LBA_SB_HEAD,
                 mbr_checksum = 0,
                 mbr_reserved = zeros 4044\<rparr>
      in mbr\<lparr>mbr_checksum := nebula_mbr_checksum mbr\<rparr>)"

definition nebula_mbr_write :: "'d nebula_io \<Rightarrow> byte list \<Rightarrow> u64 \<Rightarrow> unit res \<times> 'd nebula_io" where
  "nebula_mbr_write io device_uuid capacity_blocks =
     nebula_io_write io NEBULA_LBA_MBR 1 (enc_mbr (mbr_build device_uuid capacity_blocks))"

definition mbr_validate :: "byte list \<Rightarrow> nebula_mbr res" where
  "mbr_validate block =
     (let buf = dec_mbr block in
      if mbr_magic buf \<noteq> NEBULA_MAGIC_MBR_STR then Inl EINVAL
      else if mbr_checksum buf \<noteq> nebula_mbr_checksum buf then Inl EIO
      else Inr buf)"

definition nebula_mbr_read :: "'d nebula_io \<Rightarrow> nebula_mbr res \<times> 'd nebula_io" where
  "nebula_mbr_read io = io_load io NEBULA_LBA_MBR mbr_validate"

section \<open>Superblock\<close>

definition nebula_superblock_checksum :: "nebula_superblock \<Rightarrow> u32" where
  "nebula_superblock_checksum sb = crc32c (enc_sb (sb\<lparr>sb_checksum := 0\<rparr>))"

definition sb_build :: "byte list \<Rightarrow> nebula_layout \<Rightarrow> nebula_superblock" where
  "sb_build device_uuid L =
     (let sb = \<lparr>sb_magic = NEBULA_MAGIC_SB,
                sb_version_major = NEBULA_VERSION_MAJOR,
                sb_version_minor = NEBULA_VERSION_MINOR,
                sb_inode_size = (if lay_inode_size L \<noteq> 0 then lay_inode_size L else NEBULA_INODE_SIZE),
                sb_device_uuid = device_uuid,
                sb_device_capacity_blocks = lay_capacity_blocks L,
                sb_uberblock_lba = lay_uberblock_lba L,
                sb_uberblock_count = ucast (lay_uberblock_count L),
                sb_pad0 = 0,
                sb_alloc_roots_head_lba = lay_alloc_roots_head_lba L,
                sb_alloc_roots_tail_lba = lay_alloc_roots_tail_lba L,
                sb_bitmap_lba = lay_bitmap_lba L,
                sb_bitmap_block_count = lay_bitmap_block_count L,
                sb_stream_map_lba = lay_stream_map_lba L,
                sb_stream_map_block_count = lay_stream_map_block_count L,
                sb_inode_page_lba = lay_inode_page_lba L,
                sb_inode_page_block_count = lay_inode_page_block_count L,
                sb_dir_page_lba = lay_dir_page_lba L,
                sb_dir_page_block_count = lay_dir_page_block_count L,
                sb_data_start_lba = lay_data_start_lba L,
                sb_data_block_count = lay_data_block_count L,
                sb_sb_tail_lba = lay_sb_tail_lba L,
                sb_checksum = 0,
                sb_pad1 = 0,
                sb_reserved = zeros 3928\<rparr>
      in sb\<lparr>sb_checksum := nebula_superblock_checksum sb\<rparr>)"

definition nebula_superblock_write_both ::
    "'d nebula_io \<Rightarrow> byte list \<Rightarrow> nebula_layout \<Rightarrow> unit res \<times> 'd nebula_io" where
  "nebula_superblock_write_both io device_uuid L =
     (let sb = enc_sb (sb_build device_uuid L) in
      case nebula_io_write io (lay_sb_head_lba L) 1 sb of
        (Inl e, io') \<Rightarrow> (Inl e, io')
      | (Inr _, io') \<Rightarrow> nebula_io_write io' (lay_sb_tail_lba L) 1 sb)"

definition sb_validate :: "byte list \<Rightarrow> nebula_superblock res" where
  "sb_validate block =
     (let buf = dec_sb block in
      if sb_magic buf \<noteq> NEBULA_MAGIC_SB then Inl EINVAL
      else if sb_checksum buf \<noteq> nebula_superblock_checksum buf then Inl EIO
      else Inr buf)"

definition nebula_superblock_read :: "'d nebula_io \<Rightarrow> u64 \<Rightarrow> nebula_superblock res \<times> 'd nebula_io" where
  "nebula_superblock_read io lba = io_load io lba sb_validate"

section \<open>Uberblock region\<close>

definition nebula_uberblock_checksum :: "nebula_uberblock \<Rightarrow> u32" where
  "nebula_uberblock_checksum ub = crc32c (enc_ub (ub\<lparr>ub_checksum := 0\<rparr>))"

definition ub_build :: "nebula_layout \<Rightarrow> u64 \<Rightarrow> nebula_uberblock" where
  "ub_build L now =
     (let ub = \<lparr>ub_magic = NEBULA_MAGIC_UB,
                ub_txg_id = 0,
                ub_timestamp_ns = now,
                ub_bitmap_root_lba = lay_bitmap_lba L,
                ub_stream_map_lba = lay_stream_map_lba L,
                ub_stream_map_head_offset = 0,
                ub_alloc_roots_count = NEBULA_ALLOC_ROOTS_TOTAL,
                ub_checksum = 0,
                ub_reserved = zeros 4040\<rparr>
      in ub\<lparr>ub_checksum := nebula_uberblock_checksum ub\<rparr>)"

text \<open>\<open>now\<close> is the result of \<open>now_ns()\<close>.\<close>

definition nebula_uberblock_init_region ::
    "'d nebula_io \<Rightarrow> nebula_layout \<Rightarrow> u64 \<Rightarrow> unit res \<times> 'd nebula_io" where
  "nebula_uberblock_init_region io L now =
     (case for_each (\<lambda>i io. nebula_io_write io (lay_uberblock_lba L + of_nat i) 1
                        (zeros NEBULA_BLOCK_SIZE))
             [0..<unat (lay_uberblock_count L)] io of
        (Inl e, io') \<Rightarrow> (Inl e, io')
      | (Inr _, io') \<Rightarrow> nebula_io_write io' (lay_uberblock_lba L) 1 (enc_ub (ub_build L now)))"

definition ub_validate :: "byte list \<Rightarrow> nebula_uberblock res" where
  "ub_validate block =
     (let buf = dec_ub block in
      if ub_magic buf \<noteq> NEBULA_MAGIC_UB then Inl ENOENT
      else if ub_checksum buf \<noteq> nebula_uberblock_checksum buf then Inl EIO
      else Inr buf)"

text \<open>Of the layout, the reader uses only the region's position and its slot count.\<close>

definition nebula_uberblock_read_slot ::
    "'d nebula_io \<Rightarrow> u64 \<Rightarrow> u64 \<Rightarrow> u32 \<Rightarrow> nebula_uberblock res \<times> 'd nebula_io" where
  "nebula_uberblock_read_slot io uberblock_lba uberblock_count slot =
     (if ucast slot \<ge> uberblock_count then (Inl ERANGE, io)
      else io_load io (uberblock_lba + ucast slot) ub_validate)"

section \<open>Allocator roots\<close>

definition nebula_allocator_root_checksum :: "nebula_allocator_root \<Rightarrow> u32" where
  "nebula_allocator_root_checksum r = crc32c (enc_ar (r\<lparr>ar_checksum := 0\<rparr>))"

definition fill_root :: "u64 \<Rightarrow> u64 \<Rightarrow> u32 \<Rightarrow> u64 \<Rightarrow> u64 \<Rightarrow> u32 \<Rightarrow> nebula_allocator_root" where
  "fill_root data_start data_end total_roots bitmap_lba stream_map_lba rid =
     (let total_blocks = data_end - data_start;
          per_root = total_blocks div ucast total_roots;
          start = data_start + ucast rid * per_root;
          stop = (if rid = total_roots - 1 then data_end else data_start + ucast (rid + 1) * per_root);
          r = \<lparr>ar_root_id = rid, ar_pad0 = 0,
               ar_range_start_block = start,
               ar_range_end_block = stop,
               ar_free_block_count = stop - start,
               ar_last_alloc_hint = start,
               ar_bitmap_region_lba = bitmap_lba,
               ar_stream_map_region_lba = stream_map_lba,
               ar_checksum = 0, ar_reserved = zeros 4\<rparr>
      in r\<lparr>ar_checksum := nebula_allocator_root_checksum r\<rparr>)"

definition fill_roots ::
    "u32 \<Rightarrow> nat \<Rightarrow> u64 \<Rightarrow> u64 \<Rightarrow> u32 \<Rightarrow> u64 \<Rightarrow> u64 \<Rightarrow> nebula_allocator_root list" where
  "fill_roots start_id count data_start data_end total_roots bitmap_lba stream_map_lba =
     map (\<lambda>i. fill_root data_start data_end total_roots bitmap_lba stream_map_lba (start_id + of_nat i))
       [0..<count]"

definition layout_roots :: "nebula_layout \<Rightarrow> u32 \<Rightarrow> nebula_allocator_root list" where
  "layout_roots L start_id =
     fill_roots start_id NEBULA_ALLOC_ROOTS_HEAD (lay_data_start_lba L) (lay_alloc_roots_tail_lba L)
       NEBULA_ALLOC_ROOTS_TOTAL (lay_bitmap_lba L) (lay_stream_map_lba L)"

definition nebula_allocator_roots_init ::
    "'d nebula_io \<Rightarrow> nebula_layout \<Rightarrow> unit res \<times> 'd nebula_io" where
  "nebula_allocator_roots_init io L =
     (case nebula_io_write io (lay_alloc_roots_head_lba L) 1 (enc_array enc_ar (layout_roots L 0)) of
        (Inl e, io') \<Rightarrow> (Inl e, io')
      | (Inr _, io') \<Rightarrow>
          nebula_io_write io' (lay_alloc_roots_tail_lba L) 1 (enc_array enc_ar (layout_roots L 64)))"

definition nebula_allocator_roots_read ::
    "'d nebula_io \<Rightarrow> u64 \<Rightarrow> nebula_allocator_root list res \<times> 'd nebula_io" where
  "nebula_allocator_roots_read io lba =
     io_load io lba (\<lambda>block. Inr (dec_array dec_ar 64 NEBULA_ALLOC_ROOTS_HEAD block))"

section \<open>Validation\<close>

text \<open>What is built validates; a block that validates is sealed and no one-byte change of it validates.\<close>

lemma mbr_build_wf: "length u = 16 \<Longrightarrow> wf_mbr (mbr_build u c)"
  by (simp add: mbr_build_def wf_mbr_def Let_def NEBULA_MAGIC_MBR_STR_def)

lemma mbr_build_fields [simp]:
  "mbr_magic (mbr_build u c) = NEBULA_MAGIC_MBR_STR" "mbr_device_uuid (mbr_build u c) = u"
  "mbr_device_capacity_blocks (mbr_build u c) = c"
  "mbr_superblock_head_lba (mbr_build u c) = NEBULA_LBA_SB_HEAD"
  by (simp_all add: mbr_build_def Let_def)

lemma mbr_build_sealed: "mbr_checksum (mbr_build u c) = nebula_mbr_checksum (mbr_build u c)"
  by (simp add: mbr_build_def Let_def nebula_mbr_checksum_def)

lemma mbr_validate_build: "length u = 16 \<Longrightarrow> mbr_validate (enc_mbr (mbr_build u c)) = Inr (mbr_build u c)"
  using mbr_build_sealed [of u c] by (simp add: mbr_validate_def mbr.dec_enc mbr_build_wf)

lemma mbr_validate_corrupt:
  assumes "mbr_validate bs = Inr m" and "length bs = 4096" and "i < 4096" and "v \<noteq> bs ! i"
  shows "\<exists>e. mbr_validate (bs[i := v]) = Inl e"
  using mbr.corruption_detected [of bs i v] assms
  by (auto simp: mbr_validate_def nebula_mbr_checksum_def Let_def split: if_splits)

lemma sb_build_wf: "length u = 16 \<Longrightarrow> wf_sb (sb_build u L)"
  by (simp add: sb_build_def wf_sb_def Let_def)

lemma sb_build_sealed: "sb_checksum (sb_build u L) = nebula_superblock_checksum (sb_build u L)"
  by (simp add: sb_build_def Let_def nebula_superblock_checksum_def)

lemma sb_build_fields [simp]:
  "sb_magic (sb_build u L) = NEBULA_MAGIC_SB" "sb_device_uuid (sb_build u L) = u"
  "sb_device_capacity_blocks (sb_build u L) = lay_capacity_blocks L"
  "sb_uberblock_lba (sb_build u L) = lay_uberblock_lba L"
  "sb_uberblock_count (sb_build u L) = ucast (lay_uberblock_count L)"
  "sb_alloc_roots_head_lba (sb_build u L) = lay_alloc_roots_head_lba L"
  "sb_alloc_roots_tail_lba (sb_build u L) = lay_alloc_roots_tail_lba L"
  "sb_bitmap_lba (sb_build u L) = lay_bitmap_lba L"
  "sb_bitmap_block_count (sb_build u L) = lay_bitmap_block_count L"
  "sb_inode_page_lba (sb_build u L) = lay_inode_page_lba L"
  "sb_inode_page_block_count (sb_build u L) = lay_inode_page_block_count L"
  "sb_dir_page_lba (sb_build u L) = lay_dir_page_lba L"
  "sb_dir_page_block_count (sb_build u L) = lay_dir_page_block_count L"
  "sb_data_start_lba (sb_build u L) = lay_data_start_lba L"
  "sb_data_block_count (sb_build u L) = lay_data_block_count L"
  "sb_sb_tail_lba (sb_build u L) = lay_sb_tail_lba L"
  by (simp_all add: sb_build_def Let_def)

lemma sb_validate_build: "length u = 16 \<Longrightarrow> sb_validate (enc_sb (sb_build u L)) = Inr (sb_build u L)"
  using sb_build_sealed [of u L] by (simp add: sb_validate_def sb.dec_enc sb_build_wf)

lemma sb_validate_corrupt:
  assumes "sb_validate bs = Inr m" and "length bs = 4096" and "i < 4096" and "v \<noteq> bs ! i"
  shows "\<exists>e. sb_validate (bs[i := v]) = Inl e"
  using sb.corruption_detected [of bs i v] assms
  by (auto simp: sb_validate_def nebula_superblock_checksum_def Let_def split: if_splits)

lemma ub_build_wf: "wf_ub (ub_build L t)"
  by (simp add: ub_build_def wf_ub_def Let_def)

lemma ub_build_sealed: "ub_checksum (ub_build L t) = nebula_uberblock_checksum (ub_build L t)"
  by (simp add: ub_build_def Let_def nebula_uberblock_checksum_def)

lemma ub_validate_build: "ub_validate (enc_ub (ub_build L t)) = Inr (ub_build L t)"
proof -
  have "ub_magic (ub_build L t) = NEBULA_MAGIC_UB" by (simp add: ub_build_def Let_def)
  then show ?thesis using ub_build_sealed [of L t] by (simp add: ub_validate_def ub.dec_enc ub_build_wf)
qed

lemma le_word_zeros [simp]: "le_word (zeros n) = 0"
  by (induction n) simp_all

lemma ub_validate_zeros: "ub_validate (zeros 4096) = Inl ENOENT"
  by (simp add: ub_validate_def dec_ub_def u64_at_def seg_replicate NEBULA_MAGIC_UB_def Let_def)

section \<open>The loops over a block backend\<close>

lemma layout_roots_wf: "r \<in> set (layout_roots L k) \<Longrightarrow> wf_ar r"
  by (auto simp: layout_roots_def fill_roots_def fill_root_def Let_def wf_ar_def)

lemma length_layout_roots [simp]: "length (layout_roots L k) = 64"
  by (simp add: layout_roots_def fill_roots_def)

lemma roots_block_length: "length (enc_array enc_ar (layout_roots L k)) = 4096"
  using layout_roots_wf by (subst ar.length_enc_array) (auto simp: list_all_iff)

context block_backend
begin

lemma io_load_frame:
  assumes "okio io" and "io_load io lba v = (r, io')"
  shows "next_io io io'" and "disk io' = disk io"
  using assms by (auto simp: io_load_def dest: io_read_frame split: prod.splits sum.splits)

lemma io_load_ok:
  assumes "okio io" and "io_load io lba v = (Inr x, io')"
  shows "unat lba < ncap io" and "v (disk io (unat lba)) = Inr x"
  using assms by (auto simp: io_load_def dest: io_read1_ok split: prod.splits sum.splits)

lemma io_load_up:
  assumes "okio io" and "up io" and "unat lba < ncap io"
  obtains io' where "io_load io lba v = (v (disk io (unat lba)), io')"
proof -
  obtain bs io' where "nebula_io_read io lba 1 = (Inr bs, io')"
    using io_read_succeeds [of io lba 1] assms by auto
  then show ?thesis using that io_read1_ok(2) [OF assms(1)] by (auto simp: io_load_def)
qed

lemma zero_region_frame:
  assumes "okio io" and "zero_region io cur n = (r, io')" and "unat cur + n \<le> ncap io"
  shows "next_io io io' \<and> (\<forall>i. i < unat cur \<or> unat cur + n \<le> i \<longrightarrow> disk io' i = disk io i)
    \<and> (r = Inr () \<longrightarrow> (\<forall>i. unat cur \<le> i \<and> i < unat cur + n \<longrightarrow> disk io' i = zeros 4096))
    \<and> (up io \<longrightarrow> r = Inr ())"
  using assms
proof (induction io cur n rule: zero_region.induct)
  case (1 io cur n)
  note zr = zero_region.simps [of io cur n]
  show ?case
  proof (cases "0 < n")
    case False
    then show ?thesis using "1.prems" zr by (auto intro: next_io_refl)
  next
    case True
    define k where "k = (if n > 64 then 64 else n)"
    have k: "0 < k" "k \<le> 64" "k \<le> n" using True by (auto simp: k_def)
    have uk: "unat (of_nat k :: u32) = k" using k by (intro unat_of_nat_u32) simp
    obtain q io1 where w: "nebula_io_write io cur (of_nat k) (zeros (64 * 4096)) = (q, io1)"
      by (metis surj_pair)
    note fr = io_write_frame [OF "1.prems"(1) w]
    show ?thesis
    proof (cases q)
      case (Inl e)
      then have r: "r = Inl e" "io' = io1"
        using "1.prems"(2) True w zr by (simp_all add: k_def Let_def)
      have "\<not> up io" using io_write_up [OF "1.prems"(1) _ _ w] "1.prems"(3) k uk Inl by auto
      moreover have "disk io' i = disk io i" if "i < unat cur \<or> unat cur + n \<le> i" for i
        using fr(2) [of i] that k uk r by auto
      ultimately show ?thesis using fr(1) r by simp
    next
      case (Inr u)
      have ok1: "okio io1" using fr(1) by (rule next_io_ok)
      have uc: "unat (cur + of_nat k) = unat cur + k"
        using k "1.prems"(3) ncap_bound [OF "1.prems"(1)] by (intro unat_off_plus) simp
      have cap1: "ncap io1 = ncap io" using next_io_cap [OF fr(1)] by simp
      have rec: "zero_region io1 (cur + of_nat k) (n - k) = (r, io')"
        using "1.prems"(2) True w Inr zr by (simp add: k_def Let_def)
      note IH = "1.IH" [OF True k_def w [unfolded NEBULA_BLOCK_SIZE_def [symmetric], symmetric] Inr ok1 rec]
      have io1_d: "disk io1 = (\<lambda>i. if unat cur \<le> i \<and> i < unat cur + k
          then seg (4096 * (i - unat cur)) 4096 (zeros (64 * 4096)) else disk io i)"
        using io_write_ok(2) [OF "1.prems"(1) w [unfolded Inr]] k uk by simp
      have d1: "disk io1 i = (if unat cur \<le> i \<and> i < unat cur + k then zeros 4096 else disk io i)" for i
        using k by (auto simp: io1_d seg_replicate)
      have rest: "next_io io1 io' \<and> (\<forall>i. i < unat cur + k \<or> unat cur + n \<le> i \<longrightarrow> disk io' i = disk io1 i)
        \<and> (r = Inr () \<longrightarrow> (\<forall>i. unat cur + k \<le> i \<and> i < unat cur + n \<longrightarrow> disk io' i = zeros 4096))
        \<and> (up io1 \<longrightarrow> r = Inr ())"
        using IH "1.prems"(3) k by (simp add: uc cap1)
      have "disk io' i = zeros 4096" if "r = Inr ()" "unat cur \<le> i" "i < unat cur + n" for i
        using rest that d1 [of i] by (cases "i < unat cur + k") auto
      moreover have "disk io' i = disk io i" if "i < unat cur \<or> unat cur + n \<le> i" for i
        using rest that d1 [of i] k by auto
      ultimately show ?thesis using rest fr(1) next_io_trans next_io_up by blast
    qed
  qed
qed

text \<open>Writing single blocks one after the other.\<close>

lemma write_slots_frame:
  assumes "okio io" and "unat base + n \<le> ncap io"
    and "for_each (\<lambda>i io. nebula_io_write io (base + of_nat i) 1 (f i)) [m..<n] io = (r, io')"
    and "m \<le> n" and "\<And>i. i < n \<Longrightarrow> length (f i) = 4096"
  shows "next_io io io' \<and> (\<forall>i. i < unat base + m \<or> unat base + n \<le> i \<longrightarrow> disk io' i = disk io i)
    \<and> (r = Inr () \<longrightarrow> (\<forall>i. unat base + m \<le> i \<and> i < unat base + n \<longrightarrow> disk io' i = f (i - unat base)))
    \<and> (up io \<longrightarrow> r = Inr ())"
  using assms
proof (induction "n - m" arbitrary: m io)
  case 0
  then show ?case by (auto intro: next_io_refl)
next
  case (Suc k)
  then have mn: "m < n" by simp
  obtain q io1 where w: "nebula_io_write io (base + of_nat m) 1 (f m) = (q, io1)"
    by (metis surj_pair)
  note fr = io_write_frame(1) [OF Suc.prems(1) w]
  have um: "unat (base + of_nat m) = unat base + m"
    using mn Suc.prems(2) ncap_bound [OF Suc.prems(1)] by (intro unat_off_plus) simp
  have step: "for_each (\<lambda>i io. nebula_io_write io (base + of_nat i) 1 (f i)) [m..<n] io
      = (case q of Inl e \<Rightarrow> (Inl e, io1) | Inr u \<Rightarrow>
          for_each (\<lambda>i io. nebula_io_write io (base + of_nat i) 1 (f i)) [Suc m..<n] io1)"
    using mn w by (simp add: upt_conv_Cons split: sum.splits)
  show ?case
  proof (cases q)
    case (Inl e)
    have "\<not> up io"
      using io_write_up [OF Suc.prems(1) _ _ w] Suc.prems(2) mn um Inl by auto
    moreover have "disk io1 i = disk io i" if "i < unat base + m \<or> unat base + n \<le> i" for i
      using io_write1_other [OF Suc.prems(1) w, of i] that mn um by auto
    ultimately show ?thesis using Suc.prems(3) step Inl fr by auto
  next
    case (Inr u)
    have d1: "disk io1 = (disk io)(unat base + m := f m)"
      using io_write1_ok(2) [OF Suc.prems(1) w [unfolded Inr]] Suc.prems(5) mn um by simp
    have rec: "for_each (\<lambda>i io. nebula_io_write io (base + of_nat i) 1 (f i)) [Suc m..<n] io1 = (r, io')"
      using Suc.prems(3) step Inr by simp
    have "k = n - Suc m" "okio io1" "unat base + n \<le> ncap io1" "Suc m \<le> n"
      using Suc.hyps(2) fr Suc.prems(2) mn by (auto simp: next_io_ok next_io_cap)
    note rest = Suc.hyps(1) [OF this(1-3) rec this(4) Suc.prems(5)]
    have "disk io' i = f (i - unat base)" if "r = Inr ()" "unat base + m \<le> i" "i < unat base + n" for i
      using rest that by (cases "i = unat base + m") (auto simp: d1)
    moreover have "disk io' i = disk io i" if "i < unat base + m \<or> unat base + n \<le> i" for i
      using rest that mn by (auto simp: d1)
    ultimately show ?thesis using rest fr next_io_trans next_io_up by blast
  qed
qed

text \<open>The writers of the boot structures.\<close>

lemma mbr_write_ok:
  assumes "okio io" and "length u = 16" and "nebula_mbr_write io u c = (r, io')"
  shows "next_io io io'" and "i \<noteq> 0 \<Longrightarrow> disk io' i = disk io i"
    and "r = Inr x \<Longrightarrow> disk io' 0 = enc_mbr (mbr_build u c)"
    and "up io \<Longrightarrow> 0 < ncap io \<Longrightarrow> r = Inr ()"
proof -
  have len: "length (enc_mbr (mbr_build u c)) = 4096"
    using assms(2) by (intro mbr.enc_length mbr_build_wf)
  have w: "nebula_io_write io 0 1 (enc_mbr (mbr_build u c)) = (r, io')"
    using assms(3) by (simp add: nebula_mbr_write_def NEBULA_LBA_MBR_def)
  show "next_io io io'" using io_write_frame(1) [OF assms(1) w] .
  show "i \<noteq> 0 \<Longrightarrow> disk io' i = disk io i" using io_write1_other [OF assms(1) w] by simp
  show "r = Inr x \<Longrightarrow> disk io' 0 = enc_mbr (mbr_build u c)"
    using io_write1_ok(2) [OF assms(1) _ len] w by simp
  show "up io \<Longrightarrow> 0 < ncap io \<Longrightarrow> r = Inr ()"
    using io_write_up [OF assms(1) _ _ w] by simp
qed

lemma superblock_write_ok:
  assumes "okio io" and "length u = 16" and "nebula_superblock_write_both io u L = (r, io')"
  shows "next_io io io'"
    and "i \<noteq> unat (lay_sb_head_lba L) \<Longrightarrow> i \<noteq> unat (lay_sb_tail_lba L) \<Longrightarrow> disk io' i = disk io i"
    and "r = Inr x \<Longrightarrow> disk io' (unat (lay_sb_head_lba L)) = enc_sb (sb_build u L)
           \<and> disk io' (unat (lay_sb_tail_lba L)) = enc_sb (sb_build u L)"
    and "up io \<Longrightarrow> unat (lay_sb_head_lba L) < ncap io \<Longrightarrow> unat (lay_sb_tail_lba L) < ncap io \<Longrightarrow> r = Inr ()"
proof -
  let ?b = "enc_sb (sb_build u L)"
  have len: "length ?b = 4096" using assms(2) by (intro sb.enc_length sb_build_wf)
  obtain q io1 where w1: "nebula_io_write io (lay_sb_head_lba L) 1 ?b = (q, io1)" by (metis surj_pair)
  have f1: "next_io io io1" using io_write_frame(1) [OF assms(1) w1] .
  have ok1: "okio io1" using f1 by (rule next_io_ok)
  obtain q2 io2 where w2: "nebula_io_write io1 (lay_sb_tail_lba L) 1 ?b = (q2, io2)" by (metis surj_pair)
  have f2: "next_io io1 io2" using io_write_frame(1) [OF ok1 w2] .
  have res: "(r, io') = (case q of Inl e \<Rightarrow> (Inl e, io1) | Inr _ \<Rightarrow> (q2, io2))"
    using assms(3) w1 w2 by (cases q) (auto simp: nebula_superblock_write_both_def Let_def)
  show "next_io io io'" using res f1 next_io_trans [OF f1 f2] by (auto split: sum.splits)
  show "i \<noteq> unat (lay_sb_head_lba L) \<Longrightarrow> i \<noteq> unat (lay_sb_tail_lba L) \<Longrightarrow> disk io' i = disk io i"
    using res io_write1_other [OF assms(1) w1, of i] io_write1_other [OF ok1 w2, of i]
    by (auto split: sum.splits)
  show "disk io' (unat (lay_sb_head_lba L)) = ?b \<and> disk io' (unat (lay_sb_tail_lba L)) = ?b"
    if r: "r = Inr x"
  proof -
    obtain a b where q: "q = Inr a" "q2 = Inr b" "io' = io2" using res r by (auto split: sum.splits)
    then show ?thesis using io_write1_ok(2) [OF assms(1) w1 [unfolded q] len]
        io_write1_ok(2) [OF ok1 w2 [unfolded q] len] by (auto simp: fun_upd_def)
  qed
  show "r = Inr ()" if "up io" "unat (lay_sb_head_lba L) < ncap io" "unat (lay_sb_tail_lba L) < ncap io"
  proof -
    have "q = Inr ()"
      using io_write_up [OF assms(1) _ _ w1] that by simp
    moreover have "q2 = Inr ()"
      using io_write_up [OF ok1 _ _ w2] that next_io_up [OF f1] next_io_cap [OF f1] by simp
    ultimately show ?thesis using res by simp
  qed
qed

lemma uberblock_init_ok:
  assumes "okio io" and "nebula_uberblock_init_region io L t = (r, io')"
    and "unat (lay_uberblock_lba L) + unat (lay_uberblock_count L) \<le> ncap io"
    and "0 < unat (lay_uberblock_count L)"
  shows "next_io io io' \<and> (r = Inr x \<longrightarrow> disk io' = (\<lambda>i.
      if i = unat (lay_uberblock_lba L) then enc_ub (ub_build L t)
      else if unat (lay_uberblock_lba L) \<le> i \<and> i < unat (lay_uberblock_lba L) + unat (lay_uberblock_count L)
      then zeros 4096 else disk io i)) \<and> (up io \<longrightarrow> r = Inr ())
    \<and> (\<forall>i. i < unat (lay_uberblock_lba L) \<or> unat (lay_uberblock_lba L) + unat (lay_uberblock_count L) \<le> i \<longrightarrow>
         disk io' i = disk io i)"
proof -
  let ?b = "enc_ub (ub_build L t)" and ?u = "lay_uberblock_lba L"
  have len: "length ?b = 4096" by (intro ub.enc_length ub_build_wf)
  obtain q io1 where w1: "for_each (\<lambda>i io. nebula_io_write io (?u + of_nat i) 1 (zeros 4096))
      [0..<unat (lay_uberblock_count L)] io = (q, io1)" by (metis surj_pair)
  note z = write_slots_frame [where f = "\<lambda>_. zeros 4096", OF assms(1,3) w1]
  then have f1: "next_io io io1" by simp
  have ok1: "okio io1" using f1 by (rule next_io_ok)
  obtain q2 io2 where w2: "nebula_io_write io1 ?u 1 ?b = (q2, io2)" by (metis surj_pair)
  have f2: "next_io io1 io2" using io_write_frame(1) [OF ok1 w2] .
  have res: "(r, io') = (case q of Inl e \<Rightarrow> (Inl e, io1) | Inr _ \<Rightarrow> (q2, io2))"
    using assms(2) w1 w2 by (cases q) (auto simp: nebula_uberblock_init_region_def Let_def)
  have "q2 = Inr ()" if "up io"
    using io_write_up [OF ok1 _ _ w2] that next_io_up [OF f1] next_io_cap [OF f1] assms(3,4) by simp
  moreover have "disk io' = (\<lambda>i. if i = unat ?u then ?b
      else if unat ?u \<le> i \<and> i < unat ?u + unat (lay_uberblock_count L) then zeros 4096 else disk io i)"
    if r: "r = Inr x"
  proof -
    obtain a b where q: "q = Inr a" "q2 = Inr b" "io' = io2" using res r by (auto split: sum.splits)
    show ?thesis using io_write1_ok(2) [OF ok1 w2 [unfolded q] len] z q by (auto simp: fun_eq_iff)
  qed
  moreover have "disk io2 i = disk io1 i" if "i \<noteq> unat ?u" for i using io_write1_other [OF ok1 w2 that] .
  ultimately show ?thesis using res z f1 next_io_trans [OF f1 f2] assms(4) by (auto split: sum.splits)
qed

lemma allocator_roots_init_ok:
  assumes "okio io" and "nebula_allocator_roots_init io L = (r, io')"
    and "unat (lay_alloc_roots_head_lba L) < ncap io" and "unat (lay_alloc_roots_tail_lba L) < ncap io"
  shows "next_io io io'"
    and "i \<noteq> unat (lay_alloc_roots_head_lba L) \<Longrightarrow> i \<noteq> unat (lay_alloc_roots_tail_lba L) \<Longrightarrow> disk io' i = disk io i"
    and "r = Inr () \<Longrightarrow> unat (lay_alloc_roots_head_lba L) \<noteq> unat (lay_alloc_roots_tail_lba L) \<Longrightarrow>
           disk io' (unat (lay_alloc_roots_head_lba L)) = enc_array enc_ar (layout_roots L 0)
           \<and> disk io' (unat (lay_alloc_roots_tail_lba L)) = enc_array enc_ar (layout_roots L 64)"
    and "up io \<Longrightarrow> r = Inr ()"
proof -
  let ?h = "lay_alloc_roots_head_lba L" and ?t = "lay_alloc_roots_tail_lba L"
  have len: "length (enc_array enc_ar (layout_roots L k)) = 4096" for k by (rule roots_block_length)
  obtain q io1 where w1: "nebula_io_write io ?h 1 (enc_array enc_ar (layout_roots L 0)) = (q, io1)" by (rule prod.exhaust)
  have f1: "next_io io io1" using io_write_frame(1) [OF assms(1) w1] .
  note ok1 = next_io_ok [OF f1]
  obtain q2 io2 where w2: "nebula_io_write io1 ?t 1 (enc_array enc_ar (layout_roots L 64)) = (q2, io2)" by (rule prod.exhaust)
  have f2: "next_io io1 io2" using io_write_frame(1) [OF ok1 w2] .
  have res: "(r, io') = (case q of Inl e \<Rightarrow> (Inl e, io1) | Inr _ \<Rightarrow> (q2, io2))"
    using assms(2) w1 w2 by (cases q) (auto simp: nebula_allocator_roots_init_def)
  show "next_io io io'" using res f1 next_io_trans [OF f1 f2] by (auto split: sum.splits)
  show "i \<noteq> unat ?h \<Longrightarrow> i \<noteq> unat ?t \<Longrightarrow> disk io' i = disk io i"
    using res io_write1_other [OF assms(1) w1, of i] io_write1_other [OF ok1 w2, of i] by (auto split: sum.splits)
  show "disk io' (unat ?h) = enc_array enc_ar (layout_roots L 0) \<and> disk io' (unat ?t) = enc_array enc_ar (layout_roots L 64)"
    if r: "r = Inr ()" "unat ?h \<noteq> unat ?t"
  proof -
    obtain a b where q: "q = Inr a" "q2 = Inr b" "io' = io2" using res r by (auto split: sum.splits)
    show ?thesis
      using io_write1_ok(2) [OF assms(1) w1 [unfolded q] len] io_write1_ok(2) [OF ok1 w2 [unfolded q] len] r(2) q(3)
      by (simp add: fun_upd_def)
  qed
  show "r = Inr ()" if up: "up io"
  proof -
    have "q = Inr ()" using io_write_up [OF assms(1) up _ w1] assms(3) by simp
    moreover have "q2 = Inr ()"
      using io_write_up [OF ok1 next_io_up [OF f1 up] _ w2] next_io_cap [OF f1] assms(4) by simp
    ultimately show ?thesis using res by simp
  qed
qed

end

section \<open>The allocator roots\<close>

text \<open>
  In natural numbers: each of the 128 roots but the last owns an equal share, the last one also
  takes the remainder.
\<close>

definition root_bound :: "nat \<Rightarrow> nat \<Rightarrow> nat \<Rightarrow> nat" where
  "root_bound ds de i = (if 128 \<le> i then de else ds + i * ((de - ds) div 128))"

lemma root_bound_le:
  fixes ds de i :: nat
  assumes "ds \<le> de" and "i \<le> 128"
  shows "ds + i * ((de - ds) div 128) \<le> de"
proof -
  have "i * ((de - ds) div 128) \<le> 128 * ((de - ds) div 128)" using assms(2) by (rule mult_le_mono1)
  also have "\<dots> \<le> de - ds" by simp
  finally show ?thesis using assms by linarith
qed

lemma root_bound_mono: "ds \<le> de \<Longrightarrow> root_bound ds de i \<le> root_bound ds de (Suc i)"
  using root_bound_le [of ds de i] by (auto simp: root_bound_def)

lemma fill_root_bounds:
  fixes ds de bl sl :: u64
  assumes "unat ds \<le> unat de" and "unat de \<le> 2 ^ 51" and "i < 128"
  defines "r \<equiv> fill_root ds de NEBULA_ALLOC_ROOTS_TOTAL bl sl (of_nat i)"
  shows "unat (ar_range_start_block r) = root_bound (unat ds) (unat de) i"
    and "unat (ar_range_end_block r) = root_bound (unat ds) (unat de) (Suc i)"
    and "unat (ar_free_block_count r) =
           root_bound (unat ds) (unat de) (Suc i) - root_bound (unat ds) (unat de) i"
    and "ar_root_id r = of_nat i" and "ar_checksum r = nebula_allocator_root_checksum r" and "wf_ar r"
proof -
  define per where "per = (de - ds) div 128"
  have per: "unat per = (unat de - unat ds) div 128"
    using assms(1) by (simp add: per_def unat_div_word unat_minus_le)
  have share: "unat (ds + of_nat k * per) = unat ds + k * ((unat de - unat ds) div 128)" if "k \<le> 128" for k
  proof -
    have b: "unat ds + k * ((unat de - unat ds) div 128) \<le> 2 ^ 51"
      using root_bound_le [OF assms(1) that] assms(2) by linarith
    have uk: "unat (of_nat k :: u64) = k" using that by (intro unat_of_nat_u64) simp
    have "unat (of_nat k * per) = k * unat per"
      using b uk per by (subst unat_times_if_small) auto
    then show ?thesis using b per by (subst unat_plus_if_small) auto
  qed
  have id64: "(ucast (of_nat i :: u32) :: u64) = of_nat i" "(ucast (of_nat i + 1 :: u32) :: u64) = of_nat (Suc i)"
    using assms(3) by (simp_all add: word_unat_eq_iff unat_of_nat_u32 unat_of_nat_u64 unat_plus_if_small)
  have last: "(of_nat i :: u32) = 127 \<longleftrightarrow> i = 127"
    using assms(3) by (simp add: word_unat_eq_iff unat_of_nat_u32)
  show "ar_root_id r = of_nat i" "ar_checksum r = nebula_allocator_root_checksum r" "wf_ar r"
    by (simp_all add: r_def fill_root_def Let_def nebula_allocator_root_checksum_def wf_ar_def)
  show s: "unat (ar_range_start_block r) = root_bound (unat ds) (unat de) i"
    using share [of i] assms(3)
    by (simp add: r_def fill_root_def Let_def NEBULA_ALLOC_ROOTS_TOTAL_def id64 root_bound_def flip: per_def)
  show e: "unat (ar_range_end_block r) = root_bound (unat ds) (unat de) (Suc i)"
    using share [of "Suc i"] assms(3) last
    by (simp add: r_def fill_root_def Let_def NEBULA_ALLOC_ROOTS_TOTAL_def id64 root_bound_def flip: per_def)
  have "ar_free_block_count r = ar_range_end_block r - ar_range_start_block r"
    by (simp add: r_def fill_root_def Let_def)
  then show "unat (ar_free_block_count r) =
      root_bound (unat ds) (unat de) (Suc i) - root_bound (unat ds) (unat de) i"
    using s e root_bound_mono [OF assms(1)] by (simp add: unat_minus_le)
qed

lemma nth_layout_roots:
  assumes "i < 128"
  shows "(layout_roots L 0 @ layout_roots L 64) ! i
    = fill_root (lay_data_start_lba L) (lay_alloc_roots_tail_lba L) NEBULA_ALLOC_ROOTS_TOTAL
        (lay_bitmap_lba L) (lay_stream_map_lba L) (of_nat i)"
  using assms by (auto simp: layout_roots_def fill_roots_def nth_append of_nat_diff)

section \<open>Properties\<close>

text \<open>
  The 128 allocator roots that format writes partition the data region: the first
  starts at the data region, each ends where the next one starts, the last ends at the tail copy of
  the roots, and each one's free count is the length of its range.
\<close>

theorem allocator_roots_partition:
  assumes "layout_tiles L" and "unat (lay_capacity_blocks L) \<le> 2 ^ 51"
  defines "roots \<equiv> layout_roots L 0 @ layout_roots L 64"
  shows "length roots = 128
    \<and> ar_range_start_block (roots ! 0) = lay_data_start_lba L
    \<and> ar_range_end_block (roots ! 127) = lay_alloc_roots_tail_lba L
    \<and> (\<forall>i < 127. ar_range_end_block (roots ! i) = ar_range_start_block (roots ! Suc i))
    \<and> (\<forall>i < 128. unat (ar_range_start_block (roots ! i)) + unat (ar_free_block_count (roots ! i))
          = unat (ar_range_end_block (roots ! i)))"
proof -
  let ?ds = "lay_data_start_lba L" and ?de = "lay_alloc_roots_tail_lba L"
  have b: "unat ?ds \<le> unat ?de" "unat ?de \<le> 2 ^ 51" using assms(1,2) by (auto simp: layout_tiles_def)
  have nth: "roots ! i = fill_root ?ds ?de NEBULA_ALLOC_ROOTS_TOTAL (lay_bitmap_lba L)
      (lay_stream_map_lba L) (of_nat i)" if "i < 128" for i
    using nth_layout_roots [OF that] by (simp add: roots_def)
  have r: "unat (ar_range_start_block (roots ! i)) = root_bound (unat ?ds) (unat ?de) i"
    "unat (ar_range_end_block (roots ! i)) = root_bound (unat ?ds) (unat ?de) (Suc i)"
    "unat (ar_free_block_count (roots ! i))
      = root_bound (unat ?ds) (unat ?de) (Suc i) - root_bound (unat ?ds) (unat ?de) i"
    if "i < 128" for i
    using fill_root_bounds(1-3) [OF b that] by (simp_all add: nth [OF that])
  have "length roots = 128" by (simp add: roots_def)
  moreover have "ar_range_start_block (roots ! 0) = ?ds" "ar_range_end_block (roots ! 127) = ?de"
    by (simp_all add: word_unat_eq_iff r root_bound_def)
  moreover have "ar_range_end_block (roots ! i) = ar_range_start_block (roots ! Suc i)" if "i < 127" for i
    using that by (simp add: word_unat_eq_iff r)
  moreover have "unat (ar_range_start_block (roots ! i)) + unat (ar_free_block_count (roots ! i))
      = unat (ar_range_end_block (roots ! i))" if "i < 128" for i
    using that root_bound_mono [OF b(1), of i] by (simp add: r)
  ultimately show ?thesis by blast
qed

theorem allocator_roots_partition_witness:
  "\<exists>L. nebula_layout_compute 65536 = Inr L \<and> layout_tiles L \<and> unat (lay_capacity_blocks L) \<le> 2 ^ 51
     \<and> ar_range_end_block ((layout_roots L 0 @ layout_roots L 64) ! 127) = lay_alloc_roots_tail_lba L"
proof -
  obtain L where L: "nebula_layout_compute 65536 = Inr L" "layout_tiles L" "lay_capacity_blocks L = 65536"
    using nebula_layout_compute_ex_tiles [of 65536 NEBULA_INODE_SIZE_DEFAULT]
    by (auto simp: nebula_layout_compute_def)
  from allocator_roots_partition [of L] show ?thesis using L by simp
qed

text \<open>
  On a device whose calls do not fail, writing the superblock pair succeeds and either
  copy reads back as the structure that was built from the layout, checksum included.
\<close>

theorem superblock_roundtrip:
  assumes "io_ok posix_ops posix_inv io" and "posix_healthy (io_dev io)" and "length u = 16"
    and "lay_sb_head_lba L < io_capacity_blocks io" and "lay_sb_tail_lba L < io_capacity_blocks io"
  shows "\<exists>io1 io2 io3. nebula_superblock_write_both io u L = (Inr (), io1)
    \<and> nebula_superblock_read io1 (lay_sb_head_lba L) = (Inr (sb_build u L), io2)
    \<and> nebula_superblock_read io2 (lay_sb_tail_lba L) = (Inr (sb_build u L), io3)"
proof -
  obtain r io1 where w: "nebula_superblock_write_both io u L = (r, io1)" by (metis surj_pair)
  note sw = posix.superblock_write_ok [OF assms(1,3) w]
  have r: "r = Inr ()" using sw(4) assms by (simp add: word_less_nat_alt)
  have n1: "posix.okio io1" "posix.up io1" "io_capacity_blocks io1 = io_capacity_blocks io"
    using sw(1) assms(2) by (auto dest: posix.next_io_ok posix.next_io_up posix.next_io_cap)
  have d1: "posix.disk io1 (unat (lay_sb_head_lba L)) = enc_sb (sb_build u L)"
    "posix.disk io1 (unat (lay_sb_tail_lba L)) = enc_sb (sb_build u L)"
    using sw(3) r by auto
  obtain io2 where r2: "nebula_superblock_read io1 (lay_sb_head_lba L) = (Inr (sb_build u L), io2)"
    using posix.io_load_up [of io1 "lay_sb_head_lba L" sb_validate] n1 assms(3,4)
    by (auto simp: nebula_superblock_read_def d1 sb_validate_build word_less_nat_alt)
  note f2 = posix.io_load_frame [OF n1(1) r2 [unfolded nebula_superblock_read_def]]
  obtain io3 where "nebula_superblock_read io2 (lay_sb_tail_lba L) = (Inr (sb_build u L), io3)"
    using posix.io_load_up [of io2 "lay_sb_tail_lba L" sb_validate] f2 n1 assms(3,5)
      posix.next_io_ok [OF f2(1)] posix.next_io_up [OF f2(1)] posix.next_io_cap [OF f2(1)]
    by (auto simp: nebula_superblock_read_def d1 sb_validate_build word_less_nat_alt)
  then show ?thesis using w r r2 by blast
qed

definition sample_io :: "u64 \<Rightarrow> posix_dev nebula_io" where
  "sample_io n = \<lparr>io_ops = posix_ops, io_capacity_blocks = n,
     io_dev = \<lparr>pf_bytes = (\<lambda>_. 0), pf_size = unat n * 4096, pf_script = [], pf_fsync = []\<rparr>\<rparr>"

lemma sample_io_ok: "unat n < 2 ^ 51 \<Longrightarrow> io_ok posix_ops posix_inv (sample_io n)"
  "posix_healthy (io_dev (sample_io n))" "io_capacity_blocks (sample_io n) = n"
  by (simp_all add: sample_io_def io_ok_def posix_inv_def posix_healthy_def)

lemma sample_layout:
  obtains L where "nebula_layout_compute 65536 = Inr L" "layout_tiles L"
    "lay_capacity_blocks L = 65536" "lay_inode_size L = NEBULA_INODE_SIZE_DEFAULT"
  using nebula_layout_compute_ex_tiles [of 65536 NEBULA_INODE_SIZE_DEFAULT]
  by (auto simp: nebula_layout_compute_def)

theorem superblock_roundtrip_witness:
  "\<exists>L io1 io2 io3. io_ok posix_ops posix_inv (sample_io 65536) \<and> nebula_layout_compute 65536 = Inr L
     \<and> nebula_superblock_write_both (sample_io 65536) (zeros 16) L = (Inr (), io1)
     \<and> nebula_superblock_read io1 (lay_sb_head_lba L) = (Inr (sb_build (zeros 16) L), io2)
     \<and> nebula_superblock_read io2 (lay_sb_tail_lba L) = (Inr (sb_build (zeros 16) L), io3)"
proof -
  obtain L where L: "nebula_layout_compute 65536 = Inr L" "layout_tiles L" "lay_capacity_blocks L = 65536"
    by (rule sample_layout)
  have "lay_sb_head_lba L < 65536" "lay_sb_tail_lba L < 65536"
    using L(2,3) by (auto simp: layout_tiles_def word_less_nat_alt)
  then show ?thesis
    using superblock_roundtrip [of "sample_io 65536" "zeros 16" L] L(1) sample_io_ok [of 65536] by auto
qed

text \<open>
  The checksum detects every one-byte corruption of a superblock: where a read
  accepted the block, no read accepts the block with one byte changed, the checksum's own bytes
  included.
\<close>

theorem superblock_corruption_detected:
  assumes "io_ok posix_ops posix_inv io" and "nebula_superblock_read io lba = (Inr sb, io1)"
    and "io_ok posix_ops posix_inv io'" and "nebula_superblock_read io' lba = (r, io2)"
    and "posix_blk (io_dev io') (unat lba) = (posix_blk (io_dev io) (unat lba))[i := v]"
    and "i < 4096" and "v \<noteq> posix_blk (io_dev io) (unat lba) ! i"
  shows "\<exists>e. r = Inl e"
proof (rule ccontr)
  assume "\<nexists>e. r = Inl e"
  then obtain sb' where "r = Inr sb'" by (cases r) auto
  then have "sb_validate ((posix_blk (io_dev io) (unat lba))[i := v]) = Inr sb'"
    using posix.io_load_ok(2) [OF assms(3), of lba sb_validate sb' io2] assms(4,5)
    by (simp add: nebula_superblock_read_def)
  moreover have "sb_validate (posix_blk (io_dev io) (unat lba)) = Inr sb"
    using posix.io_load_ok(2) [OF assms(1), of lba sb_validate sb io1] assms(2)
    by (simp add: nebula_superblock_read_def)
  ultimately show False using sb_validate_corrupt [OF _ _ assms(6,7)] posix.blk_length by fastforce
qed

theorem superblock_corruption_detected_witness:
  "\<exists>io io' sb io1 r io2 e. nebula_superblock_read io 0 = (Inr sb, io1)
     \<and> posix_blk (io_dev io') (unat (0 :: u64)) = (posix_blk (io_dev io) (unat (0 :: u64)))[9 := 7]
     \<and> nebula_superblock_read io' 0 = (r, io2) \<and> r = Inl e"
proof -
  obtain L where "nebula_layout_compute 65536 = Inr L" by (rule sample_layout)
  define b where "b = enc_sb (sb_build (zeros 16) L)"
  have len: "length b = 4096" unfolding b_def by (intro sb.enc_length sb_build_wf) simp
  define mk where "mk c = (sample_io 1)\<lparr>io_dev := \<lparr>pf_bytes = (\<lambda>i. c ! i), pf_size = 4096, pf_script = [], pf_fsync = []\<rparr>\<rparr>"
    for c :: "byte list"
  have ok: "io_ok posix_ops posix_inv (mk c)" "posix_healthy (io_dev (mk c))" "io_capacity_blocks (mk c) = 1"
    for c by (simp_all add: mk_def sample_io_def io_ok_def posix_inv_def posix_healthy_def)
  have blk: "posix_blk (io_dev (mk c)) 0 = c" if "length c = 4096" for c
    using that by (intro nth_equalityI) (simp_all add: mk_def posix_blk_def)
  have rd: "\<exists>io1. nebula_superblock_read (mk c) 0 = (sb_validate c, io1)" if "length c = 4096" for c
    using posix.io_load_up [of "mk c" 0 sb_validate] ok [of c] blk [OF that]
    by (auto simp: nebula_superblock_read_def)
  obtain io1 where r1: "nebula_superblock_read (mk b) 0 = (Inr (sb_build (zeros 16) L), io1)"
    using rd [OF len] sb_validate_build [of "zeros 16" L] by (auto simp: b_def)
  obtain io2 where r2: "nebula_superblock_read (mk (b[9 := 7])) 0 = (sb_validate (b[9 := 7]), io2)"
    using rd [of "b[9 := 7]"] len by auto
  have "b ! 9 = 0"
    by (simp add: b_def enc_sb_def sb_build_def Let_def nth_append nth_le_bytes
        NEBULA_VERSION_MAJOR_def)
  then have e: "\<exists>e. sb_validate (b[9 := 7]) = Inl e"
    using superblock_corruption_detected [OF ok(1) r1 ok(1) r2, of 9 7] len blk by auto
  have "posix_blk (io_dev (mk (b[9 := 7]))) (unat (0 :: u64)) = (posix_blk (io_dev (mk b)) (unat (0 :: u64)))[9 := 7]"
    using len blk by simp
  then show ?thesis using r1 r2 e by blast
qed

end
