(* ===== verification/Nebula_Hbm.thy ===== *)
theory Nebula_Hbm
  imports Nebula_Boot
begin

unbundle bit_operations_syntax

text \<open>
  The free-space bitmap: the bit helpers of \<open>nebula_block_alloc.c\<close>, \<open>nebula_bitmap.c\<close> (which
  pre-marks the metadata at format time) and \<open>nebula_hier_bitmap.c\<close> (which loads the bitmap and
  counts it into two levels of summaries).  The lemmas read a bitmap as the set of its free blocks;
  the summaries are correct when they are the cardinalities of that set, per group and in all.
\<close>

section \<open>Bits\<close>

definition bit_get :: "byte list \<Rightarrow> nat \<Rightarrow> bool" where
  "bit_get bm idx \<longleftrightarrow> drop_bit (idx mod 8) (bm ! (idx div 8)) AND 1 \<noteq> 0"

definition bit_set :: "byte list \<Rightarrow> nat \<Rightarrow> byte list" where
  "bit_set bm idx = bm[idx div 8 := bm ! (idx div 8) OR push_bit (idx mod 8) 1]"

definition bit_clr :: "byte list \<Rightarrow> nat \<Rightarrow> byte list" where
  "bit_clr bm idx = bm[idx div 8 := bm ! (idx div 8) AND NOT (push_bit (idx mod 8) 1)]"

lemma bit_get_iff: "bit_get bm i \<longleftrightarrow> bit (bm ! (i div 8)) (i mod 8)"
  by (simp add: bit_get_def bit_iff_odd_drop_bit and_one_eq odd_iff_mod_2_eq_one)

lemma length_bit_set [simp]: "length (bit_set bm i) = length bm"
  by (simp add: bit_set_def)

lemma length_bit_clr [simp]: "length (bit_clr bm i) = length bm"
  by (simp add: bit_clr_def)

lemma bit_index_eq: "(i :: nat) div 8 = j div 8 \<Longrightarrow> i mod 8 = j mod 8 \<Longrightarrow> i = j"
  by (metis div_mult_mod_eq)

lemma bit_get_set: "i div 8 < length bm \<Longrightarrow> bit_get (bit_set bm i) j \<longleftrightarrow> j = i \<or> bit_get bm j"
  by (cases "j div 8 = i div 8")
     (auto simp: bit_get_iff bit_set_def bit_simps nth_list_update dest: bit_index_eq)

lemma bit_get_clr: "i div 8 < length bm \<Longrightarrow> bit_get (bit_clr bm i) j \<longleftrightarrow> j \<noteq> i \<and> bit_get bm j"
  by (cases "j div 8 = i div 8")
     (auto simp: bit_get_iff bit_clr_def bit_simps nth_list_update dest: bit_index_eq bit_byte_bound)

text \<open>A bitmap is determined by its bits.\<close>

lemma bitmap_eqI:
  assumes "length a = length b" and "\<And>i. i < 8 * length a \<Longrightarrow> bit_get a i = bit_get b i"
  shows "a = b"
proof (rule nth_equalityI [OF assms(1)])
  fix k assume k: "k < length a"
  show "a ! k = b ! k"
  proof (rule bit_word_eqI)
    fix j :: nat assume "j < LENGTH(8)"
    then have "8 * k + j < 8 * length a" "(8 * k + j) div 8 = k" "(8 * k + j) mod 8 = j"
      using k by auto
    then show "bit (a ! k) j = bit (b ! k) j" using assms(2) [of "8 * k + j"] by (simp add: bit_get_iff)
  qed
qed

text \<open>Setting or clearing a run of bits, the inner loops of allocate and free.\<close>

definition set_bits :: "byte list \<Rightarrow> nat \<Rightarrow> nat \<Rightarrow> byte list" where
  "set_bits bm start n = fold (\<lambda>i bm. bit_set bm (start + i)) [0..<n] bm"

definition clr_bits :: "byte list \<Rightarrow> nat \<Rightarrow> nat \<Rightarrow> byte list" where
  "clr_bits bm start n = fold (\<lambda>i bm. bit_clr bm (start + i)) [0..<n] bm"

lemma length_set_bits [simp]: "length (set_bits bm s n) = length bm"
  by (induction n) (simp_all add: set_bits_def)

lemma length_clr_bits [simp]: "length (clr_bits bm s n) = length bm"
  by (induction n) (simp_all add: clr_bits_def)

lemma bit_get_set_bits:
  "s + n \<le> 8 * length bm \<Longrightarrow> bit_get (set_bits bm s n) j \<longleftrightarrow> s \<le> j \<and> j < s + n \<or> bit_get bm j"
proof (induction n)
  case 0
  then show ?case by (auto simp: set_bits_def)
next
  case (Suc n)
  have "set_bits bm s (Suc n) = bit_set (set_bits bm s n) (s + n)" by (simp add: set_bits_def)
  moreover have "(s + n) div 8 < length (set_bits bm s n)" using Suc.prems by auto
  ultimately show ?case using Suc by (auto simp: bit_get_set less_Suc_eq)
qed

lemma bit_get_clr_bits:
  "s + n \<le> 8 * length bm \<Longrightarrow> bit_get (clr_bits bm s n) j \<longleftrightarrow> \<not> (s \<le> j \<and> j < s + n) \<and> bit_get bm j"
proof (induction n)
  case 0
  then show ?case by (auto simp: clr_bits_def)
next
  case (Suc n)
  have "clr_bits bm s (Suc n) = bit_clr (clr_bits bm s n) (s + n)" by (simp add: clr_bits_def)
  moreover have "(s + n) div 8 < length (clr_bits bm s n)" using Suc.prems by auto
  ultimately show ?case using Suc by (auto simp: bit_get_clr less_Suc_eq)
qed

lemma clr_set_bits:
  assumes "s + n \<le> 8 * length bm" and "\<And>j. s \<le> j \<Longrightarrow> j < s + n \<Longrightarrow> \<not> bit_get bm j"
  shows "clr_bits (set_bits bm s n) s n = bm"
  by (rule bitmap_eqI) (use assms in \<open>auto simp: bit_get_clr_bits bit_get_set_bits\<close>)

lemma set_clr_bits:
  assumes "s + n \<le> 8 * length bm" and "\<And>j. s \<le> j \<Longrightarrow> j < s + n \<Longrightarrow> bit_get bm j"
  shows "set_bits (clr_bits bm s n) s n = bm"
  by (rule bitmap_eqI) (use assms in \<open>auto simp: bit_get_clr_bits bit_get_set_bits\<close>)

section \<open>Popcount\<close>

definition popcount8 :: "byte \<Rightarrow> u32" where
  "popcount8 b0 =
     (let b1 = (b0 AND 0x55) + (drop_bit 1 b0 AND 0x55);
          b2 = (b1 AND 0x33) + (drop_bit 2 b1 AND 0x33);
          b3 = (b2 AND 0x0F) + (drop_bit 4 b2 AND 0x0F)
      in ucast b3)"

lemma popcount8_table:
  "list_all (\<lambda>n. popcount8 (word_of_int n) = word_of_int (n mod 2 + n div 2 mod 2 + n div 4 mod 2
       + n div 8 mod 2 + n div 16 mod 2 + n div 32 mod 2 + n div 64 mod 2 + n div 128 mod 2)) [0..255]"
  by code_simp

lemma popcount8_eq: "popcount8 b = of_nat (length (filter (bit b) [0..<8]))"
proof -
  have "uint b < 256" using uint_lt2p [of b] by simp
  then have "uint b \<in> set [0..255]" by simp
  note tab = bspec [OF popcount8_table [unfolded list_all_iff] this]
  have bits8: "[0..<8] = [0, 1, 2, 3, 4, 5, 6, 7 :: nat]" by code_simp
  have "popcount8 b = word_of_int (\<Sum>k\<leftarrow>[0..<8]. uint b div 2 ^ k mod 2)"
    using tab by (simp add: bits8 add.assoc)
  moreover have "uint b div 2 ^ k mod 2 = of_bool (bit b k)" for k
  proof -
    have "bit (uint b) k \<longleftrightarrow> bit b k" by (auto simp: bit_unsigned_iff dest: bit_imp_le_length)
    then show ?thesis by (simp add: bit_iff_odd [of "uint b"] mod_2_eq_odd)
  qed
  moreover have "(\<Sum>k\<leftarrow>xs. of_bool (P k) :: int) = int (length (filter P xs))" for P and xs :: "nat list"
    by (induction xs) auto
  ultimately show ?thesis by simp
qed

section \<open>The in-memory hierarchical bitmap\<close>

record nebula_hier_bitmap =
  hb_total_blocks :: u64
  hb_num_pages :: u64
  hb_l0_bits :: "byte list"
  hb_num_groups :: u32
  hb_l1_free_counts :: "u64 list"
  hb_l2_total_free :: u64

definition NEBULA_HBM_PAGES_PER_GROUP :: nat where [simp]: "NEBULA_HBM_PAGES_PER_GROUP = 64"

text \<open>The free blocks of one page: the inner loop over its bytes and the cap of the last page.\<close>

definition page_alloc_bits :: "byte list \<Rightarrow> nat \<Rightarrow> u32" where
  "page_alloc_bits l0 page =
     fold (\<lambda>i acc. acc + popcount8 (l0 ! (page * NEBULA_BLOCK_SIZE + i))) [0..<NEBULA_BLOCK_SIZE] 0"

definition page_free :: "u64 \<Rightarrow> byte list \<Rightarrow> u64 \<Rightarrow> u64" where
  "page_free total_blocks l0 page =
     (let alloc_bits = (ucast (page_alloc_bits l0 (unat page)) :: u64);
          page_start_block = page * 32768;
          page_blocks =
            (if page_start_block + 32768 > total_blocks
             then (if page_start_block < total_blocks then total_blocks - page_start_block else 0)
             else 32768)
      in if alloc_bits \<ge> page_blocks then 0 else page_blocks - alloc_bits)"

text \<open>Adding a page's contribution to its group and to the total.\<close>

definition add_to_group :: "(nat \<Rightarrow> u64) \<Rightarrow> nat \<Rightarrow> u64 list \<times> u64 \<Rightarrow> u64 list \<times> u64" where
  "add_to_group d page s =
     (let group = page div NEBULA_HBM_PAGES_PER_GROUP in
      case s of (l1, l2) \<Rightarrow> (l1[group := l1 ! group + d page], l2 + d page))"

definition nebula_hbm_load ::
    "'d nebula_io \<Rightarrow> u64 \<Rightarrow> u64 \<Rightarrow> u64 \<Rightarrow> nebula_hier_bitmap res \<times> 'd nebula_io" where
  "nebula_hbm_load io bitmap_lba bitmap_block_count total_blocks =
     (if bitmap_block_count = 0 then (Inl EINVAL, io)
      else
        let num_groups = (ucast ((bitmap_block_count + 63) div 64) :: u32) in
        case nebula_io_read io bitmap_lba (ucast bitmap_block_count) of
          (Inl e, io') \<Rightarrow> (Inl e, io')
        | (Inr l0, io') \<Rightarrow>
            if length l0 < unat bitmap_block_count * NEBULA_BLOCK_SIZE then (Inl UNDEFINED, io')
            else
              case fold (add_to_group (\<lambda>p. page_free total_blocks l0 (of_nat p)))
                     [0..<unat bitmap_block_count] (replicate (unat num_groups) 0, 0) of
                (l1, total_free) \<Rightarrow>
                  (Inr \<lparr>hb_total_blocks = total_blocks, hb_num_pages = bitmap_block_count,
                        hb_l0_bits = l0, hb_num_groups = num_groups,
                        hb_l1_free_counts = l1, hb_l2_total_free = total_free\<rparr>, io'))"

definition nebula_hbm_total_free :: "nebula_hier_bitmap \<Rightarrow> u64" where
  "nebula_hbm_total_free h = hb_l2_total_free h"

section \<open>What the summaries mean\<close>

text \<open>The free blocks; a block's page is \<open>i div 32768\<close>, its group \<open>i div 2097152\<close>.\<close>

definition free_blocks :: "byte list \<Rightarrow> nat \<Rightarrow> nat set" where
  "free_blocks bm n = {i. i < n \<and> \<not> bit_get bm i}"

definition summaries_exact :: "nat set \<Rightarrow> u64 list \<Rightarrow> u64 \<Rightarrow> bool" where
  "summaries_exact F l1 l2 \<longleftrightarrow>
     (\<forall>g < length l1. l1 ! g = of_nat (card {i \<in> F. i div 2097152 = g})) \<and> l2 = of_nat (card F)"

definition hbm_wf :: "nebula_hier_bitmap \<Rightarrow> bool" where
  "hbm_wf h \<longleftrightarrow>
     unat (hb_total_blocks h) \<le> 32768 * unat (hb_num_pages h) \<and>
     32768 * unat (hb_num_pages h) < unat (hb_total_blocks h) + 32768 \<and>
     unat (hb_num_pages h) < 2 ^ 32 \<and>
     length (hb_l0_bits h) = 4096 * unat (hb_num_pages h) \<and>
     length (hb_l1_free_counts h) = (unat (hb_num_pages h) + 63) div 64 \<and>
     unat (hb_num_groups h) = (unat (hb_num_pages h) + 63) div 64 \<and>
     summaries_exact (free_blocks (hb_l0_bits h) (unat (hb_total_blocks h)))
       (hb_l1_free_counts h) (hb_l2_total_free h)"

lemma finite_free_blocks [simp]: "finite (free_blocks bm n)"
  by (simp add: free_blocks_def)

lemma length_fold_add_to_group:
  "length (fst (fold (add_to_group d) ps (l1, l2))) = length l1"
  by (induction ps arbitrary: l1 l2) (auto simp: add_to_group_def Let_def)

lemma fold_add_to_group:
  assumes "\<And>p. p \<in> set ps \<Longrightarrow> p div 64 < length l1"
  shows "snd (fold (add_to_group d) ps (l1, l2)) = l2 + (\<Sum>p\<leftarrow>ps. d p)"
    and "g < length l1 \<Longrightarrow> fst (fold (add_to_group d) ps (l1, l2)) ! g
           = l1 ! g + (\<Sum>p\<leftarrow>filter (\<lambda>p. p div 64 = g) ps. d p)"
  using assms
proof (induction ps arbitrary: l1 l2)
  case Nil
  { case 1 then show ?case by simp next case 2 then show ?case by simp }
next
  case (Cons p ps)
  { case 1
    then show ?case using Cons.IH(1) [of "l1[p div 64 := l1 ! (p div 64) + d p]" "l2 + d p"]
      by (simp add: add_to_group_def Let_def add.assoc)
  next
    case 2
    then show ?case using Cons.IH(2) [of "l1[p div 64 := l1 ! (p div 64) + d p]" "l2 + d p"]
      by (simp add: add_to_group_def Let_def add.assoc nth_list_update) }
qed

text \<open>Per-page counts of a set of blocks add up to its per-group counts.\<close>

lemma sum_page_cards:
  fixes X :: "nat set"
  assumes "finite X" and "distinct ps" and "\<And>i. i \<in> X \<Longrightarrow> i div 32768 \<in> set ps"
  shows "(\<Sum>p\<leftarrow>ps. card {i \<in> X. i div 32768 = p}) = card X"
proof -
  have "(\<Sum>p\<leftarrow>ps. card {i \<in> X. i div 32768 = p}) = (\<Sum>p\<in>set ps. card {i \<in> X. i div 32768 = p})"
    using assms(2) by (simp add: sum_list_distinct_conv_sum_set)
  also have "\<dots> = card (\<Union>p\<in>set ps. {i \<in> X. i div 32768 = p})"
    by (rule card_UN_disjoint [symmetric]) (auto simp: assms(1))
  also have "(\<Union>p\<in>set ps. {i \<in> X. i div 32768 = p}) = X" using assms(3) by auto
  finally show ?thesis .
qed

lemma page_of_group: "i div 32768 div 64 = (i :: nat) div 2097152"
  by (simp add: div_mult2_eq [symmetric])

lemma sum_page_cards_group:
  fixes X :: "nat set"
  assumes "finite X" and "distinct ps" and "\<And>i. i \<in> X \<Longrightarrow> i div 32768 \<in> set ps"
  shows "(\<Sum>p\<leftarrow>filter (\<lambda>p. p div 64 = g) ps. card {i \<in> X. i div 32768 = p})
    = card {i \<in> X. i div 2097152 = g}"
proof -
  let ?Y = "{i \<in> X. i div 2097152 = g}"
  have "card {i \<in> X. i div 32768 = p} = card {i \<in> ?Y. i div 32768 = p}" if "p div 64 = g" for p
    using that by (auto intro!: arg_cong [where f = card] simp: page_of_group [symmetric])
  then have "(\<Sum>p\<leftarrow>filter (\<lambda>p. p div 64 = g) ps. card {i \<in> X. i div 32768 = p})
      = (\<Sum>p\<leftarrow>filter (\<lambda>p. p div 64 = g) ps. card {i \<in> ?Y. i div 32768 = p})"
    by (intro arg_cong [where f = sum_list] map_cong) auto
  also have "\<dots> = card ?Y"
    using assms by (intro sum_page_cards) (auto simp: page_of_group)
  finally show ?thesis .
qed

lemma of_nat_sum_list: "of_nat (\<Sum>p\<leftarrow>ps. f p) = (\<Sum>p\<leftarrow>ps. of_nat (f p) :: 'a::semiring_1)"
  by (induction ps) auto

text \<open>The effect of a pass over pages that adds the number of blocks of \<open>X\<close> in each page.\<close>

lemma fold_pages_set:
  fixes X :: "nat set"
  assumes "finite X" and "distinct ps" and "\<And>i. i \<in> X \<Longrightarrow> i div 32768 \<in> set ps"
    and "\<And>p. p \<in> set ps \<Longrightarrow> p div 64 < length l1"
    and "\<And>p. p \<in> set ps \<Longrightarrow> d p = dir * of_nat (card {i \<in> X. i div 32768 = p})"
    and "fold (add_to_group d) ps (l1, l2) = (l1', l2')"
  shows "length l1' = length l1" and "l2' = l2 + dir * of_nat (card X)"
    and "g < length l1 \<Longrightarrow> l1' ! g = l1 ! g + dir * of_nat (card {i \<in> X. i div 2097152 = g})"
proof -
  have eq: "(\<Sum>p\<leftarrow>qs. d p) = dir * of_nat (\<Sum>p\<leftarrow>qs. card {i \<in> X. i div 32768 = p})"
    if "set qs \<subseteq> set ps" for qs
    using that assms(5) by (induction qs) (auto simp: distrib_left)
  show "length l1' = length l1" using length_fold_add_to_group [of d ps l1 l2] assms(6) by simp
  show "l2' = l2 + dir * of_nat (card X)"
    using fold_add_to_group(1) [of ps l1 d l2] assms(4) assms(6) eq [of ps]
    by (simp add: sum_page_cards [OF assms(1-3)])
  show "l1' ! g = l1 ! g + dir * of_nat (card {i \<in> X. i div 2097152 = g})" if "g < length l1"
    using fold_add_to_group(2) [of ps l1 g d l2] that assms(4) assms(6) eq [of "filter (\<lambda>p. p div 64 = g) ps"]
    by (simp add: sum_page_cards_group [OF assms(1-3)])
qed

section \<open>The loader counts exactly\<close>

text \<open>
  The bits beyond the device must be clear: the loader subtracts every set bit of the last page from
  the blocks that the device has in it.
\<close>

definition tail_clear :: "byte list \<Rightarrow> nat \<Rightarrow> bool" where
  "tail_clear bm n \<longleftrightarrow> (\<forall>i. n \<le> i \<and> i < 8 * length bm \<longrightarrow> \<not> bit_get bm i)"

lemma byte_bits: "length (filter (bit (bm ! k)) [0..<8]) = length (filter (bit_get bm) [8 * k..<8 * k + 8])"
proof -
  have "[8 * k..<8 * k + 8] = map (\<lambda>j. 8 * k + j) [0..<8]" by (simp add: map_add_upt add.commute)
  moreover have "filter (bit (bm ! k)) [0..<8] = filter (\<lambda>j. bit_get bm (8 * k + j)) [0..<8]"
    by (rule filter_cong) (auto simp: bit_get_iff)
  ultimately show ?thesis by (simp add: filter_map o_def)
qed

lemma fold_popcount:
  "fold (\<lambda>i acc. acc + popcount8 (bm ! (b + i))) [0..<m] 0
     = of_nat (length (filter (bit_get bm) [8 * b..<8 * (b + m)]))"
proof (induction m)
  case 0
  then show ?case by simp
next
  case (Suc m)
  have "filter (bit_get bm) [8 * b..<8 * (b + Suc m)]
      = filter (bit_get bm) [8 * b..<8 * (b + m)] @ filter (bit_get bm) [8 * (b + m)..<8 * (b + m) + 8]"
    using filter_upt_split [of "8 * b" "8 * (b + m)" "8 * (b + m) + 8"] by (simp add: algebra_simps)
  then show ?case using Suc by (simp add: popcount8_eq byte_bits)
qed

lemma page_set: "{i. p * 32768 \<le> i \<and> i < p * 32768 + 32768} = {i. i div 32768 = (p :: nat)}"
  by auto

lemma page_alloc_bits_eq:
  "page_alloc_bits bm p = of_nat (card {i. i div 32768 = p \<and> bit_get bm i})"
proof -
  have "page_alloc_bits bm p = of_nat (length (filter (bit_get bm) [p * 32768..<p * 32768 + 32768]))"
    using fold_popcount [of bm "p * 4096" 4096] by (simp add: page_alloc_bits_def algebra_simps)
  also have "length (filter (bit_get bm) [p * 32768..<p * 32768 + 32768])
      = card {i. p * 32768 \<le> i \<and> i < p * 32768 + 32768 \<and> bit_get bm i}"
    by (rule card_filter_upt)
  also have "{i. p * 32768 \<le> i \<and> i < p * 32768 + 32768 \<and> bit_get bm i} = {i. i div 32768 = p \<and> bit_get bm i}"
    using page_set [of p] by blast
  finally show ?thesis .
qed

lemma page_free_eq:
  assumes "unat tb < 2 ^ 50" and "p < 2 ^ 32" and "4096 * (p + 1) \<le> length bm" and "tail_clear bm (unat tb)"
  shows "page_free tb bm (of_nat p) = of_nat (card {i \<in> free_blocks bm (unat tb). i div 32768 = p})"
proof -
  let ?A = "{i. i div 32768 = p \<and> bit_get bm i}"
  let ?P = "{i. p * 32768 \<le> i \<and> i < min (unat tb) (p * 32768 + 32768)}"
  let ?F = "{i \<in> free_blocks bm (unat tb). i div 32768 = p}"
  have pg: "i div 32768 = p \<longleftrightarrow> p * 32768 \<le> i \<and> i < p * 32768 + 32768" for i using page_set [of p] by auto
  have AP: "?A \<subseteq> ?P"
    using assms(3,4) by (auto simp: pg tail_clear_def not_less [symmetric])
  have fin: "finite ?P" by simp
  have F: "?F = ?P - ?A" by (auto simp: free_blocks_def pg)
  have cP: "card ?P = min (unat tb) (p * 32768 + 32768) - p * 32768"
    using card_atLeastLessThan [of "p * 32768" "min (unat tb) (p * 32768 + 32768)"]
    by (simp add: atLeastLessThan_def lessThan_def atLeast_def Collect_conj_eq)
  have cF: "card ?F = card ?P - card ?A" using AP fin by (simp add: F card_Diff_subset finite_subset)
  have cA: "card ?A \<le> card ?P" using AP fin by (rule card_mono [rotated])
  then have cA2: "card ?A \<le> 32768" using cP by auto
  have up: "unat (of_nat p :: u64) = p" using assms(2) by (intro unat_of_nat_u64) simp
  have ab: "unat (page_alloc_bits bm p) = card ?A"
    using cA2 by (simp add: page_alloc_bits_eq unat_of_nat_u32)
  have ps: "unat (of_nat p * 32768 :: u64) = p * 32768"
    using assms(2) up by (subst unat_times_if_small) auto
  have pe: "unat (of_nat p * 32768 + 32768 :: u64) = p * 32768 + 32768"
    using assms(2) ps by (subst unat_plus_if_small) auto
  define pb where "pb = (if (of_nat p * 32768 + 32768 :: u64) > tb
      then (if of_nat p * 32768 < tb then tb - of_nat p * 32768 else 0) else 32768)"
  have upb: "unat pb = card ?P"
    unfolding cP by (auto simp: pb_def word_less_nat_alt ps pe min_def unat_minus_le)
  have "page_free tb bm (of_nat p) = (if ucast (page_alloc_bits bm p) \<ge> pb then 0 else pb - ucast (page_alloc_bits bm p))"
    by (simp add: page_free_def Let_def up pb_def)
  moreover have "unat (if ucast (page_alloc_bits bm p) \<ge> pb then 0 else pb - ucast (page_alloc_bits bm p)) = card ?F"
    using cA by (auto simp: word_le_nat_alt ab upb cF unat_minus_le)
  ultimately have "unat (page_free tb bm (of_nat p)) = card ?F" by simp
  then show ?thesis by (metis of_nat_unat ucast_id)
qed

lemma hbm_load_count:
  assumes fit: "unat tb \<le> 32768 * n" "32768 * n < unat tb + 32768" "n < 2 ^ 32" "unat tb < 2 ^ 50"
    and len: "length bm = 4096 * n" and tail: "tail_clear bm (unat tb)" and g: "ng = (n + 63) div 64"
    and res: "fold (add_to_group (\<lambda>p. page_free tb bm (of_nat p))) [0..<n] (replicate ng 0, 0) = (l1, l2)"
  shows "length l1 = ng" and "summaries_exact (free_blocks bm (unat tb)) l1 l2"
proof -
  let ?F = "free_blocks bm (unat tb)"
  have pf: "page_free tb bm (of_nat p) = 1 * of_nat (card {i \<in> ?F. i div 32768 = p})" if "p \<in> set [0..<n]" for p
    using page_free_eq [of tb p bm] fit len tail that by auto
  have F: "i div 32768 \<in> set [0..<n]" if "i \<in> ?F" for i
    using that fit(1) by (auto simp: free_blocks_def div_less_iff_less_mult mult.commute)
  have grp: "p div 64 < length (replicate ng (0 :: u64))" if "p \<in> set [0..<n]" for p
    using that by (auto simp: g)
  note fp = fold_pages_set [OF finite_free_blocks distinct_upt F grp pf res]
  show "length l1 = ng" using fp(1) by simp
  then show "summaries_exact ?F l1 l2" using fp(2,3) by (auto simp: summaries_exact_def)
qed

context block_backend
begin

lemma hbm_load_frame:
  assumes "okio io" and "nebula_hbm_load io bl n tb = (r, io')"
  shows "next_io io io'" and "disk io' = disk io"
  using assms io_read_frame [OF assms(1)]
  by (auto simp: nebula_hbm_load_def Let_def next_io_refl split: if_splits prod.splits sum.splits)

lemma hbm_load_ok:
  assumes "okio io" and "nebula_hbm_load io bl n tb = (Inr h, io')" and "unat n < 2 ^ 32"
    and "unat tb \<le> 32768 * unat n" and "32768 * unat n < unat tb + 32768" and "unat tb < 2 ^ 50"
    and "tail_clear (concat (map (disk io) [unat bl..<unat bl + unat n])) (unat tb)"
  shows "hbm_wf h" and "hb_l0_bits h = concat (map (disk io) [unat bl..<unat bl + unat n])"
    and "hb_total_blocks h = tb" and "hb_num_pages h = n"
proof -
  have un: "unat (ucast n :: u32) = unat n"
    using assms(3) by (simp add: unsigned_ucast_eq take_bit_nat_eq_self)
  obtain l0 where rd: "nebula_io_read io bl (ucast n) = (Inr l0, io')"
    using assms(2) by (auto simp: nebula_hbm_load_def Let_def split: if_splits prod.splits sum.splits)
  have l0: "l0 = concat (map (disk io) [unat bl..<unat bl + unat n])" "length l0 = 4096 * unat n"
    using io_read_ok(2,3) [OF assms(1) rd] by (simp_all add: un)
  have "(n + 63) div 64 = of_nat ((unat n + 63) div 64)"
    using assms(3) by (simp add: word_unat_eq_iff unat_div_word unat_of_nat_u64 unat_plus_if_small)
  then have ng: "unat (ucast ((n + 63) div 64) :: u32) = (unat n + 63) div 64"
    using assms(3) by (simp add: unsigned_ucast_eq take_bit_nat_eq_self unat_of_nat_u64)
  obtain l1 l2 where f: "fold (add_to_group (\<lambda>p. page_free tb l0 (of_nat p))) [0..<unat n]
      (replicate (unat (ucast ((n + 63) div 64) :: u32)) 0, 0) = (l1, l2)" by (rule prod.exhaust)
  have h: "h = \<lparr>hb_total_blocks = tb, hb_num_pages = n, hb_l0_bits = l0,
      hb_num_groups = ucast ((n + 63) div 64), hb_l1_free_counts = l1, hb_l2_total_free = l2\<rparr>"
    using assms(2) rd f by (simp add: nebula_hbm_load_def Let_def split: if_splits)
  note cnt = hbm_load_count [OF assms(4,5,3,6) l0(2) _ ng f]
  show "hbm_wf h" using cnt assms(3-7) l0 ng by (simp add: hbm_wf_def h)
  show "hb_l0_bits h = concat (map (disk io) [unat bl..<unat bl + unat n])"
    "hb_total_blocks h = tb" "hb_num_pages h = n" using l0 by (simp_all add: h)
qed

lemma hbm_load_up:
  assumes "okio io" and "up io" and "0 < unat n" and "unat n < 2 ^ 32" and "unat bl + unat n \<le> ncap io"
  obtains h io' where "nebula_hbm_load io bl n tb = (Inr h, io')"
proof -
  have un: "unat (ucast n :: u32) = unat n"
    using assms(4) by (simp add: unsigned_ucast_eq take_bit_nat_eq_self)
  obtain l0 io' where rd: "nebula_io_read io bl (ucast n) = (Inr l0, io')"
    using io_read_succeeds [of io bl "ucast n"] assms un by auto
  moreover have "length l0 = 4096 * unat n" using io_read_ok(3) [OF assms(1) rd] un by simp
  moreover have "n \<noteq> 0" using assms(3) by auto
  moreover obtain l1 l2 where "fold (add_to_group (\<lambda>p. page_free tb l0 (of_nat p))) [0..<unat n]
      (replicate (unat (ucast ((n + 63) div 64) :: u32)) 0, 0) = (l1, l2)" by (rule prod.exhaust)
  ultimately show ?thesis using that by (simp add: nebula_hbm_load_def Let_def)
qed

end

section \<open>Formatting the bitmap\<close>

definition lba_is_metadata :: "nebula_layout \<Rightarrow> u64 \<Rightarrow> bool" where
  "lba_is_metadata L lba \<longleftrightarrow> lba < lay_data_start_lba L \<or> lba \<ge> lay_alloc_roots_tail_lba L"

definition bitmap_page :: "nebula_layout \<Rightarrow> u64 \<Rightarrow> byte list" where
  "bitmap_page L p =
     (let first_lba = p * 32768;
          last_lba = (if first_lba + 32768 > lay_capacity_blocks L then lay_capacity_blocks L
                      else first_lba + 32768)
      in fold (\<lambda>lba page. if lba_is_metadata L (of_nat lba) then bit_set page (lba - unat first_lba) else page)
           [unat first_lba..<unat last_lba] (zeros NEBULA_BLOCK_SIZE))"

definition nebula_bitmap_init :: "'d nebula_io \<Rightarrow> nebula_layout \<Rightarrow> unit res \<times> 'd nebula_io" where
  "nebula_bitmap_init io L =
     (case for_each (\<lambda>p io. nebula_io_write io (lay_bitmap_lba L + of_nat p) 1 (bitmap_page L (of_nat p)))
             [0..<unat (lay_bitmap_block_count L)] io of
        (Inl e, io') \<Rightarrow> (Inl e, io')
      | (Inr _, io') \<Rightarrow>
          zero_region io' (lay_stream_map_lba L) (unat (lay_stream_map_block_count L)))"

lemma bit_get_zeros [simp]: "i < 8 * n \<Longrightarrow> \<not> bit_get (zeros n) i"
  by (simp add: bit_get_iff less_mult_imp_div_less mult.commute)

lemma fold_mark_bits:
  assumes "b - a \<le> 8 * length page"
  shows "length (fold (\<lambda>k page. if P k then bit_set page (k - a) else page) [a..<b] page) = length page"
    and "bit_get (fold (\<lambda>k page. if P k then bit_set page (k - a) else page) [a..<b] page) j
      \<longleftrightarrow> bit_get page j \<or> (a + j < b \<and> P (a + j))"
  using assms
proof (induction b)
  case 0
  { case 1 then show ?case by simp next case 2 then show ?case by simp }
next
  case (Suc b)
  { case 1
    then show ?case using Suc.IH(1) by (cases "a \<le> b") simp_all
  next
    case 2
    show ?case
    proof (cases "a \<le> b")
      case False
      then show ?thesis by simp
    next
      case True
      let ?f = "fold (\<lambda>k page. if P k then bit_set page (k - a) else page) [a..<b] page"
      have "length ?f = length page" using Suc.IH(1) 2 by simp
      moreover have "(b - a) div 8 < length page" using 2 True by auto
      ultimately have "bit_get (if P b then bit_set ?f (b - a) else ?f) j
          \<longleftrightarrow> bit_get ?f j \<or> (P b \<and> j = b - a)" by (auto simp: bit_get_set)
      also have "\<dots> \<longleftrightarrow> bit_get page j \<or> (a + j < Suc b \<and> P (a + j))"
        using Suc.IH(2) 2 True by (auto simp: less_Suc_eq)
      finally show ?thesis using True by simp
    qed }
qed

lemma bitmap_page_bits:
  assumes "layout_tiles L" and "unat (lay_capacity_blocks L) \<le> 2 ^ 51" and "p < unat (lay_bitmap_block_count L)"
  shows "length (bitmap_page L (of_nat p)) = 4096"
    and "j < 32768 \<Longrightarrow> bit_get (bitmap_page L (of_nat p)) j \<longleftrightarrow> p * 32768 + j < unat (lay_capacity_blocks L)
      \<and> (p * 32768 + j < unat (lay_data_start_lba L) \<or> unat (lay_alloc_roots_tail_lba L) \<le> p * 32768 + j)"
proof -
  let ?cap = "lay_capacity_blocks L"
  have pb: "32768 * (p + 1) < unat ?cap + 32768" using assms(1,3) by (auto simp: layout_tiles_def)
  have up: "unat (of_nat p :: u64) = p" using pb assms(2) by (intro unat_of_nat_u64) simp
  have a: "unat (of_nat p * 32768 :: u64) = p * 32768"
    using pb assms(2) up by (subst unat_times_if_small) auto
  have a2: "unat (of_nat p * 32768 + 32768 :: u64) = p * 32768 + 32768"
    using pb assms(2) a by (subst unat_plus_if_small) auto
  define last where "last = (if of_nat p * 32768 + 32768 > ?cap then ?cap else of_nat p * 32768 + 32768)"
  have b: "unat last = min (p * 32768 + 32768) (unat ?cap)"
    by (auto simp: last_def word_less_nat_alt a2)
  define P where "P k \<longleftrightarrow> lba_is_metadata L (of_nat k)" for k
  have pg: "bitmap_page L (of_nat p)
      = fold (\<lambda>k page. if P k then bit_set page (k - p * 32768) else page) [p * 32768..<unat last] (zeros 4096)"
    unfolding bitmap_page_def Let_def a P_def last_def by simp
  have len: "unat last - p * 32768 \<le> 8 * length (zeros 4096)" using b by simp
  show "length (bitmap_page L (of_nat p)) = 4096"
    using fold_mark_bits(1) [OF len, of P] by (simp add: pg)
  have P: "P k \<longleftrightarrow> k < unat (lay_data_start_lba L) \<or> unat (lay_alloc_roots_tail_lba L) \<le> k"
    if "k < unat ?cap" for k
  proof -
    have "unat (of_nat k :: u64) = k" using that assms(2) by (intro unat_of_nat_u64) simp
    then show ?thesis by (simp add: P_def lba_is_metadata_def word_less_nat_alt word_le_nat_alt)
  qed
  show "bit_get (bitmap_page L (of_nat p)) j \<longleftrightarrow> p * 32768 + j < unat ?cap
      \<and> (p * 32768 + j < unat (lay_data_start_lba L) \<or> unat (lay_alloc_roots_tail_lba L) \<le> p * 32768 + j)"
    if "j < 32768"
    using fold_mark_bits(2) [OF len, of P j] that by (auto simp: pg b P)
qed

text \<open>Bits of a bitmap that is read as consecutive pages.\<close>

lemma bit_get_pages:
  assumes "\<And>k. length (f k) = 4096" and "i < 32768 * n"
  shows "bit_get (concat (map f [a..<a + n])) i \<longleftrightarrow> bit_get (f (a + i div 32768)) (i mod 32768)"
proof -
  let ?c = "concat (map f [a..<a + n])"
  have k: "i div 32768 < n" using assms(2) by (simp add: less_mult_imp_div_less mult.commute)
  have len: "length ?c = 4096 * n" using length_concat_const [of "[a..<a + n]" f 4096] assms(1) by simp
  have "seg (4096 * (i div 32768)) 4096 ?c = f (a + i div 32768)"
    using seg_concat_const [of "[a..<a + n]" f 4096 "i div 32768"] assms(1) k by simp
  moreover have split: "i div 8 = 4096 * (i div 32768) + i mod 32768 div 8"
    "i mod 32768 mod 8 = i mod 8"
  proof -
    have "i mod 32768 + 8 * (4096 * (i div 32768)) = i" by simp
    moreover have "(i mod 32768 + 8 * (4096 * (i div 32768))) div 8 = 4096 * (i div 32768) + i mod 32768 div 8"
      by (rule div_mult_self2) simp
    ultimately show "i div 8 = 4096 * (i div 32768) + i mod 32768 div 8" by (simp only:)
    show "i mod 32768 mod 8 = i mod 8" by (rule mod_mod_cancel) simp
  qed
  moreover have "i mod 32768 div 8 < 4096" by (simp add: less_mult_imp_div_less)
  moreover have "4096 * (i div 32768) + i mod 32768 div 8 < length ?c"
  proof -
    have "4096 * (i div 32768) + 4096 \<le> 4096 * n" using k by simp
    then show ?thesis using \<open>i mod 32768 div 8 < 4096\<close> len by linarith
  qed
  ultimately have "?c ! (i div 8) = f (a + i div 32768) ! (i mod 32768 div 8)"
    by (metis nth_seg)
  then show ?thesis using split(2) by (simp add: bit_get_iff)
qed

definition bitmap_pages_formatted :: "nebula_layout \<Rightarrow> (nat \<Rightarrow> byte list) \<Rightarrow> bool" where
  "bitmap_pages_formatted L dsk \<longleftrightarrow> (\<forall>p < unat (lay_bitmap_block_count L).
     dsk (unat (lay_bitmap_lba L) + p) = bitmap_page L (of_nat p))"

lemma formatted_bits:
  assumes "layout_tiles L" and "unat (lay_capacity_blocks L) \<le> 2 ^ 51" and "bitmap_pages_formatted L dsk"
    and "\<And>k. length (dsk k) = 4096" and "i < 32768 * unat (lay_bitmap_block_count L)"
  shows "bit_get (concat (map dsk [unat (lay_bitmap_lba L)..<unat (lay_bitmap_lba L) + unat (lay_bitmap_block_count L)])) i
    \<longleftrightarrow> i < unat (lay_capacity_blocks L) \<and> (i < unat (lay_data_start_lba L) \<or> unat (lay_alloc_roots_tail_lba L) \<le> i)"
proof -
  have p: "i div 32768 < unat (lay_bitmap_block_count L)"
    using assms(5) by (simp add: less_mult_imp_div_less mult.commute)
  have "i div 32768 * 32768 + i mod 32768 = i" by simp
  then show ?thesis
    using bitmap_page_bits(2) [OF assms(1,2) p, of "i mod 32768"] assms(3) p
    by (simp add: bit_get_pages [OF assms(4,5)] bitmap_pages_formatted_def)
qed

lemma formatted_free:
  assumes "layout_tiles L" and "unat (lay_capacity_blocks L) \<le> 2 ^ 51" and "bitmap_pages_formatted L dsk"
    and "\<And>k. length (dsk k) = 4096"
  defines "bm \<equiv> concat (map dsk [unat (lay_bitmap_lba L)..<unat (lay_bitmap_lba L) + unat (lay_bitmap_block_count L)])"
  shows "free_blocks bm (unat (lay_capacity_blocks L)) = {unat (lay_data_start_lba L)..<unat (lay_alloc_roots_tail_lba L)}"
    and "tail_clear bm (unat (lay_capacity_blocks L))"
proof -
  have cover: "unat (lay_capacity_blocks L) \<le> 32768 * unat (lay_bitmap_block_count L)"
    "unat (lay_alloc_roots_tail_lba L) < unat (lay_capacity_blocks L)"
    using assms(1) by (auto simp: layout_tiles_def)
  have len: "length bm = 4096 * unat (lay_bitmap_block_count L)"
    using length_concat_const [of _ dsk 4096] assms(4) by (simp add: bm_def)
  show "free_blocks bm (unat (lay_capacity_blocks L)) = {unat (lay_data_start_lba L)..<unat (lay_alloc_roots_tail_lba L)}"
    using formatted_bits [OF assms(1-4), folded bm_def] cover by (auto simp: free_blocks_def)
  show "tail_clear bm (unat (lay_capacity_blocks L))"
    using formatted_bits [OF assms(1-4), folded bm_def] by (auto simp: tail_clear_def len)
qed

context block_backend
begin

lemma bitmap_init_ok:
  assumes "okio io" and "layout_tiles L" and "unat (lay_capacity_blocks L) = ncap io"
    and "nebula_bitmap_init io L = (r, io')"
  shows "next_io io io'"
    and "i < 131 \<or> unat (lay_inode_page_lba L) \<le> i \<Longrightarrow> disk io' i = disk io i"
    and "r = Inr x \<Longrightarrow> bitmap_pages_formatted L (disk io')"
    and "up io \<Longrightarrow> r = Inr ()"
proof -
  let ?n = "unat (lay_bitmap_block_count L)" and ?b = "lay_bitmap_lba L"
  have cap: "unat (lay_capacity_blocks L) \<le> 2 ^ 51" using assms(3) ncap_bound [OF assms(1)] by simp
  have lay: "unat ?b = 131" "unat (lay_stream_map_lba L) = 131 + ?n" "unat (lay_stream_map_block_count L) = 256"
    "unat (lay_inode_page_lba L) = 131 + ?n + 256" "131 + ?n + 256 \<le> ncap io"
    using assms(2,3) by (auto simp: layout_tiles_def)
  obtain q io1 where w1: "for_each (\<lambda>p io. nebula_io_write io (?b + of_nat p) 1 (bitmap_page L (of_nat p)))
      [0..<?n] io = (q, io1)" by (rule prod.exhaust)
  have z1: "next_io io io1 \<and> (\<forall>i. i < 131 \<or> 131 + ?n \<le> i \<longrightarrow> disk io1 i = disk io i)
    \<and> (q = Inr () \<longrightarrow> (\<forall>i. 131 \<le> i \<and> i < 131 + ?n \<longrightarrow> disk io1 i = bitmap_page L (of_nat (i - 131))))
    \<and> (up io \<longrightarrow> q = Inr ())"
    using write_slots_frame [where f = "\<lambda>p. bitmap_page L (of_nat p)", OF assms(1) _ w1]
      bitmap_page_bits(1) [OF assms(2) cap] lay by simp
  then have f1: "next_io io io1" by blast
  note ok1 = next_io_ok [OF f1]
  obtain q2 io2 where w2: "zero_region io1 (lay_stream_map_lba L) (unat (lay_stream_map_block_count L)) = (q2, io2)"
    by (rule prod.exhaust)
  have z2: "next_io io1 io2 \<and> (\<forall>i. i < 131 + ?n \<or> 131 + ?n + 256 \<le> i \<longrightarrow> disk io2 i = disk io1 i)
    \<and> (up io1 \<longrightarrow> q2 = Inr ())"
    using zero_region_frame [OF ok1 w2] lay next_io_cap [OF f1] by simp
  have res: "(r, io') = (case q of Inl e \<Rightarrow> (Inl e, io1) | Inr _ \<Rightarrow> (q2, io2))"
    using assms(4) w1 w2 by (cases q) (auto simp: nebula_bitmap_init_def)
  show "next_io io io'" using res f1 z2 next_io_trans by (auto split: sum.splits)
  show "disk io' i = disk io i" if "i < 131 \<or> unat (lay_inode_page_lba L) \<le> i"
    using res z1 z2 that lay by (auto split: sum.splits)
  show "bitmap_pages_formatted L (disk io')" if "r = Inr x"
  proof -
    have q: "q = Inr ()" "io' = io2" using res that by (auto split: sum.splits)
    show ?thesis unfolding bitmap_pages_formatted_def
    proof (intro allI impI)
      fix p assume "p < ?n"
      then show "disk io' (unat ?b + p) = bitmap_page L (of_nat p)"
        using z1 z2 q lay by (simp add: add.commute)
    qed
  qed
  show "up io \<Longrightarrow> r = Inr ()" using res z1 z2 next_io_up [OF f1] by (auto split: sum.splits)
qed

end

section \<open>Properties\<close>

text \<open>
  Loading the bitmap reads it exactly: the level-0 bits are the blocks of the bitmap
  region, each level-1 counter is the number of free blocks of its group and the level-2 counter is
  the number of free blocks of the device, provided the bits beyond the device are clear.
\<close>

theorem hbm_load_exact:
  assumes "io_ok posix_ops posix_inv io" and "nebula_hbm_load io bl n tb = (Inr h, io')"
    and "unat n < 2 ^ 32" and "unat tb \<le> 32768 * unat n" and "32768 * unat n < unat tb + 32768"
    and "tail_clear (concat (map (posix_blk (io_dev io)) [unat bl..<unat bl + unat n])) (unat tb)"
  shows "hbm_wf h \<and> hb_l0_bits h = concat (map (posix_blk (io_dev io)) [unat bl..<unat bl + unat n])
    \<and> unat (nebula_hbm_total_free h) = card (free_blocks (hb_l0_bits h) (unat tb))"
proof -
  have tb: "unat tb < 2 ^ 50" using assms(3,4) by simp
  note ld = posix.hbm_load_ok [OF assms(1-5) tb assms(6)]
  have "card (free_blocks (hb_l0_bits h) (unat tb)) \<le> card {..<unat tb}"
    by (rule card_mono) (auto simp: free_blocks_def)
  then have "card (free_blocks (hb_l0_bits h) (unat tb)) < 18446744073709551616" using tb by simp
  then show ?thesis
    using ld by (auto simp: hbm_wf_def summaries_exact_def nebula_hbm_total_free_def unat_of_nat_u64)
qed

theorem hbm_load_exact_witness:
  "\<exists>h io'. nebula_hbm_load (sample_io 2) 0 1 100 = (Inr h, io') \<and> hbm_wf h
     \<and> unat (nebula_hbm_total_free h) = card (free_blocks (hb_l0_bits h) 100)"
proof -
  have blk: "posix_blk (io_dev (sample_io 2)) 0 = zeros 4096"
    by (simp add: sample_io_def posix_blk_def map_replicate_const)
  obtain h io' where l: "nebula_hbm_load (sample_io 2) 0 1 100 = (Inr h, io')"
    using posix.hbm_load_up [of "sample_io 2" 1 0 100] sample_io_ok [of 2] by auto
  have "tail_clear (concat (map (posix_blk (io_dev (sample_io 2))) [unat (0 :: u64)..<unat (0 :: u64) + unat (1 :: u64)]))
      (unat (100 :: u64))"
    by (simp add: blk tail_clear_def)
  from hbm_load_exact [OF sample_io_ok(1) l _ _ _ this] show ?thesis using l by auto
qed

text \<open>
  A freshly formatted bitmap accounts for every block: on a device whose calls do not
  fail, \<open>nebula_bitmap_init\<close> followed by \<open>nebula_hbm_load\<close> succeeds and yields a bitmap whose free
  blocks are exactly the data region, so that no metadata block can be handed out.
\<close>

theorem bitmap_format_load:
  assumes "io_ok posix_ops posix_inv io" and "posix_healthy (io_dev io)" and "layout_tiles L"
    and "lay_capacity_blocks L = io_capacity_blocks io" and "unat (io_capacity_blocks io) < 2 ^ 46"
  shows "\<exists>io1 h io2. nebula_bitmap_init io L = (Inr (), io1)
    \<and> nebula_hbm_load io1 (lay_bitmap_lba L) (lay_bitmap_block_count L) (lay_capacity_blocks L) = (Inr h, io2)
    \<and> hbm_wf h
    \<and> free_blocks (hb_l0_bits h) (unat (lay_capacity_blocks L))
        = {unat (lay_data_start_lba L)..<unat (lay_alloc_roots_tail_lba L)}
    \<and> nebula_hbm_total_free h = lay_data_block_count L"
proof -
  let ?n = "lay_bitmap_block_count L" and ?cap = "lay_capacity_blocks L"
  have lay: "unat ?cap \<le> 32768 * unat ?n" "32768 * unat ?n < unat ?cap + 32768" "unat ?cap < 2 ^ 50"
    "unat ?cap \<le> 2 ^ 51" "unat ?n < 2 ^ 32" "0 < unat ?n" "unat (lay_bitmap_lba L) + unat ?n \<le> unat ?cap"
    "unat (lay_alloc_roots_tail_lba L) = unat (lay_data_start_lba L) + unat (lay_data_block_count L)"
    using assms(3-5) by (auto simp: layout_tiles_def)
  obtain r io1 where w: "nebula_bitmap_init io L = (r, io1)" by (rule prod.exhaust)
  have eqc: "unat ?cap = unat (io_capacity_blocks io)" using assms(4) by simp
  note bi = posix.bitmap_init_ok [OF assms(1,3) eqc w]
  have r: "r = Inr ()" using bi(4) assms(2) by simp
  note fmt = formatted_free [OF assms(3) lay(4) bi(3) [OF r] posix.blk_length]
  note n1 = posix.next_io_ok [OF bi(1)] posix.next_io_up [OF bi(1) assms(2)] posix.next_io_cap [OF bi(1)]
  obtain h io2 where l: "nebula_hbm_load io1 (lay_bitmap_lba L) ?n ?cap = (Inr h, io2)"
    using posix.hbm_load_up [OF n1(1,2) lay(6,5), of "lay_bitmap_lba L" ?cap] lay(7) n1(3) assms(4) by auto
  note ld = posix.hbm_load_ok [OF n1(1) l lay(5,1,2,3) fmt(2)]
  have "hb_l2_total_free h = of_nat (card {unat (lay_data_start_lba L)..<unat (lay_alloc_roots_tail_lba L)})"
    using ld fmt(1) by (simp add: hbm_wf_def summaries_exact_def)
  then have "nebula_hbm_total_free h = lay_data_block_count L"
    using lay(8) by (simp add: nebula_hbm_total_free_def)
  then show ?thesis using w r l ld fmt(1) by auto
qed

theorem bitmap_format_load_witness:
  "\<exists>L io1 h io2. nebula_layout_compute 65536 = Inr L \<and> nebula_bitmap_init (sample_io 65536) L = (Inr (), io1)
    \<and> nebula_hbm_load io1 (lay_bitmap_lba L) (lay_bitmap_block_count L) (lay_capacity_blocks L) = (Inr h, io2)
    \<and> nebula_hbm_total_free h = lay_data_block_count L"
proof -
  obtain L where L: "nebula_layout_compute 65536 = Inr L" "layout_tiles L" "lay_capacity_blocks L = 65536"
    by (rule sample_layout)
  then show ?thesis
    using bitmap_format_load [of "sample_io 65536" L] sample_io_ok [of 65536] by auto
qed

end
