(* ===== verification/Nebula_Mount.thy ===== *)
theory Nebula_Mount
  imports Nebula_Hbm
begin

unbundle bit_operations_syntax

text \<open>
  \<open>src/nebula/nebula_mount.c\<close>: mounting a device.  The mount record is the state that every later
  operation takes and returns; its device handle is the field \<open>m_io\<close>.
\<close>

section \<open>The code\<close>

record 'd nebula_mount =
  m_io :: "'d nebula_io"
  m_mbr :: nebula_mbr
  m_sb :: nebula_superblock
  m_current_ub :: nebula_uberblock
  m_current_ub_slot :: u32
  m_bitmap :: nebula_hier_bitmap

text \<open>
  The scan of the uberblock slots.  \<open>best_slot\<close> is a C \<open>int\<close> that starts at -1: it is negative when
  its bit 31 is set.  A slot that cannot be read or is not valid is skipped.
\<close>

record ub_best =
  best_slot :: u32
  best_txg :: u64
  best_ub :: nebula_uberblock

fun pick_loop ::
    "nebula_superblock \<Rightarrow> u32 list \<Rightarrow> ub_best \<Rightarrow> 'd nebula_io \<Rightarrow> ub_best \<times> 'd nebula_io" where
  "pick_loop sb [] best io = (best, io)"
| "pick_loop sb (slot # slots) best io =
     (case nebula_uberblock_read_slot io (sb_uberblock_lba sb) (ucast (sb_uberblock_count sb)) slot of
        (Inl _, io') \<Rightarrow> pick_loop sb slots best io'
      | (Inr ub, io') \<Rightarrow>
          pick_loop sb slots
            (if bit (best_slot best) 31 \<or> ub_txg_id ub \<ge> best_txg best
             then \<lparr>best_slot = slot, best_txg = ub_txg_id ub, best_ub = ub\<rparr> else best) io')"

definition pick_latest_uberblock ::
    "'d nebula_io \<Rightarrow> nebula_superblock \<Rightarrow> (nebula_uberblock \<times> u32) res \<times> 'd nebula_io" where
  "pick_latest_uberblock io sb =
     (case pick_loop sb (map of_nat [0..<unat (sb_uberblock_count sb)])
             \<lparr>best_slot = -1, best_txg = 0, best_ub = dec_ub (zeros NEBULA_BLOCK_SIZE)\<rparr> io of
        (best, io') \<Rightarrow>
          if bit (best_slot best) 31 then (Inl EIO, io')
          else (Inr (best_ub best, best_slot best), io'))"

text \<open>The superblock: head first, the last block of the device as the fallback.\<close>

definition mount_superblock :: "'d nebula_io \<Rightarrow> u64 \<Rightarrow> nebula_superblock res \<times> 'd nebula_io" where
  "mount_superblock io head =
     (case nebula_superblock_read io head of
        (Inr sb, io') \<Rightarrow> (Inr sb, io')
      | (Inl _, io') \<Rightarrow> nebula_superblock_read io' (nebula_io_capacity_blocks io' - 1))"

definition nebula_mount_do :: "'d nebula_io \<Rightarrow> 'd nebula_mount res \<times> 'd nebula_io" where
  "nebula_mount_do io =
     (case nebula_mbr_read io of
        (Inl e, io1) \<Rightarrow> (Inl e, io1)
      | (Inr mbr, io1) \<Rightarrow>
     (case mount_superblock io1 (mbr_superblock_head_lba mbr) of
        (Inl e, io2) \<Rightarrow> (Inl e, io2)
      | (Inr sb, io2) \<Rightarrow>
     if mbr_device_uuid mbr \<noteq> sb_device_uuid sb then (Inl EIO, io2)
     else
     (case pick_latest_uberblock io2 sb of
        (Inl e, io3) \<Rightarrow> (Inl e, io3)
      | (Inr (ub, slot), io3) \<Rightarrow>
     (case nebula_hbm_load io3 (sb_bitmap_lba sb) (sb_bitmap_block_count sb)
             (sb_device_capacity_blocks sb) of
        (Inl e, io4) \<Rightarrow> (Inl e, io4)
      | (Inr h, io4) \<Rightarrow>
          (Inr \<lparr>m_io = io4, m_mbr = mbr, m_sb = sb, m_current_ub = ub,
                m_current_ub_slot = slot, m_bitmap = h\<rparr>, io4)))))"

text \<open>
  \<open>nebula_mount_open_io\<close> leaves the handle with the caller when it fails; \<open>nebula_mount_open\<close> opens
  the path (with \<open>create\<close> false) and closes it when it fails.
\<close>

definition nebula_mount_open_io :: "'d nebula_io \<Rightarrow> 'd nebula_mount res \<times> 'd nebula_io" where
  "nebula_mount_open_io io = nebula_mount_do io"

definition nebula_mount_open :: "posix_dev res \<Rightarrow> errno option \<Rightarrow> posix_dev nebula_mount res" where
  "nebula_mount_open opened stated =
     (case nebula_io_open opened False 0 None stated of
        Inl e \<Rightarrow> Inl e
      | Inr io \<Rightarrow> fst (nebula_mount_do io))"

section \<open>The uberblock scan\<close>

text \<open>
  The scan of slots whose reads succeed, over the content of the region: \<open>val\<close> gives the uberblock
  of a valid slot.  The specification is the last slot with the highest transaction group.
\<close>

fun scan_slots :: "(nat \<Rightarrow> nebula_uberblock option) \<Rightarrow> nat \<Rightarrow> (nat \<times> nebula_uberblock) option" where
  "scan_slots val 0 = None"
| "scan_slots val (Suc n) =
     (case val n of
        None \<Rightarrow> scan_slots val n
      | Some ub \<Rightarrow>
          (case scan_slots val n of
             Some (s, b) \<Rightarrow> if ub_txg_id ub \<ge> ub_txg_id b then Some (n, ub) else Some (s, b)
           | None \<Rightarrow> Some (n, ub)))"

lemma scan_slots_None: "scan_slots val n = None \<longleftrightarrow> (\<forall>s < n. val s = None)"
  by (induction n) (auto simp: less_Suc_eq split: option.splits)

lemma scan_slots_Some:
  assumes "scan_slots val n = Some (s, ub)"
  shows "s < n \<and> val s = Some ub \<and> (\<forall>k < n. \<forall>b. val k = Some b \<longrightarrow>
    ub_txg_id b \<le> ub_txg_id ub \<and> (s < k \<longrightarrow> ub_txg_id b < ub_txg_id ub))"
  using assms
proof (induction n arbitrary: s ub)
  case 0
  then show ?case by simp
next
  case (Suc n)
  show ?case
  proof (cases "val n")
    case None
    then show ?thesis using Suc by (auto simp: less_Suc_eq)
  next
    case (Some u)
    show ?thesis
    proof (cases "scan_slots val n")
      case None
      then have "s = n" "ub = u" using Suc.prems Some by auto
      then show ?thesis using None Some by (auto simp: scan_slots_None less_Suc_eq)
    next
      case (Some p)
      obtain s' b where p: "p = (s', b)" by (cases p)
      note IH = Suc.IH [OF Some [unfolded p]]
      show ?thesis
      proof (cases "ub_txg_id u \<ge> ub_txg_id b")
        case True
        then have "s = n" "ub = u" using Suc.prems Some p \<open>val n = Some u\<close> by auto
        then show ?thesis using IH True \<open>val n = Some u\<close> by (auto simp: less_Suc_eq intro: order_trans)
      next
        case False
        then have "s = s'" "ub = b" using Suc.prems Some p \<open>val n = Some u\<close> by auto
        then show ?thesis using IH False \<open>val n = Some u\<close> by (auto simp: less_Suc_eq not_le)
      qed
    qed
  qed
qed

definition best_of :: "(nat \<times> nebula_uberblock) option \<Rightarrow> ub_best" where
  "best_of r = (case r of
       None \<Rightarrow> \<lparr>best_slot = -1, best_txg = 0, best_ub = dec_ub (zeros NEBULA_BLOCK_SIZE)\<rparr>
     | Some (s, ub) \<Rightarrow> \<lparr>best_slot = of_nat s, best_txg = ub_txg_id ub, best_ub = ub\<rparr>)"

definition valid_slot :: "(nat \<Rightarrow> byte list) \<Rightarrow> nat \<Rightarrow> nat \<Rightarrow> nebula_uberblock option" where
  "valid_slot dsk base s = (case ub_validate (dsk (base + s)) of Inl _ \<Rightarrow> None | Inr ub \<Rightarrow> Some ub)"

lemma pick_loop_append:
  "pick_loop sb (xs @ ys) best io = (case pick_loop sb xs best io of (b, io') \<Rightarrow> pick_loop sb ys b io')"
  by (induction sb xs best io rule: pick_loop.induct) (auto split: prod.splits sum.splits)

lemma bit_31_small: "n < 2 ^ 31 \<Longrightarrow> \<not> bit (of_nat n :: u32) 31"
  by (simp add: bit_of_nat_iff bit_iff_odd [of n])

context block_backend
begin

lemma pick_loop_frame:
  assumes "okio io" and "pick_loop sb slots best io = (b, io')"
  shows "next_io io io' \<and> disk io' = disk io"
  using assms
proof (induction slots arbitrary: best io)
  case Nil
  then show ?case by (auto intro: next_io_refl)
next
  case (Cons s ss)
  obtain r io1 where r: "nebula_uberblock_read_slot io (sb_uberblock_lba sb)
      (ucast (sb_uberblock_count sb)) s = (r, io1)" by (rule prod.exhaust)
  have f: "next_io io io1 \<and> disk io1 = disk io"
    using r io_load_frame [OF Cons.prems(1)] Cons.prems(1)
    by (auto simp: nebula_uberblock_read_slot_def next_io_refl split: if_splits)
  then have ok1: "okio io1" using next_io_ok by blast
  obtain best' where "pick_loop sb ss best' io1 = (b, io')" using Cons.prems(2) r by (auto split: sum.splits)
  from Cons.IH [OF ok1 this] show ?case using f next_io_trans by metis
qed

lemma pick_loop_up:
  assumes "okio io" and "up io" and "n \<le> unat (sb_uberblock_count sb)" and "n < 2 ^ 31"
    and "unat (sb_uberblock_lba sb) + n \<le> ncap io"
  shows "fst (pick_loop sb (map of_nat [0..<n]) (best_of None) io)
    = best_of (scan_slots (valid_slot (disk io) (unat (sb_uberblock_lba sb))) n)"
  using assms
proof (induction n)
  case 0
  then show ?case by simp
next
  case (Suc n)
  let ?v = "valid_slot (disk io) (unat (sb_uberblock_lba sb))"
  obtain b io1 where p: "pick_loop sb (map of_nat [0..<n]) (best_of None) io = (b, io1)" by (rule prod.exhaust)
  have b: "b = best_of (scan_slots ?v n)" using Suc p by simp
  have f: "next_io io io1" "disk io1 = disk io" using pick_loop_frame [OF Suc.prems(1) p] by auto
  have un: "unat (of_nat n :: u32) = n" using Suc.prems(4) by (intro unat_of_nat_u32) simp
  have addr: "unat (sb_uberblock_lba sb + ucast (of_nat n :: u32)) = unat (sb_uberblock_lba sb) + n"
    using Suc.prems(5) ncap_bound [OF Suc.prems(1)] un by (subst unat_plus_if_small) auto
  have "\<not> (ucast (of_nat n :: u32) :: u64) \<ge> ucast (sb_uberblock_count sb)"
    using Suc.prems(3) un by (simp add: word_le_nat_alt)
  moreover obtain io2 where "io_load io1 (sb_uberblock_lba sb + ucast (of_nat n :: u32)) ub_validate
      = (ub_validate (disk io (unat (sb_uberblock_lba sb) + n)), io2)"
    using io_load_up [OF next_io_ok [OF f(1)] next_io_up [OF f(1) Suc.prems(2)],
        of "sb_uberblock_lba sb + ucast (of_nat n :: u32)" ub_validate] next_io_cap [OF f(1)] f(2) addr
        Suc.prems(5) by auto
  ultimately have rd: "nebula_uberblock_read_slot io1 (sb_uberblock_lba sb) (ucast (sb_uberblock_count sb))
      (of_nat n) = (ub_validate (disk io (unat (sb_uberblock_lba sb) + n)), io2)"
    by (simp add: nebula_uberblock_read_slot_def)
  have neg: "\<not> bit (of_nat s :: u32) 31" if "scan_slots ?v n = Some (s, ub)" for s ub
    using scan_slots_Some [OF that] Suc.prems(4) by (intro bit_31_small) simp
  have step: "fst (pick_loop sb (map of_nat [0..<Suc n]) (best_of None) io) = fst (pick_loop sb [of_nat n] b io1)"
    by (simp add: pick_loop_append p del: pick_loop.simps)
  have init: "bit (best_slot (best_of None)) 31" by (simp add: best_of_def bit_minus_1_iff)
  show ?case
  proof (cases "ub_validate (disk io (unat (sb_uberblock_lba sb) + n))")
    case (Inl e)
    then have "?v n = None" by (simp add: valid_slot_def)
    then show ?thesis using step rd Inl b by simp
  next
    case (Inr ub)
    then have v: "?v n = Some ub" by (simp add: valid_slot_def)
    show ?thesis
    proof (cases "scan_slots ?v n")
      case None
      then show ?thesis using step rd Inr b v init by (simp add: best_of_def)
    next
      case (Some sb')
      then show ?thesis using step rd Inr b v neg by (cases sb') (simp add: best_of_def)
    qed
  qed
qed

text \<open>On a device whose reads succeed the choice is the specification's.\<close>

lemma pick_latest_up:
  assumes "okio io" and "up io" and "unat (sb_uberblock_count sb) < 2 ^ 31"
    and "unat (sb_uberblock_lba sb) + unat (sb_uberblock_count sb) \<le> ncap io"
  shows "\<exists>io'. pick_latest_uberblock io sb =
     ((case scan_slots (valid_slot (disk io) (unat (sb_uberblock_lba sb))) (unat (sb_uberblock_count sb)) of
         None \<Rightarrow> Inl EIO | Some (s, ub) \<Rightarrow> Inr (ub, of_nat s)), io')
     \<and> next_io io io' \<and> disk io' = disk io"
proof -
  let ?n = "unat (sb_uberblock_count sb)"
  obtain b io' where p: "pick_loop sb (map of_nat [0..<?n]) (best_of None) io = (b, io')" by (rule prod.exhaust)
  have b: "b = best_of (scan_slots (valid_slot (disk io) (unat (sb_uberblock_lba sb))) ?n)"
    using pick_loop_up [OF assms(1,2) _ assms(3,4)] p by simp
  have neg: "\<not> bit (of_nat s :: u32) 31"
    if "scan_slots (valid_slot (disk io) (unat (sb_uberblock_lba sb))) ?n = Some (s, ub)" for s ub
    using scan_slots_Some [OF that] assms(3) by (intro bit_31_small) simp
  have "pick_latest_uberblock io sb = ((case scan_slots (valid_slot (disk io) (unat (sb_uberblock_lba sb))) ?n of
         None \<Rightarrow> Inl EIO | Some (s, ub) \<Rightarrow> Inr (ub, of_nat s)), io')"
    using p b neg by (auto simp: pick_latest_uberblock_def best_of_def bit_minus_1_iff split: option.splits)
  then show ?thesis using pick_loop_frame [OF assms(1) p] by blast
qed

end

section \<open>The mounted state\<close>

text \<open>
  What every operation on a mount keeps: the handle is usable, the superblock describes a layout that
  tiles the device, and the summaries of the bitmap are exact.  \<open>bitmap_synced\<close> says that the
  bitmap on disk is the one in memory; it holds unless a bitmap write was torn.
\<close>

definition mount_inv :: "'d nebula_io_ops \<Rightarrow> (u64 \<Rightarrow> 'd \<Rightarrow> bool) \<Rightarrow> nebula_layout \<Rightarrow> 'd nebula_mount \<Rightarrow> bool" where
  "mount_inv ops dinv L m \<longleftrightarrow>
     io_ok ops dinv (m_io m) \<and> layout_tiles L \<and> lay_capacity_blocks L = io_capacity_blocks (m_io m) \<and>
     unat (lay_capacity_blocks L) < 2 ^ 46 \<and>
     m_sb m = sb_build (sb_device_uuid (m_sb m)) L \<and> hbm_wf (m_bitmap m) \<and>
     hb_total_blocks (m_bitmap m) = lay_capacity_blocks L \<and>
     hb_num_pages (m_bitmap m) = lay_bitmap_block_count L"

definition bitmap_region :: "(nat \<Rightarrow> byte list) \<Rightarrow> nebula_layout \<Rightarrow> byte list" where
  "bitmap_region dsk L = concat (map dsk
     [unat (lay_bitmap_lba L)..<unat (lay_bitmap_lba L) + unat (lay_bitmap_block_count L)])"

definition bitmap_synced :: "('d \<Rightarrow> nat \<Rightarrow> byte list) \<Rightarrow> nebula_layout \<Rightarrow> 'd nebula_mount \<Rightarrow> bool" where
  "bitmap_synced blk L m \<longleftrightarrow> hb_l0_bits (m_bitmap m) = bitmap_region (blk (io_dev (m_io m))) L"

definition boot_written :: "nebula_layout \<Rightarrow> byte list \<Rightarrow> (nat \<Rightarrow> byte list) \<Rightarrow> bool" where
  "boot_written L u dsk \<longleftrightarrow>
     length u = 16 \<and> dsk 0 = enc_mbr (mbr_build u (lay_capacity_blocks L)) \<and>
     dsk (unat (lay_sb_tail_lba L)) = enc_sb (sb_build u L) \<and>
     (dsk 1 = enc_sb (sb_build u L) \<or> (\<exists>e. sb_validate (dsk 1) = Inl e))"

lemma layout_tiles_small:
  assumes "layout_tiles L" and "unat (lay_capacity_blocks L) < 2 ^ 46"
  shows "unat (lay_bitmap_block_count L) < 2 ^ 32" and "0 < unat (lay_bitmap_block_count L)"
    and "unat (lay_bitmap_lba L) + unat (lay_bitmap_block_count L) \<le> unat (lay_capacity_blocks L)"
  using assms by (auto simp: layout_tiles_def)

context block_backend
begin

lemma mount_superblock_up:
  assumes "okio io" and "up io" and "layout_tiles L" and "lay_capacity_blocks L = io_capacity_blocks io"
    and "boot_written L u (disk io)"
  shows "\<exists>io'. mount_superblock io NEBULA_LBA_SB_HEAD = (Inr (sb_build u L), io') \<and> next_io io io' \<and> disk io' = disk io"
proof -
  have lay: "unat (lay_sb_tail_lba L) + 1 = ncap io" "1 < ncap io"
    using assms(3,4) by (auto simp: layout_tiles_def)
  have u: "length u = 16" using assms(5) by (simp add: boot_written_def)
  obtain io1 where r1: "nebula_superblock_read io 1 = (sb_validate (disk io 1), io1)"
    using io_load_up [of io 1 sb_validate] assms(1,2) lay by (auto simp: nebula_superblock_read_def)
  note f1 = io_load_frame [OF assms(1) r1 [unfolded nebula_superblock_read_def]]
  have tail: "unat (io_capacity_blocks io1 - 1) = unat (lay_sb_tail_lba L)"
    using lay next_io_cap [OF f1(1)] by (simp add: unat_minus_le)
  obtain io2 where r2: "nebula_superblock_read io1 (io_capacity_blocks io1 - 1)
      = (sb_validate (disk io (unat (lay_sb_tail_lba L))), io2)"
    using io_load_up [of io1 "io_capacity_blocks io1 - 1" sb_validate] next_io_ok [OF f1(1)]
      next_io_up [OF f1(1) assms(2)] next_io_cap [OF f1(1)] lay tail f1(2)
    by (auto simp: nebula_superblock_read_def)
  note f2 = io_load_frame [OF next_io_ok [OF f1(1)] r2 [unfolded nebula_superblock_read_def]]
  have "sb_validate (disk io (unat (lay_sb_tail_lba L))) = Inr (sb_build u L)"
    "sb_validate (disk io 1) = Inr (sb_build u L) \<or> (\<exists>e. sb_validate (disk io 1) = Inl e)"
    using assms(5) u by (auto simp: boot_written_def sb_validate_build)
  then show ?thesis
    using r1 r2 f1 f2 next_io_trans [OF f1(1) f2(1)]
    by (auto simp: mount_superblock_def NEBULA_LBA_SB_HEAD_def nebula_io_capacity_blocks_def)
qed

lemma mount_do_up:
  assumes "okio io" and "up io" and "layout_tiles L" and "lay_capacity_blocks L = io_capacity_blocks io"
    and "ncap io < 2 ^ 46" and "boot_written L u (disk io)"
    and "scan_slots (valid_slot (disk io) 2) 128 = Some (s, ub)"
    and "tail_clear (bitmap_region (disk io) L) (unat (lay_capacity_blocks L))"
  shows "\<exists>m. nebula_mount_do io = (Inr m, m_io m) \<and> next_io io (m_io m) \<and> disk (m_io m) = disk io
    \<and> mount_inv ops dinv L m \<and> bitmap_synced blk L m \<and> m_sb m = sb_build u L
    \<and> m_mbr m = mbr_build u (lay_capacity_blocks L) \<and> m_current_ub m = ub \<and> m_current_ub_slot m = of_nat s"
proof -
  let ?sb = "sb_build u L" and ?n = "lay_bitmap_block_count L"
  have u: "length u = 16" using assms(6) by (simp add: boot_written_def)
  have lay: "unat (lay_uberblock_lba L) = 2" "unat (lay_uberblock_count L) = 128" "130 \<le> ncap io"
    "unat (lay_capacity_blocks L) \<le> 32768 * unat ?n" "32768 * unat ?n < unat (lay_capacity_blocks L) + 32768"
    "unat (lay_capacity_blocks L) < 2 ^ 50" "unat (lay_capacity_blocks L) < 2 ^ 46"
    using assms(3-5) by (auto simp: layout_tiles_def)
  note small = layout_tiles_small [OF assms(3) lay(7)]
  have "mbr_validate (disk io 0) = Inr (mbr_build u (lay_capacity_blocks L))"
    using assms(6) u by (simp add: boot_written_def mbr_validate_build)
  then obtain io1 where r1: "nebula_mbr_read io = (Inr (mbr_build u (lay_capacity_blocks L)), io1)"
    using io_load_up [of io 0 mbr_validate] assms(1,2) lay(3)
    by (auto simp: nebula_mbr_read_def NEBULA_LBA_MBR_def)
  note f1 = io_load_frame [OF assms(1) r1 [unfolded nebula_mbr_read_def]]
  note n1 = next_io_ok [OF f1(1)] next_io_up [OF f1(1) assms(2)] next_io_cap [OF f1(1)]
  obtain io2 where r2: "mount_superblock io1 NEBULA_LBA_SB_HEAD = (Inr ?sb, io2)"
    and f2: "next_io io1 io2" "disk io2 = disk io1"
    using mount_superblock_up [OF n1(1,2) assms(3)] assms(4,6) n1(3) f1(2) by auto
  note n2 = next_io_ok [OF f2(1)] next_io_up [OF f2(1) n1(2)] next_io_cap [OF f2(1)]
  have cnt: "unat (sb_uberblock_count ?sb) = 128"
    by (simp add: unsigned_ucast_eq take_bit_nat_eq_self lay)
  obtain io3 where r3: "pick_latest_uberblock io2 ?sb = (Inr (ub, of_nat s), io3)"
    and f3: "next_io io2 io3" "disk io3 = disk io2"
    using pick_latest_up [OF n2(1,2), of ?sb] cnt lay n1(3) n2(3) f1(2) f2(2) assms(7) by auto
  note n3 = next_io_ok [OF f3(1)] next_io_up [OF f3(1) n2(2)] next_io_cap [OF f3(1)]
  have same: "disk io3 = disk io" using f1(2) f2(2) f3(2) by simp
  obtain h io4 where r4: "nebula_hbm_load io3 (lay_bitmap_lba L) ?n (lay_capacity_blocks L) = (Inr h, io4)"
    using hbm_load_up [OF n3(1,2) small(2,1), of "lay_bitmap_lba L" "lay_capacity_blocks L"] small(3)
      n1(3) n2(3) n3(3) assms(4) by auto
  note f4 = hbm_load_frame [OF n3(1) r4]
  note h = hbm_load_ok [OF n3(1) r4 small(1) lay(4-6)]
  define m where "m = \<lparr>m_io = io4, m_mbr = mbr_build u (lay_capacity_blocks L), m_sb = ?sb,
    m_current_ub = ub, m_current_ub_slot = of_nat s, m_bitmap = h\<rparr>"
  have "nebula_mount_do io = (Inr m, io4)"
    using r1 r2 r3 r4 by (simp add: nebula_mount_do_def m_def)
  moreover have "next_io io io4" using f1 f2 f3 f4 next_io_trans by metis
  moreover have "mount_inv ops dinv L m" "bitmap_synced blk L m"
    using h assms(3-5,8) lay(7) next_io_ok [OF f4(1)] next_io_cap [OF f4(1)] n1(3) n2(3) n3(3) f4(2) same
    by (simp_all add: mount_inv_def m_def bitmap_synced_def bitmap_region_def)
  ultimately show ?thesis using f4(2) same by (intro exI [of _ m]) (simp add: m_def)
qed

end

section \<open>A device image\<close>

text \<open>A device that holds given blocks, and the image that formatting leaves behind.\<close>

definition image_io :: "u64 \<Rightarrow> (nat \<Rightarrow> byte list) \<Rightarrow> posix_dev nebula_io" where
  "image_io n dsk = \<lparr>io_ops = posix_ops, io_capacity_blocks = n,
     io_dev = \<lparr>pf_bytes = (\<lambda>i. dsk (i div 4096) ! (i mod 4096)), pf_size = unat n * 4096, pf_script = [], pf_fsync = []\<rparr>\<rparr>"

definition boot_image :: "nebula_layout \<Rightarrow> byte list \<Rightarrow> nat \<Rightarrow> byte list" where
  "boot_image L u i =
     (if i = 0 then enc_mbr (mbr_build u (lay_capacity_blocks L))
      else if i = 1 \<or> i = unat (lay_sb_tail_lba L) then enc_sb (sb_build u L)
      else if i = 2 then enc_ub (ub_build L 0)
      else if 131 \<le> i \<and> i < 131 + unat (lay_bitmap_block_count L) then bitmap_page L (of_nat (i - 131))
      else zeros 4096)"

lemma image_io_ok:
  assumes "\<And>i. length (dsk i) = 4096" and "unat n < 2 ^ 51"
  shows "io_ok posix_ops posix_inv (image_io n dsk)" and "posix_healthy (io_dev (image_io n dsk))"
    and "posix_blk (io_dev (image_io n dsk)) = dsk" and "io_capacity_blocks (image_io n dsk) = n"
proof -
  show "posix_blk (io_dev (image_io n dsk)) = dsk"
  proof
    fix i
    show "posix_blk (io_dev (image_io n dsk)) i = dsk i"
      by (rule nth_equalityI) (simp_all add: assms(1) posix_blk_def image_io_def)
  qed
qed (use assms(2) in \<open>simp_all add: image_io_def io_ok_def posix_inv_def posix_healthy_def\<close>)

lemma scan_slots_first:
  assumes "val 0 = Some ub" and "\<And>s. 0 < s \<Longrightarrow> s < n \<Longrightarrow> val s = None" and "0 < n"
  shows "scan_slots val n = Some (0, ub)"
  using assms
proof (induction n)
  case (Suc n)
  then show ?case by (cases "n = 0") auto
qed simp

lemma boot_image_ok:
  assumes "layout_tiles L" and "unat (lay_capacity_blocks L) < 2 ^ 46" and "length u = 16"
  shows "length (boot_image L u i) = 4096" and "boot_written L u (boot_image L u)"
    and "scan_slots (valid_slot (boot_image L u) 2) 128 = Some (0, ub_build L 0)"
    and "tail_clear (bitmap_region (boot_image L u) L) (unat (lay_capacity_blocks L))"
proof -
  have lay: "unat (lay_bitmap_lba L) = 131" "131 + unat (lay_bitmap_block_count L) < unat (lay_sb_tail_lba L)"
    "unat (lay_capacity_blocks L) \<le> 2 ^ 51"
    using assms(1,2) by (auto simp: layout_tiles_def)
  show len: "length (boot_image L u i) = 4096" for i
    using mbr.enc_length [OF mbr_build_wf [OF assms(3)]] sb.enc_length [OF sb_build_wf [OF assms(3)]]
      ub.enc_length [OF ub_build_wf] bitmap_page_bits(1) [OF assms(1) lay(3)]
    by (auto simp: boot_image_def simp del: of_nat_diff)
  show "boot_written L u (boot_image L u)"
    using assms(3) lay by (simp add: boot_written_def boot_image_def)
  show "scan_slots (valid_slot (boot_image L u) 2) 128 = Some (0, ub_build L 0)"
    using lay by (intro scan_slots_first)
      (simp_all add: valid_slot_def boot_image_def ub_validate_build ub_validate_zeros)
  have "bitmap_pages_formatted L (boot_image L u)"
    using lay by (simp add: bitmap_pages_formatted_def boot_image_def)
  from formatted_free(2) [OF assms(1) lay(3) this len]
  show "tail_clear (bitmap_region (boot_image L u) L) (unat (lay_capacity_blocks L))"
    by (simp add: bitmap_region_def)
qed

text \<open>
  Mounted devices of 65536 blocks, for the concrete instances of the properties below: the boot image
  with arbitrary blocks between the bitmap and the tail superblock.
\<close>

definition filled_image :: "nebula_layout \<Rightarrow> (nat \<Rightarrow> byte list) \<Rightarrow> nat \<Rightarrow> byte list" where
  "filled_image L f i = (if 131 + unat (lay_bitmap_block_count L) \<le> i \<and> i < unat (lay_sb_tail_lba L) then f i
     else boot_image L (zeros 16) i)"

lemma image_mount:
  assumes L: "layout_tiles L" "lay_capacity_blocks L = 65536" and f: "\<And>i. length (f i) = 4096"
  obtains m where "nebula_mount_open_io (image_io 65536 (filled_image L f)) = (Inr m, m_io m)"
    "mount_inv posix_ops posix_inv L m" "bitmap_synced posix_blk L m" "posix_healthy (io_dev (m_io m))"
    "free_blocks (hb_l0_bits (m_bitmap m)) 65536 = {unat (lay_data_start_lba L)..<unat (lay_alloc_roots_tail_lba L)}"
    "posix_blk (io_dev (m_io m)) = filled_image L f"
proof -
  let ?d = "filled_image L f" and ?b = "boot_image L (zeros 16)"
  have lay: "unat (lay_bitmap_lba L) = 131" "131 + unat (lay_bitmap_block_count L) \<le> unat (lay_sb_tail_lba L)"
    using L by (auto simp: layout_tiles_def)
  have bi: "\<And>i. length (?b i) = 4096" "boot_written L (zeros 16) ?b"
    "scan_slots (valid_slot ?b 2) 128 = Some (0, ub_build L 0)"
    "tail_clear (bitmap_region ?b L) (unat (lay_capacity_blocks L))"
    using boot_image_ok [OF L(1), of "zeros 16"] L(2) by simp_all
  have len: "\<And>i. length (?d i) = 4096" using f bi(1) by (simp add: filled_image_def)
  have low: "?d i = ?b i" if "i < 131 + unat (lay_bitmap_block_count L)" for i
    using that by (simp add: filled_image_def)
  have boot: "boot_written L (zeros 16) ?d"
    using bi(2) low [of 0] low [of 1] by (simp add: boot_written_def filled_image_def)
  have "scan_slots (valid_slot ?d 2) 128 = Some (0, ub_build L 0)"
    using lay by (intro scan_slots_first)
      (simp_all add: valid_slot_def low boot_image_def ub_validate_build ub_validate_zeros)
  moreover have reg: "bitmap_region ?d L = bitmap_region ?b L"
    using low lay by (auto simp: bitmap_region_def intro!: arg_cong [where f = concat])
  moreover note io = image_io_ok [of ?d 65536, OF len]
  ultimately obtain m where m: "nebula_mount_do (image_io 65536 ?d) = (Inr m, m_io m)"
    "posix.next_io (image_io 65536 ?d) (m_io m)" "posix.disk (m_io m) = ?d"
    "mount_inv posix_ops posix_inv L m" "bitmap_synced posix_blk L m"
    using posix.mount_do_up [of "image_io 65536 ?d" L "zeros 16" 0 "ub_build L 0"] boot bi(4) L by auto
  have up: "posix_healthy (io_dev (m_io m))" using posix.next_io_up [OF m(2)] io(2) by simp
  have "bitmap_pages_formatted L ?b"
    using L(1) by (auto simp: bitmap_pages_formatted_def boot_image_def layout_tiles_def)
  from formatted_free(1) [OF L(1) _ this bi(1)]
  have "free_blocks (hb_l0_bits (m_bitmap m)) 65536 = {unat (lay_data_start_lba L)..<unat (lay_alloc_roots_tail_lba L)}"
    using m(3,5) L(2) reg by (simp add: bitmap_synced_def bitmap_region_def)
  then show ?thesis using that [of m] m up by (simp add: nebula_mount_open_io_def)
qed

lemma sample_mount:
  obtains L m where "nebula_layout_compute 65536 = Inr L" "layout_tiles L" "lay_capacity_blocks L = 65536"
    "nebula_mount_open_io (image_io 65536 (boot_image L (zeros 16))) = (Inr m, m_io m)"
    "mount_inv posix_ops posix_inv L m" "bitmap_synced posix_blk L m" "posix_healthy (io_dev (m_io m))"
    "free_blocks (hb_l0_bits (m_bitmap m)) 65536 = {unat (lay_data_start_lba L)..<unat (lay_alloc_roots_tail_lba L)}"
    "posix_blk (io_dev (m_io m)) = boot_image L (zeros 16)"
proof -
  obtain L where L: "nebula_layout_compute 65536 = Inr L" "layout_tiles L" "lay_capacity_blocks L = 65536"
    by (rule sample_layout)
  have eq: "filled_image L (\<lambda>_. zeros 4096) = boot_image L (zeros 16)"
    by (rule ext) (auto simp: filled_image_def boot_image_def)
  show ?thesis using image_mount [OF L(2,3), of "\<lambda>_. zeros 4096"] that [OF L] unfolding eq by auto
qed

section \<open>Properties\<close>

text \<open>
  On a device whose reads succeed, mounting chooses the valid uberblock with the
  highest transaction group, the last such slot on a tie, and reports \<open>EIO\<close> exactly when no slot of
  the region is valid.
\<close>

theorem uberblock_choice:
  assumes "io_ok posix_ops posix_inv io" and "posix_healthy (io_dev io)"
    and "unat (sb_uberblock_count sb) < 2 ^ 31"
    and "unat (sb_uberblock_lba sb) + unat (sb_uberblock_count sb) \<le> unat (io_capacity_blocks io)"
  defines "slot k \<equiv> ub_validate (posix_blk (io_dev io) (unat (sb_uberblock_lba sb) + k))"
  shows "case fst (pick_latest_uberblock io sb) of
      Inl e \<Rightarrow> e = EIO \<and> (\<forall>k < unat (sb_uberblock_count sb). \<exists>e. slot k = Inl e)
    | Inr (ub, s) \<Rightarrow> s < sb_uberblock_count sb \<and> slot (unat s) = Inr ub \<and>
        (\<forall>k < unat (sb_uberblock_count sb). \<forall>b. slot k = Inr b \<longrightarrow>
           ub_txg_id b \<le> ub_txg_id ub \<and> (unat s < k \<longrightarrow> ub_txg_id b < ub_txg_id ub))"
proof -
  let ?v = "valid_slot (posix_blk (io_dev io)) (unat (sb_uberblock_lba sb))"
    and ?n = "unat (sb_uberblock_count sb)"
  obtain io' where p: "pick_latest_uberblock io sb =
      ((case scan_slots ?v ?n of None \<Rightarrow> Inl EIO | Some (s, ub) \<Rightarrow> Inr (ub, of_nat s)), io')"
    using posix.pick_latest_up [OF assms(1-4)] by blast
  have v: "?v k = Some b \<longleftrightarrow> slot k = Inr b" "?v k = None \<longleftrightarrow> (\<exists>e. slot k = Inl e)" for k b
    by (auto simp: valid_slot_def slot_def split: sum.splits)
  show ?thesis
  proof (cases "scan_slots ?v ?n")
    case None
    then have "\<forall>k < ?n. \<exists>e. slot k = Inl e" using v(2) by (simp add: scan_slots_None)
    then show ?thesis using p None by simp
  next
    case (Some r)
    obtain s ub where r: "r = (s, ub)" by (cases r)
    note best = scan_slots_Some [OF Some [unfolded r], unfolded v(1)]
    have us: "unat (of_nat s :: u32) = s" using best assms(3) by (intro unat_of_nat_u32) simp
    show ?thesis using p Some r best us by (simp add: word_less_nat_alt)
  qed
qed

theorem uberblock_choice_witness:
  "\<exists>L ub s. nebula_layout_compute 65536 = Inr L
    \<and> fst (pick_latest_uberblock (image_io 65536 (boot_image L (zeros 16))) (sb_build (zeros 16) L)) = Inr (ub, s)
    \<and> s < sb_uberblock_count (sb_build (zeros 16) L)"
proof -
  obtain L where L: "nebula_layout_compute 65536 = Inr L" "layout_tiles L" "lay_capacity_blocks L = 65536"
    by (rule sample_layout)
  let ?sb = "sb_build (zeros 16) L" and ?io = "image_io 65536 (boot_image L (zeros 16))"
  have bi: "\<And>i. length (boot_image L (zeros 16) i) = 4096"
    "scan_slots (valid_slot (boot_image L (zeros 16)) 2) 128 = Some (0, ub_build L 0)"
    using boot_image_ok [OF L(2), of "zeros 16"] L(3) by simp_all
  note io = image_io_ok [of "boot_image L (zeros 16)" 65536, OF bi(1)]
  have lay: "unat (lay_uberblock_lba L) = 2" "unat (lay_uberblock_count L) = 128"
    "unat (sb_uberblock_lba ?sb) = 2" "unat (sb_uberblock_count ?sb) = 128"
    using L(2) by (auto simp: layout_tiles_def unsigned_ucast_eq take_bit_nat_eq_self)
  have v: "ub_validate (posix_blk (io_dev ?io) (2 + 0)) = Inr (ub_build L 0)"
    using L(2) io(3) by (simp add: boot_image_def ub_validate_build layout_tiles_def)
  note pick = uberblock_choice [of ?io ?sb, unfolded lay]
  show ?thesis
  proof (cases "fst (pick_latest_uberblock ?io ?sb)")
    case (Inl e)
    then have "\<forall>k < 128. \<exists>e. ub_validate (posix_blk (io_dev ?io) (2 + k)) = Inl e" using pick io by simp
    from this [rule_format, of 0] show ?thesis using v by simp
  next
    case (Inr r)
    then show ?thesis using pick io L(1) by (cases r) auto
  qed
qed

text \<open>
  Property C31.  One damaged byte in the head superblock does not prevent mounting: on a device that
  carries the boot structures, with any byte of the head superblock replaced, the mount succeeds from
  the tail copy, with the superblock that was written and an exact in-memory bitmap.
\<close>

theorem mount_survives_head_damage:
  assumes "io_ok posix_ops posix_inv io" and "posix_healthy (io_dev io)" and "layout_tiles L"
    and "lay_capacity_blocks L = io_capacity_blocks io" and "unat (io_capacity_blocks io) < 2 ^ 46"
    and "length u = 16"
    and "posix_blk (io_dev io) 0 = enc_mbr (mbr_build u (lay_capacity_blocks L))"
    and "posix_blk (io_dev io) 1 = (enc_sb (sb_build u L))[i := v]" and "i < 4096"
    and "posix_blk (io_dev io) (unat (lay_sb_tail_lba L)) = enc_sb (sb_build u L)"
    and "ub_validate (posix_blk (io_dev io) 2) = Inr ub"
    and "tail_clear (bitmap_region (posix_blk (io_dev io)) L) (unat (lay_capacity_blocks L))"
  shows "\<exists>m. nebula_mount_open_io io = (Inr m, m_io m) \<and> m_sb m = sb_build u L
    \<and> mount_inv posix_ops posix_inv L m \<and> bitmap_synced posix_blk L m"
proof -
  let ?b = "enc_sb (sb_build u L)"
  have len: "length ?b = 4096" using assms(6) by (intro sb.enc_length sb_build_wf)
  have "?b[i := v] = ?b \<or> (\<exists>e. sb_validate (?b[i := v]) = Inl e)"
  proof (cases "v = ?b ! i")
    case False
    then show ?thesis using sb_validate_corrupt [OF sb_validate_build [OF assms(6)] len assms(9)] by blast
  qed simp
  then have boot: "boot_written L u (posix_blk (io_dev io))"
    using assms(6-10) by (auto simp: boot_written_def)
  have "valid_slot (posix_blk (io_dev io)) 2 0 = Some ub" using assms(11) by (simp add: valid_slot_def)
  then have "scan_slots (valid_slot (posix_blk (io_dev io)) 2) 128 \<noteq> None"
    by (subst scan_slots_None) (metis option.distinct(1) zero_less_numeral)
  then obtain s ub' where "scan_slots (valid_slot (posix_blk (io_dev io)) 2) 128 = Some (s, ub')" by auto
  from posix.mount_do_up [OF assms(1-5) boot this assms(12)]
  show ?thesis unfolding nebula_mount_open_io_def by blast
qed

theorem mount_survives_head_damage_witness:
  "\<exists>L m. nebula_layout_compute 65536 = Inr L
     \<and> nebula_mount_open_io (image_io 65536 ((boot_image L (zeros 16))(1 := (boot_image L (zeros 16) 1)[9 := 7])))
         = (Inr m, m_io m)
     \<and> m_sb m = sb_build (zeros 16) L"
proof -
  obtain L where L: "nebula_layout_compute 65536 = Inr L" "layout_tiles L" "lay_capacity_blocks L = 65536"
    by (rule sample_layout)
  let ?d = "boot_image L (zeros 16)"
  let ?d' = "?d(1 := (?d 1)[9 := 7])"
  have u: "length (zeros 16) = 16" by simp
  note bi = boot_image_ok [OF L(2) _ u]
  have len: "length (?d' i) = 4096" for i using bi(1) L(3) by simp
  note io = image_io_ok [of ?d' 65536, OF len]
  have lay: "unat (lay_bitmap_lba L) = 131" "1 < unat (lay_sb_tail_lba L)" "2 < unat (lay_sb_tail_lba L)"
    using L(2) by (auto simp: layout_tiles_def)
  have d: "?d' 0 = enc_mbr (mbr_build (zeros 16) (lay_capacity_blocks L))"
    "?d' 1 = (enc_sb (sb_build (zeros 16) L))[9 := 7]"
    "?d' (unat (lay_sb_tail_lba L)) = enc_sb (sb_build (zeros 16) L)"
    "ub_validate (?d' 2) = Inr (ub_build L 0)"
    using lay by (simp_all add: boot_image_def ub_validate_build)
  have "bitmap_region ?d' L = bitmap_region ?d L"
    using lay by (auto simp: bitmap_region_def intro!: arg_cong [where f = concat])
  then have "tail_clear (bitmap_region ?d' L) (unat (lay_capacity_blocks L))" using bi(4) L(3) by simp
  then show ?thesis
    using mount_survives_head_damage [OF io(1,2) L(2), of "zeros 16" 9 7 "ub_build L 0"] L(1,3) io(3,4) d by auto
qed

end
