(* ===== verification/Nebula_Block_Alloc.thy ===== *)
theory Nebula_Block_Alloc
  imports Nebula_Mount
begin

unbundle bit_operations_syntax

text \<open>
  \<open>src/nebula/nebula_block_alloc.c\<close>: the first-fit block allocator.  It searches the level-0 bits
  for a run, marks it, adjusts the summaries page by page and writes the dirty bitmap pages back,
  undoing the in-memory changes when that write fails.  Bit indices are natural numbers: they are
  bounded by the number of bits of the bitmap.
\<close>

section \<open>The code\<close>

definition flush_dirty_pages :: "'d nebula_mount \<Rightarrow> nat \<Rightarrow> nat \<Rightarrow> unit res \<times> 'd nebula_mount" where
  "flush_dirty_pages m first_bit last_bit =
     (let first_page = first_bit div NEBULA_BITMAP_BITS_PER_PAGE;
          last_page = last_bit div NEBULA_BITMAP_BITS_PER_PAGE;
          n_pages = (of_nat (last_page - first_page + 1) :: u32)
      in case nebula_io_write (m_io m) (sb_bitmap_lba (m_sb m) + of_nat first_page) n_pages
                (drop (first_page * NEBULA_BLOCK_SIZE) (hb_l0_bits (m_bitmap m))) of
           (r, io') \<Rightarrow> (r, m\<lparr>m_io := io'\<rparr>))"

text \<open>The number of changed bits in one page; the counters go down by it when \<open>alloc_dir > 0\<close>.\<close>

definition summary_delta :: "nat \<Rightarrow> nat \<Rightarrow> int \<Rightarrow> nat \<Rightarrow> u64" where
  "summary_delta first_bit last_bit alloc_dir p =
     (let ps = p * NEBULA_BITMAP_BITS_PER_PAGE;
          pe = ps + NEBULA_BITMAP_BITS_PER_PAGE;
          s = (if first_bit > ps then first_bit else ps);
          e = (if last_bit + 1 < pe then last_bit + 1 else pe);
          taken = of_nat (e - s)
      in if alloc_dir > 0 then - taken else taken)"

definition update_summaries :: "nebula_hier_bitmap \<Rightarrow> nat \<Rightarrow> nat \<Rightarrow> int \<Rightarrow> nebula_hier_bitmap" where
  "update_summaries h first_bit last_bit alloc_dir =
     (case fold (add_to_group (summary_delta first_bit last_bit alloc_dir))
             [first_bit div NEBULA_BITMAP_BITS_PER_PAGE..<last_bit div NEBULA_BITMAP_BITS_PER_PAGE + 1]
             (hb_l1_free_counts h, hb_l2_total_free h) of
        (l1, l2) \<Rightarrow> h\<lparr>hb_l1_free_counts := l1, hb_l2_total_free := l2\<rparr>)"

text \<open>The search loop: the start of the first run of \<open>n\<close> clear bits.\<close>

function scan_run :: "byte list \<Rightarrow> nat \<Rightarrow> nat \<Rightarrow> nat \<Rightarrow> nat \<Rightarrow> nat \<Rightarrow> nat option" where
  "scan_run bm n total_bits bit0 run_start run_len =
     (if bit0 < total_bits then
        if \<not> bit_get bm bit0 then
          let start = (if run_len = 0 then bit0 else run_start) in
          if run_len + 1 = n then Some start
          else scan_run bm n total_bits (bit0 + 1) start (run_len + 1)
        else scan_run bm n total_bits (bit0 + 1) run_start 0
      else None)"
  by pat_completeness auto
termination
  by (relation "measure (\<lambda>(bm, n, t, b, s, l). t - b)") auto

declare scan_run.simps [simp del]

definition alloc_total_bits :: "'d nebula_mount \<Rightarrow> u64" where
  "alloc_total_bits m =
     (let total_bits = hb_num_pages (m_bitmap m) * 32768 in
      if total_bits > sb_device_capacity_blocks (m_sb m)
      then sb_device_capacity_blocks (m_sb m) else total_bits)"

definition nebula_block_alloc :: "'d nebula_mount \<Rightarrow> u32 \<Rightarrow> u64 res \<times> 'd nebula_mount" where
  "nebula_block_alloc m n =
     (if n = 0 then (Inl EINVAL, m)
      else
        let h = m_bitmap m in
        if hb_l2_total_free h < ucast n then (Inl ENOSPC, m)
        else
          case scan_run (hb_l0_bits h) (unat n) (unat (alloc_total_bits m)) 0 0 0 of
            None \<Rightarrow> (Inl ENOSPC, m)
          | Some run_start \<Rightarrow>
              let last_bit = run_start + unat n - 1;
                  h1 = update_summaries (h\<lparr>hb_l0_bits := set_bits (hb_l0_bits h) run_start (unat n)\<rparr>)
                         run_start last_bit 1
              in case flush_dirty_pages (m\<lparr>m_bitmap := h1\<rparr>) run_start last_bit of
                   (Inl rc, m1) \<Rightarrow>
                     (Inl rc, m1\<lparr>m_bitmap := update_summaries
                        (h1\<lparr>hb_l0_bits := clr_bits (hb_l0_bits h1) run_start (unat n)\<rparr>)
                        run_start last_bit (-1)\<rparr>)
                 | (Inr _, m1) \<Rightarrow> (Inr (of_nat run_start), m1))"

text \<open>The double-free check; a bit outside the bitmap is read outside the array.\<close>

fun check_allocated :: "byte list \<Rightarrow> u64 list \<Rightarrow> unit res" where
  "check_allocated bm [] = Inr ()"
| "check_allocated bm (b # bs) =
     (if 8 * length bm \<le> unat b then Inl UNDEFINED
      else if \<not> bit_get bm (unat b) then Inl EINVAL
      else check_allocated bm bs)"

definition nebula_block_free :: "'d nebula_mount \<Rightarrow> u64 \<Rightarrow> u32 \<Rightarrow> unit res \<times> 'd nebula_mount" where
  "nebula_block_free m lba n =
     (if n = 0 then (Inl EINVAL, m)
      else if lba + ucast n > sb_device_capacity_blocks (m_sb m) then (Inl ERANGE, m)
      else
        let h = m_bitmap m in
        case check_allocated (hb_l0_bits h) (map (\<lambda>i. lba + of_nat i) [0..<unat n]) of
          Inl e \<Rightarrow> (Inl e, m)
        | Inr _ \<Rightarrow>
            let start = unat lba;
                last_bit = start + unat n - 1;
                h1 = update_summaries (h\<lparr>hb_l0_bits := clr_bits (hb_l0_bits h) start (unat n)\<rparr>)
                       start last_bit (-1)
            in case flush_dirty_pages (m\<lparr>m_bitmap := h1\<rparr>) start last_bit of
                 (Inl rc, m1) \<Rightarrow>
                   (Inl rc, m1\<lparr>m_bitmap := update_summaries
                      (h1\<lparr>hb_l0_bits := set_bits (hb_l0_bits h1) start (unat n)\<rparr>)
                      start last_bit 1\<rparr>)
               | (Inr _, m1) \<Rightarrow> (Inr (), m1))"

section \<open>The search\<close>

definition run_free :: "byte list \<Rightarrow> nat \<Rightarrow> nat \<Rightarrow> bool" where
  "run_free bm s n \<longleftrightarrow> (\<forall>j. s \<le> j \<and> j < s + n \<longrightarrow> \<not> bit_get bm j)"

lemma run_free_0 [simp]: "run_free bm s 0"
  by (auto simp: run_free_def)

lemma run_free_Suc: "run_free bm s (Suc n) \<longleftrightarrow> run_free bm s n \<and> \<not> bit_get bm (s + n)"
  by (auto simp: run_free_def less_Suc_eq)

text \<open>
  The loop invariant: the last \<open>run_len\<close> bits are clear and are preceded by a set bit (or start the
  bitmap), and no run of length \<open>n\<close> ends before the current bit.
\<close>

definition scan_inv :: "byte list \<Rightarrow> nat \<Rightarrow> nat \<Rightarrow> nat \<Rightarrow> nat \<Rightarrow> bool" where
  "scan_inv bm n b start len \<longleftrightarrow>
     len < n \<and> len \<le> b \<and> (0 < len \<longrightarrow> start = b - len) \<and> run_free bm (b - len) len
     \<and> (b - len = 0 \<or> bit_get bm (b - len - 1)) \<and> (\<forall>s. s + n \<le> b \<longrightarrow> \<not> run_free bm s n)"

lemma scan_inv_step_clear:
  assumes "scan_inv bm n b start len" and "\<not> bit_get bm b" and "len + 1 \<noteq> n"
  shows "scan_inv bm n (b + 1) (if len = 0 then b else start) (len + 1)"
proof -
  have free: "run_free bm (b - len) (len + 1)"
    using assms(1,2) by (simp add: scan_inv_def run_free_Suc)
  have "\<not> run_free bm s n" if "s + n \<le> b + 1" for s
  proof
    assume r: "run_free bm s n"
    then have "\<not> s + n \<le> b" using assms(1) by (auto simp: scan_inv_def)
    then have s: "s + n = b + 1" using that by simp
    have "s \<le> b - len - 1" "b - len - 1 < s + n" "b - len \<noteq> 0"
      using s assms(1,3) by (auto simp: scan_inv_def)
    then show False using r assms(1) by (auto simp: scan_inv_def run_free_def)
  qed
  then show ?thesis using assms free by (auto simp: scan_inv_def)
qed

lemma scan_inv_step_set:
  assumes "scan_inv bm n b start len" and "bit_get bm b"
  shows "scan_inv bm n (b + 1) start 0"
  using assms by (auto simp: scan_inv_def run_free_def le_Suc_eq)

lemma scan_run_first_fit:
  assumes "scan_inv bm n b start len" and "b \<le> tot"
  shows "case scan_run bm n tot b start len of
      Some s \<Rightarrow> s + n \<le> tot \<and> run_free bm s n \<and> (\<forall>s' < s. \<not> run_free bm s' n)
    | None \<Rightarrow> \<forall>s. s + n \<le> tot \<longrightarrow> \<not> run_free bm s n"
  using assms
proof (induction bm n tot b start len rule: scan_run.induct)
  case (1 bm n tot b start len)
  note sim = scan_run.simps [of bm n tot b start len]
  consider "\<not> b < tot" | "b < tot" "bit_get bm b" | "b < tot" "\<not> bit_get bm b" "len + 1 = n"
    | "b < tot" "\<not> bit_get bm b" "len + 1 \<noteq> n" by blast
  then show ?case
  proof cases
    case 1
    then show ?thesis using "1.prems" sim by (auto simp: scan_inv_def)
  next
    case 2
    then show ?thesis
      using "1.IH"(2) scan_inv_step_set [OF "1.prems"(1)] sim by simp
  next
    case 3
    define s where "s = (if len = 0 then b else start)"
    have sr: "scan_run bm n tot b start len = Some s" using 3 sim by (simp add: s_def Let_def)
    have s: "s = b - len" using "1.prems"(1) by (auto simp: s_def scan_inv_def)
    have "s + n = b + 1" using s "1.prems"(1) 3(3) by (auto simp: scan_inv_def)
    moreover have "run_free bm s (len + 1)"
      using "1.prems"(1) 3(2) s by (auto simp: scan_inv_def run_free_Suc)
    moreover have "\<not> run_free bm s' n" if "s' < s" for s'
      using "1.prems"(1) that \<open>s + n = b + 1\<close> by (auto simp: scan_inv_def)
    ultimately show ?thesis using sr 3 by simp
  next
    case 4
    show ?thesis
      using "1.IH"(1) [OF 4(1,2) refl 4(3)] scan_inv_step_clear [OF "1.prems"(1) 4(2,3)] 4 sim
      by (simp add: Let_def)
  qed
qed

lemma scan_run_spec:
  assumes "0 < n"
  shows "case scan_run bm n tot 0 0 0 of
      Some s \<Rightarrow> s + n \<le> tot \<and> run_free bm s n \<and> (\<forall>s' < s. \<not> run_free bm s' n)
    | None \<Rightarrow> \<forall>s. s + n \<le> tot \<longrightarrow> \<not> run_free bm s n"
  using assms by (intro scan_run_first_fit) (simp_all add: scan_inv_def)

section \<open>The summaries\<close>

lemma page_slice_card:
  fixes p fb lb :: nat
  shows "card {i \<in> {fb..lb}. i div 32768 = p}
    = (if lb + 1 < p * 32768 + 32768 then lb + 1 else p * 32768 + 32768) - (if fb > p * 32768 then fb else p * 32768)"
proof -
  have pg: "i div 32768 = p \<longleftrightarrow> p * 32768 \<le> i \<and> i < p * 32768 + 32768" for i using page_set [of p] by auto
  have "{i \<in> {fb..lb}. i div 32768 = p}
      = {if fb > p * 32768 then fb else p * 32768..<if lb + 1 < p * 32768 + 32768 then lb + 1 else p * 32768 + 32768}"
    unfolding pg by auto
  then show ?thesis by simp
qed

lemma update_summaries_counts:
  fixes dr :: int
  assumes "fb \<le> lb" and "lb < 32768 * n" and "length (hb_l1_free_counts h) = (n + 63) div 64"
  defines "d \<equiv> (if dr > 0 then - 1 else 1 :: u64)" and "h' \<equiv> update_summaries h fb lb dr"
  shows "length (hb_l1_free_counts h') = length (hb_l1_free_counts h)"
    and "hb_l2_total_free h' = hb_l2_total_free h + d * of_nat (card {fb..lb})"
    and "g < length (hb_l1_free_counts h) \<Longrightarrow> hb_l1_free_counts h' ! g
       = hb_l1_free_counts h ! g + d * of_nat (card {i \<in> {fb..lb}. i div 2097152 = g})"
    and "hb_l0_bits h' = hb_l0_bits h" and "hb_total_blocks h' = hb_total_blocks h"
    and "hb_num_pages h' = hb_num_pages h" and "hb_num_groups h' = hb_num_groups h"
proof -
  let ?ps = "[fb div 32768..<lb div 32768 + 1]"
  obtain l1 l2 where f: "fold (add_to_group (summary_delta fb lb dr)) ?ps
      (hb_l1_free_counts h, hb_l2_total_free h) = (l1, l2)" by (rule prod.exhaust)
  have h': "h' = h\<lparr>hb_l1_free_counts := l1, hb_l2_total_free := l2\<rparr>"
    using f by (simp add: h'_def update_summaries_def)
  have pg: "i div 32768 \<in> set ?ps" if "i \<in> {fb..lb}" for i
    using that by (auto intro: div_le_mono simp: less_Suc_eq_le)
  have grp: "p div 64 < length (hb_l1_free_counts h)" if "p \<in> set ?ps" for p
  proof -
    have "p \<le> lb div 32768" "lb div 32768 < n"
      using that assms(2) by (auto simp: less_mult_imp_div_less mult.commute)
    then show ?thesis using assms(3) by simp
  qed
  have dl: "summary_delta fb lb dr p = d * of_nat (card {i \<in> {fb..lb}. i div 32768 = p})" for p
    unfolding page_slice_card summary_delta_def Let_def d_def by simp
  note fp = fold_pages_set [OF finite_atLeastAtMost distinct_upt pg grp dl f]
  show "length (hb_l1_free_counts h') = length (hb_l1_free_counts h)"
    "hb_l2_total_free h' = hb_l2_total_free h + d * of_nat (card {fb..lb})"
    "g < length (hb_l1_free_counts h) \<Longrightarrow> hb_l1_free_counts h' ! g
       = hb_l1_free_counts h ! g + d * of_nat (card {i \<in> {fb..lb}. i div 2097152 = g})"
    "hb_l0_bits h' = hb_l0_bits h" "hb_total_blocks h' = hb_total_blocks h"
    "hb_num_pages h' = hb_num_pages h" "hb_num_groups h' = hb_num_groups h"
    using fp by (simp_all add: h')
qed

lemma card_split_remove:
  assumes "finite F" and "X \<subseteq> F"
  shows "(of_nat (card {i \<in> F - X. P i}) :: u64) = of_nat (card {i \<in> F. P i}) - of_nat (card {i \<in> X. P i})"
    and "(of_nat (card (F - X)) :: u64) = of_nat (card F) - of_nat (card X)"
proof -
  have gen: "(of_nat (card (A - B)) :: u64) = of_nat (card A) - of_nat (card B)" if "finite A" "B \<subseteq> A" for A B :: "'a set"
    using that card_mono [OF that] by (simp add: card_Diff_subset finite_subset of_nat_diff)
  have "{i \<in> F - X. P i} = {i \<in> F. P i} - {i \<in> X. P i}" by auto
  then show "(of_nat (card {i \<in> F - X. P i}) :: u64) = of_nat (card {i \<in> F. P i}) - of_nat (card {i \<in> X. P i})"
    using gen [of "{i \<in> F. P i}" "{i \<in> X. P i}"] assms by auto
  show "(of_nat (card (F - X)) :: u64) = of_nat (card F) - of_nat (card X)" using gen assms by blast
qed

lemma card_split_add:
  assumes "finite F" and "finite X" and "X \<inter> F = {}"
  shows "(of_nat (card {i \<in> F \<union> X. P i}) :: u64) = of_nat (card {i \<in> F. P i}) + of_nat (card {i \<in> X. P i})"
    and "(of_nat (card (F \<union> X)) :: u64) = of_nat (card F) + of_nat (card X)"
proof -
  have "{i \<in> F \<union> X. P i} = {i \<in> F. P i} \<union> {i \<in> X. P i}" by auto
  moreover have "card ({i \<in> F. P i} \<union> {i \<in> X. P i}) = card {i \<in> F. P i} + card {i \<in> X. P i}"
    using assms by (intro card_Un_disjoint) auto
  ultimately show "(of_nat (card {i \<in> F \<union> X. P i}) :: u64) = of_nat (card {i \<in> F. P i}) + of_nat (card {i \<in> X. P i})"
    by simp
  have "card (F \<union> X) = card F + card X" using assms by (intro card_Un_disjoint) auto
  then show "(of_nat (card (F \<union> X)) :: u64) = of_nat (card F) + of_nat (card X)" by simp
qed

text \<open>Marking a run of free bits and clearing a run of used bits keep the summaries exact.\<close>

definition mark_used :: "nebula_hier_bitmap \<Rightarrow> nat \<Rightarrow> nat \<Rightarrow> nebula_hier_bitmap" where
  "mark_used h s n = update_summaries (h\<lparr>hb_l0_bits := set_bits (hb_l0_bits h) s n\<rparr>) s (s + n - 1) 1"

definition mark_free :: "nebula_hier_bitmap \<Rightarrow> nat \<Rightarrow> nat \<Rightarrow> nebula_hier_bitmap" where
  "mark_free h s n = update_summaries (h\<lparr>hb_l0_bits := clr_bits (hb_l0_bits h) s n\<rparr>) s (s + n - 1) (-1)"

abbreviation hbm_free :: "nebula_hier_bitmap \<Rightarrow> nat set" where
  "hbm_free h \<equiv> free_blocks (hb_l0_bits h) (unat (hb_total_blocks h))"

lemma hbm_wf_bits: "hbm_wf h \<Longrightarrow> unat (hb_total_blocks h) \<le> 8 * length (hb_l0_bits h)"
  by (simp add: hbm_wf_def)

lemma run_within:
  assumes "0 < n" and "{s..<s + n} \<subseteq> free_blocks bm t"
  shows "s + n \<le> t"
proof -
  have "s + n - 1 \<in> {s..<s + n}" using assms(1) by simp
  then have "s + n - 1 < t" using assms(2) by (auto simp: free_blocks_def)
  then show ?thesis by simp
qed

lemma mark_used_ok:
  assumes wf: "hbm_wf h" and n: "0 < n" and free: "{s..<s + n} \<subseteq> hbm_free h"
  shows "hbm_wf (mark_used h s n)" and "hbm_free (mark_used h s n) = hbm_free h - {s..<s + n}"
    and "hb_l0_bits (mark_used h s n) = set_bits (hb_l0_bits h) s n"
    and "hb_total_blocks (mark_used h s n) = hb_total_blocks h"
    and "hb_num_pages (mark_used h s n) = hb_num_pages h"
proof -
  let ?h = "h\<lparr>hb_l0_bits := set_bits (hb_l0_bits h) s n\<rparr>" and ?np = "unat (hb_num_pages h)"
  have end_tot: "s + n \<le> unat (hb_total_blocks h)" using run_within [OF n free] .
  have "s \<le> s + n - 1" "s + n - 1 < 32768 * ?np" "length (hb_l1_free_counts ?h) = (?np + 63) div 64"
    using wf n end_tot by (auto simp: hbm_wf_def)
  note us = update_summaries_counts [OF this, where dr = 1, folded mark_used_def]
  have X: "{s..s + n - 1} = {s..<s + n}" using n by auto
  show bits: "hb_l0_bits (mark_used h s n) = set_bits (hb_l0_bits h) s n"
    "hb_total_blocks (mark_used h s n) = hb_total_blocks h" "hb_num_pages (mark_used h s n) = hb_num_pages h"
    using us by simp_all
  have in_range: "s + n \<le> 8 * length (hb_l0_bits h)" using end_tot hbm_wf_bits [OF wf] by simp
  show F: "hbm_free (mark_used h s n) = hbm_free h - {s..<s + n}"
    using bits by (auto simp: free_blocks_def bit_get_set_bits [OF in_range])
  have "summaries_exact (hbm_free h - {s..<s + n}) (hb_l1_free_counts (mark_used h s n)) (hb_l2_total_free (mark_used h s n))"
    using wf us(1-3) unfolding summaries_exact_def hbm_wf_def X card_split_remove [OF finite_free_blocks free]
    by simp
  then show "hbm_wf (mark_used h s n)" using wf F bits us by (simp add: hbm_wf_def)
qed

lemma mark_free_ok:
  assumes wf: "hbm_wf h" and n: "0 < n" and end_tot: "s + n \<le> unat (hb_total_blocks h)"
    and used: "{s..<s + n} \<inter> hbm_free h = {}"
  shows "hbm_wf (mark_free h s n)" and "hbm_free (mark_free h s n) = hbm_free h \<union> {s..<s + n}"
    and "hb_l0_bits (mark_free h s n) = clr_bits (hb_l0_bits h) s n"
    and "hb_total_blocks (mark_free h s n) = hb_total_blocks h"
    and "hb_num_pages (mark_free h s n) = hb_num_pages h"
proof -
  let ?h = "h\<lparr>hb_l0_bits := clr_bits (hb_l0_bits h) s n\<rparr>" and ?np = "unat (hb_num_pages h)"
  have "s \<le> s + n - 1" "s + n - 1 < 32768 * ?np" "length (hb_l1_free_counts ?h) = (?np + 63) div 64"
    using wf n end_tot by (auto simp: hbm_wf_def)
  note us = update_summaries_counts [OF this, where dr = "-1", folded mark_free_def]
  have X: "{s..s + n - 1} = {s..<s + n}" using n by auto
  show bits: "hb_l0_bits (mark_free h s n) = clr_bits (hb_l0_bits h) s n"
    "hb_total_blocks (mark_free h s n) = hb_total_blocks h" "hb_num_pages (mark_free h s n) = hb_num_pages h"
    using us by simp_all
  have in_range: "s + n \<le> 8 * length (hb_l0_bits h)" using end_tot hbm_wf_bits [OF wf] by simp
  show F: "hbm_free (mark_free h s n) = hbm_free h \<union> {s..<s + n}"
    using bits end_tot by (auto simp: free_blocks_def bit_get_clr_bits [OF in_range])
  have "summaries_exact (hbm_free h \<union> {s..<s + n}) (hb_l1_free_counts (mark_free h s n)) (hb_l2_total_free (mark_free h s n))"
    using wf us(1-3)
    unfolding summaries_exact_def hbm_wf_def X card_split_add [OF finite_free_blocks finite_atLeastLessThan used]
    by simp
  then show "hbm_wf (mark_free h s n)" using wf F bits us by (simp add: hbm_wf_def)
qed

text \<open>The roll-backs restore the state exactly.\<close>

lemma update_summaries_cancel:
  assumes "fb \<le> lb" and "lb < 32768 * n" and "length (hb_l1_free_counts h) = (n + 63) div 64"
    and "(dr > 0) \<noteq> (dr' > 0)"
  shows "(update_summaries (update_summaries (h\<lparr>hb_l0_bits := x\<rparr>) fb lb dr\<lparr>hb_l0_bits := hb_l0_bits h\<rparr>) fb lb dr') = h"
proof -
  let ?h1 = "update_summaries (h\<lparr>hb_l0_bits := x\<rparr>) fb lb dr" and ?z = "hb_l0_bits h"
  have l0: "length (hb_l1_free_counts (h\<lparr>hb_l0_bits := x\<rparr>)) = (n + 63) div 64" using assms(3) by simp
  note u1 = update_summaries_counts [OF assms(1,2) l0, where dr = dr]
  have l1: "length (hb_l1_free_counts (?h1\<lparr>hb_l0_bits := ?z\<rparr>)) = (n + 63) div 64" using u1(1) l0 by simp
  note u2 = update_summaries_counts [OF assms(1,2) l1, where dr = dr']
  show ?thesis
  proof (rule nebula_hier_bitmap.equality)
    show "hb_l1_free_counts (update_summaries (?h1\<lparr>hb_l0_bits := ?z\<rparr>) fb lb dr') = hb_l1_free_counts h"
      using u1 u2 assms(4) by (intro nth_equalityI) auto
  qed (use u1 u2 assms(4) in auto)
qed

lemma mark_free_used:
  assumes wf: "hbm_wf h" and n: "0 < n" and free: "run_free (hb_l0_bits h) s n"
    and end_tot: "s + n \<le> unat (hb_total_blocks h)"
  shows "mark_free (mark_used h s n) s n = h"
proof -
  have rng: "s \<le> s + n - 1" "s + n - 1 < 32768 * unat (hb_num_pages h)"
    "length (hb_l1_free_counts h) = (unat (hb_num_pages h) + 63) div 64"
    using wf n end_tot by (auto simp: hbm_wf_def)
  have "hb_l0_bits (mark_used h s n) = set_bits (hb_l0_bits h) s n"
    using update_summaries_counts(4) [OF rng(1,2), of "h\<lparr>hb_l0_bits := set_bits (hb_l0_bits h) s n\<rparr>"] rng(3)
    by (simp add: mark_used_def)
  moreover have "clr_bits (set_bits (hb_l0_bits h) s n) s n = hb_l0_bits h"
    using free end_tot hbm_wf_bits [OF wf] by (intro clr_set_bits) (auto simp: run_free_def)
  ultimately show ?thesis
    using update_summaries_cancel [OF rng, of 1 "-1"] by (simp add: mark_free_def mark_used_def)
qed

lemma mark_used_free:
  assumes wf: "hbm_wf h" and n: "0 < n" and used: "\<And>j. s \<le> j \<Longrightarrow> j < s + n \<Longrightarrow> bit_get (hb_l0_bits h) j"
    and end_tot: "s + n \<le> unat (hb_total_blocks h)"
  shows "mark_used (mark_free h s n) s n = h"
proof -
  have rng: "s \<le> s + n - 1" "s + n - 1 < 32768 * unat (hb_num_pages h)"
    "length (hb_l1_free_counts h) = (unat (hb_num_pages h) + 63) div 64"
    using wf n end_tot by (auto simp: hbm_wf_def)
  have "hb_l0_bits (mark_free h s n) = clr_bits (hb_l0_bits h) s n"
    using update_summaries_counts(4) [OF rng(1,2), of "h\<lparr>hb_l0_bits := clr_bits (hb_l0_bits h) s n\<rparr>"] rng(3)
    by (simp add: mark_free_def)
  moreover have "set_bits (clr_bits (hb_l0_bits h) s n) s n = hb_l0_bits h"
    using used end_tot hbm_wf_bits [OF wf] by (intro set_clr_bits) auto
  ultimately show ?thesis
    using update_summaries_cancel [OF rng, of "-1" 1] by (simp add: mark_free_def mark_used_def)
qed

section \<open>The bitmap on disk\<close>

lemma synced_iff:
  assumes "length l0 = 4096 * n" and "\<And>k. length (dsk k) = 4096"
  shows "l0 = concat (map dsk [b..<b + n]) \<longleftrightarrow> (\<forall>p < n. dsk (b + p) = seg (4096 * p) 4096 l0)"
proof
  assume l0: "l0 = concat (map dsk [b..<b + n])"
  show "\<forall>p < n. dsk (b + p) = seg (4096 * p) 4096 l0"
    using seg_concat_const [of "[b..<b + n]" dsk 4096] assms(2) by (auto simp: l0)
next
  assume pages: "\<forall>p < n. dsk (b + p) = seg (4096 * p) 4096 l0"
  have "map dsk [b..<b + n] = map (\<lambda>p. seg (4096 * p) 4096 l0) [0..<n]"
    using pages by (intro nth_equalityI) auto
  then show "l0 = concat (map dsk [b..<b + n])" using concat_segs [OF assms(1)] by simp
qed

lemma bit_get_seg:
  assumes "j < 32768" and "4096 * (p + 1) \<le> length bm"
  shows "bit_get (seg (4096 * p) 4096 bm) j = bit_get bm (32768 * p + j)"
proof -
  have "j div 8 < 4096" using assms(1) by (simp add: less_mult_imp_div_less)
  moreover have "(32768 * p + j) div 8 = 4096 * p + j div 8" "(32768 * p + j) mod 8 = j mod 8"
  proof -
    have eq: "32768 * p + j = j + 8 * (4096 * p)" by simp
    show "(32768 * p + j) div 8 = 4096 * p + j div 8" unfolding eq by (rule div_mult_self2) simp
    show "(32768 * p + j) mod 8 = j mod 8" unfolding eq by (rule mod_mult_self2)
  qed
  ultimately show ?thesis using assms(2) by (simp add: bit_get_iff)
qed

text \<open>A page whose bits did not change did not change.\<close>

lemma seg_page_unchanged:
  assumes "length a = length b" and "4096 * (p + 1) \<le> length b"
    and "\<And>i. i div 32768 = p \<Longrightarrow> bit_get a i = bit_get b i"
  shows "seg (4096 * p) 4096 a = seg (4096 * p) 4096 b"
proof (rule bitmap_eqI)
  fix i assume "i < 8 * length (seg (4096 * p) 4096 a)"
  then have i: "i < 32768" using assms(1,2) by simp
  have "(32768 * p + i) div 32768 = p" using i by simp
  then show "bit_get (seg (4096 * p) 4096 a) i = bit_get (seg (4096 * p) 4096 b) i"
    using assms i by (simp add: bit_get_seg)
qed (use assms(1) in simp)

lemma mount_inv_sb:
  assumes "mount_inv ops dinv L m"
  shows "sb_bitmap_lba (m_sb m) = lay_bitmap_lba L" "sb_device_capacity_blocks (m_sb m) = lay_capacity_blocks L"
    "sb_bitmap_block_count (m_sb m) = lay_bitmap_block_count L"
    "sb_inode_page_lba (m_sb m) = lay_inode_page_lba L"
    "sb_inode_page_block_count (m_sb m) = lay_inode_page_block_count L"
    "sb_dir_page_lba (m_sb m) = lay_dir_page_lba L"
    "sb_dir_page_block_count (m_sb m) = lay_dir_page_block_count L"
    "sb_data_start_lba (m_sb m) = lay_data_start_lba L"
proof -
  have "m_sb m = sb_build (sb_device_uuid (m_sb m)) L" using assms by (simp add: mount_inv_def)
  then show "sb_bitmap_lba (m_sb m) = lay_bitmap_lba L" "sb_device_capacity_blocks (m_sb m) = lay_capacity_blocks L"
    "sb_bitmap_block_count (m_sb m) = lay_bitmap_block_count L"
    "sb_inode_page_lba (m_sb m) = lay_inode_page_lba L"
    "sb_inode_page_block_count (m_sb m) = lay_inode_page_block_count L"
    "sb_dir_page_lba (m_sb m) = lay_dir_page_lba L"
    "sb_dir_page_block_count (m_sb m) = lay_dir_page_block_count L"
    "sb_data_start_lba (m_sb m) = lay_data_start_lba L"
    by (metis sb_build_fields)+
qed

lemma mount_inv_geometry:
  assumes "mount_inv ops dinv L m"
  defines "np \<equiv> unat (lay_bitmap_block_count L)"
  shows "unat (lay_bitmap_lba L) = 131" "unat (lay_inode_page_lba L) = 131 + np + 256"
    "np < 2 ^ 32" "131 + np + 256 < unat (io_capacity_blocks (m_io m))"
    "length (hb_l0_bits (m_bitmap m)) = 4096 * np" "unat (lay_capacity_blocks L) \<le> 32768 * np"
    "hbm_wf (m_bitmap m)" "hb_total_blocks (m_bitmap m) = lay_capacity_blocks L"
    "unat (io_capacity_blocks (m_io m)) < 2 ^ 46" "lay_capacity_blocks L = io_capacity_blocks (m_io m)"
    "layout_tiles L" "io_ok ops dinv (m_io m)"
proof -
  have m: "io_ok ops dinv (m_io m)" "layout_tiles L" "lay_capacity_blocks L = io_capacity_blocks (m_io m)"
    "unat (io_capacity_blocks (m_io m)) < 2 ^ 46" "hbm_wf (m_bitmap m)"
    "hb_total_blocks (m_bitmap m) = lay_capacity_blocks L" "hb_num_pages (m_bitmap m) = lay_bitmap_block_count L"
    using assms(1) unfolding mount_inv_def by auto
  have lay: "unat (lay_bitmap_lba L) = 131" "unat (lay_inode_page_lba L) = 131 + np + 256"
    "131 + np + 256 < unat (lay_capacity_blocks L)" "unat (lay_capacity_blocks L) \<le> 32768 * np"
    using m(2) unfolding layout_tiles_def np_def by linarith+
  show "np < 2 ^ 32" using layout_tiles_small(1) [OF m(2)] m(3,4) by (simp add: np_def)
  show "length (hb_l0_bits (m_bitmap m)) = 4096 * np" using m(5,7) by (simp add: hbm_wf_def np_def)
  show "131 + np + 256 < unat (io_capacity_blocks (m_io m))" using lay(3) m(3) by simp
qed (use assms(1) in \<open>auto simp: mount_inv_def layout_tiles_def np_def\<close>)

lemma alloc_total_bits_eq:
  assumes "mount_inv ops dinv L m"
  shows "alloc_total_bits m = lay_capacity_blocks L"
proof -
  note g = mount_inv_geometry [OF assms]
  have "unat (lay_bitmap_block_count L * 32768) = unat (lay_bitmap_block_count L) * 32768"
    using g(3) by (subst unat_times_if_small) auto
  then have "lay_capacity_blocks L \<le> lay_bitmap_block_count L * 32768"
    using g(6) by (simp add: word_le_nat_alt)
  then show ?thesis
    using assms by (auto simp: alloc_total_bits_def Let_def mount_inv_sb [OF assms] mount_inv_def)
qed

context block_backend
begin

lemma flush_dirty_pages_ok:
  assumes inv: "mount_inv ops dinv L m" and "fb \<le> lb" and "lb < 32768 * unat (lay_bitmap_block_count L)"
    and fl: "flush_dirty_pages m fb lb = (r, m')"
  defines "np \<equiv> unat (lay_bitmap_block_count L)"
  shows "m' = m\<lparr>m_io := m_io m'\<rparr>" and "next_io (m_io m) (m_io m')"
    and "i < 131 \<or> 131 + np \<le> i \<Longrightarrow> disk (m_io m') i = disk (m_io m) i"
    and "r = Inr x \<Longrightarrow> p < np \<Longrightarrow> disk (m_io m') (131 + p) =
           (if fb div 32768 \<le> p \<and> p \<le> lb div 32768 then seg (4096 * p) 4096 (hb_l0_bits (m_bitmap m))
            else disk (m_io m) (131 + p))"
    and "up (m_io m) \<Longrightarrow> r = Inr ()"
proof -
  note g = mount_inv_geometry [OF inv, folded np_def]
  let ?fp = "fb div 32768" and ?lp = "lb div 32768" and ?l0 = "hb_l0_bits (m_bitmap m)"
  have pages: "?fp \<le> ?lp" "?lp < np"
    using assms(2,3) by (auto intro: div_le_mono simp: np_def less_mult_imp_div_less mult.commute)
  have un: "unat (of_nat (?lp - ?fp + 1) :: u32) = ?lp - ?fp + 1"
    using pages g(3) by (intro unat_of_nat_u32) simp
  have ul: "unat (lay_bitmap_lba L + of_nat ?fp) = 131 + ?fp"
    using pages g(1,3) by (subst unat_off_plus) auto
  obtain io' where w: "nebula_io_write (m_io m) (lay_bitmap_lba L + of_nat ?fp) (of_nat (?lp - ?fp + 1))
      (drop (?fp * 4096) ?l0) = (r, io')" and m': "m' = m\<lparr>m_io := io'\<rparr>"
    using fl unfolding flush_dirty_pages_def Let_def mount_inv_sb [OF inv] by (auto split: prod.splits)
  have fit: "4096 * unat (of_nat (?lp - ?fp + 1) :: u32) \<le> length (drop (?fp * 4096) ?l0)"
    unfolding un using pages g(5) by (simp add: algebra_simps)
  show "m' = m\<lparr>m_io := m_io m'\<rparr>" by (simp add: m')
  note fr = io_write_frame [OF g(12) w]
  show "next_io (m_io m) (m_io m')" using fr(1) by (simp add: m')
  show "disk (m_io m') i = disk (m_io m) i" if "i < 131 \<or> 131 + np \<le> i"
    using fr(2) [of i, unfolded ul un] that pages by (auto simp: m')
  show "disk (m_io m') (131 + p) = (if ?fp \<le> p \<and> p \<le> ?lp then seg (4096 * p) 4096 ?l0
      else disk (m_io m) (131 + p))" if "r = Inr x" "p < np"
  proof -
    have d: "disk io' = (\<lambda>i. if 131 + ?fp \<le> i \<and> i < 131 + ?fp + (?lp - ?fp + 1)
        then seg (4096 * (i - (131 + ?fp))) 4096 (drop (?fp * 4096) ?l0) else disk (m_io m) i)"
      using io_write_ok(2) [OF g(12) w [unfolded that(1)] fit] unfolding ul un .
    have "seg (4096 * (p - ?fp)) 4096 (drop (?fp * 4096) ?l0) = seg (4096 * p) 4096 ?l0" if "?fp \<le> p"
      using that by (simp add: seg_def algebra_simps)
    then show ?thesis using pages by (auto simp: m' d)
  qed
  show "r = Inr ()" if "up (m_io m)"
  proof -
    have "unat (lay_bitmap_lba L + of_nat ?fp) + unat (of_nat (?lp - ?fp + 1) :: u32) \<le> ncap (m_io m)"
      unfolding ul un using pages g(4) by simp
    then show ?thesis using io_write_up [OF g(12) that _ w] by blast
  qed
qed

text \<open>
  Replacing the in-memory bitmap by one that differs only in the bits \<open>fb..lb\<close> and flushing those
  pages keeps disk and memory in step.
\<close>

lemma flush_synced:
  assumes inv: "mount_inv ops dinv L (m\<lparr>m_bitmap := h1\<rparr>)" and "fb \<le> lb" "lb < 32768 * unat (lay_bitmap_block_count L)"
    and fl: "flush_dirty_pages (m\<lparr>m_bitmap := h1\<rparr>) fb lb = (Inr x, m')"
    and sync: "bitmap_synced blk L m" and len: "length (hb_l0_bits (m_bitmap m)) = length (hb_l0_bits h1)"
    and same: "\<And>i. i < fb \<or> lb < i \<Longrightarrow> bit_get (hb_l0_bits h1) i = bit_get (hb_l0_bits (m_bitmap m)) i"
  shows "bitmap_synced blk L m'"
proof -
  let ?np = "unat (lay_bitmap_block_count L)"
  note g = mount_inv_geometry [OF inv, simplified]
  note fd = flush_dirty_pages_ok [OF inv assms(2,3) fl, simplified]
  have m': "m_bitmap m' = h1" by (subst fd(1)) simp
  have old: "\<forall>p < ?np. disk (m_io m) (131 + p) = seg (4096 * p) 4096 (hb_l0_bits (m_bitmap m))"
    using sync synced_iff [of "hb_l0_bits (m_bitmap m)" ?np "disk (m_io m)" 131] len g blk_length
    by (simp add: bitmap_synced_def bitmap_region_def)
  have "disk (m_io m') (131 + p) = seg (4096 * p) 4096 (hb_l0_bits h1)" if p: "p < ?np" for p
  proof (cases "fb div 32768 \<le> p \<and> p \<le> lb div 32768")
    case True
    then show ?thesis using fd(4) p by simp
  next
    case False
    have "seg (4096 * p) 4096 (hb_l0_bits h1) = seg (4096 * p) 4096 (hb_l0_bits (m_bitmap m))"
    proof (rule seg_page_unchanged)
      show "4096 * (p + 1) \<le> length (hb_l0_bits (m_bitmap m))" using p len g(5) by simp
      fix i :: nat assume "i div 32768 = p"
      then have "i < fb \<or> lb < i" using False by (metis div_le_mono linorder_not_less)
      then show "bit_get (hb_l0_bits h1) i = bit_get (hb_l0_bits (m_bitmap m)) i" by (rule same)
    qed (use len in simp)
    then show ?thesis using fd(4) p False old by auto
  qed
  then show ?thesis
    using synced_iff [of "hb_l0_bits h1" ?np "disk (m_io m')" 131] g blk_length m'
    by (simp add: bitmap_synced_def bitmap_region_def)
qed

end

section \<open>Allocate and free\<close>

lemma nebula_block_alloc_eq:
  "nebula_block_alloc m n =
     (if n = 0 then (Inl EINVAL, m)
      else if hb_l2_total_free (m_bitmap m) < ucast n then (Inl ENOSPC, m)
      else case scan_run (hb_l0_bits (m_bitmap m)) (unat n) (unat (alloc_total_bits m)) 0 0 0 of
             None \<Rightarrow> (Inl ENOSPC, m)
           | Some s \<Rightarrow>
               (case flush_dirty_pages (m\<lparr>m_bitmap := mark_used (m_bitmap m) s (unat n)\<rparr>) s (s + unat n - 1) of
                  (Inl rc, m1) \<Rightarrow>
                    (Inl rc, m1\<lparr>m_bitmap := mark_free (mark_used (m_bitmap m) s (unat n)) s (unat n)\<rparr>)
                | (Inr _, m1) \<Rightarrow> (Inr (of_nat s), m1)))"
  unfolding nebula_block_alloc_def Let_def mark_used_def mark_free_def by simp

lemma nebula_block_free_eq:
  "nebula_block_free m lba n =
     (if n = 0 then (Inl EINVAL, m)
      else if lba + ucast n > sb_device_capacity_blocks (m_sb m) then (Inl ERANGE, m)
      else case check_allocated (hb_l0_bits (m_bitmap m)) (map (\<lambda>i. lba + of_nat i) [0..<unat n]) of
             Inl e \<Rightarrow> (Inl e, m)
           | Inr _ \<Rightarrow>
               (case flush_dirty_pages (m\<lparr>m_bitmap := mark_free (m_bitmap m) (unat lba) (unat n)\<rparr>)
                       (unat lba) (unat lba + unat n - 1) of
                  (Inl rc, m1) \<Rightarrow>
                    (Inl rc, m1\<lparr>m_bitmap := mark_used (mark_free (m_bitmap m) (unat lba) (unat n)) (unat lba) (unat n)\<rparr>)
                | (Inr _, m1) \<Rightarrow> (Inr (), m1)))"
  unfolding nebula_block_free_def Let_def mark_used_def mark_free_def by simp

lemma run_free_subset:
  "s + n \<le> t \<Longrightarrow> run_free bm s n \<longleftrightarrow> {s..<s + n} \<subseteq> free_blocks bm t"
  by (auto simp: run_free_def free_blocks_def)

lemma check_allocated_ok:
  "check_allocated bm bs = Inr u \<Longrightarrow> b \<in> set bs \<Longrightarrow> unat b < 8 * length bm \<and> bit_get bm (unat b)"
  by (induction bm bs rule: check_allocated.induct) (auto split: if_splits)

lemma check_allocated_eq:
  assumes "\<And>b. b \<in> set bs \<Longrightarrow> unat b < 8 * length bm"
  shows "check_allocated bm bs = (if \<forall>b \<in> set bs. bit_get bm (unat b) then Inr () else Inl EINVAL)"
  using assms
proof (induction bs)
  case (Cons b bs)
  have "\<not> 8 * length bm \<le> unat b" using Cons.prems [of b] by simp
  then show ?case using Cons by simp
qed simp

lemma mount_inv_bitmap:
  assumes "mount_inv ops dinv L m" and "hbm_wf h" and "hb_total_blocks h = hb_total_blocks (m_bitmap m)"
    and "hb_num_pages h = hb_num_pages (m_bitmap m)"
  shows "mount_inv ops dinv L (m\<lparr>m_bitmap := h\<rparr>)"
  using assms unfolding mount_inv_def by auto

text \<open>The operations of a mount leave everything but the device and the bitmap alone.\<close>

definition same_meta :: "'d nebula_mount \<Rightarrow> 'd nebula_mount \<Rightarrow> bool" where
  "same_meta m m' \<longleftrightarrow> m_mbr m' = m_mbr m \<and> m_sb m' = m_sb m \<and> m_current_ub m' = m_current_ub m
     \<and> m_current_ub_slot m' = m_current_ub_slot m"

context block_backend
begin

lemma mount_inv_io:
  assumes "mount_inv ops dinv L m" and "next_io (m_io m) io'"
  shows "mount_inv ops dinv L (m\<lparr>m_io := io'\<rparr>)"
  using assms next_io_ok [OF assms(2)] next_io_cap [OF assms(2)] unfolding mount_inv_def by auto

abbreviation mount_next :: "nebula_layout \<Rightarrow> 'd nebula_mount \<Rightarrow> 'd nebula_mount \<Rightarrow> bool" where
  "mount_next L m m' \<equiv> mount_inv ops dinv L m' \<and> next_io (m_io m) (m_io m')
     \<and> same_meta m m'"

abbreviation same_outside_bitmap :: "nebula_layout \<Rightarrow> 'd nebula_mount \<Rightarrow> 'd nebula_mount \<Rightarrow> bool" where
  "same_outside_bitmap L m m' \<equiv> (\<forall>i. i < 131 \<or> 131 + unat (lay_bitmap_block_count L) \<le> i \<longrightarrow>
     disk (m_io m') i = disk (m_io m) i)"

lemma mount_next_refl: "mount_inv ops dinv L m \<Longrightarrow> mount_next L m m"
  using next_io_refl unfolding mount_inv_def same_meta_def by auto

lemma mount_next_trans: "mount_next L a b \<Longrightarrow> mount_next L b c \<Longrightarrow> mount_next L a c"
  by (auto simp: same_meta_def intro: next_io_trans)

text \<open>The step the two operations share: install a new bitmap, flush, and undo on failure.\<close>

lemma bitmap_step:
  assumes inv: "mount_inv ops dinv L m" and wf1: "hbm_wf h1"
    and "hb_total_blocks h1 = hb_total_blocks (m_bitmap m)" and "hb_num_pages h1 = hb_num_pages (m_bitmap m)"
    and rng: "fb \<le> lb" "lb < 32768 * unat (lay_bitmap_block_count L)"
    and fl: "flush_dirty_pages (m\<lparr>m_bitmap := h1\<rparr>) fb lb = (q, m1)"
    and m': "m' = (case q of Inl _ \<Rightarrow> m1\<lparr>m_bitmap := m_bitmap m\<rparr> | Inr _ \<Rightarrow> m1)"
  shows "mount_next L m m'" and "same_outside_bitmap L m m'"
    and "m_bitmap m' = (case q of Inl _ \<Rightarrow> m_bitmap m | Inr _ \<Rightarrow> h1)"
    and "up (m_io m) \<Longrightarrow> q = Inr ()"
proof -
  have inv1: "mount_inv ops dinv L (m\<lparr>m_bitmap := h1\<rparr>)" using mount_inv_bitmap [OF inv wf1] assms(3,4) by simp
  note fd = flush_dirty_pages_ok [OF inv1 rng fl]
  have m1: "m1 = m\<lparr>m_bitmap := h1, m_io := m_io m1\<rparr>" using fd(1) .
  have nx: "next_io (m_io m) (m_io m1)" using fd(2) by simp
  have io': "m_io m' = m_io m1" using m' by (simp split: sum.splits)
  show mb: "m_bitmap m' = (case q of Inl _ \<Rightarrow> m_bitmap m | Inr _ \<Rightarrow> h1)"
    using m' by (subst m') (subst m1, simp split: sum.splits)
  have meta: "same_meta m m1" by (subst m1) (simp add: same_meta_def)
  then have meta': "same_meta m m'" by (simp add: m' same_meta_def split: sum.splits)
  have "mount_inv ops dinv L m1" using mount_inv_io [OF inv1, of "m_io m1"] nx by (subst m1) simp
  then have "mount_inv ops dinv L m'"
    using mount_inv_bitmap [of ops dinv L m1 "m_bitmap m"] inv m' unfolding mount_inv_def
    by (auto split: sum.splits)
  then show "mount_next L m m'" using nx io' meta' by simp
  show "same_outside_bitmap L m m'" using fd(3) io' by simp
  show "up (m_io m) \<Longrightarrow> q = Inr ()" using fd(5) by simp
qed

lemma no_free_run:
  fixes n :: u32
  assumes "mount_inv ops dinv L m" and "hb_l2_total_free (m_bitmap m) < ucast n"
    and "s + unat n \<le> unat (lay_capacity_blocks L)"
  shows "\<not> run_free (hb_l0_bits (m_bitmap m)) s (unat n)"
proof
  note g = mount_inv_geometry [OF assms(1)]
  let ?F = "hbm_free (m_bitmap m)"
  assume "run_free (hb_l0_bits (m_bitmap m)) s (unat n)"
  then have sub: "{s..<s + unat n} \<subseteq> ?F" using assms(3) g(8) by (simp add: run_free_subset)
  have "unat n \<le> card ?F" using card_mono [OF finite_free_blocks sub] by simp
  moreover have "card ?F \<le> unat (lay_capacity_blocks L)"
    using card_mono [of "{..<unat (lay_capacity_blocks L)}" ?F] g(8) by (auto simp: free_blocks_def)
  then have "card ?F < 18446744073709551616"
    by (rule le_less_trans) (rule unat_u64_less)
  then have "unat (hb_l2_total_free (m_bitmap m)) = card ?F"
    using g(7) by (simp add: hbm_wf_def summaries_exact_def unat_of_nat_u64)
  ultimately show False using assms(2) by (simp add: word_less_nat_alt)
qed

text \<open>Every outcome of an allocation.\<close>

lemma block_alloc_cases:
  assumes inv: "mount_inv ops dinv L m" and al: "nebula_block_alloc m n = (r, m')"
  shows "mount_next L m m'" and "same_outside_bitmap L m m'"
    and "r = Inl e \<Longrightarrow> m_bitmap m' = m_bitmap m"
    and "r = Inr lba \<Longrightarrow> n \<noteq> 0 \<and> {unat lba..<unat lba + unat n} \<subseteq> hbm_free (m_bitmap m)
           \<and> (\<forall>s < unat lba. \<not> run_free (hb_l0_bits (m_bitmap m)) s (unat n))
           \<and> m_bitmap m' = mark_used (m_bitmap m) (unat lba) (unat n)
           \<and> (bitmap_synced blk L m \<longrightarrow> bitmap_synced blk L m')"
    and "up (m_io m) \<Longrightarrow> r = Inl e \<Longrightarrow> m' = m \<and> (n = 0 \<and> e = EINVAL
           \<or> n \<noteq> 0 \<and> e = ENOSPC \<and> (\<forall>s. s + unat n \<le> unat (lay_capacity_blocks L) \<longrightarrow>
               \<not> run_free (hb_l0_bits (m_bitmap m)) s (unat n)))"
proof (atomize (full), goal_cases)
  case 1
  note g = mount_inv_geometry [OF inv]
  let ?h = "m_bitmap m" and ?n = "unat n"
  have stay: ?case if "m' = m" "r = Inl e'" "n = 0 \<and> e' = EINVAL \<or> n \<noteq> 0 \<and> e' = ENOSPC
      \<and> (\<forall>s. s + ?n \<le> unat (lay_capacity_blocks L) \<longrightarrow> \<not> run_free (hb_l0_bits ?h) s ?n)" for e'
    using that mount_next_refl [OF inv] by auto
  have n0: "0 < ?n" if "n \<noteq> 0" using that by (simp add: unat_gt_0)
  consider "n = 0" | "n \<noteq> 0" "hb_l2_total_free ?h < ucast n"
    | "n \<noteq> 0" "\<not> hb_l2_total_free ?h < ucast n"
        "scan_run (hb_l0_bits ?h) ?n (unat (lay_capacity_blocks L)) 0 0 0 = None"
    | s where "n \<noteq> 0" "\<not> hb_l2_total_free ?h < ucast n"
        "scan_run (hb_l0_bits ?h) ?n (unat (lay_capacity_blocks L)) 0 0 0 = Some s" by blast
  then show ?case
  proof cases
    case 1
    then show ?thesis using al by (intro stay) (simp_all add: nebula_block_alloc_eq)
  next
    case 2
    then show ?thesis using al no_free_run [OF inv]
      by (intro stay [of ENOSPC]) (simp_all add: nebula_block_alloc_eq)
  next
    case 3
    then show ?thesis using al scan_run_spec [where bm = "hb_l0_bits ?h" and tot = "unat (lay_capacity_blocks L)", OF n0 [OF 3(1)]]
      by (intro stay [of ENOSPC]) (simp_all add: nebula_block_alloc_eq alloc_total_bits_eq [OF inv])
  next
    case 4
    note sc = scan_run_spec [where bm = "hb_l0_bits ?h" and tot = "unat (lay_capacity_blocks L)", OF n0 [OF 4(1)], unfolded 4(3), simplified]
    then have free: "{s..<s + ?n} \<subseteq> hbm_free ?h"
      using g(8) run_free_subset [of s ?n "unat (lay_capacity_blocks L)" "hb_l0_bits ?h"] by simp
    let ?h1 = "mark_used ?h s ?n"
    note mu = mark_used_ok [OF g(7) n0 [OF 4(1)] free]
    have us: "unat (of_nat s :: u64) = s"
    proof -
      have "s < unat (lay_capacity_blocks L)" using sc n0 [OF 4(1)] by simp
      then show ?thesis using unat_u64_less [of "lay_capacity_blocks L"] by (intro unat_of_nat_u64) linarith
    qed
    have rng: "s \<le> s + ?n - 1" "s + ?n - 1 < 32768 * unat (lay_bitmap_block_count L)"
      using sc n0 [OF 4(1)] g(6) by linarith+
    obtain q m1 where fl: "flush_dirty_pages (m\<lparr>m_bitmap := ?h1\<rparr>) s (s + ?n - 1) = (q, m1)" by (rule prod.exhaust)
    have undo: "mark_free ?h1 s ?n = ?h" using sc g(8) by (intro mark_free_used [OF g(7) n0 [OF 4(1)]]) auto
    have res: "m' = (case q of Inl _ \<Rightarrow> m1\<lparr>m_bitmap := ?h\<rparr> | Inr _ \<Rightarrow> m1)"
      "r = (case q of Inl e \<Rightarrow> Inl e | Inr _ \<Rightarrow> Inr (of_nat s))"
      using al 4 fl undo by (simp_all add: nebula_block_alloc_eq alloc_total_bits_eq [OF inv] split: sum.splits)
    note st = bitmap_step [OF inv mu(1,4,5) rng fl res(1)]
    have "bitmap_synced blk L m'" if "q = Inr u" "bitmap_synced blk L m" for u
    proof -
      have "s + ?n \<le> 8 * length (hb_l0_bits ?h)" using sc g(5,6) by simp
      then have same: "bit_get (hb_l0_bits ?h1) i = bit_get (hb_l0_bits ?h) i" if "i < s \<or> s + ?n - 1 < i" for i
        using that by (auto simp: mu(3) bit_get_set_bits)
      have "mount_inv ops dinv L (m\<lparr>m_bitmap := ?h1\<rparr>)" using mount_inv_bitmap [OF inv mu(1,4,5)] .
      from flush_synced [OF this rng fl [unfolded that(1)] that(2) _ same] show ?thesis
        using res(1) that(1) by (simp add: mu(3))
    qed
    then show ?thesis using st res sc free us 4(1) by (cases q) auto
  qed
qed

lemma free_range_addrs:
  assumes "mount_inv ops dinv L m" and "unat lba + unat n \<le> unat (lay_capacity_blocks L)"
  shows "\<not> lba + ucast (n :: u32) > sb_device_capacity_blocks (m_sb m)"
    and "check_allocated (hb_l0_bits (m_bitmap m)) (map (\<lambda>i. lba + of_nat i) [0..<unat n])
      = (if \<forall>i < unat n. bit_get (hb_l0_bits (m_bitmap m)) (unat lba + i) then Inr () else Inl EINVAL)"
proof -
  note g = mount_inv_geometry [OF assms(1)]
  have small: "unat lba + unat n < 2 ^ 64" using assms(2) g(9,10) by simp
  have "unat (lba + ucast n) = unat lba + unat n" using small by (subst unat_plus_if_small) auto
  then show "\<not> lba + ucast n > sb_device_capacity_blocks (m_sb m)"
    using assms(2) by (simp add: mount_inv_sb [OF assms(1)] word_less_nat_alt)
  have ui: "unat (lba + of_nat i) = unat lba + i" if "i < unat n" for i
    using that small by (intro unat_off_plus) simp
  have b: "unat b < 8 * length (hb_l0_bits (m_bitmap m))" if "b \<in> set (map (\<lambda>i. lba + of_nat i) [0..<unat n])" for b
    using that ui assms(2) g(5,6) by auto
  show "check_allocated (hb_l0_bits (m_bitmap m)) (map (\<lambda>i. lba + of_nat i) [0..<unat n])
      = (if \<forall>i < unat n. bit_get (hb_l0_bits (m_bitmap m)) (unat lba + i) then Inr () else Inl EINVAL)"
    using check_allocated_eq [of "map (\<lambda>i. lba + of_nat i) [0..<unat n]" "hb_l0_bits (m_bitmap m)", OF b] ui by simp
qed

lemma block_free_range:
  assumes inv: "mount_inv ops dinv L m" and "n \<noteq> 0" and "\<not> lba + ucast n > sb_device_capacity_blocks (m_sb m)"
    and "check_allocated (hb_l0_bits (m_bitmap m)) (map (\<lambda>i. lba + of_nat i) [0..<unat (n :: u32)]) = Inr u"
  shows "unat lba + unat n \<le> unat (lay_capacity_blocks L)"
proof -
  note g = mount_inv_geometry [OF inv]
  have "0 < unat n" using assms(2) by (simp add: unat_gt_0)
  then have "lba \<in> set (map (\<lambda>i. lba + of_nat i) [0..<unat n])" by (auto simp: image_iff intro!: bexI [of _ 0])
  from check_allocated_ok [OF assms(4) this] have "unat lba < 32768 * unat (lay_bitmap_block_count L)"
    using g(5) by simp
  moreover have "unat (lay_bitmap_block_count L) < 4294967296" using g(3) by simp
  ultimately have "unat lba + unat n < 18446744073709551616" using unat_u32_less [of n] by linarith
  then have "unat (lba + ucast n) = unat lba + unat n" by (subst unat_plus_if_small) auto
  then show ?thesis using assms(3) by (simp add: mount_inv_sb [OF inv] word_less_nat_alt)
qed

text \<open>Every outcome of a free.\<close>

lemma block_free_cases:
  assumes inv: "mount_inv ops dinv L m" and fr: "nebula_block_free m lba n = (r, m')"
  shows "mount_next L m m'" and "same_outside_bitmap L m m'"
    and "r = Inl e \<Longrightarrow> m_bitmap m' = m_bitmap m"
    and "r = Inr x \<Longrightarrow> n \<noteq> 0 \<and> unat lba + unat n \<le> unat (lay_capacity_blocks L)
           \<and> (\<forall>i < unat n. bit_get (hb_l0_bits (m_bitmap m)) (unat lba + i))
           \<and> m_bitmap m' = mark_free (m_bitmap m) (unat lba) (unat n)
           \<and> (bitmap_synced blk L m \<longrightarrow> bitmap_synced blk L m')"
    and "up (m_io m) \<Longrightarrow> n \<noteq> 0 \<Longrightarrow> unat lba + unat n \<le> unat (lay_capacity_blocks L)
           \<Longrightarrow> \<forall>i < unat n. bit_get (hb_l0_bits (m_bitmap m)) (unat lba + i) \<Longrightarrow> r = Inr ()"
proof (atomize (full), goal_cases)
  case 1
  note g = mount_inv_geometry [OF inv]
  let ?h = "m_bitmap m" and ?n = "unat n" and ?s = "unat lba"
  let ?ck = "check_allocated (hb_l0_bits ?h) (map (\<lambda>i. lba + of_nat i) [0..<?n])"
  consider (stay) e' where "r = Inl e'" "m' = m" "n = 0 \<or> lba + ucast n > sb_device_capacity_blocks (m_sb m) \<or> ?ck = Inl e'"
    | (go) u where "n \<noteq> 0" "\<not> lba + ucast n > sb_device_capacity_blocks (m_sb m)" "?ck = Inr u"
    using fr by (cases ?ck) (force simp: nebula_block_free_eq split: if_splits)+
  then show ?case
  proof cases
    case stay
    have "r = Inr ()" if "n \<noteq> 0" "?s + ?n \<le> unat (lay_capacity_blocks L)" "\<forall>i < ?n. bit_get (hb_l0_bits ?h) (?s + i)"
      using free_range_addrs [OF inv that(2)] that stay(3) by auto
    then show ?thesis using stay mount_next_refl [OF inv] by auto
  next
    case go
    have n: "0 < ?n" using go(1) by (simp add: unat_gt_0)
    have rn: "?s + ?n \<le> unat (lay_capacity_blocks L)" using block_free_range [OF inv go] .
    have used: "\<forall>i < ?n. bit_get (hb_l0_bits ?h) (?s + i)"
      using free_range_addrs(2) [OF inv rn] go(3) by (simp split: if_splits)
    have used': "bit_get (hb_l0_bits ?h) j" if "?s \<le> j" "j < ?s + ?n" for j
      using used [rule_format, of "j - ?s"] that by simp
    let ?h1 = "mark_free ?h ?s ?n"
    have "{?s..<?s + ?n} \<inter> hbm_free ?h = {}" using used' by (auto simp: free_blocks_def)
    note mf = mark_free_ok [OF g(7) n rn [folded g(8)] this]
    have rng: "?s \<le> ?s + ?n - 1" "?s + ?n - 1 < 32768 * unat (lay_bitmap_block_count L)"
      using rn n g(6) by linarith+
    obtain q m1 where fl: "flush_dirty_pages (m\<lparr>m_bitmap := ?h1\<rparr>) ?s (?s + ?n - 1) = (q, m1)" by (rule prod.exhaust)
    have undo: "mark_used ?h1 ?s ?n = ?h" using mark_used_free [OF g(7) n used'] rn g(8) by simp
    have eq: "nebula_block_free m lba n
        = (case q of Inl e \<Rightarrow> (Inl e, m1\<lparr>m_bitmap := ?h\<rparr>) | Inr _ \<Rightarrow> (Inr (), m1))"
      using go fl undo by (cases q) (simp_all add: nebula_block_free_eq)
    have res: "m' = (case q of Inl _ \<Rightarrow> m1\<lparr>m_bitmap := ?h\<rparr> | Inr _ \<Rightarrow> m1)"
      "r = (case q of Inl e \<Rightarrow> Inl e | Inr _ \<Rightarrow> Inr ())"
      using trans [OF fr [symmetric] eq] by (auto split: sum.splits)
    note st = bitmap_step [OF inv mf(1,4,5) rng fl res(1)]
    have "bitmap_synced blk L m'" if "q = Inr u'" "bitmap_synced blk L m" for u'
    proof -
      have "?s + ?n \<le> 8 * length (hb_l0_bits ?h)" using rn g(5,6) by simp
      then have same: "bit_get (hb_l0_bits ?h1) i = bit_get (hb_l0_bits ?h) i" if "i < ?s \<or> ?s + ?n - 1 < i" for i
        using that by (auto simp: mf(3) bit_get_clr_bits)
      have "mount_inv ops dinv L (m\<lparr>m_bitmap := ?h1\<rparr>)" using mount_inv_bitmap [OF inv mf(1,4,5)] .
      from flush_synced [OF this rng fl [unfolded that(1)] that(2) _ same] show ?thesis
        using res(1) that(1) by (simp add: mf(3))
    qed
    then show ?thesis using st res rn used go(1) by (cases q) auto
  qed
qed

end

section \<open>Properties\<close>

text \<open>
  Property C27.  A successful allocation is a first fit: the run it returns was free and lies within
  the device, no run of that length starts lower, exactly the bits of the run are marked, the
  summaries stay exact, and the bitmap on disk stays equal to the one in memory.
\<close>

theorem block_alloc_first_fit:
  assumes "mount_inv posix_ops posix_inv L m" and "nebula_block_alloc m n = (Inr lba, m')"
  shows "mount_inv posix_ops posix_inv L m'
    \<and> {unat lba..<unat lba + unat n} \<subseteq> hbm_free (m_bitmap m)
    \<and> (\<forall>s < unat lba. \<not> run_free (hb_l0_bits (m_bitmap m)) s (unat n))
    \<and> hbm_free (m_bitmap m') = hbm_free (m_bitmap m) - {unat lba..<unat lba + unat n}
    \<and> (bitmap_synced posix_blk L m \<longrightarrow> bitmap_synced posix_blk L m')"
proof -
  note c = posix.block_alloc_cases [OF assms]
  note ok = c(4) [OF refl]
  have "0 < unat n" using ok by (simp add: unat_gt_0)
  note mu = mark_used_ok [OF mount_inv_geometry(7) [OF assms(1)] this, of "unat lba"]
  show ?thesis using c(1) ok mu by auto
qed

text \<open>
  Property C28.  A failed allocation is undone in memory: whatever the failure, the in-memory bitmap
  (bits and summaries) is exactly what it was, and no block outside the bitmap region changed.
\<close>

theorem block_alloc_failure_undone:
  assumes "mount_inv posix_ops posix_inv L m" and "nebula_block_alloc m n = (Inl e, m')"
  shows "m_bitmap m' = m_bitmap m \<and> mount_inv posix_ops posix_inv L m'
    \<and> (\<forall>i. i < 131 \<or> 131 + unat (lay_bitmap_block_count L) \<le> i \<longrightarrow>
         posix_blk (io_dev (m_io m')) i = posix_blk (io_dev (m_io m)) i)"
  using posix.block_alloc_cases(1-3) [OF assms] by auto

text \<open>
  Property C29.  The search is complete: on a device whose calls do not fail, an allocation of at least
  one block succeeds exactly when a run of that many free blocks exists, and otherwise reports
  \<open>ENOSPC\<close> with nothing changed.
\<close>

theorem block_alloc_complete:
  assumes "mount_inv posix_ops posix_inv L m" and "posix_healthy (io_dev (m_io m))" and "n \<noteq> 0"
  shows "((\<exists>lba m'. nebula_block_alloc m n = (Inr lba, m'))
      \<longleftrightarrow> (\<exists>s. s + unat n \<le> unat (lay_capacity_blocks L) \<and> run_free (hb_l0_bits (m_bitmap m)) s (unat n)))
    \<and> ((\<nexists>lba m'. nebula_block_alloc m n = (Inr lba, m')) \<longleftrightarrow> nebula_block_alloc m n = (Inl ENOSPC, m))"
proof -
  obtain r m' where al: "nebula_block_alloc m n = (r, m')" by (rule prod.exhaust)
  note c = posix.block_alloc_cases [OF assms(1) al] and g = mount_inv_geometry [OF assms(1)]
  have ok: "\<exists>s. s + unat n \<le> unat (lay_capacity_blocks L) \<and> run_free (hb_l0_bits (m_bitmap m)) s (unat n)"
    if "r = Inr lba" for lba
  proof -
    have sub: "{unat lba..<unat lba + unat n} \<subseteq> hbm_free (m_bitmap m)" using c(4) [OF that] by simp
    have "unat lba + unat n \<le> unat (lay_capacity_blocks L)"
      using run_within [OF _ sub] assms(3) g(8) by (simp add: unat_gt_0)
    moreover have "run_free (hb_l0_bits (m_bitmap m)) (unat lba) (unat n)"
      using sub by (auto simp: run_free_def free_blocks_def)
    ultimately show ?thesis by blast
  qed
  have "(\<exists>lba m'. nebula_block_alloc m n = (Inr lba, m'))
      \<longleftrightarrow> (\<exists>s. s + unat n \<le> unat (lay_capacity_blocks L) \<and> run_free (hb_l0_bits (m_bitmap m)) s (unat n))"
    using c(5) [OF assms(2)] ok al assms(3) by (cases r) auto
  moreover have "(\<nexists>lba m'. nebula_block_alloc m n = (Inr lba, m')) \<longleftrightarrow> nebula_block_alloc m n = (Inl ENOSPC, m)"
    using c(5) [OF assms(2)] al assms(3) by (cases r) auto
  ultimately show ?thesis by blast
qed

text \<open>
  Allocating and then freeing the same run on a device whose calls do not fail succeeds
  and restores the bitmap, bits and summaries, in memory.
\<close>

theorem block_alloc_free_roundtrip:
  assumes "mount_inv posix_ops posix_inv L m" and "posix_healthy (io_dev (m_io m))"
    and "nebula_block_alloc m n = (Inr lba, m1)"
  shows "\<exists>m2. nebula_block_free m1 lba n = (Inr (), m2) \<and> m_bitmap m2 = m_bitmap m
    \<and> (bitmap_synced posix_blk L m \<longrightarrow> bitmap_synced posix_blk L m2)"
proof -
  note c = posix.block_alloc_cases [OF assms(1,3)] and g = mount_inv_geometry [OF assms(1)]
  note ok = c(4) [OF refl]
  have n: "0 < unat n" using ok by (simp add: unat_gt_0)
  have sub: "{unat lba..<unat lba + unat n} \<subseteq> hbm_free (m_bitmap m)" using ok by simp
  have rn: "unat lba + unat n \<le> unat (lay_capacity_blocks L)" using run_within [OF n sub] g(8) by simp
  have free: "run_free (hb_l0_bits (m_bitmap m)) (unat lba) (unat n)"
    using sub by (auto simp: run_free_def free_blocks_def)
  note mu = mark_used_ok [OF g(7) n sub]
  have "unat lba + unat n \<le> 8 * length (hb_l0_bits (m_bitmap m))" using rn g(5,6) by simp
  then have used: "\<forall>i < unat n. bit_get (hb_l0_bits (m_bitmap m1)) (unat lba + i)"
    using ok by (simp add: mu(3) bit_get_set_bits)
  have inv1: "mount_inv posix_ops posix_inv L m1" and up1: "posix.up (m_io m1)"
    using c(1) posix.next_io_up assms(2) by auto
  obtain r m2 where fr: "nebula_block_free m1 lba n = (r, m2)" by (rule prod.exhaust)
  note f = posix.block_free_cases [OF inv1 fr]
  have r: "r = Inr ()" using f(5) [OF up1 _ rn used] ok by simp
  have "mark_free (mark_used (m_bitmap m) (unat lba) (unat n)) (unat lba) (unat n) = m_bitmap m"
    using rn g(8) by (intro mark_free_used [OF g(7) n free]) simp
  then have "m_bitmap m2 = m_bitmap m" using f(4) [OF r] ok by simp
  then show ?thesis using f(4) [OF r] fr r ok by blast
qed

text \<open>
  Freeing is guarded: a range that contains a block that is already free is refused with
  \<open>EINVAL\<close> and one beyond the device with \<open>ERANGE\<close>, and in both cases the mount is unchanged.
\<close>

theorem block_free_rejects:
  assumes "mount_inv posix_ops posix_inv L m" and "n \<noteq> 0" and "unat lba + unat n < 2 ^ 64"
  shows "(unat lba + unat n \<le> unat (lay_capacity_blocks L) \<longrightarrow>
      (\<exists>i < unat n. unat lba + i \<in> hbm_free (m_bitmap m)) \<longrightarrow> nebula_block_free m lba n = (Inl EINVAL, m))
    \<and> (unat (lay_capacity_blocks L) < unat lba + unat n \<longrightarrow> nebula_block_free m lba n = (Inl ERANGE, m))"
proof -
  have "nebula_block_free m lba n = (Inl EINVAL, m)"
    if rn: "unat lba + unat n \<le> unat (lay_capacity_blocks L)" and i: "i < unat n"
      and f: "unat lba + i \<in> hbm_free (m_bitmap m)" for i
  proof -
    have "check_allocated (hb_l0_bits (m_bitmap m)) (map (\<lambda>i. lba + of_nat i) [0..<unat n]) = Inl EINVAL"
      using posix.free_range_addrs(2) [OF assms(1) rn] i f by (auto simp: free_blocks_def)
    then show ?thesis
      using posix.free_range_addrs(1) [OF assms(1) rn] assms(2) by (simp add: nebula_block_free_eq)
  qed
  moreover have "nebula_block_free m lba n = (Inl ERANGE, m)" if "unat (lay_capacity_blocks L) < unat lba + unat n"
  proof -
    have "unat (lba + ucast n) = unat lba + unat n" using assms(3) by (subst unat_plus_if_small) auto
    then show ?thesis
      using that assms(2) by (simp add: nebula_block_free_eq mount_inv_sb [OF assms(1)] word_less_nat_alt)
  qed
  ultimately show ?thesis by blast
qed

text \<open>
  Property C38.  The range check of a free is done in 64-bit arithmetic and can be passed by wrapping
  around: for an address near the end of the 64-bit space it accepts a range far outside the device,
  and the double-free check then reads outside the bitmap.
\<close>

theorem block_free_range_wraps:
  assumes "mount_inv posix_ops posix_inv L m" and "2 ^ 64 \<le> unat lba + unat n"
  shows "\<not> lba + ucast n > sb_device_capacity_blocks (m_sb m) \<longrightarrow> nebula_block_free m lba n = (Inl UNDEFINED, m)"
proof
  note g = mount_inv_geometry [OF assms(1)]
  assume rng: "\<not> lba + ucast n > sb_device_capacity_blocks (m_sb m)"
  have wrap: "18446744073709551616 \<le> unat lba + unat n" using assms(2) by simp
  then have n: "0 < unat n" using unat_u64_less [of lba] by linarith
  have "8 * length (hb_l0_bits (m_bitmap m)) \<le> 140737488355328" using g(3,5) by simp
  then have "8 * length (hb_l0_bits (m_bitmap m)) \<le> unat lba" using wrap unat_u32_less [of n] by linarith
  then have "check_allocated (hb_l0_bits (m_bitmap m)) (map (\<lambda>i. lba + of_nat i) [0..<unat n]) = Inl UNDEFINED"
    using n by (simp add: upt_conv_Cons)
  moreover have "n \<noteq> 0" using n by auto
  ultimately show "nebula_block_free m lba n = (Inl UNDEFINED, m)" using rng by (simp add: nebula_block_free_eq)
qed

section \<open>Concrete instances\<close>

lemma sample_alloc:
  obtains L m lba m' where "mount_inv posix_ops posix_inv L m" "bitmap_synced posix_blk L m"
    "posix_healthy (io_dev (m_io m))" "lay_capacity_blocks L = 65536" "nebula_block_alloc m 1 = (Inr lba, m')"
    "nebula_mount_open_io (image_io 65536 (boot_image L (zeros 16))) = (Inr m, m_io m)"
    "hbm_free (m_bitmap m) = {unat (lay_data_start_lba L)..<unat (lay_alloc_roots_tail_lba L)}"
proof -
  obtain L m where s: "layout_tiles L" "lay_capacity_blocks L = 65536"
    "nebula_mount_open_io (image_io 65536 (boot_image L (zeros 16))) = (Inr m, m_io m)"
    "mount_inv posix_ops posix_inv L m" "bitmap_synced posix_blk L m" "posix_healthy (io_dev (m_io m))"
    "free_blocks (hb_l0_bits (m_bitmap m)) 65536 = {unat (lay_data_start_lba L)..<unat (lay_alloc_roots_tail_lba L)}"
    by (rule sample_mount)
  have F: "hbm_free (m_bitmap m) = {unat (lay_data_start_lba L)..<unat (lay_alloc_roots_tail_lba L)}"
    using s(2,7) mount_inv_geometry(8) [OF s(4)] by simp
  have ds: "unat (lay_data_start_lba L) < unat (lay_alloc_roots_tail_lba L)" "unat (lay_data_start_lba L) + 1 \<le> 65536"
    using s(1,2) by (auto simp: layout_tiles_def)
  have "unat (lay_data_start_lba L) \<in> free_blocks (hb_l0_bits (m_bitmap m)) 65536" using s(7) ds by simp
  then have "run_free (hb_l0_bits (m_bitmap m)) (unat (lay_data_start_lba L)) 1"
    by (auto simp: run_free_def free_blocks_def less_Suc_eq dest: le_antisym)
  moreover obtain r m' where al: "nebula_block_alloc m 1 = (r, m')" by (rule prod.exhaust)
  ultimately obtain lba where "r = Inr lba"
    using posix.block_alloc_cases(5) [OF s(4) al s(6)] s(2) ds by (cases r) auto
  then show ?thesis using that [of L m lba m'] s(2-6) al F by blast
qed

theorem block_alloc_first_fit_witness:
  "\<exists>L m lba m'. nebula_mount_open_io (image_io 65536 (boot_image L (zeros 16))) = (Inr m, m_io m)
     \<and> mount_inv posix_ops posix_inv L m \<and> nebula_block_alloc m 1 = (Inr lba, m')
     \<and> hbm_free (m_bitmap m') = hbm_free (m_bitmap m) - {unat lba..<unat lba + unat (1 :: u32)}"
proof -
  obtain L m lba m' where s: "mount_inv posix_ops posix_inv L m" "nebula_block_alloc m 1 = (Inr lba, m')"
    "nebula_mount_open_io (image_io 65536 (boot_image L (zeros 16))) = (Inr m, m_io m)"
    by (rule sample_alloc)
  then show ?thesis using block_alloc_first_fit [OF s(1,2)] by blast
qed

theorem block_alloc_failure_undone_witness:
  "\<exists>L m e m'. mount_inv posix_ops posix_inv L m \<and> nebula_block_alloc m 70000 = (Inl e, m')
     \<and> m_bitmap m' = m_bitmap m"
proof -
  obtain L m where s: "mount_inv posix_ops posix_inv L m" "lay_capacity_blocks L = 65536"
    by (rule sample_mount)
  obtain r m' where al: "nebula_block_alloc m 70000 = (r, m')" by (rule prod.exhaust)
  have "\<exists>e. r = Inl e"
  proof (cases r)
    case (Inr lba)
    have "{unat lba..<unat lba + unat (70000 :: u32)} \<subseteq> hbm_free (m_bitmap m)"
      using posix.block_alloc_cases(4) [OF s(1) al Inr] by blast
    from run_within [OF _ this] show ?thesis using mount_inv_geometry(8) [OF s(1)] s(2) by simp
  qed simp
  then show ?thesis using block_alloc_failure_undone [OF s(1)] al s(1) by blast
qed

theorem block_alloc_complete_witness:
  "\<exists>L m. mount_inv posix_ops posix_inv L m \<and> posix_healthy (io_dev (m_io m))
     \<and> ((\<exists>lba m'. nebula_block_alloc m 1 = (Inr lba, m'))
      \<longleftrightarrow> (\<exists>s. s + unat (1 :: u32) \<le> unat (lay_capacity_blocks L)
            \<and> run_free (hb_l0_bits (m_bitmap m)) s (unat (1 :: u32))))"
proof -
  obtain L m where s: "mount_inv posix_ops posix_inv L m" "posix_healthy (io_dev (m_io m))"
    by (rule sample_mount)
  then show ?thesis using block_alloc_complete [OF s, of 1] by auto
qed

theorem block_alloc_free_roundtrip_witness:
  "\<exists>L m lba m1 m2. mount_inv posix_ops posix_inv L m \<and> nebula_block_alloc m 1 = (Inr lba, m1)
     \<and> nebula_block_free m1 lba 1 = (Inr (), m2) \<and> m_bitmap m2 = m_bitmap m"
proof -
  obtain L m lba m1 where s: "mount_inv posix_ops posix_inv L m" "posix_healthy (io_dev (m_io m))"
    "nebula_block_alloc m 1 = (Inr lba, m1)"
    by (rule sample_alloc)
  then show ?thesis using block_alloc_free_roundtrip [OF s] by blast
qed

theorem block_free_rejects_witness:
  "\<exists>L m. mount_inv posix_ops posix_inv L m
     \<and> nebula_block_free m (lay_data_start_lba L) 1 = (Inl EINVAL, m)
     \<and> nebula_block_free m 65536 1 = (Inl ERANGE, m)"
proof -
  obtain L m lba m1 where s: "mount_inv posix_ops posix_inv L m" "lay_capacity_blocks L = 65536"
    "hbm_free (m_bitmap m) = {unat (lay_data_start_lba L)..<unat (lay_alloc_roots_tail_lba L)}"
    by (rule sample_alloc)
  have ds: "unat (lay_data_start_lba L) < unat (lay_alloc_roots_tail_lba L)"
    "unat (lay_alloc_roots_tail_lba L) < 65536" "unat (lay_data_start_lba L) + 1 < 2 ^ 64"
    using mount_inv_geometry(11) [OF s(1)] s(2) by (auto simp: layout_tiles_def)
  have "\<exists>i < unat (1 :: u32). unat (lay_data_start_lba L) + i \<in> hbm_free (m_bitmap m)"
    using s(3) ds(1) by (intro exI [of _ 0]) simp
  then have "nebula_block_free m (lay_data_start_lba L) 1 = (Inl EINVAL, m)"
    using block_free_rejects [OF s(1), of 1 "lay_data_start_lba L"] s(2) ds by simp
  moreover have "nebula_block_free m 65536 1 = (Inl ERANGE, m)"
    using block_free_rejects [OF s(1), of 1 65536] s(2) by simp
  ultimately show ?thesis using s(1) by blast
qed

theorem block_free_range_wraps_witness:
  "\<exists>L m. mount_inv posix_ops posix_inv L m \<and> nebula_block_free m (- 1) 1 = (Inl UNDEFINED, m)"
proof -
  obtain L m where s: "mount_inv posix_ops posix_inv L m" by (rule sample_mount)
  have "unat (- 1 :: u64) = 2 ^ 64 - 1" by (simp add: unsigned_minus_1_eq_mask mask_eq_exp_minus_1)
  then have "2 ^ 64 \<le> unat (- 1 :: u64) + unat (1 :: u32)" by simp
  then show ?thesis using block_free_range_wraps [OF s, of "- 1" 1] s by auto
qed

end
