(* ===== verification/Nebula_Slots.thy ===== *)
theory Nebula_Slots
  imports Nebula_Prelude
begin

text \<open>
  The contract that the program's three allocators share: the block allocator, the inode allocator
  and the directory-slot allocator of a root chunk.  A request \<open>q\<close> (a number of blocks; the type, mode
  and time of an inode) is answered by a key that stands for a set of items (a run of blocks; one
  inode), and the client gives items back by key.  The client's guarantee is proved once: under every
  sequence of requests and releases, failing ones included, no item is handed out while it is held.
\<close>

locale slot_allocator =
  fixes wf :: "'s \<Rightarrow> bool" and taken :: "'s \<Rightarrow> 'i set" and items :: "'q \<Rightarrow> 'k \<Rightarrow> 'i set"
    and alloc :: "'q \<Rightarrow> 's \<Rightarrow> 'k res \<times> 's" and release :: "'q \<Rightarrow> 's \<Rightarrow> 'k \<Rightarrow> unit res \<times> 's"
  assumes alloc_ok: "wf s \<Longrightarrow> alloc q s = (Inr k, s') \<Longrightarrow>
      wf s' \<and> items q k \<noteq> {} \<and> items q k \<inter> taken s = {} \<and> taken s' = taken s \<union> items q k"
    and alloc_err: "wf s \<Longrightarrow> alloc q s = (Inl e, s') \<Longrightarrow> wf s' \<and> taken s \<subseteq> taken s'"
    and release_ok: "wf s \<Longrightarrow> release q s k = (Inr u, s') \<Longrightarrow> wf s' \<and> items q k \<subseteq> taken s \<and> taken s' = taken s - items q k"
    and release_err: "wf s \<Longrightarrow> release q s k = (Inl e, s') \<Longrightarrow> wf s' \<and> taken s - items q k \<subseteq> taken s'"

text \<open>
  A client's history: it asks, or gives back the items of any key, its own grants or parts of them.  The
  items held are those granted and not given back since; items whose release failed are no longer held.
\<close>

datatype ('q, 'k) slot_op = Ask 'q | Give 'q 'k

fun slot_run :: "('q \<Rightarrow> 'k \<Rightarrow> 'i set) \<Rightarrow> ('q \<Rightarrow> 's \<Rightarrow> 'k res \<times> 's) \<Rightarrow> ('q \<Rightarrow> 's \<Rightarrow> 'k \<Rightarrow> unit res \<times> 's)
    \<Rightarrow> ('q, 'k) slot_op list \<Rightarrow> 'i set \<Rightarrow> 's \<Rightarrow> 'i set \<times> 's" where
  "slot_run items alloc release [] held s = (held, s)"
| "slot_run items alloc release (Ask q # ops) held s =
     (case alloc q s of
        (Inr k, s') \<Rightarrow> slot_run items alloc release ops (held \<union> items q k) s'
      | (Inl _, s') \<Rightarrow> slot_run items alloc release ops held s')"
| "slot_run items alloc release (Give q k # ops) held s =
     slot_run items alloc release ops (held - items q k) (snd (release q s k))"

context slot_allocator
begin

lemma release_any:
  assumes "wf s"
  shows "wf (snd (release q s k)) \<and> taken s - items q k \<subseteq> taken (snd (release q s k))"
proof (cases "release q s k")
  case (Pair r s')
  then show ?thesis using release_ok [OF assms] release_err [OF assms] by (cases r) auto
qed

lemma run_held:
  assumes "wf s" and "held \<subseteq> taken s" and "slot_run items alloc release ops held s = (held', s')"
  shows "wf s' \<and> held' \<subseteq> taken s'"
  using assms
proof (induction ops arbitrary: held s)
  case Nil
  then show ?case by simp
next
  case (Cons op ops)
  show ?case
  proof (cases op)
    case (Ask q)
    obtain r s1 where a: "alloc q s = (r, s1)" by (rule prod.exhaust)
    show ?thesis
    proof (cases r)
      case (Inl e)
      have "wf s1" "held \<subseteq> taken s1" using alloc_err [OF Cons.prems(1) a [unfolded Inl]] Cons.prems(2) by auto
      then show ?thesis using Cons.IH [of s1 held] Cons.prems(3) Ask a Inl by simp
    next
      case (Inr k)
      have "wf s1" "held \<union> items q k \<subseteq> taken s1" using alloc_ok [OF Cons.prems(1) a [unfolded Inr]] Cons.prems(2) by auto
      then show ?thesis using Cons.IH [of s1 "held \<union> items q k"] Cons.prems(3) Ask a Inr by simp
    qed
  next
    case (Give q k)
    have "wf (snd (release q s k))" "held - items q k \<subseteq> taken (snd (release q s k))"
      using release_any [OF Cons.prems(1), of q k] Cons.prems(2) by auto
    then show ?thesis using Cons.IH [of "snd (release q s k)" "held - items q k"] Cons.prems(3) Give by simp
  qed
qed

text \<open>Nothing that is held is handed out again.\<close>

lemma ask_fresh:
  assumes "wf s" and "slot_run items alloc release ops {} s = (held, s')" and "alloc q s' = (Inr k, s'')"
  shows "items q k \<inter> held = {}" and "items q k \<noteq> {}"
  using run_held [OF assms(1) _ assms(2)] alloc_ok [OF _ assms(3)] by auto

end

end
