(* ===== verification/Nebula_Mount_Io.thy ===== *)
theory Nebula_Mount_Io
  imports Nebula_Block_Alloc Nebula_Slots
begin

text \<open>
  Block transfers on a mount, as the inode, directory and file layers issue them
  (\<open>nebula_io_read(m->io, ...)\<close>): the handle is a field of the mount.  Also the block allocator as an
  instance of the slot-allocator contract.
\<close>

definition mount_read :: "'d nebula_mount \<Rightarrow> u64 \<Rightarrow> u32 \<Rightarrow> byte list res \<times> 'd nebula_mount" where
  "mount_read m lba n = (case nebula_io_read (m_io m) lba n of (r, io') \<Rightarrow> (r, m\<lparr>m_io := io'\<rparr>))"

definition mount_write :: "'d nebula_mount \<Rightarrow> u64 \<Rightarrow> u32 \<Rightarrow> byte list \<Rightarrow> unit res \<times> 'd nebula_mount" where
  "mount_write m lba n buf = (case nebula_io_write (m_io m) lba n buf of (r, io') \<Rightarrow> (r, m\<lparr>m_io := io'\<rparr>))"

context block_backend
begin

abbreviation mdisk :: "'d nebula_mount \<Rightarrow> nat \<Rightarrow> byte list" where "mdisk m \<equiv> disk (m_io m)"
abbreviation mup :: "'d nebula_mount \<Rightarrow> bool" where "mup m \<equiv> up (m_io m)"
abbreviation mcap :: "'d nebula_mount \<Rightarrow> nat" where "mcap m \<equiv> ncap (m_io m)"

lemma mount_inv_okio: "mount_inv ops dinv L m \<Longrightarrow> okio (m_io m)"
  by (rule mount_inv_geometry(12))

lemma mount_next_inv: "mount_next L m m' \<Longrightarrow> mount_inv ops dinv L m'"
  by simp

lemma mount_next_up: "mount_next L m m' \<Longrightarrow> mup m \<Longrightarrow> mup m'"
  using next_io_up by blast

lemma mount_next_cap: "mount_next L m m' \<Longrightarrow> mcap m' = mcap m"
  using next_io_cap by auto

lemma mount_next_sb: "mount_next L m m' \<Longrightarrow> m_sb m' = m_sb m"
  by (simp add: same_meta_def)

lemma mount_set_io:
  assumes "mount_inv ops dinv L m" and "next_io (m_io m) io'"
  shows "mount_next L m (m\<lparr>m_io := io'\<rparr>)"
  using mount_inv_io [OF assms] assms(2) by (simp add: same_meta_def)

lemma mount_read_frame:
  assumes "mount_inv ops dinv L m" and "mount_read m lba n = (r, m')"
  shows "mount_next L m m'" and "m_bitmap m' = m_bitmap m" and "mdisk m' = mdisk m"
proof -
  obtain io' where rd: "nebula_io_read (m_io m) lba n = (r, io')" and m': "m' = m\<lparr>m_io := io'\<rparr>"
    using assms(2) by (auto simp: mount_read_def split: prod.splits)
  note f = io_read_frame [OF mount_inv_okio [OF assms(1)] rd]
  show "mount_next L m m'" unfolding m' by (rule mount_set_io [OF assms(1) f(1)])
  show "m_bitmap m' = m_bitmap m" "mdisk m' = mdisk m" using f by (simp_all add: m')
qed

lemma mount_read1_ok:
  assumes "mount_inv ops dinv L m" and "mount_read m lba 1 = (Inr bs, m')"
  shows "unat lba < mcap m" and "bs = mdisk m (unat lba)"
  using io_read1_ok [OF mount_inv_okio [OF assms(1)]] assms(2) by (auto simp: mount_read_def split: prod.splits)

lemma mount_read1_up:
  assumes "mount_inv ops dinv L m" and "mup m" and "unat lba < mcap m" and "mount_read m lba 1 = (r, m')"
  shows "r = Inr (mdisk m (unat lba))"
proof -
  obtain bs io' where rd: "nebula_io_read (m_io m) lba 1 = (Inr bs, io')"
    using io_read_succeeds [of "m_io m" lba 1] mount_inv_okio [OF assms(1)] assms(2,3) by auto
  then show ?thesis using io_read1_ok(2) [OF mount_inv_okio [OF assms(1)] rd] assms(4)
    by (simp add: mount_read_def)
qed

lemma mount_write_frame:
  assumes "mount_inv ops dinv L m" and "mount_write m lba n buf = (r, m')"
  shows "mount_next L m m'" and "m_bitmap m' = m_bitmap m"
    and "i < unat lba \<or> unat lba + unat n \<le> i \<Longrightarrow> mdisk m' i = mdisk m i"
proof -
  obtain io' where wr: "nebula_io_write (m_io m) lba n buf = (r, io')" and m': "m' = m\<lparr>m_io := io'\<rparr>"
    using assms(2) by (auto simp: mount_write_def split: prod.splits)
  note f = io_write_frame [OF mount_inv_okio [OF assms(1)] wr]
  show "mount_next L m m'" unfolding m' by (rule mount_set_io [OF assms(1) f(1)])
  show "m_bitmap m' = m_bitmap m" by (simp add: m')
  show "i < unat lba \<or> unat lba + unat n \<le> i \<Longrightarrow> mdisk m' i = mdisk m i" using f(2) by (simp add: m')
qed

lemma mount_write1:
  assumes "mount_inv ops dinv L m" and "mount_write m lba 1 buf = (r, m')"
  shows "mount_next L m m'" and "m_bitmap m' = m_bitmap m" and "i \<noteq> unat lba \<Longrightarrow> mdisk m' i = mdisk m i"
    and "r = Inr u \<Longrightarrow> length buf = 4096 \<Longrightarrow> mdisk m' = (mdisk m)(unat lba := buf)"
    and "mup m \<Longrightarrow> unat lba < mcap m \<Longrightarrow> r = Inr ()"
proof -
  obtain io' where wr: "nebula_io_write (m_io m) lba 1 buf = (r, io')" and m': "m' = m\<lparr>m_io := io'\<rparr>"
    using assms(2) by (auto simp: mount_write_def split: prod.splits)
  note ok = mount_inv_okio [OF assms(1)]
  show "mount_next L m m'" "m_bitmap m' = m_bitmap m" using mount_write_frame [OF assms] by auto
  show "i \<noteq> unat lba \<Longrightarrow> mdisk m' i = mdisk m i" using io_write1_other [OF ok wr] by (simp add: m')
  show "r = Inr u \<Longrightarrow> length buf = 4096 \<Longrightarrow> mdisk m' = (mdisk m)(unat lba := buf)"
    using io_write1_ok(2) [OF ok _ , of lba buf u io'] wr by (simp add: m')
  show "mup m \<Longrightarrow> unat lba < mcap m \<Longrightarrow> r = Inr ()" using io_write_up [OF ok _ _ wr] by simp
qed

text \<open>A write outside the bitmap region keeps the bitmap on disk in step with memory.\<close>

lemma mount_write1_synced:
  assumes "mount_inv ops dinv L m" and "mount_write m lba 1 buf = (r, m')" and "bitmap_synced blk L m"
    and "131 + unat (lay_bitmap_block_count L) \<le> unat lba"
  shows "bitmap_synced blk L m'"
proof -
  note w = mount_write1 [OF assms(1,2)]
  have "mdisk m' i = mdisk m i" if "i < 131 + unat (lay_bitmap_block_count L)" for i
    using w(3) [of i] that assms(4) by simp
  moreover have "unat (lay_bitmap_lba L) = 131" using mount_inv_geometry(1) [OF assms(1)] .
  ultimately have "bitmap_region (mdisk m') L = bitmap_region (mdisk m) L"
    unfolding bitmap_region_def by (auto intro!: arg_cong [where f = concat])
  then show ?thesis using assms(3) w(2) by (simp add: bitmap_synced_def)
qed

end

section \<open>The block allocator as a slot allocator\<close>

definition blocks_taken :: "'d nebula_mount \<Rightarrow> nat set" where
  "blocks_taken m = {b. b < unat (hb_total_blocks (m_bitmap m)) \<and> b \<notin> hbm_free (m_bitmap m)}"

definition block_run :: "u32 \<Rightarrow> u64 \<Rightarrow> nat set" where
  "block_run n lba = {unat lba..<unat lba + unat n}"

abbreviation alloc_blocks :: "u32 \<Rightarrow> 'd nebula_mount \<Rightarrow> u64 res \<times> 'd nebula_mount" where
  "alloc_blocks n m \<equiv> nebula_block_alloc m n"

abbreviation free_blocks_of :: "u32 \<Rightarrow> 'd nebula_mount \<Rightarrow> u64 \<Rightarrow> unit res \<times> 'd nebula_mount" where
  "free_blocks_of n m lba \<equiv> nebula_block_free m lba n"

interpretation blocks: slot_allocator "mount_inv posix_ops posix_inv L" blocks_taken block_run alloc_blocks free_blocks_of for L
proof unfold_locales
  fix n s s' k assume inv: "mount_inv posix_ops posix_inv L s" and a: "alloc_blocks n s = (Inr k, s')"
  note c = posix.block_alloc_cases [OF inv a] and g = mount_inv_geometry [OF inv]
  have ok: "n \<noteq> 0" "block_run n k \<subseteq> hbm_free (m_bitmap s)" "m_bitmap s' = mark_used (m_bitmap s) (unat k) (unat n)"
    using c(4) [OF refl] by (auto simp: block_run_def)
  have n: "0 < unat n" using ok(1) by (simp add: unat_gt_0)
  note mu = mark_used_ok [OF g(7) n ok(2) [unfolded block_run_def]]
  have F: "hbm_free (m_bitmap s') = hbm_free (m_bitmap s) - block_run n k" "hb_total_blocks (m_bitmap s') = hb_total_blocks (m_bitmap s)"
    using mu(2,4) unfolding ok(3) by (auto simp: block_run_def)
  have "block_run n k \<subseteq> {..<unat (hb_total_blocks (m_bitmap s))}" using run_within [OF n ok(2) [unfolded block_run_def]] by (auto simp: block_run_def)
  moreover have "block_run n k \<noteq> {}" using n by (simp add: block_run_def)
  ultimately have "block_run n k \<noteq> {} \<and> block_run n k \<inter> blocks_taken s = {} \<and> blocks_taken s' = blocks_taken s \<union> block_run n k"
    unfolding blocks_taken_def F(1) unfolding F(2) using ok(2) by auto
  then show "mount_inv posix_ops posix_inv L s' \<and> block_run n k \<noteq> {} \<and> block_run n k \<inter> blocks_taken s = {}
      \<and> blocks_taken s' = blocks_taken s \<union> block_run n k" using c(1) by simp
next
  fix n s s' e assume inv: "mount_inv posix_ops posix_inv L s" and a: "alloc_blocks n s = (Inl e, s')"
  show "mount_inv posix_ops posix_inv L s' \<and> blocks_taken s \<subseteq> blocks_taken s'"
    using posix.block_alloc_cases(1,3) [OF inv a] by (simp add: blocks_taken_def)
next
  fix n s s' u k assume inv: "mount_inv posix_ops posix_inv L s" and f: "free_blocks_of n s k = (Inr u, s')"
  note c = posix.block_free_cases [OF inv f] and g = mount_inv_geometry [OF inv]
  have ok: "n \<noteq> 0" "unat k + unat n \<le> unat (hb_total_blocks (m_bitmap s))" "\<forall>i < unat n. bit_get (hb_l0_bits (m_bitmap s)) (unat k + i)"
    "m_bitmap s' = mark_free (m_bitmap s) (unat k) (unat n)" using c(4) [OF refl] g(8) by auto
  have n: "0 < unat n" using ok(1) by (simp add: unat_gt_0)
  have used: "block_run n k \<inter> hbm_free (m_bitmap s) = {}"
  proof (intro equals0I, elim IntE)
    fix b assume "b \<in> block_run n k" "b \<in> hbm_free (m_bitmap s)"
    then have "b - unat k < unat n" "unat k + (b - unat k) = b" "\<not> bit_get (hb_l0_bits (m_bitmap s)) b"
      by (auto simp: block_run_def free_blocks_def)
    then show False using ok(3) by metis
  qed
  note mf = mark_free_ok [OF g(7) n ok(2) used [unfolded block_run_def]]
  have F: "hbm_free (m_bitmap s') = hbm_free (m_bitmap s) \<union> block_run n k" "hb_total_blocks (m_bitmap s') = hb_total_blocks (m_bitmap s)"
    using mf(2,4) unfolding ok(4) by (auto simp: block_run_def)
  have "block_run n k \<subseteq> blocks_taken s \<and> blocks_taken s' = blocks_taken s - block_run n k"
    unfolding blocks_taken_def F(1) unfolding F(2) using used ok(2) by (auto simp: block_run_def)
  then show "mount_inv posix_ops posix_inv L s' \<and> block_run n k \<subseteq> blocks_taken s \<and> blocks_taken s' = blocks_taken s - block_run n k"
    using c(1) by simp
next
  fix n s s' e k assume inv: "mount_inv posix_ops posix_inv L s" and f: "free_blocks_of n s k = (Inl e, s')"
  show "mount_inv posix_ops posix_inv L s' \<and> blocks_taken s - block_run n k \<subseteq> blocks_taken s'"
    using posix.block_free_cases(1,3) [OF inv f] by (auto simp: blocks_taken_def)
qed

section \<open>Property\<close>

text \<open>
  Property C26.  Exclusive ownership of blocks: on a mounted device, whatever I/O errors occur, after any
  sequence of allocations of any lengths and frees of any ranges, the blocks held (granted and not
  given back since) are marked in the bitmap, and the next allocation, of any length, hands out a run
  that contains none of them.
\<close>

theorem blocks_no_double_allocation:
  assumes "mount_inv posix_ops posix_inv L m"
    and "slot_run block_run alloc_blocks free_blocks_of ops {} m = (held, m')"
  shows "held \<subseteq> blocks_taken m'
    \<and> (\<forall>n lba m''. nebula_block_alloc m' n = (Inr lba, m'') \<longrightarrow> n \<noteq> 0 \<and> {unat lba..<unat lba + unat n} \<inter> held = {})"
proof (intro conjI allI impI)
  show "held \<subseteq> blocks_taken m'" using blocks.run_held [OF assms(1) _ assms(2)] by simp
  fix n lba m'' assume a: "nebula_block_alloc m' n = (Inr lba, m'')"
  note f = blocks.ask_fresh [OF assms a]
  show "n \<noteq> 0" using f(2) by (auto simp: block_run_def)
  show "{unat lba..<unat lba + unat n} \<inter> held = {}" using f(1) by (simp add: block_run_def)
qed

theorem blocks_no_double_allocation_witness:
  "\<exists>L m held m'. mount_inv posix_ops posix_inv L m
     \<and> slot_run block_run alloc_blocks free_blocks_of [Ask 5, Ask 7, Give 2 40, Ask 3] {} m = (held, m') \<and> held \<subseteq> blocks_taken m'"
proof -
  obtain L m where m: "mount_inv posix_ops posix_inv L m" by (rule sample_mount)
  obtain held m' where r: "slot_run block_run alloc_blocks free_blocks_of [Ask 5, Ask 7, Give 2 40, Ask 3] {} m = (held, m')"
    by (rule prod.exhaust)
  show ?thesis using blocks_no_double_allocation [OF m r] m r by blast
qed

end
