(* ===== verification/Nebula_Inode.thy ===== *)
theory Nebula_Inode
  imports Nebula_Mount_Io
begin

unbundle bit_operations_syntax

text \<open>
  \<open>src/nebula/nebula_inode_init.c\<close> (the inode half) and \<open>src/nebula/nebula_inode_alloc.c\<close>: the inode
  table, one inode per block of the inode region, a free slot being one of type 0.  The readings of
  \<open>now_ns()\<close> are arguments.
\<close>

section \<open>The code\<close>

definition nebula_inode_checksum :: "nebula_inode \<Rightarrow> u32" where
  "nebula_inode_checksum i = crc32c (enc_ino (i\<lparr>ino_checksum := 0\<rparr>))"

text \<open>The initialised inode that format and allocation both build on a zeroed block.\<close>

definition inode_new :: "u64 \<Rightarrow> u32 \<Rightarrow> u32 \<Rightarrow> u64 \<Rightarrow> nebula_inode" where
  "inode_new num type mode t =
     (let i = \<lparr>ino_magic = ucast (NEBULA_MAGIC_INODE AND 0xFFFFFFFF),
               ino_version = 1,
               ino_inode_num = num,
               ino_type = type,
               ino_mode = mode,
               ino_size_bytes = 0,
               ino_alloc_size_bytes = 0,
               ino_atime_ns = t, ino_mtime_ns = t, ino_ctime_ns = t,
               ino_nlink = 1,
               ino_flags = 0,
               ino_checksum = 0,
               ino_attr_reserved = zeros 52,
               ino_extents = replicate NEBULA_EXTENTS_PER_INODE \<lparr>em_offset = 0, em_size_and_flags = 0, em_lba = 0\<rparr>\<rparr>
      in i\<lparr>ino_checksum := nebula_inode_checksum i\<rparr>)"

definition nebula_inode_page_init :: "'d nebula_io \<Rightarrow> nebula_layout \<Rightarrow> u64 \<Rightarrow> unit res \<times> 'd nebula_io" where
  "nebula_inode_page_init io L t =
     (case zero_region io (lay_inode_page_lba L) (unat (lay_inode_page_block_count L)) of
        (Inl e, io') \<Rightarrow> (Inl e, io')
      | (Inr _, io') \<Rightarrow>
          nebula_io_write io' (lay_inode_page_lba L) 1
            (enc_ino (inode_new NEBULA_ROOT_INODE_NUM NEBULA_INODE_TYPE_DIR 0x1ED t)))"

definition inode_lba :: "'d nebula_mount \<Rightarrow> u64 \<Rightarrow> u64" where
  "inode_lba m inode_num = sb_inode_page_lba (m_sb m) + inode_num"

definition inode_validate :: "byte list \<Rightarrow> nebula_inode res" where
  "inode_validate block =
     (let buf = dec_ino block in
      if ino_type buf \<noteq> NEBULA_INODE_TYPE_FREE \<and> ino_checksum buf \<noteq> nebula_inode_checksum buf then Inl EIO
      else Inr buf)"

definition nebula_inode_read :: "'d nebula_mount \<Rightarrow> u64 \<Rightarrow> nebula_inode res \<times> 'd nebula_mount" where
  "nebula_inode_read m inode_num =
     (if inode_num \<ge> sb_inode_page_block_count (m_sb m) then (Inl EINVAL, m)
      else case mount_read m (inode_lba m inode_num) 1 of
             (Inl e, m') \<Rightarrow> (Inl e, m')
           | (Inr buf, m') \<Rightarrow> (inode_validate buf, m'))"

text \<open>The write stores the checksum back into the caller's structure, on failure too.\<close>

definition nebula_inode_write ::
    "'d nebula_mount \<Rightarrow> nebula_inode \<Rightarrow> unit res \<times> nebula_inode \<times> 'd nebula_mount" where
  "nebula_inode_write m i =
     (if ino_inode_num i \<ge> sb_inode_page_block_count (m_sb m) then (Inl EINVAL, i, m)
      else
        let i' = i\<lparr>ino_checksum := nebula_inode_checksum i\<rparr> in
        case mount_write m (inode_lba m (ino_inode_num i)) 1 (enc_ino i') of
          (r, m') \<Rightarrow> (r, i', m'))"

function inode_alloc_loop ::
    "'d nebula_mount \<Rightarrow> u32 \<Rightarrow> u32 \<Rightarrow> u64 \<Rightarrow> nat \<Rightarrow> nat \<Rightarrow> u64 res \<times> 'd nebula_mount" where
  "inode_alloc_loop m type mode t n tot =
     (if n < tot then
        case mount_read m (inode_lba m (of_nat n)) 1 of
          (Inl e, m') \<Rightarrow> (Inl e, m')
        | (Inr buf, m') \<Rightarrow>
            if ino_type (dec_ino buf) \<noteq> NEBULA_INODE_TYPE_FREE
            then inode_alloc_loop m' type mode t (n + 1) tot
            else
              (case mount_write m' (inode_lba m' (of_nat n)) 1 (enc_ino (inode_new (of_nat n) type mode t)) of
                 (Inl e, m'') \<Rightarrow> (Inl e, m'')
               | (Inr _, m'') \<Rightarrow> (Inr (of_nat n), m''))
      else (Inl ENOSPC, m))"
  by pat_completeness auto
termination
  by (relation "measure (\<lambda>(m, type, mode, t, n, tot). tot - n)") auto

declare inode_alloc_loop.simps [simp del]

definition nebula_inode_alloc ::
    "'d nebula_mount \<Rightarrow> u32 \<Rightarrow> u32 \<Rightarrow> u64 \<Rightarrow> u64 res \<times> 'd nebula_mount" where
  "nebula_inode_alloc m type mode t =
     (if type \<noteq> NEBULA_INODE_TYPE_FILE \<and> type \<noteq> NEBULA_INODE_TYPE_DIR then (Inl EINVAL, m)
      else inode_alloc_loop m type mode t 1 (unat (sb_inode_page_block_count (m_sb m))))"

definition nebula_inode_free :: "'d nebula_mount \<Rightarrow> u64 \<Rightarrow> unit res \<times> 'd nebula_mount" where
  "nebula_inode_free m inode_num =
     (if inode_num = NEBULA_ROOT_INODE_NUM then (Inl EINVAL, m)
      else if inode_num \<ge> sb_inode_page_block_count (m_sb m) then (Inl EINVAL, m)
      else case mount_read m (inode_lba m inode_num) 1 of
             (Inl e, m') \<Rightarrow> (Inl e, m')
           | (Inr buf, m') \<Rightarrow>
               if ino_type (dec_ino buf) = NEBULA_INODE_TYPE_FREE then (Inl EINVAL, m')
               else mount_write m' (inode_lba m' inode_num) 1 (zeros NEBULA_BLOCK_SIZE))"

section \<open>Inodes and blocks\<close>

lemma inode_new_wf: "wf_ino (inode_new n ty mo t)"
  by (simp add: inode_new_def wf_ino_def Let_def)

lemma inode_new_fields [simp]:
  "ino_inode_num (inode_new n ty mo t) = n" "ino_type (inode_new n ty mo t) = ty"
  "ino_size_bytes (inode_new n ty mo t) = 0" "ino_mode (inode_new n ty mo t) = mo"
  "ino_alloc_size_bytes (inode_new n ty mo t) = 0"
  "ino_extents (inode_new n ty mo t) = replicate 248 \<lparr>em_offset = 0, em_size_and_flags = 0, em_lba = 0\<rparr>"
  by (simp_all add: inode_new_def Let_def)

lemma inode_new_sealed: "ino_checksum (inode_new n ty mo t) = nebula_inode_checksum (inode_new n ty mo t)"
  by (simp add: inode_new_def Let_def nebula_inode_checksum_def)

definition inode_sealed :: "nebula_inode \<Rightarrow> bool" where
  "inode_sealed i \<longleftrightarrow> wf_ino i \<and> ino_checksum i = nebula_inode_checksum i"

lemma inode_seal: "wf_ino i \<Longrightarrow> inode_sealed (i\<lparr>ino_checksum := nebula_inode_checksum i\<rparr>)"
  by (simp add: inode_sealed_def wf_ino_def nebula_inode_checksum_def)

lemma inode_new_is_sealed: "inode_sealed (inode_new n ty mo t)"
  by (simp add: inode_sealed_def inode_new_wf inode_new_sealed)

lemma inode_validate_sealed: "inode_sealed i \<Longrightarrow> inode_validate (enc_ino i) = Inr i"
  by (simp add: inode_validate_def inode_sealed_def ino.dec_enc)

lemma inode_sealed_length: "inode_sealed i \<Longrightarrow> length (enc_ino i) = 4096"
  by (simp add: inode_sealed_def ino.enc_length)

lemma dec_ino_zeros [simp]: "ino_type (dec_ino (zeros 4096)) = NEBULA_INODE_TYPE_FREE"
  by (simp add: dec_ino_def u32_at_def seg_replicate NEBULA_INODE_TYPE_FREE_def)

text \<open>The inode table of a device: slot \<open>n\<close> is block \<open>n\<close> of the inode region.\<close>

definition inode_at :: "(nat \<Rightarrow> byte list) \<Rightarrow> nebula_layout \<Rightarrow> nat \<Rightarrow> nebula_inode" where
  "inode_at dsk L n = dec_ino (dsk (unat (lay_inode_page_lba L) + n))"

abbreviation inode_addr :: "nebula_layout \<Rightarrow> nat \<Rightarrow> nat" where
  "inode_addr L k \<equiv> unat (lay_inode_page_lba L) + k"

abbreviation inode_count :: "nebula_layout \<Rightarrow> nat" where
  "inode_count L \<equiv> unat (lay_inode_page_block_count L)"

lemma inode_region:
  assumes "mount_inv ops dinv L m"
  shows "131 + unat (lay_bitmap_block_count L) \<le> unat (lay_inode_page_lba L)"
    and "unat (lay_inode_page_lba L) + inode_count L \<le> unat (lay_dir_page_lba L)"
    and "unat (lay_inode_page_lba L) + inode_count L < unat (io_capacity_blocks (m_io m))"
    and "8192 \<le> inode_count L" and "inode_count L \<le> 32768"
  using mount_inv_geometry(10,11) [OF assms] by (auto simp: layout_tiles_def)

lemma unat_inode_lba:
  assumes "mount_inv ops dinv L m" and "unat n < inode_count L"
  shows "unat (inode_lba m n) = unat (lay_inode_page_lba L) + unat n"
  using assms(2) inode_region(3) [OF assms(1)] mount_inv_geometry(9) [OF assms(1)]
  unfolding inode_lba_def mount_inv_sb [OF assms(1)] by (subst unat_plus_if_small) auto

lemma inode_num_in_range:
  "mount_inv ops dinv L m \<Longrightarrow> n \<ge> sb_inode_page_block_count (m_sb m) \<longleftrightarrow> \<not> unat n < inode_count L"
  by (simp add: mount_inv_sb word_le_nat_alt not_less)

context block_backend
begin

lemma inode_read_frame:
  assumes "mount_inv ops dinv L m" and "nebula_inode_read m n = (r, m')"
  shows "mount_next L m m'" and "m_bitmap m' = m_bitmap m" and "mdisk m' = mdisk m"
proof -
  have "m' = m \<or> (\<exists>q. mount_read m (inode_lba m n) 1 = (q, m'))"
    using assms(2) by (auto simp: nebula_inode_read_def split: if_splits prod.splits sum.splits)
  then show "mount_next L m m'" "m_bitmap m' = m_bitmap m" "mdisk m' = mdisk m"
    using mount_read_frame [OF assms(1)] mount_next_refl [OF assms(1)] by auto
qed

lemma inode_read_ok:
  assumes "mount_inv ops dinv L m" and "nebula_inode_read m n = (Inr i, m')"
  shows "unat n < inode_count L" and "i = inode_at (mdisk m) L (unat n)"
    and "wf_ino i" and "ino_type i \<noteq> NEBULA_INODE_TYPE_FREE \<Longrightarrow> inode_sealed i"
proof -
  have n: "\<not> n \<ge> sb_inode_page_block_count (m_sb m)"
    using assms(2) by (auto simp: nebula_inode_read_def)
  then show r: "unat n < inode_count L" using inode_num_in_range [OF assms(1)] by simp
  obtain bs where rd: "mount_read m (inode_lba m n) 1 = (Inr bs, m')" and v: "inode_validate bs = Inr i"
    using assms(2) n by (auto simp: nebula_inode_read_def split: prod.splits sum.splits)
  have bs: "bs = mdisk m (unat (lay_inode_page_lba L) + unat n)"
    using mount_read1_ok(2) [OF assms(1) rd] unat_inode_lba [OF assms(1) r] by simp
  have i: "i = dec_ino bs" "ino_type i \<noteq> NEBULA_INODE_TYPE_FREE \<longrightarrow> ino_checksum i = nebula_inode_checksum i"
    using v by (auto simp: inode_validate_def Let_def split: if_splits)
  show "i = inode_at (mdisk m) L (unat n)" using i bs by (simp add: inode_at_def)
  show wf: "wf_ino i" unfolding i(1) by (rule ino.dec_wf) (simp add: bs blk_length)
  then show "ino_type i \<noteq> NEBULA_INODE_TYPE_FREE \<Longrightarrow> inode_sealed i" using i(2) by (simp add: inode_sealed_def)
qed

lemma inode_read_up:
  assumes "mount_inv ops dinv L m" and "mup m" and "unat n < inode_count L" and "nebula_inode_read m n = (r, m')"
  shows "r = inode_validate (mdisk m (unat (lay_inode_page_lba L) + unat n))"
proof -
  obtain q m1 where rd: "mount_read m (inode_lba m n) 1 = (q, m1)" by (rule prod.exhaust)
  have "unat (inode_lba m n) < mcap m"
    using unat_inode_lba [OF assms(1,3)] inode_region(3) [OF assms(1)] assms(3) by simp
  from mount_read1_up [OF assms(1,2) this rd]
  show ?thesis using assms(3,4) rd inode_num_in_range [OF assms(1)] unat_inode_lba [OF assms(1,3)]
    by (simp add: nebula_inode_read_def)
qed

text \<open>A write to one inode slot.\<close>

lemma inode_slot_write:
  assumes "mount_inv ops dinv L m" and "unat n < inode_count L"
    and "mount_write m (inode_lba m n) 1 buf = (r, m')" and "length buf = 4096"
  shows "mount_next L m m'" and "m_bitmap m' = m_bitmap m"
    and "i \<noteq> unat (lay_inode_page_lba L) + unat n \<Longrightarrow> mdisk m' i = mdisk m i"
    and "r = Inr u \<Longrightarrow> mdisk m' = (mdisk m)(unat (lay_inode_page_lba L) + unat n := buf)"
    and "mup m \<Longrightarrow> r = Inr ()" and "bitmap_synced blk L m \<Longrightarrow> bitmap_synced blk L m'"
proof -
  note a = unat_inode_lba [OF assms(1,2)] and reg = inode_region [OF assms(1)]
  note w = mount_write1 [OF assms(1,3)]
  show "mount_next L m m'" "m_bitmap m' = m_bitmap m" using w by auto
  show "i \<noteq> unat (lay_inode_page_lba L) + unat n \<Longrightarrow> mdisk m' i = mdisk m i" using w(3) a by simp
  show "r = Inr u \<Longrightarrow> mdisk m' = (mdisk m)(unat (lay_inode_page_lba L) + unat n := buf)"
    using w(4) assms(4) a by simp
  show "mup m \<Longrightarrow> r = Inr ()" using w(5) a reg(3) assms(2) by simp
  show "bitmap_synced blk L m \<Longrightarrow> bitmap_synced blk L m'"
    using mount_write1_synced [OF assms(1,3)] a reg(1) by simp
qed

lemma inode_write_cases:
  assumes "mount_inv ops dinv L m" and "wf_ino i" and "nebula_inode_write m i = (r, i', m')"
  defines "a \<equiv> unat (lay_inode_page_lba L) + unat (ino_inode_num i)"
  shows "mount_next L m m'" and "m_bitmap m' = m_bitmap m" and "k \<noteq> a \<Longrightarrow> mdisk m' k = mdisk m k"
    and "r = Inr u \<Longrightarrow> unat (ino_inode_num i) < inode_count L \<and> inode_sealed i'
           \<and> i' = i\<lparr>ino_checksum := nebula_inode_checksum i\<rparr> \<and> mdisk m' = (mdisk m)(a := enc_ino i')"
    and "mup m \<Longrightarrow> unat (ino_inode_num i) < inode_count L \<Longrightarrow> r = Inr ()"
    and "bitmap_synced blk L m \<Longrightarrow> bitmap_synced blk L m'"
proof (atomize (full), goal_cases)
  case 1
  show ?case
  proof (cases "unat (ino_inode_num i) < inode_count L")
    case False
    then show ?thesis
      using assms(3) mount_next_refl [OF assms(1)] inode_num_in_range [OF assms(1), of "ino_inode_num i"]
      by (auto simp: nebula_inode_write_def)
  next
    case True
    let ?i = "i\<lparr>ino_checksum := nebula_inode_checksum i\<rparr>"
    have w: "mount_write m (inode_lba m (ino_inode_num i)) 1 (enc_ino ?i) = (r, m')" and i': "i' = ?i"
      using assms(3) True inode_num_in_range [OF assms(1), of "ino_inode_num i"]
      by (auto simp: nebula_inode_write_def Let_def split: prod.splits)
    have s: "inode_sealed ?i" using inode_seal [OF assms(2)] .
    note sw = inode_slot_write [OF assms(1) True w inode_sealed_length [OF s], folded a_def]
    show ?thesis using sw True s i' by auto
  qed
qed

text \<open>The allocation scan.  \<open>inode_free_at\<close> says that slot \<open>k\<close> of the table is free.\<close>

abbreviation inode_free_at :: "nebula_layout \<Rightarrow> 'd nebula_mount \<Rightarrow> nat \<Rightarrow> bool" where
  "inode_free_at L m k \<equiv> ino_type (inode_at (mdisk m) L k) = NEBULA_INODE_TYPE_FREE"

lemma inode_alloc_loop_cases:
  assumes "mount_inv ops dinv L m" and "inode_alloc_loop m ty mo t n (inode_count L) = (r, m')"
  shows "mount_next L m m' \<and> m_bitmap m' = m_bitmap m \<and> (bitmap_synced blk L m \<longrightarrow> bitmap_synced blk L m')
    \<and> (mdisk m' = mdisk m \<or> (\<exists>k. n \<le> k \<and> k < inode_count L \<and> inode_free_at L m k
          \<and> (\<forall>i. i \<noteq> inode_addr L k \<longrightarrow> mdisk m' i = mdisk m i)))
    \<and> (\<forall>x. r = Inr x \<longrightarrow> n \<le> unat x \<and> unat x < inode_count L \<and> inode_free_at L m (unat x)
          \<and> (\<forall>j. n \<le> j \<and> j < unat x \<longrightarrow> \<not> inode_free_at L m j)
          \<and> mdisk m' = (mdisk m)(inode_addr L (unat x) := enc_ino (inode_new x ty mo t)))
    \<and> (mup m \<longrightarrow> (\<forall>e. r = Inl e \<longrightarrow> e = ENOSPC \<and> mdisk m' = mdisk m
          \<and> (\<forall>j. n \<le> j \<and> j < inode_count L \<longrightarrow> \<not> inode_free_at L m j)))"
  using assms
proof (induction "inode_count L - n" arbitrary: m n)
  case 0
  then show ?case using mount_next_refl [OF 0(2)] by (auto simp: inode_alloc_loop.simps)
next
  case (Suc d)
  note sim = inode_alloc_loop.simps [of m ty mo t n "inode_count L"] and inv = Suc.prems(1)
  have n: "n < inode_count L" using Suc.hyps(2) by simp
  have un: "unat (of_nat n :: u64) = n"
    using n inode_region(5) [OF inv] by (intro unat_of_nat_u64) simp
  have a: "unat (inode_lba m (of_nat n)) = inode_addr L n"
    using unat_inode_lba [OF inv, of "of_nat n"] n un by simp
  have cap: "inode_addr L n < mcap m" using n inode_region(3) [OF inv] by simp
  obtain q m1 where rd: "mount_read m (inode_lba m (of_nat n)) 1 = (q, m1)" by (rule prod.exhaust)
  note fr = mount_read_frame [OF inv rd]
  have sy1: "bitmap_synced blk L m1 = bitmap_synced blk L m" using fr by (simp add: bitmap_synced_def)
  show ?case
  proof (cases q)
    case (Inl e)
    then have "r = Inl e" "m' = m1" using Suc.prems(2) sim n rd by auto
    moreover have "\<not> mup m" using mount_read1_up [OF inv _ _ rd] a cap Inl by auto
    ultimately show ?thesis using fr sy1 by auto
  next
    case (Inr bs)
    have bs: "dec_ino bs = inode_at (mdisk m) L n"
      using mount_read1_ok(2) [OF inv rd [unfolded Inr]] a by (simp add: inode_at_def)
    show ?thesis
    proof (cases "inode_free_at L m n")
      case False
      then have rec: "inode_alloc_loop m1 ty mo t (n + 1) (inode_count L) = (r, m')"
        using Suc.prems(2) sim n rd Inr bs by simp
      have "d = inode_count L - (n + 1)" using Suc.hyps(2) by simp
      note IH = Suc.hyps(1) [OF this mount_next_inv [OF fr(1)] rec]
      note IH' = IH [unfolded fr(2,3) sy1]
      have ext: "\<not> inode_free_at L m j" if "n \<le> j" "n + 1 \<le> j \<Longrightarrow> \<not> inode_free_at L m j" for j
        using that False by (cases "j = n") auto
      have E: "\<forall>j. n \<le> j \<and> j < k \<longrightarrow> \<not> inode_free_at L m j"
        if "\<forall>j. n + 1 \<le> j \<and> j < k \<longrightarrow> \<not> inode_free_at L m j" for k
        using that ext by blast
      have A: "mount_next L m m' \<and> m_bitmap m' = m_bitmap m \<and> (bitmap_synced blk L m \<longrightarrow> bitmap_synced blk L m')"
        using mount_next_trans [OF fr(1)] IH' by blast
      have B: "mdisk m' = mdisk m \<or> (\<exists>k. n \<le> k \<and> k < inode_count L \<and> inode_free_at L m k
          \<and> (\<forall>i. i \<noteq> inode_addr L k \<longrightarrow> mdisk m' i = mdisk m i))"
      proof (cases "mdisk m' = mdisk m")
        case False
        then obtain k where "n + 1 \<le> k" "k < inode_count L" "inode_free_at L m k"
          "\<forall>i. i \<noteq> inode_addr L k \<longrightarrow> mdisk m' i = mdisk m i" using IH' by blast
        then show ?thesis by (intro disjI2 exI [of _ k]) simp
      qed simp
      have C: "n \<le> unat x \<and> unat x < inode_count L \<and> inode_free_at L m (unat x)
          \<and> (\<forall>j. n \<le> j \<and> j < unat x \<longrightarrow> \<not> inode_free_at L m j)
          \<and> mdisk m' = (mdisk m)(inode_addr L (unat x) := enc_ino (inode_new x ty mo t))" if "r = Inr x" for x
      proof -
        have x: "n + 1 \<le> unat x" "unat x < inode_count L" "inode_free_at L m (unat x)"
          "\<forall>j. n + 1 \<le> j \<and> j < unat x \<longrightarrow> \<not> inode_free_at L m j"
          "mdisk m' = (mdisk m)(inode_addr L (unat x) := enc_ino (inode_new x ty mo t))"
          using IH' that by blast+
        then show ?thesis using E [OF x(4)] by simp
      qed
      have D: "e = ENOSPC \<and> mdisk m' = mdisk m \<and> (\<forall>j. n \<le> j \<and> j < inode_count L \<longrightarrow> \<not> inode_free_at L m j)"
        if "mup m" "r = Inl e" for e
      proof -
        have "e = ENOSPC" "mdisk m' = mdisk m" "\<forall>j. n + 1 \<le> j \<and> j < inode_count L \<longrightarrow> \<not> inode_free_at L m j"
          using IH' that mount_next_up [OF fr(1) that(1)] by blast+
        then show ?thesis using E by blast
      qed
      show ?thesis using A B C D by blast
    next
      case True
      let ?b = "enc_ino (inode_new (of_nat n) ty mo t)"
      have lba: "inode_lba m1 (of_nat n) = inode_lba m (of_nat n)"
        using mount_next_sb [OF fr(1)] by (simp add: inode_lba_def)
      obtain q2 m2 where wr: "mount_write m1 (inode_lba m1 (of_nat n)) 1 ?b = (q2, m2)" by (rule prod.exhaust)
      have res: "m' = m2" "r = (case q2 of Inl e \<Rightarrow> Inl e | Inr _ \<Rightarrow> Inr (of_nat n))"
        using Suc.prems(2) sim n rd Inr bs True wr by (auto split: sum.splits)
      have "unat (of_nat n :: u64) < inode_count L" using n un by simp
      note sw = inode_slot_write [OF mount_next_inv [OF fr(1)] this wr inode_sealed_length [OF inode_new_is_sealed], unfolded un]
      show ?thesis
        using sw fr sy1 res True n un mount_next_trans [OF fr(1) sw(1)] mount_next_up [OF fr(1)]
        by (auto split: sum.splits)
    qed
  qed
qed

lemma inode_alloc_cases:
  assumes inv: "mount_inv ops dinv L m" and al: "nebula_inode_alloc m ty mo t = (r, m')"
  shows "mount_next L m m'" and "m_bitmap m' = m_bitmap m"
    and "bitmap_synced blk L m \<Longrightarrow> bitmap_synced blk L m'"
    and "mdisk m' = mdisk m \<or> (\<exists>k. 1 \<le> k \<and> k < inode_count L \<and> inode_free_at L m k
          \<and> (\<forall>i. i \<noteq> inode_addr L k \<longrightarrow> mdisk m' i = mdisk m i))"
    and "r = Inr x \<Longrightarrow> ty \<noteq> NEBULA_INODE_TYPE_FREE \<and> 1 \<le> unat x \<and> unat x < inode_count L \<and> inode_free_at L m (unat x)
          \<and> (\<forall>j. 1 \<le> j \<and> j < unat x \<longrightarrow> \<not> inode_free_at L m j)
          \<and> mdisk m' = (mdisk m)(inode_addr L (unat x) := enc_ino (inode_new x ty mo t))"
    and "mup m \<Longrightarrow> ty = NEBULA_INODE_TYPE_FILE \<or> ty = NEBULA_INODE_TYPE_DIR \<Longrightarrow> r = Inl e \<Longrightarrow>
          e = ENOSPC \<and> mdisk m' = mdisk m \<and> (\<forall>j. 1 \<le> j \<and> j < inode_count L \<longrightarrow> \<not> inode_free_at L m j)"
proof (atomize (full), goal_cases)
  case 1
  show ?case
  proof (cases "ty = NEBULA_INODE_TYPE_FILE \<or> ty = NEBULA_INODE_TYPE_DIR")
    case False
    then have "r = Inl EINVAL" "m' = m" using al by (auto simp: nebula_inode_alloc_def)
    then show ?thesis using False mount_next_refl [OF inv] by auto
  next
    case True
    then have "inode_alloc_loop m ty mo t 1 (inode_count L) = (r, m')" and ty: "ty \<noteq> NEBULA_INODE_TYPE_FREE"
      using al by (auto simp: nebula_inode_alloc_def mount_inv_sb [OF inv] NEBULA_INODE_TYPE_FILE_def
          NEBULA_INODE_TYPE_DIR_def NEBULA_INODE_TYPE_FREE_def)
    from inode_alloc_loop_cases [OF inv this(1)] show ?thesis using ty by blast
  qed
qed

lemma inode_free_cases:
  assumes inv: "mount_inv ops dinv L m" and fr: "nebula_inode_free m n = (r, m')"
  shows "mount_next L m m'" and "m_bitmap m' = m_bitmap m"
    and "bitmap_synced blk L m \<Longrightarrow> bitmap_synced blk L m'"
    and "i \<noteq> inode_addr L (unat n) \<Longrightarrow> mdisk m' i = mdisk m i"
    and "r = Inr u \<Longrightarrow> n \<noteq> 0 \<and> unat n < inode_count L \<and> \<not> inode_free_at L m (unat n)
          \<and> mdisk m' = (mdisk m)(inode_addr L (unat n) := zeros 4096)"
    and "mup m \<Longrightarrow> n \<noteq> 0 \<Longrightarrow> unat n < inode_count L \<Longrightarrow> \<not> inode_free_at L m (unat n) \<Longrightarrow> r = Inr ()"
    and "n = 0 \<or> \<not> unat n < inode_count L \<Longrightarrow> r = Inl EINVAL \<and> m' = m"
proof (atomize (full), goal_cases)
  case 1
  have root: "n = NEBULA_ROOT_INODE_NUM \<longleftrightarrow> n = 0" by (simp add: NEBULA_ROOT_INODE_NUM_def)
  show ?case
  proof (cases "n = 0 \<or> \<not> unat n < inode_count L")
    case True
    then have "r = Inl EINVAL" "m' = m"
      using fr inode_num_in_range [OF inv, of n] by (auto simp: nebula_inode_free_def root split: if_splits)
    then show ?thesis using True mount_next_refl [OF inv] by auto
  next
    case False
    then have n: "n \<noteq> 0" "unat n < inode_count L" by auto
    note a = unat_inode_lba [OF inv n(2)]
    obtain q m1 where rd: "mount_read m (inode_lba m n) 1 = (q, m1)" by (rule prod.exhaust)
    note f = mount_read_frame [OF inv rd]
    have sy1: "bitmap_synced blk L m1 = bitmap_synced blk L m" using f by (simp add: bitmap_synced_def)
    have cap: "unat (inode_lba m n) < mcap m" using a n(2) inode_region(3) [OF inv] by simp
    show ?thesis
    proof (cases q)
      case (Inl e)
      then have "r = Inl e" "m' = m1"
        using fr n rd inode_num_in_range [OF inv, of n] by (auto simp: nebula_inode_free_def root)
      moreover have "\<not> mup m" using mount_read1_up [OF inv _ cap rd] Inl by auto
      ultimately show ?thesis using f sy1 n by auto
    next
      case (Inr bs)
      have bs: "dec_ino bs = inode_at (mdisk m) L (unat n)"
        using mount_read1_ok(2) [OF inv rd [unfolded Inr]] a by (simp add: inode_at_def)
      show ?thesis
      proof (cases "inode_free_at L m (unat n)")
        case True
        then have "r = Inl EINVAL" "m' = m1"
          using fr n rd Inr bs inode_num_in_range [OF inv, of n] by (auto simp: nebula_inode_free_def root)
        then show ?thesis using f sy1 n True by auto
      next
        case False
        then have wr: "mount_write m1 (inode_lba m1 n) 1 (zeros 4096) = (r, m')"
          using fr n rd Inr bs inode_num_in_range [OF inv, of n] by (simp add: nebula_inode_free_def root)
        note sw = inode_slot_write [OF mount_next_inv [OF f(1)] n(2) wr]
        show ?thesis
          using sw f sy1 False n mount_next_trans [OF f(1) sw(1)] mount_next_up [OF f(1)] by auto
      qed
    qed
  qed
qed

end

section \<open>The inode allocator as a slot allocator\<close>

definition inodes_taken :: "nebula_layout \<Rightarrow> posix_dev nebula_mount \<Rightarrow> u64 set" where
  "inodes_taken L m = {n. unat n < inode_count L
     \<and> (n = 0 \<or> ino_type (inode_at (posix_blk (io_dev (m_io m))) L (unat n)) \<noteq> NEBULA_INODE_TYPE_FREE)}"

lemma inode_at_other:
  assumes "\<And>i. i \<noteq> unat (lay_inode_page_lba L) + k \<Longrightarrow> d' i = d i" and "n \<noteq> k"
  shows "inode_at d' L n = inode_at d L n"
  using assms by (simp add: inode_at_def)

lemma inode_at_upd:
  "inode_at (d(unat (lay_inode_page_lba L) + k := b)) L n = (if n = k then dec_ino b else inode_at d L n)"
  by (simp add: inode_at_def)

text \<open>A request is the type, the mode and the reading of the clock.\<close>

type_synonym inode_req = "u32 \<times> u32 \<times> u64"

definition ask_inode :: "inode_req \<Rightarrow> 'd nebula_mount \<Rightarrow> u64 res \<times> 'd nebula_mount" where
  "ask_inode q m = (case q of (ty, mo, t) \<Rightarrow> nebula_inode_alloc m ty mo t)"

definition give_inode :: "inode_req \<Rightarrow> 'd nebula_mount \<Rightarrow> u64 \<Rightarrow> unit res \<times> 'd nebula_mount" where
  "give_inode q m n = nebula_inode_free m n"

definition one_inode :: "inode_req \<Rightarrow> u64 \<Rightarrow> u64 set" where
  "one_inode q n = {n}"

interpretation inodes: slot_allocator "mount_inv posix_ops posix_inv L" "inodes_taken L" one_inode ask_inode give_inode for L
proof unfold_locales
  fix q s s' k assume inv: "mount_inv posix_ops posix_inv L s" and q: "ask_inode q s = (Inr k, s')"
  obtain ty mo t where a: "nebula_inode_alloc s ty mo t = (Inr k, s')" using q by (cases q) (auto simp: ask_inode_def)
  note c = posix.inode_alloc_cases [OF inv a]
  have d: "dec_ino (enc_ino (inode_new k ty mo t)) = inode_new k ty mo t" by (intro ino.dec_enc inode_new_wf)
  show "mount_inv posix_ops posix_inv L s' \<and> one_inode q k \<noteq> {} \<and> one_inode q k \<inter> inodes_taken L s = {}
      \<and> inodes_taken L s' = inodes_taken L s \<union> one_inode q k"
    using c(1) c(5) [OF refl] by (auto simp: one_inode_def inodes_taken_def inode_at_upd d word_unat_eq_iff)
next
  fix q s s' e assume inv: "mount_inv posix_ops posix_inv L s" and q: "ask_inode q s = (Inl e, s')"
  obtain ty mo t where a: "nebula_inode_alloc s ty mo t = (Inl e, s')" using q by (cases q) (auto simp: ask_inode_def)
  note c = posix.inode_alloc_cases [OF inv a]
  have "inodes_taken L s \<subseteq> inodes_taken L s'"
  proof (cases "posix.mdisk s' = posix.mdisk s")
    case False
    then obtain k where "posix.inode_free_at L s k" "\<forall>i. i \<noteq> inode_addr L k \<longrightarrow> posix.mdisk s' i = posix.mdisk s i"
      using c(4) by blast
    then show ?thesis
      using inode_at_other [of L k "posix.mdisk s'" "posix.mdisk s"] by (auto simp: inodes_taken_def) metis
  qed (simp add: inodes_taken_def)
  then show "mount_inv posix_ops posix_inv L s' \<and> inodes_taken L s \<subseteq> inodes_taken L s'" using c(1) by simp
next
  fix q s s' u k assume inv: "mount_inv posix_ops posix_inv L s" and f: "give_inode q s k = (Inr u, s')"
  note c = posix.inode_free_cases [OF inv f [unfolded give_inode_def]]
  show "mount_inv posix_ops posix_inv L s' \<and> one_inode q k \<subseteq> inodes_taken L s \<and> inodes_taken L s' = inodes_taken L s - one_inode q k"
    using c(1) c(5) [OF refl] by (auto simp: one_inode_def inodes_taken_def inode_at_upd word_unat_eq_iff)
next
  fix q s s' e k assume inv: "mount_inv posix_ops posix_inv L s" and f: "give_inode q s k = (Inl e, s')"
  note c = posix.inode_free_cases [OF inv f [unfolded give_inode_def]]
  have "inode_at (posix.mdisk s') L (unat n) = inode_at (posix.mdisk s) L (unat n)" if "n \<noteq> k" for n
    using inode_at_other [of L "unat k" "posix.mdisk s'" "posix.mdisk s" "unat n"] c(4) that
    by (simp add: word_unat_eq_iff)
  then show "mount_inv posix_ops posix_inv L s' \<and> inodes_taken L s - one_inode q k \<subseteq> inodes_taken L s'"
    using c(1) by (auto simp: one_inode_def inodes_taken_def)
qed

section \<open>Formatting the inode region\<close>

context block_backend
begin

lemma inode_page_init_ok:
  assumes "okio io" and "nebula_inode_page_init io L t = (r, io')" and "0 < inode_count L"
    and "unat (lay_inode_page_lba L) + inode_count L \<le> ncap io"
  shows "next_io io io' \<and> (\<forall>i. i < unat (lay_inode_page_lba L) \<or> unat (lay_inode_page_lba L) + inode_count L \<le> i \<longrightarrow>
      disk io' i = disk io i)
    \<and> (r = Inr () \<longrightarrow> disk io' (unat (lay_inode_page_lba L)) = enc_ino (inode_new 0 NEBULA_INODE_TYPE_DIR 0x1ED t)
       \<and> (\<forall>k. 0 < k \<and> k < inode_count L \<longrightarrow> disk io' (unat (lay_inode_page_lba L) + k) = zeros 4096))
    \<and> (up io \<longrightarrow> r = Inr ())"
proof -
  let ?b = "enc_ino (inode_new 0 NEBULA_INODE_TYPE_DIR 0x1ED t)" and ?a = "lay_inode_page_lba L"
  obtain q io1 where z: "zero_region io ?a (inode_count L) = (q, io1)" by (rule prod.exhaust)
  note zr = zero_region_frame [OF assms(1) z assms(4)]
  then have f1: "next_io io io1" by blast
  note ok1 = next_io_ok [OF f1]
  obtain q2 io2 where w: "nebula_io_write io1 ?a 1 ?b = (q2, io2)" by (rule prod.exhaust)
  have f2: "next_io io1 io2" using io_write_frame(1) [OF ok1 w] .
  have res: "(r, io') = (case q of Inl e \<Rightarrow> (Inl e, io1) | Inr _ \<Rightarrow> (q2, io2))"
    using assms(2) z w by (cases q) (auto simp: nebula_inode_page_init_def NEBULA_ROOT_INODE_NUM_def)
  show ?thesis
  proof (cases q)
    case (Inl e)
    then show ?thesis using res zr by auto
  next
    case (Inr u)
    then have r: "r = q2" "io' = io2" using res by auto
    have other: "disk io2 i = disk io1 i" if "i \<noteq> unat ?a" for i using io_write1_other [OF ok1 w that] .
    have d2: "disk io2 = (disk io1)(unat ?a := ?b)" if "q2 = Inr ()"
      using io_write1_ok(2) [OF ok1 w [unfolded that] inode_sealed_length [OF inode_new_is_sealed]] .
    have "q2 = Inr ()" if "up io"
      using io_write_up [OF ok1 next_io_up [OF f1 that] _ w] next_io_cap [OF f1] assms(3,4) by simp
    then show ?thesis
      using r zr Inr next_io_trans [OF f1 f2] other d2 assms(3) by auto
  qed
qed

end

section \<open>Properties\<close>

text \<open>
  An inode that is written reads back: on a device whose calls do not fail, writing an
  inode within the table succeeds, and reading it returns what was written with the checksum that the
  write computed.
\<close>

theorem inode_write_read:
  assumes "mount_inv posix_ops posix_inv L m" and "posix_healthy (io_dev (m_io m))" and "wf_ino i"
    and "unat (ino_inode_num i) < inode_count L"
  shows "\<exists>m1 m2. nebula_inode_write m i = (Inr (), i\<lparr>ino_checksum := nebula_inode_checksum i\<rparr>, m1)
    \<and> nebula_inode_read m1 (ino_inode_num i) = (Inr (i\<lparr>ino_checksum := nebula_inode_checksum i\<rparr>), m2)"
proof -
  obtain r i' m1 where w: "nebula_inode_write m i = (r, i', m1)" by (rule prod_cases3)
  note c = posix.inode_write_cases [OF assms(1,3) w]
  have r: "r = Inr ()" using c(5) assms(2,4) by blast
  have ok: "inode_sealed i'" "i' = i\<lparr>ino_checksum := nebula_inode_checksum i\<rparr>"
    "posix.mdisk m1 = (posix.mdisk m)(unat (lay_inode_page_lba L) + unat (ino_inode_num i) := enc_ino i')"
    using c(4) [OF r] by blast+
  have up1: "posix.mup m1" using posix.mount_next_up [OF c(1)] assms(2) by blast
  obtain q m2 where rd: "nebula_inode_read m1 (ino_inode_num i) = (q, m2)" by (rule prod.exhaust)
  have "q = Inr i'"
    using posix.inode_read_up [OF posix.mount_next_inv [OF c(1)] up1 assms(4) rd] ok
    by (simp add: inode_validate_sealed)
  then show ?thesis using w r rd ok(2) by auto
qed

theorem inode_write_read_witness:
  "\<exists>L m m1 m2. mount_inv posix_ops posix_inv L m
    \<and> nebula_inode_write m (inode_new 7 1 0x1A4 0) = (Inr (), inode_new 7 1 0x1A4 0, m1)
    \<and> nebula_inode_read m1 7 = (Inr (inode_new 7 1 0x1A4 0), m2)"
proof -
  obtain L m where m: "mount_inv posix_ops posix_inv L m" "posix_healthy (io_dev (m_io m))" by (rule sample_mount)
  have "(inode_new 7 1 0x1A4 0)\<lparr>ino_checksum := nebula_inode_checksum (inode_new 7 1 0x1A4 0)\<rparr> = inode_new 7 1 0x1A4 0"
    by (simp add: inode_new_sealed [symmetric])
  then show ?thesis
    using inode_write_read [OF m inode_new_wf [of 7 1 "0x1A4" 0]] inode_region(4) [OF m(1)] m(1) by auto
qed

text \<open>
  Inode allocation takes the lowest free slot above the root and touches nothing else:
  the slot was free, every lower one is in use, the slot now holds the initialised inode, every other
  block of the device and the block bitmap are unchanged.
\<close>

theorem inode_alloc_lowest:
  assumes "mount_inv posix_ops posix_inv L m" and "nebula_inode_alloc m ty mo t = (Inr n, m')"
  shows "0 < unat n \<and> unat n < inode_count L
    \<and> ino_type (inode_at (posix_blk (io_dev (m_io m))) L (unat n)) = NEBULA_INODE_TYPE_FREE
    \<and> (\<forall>j. 0 < j \<and> j < unat n \<longrightarrow>
         ino_type (inode_at (posix_blk (io_dev (m_io m))) L j) \<noteq> NEBULA_INODE_TYPE_FREE)
    \<and> posix_blk (io_dev (m_io m')) = (posix_blk (io_dev (m_io m)))
         (unat (lay_inode_page_lba L) + unat n := enc_ino (inode_new n ty mo t))
    \<and> m_bitmap m' = m_bitmap m \<and> mount_inv posix_ops posix_inv L m'"
  using posix.inode_alloc_cases(1,2) [OF assms] posix.inode_alloc_cases(5) [OF assms refl]
  by (auto simp: Suc_le_eq)

text \<open>
  On a device whose calls do not fail, an allocation of a file or directory inode fails
  only with \<open>ENOSPC\<close>, only when every slot above the root is in use, and then changes no block.
\<close>

theorem inode_alloc_complete:
  assumes "mount_inv posix_ops posix_inv L m" and "posix_healthy (io_dev (m_io m))"
    and "ty = NEBULA_INODE_TYPE_FILE \<or> ty = NEBULA_INODE_TYPE_DIR"
    and "nebula_inode_alloc m ty mo t = (Inl e, m')"
  shows "e = ENOSPC \<and> posix_blk (io_dev (m_io m')) = posix_blk (io_dev (m_io m))
    \<and> (\<forall>j. 0 < j \<and> j < inode_count L \<longrightarrow>
         ino_type (inode_at (posix_blk (io_dev (m_io m))) L j) \<noteq> NEBULA_INODE_TYPE_FREE)"
  using posix.inode_alloc_cases(6) [OF assms(1,4,2,3) refl] by (auto simp: Suc_le_eq)

text \<open>
  Property C30.  Exclusive ownership of inodes: whatever I/O errors occur, after any sequence of inode
  allocations, each with its own type, mode and time, and of frees, the inodes held (granted and not
  freed since) are in use on the device, and the next allocation, of any type, mode and time, returns
  the number of none of them.
\<close>

theorem inodes_no_double_allocation:
  assumes "mount_inv posix_ops posix_inv L m" and "slot_run one_inode ask_inode give_inode ops {} m = (held, m')"
  shows "held \<subseteq> inodes_taken L m' \<and> (\<forall>ty mo t k m''. nebula_inode_alloc m' ty mo t = (Inr k, m'') \<longrightarrow> k \<notin> held)"
proof (intro conjI allI impI)
  show "held \<subseteq> inodes_taken L m'" using inodes.run_held [OF assms(1) _ assms(2)] by simp
  fix ty mo t k m'' assume "nebula_inode_alloc m' ty mo t = (Inr k, m'')"
  then have "ask_inode (ty, mo, t) m' = (Inr k, m'')" by (simp add: ask_inode_def)
  from inodes.ask_fresh(1) [OF assms this] show "k \<notin> held" by (simp add: one_inode_def)
qed

text \<open>
  A damaged inode is noticed, with one exception: where a read accepted an inode in use,
  a read of the block with one byte changed fails, unless the change makes the type field read as
  free, in which case the checksum is not looked at.
\<close>

theorem inode_corruption_detected:
  assumes "mount_inv posix_ops posix_inv L m" and "nebula_inode_read m n = (Inr i, m1)"
    and "ino_type i \<noteq> NEBULA_INODE_TYPE_FREE"
    and "mount_inv posix_ops posix_inv L m'" and "nebula_inode_read m' n = (Inr i', m1')"
    and "posix_blk (io_dev (m_io m')) (unat (lay_inode_page_lba L) + unat n)
      = (posix_blk (io_dev (m_io m)) (unat (lay_inode_page_lba L) + unat n))[k := v]"
    and "k < 4096" and "v \<noteq> posix_blk (io_dev (m_io m)) (unat (lay_inode_page_lba L) + unat n) ! k"
  shows "ino_type i' = NEBULA_INODE_TYPE_FREE"
proof (rule ccontr)
  let ?b = "posix_blk (io_dev (m_io m)) (unat (lay_inode_page_lba L) + unat n)"
  assume "ino_type i' \<noteq> NEBULA_INODE_TYPE_FREE"
  then have "inode_sealed i'" "i' = dec_ino (?b[k := v])"
    using posix.inode_read_ok(2,4) [OF assms(4,5)] assms(6) by (simp_all add: inode_at_def)
  moreover have "inode_sealed i" "i = dec_ino ?b"
    using posix.inode_read_ok(2,4) [OF assms(1,2)] assms(3) by (simp_all add: inode_at_def)
  ultimately show False
    using ino.corruption_detected [of ?b k v] assms(7,8) posix.blk_length
    by (auto simp: inode_sealed_def nebula_inode_checksum_def)
qed

section \<open>Concrete instances\<close>

text \<open>A mounted device with an initialised inode region: the root inode and free slots.\<close>

lemma sample_inode_alloc:
  obtains L m n m' where "mount_inv posix_ops posix_inv L m" "posix_healthy (io_dev (m_io m))"
    "nebula_inode_alloc m 1 0x1A4 0 = (Inr n, m')"
proof -
  obtain L m where m: "mount_inv posix_ops posix_inv L m" "posix_healthy (io_dev (m_io m))"
    "posix_blk (io_dev (m_io m)) = boot_image L (zeros 16)" "layout_tiles L" by (rule sample_mount)
  obtain r m' where a: "nebula_inode_alloc m 1 0x1A4 0 = (r, m')" by (rule prod.exhaust)
  have "boot_image L (zeros 16) (unat (lay_inode_page_lba L) + 1) = zeros 4096"
    using m(4) by (auto simp: boot_image_def layout_tiles_def)
  then have "posix.inode_free_at L m 1" using m(3) by (simp add: inode_at_def)
  moreover have "1 < inode_count L" using inode_region(4) [OF m(1)] by simp
  ultimately obtain n where "r = Inr n"
    using posix.inode_alloc_cases(6) [OF m(1) a m(2)] by (cases r) (auto simp: NEBULA_INODE_TYPE_FILE_def)
  then show ?thesis using that m a by blast
qed

theorem inode_alloc_lowest_witness:
  "\<exists>L m n m'. mount_inv posix_ops posix_inv L m \<and> nebula_inode_alloc m 1 0x1A4 0 = (Inr n, m')
     \<and> 0 < unat n \<and> m_bitmap m' = m_bitmap m"
proof -
  obtain L m n m' where m: "mount_inv posix_ops posix_inv L m" "nebula_inode_alloc m 1 0x1A4 0 = (Inr n, m')"
    by (rule sample_inode_alloc)
  then show ?thesis using inode_alloc_lowest [OF m] by blast
qed

theorem inodes_no_double_allocation_witness:
  "\<exists>L m held m'. mount_inv posix_ops posix_inv L m
     \<and> slot_run one_inode ask_inode give_inode [Ask (1, 0x1A4, 0), Ask (2, 0x1ED, 7), Give (1, 0x1A4, 0) 1] {} m = (held, m')
     \<and> held \<subseteq> inodes_taken L m'"
proof -
  obtain L m where m: "mount_inv posix_ops posix_inv L m" by (rule sample_mount)
  obtain held m' where r: "slot_run one_inode ask_inode give_inode [Ask (1, 0x1A4, 0), Ask (2, 0x1ED, 7), Give (1, 0x1A4, 0) 1] {} m
      = (held, m')" by (rule prod.exhaust)
  show ?thesis using inodes_no_double_allocation [OF m r] m r by blast
qed

theorem inode_alloc_complete_witness:
  "\<exists>L m e m'. mount_inv posix_ops posix_inv L m \<and> nebula_inode_alloc m NEBULA_INODE_TYPE_FILE 0x1A4 0 = (Inl e, m')
     \<and> e = ENOSPC"
proof -
  obtain L where L: "layout_tiles L" "lay_capacity_blocks L = 65536" by (rule sample_layout)
  let ?b = "enc_ino (inode_new 0 1 0 0)"
  have len: "length ?b = 4096" by (rule inode_sealed_length [OF inode_new_is_sealed])
  obtain m where m: "mount_inv posix_ops posix_inv L m" "posix_healthy (io_dev (m_io m))"
    "posix_blk (io_dev (m_io m)) = filled_image L (\<lambda>_. ?b)"
    using image_mount [OF L, of "\<lambda>_. ?b"] len by auto
  have used: "ino_type (inode_at (posix.mdisk m) L k) = 1" if "k < inode_count L" for k
  proof -
    have "unat (lay_inode_page_lba L) + k < unat (lay_sb_tail_lba L)"
      "131 + unat (lay_bitmap_block_count L) \<le> unat (lay_inode_page_lba L) + k"
      using that L(1) by (auto simp: layout_tiles_def)
    then show ?thesis using m(3) by (simp add: inode_at_def filled_image_def ino.dec_enc inode_new_wf)
  qed
  obtain r m' where a: "nebula_inode_alloc m NEBULA_INODE_TYPE_FILE 0x1A4 0 = (r, m')" by (rule prod.exhaust)
  have "\<exists>e. r = Inl e"
    using posix.inode_alloc_cases(5) [OF m(1) a] used by (cases r) (auto simp: NEBULA_INODE_TYPE_FREE_def)
  then show ?thesis using inode_alloc_complete [OF m(1,2)] a m(1) by blast
qed

theorem inode_corruption_detected_witness:
  "\<exists>L m m' i i' m1 m1'. mount_inv posix_ops posix_inv L m \<and> nebula_inode_read m 1 = (Inr i, m1)
     \<and> ino_type i \<noteq> NEBULA_INODE_TYPE_FREE \<and> mount_inv posix_ops posix_inv L m' \<and> nebula_inode_read m' 1 = (Inr i', m1')
     \<and> ino_type i' = NEBULA_INODE_TYPE_FREE"
proof -
  obtain L where L: "layout_tiles L" "lay_capacity_blocks L = 65536" by (rule sample_layout)
  let ?b = "enc_ino (inode_new 1 1 0 0)" and ?a = "unat (lay_inode_page_lba L) + unat (1 :: u64)"
  let ?c = "?b[16 := 0]"
  have len: "length ?b = 4096" by (rule inode_sealed_length [OF inode_new_is_sealed])
  obtain m where m: "mount_inv posix_ops posix_inv L m" "posix_healthy (io_dev (m_io m))"
    "posix_blk (io_dev (m_io m)) = filled_image L (\<lambda>_. ?b)"
    using image_mount [OF L, of "\<lambda>_. ?b"] len by auto
  obtain m' where m': "mount_inv posix_ops posix_inv L m'" "posix_healthy (io_dev (m_io m'))"
    "posix_blk (io_dev (m_io m')) = filled_image L (\<lambda>_. ?c)"
    using image_mount [OF L, of "\<lambda>_. ?c"] len by auto
  have n: "unat (1 :: u64) < inode_count L" using inode_region(4) [OF m(1)] by simp
  have "131 + unat (lay_bitmap_block_count L) \<le> ?a" "?a < unat (lay_sb_tail_lba L)"
    using L(1) by (auto simp: layout_tiles_def)
  then have d: "posix.mdisk m ?a = ?b" "posix.mdisk m' ?a = ?c" using m(3) m'(3) by (simp_all add: filled_image_def)
  have b16: "?b ! 16 = 1" "?b ! 17 = 0" "?b ! 18 = 0" "?b ! 19 = 0"
    by (simp_all add: enc_ino_def nth_append nth_le_bytes)
  have "seg 16 4 ?c = [0, 0, 0, 0]"
  proof (rule nth_equalityI)
    fix j assume "j < length (seg 16 4 ?c)"
    then have "j = 0 \<or> j = 1 \<or> j = 2 \<or> j = 3" using len by auto
    then show "seg 16 4 ?c ! j = [0, 0, 0, 0] ! j" using b16 len by (elim disjE) simp_all
  qed (simp add: len)
  then have "ino_type (dec_ino ?c) = NEBULA_INODE_TYPE_FREE"
    by (simp add: dec_ino_def u32_at_def NEBULA_INODE_TYPE_FREE_def)
  then have v: "inode_validate ?c = Inr (dec_ino ?c)" by (simp add: inode_validate_def Let_def)
  obtain q m1 where r: "nebula_inode_read m 1 = (q, m1)" by (rule prod.exhaust)
  have q: "q = Inr (inode_new 1 1 0 0)"
    using posix.inode_read_up [OF m(1,2) n r] d(1) inode_validate_sealed [OF inode_new_is_sealed] by simp
  obtain q' m1' where r': "nebula_inode_read m' 1 = (q', m1')" by (rule prod.exhaust)
  have q': "q' = Inr (dec_ino ?c)" using posix.inode_read_up [OF m'(1,2) n r'] d(2) v by simp
  have ty: "ino_type (inode_new 1 1 0 0) \<noteq> NEBULA_INODE_TYPE_FREE" by (simp add: NEBULA_INODE_TYPE_FREE_def)
  have "ino_type (dec_ino ?c) = NEBULA_INODE_TYPE_FREE"
    using inode_corruption_detected [OF m(1) r [unfolded q] ty m'(1) r' [unfolded q'], of 16 0] d b16 by simp
  then show ?thesis using m(1) m'(1) r [unfolded q] ty r' [unfolded q'] by blast
qed

end
