(* ===== verification/Nebula_Dir.thy ===== *)
theory Nebula_Dir
  imports Nebula_Inode
begin

unbundle bit_operations_syntax

text \<open>
  \<open>src/nebula/nebula_dir.c\<close> and the directory half of \<open>src/nebula/nebula_inode_init.c\<close>: a flat array of
  1 KiB entries, four to a block, behind a header block that counts the used ones.  A name is the
  list of the bytes before the terminating NUL of the C string.  The scans keep the block they read
  last; the cache is a pair of its address and its content.  The abstraction of a directory region is
  the finite map from names to inode numbers.
\<close>

section \<open>The code\<close>

definition fnv1a_hash :: "byte list \<Rightarrow> u64" where
  "fnv1a_hash s = fold (\<lambda>c h. (h XOR ucast c) * 0x100000001b3) s 0xcbf29ce484222325"

definition slot_lba :: "'d nebula_mount \<Rightarrow> nat \<Rightarrow> u64" where
  "slot_lba m slot_idx = sb_dir_page_lba (m_sb m) + 1 + of_nat (slot_idx div NEBULA_DIR_ENTRIES_PER_BLOCK)"

definition slot_within_block :: "nat \<Rightarrow> nat" where
  "slot_within_block slot_idx = slot_idx mod NEBULA_DIR_ENTRIES_PER_BLOCK"

definition dir_header_seal :: "nebula_dir_page_header \<Rightarrow> nebula_dir_page_header" where
  "dir_header_seal hdr = hdr\<lparr>dh_checksum := crc32c (enc_dh (hdr\<lparr>dh_checksum := 0\<rparr>))\<rparr>"

definition dir_count_step :: "int \<Rightarrow> u64 \<Rightarrow> u64" where
  "dir_count_step delta n =
     (if delta > 0 then n + word_of_int delta
      else if word_of_int (- delta) \<le> n then n - word_of_int (- delta) else n)"

definition dir_header_update :: "'d nebula_mount \<Rightarrow> int \<Rightarrow> unit res \<times> 'd nebula_mount" where
  "dir_header_update m delta =
     (case mount_read m (sb_dir_page_lba (m_sb m)) 1 of
        (Inl e, m') \<Rightarrow> (Inl e, m')
      | (Inr buf, m') \<Rightarrow>
          let hdr = dec_dh buf;
              hdr1 = hdr\<lparr>dh_num_entries := dir_count_step delta (dh_num_entries hdr)\<rparr>
          in mount_write m' (sb_dir_page_lba (m_sb m')) 1 (enc_dh (dir_header_seal hdr1)))"

type_synonym dir_cache = "u64 \<times> byte list"

text \<open>\<open>if (lba != last_lba) { read; last_lba = lba; }\<close>\<close>

definition dir_load :: "'d nebula_mount \<Rightarrow> u64 \<Rightarrow> dir_cache \<Rightarrow> dir_cache res \<times> 'd nebula_mount" where
  "dir_load m lba cache =
     (if lba \<noteq> fst cache then
        case mount_read m lba 1 of
          (Inl e, m') \<Rightarrow> (Inl e, m')
        | (Inr blk, m') \<Rightarrow> (Inr (lba, blk), m')
      else (Inr cache, m))"

definition blk_entry :: "byte list \<Rightarrow> nat \<Rightarrow> nebula_dir_entry" where
  "blk_entry blk k = dec_de (seg (NEBULA_DIR_ENTRY_SIZE * k) NEBULA_DIR_ENTRY_SIZE blk)"

definition blk_set_entry :: "byte list \<Rightarrow> nat \<Rightarrow> nebula_dir_entry \<Rightarrow> byte list" where
  "blk_set_entry blk k de = put (NEBULA_DIR_ENTRY_SIZE * k) (enc_de de) blk"

definition de_used :: "nebula_dir_entry \<Rightarrow> bool" where
  "de_used de \<longleftrightarrow> de_flags de AND NEBULA_DIR_FLAG_USED \<noteq> 0"

definition de_matches :: "u64 \<Rightarrow> byte list \<Rightarrow> nebula_dir_entry \<Rightarrow> bool" where
  "de_matches hash name de \<longleftrightarrow>
     de_hash de = hash \<and> de_name_len de = of_nat (length name) \<and> take (length name) (de_name de) = name"

definition dir_capacity :: "'d nebula_mount \<Rightarrow> u64" where
  "dir_capacity m = (sb_dir_page_block_count (m_sb m) - 1) * 4"

definition de_zero :: nebula_dir_entry where
  "de_zero = \<lparr>de_hash = 0, de_inode_num = 0, de_name_len = 0, de_flags = 0, de_pad0 = 0,
     de_name = zeros NEBULA_DIR_NAME_MAX\<rparr>"

definition de_new :: "byte list \<Rightarrow> u64 \<Rightarrow> u16 \<Rightarrow> nebula_dir_entry" where
  "de_new name inode_num type_flag =
     de_zero\<lparr>de_hash := fnv1a_hash name, de_inode_num := inode_num, de_name_len := of_nat (length name),
             de_flags := NEBULA_DIR_FLAG_USED OR type_flag,
             de_name := put 0 name (zeros NEBULA_DIR_NAME_MAX)\<rparr>"

text \<open>The scan of \<open>nebula_dir_add\<close>: a duplicate ends it, the first free slot is remembered.\<close>

function dir_add_scan ::
    "'d nebula_mount \<Rightarrow> u64 \<Rightarrow> byte list \<Rightarrow> nat \<Rightarrow> nat \<Rightarrow> dir_cache \<Rightarrow> nat option
     \<Rightarrow> (dir_cache \<times> nat option) res \<times> 'd nebula_mount" where
  "dir_add_scan m hash name s capacity cache free_slot =
     (if s < capacity then
        case dir_load m (slot_lba m s) cache of
          (Inl e, m') \<Rightarrow> (Inl e, m')
        | (Inr cache', m') \<Rightarrow>
            let de = blk_entry (snd cache') (slot_within_block s) in
            if \<not> de_used de
            then dir_add_scan m' hash name (s + 1) capacity cache'
                   (if free_slot = None then Some s else free_slot)
            else if de_matches hash name de then (Inl EEXIST, m')
            else dir_add_scan m' hash name (s + 1) capacity cache' free_slot
      else (Inr (cache, free_slot), m))"
  by pat_completeness auto
termination
  by (relation "measure (\<lambda>(m, h, n, s, c, ca, f). c - s)") auto

declare dir_add_scan.simps [simp del]

definition nebula_dir_add ::
    "'d nebula_mount \<Rightarrow> byte list \<Rightarrow> u64 \<Rightarrow> u16 \<Rightarrow> unit res \<times> 'd nebula_mount" where
  "nebula_dir_add m name inode_num type_flag =
     (if name = [] then (Inl EINVAL, m)
      else if length name \<ge> NEBULA_DIR_NAME_MAX then (Inl ENAMETOOLONG, m)
      else
        case dir_add_scan m (fnv1a_hash name) name 0 (unat (dir_capacity m)) (-1, []) None of
          (Inl e, m1) \<Rightarrow> (Inl e, m1)
        | (Inr (cache, free_slot), m1) \<Rightarrow>
            (case free_slot of
               None \<Rightarrow> (Inl ENOSPC, m1)
             | Some s \<Rightarrow>
                 let wlba = slot_lba m1 s in
                 case dir_load m1 wlba cache of
                   (Inl e, m2) \<Rightarrow> (Inl e, m2)
                 | (Inr (_, blk), m2) \<Rightarrow>
                     (case mount_write m2 wlba 1
                             (blk_set_entry blk (slot_within_block s) (de_new name inode_num type_flag)) of
                        (Inl e, m3) \<Rightarrow> (Inl e, m3)
                      | (Inr _, m3) \<Rightarrow> dir_header_update m3 1)))"

text \<open>The search that \<open>nebula_dir_lookup\<close> and \<open>nebula_dir_remove\<close> share.\<close>

function dir_find ::
    "'d nebula_mount \<Rightarrow> u64 \<Rightarrow> byte list \<Rightarrow> nat \<Rightarrow> nat \<Rightarrow> dir_cache
     \<Rightarrow> (nat \<times> byte list) option res \<times> 'd nebula_mount" where
  "dir_find m hash name s capacity cache =
     (if s < capacity then
        case dir_load m (slot_lba m s) cache of
          (Inl e, m') \<Rightarrow> (Inl e, m')
        | (Inr cache', m') \<Rightarrow>
            let de = blk_entry (snd cache') (slot_within_block s) in
            if \<not> de_used de then dir_find m' hash name (s + 1) capacity cache'
            else if de_matches hash name de then (Inr (Some (s, snd cache')), m')
            else dir_find m' hash name (s + 1) capacity cache'
      else (Inr None, m))"
  by pat_completeness auto
termination
  by (relation "measure (\<lambda>(m, h, n, s, c, ca). c - s)") auto

declare dir_find.simps [simp del]

definition nebula_dir_lookup :: "'d nebula_mount \<Rightarrow> byte list \<Rightarrow> u64 res \<times> 'd nebula_mount" where
  "nebula_dir_lookup m name =
     (if length name \<ge> NEBULA_DIR_NAME_MAX then (Inl ENAMETOOLONG, m)
      else
        case dir_find m (fnv1a_hash name) name 0 (unat (dir_capacity m)) (-1, []) of
          (Inl e, m1) \<Rightarrow> (Inl e, m1)
        | (Inr None, m1) \<Rightarrow> (Inl ENOENT, m1)
        | (Inr (Some (s, blk)), m1) \<Rightarrow> (Inr (de_inode_num (blk_entry blk (slot_within_block s))), m1))"

definition nebula_dir_remove :: "'d nebula_mount \<Rightarrow> byte list \<Rightarrow> unit res \<times> 'd nebula_mount" where
  "nebula_dir_remove m name =
     (if length name \<ge> NEBULA_DIR_NAME_MAX then (Inl ENAMETOOLONG, m)
      else
        case dir_find m (fnv1a_hash name) name 0 (unat (dir_capacity m)) (-1, []) of
          (Inl e, m1) \<Rightarrow> (Inl e, m1)
        | (Inr None, m1) \<Rightarrow> (Inl ENOENT, m1)
        | (Inr (Some (s, blk)), m1) \<Rightarrow>
            (case mount_write m1 (slot_lba m1 s) 1 (blk_set_entry blk (slot_within_block s) de_zero) of
               (Inl e, m2) \<Rightarrow> (Inl e, m2)
             | (Inr _, m2) \<Rightarrow> dir_header_update m2 (-1)))"

text \<open>
  The listing: the callback takes the name, the inode number, the flags and the user data, and
  returns an \<open>int\<close> and the updated user data; a result other than 0 ends the scan.
\<close>

definition list_name :: "nebula_dir_entry \<Rightarrow> byte list" where
  "list_name de = take (if unat (de_name_len de) < NEBULA_DIR_NAME_MAX then unat (de_name_len de)
     else NEBULA_DIR_NAME_MAX) (de_name de)"

function dir_list_loop ::
    "'d nebula_mount \<Rightarrow> (byte list \<Rightarrow> u64 \<Rightarrow> u16 \<Rightarrow> 'u \<Rightarrow> int \<times> 'u) \<Rightarrow> 'u \<Rightarrow> nat \<Rightarrow> nat \<Rightarrow> dir_cache
     \<Rightarrow> int res \<times> 'u \<times> 'd nebula_mount" where
  "dir_list_loop m cb ud s capacity cache =
     (if s < capacity then
        case dir_load m (slot_lba m s) cache of
          (Inl e, m') \<Rightarrow> (Inl e, ud, m')
        | (Inr cache', m') \<Rightarrow>
            let de = blk_entry (snd cache') (slot_within_block s) in
            if \<not> de_used de then dir_list_loop m' cb ud (s + 1) capacity cache'
            else
              case cb (list_name de) (de_inode_num de) (de_flags de) ud of
                (ret, ud') \<Rightarrow>
                  if ret \<noteq> 0 then (Inr ret, ud', m')
                  else dir_list_loop m' cb ud' (s + 1) capacity cache'
      else (Inr 0, ud, m))"
  by pat_completeness auto
termination
  by (relation "measure (\<lambda>(m, cb, ud, s, c, ca). c - s)") auto

declare dir_list_loop.simps [simp del]

definition nebula_dir_list ::
    "'d nebula_mount \<Rightarrow> (byte list \<Rightarrow> u64 \<Rightarrow> u16 \<Rightarrow> 'u \<Rightarrow> int \<times> 'u) \<Rightarrow> 'u \<Rightarrow> int res \<times> 'u \<times> 'd nebula_mount" where
  "nebula_dir_list m cb ud = dir_list_loop m cb ud 0 (unat (dir_capacity m)) (-1, [])"

text \<open>Formatting the directory region: a header that counts one entry, and the entry for \<open>/\<close>.\<close>

definition dir_header_init :: "nebula_layout \<Rightarrow> nebula_dir_page_header" where
  "dir_header_init L = dir_header_seal
     \<lparr>dh_magic = NEBULA_MAGIC_DIR_PAGE, dh_version = 1, dh_entry_size = of_nat NEBULA_DIR_ENTRY_SIZE,
      dh_capacity = (lay_dir_page_block_count L - 1) * 4, dh_num_entries = 1, dh_checksum = 0,
      dh_reserved = zeros 4060\<rparr>"

definition root_entry :: nebula_dir_entry where
  "root_entry = de_zero\<lparr>de_hash := fnv1a_hash [0x2F], de_inode_num := NEBULA_ROOT_INODE_NUM, de_name_len := 1,
     de_flags := NEBULA_DIR_FLAG_USED OR NEBULA_DIR_FLAG_DIR, de_name := put 0 [0x2F] (zeros NEBULA_DIR_NAME_MAX)\<rparr>"

definition nebula_dir_page_init :: "'d nebula_io \<Rightarrow> nebula_layout \<Rightarrow> unit res \<times> 'd nebula_io" where
  "nebula_dir_page_init io L =
     (case zero_region io (lay_dir_page_lba L) (unat (lay_dir_page_block_count L)) of
        (Inl e, io1) \<Rightarrow> (Inl e, io1)
      | (Inr _, io1) \<Rightarrow>
          (case nebula_io_write io1 (lay_dir_page_lba L) 1 (enc_dh (dir_header_init L)) of
             (Inl e, io2) \<Rightarrow> (Inl e, io2)
           | (Inr _, io2) \<Rightarrow>
               nebula_io_write io2 (lay_dir_page_lba L + 1) 1
                 (blk_set_entry (zeros NEBULA_BLOCK_SIZE) 0 root_entry)))"

section \<open>The directory region as a map\<close>

abbreviation dir_addr :: "nebula_layout \<Rightarrow> nat \<Rightarrow> nat" where
  "dir_addr L s \<equiv> unat (lay_dir_page_lba L) + 1 + s div 4"

definition dir_slot :: "(nat \<Rightarrow> byte list) \<Rightarrow> nebula_layout \<Rightarrow> nat \<Rightarrow> nebula_dir_entry" where
  "dir_slot dsk L s = blk_entry (dsk (dir_addr L s)) (s mod 4)"

definition dir_slots_total :: "nebula_layout \<Rightarrow> nat" where
  "dir_slots_total L = (unat (lay_dir_page_block_count L) - 1) * 4"

definition de_key :: "nebula_dir_entry \<Rightarrow> byte list" where
  "de_key de = take (unat (de_name_len de)) (de_name de)"

text \<open>The slots in use, in order, and the finite map they represent.\<close>

definition dir_slots :: "(nat \<Rightarrow> byte list) \<Rightarrow> nebula_layout \<Rightarrow> nat list" where
  "dir_slots dsk L = filter (\<lambda>s. de_used (dir_slot dsk L s)) [0..<dir_slots_total L]"

definition dir_pairs :: "(nat \<Rightarrow> byte list) \<Rightarrow> nebula_layout \<Rightarrow> (byte list \<times> u64) list" where
  "dir_pairs dsk L = map (\<lambda>s. (de_key (dir_slot dsk L s), de_inode_num (dir_slot dsk L s))) (dir_slots dsk L)"

definition dir_map :: "(nat \<Rightarrow> byte list) \<Rightarrow> nebula_layout \<Rightarrow> byte list \<Rightarrow> u64 option" where
  "dir_map dsk L = map_of (dir_pairs dsk L)"

text \<open>
  A directory region is well formed when every used entry carries a name short enough and the hash of
  that name, and no name is used twice.  The header is in step when it counts the used entries.
\<close>

definition de_wf :: "nebula_dir_entry \<Rightarrow> bool" where
  "de_wf de \<longleftrightarrow> unat (de_name_len de) < NEBULA_DIR_NAME_MAX \<and> de_hash de = fnv1a_hash (de_key de)"

definition dir_wf :: "(nat \<Rightarrow> byte list) \<Rightarrow> nebula_layout \<Rightarrow> bool" where
  "dir_wf dsk L \<longleftrightarrow> (\<forall>s \<in> set (dir_slots dsk L). de_wf (dir_slot dsk L s)) \<and> distinct (map fst (dir_pairs dsk L))"

definition dir_counted :: "(nat \<Rightarrow> byte list) \<Rightarrow> nebula_layout \<Rightarrow> bool" where
  "dir_counted dsk L \<longleftrightarrow>
     unat (dh_num_entries (dec_dh (dsk (unat (lay_dir_page_lba L))))) = length (dir_slots dsk L)"

lemma in_dir_slots: "s \<in> set (dir_slots dsk L) \<longleftrightarrow> s < dir_slots_total L \<and> de_used (dir_slot dsk L s)"
  by (auto simp: dir_slots_def)

lemma distinct_dir_slots [simp]: "distinct (dir_slots dsk L)"
  by (simp add: dir_slots_def)

lemma fst_dir_pairs: "map fst (dir_pairs dsk L) = map (\<lambda>s. de_key (dir_slot dsk L s)) (dir_slots dsk L)"
  by (simp add: dir_pairs_def)

lemma dir_wf_iff:
  "dir_wf dsk L \<longleftrightarrow> (\<forall>s \<in> set (dir_slots dsk L). de_wf (dir_slot dsk L s))
     \<and> inj_on (\<lambda>s. de_key (dir_slot dsk L s)) (set (dir_slots dsk L))"
  by (simp add: dir_wf_def fst_dir_pairs distinct_map)

lemma dir_map_Some:
  assumes "dir_wf dsk L"
  shows "dir_map dsk L name = Some i \<longleftrightarrow>
    (\<exists>s \<in> set (dir_slots dsk L). de_key (dir_slot dsk L s) = name \<and> de_inode_num (dir_slot dsk L s) = i)"
proof -
  have "dir_map dsk L name = Some i \<longleftrightarrow> (name, i) \<in> set (dir_pairs dsk L)"
    unfolding dir_map_def using assms by (intro map_of_eq_Some_iff) (simp add: dir_wf_def)
  then show ?thesis by (auto simp: dir_pairs_def)
qed

lemma dir_map_dom: "dom (dir_map dsk L) = (\<lambda>s. de_key (dir_slot dsk L s)) ` set (dir_slots dsk L)"
  by (simp add: dir_map_def dom_map_of_conv_image_fst dir_pairs_def image_image)

lemma dir_map_None:
  "dir_map dsk L name = None \<longleftrightarrow> (\<forall>s \<in> set (dir_slots dsk L). de_key (dir_slot dsk L s) \<noteq> name)"
proof -
  have "dir_map dsk L name = None \<longleftrightarrow> name \<notin> dom (dir_map dsk L)" by blast
  then show ?thesis unfolding dir_map_dom by auto
qed

lemma dir_map_size:
  assumes "dir_wf dsk L"
  shows "card (dom (dir_map dsk L)) = length (dir_slots dsk L)"
  unfolding dir_map_dom using assms card_image distinct_card [OF distinct_dir_slots, of dsk L]
  by (metis dir_wf_iff)

text \<open>The comparison of the code, hash first, decides equality of names on well-formed entries.\<close>

lemma de_matches_key:
  assumes "de_wf de" and "length name < NEBULA_DIR_NAME_MAX" and "wf_de de"
  shows "de_matches (fnv1a_hash name) name de \<longleftrightarrow> de_key de = name"
proof
  assume "de_matches (fnv1a_hash name) name de"
  then show "de_key de = name" using assms(2) by (simp add: de_matches_def de_key_def unat_of_nat take_bit_nat_eq_self)
next
  assume k: "de_key de = name"
  then have l: "length name = unat (de_name_len de)" using assms by (auto simp: de_wf_def de_key_def wf_de_def)
  then have "de_name_len de = of_nat (length name)" by simp
  then show "de_matches (fnv1a_hash name) name de"
    using k l assms(1) by (simp add: de_matches_def de_wf_def de_key_def)
qed

section \<open>Entries in blocks\<close>

lemma blk_set_entry_length [simp]:
  "length blk = 4096 \<Longrightarrow> k < 4 \<Longrightarrow> wf_de de \<Longrightarrow> length (blk_set_entry blk k de) = 4096"
  by (simp add: blk_set_entry_def de.enc_length)

lemma blk_entry_set_same:
  "length blk = 4096 \<Longrightarrow> k < 4 \<Longrightarrow> wf_de de \<Longrightarrow> blk_entry (blk_set_entry blk k de) k = de"
  using seg_put_same [of "1024 * k" "enc_de de" blk]
  by (simp add: blk_entry_def blk_set_entry_def de.enc_length de.dec_enc)

lemma blk_entry_set_other:
  assumes "length blk = 4096" and "k < 4" and "j < 4" and "j \<noteq> k" and "wf_de de"
  shows "blk_entry (blk_set_entry blk k de) j = blk_entry blk j"
proof -
  have "1024 * j + 1024 \<le> 1024 * k \<or> 1024 * k + 1024 \<le> 1024 * j" using assms(4) by arith
  then show ?thesis using assms
    by (simp add: blk_entry_def blk_set_entry_def de.enc_length seg_put_disjoint)
qed

lemma blk_entry_wf: "length blk = 4096 \<Longrightarrow> k < 4 \<Longrightarrow> wf_de (blk_entry blk k)"
  unfolding blk_entry_def by (rule de.dec_wf) simp

lemma de_zero_wf [simp]: "wf_de de_zero"
  by (simp add: de_zero_def wf_de_def)

lemma de_zero_unused [simp]: "\<not> de_used de_zero"
  by (simp add: de_zero_def de_used_def)

lemma de_new_wf: "length name < NEBULA_DIR_NAME_MAX \<Longrightarrow> wf_de (de_new name i f)"
  by (simp add: de_new_def wf_de_def)

lemma de_new_used: "de_used (de_new name i f)"
proof -
  have "bit ((NEBULA_DIR_FLAG_USED OR f) AND NEBULA_DIR_FLAG_USED) 0"
    by (simp add: bit_simps NEBULA_DIR_FLAG_USED_def)
  then have "(NEBULA_DIR_FLAG_USED OR f) AND NEBULA_DIR_FLAG_USED \<noteq> 0" by force
  then show ?thesis by (simp add: de_new_def de_used_def)
qed

lemma de_new_key:
  assumes "length name < NEBULA_DIR_NAME_MAX"
  shows "de_key (de_new name i f) = name" and "de_inode_num (de_new name i f) = i" and "de_wf (de_new name i f)"
proof -
  have l: "unat (of_nat (length name) :: u16) = length name"
    using assms by (simp add: unat_of_nat take_bit_nat_eq_self)
  show k: "de_key (de_new name i f) = name" using l by (simp add: de_key_def de_new_def put_def)
  show "de_inode_num (de_new name i f) = i" by (simp add: de_new_def)
  have "de_hash (de_new name i f) = fnv1a_hash name" "unat (de_name_len (de_new name i f)) < NEBULA_DIR_NAME_MAX"
    using l assms by (simp_all add: de_new_def)
  then show "de_wf (de_new name i f)" using k by (simp add: de_wf_def)
qed

text \<open>Replacing the entry of one slot on the device.\<close>

definition set_slot :: "(nat \<Rightarrow> byte list) \<Rightarrow> nebula_layout \<Rightarrow> nat \<Rightarrow> nebula_dir_entry \<Rightarrow> nat \<Rightarrow> byte list" where
  "set_slot dsk L s de = dsk(dir_addr L s := blk_set_entry (dsk (dir_addr L s)) (s mod 4) de)"

lemma dir_slot_set_slot:
  assumes "\<And>a. length (dsk a) = 4096" and "wf_de de"
  shows "dir_slot (set_slot dsk L s de) L j = (if j = s then de else dir_slot dsk L j)"
proof (cases "j div 4 = s div 4")
  case True
  have "j mod 4 \<noteq> s mod 4" if "j \<noteq> s" using that True by (metis mult_div_mod_eq)
  then show ?thesis using True assms
    by (auto simp: dir_slot_def set_slot_def blk_entry_set_same blk_entry_set_other)
next
  case False
  then show ?thesis by (auto simp: dir_slot_def set_slot_def)
qed

lemma dir_slots_set_slot:
  assumes "\<And>a. length (dsk a) = 4096" and "wf_de de" and "s < dir_slots_total L"
  shows "set (dir_slots (set_slot dsk L s de) L)
    = (if de_used de then insert s (set (dir_slots dsk L)) else set (dir_slots dsk L) - {s})"
  using assms(3) by (auto simp: in_dir_slots dir_slot_set_slot [of dsk, OF assms(1,2)] split: if_splits)

lemma dir_slots_length: "length (dir_slots dsk L) = card (set (dir_slots dsk L))"
  by (simp add: distinct_card)

lemma add_slot:
  fixes i :: u64 and f :: u16
  assumes "dir_wf dsk L" and "\<And>a. length (dsk a) = 4096" and "s < dir_slots_total L"
    and "\<not> de_used (dir_slot dsk L s)" and "dir_map dsk L name = None"
    and "length name < NEBULA_DIR_NAME_MAX"
  defines "dsk' \<equiv> set_slot dsk L s (de_new name i f)"
  shows "dir_wf dsk' L" and "dir_map dsk' L = (dir_map dsk L)(name \<mapsto> i)"
    and "length (dir_slots dsk' L) = length (dir_slots dsk L) + 1"
proof -
  note ds = dir_slot_set_slot [of dsk _ L s, OF assms(2) de_new_wf [OF assms(6), of i f], folded dsk'_def]
  note key = de_new_key [OF assms(6)]
  have S: "set (dir_slots dsk' L) = insert s (set (dir_slots dsk L))"
    using dir_slots_set_slot [of dsk, OF assms(2) de_new_wf [OF assms(6)] assms(3)] de_new_used by (simp add: dsk'_def)
  have sn: "s \<notin> set (dir_slots dsk L)" using assms(4) by (simp add: in_dir_slots)
  have fresh: "de_key (dir_slot dsk L j) \<noteq> name" if "j \<in> set (dir_slots dsk L)" for j
    using assms(5) that by (simp add: dir_map_None)
  have same: "dir_slot dsk' L j = dir_slot dsk L j" if "j \<in> set (dir_slots dsk L)" for j
    using ds that sn by auto
  have "inj_on (\<lambda>s. de_key (dir_slot dsk' L s)) (set (dir_slots dsk L))"
    using assms(1) same by (auto simp: dir_wf_iff inj_on_def)
  moreover have "de_key (dir_slot dsk' L s) \<notin> (\<lambda>s. de_key (dir_slot dsk' L s)) ` (set (dir_slots dsk L) - {s})"
    using ds [of s] key(1) fresh same by force
  moreover have "de_wf (dir_slot dsk' L j)" if "j \<in> insert s (set (dir_slots dsk L))" for j
    using that ds [of j] key(3) assms(1) by (auto simp: dir_wf_iff)
  ultimately show wf: "dir_wf dsk' L" unfolding dir_wf_iff S by (simp add: inj_on_insert)
  show "length (dir_slots dsk' L) = length (dir_slots dsk L) + 1"
    unfolding dir_slots_length S using sn by simp
  show "dir_map dsk' L = (dir_map dsk L)(name \<mapsto> i)"
  proof
    fix n
    show "dir_map dsk' L n = ((dir_map dsk L)(name \<mapsto> i)) n"
    proof (cases "n = name")
      case True
      have "dir_map dsk' L n = Some i" unfolding dir_map_Some [OF wf] S using ds key True by auto
      then show ?thesis using True by simp
    next
      case False
      have "dir_map dsk' L n = Some x \<longleftrightarrow> dir_map dsk L n = Some x" for x
        unfolding dir_map_Some [OF wf] dir_map_Some [OF assms(1)] S using ds key(1) False same by auto
      then show ?thesis using False by (cases "dir_map dsk L n"; cases "dir_map dsk' L n") auto
    qed
  qed
qed

lemma remove_slot:
  assumes "dir_wf dsk L" and "\<And>a. length (dsk a) = 4096" and "s \<in> set (dir_slots dsk L)"
  defines "dsk' \<equiv> set_slot dsk L s de_zero" and "name \<equiv> de_key (dir_slot dsk L s)"
  shows "dir_wf dsk' L" and "dir_map dsk' L = (dir_map dsk L)(name := None)"
    and "length (dir_slots dsk' L) + 1 = length (dir_slots dsk L)"
proof -
  note ds = dir_slot_set_slot [of dsk _ L s, OF assms(2) de_zero_wf, folded dsk'_def]
  have st: "s < dir_slots_total L" using assms(3) by (simp add: in_dir_slots)
  have S: "set (dir_slots dsk' L) = set (dir_slots dsk L) - {s}"
    using dir_slots_set_slot [of dsk, OF assms(2) de_zero_wf st] by (simp add: dsk'_def)
  have same: "dir_slot dsk' L j = dir_slot dsk L j" if "j \<in> set (dir_slots dsk L) - {s}" for j
    using ds that by auto
  have other: "de_key (dir_slot dsk L j) \<noteq> name" if "j \<in> set (dir_slots dsk L) - {s}" for j
    using assms(1,3) that unfolding dir_wf_iff inj_on_def name_def by blast
  have "inj_on (\<lambda>s. de_key (dir_slot dsk' L s)) (set (dir_slots dsk L) - {s})"
    using assms(1) same by (auto simp: dir_wf_iff inj_on_def)
  then show wf: "dir_wf dsk' L" unfolding dir_wf_iff S using same assms(1) by (auto simp: dir_wf_iff)
  show "length (dir_slots dsk' L) + 1 = length (dir_slots dsk L)"
    unfolding dir_slots_length S using assms(3) card_Suc_Diff1 [of "set (dir_slots dsk L)" s] by simp
  show "dir_map dsk' L = (dir_map dsk L)(name := None)"
  proof
    fix n
    show "dir_map dsk' L n = ((dir_map dsk L)(name := None)) n"
    proof (cases "n = name")
      case True
      then show ?thesis using other same by (auto simp: dir_map_None S)
    next
      case False
      have "dir_map dsk' L n = Some x \<longleftrightarrow> dir_map dsk L n = Some x" for x
        unfolding dir_map_Some [OF wf] dir_map_Some [OF assms(1)] S using False same by (auto simp: name_def)
      then show ?thesis using False by (cases "dir_map dsk L n"; cases "dir_map dsk' L n") auto
    qed
  qed
qed

section \<open>The scans\<close>

lemma dir_region:
  assumes "mount_inv ops dinv L m"
  shows "unat (lay_dir_page_lba L) = unat (lay_inode_page_lba L) + inode_count L"
    and "unat (lay_dir_page_block_count L) = inode_count L"
    and "unat (lay_dir_page_lba L) + inode_count L \<le> unat (lay_data_start_lba L)"
    and "unat (lay_data_start_lba L) < unat (io_capacity_blocks (m_io m))"
    and "unat (io_capacity_blocks (m_io m)) < 2 ^ 63"
    and "131 + unat (lay_bitmap_block_count L) \<le> unat (lay_dir_page_lba L)"
  using mount_inv_geometry(9,10,11) [OF assms] by (auto simp: layout_tiles_def)

lemma dir_capacity_total:
  assumes "mount_inv ops dinv L m"
  shows "unat (dir_capacity m) = dir_slots_total L"
proof -
  have b: "1 \<le> unat (lay_dir_page_block_count L)" "unat (lay_dir_page_block_count L) \<le> 32768"
    using dir_region(2) [OF assms] inode_region(4,5) [OF assms] by auto
  have "unat (lay_dir_page_block_count L - 1) = unat (lay_dir_page_block_count L) - 1"
    using b by (subst unat_minus_le) auto
  then show ?thesis unfolding dir_capacity_def mount_inv_sb [OF assms] dir_slots_total_def
    using b by (subst unat_times_if_small) auto
qed

lemma unat_slot_lba:
  assumes "mount_inv ops dinv L m" and "s < dir_slots_total L"
  shows "unat (slot_lba m s) = dir_addr L s" and "dir_addr L s < unat (lay_data_start_lba L)"
    and "slot_lba m s \<noteq> - 1"
proof -
  note r = dir_region [OF assms(1)] and n = inode_region(4,5) [OF assms(1)]
  have s: "s div 4 + 1 < inode_count L" using assms(2) r(2) by (auto simp: dir_slots_total_def)
  then have o: "unat (of_nat (s div 4) :: u64) = s div 4" using n by (intro unat_of_nat_u64) simp
  have p: "unat (lay_dir_page_lba L + 1) = unat (lay_dir_page_lba L) + 1"
    using r(3,4,5) s by (subst unat_plus_if_small) auto
  show u: "unat (slot_lba m s) = dir_addr L s"
    unfolding slot_lba_def mount_inv_sb [OF assms(1)] NEBULA_DIR_ENTRIES_PER_BLOCK_def
    using r(3,4,5) s o p by (subst unat_plus_if_small) auto
  show a: "dir_addr L s < unat (lay_data_start_lba L)" using r(3) s by simp
  have "unat (- 1 :: u64) = 2 ^ 64 - 1" by (simp add: unsigned_minus_1_eq_mask mask_eq_exp_minus_1)
  then show "slot_lba m s \<noteq> - 1" using u a r(4,5) by auto
qed

definition outside_dir :: "nebula_layout \<Rightarrow> nat \<Rightarrow> bool" where
  "outside_dir L a \<longleftrightarrow>
     a < unat (lay_dir_page_lba L) \<or> unat (lay_dir_page_lba L) + unat (lay_dir_page_block_count L) \<le> a"

lemma slot_addr_inside: "s < dir_slots_total L \<Longrightarrow> outside_dir L a \<Longrightarrow> a \<noteq> dir_addr L s"
  by (auto simp: outside_dir_def dir_slots_total_def)

lemma header_inside: "mount_inv ops dinv L m \<Longrightarrow> outside_dir L a \<Longrightarrow> a \<noteq> unat (lay_dir_page_lba L)"
  using dir_region(2) [of ops dinv L m] inode_region(4) [of ops dinv L m] by (auto simp: outside_dir_def)

lemma dir_count_step_simps:
  "dir_count_step 1 n = n + 1" "n \<noteq> 0 \<Longrightarrow> dir_count_step (- 1) n = n - 1"
  by (auto simp: dir_count_step_def word_le_nat_alt unat_gt_0 Suc_le_eq)

lemma dir_slots_bound: "length (dir_slots dsk L) \<le> dir_slots_total L"
  using length_filter_le [of _ "[0..<dir_slots_total L]"] by (simp add: dir_slots_def)

lemma dir_map_cong:
  assumes "\<And>a. unat (lay_dir_page_lba L) < a \<Longrightarrow> a < unat (lay_dir_page_lba L) + unat (lay_dir_page_block_count L)
      \<Longrightarrow> dsk' a = dsk a"
  shows "dir_slots dsk' L = dir_slots dsk L" and "dir_map dsk' L = dir_map dsk L" and "dir_wf dsk' L = dir_wf dsk L"
proof -
  have s: "dir_slot dsk' L s = dir_slot dsk L s" if "s < dir_slots_total L" for s
    using that assms [of "dir_addr L s"] by (simp add: dir_slot_def dir_slots_total_def)
  show S: "dir_slots dsk' L = dir_slots dsk L" unfolding dir_slots_def using s by (auto intro: filter_cong)
  have P: "dir_pairs dsk' L = dir_pairs dsk L"
    unfolding dir_pairs_def S using s by (auto simp: in_dir_slots)
  then show "dir_map dsk' L = dir_map dsk L" by (simp add: dir_map_def)
  show "dir_wf dsk' L = dir_wf dsk L" unfolding dir_wf_def P S using s by (auto simp: in_dir_slots)
qed

text \<open>Writing one slot and then the header: what \<open>add\<close> and \<open>remove\<close> do once they have found the slot.\<close>

definition slot_commit ::
    "'d nebula_mount \<Rightarrow> nat \<Rightarrow> byte list \<Rightarrow> nebula_dir_entry \<Rightarrow> int \<Rightarrow> unit res \<times> 'd nebula_mount" where
  "slot_commit m s b de delta =
     (case mount_write m (slot_lba m s) 1 (blk_set_entry b (slot_within_block s) de) of
        (Inl e, m2) \<Rightarrow> (Inl e, m2)
      | (Inr _, m2) \<Rightarrow> dir_header_update m2 delta)"

text \<open>The cache holds the block it names, or names no block of the region.\<close>

context block_backend
begin

definition cache_ok :: "'d nebula_mount \<Rightarrow> dir_cache \<Rightarrow> bool" where
  "cache_ok m c \<longleftrightarrow> fst c = - 1 \<or> snd c = mdisk m (unat (fst c))"

lemma dir_load_cases:
  assumes inv: "mount_inv ops dinv L m" and s: "s < dir_slots_total L" and c: "cache_ok m c"
    and ld: "dir_load m (slot_lba m s) c = (r, m')"
  shows "mount_next L m m'" and "m_bitmap m' = m_bitmap m" and "mdisk m' = mdisk m"
    and "r = Inr c' \<Longrightarrow> snd c' = mdisk m (dir_addr L s) \<and> cache_ok m' c'"
    and "mup m \<Longrightarrow> r \<noteq> Inl e"
proof (atomize (full), goal_cases)
  case 1
  note u = unat_slot_lba [OF inv s]
  show ?case
  proof (cases "slot_lba m s = fst c")
    case True
    then have "r = Inr c" "m' = m" using ld by (auto simp: dir_load_def)
    then show ?thesis using True c u mount_next_refl [OF inv] by (auto simp: cache_ok_def)
  next
    case False
    obtain q m1 where rd: "mount_read m (slot_lba m s) 1 = (q, m1)" by (rule prod.exhaust)
    note f = mount_read_frame [OF inv rd]
    have m': "m' = m1" using ld False rd by (auto simp: dir_load_def split: sum.splits)
    have up: "mup m \<longrightarrow> (\<exists>b. q = Inr b)"
      using mount_read1_up [OF inv _ _ rd] u(1,2) dir_region(4) [OF inv] by auto
    have "r = Inr c' \<Longrightarrow> c' = (slot_lba m s, mdisk m (dir_addr L s))"
      using ld False rd mount_read1_ok(2) [OF inv, of "slot_lba m s" _ m1] u(1)
      by (auto simp: dir_load_def split: sum.splits)
    moreover have "\<exists>b. q = Inr b \<Longrightarrow> \<exists>c. r = Inr c" using ld False rd by (auto simp: dir_load_def)
    ultimately show ?thesis using f up u(1) m' by (auto simp: cache_ok_def)
  qed
qed

text \<open>Slot \<open>j\<close> is a used entry that the comparison with \<open>name\<close> accepts.\<close>

definition dir_hit :: "nebula_layout \<Rightarrow> 'd nebula_mount \<Rightarrow> byte list \<Rightarrow> nat \<Rightarrow> bool" where
  "dir_hit L m name j \<longleftrightarrow> de_used (dir_slot (mdisk m) L j) \<and> de_matches (fnv1a_hash name) name (dir_slot (mdisk m) L j)"

lemma dir_hit_same: "mdisk m' = mdisk m \<Longrightarrow> dir_hit L m' name = dir_hit L m name"
  by (rule ext) (simp add: dir_hit_def)

lemma dir_find_cases:
  assumes "mount_inv ops dinv L m" and "cache_ok m c"
    and "dir_find m (fnv1a_hash name) name s (dir_slots_total L) c = (r, m')"
  shows "mount_next L m m' \<and> m_bitmap m' = m_bitmap m \<and> mdisk m' = mdisk m
    \<and> (r = Inr None \<longrightarrow> (\<forall>j. s \<le> j \<and> j < dir_slots_total L \<longrightarrow> \<not> dir_hit L m name j))
    \<and> (\<forall>k b. r = Inr (Some (k, b)) \<longrightarrow> k < dir_slots_total L \<and> dir_hit L m name k \<and> b = mdisk m (dir_addr L k))
    \<and> (mup m \<longrightarrow> (\<exists>x. r = Inr x))"
  using assms
proof (induction "dir_slots_total L - s" arbitrary: m s c)
  case 0
  then show ?case using mount_next_refl [OF 0(2)] by (auto simp: dir_find.simps)
next
  case (Suc d)
  note inv = Suc.prems(1) and sim = dir_find.simps [of m "fnv1a_hash name" name s "dir_slots_total L" c]
  have s: "s < dir_slots_total L" using Suc.hyps(2) by simp
  obtain q m1 where ld: "dir_load m (slot_lba m s) c = (q, m1)" by (rule prod.exhaust)
  note f = dir_load_cases [OF inv s Suc.prems(2) ld]
  show ?case
  proof (cases q)
    case (Inl e)
    then show ?thesis using Suc.prems(3) sim s ld f(1,2,3,5) by auto
  next
    case (Inr c1)
    note c1 = f(4) [OF Inr]
    have de: "blk_entry (snd c1) (slot_within_block s) = dir_slot (mdisk m) L s"
      using c1 by (simp add: dir_slot_def slot_within_block_def)
    show ?thesis
    proof (cases "dir_hit L m name s")
      case True
      then have "r = Inr (Some (s, snd c1))" "m' = m1"
        using Suc.prems(3) sim s ld Inr de by (auto simp: dir_hit_def)
      then show ?thesis using f(1,2,3) c1 s True by auto
    next
      case False
      then have rec: "dir_find m1 (fnv1a_hash name) name (s + 1) (dir_slots_total L) c1 = (r, m')"
        using Suc.prems(3) sim s ld Inr de by (auto simp: dir_hit_def Let_def split: if_splits)
      have "d = dir_slots_total L - (s + 1)" using Suc.hyps(2) by simp
      from Suc.hyps(1) [OF this mount_next_inv [OF f(1)] _ rec] c1
      have IH: "mount_next L m1 m' \<and> m_bitmap m' = m_bitmap m \<and> mdisk m' = mdisk m
        \<and> (r = Inr None \<longrightarrow> (\<forall>j. s + 1 \<le> j \<and> j < dir_slots_total L \<longrightarrow> \<not> dir_hit L m name j))
        \<and> (\<forall>k b. r = Inr (Some (k, b)) \<longrightarrow> k < dir_slots_total L \<and> dir_hit L m name k \<and> b = mdisk m (dir_addr L k))
        \<and> (mup m1 \<longrightarrow> (\<exists>x. r = Inr x))"
        unfolding f(2,3) dir_hit_same [OF f(3)] by blast
      have "\<not> dir_hit L m name j" if "s \<le> j" "s + 1 \<le> j \<Longrightarrow> \<not> dir_hit L m name j" for j
        using that False by (cases "j = s") auto
      then show ?thesis using IH mount_next_trans [OF f(1)] mount_next_up [OF f(1)] by blast
    qed
  qed
qed

lemma dir_add_scan_cases:
  assumes "mount_inv ops dinv L m" and "cache_ok m c"
    and "dir_add_scan m (fnv1a_hash name) name s (dir_slots_total L) c fs = (r, m')"
  shows "mount_next L m m' \<and> m_bitmap m' = m_bitmap m \<and> mdisk m' = mdisk m
    \<and> (\<forall>c' fs'. r = Inr (c', fs') \<longrightarrow> cache_ok m' c'
         \<and> (\<forall>j. s \<le> j \<and> j < dir_slots_total L \<longrightarrow> \<not> dir_hit L m name j)
         \<and> (case fs of Some k \<Rightarrow> fs' = Some k
            | None \<Rightarrow> (case fs' of
                None \<Rightarrow> (\<forall>j. s \<le> j \<and> j < dir_slots_total L \<longrightarrow> de_used (dir_slot (mdisk m) L j))
              | Some k \<Rightarrow> s \<le> k \<and> k < dir_slots_total L \<and> \<not> de_used (dir_slot (mdisk m) L k)
                  \<and> (\<forall>j. s \<le> j \<and> j < k \<longrightarrow> de_used (dir_slot (mdisk m) L j)))))
    \<and> (mup m \<longrightarrow> (\<forall>e. r = Inl e \<longrightarrow> e = EEXIST \<and> (\<exists>j. s \<le> j \<and> j < dir_slots_total L \<and> dir_hit L m name j)))"
  using assms
proof (induction "dir_slots_total L - s" arbitrary: m s c fs)
  case 0
  then show ?case using mount_next_refl [OF 0(2)] by (auto simp: dir_add_scan.simps split: option.splits)
next
  case (Suc d)
  note inv = Suc.prems(1) and sim = dir_add_scan.simps [of m "fnv1a_hash name" name s "dir_slots_total L" c fs]
  have s: "s < dir_slots_total L" using Suc.hyps(2) by simp
  obtain q m1 where ld: "dir_load m (slot_lba m s) c = (q, m1)" by (rule prod.exhaust)
  note f = dir_load_cases [OF inv s Suc.prems(2) ld]
  show ?case
  proof (cases q)
    case (Inl e)
    then show ?thesis using Suc.prems(3) sim s ld f(1,2,3,5) by auto
  next
    case (Inr c1)
    note c1 = f(4) [OF Inr]
    have de: "blk_entry (snd c1) (slot_within_block s) = dir_slot (mdisk m) L s"
      using c1 by (simp add: dir_slot_def slot_within_block_def)
    show ?thesis
    proof (cases "dir_hit L m name s")
      case True
      then have "r = Inl EEXIST" "m' = m1" using Suc.prems(3) sim s ld Inr de by (auto simp: dir_hit_def)
      then show ?thesis using f(1,2,3) c1 s True by auto
    next
      case False
      let ?used = "\<lambda>j. de_used (dir_slot (mdisk m) L j)"
      define fs1 where "fs1 = (if \<not> ?used s \<and> fs = None then Some s else fs)"
      have rec: "dir_add_scan m1 (fnv1a_hash name) name (s + 1) (dir_slots_total L) c1 fs1 = (r, m')"
        using Suc.prems(3) sim s ld Inr de False by (auto simp: dir_hit_def fs1_def Let_def split: if_splits)
      have "d = dir_slots_total L - (s + 1)" using Suc.hyps(2) by simp
      note IH = Suc.hyps(1) [OF this mount_next_inv [OF f(1)] _ rec, unfolded f(2,3) dir_hit_same [OF f(3)]]
      have ext: "P j" if "P s" "s \<le> j" "s + 1 \<le> j \<Longrightarrow> P j" for P :: "nat \<Rightarrow> bool" and j
        using that by (cases "j = s") auto
      have A: "mount_next L m m' \<and> m_bitmap m' = m_bitmap m \<and> mdisk m' = mdisk m"
        using IH c1 mount_next_trans [OF f(1)] by blast
      have B: "mup m \<longrightarrow> (\<forall>e. r = Inl e \<longrightarrow> e = EEXIST \<and> (\<exists>j. s \<le> j \<and> j < dir_slots_total L \<and> dir_hit L m name j))"
      proof (intro impI allI)
        fix e assume "mup m" "r = Inl e"
        then have "e = EEXIST" "\<exists>j. s + 1 \<le> j \<and> j < dir_slots_total L \<and> dir_hit L m name j"
          using IH c1 mount_next_up [OF f(1)] by blast+
        then show "e = EEXIST \<and> (\<exists>j. s \<le> j \<and> j < dir_slots_total L \<and> dir_hit L m name j)"
          using add_leD1 by blast
      qed
      have C: "cache_ok m' c' \<and> (\<forall>j. s \<le> j \<and> j < dir_slots_total L \<longrightarrow> \<not> dir_hit L m name j)
         \<and> (case fs of Some k \<Rightarrow> fs' = Some k
            | None \<Rightarrow> (case fs' of
                None \<Rightarrow> (\<forall>j. s \<le> j \<and> j < dir_slots_total L \<longrightarrow> ?used j)
              | Some k \<Rightarrow> s \<le> k \<and> k < dir_slots_total L \<and> \<not> ?used k \<and> (\<forall>j. s \<le> j \<and> j < k \<longrightarrow> ?used j)))"
        if r: "r = Inr (c', fs')" for c' fs'
      proof -
        have I: "cache_ok m' c'" "\<forall>j. s + 1 \<le> j \<and> j < dir_slots_total L \<longrightarrow> \<not> dir_hit L m name j"
          and F: "case fs1 of Some k \<Rightarrow> fs' = Some k
            | None \<Rightarrow> (case fs' of
                None \<Rightarrow> (\<forall>j. s + 1 \<le> j \<and> j < dir_slots_total L \<longrightarrow> ?used j)
              | Some k \<Rightarrow> s + 1 \<le> k \<and> k < dir_slots_total L \<and> \<not> ?used k \<and> (\<forall>j. s + 1 \<le> j \<and> j < k \<longrightarrow> ?used j))"
          using IH c1 r by auto
        have H: "\<forall>j. s \<le> j \<and> j < dir_slots_total L \<longrightarrow> \<not> dir_hit L m name j"
          using I(2) ext [of "\<lambda>j. \<not> dir_hit L m name j"] False by blast
        show ?thesis
        proof (cases "fs = None \<and> ?used s")
          case True
          then have U: "\<forall>j. s \<le> j \<and> j < b \<longrightarrow> ?used j" if "\<forall>j. s + 1 \<le> j \<and> j < b \<longrightarrow> ?used j" for b
            using ext [of ?used] that by blast
          show ?thesis using F True I(1) H U by (cases fs') (auto simp: fs1_def)
        next
          case False
          then show ?thesis using F I(1) H s by (cases fs) (auto simp: fs1_def)
        qed
      qed
      show ?thesis using A B C by blast
    qed
  qed
qed

text \<open>The header update: the count moves by one, nothing outside the header block changes.\<close>

lemma dir_header_update_cases:
  assumes inv: "mount_inv ops dinv L m" and h: "dir_header_update m delta = (r, m')"
  shows "mount_next L m m'" and "m_bitmap m' = m_bitmap m"
    and "a \<noteq> unat (lay_dir_page_lba L) \<Longrightarrow> mdisk m' a = mdisk m a"
    and "r = Inr u \<Longrightarrow> dh_num_entries (dec_dh (mdisk m' (unat (lay_dir_page_lba L))))
           = dir_count_step delta (dh_num_entries (dec_dh (mdisk m (unat (lay_dir_page_lba L)))))"
    and "mup m \<Longrightarrow> r = Inr ()" and "bitmap_synced blk L m \<Longrightarrow> bitmap_synced blk L m'"
proof (atomize (full), goal_cases)
  case 1
  let ?a = "unat (lay_dir_page_lba L)"
  have sb: "sb_dir_page_lba (m_sb m) = lay_dir_page_lba L" using mount_inv_sb [OF inv] by simp
  have cap: "?a < mcap m" using dir_region(3,4) [OF inv] by linarith
  obtain q m1 where rd: "mount_read m (lay_dir_page_lba L) 1 = (q, m1)" by (rule prod.exhaust)
  note f = mount_read_frame [OF inv rd]
  have sb1: "sb_dir_page_lba (m_sb m1) = lay_dir_page_lba L" using f(1) sb by (simp add: same_meta_def)
  have sy1: "bitmap_synced blk L m1 = bitmap_synced blk L m" using f by (simp add: bitmap_synced_def)
  show ?case
  proof (cases q)
    case (Inl e)
    moreover have "\<not> mup m" using mount_read1_up [OF inv _ cap rd] Inl by auto
    ultimately show ?thesis using h rd f sy1 sb by (auto simp: dir_header_update_def)
  next
    case (Inr bs)
    have bs: "bs = mdisk m ?a" using mount_read1_ok(2) [OF inv rd [unfolded Inr]] .
    define hdr where "hdr = dir_header_seal ((dec_dh bs)\<lparr>dh_num_entries := dir_count_step delta (dh_num_entries (dec_dh bs))\<rparr>)"
    have w: "mount_write m1 (lay_dir_page_lba L) 1 (enc_dh hdr) = (r, m')"
      using h rd sb sb1 Inr by (simp add: dir_header_update_def hdr_def Let_def)
    have "wf_dh (dec_dh bs)" by (rule dh.dec_wf) (simp add: bs blk_length)
    then have wf: "wf_dh hdr" by (simp add: hdr_def dir_header_seal_def wf_dh_def)
    have n: "dh_num_entries hdr = dir_count_step delta (dh_num_entries (dec_dh bs))"
      by (simp add: hdr_def dir_header_seal_def)
    note w1 = mount_write1 [OF mount_next_inv [OF f(1)] w]
    have "dh_num_entries (dec_dh (mdisk m' ?a)) = dir_count_step delta (dh_num_entries (dec_dh (mdisk m ?a)))"
      if "r = Inr u" for u
      using w1(4) [OF that dh.enc_length [OF wf]] dh.dec_enc [OF wf] n bs by simp
    moreover have "bitmap_synced blk L m \<Longrightarrow> bitmap_synced blk L m'"
      using mount_write1_synced [OF mount_next_inv [OF f(1)] w] sy1 dir_region(6) [OF inv] by simp
    moreover have "mup m \<Longrightarrow> r = Inr ()" using w1(5) mount_next_up [OF f(1)] mount_next_cap [OF f(1)] cap by simp
    ultimately show ?thesis using w1(1,2,3) f mount_next_trans [OF f(1) w1(1)] by auto
  qed
qed

lemma slot_commit_cases:
  assumes inv: "mount_inv ops dinv L m" and s: "s < dir_slots_total L" and de: "wf_de de"
    and b: "b = mdisk m (dir_addr L s)" and c: "slot_commit m s b de delta = (r, m')"
  shows "mount_next L m m'" and "m_bitmap m' = m_bitmap m"
    and "a \<noteq> unat (lay_dir_page_lba L) \<Longrightarrow> a \<noteq> dir_addr L s \<Longrightarrow> mdisk m' a = mdisk m a"
    and "r = Inr u \<Longrightarrow> a \<noteq> unat (lay_dir_page_lba L) \<Longrightarrow> mdisk m' a = set_slot (mdisk m) L s de a"
    and "r = Inr u \<Longrightarrow> dh_num_entries (dec_dh (mdisk m' (unat (lay_dir_page_lba L))))
           = dir_count_step delta (dh_num_entries (dec_dh (mdisk m (unat (lay_dir_page_lba L)))))"
    and "mup m \<Longrightarrow> r = Inr ()" and "bitmap_synced blk L m \<Longrightarrow> bitmap_synced blk L m'"
proof (atomize (full), goal_cases)
  case 1
  note u = unat_slot_lba [OF inv s]
  let ?buf = "blk_set_entry b (slot_within_block s) de"
  obtain q m1 where w: "mount_write m (slot_lba m s) 1 ?buf = (q, m1)" by (rule prod.exhaust)
  note w1 = mount_write1 [OF inv w]
  have len: "length ?buf = 4096" using de by (simp add: b blk_length slot_within_block_def)
  have sy: "bitmap_synced blk L m \<Longrightarrow> bitmap_synced blk L m1"
    using mount_write1_synced [OF inv w] u(1) dir_region(6) [OF inv] by simp
  have up: "mup m \<Longrightarrow> q = Inr ()" using w1(5) u(1,2) dir_region(4) [OF inv] by simp
  show ?case
  proof (cases q)
    case (Inl e)
    then have "r = Inl e" "m' = m1" using c w by (auto simp: slot_commit_def)
    then show ?thesis using w1(1,2,3) u(1) sy up Inl by auto
  next
    case (Inr v)
    have h: "dir_header_update m1 delta = (r, m')" using c w Inr by (simp add: slot_commit_def)
    note hc = dir_header_update_cases [OF mount_next_inv [OF w1(1)] h]
    have d: "mdisk m1 = set_slot (mdisk m) L s de"
      using w1(4) [OF Inr len] u(1) b by (simp add: set_slot_def slot_within_block_def)
    then have "mdisk m1 (unat (lay_dir_page_lba L)) = mdisk m (unat (lay_dir_page_lba L))"
      by (simp add: set_slot_def)
    then show ?thesis
      using hc d w1(1,2) sy mount_next_trans [OF w1(1) hc(1)] mount_next_up [OF w1(1)] w1(3) u(1) by auto
  qed
qed

section \<open>The operations\<close>

abbreviation mdir :: "nebula_layout \<Rightarrow> 'd nebula_mount \<Rightarrow> byte list \<Rightarrow> u64 option" where
  "mdir L m \<equiv> dir_map (mdisk m) L"

lemma cache_empty [simp]: "cache_ok m (- 1, [])"
  by (simp add: cache_ok_def)

lemma dir_hit_key:
  assumes "dir_wf (mdisk m) L" and "length name < NEBULA_DIR_NAME_MAX" and "s < dir_slots_total L"
  shows "dir_hit L m name s \<longleftrightarrow> s \<in> set (dir_slots (mdisk m) L) \<and> de_key (dir_slot (mdisk m) L s) = name"
proof -
  have wf: "wf_de (dir_slot (mdisk m) L s)" unfolding dir_slot_def by (rule blk_entry_wf) (simp_all add: blk_length)
  have "de_used (dir_slot (mdisk m) L s) \<Longrightarrow> de_wf (dir_slot (mdisk m) L s)"
    using assms(1,3) by (auto simp: dir_wf_def in_dir_slots)
  then show ?thesis using de_matches_key [OF _ assms(2) wf] assms(3) by (auto simp: dir_hit_def in_dir_slots)
qed

lemma dir_find_map:
  assumes inv: "mount_inv ops dinv L m" and wf: "dir_wf (mdisk m) L" and len: "length name < NEBULA_DIR_NAME_MAX"
    and fd: "dir_find m (fnv1a_hash name) name 0 (unat (dir_capacity m)) (-1, []) = (r, m')"
  shows "mount_next L m m'" and "m_bitmap m' = m_bitmap m" and "mdisk m' = mdisk m"
    and "r = Inr None \<Longrightarrow> mdir L m name = None"
    and "r = Inr (Some (k, b)) \<Longrightarrow> k \<in> set (dir_slots (mdisk m) L) \<and> de_key (dir_slot (mdisk m) L k) = name
           \<and> b = mdisk m (dir_addr L k) \<and> mdir L m name = Some (de_inode_num (dir_slot (mdisk m) L k))"
    and "mup m \<Longrightarrow> \<exists>x. r = Inr x"
proof (atomize (full), goal_cases)
  case 1
  note c = dir_find_cases [OF inv cache_empty fd [unfolded dir_capacity_total [OF inv]]]
  note hk = dir_hit_key [OF wf len]
  have "mdir L m name = None" if "r = Inr None"
    unfolding dir_map_None using c that hk by (auto simp: in_dir_slots)
  moreover have "k \<in> set (dir_slots (mdisk m) L) \<and> de_key (dir_slot (mdisk m) L k) = name
           \<and> b = mdisk m (dir_addr L k) \<and> mdir L m name = Some (de_inode_num (dir_slot (mdisk m) L k))"
    if "r = Inr (Some (k, b))"
  proof -
    have k: "k < dir_slots_total L" "dir_hit L m name k" "b = mdisk m (dir_addr L k)" using c that by auto
    have "k \<in> set (dir_slots (mdisk m) L)" "de_key (dir_slot (mdisk m) L k) = name" using hk [OF k(1)] k(2) by auto
    then show ?thesis using k(3) dir_map_Some [OF wf] by auto
  qed
  ultimately show ?case using c by auto
qed

lemma dir_lookup_cases:
  assumes inv: "mount_inv ops dinv L m" and wf: "dir_wf (mdisk m) L"
    and lk: "nebula_dir_lookup m name = (r, m')"
  shows "mount_next L m m'" and "m_bitmap m' = m_bitmap m" and "mdisk m' = mdisk m"
    and "r = Inr i \<Longrightarrow> length name < NEBULA_DIR_NAME_MAX \<and> mdir L m name = Some i"
    and "mup m \<Longrightarrow> length name < NEBULA_DIR_NAME_MAX \<Longrightarrow>
           r = (case mdir L m name of None \<Rightarrow> Inl ENOENT | Some i \<Rightarrow> Inr i)"
proof (atomize (full), goal_cases)
  case 1
  show ?case
  proof (cases "length name < NEBULA_DIR_NAME_MAX")
    case False
    then show ?thesis using lk mount_next_refl [OF inv] by (auto simp: nebula_dir_lookup_def)
  next
    case True
    obtain q m1 where fd: "dir_find m (fnv1a_hash name) name 0 (unat (dir_capacity m)) (-1, []) = (q, m1)"
      by (rule prod.exhaust)
    note c = dir_find_map [OF inv wf True fd]
    show ?thesis
      using lk True fd c(1,2,3,4,6) c(5) [of "fst (the (projr q))" "snd (the (projr q))"]
      by (cases q rule: sum.exhaust)
         (auto simp: nebula_dir_lookup_def dir_slot_def slot_within_block_def split: option.splits prod.splits)
  qed
qed

lemma dir_add_cases:
  assumes inv: "mount_inv ops dinv L m" and wf: "dir_wf (mdisk m) L"
    and ad: "nebula_dir_add m name i f = (r, m')"
  shows "mount_next L m m'" and "m_bitmap m' = m_bitmap m" and "bitmap_synced blk L m \<Longrightarrow> bitmap_synced blk L m'"
    and "outside_dir L a \<Longrightarrow> mdisk m' a = mdisk m a"
    and "r = Inr u \<Longrightarrow> name \<noteq> [] \<and> length name < NEBULA_DIR_NAME_MAX \<and> mdir L m name = None
          \<and> dir_wf (mdisk m') L \<and> mdir L m' = (mdir L m)(name \<mapsto> i)
          \<and> (dir_counted (mdisk m) L \<longrightarrow> dir_counted (mdisk m') L)"
    and "mup m \<Longrightarrow> r = Inl e \<Longrightarrow> mdisk m' = mdisk m"
    and "mup m \<Longrightarrow> name \<noteq> [] \<Longrightarrow> length name < NEBULA_DIR_NAME_MAX \<Longrightarrow>
          r = (if mdir L m name \<noteq> None then Inl EEXIST
               else if card (dom (mdir L m)) = dir_slots_total L then Inl ENOSPC else Inr ())"
proof (atomize (full), goal_cases)
  case 1
  show ?case
  proof (cases "name \<noteq> [] \<and> length name < NEBULA_DIR_NAME_MAX")
    case False
    then have "\<exists>e. r = Inl e" "m' = m" using ad unfolding nebula_dir_add_def by (auto split: if_splits)
    then show ?thesis using False mount_next_refl [OF inv] by auto
  next
    case True
    then have nm: "name \<noteq> []" "length name < NEBULA_DIR_NAME_MAX" by auto
    obtain q m1 where sc: "dir_add_scan m (fnv1a_hash name) name 0 (unat (dir_capacity m)) (-1, []) None = (q, m1)"
      by (rule prod.exhaust)
    note c = dir_add_scan_cases [OF inv cache_empty sc [unfolded dir_capacity_total [OF inv]]]
    note hk = dir_hit_key [OF wf nm(2)]
    have f1: "mount_next L m m1" "m_bitmap m1 = m_bitmap m" "mdisk m1 = mdisk m" using c by auto
    note inv1 = mount_next_inv [OF f1(1)]
    have sy1: "bitmap_synced blk L m1 = bitmap_synced blk L m" using f1 by (simp add: bitmap_synced_def)
    show ?thesis
    proof (cases q)
      case (Inl e)
      then have r: "r = Inl e" "m' = m1" using ad nm sc by (auto simp: nebula_dir_add_def)
      have "e = EEXIST \<and> mdir L m name \<noteq> None" if up: "mup m"
      proof -
        obtain j where "j < dir_slots_total L" "dir_hit L m name j" and e: "e = EEXIST" using c up Inl by auto
        then have "j \<in> set (dir_slots (mdisk m) L)" "de_key (dir_slot (mdisk m) L j) = name" using hk by auto
        then show ?thesis using e unfolding dir_map_None by auto
      qed
      then show ?thesis using r f1 sy1 by auto
    next
      case (Inr cf)
      obtain ca fs where cf: "cf = (ca, fs)" by (rule prod.exhaust)
      have ca: "cache_ok m1 ca" and nohit: "\<forall>j. j < dir_slots_total L \<longrightarrow> \<not> dir_hit L m name j"
        and fs: "case fs of None \<Rightarrow> (\<forall>j < dir_slots_total L. de_used (dir_slot (mdisk m) L j))
              | Some k \<Rightarrow> k < dir_slots_total L \<and> \<not> de_used (dir_slot (mdisk m) L k)"
        using c Inr cf by (auto split: option.splits)
      have none: "mdir L m name = None" unfolding dir_map_None using nohit hk by (auto simp: in_dir_slots)
      show ?thesis
      proof (cases fs)
        case None
        then have r: "r = Inl ENOSPC" "m' = m1" using ad nm sc Inr cf by (auto simp: nebula_dir_add_def)
        have "dir_slots (mdisk m) L = [0..<dir_slots_total L]" using fs None by (simp add: dir_slots_def)
        then have "card (dom (mdir L m)) = dir_slots_total L" by (simp add: dir_map_size [OF wf])
        then show ?thesis using r f1 sy1 none by auto
      next
        case (Some s)
        then have s: "s < dir_slots_total L" "\<not> de_used (dir_slot (mdisk m) L s)" using fs by auto
        obtain q2 m2 where ld: "dir_load m1 (slot_lba m1 s) ca = (q2, m2)" by (rule prod.exhaust)
        note l = dir_load_cases [OF inv1 s(1) ca ld]
        note inv2 = mount_next_inv [OF l(1)]
        have f2: "mount_next L m m2" "m_bitmap m2 = m_bitmap m" "mdisk m2 = mdisk m" "mup m \<Longrightarrow> mup m2"
          using f1 l(1,2,3) mount_next_trans [OF f1(1) l(1)] mount_next_up [OF f1(1)] mount_next_up [OF l(1)] by auto
        have sy2: "bitmap_synced blk L m2 = bitmap_synced blk L m" using f2 by (simp add: bitmap_synced_def)
        have sl: "slot_lba m2 s = slot_lba m1 s" using mount_next_sb [OF l(1)] by (simp add: slot_lba_def)
        show ?thesis
        proof (cases q2)
          case (Inl e)
          then have "r = Inl e" "m' = m2" using ad nm sc Inr cf Some ld by (auto simp: nebula_dir_add_def)
          then show ?thesis using f2 sy2 l(5) [of e] mount_next_up [OF f1(1)] Inl by auto
        next
          case (Inr c2)
          obtain la b where c2: "c2 = (la, b)" by (rule prod.exhaust)
          have b: "b = mdisk m2 (dir_addr L s)" using l(3) l(4) [OF Inr] c2 by simp
          have cm: "slot_commit m2 s b (de_new name i f) 1 = (r, m')"
            using ad nm sc \<open>q = Inr cf\<close> cf Some ld Inr c2 sl
            by (simp add: nebula_dir_add_def slot_commit_def Let_def)
          note cc = slot_commit_cases [OF inv2 s(1) de_new_wf [OF nm(2)] b cm]
          have "card (set (dir_slots (mdisk m) L)) < card {0..<dir_slots_total L}"
            using s by (intro psubset_card_mono) (auto simp: in_dir_slots)
          then have lt: "length (dir_slots (mdisk m) L) < dir_slots_total L" by (simp add: dir_slots_length)
          have ok: "dir_wf (mdisk m') L \<and> mdir L m' = (mdir L m)(name \<mapsto> i)
              \<and> (dir_counted (mdisk m) L \<longrightarrow> dir_counted (mdisk m') L)" if "r = Inr u" for u
          proof -
            note as = add_slot [of "mdisk m" L s name i f, OF wf blk_length s none nm(2)]
            have eq: "mdisk m' a = set_slot (mdisk m) L s (de_new name i f) a" if "unat (lay_dir_page_lba L) < a" for a
              using cc(4) [OF \<open>r = Inr u\<close>, of a] that f2(3) by simp
            note dc = dir_map_cong [of L "mdisk m'" "set_slot (mdisk m) L s (de_new name i f)", OF eq]
            have "unat (n + 1) = unat n + 1" if "unat n \<le> dir_slots_total L" for n :: u64
              using that dir_region(2) [OF inv] inode_region(5) [OF inv]
              by (subst unat_plus_if_small) (auto simp: dir_slots_total_def)
            then have "dir_counted (mdisk m) L \<longrightarrow> dir_counted (mdisk m') L"
              unfolding dir_counted_def cc(5) [OF that] f2(3) dir_count_step_simps using lt dc(1) as(3) by simp
            then show ?thesis using as dc by simp
          qed
          have fr: "mdisk m' a = mdisk m a" if "outside_dir L a"
            using cc(3) f2(3) header_inside [OF inv that] slot_addr_inside [OF s(1) that] by simp
          have "card (dom (mdir L m)) \<noteq> dir_slots_total L" using lt by (simp add: dir_map_size [OF wf])
          then show ?thesis
            using mount_next_trans [OF f2(1) cc(1)] cc(2,6,7) f2 sy2 fr ok nm none by auto
        qed
      qed
    qed
  qed
qed

lemma dir_remove_cases:
  assumes inv: "mount_inv ops dinv L m" and wf: "dir_wf (mdisk m) L"
    and rm: "nebula_dir_remove m name = (r, m')"
  shows "mount_next L m m'" and "m_bitmap m' = m_bitmap m" and "bitmap_synced blk L m \<Longrightarrow> bitmap_synced blk L m'"
    and "outside_dir L a \<Longrightarrow> mdisk m' a = mdisk m a"
    and "r = Inr u \<Longrightarrow> length name < NEBULA_DIR_NAME_MAX \<and> mdir L m name \<noteq> None
          \<and> dir_wf (mdisk m') L \<and> mdir L m' = (mdir L m)(name := None)
          \<and> (dir_counted (mdisk m) L \<longrightarrow> dir_counted (mdisk m') L)"
    and "mup m \<Longrightarrow> r = Inl e \<Longrightarrow> mdisk m' = mdisk m"
    and "mup m \<Longrightarrow> length name < NEBULA_DIR_NAME_MAX \<Longrightarrow>
          r = (if mdir L m name = None then Inl ENOENT else Inr ())"
proof (atomize (full), goal_cases)
  case 1
  show ?case
  proof (cases "length name < NEBULA_DIR_NAME_MAX")
    case False
    then have "\<exists>e. r = Inl e" "m' = m" using rm unfolding nebula_dir_remove_def by (auto split: if_splits)
    then show ?thesis using False mount_next_refl [OF inv] by auto
  next
    case len: True
    obtain q m1 where fd: "dir_find m (fnv1a_hash name) name 0 (unat (dir_capacity m)) (-1, []) = (q, m1)"
      by (rule prod.exhaust)
    note f1 = dir_find_map [OF inv wf len fd]
    have sy1: "bitmap_synced blk L m1 = bitmap_synced blk L m" using f1(2,3) by (simp add: bitmap_synced_def)
    consider (err) e where "q = Inl e" | (none) "q = Inr None" | (hit) s b where "q = Inr (Some (s, b))"
      by (cases q) (metis old.prod.exhaust option.exhaust sum.exhaust)+
    then show ?thesis
    proof cases
      case err
      then have "r = Inl e" "m' = m1" using rm len fd by (auto simp: nebula_dir_remove_def)
      then show ?thesis using f1(1,2,3,6) sy1 err by auto
    next
      case none
      then have "r = Inl ENOENT" "m' = m1" using rm len fd by (auto simp: nebula_dir_remove_def)
      then show ?thesis using f1(1,2,3,4) sy1 none by auto
    next
      case hit
      have s: "s \<in> set (dir_slots (mdisk m) L)" "de_key (dir_slot (mdisk m) L s) = name"
        "b = mdisk m1 (dir_addr L s)" "mdir L m name \<noteq> None"
        using f1(3) f1(5) [OF hit] by auto
      have st: "s < dir_slots_total L" using s(1) by (simp add: in_dir_slots)
      have cm: "slot_commit m1 s b de_zero (- 1) = (r, m')"
        using rm len fd hit by (simp add: nebula_dir_remove_def slot_commit_def)
      note cc = slot_commit_cases [OF mount_next_inv [OF f1(1)] st de_zero_wf s(3) cm]
      have ok: "dir_wf (mdisk m') L \<and> mdir L m' = (mdir L m)(name := None)
          \<and> (dir_counted (mdisk m) L \<longrightarrow> dir_counted (mdisk m') L)" if "r = Inr u" for u
      proof -
        note rs = remove_slot [of "mdisk m" L s, OF wf blk_length s(1), unfolded s(2)]
        have eq: "mdisk m' a = set_slot (mdisk m) L s de_zero a" if "unat (lay_dir_page_lba L) < a" for a
          using cc(4) [OF \<open>r = Inr u\<close>, of a] that f1(3) by simp
        note dc = dir_map_cong [of L "mdisk m'" "set_slot (mdisk m) L s de_zero", OF eq]
        have "unat (dir_count_step (- 1) n) = unat n - 1" if "unat n \<noteq> 0" for n :: u64
          using that by (subst dir_count_step_simps) (auto simp: unat_minus_le)
        then have "dir_counted (mdisk m) L \<longrightarrow> dir_counted (mdisk m') L"
          unfolding dir_counted_def cc(5) [OF that] f1(3) using rs(3) dc(1) by (metis add_diff_cancel_right' add_is_0 one_neq_zero)
        then show ?thesis using rs(1,2) dc by simp
      qed
      have fr: "mdisk m' a = mdisk m a" if "outside_dir L a"
        using cc(3) f1(3) header_inside [OF inv that] slot_addr_inside [OF st that] by simp
      show ?thesis
        using mount_next_trans [OF f1(1) cc(1)] cc(2,6,7) f1(2,3) sy1 fr ok len s(4) mount_next_up [OF f1(1)] by auto
    qed
  qed
qed

end

text \<open>The listing against a fold of the callback that stops at its first result other than 0.\<close>

fun visit_entries ::
    "(byte list \<Rightarrow> u64 \<Rightarrow> u16 \<Rightarrow> 'u \<Rightarrow> int \<times> 'u) \<Rightarrow> nebula_dir_entry list \<Rightarrow> 'u \<Rightarrow> int \<times> 'u" where
  "visit_entries cb [] ud = (0, ud)"
| "visit_entries cb (de # des) ud =
     (case cb (list_name de) (de_inode_num de) (de_flags de) ud of
        (ret, ud') \<Rightarrow> if ret \<noteq> 0 then (ret, ud') else visit_entries cb des ud')"

context block_backend
begin

lemma dir_list_loop_cases:
  assumes "mount_inv ops dinv L m" and "cache_ok m c"
    and "dir_list_loop m cb ud s (dir_slots_total L) c = (r, ud', m')"
  shows "mount_next L m m' \<and> m_bitmap m' = m_bitmap m \<and> mdisk m' = mdisk m
    \<and> (mup m \<longrightarrow> (\<exists>x. r = Inr x))
    \<and> (\<forall>ret. r = Inr ret \<longrightarrow> visit_entries cb
          (map (dir_slot (mdisk m) L) (filter (\<lambda>j. de_used (dir_slot (mdisk m) L j)) [s..<dir_slots_total L])) ud = (ret, ud'))"
  using assms
proof (induction "dir_slots_total L - s" arbitrary: m s c ud)
  case 0
  then show ?case using mount_next_refl [OF 0(2)] by (auto simp: dir_list_loop.simps)
next
  case (Suc d)
  note inv = Suc.prems(1) and sim = dir_list_loop.simps [of m cb ud s "dir_slots_total L" c]
  have s: "s < dir_slots_total L" using Suc.hyps(2) by simp
  obtain q m1 where ld: "dir_load m (slot_lba m s) c = (q, m1)" by (rule prod.exhaust)
  note f = dir_load_cases [OF inv s Suc.prems(2) ld]
  show ?case
  proof (cases q)
    case (Inl e)
    then show ?thesis using Suc.prems(3) sim s ld f(1,2,3,5) by auto
  next
    case (Inr c1)
    note c1 = f(4) [OF Inr]
    let ?de = "dir_slot (mdisk m) L s"
    have de: "blk_entry (snd c1) (slot_within_block s) = ?de"
      using c1 by (simp add: dir_slot_def slot_within_block_def)
    have up: "[s..<dir_slots_total L] = s # [s + 1..<dir_slots_total L]" using s by (simp add: upt_rec)
    obtain ret ud1 where cb: "cb (list_name ?de) (de_inode_num ?de) (de_flags ?de) ud = (ret, ud1)"
      by (rule prod.exhaust)
    show ?thesis
    proof (cases "de_used ?de \<and> ret \<noteq> 0")
      case True
      then have "r = Inr ret" "ud' = ud1" "m' = m1" using Suc.prems(3) sim s ld Inr de cb by auto
      then show ?thesis using f(1,2,3) True cb up by auto
    next
      case False
      define ud2 where "ud2 = (if de_used ?de then ud1 else ud)"
      have rec: "dir_list_loop m1 cb ud2 (s + 1) (dir_slots_total L) c1 = (r, ud', m')"
        using Suc.prems(3) sim s ld Inr de False cb by (auto simp: ud2_def Let_def split: if_splits)
      have "d = dir_slots_total L - (s + 1)" using Suc.hyps(2) by simp
      note IH = Suc.hyps(1) [OF this mount_next_inv [OF f(1)] _ rec, unfolded f(2,3)]
      show ?thesis using IH c1 mount_next_trans [OF f(1)] mount_next_up [OF f(1)] False cb up
        by (auto simp: ud2_def)
    qed
  qed
qed

end

section \<open>Properties\<close>

text \<open>
  Lookup: on a well-formed directory, a lookup that succeeds gives the inode number the
  directory maps the name to; on a device without faults it succeeds on every name in the directory
  and reports \<open>ENOENT\<close> on every other one; it never writes.
\<close>

theorem dir_lookup_refines:
  assumes "mount_inv posix_ops posix_inv L m" and "dir_wf (posix.mdisk m) L"
    and "nebula_dir_lookup m name = (r, m')" and "length name < NEBULA_DIR_NAME_MAX"
  shows "(\<forall>i. r = Inr i \<longrightarrow> dir_map (posix.mdisk m) L name = Some i) \<and> posix.mdisk m' = posix.mdisk m
    \<and> (posix_healthy (io_dev (m_io m)) \<longrightarrow>
         r = (case dir_map (posix.mdisk m) L name of None \<Rightarrow> Inl ENOENT | Some i \<Rightarrow> Inr i))"
  using posix.dir_lookup_cases [OF assms(1-3)] assms(4) by blast

text \<open>
  Insertion refines the map update: a successful \<open>nebula_dir_add\<close> of a name that was
  absent adds exactly that binding, keeps the directory well formed and its header count in step, and
  touches no block outside the directory region; without faults it fails only with \<open>EEXIST\<close> on a
  name already present or \<open>ENOSPC\<close> when every slot is used, and then changes nothing.
\<close>

theorem dir_add_refines:
  assumes "mount_inv posix_ops posix_inv L m" and "dir_wf (posix.mdisk m) L"
    and "nebula_dir_add m name i f = (r, m')" and "name \<noteq> []" and "length name < NEBULA_DIR_NAME_MAX"
  defines "D \<equiv> dir_map (posix.mdisk m) L" and "D' \<equiv> dir_map (posix.mdisk m') L"
  shows "(\<forall>u. r = Inr u \<longrightarrow> D name = None \<and> D' = D(name \<mapsto> i) \<and> dir_wf (posix.mdisk m') L
          \<and> (dir_counted (posix.mdisk m) L \<longrightarrow> dir_counted (posix.mdisk m') L))
    \<and> (\<forall>a. outside_dir L a \<longrightarrow> posix.mdisk m' a = posix.mdisk m a)
    \<and> (posix_healthy (io_dev (m_io m)) \<longrightarrow>
         r = (if D name \<noteq> None then Inl EEXIST
              else if card (dom D) = dir_slots_total L then Inl ENOSPC else Inr ())
         \<and> (\<forall>e. r = Inl e \<longrightarrow> posix.mdisk m' = posix.mdisk m))"
proof -
  note c = posix.dir_add_cases [OF assms(1-3)]
  show ?thesis unfolding D_def D'_def
  proof (intro conjI impI allI)
    assume h: "posix_healthy (io_dev (m_io m))"
    show "r = (if dir_map (posix.mdisk m) L name \<noteq> None then Inl EEXIST
        else if card (dom (dir_map (posix.mdisk m) L)) = dir_slots_total L then Inl ENOSPC else Inr ())"
      by (rule c(7) [OF h assms(4,5)])
  qed (use c(4,5,6) in auto)
qed

text \<open>
  Removal refines deletion from the map: a successful \<open>nebula_dir_remove\<close> deletes exactly
  the named binding, keeps the directory well formed and its header count in step, and touches no
  block outside the directory region; without faults it fails only with \<open>ENOENT\<close>, on an absent name.
\<close>

theorem dir_remove_refines:
  assumes "mount_inv posix_ops posix_inv L m" and "dir_wf (posix.mdisk m) L"
    and "nebula_dir_remove m name = (r, m')" and "length name < NEBULA_DIR_NAME_MAX"
  defines "D \<equiv> dir_map (posix.mdisk m) L" and "D' \<equiv> dir_map (posix.mdisk m') L"
  shows "(\<forall>u. r = Inr u \<longrightarrow> D name \<noteq> None \<and> D' = D(name := None) \<and> dir_wf (posix.mdisk m') L
          \<and> (dir_counted (posix.mdisk m) L \<longrightarrow> dir_counted (posix.mdisk m') L))
    \<and> (\<forall>a. outside_dir L a \<longrightarrow> posix.mdisk m' a = posix.mdisk m a)
    \<and> (posix_healthy (io_dev (m_io m)) \<longrightarrow>
         r = (if D name = None then Inl ENOENT else Inr ())
         \<and> (\<forall>e. r = Inl e \<longrightarrow> posix.mdisk m' = posix.mdisk m))"
proof -
  note c = posix.dir_remove_cases [OF assms(1-3)]
  show ?thesis unfolding D_def D'_def
  proof (intro conjI impI allI)
    assume h: "posix_healthy (io_dev (m_io m))"
    show "r = (if dir_map (posix.mdisk m) L name = None then Inl ENOENT else Inr ())"
      by (rule c(7) [OF h assms(4)])
  qed (use c(4,5,6) in auto)
qed

text \<open>
  Listing: with a callback that collects its arguments and returns 0, a successful
  listing returns 0 and has collected the bindings of the directory, each once, in slot order; on a
  device without faults it succeeds.
\<close>

theorem dir_list_exact:
  assumes "mount_inv posix_ops posix_inv L m" and "dir_wf (posix.mdisk m) L"
    and "nebula_dir_list m (\<lambda>n i f acc. (0, acc @ [(n, i)])) [] = (r, acc, m')"
  shows "(\<forall>ret. r = Inr ret \<longrightarrow> ret = 0 \<and> acc = dir_pairs (posix.mdisk m) L
            \<and> distinct (map fst acc) \<and> map_of acc = dir_map (posix.mdisk m) L)
    \<and> (posix_healthy (io_dev (m_io m)) \<longrightarrow> (\<exists>ret. r = Inr ret)) \<and> posix.mdisk m' = posix.mdisk m"
proof -
  let ?d = "posix.mdisk m"
  let ?cb = "\<lambda>n i (f :: u16) acc. (0 :: int, acc @ [(n, i :: u64)])"
  note c = posix.dir_list_loop_cases [OF assms(1) posix.cache_empty
      assms(3) [unfolded nebula_dir_list_def dir_capacity_total [OF assms(1)]]]
  have V: "visit_entries ?cb des acc = (0, acc @ map (\<lambda>de. (list_name de, de_inode_num de)) des)" for des acc
    by (induction des arbitrary: acc) auto
  have N: "list_name (dir_slot ?d L s) = de_key (dir_slot ?d L s)" if "s \<in> set (dir_slots ?d L)" for s
    using assms(2) that by (auto simp: list_name_def de_key_def dir_wf_def de_wf_def)
  have "visit_entries ?cb (map (dir_slot ?d L) (dir_slots ?d L)) [] = (0, dir_pairs ?d L)"
    unfolding V dir_pairs_def using N by simp
  then show ?thesis using c assms(2) unfolding dir_slots_def [symmetric] by (auto simp: dir_wf_def dir_map_def)
qed

section \<open>Witnesses\<close>

text \<open>A device whose directory region is all zero, and the same one after one insertion.\<close>

lemma sample_dir:
  obtains L m where "mount_inv posix_ops posix_inv L m" and "posix_healthy (io_dev (m_io m))"
    and "dir_wf (posix.mdisk m) L" and "dir_map (posix.mdisk m) L = Map.empty" and "dir_counted (posix.mdisk m) L"
    and "dir_slots (posix.mdisk m) L = []" and "0 < dir_slots_total L"
proof -
  obtain L where L: "layout_tiles L" "lay_capacity_blocks L = 65536" by (rule sample_layout)
  obtain m where m: "mount_inv posix_ops posix_inv L m" "posix_healthy (io_dev (m_io m))"
    "posix_blk (io_dev (m_io m)) = filled_image L (\<lambda>_. zeros 4096)"
    using image_mount [OF L, of "\<lambda>_. zeros 4096"] by auto
  have z: "posix.mdisk m a = zeros 4096"
    if "unat (lay_dir_page_lba L) \<le> a" "a < unat (lay_data_start_lba L)" for a
    using that m(3) L(1) by (auto simp: filled_image_def layout_tiles_def)
  have "\<not> de_used (dir_slot (posix.mdisk m) L s)" if "s < dir_slots_total L" for s
    using z [of "dir_addr L s"] unat_slot_lba(2) [OF m(1) that]
    by (simp add: dir_slot_def blk_entry_def seg_replicate dec_de_def de_used_def u16_at_def)
  then have e: "dir_slots (posix.mdisk m) L = []" by (auto simp: dir_slots_def)
  have t: "0 < dir_slots_total L"
    using dir_region(2) [OF m(1)] inode_region(4) [OF m(1)] by (simp add: dir_slots_total_def)
  have "posix.mdisk m (unat (lay_dir_page_lba L)) = zeros 4096"
    using z dir_region(2,3) [OF m(1)] inode_region(4) [OF m(1)] by simp
  then have "dir_counted (posix.mdisk m) L"
    by (simp add: dir_counted_def e dec_dh_def u64_at_def seg_replicate)
  then show ?thesis using that m(1,2) e t by (simp add: dir_wf_def dir_map_def dir_pairs_def)
qed

lemma sample_dir_used:
  obtains L m where "mount_inv posix_ops posix_inv L m" and "posix_healthy (io_dev (m_io m))"
    and "dir_wf (posix.mdisk m) L" and "dir_map (posix.mdisk m) L = [[97] \<mapsto> 5]" and "dir_counted (posix.mdisk m) L"
proof -
  obtain L m where m: "mount_inv posix_ops posix_inv L m" "posix_healthy (io_dev (m_io m))"
    "dir_wf (posix.mdisk m) L" "dir_map (posix.mdisk m) L = Map.empty" "dir_counted (posix.mdisk m) L"
    "0 < dir_slots_total L" by (rule sample_dir)
  obtain r m' where a: "nebula_dir_add m [97] 5 NEBULA_DIR_FLAG_FILE = (r, m')" by (rule prod.exhaust)
  note c = posix.dir_add_cases [OF m(1,3) a]
  have r: "r = Inr ()" using c(7) [OF m(2)] m(4,6) by simp
  show ?thesis
    by (rule that [OF posix.mount_next_inv [OF c(1)] posix.mount_next_up [OF c(1) m(2)]]) (use c(5) [OF r] m(4,5) in auto)
qed

theorem dir_lookup_refines_witness:
  "\<exists>L m m' m''. mount_inv posix_ops posix_inv L m \<and> nebula_dir_lookup m [97] = (Inr 5, m')
     \<and> nebula_dir_lookup m [98] = (Inl ENOENT, m'')"
proof -
  obtain L m where m: "mount_inv posix_ops posix_inv L m" "posix_healthy (io_dev (m_io m))"
    "dir_wf (posix.mdisk m) L" "dir_map (posix.mdisk m) L = [[97] \<mapsto> 5]" by (rule sample_dir_used)
  obtain r m' where a: "nebula_dir_lookup m [97] = (r, m')" by (rule prod.exhaust)
  obtain r' m'' where b: "nebula_dir_lookup m [98] = (r', m'')" by (rule prod.exhaust)
  have l: "length [c] < NEBULA_DIR_NAME_MAX" for c :: byte by simp
  have "r = Inr 5" "r' = Inl ENOENT"
    using dir_lookup_refines [OF m(1,3) a l, THEN conjunct2, THEN conjunct2, rule_format, OF m(2)]
      dir_lookup_refines [OF m(1,3) b l, THEN conjunct2, THEN conjunct2, rule_format, OF m(2)] m(4) by simp_all
  then show ?thesis using a b m(1) by blast
qed

theorem dir_add_refines_witness:
  "\<exists>L m m' m''. mount_inv posix_ops posix_inv L m
     \<and> nebula_dir_add m [97] 6 NEBULA_DIR_FLAG_FILE = (Inl EEXIST, m')
     \<and> nebula_dir_add m [98] 6 NEBULA_DIR_FLAG_FILE = (Inr (), m'')
     \<and> dir_map (posix.mdisk m'') L = [[97] \<mapsto> 5, [98] \<mapsto> 6]"
proof -
  obtain L m where m: "mount_inv posix_ops posix_inv L m" "posix_healthy (io_dev (m_io m))"
    "dir_wf (posix.mdisk m) L" "dir_map (posix.mdisk m) L = [[97] \<mapsto> 5]" by (rule sample_dir_used)
  have t: "dir_slots_total L \<noteq> 1"
    using dir_region(2) [OF m(1)] inode_region(4) [OF m(1)] by (simp add: dir_slots_total_def)
  obtain r m' where a: "nebula_dir_add m [97] 6 NEBULA_DIR_FLAG_FILE = (r, m')" by (rule prod.exhaust)
  obtain r' m'' where b: "nebula_dir_add m [98] 6 NEBULA_DIR_FLAG_FILE = (r', m'')" by (rule prod.exhaust)
  have l: "[c] \<noteq> []" "length [c] < NEBULA_DIR_NAME_MAX" for c :: byte by simp_all
  have r: "r = Inl EEXIST"
    using dir_add_refines [OF m(1,3) a l, THEN conjunct2, THEN conjunct2, THEN mp, OF m(2)] m(4) by simp
  have r': "r' = Inr ()"
    using dir_add_refines [OF m(1,3) b l, THEN conjunct2, THEN conjunct2, THEN mp, OF m(2)] m(4) t by simp
  have "dir_map (posix.mdisk m'') L = [[97] \<mapsto> 5, [98] \<mapsto> 6]"
    using dir_add_refines [OF m(1,3) b l, THEN conjunct1] m(4) r' by simp
  then show ?thesis using a b m(1) r r' by blast
qed

theorem dir_remove_refines_witness:
  "\<exists>L m m' m''. mount_inv posix_ops posix_inv L m \<and> nebula_dir_remove m [97] = (Inr (), m')
     \<and> dir_map (posix.mdisk m') L = Map.empty \<and> nebula_dir_remove m [98] = (Inl ENOENT, m'')"
proof -
  obtain L m where m: "mount_inv posix_ops posix_inv L m" "posix_healthy (io_dev (m_io m))"
    "dir_wf (posix.mdisk m) L" "dir_map (posix.mdisk m) L = [[97] \<mapsto> 5]" by (rule sample_dir_used)
  obtain r m' where a: "nebula_dir_remove m [97] = (r, m')" by (rule prod.exhaust)
  obtain r' m'' where b: "nebula_dir_remove m [98] = (r', m'')" by (rule prod.exhaust)
  have l: "length [c] < NEBULA_DIR_NAME_MAX" for c :: byte by simp
  have r: "r = Inr ()"
    using dir_remove_refines [OF m(1,3) a l, THEN conjunct2, THEN conjunct2, THEN mp, OF m(2)] m(4) by simp
  have r': "r' = Inl ENOENT"
    using dir_remove_refines [OF m(1,3) b l, THEN conjunct2, THEN conjunct2, THEN mp, OF m(2)] m(4) by simp
  have "dir_map (posix.mdisk m') L = Map.empty"
    using dir_remove_refines [OF m(1,3) a l, THEN conjunct1] m(4) r by simp
  then show ?thesis using a b m(1) r r' by blast
qed

theorem dir_list_exact_witness:
  "\<exists>L m m'. mount_inv posix_ops posix_inv L m
     \<and> nebula_dir_list m (\<lambda>n i f acc. (0, acc @ [(n, i)])) [] = (Inr 0, [([97], 5)], m')"
proof -
  obtain L m where m: "mount_inv posix_ops posix_inv L m" "posix_healthy (io_dev (m_io m))"
    "dir_wf (posix.mdisk m) L" "dir_map (posix.mdisk m) L = [[97] \<mapsto> 5]" by (rule sample_dir_used)
  obtain r acc m' where a: "nebula_dir_list m (\<lambda>n i f acc. (0, acc @ [(n, i)])) [] = (r, acc, m')"
    by (rule prod_cases3)
  note t = dir_list_exact [OF m(1,3) a]
  have r: "r = Inr 0" "distinct (map fst acc)" "map_of acc = [[97] \<mapsto> 5]" using t m(2,4) by auto
  have "length acc = card (set (map fst acc))" using r(2) by (metis distinct_card length_map)
  also have "\<dots> = card (dom (map_of acc))" by (simp add: dom_map_of_conv_image_fst)
  finally have "length acc = 1" unfolding r(3) by simp
  then obtain n i where "acc = [(n, i)]" by (metis One_nat_def length_0_conv length_Suc_conv surj_pair)
  then have "acc = [([97], 5)]" using r(3) by (auto simp: fun_eq_iff split: if_splits)
  then show ?thesis using a m(1) r(1) by blast
qed

end
