(* ===== verification/Nebula_File.thy ===== *)
theory Nebula_File
  imports Nebula_Inode
begin

unbundle bit_operations_syntax

text \<open>
  \<open>src/nebula/nebula_file.c\<close>: files as a list of inline extents in the inode.  A handle keeps a copy
  of the inode; its \<open>mount\<close> pointer is the mount that every operation takes and returns.  Buffers are
  byte lists, so \<open>len\<close> is a length.  The readings of \<open>now_ns()\<close> are arguments.  The abstraction of a
  file is the function from byte positions to bytes that its extents and the device define.
\<close>

section \<open>The code\<close>

record nebula_file =
  f_inode :: nebula_inode
  f_pos :: u64
  f_flags :: u32
  f_dirty :: bool

definition NEBULA_O_RDONLY :: u32 where "NEBULA_O_RDONLY = 0x01"
definition NEBULA_O_WRONLY :: u32 where "NEBULA_O_WRONLY = 0x02"
definition NEBULA_O_RDWR :: u32 where "NEBULA_O_RDWR = NEBULA_O_RDONLY OR NEBULA_O_WRONLY"

definition em_size_blocks :: "nebula_extent_map_entry \<Rightarrow> u32" where
  "em_size_blocks e = em_size_and_flags e AND 0x00FFFFFF"

definition extent_covers :: "u64 \<Rightarrow> nebula_extent_map_entry \<Rightarrow> bool" where
  "extent_covers b e \<longleftrightarrow> em_size_blocks e \<noteq> 0
     \<and> b \<ge> em_offset e \<and> b < em_offset e + ucast (em_size_blocks e)"

fun extent_scan :: "u64 \<Rightarrow> nebula_extent_map_entry list \<Rightarrow> nat \<Rightarrow> nat option" where
  "extent_scan b [] i = None"
| "extent_scan b (e # es) i = (if extent_covers b e then Some i else extent_scan b es (i + 1))"

definition extent_find :: "nebula_inode \<Rightarrow> u64 \<Rightarrow> nat option" where
  "extent_find ino b = extent_scan b (take NEBULA_EXTENTS_PER_INODE (ino_extents ino)) 0"

fun extent_fill ::
    "nebula_extent_map_entry list \<Rightarrow> nebula_extent_map_entry \<Rightarrow> nebula_extent_map_entry list option" where
  "extent_fill [] x = None"
| "extent_fill (e # es) x =
     (if em_size_blocks e \<noteq> 0 then map_option ((#) e) (extent_fill es x) else Some (x # es))"

text \<open>The physical address is cut to 32 bits when it is stored.\<close>

definition extent_append :: "nebula_inode \<Rightarrow> u64 \<Rightarrow> u32 \<Rightarrow> u64 \<Rightarrow> nebula_inode res" where
  "extent_append ino log_blk n_blocks lba =
     (case extent_fill (ino_extents ino)
             \<lparr>em_offset = log_blk, em_size_and_flags = n_blocks AND 0x00FFFFFF, em_lba = ucast lba\<rparr> of
        None \<Rightarrow> Inl ENOSPC
      | Some es \<Rightarrow> Inr (ino\<lparr>ino_extents := es\<rparr>))"

definition extent_phys :: "nebula_extent_map_entry \<Rightarrow> u64 \<Rightarrow> u64" where
  "extent_phys e b = ucast (em_lba e) + (b - em_offset e)"

definition nebula_file_create ::
    "'d nebula_mount \<Rightarrow> u32 \<Rightarrow> u64 \<Rightarrow> nebula_file res \<times> 'd nebula_mount" where
  "nebula_file_create m mode t =
     (case nebula_inode_alloc m NEBULA_INODE_TYPE_FILE mode t of
        (Inl e, m1) \<Rightarrow> (Inl e, m1)
      | (Inr inum, m1) \<Rightarrow>
          (case nebula_inode_read m1 inum of
             (Inl e, m2) \<Rightarrow> (Inl e, m2)
           | (Inr i, m2) \<Rightarrow>
               (Inr \<lparr>f_inode = i, f_pos = 0, f_flags = NEBULA_O_RDWR, f_dirty = False\<rparr>, m2)))"

definition nebula_file_open ::
    "'d nebula_mount \<Rightarrow> u64 \<Rightarrow> u32 \<Rightarrow> nebula_file res \<times> 'd nebula_mount" where
  "nebula_file_open m inode_num flags =
     (if flags AND (NEBULA_O_RDONLY OR NEBULA_O_WRONLY) = 0 then (Inl EINVAL, m)
      else case nebula_inode_read m inode_num of
             (Inl e, m1) \<Rightarrow> (Inl e, m1)
           | (Inr i, m1) \<Rightarrow>
               if ino_type i = NEBULA_INODE_TYPE_FREE then (Inl ENOENT, m1)
               else (Inr \<lparr>f_inode = i, f_pos = 0, f_flags = flags, f_dirty = False\<rparr>, m1))"

definition nebula_file_close :: "'d nebula_mount \<Rightarrow> nebula_file \<Rightarrow> u64 \<Rightarrow> unit res \<times> 'd nebula_mount" where
  "nebula_file_close m f t =
     (if f_dirty f
      then case nebula_inode_write m ((f_inode f)\<lparr>ino_mtime_ns := t\<rparr>) of (r, i, m') \<Rightarrow> (r, m')
      else (Inr (), m))"

text \<open>The physical block a write goes to: that of the extent found, or of one newly allocated.\<close>

definition write_need_blks :: "u64 \<Rightarrow> u64 \<Rightarrow> u32" where
  "write_need_blks bytes_left blk_off =
     (let need = ucast ((bytes_left + blk_off + 4096 - 1) div 4096);
          need1 = (if need > 256 then 256 else need)
      in if need1 = 0 then 1 else need1)"

definition file_write_target ::
    "'d nebula_mount \<Rightarrow> nebula_file \<Rightarrow> u64 \<Rightarrow> u64 \<Rightarrow> u64 \<Rightarrow> u64 res \<times> nebula_file \<times> 'd nebula_mount" where
  "file_write_target m f b bytes_left blk_off =
     (case extent_find (f_inode f) b of
        Some idx \<Rightarrow> (Inr (extent_phys (ino_extents (f_inode f) ! idx) b), f, m)
      | None \<Rightarrow>
          let need_blks = write_need_blks bytes_left blk_off in
          case nebula_block_alloc m need_blks of
            (Inl e, m1) \<Rightarrow> (Inl e, f, m1)
          | (Inr phys_lba, m1) \<Rightarrow>
              (case extent_append (f_inode f) b need_blks phys_lba of
                 Inl e \<Rightarrow> (case nebula_block_free m1 phys_lba need_blks of (_, m2) \<Rightarrow> (Inl e, f, m2))
               | Inr i \<Rightarrow> (Inr phys_lba, f\<lparr>f_inode := i, f_dirty := True\<rparr>, m1)))"

text \<open>One pass of the loop body after the target is known: a partial block is read first.\<close>

definition file_put_block ::
    "'d nebula_mount \<Rightarrow> u64 \<Rightarrow> nat \<Rightarrow> byte list \<Rightarrow> unit res \<times> 'd nebula_mount" where
  "file_put_block m phys_lba blk_off bytes =
     (case (if blk_off \<noteq> 0 \<or> length bytes < NEBULA_BLOCK_SIZE then mount_read m phys_lba 1
            else (Inr (zeros NEBULA_BLOCK_SIZE), m)) of
        (Inl e, m1) \<Rightarrow> (Inl e, m1)
      | (Inr block_buf, m1) \<Rightarrow> mount_write m1 phys_lba 1 (put blk_off bytes block_buf))"

function file_write_loop ::
    "'d nebula_mount \<Rightarrow> nebula_file \<Rightarrow> u64 \<Rightarrow> byte list \<Rightarrow> nat \<Rightarrow> unit res \<times> nat \<times> nebula_file \<times> 'd nebula_mount" where
  "file_write_loop m f offset buf written =
     (if written < length buf then
        let cur_off = offset + of_nat written;
            b = cur_off div 4096;
            blk_off = unat (cur_off mod 4096);
            to_write = min (NEBULA_BLOCK_SIZE - blk_off) (length buf - written)
        in case file_write_target m f b (of_nat (length buf - written)) (of_nat blk_off) of
             (Inl e, f1, m1) \<Rightarrow> (Inl e, written, f1, m1)
           | (Inr phys_lba, f1, m1) \<Rightarrow>
               (case file_put_block m1 phys_lba blk_off (seg written to_write buf) of
                  (Inl e, m2) \<Rightarrow> (Inl e, written, f1, m2)
                | (Inr _, m2) \<Rightarrow> file_write_loop m2 (f1\<lparr>f_dirty := True\<rparr>) offset buf (written + to_write))
      else (Inr (), written, f, m))"
  by pat_completeness auto
termination
proof (relation "measure (\<lambda>(m, f, off, buf, w). length buf - w)", goal_cases)
  case (2 m f offset buf written x xa xb xc)
  have "unat ((offset + of_nat written) mod 4096) < 4096" by (simp add: unat_mod)
  then show ?case using 2 by auto
qed simp

declare file_write_loop.simps [simp del]

definition extents_alloc_size :: "nebula_extent_map_entry list \<Rightarrow> u64" where
  "extents_alloc_size es = fold (\<lambda>e acc. acc + ucast (em_size_blocks e) * 4096) es 0"

definition file_grow :: "nebula_inode \<Rightarrow> u64 \<Rightarrow> nebula_inode" where
  "file_grow i new_end =
     (if new_end > ino_size_bytes i
      then i\<lparr>ino_size_bytes := new_end, ino_alloc_size_bytes := extents_alloc_size (ino_extents i)\<rparr>
      else i)"

definition nebula_file_write ::
    "'d nebula_mount \<Rightarrow> nebula_file \<Rightarrow> u64 \<Rightarrow> byte list \<Rightarrow> u64 \<Rightarrow> nat res \<times> nebula_file \<times> 'd nebula_mount" where
  "nebula_file_write m f offset buf t =
     (if f_flags f AND NEBULA_O_WRONLY = 0 then (Inl EBADF, f, m)
      else if buf = [] then (Inr 0, f, m)
      else
        case file_write_loop m f offset buf 0 of
          (Inl e, written, f1, m1) \<Rightarrow> (if written > 0 then Inr written else Inl e, f1, m1)
        | (Inr _, written, f1, m1) \<Rightarrow>
            (case nebula_inode_write m1 ((file_grow (f_inode f1) (offset + of_nat written))\<lparr>ino_mtime_ns := t\<rparr>) of
               (Inl e, i, m2) \<Rightarrow> (if written > 0 then Inr written else Inl e, f1\<lparr>f_inode := i\<rparr>, m2)
             | (Inr _, i, m2) \<Rightarrow> (Inr written, f1\<lparr>f_inode := i, f_dirty := False\<rparr>, m2)))"

text \<open>
  The read loop; the bytes read so far are the accumulated result.  A block buffer holds 4096 bytes; the
  branch for a shorter one makes the recursion total and is never taken on a device.
\<close>

function file_read_loop ::
    "'d nebula_mount \<Rightarrow> nebula_file \<Rightarrow> u64 \<Rightarrow> nat \<Rightarrow> byte list \<Rightarrow> unit res \<times> byte list \<times> 'd nebula_mount" where
  "file_read_loop m f offset len got =
     (if length got < len then
        let cur_off = offset + of_nat (length got);
            b = cur_off div 4096;
            blk_off = unat (cur_off mod 4096);
            to_read = min (NEBULA_BLOCK_SIZE - blk_off) (len - length got)
        in case extent_find (f_inode f) b of
             None \<Rightarrow> file_read_loop m f offset len (got @ zeros to_read)
           | Some idx \<Rightarrow>
               (case mount_read m (extent_phys (ino_extents (f_inode f) ! idx) b) 1 of
                  (Inl e, m1) \<Rightarrow> (Inl e, got, m1)
                | (Inr block_buf, m1) \<Rightarrow>
                    if length (seg blk_off to_read block_buf) < to_read then (Inl UNDEFINED, got, m1)
                    else file_read_loop m1 f offset len (got @ seg blk_off to_read block_buf))
      else (Inr (), got, m))"
  by pat_completeness auto
termination
proof (relation "measure (\<lambda>(m, f, off, len, got). len - length got)", goal_cases)
  case (2 m f offset len got)
  have "unat ((offset + of_nat (length got)) mod 4096) < 4096" by (simp add: unat_mod)
  then show ?case using 2 by auto
next
  case (3 m f offset len got)
  have "unat ((offset + of_nat (length got)) mod 4096) < 4096" by (simp add: unat_mod)
  then show ?case using 3 by auto
qed simp

declare file_read_loop.simps [simp del]

definition nebula_file_read ::
    "'d nebula_mount \<Rightarrow> nebula_file \<Rightarrow> u64 \<Rightarrow> u64 \<Rightarrow> u64 \<Rightarrow> byte list res \<times> nebula_file \<times> 'd nebula_mount" where
  "nebula_file_read m f offset len t =
     (if f_flags f AND NEBULA_O_RDONLY = 0 then (Inl EBADF, f, m)
      else if len = 0 then (Inr [], f, m)
      else if offset \<ge> ino_size_bytes (f_inode f) then (Inr [], f, m)
      else
        let len' = (if offset + len > ino_size_bytes (f_inode f) then ino_size_bytes (f_inode f) - offset else len) in
        case file_read_loop m f offset (unat len') [] of
          (Inl e, got, m1) \<Rightarrow> (if got \<noteq> [] then Inr got else Inl e, f, m1)
        | (Inr _, got, m1) \<Rightarrow> (Inr got, f\<lparr>f_inode := (f_inode f)\<lparr>ino_atime_ns := t\<rparr>\<rparr>, m1))"

text \<open>The extents are freed one by one; the last failure is kept.\<close>

fun file_free_extents ::
    "'d nebula_mount \<Rightarrow> nebula_extent_map_entry list \<Rightarrow> unit res \<Rightarrow> unit res \<times> 'd nebula_mount" where
  "file_free_extents m [] rc = (rc, m)"
| "file_free_extents m (e # es) rc =
     (if em_size_blocks e = 0 then file_free_extents m es rc
      else case nebula_block_free m (ucast (em_lba e)) (em_size_blocks e) of
             (Inl err, m1) \<Rightarrow> file_free_extents m1 es (Inl err)
           | (Inr _, m1) \<Rightarrow> file_free_extents m1 es rc)"

definition nebula_file_delete :: "'d nebula_mount \<Rightarrow> nebula_file \<Rightarrow> unit res \<times> 'd nebula_mount" where
  "nebula_file_delete m f =
     (case file_free_extents m (ino_extents (f_inode f)) (Inr ()) of
        (rc, m1) \<Rightarrow>
          (case nebula_inode_free m1 (ino_inode_num (f_inode f)) of
             (frc, m2) \<Rightarrow> (case (frc, rc) of (Inl e, Inr _) \<Rightarrow> (Inl e, m2) | _ \<Rightarrow> (rc, m2))))"

section \<open>Extents\<close>

definition ext_list :: "nebula_extent_map_entry \<Rightarrow> nat list" where
  "ext_list e = [unat (em_lba e)..<unat (em_lba e) + unat (em_size_blocks e)]"

text \<open>The device blocks of a file, extent after extent.\<close>

definition file_list :: "nebula_inode \<Rightarrow> nat list" where
  "file_list i = concat (map ext_list (ino_extents i))"

text \<open>The used extents come first in the array.\<close>

definition packed :: "nebula_extent_map_entry list \<Rightarrow> bool" where
  "packed es \<longleftrightarrow> (\<exists>us zs. es = us @ zs \<and> (\<forall>e \<in> set us. em_size_blocks e \<noteq> 0) \<and> (\<forall>e \<in> set zs. em_size_blocks e = 0))"

text \<open>
  The invariant of an inode's extents with respect to the free blocks: the extents are packed, no
  logical range wraps, no device block is used twice, and every block used lies in the data region and
  is not free.
\<close>

definition file_ok :: "nebula_layout \<Rightarrow> nat set \<Rightarrow> nebula_inode \<Rightarrow> bool" where
  "file_ok L fr i \<longleftrightarrow> wf_ino i \<and> packed (ino_extents i) \<and> distinct (file_list i)
     \<and> set (file_list i) \<subseteq> {unat (lay_data_start_lba L)..<unat (lay_alloc_roots_tail_lba L)} - fr
     \<and> (\<forall>e \<in> set (ino_extents i). unat (em_offset e) + unat (em_size_blocks e) < 2 ^ 64)"

definition file_extent :: "nebula_inode \<Rightarrow> u64 \<Rightarrow> nebula_extent_map_entry option" where
  "file_extent i b = List.find (extent_covers b) (ino_extents i)"

text \<open>The device block that holds a logical block, and the byte at a position of the file.\<close>

definition file_phys :: "nebula_inode \<Rightarrow> u64 \<Rightarrow> nat option" where
  "file_phys i b = map_option (\<lambda>e. unat (extent_phys e b)) (file_extent i b)"

definition file_byte :: "(nat \<Rightarrow> byte list) \<Rightarrow> nebula_inode \<Rightarrow> nat \<Rightarrow> byte" where
  "file_byte dsk i p = (case file_phys i (of_nat (p div 4096)) of None \<Rightarrow> 0 | Some q \<Rightarrow> dsk q ! (p mod 4096))"

lemma em_size_blocks_bound: "unat (em_size_blocks e) < 2 ^ 24"
proof -
  have "em_size_blocks e = take_bit 24 (em_size_and_flags e)"
    by (simp add: em_size_blocks_def take_bit_eq_mask mask_eq_exp_minus_1)
  then have "unat (em_size_blocks e) = take_bit 24 (unat (em_size_and_flags e))" by (simp add: unsigned_take_bit_eq)
  then show ?thesis by (simp only: take_bit_nat_less_exp)
qed

lemma extent_scan_find:
  "map_option (\<lambda>k. es ! (k - i)) (extent_scan b es i) = List.find (extent_covers b) es
   \<and> (\<forall>k. extent_scan b es i = Some k \<longrightarrow> i \<le> k)"
proof (induction es arbitrary: i)
  case (Cons e es)
  show ?case
  proof (cases "extent_covers b e")
    case False
    have "map_option (\<lambda>k. (e # es) ! (k - i)) (extent_scan b es (i + 1))
        = map_option (\<lambda>k. es ! (k - (i + 1))) (extent_scan b es (i + 1))"
      using Cons.IH [of "i + 1"] by (cases "extent_scan b es (i + 1)") (auto simp: nth_Cons')
    then show ?thesis using Cons.IH [of "i + 1"] False by auto
  qed simp
qed simp

lemma extent_find_extent:
  assumes "wf_ino i"
  shows "map_option ((!) (ino_extents i)) (extent_find i b) = file_extent i b"
proof -
  have "take NEBULA_EXTENTS_PER_INODE (ino_extents i) = ino_extents i" using assms by (simp add: wf_ino_def)
  then show ?thesis using extent_scan_find [of "ino_extents i" 0 b] by (simp add: extent_find_def file_extent_def)
qed

lemma extent_covers_nat:
  assumes "unat (em_offset e) + unat (em_size_blocks e) < 2 ^ 64"
  shows "extent_covers b e \<longleftrightarrow> unat (em_offset e) \<le> unat b \<and> unat b < unat (em_offset e) + unat (em_size_blocks e)"
proof -
  have "unat (em_offset e + ucast (em_size_blocks e)) = unat (em_offset e) + unat (em_size_blocks e)"
    using assms by (subst unat_plus_if_small) auto
  then show ?thesis by (auto simp: extent_covers_def word_le_nat_alt word_less_nat_alt unat_eq_zero)
qed

lemma unat_extent_phys:
  assumes "unat (em_offset e) + unat (em_size_blocks e) < 2 ^ 64" and "extent_covers b e"
  shows "unat (extent_phys e b) = unat (em_lba e) + (unat b - unat (em_offset e))"
    and "unat (extent_phys e b) \<in> set (ext_list e)"
proof -
  note c = assms(2) [unfolded extent_covers_nat [OF assms(1)]]
  have d: "unat (b - em_offset e) = unat b - unat (em_offset e)" using c by (intro unat_minus_le) simp
  have "unat b - unat (em_offset e) < 16777216" using em_size_blocks_bound [of e] c by (simp, linarith)
  then have "unat (em_lba e) + (unat b - unat (em_offset e)) < 18446744073709551616"
    using unat_u32_less [of "em_lba e"] by linarith
  then show u: "unat (extent_phys e b) = unat (em_lba e) + (unat b - unat (em_offset e))"
    unfolding extent_phys_def by (subst unat_plus_if_small) (auto simp: d)
  then show "unat (extent_phys e b) \<in> set (ext_list e)" using c by (auto simp: ext_list_def)
qed

lemma distinct_concat_map_eq:
  "distinct (concat (map f es)) \<Longrightarrow> x \<in> set es \<Longrightarrow> y \<in> set es \<Longrightarrow> q \<in> set (f x) \<Longrightarrow> q \<in> set (f y) \<Longrightarrow> x = y"
  by (induction es) auto

lemma file_extent_SomeD:
  assumes "file_extent i b = Some e"
  shows "e \<in> set (ino_extents i)" and "extent_covers b e"
  using assms by (auto simp: file_extent_def find_Some_iff)

lemma file_phys_in_list:
  assumes "file_ok L fr i" and "file_phys i b = Some q"
  shows "q \<in> set (file_list i)"
proof -
  obtain e where e: "file_extent i b = Some e" "q = unat (extent_phys e b)" using assms(2) by (auto simp: file_phys_def)
  then show ?thesis using file_extent_SomeD [OF e(1)] assms(1) unat_extent_phys(2) [of e b]
    by (auto simp: file_ok_def file_list_def)
qed

lemma file_phys_inj:
  assumes ok: "file_ok L fr i" and b: "file_phys i b = Some q" and b': "file_phys i b' = Some q"
  shows "b = b'"
proof -
  obtain e where e: "file_extent i b = Some e" "q = unat (extent_phys e b)" using b by (auto simp: file_phys_def)
  obtain e' where e': "file_extent i b' = Some e'" "q = unat (extent_phys e' b')" using b' by (auto simp: file_phys_def)
  note m = file_extent_SomeD [OF e(1)] and m' = file_extent_SomeD [OF e'(1)]
  have w: "unat (em_offset x) + unat (em_size_blocks x) < 2 ^ 64" if "x \<in> set (ino_extents i)" for x
    using ok that by (simp add: file_ok_def)
  note u = unat_extent_phys [OF w [OF m(1)] m(2)] and u' = unat_extent_phys [OF w [OF m'(1)] m'(2)]
  have "distinct (concat (map ext_list (ino_extents i)))" using ok by (simp add: file_ok_def file_list_def)
  from distinct_concat_map_eq [OF this m(1) m'(1)] have "e = e'" using u(2) u'(2) e(2) e'(2) by simp
  moreover have "unat (em_offset e) \<le> unat b" "unat (em_offset e') \<le> unat b'"
    using m(2) m'(2) w [OF m(1)] w [OF m'(1)] by (auto simp: extent_covers_nat)
  ultimately have "unat b = unat b'" using u(1) u'(1) e(2) e'(2) by auto
  then show ?thesis by (simp add: word_unat_eq_iff)
qed

section \<open>Appending an extent\<close>

lemma extent_fill_packed:
  "\<forall>e \<in> set us. em_size_blocks e \<noteq> 0 \<Longrightarrow> \<forall>e \<in> set zs. em_size_blocks e = 0 \<Longrightarrow>
     extent_fill (us @ zs) x = (case zs of [] \<Rightarrow> None | z # zs' \<Rightarrow> Some (us @ x # zs'))"
  by (induction us) (auto split: list.splits)

lemma ext_list_empty: "\<forall>e \<in> set zs. em_size_blocks e = 0 \<Longrightarrow> concat (map ext_list zs) = []"
  by (induction zs) (auto simp: ext_list_def)

lemma find_empty: "\<forall>e \<in> set zs. em_size_blocks e = 0 \<Longrightarrow> List.find (extent_covers b) zs = None"
  by (auto simp: find_None_iff extent_covers_def)

lemma find_append: "List.find P (xs @ ys) = (case List.find P xs of None \<Rightarrow> List.find P ys | Some x \<Rightarrow> Some x)"
  by (induction xs) auto

lemma unat_u32_of_u64: "unat (lba :: u64) < 2 ^ 32 \<Longrightarrow> unat (ucast lba :: u32) = unat lba"
  by (simp add: unsigned_ucast_eq take_bit_nat_eq_self)

text \<open>
  Appending a freshly allocated run: the invariant holds with those blocks no longer free, the blocks
  already mapped stay where they are, and the unmapped ones of the new range get the new blocks.
\<close>

lemma extent_append_ok:
  assumes ok: "file_ok L fr i" and ap: "extent_append i b n lba = Inr i'"
    and n: "0 < unat n" "unat n < 2 ^ 24" and fit: "unat lba + unat n \<le> 2 ^ 32" "unat b + unat n < 2 ^ 64"
    and run: "{unat lba..<unat lba + unat n} \<subseteq> fr"
      "{unat lba..<unat lba + unat n} \<subseteq> {unat (lay_data_start_lba L)..<unat (lay_alloc_roots_tail_lba L)}"
  shows "file_ok L (fr - {unat lba..<unat lba + unat n}) i'"
    and "set (file_list i') = set (file_list i) \<union> {unat lba..<unat lba + unat n}"
    and "file_phys i' c = (case file_phys i c of Some q \<Rightarrow> Some q
          | None \<Rightarrow> if unat b \<le> unat c \<and> unat c < unat b + unat n then Some (unat lba + (unat c - unat b)) else None)"
    and "i' = i\<lparr>ino_extents := ino_extents i'\<rparr>"
proof -
  let ?x = "\<lparr>em_offset = b, em_size_and_flags = n AND 0x00FFFFFF, em_lba = ucast lba :: u32\<rparr>"
  obtain us zs where es: "ino_extents i = us @ zs" "\<forall>e \<in> set us. em_size_blocks e \<noteq> 0" "\<forall>e \<in> set zs. em_size_blocks e = 0"
    using ok by (auto simp: file_ok_def packed_def)
  obtain z zs' where zs: "zs = z # zs'" and i': "i' = i\<lparr>ino_extents := us @ ?x # zs'\<rparr>"
    using ap extent_fill_packed [OF es(2,3)] by (cases zs) (auto simp: extent_append_def es(1))
  have "n AND 0x00FFFFFF = take_bit 24 n" by (simp add: take_bit_eq_mask mask_eq_exp_minus_1)
  also have "\<dots> = n" using n(2) by (simp add: word_unat_eq_iff unsigned_take_bit_eq take_bit_nat_eq_self)
  finally have sz: "em_size_blocks ?x = n" by (simp add: em_size_blocks_def)
  have lba: "unat (ucast lba :: u32) = unat lba" using fit(1) n(1) by (intro unat_u32_of_u64) linarith
  have xl: "ext_list ?x = [unat lba..<unat lba + unat n]" using lba by (simp add: ext_list_def sz)
  have fl: "file_list i = concat (map ext_list us)"
    using ext_list_empty [OF es(3)] by (simp add: file_list_def es(1))
  have fl': "file_list i' = file_list i @ [unat lba..<unat lba + unat n]"
    unfolding fl unfolding i' file_list_def using ext_list_empty [of zs'] es(3) zs by (simp add: xl)
  then show "set (file_list i') = set (file_list i) \<union> {unat lba..<unat lba + unat n}" by simp
  have old: "distinct (file_list i)"
    "set (file_list i) \<subseteq> {unat (lay_data_start_lba L)..<unat (lay_alloc_roots_tail_lba L)} - fr"
    "\<forall>e \<in> set (ino_extents i). unat (em_offset e) + unat (em_size_blocks e) < 2 ^ 64" "wf_ino i"
    using ok by (auto simp: file_ok_def)
  have d: "distinct (file_list i')" unfolding fl' using old(1,2) run(1) by auto
  have x0: "em_size_blocks ?x \<noteq> 0" using n(1) sz by (auto simp: unat_gt_0)
  have pk: "packed (ino_extents i')"
    unfolding packed_def using es(2,3) zs x0 by (intro exI [of _ "us @ [?x]"] exI [of _ zs']) (auto simp: i')
  have wf: "wf_ino i'" using old(4) es(1) zs by (simp add: i' wf_ino_def list_all_iff wf_em_def)
  have off: "unat (em_offset e) + unat (em_size_blocks e) < 2 ^ 64" if "e \<in> set (ino_extents i')" for e
  proof (cases "e = ?x")
    case True
    then show ?thesis using fit(2) sz by simp
  next
    case False
    then show ?thesis using that old(3) es(1) zs by (auto simp: i')
  qed
  show "file_ok L (fr - {unat lba..<unat lba + unat n}) i'"
    unfolding file_ok_def using wf pk d off old(2) run(2) by (auto simp: fl')
  show "i' = i\<lparr>ino_extents := ino_extents i'\<rparr>" by (simp add: i')
  have cx: "extent_covers c ?x \<longleftrightarrow> unat b \<le> unat c \<and> unat c < unat b + unat n"
    using extent_covers_nat [of ?x c] fit(2) sz by simp
  have ux: "unat (extent_phys ?x c) = unat lba + (unat c - unat b)" if "extent_covers c ?x"
    using unat_extent_phys(1) [OF _ that] fit(2) sz lba by simp
  have "file_extent i c = List.find (extent_covers c) us"
    unfolding file_extent_def es(1) find_append using find_empty [OF es(3)] by (auto split: option.splits)
  moreover have "file_extent i' c = (case List.find (extent_covers c) us of Some e \<Rightarrow> Some e
      | None \<Rightarrow> if extent_covers c ?x then Some ?x else None)"
    using find_empty [of zs' c] es(3) zs by (auto simp: file_extent_def i' find_append split: option.splits)
  ultimately show "file_phys i' c = (case file_phys i c of Some q \<Rightarrow> Some q
          | None \<Rightarrow> if unat b \<le> unat c \<and> unat c < unat b + unat n then Some (unat lba + (unat c - unat b)) else None)"
    using cx ux by (auto simp: file_phys_def split: option.splits)
qed

lemma extent_append_error: "extent_append i b n lba = Inl e \<Longrightarrow> e = ENOSPC"
  by (auto simp: extent_append_def split: option.splits)

end
