(* ===== verification/Nebula_File_Rw.thy ===== *)
theory Nebula_File_Rw
  imports Nebula_File
begin

text \<open>
  Correctness of the read, write and delete paths of \<open>src/nebula/nebula_file.c\<close>: the bytes a read
  returns, the effect of a write on the bytes of the file and on every other block of the device, and
  the blocks a deletion gives back.
\<close>

section \<open>Runs of bytes within one block\<close>

lemma run_in_block:
  fixes p j :: nat
  assumes "j < 4096 - p mod 4096"
  shows "(p + j) div 4096 = p div 4096" and "(p + j) mod 4096 = p mod 4096 + j"
proof -
  have e: "p + j = p mod 4096 + j + p div 4096 * 4096" by simp
  have l: "p mod 4096 + j < 4096" using assms by linarith
  show "(p + j) div 4096 = p div 4096" unfolding e using l by (subst div_mult_self1) auto
  show "(p + j) mod 4096 = p mod 4096 + j" unfolding e using l by (subst mod_mult_self1) auto
qed

definition file_bytes :: "(nat \<Rightarrow> byte list) \<Rightarrow> nebula_inode \<Rightarrow> nat \<Rightarrow> nat \<Rightarrow> byte list" where
  "file_bytes dsk i p n = map (file_byte dsk i) [p..<p + n]"

lemma length_file_bytes [simp]: "length (file_bytes dsk i p n) = n"
  by (simp add: file_bytes_def)

lemma file_bytes_append: "file_bytes dsk i p n @ file_bytes dsk i (p + n) k = file_bytes dsk i p (n + k)"
  using upt_add_eq_append [of p "p + n" k] by (simp add: file_bytes_def add.assoc)

lemma file_bytes_in_block:
  assumes "n \<le> 4096 - p mod 4096" and "\<And>q. length (dsk q) = 4096"
  shows "file_bytes dsk i p n = (case file_phys i (of_nat (p div 4096)) of
     None \<Rightarrow> zeros n | Some q \<Rightarrow> seg (p mod 4096) n (dsk q))"
proof (rule nth_equalityI)
  show "length (file_bytes dsk i p n) = length (case file_phys i (of_nat (p div 4096)) of
     None \<Rightarrow> zeros n | Some q \<Rightarrow> seg (p mod 4096) n (dsk q))"
    using assms by (simp split: option.splits)
  fix j assume "j < length (file_bytes dsk i p n)"
  then have j: "j < n" "j < 4096 - p mod 4096" using assms(1) by auto
  note r = run_in_block [OF j(2)]
  have "p mod 4096 + j < 4096" using j(2) by linarith
  then show "file_bytes dsk i p n ! j = (case file_phys i (of_nat (p div 4096)) of
     None \<Rightarrow> zeros n | Some q \<Rightarrow> seg (p mod 4096) n (dsk q)) ! j"
    using j assms(2) by (simp add: file_bytes_def file_byte_def r split: option.splits)
qed

text \<open>Word positions as natural numbers.\<close>

lemma unat_position:
  fixes off :: u64
  assumes "unat off + k < 2 ^ 64"
  shows "unat (off + of_nat k) = unat off + k"
    and "(off + of_nat k) div 4096 = of_nat ((unat off + k) div 4096)"
    and "unat ((off + of_nat k) mod 4096) = (unat off + k) mod 4096"
proof -
  have "unat (of_nat k :: u64) = k" using assms by (intro unat_of_nat_u64) simp
  then show u: "unat (off + of_nat k) = unat off + k" using assms by (subst unat_plus_if_small) auto
  show "unat ((off + of_nat k) mod 4096) = (unat off + k) mod 4096" by (simp add: unat_mod u)
  have "unat ((off + of_nat k) div 4096) = (unat off + k) div 4096" by (simp add: unat_div u)
  moreover have "unat (of_nat ((unat off + k) div 4096) :: u64) = (unat off + k) div 4096"
    using assms by (intro unat_of_nat_u64) (simp add: less_mult_imp_div_less)
  ultimately show "(off + of_nat k) div 4096 = of_nat ((unat off + k) div 4096)"
    by (simp add: word_unat_eq_iff)
qed

section \<open>Reading\<close>

context block_backend
begin

lemma data_block_in_range:
  assumes "mount_inv ops dinv L m" and "file_ok L fr i" and "file_phys i b = Some q"
  shows "unat (lay_data_start_lba L) \<le> q" and "q < unat (lay_alloc_roots_tail_lba L)" and "q < mcap m"
    and "131 + unat (lay_bitmap_block_count L) \<le> q" and "unat (lay_inode_page_lba L) + inode_count L \<le> q"
proof -
  show d: "unat (lay_data_start_lba L) \<le> q" "q < unat (lay_alloc_roots_tail_lba L)"
    using file_phys_in_list [OF assms(2,3)] assms(2) by (auto simp: file_ok_def)
  then show "q < mcap m" using mount_inv_geometry(10,11) [OF assms(1)] by (auto simp: layout_tiles_def)
  show "131 + unat (lay_bitmap_block_count L) \<le> q" "unat (lay_inode_page_lba L) + inode_count L \<le> q"
    using d(1) mount_inv_geometry(11) [OF assms(1)] by (auto simp: layout_tiles_def)
qed

lemma file_read_loop_cases:
  assumes "mount_inv ops dinv L m" and "file_ok L fr (f_inode f)"
    and "file_read_loop m f off len got = (r, got', m')" and "unat off + len < 2 ^ 64"
    and "got = file_bytes (mdisk m) (f_inode f) (unat off) (length got)" and "length got \<le> len"
  shows "mount_next L m m' \<and> m_bitmap m' = m_bitmap m \<and> mdisk m' = mdisk m
    \<and> got' = file_bytes (mdisk m) (f_inode f) (unat off) (length got') \<and> length got' \<le> len
    \<and> (\<forall>u. r = Inr u \<longrightarrow> length got' = len) \<and> (mup m \<longrightarrow> r = Inr ())"
  using assms(1,3,5,6)
proof (induction "len - length got" arbitrary: m got rule: less_induct)
  case less
  note inv = less.prems(1)
  show ?case
  proof (cases "length got < len")
    case False
    then show ?thesis using less.prems mount_next_refl [OF inv] by (auto simp: file_read_loop.simps [of m f off len got])
  next
    case True
    let ?i = "f_inode f" and ?p = "unat off + length got"
    have small: "unat off + length got < 2 ^ 64" using assms(4) True by linarith
    note pos = unat_position [OF small]
    define n where "n = min (4096 - ?p mod 4096) (len - length got)"
    have n: "0 < n" "n \<le> 4096 - ?p mod 4096" "length got + n \<le> len" using True by (auto simp: n_def)
    have wf: "wf_ino ?i" using assms(2) by (simp add: file_ok_def)
    define b where "b = (of_nat (?p div 4096) :: u64)"
    note fb = file_bytes_in_block [of n ?p "mdisk m" ?i, OF n(2) blk_length, folded b_def]
    have step: "got @ file_bytes (mdisk m) ?i ?p n = file_bytes (mdisk m) ?i (unat off) (length got + n)"
      using file_bytes_append [of "mdisk m" ?i "unat off" "length got" n] less.prems(3) by metis
    note sim = file_read_loop.simps [of m f off len got, unfolded Let_def pos(2,3), folded b_def]
    show ?thesis
    proof (cases "extent_find ?i b")
      case None
      then have ph: "file_phys ?i b = None" using extent_find_extent [OF wf, of b] by (simp add: file_phys_def)
      have rec: "file_read_loop m f off len (got @ file_bytes (mdisk m) ?i ?p n) = (r, got', m')"
        using less.prems(2) sim True None ph fb by (simp add: n_def)
      have "len - length (got @ file_bytes (mdisk m) ?i ?p n) < len - length got" using n True by simp
      from less.hyps [OF this inv rec] show ?thesis using step n(3) by simp
    next
      case (Some k)
      let ?e = "ino_extents ?i ! k"
      have fe: "file_extent ?i b = Some ?e" using extent_find_extent [OF wf, of b] Some by simp
      then have ph: "file_phys ?i b = Some (unat (extent_phys ?e b))" by (simp add: file_phys_def)
      obtain q m1 where rd: "mount_read m (extent_phys ?e b) 1 = (q, m1)" by (rule prod.exhaust)
      note fr = mount_read_frame [OF inv rd]
      have cap: "unat (extent_phys ?e b) < mcap m" using data_block_in_range(3) [OF inv assms(2) ph] .
      show ?thesis
      proof (cases q)
        case (Inl e)
        then have "r = Inl e" "got' = got" "m' = m1" using less.prems(2) sim True Some rd by auto
        moreover have "\<not> mup m" using mount_read1_up [OF inv _ cap rd] Inl by auto
        ultimately show ?thesis using fr less.prems(3,4) by auto
      next
        case (Inr bs)
        have bs: "bs = mdisk m (unat (extent_phys ?e b))" using mount_read1_ok(2) [OF inv rd [unfolded Inr]] .
        have sg: "seg (?p mod 4096) n bs = file_bytes (mdisk m) ?i ?p n" using fb ph bs by simp
        have rec: "file_read_loop m1 f off len (got @ file_bytes (mdisk m) ?i ?p n) = (r, got', m')"
          using less.prems(2) sim True Some rd Inr sg by (simp add: n_def [symmetric])
        have "len - length (got @ file_bytes (mdisk m) ?i ?p n) < len - length got" using n True by simp
        note IH = less.hyps [OF this mount_next_inv [OF fr(1)] rec, unfolded fr(2,3)]
        show ?thesis using IH step n(3) mount_next_trans [OF fr(1)] mount_next_up [OF fr(1)] by auto
      qed
    qed
  qed
qed

lemma file_read_cases:
  assumes inv: "mount_inv ops dinv L m" and ok: "file_ok L fr (f_inode f)"
    and rd: "nebula_file_read m f off len t = (r, f', m')" and fit: "unat off + unat len < 2 ^ 64"
    and fl: "f_flags f AND NEBULA_O_RDONLY \<noteq> 0"
  defines "n \<equiv> min (unat len) (unat (ino_size_bytes (f_inode f)) - unat off)"
  shows "mount_next L m m'" and "m_bitmap m' = m_bitmap m" and "mdisk m' = mdisk m"
    and "r = Inr bs \<Longrightarrow> length bs \<le> n \<and> bs = file_bytes (mdisk m) (f_inode f) (unat off) (length bs)"
    and "mup m \<Longrightarrow> r = Inr (file_bytes (mdisk m) (f_inode f) (unat off) n)"
    and "\<exists>t'. f_inode f' = (f_inode f)\<lparr>ino_atime_ns := t'\<rparr>"
proof (atomize (full), goal_cases)
  case 1
  let ?i = "f_inode f" and ?sz = "ino_size_bytes (f_inode f)"
  have t0: "\<exists>t'. ?i = ?i\<lparr>ino_atime_ns := t'\<rparr>" by (rule exI [of _ "ino_atime_ns ?i"]) simp
  show ?case
  proof (cases "len = 0 \<or> off \<ge> ?sz")
    case True
    then have "r = Inr []" "m' = m" "f' = f" "n = 0"
      using rd fl by (auto simp: nebula_file_read_def n_def word_le_nat_alt split: if_splits)
    then show ?thesis using mount_next_refl [OF inv] t0 by (auto simp: file_bytes_def)
  next
    case False
    define len' where "len' = (if off + len > ?sz then ?sz - off else len)"
    have "unat (off + len) = unat off + unat len" using fit by (subst unat_plus_if_small) auto
    moreover have lt: "unat off < unat ?sz" using False by (simp add: word_le_nat_alt)
    moreover have "unat (?sz - off) = unat ?sz - unat off" using lt by (intro unat_minus_le) simp
    ultimately have len': "unat len' = n" by (auto simp: len'_def n_def word_less_nat_alt)
    obtain q got m1 where lp: "file_read_loop m f off (unat len') [] = (q, got, m1)" by (rule prod_cases3)
    have nfit: "unat off + unat len' < 2 ^ 64" using fit len' by (simp add: n_def)
    note c = file_read_loop_cases [OF inv ok lp nfit]
    have m': "m' = m1" and f': "\<exists>t'. f_inode f' = ?i\<lparr>ino_atime_ns := t'\<rparr>"
      using rd fl False lp t0 unfolding nebula_file_read_def len'_def [symmetric]
      by (auto simp: Let_def len'_def [symmetric] split: sum.splits)
    have r: "r = (case q of Inl e \<Rightarrow> if got \<noteq> [] then Inr got else Inl e | Inr _ \<Rightarrow> Inr got)"
      using rd fl False lp unfolding nebula_file_read_def
      by (auto simp: Let_def len'_def [symmetric] split: sum.splits)
    have "got = file_bytes (mdisk m) ?i (unat off) n" if "q = Inr u" for u using c that len' by (auto simp: file_bytes_def)
    then show ?thesis using c r m' f' len' by (auto simp: file_bytes_def split: sum.splits if_splits)
  qed
qed

end

section \<open>Writing\<close>

text \<open>Free blocks lie in the data region: what formatting establishes and every operation keeps.\<close>

definition data_free :: "nebula_layout \<Rightarrow> 'd nebula_mount \<Rightarrow> bool" where
  "data_free L m \<longleftrightarrow>
     hbm_free (m_bitmap m) \<subseteq> {unat (lay_data_start_lba L)..<unat (lay_alloc_roots_tail_lba L)}"

text \<open>Extents hold 32-bit addresses, so the write path is stated for devices of at most \<open>2 ^ 32\<close> blocks.\<close>

definition addressable :: "nebula_layout \<Rightarrow> bool" where
  "addressable L \<longleftrightarrow> unat (lay_capacity_blocks L) \<le> 2 ^ 32"

lemma write_need_blks_bounds: "0 < unat (write_need_blks x y)" "unat (write_need_blks x y) \<le> 256"
  by (auto simp: write_need_blks_def Let_def unat_gt_0 word_less_nat_alt not_less)

lemma in_block_iff:
  fixes p c n :: nat
  assumes "n \<le> 4096 - c mod 4096"
  shows "p div 4096 = c div 4096 \<and> c mod 4096 \<le> p mod 4096 \<and> p mod 4096 < c mod 4096 + n \<longleftrightarrow> c \<le> p \<and> p < c + n"
    and "p div 4096 = c div 4096 \<Longrightarrow> c \<le> p \<Longrightarrow> p mod 4096 - c mod 4096 = p - c"
proof -
  have p: "p = 4096 * (p div 4096) + p mod 4096" and c: "c = 4096 * (c div 4096) + c mod 4096" by simp_all
  show "p div 4096 = c div 4096 \<and> c mod 4096 \<le> p mod 4096 \<and> p mod 4096 < c mod 4096 + n \<longleftrightarrow> c \<le> p \<and> p < c + n"
  proof
    assume "p div 4096 = c div 4096 \<and> c mod 4096 \<le> p mod 4096 \<and> p mod 4096 < c mod 4096 + n"
    then show "c \<le> p \<and> p < c + n" using p c by linarith
  next
    assume a: "c \<le> p \<and> p < c + n"
    then obtain j where j: "p = c + j" "j < n" by (metis add_less_cancel_left le_Suc_ex)
    then have "j < 4096 - c mod 4096" using assms by simp
    from run_in_block [OF this] j show "p div 4096 = c div 4096 \<and> c mod 4096 \<le> p mod 4096 \<and> p mod 4096 < c mod 4096 + n"
      by simp
  qed
  show "p div 4096 = c div 4096 \<Longrightarrow> c \<le> p \<Longrightarrow> p mod 4096 - c mod 4096 = p - c" using p c by linarith
qed

lemma file_byte_put:
  assumes ok: "file_ok L fr i" and ph: "file_phys i (of_nat (c div 4096)) = Some q" and c: "c < 2 ^ 64"
    and n: "length bs \<le> 4096 - c mod 4096" and len: "length (dsk q) = 4096" and p: "p < 2 ^ 64"
  shows "file_byte (dsk(q := put (c mod 4096) bs (dsk q))) i p
    = (if c \<le> p \<and> p < c + length bs then bs ! (p - c) else file_byte dsk i p)"
proof (cases "p div 4096 = c div 4096")
  case True
  have "c mod 4096 + length bs \<le> length (dsk q)" using n len by simp
  note np = nth_put [OF this, of "p mod 4096"]
  have "file_byte (dsk(q := put (c mod 4096) bs (dsk q))) i p = put (c mod 4096) bs (dsk q) ! (p mod 4096)"
    using True ph by (simp add: file_byte_def)
  also have "\<dots> = (if c mod 4096 \<le> p mod 4096 \<and> p mod 4096 < c mod 4096 + length bs
      then bs ! (p mod 4096 - c mod 4096) else dsk q ! (p mod 4096))" using np len by simp
  also have "\<dots> = (if c \<le> p \<and> p < c + length bs then bs ! (p - c) else file_byte dsk i p)"
    using in_block_iff(1) [OF n, of p] in_block_iff(2) [OF n True] True ph by (auto simp: file_byte_def)
  finally show ?thesis .
next
  case False
  have u: "unat (of_nat (x div 4096) :: u64) = x div 4096" if "x < 2 ^ 64" for x
    using that by (intro unat_of_nat_u64) (simp add: less_mult_imp_div_less)
  have "(of_nat (p div 4096) :: u64) \<noteq> of_nat (c div 4096)" using u [OF p] u [OF c] False by metis
  then have "file_phys i (of_nat (p div 4096)) \<noteq> Some q" using file_phys_inj [OF ok _ ph] by blast
  then show ?thesis using False in_block_iff(1) [OF n, of p] by (auto simp: file_byte_def split: option.splits)
qed

context block_backend
begin

text \<open>
  One file grows from a state to another: the invariants hold again, no block becomes free, blocks
  already mapped stay, new ones were free, and every block outside the bitmap region that was neither
  free nor the file's is unchanged.
\<close>

definition grows :: "nebula_layout \<Rightarrow> 'd nebula_mount \<Rightarrow> nebula_inode \<Rightarrow> 'd nebula_mount \<Rightarrow> nebula_inode \<Rightarrow> bool" where
  "grows L m i m' i' \<longleftrightarrow> mount_next L m m' \<and> data_free L m' \<and> file_ok L (hbm_free (m_bitmap m')) i'
     \<and> hbm_free (m_bitmap m') \<subseteq> hbm_free (m_bitmap m)
     \<and> (\<forall>c x. file_phys i c = Some x \<longrightarrow> file_phys i' c = Some x)
     \<and> set (file_list i) \<subseteq> set (file_list i') \<and> set (file_list i') \<subseteq> set (file_list i) \<union> hbm_free (m_bitmap m)
     \<and> i' = i\<lparr>ino_extents := ino_extents i'\<rparr>
     \<and> (\<forall>a. a \<notin> set (file_list i) \<and> a \<notin> hbm_free (m_bitmap m) \<and> (a < 131 \<or> 131 + unat (lay_bitmap_block_count L) \<le> a)
          \<longrightarrow> mdisk m' a = mdisk m a)"

lemma grows_refl:
  assumes "mount_inv ops dinv L m" and "data_free L m" and "file_ok L (hbm_free (m_bitmap m)) i"
  shows "grows L m i m i"
  using mount_next_refl [OF assms(1)] assms by (auto simp: grows_def)

lemma grows_trans:
  assumes a: "grows L m i m1 i1" and b: "grows L m1 i1 m2 i2"
  shows "grows L m i m2 i2"
proof -
  have "mount_next L m m2" using a b mount_next_trans unfolding grows_def by blast
  moreover have "i2 = i\<lparr>ino_extents := ino_extents i2\<rparr>"
  proof -
    have e: "i2 = i1\<lparr>ino_extents := ino_extents i2\<rparr>" "i1 = i\<lparr>ino_extents := ino_extents i1\<rparr>"
      using a b unfolding grows_def by blast+
    show ?thesis using trans [OF e(1) arg_cong [OF e(2), of "\<lambda>z. z\<lparr>ino_extents := ino_extents i2\<rparr>"]] by simp
  qed
  ultimately show ?thesis using a b unfolding grows_def by (auto 0 4)
qed

lemma file_write_target_cases:
  assumes inv: "mount_inv ops dinv L m" and df: "data_free L m" and ad: "addressable L"
    and ok: "file_ok L (hbm_free (m_bitmap m)) (f_inode f)" and b: "unat b + 256 < 2 ^ 64"
    and tg: "file_write_target m f b left o1 = (r, f', m')"
  shows "grows L m (f_inode f) m' (f_inode f')" and "f_flags f' = f_flags f"
    and "131 + unat (lay_bitmap_block_count L) \<le> a \<Longrightarrow> mdisk m' a = mdisk m a"
    and "r = Inr q \<Longrightarrow> file_phys (f_inode f') b = Some (unat q)"
    and "mup m \<Longrightarrow> r = Inl e \<Longrightarrow> e = ENOSPC"
    and "mup m \<or> r = Inr q \<Longrightarrow> bitmap_synced blk L m \<Longrightarrow> bitmap_synced blk L m'"
proof (atomize (full), goal_cases)
  case 1
  let ?i = "f_inode f" and ?fr = "hbm_free (m_bitmap m)" and ?n = "write_need_blks left o1"
  have wf: "wf_ino ?i" using ok by (simp add: file_ok_def)
  note g = mount_inv_geometry [OF inv] and nb = write_need_blks_bounds [of left o1]
  show ?case
  proof (cases "extent_find ?i b")
    case (Some k)
    then have "r = Inr (extent_phys (ino_extents ?i ! k) b)" "f' = f" "m' = m"
      using tg by (auto simp: file_write_target_def)
    moreover have "file_extent ?i b = Some (ino_extents ?i ! k)" using extent_find_extent [OF wf, of b] Some by simp
    ultimately show ?thesis using grows_refl [OF inv df ok] by (auto simp: file_phys_def)
  next
    case None
    then have unmapped: "file_phys ?i b = None" using extent_find_extent [OF wf, of b] by (simp add: file_phys_def)
    obtain q1 m1 where al: "nebula_block_alloc m ?n = (q1, m1)" by (rule prod.exhaust)
    note c = block_alloc_cases [OF inv al]
    show ?thesis
    proof (cases q1)
      case (Inl e1)
      then have r: "r = Inl e1" "f' = f" "m' = m1" using tg None al by (auto simp: file_write_target_def Let_def)
      have same: "m_bitmap m1 = m_bitmap m" using c(3) [OF Inl] .
      have "grows L m ?i m1 ?i" using c(1,2) df ok same unfolding grows_def data_free_def by auto
      then show ?thesis using r c(2) c(5) [OF _ Inl] nb(1) by auto
    next
      case (Inr lba)
      note al1 = c(4) [OF Inr]
      let ?R = "{unat lba..<unat lba + unat ?n}"
      have sub: "?R \<subseteq> ?fr" using al1 by simp
      have data: "?R \<subseteq> {unat (lay_data_start_lba L)..<unat (lay_alloc_roots_tail_lba L)}"
        using sub df unfolding data_free_def by blast
      have fr1: "hbm_free (m_bitmap m1) = ?fr - ?R" using mark_used_ok(2) [OF g(7) nb(1) sub] al1 by simp
      have end32: "unat lba + unat ?n \<le> 2 ^ 32"
        using run_within [OF nb(1) sub] g(8) ad by (simp add: addressable_def)
      show ?thesis
      proof (cases "extent_append ?i b ?n lba")
        case app: (Inr i1)
        have r: "r = Inr lba" "f' = f\<lparr>f_inode := i1, f_dirty := True\<rparr>" "m' = m1"
          using tg None al Inr app by (auto simp: file_write_target_def Let_def)
        have bn: "unat b + unat ?n < 2 ^ 64" "unat ?n < 2 ^ 24" using b nb(2) by simp_all
        note ea = extent_append_ok [OF ok app nb(1) bn(2) end32 bn(1) sub data]
        have ph: "file_phys i1 b = Some (unat lba)" using ea(3) [of b] unmapped nb(1) by simp
        have "grows L m ?i m1 i1"
          unfolding grows_def fr1
        proof (intro conjI)
          show "data_free L m1" using df fr1 unfolding data_free_def by blast
          show "i1 = ?i\<lparr>ino_extents := ino_extents i1\<rparr>" by (rule ea(4))
          show "\<forall>c x. file_phys ?i c = Some x \<longrightarrow> file_phys i1 c = Some x" using ea(3) by simp
        qed (use c(1,2) ea(1,2) sub in auto)
        then show ?thesis using r c(2) al1 ph by auto
      next
        case app: (Inl e1)
        obtain q2 m2 where fe: "nebula_block_free m1 lba ?n = (q2, m2)" by (rule prod.exhaust)
        have r: "r = Inl e1" "f' = f" "m' = m2"
          using tg None al Inr app fe by (auto simp: file_write_target_def Let_def)
        have inv1: "mount_inv ops dinv L m1" using mount_next_inv [OF c(1)] .
        note fc = block_free_cases [OF inv1 fe]
        have used: "?R \<inter> hbm_free (m_bitmap m1) = {}" using fr1 by blast
        have rn: "unat lba + unat ?n \<le> unat (lay_capacity_blocks L)" using run_within [OF nb(1) sub] g(8) by simp
        have bits: "\<forall>k < unat ?n. bit_get (hb_l0_bits (m_bitmap m1)) (unat lba + k)"
        proof (intro allI impI)
          fix k assume "k < unat ?n"
          then have "unat lba + k \<in> ?R" "unat lba + k < unat (lay_capacity_blocks L)" using rn by auto
          then have "unat lba + k \<notin> hbm_free (m_bitmap m1)" "unat lba + k < unat (lay_capacity_blocks L)"
            using used by blast+
          then show "bit_get (hb_l0_bits (m_bitmap m1)) (unat lba + k)"
            using mount_inv_geometry(8) [OF inv1] by (simp add: free_blocks_def)
        qed
        have fr2: "hbm_free (m_bitmap m2) = ?fr" if "q2 = Inr u" for u
          using fc(4) [OF that] mark_free_ok(2) [OF mount_inv_geometry(7) [OF inv1] nb(1) _ used]
            mount_inv_geometry(8) [OF inv1] rn fr1 sub by auto
        have fr2': "hbm_free (m_bitmap m2) \<subseteq> ?fr" using fr2 fc(3) fr1 by (cases q2) auto
        have dead: "set (file_list ?i) \<inter> ?fr = {}" using ok by (auto simp: file_ok_def)
        have "grows L m ?i m2 ?i"
          unfolding grows_def
        proof (intro conjI)
          show "mount_inv ops dinv L m2" "next_io (m_io m) (m_io m2)" "same_meta m m2"
            using mount_next_trans [OF c(1) fc(1)] by simp_all
          show "data_free L m2" using df fr2' unfolding data_free_def by blast
          show "file_ok L (hbm_free (m_bitmap m2)) ?i" using ok fr2' unfolding file_ok_def by blast
        qed (use c(2) fc(2) fr2' in auto)
        moreover have "mup m \<Longrightarrow> q2 = Inr ()"
          using fc(5) [OF mount_next_up [OF c(1)] _ rn bits] nb(1) unat_gt_0 [of ?n] by blast
        ultimately show ?thesis using r c(2) fc(2,4) al1 extent_append_error [OF app] by auto
      qed
    qed
  qed
qed

lemma file_put_block_cases:
  assumes inv: "mount_inv ops dinv L m" and pb: "file_put_block m q o1 bs = (r, m')" and n: "o1 + length bs \<le> 4096"
  shows "mount_next L m m'" and "m_bitmap m' = m_bitmap m" and "a \<noteq> unat q \<Longrightarrow> mdisk m' a = mdisk m a"
    and "r = Inr u \<Longrightarrow> mdisk m' = (mdisk m)(unat q := put o1 bs (mdisk m (unat q)))"
    and "mup m \<Longrightarrow> unat q < mcap m \<Longrightarrow> r = Inr ()"
    and "131 + unat (lay_bitmap_block_count L) \<le> unat q \<Longrightarrow> bitmap_synced blk L m \<Longrightarrow> bitmap_synced blk L m'"
proof (atomize (full), goal_cases)
  case 1
  define rd where "rd = (if o1 \<noteq> 0 \<or> length bs < NEBULA_BLOCK_SIZE then mount_read m q 1 else (Inr (zeros NEBULA_BLOCK_SIZE), m))"
  obtain q1 m1 where rd1: "rd = (q1, m1)" by (rule prod.exhaust)
  have f: "mount_next L m m1" "m_bitmap m1 = m_bitmap m" "mdisk m1 = mdisk m"
    "\<And>e. q1 = Inl e \<Longrightarrow> \<not> (mup m \<and> unat q < mcap m)"
    using rd1 mount_read_frame [OF inv, of q 1 q1 m1] mount_next_refl [OF inv] mount_read1_up [OF inv, of q q1 m1]
    unfolding rd_def by (auto split: if_splits)
  have sy: "bitmap_synced blk L m1 = bitmap_synced blk L m" using f by (simp add: bitmap_synced_def)
  have pb': "(case (q1, m1) of (Inl e, m1) \<Rightarrow> (Inl e, m1) | (Inr b, m1) \<Rightarrow> mount_write m1 q 1 (put o1 bs b)) = (r, m')"
    using pb unfolding file_put_block_def rd_def [symmetric] rd1 .
  show ?case
  proof (cases q1)
    case (Inl e)
    then show ?thesis using pb' f sy by auto
  next
    case (Inr b)
    have w: "mount_write m1 q 1 (put o1 bs b) = (r, m')" using pb' Inr by simp
    note w1 = mount_write1 [OF mount_next_inv [OF f(1)] w]
    have pb2: "put o1 bs b = put o1 bs (mdisk m (unat q)) \<and> length (put o1 bs b) = 4096"
    proof (cases "o1 \<noteq> 0 \<or> length bs < NEBULA_BLOCK_SIZE")
      case True
      then have "mount_read m q 1 = (Inr b, m1)" using rd1 Inr by (simp add: rd_def)
      from mount_read1_ok(2) [OF inv this] show ?thesis using n by (simp add: blk_length)
    next
      case False
      then have "o1 = 0" "length bs = 4096" "b = zeros 4096" using rd1 Inr n by (auto simp: rd_def)
      then show ?thesis using blk_length [of "io_dev (m_io m)" "unat q"] by (simp add: put_def)
    qed
    show ?thesis
      using w1 pb2 f sy mount_next_trans [OF f(1) w1(1)] mount_next_up [OF f(1)] mount_next_cap [OF f(1)]
        mount_write1_synced [OF mount_next_inv [OF f(1)] w] by auto
  qed
qed

end

text \<open>Under \<open>grows\<close>, what was mapped before has the same bytes when its block did not change.\<close>

lemma file_byte_same:
  assumes "file_phys i c = Some q" and "file_phys i' c = Some q" and "dsk' q = dsk q" and "c = of_nat (p div 4096)"
  shows "file_byte dsk' i' p = file_byte dsk i p"
  using assms by (simp add: file_byte_def)

definition write_effect :: "(nat \<Rightarrow> byte list) \<Rightarrow> nebula_inode \<Rightarrow> (nat \<Rightarrow> byte list) \<Rightarrow> nebula_inode
    \<Rightarrow> nat \<Rightarrow> nat \<Rightarrow> byte list \<Rightarrow> bool" where
  "write_effect dsk i dsk' i' p0 p1 bs \<longleftrightarrow>
     (\<forall>p. p0 \<le> p \<and> p < p1 \<longrightarrow> file_phys i' (of_nat (p div 4096)) \<noteq> None \<and> file_byte dsk' i' p = bs ! (p - p0))
     \<and> (\<forall>p < 2 ^ 64. (p < p0 \<or> p1 \<le> p) \<and> file_phys i (of_nat (p div 4096)) \<noteq> None \<longrightarrow>
          file_byte dsk' i' p = file_byte dsk i p)"

lemma write_effect_trans:
  assumes a: "write_effect d i d1 i1 p0 p1 bs" and b: "write_effect d1 i1 d2 i2 p1 p2 cs"
    and o: "p0 \<le> p1" "p1 \<le> p2" "p2 < 2 ^ 64" and l: "length bs = p1 - p0"
    and keep: "\<And>c. file_phys i c \<noteq> None \<Longrightarrow> file_phys i1 c \<noteq> None"
      "\<And>c. file_phys i1 c \<noteq> None \<Longrightarrow> file_phys i2 c \<noteq> None"
  shows "write_effect d i d2 i2 p0 p2 (bs @ cs)"
  unfolding write_effect_def
proof (intro conjI allI impI)
  fix p assume p: "p0 \<le> p \<and> p < p2"
  show "file_phys i2 (of_nat (p div 4096)) \<noteq> None" "file_byte d2 i2 p = (bs @ cs) ! (p - p0)"
  proof (atomize (full), cases "p < p1")
    case True
    then have "file_phys i1 (of_nat (p div 4096)) \<noteq> None \<and> file_byte d1 i1 p = bs ! (p - p0)"
      using a p by (simp add: write_effect_def)
    moreover have "p - p0 < length bs" "p < 2 ^ 64" using True p l o by linarith+
    ultimately show "file_phys i2 (of_nat (p div 4096)) \<noteq> None \<and> file_byte d2 i2 p = (bs @ cs) ! (p - p0)"
      using b True keep(2) by (simp add: write_effect_def nth_append)
  next
    case False
    then have "p - p1 = p - p0 - length bs" "\<not> p - p0 < length bs" using l o p by linarith+
    then show "file_phys i2 (of_nat (p div 4096)) \<noteq> None \<and> file_byte d2 i2 p = (bs @ cs) ! (p - p0)"
      using b False p l by (simp add: write_effect_def nth_append)
  qed
next
  fix p assume p: "p < 2 ^ 64" and q: "(p < p0 \<or> p2 \<le> p) \<and> file_phys i (of_nat (p div 4096)) \<noteq> None"
  then have "file_byte d1 i1 p = file_byte d i p" using a o by (auto simp: write_effect_def)
  moreover have "file_byte d2 i2 p = file_byte d1 i1 p" using b p q o keep(1) by (auto simp: write_effect_def)
  ultimately show "file_byte d2 i2 p = file_byte d i p" by simp
qed

lemma write_effect_refl:
  assumes "\<And>c q. file_phys i c = Some q \<Longrightarrow> file_phys i' c = Some q \<and> dsk' q = dsk q"
  shows "write_effect dsk i dsk' i' p p []"
  using assms by (auto simp: write_effect_def intro!: file_byte_same)

lemma file_phys_extents: "ino_extents i' = ino_extents i \<Longrightarrow> file_phys i' = file_phys i"
  by (rule ext) (simp add: file_phys_def file_extent_def)

lemma file_list_extents: "ino_extents i' = ino_extents i \<Longrightarrow> file_list i' = file_list i"
  by (simp add: file_list_def)

lemma file_byte_extents: "ino_extents i' = ino_extents i \<Longrightarrow> file_byte dsk i' = file_byte dsk i"
  by (rule ext) (simp add: file_byte_def file_phys_def file_extent_def)

lemma file_ok_extents: "file_ok L fr i \<Longrightarrow> ino_extents i' = ino_extents i \<Longrightarrow> wf_ino i' \<Longrightarrow> file_ok L fr i'"
  using file_list_extents [of i' i] by (simp add: file_ok_def)

lemma file_ok_fewer_free: "file_ok L fr i \<Longrightarrow> fr' \<inter> set (file_list i) = {} \<Longrightarrow> file_ok L fr' i"
  by (auto simp: file_ok_def)

lemma file_grow_simps [simp]:
  "ino_extents (file_grow i e) = ino_extents i" "ino_inode_num (file_grow i e) = ino_inode_num i"
  "ino_type (file_grow i e) = ino_type i" "wf_ino (file_grow i e) = wf_ino i"
  "ino_size_bytes (file_grow i e) = max (ino_size_bytes i) e"
  by (auto simp: file_grow_def wf_ino_def max_def)

lemma file_write_bytes:
  assumes "write_effect dsk i dsk' i' p (p + length buf) buf"
  shows "file_bytes dsk' i' p (length buf) = buf"
  using assms by (intro nth_equalityI) (auto simp: file_bytes_def write_effect_def)

context block_backend
begin

lemma grows_keeps: "grows L m i m' i' \<Longrightarrow> file_phys i c \<noteq> None \<Longrightarrow> file_phys i' c \<noteq> None"
  by (auto simp: grows_def)

lemma put_block_effect:
  assumes ok: "file_ok L fr i" and ph: "file_phys i (of_nat (c div 4096)) = Some q" and c: "c + length bs < 2 ^ 64"
    and n: "length bs \<le> 4096 - c mod 4096"
    and d: "mdisk m' = (mdisk m)(q := put (c mod 4096) bs (mdisk m q))"
  shows "write_effect (mdisk m) i (mdisk m') i c (c + length bs) bs"
proof -
  note fp = file_byte_put [where dsk = "mdisk m" and q = q, OF ok ph _ n blk_length, folded d]
  have "file_phys i (of_nat (p div 4096)) \<noteq> None" if "c \<le> p" "p < c + length bs" for p
    using in_block_iff(1) [OF n, of p] that ph by auto
  then show ?thesis unfolding write_effect_def using fp c by auto
qed

lemma file_write_loop_cases:
  assumes "mount_inv ops dinv L m" and "data_free L m" and ad: "addressable L"
    and "file_ok L (hbm_free (m_bitmap m)) (f_inode f)" and fit: "unat off + length buf < 2 ^ 63" and "w \<le> length buf"
    and "file_write_loop m f off buf w = (r, w', f', m')"
  shows "grows L m (f_inode f) m' (f_inode f') \<and> f_flags f' = f_flags f \<and> w \<le> w' \<and> w' \<le> length buf
    \<and> (\<forall>u. r = Inr u \<longrightarrow> w' = length buf) \<and> (\<forall>e. r = Inl e \<longrightarrow> w' < length buf)
    \<and> (mup m \<or> r = Inr () \<longrightarrow>
         write_effect (mdisk m) (f_inode f) (mdisk m') (f_inode f') (unat off + w) (unat off + w') (seg w (w' - w) buf)
         \<and> (bitmap_synced blk L m \<longrightarrow> bitmap_synced blk L m'))
    \<and> (mup m \<longrightarrow> r = Inr () \<or> r = Inl ENOSPC)"
  using assms(1,2,4,6,7)
proof (induction "length buf - w" arbitrary: m f w rule: less_induct)
  case less
  note inv = less.prems(1) and df = less.prems(2) and ok = less.prems(3)
  let ?i = "f_inode f"
  show ?case
  proof (cases "w < length buf")
    case False
    then have "r = Inr ()" "w' = w" "f' = f" "m' = m" using less.prems(5) by (auto simp: file_write_loop.simps [of m f off buf w])
    then show ?thesis using False less.prems(4) grows_refl [OF inv df ok] write_effect_refl [of ?i ?i "mdisk m" "mdisk m"]
      by (auto simp: seg_def)
  next
    case True
    let ?p = "unat off + w"
    have small: "?p < 2 ^ 64" using fit True by simp
    note pos = unat_position [OF small]
    define n where "n = min (4096 - ?p mod 4096) (length buf - w)"
    have n: "0 < n" "n \<le> 4096 - ?p mod 4096" "w + n \<le> length buf" using True by (auto simp: n_def)
    define b where "b = (of_nat (?p div 4096) :: u64)"
    have "?p div 4096 < 2 ^ 51" using fit True by (simp add: less_mult_imp_div_less)
    then have b256: "unat b + 256 < 2 ^ 64" by (simp add: b_def unat_of_nat_u64)
    obtain q1 f1 m1 where tg: "file_write_target m f b (of_nat (length buf - w)) (of_nat (?p mod 4096)) = (q1, f1, m1)"
      by (rule prod_cases3)
    note t = file_write_target_cases [OF inv df ad ok b256 tg]
    have t0: "mount_next L m m1" "data_free L m1" "file_ok L (hbm_free (m_bitmap m1)) (f_inode f1)"
      using t(1) by (auto simp: grows_def)
    note inv1 = mount_next_inv [OF t0(1)]
    have e1: "write_effect (mdisk m) ?i (mdisk m1) (f_inode f1) x x []" for x
    proof (rule write_effect_refl)
      fix c q assume q: "file_phys ?i c = Some q"
      show "file_phys (f_inode f1) c = Some q \<and> mdisk m1 q = mdisk m q"
        using t(1) q t(3) data_block_in_range(4) [OF inv ok q] by (simp add: grows_def)
    qed
    note sim = file_write_loop.simps [of m f off buf w, unfolded Let_def pos(2,3), folded b_def]
    show ?thesis
    proof (cases q1)
      case (Inl e)
      then have "r = Inl e" "w' = w" "f' = f1" "m' = m1" using less.prems(5) sim True tg by auto
      then show ?thesis using t e1 True Inl by (auto simp: seg_def)
    next
      case (Inr q)
      note ph = t(4) [OF Inr]
      let ?bs = "seg w n buf"
      obtain q2 m2 where pb: "file_put_block m1 q (?p mod 4096) ?bs = (q2, m2)" by (rule prod.exhaust)
      have ln: "length ?bs = n" using n by simp
      have "?p mod 4096 + length ?bs \<le> 4096" using n(2) ln by linarith
      note c = file_put_block_cases [OF inv1 pb this]
      note inv2 = mount_next_inv [OF c(1)]
      note rg = data_block_in_range [OF inv1 t0(3) ph]
      have qin: "unat q \<in> set (file_list (f_inode f1))" by (rule file_phys_in_list [OF t0(3) ph])
      have g2: "grows L m1 (f_inode f1) m2 (f_inode f1)"
        unfolding grows_def c(2)
      proof (intro conjI)
        show "\<forall>a. a \<notin> set (file_list (f_inode f1)) \<and> a \<notin> hbm_free (m_bitmap m1)
            \<and> (a < 131 \<or> 131 + unat (lay_bitmap_block_count L) \<le> a) \<longrightarrow> mdisk m2 a = mdisk m1 a"
          using c(3) qin by metis
      qed (use c(1) t0 in \<open>auto simp: data_free_def c(2)\<close>)
      have g: "grows L m ?i m2 (f_inode f1)" by (rule grows_trans [OF t(1) g2])
      show ?thesis
      proof (cases q2)
        case fail: (Inl e)
        then have "r = Inl e" "w' = w" "f' = f1" "m' = m2" using less.prems(5) sim True tg Inr pb by (auto simp: n_def)
        moreover have "\<not> mup m" using c(5) rg(3) fail mount_next_up [OF t0(1)] by auto
        ultimately show ?thesis using g t(2) True by auto
      next
        case go: (Inr v)
        have rec: "file_write_loop m2 (f1\<lparr>f_dirty := True\<rparr>) off buf (w + n) = (r, w', f', m')"
          using less.prems(5) sim True tg Inr pb go by (simp add: n_def [symmetric])
        have fi: "f_inode (f1\<lparr>f_dirty := True\<rparr>) = f_inode f1" "f_flags (f1\<lparr>f_dirty := True\<rparr>) = f_flags f1" by simp_all
        have dec: "length buf - (w + n) < length buf - w" using n True by simp
        have ok2: "data_free L m2" "file_ok L (hbm_free (m_bitmap m2)) (f_inode (f1\<lparr>f_dirty := True\<rparr>))"
          using g by (auto simp: grows_def)
        note IH = less.hyps [OF dec inv2 ok2 n(3) rec, unfolded fi]
        have pe: "write_effect (mdisk m1) (f_inode f1) (mdisk m2) (f_inode f1) ?p (?p + n) ?bs"
          using put_block_effect [OF t0(3), of ?p "unat q" ?bs m2 m1] ph c(4) [OF go] n fit ln by (simp add: b_def)
        have e2: "write_effect (mdisk m) ?i (mdisk m2) (f_inode f1) ?p (?p + n) ?bs"
          using write_effect_trans [OF e1 pe] n fit grows_keeps [OF t(1)] by simp
        have up2: "mup m \<Longrightarrow> mup m2" using mount_next_up [OF t0(1)] mount_next_up [OF c(1)] by blast
        have gI: "grows L m2 (f_inode f1) m' (f_inode f')" using IH by (rule conjunct1)
        have wI: "f_flags f' = f_flags f1" "w + n \<le> w'" "w' \<le> length buf" "\<forall>u. r = Inr u \<longrightarrow> w' = length buf"
          "\<forall>e. r = Inl e \<longrightarrow> w' < length buf" using IH by blast+
        have E: "write_effect (mdisk m) ?i (mdisk m') (f_inode f') ?p (unat off + w') (seg w (w' - w) buf)
            \<and> (bitmap_synced blk L m \<longrightarrow> bitmap_synced blk L m')" if "mup m \<or> r = Inr ()"
        proof -
          have I: "write_effect (mdisk m2) (f_inode f1) (mdisk m') (f_inode f') (?p + n) (unat off + w') (seg (w + n) (w' - (w + n)) buf)"
            "bitmap_synced blk L m2 \<longrightarrow> bitmap_synced blk L m'"
            using IH that up2 unfolding add.assoc by blast+
          have "?p \<le> ?p + n" "?p + n \<le> unat off + w'" "unat off + w' < 2 ^ 64" "length ?bs = ?p + n - ?p"
            using wI(2,3) fit ln by simp_all
          from write_effect_trans [OF e2 I(1) this grows_keeps [OF g] grows_keeps [OF gI]]
          have "write_effect (mdisk m) ?i (mdisk m') (f_inode f') ?p (unat off + w') (?bs @ seg (w + n) (w' - (w + n)) buf)" .
          moreover have "?bs @ seg (w + n) (w' - (w + n)) buf = seg w (w' - w) buf"
            using seg_append_seg [of w n buf "w' - (w + n)"] wI(2) by simp
          moreover have "bitmap_synced blk L m \<longrightarrow> bitmap_synced blk L m2"
            using t(6) [of q] Inr c(6) rg(4) by blast
          ultimately show ?thesis using I(2) by simp
        qed
        have L: "mup m \<longrightarrow> r = Inr () \<or> r = Inl ENOSPC" using IH up2 by blast
        show ?thesis using grows_trans [OF g gI] wI t(2) E L by simp
      qed
    qed
  qed
qed

text \<open>Writing the inode back: only its slot changes, so the bytes of the file do not.\<close>

lemma grows_inode_write:
  assumes g: "grows L m i m1 i1" and wr: "nebula_inode_write m1 i2 = (r, i3, m2)"
    and i2: "wf_ino i2" "ino_extents i2 = ino_extents i1"
  shows "mount_next L m m2" and "m_bitmap m2 = m_bitmap m1" and "data_free L m2"
    and "file_ok L (hbm_free (m_bitmap m2)) i3" and "ino_extents i3 = ino_extents i1"
    and "unat (lay_inode_page_lba L) + inode_count L \<le> a \<Longrightarrow> mdisk m2 a = mdisk m1 a"
proof -
  have m1: "mount_next L m m1" "data_free L m1" "file_ok L (hbm_free (m_bitmap m1)) i1" using g by (auto simp: grows_def)
  note inv1 = mount_next_inv [OF m1(1)]
  note w = inode_write_cases [OF inv1 i2(1) wr]
  show "mount_next L m m2" by (rule mount_next_trans [OF m1(1) w(1)])
  show bm: "m_bitmap m2 = m_bitmap m1" by (rule w(2))
  then show "data_free L m2" using m1(2) by (simp add: data_free_def)
  have i3: "i3 = i2 \<or> i3 = i2\<lparr>ino_checksum := nebula_inode_checksum i2\<rparr>"
    using wr by (auto simp: nebula_inode_write_def Let_def split: if_splits prod.splits)
  then show ex: "ino_extents i3 = ino_extents i1" using i2(2) by auto
  have "wf_ino i3" using i3 i2(1) by (auto simp: wf_ino_def)
  then show "file_ok L (hbm_free (m_bitmap m2)) i3" using file_ok_extents [OF m1(3) ex] bm by simp
  show "mdisk m2 a = mdisk m1 a" if "unat (lay_inode_page_lba L) + inode_count L \<le> a"
  proof (cases "unat (ino_inode_num i2) < inode_count L")
    case True
    then show ?thesis using w(3) [of a] that by simp
  next
    case False
    then have "m2 = m1" using wr inode_num_in_range [OF inv1, of "ino_inode_num i2"] by (auto simp: nebula_inode_write_def)
    then show ?thesis by simp
  qed
qed

text \<open>
  The whole write on a device without faults.  It either writes every byte, and then the inode on the
  device is the handle's, or stops for lack of space after \<open>n\<close> bytes.
\<close>

lemma file_write_cases:
  assumes inv: "mount_inv ops dinv L m" and up: "mup m" and df: "data_free L m" and ad: "addressable L"
    and ok: "file_ok L (hbm_free (m_bitmap m)) (f_inode f)" and num: "unat (ino_inode_num (f_inode f)) < inode_count L"
    and fl: "f_flags f AND NEBULA_O_WRONLY \<noteq> 0" and ne: "buf \<noteq> []" and fit: "unat off + length buf < 2 ^ 63"
    and wr: "nebula_file_write m f off buf t = (r, f', m')"
  defines "i \<equiv> f_inode f" and "i' \<equiv> f_inode f'"
  shows "mount_next L m m'" and "data_free L m'" and "file_ok L (hbm_free (m_bitmap m')) i'"
    and "bitmap_synced blk L m \<Longrightarrow> bitmap_synced blk L m'"
    and "hbm_free (m_bitmap m') \<subseteq> hbm_free (m_bitmap m)"
    and "set (file_list i) \<subseteq> set (file_list i') \<and> set (file_list i') \<subseteq> set (file_list i) \<union> hbm_free (m_bitmap m)"
    and "a \<notin> set (file_list i) \<Longrightarrow> a \<notin> hbm_free (m_bitmap m) \<Longrightarrow> a < 131 \<or> 131 + unat (lay_bitmap_block_count L) \<le> a \<Longrightarrow>
           a \<noteq> inode_addr L (unat (ino_inode_num i)) \<Longrightarrow> mdisk m' a = mdisk m a"
    and "ino_inode_num i' = ino_inode_num i \<and> ino_type i' = ino_type i \<and> f_flags f' = f_flags f"
    and "\<exists>n \<le> length buf. (r = Inr n \<or> n = 0 \<and> r = Inl ENOSPC)
           \<and> write_effect (mdisk m) i (mdisk m') i' (unat off) (unat off + n) (take n buf)
           \<and> (if n = length buf
              then r = Inr n \<and> ino_size_bytes i' = max (ino_size_bytes i) (off + of_nat n) \<and> inode_sealed i'
                \<and> mdisk m' (inode_addr L (unat (ino_inode_num i))) = enc_ino i' \<and> \<not> f_dirty f'
              else i' = i\<lparr>ino_extents := ino_extents i'\<rparr>)"
    and "r \<noteq> Inr (length buf) \<Longrightarrow> a \<notin> set (file_list i) \<Longrightarrow> a \<notin> hbm_free (m_bitmap m) \<Longrightarrow>
           a < 131 \<or> 131 + unat (lay_bitmap_block_count L) \<le> a \<Longrightarrow> mdisk m' a = mdisk m a"
    and "file_phys i c = Some x \<Longrightarrow> file_phys i' c = Some x"
proof (atomize (full), goal_cases)
  case 1
  obtain q n f1 m1 where lp: "file_write_loop m f off buf 0 = (q, n, f1, m1)" by (metis prod_cases4)
  note c = file_write_loop_cases [OF inv df ad ok fit le0 lp, folded i_def]
  have g: "grows L m i m1 (f_inode f1)" and ff: "f_flags f1 = f_flags f" and n: "n \<le> length buf"
    and eff: "write_effect (mdisk m) i (mdisk m1) (f_inode f1) (unat off) (unat off + n) (take n buf)"
    and sy: "bitmap_synced blk L m \<longrightarrow> bitmap_synced blk L m1"
    and q: "q = Inr () \<and> n = length buf \<or> q = Inl ENOSPC \<and> n < length buf"
    using c up by auto
  have g0: "mount_next L m m1" "data_free L m1" "file_ok L (hbm_free (m_bitmap m1)) (f_inode f1)"
    "hbm_free (m_bitmap m1) \<subseteq> hbm_free (m_bitmap m)"
    "set (file_list i) \<subseteq> set (file_list (f_inode f1))"
    "set (file_list (f_inode f1)) \<subseteq> set (file_list i) \<union> hbm_free (m_bitmap m)"
    "f_inode f1 = i\<lparr>ino_extents := ino_extents (f_inode f1)\<rparr>"
    "\<forall>a. a \<notin> set (file_list i) \<and> a \<notin> hbm_free (m_bitmap m) \<and> (a < 131 \<or> 131 + unat (lay_bitmap_block_count L) \<le> a)
          \<longrightarrow> mdisk m1 a = mdisk m a"
    "\<forall>c x. file_phys i c = Some x \<longrightarrow> file_phys (f_inode f1) c = Some x"
    using g unfolding grows_def by blast+
  have same: "ino_inode_num (f_inode f1) = ino_inode_num i" "ino_type (f_inode f1) = ino_type i"
    "ino_size_bytes (f_inode f1) = ino_size_bytes i"
    by (subst g0(7), simp)+
  show ?case
  proof (cases "q = Inr ()")
    case False
    then have "q = Inl ENOSPC" "n < length buf" using q by auto
    then have r: "r = (if n > 0 then Inr n else Inl ENOSPC)" "f' = f1" "m' = m1"
      using wr fl ne lp by (auto simp: nebula_file_write_def)
    show ?thesis using g0 same ff eff sy r \<open>n < length buf\<close> unfolding i'_def r by (intro conjI exI [of _ n]) auto
  next
    case True
    then have nl: "n = length buf" using q by auto
    define i2 where "i2 = (file_grow (f_inode f1) (off + of_nat n))\<lparr>ino_mtime_ns := t\<rparr>"
    obtain s i3 m2 where iw: "nebula_inode_write m1 i2 = (s, i3, m2)" by (rule prod_cases3)
    have wf2: "wf_ino i2" using g0(3) unfolding i2_def file_ok_def by (simp add: wf_ino_def file_grow_def)
    have ex2: "ino_extents i2 = ino_extents (f_inode f1)" by (simp add: i2_def)
    have num2: "ino_inode_num i2 = ino_inode_num i" by (simp add: i2_def same)
    note gw = grows_inode_write [OF g iw wf2 ex2]
    note w = inode_write_cases [OF mount_next_inv [OF g0(1)] wf2 iw, unfolded num2]
    have s: "s = Inr ()" using w(5) num mount_next_up [OF g0(1) up] by (simp add: i_def)
    note w4 = w(4) [OF s]
    have r: "r = Inr n" "m' = m2" "i' = i3" "f_flags f' = f_flags f" "\<not> f_dirty f'"
      using wr fl ne lp True iw s ff unfolding i'_def by (auto simp: nebula_file_write_def i2_def)
    have i3: "ino_inode_num i3 = ino_inode_num i" "ino_type i3 = ino_type i"
      "ino_size_bytes i3 = max (ino_size_bytes i) (off + of_nat n)"
      using w4 same by (simp_all add: i2_def)
    note ph = file_phys_extents [OF gw(5)] and fb = file_byte_extents [OF gw(5)] and fL = file_list_extents [OF gw(5)]
    have "file_byte (mdisk m2) i3 p = file_byte (mdisk m1) (f_inode f1) p" for p
    proof (cases "file_phys (f_inode f1) (of_nat (p div 4096))")
      case None
      then show ?thesis by (simp add: fb file_byte_def)
    next
      case (Some x)
      then show ?thesis
        using gw(6) [OF data_block_in_range(5) [OF mount_next_inv [OF g0(1)] g0(3) Some]] by (simp add: fb file_byte_def)
    qed
    then have eff2: "write_effect (mdisk m) i (mdisk m2) i3 (unat off) (unat off + n) (take n buf)"
      using eff unfolding write_effect_def ph by simp
    have "mdisk m2 = (mdisk m1)(inode_addr L (unat (ino_inode_num i)) := enc_ino i3)" "inode_sealed i3" using w4 by blast+
    then have last: "mdisk m2 (inode_addr L (unat (ino_inode_num i))) = enc_ino i3 \<and> inode_sealed i3" by simp
    have "mdisk m2 a = mdisk m a" if "a \<notin> set (file_list i)" "a \<notin> hbm_free (m_bitmap m)"
      "a < 131 \<or> 131 + unat (lay_bitmap_block_count L) \<le> a" "a \<noteq> inode_addr L (unat (ino_inode_num i))"
      using w(3) [of a] that g0(8) by simp
    then show ?thesis
      using gw g0(4,5,6,9) ph fL w(6) sy i3 eff2 last nl r
      by (intro conjI exI [of _ n]) auto
  qed
qed

section \<open>Creating, opening and deleting\<close>

text \<open>Freeing a list of extents gives back exactly their blocks.\<close>

lemma file_free_extents_cases:
  assumes "mount_inv ops dinv L m" and "data_free L m"
    and "distinct (concat (map ext_list es))"
    and "set (concat (map ext_list es)) \<subseteq> {unat (lay_data_start_lba L)..<unat (lay_alloc_roots_tail_lba L)} - hbm_free (m_bitmap m)"
    and "file_free_extents m es rc = (r, m')"
  shows "mount_next L m m' \<and> same_outside_bitmap L m m' \<and> data_free L m'
    \<and> hbm_free (m_bitmap m) \<subseteq> hbm_free (m_bitmap m')
    \<and> hbm_free (m_bitmap m') \<subseteq> hbm_free (m_bitmap m) \<union> set (concat (map ext_list es))
    \<and> (mup m \<longrightarrow> r = rc \<and> hbm_free (m_bitmap m') = hbm_free (m_bitmap m) \<union> set (concat (map ext_list es))
         \<and> (bitmap_synced blk L m \<longrightarrow> bitmap_synced blk L m'))"
  using assms
proof (induction es arbitrary: m rc)
  case Nil
  then show ?case using mount_next_refl [OF Nil(1)] by auto
next
  case (Cons e es)
  note inv = Cons.prems(1)
  let ?n = "em_size_blocks e" and ?fr = "hbm_free (m_bitmap m)"
  show ?case
  proof (cases "?n = 0")
    case True
    then have "ext_list e = []" by (simp add: ext_list_def)
    then show ?thesis using Cons.IH [OF inv Cons.prems(2), of rc] Cons.prems(3-5) True by simp
  next
    case False
    then have n: "0 < unat ?n" by (simp add: unat_gt_0)
    define lba where "lba = (ucast (em_lba e) :: u64)"
    let ?R = "{unat lba..<unat lba + unat ?n}"
    have R: "set (ext_list e) = ?R" by (simp add: ext_list_def lba_def)
    have data: "?R \<subseteq> {unat (lay_data_start_lba L)..<unat (lay_alloc_roots_tail_lba L)}" and used: "?R \<inter> ?fr = {}"
      using Cons.prems(4) unfolding list.map concat.simps set_append R by blast+
    have rn: "unat lba + unat ?n \<le> unat (lay_capacity_blocks L)"
    proof -
      have "unat lba + unat ?n - 1 \<in> ?R" using n by simp
      then have "unat lba + unat ?n - 1 < unat (lay_alloc_roots_tail_lba L)" using data by fastforce
      then show ?thesis using mount_inv_geometry(11) [OF inv] by (auto simp: layout_tiles_def)
    qed
    obtain q m1 where fe: "nebula_block_free m lba ?n = (q, m1)" by (rule prod.exhaust)
    note c = block_free_cases [OF inv fe]
    have bits: "\<forall>k < unat ?n. bit_get (hb_l0_bits (m_bitmap m)) (unat lba + k)"
    proof (intro allI impI)
      fix k assume "k < unat ?n"
      then have "unat lba + k \<in> ?R" "unat lba + k < unat (lay_capacity_blocks L)" using rn by auto
      then have "unat lba + k \<notin> ?fr" "unat lba + k < unat (lay_capacity_blocks L)" using used by blast+
      then show "bit_get (hb_l0_bits (m_bitmap m)) (unat lba + k)"
        using mount_inv_geometry(8) [OF inv] by (simp add: free_blocks_def)
    qed
    have fr1: "hbm_free (m_bitmap m1) = (case q of Inl _ \<Rightarrow> ?fr | Inr _ \<Rightarrow> ?fr \<union> ?R)"
    proof (cases q)
      case (Inr u)
      then show ?thesis
        using c(4) [OF Inr] mark_free_ok(2) [OF mount_inv_geometry(7) [OF inv] n _ used] rn mount_inv_geometry(8) [OF inv] by simp
    qed (use c(3) in simp)
    then have fr1': "?fr \<subseteq> hbm_free (m_bitmap m1)" "hbm_free (m_bitmap m1) \<subseteq> ?fr \<union> ?R" by (auto split: sum.splits)
    have d1: "data_free L m1" using Cons.prems(2) fr1' data unfolding data_free_def by blast
    obtain rc1 where rec: "file_free_extents m1 es rc1 = (r, m')" and rc1: "\<And>u. q = Inr u \<Longrightarrow> rc1 = rc"
      using Cons.prems(5) False fe by (cases q) (auto simp: lba_def)
    have dis: "distinct (concat (map ext_list es))" "set (concat (map ext_list es)) \<inter> ?R = {}"
      using Cons.prems(3) R by auto
    have "set (concat (map ext_list es)) \<subseteq>
        {unat (lay_data_start_lba L)..<unat (lay_alloc_roots_tail_lba L)} - hbm_free (m_bitmap m1)"
      using Cons.prems(4) dis(2) fr1' unfolding list.map concat.simps set_append by blast
    note IH = Cons.IH [OF mount_next_inv [OF c(1)] d1 dis(1) this rec]
    have "mup m \<Longrightarrow> q = Inr ()" using c(5) [OF _ False rn bits] by blast
    then have up: "mup m \<Longrightarrow> rc1 = rc \<and> hbm_free (m_bitmap m1) = ?fr \<union> ?R \<and> mup m1
        \<and> (bitmap_synced blk L m \<longrightarrow> bitmap_synced blk L m1)"
      using rc1 fr1 c(4) mount_next_up [OF c(1)] by auto
    have S: "set (concat (map ext_list (e # es))) = ?R \<union> set (concat (map ext_list es))" using R by simp
    show ?thesis unfolding S
    proof (intro conjI)
      show "mount_inv ops dinv L m'" "next_io (m_io m) (m_io m')" "same_meta m m'"
        using mount_next_trans [OF c(1)] IH by blast+
      show "same_outside_bitmap L m m'" using c(2) IH by auto
    qed (use IH fr1' up in blast)+
  qed
qed

lemma file_delete_cases:
  assumes inv: "mount_inv ops dinv L m" and df: "data_free L m" and ok: "file_ok L (hbm_free (m_bitmap m)) (f_inode f)"
    and de: "nebula_file_delete m f = (r, m')"
  defines "i \<equiv> f_inode f" and "n \<equiv> unat (ino_inode_num (f_inode f))"
  shows "mount_next L m m'" and "data_free L m'" and "hbm_free (m_bitmap m) \<subseteq> hbm_free (m_bitmap m')"
    and "hbm_free (m_bitmap m') \<subseteq> hbm_free (m_bitmap m) \<union> set (file_list i)"
    and "a < 131 \<or> 131 + unat (lay_bitmap_block_count L) \<le> a \<Longrightarrow> a \<noteq> inode_addr L n \<Longrightarrow> mdisk m' a = mdisk m a"
    and "mup m \<Longrightarrow> hbm_free (m_bitmap m') = hbm_free (m_bitmap m) \<union> set (file_list i)
           \<and> (bitmap_synced blk L m \<longrightarrow> bitmap_synced blk L m')"
    and "mup m \<Longrightarrow> n \<noteq> 0 \<Longrightarrow> n < inode_count L \<Longrightarrow> \<not> inode_free_at L m n \<Longrightarrow>
           r = Inr () \<and> mdisk m' (inode_addr L n) = zeros 4096"
    and "mup m \<Longrightarrow> n = 0 \<Longrightarrow> r = Inl EINVAL"
proof (atomize (full), goal_cases)
  case 1
  obtain q m1 where fe: "file_free_extents m (ino_extents i) (Inr ()) = (q, m1)" by (rule prod.exhaust)
  have ls: "distinct (concat (map ext_list (ino_extents i)))"
    "set (concat (map ext_list (ino_extents i))) \<subseteq> {unat (lay_data_start_lba L)..<unat (lay_alloc_roots_tail_lba L)} - hbm_free (m_bitmap m)"
    using ok unfolding file_ok_def file_list_def i_def by blast+
  note c = file_free_extents_cases [OF inv df ls fe, folded file_list_def]
  have c1: "mount_next L m m1" using c by blast
  obtain s m2 where fi: "nebula_inode_free m1 (ino_inode_num i) = (s, m2)" by (rule prod.exhaust)
  note w = inode_free_cases [OF mount_next_inv [OF c1] fi]
  have n: "n = unat (ino_inode_num i)" by (simp add: n_def i_def)
  have m': "m' = m2" using de fe fi unfolding nebula_file_delete_def i_def [symmetric]
    by (auto split: sum.splits)
  have r: "q = Inr () \<Longrightarrow> r = s" using de fe fi unfolding nebula_file_delete_def i_def [symmetric]
    by (auto split: sum.splits)
  have fr: "hbm_free (m_bitmap m2) = hbm_free (m_bitmap m1)" "data_free L m2" using w(2) c by (simp_all add: data_free_def)
  have reg: "131 + unat (lay_bitmap_block_count L) \<le> inode_addr L n" using inode_region(1) [OF inv] by simp
  then have slot: "mdisk m1 (inode_addr L n) = mdisk m (inode_addr L n)" using c by blast
  have out: "mdisk m2 a = mdisk m a" if "a < 131 \<or> 131 + unat (lay_bitmap_block_count L) \<le> a" "a \<noteq> inode_addr L n"
    using w(4) [of a] that c n by auto
  have live: "r = Inr () \<and> mdisk m2 (inode_addr L n) = zeros 4096"
    if "mup m" "n \<noteq> 0" "n < inode_count L" "\<not> inode_free_at L m n"
  proof -
    have "\<not> inode_free_at L m1 (unat (ino_inode_num i))" using that(4) slot by (simp add: n inode_at_def)
    moreover have "ino_inode_num i \<noteq> 0" using that(2) n by auto
    ultimately have s: "s = Inr ()" using w(6) mount_next_up [OF c1 that(1)] that(3) n by blast
    then show ?thesis using w(5) [OF s] r c that(1) n by simp
  qed
  have root: "r = Inl EINVAL" if "mup m" "n = 0"
    using w(7) that n r c by (simp add: unat_eq_zero)
  show ?case unfolding m' using mount_next_trans [OF c1 w(1)] fr c w(3) out live root by auto
qed

lemma file_open_cases:
  assumes inv: "mount_inv ops dinv L m" and op: "nebula_file_open m n flags = (r, m')"
  shows "mount_next L m m'" and "m_bitmap m' = m_bitmap m" and "mdisk m' = mdisk m"
    and "r = Inr f \<Longrightarrow> unat n < inode_count L \<and> f_inode f = inode_at (mdisk m) L (unat n) \<and> f_flags f = flags
           \<and> \<not> inode_free_at L m (unat n) \<and> inode_sealed (f_inode f)"
    and "mup m \<Longrightarrow> unat n < inode_count L \<Longrightarrow> flags AND NEBULA_O_RDWR \<noteq> 0 \<Longrightarrow> \<not> inode_free_at L m (unat n) \<Longrightarrow>
           inode_sealed (inode_at (mdisk m) L (unat n)) \<Longrightarrow>
           r = Inr \<lparr>f_inode = inode_at (mdisk m) L (unat n), f_pos = 0, f_flags = flags, f_dirty = False\<rparr>"
    and "mup m \<Longrightarrow> unat n < inode_count L \<Longrightarrow> flags AND NEBULA_O_RDWR \<noteq> 0 \<Longrightarrow> inode_free_at L m (unat n) \<Longrightarrow> r = Inl ENOENT"
proof (atomize (full), goal_cases)
  case 1
  show ?case
  proof (cases "flags AND (NEBULA_O_RDONLY OR NEBULA_O_WRONLY) = 0")
    case True
    then show ?thesis using op mount_next_refl [OF inv] by (auto simp: nebula_file_open_def NEBULA_O_RDWR_def)
  next
    case False
    obtain q m1 where rd: "nebula_inode_read m n = (q, m1)" by (rule prod.exhaust)
    note f = inode_read_frame [OF inv rd]
    have m': "m' = m1" using op False rd by (auto simp: nebula_file_open_def split: sum.splits if_splits)
    have r: "r = (case q of Inl e \<Rightarrow> Inl e | Inr i \<Rightarrow> if ino_type i = NEBULA_INODE_TYPE_FREE then Inl ENOENT
        else Inr \<lparr>f_inode = i, f_pos = 0, f_flags = flags, f_dirty = False\<rparr>)"
      using op False rd by (auto simp: nebula_file_open_def split: sum.splits if_splits)
    have ok: "unat n < inode_count L \<and> i = inode_at (mdisk m) L (unat n)
        \<and> (ino_type i \<noteq> NEBULA_INODE_TYPE_FREE \<longrightarrow> inode_sealed i)" if "q = Inr i" for i
      using inode_read_ok [OF inv rd [unfolded that]] by blast
    have up: "q = inode_validate (mdisk m (inode_addr L (unat n)))" if "mup m" "unat n < inode_count L"
      using inode_read_up [OF inv that rd] .
    have v1: "q = Inr (inode_at (mdisk m) L (unat n))"
      if "mup m" "unat n < inode_count L" "inode_sealed (inode_at (mdisk m) L (unat n)) \<or> inode_free_at L m (unat n)"
      using up [OF that(1,2)] that(3) by (auto simp: inode_validate_def inode_at_def Let_def inode_sealed_def)
    have A: "unat n < inode_count L \<and> f_inode f = inode_at (mdisk m) L (unat n) \<and> f_flags f = flags
           \<and> \<not> inode_free_at L m (unat n) \<and> inode_sealed (f_inode f)" if rf: "r = Inr f"
    proof -
      obtain i where q: "q = Inr i" and i: "ino_type i \<noteq> NEBULA_INODE_TYPE_FREE"
        "f = \<lparr>f_inode = i, f_pos = 0, f_flags = flags, f_dirty = False\<rparr>"
        using rf r by (cases q) (auto split: if_splits)
      then show ?thesis using ok [OF q] by auto
    qed
    have B: "r = Inr \<lparr>f_inode = inode_at (mdisk m) L (unat n), f_pos = 0, f_flags = flags, f_dirty = False\<rparr>"
      if "mup m" "unat n < inode_count L" "\<not> inode_free_at L m (unat n)" "inode_sealed (inode_at (mdisk m) L (unat n))"
      using v1 r that by simp
    have C: "r = Inl ENOENT" if "mup m" "unat n < inode_count L" "inode_free_at L m (unat n)" using v1 r that by simp
    show ?thesis unfolding m' using f A B C by blast
  qed
qed

lemma file_create_cases:
  assumes inv: "mount_inv ops dinv L m" and cr: "nebula_file_create m mode t = (r, m')"
  shows "mount_next L m m'" and "m_bitmap m' = m_bitmap m" and "bitmap_synced blk L m \<Longrightarrow> bitmap_synced blk L m'"
    and "\<exists>k. 1 \<le> k \<and> k < inode_count L \<and> inode_free_at L m k \<and> (\<forall>a. a \<noteq> inode_addr L k \<longrightarrow> mdisk m' a = mdisk m a)
           \<or> mdisk m' = mdisk m"
    and "r = Inr f \<Longrightarrow> (\<exists>x. 1 \<le> unat x \<and> unat x < inode_count L \<and> inode_free_at L m (unat x)
           \<and> f = \<lparr>f_inode = inode_new x NEBULA_INODE_TYPE_FILE mode t, f_pos = 0, f_flags = NEBULA_O_RDWR, f_dirty = False\<rparr>
           \<and> mdisk m' = (mdisk m)(inode_addr L (unat x) := enc_ino (inode_new x NEBULA_INODE_TYPE_FILE mode t)))"
    and "mup m \<Longrightarrow> r = Inl e \<Longrightarrow> e = ENOSPC \<and> mdisk m' = mdisk m \<and> (\<forall>j. 1 \<le> j \<and> j < inode_count L \<longrightarrow> \<not> inode_free_at L m j)"
proof (atomize (full), goal_cases)
  case 1
  obtain q m1 where al: "nebula_inode_alloc m NEBULA_INODE_TYPE_FILE mode t = (q, m1)" by (rule prod.exhaust)
  note c = inode_alloc_cases [OF inv al]
  show ?case
  proof (cases q)
    case (Inl e1)
    then have "r = Inl e1" "m' = m1" using cr al by (auto simp: nebula_file_create_def)
    then show ?thesis using c(1,2,3,4) c(6) [OF _ _ Inl] by auto
  next
    case (Inr x)
    let ?i = "inode_new x NEBULA_INODE_TYPE_FILE mode t"
    note ok = c(5) [OF Inr]
    obtain q2 m2 where rd: "nebula_inode_read m1 x = (q2, m2)" by (rule prod.exhaust)
    note inv1 = mount_next_inv [OF c(1)]
    note f = inode_read_frame [OF inv1 rd]
    have x: "unat x < inode_count L" using ok by blast
    have d1: "mdisk m1 = (mdisk m)(inode_addr L (unat x) := enc_ino ?i)" using ok by blast
    have good: "q2 = Inr ?i" if "mup m \<or> (\<exists>j. q2 = Inr j)"
    proof (cases q2)
      case fail: (Inl e2)
      then have "mup m1" using that mount_next_up [OF c(1)] by auto
      then show ?thesis using inode_read_up [OF inv1 _ x rd] d1 inode_validate_sealed [OF inode_new_is_sealed] by simp
    next
      case got: (Inr j)
      then show ?thesis using inode_read_ok(2) [OF inv1, of x j m2] rd d1 inode_new_wf
        by (simp add: inode_at_def ino.dec_enc)
    qed
    have m': "m' = m2" using cr al Inr rd by (auto simp: nebula_file_create_def split: sum.splits)
    have r: "r = (case q2 of Inl e \<Rightarrow> Inl e | Inr j \<Rightarrow> Inr \<lparr>f_inode = j, f_pos = 0, f_flags = NEBULA_O_RDWR, f_dirty = False\<rparr>)"
      using cr al Inr rd by (auto simp: nebula_file_create_def split: sum.splits)
    have sy: "bitmap_synced blk L m2 = bitmap_synced blk L m1" using f by (simp add: bitmap_synced_def)
    have A: "\<exists>k. 1 \<le> k \<and> k < inode_count L \<and> inode_free_at L m k \<and> (\<forall>a. a \<noteq> inode_addr L k \<longrightarrow> mdisk m2 a = mdisk m a)
        \<or> mdisk m2 = mdisk m"
      using ok d1 f(3) by (intro exI [of _ "unat x"]) simp
    have B: "\<exists>x. 1 \<le> unat x \<and> unat x < inode_count L \<and> inode_free_at L m (unat x)
           \<and> f = \<lparr>f_inode = inode_new x NEBULA_INODE_TYPE_FILE mode t, f_pos = 0, f_flags = NEBULA_O_RDWR, f_dirty = False\<rparr>
           \<and> mdisk m2 = (mdisk m)(inode_addr L (unat x) := enc_ino (inode_new x NEBULA_INODE_TYPE_FILE mode t))"
      if "r = Inr f" for f
    proof (intro exI [of _ x] conjI)
      have "\<exists>j. q2 = Inr j" using that r by (cases q2) auto
      then show "f = \<lparr>f_inode = ?i, f_pos = 0, f_flags = NEBULA_O_RDWR, f_dirty = False\<rparr>"
        using good that r by simp
    qed (use ok d1 f(3) in auto)
    have C: "mup m \<Longrightarrow> \<not> (\<exists>e. r = Inl e)" using good r by auto
    show ?thesis unfolding m' using mount_next_trans [OF c(1) f(1)] f(2) c(2,3) sy A B C by auto
  qed
qed

end

text \<open>A fresh inode has no blocks; a single-block write into it succeeds when a block is free.\<close>

lemma file_ok_new: "file_ok L fr (inode_new x ty mo t)" "file_list (inode_new x ty mo t) = []"
  "file_phys (inode_new x ty mo t) b = None"
proof -
  have z: "em_size_blocks \<lparr>em_offset = 0, em_size_and_flags = 0, em_lba = 0\<rparr> = 0" by (simp add: em_size_blocks_def)
  have e: "ext_list \<lparr>em_offset = 0, em_size_and_flags = 0, em_lba = 0\<rparr> = []" by (simp add: ext_list_def z)
  show l: "file_list (inode_new x ty mo t) = []" by (simp add: file_list_def e)
  have "packed (replicate 248 \<lparr>em_offset = 0, em_size_and_flags = 0, em_lba = 0\<rparr>)"
    unfolding packed_def by (rule exI [of _ "[]"]) (simp add: z)
  then show "file_ok L fr (inode_new x ty mo t)" using l inode_new_wf by (auto simp: file_ok_def z)
  show "file_phys (inode_new x ty mo t) b = None"
    using find_empty [of "replicate 248 \<lparr>em_offset = 0, em_size_and_flags = 0, em_lba = 0\<rparr>" b] z
    by (simp add: file_phys_def file_extent_def)
qed

context block_backend
begin

lemma file_write_target_new:
  assumes inv: "mount_inv ops dinv L m" and up: "mup m" and df: "data_free L m" and ad: "addressable L"
    and f: "f_inode f = inode_new x ty mo t0" and free: "hbm_free (m_bitmap m) \<noteq> {}"
    and need: "write_need_blks left o1 = 1" and tg: "file_write_target m f b left o1 = (q, f1, m1)"
  shows "\<exists>y. q = Inr y"
proof -
  obtain s0 where s0: "s0 \<in> hbm_free (m_bitmap m)" using free by blast
  obtain a m2 where al: "nebula_block_alloc m 1 = (a, m2)" by (rule prod.exhaust)
  have "run_free (hb_l0_bits (m_bitmap m)) s0 (unat (1 :: u32))" "s0 + 1 \<le> unat (lay_capacity_blocks L)"
    using s0 mount_inv_geometry(8) [OF inv] by (auto simp: run_free_def free_blocks_def less_Suc_eq)
  then obtain lba where a: "a = Inr lba" using block_alloc_cases(5) [OF inv al up] by (cases a) auto
  have "extent_find (f_inode f) b = None"
    using extent_find_extent [of "f_inode f" b] f inode_new_wf file_ok_new(3) [of x ty mo t0 b] by (simp add: file_phys_def)
  moreover have "\<exists>i1. extent_append (f_inode f) b 1 lba = Inr i1"
    using f by (simp add: extent_append_def em_size_blocks_def numeral_eq_Suc)
  ultimately show ?thesis using tg need al a by (auto simp: file_write_target_def Let_def)
qed

lemma file_write_new_block:
  assumes inv: "mount_inv ops dinv L m" and up: "mup m" and df: "data_free L m" and ad: "addressable L"
    and f: "f_inode f = inode_new x ty mo t0" and x: "unat x < inode_count L"
    and fl: "f_flags f AND NEBULA_O_WRONLY \<noteq> 0" and ne: "buf \<noteq> []" and fit: "unat off + length buf < 2 ^ 63"
    and one: "unat off mod 4096 + length buf \<le> 4096" and free: "hbm_free (m_bitmap m) \<noteq> {}"
    and wr: "nebula_file_write m f off buf t = (r, f', m')"
  shows "r = Inr (length buf)"
proof -
  let ?i = "f_inode f"
  have ok: "file_ok L (hbm_free (m_bitmap m)) ?i" using file_ok_new f by simp
  have num: "unat (ino_inode_num ?i) < inode_count L" using f x by simp
  obtain n where n: "n \<le> length buf" "r = Inr n \<or> n = 0 \<and> r = Inl ENOSPC"
    "write_effect (mdisk m) ?i (mdisk m') (f_inode f') (unat off) (unat off + n) (take n buf)"
    "n \<noteq> length buf \<longrightarrow> f_inode f' = ?i\<lparr>ino_extents := ino_extents (f_inode f')\<rparr>"
    using file_write_cases(9) [OF inv up df ad ok num fl ne fit wr] by (auto split: if_splits)
  define b where "b = (of_nat (unat off div 4096) :: u64)"
  note pos = unat_position [of off 0]
  have p0: "(off + of_nat 0) div 4096 = b" "unat ((off + of_nat 0) mod 4096) = unat off mod 4096"
    using pos fit by (simp_all add: b_def)
  have min: "min (NEBULA_BLOCK_SIZE - unat off mod 4096) (length buf - 0) = length buf" using one by simp
  obtain q f1 m1 where tg: "file_write_target m f b (of_nat (length buf - 0)) (of_nat (unat off mod 4096)) = (q, f1, m1)"
    by (rule prod_cases3)
  have "unat off div 4096 < 2 ^ 51" using fit by (simp add: less_mult_imp_div_less)
  then have b256: "unat b + 256 < 2 ^ 64" by (simp add: b_def unat_of_nat_u64)
  note t = file_write_target_cases [OF inv df ad ok b256 tg]
  have need: "write_need_blks (of_nat (length buf - 0)) (of_nat (unat off mod 4096)) = 1"
  proof -
    have s: "unat (of_nat (length buf) + of_nat (unat off mod 4096) + 4096 - 1 :: u64) = length buf + unat off mod 4096 + 4095"
    proof -
      have "(of_nat (length buf) + of_nat (unat off mod 4096) + 4096 - 1 :: u64) = of_nat (length buf + unat off mod 4096 + 4095)" by simp
      then show ?thesis using one by (simp only: unat_of_nat_u64)
    qed
    have "1 \<le> length buf" using ne by (cases buf) auto
    then have "(length buf + unat off mod 4096 + 4095) div 4096 = 1" using one by (intro div_nat_eqI) simp_all
    then have "unat ((of_nat (length buf) + of_nat (unat off mod 4096) + 4096 - 1 :: u64) div 4096) = 1"
      using s by (simp add: unat_div)
    then have "(of_nat (length buf) + of_nat (unat off mod 4096) + 4096 - 1 :: u64) div 4096 = 1"
      by (metis unat_1 word_unat_eq_iff)
    then show ?thesis by (simp add: write_need_blks_def)
  qed
  have "\<exists>y. q = Inr y" by (rule file_write_target_new [OF inv up df ad f free need tg])
  then obtain y where y: "q = Inr y" by blast
  obtain s m2 where pb: "file_put_block m1 y (unat off mod 4096) (seg 0 (length buf) buf) = (s, m2)" by (rule prod.exhaust)
  have t0: "mount_next L m m1" "file_ok L (hbm_free (m_bitmap m1)) (f_inode f1)" using t(1) by (auto simp: grows_def)
  have "s = Inr ()"
    using file_put_block_cases(5) [OF mount_next_inv [OF t0(1)] pb] one mount_next_up [OF t0(1) up]
      data_block_in_range(3) [OF mount_next_inv [OF t0(1)] t0(2) t(4) [OF y]] by simp
  then have "file_write_loop m f off buf 0 = (Inr (), length buf, f1\<lparr>f_dirty := True\<rparr>, m2)"
    using file_write_loop.simps [of m f off buf 0, unfolded Let_def p0 min] tg y pb ne
    by (simp add: file_write_loop.simps [of m2])
  then show ?thesis using wr fl ne unfolding nebula_file_write_def by (auto split: prod.splits sum.splits)
qed

lemma file_write_then_read_cases:
  assumes inv: "mount_inv ops dinv L m" and up: "mup m" and df: "data_free L m" and ad: "addressable L"
    and ok: "file_ok L (hbm_free (m_bitmap m)) (f_inode f)" and num: "unat (ino_inode_num (f_inode f)) < inode_count L"
    and ty: "ino_type (f_inode f) \<noteq> NEBULA_INODE_TYPE_FREE"
    and fl: "f_flags f = NEBULA_O_RDWR" and ne: "buf \<noteq> []" and fit: "unat off + length buf < 2 ^ 63"
    and wr: "nebula_file_write m f off buf t = (Inr (length buf), f', m')"
    and g: "f_inode g = f_inode f'" "f_flags g = NEBULA_O_RDWR" and m1: "mount_next L m' m1" "mdisk m1 = mdisk m'" "m_bitmap m1 = m_bitmap m'"
  shows "fst (nebula_file_read m1 g off (of_nat (length buf)) t') = Inr buf"
    and "\<exists>h m2. nebula_file_open m' (ino_inode_num (f_inode f)) NEBULA_O_RDWR = (Inr h, m2) \<and> f_inode h = f_inode f'
           \<and> f_flags h = NEBULA_O_RDWR \<and> mount_next L m' m2 \<and> mdisk m2 = mdisk m' \<and> m_bitmap m2 = m_bitmap m'"
proof -
  have flags: "f_flags f AND NEBULA_O_WRONLY \<noteq> 0" "f_flags g AND NEBULA_O_RDONLY \<noteq> 0" "NEBULA_O_RDWR AND NEBULA_O_RDWR \<noteq> 0"
    unfolding fl g(2) NEBULA_O_RDWR_def NEBULA_O_RDONLY_def NEBULA_O_WRONLY_def by simp_all
  note c = file_write_cases [OF inv up df ad ok num flags(1) ne fit wr]
  let ?i = "f_inode f" and ?i' = "f_inode f'"
  have full: "write_effect (mdisk m) ?i (mdisk m') ?i' (unat off) (unat off + length buf) buf"
    "ino_size_bytes ?i' = max (ino_size_bytes ?i) (off + of_nat (length buf))" "inode_sealed ?i'"
    "mdisk m' (inode_addr L (unat (ino_inode_num ?i))) = enc_ino ?i'"
    using c(9) ne by (auto split: if_splits)
  have ln: "unat (of_nat (length buf) :: u64) = length buf" using fit by (intro unat_of_nat_u64) simp
  have "unat (off + of_nat (length buf)) = unat off + length buf" using fit by (intro unat_position) simp
  then have sz: "unat off + length buf \<le> unat (ino_size_bytes ?i')"
    unfolding full(2) by (simp add: max_def word_le_nat_alt not_le)
  obtain r h m2 where rd: "nebula_file_read m1 g off (of_nat (length buf)) t' = (r, h, m2)" by (rule prod_cases3)
  have ok1: "file_ok L (hbm_free (m_bitmap m1)) (f_inode g)" using c(3) m1(3) g(1) by simp
  have "unat off + unat (of_nat (length buf) :: u64) < 2 ^ 64" using fit ln by simp
  note rc = file_read_cases [OF mount_next_inv [OF m1(1)] ok1 rd this flags(2)]
  have "min (length buf) (unat (ino_size_bytes ?i') - unat off) = length buf" using sz by linarith
  then have "r = Inr (file_bytes (mdisk m') ?i' (unat off) (length buf))"
    using rc(5) mount_next_up [OF m1(1) mount_next_up [OF c(1) up]] unfolding ln g(1) m1(2) by simp
  then show "fst (nebula_file_read m1 g off (of_nat (length buf)) t') = Inr buf"
    using file_write_bytes [OF full(1)] rd by simp
  obtain r2 m3 where op: "nebula_file_open m' (ino_inode_num ?i) NEBULA_O_RDWR = (r2, m3)" by (rule prod.exhaust)
  note oc = file_open_cases [OF mount_next_inv [OF c(1)] op]
  have at: "inode_at (mdisk m') L (unat (ino_inode_num ?i)) = ?i'"
    using full(3,4) by (simp add: inode_at_def ino.dec_enc inode_sealed_def)
  have "r2 = Inr \<lparr>f_inode = ?i', f_pos = 0, f_flags = NEBULA_O_RDWR, f_dirty = False\<rparr>"
    using oc(5) [OF mount_next_up [OF c(1) up] num flags(3)] full(3) c(8) ty unfolding at by simp
  then show "\<exists>h m2. nebula_file_open m' (ino_inode_num ?i) NEBULA_O_RDWR = (Inr h, m2) \<and> f_inode h = ?i'
           \<and> f_flags h = NEBULA_O_RDWR \<and> mount_next L m' m2 \<and> mdisk m2 = mdisk m' \<and> m_bitmap m2 = m_bitmap m'"
    using op oc(1,2,3) by auto
qed

end

end
