(* ===== verification/Nebula_File_Correct.thy ===== *)
theory Nebula_File_Correct
  imports Nebula_File_Rw
begin

unbundle bit_operations_syntax

text \<open>
  The properties of the file layer (\<open>src/nebula/nebula_file.c\<close>), on the POSIX backend, with a witness
  for each on a small formatted device.
\<close>

section \<open>Properties\<close>

text \<open>
  Property C24.  Read after write: when a write into an open file reports all its bytes on a device
  without faults, reading the same range through the handle returns exactly those bytes, and so does
  reading it through a handle opened afresh from the inode on the device.
\<close>

theorem file_write_then_read:
  assumes "mount_inv posix_ops posix_inv L m" and "posix_healthy (io_dev (m_io m))" and "data_free L m"
    and "addressable L" and "file_ok L (hbm_free (m_bitmap m)) (f_inode f)"
    and "unat (ino_inode_num (f_inode f)) < inode_count L" and "ino_type (f_inode f) \<noteq> NEBULA_INODE_TYPE_FREE"
    and "f_flags f = NEBULA_O_RDWR" and "buf \<noteq> []" and "unat off + length buf < 2 ^ 63"
    and "nebula_file_write m f off buf t = (Inr (length buf), f', m')"
  shows "fst (nebula_file_read m' f' off (of_nat (length buf)) t') = Inr buf
    \<and> (\<exists>g m1. nebula_file_open m' (ino_inode_num (f_inode f)) NEBULA_O_RDWR = (Inr g, m1)
         \<and> fst (nebula_file_read m1 g off (of_nat (length buf)) t') = Inr buf)"
proof -
  have fl: "f_flags f AND NEBULA_O_WRONLY \<noteq> 0"
    unfolding assms(8) NEBULA_O_RDWR_def NEBULA_O_RDONLY_def NEBULA_O_WRONLY_def by simp
  note c = posix.file_write_cases [OF assms(1-6) fl assms(9,10,11)]
  note r = posix.file_write_then_read_cases [OF assms(1-11)]
  have f': "f_flags f' = NEBULA_O_RDWR" using c(8) assms(8) by simp
  note nx = posix.mount_next_refl [OF posix.mount_next_inv [OF c(1)]]
  obtain g m1 where g: "nebula_file_open m' (ino_inode_num (f_inode f)) NEBULA_O_RDWR = (Inr g, m1)"
    "f_inode g = f_inode f'" "f_flags g = NEBULA_O_RDWR" "posix.mount_next L m' m1"
    "posix.mdisk m1 = posix.mdisk m'" "m_bitmap m1 = m_bitmap m'"
    using r(2) [OF refl f' nx refl refl] by blast
  show ?thesis using r(1) [OF refl f' nx refl refl] r(1) [OF g(2-6)] g(1) by blast
qed

text \<open>
  The effect of a write on a device without faults: it writes some number \<open>n\<close> of the
  bytes, all of them unless space runs out, and reports that number; the \<open>n\<close> bytes are in place, every
  other byte of the file that had a block keeps its value, no device block that belongs neither to this
  file nor to the free space changes except the bitmap and the inode's own slot, and the file's blocks
  are still used by nobody else.
\<close>

theorem file_write_effect:
  assumes "mount_inv posix_ops posix_inv L m" and "posix_healthy (io_dev (m_io m))" and "data_free L m"
    and "addressable L" and "file_ok L (hbm_free (m_bitmap m)) (f_inode f)"
    and "unat (ino_inode_num (f_inode f)) < inode_count L"
    and "f_flags f AND NEBULA_O_WRONLY \<noteq> 0" and "buf \<noteq> []" and "unat off + length buf < 2 ^ 63"
    and "nebula_file_write m f off buf t = (r, f', m')"
  shows "(\<exists>n \<le> length buf. (r = Inr n \<or> n = 0 \<and> r = Inl ENOSPC)
        \<and> write_effect (posix.mdisk m) (f_inode f) (posix.mdisk m') (f_inode f') (unat off) (unat off + n) (take n buf))
    \<and> (\<forall>a. a \<notin> set (file_list (f_inode f)) \<and> a \<notin> hbm_free (m_bitmap m)
         \<and> (a < 131 \<or> 131 + unat (lay_bitmap_block_count L) \<le> a)
         \<and> a \<noteq> unat (lay_inode_page_lba L) + unat (ino_inode_num (f_inode f)) \<longrightarrow>
         posix.mdisk m' a = posix.mdisk m a)
    \<and> mount_inv posix_ops posix_inv L m' \<and> data_free L m' \<and> file_ok L (hbm_free (m_bitmap m')) (f_inode f')"
proof -
  note c = posix.file_write_cases [OF assms]
  have "\<exists>n \<le> length buf. (r = Inr n \<or> n = 0 \<and> r = Inl ENOSPC)
        \<and> write_effect (posix.mdisk m) (f_inode f) (posix.mdisk m') (f_inode f') (unat off) (unat off + n) (take n buf)"
    using c(9) by blast
  then show ?thesis using c(1,2,3,7) by blast
qed

text \<open>
  A read returns the bytes of the file, cut at its size: a successful one a prefix of
  them, on a device without faults all of them; positions without a block read as zero; nothing on the
  device changes.
\<close>

theorem file_read_exact:
  assumes "mount_inv posix_ops posix_inv L m" and "file_ok L fr (f_inode f)"
    and "nebula_file_read m f off len t = (r, f', m')" and "unat off + unat len < 2 ^ 64"
    and "f_flags f AND NEBULA_O_RDONLY \<noteq> 0"
  defines "n \<equiv> min (unat len) (unat (ino_size_bytes (f_inode f)) - unat off)"
  shows "(\<forall>bs. r = Inr bs \<longrightarrow> length bs \<le> n \<and> bs = map (file_byte (posix.mdisk m) (f_inode f)) [unat off..<unat off + length bs])
    \<and> (posix_healthy (io_dev (m_io m)) \<longrightarrow> r = Inr (map (file_byte (posix.mdisk m) (f_inode f)) [unat off..<unat off + n]))
    \<and> posix.mdisk m' = posix.mdisk m"
  using posix.file_read_cases(3,4,5) [OF assms(1-5)] unfolding file_bytes_def n_def by blast

text \<open>
  Deleting a file on a device without faults gives back exactly its blocks and its inode
  slot, and touches nothing outside the bitmap region and that slot.
\<close>

theorem file_delete_reclaims:
  assumes "mount_inv posix_ops posix_inv L m" and "posix_healthy (io_dev (m_io m))" and "data_free L m"
    and "file_ok L (hbm_free (m_bitmap m)) (f_inode f)"
    and "ino_inode_num (f_inode f) \<noteq> 0" and "unat (ino_inode_num (f_inode f)) < inode_count L"
    and "ino_type (inode_at (posix.mdisk m) L (unat (ino_inode_num (f_inode f)))) \<noteq> NEBULA_INODE_TYPE_FREE"
    and "nebula_file_delete m f = (r, m')"
  shows "r = Inr () \<and> hbm_free (m_bitmap m') = hbm_free (m_bitmap m) \<union> set (file_list (f_inode f))
    \<and> ino_type (inode_at (posix.mdisk m') L (unat (ino_inode_num (f_inode f)))) = NEBULA_INODE_TYPE_FREE
    \<and> (\<forall>a. (a < 131 \<or> 131 + unat (lay_bitmap_block_count L) \<le> a)
         \<and> a \<noteq> unat (lay_inode_page_lba L) + unat (ino_inode_num (f_inode f)) \<longrightarrow> posix.mdisk m' a = posix.mdisk m a)"
proof -
  note c = posix.file_delete_cases [OF assms(1,3,4,8)]
  have "unat (ino_inode_num (f_inode f)) \<noteq> 0" using assms(5) by (simp add: unat_eq_zero)
  then show ?thesis using c(5,6) c(7) [OF assms(2) _ assms(6,7)] assms(2) by (simp add: inode_at_def)
qed

text \<open>
  Property C25.  A partial write into a block that was just allocated keeps what the device held there:
  a byte of that block outside the written range, which had no block before, afterwards reads as the
  old content of the device block and not as zero.
\<close>

theorem file_partial_write_exposes_old_block:
  assumes "mount_inv posix_ops posix_inv L m" and "data_free L m" and "addressable L"
    and "file_ok L (hbm_free (m_bitmap m)) (f_inode f)" and "unat b + 256 < 2 ^ 64"
    and "extent_find (f_inode f) b = None"
    and "file_write_target m f b left blk_off = (Inr q, f1, m1)"
    and "file_put_block m1 q o1 bs = (Inr (), m2)" and "o1 + length bs \<le> 4096"
    and "j < 4096" and "j < o1 \<or> o1 + length bs \<le> j" and "unat b < 2 ^ 51"
  shows "file_byte (posix.mdisk m) (f_inode f) (4096 * unat b + j) = 0
    \<and> file_byte (posix.mdisk m2) (f_inode f1) (4096 * unat b + j) = posix.mdisk m (unat q) ! j"
proof -
  note t = posix.file_write_target_cases [OF assms(1-5,7)]
  have t0: "posix.mount_next L m m1" "file_ok L (hbm_free (m_bitmap m1)) (f_inode f1)"
    using t(1) by (auto simp: posix.grows_def)
  note c = posix.file_put_block_cases [OF posix.mount_next_inv [OF t0(1)] assms(8,9)]
  have ph: "file_phys (f_inode f1) b = Some (unat q)" using t(4) by simp
  have "131 + unat (lay_bitmap_block_count L) \<le> unat q"
    using posix.data_block_in_range(4) [OF posix.mount_next_inv [OF t0(1)] t0(2) ph] .
  then have old: "posix.mdisk m1 (unat q) = posix.mdisk m (unat q)" using t(3) by blast
  have pos: "(of_nat ((4096 * unat b + j) div 4096) :: u64) = b" "(4096 * unat b + j) mod 4096 = j"
    using assms(10) by simp_all
  have "wf_ino (f_inode f)" using assms(4) by (simp add: file_ok_def)
  then have "file_phys (f_inode f) b = None" using extent_find_extent [of "f_inode f" b] assms(6) by (simp add: file_phys_def)
  then have "file_byte (posix.mdisk m) (f_inode f) (4096 * unat b + j) = 0"
    unfolding file_byte_def pos by simp
  moreover have "put o1 bs (posix.mdisk m (unat q)) ! j = posix.mdisk m (unat q) ! j"
    using nth_put [of o1 bs "posix.mdisk m (unat q)" j] assms(9-11) by (auto simp: posix.blk_length)
  then have "file_byte (posix.mdisk m2) (f_inode f1) (4096 * unat b + j) = posix.mdisk m (unat q) ! j"
    unfolding file_byte_def pos ph c(4) [OF refl] old by simp
  ultimately show ?thesis by blast
qed

section \<open>Witnesses\<close>

text \<open>A formatted device of 256 MiB filled with a byte, its inode table empty, and a file created on it.\<close>

lemma sample_created:
  fixes v :: byte
  obtains L m0 m f where "nebula_file_create m0 0x1A4 0 = (Inr f, m)"
    and "mount_inv posix_ops posix_inv L m" and "posix_healthy (io_dev (m_io m))" and "data_free L m" and "addressable L"
    and "hbm_free (m_bitmap m) \<noteq> {}" and "bitmap_synced posix_blk L m"
    and "\<exists>x. f_inode f = inode_new x NEBULA_INODE_TYPE_FILE 0x1A4 0 \<and> unat x < inode_count L \<and> x \<noteq> 0"
    and "f_flags f = NEBULA_O_RDWR"
    and "inode_at (posix.mdisk m) L (unat (ino_inode_num (f_inode f))) = f_inode f"
    and "\<forall>a. unat (lay_data_start_lba L) \<le> a \<and> a < unat (lay_alloc_roots_tail_lba L) \<longrightarrow> posix.mdisk m a = replicate 4096 v"
proof -
  obtain L where L: "layout_tiles L" "lay_capacity_blocks L = 65536" by (rule sample_layout)
  let ?c = "\<lambda>a. if a < unat (lay_data_start_lba L) then zeros 4096 else replicate 4096 v"
  have len: "length (?c a) = 4096" for a by simp
  obtain m0 where m0: "mount_inv posix_ops posix_inv L m0" "bitmap_synced posix_blk L m0" "posix_healthy (io_dev (m_io m0))"
    "free_blocks (hb_l0_bits (m_bitmap m0)) 65536 = {unat (lay_data_start_lba L)..<unat (lay_alloc_roots_tail_lba L)}"
    "posix_blk (io_dev (m_io m0)) = filled_image L ?c"
    using image_mount [OF L, of ?c, OF len] by blast
  have fr: "hbm_free (m_bitmap m0) = {unat (lay_data_start_lba L)..<unat (lay_alloc_roots_tail_lba L)}"
    using m0(4) mount_inv_geometry(8) [OF m0(1)] L(2) by simp
  have dom: "posix.mdisk m0 a = ?c a" if "131 + unat (lay_bitmap_block_count L) \<le> a" "a < unat (lay_sb_tail_lba L)" for a
    using m0(5) that by (simp add: filled_image_def)
  obtain r m where cr: "nebula_file_create m0 0x1A4 0 = (r, m)" by (rule prod.exhaust)
  note c = posix.file_create_cases [OF m0(1) cr]
  have "131 + unat (lay_bitmap_block_count L) \<le> unat (lay_inode_page_lba L) + 1"
    "unat (lay_inode_page_lba L) + 1 < unat (lay_sb_tail_lba L)" "unat (lay_inode_page_lba L) + 1 < unat (lay_data_start_lba L)"
    using L(1) unfolding layout_tiles_def by linarith+
  then have "ino_type (inode_at (posix.mdisk m0) L 1) = NEBULA_INODE_TYPE_FREE" by (simp add: dom inode_at_def)
  then obtain f where r: "r = Inr f" using c(6) [OF m0(3)] inode_region(4) [OF m0(1)] by (cases r) auto
  then obtain x where x: "1 \<le> unat x" "unat x < inode_count L" "f_inode f = inode_new x NEBULA_INODE_TYPE_FILE 0x1A4 0"
    "f_flags f = NEBULA_O_RDWR"
    "posix.mdisk m = (posix.mdisk m0)(unat (lay_inode_page_lba L) + unat x := enc_ino (inode_new x NEBULA_INODE_TYPE_FILE 0x1A4 0))"
    using c(5) [OF r] by auto
  have t: "unat (lay_inode_page_lba L) + inode_count L \<le> unat (lay_data_start_lba L)"
    "131 + unat (lay_bitmap_block_count L) \<le> unat (lay_data_start_lba L)"
    "unat (lay_alloc_roots_tail_lba L) < unat (lay_sb_tail_lba L)" "unat (lay_data_start_lba L) < unat (lay_alloc_roots_tail_lba L)"
    using L(1) by (auto simp: layout_tiles_def)
  show ?thesis
  proof (rule that)
    show "nebula_file_create m0 0x1A4 0 = (Inr f, m)" using cr r by simp
    show "mount_inv posix_ops posix_inv L m" "posix_healthy (io_dev (m_io m))"
      using posix.mount_next_inv [OF c(1)] posix.mount_next_up [OF c(1) m0(3)] by auto
    show "data_free L m" "hbm_free (m_bitmap m) \<noteq> {}" using fr c(2) t(4) by (auto simp: data_free_def)
    show "addressable L" using L(2) by (simp add: addressable_def)
    show "bitmap_synced posix_blk L m" using c(3) [OF m0(2)] .
    have "x \<noteq> 0" using x(1) by auto
    then show "\<exists>x. f_inode f = inode_new x NEBULA_INODE_TYPE_FILE 0x1A4 0 \<and> unat x < inode_count L \<and> x \<noteq> 0" using x(2,3) by blast
    show "f_flags f = NEBULA_O_RDWR" by (rule x(4))
    show "inode_at (posix.mdisk m) L (unat (ino_inode_num (f_inode f))) = f_inode f"
      using x(3,5) inode_new_wf by (simp add: inode_at_def ino.dec_enc)
    have "posix.mdisk m a = replicate 4096 v" if a: "unat (lay_data_start_lba L) \<le> a" "a < unat (lay_alloc_roots_tail_lba L)" for a
    proof -
      have "posix.mdisk m a = posix.mdisk m0 a" using a x(2,5) t(1) by simp
      then show ?thesis using dom [of a] a t by simp
    qed
    then show "\<forall>a. unat (lay_data_start_lba L) \<le> a \<and> a < unat (lay_alloc_roots_tail_lba L) \<longrightarrow> posix.mdisk m a = replicate 4096 v"
      by blast
  qed
qed

lemma rdwr_flags: "NEBULA_O_RDWR AND NEBULA_O_WRONLY \<noteq> 0" "NEBULA_O_RDWR AND NEBULA_O_RDONLY \<noteq> 0"
  unfolding NEBULA_O_RDWR_def NEBULA_O_RDONLY_def NEBULA_O_WRONLY_def by simp_all

theorem file_write_then_read_witness:
  "\<exists>m f f' m'. nebula_file_write m f 5 [1, 2, 3] 0 = (Inr 3, f', m')
     \<and> fst (nebula_file_read (m' :: posix_dev nebula_mount) f' 5 3 0) = Inr [1, 2, 3]"
proof -
  obtain L m0 m f where cr: "nebula_file_create m0 0x1A4 0 = (Inr f, m)" and s: "mount_inv posix_ops posix_inv L m" "posix_healthy (io_dev (m_io m))" "data_free L m" "addressable L"
    "hbm_free (m_bitmap m) \<noteq> {}" "f_flags f = NEBULA_O_RDWR"
    and e: "\<exists>x. f_inode f = inode_new x NEBULA_INODE_TYPE_FILE 0x1A4 0 \<and> unat x < inode_count L \<and> x \<noteq> 0"
    by (rule sample_created [of 0])
  then obtain x where x: "f_inode f = inode_new x NEBULA_INODE_TYPE_FILE 0x1A4 0" "unat x < inode_count L" by blast
  obtain r f' m' where w: "nebula_file_write m f 5 [1, 2, 3] 0 = (r, f', m')" by (rule prod_cases3)
  have fl: "f_flags f AND NEBULA_O_WRONLY \<noteq> 0" using s(6) rdwr_flags by simp
  have r: "r = Inr (length [1, 2, 3 :: byte])"
    using posix.file_write_new_block [OF s(1-4) x fl _ _ _ s(5) w] by simp
  have "fst (nebula_file_read m' f' 5 (of_nat (length [1, 2, 3 :: byte])) 0) = Inr [1, 2, 3]"
    using file_write_then_read [OF s(1-4) _ _ _ s(6) _ _ w [unfolded r], of 0] x file_ok_new(1)
    by (simp add: NEBULA_INODE_TYPE_FILE_def NEBULA_INODE_TYPE_FREE_def)
  then show ?thesis using w r by (intro exI [of _ m] exI [of _ f] exI [of _ f'] exI [of _ m']) simp
qed

theorem file_write_effect_witness:
  "\<exists>L m f f' m'. nebula_file_write m f 5 [1, 2, 3] 0 = (Inr 3, f', m')
     \<and> write_effect (posix.mdisk m) (f_inode f) (posix.mdisk m') (f_inode f') 5 8 [1, 2, 3]
     \<and> mount_inv posix_ops posix_inv L m'"
proof -
  obtain L m0 m f where cr: "nebula_file_create m0 0x1A4 0 = (Inr f, m)" and s: "mount_inv posix_ops posix_inv L m" "posix_healthy (io_dev (m_io m))" "data_free L m" "addressable L"
    "hbm_free (m_bitmap m) \<noteq> {}" "f_flags f = NEBULA_O_RDWR"
    and e: "\<exists>x. f_inode f = inode_new x NEBULA_INODE_TYPE_FILE 0x1A4 0 \<and> unat x < inode_count L \<and> x \<noteq> 0"
    by (rule sample_created [of 0])
  then obtain x where x: "f_inode f = inode_new x NEBULA_INODE_TYPE_FILE 0x1A4 0" "unat x < inode_count L" by blast
  obtain r f' m' where w: "nebula_file_write m f 5 [1, 2, 3] 0 = (r, f', m')" by (rule prod_cases3)
  have fl: "f_flags f AND NEBULA_O_WRONLY \<noteq> 0" using s(6) rdwr_flags by simp
  have r: "r = Inr 3" using posix.file_write_new_block [OF s(1-4) x fl _ _ _ s(5) w] by simp
  have ok: "file_ok L (hbm_free (m_bitmap m)) (f_inode f)" "unat (ino_inode_num (f_inode f)) < inode_count L"
    using x file_ok_new(1) by simp_all
  have "write_effect (posix.mdisk m) (f_inode f) (posix.mdisk m') (f_inode f') 5 8 [1, 2, 3]" "mount_inv posix_ops posix_inv L m'"
    using file_write_effect [OF s(1-4) ok fl _ _ w] r by auto
  then show ?thesis using w r by blast
qed

theorem file_read_exact_witness:
  "\<exists>L (m :: posix_dev nebula_mount) f f' m'. mount_inv posix_ops posix_inv L m
     \<and> nebula_file_read m f 0 9 7 = (Inr (zeros 9), f', m')"
proof -
  obtain L m0 m f where cr: "nebula_file_create m0 0x1A4 0 = (Inr f, m)" and s: "mount_inv posix_ops posix_inv L m" "posix_healthy (io_dev (m_io m))"
    and e: "\<exists>x. f_inode f = inode_new x NEBULA_INODE_TYPE_FILE 0x1A4 0 \<and> unat x < inode_count L \<and> x \<noteq> 0"
    by (rule sample_created [of 0])
  then obtain x where x: "f_inode f = inode_new x NEBULA_INODE_TYPE_FILE 0x1A4 0" by blast
  define g where "g = f\<lparr>f_flags := NEBULA_O_RDWR, f_inode := (f_inode f)\<lparr>ino_size_bytes := 9\<rparr>\<rparr>"
  have ex: "ino_extents (f_inode g) = ino_extents (inode_new x NEBULA_INODE_TYPE_FILE 0x1A4 0)" by (simp add: g_def x)
  have "wf_ino (f_inode g)" using inode_new_wf [of x NEBULA_INODE_TYPE_FILE "0x1A4" 0] by (simp add: g_def x wf_ino_def)
  then have ok: "file_ok L {} (f_inode g)" using file_ok_extents [OF file_ok_new(1) ex] by simp
  have z: "file_byte d (f_inode g) p = 0" for d p
    using file_ok_new(3) by (simp add: file_byte_def file_phys_extents [OF ex])
  have fl: "f_flags g AND NEBULA_O_RDONLY \<noteq> 0" "ino_size_bytes (f_inode g) = 9" using rdwr_flags by (simp_all add: g_def)
  obtain r f' m' where rd: "nebula_file_read m g 0 9 7 = (r, f', m')" by (rule prod_cases3)
  have "r = Inr (map (file_byte (posix.mdisk m) (f_inode g)) [0..<9])"
    using file_read_exact [OF s(1) ok rd _ fl(1)] s(2) fl(2) by simp
  also have "map (file_byte (posix.mdisk m) (f_inode g)) [0..<9] = zeros 9" by (rule nth_equalityI) (simp_all add: z)
  finally show ?thesis using rd s(1) by blast
qed

theorem file_delete_reclaims_witness:
  "\<exists>L (m :: posix_dev nebula_mount) f m'. mount_inv posix_ops posix_inv L m \<and> nebula_file_delete m f = (Inr (), m')
     \<and> ino_type (inode_at (posix.mdisk m') L (unat (ino_inode_num (f_inode f)))) = NEBULA_INODE_TYPE_FREE"
proof -
  obtain L m0 m f where cr: "nebula_file_create m0 0x1A4 0 = (Inr f, m)" and s: "mount_inv posix_ops posix_inv L m" "posix_healthy (io_dev (m_io m))" "data_free L m"
    and e: "\<exists>x. f_inode f = inode_new x NEBULA_INODE_TYPE_FILE 0x1A4 0 \<and> unat x < inode_count L \<and> x \<noteq> 0"
    and at: "inode_at (posix.mdisk m) L (unat (ino_inode_num (f_inode f))) = f_inode f"
    by (rule sample_created [of 0])
  then obtain x where x: "f_inode f = inode_new x NEBULA_INODE_TYPE_FILE 0x1A4 0" "unat x < inode_count L" "x \<noteq> 0" by blast
  obtain r m' where d: "nebula_file_delete m f = (r, m')" by (rule prod.exhaust)
  have ok: "file_ok L (hbm_free (m_bitmap m)) (f_inode f)" "unat (ino_inode_num (f_inode f)) < inode_count L"
    "ino_inode_num (f_inode f) \<noteq> 0" "ino_type (f_inode f) \<noteq> NEBULA_INODE_TYPE_FREE"
    using x file_ok_new(1) by (simp_all add: NEBULA_INODE_TYPE_FILE_def NEBULA_INODE_TYPE_FREE_def)
  show ?thesis using file_delete_reclaims [OF s ok(1,3,2) _ d] at ok(4) d s(1) by auto
qed

theorem file_partial_write_exposes_old_block_witness:
  "\<exists>m f q f1 m1 m2. file_write_target m f 0 1 1 = (Inr q, f1, m1) \<and> file_put_block m1 q 1 [7] = (Inr (), m2)
     \<and> file_byte (posix.mdisk m) (f_inode f) 0 = 0 \<and> file_byte (posix.mdisk m2) (f_inode f1) 0 = 0xAB"
proof -
  obtain L m0 m f where cr: "nebula_file_create m0 0x1A4 0 = (Inr f, m)" and s: "mount_inv posix_ops posix_inv L m" "posix_healthy (io_dev (m_io m))" "data_free L m" "addressable L"
    "hbm_free (m_bitmap m) \<noteq> {}" "f_flags f = NEBULA_O_RDWR"
    and e: "\<exists>x. f_inode f = inode_new x NEBULA_INODE_TYPE_FILE 0x1A4 0 \<and> unat x < inode_count L \<and> x \<noteq> 0"
    and full: "\<forall>a. unat (lay_data_start_lba L) \<le> a \<and> a < unat (lay_alloc_roots_tail_lba L)
        \<longrightarrow> posix.mdisk m a = replicate 4096 0xAB"
    by (rule sample_created [of "0xAB"])
  then obtain x where x: "f_inode f = inode_new x NEBULA_INODE_TYPE_FILE 0x1A4 0" "unat x < inode_count L" by blast
  have ok: "file_ok L (hbm_free (m_bitmap m)) (f_inode f)" using x file_ok_new(1) by simp
  have find: "extent_find (f_inode f) 0 = None"
    using extent_find_extent [of "f_inode f" 0] x inode_new_wf file_ok_new(3) [of x NEBULA_INODE_TYPE_FILE "0x1A4" 0 0]
    by (simp add: file_phys_def)
  obtain w f1 m1 where tg: "file_write_target m f 0 1 1 = (w, f1, m1)" by (rule prod_cases3)
  have "write_need_blks 1 1 = 1" by (simp add: write_need_blks_def)
  then obtain q where w: "w = Inr q" using posix.file_write_target_new [OF s(1-4) x(1) s(5) _ tg] by auto
  note t = posix.file_write_target_cases [OF s(1,3,4) ok _ tg]
  have t0: "posix.mount_next L m m1" "file_ok L (hbm_free (m_bitmap m1)) (f_inode f1)"
    using t(1) by (auto simp: posix.grows_def)
  note rg = posix.data_block_in_range [OF posix.mount_next_inv [OF t0(1)] t0(2) t(4) [OF _ w]]
  obtain v m2 where pb: "file_put_block m1 q 1 [7] = (v, m2)" by (rule prod.exhaust)
  have v: "v = Inr ()"
    using posix.file_put_block_cases(5) [OF posix.mount_next_inv [OF t0(1)] pb] posix.mount_next_up [OF t0(1) s(2)] rg(3) by simp
  have "file_byte (posix.mdisk m) (f_inode f) (4096 * unat (0 :: u64) + 0) = 0
    \<and> file_byte (posix.mdisk m2) (f_inode f1) (4096 * unat (0 :: u64) + 0) = posix.mdisk m (unat q) ! 0"
    using file_partial_write_exposes_old_block [OF s(1,3,4) ok _ find tg [unfolded w] pb [unfolded v], of 0] by simp
  then show ?thesis using tg w pb v full rg(1,2) by (auto intro!: exI)
qed

end
