(* ===== verification/Nebula_Fs.thy ===== *)
theory Nebula_Fs
  imports Nebula_Dir Nebula_File_Correct
begin

unbundle bit_operations_syntax

text \<open>
  \<open>src/nebula/nebula_fs.c\<close>, the public interface: a flat namespace of files.  The invariant of a mounted
  file system spans the bitmap, the inode table and the directory, and its abstraction is the finite
  map from names to files, a file being a size and the bytes at the positions that have a block.
\<close>

section \<open>The code\<close>

text \<open>\<open>opened\<close> and \<open>stated\<close> are what \<open>open\<close> and \<open>fstat\<close> return for the device path.\<close>

definition nebula_fs_mount :: "posix_dev res \<Rightarrow> errno option \<Rightarrow> posix_dev nebula_mount res" where
  "nebula_fs_mount opened stated = nebula_mount_open opened stated"

definition nebula_fs_mount_io :: "'d nebula_io \<Rightarrow> 'd nebula_mount res \<times> 'd nebula_io" where
  "nebula_fs_mount_io io = nebula_mount_open_io io"

definition nebula_fs_create ::
    "'d nebula_mount \<Rightarrow> byte list \<Rightarrow> u32 \<Rightarrow> u64 \<Rightarrow> nebula_file res \<times> 'd nebula_mount" where
  "nebula_fs_create fs name mode t =
     (case nebula_file_create fs mode t of
        (Inl e, m1) \<Rightarrow> (Inl e, m1)
      | (Inr f, m1) \<Rightarrow>
          (case nebula_dir_add m1 name (ino_inode_num (f_inode f)) NEBULA_DIR_FLAG_FILE of
             (Inl e, m2) \<Rightarrow> (case nebula_file_delete m2 f of (_, m3) \<Rightarrow> (Inl e, m3))
           | (Inr _, m2) \<Rightarrow> (Inr f, m2)))"

definition nebula_fs_open ::
    "'d nebula_mount \<Rightarrow> byte list \<Rightarrow> u32 \<Rightarrow> nebula_file res \<times> 'd nebula_mount" where
  "nebula_fs_open fs name flags =
     (case nebula_dir_lookup fs name of
        (Inl e, m1) \<Rightarrow> (Inl e, m1)
      | (Inr inum, m1) \<Rightarrow> nebula_file_open m1 inum flags)"

definition nebula_fs_write ::
    "'d nebula_mount \<Rightarrow> nebula_file \<Rightarrow> u64 \<Rightarrow> byte list \<Rightarrow> u64 \<Rightarrow> nat res \<times> nebula_file \<times> 'd nebula_mount" where
  "nebula_fs_write fs fh offset buf t = nebula_file_write fs fh offset buf t"

definition nebula_fs_read ::
    "'d nebula_mount \<Rightarrow> nebula_file \<Rightarrow> u64 \<Rightarrow> u64 \<Rightarrow> u64 \<Rightarrow> byte list res \<times> nebula_file \<times> 'd nebula_mount" where
  "nebula_fs_read fs fh offset len t = nebula_file_read fs fh offset len t"

definition nebula_fs_file_size :: "nebula_file \<Rightarrow> u64" where
  "nebula_fs_file_size fh = ino_size_bytes (f_inode fh)"

definition nebula_fs_close :: "'d nebula_mount \<Rightarrow> nebula_file \<Rightarrow> u64 \<Rightarrow> unit res \<times> 'd nebula_mount" where
  "nebula_fs_close fs fh t = nebula_file_close fs fh t"

definition nebula_fs_delete :: "'d nebula_mount \<Rightarrow> byte list \<Rightarrow> unit res \<times> 'd nebula_mount" where
  "nebula_fs_delete fs name =
     (case nebula_dir_lookup fs name of
        (Inl e, m1) \<Rightarrow> (Inl e, m1)
      | (Inr inum, m1) \<Rightarrow>
          (case nebula_dir_remove m1 name of
             (Inl e, m2) \<Rightarrow> (Inl e, m2)
           | (Inr _, m2) \<Rightarrow>
               (case nebula_file_open m2 inum NEBULA_O_RDWR of
                  (Inl e, m3) \<Rightarrow> (Inl e, m3)
                | (Inr f, m3) \<Rightarrow> nebula_file_delete m3 f)))"

definition nebula_fs_lookup :: "'d nebula_mount \<Rightarrow> byte list \<Rightarrow> u64 res \<times> 'd nebula_mount" where
  "nebula_fs_lookup fs name = nebula_dir_lookup fs name"

record nebula_fs_dirent =
  fd_inode_num :: u64
  fd_flags :: u16
  fd_name :: "byte list"

text \<open>The adapter sees the name as a C string, up to its first NUL, and copies at most 1000 bytes of it.\<close>

definition readdir_bridge ::
    "(nebula_fs_dirent \<Rightarrow> 'u \<Rightarrow> int \<times> 'u) \<Rightarrow> byte list \<Rightarrow> u64 \<Rightarrow> u16 \<Rightarrow> 'u \<Rightarrow> int \<times> 'u" where
  "readdir_bridge cb name inode_num flags ud =
     cb \<lparr>fd_inode_num = inode_num, fd_flags = flags, fd_name = take 1000 (takeWhile (\<lambda>c. c \<noteq> 0) name)\<rparr> ud"

definition nebula_fs_readdir ::
    "'d nebula_mount \<Rightarrow> (nebula_fs_dirent \<Rightarrow> 'u \<Rightarrow> int \<times> 'u) \<Rightarrow> 'u \<Rightarrow> int res \<times> 'u \<times> 'd nebula_mount" where
  "nebula_fs_readdir fs cb ud = nebula_dir_list fs (readdir_bridge cb) ud"

definition nebula_fs_statvfs :: "'d nebula_mount \<Rightarrow> u64 \<times> u64" where
  "nebula_fs_statvfs fs = (sb_device_capacity_blocks (m_sb fs), nebula_hbm_total_free (m_bitmap fs))"

section \<open>The abstract file system\<close>

type_synonym afile = "u64 \<times> (nat \<Rightarrow> byte option)"

definition file_view :: "(nat \<Rightarrow> byte list) \<Rightarrow> nebula_inode \<Rightarrow> afile" where
  "file_view dsk i = (ino_size_bytes i, \<lambda>p. if p < 2 ^ 64 \<and> file_phys i (of_nat (p div 4096)) \<noteq> None
     then Some (file_byte dsk i p) else None)"

definition fs_view :: "(nat \<Rightarrow> byte list) \<Rightarrow> nebula_layout \<Rightarrow> byte list \<Rightarrow> afile option" where
  "fs_view dsk L name = map_option (\<lambda>n. file_view dsk (inode_at dsk L (unat n))) (dir_map dsk L name)"

text \<open>
  The abstract write: the bytes written are in place, the mapped bytes outside the range keep their
  value, and the size covers the range.  Positions that had no byte are unconstrained.
\<close>

definition afile_write :: "nat \<Rightarrow> byte list \<Rightarrow> afile \<Rightarrow> afile \<Rightarrow> bool" where
  "afile_write off buf a b \<longleftrightarrow> fst b = max (fst a) (of_nat (off + length buf))
     \<and> (\<forall>p. off \<le> p \<and> p < off + length buf \<longrightarrow> snd b p = Some (buf ! (p - off)))
     \<and> (\<forall>p v. (p < off \<or> off + length buf \<le> p) \<and> snd a p = Some v \<longrightarrow> snd b p = Some v)"

text \<open>
  What is left of a write that ran out of space after \<open>bs\<close>: the size is the old one, and of the bytes written
  only those at positions that had a block before belong to the file.
\<close>

definition afile_short :: "nat \<Rightarrow> byte list \<Rightarrow> afile \<Rightarrow> afile" where
  "afile_short off bs a =
     (fst a, \<lambda>p. if off \<le> p \<and> p < off + length bs \<and> snd a p \<noteq> None then Some (bs ! (p - off)) else snd a p)"

text \<open>
  The outcome of a creation: it first takes an inode, then looks at the name, at the names there are, and
  at the room in the directory.
\<close>

definition acreate_errno :: "bool \<Rightarrow> nat \<Rightarrow> (byte list \<Rightarrow> 'f option) \<Rightarrow> byte list \<Rightarrow> errno option" where
  "acreate_errno inode_left slots v name =
     (if \<not> inode_left then Some ENOSPC else if name = [] then Some EINVAL
      else if NEBULA_DIR_NAME_MAX \<le> length name then Some ENAMETOOLONG
      else if v name \<noteq> None then Some EEXIST else if card (dom v) = slots then Some ENOSPC else None)"

text \<open>The outcome of looking a name up.\<close>

definition alookup_errno :: "(byte list \<Rightarrow> 'f option) \<Rightarrow> byte list \<Rightarrow> errno option" where
  "alookup_errno v name =
     (if NEBULA_DIR_NAME_MAX \<le> length name then Some ENAMETOOLONG else if v name = None then Some ENOENT else None)"

definition res_errno :: "'a res \<Rightarrow> errno option" where
  "res_errno r = (case r of Inl e \<Rightarrow> Some e | Inr _ \<Rightarrow> None)"

lemma res_errno_simps [simp]: "res_errno (Inl e) = Some e" "res_errno (Inr x) = None"
  by (simp_all add: res_errno_def)

section \<open>The invariant\<close>

definition inode_used :: "(nat \<Rightarrow> byte list) \<Rightarrow> nebula_layout \<Rightarrow> nat \<Rightarrow> bool" where
  "inode_used dsk L k \<longleftrightarrow> k < inode_count L \<and> ino_type (inode_at dsk L k) \<noteq> NEBULA_INODE_TYPE_FREE"

text \<open>The inode table: every inode in use is sealed, knows its number, and no two share a block.\<close>

definition itab_ok :: "nebula_layout \<Rightarrow> nat set \<Rightarrow> (nat \<Rightarrow> byte list) \<Rightarrow> bool" where
  "itab_ok L fr dsk \<longleftrightarrow>
     (\<forall>k. inode_used dsk L k \<longrightarrow> inode_sealed (inode_at dsk L k) \<and> unat (ino_inode_num (inode_at dsk L k)) = k
        \<and> file_ok L fr (inode_at dsk L k))
     \<and> (\<forall>j k. inode_used dsk L j \<and> inode_used dsk L k \<and> j \<noteq> k \<longrightarrow>
          set (file_list (inode_at dsk L j)) \<inter> set (file_list (inode_at dsk L k)) = {})"

text \<open>The directory names inodes in use, and no inode has two names.\<close>

definition names_ok :: "nebula_layout \<Rightarrow> (nat \<Rightarrow> byte list) \<Rightarrow> bool" where
  "names_ok L dsk \<longleftrightarrow> (\<forall>name n. dir_map dsk L name = Some n \<longrightarrow> inode_used dsk L (unat n))
     \<and> (\<forall>a b n. dir_map dsk L a = Some n \<and> dir_map dsk L b = Some n \<longrightarrow> a = b)"

definition fs_ok :: "'d nebula_io_ops \<Rightarrow> (u64 \<Rightarrow> 'd \<Rightarrow> bool) \<Rightarrow> ('d \<Rightarrow> nat \<Rightarrow> byte list) \<Rightarrow> nebula_layout
    \<Rightarrow> 'd nebula_mount \<Rightarrow> bool" where
  "fs_ok ops dinv blk L m \<longleftrightarrow> mount_inv ops dinv L m \<and> bitmap_synced blk L m \<and> data_free L m
     \<and> dir_wf (blk (io_dev (m_io m))) L \<and> dir_counted (blk (io_dev (m_io m))) L
     \<and> itab_ok L (hbm_free (m_bitmap m)) (blk (io_dev (m_io m))) \<and> names_ok L (blk (io_dev (m_io m)))"

section \<open>Changing one inode\<close>

lemma inode_at_same: "dsk' (inode_addr L k) = dsk (inode_addr L k) \<Longrightarrow> inode_at dsk' L k = inode_at dsk L k"
  by (simp add: inode_at_def)

lemma itab_change:
  assumes it: "itab_ok L fr dsk"
    and same: "\<And>k. k < inode_count L \<Longrightarrow> k \<noteq> x \<Longrightarrow> inode_at dsk' L k = inode_at dsk L k"
    and new: "inode_used dsk' L x \<Longrightarrow> inode_sealed (inode_at dsk' L x) \<and> unat (ino_inode_num (inode_at dsk' L x)) = x
        \<and> file_ok L fr' (inode_at dsk' L x)
        \<and> (\<forall>k. inode_used dsk L k \<and> k \<noteq> x \<longrightarrow> set (file_list (inode_at dsk' L x)) \<inter> set (file_list (inode_at dsk L k)) = {})"
    and rest: "\<And>k. inode_used dsk L k \<Longrightarrow> k \<noteq> x \<Longrightarrow> set (file_list (inode_at dsk L k)) \<inter> fr' = {}"
  shows "itab_ok L fr' dsk'"
proof -
  have old: "inode_used dsk L k" "inode_at dsk' L k = inode_at dsk L k" if "inode_used dsk' L k" "k \<noteq> x" for k
    using that same [of k] by (auto simp: inode_used_def)
  have ok: "inode_sealed (inode_at dsk' L k) \<and> unat (ino_inode_num (inode_at dsk' L k)) = k \<and> file_ok L fr' (inode_at dsk' L k)"
    if "inode_used dsk' L k" for k
  proof (cases "k = x")
    case False
    note o = old [OF that False]
    have "inode_sealed (inode_at dsk L k) \<and> unat (ino_inode_num (inode_at dsk L k)) = k \<and> file_ok L fr (inode_at dsk L k)"
      using it o(1) by (simp add: itab_ok_def)
    then show ?thesis using o(2) file_ok_fewer_free [of L fr "inode_at dsk L k" fr'] rest [OF o(1) False] by auto
  qed (use new that in blast)
  have dj: "set (file_list (inode_at dsk' L j)) \<inter> set (file_list (inode_at dsk' L k)) = {}"
    if u: "inode_used dsk' L j" "inode_used dsk' L k" "j \<noteq> k" for j k
  proof -
    consider "j = x" "k \<noteq> x" | "k = x" "j \<noteq> x" | "j \<noteq> x" "k \<noteq> x" using u(3) by blast
    then show ?thesis
    proof cases
      case 1
      then show ?thesis using new u(1) old [OF u(2) 1(2)] by auto
    next
      case 2
      then show ?thesis using new u(2) old [OF u(1) 2(2)] by auto
    next
      case 3
      then show ?thesis using it old [OF u(1) 3(1)] old [OF u(2) 3(2)] u(3) by (simp add: itab_ok_def)
    qed
  qed
  show ?thesis unfolding itab_ok_def using ok dj by blast
qed

lemma itab_same:
  assumes "itab_ok L fr dsk" and "\<And>k. k < inode_count L \<Longrightarrow> inode_at dsk' L k = inode_at dsk L k"
  shows "itab_ok L fr dsk'"
proof -
  have "inode_used dsk' L k \<longleftrightarrow> inode_used dsk L k" for k using assms(2) by (auto simp: inode_used_def)
  then show ?thesis using assms unfolding itab_ok_def by (metis inode_used_def)
qed

lemma itab_data:
  assumes "itab_ok L fr dsk" and "inode_used dsk L k" and "q \<in> set (file_list (inode_at dsk L k))"
  shows "unat (lay_data_start_lba L) \<le> q" and "q < unat (lay_alloc_roots_tail_lba L)" and "q \<notin> fr"
proof -
  have "set (file_list (inode_at dsk L k)) \<subseteq> {unat (lay_data_start_lba L)..<unat (lay_alloc_roots_tail_lba L)} - fr"
    using assms(1,2) unfolding itab_ok_def file_ok_def by blast
  then show "unat (lay_data_start_lba L) \<le> q" "q < unat (lay_alloc_roots_tail_lba L)" "q \<notin> fr" using assms(3) by auto
qed

lemma file_view_cong:
  assumes "ino_size_bytes i' = ino_size_bytes i" and "ino_extents i' = ino_extents i"
    and "file_ok L fr i" and "\<And>q. q \<in> set (file_list i) \<Longrightarrow> dsk' q = dsk q"
  shows "file_view dsk' i' = file_view dsk i"
proof -
  have "file_byte dsk' i p = file_byte dsk i p" for p
    using assms(4) file_phys_in_list [OF assms(3)] by (auto simp: file_byte_def split: option.splits)
  then have eq: "file_byte dsk' i = file_byte dsk i" by (rule ext)
  show ?thesis
    unfolding file_view_def assms(1) file_phys_extents [OF assms(2)] file_byte_extents [OF assms(2)] eq ..
qed

text \<open>The view when the directory is unchanged and so is everything one file does not own.\<close>

lemma fs_view_other:
  assumes nm: "names_ok L dsk" and it: "itab_ok L fr dsk" and D: "dir_map dsk' L name = dir_map dsk L name"
    and x: "\<And>n. dir_map dsk L name = Some n \<Longrightarrow> unat n \<noteq> x"
    and same: "\<And>k. k < inode_count L \<Longrightarrow> k \<noteq> x \<Longrightarrow> inode_at dsk' L k = inode_at dsk L k"
    and data: "\<And>k q. inode_used dsk L k \<Longrightarrow> k \<noteq> x \<Longrightarrow> q \<in> set (file_list (inode_at dsk L k)) \<Longrightarrow> dsk' q = dsk q"
  shows "fs_view dsk' L name = fs_view dsk L name"
proof (cases "dir_map dsk L name")
  case None
  then show ?thesis using D by (simp add: fs_view_def)
next
  case (Some n)
  have u: "inode_used dsk L (unat n)" using nm Some by (auto simp: names_ok_def)
  have ok: "file_ok L fr (inode_at dsk L (unat n))" using it u by (simp add: itab_ok_def)
  have at: "inode_at dsk' L (unat n) = inode_at dsk L (unat n)"
    using same [of "unat n"] x [OF Some] u by (simp add: inode_used_def)
  have "file_view dsk' (inode_at dsk' L (unat n)) = file_view dsk (inode_at dsk L (unat n))"
    using at by (intro file_view_cong [OF _ _ ok]) (auto intro: data [OF u x [OF Some]])
  then show ?thesis using D Some by (simp add: fs_view_def)
qed

section \<open>Regions\<close>

lemma regions:
  assumes "mount_inv ops dinv L m"
  shows "k < inode_count L \<Longrightarrow> outside_dir L (inode_addr L k)"
    and "unat (lay_data_start_lba L) \<le> q \<Longrightarrow> outside_dir L q"
    and "k < inode_count L \<Longrightarrow> 131 + unat (lay_bitmap_block_count L) \<le> inode_addr L k \<and> inode_addr L k < unat (lay_data_start_lba L)"
    and "\<not> outside_dir L a \<Longrightarrow> 131 + unat (lay_bitmap_block_count L) \<le> a \<and> a < unat (lay_data_start_lba L)
           \<and> unat (lay_inode_page_lba L) + inode_count L \<le> a"
    and "\<not> outside_dir L (unat (lay_dir_page_lba L))"
  using mount_inv_geometry(11) [OF assms] by (auto simp: layout_tiles_def outside_dir_def)

lemma dir_same:
  assumes inv: "mount_inv ops dinv L m" and same: "\<And>a. \<not> outside_dir L a \<Longrightarrow> dsk' a = dsk a"
  shows "dir_map dsk' L = dir_map dsk L" and "dir_wf dsk' L = dir_wf dsk L" and "dir_counted dsk' L = dir_counted dsk L"
proof -
  have "dsk' a = dsk a" if "unat (lay_dir_page_lba L) < a" "a < unat (lay_dir_page_lba L) + unat (lay_dir_page_block_count L)" for a
    using same [of a] that by (simp add: outside_dir_def)
  note c = dir_map_cong [of L dsk' dsk, OF this]
  show "dir_map dsk' L = dir_map dsk L" "dir_wf dsk' L = dir_wf dsk L" by (rule c(2), assumption+) (rule c(3), assumption+)
  show "dir_counted dsk' L = dir_counted dsk L"
    unfolding dir_counted_def using c(1) same [OF regions(5) [OF inv]] by simp
qed

lemma file_view_new: "file_view dsk (inode_new x ty mo t) = (0, \<lambda>p. None)"
  by (simp add: file_view_def file_ok_new(3))

text \<open>A handle agrees with the inode on the device in everything but the time stamps.\<close>

definition handle_for :: "(nat \<Rightarrow> byte list) \<Rightarrow> nebula_layout \<Rightarrow> u64 \<Rightarrow> nebula_file \<Rightarrow> bool" where
  "handle_for dsk L n f \<longleftrightarrow> wf_ino (f_inode f) \<and> ino_inode_num (f_inode f) = n
     \<and> ino_extents (f_inode f) = ino_extents (inode_at dsk L (unat n))
     \<and> ino_size_bytes (f_inode f) = ino_size_bytes (inode_at dsk L (unat n))
     \<and> ino_type (f_inode f) = ino_type (inode_at dsk L (unat n))"

text \<open>
  What a call leaves alone: the inodes in use other than \<open>X\<close>, and the blocks of the data region other than
  \<open>B\<close>; an inode that comes into use has no block.
\<close>

definition files_frame :: "nebula_layout \<Rightarrow> nat set \<Rightarrow> nat set \<Rightarrow> (nat \<Rightarrow> byte list) \<Rightarrow> (nat \<Rightarrow> byte list) \<Rightarrow> bool" where
  "files_frame L X B dsk dsk' \<longleftrightarrow>
     (\<forall>k. k \<notin> X \<and> inode_used dsk L k \<longrightarrow> inode_at dsk' L k = inode_at dsk L k)
     \<and> (\<forall>k. k \<notin> X \<and> inode_used dsk' L k \<and> \<not> inode_used dsk L k \<longrightarrow> file_list (inode_at dsk' L k) = [])
     \<and> (\<forall>q. unat (lay_data_start_lba L) \<le> q \<and> q \<notin> B \<longrightarrow> dsk' q = dsk q)"

lemma files_frame_refl: "files_frame L X B dsk dsk"
  by (simp add: files_frame_def)

context block_backend
begin

abbreviation fsok :: "nebula_layout \<Rightarrow> 'd nebula_mount \<Rightarrow> bool" where
  "fsok L m \<equiv> fs_ok ops dinv blk L m"

abbreviation mview :: "nebula_layout \<Rightarrow> 'd nebula_mount \<Rightarrow> byte list \<Rightarrow> afile option" where
  "mview L m \<equiv> fs_view (mdisk m) L"

lemma fsokD:
  assumes "fsok L m"
  shows "mount_inv ops dinv L m" and "bitmap_synced blk L m" and "data_free L m" and "dir_wf (mdisk m) L"
    and "dir_counted (mdisk m) L" and "itab_ok L (hbm_free (m_bitmap m)) (mdisk m)" and "names_ok L (mdisk m)"
  using assms by (auto simp: fs_ok_def)

lemma named_inode:
  assumes "fsok L m" and "mdir L m name = Some n"
  shows "inode_used (mdisk m) L (unat n)" and "unat n < inode_count L"
    and "inode_sealed (inode_at (mdisk m) L (unat n))" and "ino_inode_num (inode_at (mdisk m) L (unat n)) = n"
    and "file_ok L (hbm_free (m_bitmap m)) (inode_at (mdisk m) L (unat n))" and "\<not> inode_free_at L m (unat n)"
proof -
  show u: "inode_used (mdisk m) L (unat n)" using fsokD(7) [OF assms(1)] assms(2) by (auto simp: names_ok_def)
  then show "unat n < inode_count L" "\<not> inode_free_at L m (unat n)" by (auto simp: inode_used_def)
  have "unat (ino_inode_num (inode_at (mdisk m) L (unat n))) = unat n" using fsokD(6) [OF assms(1)] u by (auto simp: itab_ok_def)
  then show "ino_inode_num (inode_at (mdisk m) L (unat n)) = n" by (simp add: word_unat_eq_iff)
  show "inode_sealed (inode_at (mdisk m) L (unat n))" "file_ok L (hbm_free (m_bitmap m)) (inode_at (mdisk m) L (unat n))"
    using fsokD(6) [OF assms(1)] u by (auto simp: itab_ok_def)
qed

text \<open>A step that changes one unnamed inode slot and nothing else outside the bitmap.\<close>

lemma fsok_slot_step:
  assumes ok: "fsok L m" and nx: "mount_next L m m'" and sy: "bitmap_synced blk L m'"
    and fr: "hbm_free (m_bitmap m') = hbm_free (m_bitmap m)"
    and x: "x < inode_count L" "\<not> inode_used (mdisk m) L x"
    and d: "\<And>a. 131 + unat (lay_bitmap_block_count L) \<le> a \<Longrightarrow> a \<noteq> inode_addr L x \<Longrightarrow> mdisk m' a = mdisk m a"
    and new: "inode_used (mdisk m') L x \<Longrightarrow> inode_sealed (inode_at (mdisk m') L x)
        \<and> unat (ino_inode_num (inode_at (mdisk m') L x)) = x \<and> file_list (inode_at (mdisk m') L x) = []
        \<and> file_ok L (hbm_free (m_bitmap m)) (inode_at (mdisk m') L x)"
  shows "fsok L m'" and "mview L m' = mview L m" and "mdir L m' = mdir L m"
proof -
  note o = fsokD [OF ok] and R = regions [OF fsokD(1) [OF ok]]
  have dir: "mdisk m' a = mdisk m a" if "\<not> outside_dir L a" for a
    using d [of a] R(4) [OF that] x(1) by auto
  have ds: "mdir L m' = mdir L m" "dir_wf (mdisk m') L = dir_wf (mdisk m) L" "dir_counted (mdisk m') L = dir_counted (mdisk m) L"
    by (rule dir_same [OF o(1) dir], assumption)+
  have same: "inode_at (mdisk m') L k = inode_at (mdisk m) L k" if "k < inode_count L" "k \<noteq> x" for k
    using d [of "inode_addr L k"] R(3) [OF that(1)] that(2) by (intro inode_at_same) auto
  have it: "itab_ok L (hbm_free (m_bitmap m)) (mdisk m')"
  proof (rule itab_change [OF o(6) same])
    show "set (file_list (inode_at (mdisk m) L k)) \<inter> hbm_free (m_bitmap m) = {}" if "inode_used (mdisk m) L k" for k
      using itab_data(3) [OF o(6) that] by blast
  qed (use new in auto)
  have nx0: "unat n \<noteq> x" if "mdir L m name = Some n" for name n using named_inode(1) [OF ok that] x(2) by auto
  have nm: "names_ok L (mdisk m')"
    unfolding names_ok_def ds(1)
  proof (intro conjI allI impI)
    fix name n assume n: "mdir L m name = Some n"
    show "inode_used (mdisk m') L (unat n)"
      using named_inode(1,2) [OF ok n] same [OF _ nx0 [OF n]] by (auto simp: inode_used_def)
  qed (use o(7) in \<open>auto simp: names_ok_def\<close>)
  show "fsok L m'"
    unfolding fs_ok_def using mount_next_inv [OF nx] sy o(3-5) ds it nm fr by (simp add: data_free_def)
  show "mdir L m' = mdir L m" by (rule ds(1))
  show "mview L m' = mview L m"
  proof
    fix name
    show "mview L m' name = mview L m name"
    proof (rule fs_view_other [OF o(7,6)])
      show "unat n \<noteq> x" if "mdir L m name = Some n" for n using nx0 that .
      show "mdisk m' q = mdisk m q" if "inode_used (mdisk m) L k" "q \<in> set (file_list (inode_at (mdisk m) L k))" for k q
      proof -
        have "unat (lay_data_start_lba L) \<le> q" using itab_data [OF o(6) that] by simp
        then show ?thesis using R(3) [OF x(1)] by (intro d) linarith+
      qed
    qed (use ds(1) same in auto)
  qed
qed

text \<open>A step inside the directory region that adds or removes one binding.\<close>

lemma fsok_dir_step:
  assumes ok: "fsok L m" and nx: "mount_next L m m'" and bm: "m_bitmap m' = m_bitmap m" and sy: "bitmap_synced blk L m'"
    and d: "\<And>a. outside_dir L a \<Longrightarrow> mdisk m' a = mdisk m a"
    and wf: "dir_wf (mdisk m') L" "dir_counted (mdisk m') L"
    and D: "mdir L m' = (mdir L m)(name := v)"
    and v: "\<And>n. v = Some n \<Longrightarrow> inode_used (mdisk m) L (unat n) \<and> (\<forall>b. mdir L m b \<noteq> Some n)"
  shows "fsok L m'" and "mview L m' = (mview L m)(name := map_option (\<lambda>n. file_view (mdisk m) (inode_at (mdisk m) L (unat n))) v)"
    and "\<And>k. k < inode_count L \<Longrightarrow> inode_at (mdisk m') L k = inode_at (mdisk m) L k"
proof -
  note o = fsokD [OF ok] and R = regions [OF fsokD(1) [OF ok]]
  show at: "inode_at (mdisk m') L k = inode_at (mdisk m) L k" if "k < inode_count L" for k
    using d [OF R(1) [OF that]] by (intro inode_at_same)
  then have us: "inode_used (mdisk m') L k = inode_used (mdisk m) L k" for k by (auto simp: inode_used_def)
  have "names_ok L (mdisk m')" unfolding names_ok_def D us using o(7) v by (auto simp: names_ok_def)
  then show "fsok L m'"
    unfolding fs_ok_def using mount_next_inv [OF nx] sy o(3) wf itab_same [OF o(6) at] bm by (simp add: data_free_def)
  have fv: "file_view (mdisk m') (inode_at (mdisk m') L (unat n)) = file_view (mdisk m) (inode_at (mdisk m) L (unat n))"
    if u: "inode_used (mdisk m) L (unat n)" for n :: u64
  proof -
    have at1: "inode_at (mdisk m') L (unat n) = inode_at (mdisk m) L (unat n)" using at u by (simp add: inode_used_def)
    show ?thesis unfolding at1
    proof (rule file_view_cong [OF refl refl])
      show "file_ok L (hbm_free (m_bitmap m)) (inode_at (mdisk m) L (unat n))" using o(6) u by (auto simp: itab_ok_def)
      show "mdisk m' q = mdisk m q" if "q \<in> set (file_list (inode_at (mdisk m) L (unat n)))" for q
        using d [OF R(2)] itab_data(1) [OF o(6) u that] by blast
    qed
  qed
  show "mview L m' = (mview L m)(name := map_option (\<lambda>n. file_view (mdisk m) (inode_at (mdisk m) L (unat n))) v)"
  proof
    fix b
    have "fs_view (mdisk m') L b = map_option (\<lambda>n. file_view (mdisk m) (inode_at (mdisk m) L (unat n))) (mdir L m' b)"
    proof (cases "mdir L m' b")
      case (Some n)
      then have "inode_used (mdisk m) L (unat n)" using D v o(7) by (auto simp: names_ok_def split: if_splits)
      then show ?thesis using fv Some by (simp add: fs_view_def)
    qed (simp add: fs_view_def)
    then show "mview L m' b = ((mview L m)(name := map_option (\<lambda>n. file_view (mdisk m) (inode_at (mdisk m) L (unat n))) v)) b"
      by (simp add: D fs_view_def)
  qed
qed

lemma fs_create_cases:
  assumes ok: "fsok L m" and up: "mup m" and cr: "nebula_fs_create m name mode t = (r, m')"
  shows "fsok L m'" and "mup m'" and "hbm_free (m_bitmap m') = hbm_free (m_bitmap m)"
    and "r = Inl e \<Longrightarrow> mview L m' = mview L m \<and> mdir L m' = mdir L m"
    and "r = Inr f \<Longrightarrow> mdir L m name = None \<and> mview L m' = (mview L m)(name \<mapsto> (0, \<lambda>p. None))
          \<and> mdir L m' = (mdir L m)(name \<mapsto> ino_inode_num (f_inode f))
          \<and> handle_for (mdisk m') L (ino_inode_num (f_inode f)) f \<and> f_flags f = NEBULA_O_RDWR
          \<and> ino_inode_num (f_inode f) \<noteq> 0"
    and "name \<noteq> [] \<Longrightarrow> length name < NEBULA_DIR_NAME_MAX \<Longrightarrow> \<exists>k. 1 \<le> k \<and> k < inode_count L \<and> inode_free_at L m k \<Longrightarrow>
          (mdir L m name \<noteq> None \<longrightarrow> r = Inl EEXIST)
          \<and> (mdir L m name = None \<longrightarrow> card (dom (mdir L m)) < dir_slots_total L \<longrightarrow> (\<exists>f. r = Inr f))"
    and "files_frame L {} {} (mdisk m) (mdisk m')"
proof (atomize (full), goal_cases)
  case 1
  note o = fsokD [OF ok] and R = regions [OF fsokD(1) [OF ok]]
  obtain q m1 where fc: "nebula_file_create m mode t = (q, m1)" by (rule prod.exhaust)
  note c = file_create_cases [OF o(1) fc]
  note up1 = mount_next_up [OF c(1) up]
  have sy1: "bitmap_synced blk L m1" by (rule c(3) [OF o(2)])
  show ?case
  proof (cases q)
    case (Inl e1)
    then have r: "r = Inl e1" "m' = m1" using cr fc by (auto simp: nebula_fs_create_def)
    have d: "mdisk m1 = mdisk m" and full: "\<forall>j. 1 \<le> j \<and> j < inode_count L \<longrightarrow> \<not> inode_free_at L m j"
      using c(6) [OF up Inl] by auto
    have "fsok L m1" using ok mount_next_inv [OF c(1)] sy1 unfolding fs_ok_def d by (simp add: data_free_def c(2))
    then show ?thesis using r d up1 c(2) full files_frame_refl by auto
  next
    case (Inr f1)
    obtain x where x: "1 \<le> unat x" "unat x < inode_count L" "inode_free_at L m (unat x)"
      "f1 = \<lparr>f_inode = inode_new x NEBULA_INODE_TYPE_FILE mode t, f_pos = 0, f_flags = NEBULA_O_RDWR, f_dirty = False\<rparr>"
      "mdisk m1 = (mdisk m)(inode_addr L (unat x) := enc_ino (inode_new x NEBULA_INODE_TYPE_FILE mode t))"
      using c(5) [OF Inr] by blast
    let ?i = "inode_new x NEBULA_INODE_TYPE_FILE mode t"
    have at1: "inode_at (mdisk m1) L (unat x) = ?i" using x(5) inode_new_wf by (simp add: inode_at_def ino.dec_enc)
    have unused: "\<not> inode_used (mdisk m) L (unat x)" using x(3) by (simp add: inode_used_def)
    have fr1: "hbm_free (m_bitmap m1) = hbm_free (m_bitmap m)" using c(2) by simp
    note s1 = fsok_slot_step [OF ok c(1) sy1 fr1 x(2) unused]
    have "mdisk m1 a = mdisk m a" if "a \<noteq> inode_addr L (unat x)" for a using x(5) that by simp
    then have k1: "fsok L m1" "mview L m1 = mview L m" "mdir L m1 = mdir L m"
      using s1 at1 inode_new_is_sealed file_ok_new by auto
    have other1: "inode_at (mdisk m1) L k = inode_at (mdisk m) L k" if "k \<noteq> unat x" for k
      using x(5) that by (simp add: inode_at_def)
    have noname: "\<forall>b. mdir L m b \<noteq> Some x" using named_inode(1) [OF ok] unused by blast
    have xx: "ino_inode_num (f_inode f1) = x" using x(4) by simp
    note o1 = fsokD [OF k1(1)]
    obtain q2 m2 where da: "nebula_dir_add m1 name x NEBULA_DIR_FLAG_FILE = (q2, m2)" by (rule prod.exhaust)
    note a = dir_add_cases [OF o1(1,4) da]
    have used1: "inode_used (mdisk m1) L (unat x)"
      using x(2) at1 by (simp add: inode_used_def NEBULA_INODE_TYPE_FILE_def NEBULA_INODE_TYPE_FREE_def)
    show ?thesis
    proof (cases q2)
      case go: (Inr u)
      have r: "r = Inr f1" "m' = m2" using cr fc Inr da xx go by (auto simp: nebula_fs_create_def)
      note a5 = a(5) [OF go, unfolded k1(3)]
      have D: "mdir L m2 = (mdir L m1)(name := Some x)" using a5 k1(3) by simp
      note s2 = fsok_dir_step [OF k1(1) a(1,2) a(3) [OF sy1] a(4) _ _ D]
      have k2: "fsok L m2" "mview L m2 = (mview L m1)(name \<mapsto> file_view (mdisk m1) ?i)"
        "\<And>k. k < inode_count L \<Longrightarrow> inode_at (mdisk m2) L k = inode_at (mdisk m1) L k"
        using s2 a5 o1(5) used1 noname k1(3) at1 by auto
      have h: "handle_for (mdisk m2) L x f1"
        using k2(3) [OF x(2)] at1 x(4) inode_new_wf by (simp add: handle_for_def)
      have "files_frame L {} {} (mdisk m) (mdisk m2)"
        unfolding files_frame_def
      proof (intro conjI allI impI)
        fix k
        show "inode_at (mdisk m2) L k = inode_at (mdisk m) L k" if "k \<notin> {} \<and> inode_used (mdisk m) L k"
          using that k2(3) [of k] other1 [of k] unused by (cases "k = unat x") (auto simp: inode_used_def)
        show "file_list (inode_at (mdisk m2) L k) = []" if "k \<notin> {} \<and> inode_used (mdisk m2) L k \<and> \<not> inode_used (mdisk m) L k"
          using that k2(3) [of k] other1 [of k] at1 file_ok_new(2) by (cases "k = unat x") (auto simp: inode_used_def)
        show "mdisk m2 k = mdisk m k" if "unat (lay_data_start_lba L) \<le> k \<and> k \<notin> {}"
          using a(4) [OF R(2)] that R(3) [OF x(2)] x(5) by auto
      qed
      moreover have "x \<noteq> 0" using x(1) by auto
      ultimately show ?thesis
        using r k1(2,3) k2(1,2) h xx x(4) a5 D mount_next_up [OF a(1) up1] a(2) fr1 file_view_new by auto
    next
      case fail: (Inl e1)
      obtain q3 m3 where fd: "nebula_file_delete m2 f1 = (q3, m3)" by (rule prod.exhaust)
      have r: "r = Inl e1" "m' = m3" using cr fc Inr da xx fail fd by (auto simp: nebula_fs_create_def)
      have d2: "mdisk m2 = mdisk m1" by (rule a(6) [OF up1 fail])
      have fr2: "hbm_free (m_bitmap m2) = hbm_free (m_bitmap m)" using a(2) fr1 by simp
      have df2: "data_free L m2" using o1(3) a(2) by (simp add: data_free_def)
      have fok: "file_ok L (hbm_free (m_bitmap m2)) (f_inode f1)" using file_ok_new x(4) by simp
      note up2 = mount_next_up [OF a(1) up1]
      note g = file_delete_cases [OF mount_next_inv [OF a(1)] df2 fok fd, unfolded xx]
      have fl: "file_list (f_inode f1) = []" using file_ok_new(2) x(4) by simp
      have fr3: "hbm_free (m_bitmap m3) = hbm_free (m_bitmap m)" using g(6) [OF up2] fl fr2 by simp
      have "\<not> inode_free_at L m2 (unat x)" using used1 d2 by (simp add: inode_used_def)
      then have z: "mdisk m3 (inode_addr L (unat x)) = zeros 4096" using g(7) [OF up2 _ x(2)] x(1) by simp
      have nx: "mount_next L m m3" using mount_next_trans [OF mount_next_trans [OF c(1) a(1)] g(1)] .
      have sy3: "bitmap_synced blk L m3" using g(6) [OF up2] a(3) [OF sy1] by simp
      note s3 = fsok_slot_step [OF ok nx sy3 fr3 x(2) unused]
      have same3: "mdisk m3 b = mdisk m b" if "131 + unat (lay_bitmap_block_count L) \<le> b" "b \<noteq> inode_addr L (unat x)" for b
        using g(5) [of b] that d2 x(5) by simp
      have gone3: "\<not> inode_used (mdisk m3) L (unat x)" using z by (simp add: inode_used_def inode_at_def)
      have k3: "fsok L m3" "mview L m3 = mview L m" "mdir L m3 = mdir L m" using s3 same3 gone3 by auto
      have "e1 = EEXIST \<and> mdir L m name \<noteq> None \<or> e1 = ENOSPC \<and> mdir L m name = None \<and> card (dom (mdir L m)) = dir_slots_total L"
        if "name \<noteq> []" "length name < NEBULA_DIR_NAME_MAX"
        using a(7) [OF up1 that] fail k1(3) by (auto split: if_splits)
      moreover have "files_frame L {} {} (mdisk m) (mdisk m3)"
        unfolding files_frame_def
      proof (intro conjI allI impI)
        fix k
        show "inode_at (mdisk m3) L k = inode_at (mdisk m) L k" if "k \<notin> {} \<and> inode_used (mdisk m) L k"
          using that same3 [of "inode_addr L k"] R(3) [of k] unused
          by (cases "k = unat x") (auto simp: inode_used_def intro!: inode_at_same)
        show "file_list (inode_at (mdisk m3) L k) = []" if k: "k \<notin> {} \<and> inode_used (mdisk m3) L k \<and> \<not> inode_used (mdisk m) L k"
        proof -
          have "k < inode_count L" using k by (simp add: inode_used_def)
          then have "inode_at (mdisk m3) L k = inode_at (mdisk m) L k" if "k \<noteq> unat x"
            using that same3 [of "inode_addr L k"] R(3) [of k] by (intro inode_at_same) auto
          then show ?thesis using k gone3 by (cases "k = unat x") (auto simp: inode_used_def)
        qed
        show "mdisk m3 k = mdisk m k" if "unat (lay_data_start_lba L) \<le> k \<and> k \<notin> {}"
          using same3 [of k] that R(3) [OF x(2)] by auto
      qed
      ultimately show ?thesis using r k3 mount_next_up [OF g(1) up2] fr3 by auto
    qed
  qed
qed

lemma fs_create_errno:
  assumes ok: "fsok L m" and up: "mup m" and cr: "nebula_fs_create m name mode t = (r, m')"
  shows "res_errno r = acreate_errno (\<exists>k. 1 \<le> k \<and> k < inode_count L \<and> inode_free_at L m k) (dir_slots_total L) (mdir L m) name"
proof -
  note o = fsokD [OF ok] and R = regions [OF fsokD(1) [OF ok]]
  obtain q m1 where fc: "nebula_file_create m mode t = (q, m1)" by (rule prod.exhaust)
  note c = file_create_cases [OF o(1) fc]
  show ?thesis
  proof (cases q)
    case (Inl e)
    then have "e = ENOSPC" "\<not> (\<exists>k. 1 \<le> k \<and> k < inode_count L \<and> inode_free_at L m k)" using c(6) [OF up Inl] by auto
    moreover have "r = Inl e" using cr fc Inl by (simp add: nebula_fs_create_def)
    ultimately show ?thesis by (simp only: acreate_errno_def res_errno_simps if_True simp_thms)
  next
    case (Inr f1)
    obtain x where x: "1 \<le> unat x" "unat x < inode_count L" "inode_free_at L m (unat x)" "ino_inode_num (f_inode f1) = x"
      "mdisk m1 = (mdisk m)(inode_addr L (unat x) := enc_ino (inode_new x NEBULA_INODE_TYPE_FILE mode t))"
      using c(5) [OF Inr] by auto
    have dir: "mdisk m1 a = mdisk m a" if "\<not> outside_dir L a" for a using R(1) [OF x(2)] x(5) that by auto
    have ds: "mdir L m1 = mdir L m" "dir_wf (mdisk m1) L = dir_wf (mdisk m) L"
      by (rule dir_same [OF o(1) dir], assumption)+
    obtain q2 m2 where da: "nebula_dir_add m1 name x NEBULA_DIR_FLAG_FILE = (q2, m2)" by (rule prod.exhaust)
    note a = dir_add_cases(7) [OF mount_next_inv [OF c(1)] o(4) [folded ds(2)] da mount_next_up [OF c(1) up]]
    have "res_errno r = res_errno q2"
      using cr fc Inr x(4) da by (cases q2) (auto simp: nebula_fs_create_def split: prod.splits)
    moreover have "res_errno q2 = acreate_errno True (dir_slots_total L) (mdir L m) name"
    proof (cases "name = [] \<or> NEBULA_DIR_NAME_MAX \<le> length name")
      case True
      then show ?thesis using da by (auto simp: acreate_errno_def nebula_dir_add_def)
    next
      case False
      then have "q2 = (if mdir L m name \<noteq> None then Inl EEXIST
          else if card (dom (mdir L m)) = dir_slots_total L then Inl ENOSPC else Inr ())"
        using a ds(1) by simp
      then show ?thesis using False unfolding acreate_errno_def by simp
    qed
    moreover have "\<exists>k. 1 \<le> k \<and> k < inode_count L \<and> inode_free_at L m k" using x(1-3) by blast
    ultimately show ?thesis by (simp only: simp_thms)
  qed
qed

text \<open>A step that keeps the device and the bitmap.\<close>

lemma fsok_read_step:
  assumes "fsok L m" and "mount_next L m m'" and "m_bitmap m' = m_bitmap m" and "mdisk m' = mdisk m"
  shows "fsok L m'"
proof -
  have "bitmap_synced blk L m'" using fsokD(2) [OF assms(1)] unfolding bitmap_synced_def assms(3,4) .
  then show ?thesis
    using fsokD [OF assms(1)] mount_next_inv [OF assms(2)] unfolding fs_ok_def data_free_def assms(3,4) by blast
qed

lemma fs_open_cases:
  assumes ok: "fsok L m" and up: "mup m" and op: "nebula_fs_open m name flags = (r, m')"
    and len: "length name < NEBULA_DIR_NAME_MAX" and fl: "flags AND NEBULA_O_RDWR \<noteq> 0"
  shows "fsok L m'" and "mup m'" and "mdisk m' = mdisk m" and "m_bitmap m' = m_bitmap m"
    and "mdir L m name = None \<Longrightarrow> r = Inl ENOENT"
    and "mdir L m name = Some n \<Longrightarrow> \<exists>f. r = Inr f \<and> handle_for (mdisk m) L n f \<and> f_flags f = flags"
proof (atomize (full), goal_cases)
  case 1
  note o = fsokD [OF ok]
  obtain q m1 where lk: "nebula_dir_lookup m name = (q, m1)" by (rule prod.exhaust)
  note c = dir_lookup_cases [OF o(1,4) lk]
  note k1 = fsok_read_step [OF ok c(1,2,3)] and up1 = mount_next_up [OF c(1) up]
  show ?case
  proof (cases "mdir L m name")
    case None
    then have "r = Inl ENOENT" "m' = m1" using c(5) [OF up len] op lk by (auto simp: nebula_fs_open_def)
    then show ?thesis using k1 up1 c(2,3) None by simp
  next
    case (Some k)
    note i = named_inode [OF ok Some]
    have "nebula_file_open m1 k flags = (r, m')" using c(5) [OF up len] op lk Some by (simp add: nebula_fs_open_def)
    note f = file_open_cases [OF mount_next_inv [OF c(1)] this]
    have r: "r = Inr \<lparr>f_inode = inode_at (mdisk m) L (unat k), f_pos = 0, f_flags = flags, f_dirty = False\<rparr>"
      using f(5) [OF up1 i(2) fl] i(3,6) c(3) by simp
    have "handle_for (mdisk m) L k \<lparr>f_inode = inode_at (mdisk m) L (unat k), f_pos = 0, f_flags = flags, f_dirty = False\<rparr>"
      using i(3,4) by (simp add: handle_for_def inode_sealed_def)
    then show ?thesis
      using r f(2,3) c(2,3) Some fsok_read_step [OF k1 f(1,2,3)] mount_next_up [OF f(1) up1] by auto
  qed
qed

text \<open>
  Deletion.  For a file other than the root directory it removes the name and gives the blocks and the
  inode back.
\<close>

lemma fs_delete_cases:
  assumes ok: "fsok L m" and up: "mup m" and de: "nebula_fs_delete m name = (r, m')" and len: "length name < NEBULA_DIR_NAME_MAX"
  shows "mdir L m name = None \<Longrightarrow> r = Inl ENOENT \<and> fsok L m' \<and> mup m' \<and> mdisk m' = mdisk m \<and> m_bitmap m' = m_bitmap m"
    and "mdir L m name = Some 0 \<Longrightarrow> r = Inl EINVAL \<and> mdir L m' = (mdir L m)(name := None)"
    and "mdir L m name = Some n \<Longrightarrow> n \<noteq> 0 \<Longrightarrow> r = Inr () \<and> fsok L m' \<and> mup m'
          \<and> mview L m' = (mview L m)(name := None) \<and> mdir L m' = (mdir L m)(name := None)
          \<and> hbm_free (m_bitmap m') = hbm_free (m_bitmap m) \<union> set (file_list (inode_at (mdisk m) L (unat n)))
          \<and> files_frame L {unat n} {} (mdisk m) (mdisk m') \<and> \<not> inode_used (mdisk m') L (unat n)"
proof (atomize (full), goal_cases)
  case 1
  note o = fsokD [OF ok]
  obtain q m1 where lk: "nebula_dir_lookup m name = (q, m1)" by (rule prod.exhaust)
  note c = dir_lookup_cases [OF o(1,4) lk]
  note k1 = fsok_read_step [OF ok c(1,2,3)] and up1 = mount_next_up [OF c(1) up]
  note o1 = fsokD [OF k1]
  show ?case
  proof (cases "mdir L m name")
    case None
    then have "r = Inl ENOENT" "m' = m1" using c(5) [OF up len] de lk by (auto simp: nebula_fs_delete_def)
    then show ?thesis using k1 up1 c(2,3) None by simp
  next
    case (Some k)
    then have q: "q = Inr k" using c(5) [OF up len] by simp
    note i = named_inode [OF ok Some]
    let ?i = "inode_at (mdisk m) L (unat k)"
    obtain q2 m2 where rm: "nebula_dir_remove m1 name = (q2, m2)" by (rule prod.exhaust)
    note d = dir_remove_cases [OF o1(1,4) rm]
    have q2: "q2 = Inr ()" using d(7) [OF up1 len] Some c(3) by simp
    note d5 = d(5) [OF q2, unfolded c(3)]
    note up2 = mount_next_up [OF d(1) up1]
    have D2: "mdir L m2 = (mdir L m1)(name := None)" using d5 c(3) by simp
    note s2 = fsok_dir_step [OF k1 d(1,2) d(3) [OF o1(2)] d(4) _ _ D2]
    have k2: "fsok L m2" "mview L m2 = (mview L m)(name := None)"
      "\<And>j. j < inode_count L \<Longrightarrow> inode_at (mdisk m2) L j = inode_at (mdisk m) L j"
      using s2 d5 o1(5) c(3) by auto
    note o2 = fsokD [OF k2(1)] and R = regions [OF fsokD(1) [OF k2(1)]]
    have at2: "inode_at (mdisk m2) L (unat k) = ?i" by (rule k2(3) [OF i(2)])
    have bm2: "m_bitmap m2 = m_bitmap m" using d(2) c(2) by simp
    obtain q3 m3 where op: "nebula_file_open m2 k NEBULA_O_RDWR = (q3, m3)" by (rule prod.exhaust)
    note f = file_open_cases [OF o2(1) op]
    define h where "h = \<lparr>f_inode = ?i, f_pos = 0, f_flags = NEBULA_O_RDWR, f_dirty = False\<rparr>"
    have rdwr: "NEBULA_O_RDWR AND NEBULA_O_RDWR \<noteq> 0" by (simp add: NEBULA_O_RDWR_def NEBULA_O_RDONLY_def NEBULA_O_WRONLY_def)
    have q3: "q3 = Inr h" using f(5) [OF up2 i(2) rdwr] i(3,6) at2 by (simp add: h_def)
    have fd: "nebula_file_delete m3 h = (r, m')" using de lk q rm q2 op q3 by (simp add: nebula_fs_delete_def)
    note k3 = fsok_read_step [OF k2(1) f(1,2,3)] and up3 = mount_next_up [OF f(1) up2]
    note o3 = fsokD [OF k3]
    have fok: "file_ok L (hbm_free (m_bitmap m3)) (f_inode h)" using i(5) f(2) bm2 by (simp add: h_def)
    have num: "ino_inode_num (f_inode h) = k" using i(4) by (simp add: h_def)
    note g = file_delete_cases [OF o3(1,3) fok fd, unfolded num]
    have out: "mdisk m' a = mdisk m2 a" if "131 + unat (lay_bitmap_block_count L) \<le> a" "a \<noteq> inode_addr L (unat k)" for a
      using g(5) [of a] that f(3) by simp
    have dir: "mdisk m' a = mdisk m2 a" if "\<not> outside_dir L a" for a
      using out [of a] R(4) [OF that] i(2) by auto
    have ds: "mdir L m' = mdir L m2" "dir_wf (mdisk m') L = dir_wf (mdisk m2) L"
        "dir_counted (mdisk m') L = dir_counted (mdisk m2) L"
      by (rule dir_same [OF o2(1) dir], assumption)+
    have D': "mdir L m' = (mdir L m)(name := None)" using ds(1) D2 c(3) by simp
    have root: "r = Inl EINVAL" if "k = 0" using g(8) [OF up3] that by simp
    have live: "r = Inr () \<and> fsok L m' \<and> mup m' \<and> mview L m' = (mview L m)(name := None)
        \<and> hbm_free (m_bitmap m') = hbm_free (m_bitmap m) \<union> set (file_list ?i)
        \<and> files_frame L {unat k} {} (mdisk m) (mdisk m') \<and> \<not> inode_used (mdisk m') L (unat k)" if "k \<noteq> 0"
    proof -
      have "unat k \<noteq> 0" using that by (simp add: unat_eq_zero)
      then have r: "r = Inr ()" "mdisk m' (inode_addr L (unat k)) = zeros 4096"
        using g(7) [OF up3 _ i(2)] i(6) at2 f(3) by auto
      have fr: "hbm_free (m_bitmap m') = hbm_free (m_bitmap m) \<union> set (file_list ?i)"
        using g(6) [OF up3] f(2) bm2 by (simp add: h_def)
      have gone: "\<not> inode_used (mdisk m') L (unat k)" using r(2) by (simp add: inode_used_def inode_at_def)
      have same: "inode_at (mdisk m') L j = inode_at (mdisk m2) L j" if "j < inode_count L" "j \<noteq> unat k" for j
        using out [of "inode_addr L j"] R(3) [OF that(1)] that(2) by (intro inode_at_same) auto
      have used_k: "inode_used (mdisk m2) L (unat k)" using i(1) at2 by (simp add: inode_used_def)
      have other: "set (file_list (inode_at (mdisk m2) L j)) \<inter> set (file_list ?i) = {}"
        if "inode_used (mdisk m2) L j" "j \<noteq> unat k" for j
        using o2(6) that used_k at2 unfolding itab_ok_def by metis
      have it: "itab_ok L (hbm_free (m_bitmap m')) (mdisk m')"
      proof (rule itab_change [OF o2(6) same])
        show "set (file_list (inode_at (mdisk m2) L j)) \<inter> hbm_free (m_bitmap m') = {}"
          if "inode_used (mdisk m2) L j" "j \<noteq> unat k" for j
          using other [OF that] itab_data(3) [OF o2(6) that(1)] fr bm2 by auto
      qed (use gone in auto)
      have noname: "unat n \<noteq> unat k" if n: "mdir L m2 b = Some n" for b n
      proof
        assume "unat n = unat k"
        then have "n = k" by (simp add: word_unat_eq_iff)
        moreover have "b \<noteq> name" "mdir L m b = Some n" using n D2 c(3) by (auto split: if_splits)
        ultimately show False using o(7) Some unfolding names_ok_def by blast
      qed
      have nm: "names_ok L (mdisk m')"
        unfolding names_ok_def ds(1)
      proof (intro conjI allI impI)
        fix b n assume n: "mdir L m2 b = Some n"
        show "inode_used (mdisk m') L (unat n)"
          using named_inode(1,2) [OF k2(1) n] same [OF _ noname [OF n]] by (auto simp: inode_used_def)
      qed (use o2(7) in \<open>auto simp: names_ok_def\<close>)
      have fsk: "fsok L m'"
        unfolding fs_ok_def using mount_next_inv [OF g(1)] g(2) g(6) [OF up3] o3(2) ds o2(4,5) it nm by simp
      have "mview L m' b = mview L m2 b" for b
      proof (rule fs_view_other [OF o2(7,6)])
        show "unat n \<noteq> unat k" if "mdir L m2 b = Some n" for n using noname that .
        show "mdisk m' a = mdisk m2 a" if "inode_used (mdisk m2) L j" "a \<in> set (file_list (inode_at (mdisk m2) L j))" for j a
          using itab_data(1) [OF o2(6) that] R(3) [OF i(2)] by (intro out) linarith+
      qed (use ds(1) same in auto)
      then have "mview L m' = mview L m2" by (rule ext)
      moreover have "files_frame L {unat k} {} (mdisk m) (mdisk m')"
        unfolding files_frame_def
      proof (intro conjI allI impI)
        fix j
        show "mdisk m' j = mdisk m j" if "unat (lay_data_start_lba L) \<le> j \<and> j \<notin> {}"
          using out [of j] d(4) [OF R(2)] that R(3) [OF i(2)] c(3) by auto
      qed (use same k2(3) in \<open>auto simp: inode_used_def\<close>)
      ultimately show ?thesis using r(1) fsk mount_next_up [OF g(1) up3] k2(2) fr gone by simp
    qed
    show ?thesis using Some root live D' by auto
  qed
qed

end

end
