(* ===== verification/Nebula_Uuid.thy ===== *)
theory Nebula_Uuid
  imports Nebula_Prelude
begin

unbundle bit_operations_syntax

text \<open>
  \<open>src/util/uuid.c\<close>: device identifiers.  The random device is a parameter: the result of
  \<open>open\<close> and the results of the successive \<open>read\<close> calls.  A script that ends before the
  identifier is complete stands for a call that has not returned, the value \<open>None\<close>.
\<close>

section \<open>The code\<close>

datatype urandom_read = Bytes "byte list" | Failed errno

abbreviation NEBULA_UUID_SIZE :: nat where
  "NEBULA_UUID_SIZE \<equiv> 16"

text \<open>The loop of \<open>nebula_uuid_generate\<close>; \<open>read\<close> returns at most the number of bytes asked for.\<close>

fun uuid_fill :: "urandom_read list \<Rightarrow> byte list \<Rightarrow> byte list res option" where
  "uuid_fill [] got = (if length got < NEBULA_UUID_SIZE then None else Some (Inr got))"
| "uuid_fill (r # rs) got =
     (if length got < NEBULA_UUID_SIZE then
        case r of
          Failed e \<Rightarrow> if e = EINTR then uuid_fill rs got else Some (Inl e)
        | Bytes bs \<Rightarrow> if bs = [] then Some (Inl EIO)
                     else uuid_fill rs (got @ take (NEBULA_UUID_SIZE - length got) bs)
      else Some (Inr got))"

definition uuid_stamp :: "byte list \<Rightarrow> byte list" where
  "uuid_stamp u = (let u1 = u[6 := (u ! 6 AND 0x0F) OR 0x40] in u1[8 := (u1 ! 8 AND 0x3F) OR 0x80])"

definition nebula_uuid_generate :: "errno option \<Rightarrow> urandom_read list \<Rightarrow> byte list res option" where
  "nebula_uuid_generate opened rs =
     (case opened of
        Some e \<Rightarrow> Some (Inl e)
      | None \<Rightarrow> map_option (\<lambda>r. case r of Inl e \<Rightarrow> Inl e | Inr u \<Rightarrow> Inr (uuid_stamp u)) (uuid_fill rs []))"

text \<open>\<open>%02x\<close> and the 36 characters of the printed form.\<close>

definition hex_digit :: "nat \<Rightarrow> char" where
  "hex_digit n = ''0123456789abcdef'' ! n"

definition hex2 :: "byte \<Rightarrow> string" where
  "hex2 b = [hex_digit (unat b div 16), hex_digit (unat b mod 16)]"

definition nebula_uuid_format :: "byte list \<Rightarrow> string" where
  "nebula_uuid_format uuid =
     hex2 (uuid ! 0) @ hex2 (uuid ! 1) @ hex2 (uuid ! 2) @ hex2 (uuid ! 3) @ ''-'' @
     hex2 (uuid ! 4) @ hex2 (uuid ! 5) @ ''-'' @ hex2 (uuid ! 6) @ hex2 (uuid ! 7) @ ''-'' @
     hex2 (uuid ! 8) @ hex2 (uuid ! 9) @ ''-'' @
     hex2 (uuid ! 10) @ hex2 (uuid ! 11) @ hex2 (uuid ! 12) @ hex2 (uuid ! 13) @ hex2 (uuid ! 14) @ hex2 (uuid ! 15)"

section \<open>Generation\<close>

lemma uuid_fill_length:
  assumes "uuid_fill rs got = Some (Inr u)" and "length got \<le> 16"
  shows "length u = 16 \<and> take (length got) u = got"
  using assms
proof (induction rs got rule: uuid_fill.induct)
  case (2 r rs got)
  then show ?case
    by (cases r) (force split: if_splits simp: take_take min_def dest: arg_cong [where f = "take (length got)"])+
qed (auto split: if_splits)

lemma uuid_stamp_bits:
  assumes "length u = 16"
  shows "length (uuid_stamp u) = 16" and "drop_bit 4 (uuid_stamp u ! 6) = 4" and "drop_bit 6 (uuid_stamp u ! 8) = 2"
    and "i < 16 \<Longrightarrow> i \<noteq> 6 \<Longrightarrow> i \<noteq> 8 \<Longrightarrow> uuid_stamp u ! i = u ! i"
proof -
  have "drop_bit 4 ((b AND 0x0F) OR 0x40 :: byte) = 4" for b
    by (rule bit_word_eqI) (auto simp: bit_simps)
  moreover have "drop_bit 6 ((b AND 0x3F) OR 0x80 :: byte) = 2" for b
    by (rule bit_word_eqI) (auto simp: bit_simps)
  ultimately show "drop_bit 4 (uuid_stamp u ! 6) = 4" "drop_bit 6 (uuid_stamp u ! 8) = 2"
    using assms by (simp_all add: uuid_stamp_def Let_def)
qed (use assms in \<open>simp_all add: uuid_stamp_def Let_def\<close>)

text \<open>The bytes that the successful reads of a script deliver.\<close>

fun delivered :: "urandom_read list \<Rightarrow> byte list" where
  "delivered [] = []"
| "delivered (Bytes bs # rs) = bs @ delivered rs"
| "delivered (Failed e # rs) = delivered rs"

lemma uuid_fill_delivers:
  assumes "\<forall>r \<in> set rs. r = Failed EINTR \<or> (\<exists>b bs. r = Bytes (b # bs))" and "length got \<le> 16"
    and "16 \<le> length got + length (delivered rs)"
  shows "\<exists>u. uuid_fill rs got = Some (Inr u)"
  using assms
proof (induction rs got rule: uuid_fill.induct)
  case (2 r rs got)
  show ?case
  proof (cases "length got < 16")
    case True
    show ?thesis
    proof (cases r)
      case (Bytes bs)
      then have "bs \<noteq> []" using "2.prems" by auto
      moreover have "16 \<le> length (got @ take (16 - length got) bs) + length (delivered rs)"
        using "2.prems"(3) Bytes by auto
      ultimately show ?thesis
        using "2.IH"(1) [OF True Bytes] "2.prems"(1) Bytes True by simp
    next
      case (Failed e)
      then show ?thesis using "2.IH"(2) "2.prems" True by auto
    qed
  qed simp
qed auto

section \<open>The printed form\<close>

lemma hex_digit_inj: "a < 16 \<Longrightarrow> b < 16 \<Longrightarrow> hex_digit a = hex_digit b \<longleftrightarrow> a = b"
proof -
  have "distinct ''0123456789abcdef''" "length ''0123456789abcdef'' = 16" by simp_all
  then show "a < 16 \<Longrightarrow> b < 16 \<Longrightarrow> hex_digit a = hex_digit b \<longleftrightarrow> a = b"
    unfolding hex_digit_def by (metis nth_eq_iff_index_eq)
qed

lemma hex2_inj: "hex2 a = hex2 b \<longleftrightarrow> a = b"
proof
  assume "hex2 a = hex2 b"
  moreover have "unat x div 16 < 16" for x :: byte
    using unsigned_less [of x, where ?'a = nat] by (simp add: less_mult_imp_div_less)
  ultimately have "unat a div 16 = unat b div 16" "unat a mod 16 = unat b mod 16"
    by (auto simp: hex2_def hex_digit_inj)
  then have "unat a = unat b" by (metis div_mult_mod_eq)
  then show "a = b" by (simp add: word_unat_eq_iff)
qed simp

lemma length_hex2 [simp]: "length (hex2 b) = 2"
  by (simp add: hex2_def)

section \<open>Properties\<close>

text \<open>
  Property C39.  Identifier generation.  Reads that are interrupted are repeated: when the random device
  delivers at least 16 bytes, in any number of non-empty reads and interrupts, the generation returns an
  identifier of 16 bytes with version 4 and the RFC 4122 variant.
\<close>

theorem uuid_generate_v4:
  assumes "\<forall>r \<in> set rs. r = Failed EINTR \<or> (\<exists>b bs. r = Bytes (b # bs))" and "16 \<le> length (delivered rs)"
  shows "\<exists>u. nebula_uuid_generate None rs = Some (Inr u) \<and> length u = 16
    \<and> drop_bit 4 (u ! 6) = 4 \<and> drop_bit 6 (u ! 8) = 2"
proof -
  obtain u where u: "uuid_fill rs [] = Some (Inr u)" using uuid_fill_delivers [of rs "[]"] assms by auto
  then have "length u = 16" using uuid_fill_length [of rs "[]"] by simp
  from uuid_stamp_bits(1-3) [OF this] show ?thesis using u by (simp add: nebula_uuid_generate_def)
qed

theorem uuid_generate_v4_witness:
  "\<exists>u. nebula_uuid_generate None [Bytes [1, 2, 3], Failed EINTR, Bytes (replicate 20 255)] = Some (Inr u)
     \<and> drop_bit 4 (u ! 6) = 4 \<and> drop_bit 6 (u ! 8) = 2"
  using uuid_generate_v4 [of "[Bytes [1, 2, 3], Failed EINTR, Bytes (replicate 20 255)]"] by (auto simp: numeral_eq_Suc)

text \<open>
  The printed form identifies the device: it has 36 characters, and two identifiers of 16
  bytes print alike only when they are equal.
\<close>

theorem uuid_format_injective:
  assumes "length u = 16" and "length v = 16"
  shows "length (nebula_uuid_format u) = 36 \<and> (nebula_uuid_format u = nebula_uuid_format v \<longleftrightarrow> u = v)"
proof -
  have "u = v" if "nebula_uuid_format u = nebula_uuid_format v"
  proof (rule nth_equalityI)
    fix i assume "i < length u"
    then have "i \<in> {0, 1, 2, 3, 4, 5, 6, 7, 8, 9, 10, 11, 12, 13, 14, 15}" using assms by (simp add: less_Suc_eq numeral_eq_Suc)
    then show "u ! i = v ! i"
      using that unfolding nebula_uuid_format_def by (auto simp: append_eq_append_conv hex2_inj)
  qed (use assms in simp)
  then show ?thesis by (auto simp: nebula_uuid_format_def)
qed

theorem uuid_format_injective_witness:
  "nebula_uuid_format (replicate 16 0xAB) \<noteq> nebula_uuid_format (replicate 16 0xAC)"
proof -
  have "replicate 16 (0xAB :: byte) \<noteq> replicate 16 0xAC" by simp
  then show ?thesis using uuid_format_injective [of "replicate 16 0xAB" "replicate 16 0xAC"] by simp
qed

end
