(* ===== verification/Nebula_Mkfs.thy ===== *)
theory Nebula_Mkfs
  imports Nebula_Fs Nebula_Uuid
begin

unbundle bit_operations_syntax

text \<open>
  \<open>tools/nebula_format.c\<close>, the mkfs tool in its POSIX build: the command line, the order in which the
  structures are written, and what formatting establishes: the device mounts, its invariant holds, and
  the name space holds the root directory alone.
\<close>

section \<open>The command line\<close>

text \<open>
  \<open>strtoull(s, &end, 10)\<close> of the C library: leading white space, a sign, digits; the value saturates,
  a minus sign negates it in 64 bits.  The second component is the string at \<open>end\<close>; without digits
  that is \<open>s\<close> itself.
\<close>

definition c_isspace :: "char \<Rightarrow> bool" where
  "c_isspace c \<longleftrightarrow> c = CHR '' '' \<or> (9 \<le> (of_char c :: nat) \<and> (of_char c :: nat) \<le> 13)"

definition c_isdigit :: "char \<Rightarrow> bool" where
  "c_isdigit c \<longleftrightarrow> 48 \<le> (of_char c :: nat) \<and> (of_char c :: nat) \<le> 57"

definition digits_value :: "string \<Rightarrow> nat" where
  "digits_value ds = foldl (\<lambda>v c. 10 * v + ((of_char c :: nat) - 48)) 0 ds"

definition strtoull :: "string \<Rightarrow> u64 \<times> string" where
  "strtoull s =
     (let s1 = dropWhile c_isspace s;
          neg = (s1 \<noteq> [] \<and> hd s1 = CHR ''-'');
          s2 = (if s1 \<noteq> [] \<and> (hd s1 = CHR ''-'' \<or> hd s1 = CHR ''+'') then tl s1 else s1);
          ds = takeWhile c_isdigit s2;
          v = digits_value ds
      in if ds = [] then (0, s)
         else (if v \<ge> 2 ^ 64 then -1 else if neg then - of_nat v else of_nat v, dropWhile c_isdigit s2))"

text \<open>\<open>end == s\<close> compares pointers: the remaining string is as long as the whole one.\<close>

definition parse_size :: "string \<Rightarrow> u64 res" where
  "parse_size s =
     (case strtoull s of
        (v, rest) \<Rightarrow>
          if length rest = length s then Inl EINVAL
          else case rest of
                 [] \<Rightarrow> Inr v
               | c # _ \<Rightarrow>
                   if c = CHR ''k'' \<or> c = CHR ''K'' then Inr (v * 1024)
                   else if c = CHR ''m'' \<or> c = CHR ''M'' then Inr (v * (1024 * 1024))
                   else if c = CHR ''g'' \<or> c = CHR ''G'' then Inr (v * (1024 * 1024 * 1024))
                   else if c = CHR ''t'' \<or> c = CHR ''T'' then Inr (v * (1024 * 1024 * 1024 * 1024))
                   else Inl EINVAL)"

record format_opts =
  fo_path :: "string option"
  fo_size :: u64
  fo_inode_size :: u32
  fo_force :: bool
  fo_use_spdk :: bool

definition format_defaults :: format_opts where
  "format_defaults = \<lparr>fo_path = None, fo_size = 0, fo_inode_size = NEBULA_INODE_SIZE_DEFAULT,
     fo_force = False, fo_use_spdk = False\<rparr>"

text \<open>The option loop over \<open>argv[1..]\<close>; \<open>Inl\<close> is the exit status of an early return.\<close>

fun format_args :: "string list \<Rightarrow> format_opts \<Rightarrow> nat + format_opts" where
  "format_args [] opts = Inr opts"
| "format_args (a # rest) opts =
     (if a = ''--path'' \<and> rest \<noteq> [] then format_args (tl rest) (opts\<lparr>fo_path := Some (hd rest)\<rparr>)
      else if a = ''--size'' \<and> rest \<noteq> [] then
        (case parse_size (hd rest) of
           Inl _ \<Rightarrow> Inl 2
         | Inr v \<Rightarrow> format_args (tl rest) (opts\<lparr>fo_size := v\<rparr>))
      else if a = ''--inode-size'' \<and> rest \<noteq> [] then
        (let v = fst (strtoull (hd rest)) in
         if v \<noteq> ucast NEBULA_INODE_SIZE_DEFAULT \<and> v \<noteq> ucast NEBULA_INODE_SIZE_LARGE then Inl 2
         else format_args (tl rest) (opts\<lparr>fo_inode_size := ucast v\<rparr>))
      else if a = ''--force'' then format_args rest (opts\<lparr>fo_force := True\<rparr>)
      else if a = ''--spdk'' then format_args rest (opts\<lparr>fo_use_spdk := True\<rparr>)
      else if a = ''--verbose'' then format_args rest opts
      else if a = ''--help'' \<or> a = ''-h'' then Inl 0
      else Inl 2)"

section \<open>Writing the structures\<close>

text \<open>
  The writes in their order, each performed only when those before it succeeded; \<open>t1\<close> and \<open>t2\<close> are the
  clock readings for the uberblock and for the root inode.
\<close>

definition format_steps ::
    "nebula_layout \<Rightarrow> byte list \<Rightarrow> u64 \<Rightarrow> u64 \<Rightarrow> u64 \<Rightarrow> ('d nebula_io \<Rightarrow> unit res \<times> 'd nebula_io) list" where
  "format_steps L uuid capacity_blocks t1 t2 =
     [\<lambda>io. nebula_mbr_write io uuid capacity_blocks,
      \<lambda>io. nebula_uberblock_init_region io L t1,
      \<lambda>io. nebula_allocator_roots_init io L,
      \<lambda>io. nebula_bitmap_init io L,
      \<lambda>io. nebula_inode_page_init io L t2,
      \<lambda>io. nebula_dir_page_init io L,
      \<lambda>io. nebula_superblock_write_both io uuid L,
      nebula_io_flush]"

definition run_steps :: "('d nebula_io \<Rightarrow> unit res \<times> 'd nebula_io) list \<Rightarrow> 'd nebula_io \<Rightarrow> unit res \<times> 'd nebula_io" where
  "run_steps steps io = for_each (\<lambda>step io. step io) steps io"

text \<open>
  The body of \<open>main\<close> after the device is open: the exit status and the device it leaves.  \<open>uuid\<close> is
  the result of \<open>nebula_uuid_generate\<close>.
\<close>

definition format_device ::
    "'d nebula_io \<Rightarrow> u32 \<Rightarrow> byte list res \<Rightarrow> u64 \<Rightarrow> u64 \<Rightarrow> nat \<times> 'd nebula_io" where
  "format_device io inode_size uuid t1 t2 =
     (let capacity_blocks = nebula_io_capacity_blocks io in
      case nebula_layout_compute_ex capacity_blocks inode_size of
        Inl _ \<Rightarrow> (1, io)
      | Inr L \<Rightarrow>
          (case uuid of
             Inl _ \<Rightarrow> (1, io)
           | Inr u \<Rightarrow>
               (case run_steps (format_steps L u capacity_blocks t1 t2) io of
                  (Inl _, io') \<Rightarrow> (1, io')
                | (Inr _, io') \<Rightarrow> (0, io'))))"

text \<open>
  \<open>main\<close>: \<open>None\<close> when the random device never delivers.  The environment is the outcome of \<open>open\<close>,
  \<open>ftruncate\<close> and \<open>fstat\<close> on the path, and of the random device.  Without SPDK support the option
  \<open>--spdk\<close> is an error.
\<close>

definition nebula_format_main ::
    "string list \<Rightarrow> (string \<Rightarrow> posix_dev res) \<Rightarrow> errno option \<Rightarrow> errno option \<Rightarrow> errno option \<Rightarrow> urandom_read list
     \<Rightarrow> u64 \<Rightarrow> u64 \<Rightarrow> (nat \<times> posix_dev nebula_io option) option" where
  "nebula_format_main argv opened truncated stated ropened reads t1 t2 =
     (case format_args argv format_defaults of
        Inl status \<Rightarrow> Some (status, None)
      | Inr opts \<Rightarrow>
          (case fo_path opts of
             None \<Rightarrow> Some (2, None)
           | Some path \<Rightarrow>
               if fo_use_spdk opts then Some (1, None)
               else
                 (case nebula_io_open (opened path) (fo_size opts > 0) (fo_size opts) truncated stated of
                    Inl _ \<Rightarrow> Some (1, None)
                  | Inr io \<Rightarrow>
                      (case nebula_layout_compute_ex (nebula_io_capacity_blocks io) (fo_inode_size opts) of
                         Inl _ \<Rightarrow> Some (1, Some io)
                       | Inr _ \<Rightarrow>
                           map_option (\<lambda>u. case format_device io (fo_inode_size opts) u t1 t2 of (s, io') \<Rightarrow> (s, Some io'))
                             (nebula_uuid_generate ropened reads)))))"

section \<open>The directory region as formatted\<close>

definition dir_fresh :: "nebula_layout \<Rightarrow> (nat \<Rightarrow> byte list) \<Rightarrow> bool" where
  "dir_fresh L d \<longleftrightarrow> d (unat (lay_dir_page_lba L)) = enc_dh (dir_header_init L)
     \<and> d (unat (lay_dir_page_lba L) + 1) = blk_set_entry (zeros 4096) 0 root_entry
     \<and> (\<forall>k. 2 \<le> k \<and> k < unat (lay_dir_page_block_count L) \<longrightarrow> d (unat (lay_dir_page_lba L) + k) = zeros 4096)"

lemma root_entry_wf: "wf_de root_entry" "de_used root_entry" "de_key root_entry = [0x2F]" "de_wf root_entry"
    "de_inode_num root_entry = 0"
  by (simp_all add: root_entry_def wf_de_def de_zero_def de_used_def de_key_def de_wf_def put_def NEBULA_ROOT_INODE_NUM_def
      NEBULA_DIR_FLAG_USED_def NEBULA_DIR_FLAG_DIR_def)

lemma enc_dh_init: "wf_dh (dir_header_init L)" "dh_num_entries (dir_header_init L) = 1"
  by (simp_all add: dir_header_init_def dir_header_seal_def wf_dh_def Let_def)

lemma blk_entry_zeros: "k < 4 \<Longrightarrow> \<not> de_used (blk_entry (zeros 4096) k)"
  by (simp add: blk_entry_def seg_replicate dec_de_def de_used_def u16_at_def)

lemma dir_fresh_view:
  assumes fresh: "dir_fresh L d" and n: "2 \<le> unat (lay_dir_page_block_count L)"
  shows "dir_slots d L = [0]" and "dir_wf d L" and "dir_counted d L" and "dir_map d L = [[0x2F] \<mapsto> 0]"
proof -
  let ?n = "unat (lay_dir_page_block_count L)"
  have s0: "dir_slot d L 0 = root_entry"
    using fresh root_entry_wf(1) by (simp add: dir_fresh_def dir_slot_def blk_entry_set_same)
  have rest: "\<not> de_used (dir_slot d L s)" if s: "0 < s" "s < dir_slots_total L" for s
  proof (cases "s < 4")
    case True
    then have "s div 4 = 0" "s mod 4 = s" by simp_all
    then show ?thesis
      using fresh blk_entry_set_other [of "zeros 4096" 0 s root_entry] root_entry_wf(1) blk_entry_zeros True s(1)
      by (simp add: dir_fresh_def dir_slot_def)
  next
    case False
    then have "2 \<le> 1 + s div 4" "1 + s div 4 < ?n" using s(2) by (simp_all add: dir_slots_total_def div_greater_zero_iff less_mult_imp_div_less)
    then have "d (unat (lay_dir_page_lba L) + (1 + s div 4)) = zeros 4096" using fresh unfolding dir_fresh_def by blast
    then show ?thesis using blk_entry_zeros [of "s mod 4"] by (simp add: dir_slot_def)
  qed
  have "0 < dir_slots_total L" using n by (simp add: dir_slots_total_def)
  then have "[0..<dir_slots_total L] = 0 # [1..<dir_slots_total L]" by (simp add: upt_conv_Cons)
  moreover have "filter (\<lambda>s. de_used (dir_slot d L s)) [1..<dir_slots_total L] = []" using rest by (auto simp: filter_empty_conv)
  ultimately show e: "dir_slots d L = [0]" using s0 root_entry_wf(2) by (simp add: dir_slots_def)
  show "dir_wf d L" "dir_map d L = [[0x2F] \<mapsto> 0]"
    using s0 root_entry_wf by (simp_all add: dir_wf_def dir_map_def dir_pairs_def e)
  show "dir_counted d L"
    using fresh e enc_dh_init by (simp add: dir_counted_def dir_fresh_def dh.dec_enc)
qed

section \<open>Steps that write one region\<close>

definition depends_on :: "nat set \<Rightarrow> ((nat \<Rightarrow> byte list) \<Rightarrow> bool) \<Rightarrow> bool" where
  "depends_on A P \<longleftrightarrow> (\<forall>d d'. (\<forall>i \<in> A. d' i = d i) \<longrightarrow> P d \<longrightarrow> P d')"

definition formatted :: "nebula_layout \<Rightarrow> byte list \<Rightarrow> u64 \<Rightarrow> u64 \<Rightarrow> (nat \<Rightarrow> byte list) \<Rightarrow> bool" where
  "formatted L u t1 t2 d \<longleftrightarrow> d 0 = enc_mbr (mbr_build u (lay_capacity_blocks L))
     \<and> d 2 = enc_ub (ub_build L t1) \<and> (\<forall>i. 2 < i \<and> i < 130 \<longrightarrow> d i = zeros 4096)
     \<and> d 130 = enc_array enc_ar (layout_roots L 0)
     \<and> d (unat (lay_alloc_roots_tail_lba L)) = enc_array enc_ar (layout_roots L 64)
     \<and> bitmap_pages_formatted L d
     \<and> d (unat (lay_inode_page_lba L)) = enc_ino (inode_new 0 NEBULA_INODE_TYPE_DIR 0x1ED t2)
     \<and> (\<forall>k. 0 < k \<and> k < inode_count L \<longrightarrow> d (unat (lay_inode_page_lba L) + k) = zeros 4096)
     \<and> dir_fresh L d
     \<and> d 1 = enc_sb (sb_build u L) \<and> d (unat (lay_sb_tail_lba L)) = enc_sb (sb_build u L)"

context block_backend
begin

text \<open>
  A step on devices of a given capacity writes only the region \<open>A\<close>, and establishes \<open>P\<close> of that region
  when it succeeds, which it does unless a call of the device fails.
\<close>

definition step_ok :: "nat \<Rightarrow> ('d nebula_io \<Rightarrow> unit res \<times> 'd nebula_io) \<Rightarrow> nat set \<Rightarrow> ((nat \<Rightarrow> byte list) \<Rightarrow> bool) \<Rightarrow> bool" where
  "step_ok c f A P \<longleftrightarrow> depends_on A P \<and> (\<forall>io r io'. okio io \<and> ncap io = c \<and> f io = (r, io') \<longrightarrow>
     next_io io io' \<and> (\<forall>i. i \<notin> A \<longrightarrow> disk io' i = disk io i) \<and> (r = Inr () \<longrightarrow> P (disk io')) \<and> (up io \<longrightarrow> r = Inr ()))"

lemma step_okD:
  assumes "step_ok c f A P" and "okio io" and "ncap io = c" and "f io = (r, io')"
  shows "next_io io io'" and "i \<notin> A \<Longrightarrow> disk io' i = disk io i" and "r = Inr () \<Longrightarrow> P (disk io')" and "up io \<Longrightarrow> r = Inr ()"
  using assms unfolding step_ok_def by blast+

lemma run_steps_Nil: "step_ok c (run_steps []) {} (\<lambda>_. True)"
  by (auto simp: step_ok_def run_steps_def depends_on_def intro: next_io_refl)

lemma run_steps_Cons:
  assumes f: "step_ok c f A P" and fs: "step_ok c (run_steps fs) B Q" and AB: "A \<inter> B = {}"
  shows "step_ok c (run_steps (f # fs)) (A \<union> B) (\<lambda>d. P d \<and> Q d)"
  unfolding step_ok_def
proof (intro conjI allI impI)
  have "depends_on A P" "depends_on B Q" using f fs by (simp_all add: step_ok_def)
  then show "depends_on (A \<union> B) (\<lambda>d. P d \<and> Q d)" unfolding depends_on_def by (metis UnCI)
  fix io r io' assume a: "okio io \<and> ncap io = c \<and> run_steps (f # fs) io = (r, io')"
  obtain q io1 where q: "f io = (q, io1)" by (rule prod.exhaust)
  note s1 = step_okD [OF f _ _ q]
  obtain q2 io2 where q2: "run_steps fs io1 = (q2, io2)" by (rule prod.exhaust)
  have n1: "okio io1" "ncap io1 = c" using s1(1) a next_io_ok next_io_cap by auto
  note s2 = step_okD [OF fs n1 q2]
  have res: "(r, io') = (case q of Inl e \<Rightarrow> (Inl e, io1) | Inr _ \<Rightarrow> (q2, io2))"
    using a q q2 by (auto simp: run_steps_def split: sum.splits)
  show "next_io io io'" using res s1(1) s2(1) a next_io_trans by (auto split: sum.splits)
  show "disk io' i = disk io i" if "i \<notin> A \<union> B" for i
    using res s1(2) s2(2) a that by (auto split: sum.splits)
  show "r = Inr ()" if "up io" using res s1(4) s2(4) that a next_io_up [OF s1(1)] by (auto split: sum.splits)
  assume "r = Inr ()"
  then have qq: "q = Inr ()" "q2 = Inr ()" "io' = io2" using res by (auto split: sum.splits)
  have "P (disk io1)" using s1(3) qq a by blast
  moreover have "disk io2 i = disk io1 i" if "i \<in> A" for i using s2(2) [of i] that AB by blast
  ultimately show "P (disk io')" using qq \<open>depends_on A P\<close> unfolding depends_on_def by blast
  show "Q (disk io')" using s2(3) qq by blast
qed

lemma run_steps_append:
  "run_steps (fs @ gs) io = (case run_steps fs io of (Inl e, io') \<Rightarrow> (Inl e, io') | (Inr _, io') \<Rightarrow> run_steps gs io')"
  unfolding run_steps_def by (induction fs arbitrary: io) (auto split: prod.splits sum.splits)

lemma dir_page_init_ok:
  assumes "okio io" and "nebula_dir_page_init io L = (r, io')" and "2 \<le> unat (lay_dir_page_block_count L)"
    and "unat (lay_dir_page_lba L) + unat (lay_dir_page_block_count L) \<le> ncap io"
  shows "next_io io io'"
    and "i < unat (lay_dir_page_lba L) \<or> unat (lay_dir_page_lba L) + unat (lay_dir_page_block_count L) \<le> i \<Longrightarrow> disk io' i = disk io i"
    and "r = Inr () \<Longrightarrow> dir_fresh L (disk io')"
    and "up io \<Longrightarrow> r = Inr ()"
proof (atomize (full), goal_cases)
  case 1
  let ?a = "lay_dir_page_lba L" and ?n = "unat (lay_dir_page_block_count L)"
  let ?h = "enc_dh (dir_header_init L)" and ?b = "blk_set_entry (zeros 4096) 0 root_entry"
  have len: "length ?h = 4096" "length ?b = 4096" using dh.enc_length [OF enc_dh_init(1)] root_entry_wf(1) by simp_all
  obtain q io1 where z: "zero_region io ?a ?n = (q, io1)" by (rule prod.exhaust)
  note zr = zero_region_frame [OF assms(1) z assms(4)]
  then have f1: "next_io io io1" by blast
  note ok1 = next_io_ok [OF f1] and cap1 = next_io_cap [OF f1]
  obtain q2 io2 where w: "nebula_io_write io1 ?a 1 ?h = (q2, io2)" by (rule prod.exhaust)
  have f2: "next_io io1 io2" using io_write_frame(1) [OF ok1 w] .
  note ok2 = next_io_ok [OF f2] and cap2 = next_io_cap [OF f2]
  obtain q3 io3 where v: "nebula_io_write io2 (?a + 1) 1 ?b = (q3, io3)" by (rule prod.exhaust)
  have f3: "next_io io2 io3" using io_write_frame(1) [OF ok2 v] .
  have a1: "unat (?a + 1) = unat ?a + 1"
    using unat_off_plus [of ?a 1] assms(3,4) ncap_bound [OF assms(1)] by simp
  have res: "(r, io') = (case q of Inl e \<Rightarrow> (Inl e, io1) | Inr _ \<Rightarrow> (case q2 of Inl e \<Rightarrow> (Inl e, io2) | Inr _ \<Rightarrow> (q3, io3)))"
    using assms(2) z w v by (auto simp: nebula_dir_page_init_def split: sum.splits)
  have out: "disk io2 i = disk io1 i" "disk io3 i = disk io2 i" if "i < unat ?a \<or> unat ?a + ?n \<le> i" for i
    using io_write1_other [OF ok1 w, of i] io_write1_other [OF ok2 v, of i] a1 that assms(3) by auto
  have fresh: "dir_fresh L (disk io')" if "r = Inr ()"
  proof -
    have q: "q = Inr ()" "q2 = Inr ()" "q3 = Inr ()" "io' = io3" using res that by (auto split: sum.splits)
    have d: "disk io3 = (disk io1)(unat ?a := ?h, unat ?a + 1 := ?b)"
      using io_write1_ok(2) [OF ok1 w [unfolded q] len(1)] io_write1_ok(2) [OF ok2 v [unfolded q] len(2)] a1 by simp
    have "disk io1 (unat ?a + k) = zeros 4096" if "k < ?n" for k using zr q that by simp
    then show ?thesis unfolding dir_fresh_def q(4) d by simp
  qed
  have "r = Inr ()" if up: "up io"
  proof -
    have "q = Inr ()" using zr up by blast
    moreover have "q2 = Inr ()" using io_write_up [OF ok1 next_io_up [OF f1 up] _ w] cap1 assms(3,4) by simp
    moreover have "q3 = Inr ()"
      using io_write_up [OF ok2 next_io_up [OF f2 next_io_up [OF f1 up]] _ v] cap1 cap2 a1 assms(3,4) by simp
    ultimately show ?thesis using res by simp
  qed
  then show ?case
    using res fresh zr out f1 next_io_trans [OF f1 f2] next_io_trans [OF next_io_trans [OF f1 f2] f3]
    by (auto split: sum.splits)
qed

lemma step_okI:
  assumes "\<And>io r io' i. okio io \<Longrightarrow> ncap io = c \<Longrightarrow> f io = (r, io') \<Longrightarrow> next_io io io'"
    and "\<And>io r io' i. okio io \<Longrightarrow> ncap io = c \<Longrightarrow> f io = (r, io') \<Longrightarrow> i \<notin> A \<Longrightarrow> disk io' i = disk io i"
    and "\<And>io r io'. okio io \<Longrightarrow> ncap io = c \<Longrightarrow> f io = (r, io') \<Longrightarrow> r = Inr () \<Longrightarrow> P (disk io')"
    and "\<And>io r io'. okio io \<Longrightarrow> ncap io = c \<Longrightarrow> f io = (r, io') \<Longrightarrow> up io \<Longrightarrow> r = Inr ()"
    and "depends_on A P"
  shows "step_ok c f A P"
  using assms unfolding step_ok_def by blast

lemma format_steps_ok:
  assumes t: "layout_tiles L" and c: "unat (lay_capacity_blocks L) = c" "c \<le> 2 ^ 51" and u: "length u = 16"
  shows "step_ok c (\<lambda>io. nebula_mbr_write io u (lay_capacity_blocks L)) {0}
           (\<lambda>d. d 0 = enc_mbr (mbr_build u (lay_capacity_blocks L)))"
    and "step_ok c (\<lambda>io. nebula_uberblock_init_region io L t1) {2..<130}
           (\<lambda>d. d 2 = enc_ub (ub_build L t1) \<and> (\<forall>i. 2 < i \<and> i < 130 \<longrightarrow> d i = zeros 4096))"
    and "step_ok c (\<lambda>io. nebula_allocator_roots_init io L) {130, unat (lay_alloc_roots_tail_lba L)}
           (\<lambda>d. d 130 = enc_array enc_ar (layout_roots L 0)
              \<and> d (unat (lay_alloc_roots_tail_lba L)) = enc_array enc_ar (layout_roots L 64))"
    and "step_ok c (\<lambda>io. nebula_bitmap_init io L) {131..<unat (lay_inode_page_lba L)} (bitmap_pages_formatted L)"
    and "step_ok c (\<lambda>io. nebula_inode_page_init io L t2) {unat (lay_inode_page_lba L)..<unat (lay_dir_page_lba L)}
           (\<lambda>d. d (unat (lay_inode_page_lba L)) = enc_ino (inode_new 0 NEBULA_INODE_TYPE_DIR 0x1ED t2)
              \<and> (\<forall>k. 0 < k \<and> k < inode_count L \<longrightarrow> d (unat (lay_inode_page_lba L) + k) = zeros 4096))"
    and "step_ok c (\<lambda>io. nebula_dir_page_init io L) {unat (lay_dir_page_lba L)..<unat (lay_data_start_lba L)} (dir_fresh L)"
    and "step_ok c (\<lambda>io. nebula_superblock_write_both io u L) {1, unat (lay_sb_tail_lba L)}
           (\<lambda>d. d 1 = enc_sb (sb_build u L) \<and> d (unat (lay_sb_tail_lba L)) = enc_sb (sb_build u L))"
    and "step_ok c nebula_io_flush {} (\<lambda>_. True)"
proof -
  have T: "unat (lay_uberblock_lba L) = 2" "unat (lay_uberblock_count L) = 128" "unat (lay_alloc_roots_head_lba L) = 130"
    "unat (lay_sb_head_lba L) = 1" "unat (lay_alloc_roots_tail_lba L) < c" "unat (lay_sb_tail_lba L) < c" "130 < unat (lay_alloc_roots_tail_lba L)"
    "unat (lay_dir_page_lba L) = unat (lay_inode_page_lba L) + inode_count L" "0 < inode_count L"
    "unat (lay_inode_page_lba L) + inode_count L \<le> c" "2 \<le> unat (lay_dir_page_block_count L)"
    "unat (lay_data_start_lba L) = unat (lay_dir_page_lba L) + unat (lay_dir_page_block_count L)"
    "unat (lay_dir_page_lba L) + unat (lay_dir_page_block_count L) \<le> c" "131 \<le> c" "unat (lay_bitmap_lba L) = 131"
    "131 + unat (lay_bitmap_block_count L) \<le> unat (lay_inode_page_lba L)"
    using t c(1) unfolding layout_tiles_def by linarith+
  show "step_ok c (\<lambda>io. nebula_mbr_write io u (lay_capacity_blocks L)) {0}
           (\<lambda>d. d 0 = enc_mbr (mbr_build u (lay_capacity_blocks L)))"
    by (rule step_okI) (use mbr_write_ok [OF _ u] T(14) in \<open>auto simp: depends_on_def\<close>)
  show "step_ok c (\<lambda>io. nebula_uberblock_init_region io L t1) {2..<130}
           (\<lambda>d. d 2 = enc_ub (ub_build L t1) \<and> (\<forall>i. 2 < i \<and> i < 130 \<longrightarrow> d i = zeros 4096))"
    by (rule step_okI; (drule (1) uberblock_init_ok [where x = "()"])?) (use T(1,2,14) in \<open>auto simp: depends_on_def\<close>)
  show "step_ok c (\<lambda>io. nebula_allocator_roots_init io L) {130, unat (lay_alloc_roots_tail_lba L)}
           (\<lambda>d. d 130 = enc_array enc_ar (layout_roots L 0)
              \<and> d (unat (lay_alloc_roots_tail_lba L)) = enc_array enc_ar (layout_roots L 64))"
  proof (rule step_okI)
    fix io r io' i assume a: "okio io" "ncap io = c" "nebula_allocator_roots_init io L = (r, io')"
    have "unat (lay_alloc_roots_head_lba L) < ncap io" "unat (lay_alloc_roots_tail_lba L) < ncap io" using T a(2) by simp_all
    note k = allocator_roots_init_ok [OF a(1,3) this, unfolded T(3)]
    show "next_io io io'" "i \<notin> {130, unat (lay_alloc_roots_tail_lba L)} \<Longrightarrow> disk io' i = disk io i" "up io \<Longrightarrow> r = Inr ()"
      using k(1,2,4) by blast+
    show "r = Inr () \<Longrightarrow> disk io' 130 = enc_array enc_ar (layout_roots L 0)
        \<and> disk io' (unat (lay_alloc_roots_tail_lba L)) = enc_array enc_ar (layout_roots L 64)" using k(3) T(7) by auto
  qed (simp add: depends_on_def)
  show "step_ok c (\<lambda>io. nebula_bitmap_init io L) {131..<unat (lay_inode_page_lba L)} (bitmap_pages_formatted L)"
  proof (rule step_okI)
    fix io r io' i assume a: "okio io" "ncap io = c" "nebula_bitmap_init io L = (r, io')"
    have "unat (lay_capacity_blocks L) = ncap io" using a(2) c(1) by simp
    note k = bitmap_init_ok [OF a(1) t this a(3)]
    show "next_io io io'" "i \<notin> {131..<unat (lay_inode_page_lba L)} \<Longrightarrow> disk io' i = disk io i" "up io \<Longrightarrow> r = Inr ()"
      "r = Inr () \<Longrightarrow> bitmap_pages_formatted L (disk io')" using k by auto
  qed (use T(15,16) in \<open>auto simp: depends_on_def bitmap_pages_formatted_def\<close>)
  show "step_ok c (\<lambda>io. nebula_inode_page_init io L t2) {unat (lay_inode_page_lba L)..<unat (lay_dir_page_lba L)}
           (\<lambda>d. d (unat (lay_inode_page_lba L)) = enc_ino (inode_new 0 NEBULA_INODE_TYPE_DIR 0x1ED t2)
              \<and> (\<forall>k. 0 < k \<and> k < inode_count L \<longrightarrow> d (unat (lay_inode_page_lba L) + k) = zeros 4096))"
    unfolding T(8)
  proof (rule step_okI)
    fix io r io' i assume a: "okio io" "ncap io = c" "nebula_inode_page_init io L t2 = (r, io')"
    have "unat (lay_inode_page_lba L) + inode_count L \<le> ncap io" using T(10) a(2) by simp
    note k = inode_page_init_ok [OF a(1,3) T(9) this]
    show "next_io io io'" "i \<notin> {unat (lay_inode_page_lba L)..<unat (lay_inode_page_lba L) + inode_count L} \<Longrightarrow> disk io' i = disk io i"
      "up io \<Longrightarrow> r = Inr ()" using k by auto
    show "r = Inr () \<Longrightarrow> disk io' (unat (lay_inode_page_lba L)) = enc_ino (inode_new 0 NEBULA_INODE_TYPE_DIR 0x1ED t2)
        \<and> (\<forall>k. 0 < k \<and> k < inode_count L \<longrightarrow> disk io' (unat (lay_inode_page_lba L) + k) = zeros 4096)" using k by blast
  qed (use T(9) in \<open>auto simp: depends_on_def\<close>)
  show "step_ok c (\<lambda>io. nebula_dir_page_init io L) {unat (lay_dir_page_lba L)..<unat (lay_data_start_lba L)} (dir_fresh L)"
    unfolding T(12)
  proof (rule step_okI)
    fix io r io' i assume a: "okio io" "ncap io = c" "nebula_dir_page_init io L = (r, io')"
    have "unat (lay_dir_page_lba L) + unat (lay_dir_page_block_count L) \<le> ncap io" using T(13) a(2) by simp
    note k = dir_page_init_ok [OF a(1,3) T(11) this]
    show "next_io io io'" "i \<notin> {unat (lay_dir_page_lba L)..<unat (lay_dir_page_lba L) + unat (lay_dir_page_block_count L)} \<Longrightarrow> disk io' i = disk io i"
      "up io \<Longrightarrow> r = Inr ()" "r = Inr () \<Longrightarrow> dir_fresh L (disk io')" using k by auto
  qed (use T(11) in \<open>auto simp: depends_on_def dir_fresh_def\<close>)
  show "step_ok c (\<lambda>io. nebula_superblock_write_both io u L) {1, unat (lay_sb_tail_lba L)}
           (\<lambda>d. d 1 = enc_sb (sb_build u L) \<and> d (unat (lay_sb_tail_lba L)) = enc_sb (sb_build u L))"
  proof (rule step_okI)
    fix io r io' i assume a: "okio io" "ncap io = c" "nebula_superblock_write_both io u L = (r, io')"
    note k = superblock_write_ok [OF a(1) u a(3), unfolded T(4)]
    show "next_io io io'" "i \<notin> {1, unat (lay_sb_tail_lba L)} \<Longrightarrow> disk io' i = disk io i" "up io \<Longrightarrow> r = Inr ()"
      using k(1,2,4) a(2) T(6,14) by auto
    show "r = Inr () \<Longrightarrow> disk io' 1 = enc_sb (sb_build u L) \<and> disk io' (unat (lay_sb_tail_lba L)) = enc_sb (sb_build u L)"
      using k(3) by blast
  qed (simp add: depends_on_def)
  show "step_ok c nebula_io_flush {} (\<lambda>_. True)"
    by (rule step_okI) (use io_flush_frame in \<open>auto simp: depends_on_def\<close>)
qed

text \<open>The chain of the eight steps, and the chain of the six that precede the superblocks.\<close>

lemma format_run:
  assumes t: "layout_tiles L" and c: "unat (lay_capacity_blocks L) = c" "c \<le> 2 ^ 51" and u: "length u = 16"
  shows "step_ok c (run_steps (format_steps L u (lay_capacity_blocks L) t1 t2))
      ({0} \<union> ({2..<130} \<union> ({130, unat (lay_alloc_roots_tail_lba L)} \<union> ({131..<unat (lay_inode_page_lba L)}
        \<union> ({unat (lay_inode_page_lba L)..<unat (lay_dir_page_lba L)} \<union> ({unat (lay_dir_page_lba L)..<unat (lay_data_start_lba L)}
        \<union> ({1, unat (lay_sb_tail_lba L)} \<union> ({} \<union> {}))))))))
      (formatted L u t1 t2)"
proof -
  note k = format_steps_ok [OF assms]
  have T: "131 \<le> unat (lay_inode_page_lba L)" "unat (lay_inode_page_lba L) \<le> unat (lay_dir_page_lba L)"
    "unat (lay_dir_page_lba L) \<le> unat (lay_data_start_lba L)" "unat (lay_data_start_lba L) \<le> unat (lay_alloc_roots_tail_lba L)"
    "unat (lay_alloc_roots_tail_lba L) < unat (lay_sb_tail_lba L)"
    using t unfolding layout_tiles_def by linarith+
  have eq: "formatted L u t1 t2 = (\<lambda>d. d 0 = enc_mbr (mbr_build u (lay_capacity_blocks L))
     \<and> (d 2 = enc_ub (ub_build L t1) \<and> (\<forall>i. 2 < i \<and> i < 130 \<longrightarrow> d i = zeros 4096))
     \<and> (d 130 = enc_array enc_ar (layout_roots L 0)
        \<and> d (unat (lay_alloc_roots_tail_lba L)) = enc_array enc_ar (layout_roots L 64))
     \<and> bitmap_pages_formatted L d
     \<and> (d (unat (lay_inode_page_lba L)) = enc_ino (inode_new 0 NEBULA_INODE_TYPE_DIR 0x1ED t2)
        \<and> (\<forall>k. 0 < k \<and> k < inode_count L \<longrightarrow> d (unat (lay_inode_page_lba L) + k) = zeros 4096))
     \<and> dir_fresh L d
     \<and> (d 1 = enc_sb (sb_build u L) \<and> d (unat (lay_sb_tail_lba L)) = enc_sb (sb_build u L)) \<and> True \<and> True)"
    by (rule ext) (simp add: formatted_def)
  show ?thesis unfolding eq format_steps_def
    by (intro run_steps_Cons k run_steps_Nil) (use T in auto)
qed

text \<open>
  A format that stops anywhere after the MBR is in place and before the superblocks, between two steps or
  inside one of them (a call of the device failed there, or was the last one made).
\<close>

lemma run_steps_frame:
  assumes "\<forall>f \<in> set fs. \<exists>P. step_ok (ncap io) f M P" and "okio io" and "run_steps fs io = (r, io')"
  shows "next_io io io' \<and> (\<forall>i. i \<notin> M \<longrightarrow> disk io' i = disk io i)"
  using assms
proof (induction fs arbitrary: io)
  case Nil
  then show ?case by (simp add: run_steps_def next_io_refl)
next
  case (Cons f fs)
  obtain q io1 where q: "f io = (q, io1)" by (rule prod.exhaust)
  obtain P where "step_ok (ncap io) f M P" using Cons.prems(1) by auto
  note s1 = step_okD [OF this Cons.prems(2) refl q]
  have n1: "okio io1" "ncap io1 = ncap io" using next_io_ok [OF s1(1)] next_io_cap [OF s1(1)] by simp_all
  show ?case
  proof (cases q)
    case (Inl e)
    then show ?thesis using Cons.prems(3) q s1(1,2) by (simp add: run_steps_def)
  next
    case (Inr u)
    then have "run_steps fs io1 = (r, io')" using Cons.prems(3) q by (simp add: run_steps_def)
    from Cons.IH [OF _ n1(1) this] show ?thesis using Cons.prems(1) n1(2) s1(1,2) next_io_trans [OF s1(1)] by auto
  qed
qed

lemma format_prefix_frame:
  assumes t: "layout_tiles L" and c: "unat (lay_capacity_blocks L) = ncap io" and u: "length u = 16" and ok: "okio io"
    and k: "1 \<le> k" "k \<le> 6" and mb: "nebula_mbr_write io u (lay_capacity_blocks L) = (Inr (), io1)"
    and run: "run_steps (take k (format_steps L u (lay_capacity_blocks L) t1 t2)) io = (r, io')"
  shows "next_io io io'" and "disk io' 0 = enc_mbr (mbr_build u (lay_capacity_blocks L))"
    and "disk io' 1 = disk io 1" and "disk io' (unat (lay_sb_tail_lba L)) = disk io (unat (lay_sb_tail_lba L))"
proof -
  note s = format_steps_ok [OF t c ncap_bound [OF ok] u]
  have T: "131 \<le> unat (lay_inode_page_lba L)" "unat (lay_inode_page_lba L) \<le> unat (lay_dir_page_lba L)"
    "unat (lay_dir_page_lba L) \<le> unat (lay_data_start_lba L)" "unat (lay_data_start_lba L) \<le> unat (lay_alloc_roots_tail_lba L)"
    "unat (lay_alloc_roots_tail_lba L) < unat (lay_sb_tail_lba L)"
    using t unfolding layout_tiles_def by linarith+
  define M where "M = {2..<unat (lay_sb_tail_lba L)}"
  define fs :: "('d nebula_io \<Rightarrow> unit res \<times> 'd nebula_io) list" where "fs = take (k - 1) (tl (format_steps L u (lay_capacity_blocks L) t1 t2))"
  have wide: "step_ok (ncap io) f M (\<lambda>_. True)" if "step_ok (ncap io) f A P" "A \<subseteq> M" for f A P
    using that unfolding step_ok_def depends_on_def by blast
  have "set fs \<subseteq> set (take 5 (tl (format_steps L u (lay_capacity_blocks L) t1 t2)))"
    unfolding fs_def using k by (intro set_take_subset_set_take) simp
  moreover have "\<forall>f \<in> set (take 5 (tl (format_steps L u (lay_capacity_blocks L) t1 t2))). step_ok (ncap io) f M (\<lambda>_. True)"
    using wide [OF s(2)] wide [OF s(3)] wide [OF s(4)] wide [OF s(5)] wide [OF s(6)] T
    unfolding M_def format_steps_def by auto
  ultimately have body: "\<forall>f \<in> set fs. \<exists>P. step_ok (ncap io) f M P" by blast
  have "take k (format_steps L u (lay_capacity_blocks L) t1 t2) = (\<lambda>io. nebula_mbr_write io u (lay_capacity_blocks L)) # fs"
    using k(1) by (cases k) (simp_all add: fs_def format_steps_def)
  then have rest: "run_steps fs io1 = (r, io')" using run mb by (simp add: run_steps_def)
  note s1 = step_okD [OF s(1) ok refl mb]
  have n1: "okio io1" "ncap io1 = ncap io" using next_io_ok [OF s1(1)] next_io_cap [OF s1(1)] by simp_all
  have fr: "next_io io1 io'" "\<And>i. i \<notin> M \<Longrightarrow> disk io' i = disk io1 i"
    using run_steps_frame [OF body [folded n1(2)] n1(1) rest] by blast+
  show "next_io io io'" by (rule next_io_trans [OF s1(1) fr(1)])
  have o: "0 \<notin> M" "1 \<notin> M" "unat (lay_sb_tail_lba L) \<notin> M" "unat (lay_sb_tail_lba L) \<noteq> 0" using T by (auto simp: M_def)
  show "disk io' 0 = enc_mbr (mbr_build u (lay_capacity_blocks L))" using fr(2) [OF o(1)] s1(3) by simp
  show "disk io' 1 = disk io 1" "disk io' (unat (lay_sb_tail_lba L)) = disk io (unat (lay_sb_tail_lba L))"
    using fr(2) [OF o(2)] fr(2) [OF o(3)] s1(2) [of 1] s1(2) [of "unat (lay_sb_tail_lba L)"] o(4) by simp_all
qed

lemma formatted_fs:
  assumes f: "formatted L u t1 t2 (mdisk m)" and inv: "mount_inv ops dinv L m" and sy: "bitmap_synced blk L m"
  shows "fsok L m" and "mview L m = [[0x2F] \<mapsto> (0, \<lambda>_. None)]"
    and "hbm_free (m_bitmap m) = {unat (lay_data_start_lba L)..<unat (lay_alloc_roots_tail_lba L)}"
    and "0 < k \<Longrightarrow> k < inode_count L \<Longrightarrow> inode_free_at L m k" and "mdir L m = [[0x2F] \<mapsto> 0]"
proof -
  let ?root = "inode_new 0 NEBULA_INODE_TYPE_DIR 0x1ED t2"
  note geo = mount_inv_geometry [OF inv]
  have cap: "unat (lay_capacity_blocks L) \<le> 2 ^ 51" "layout_tiles L" "lay_capacity_blocks L = hb_total_blocks (m_bitmap m)"
    using inv by (auto simp: mount_inv_def)
  have dirs: "2 \<le> unat (lay_dir_page_block_count L)" using cap(2) unfolding layout_tiles_def by linarith
  have pages: "bitmap_pages_formatted L (mdisk m)" and fresh: "dir_fresh L (mdisk m)"
    and ino0: "mdisk m (inode_addr L 0) = enc_ino ?root"
    and inos: "\<And>k. 0 < k \<Longrightarrow> k < inode_count L \<Longrightarrow> mdisk m (inode_addr L k) = zeros 4096"
    using f unfolding formatted_def by auto
  show fr: "hbm_free (m_bitmap m) = {unat (lay_data_start_lba L)..<unat (lay_alloc_roots_tail_lba L)}"
    using formatted_free(1) [OF cap(2,1) pages blk_length] sy geo(8)
    by (simp add: bitmap_synced_def bitmap_region_def)
  note D = dir_fresh_view [OF fresh dirs]
  show D4: "mdir L m = [[0x2F] \<mapsto> 0]" by (rule D(4))
  have at0: "inode_at (mdisk m) L 0 = ?root" using ino0 inode_new_wf by (simp add: inode_at_def ino.dec_enc)
  show free: "inode_free_at L m k" if "0 < k" "k < inode_count L" for k
    using inos [OF that] by (simp add: inode_at_def)
  have used: "inode_used (mdisk m) L k \<longleftrightarrow> k = 0" for k
    using free [of k] at0 inode_region(4) [OF inv]
    by (cases k) (auto simp: inode_used_def NEBULA_INODE_TYPE_DIR_def NEBULA_INODE_TYPE_FREE_def)
  have "itab_ok L (hbm_free (m_bitmap m)) (mdisk m)"
    unfolding itab_ok_def used using at0 inode_new_is_sealed file_ok_new(1) by auto
  moreover have "names_ok L (mdisk m)" unfolding names_ok_def used D(4) by auto
  ultimately show "fsok L m" unfolding fs_ok_def data_free_def using inv sy D fr by simp
  show "mview L m = [[0x2F] \<mapsto> (0, \<lambda>_. None)]"
    by (rule ext) (simp add: fs_view_def D(4) at0 file_view_new)
qed

lemma formatted_boot:
  assumes f: "formatted L u t1 t2 d" and t: "layout_tiles L" and u: "length u = 16"
    and c: "unat (lay_capacity_blocks L) \<le> 2 ^ 51" and len: "\<And>i. length (d i) = 4096"
  shows "boot_written L u d" and "scan_slots (valid_slot d 2) 128 = Some (0, ub_build L t1)"
    and "tail_clear (bitmap_region d L) (unat (lay_capacity_blocks L))"
proof -
  have F: "d 0 = enc_mbr (mbr_build u (lay_capacity_blocks L))" "d 2 = enc_ub (ub_build L t1)"
    "\<And>i. 2 < i \<Longrightarrow> i < 130 \<Longrightarrow> d i = zeros 4096" "bitmap_pages_formatted L d"
    "d 1 = enc_sb (sb_build u L)" "d (unat (lay_sb_tail_lba L)) = enc_sb (sb_build u L)"
    using f unfolding formatted_def by auto
  show "boot_written L u d" using F(1,5,6) u by (simp add: boot_written_def)
  show "scan_slots (valid_slot d 2) 128 = Some (0, ub_build L t1)"
    by (intro scan_slots_first) (simp_all add: valid_slot_def F(2,3) ub_validate_build ub_validate_zeros)
  show "tail_clear (bitmap_region d L) (unat (lay_capacity_blocks L))"
    using formatted_free(2) [OF t c F(4) len] by (simp add: bitmap_region_def)
qed

lemma format_device_mounts:
  assumes ok: "okio io" and up: "up io" and c: "65536 \<le> ncap io" "ncap io < 2 ^ 46"
    and isz: "isz = NEBULA_INODE_SIZE_DEFAULT \<or> isz = NEBULA_INODE_SIZE_LARGE" and u: "length u = 16"
  shows "\<exists>L io' m. format_device io isz (Inr u) t1 t2 = (0, io') \<and> nebula_fs_mount_io io' = (Inr m, m_io m)
    \<and> lay_capacity_blocks L = io_capacity_blocks io \<and> mup m \<and> fsok L m \<and> mview L m = [[0x2F] \<mapsto> (0, \<lambda>_. None)]
    \<and> mdir L m = [[0x2F] \<mapsto> 0] \<and> (\<forall>k. 0 < k \<and> k < inode_count L \<longrightarrow> inode_free_at L m k)
    \<and> hbm_free (m_bitmap m) = {unat (lay_data_start_lba L)..<unat (lay_alloc_roots_tail_lba L)}
    \<and> formatted L u t1 t2 (disk io') \<and> next_io io io' \<and> layout_tiles L \<and> mdisk m = disk io'"
proof -
  have c51: "ncap io \<le> 2 ^ 51" using c(2) by simp
  obtain L where L: "nebula_layout_compute_ex (io_capacity_blocks io) isz = Inr L" "layout_tiles L"
    "lay_capacity_blocks L = io_capacity_blocks io"
    using nebula_layout_compute_ex_tiles [OF c(1) c51 isz] by blast
  obtain r io' where run: "run_steps (format_steps L u (lay_capacity_blocks L) t1 t2) io = (r, io')" by (rule prod.exhaust)
  have cc: "unat (lay_capacity_blocks L) = ncap io" using L(3) by simp
  note s = step_okD [OF format_run [OF L(2) cc c51 u] ok refl run]
  have r: "r = Inr ()" by (rule s(4) [OF up])
  have f: "formatted L u t1 t2 (disk io')" by (rule s(3) [OF r])
  have fd: "format_device io isz (Inr u) t1 t2 = (0, io')"
    using run r L(1,3) by (simp add: format_device_def nebula_io_capacity_blocks_def)
  have c': "unat (lay_capacity_blocks L) \<le> 2 ^ 51" "lay_capacity_blocks L = io_capacity_blocks io'" "ncap io' < 2 ^ 46"
    using cc c(2) L(3) next_io_cap [OF s(1)] by simp_all
  note b = formatted_boot [OF f L(2) u c'(1) blk_length]
  obtain m where m: "nebula_mount_do io' = (Inr m, m_io m)" "next_io io' (m_io m)" "disk (m_io m) = disk io'"
    "mount_inv ops dinv L m" "bitmap_synced blk L m"
    using mount_do_up [OF next_io_ok [OF s(1)] next_io_up [OF s(1) up] L(2) c'(2,3) b] by blast
  have fm: "formatted L u t1 t2 (mdisk m)" using f m(3) by simp
  note fs = formatted_fs [OF fm m(4,5)]
  have "mup m" using next_io_up [OF m(2) next_io_up [OF s(1) up]] .
  then show ?thesis using fd m(1,3) L(2,3) fs f s(1) by (auto simp: nebula_fs_mount_io_def nebula_mount_open_io_def)
qed

text \<open>A device with the new MBR, whose superblock positions hold nothing valid under its identifier, does not mount.\<close>

lemma foreign_superblocks_unmountable:
  assumes ok: "okio io" and u: "length u = 16" and mbr: "disk io 0 = enc_mbr (mbr_build u c)"
    and head: "\<And>sb. sb_validate (disk io 1) = Inr sb \<Longrightarrow> sb_device_uuid sb \<noteq> u"
    and tail: "\<And>sb. sb_validate (disk io (ncap io - 1)) = Inr sb \<Longrightarrow> sb_device_uuid sb \<noteq> u" and cap: "0 < ncap io"
  shows "\<exists>e io'. nebula_fs_mount_io io = (Inl e, io')"
proof -
  obtain q io1 where mb: "nebula_mbr_read io = (q, io1)" by (rule prod.exhaust)
  note f1 = io_load_frame [OF ok mb [unfolded nebula_mbr_read_def]]
  note model = nebula_fs_mount_io_def nebula_mount_open_io_def nebula_mount_do_def
  show ?thesis
  proof (cases q)
    case (Inl e)
    then show ?thesis using mb by (simp add: model)
  next
    case (Inr m)
    have "mbr_validate (disk io 0) = Inr m"
      using io_load_ok [OF ok mb [unfolded nebula_mbr_read_def Inr]] by (simp add: NEBULA_LBA_MBR_def)
    then have m: "m = mbr_build u c" using mbr u by (simp add: mbr_validate_build)
    have rd: "sb_validate (disk io (unat a)) = Inr sb" if "okio io2" "disk io2 = disk io" "nebula_superblock_read io2 a = (Inr sb, io3)" for io2 io3 a sb
      using io_load_ok [OF that(1) that(3) [unfolded nebula_superblock_read_def]] that(2) by simp
    obtain r2 io2 where r2: "nebula_superblock_read io1 1 = (r2, io2)" by (rule prod.exhaust)
    note f2 = io_load_frame [OF next_io_ok [OF f1(1)] r2 [unfolded nebula_superblock_read_def]]
    obtain r3 io3 where r3: "nebula_superblock_read io2 (io_capacity_blocks io2 - 1) = (r3, io3)" by (rule prod.exhaust)
    have tl: "unat (io_capacity_blocks io2 - 1) = ncap io - 1"
      using next_io_cap [OF f1(1)] next_io_cap [OF f2(1)] cap by (simp add: unat_minus_le word_le_nat_alt)
    have "sb_device_uuid sb \<noteq> u" if "r2 = Inr sb" for sb
      using rd [OF next_io_ok [OF f1(1)] f1(2), of 1 sb io2] r2 that head by simp
    moreover have "sb_device_uuid sb \<noteq> u" if "r3 = Inr sb" for sb
      using rd [OF next_io_ok [OF f2(1)], of "io_capacity_blocks io2 - 1" sb io3] f1(2) f2(2) r3 that tail tl by simp
    ultimately show ?thesis
      using mb Inr m r2 r3 by (auto simp: model mount_superblock_def nebula_io_capacity_blocks_def NEBULA_LBA_SB_HEAD_def split: sum.splits)
  qed
qed

lemma interrupted_format_unmountable:
  assumes t: "layout_tiles L" and c: "lay_capacity_blocks L = io_capacity_blocks io" and u: "length u = 16" and ok: "okio io"
    and k: "1 \<le> k" "k \<le> 6" and mb: "nebula_mbr_write io u (lay_capacity_blocks L) = (Inr (), io1)"
    and run: "run_steps (take k (format_steps L u (lay_capacity_blocks L) t1 t2)) io = (r, io')"
    and old: "\<And>a sb. a \<in> {1, unat (lay_sb_tail_lba L)} \<Longrightarrow> sb_validate (disk io a) = Inr sb \<Longrightarrow> sb_device_uuid sb \<noteq> u"
    and later: "okio io2" "disk io2 = disk io'" "io_capacity_blocks io2 = io_capacity_blocks io"
  shows "\<exists>e io''. nebula_fs_mount_io io2 = (Inl e, io'')"
proof -
  have cc: "unat (lay_capacity_blocks L) = ncap io" using c by simp
  note p = format_prefix_frame [OF t cc u ok k mb run]
  have "unat (lay_sb_tail_lba L) + 1 = ncap io" using t cc unfolding layout_tiles_def by linarith
  then have e: "ncap io2 - 1 = unat (lay_sb_tail_lba L)" "0 < ncap io2" using later(3) by simp_all
  show ?thesis
    by (rule foreign_superblocks_unmountable [OF later(1) u]) (use p later(2) e old in auto)
qed

end

section \<open>Properties\<close>

text \<open>
  Property C15.  Formatting a device of at least 256 MiB whose calls do not fail ends with status 0, and
  the device then mounts: the invariant of the file system holds, the name space holds the root
  directory and nothing else, and exactly the blocks of the data region are free.
\<close>

theorem format_then_mount:
  assumes "io_ok posix_ops posix_inv io" and "posix_healthy (io_dev io)"
    and "65536 \<le> unat (io_capacity_blocks io)" and "unat (io_capacity_blocks io) < 2 ^ 46"
    and "isz = NEBULA_INODE_SIZE_DEFAULT \<or> isz = NEBULA_INODE_SIZE_LARGE" and "length u = 16"
  shows "\<exists>L io' m. format_device io isz (Inr u) t1 t2 = (0, io') \<and> nebula_fs_mount_io io' = (Inr m, m_io m)
    \<and> fs_ok posix_ops posix_inv posix_blk L m \<and> fs_view (posix_blk (io_dev (m_io m))) L = [[0x2F] \<mapsto> (0, \<lambda>_. None)]
    \<and> free_blocks (hb_l0_bits (m_bitmap m)) (unat (io_capacity_blocks io))
        = {unat (lay_data_start_lba L)..<unat (lay_alloc_roots_tail_lba L)}"
proof -
  obtain L io' m where f: "format_device io isz (Inr u) t1 t2 = (0, io')" "nebula_fs_mount_io io' = (Inr m, m_io m)"
    "lay_capacity_blocks L = io_capacity_blocks io" "fs_ok posix_ops posix_inv posix_blk L m"
    "fs_view (posix.mdisk m) L = [[0x2F] \<mapsto> (0, \<lambda>_. None)]"
    "hbm_free (m_bitmap m) = {unat (lay_data_start_lba L)..<unat (lay_alloc_roots_tail_lba L)}"
    using posix.format_device_mounts [OF assms, of t1 t2] by blast
  have "mount_inv posix_ops posix_inv L m" using f(4) by (simp add: fs_ok_def)
  then have "free_blocks (hb_l0_bits (m_bitmap m)) (unat (io_capacity_blocks io)) = hbm_free (m_bitmap m)"
    using mount_inv_geometry(8) f(3) by metis
  then show ?thesis using f by metis
qed

theorem format_then_mount_witness:
  "\<exists>L io' m. format_device (sample_io 65536) NEBULA_INODE_SIZE_DEFAULT (Inr (zeros 16)) 0 0 = (0, io')
    \<and> nebula_fs_mount_io io' = (Inr m, m_io m) \<and> fs_ok posix_ops posix_inv posix_blk L m"
  using format_then_mount [of "sample_io 65536" NEBULA_INODE_SIZE_DEFAULT "zeros 16" 0 0] sample_io_ok [of 65536]
  by auto

text \<open>
  Property C16.  Superblocks are written last.  A format whose MBR is in place and that stops before the
  superblock step, between two steps or inside one after a failed call, leaves blocks that no mount
  accepts, with whatever calls it makes: the device may have been formatted before and carry valid
  superblocks, as long as they are of another identifier, as a fresh one is.
\<close>

theorem interrupted_format_not_mountable:
  assumes "layout_tiles L" and "lay_capacity_blocks L = io_capacity_blocks io" and "length u = 16"
    and "io_ok posix_ops posix_inv io" and "1 \<le> k" and "k \<le> 6"
    and "nebula_mbr_write io u (lay_capacity_blocks L) = (Inr (), io1)"
    and "run_steps (take k (format_steps L u (lay_capacity_blocks L) t1 t2)) io = (r, io')"
    and "\<And>a sb. a \<in> {1, unat (lay_sb_tail_lba L)} \<Longrightarrow> sb_validate (posix_blk (io_dev io) a) = Inr sb \<Longrightarrow> sb_device_uuid sb \<noteq> u"
    and "io_ok posix_ops posix_inv io2" and "posix_blk (io_dev io2) = posix_blk (io_dev io')"
    and "io_capacity_blocks io2 = io_capacity_blocks io"
  shows "\<exists>e io''. nebula_fs_mount_io io2 = (Inl e, io'')"
  by (rule posix.interrupted_format_unmountable [OF assms])

text \<open>A second format, under another identifier, that stops right after its MBR: the first one's superblocks are still valid.\<close>

theorem interrupted_format_not_mountable_witness:
  "\<exists>io L sb io' e io''. sb_validate (posix_blk (io_dev io) 1) = Inr sb \<and> sb_device_uuid sb = zeros 16
     \<and> run_steps (take 1 (format_steps L (replicate 16 1) (lay_capacity_blocks L) 0 0)) io = (Inr (), io')
     \<and> nebula_fs_mount_io io' = (Inl e, io'')"
proof -
  have u: "length (zeros 16) = 16" "length (replicate 16 (1::byte)) = 16" by simp_all
  obtain L io where f: "lay_capacity_blocks L = io_capacity_blocks (sample_io 65536)"
    "formatted L (zeros 16) 0 0 (posix.disk io)" "posix.next_io (sample_io 65536) io" "layout_tiles L"
    using posix.format_device_mounts [of "sample_io 65536" NEBULA_INODE_SIZE_DEFAULT "zeros 16" 0 0] sample_io_ok [of 65536]
    by auto
  have ok: "posix.okio io" "posix.up io" "io_capacity_blocks io = io_capacity_blocks (sample_io 65536)"
    using posix.next_io_ok [OF f(3)] posix.next_io_up [OF f(3)] posix.next_io_cap [OF f(3)] sample_io_ok [of 65536] by simp_all
  obtain r io' where mb: "nebula_mbr_write io (replicate 16 1) (lay_capacity_blocks L) = (r, io')" by (rule prod.exhaust)
  note w = posix.mbr_write_ok [OF ok(1) u(2) mb]
  have r: "r = Inr ()" using w(4) ok sample_io_ok [of 65536] by simp
  then have run: "run_steps (take 1 (format_steps L (replicate 16 1) (lay_capacity_blocks L) 0 0)) io = (Inr (), io')"
    using mb by (simp add: run_steps_def format_steps_def)
  have sb: "sb_validate (posix_blk (io_dev io) a) = Inr (sb_build (zeros 16) L)" if "a \<in> {1, unat (lay_sb_tail_lba L)}" for a
    using f(2) that sb_validate_build [OF u(1), of L] by (auto simp: formatted_def)
  have ne: "sb_device_uuid (sb_build (zeros 16) L) = zeros 16" "zeros 16 \<noteq> replicate 16 (1::byte)"
    by (simp_all add: sb_build_def numeral_eq_Suc)
  have "\<exists>e io''. nebula_fs_mount_io io' = (Inl e, io'')"
    using interrupted_format_not_mountable [OF f(4) _ u(2) ok(1) _ _ mb [unfolded r] run _ posix.next_io_ok [OF w(1)] refl]
      f(1) ok(3) posix.next_io_cap [OF w(1)] sb ne by fastforce
  then show ?thesis using sb [of 1] ne(1) run by blast
qed

text \<open>Sizes are multiplied in 64 bits: a request of \<open>2 ^ 34\<close> gibibytes is taken as no size at all.\<close>

lemma parse_size_wraps: "parse_size ''17179869184G'' = Inr 0"
  by (simp add: parse_size_def strtoull_def digits_value_def c_isspace_def c_isdigit_def)

end
