(* ===== verification/Nebula_Handles.thy ===== *)
theory Nebula_Handles
  imports Nebula_Fs
begin

unbundle bit_operations_syntax

text \<open>
  Handles that stay open.  A handle holds its own copy of the inode, which is ahead of the device after
  a write that ran out of space: it knows blocks that the inode on the device does not.  The relation
  \<open>handle_own\<close> between a handle and the device says what the two agree on; \<open>files_frame\<close> says what a call
  on one file leaves alone, so that the handles of other files stay valid.
\<close>

section \<open>Definitions\<close>

definition handle_own :: "nebula_layout \<Rightarrow> nat set \<Rightarrow> (nat \<Rightarrow> byte list) \<Rightarrow> u64 \<Rightarrow> nebula_file \<Rightarrow> bool" where
  "handle_own L fr dsk n f \<longleftrightarrow> file_ok L fr (f_inode f) \<and> ino_inode_num (f_inode f) = n
     \<and> ino_type (f_inode f) = ino_type (inode_at dsk L (unat n)) \<and> ino_size_bytes (f_inode f) = ino_size_bytes (inode_at dsk L (unat n))
     \<and> set (file_list (inode_at dsk L (unat n))) \<subseteq> set (file_list (f_inode f))
     \<and> (\<forall>c x. file_phys (inode_at dsk L (unat n)) c = Some x \<longrightarrow> file_phys (f_inode f) c = Some x)
     \<and> (\<forall>j. inode_used dsk L j \<and> j \<noteq> unat n \<longrightarrow> set (file_list (f_inode f)) \<inter> set (file_list (inode_at dsk L j)) = {})"

lemma handle_own_frame:
  assumes own: "handle_own L fr dsk n f" and fr: "files_frame L X B dsk dsk'"
    and n: "unat n \<notin> X" "inode_used dsk L (unat n)"
    and apart: "set (file_list (f_inode f)) \<inter> B = {}" "set (file_list (f_inode f)) \<inter> fr' = {}"
    and new: "\<And>k. k \<in> X \<Longrightarrow> inode_used dsk' L k \<Longrightarrow> set (file_list (f_inode f)) \<inter> set (file_list (inode_at dsk' L k)) = {}"
  shows "handle_own L fr' dsk' n f" and "file_byte dsk' (f_inode f) = file_byte dsk (f_inode f)"
proof -
  have ok: "file_ok L fr (f_inode f)" using own by (simp add: handle_own_def)
  have at: "inode_at dsk' L (unat n) = inode_at dsk L (unat n)" using fr n by (simp add: files_frame_def)
  have "set (file_list (f_inode f)) \<inter> set (file_list (inode_at dsk' L j)) = {}" if j: "inode_used dsk' L j" "j \<noteq> unat n" for j
  proof (cases "j \<in> X")
    case False
    then show ?thesis
      using fr own j unfolding files_frame_def handle_own_def by (cases "inode_used dsk L j") auto
  qed (rule new [OF _ j(1)])
  moreover have "file_ok L fr' (f_inode f)" using file_ok_fewer_free [OF ok] apart(2) by blast
  ultimately show "handle_own L fr' dsk' n f" using own unfolding handle_own_def at by blast
  have "dsk' q = dsk q" if "q \<in> set (file_list (f_inode f))" for q
  proof -
    have "unat (lay_data_start_lba L) \<le> q" using ok that by (auto simp: file_ok_def)
    moreover have "q \<notin> B" using that apart(1) by blast
    ultimately show ?thesis using fr by (simp add: files_frame_def)
  qed
  then show "file_byte dsk' (f_inode f) = file_byte dsk (f_inode f)"
    using file_phys_in_list [OF ok] by (auto simp: file_byte_def fun_eq_iff split: option.splits)
qed

lemma handle_for_own:
  assumes h: "handle_for dsk L n f" and it: "itab_ok L fr dsk" and u: "inode_used dsk L (unat n)"
  shows "handle_own L fr dsk n f"
proof -
  have e: "ino_extents (f_inode f) = ino_extents (inode_at dsk L (unat n))" using h by (simp add: handle_for_def)
  have "file_ok L fr (f_inode f)"
    using it u h by (intro file_ok_extents [OF _ e]) (auto simp: itab_ok_def handle_for_def)
  then show ?thesis
    using h it u unfolding handle_own_def handle_for_def itab_ok_def file_list_extents [OF e] file_phys_extents [OF e] by blast
qed

context block_backend
begin

section \<open>Writing through a handle that may be ahead\<close>

lemma fs_write_own:
  assumes ok: "fsok L m" and up: "mup m" and ad: "addressable L" and nm: "mdir L m name = Some n"
    and h: "handle_own L (hbm_free (m_bitmap m)) (mdisk m) n f" and fl: "f_flags f AND NEBULA_O_WRONLY \<noteq> 0" and ne: "buf \<noteq> []"
    and fit: "unat off + length buf < 2 ^ 63" and wr: "nebula_fs_write m f off buf t = (r, f', m')"
  shows "fsok L m'" and "mup m'" and "mdir L m' = mdir L m" and "hbm_free (m_bitmap m') \<subseteq> hbm_free (m_bitmap m)"
    and "b \<noteq> name \<Longrightarrow> mview L m' b = mview L m b"
    and "handle_own L (hbm_free (m_bitmap m')) (mdisk m') n f' \<and> f_flags f' = f_flags f"
    and "files_frame L {unat n} (set (file_list (f_inode f)) \<union> hbm_free (m_bitmap m)) (mdisk m) (mdisk m')"
    and "set (file_list (f_inode f)) \<subseteq> set (file_list (f_inode f'))
          \<and> set (file_list (f_inode f')) \<subseteq> set (file_list (f_inode f)) \<union> hbm_free (m_bitmap m)"
    and "file_phys (f_inode f) c = Some x \<Longrightarrow> file_phys (f_inode f') c = Some x"
    and "\<exists>k \<le> length buf. (r = Inr k \<or> k = 0 \<and> r = Inl ENOSPC)
          \<and> write_effect (mdisk m) (f_inode f) (mdisk m') (f_inode f') (unat off) (unat off + k) (take k buf)
          \<and> (if k = length buf
             then r = Inr k \<and> ino_size_bytes (f_inode f') = max (ino_size_bytes (f_inode f)) (off + of_nat k) \<and> handle_for (mdisk m') L n f'
             else ino_size_bytes (f_inode f') = ino_size_bytes (f_inode f) \<and> inode_at (mdisk m') L (unat n) = inode_at (mdisk m) L (unat n))"
proof (atomize (full), goal_cases)
  case 1
  note o = fsokD [OF ok] and R = regions [OF fsokD(1) [OF ok]] and i = named_inode [OF ok nm]
  let ?x = "unat n" and ?i = "f_inode f" and ?i' = "f_inode f'"
  let ?d = "inode_at (mdisk m) L (unat n)" and ?d' = "inode_at (mdisk m') L (unat n)"
  have fok: "file_ok L (hbm_free (m_bitmap m)) ?i" and hw: "ino_inode_num ?i = n" "ino_size_bytes ?i = ino_size_bytes ?d" "ino_type ?i = ino_type ?d"
    and sub: "set (file_list ?d) \<subseteq> set (file_list ?i)" and ph: "\<And>c x. file_phys ?d c = Some x \<Longrightarrow> file_phys ?i c = Some x"
    and oth: "\<And>j. inode_used (mdisk m) L j \<Longrightarrow> j \<noteq> ?x \<Longrightarrow> set (file_list ?i) \<inter> set (file_list (inode_at (mdisk m) L j)) = {}"
    using h unfolding handle_own_def by blast+
  have num: "unat (ino_inode_num ?i) < inode_count L" using hw(1) i(2) by simp
  note c = file_write_cases [OF o(1) up o(3) ad fok num fl ne fit wr [unfolded nebula_fs_write_def], unfolded hw(1)]
  have wf': "wf_ino ?i'" using c(3) by (simp add: file_ok_def)
  obtain k where k: "k \<le> length buf" "r = Inr k \<or> k = 0 \<and> r = Inl ENOSPC"
      "write_effect (mdisk m) ?i (mdisk m') ?i' (unat off) (unat off + k) (take k buf)"
      "if k = length buf then r = Inr k \<and> ino_size_bytes ?i' = max (ino_size_bytes ?i) (off + of_nat k) \<and> inode_sealed ?i'
          \<and> mdisk m' (inode_addr L ?x) = enc_ino ?i' else ?i' = ?i\<lparr>ino_extents := ino_extents ?i'\<rparr>"
    using c(9) by (auto split: if_splits)
  have full: "r = Inr (length buf) \<longleftrightarrow> k = length buf" using k(1,2,4) ne by auto
  have dat: "unat (lay_data_start_lba L) \<le> a" if "a \<in> set (file_list ?i) \<union> hbm_free (m_bitmap m)" for a
    using that fok o(3) by (auto simp: data_free_def file_ok_def)
  have meta: "a \<notin> set (file_list ?i)" "a \<notin> hbm_free (m_bitmap m)" if "a < unat (lay_data_start_lba L)" for a
    using that dat [of a] by auto
  have out: "mdisk m' a = mdisk m a"
    if "131 + unat (lay_bitmap_block_count L) \<le> a" "a < unat (lay_data_start_lba L)" "a \<noteq> inode_addr L ?x" for a
    using c(7) [OF meta(1,2)] that by blast
  have dir: "mdisk m' a = mdisk m a" if "\<not> outside_dir L a" for a
    using out [of a] R(4) [OF that] i(2) by auto
  have ds: "mdir L m' = mdir L m" "dir_wf (mdisk m') L = dir_wf (mdisk m) L" "dir_counted (mdisk m') L = dir_counted (mdisk m) L"
    by (rule dir_same [OF o(1) dir], assumption)+
  have same: "inode_at (mdisk m') L j = inode_at (mdisk m) L j" if "j < inode_count L" "j \<noteq> ?x" for j
    using out [of "inode_addr L j"] R(3) [OF that(1)] that(2) by (intro inode_at_same) auto
  have slot: "?d' = (if k = length buf then ?i' else ?d)"
  proof (cases "k = length buf")
    case True
    then show ?thesis using k(4) wf' by (simp add: inode_at_def ino.dec_enc)
  next
    case False
    then have nf: "r \<noteq> Inr (length buf)" using full by blast
    have "inode_addr L ?x < unat (lay_data_start_lba L)" "131 + unat (lay_bitmap_block_count L) \<le> inode_addr L ?x"
      using R(3) [OF i(2)] by auto
    then have "mdisk m' (inode_addr L ?x) = mdisk m (inode_addr L ?x)" using c(10) [OF nf meta(1,2)] by blast
    then show ?thesis using False by (simp add: inode_at_def)
  qed
  have hw': "ino_inode_num ?i' = n" "ino_type ?i' = ino_type ?d" "f_flags f' = f_flags f" using c(8) hw by auto
  have grown: "ino_size_bytes ?i' = ino_size_bytes ?d'" "k \<noteq> length buf \<Longrightarrow> ino_size_bytes ?i' = ino_size_bytes ?i"
  proof -
    show a: "ino_size_bytes ?i' = ino_size_bytes ?i" if "k \<noteq> length buf"
    proof -
      have "?i' = ?i\<lparr>ino_extents := ino_extents ?i'\<rparr>" using k(4) that by (simp only: if_False)
      from arg_cong [OF this, of ino_size_bytes] show ?thesis by simp
    qed
    then show "ino_size_bytes ?i' = ino_size_bytes ?d'" using slot hw(2) by auto
  qed
  have ty': "ino_type ?d' = ino_type ?d" "ino_inode_num ?d' = n" using slot hw' i(4) by auto
  have list': "set (file_list ?d') \<subseteq> set (file_list ?i')" "set (file_list ?i') \<subseteq> set (file_list ?i) \<union> hbm_free (m_bitmap m)"
    using slot c(6) sub by auto
  have used: "inode_used (mdisk m') L j = inode_used (mdisk m) L j" for j
    using same [of j] ty' i(2) by (cases "j = ?x") (auto simp: inode_used_def)
  have nofree: "set (file_list (inode_at (mdisk m) L j)) \<inter> hbm_free (m_bitmap m) = {}" if "inode_used (mdisk m) L j" for j
    using itab_data(3) [OF o(6) that] by blast
  have apart': "set (file_list ?i') \<inter> set (file_list (inode_at (mdisk m) L j)) = {}" if "inode_used (mdisk m) L j" "j \<noteq> ?x" for j
    using list'(2) oth [OF that] nofree [OF that(1)] by blast
  have fok': "file_ok L (hbm_free (m_bitmap m')) ?d'"
    using slot c(3) file_ok_fewer_free [OF i(5), of "hbm_free (m_bitmap m')"] c(5) nofree [OF i(1)] by auto
  have it: "itab_ok L (hbm_free (m_bitmap m')) (mdisk m')"
  proof (rule itab_change [OF o(6) same])
    show "set (file_list (inode_at (mdisk m) L j)) \<inter> hbm_free (m_bitmap m') = {}" if "inode_used (mdisk m) L j" for j
      using nofree [OF that] c(5) by blast
    have "inode_sealed ?d'" using slot k(4) i(3) by (auto split: if_splits)
    then show "inode_sealed ?d' \<and> unat (ino_inode_num ?d') = ?x \<and> file_ok L (hbm_free (m_bitmap m')) ?d'
        \<and> (\<forall>j. inode_used (mdisk m) L j \<and> j \<noteq> ?x \<longrightarrow> set (file_list ?d') \<inter> set (file_list (inode_at (mdisk m) L j)) = {})"
      using ty'(2) fok' list'(1) apart' by auto
  qed
  have "names_ok L (mdisk m')" using o(7) unfolding names_ok_def ds(1) used .
  then have fsk: "fsok L m'"
    unfolding fs_ok_def ds(2,3) using mount_next_inv [OF c(1)] c(2) c(4) [OF o(2)] o(4,5) it by blast
  have others: "mview L m' b = mview L m b" if b: "b \<noteq> name" for b
  proof (rule fs_view_other [OF o(7,6), where x = ?x])
    show "unat j \<noteq> ?x" if "mdir L m b = Some j" for j
      using that nm b o(7) unfolding names_ok_def by (metis word_unat_eq_iff)
    show "mdisk m' q = mdisk m q" if q: "inode_used (mdisk m) L j" "j \<noteq> ?x" "q \<in> set (file_list (inode_at (mdisk m) L j))" for j q
    proof (rule c(7))
      show "q \<notin> set (file_list ?i)" "q \<notin> hbm_free (m_bitmap m)" using oth [OF q(1,2)] nofree [OF q(1)] q(3) by blast+
      show "q < 131 \<or> 131 + unat (lay_bitmap_block_count L) \<le> q" "q \<noteq> inode_addr L ?x"
        using itab_data(1) [OF o(6) q(1,3)] R(3) [OF i(2)] by linarith+
    qed
  qed (use ds(1) same in auto)
  have own': "handle_own L (hbm_free (m_bitmap m')) (mdisk m') n f'"
    unfolding handle_own_def
  proof (intro conjI allI impI)
    show "file_phys ?i' c = Some x" if "file_phys ?d' c = Some x" for c x
      using that slot ph c(11) by (auto split: if_splits)
    show "set (file_list ?i') \<inter> set (file_list (inode_at (mdisk m') L j)) = {}" if "inode_used (mdisk m') L j \<and> j \<noteq> ?x" for j
      using apart' [of j] that same [of j] by (auto simp: used inode_used_def)
  qed (use c(3) hw' ty' grown(1) list'(1) in auto)
  have frame: "files_frame L {?x} (set (file_list ?i) \<union> hbm_free (m_bitmap m)) (mdisk m) (mdisk m')"
    unfolding files_frame_def
  proof (intro conjI allI impI)
    show "mdisk m' q = mdisk m q" if "unat (lay_data_start_lba L) \<le> q \<and> q \<notin> set (file_list ?i) \<union> hbm_free (m_bitmap m)" for q
      using c(7) [of q] that R(3) [OF i(2)] by auto
  qed (use same used in \<open>auto simp: inode_used_def\<close>)
  have hf: "handle_for (mdisk m') L n f'" if "k = length buf" using slot that wf' hw'(1) by (simp add: handle_for_def)
  have eff: "\<exists>k \<le> length buf. (r = Inr k \<or> k = 0 \<and> r = Inl ENOSPC)
          \<and> write_effect (mdisk m) ?i (mdisk m') ?i' (unat off) (unat off + k) (take k buf)
          \<and> (if k = length buf
             then r = Inr k \<and> ino_size_bytes ?i' = max (ino_size_bytes ?i) (off + of_nat k) \<and> handle_for (mdisk m') L n f'
             else ino_size_bytes ?i' = ino_size_bytes ?i \<and> ?d' = ?d)"
    using k hf grown(2) slot by (intro exI [of _ k]) auto
  show ?case
    using fsk mount_next_up [OF c(1) up] ds(1) c(5) others own' hw'(3) frame c(6) c(11) eff by blast
qed

text \<open>
  Through an up-to-date handle a complete write is the update of the named file; an incomplete one (space ran
  out) keeps the invariant and the recorded size.  Files under other names are not affected either way.
\<close>

lemma fs_write_cases:
  assumes ok: "fsok L m" and up: "mup m" and ad: "addressable L" and nm: "mdir L m name = Some n"
    and h: "handle_for (mdisk m) L n f" and fl: "f_flags f AND NEBULA_O_WRONLY \<noteq> 0" and ne: "buf \<noteq> []"
    and fit: "unat off + length buf < 2 ^ 63" and wr: "nebula_fs_write m f off buf t = (r, f', m')"
  shows "fsok L m'" and "mup m'" and "mdir L m' = mdir L m" and "hbm_free (m_bitmap m') \<subseteq> hbm_free (m_bitmap m)"
    and "b \<noteq> name \<Longrightarrow> mview L m' b = mview L m b"
    and "r = Inr (length buf) \<Longrightarrow> handle_for (mdisk m') L n f' \<and> f_flags f' = f_flags f
          \<and> (\<exists>a b. mview L m name = Some a \<and> mview L m' name = Some b \<and> afile_write (unat off) buf a b)"
    and "r \<noteq> Inr (length buf) \<Longrightarrow> (r = Inl ENOSPC \<or> (\<exists>k < length buf. r = Inr k))
          \<and> map_option fst (mview L m' name) = map_option fst (mview L m name)"
    and "r \<noteq> Inr (length buf) \<Longrightarrow> \<exists>k a. k < length buf \<and> (r = Inr k \<or> k = 0 \<and> r = Inl ENOSPC)
          \<and> mview L m name = Some a \<and> mview L m' name = Some (afile_short (unat off) (take k buf) a)"
proof -
  note o = fsokD [OF ok] and i = named_inode [OF ok nm]
  let ?d = "inode_at (mdisk m) L (unat n)" and ?d' = "inode_at (mdisk m') L (unat n)"
  have e: "ino_extents (f_inode f) = ino_extents ?d" "ino_size_bytes (f_inode f) = ino_size_bytes ?d"
    using h by (simp_all add: handle_for_def)
  note w = fs_write_own [OF ok up ad nm handle_for_own [OF h o(6) i(1)] fl ne fit wr]
  show "fsok L m'" "mup m'" "mdir L m' = mdir L m" "hbm_free (m_bitmap m') \<subseteq> hbm_free (m_bitmap m)" by (fact w)+
  show "b \<noteq> name \<Longrightarrow> mview L m' b = mview L m b" by (rule w(5))
  obtain k where k: "k \<le> length buf" "r = Inr k \<or> k = 0 \<and> r = Inl ENOSPC"
    "write_effect (mdisk m) (f_inode f) (mdisk m') (f_inode f') (unat off) (unat off + k) (take k buf)"
    "if k = length buf then r = Inr k \<and> ino_size_bytes (f_inode f') = max (ino_size_bytes (f_inode f)) (off + of_nat k) \<and> handle_for (mdisk m') L n f'
     else ino_size_bytes (f_inode f') = ino_size_bytes (f_inode f) \<and> ?d' = ?d"
    using w(10) by blast
  have v: "mview L m name = Some (file_view (mdisk m) ?d)" "mview L m' name = Some (file_view (mdisk m') ?d')"
    using nm w(3) by (simp_all add: fs_view_def)
  show "r = Inr (length buf) \<Longrightarrow> handle_for (mdisk m') L n f' \<and> f_flags f' = f_flags f
          \<and> (\<exists>a b. mview L m name = Some a \<and> mview L m' name = Some b \<and> afile_write (unat off) buf a b)"
  proof -
    assume "r = Inr (length buf)"
    then have kk: "k = length buf" using k(2) ne by auto
    then have h': "handle_for (mdisk m') L n f'" "ino_size_bytes (f_inode f') = max (ino_size_bytes ?d) (off + of_nat (length buf))"
      using k(4) e(2) by simp_all
    then have e': "ino_extents ?d' = ino_extents (f_inode f')" "ino_size_bytes ?d' = ino_size_bytes (f_inode f')" by (simp_all add: handle_for_def)
    have eff: "write_effect (mdisk m) ?d (mdisk m') ?d' (unat off) (unat off + length buf) buf"
      using k(3) unfolding kk write_effect_def file_phys_extents [OF e(1)] file_byte_extents [OF e(1)]
        file_phys_extents [OF e'(1)] file_byte_extents [OF e'(1)] by simp
    have "file_phys ?d' c = Some x" if "file_phys ?d c = Some x" for c x
      using w(9) [of c x] that unfolding file_phys_extents [OF e(1)] file_phys_extents [OF e'(1)] by blast
    then have "afile_write (unat off) buf (file_view (mdisk m) ?d) (file_view (mdisk m') ?d')"
      using eff fit h'(2) e'(2) by (auto simp: afile_write_def file_view_def write_effect_def)
    then show ?thesis using v h'(1) w(6) by blast
  qed
  show "r \<noteq> Inr (length buf) \<Longrightarrow> (r = Inl ENOSPC \<or> (\<exists>k < length buf. r = Inr k))
          \<and> map_option fst (mview L m' name) = map_option fst (mview L m name)"
    using k(1,2,4) v by (auto simp: file_view_def le_less)
  show "r \<noteq> Inr (length buf) \<Longrightarrow> \<exists>k a. k < length buf \<and> (r = Inr k \<or> k = 0 \<and> r = Inl ENOSPC)
          \<and> mview L m name = Some a \<and> mview L m' name = Some (afile_short (unat off) (take k buf) a)"
  proof -
    assume "r \<noteq> Inr (length buf)"
    then have kl: "k < length buf" and d': "?d' = ?d" using k(1,4) by (auto split: if_splits)
    have by1: "file_byte (mdisk m') ?d p = (if unat off \<le> p \<and> p < unat off + k then take k buf ! (p - unat off) else file_byte (mdisk m) ?d p)"
      if p: "p < 2 ^ 64" "file_phys ?d (of_nat (p div 4096)) = Some q" for p q
    proof -
      have q: "file_phys (f_inode f) (of_nat (p div 4096)) = Some q" using p(2) unfolding file_phys_extents [OF e(1)] .
      then have "file_byte (mdisk m') ?d p = file_byte (mdisk m') (f_inode f') p" using w(9) [OF q] p(2) by (simp add: file_byte_def)
      moreover have "file_byte (mdisk m) (f_inode f) p = file_byte (mdisk m) ?d p" using file_byte_extents [OF e(1)] by simp
      ultimately show ?thesis using k(3) q p(1) by (auto simp: write_effect_def)
    qed
    have "file_view (mdisk m') ?d = afile_short (unat off) (take k buf) (file_view (mdisk m) ?d)"
      unfolding file_view_def afile_short_def using by1 kl by (auto simp: fun_eq_iff)
    then show ?thesis using v d' kl k(2) by auto
  qed
qed

section \<open>Closing\<close>

text \<open>Closing writes the inode of a handle that is ahead: its size does not change, and no block of data does.\<close>

lemma fs_close_own:
  assumes ok: "fsok L m" and up: "mup m" and nm: "mdir L m name = Some n"
    and h: "handle_own L (hbm_free (m_bitmap m)) (mdisk m) n f" and cl: "nebula_fs_close m f t = (r, m')"
  shows "r = Inr ()" and "fsok L m'" and "mup m'" and "mdir L m' = mdir L m" and "m_bitmap m' = m_bitmap m"
    and "files_frame L {unat n} {} (mdisk m) (mdisk m')" and "b \<noteq> name \<Longrightarrow> mview L m' b = mview L m b"
    and "ino_extents (inode_at (mdisk m') L (unat n)) \<in> {ino_extents (f_inode f), ino_extents (inode_at (mdisk m) L (unat n))}"
    and "ino_size_bytes (inode_at (mdisk m') L (unat n)) = ino_size_bytes (inode_at (mdisk m) L (unat n))"
proof (atomize (full), goal_cases)
  case 1
  note o = fsokD [OF ok] and R = regions [OF fsokD(1) [OF ok]] and i = named_inode [OF ok nm]
  let ?x = "unat n" and ?i = "f_inode f" and ?d = "inode_at (mdisk m) L (unat n)" and ?d' = "inode_at (mdisk m') L (unat n)"
  have fok: "file_ok L (hbm_free (m_bitmap m)) ?i" and hw: "ino_inode_num ?i = n" "ino_size_bytes ?i = ino_size_bytes ?d" "ino_type ?i = ino_type ?d"
    and oth: "\<And>j. inode_used (mdisk m) L j \<Longrightarrow> j \<noteq> ?x \<Longrightarrow> set (file_list ?i) \<inter> set (file_list (inode_at (mdisk m) L j)) = {}"
    using h unfolding handle_own_def by blast+
  show ?case
  proof (cases "f_dirty f")
    case False
    then have "r = Inr ()" "m' = m" using cl by (simp_all add: nebula_fs_close_def nebula_file_close_def)
    then show ?thesis using ok up files_frame_refl by simp
  next
    case True
    define j where "j = ?i\<lparr>ino_mtime_ns := t\<rparr>"
    have wfj: "wf_ino j" using fok by (simp add: j_def file_ok_def wf_ino_def)
    have numj: "ino_inode_num j = n" "ino_extents j = ino_extents ?i" "ino_size_bytes j = ino_size_bytes ?d" "ino_type j = ino_type ?d"
      using hw by (simp_all add: j_def)
    obtain q i' m1 where iw: "nebula_inode_write m j = (q, i', m1)" by (rule prod_cases3)
    have r: "r = q" "m' = m1" using cl True iw by (simp_all add: nebula_fs_close_def nebula_file_close_def j_def)
    note c = inode_write_cases [OF o(1) wfj iw, unfolded numj]
    have q: "q = Inr ()" using c(5) [OF up i(2)] .
    have c4: "inode_sealed i'" "i' = j\<lparr>ino_checksum := nebula_inode_checksum j\<rparr>" "mdisk m1 = (mdisk m)(inode_addr L ?x := enc_ino i')"
      using c(4) [OF q] by blast+
    have wf': "wf_ino i'" using wfj unfolding c4(2) by (simp add: wf_ino_def)
    have at: "?d' = i'" using c4(3) wf' r(2) by (simp add: inode_at_def ino.dec_enc)
    have fi: "ino_inode_num i' = n" "ino_extents i' = ino_extents ?i" "ino_size_bytes i' = ino_size_bytes ?d" "ino_type i' = ino_type ?d"
      using numj unfolding c4(2) by simp_all
    have other: "mdisk m' a = mdisk m a" if "a \<noteq> inode_addr L ?x" for a using c4(3) r(2) that by simp
    have same: "inode_at (mdisk m') L k = inode_at (mdisk m) L k" if "k \<noteq> ?x" for k
      using other that by (intro inode_at_same) simp
    have out: "mdisk m' a = mdisk m a" if "\<not> outside_dir L a" for a using other [of a] R(1) [OF i(2)] that by auto
    have ds: "mdir L m' = mdir L m" "dir_wf (mdisk m') L = dir_wf (mdisk m) L" "dir_counted (mdisk m') L = dir_counted (mdisk m) L"
      by (rule dir_same [OF o(1) out], assumption)+
    have bm: "m_bitmap m' = m_bitmap m" using c(2) r(2) by simp
    have it: "itab_ok L (hbm_free (m_bitmap m)) (mdisk m')"
    proof (rule itab_change [OF o(6) same])
      show "set (file_list (inode_at (mdisk m) L k)) \<inter> hbm_free (m_bitmap m) = {}" if "inode_used (mdisk m) L k" for k
        using itab_data(3) [OF o(6) that] by blast
      show "inode_sealed ?d' \<and> unat (ino_inode_num ?d') = ?x \<and> file_ok L (hbm_free (m_bitmap m)) ?d'
          \<and> (\<forall>k. inode_used (mdisk m) L k \<and> k \<noteq> ?x \<longrightarrow> set (file_list ?d') \<inter> set (file_list (inode_at (mdisk m) L k)) = {})"
        unfolding at file_list_extents [OF fi(2)] using c4(1) fi(1) file_ok_extents [OF fok fi(2) wf'] oth by simp
    qed
    have used: "inode_used (mdisk m') L k = inode_used (mdisk m) L k" for k
      using same [of k] at fi(4) by (cases "k = ?x") (auto simp: inode_used_def)
    have nms: "names_ok L (mdisk m')" using o(7) unfolding names_ok_def ds(1) used .
    have fsk: "fsok L m'"
      unfolding fs_ok_def ds(2,3) bm data_free_def
      using mount_next_inv [OF c(1)] c(6) [OF o(2)] r(2) o(3,4,5) it nms by (simp add: data_free_def)
    have data: "mdisk m' q = mdisk m q" if "unat (lay_data_start_lba L) \<le> q" for q
      using other [of q] that R(3) [OF i(2)] by simp
    have frame: "files_frame L {?x} {} (mdisk m) (mdisk m')"
      using same used data by (auto simp: files_frame_def)
    have others: "mview L m' b = mview L m b" if b: "b \<noteq> name" for b
    proof (rule fs_view_other [OF o(7,6), where x = ?x])
      show "unat k \<noteq> ?x" if "mdir L m b = Some k" for k
        using that nm b o(7) unfolding names_ok_def by (metis word_unat_eq_iff)
      show "mdisk m' q = mdisk m q" if "inode_used (mdisk m) L k" "q \<in> set (file_list (inode_at (mdisk m) L k))" for k q
        using data itab_data(1) [OF o(6) that] by blast
    qed (use ds(1) same in auto)
    show ?thesis using q r fsk mount_next_up [OF c(1) up] ds(1) bm frame others at fi by auto
  qed
qed

end

end
