(* ===== verification/Nebula_Fs_Correct.thy ===== *)
theory Nebula_Fs_Correct
  imports Nebula_Mkfs Nebula_Handles
begin

unbundle bit_operations_syntax

text \<open>
  The public interface against its abstraction: every operation of a mounted file system keeps the
  invariant and acts on the map from names to files as its specification says, one by one and along
  every sequence of operations.
\<close>

section \<open>Reading\<close>

text \<open>The bytes of an abstract file from a position on, zero where it has none, cut at its size.\<close>

definition afile_read :: "nat \<Rightarrow> nat \<Rightarrow> afile \<Rightarrow> byte list" where
  "afile_read off len a = map (\<lambda>p. case snd a p of Some v \<Rightarrow> v | None \<Rightarrow> 0) [off..<off + min len (unat (fst a) - off)]"

lemma file_view_byte: "p < 2 ^ 64 \<Longrightarrow> (case snd (file_view dsk i) p of Some v \<Rightarrow> v | None \<Rightarrow> 0) = file_byte dsk i p"
  by (auto simp: file_view_def file_byte_def split: option.splits)

context block_backend
begin

lemma fs_read_cases:
  assumes ok: "fsok L m" and up: "mup m" and nm: "mdir L m name = Some n" and h: "handle_for (mdisk m) L n f"
    and fl: "f_flags f AND NEBULA_O_RDONLY \<noteq> 0" and fit: "unat off + unat len < 2 ^ 64"
    and rd: "nebula_fs_read m f off len t = (r, f', m')"
  shows "fsok L m'" and "mup m'" and "mdisk m' = mdisk m" and "handle_for (mdisk m') L n f'"
    and "\<exists>a. mview L m name = Some a \<and> r = Inr (afile_read (unat off) (unat len) a)"
proof -
  note o = fsokD [OF ok] and i = named_inode [OF ok nm]
  let ?d = "inode_at (mdisk m) L (unat n)"
  have hw: "wf_ino (f_inode f)" "ino_extents (f_inode f) = ino_extents ?d" "ino_size_bytes (f_inode f) = ino_size_bytes ?d"
    using h by (auto simp: handle_for_def)
  note fok = file_ok_extents [OF i(5) hw(2,1)]
  note c = file_read_cases [OF o(1) fok rd [unfolded nebula_fs_read_def] fit fl]
  show "fsok L m'" by (rule fsok_read_step [OF ok c(1,2,3)])
  show "mup m'" by (rule mount_next_up [OF c(1) up])
  show same: "mdisk m' = mdisk m" by (rule c(3))
  obtain t' where t': "f_inode f' = (f_inode f)\<lparr>ino_atime_ns := t'\<rparr>" using c(6) by blast
  have "wf_ino (f_inode f')" using hw(1) unfolding t' by (simp add: wf_ino_def)
  then show "handle_for (mdisk m') L n f'" using h unfolding handle_for_def same t' by simp
  have v: "mview L m name = Some (file_view (mdisk m) ?d)" using nm by (simp add: fs_view_def)
  have "r = Inr (file_bytes (mdisk m) (f_inode f) (unat off) (min (unat len) (unat (ino_size_bytes (f_inode f)) - unat off)))"
    using c(5) [OF up] by simp
  also have "file_bytes (mdisk m) (f_inode f) (unat off) (min (unat len) (unat (ino_size_bytes (f_inode f)) - unat off))
      = afile_read (unat off) (unat len) (file_view (mdisk m) ?d)"
  proof -
    have sz: "fst (file_view (mdisk m) ?d) = ino_size_bytes (f_inode f)" using hw(3) by (simp add: file_view_def)
    have by1: "(case snd (file_view (mdisk m) ?d) p of Some v \<Rightarrow> v | None \<Rightarrow> 0) = file_byte (mdisk m) (f_inode f) p"
      if "p < unat off + min (unat len) (unat (ino_size_bytes (f_inode f)) - unat off)" for p
      using file_view_byte [of p "mdisk m" ?d] file_byte_extents [OF hw(2)] that fit by simp
    show ?thesis unfolding afile_read_def file_bytes_def sz by (rule map_cong [OF refl]) (simp add: by1 del: min_less_iff_disj min_less_iff_conj)
  qed
  finally show "\<exists>a. mview L m name = Some a \<and> r = Inr (afile_read (unat off) (unat len) a)" using v by blast
qed

end

section \<open>Sequences of operations\<close>

text \<open>
  An event is a call of the interface with its arguments and what it returned to the caller; a write or a
  read opens its file first, by name, and reports the error of the open when that fails.
\<close>

datatype fs_event =
    Ev_create "byte list" "errno option"
  | Ev_delete "byte list" "errno option"
  | Ev_write "byte list" u64 "byte list" "nat res"
  | Ev_read "byte list" u64 u64 "byte list res"

inductive fs_step :: "posix_dev nebula_mount \<Rightarrow> fs_event \<Rightarrow> posix_dev nebula_mount \<Rightarrow> bool" where
  st_create: "nebula_fs_create m name mode t = (r, m') \<Longrightarrow> fs_step m (Ev_create name (res_errno r)) m'"
| st_delete: "nebula_fs_delete m name = (r, m') \<Longrightarrow> name \<noteq> [0x2F] \<Longrightarrow> fs_step m (Ev_delete name (res_errno r)) m'"
| st_write: "nebula_fs_open m name NEBULA_O_RDWR = (Inr f, m1) \<Longrightarrow> nebula_fs_write m1 f off buf t = (r, f', m') \<Longrightarrow>
    unat off + length buf < 2 ^ 63 \<Longrightarrow> fs_step m (Ev_write name off buf r) m'"
| st_write_closed: "nebula_fs_open m name NEBULA_O_RDWR = (Inl e, m') \<Longrightarrow> fs_step m (Ev_write name off buf (Inl e)) m'"
| st_read: "nebula_fs_open m name NEBULA_O_RDWR = (Inr f, m1) \<Longrightarrow> nebula_fs_read m1 f off len t = (r, f', m') \<Longrightarrow>
    unat off + unat len < 2 ^ 64 \<Longrightarrow> fs_step m (Ev_read name off len r) m'"
| st_read_closed: "nebula_fs_open m name NEBULA_O_RDWR = (Inl e, m') \<Longrightarrow> fs_step m (Ev_read name off len (Inl e)) m'"

text \<open>
  What the map from names to files allows of each event: the returned values are the ones the map gives,
  and the map after it is fixed by the event, but for the bytes of a block that a complete write adds to
  the file outside the written range.  Only the supply of inodes and of blocks is left open.
\<close>

inductive afs_step :: "nat \<Rightarrow> (byte list \<Rightarrow> afile option) \<Rightarrow> fs_event \<Rightarrow> (byte list \<Rightarrow> afile option) \<Rightarrow> bool" for S where
  a_create: "acreate_errno True S v name = None \<Longrightarrow> afs_step S v (Ev_create name None) (v(name \<mapsto> (0, \<lambda>_. None)))"
| a_create_failed: "acreate_errno left S v name = Some e \<Longrightarrow> afs_step S v (Ev_create name (Some e)) v"
| a_delete: "alookup_errno v name = None \<Longrightarrow> afs_step S v (Ev_delete name None) (v(name := None))"
| a_delete_failed: "alookup_errno v name = Some e \<Longrightarrow> afs_step S v (Ev_delete name (Some e)) v"
| a_write: "v name = Some a \<Longrightarrow> buf \<noteq> [] \<Longrightarrow> afile_write (unat off) buf a b \<Longrightarrow>
    afs_step S v (Ev_write name off buf (Inr (length buf))) (v(name \<mapsto> b))"
| a_write_nothing: "v name = Some a \<Longrightarrow> afs_step S v (Ev_write name off [] (Inr 0)) v"
| a_write_short: "v name = Some a \<Longrightarrow> k < length buf \<Longrightarrow> r = Inr k \<or> k = 0 \<and> r = Inl ENOSPC \<Longrightarrow>
    afs_step S v (Ev_write name off buf r) (v(name \<mapsto> afile_short (unat off) (take k buf) a))"
| a_write_failed: "alookup_errno v name = Some e \<Longrightarrow> afs_step S v (Ev_write name off buf (Inl e)) v"
| a_read: "v name = Some a \<Longrightarrow> afs_step S v (Ev_read name off len (Inr (afile_read (unat off) (unat len) a))) v"
| a_read_failed: "alookup_errno v name = Some e \<Longrightarrow> afs_step S v (Ev_read name off len (Inl e)) v"

inductive fs_run :: "posix_dev nebula_mount \<Rightarrow> fs_event list \<Rightarrow> posix_dev nebula_mount \<Rightarrow> bool" where
  fs_nil: "fs_run m [] m"
| fs_snoc: "fs_run m evs m1 \<Longrightarrow> fs_step m1 ev m' \<Longrightarrow> fs_run m (evs @ [ev]) m'"

inductive afs_run :: "nat \<Rightarrow> (byte list \<Rightarrow> afile option) \<Rightarrow> fs_event list \<Rightarrow> (byte list \<Rightarrow> afile option) \<Rightarrow> bool" for S where
  afs_nil: "afs_run S v [] v"
| afs_snoc: "afs_run S v evs v1 \<Longrightarrow> afs_step S v1 ev v' \<Longrightarrow> afs_run S v (evs @ [ev]) v'"

inductive_cases fs_stepE: "fs_step m ev m'"
inductive_cases afs_readE: "afs_step S v (Ev_read name off len (Inr bs)) v'"
inductive_cases afs_writtenE: "afs_step S v (Ev_write name off buf (Inr n)) v'"

definition fs_live :: "nebula_layout \<Rightarrow> posix_dev nebula_mount \<Rightarrow> bool" where
  "fs_live L m \<longleftrightarrow> fs_ok posix_ops posix_inv posix_blk L m \<and> posix_healthy (io_dev (m_io m)) \<and> addressable L
     \<and> dir_map (posix.mdisk m) L [0x2F] = Some 0"

lemma fs_view_None: "fs_view dsk L name = None \<longleftrightarrow> dir_map dsk L name = None"
  by (simp add: fs_view_def)

lemma fun_upd_other: "(\<And>b. b \<noteq> a \<Longrightarrow> g b = f b) \<Longrightarrow> g = f(a := g a)"
  by (rule ext) simp

lemma fs_liveD:
  assumes "fs_live L m"
  shows "posix.fsok L m" and "posix.mup m" and "addressable L" and "posix.mdir L m [0x2F] = Some 0"
  using assms by (auto simp: fs_live_def)

lemma rdwr_flag: "NEBULA_O_RDWR AND NEBULA_O_RDWR \<noteq> 0"
  unfolding NEBULA_O_RDWR_def NEBULA_O_RDONLY_def NEBULA_O_WRONLY_def by simp

lemma acreate_view: "acreate_errno left S (fs_view dsk L) name = acreate_errno left S (dir_map dsk L) name"
proof -
  have "dom (fs_view dsk L) = dom (dir_map dsk L)" by (auto simp: fs_view_def)
  then show ?thesis by (simp add: acreate_errno_def fs_view_None)
qed

lemma alookup_view: "alookup_errno (fs_view dsk L) name = alookup_errno (dir_map dsk L) name"
  by (simp add: alookup_errno_def fs_view_None)

text \<open>A name that is too long is refused by every lookup, before any access.\<close>

lemma long_name:
  assumes "NEBULA_DIR_NAME_MAX \<le> length name"
  shows "nebula_fs_open m name fl = (Inl ENAMETOOLONG, m)" and "nebula_fs_delete m name = (Inl ENAMETOOLONG, m)"
    and "alookup_errno v name = Some ENAMETOOLONG"
  using assms by (simp_all add: nebula_fs_open_def nebula_fs_delete_def nebula_dir_lookup_def alookup_errno_def)

lemma fs_create_live:
  assumes live: "fs_live L m" and cr: "nebula_fs_create m name mode t = (r, m')"
  shows "fs_live L m'"
    and "afs_step (dir_slots_total L) (posix.mview L m) (Ev_create name (res_errno r)) (posix.mview L m')"
proof -
  note a = fs_liveD [OF live]
  note c = posix.fs_create_cases [OF a(1,2) cr] and e = posix.fs_create_errno [OF a(1,2) cr, folded acreate_view]
  show "fs_live L m'"
    using c(1,2) a(3,4) c(4) c(5) by (cases r) (auto simp: fs_live_def)
  show "afs_step (dir_slots_total L) (posix.mview L m) (Ev_create name (res_errno r)) (posix.mview L m')"
  proof (cases r)
    case (Inl x)
    then show ?thesis using c(4) a_create_failed [OF e [symmetric, unfolded Inl res_errno_simps]] by simp
  next
    case (Inr f)
    then have "acreate_errno True (dir_slots_total L) (posix.mview L m) name = None"
      using e by (auto simp: acreate_errno_def split: if_splits)
    then show ?thesis using c(5) [OF Inr] a_create [of "dir_slots_total L" "posix.mview L m" name] Inr by simp
  qed
qed

lemma fs_delete_live:
  assumes live: "fs_live L m" and de: "nebula_fs_delete m name = (r, m')" and nm: "name \<noteq> [0x2F]"
  shows "fs_live L m' \<and> afs_step (dir_slots_total L) (posix.mview L m) (Ev_delete name (res_errno r)) (posix.mview L m')"
proof (cases "NEBULA_DIR_NAME_MAX \<le> length name")
  case True
  then show ?thesis using long_name(2) [OF True, of m] de live a_delete_failed [OF long_name(3) [OF True]] by simp
next
  case False
  then have len: "length name < NEBULA_DIR_NAME_MAX" by simp
  note a = fs_liveD [OF live]
  note c = posix.fs_delete_cases [OF a(1,2) de len]
  have n0: "posix.mdir L m name \<noteq> Some 0"
    using posix.fsokD(7) [OF a(1)] a(4) nm unfolding names_ok_def by blast
  show ?thesis
  proof (cases "posix.mdir L m name")
    case None
    note k = c(1) [OF None]
    have "alookup_errno (posix.mview L m) name = Some ENOENT" using None False unfolding alookup_view by (simp add: alookup_errno_def)
    from a_delete_failed [OF this] show ?thesis using k a(3,4) by (simp add: fs_live_def)
  next
    case (Some n)
    then have "n \<noteq> 0" using n0 by blast
    note k = c(3) [OF Some this]
    have "alookup_errno (posix.mview L m) name = None" using Some False unfolding alookup_view by (simp add: alookup_errno_def)
    from a_delete [OF this] show ?thesis using k a(3,4) nm by (auto simp: fs_live_def)
  qed
qed

text \<open>Opening by name: a handle that is up to date, or the error of the lookup; nothing changes.\<close>

lemma fs_open_live:
  assumes live: "fs_live L m" and op: "nebula_fs_open m name NEBULA_O_RDWR = (r, m1)"
  shows "fs_live L m1" and "posix.mdisk m1 = posix.mdisk m" and "r = Inl e \<Longrightarrow> alookup_errno (posix.mview L m) name = Some e"
    and "r = Inr f \<Longrightarrow> \<exists>n. posix.mdir L m1 name = Some n \<and> handle_for (posix.mdisk m1) L n f \<and> f_flags f = NEBULA_O_RDWR"
proof (atomize (full), goal_cases)
  case 1
  note a = fs_liveD [OF live]
  show ?case
  proof (cases "NEBULA_DIR_NAME_MAX \<le> length name")
    case True
    then show ?thesis using long_name(1) [OF True, of m NEBULA_O_RDWR] long_name(3) [OF True] op live by auto
  next
    case False
    then have len: "length name < NEBULA_DIR_NAME_MAX" by simp
    note c = posix.fs_open_cases [OF a(1,2) op len rdwr_flag]
    show ?thesis
    proof (cases "posix.mdir L m name")
      case None
      then show ?thesis using c(1-3) c(5) [OF None] a(3,4) False unfolding alookup_view by (auto simp: fs_live_def alookup_errno_def)
    next
      case (Some n)
      then show ?thesis using c(1-3) c(6) [OF Some] a(3,4) by (auto simp: fs_live_def)
    qed
  qed
qed

lemma fs_write_live:
  assumes live: "fs_live L m" and op: "nebula_fs_open m name NEBULA_O_RDWR = (Inr f, m1)"
    and wr: "nebula_fs_write m1 f off buf t = (r, f', m')" and x: "unat off + length buf < 2 ^ 63"
  shows "fs_live L m' \<and> afs_step (dir_slots_total L) (posix.mview L m) (Ev_write name off buf r) (posix.mview L m')"
proof -
  note o = fs_open_live [OF live op]
  obtain n where n: "posix.mdir L m1 name = Some n" "handle_for (posix.mdisk m1) L n f" "f_flags f = NEBULA_O_RDWR" using o(4) by blast
  have fl: "f_flags f AND NEBULA_O_WRONLY \<noteq> 0" using n(3) rdwr_flags(1) by simp
  note a = fs_liveD [OF o(1)]
  show ?thesis
  proof (cases "buf = []")
    case True
    then have "r = Inr 0" "m' = m1" using wr fl by (auto simp: nebula_fs_write_def nebula_file_write_def)
    moreover obtain p where "posix.mview L m name = Some p" using n(1) o(2) by (auto simp: fs_view_def)
    ultimately show ?thesis using a_write_nothing True o(1,2) by simp
  next
    case False
    note w = posix.fs_write_cases [OF a(1-3) n(1,2) fl False x wr]
    have upd: "posix.mview L m' = (posix.mview L m)(name := posix.mview L m' name)"
      using w(5) o(2) by (intro fun_upd_other) simp
    have "afs_step (dir_slots_total L) (posix.mview L m) (Ev_write name off buf r) (posix.mview L m')"
    proof (cases "r = Inr (length buf)")
      case True
      then obtain p q where pq: "posix.mview L m' name = Some q" "posix.mview L m name = Some p" "afile_write (unat off) buf p q"
        using w(6) o(2) by auto
      from a_write [where v = "posix.mview L m", OF pq(2) False pq(3)] show ?thesis using upd pq(1) True by simp
    next
      case cut: False
      then obtain k p where k: "k < length buf" "r = Inr k \<or> k = 0 \<and> r = Inl ENOSPC" "posix.mview L m name = Some p"
        "posix.mview L m' name = Some (afile_short (unat off) (take k buf) p)"
        using w(8) o(2) by auto
      from a_write_short [where v = "posix.mview L m", OF k(3,1,2)] show ?thesis using upd k(4) by simp
    qed
    then show ?thesis using w(1,2,3) a(3,4) by (simp add: fs_live_def)
  qed
qed

lemma fs_read_live:
  assumes live: "fs_live L m" and op: "nebula_fs_open m name NEBULA_O_RDWR = (Inr f, m1)"
    and rd: "nebula_fs_read m1 f off len t = (r, f', m')" and x: "unat off + unat len < 2 ^ 64"
  shows "fs_live L m' \<and> afs_step (dir_slots_total L) (posix.mview L m) (Ev_read name off len r) (posix.mview L m')"
proof -
  note o = fs_open_live [OF live op]
  obtain n where n: "posix.mdir L m1 name = Some n" "handle_for (posix.mdisk m1) L n f" "f_flags f = NEBULA_O_RDWR" using o(4) by blast
  have fl: "f_flags f AND NEBULA_O_RDONLY \<noteq> 0" using n(3) rdwr_flags(2) by simp
  note a = fs_liveD [OF o(1)]
  note w = posix.fs_read_cases [OF a(1,2) n(1,2) fl x rd]
  obtain p where p: "posix.mview L m name = Some p" "r = Inr (afile_read (unat off) (unat len) p)" using w(5) o(2) by auto
  from a_read [where v = "posix.mview L m", OF p(1)] show ?thesis using w(1,2,3) a(3,4) o(2) p(2) by (simp add: fs_live_def)
qed

lemma fs_step_live:
  assumes "fs_step m ev m'" and "fs_live L m"
  shows "fs_live L m' \<and> afs_step (dir_slots_total L) (posix.mview L m) ev (posix.mview L m')"
  using assms(1)
proof (cases rule: fs_step.cases)
  case (st_create name mode t r)
  then show ?thesis using fs_create_live [OF assms(2)] by blast
next
  case (st_delete name r)
  then show ?thesis using fs_delete_live [OF assms(2)] by blast
next
  case (st_write name f m1 off buf t r f')
  then show ?thesis using fs_write_live [OF assms(2)] by blast
next
  case (st_write_closed name e off buf)
  note o = fs_open_live [OF assms(2) st_write_closed(2)]
  show ?thesis using o(1,2) a_write_failed [OF o(3) [OF refl]] st_write_closed(1) by simp
next
  case (st_read name f m1 off len t r f')
  then show ?thesis using fs_read_live [OF assms(2)] by blast
next
  case (st_read_closed name e off len)
  note o = fs_open_live [OF assms(2) st_read_closed(2)]
  show ?thesis using o(1,2) a_read_failed [OF o(3) [OF refl]] st_read_closed(1) by simp
qed

section \<open>Properties\<close>

text \<open>
  Property C1.  Along every sequence of creations, deletions, writes and reads on a device without
  faults, from a state that satisfies it, the invariant of the file system holds (bitmap, inode table
  and directory agree, no block belongs to two files or to a file and the free space), and the calls
  with what they returned are a run of the abstract file system on the map from names to files: a read
  returns the bytes the map holds, a write puts its bytes there, and every error is the one the map
  gives.
\<close>

theorem fs_run_refines:
  assumes "fs_run m evs m'" and "fs_live L m"
  shows "fs_live L m' \<and> afs_run (dir_slots_total L) (fs_view (posix_blk (io_dev (m_io m))) L) evs (fs_view (posix_blk (io_dev (m_io m'))) L)"
  using assms
proof (induction rule: fs_run.induct)
  case (fs_nil m)
  then show ?case using afs_nil by blast
next
  case (fs_snoc m evs m1 ev m')
  then have "fs_live L m1" "afs_run (dir_slots_total L) (posix.mview L m) evs (posix.mview L m1)" by auto
  then show ?case using fs_step_live [OF fs_snoc.hyps(2)] by (blast intro: afs_snoc)
qed

lemma fs_create_inode:
  assumes "fs_ok posix_ops posix_inv posix_blk L m" and "nebula_fs_create m name mode t = (Inr f, m')"
  shows "\<exists>x. f_inode f = inode_new x NEBULA_INODE_TYPE_FILE mode t \<and> unat x < inode_count L
    \<and> inode_at (posix.mdisk m') L (unat x) = f_inode f"
proof -
  note o = posix.fsokD [OF assms(1)]
  obtain q m1 where fc: "nebula_file_create m mode t = (q, m1)" by (rule prod.exhaust)
  have q: "q = Inr f" using assms(2) fc by (auto simp: nebula_fs_create_def split: sum.splits prod.splits)
  note c = posix.file_create_cases [OF o(1) fc]
  obtain x where x: "unat x < inode_count L" "f_inode f = inode_new x NEBULA_INODE_TYPE_FILE mode t"
    "posix.mdisk m1 = (posix.mdisk m)(inode_addr L (unat x) := enc_ino (inode_new x NEBULA_INODE_TYPE_FILE mode t))"
    using c(5) [OF q] by auto
  have out: "outside_dir L (inode_addr L (unat x))" by (rule regions(1) [OF o(1) x(1)])
  have "posix.mdisk m1 a = posix.mdisk m a" if "\<not> outside_dir L a" for a using that x(3) out by auto
  from dir_same(2) [OF o(1) this] have wf: "dir_wf (posix.mdisk m1) L" using o(4) by simp
  obtain q2 where da: "nebula_dir_add m1 name x NEBULA_DIR_FLAG_FILE = (q2, m')"
    using assms(2) fc q x(2) by (auto simp: nebula_fs_create_def split: sum.splits prod.splits)
  have "posix.mdisk m' (inode_addr L (unat x)) = enc_ino (inode_new x NEBULA_INODE_TYPE_FILE mode t)"
    using posix.dir_add_cases(4) [OF posix.mount_next_inv [OF c(1)] wf da out] x(3) by simp
  then show ?thesis using x(1,2) inode_new_wf by (intro exI [of _ x]) (simp add: inode_at_def ino.dec_enc)
qed

lemma fs_open_inode:
  assumes ok: "fs_ok posix_ops posix_inv posix_blk L m" and op: "nebula_fs_open m name fl = (Inr f, m')"
  shows "\<exists>n. posix.mdir L m name = Some n \<and> f_inode f = inode_at (posix.mdisk m) L (unat n) \<and> m_bitmap m' = m_bitmap m"
proof -
  note o = posix.fsokD [OF ok]
  obtain q m1 where lk: "nebula_dir_lookup m name = (q, m1)" by (rule prod.exhaust)
  note c = posix.dir_lookup_cases [OF o(1,4) lk]
  obtain n where n: "q = Inr n" "nebula_file_open m1 n fl = (Inr f, m')"
    using op lk by (cases q) (auto simp: nebula_fs_open_def)
  note g = posix.file_open_cases [OF posix.mount_next_inv [OF c(1)] n(2)]
  show ?thesis using c(2,3) c(4) [OF n(1)] g(2) g(4) [OF refl] by auto
qed

text \<open>A freshly formatted and mounted device of 256 MiB.\<close>

lemma sample_fs:
  obtains L m where "fs_live L m" and "posix.mview L m = [[0x2F] \<mapsto> (0, \<lambda>_. None)]" and "posix.mdir L m = [[0x2F] \<mapsto> 0]"
    and "\<exists>k. 1 \<le> k \<and> k < inode_count L \<and> ino_type (inode_at (posix.mdisk m) L k) = NEBULA_INODE_TYPE_FREE"
    and "1 < dir_slots_total L" and "hbm_free (m_bitmap m) \<noteq> {}"
proof -
  obtain L io' m where f: "lay_capacity_blocks L = 65536" "posix.mup m" "posix.fsok L m"
    "posix.mview L m = [[0x2F] \<mapsto> (0, \<lambda>_. None)]" "posix.mdir L m = [[0x2F] \<mapsto> 0]"
    "\<forall>k. 0 < k \<and> k < inode_count L \<longrightarrow> ino_type (inode_at (posix.mdisk m) L k) = NEBULA_INODE_TYPE_FREE"
    "hbm_free (m_bitmap m) = {unat (lay_data_start_lba L)..<unat (lay_alloc_roots_tail_lba L)}" "layout_tiles L"
    using posix.format_device_mounts [of "sample_io 65536" NEBULA_INODE_SIZE_DEFAULT "zeros 16" 0 0] sample_io_ok [of 65536]
    by (auto simp: sample_io_def)
  have t: "1 < inode_count L" "unat (lay_data_start_lba L) < unat (lay_alloc_roots_tail_lba L)" "8192 \<le> unat (lay_dir_page_block_count L)"
    using f(8) unfolding layout_tiles_def by linarith+
  show ?thesis
  proof (rule that)
    show "fs_live L m" using f by (simp add: fs_live_def addressable_def)
    show "posix.mview L m = [[0x2F] \<mapsto> (0, \<lambda>_. None)]" "posix.mdir L m = [[0x2F] \<mapsto> 0]" by (fact f)+
    show "\<exists>k. 1 \<le> k \<and> k < inode_count L \<and> ino_type (inode_at (posix.mdisk m) L k) = NEBULA_INODE_TYPE_FREE"
      using f(6) t(1) by (intro exI [of _ 1]) simp
    show "1 < dir_slots_total L" "hbm_free (m_bitmap m) \<noteq> {}" using t f(7) by (simp_all add: dir_slots_total_def)
  qed
qed

text \<open>The same device with an empty file \<open>a\<close>, and its handle.\<close>

lemma sample_fs_file:
  obtains L m f where "fs_live L m" and "posix.mview L m = [[0x2F] \<mapsto> (0, \<lambda>_. None), [97] \<mapsto> (0, \<lambda>_. None)]"
    and "posix.mdir L m = [[0x2F] \<mapsto> 0, [97] \<mapsto> ino_inode_num (f_inode f)]"
    and "handle_for (posix.mdisk m) L (ino_inode_num (f_inode f)) f" and "f_flags f = NEBULA_O_RDWR"
    and "ino_inode_num (f_inode f) \<noteq> 0" and "hbm_free (m_bitmap m) \<noteq> {}"
    and "f_inode f = inode_new (ino_inode_num (f_inode f)) NEBULA_INODE_TYPE_FILE 0x1A4 0"
    and "unat (ino_inode_num (f_inode f)) < inode_count L"
    and "inode_at (posix.mdisk m) L (unat (ino_inode_num (f_inode f))) = f_inode f"
proof -
  obtain L m0 where s: "fs_live L m0" "posix.mview L m0 = [[0x2F] \<mapsto> (0, \<lambda>_. None)]" "posix.mdir L m0 = [[0x2F] \<mapsto> 0]"
    "\<exists>k. 1 \<le> k \<and> k < inode_count L \<and> ino_type (inode_at (posix.mdisk m0) L k) = NEBULA_INODE_TYPE_FREE"
    "1 < dir_slots_total L" "hbm_free (m_bitmap m0) \<noteq> {}" by (rule sample_fs)
  have a: "posix.fsok L m0" "posix.mup m0" using s(1) by (auto simp: fs_live_def)
  obtain r m where cr: "nebula_fs_create m0 [97] 0x1A4 0 = (r, m)" by (rule prod.exhaust)
  note c = posix.fs_create_cases [OF a cr]
  obtain f where r: "r = Inr f" using c(6) [OF _ _ s(4)] s(3,5) by auto
  obtain x where x: "f_inode f = inode_new x NEBULA_INODE_TYPE_FILE 0x1A4 0" "unat x < inode_count L"
    "inode_at (posix.mdisk m) L (unat x) = f_inode f" using fs_create_inode [OF a(1)] cr r by blast
  show ?thesis
    by (rule that [OF fs_create_live(1) [OF s(1) cr]]) (use c(3) c(5) [OF r] s x in auto)
qed

text \<open>Writing three bytes into the empty file, and reading ten bytes over them.\<close>

theorem fs_run_refines_witness:
  "\<exists>L m m'. fs_run m [Ev_write [97] 0 [1, 2, 3] (Inr 3), Ev_read [97] 1 10 (Inr [2, 3])] m' \<and> fs_live L m'
     \<and> afs_run (dir_slots_total L) (fs_view (posix.mdisk m) L) [Ev_write [97] 0 [1, 2, 3] (Inr 3), Ev_read [97] 1 10 (Inr [2, 3])]
          (fs_view (posix.mdisk m') L)"
proof -
  obtain L m and f :: nebula_file where s: "fs_live L m" "posix.mview L m = [[0x2F] \<mapsto> (0, \<lambda>_. None), [97] \<mapsto> (0, \<lambda>_. None)]"
    "posix.mdir L m = [[0x2F] \<mapsto> 0, [97] \<mapsto> ino_inode_num (f_inode f)]" "hbm_free (m_bitmap m) \<noteq> {}"
    "f_inode f = inode_new (ino_inode_num (f_inode f)) NEBULA_INODE_TYPE_FILE 0x1A4 0" "unat (ino_inode_num (f_inode f)) < inode_count L"
    "inode_at (posix.mdisk m) L (unat (ino_inode_num (f_inode f))) = f_inode f"
    by (rule sample_fs_file)
  obtain q m1 where op: "nebula_fs_open m [97] NEBULA_O_RDWR = (q, m1)" by (rule prod.exhaust)
  note o = fs_open_live [OF s(1) op]
  obtain f1 where q: "q = Inr f1" using o(3) s(2) by (cases q) (auto simp: alookup_errno_def)
  have fl: "f_flags f1 AND NEBULA_O_WRONLY \<noteq> 0" using o(4) [OF q] rdwr_flags(1) by auto
  have i1: "f_inode f1 = inode_new (ino_inode_num (f_inode f)) NEBULA_INODE_TYPE_FILE 0x1A4 0" "hbm_free (m_bitmap m1) \<noteq> {}"
    using fs_open_inode [OF fs_liveD(1) [OF s(1)] op [unfolded q]] s(3,4,5,7) by auto
  note a1 = fs_liveD [OF o(1)]
  obtain r f2 m2 where w: "nebula_fs_write m1 f1 0 [1, 2, 3] 0 = (r, f2, m2)" by (rule prod_cases3)
  have r: "r = Inr 3"
    using posix.file_write_new_block [OF posix.fsokD(1) [OF a1(1)] a1(2) posix.fsokD(3) [OF a1(1)] a1(3) i1(1) s(6) fl _ _ _ i1(2)
        w [unfolded nebula_fs_write_def]] by simp
  have W: "fs_step m (Ev_write [97] 0 [1, 2, 3] (Inr 3)) m2" using fs_step.st_write [OF op [unfolded q] w] r by simp
  have l2: "fs_live L m2" "afs_step (dir_slots_total L) (posix.mview L m) (Ev_write [97] 0 [1, 2, 3] (Inr 3)) (posix.mview L m2)"
    using fs_step_live [OF W s(1)] by auto
  obtain p where p: "posix.mview L m2 [97] = Some p" "afile_write 0 [1, 2, 3] (0, \<lambda>_. None) p"
    using l2(2) s(2) by (auto elim!: afs_writtenE)
  obtain q3 m3 where op3: "nebula_fs_open m2 [97] NEBULA_O_RDWR = (q3, m3)" by (rule prod.exhaust)
  obtain f3 where q3: "q3 = Inr f3" using fs_open_live(3) [OF l2(1) op3] p(1) by (cases q3) (auto simp: alookup_errno_def)
  obtain r4 f4 m4 where rd: "nebula_fs_read m3 f3 1 10 0 = (r4, f4, m4)" by (rule prod_cases3)
  have R: "fs_step m2 (Ev_read [97] 1 10 r4) m4" by (rule fs_step.st_read [OF op3 [unfolded q3] rd]) simp
  have "r4 = Inr (afile_read 1 10 p)"
    using fs_step_live [OF R l2(1)] p(1) by (auto elim!: afs_readE afs_step.cases simp: alookup_errno_def)
  also have "afile_read 1 10 p = [2, 3]"
  proof -
    have "fst p = 3" "\<And>k. k < 3 \<Longrightarrow> snd p k = Some ([1, 2, 3] ! k)" using p(2) by (simp_all add: afile_write_def)
    then show ?thesis by (simp add: afile_read_def upt_rec [of _ 3])
  qed
  finally have run: "fs_run m ([] @ [Ev_write [97] 0 [1, 2, 3] (Inr 3)] @ [Ev_read [97] 1 10 (Inr [2, 3])]) m4"
    using fs_snoc [OF fs_snoc [OF fs_nil W]] R by simp
  show ?thesis using fs_run_refines [OF run s(1)] run by (intro exI [of _ L] exI [of _ m] exI [of _ m4]) simp
qed

text \<open>
  Property C9.  Creating a file.  On a device without faults a creation keeps the invariant and consumes no
  data block, and its outcome is determined: \<open>ENOSPC\<close> when no inode is free, else \<open>EINVAL\<close> for the empty
  name, else \<open>ENAMETOOLONG\<close> for a name of 1000 bytes or more, else \<open>EEXIST\<close> when the name is bound, else \<open>ENOSPC\<close>
  when the directory is full, and success otherwise.  Success adds the name bound to an empty file; a
  failure leaves the map as it was.
\<close>

theorem fs_create_refines:
  assumes "fs_ok posix_ops posix_inv posix_blk L m" and "posix_healthy (io_dev (m_io m))"
    and "nebula_fs_create m name mode t = (r, m')"
  defines "v \<equiv> fs_view (posix.mdisk m) L" and "v' \<equiv> fs_view (posix.mdisk m') L"
    and "inode_left \<equiv> \<exists>k. 1 \<le> k \<and> k < inode_count L \<and> ino_type (inode_at (posix.mdisk m) L k) = NEBULA_INODE_TYPE_FREE"
  shows "fs_ok posix_ops posix_inv posix_blk L m' \<and> hbm_free (m_bitmap m') = hbm_free (m_bitmap m)
    \<and> v' = (case r of Inr f \<Rightarrow> v(name \<mapsto> (0, \<lambda>_. None)) | Inl _ \<Rightarrow> v)
    \<and> (case r of Inl e \<Rightarrow> Some e | Inr _ \<Rightarrow> None) =
        (if \<not> inode_left then Some ENOSPC else if name = [] then Some EINVAL
         else if NEBULA_DIR_NAME_MAX \<le> length name then Some ENAMETOOLONG
         else if v name \<noteq> None then Some EEXIST else if card (dom v) = dir_slots_total L then Some ENOSPC else None)"
proof -
  note c = posix.fs_create_cases [OF assms(1-3)]
  have "v' = (case r of Inr f \<Rightarrow> v(name \<mapsto> (0, \<lambda>_. None)) | Inl _ \<Rightarrow> v)"
    using c(4,5) by (auto simp: v_def v'_def split: sum.splits)
  moreover have "res_errno r = acreate_errno inode_left (dir_slots_total L) v name"
    unfolding v_def inode_left_def acreate_view by (rule posix.fs_create_errno [OF assms(1-3)])
  ultimately show ?thesis using c(1,3) unfolding acreate_errno_def res_errno_def by blast
qed

theorem fs_create_refines_witness:
  "\<exists>L m f m' m''. nebula_fs_create m [97] 0x1A4 0 = (Inr f, m') \<and> nebula_fs_create m [0x2F] 0x1A4 0 = (Inl EEXIST, m'')
     \<and> fs_view (posix.mdisk m') L = (fs_view (posix.mdisk m) L)([97] \<mapsto> (0, \<lambda>_. None))"
proof -
  obtain L m0 where s: "fs_live L m0" "posix.mview L m0 = [[0x2F] \<mapsto> (0, \<lambda>_. None)]" "posix.mdir L m0 = [[0x2F] \<mapsto> 0]"
    "\<exists>k. 1 \<le> k \<and> k < inode_count L \<and> ino_type (inode_at (posix.mdisk m0) L k) = NEBULA_INODE_TYPE_FREE"
    "1 < dir_slots_total L" by (rule sample_fs)
  have a: "posix.fsok L m0" "posix.mup m0" using s(1) by (auto simp: fs_live_def)
  obtain r m where cr: "nebula_fs_create m0 [97] 0x1A4 0 = (r, m)" by (rule prod.exhaust)
  note c = fs_create_refines [OF a cr]
  obtain k where k: "1 \<le> k" "k < inode_count L" "ino_type (inode_at (posix.mdisk m0) L k) = NEBULA_INODE_TYPE_FREE" using s(4) by blast
  obtain f where r: "r = Inr f" using c s(2,5) k by (cases r) (auto split: if_splits)
  obtain r2 m2 where cr2: "nebula_fs_create m0 [0x2F] 0x1A4 0 = (r2, m2)" by (rule prod.exhaust)
  have "r2 = Inl EEXIST" using fs_create_refines [OF a cr2] s(2) k by (cases r2) (auto split: if_splits)
  then show ?thesis using c cr cr2 r by (intro exI [of _ L] exI [of _ m0] exI [of _ f] exI [of _ m] exI [of _ m2]) simp
qed

text \<open>
  Property C10.  Deleting a file.  On a device without faults, deleting a name bound to an inode other than
  the root's succeeds, keeps the invariant, removes exactly that name from the map, and makes
  exactly the blocks of the file free; an unknown name is refused with \<open>ENOENT\<close> and nothing on the
  device changes.
\<close>

theorem fs_delete_refines:
  assumes "fs_ok posix_ops posix_inv posix_blk L m" and "posix_healthy (io_dev (m_io m))"
    and "nebula_fs_delete m name = (r, m')" and "length name < NEBULA_DIR_NAME_MAX"
    and "dir_map (posix.mdisk m) L name \<noteq> Some 0"
  defines "v \<equiv> fs_view (posix.mdisk m) L" and "v' \<equiv> fs_view (posix.mdisk m') L"
  shows "fs_ok posix_ops posix_inv posix_blk L m' \<and> v' = v(name := None)
    \<and> r = (if v name = None then Inl ENOENT else Inr ())
    \<and> (\<forall>n. dir_map (posix.mdisk m) L name = Some n \<longrightarrow>
         hbm_free (m_bitmap m') = hbm_free (m_bitmap m) \<union> set (file_list (inode_at (posix.mdisk m) L (unat n))))
    \<and> (v name = None \<longrightarrow> posix.mdisk m' = posix.mdisk m)"
proof -
  note c = posix.fs_delete_cases [OF assms(1-4)]
  show ?thesis
  proof (cases "posix.mdir L m name")
    case None
    then have "v name = None" by (simp add: v_def fs_view_def)
    then have "v(name := None) = v" by (simp add: fun_upd_idem)
    then show ?thesis using c(1) [OF None] None \<open>v name = None\<close> by (simp add: v_def v'_def)
  next
    case (Some n)
    then have "n \<noteq> 0" using assms(5) by blast
    note k = c(3) [OF Some this]
    have "v name \<noteq> None" using Some by (simp add: v_def fs_view_def)
    then show ?thesis using k Some unfolding v_def v'_def by auto
  qed
qed

theorem fs_delete_refines_witness:
  "\<exists>L m m'. nebula_fs_delete m [97] = (Inr (), m') \<and> [97] \<in> dom (fs_view (posix.mdisk m) L)
     \<and> fs_view (posix.mdisk m') L = [[0x2F] \<mapsto> (0, \<lambda>_. None)]"
proof -
  obtain L m and f :: nebula_file where s: "fs_live L m" "posix.mview L m = [[0x2F] \<mapsto> (0, \<lambda>_. None), [97] \<mapsto> (0, \<lambda>_. None)]"
    "posix.mdir L m = [[0x2F] \<mapsto> 0, [97] \<mapsto> ino_inode_num (f_inode f)]" "ino_inode_num (f_inode f) \<noteq> 0"
    by (rule sample_fs_file)
  have a: "posix.fsok L m" "posix.mup m" using s(1) by (auto simp: fs_live_def)
  obtain r m' where de: "nebula_fs_delete m [97] = (r, m')" by (rule prod.exhaust)
  have l: "length [97 :: byte] < NEBULA_DIR_NAME_MAX" by simp
  have n0: "dir_map (posix.mdisk m) L [97] \<noteq> Some 0" using s(3,4) by simp
  have "r = Inr ()" "posix.mview L m' = (posix.mview L m)([97] := None)"
    using fs_delete_refines [OF a de l n0] s(2) by auto
  then show ?thesis using de s(2) by (intro exI [of _ L] exI [of _ m] exI [of _ m']) (simp add: fun_upd_twist)
qed

text \<open>
  The root directory cannot be deleted, but the attempt is not free of effect: it is refused
  with \<open>EINVAL\<close> after its name has already been removed from the directory.
\<close>

theorem fs_delete_root_removes_name:
  assumes "fs_ok posix_ops posix_inv posix_blk L m" and "posix_healthy (io_dev (m_io m))"
    and "nebula_fs_delete m name = (r, m')" and "length name < NEBULA_DIR_NAME_MAX"
    and "dir_map (posix.mdisk m) L name = Some 0"
  shows "r = Inl EINVAL \<and> dir_map (posix.mdisk m') L = (dir_map (posix.mdisk m) L)(name := None)"
  using posix.fs_delete_cases(2) [OF assms] .

theorem fs_delete_root_removes_name_witness:
  "\<exists>L m m'. nebula_fs_delete m [0x2F] = (Inl EINVAL, m') \<and> dir_map (posix.mdisk m) L [0x2F] = Some 0
     \<and> dir_map (posix.mdisk m') L = Map.empty"
proof -
  obtain L m where s: "fs_live L m" "posix.mdir L m = [[0x2F] \<mapsto> 0]" by (rule sample_fs)
  have a: "posix.fsok L m" "posix.mup m" using s(1) by (auto simp: fs_live_def)
  obtain r m' where de: "nebula_fs_delete m [0x2F] = (r, m')" by (rule prod.exhaust)
  have l: "length [0x2F :: byte] < NEBULA_DIR_NAME_MAX" by simp
  have n0: "dir_map (posix.mdisk m) L [0x2F] = Some 0" using s(2) by simp
  show ?thesis
    using fs_delete_root_removes_name [OF a de l n0] de s(2) by (intro exI [of _ L] exI [of _ m] exI [of _ m']) simp
qed

text \<open>
  Property C7.  Writing to a file.  On a device without faults of at most \<open>2 ^ 32\<close> blocks, a write through
  an up-to-date handle keeps the invariant and leaves every other file as it was.  A complete write
  is the abstract write on the named file, and the handle stays up to date; an incomplete one, for
  want of space, reports fewer bytes (or \<open>ENOSPC\<close>) and leaves the recorded size as it was.
\<close>

theorem fs_write_refines:
  assumes "fs_ok posix_ops posix_inv posix_blk L m" and "posix_healthy (io_dev (m_io m))" and "addressable L"
    and "dir_map (posix.mdisk m) L name = Some n" and "handle_for (posix.mdisk m) L n f"
    and "f_flags f AND NEBULA_O_WRONLY \<noteq> 0" and "buf \<noteq> []" and "unat off + length buf < 2 ^ 63"
    and "nebula_fs_write m f off buf t = (r, f', m')"
  defines "v \<equiv> fs_view (posix.mdisk m) L" and "v' \<equiv> fs_view (posix.mdisk m') L"
  shows "fs_ok posix_ops posix_inv posix_blk L m' \<and> (\<forall>b. b \<noteq> name \<longrightarrow> v' b = v b)
    \<and> (if r = Inr (length buf)
       then handle_for (posix.mdisk m') L n f' \<and> (\<exists>a a'. v name = Some a \<and> v' name = Some a' \<and> afile_write (unat off) buf a a')
       else (r = Inl ENOSPC \<or> (\<exists>k < length buf. r = Inr k)) \<and> map_option fst (v' name) = map_option fst (v name))"
  using posix.fs_write_cases [OF assms(1-9)] unfolding v_def v'_def by simp

theorem fs_write_refines_witness:
  "\<exists>L m f m' f' a. nebula_fs_write m f 5 [1, 2, 3] 0 = (Inr 3, f', m') \<and> fs_ok posix_ops posix_inv posix_blk L m'
     \<and> fs_view (posix.mdisk m') L [97] = Some a \<and> fst a = 8 \<and> snd a 6 = Some 2"
proof -
  obtain L m and f :: nebula_file where s: "fs_live L m" "posix.mview L m = [[0x2F] \<mapsto> (0, \<lambda>_. None), [97] \<mapsto> (0, \<lambda>_. None)]"
    "posix.mdir L m = [[0x2F] \<mapsto> 0, [97] \<mapsto> ino_inode_num (f_inode f)]"
    "handle_for (posix.mdisk m) L (ino_inode_num (f_inode f)) f" "f_flags f = NEBULA_O_RDWR"
    "hbm_free (m_bitmap m) \<noteq> {}" "f_inode f = inode_new (ino_inode_num (f_inode f)) NEBULA_INODE_TYPE_FILE 0x1A4 0"
    "unat (ino_inode_num (f_inode f)) < inode_count L"
    by (rule sample_fs_file)
  have a: "posix.fsok L m" "posix.mup m" "addressable L" using s(1) by (auto simp: fs_live_def)
  obtain r f' m' where w: "nebula_fs_write m f 5 [1, 2, 3] 0 = (r, f', m')" by (rule prod_cases3)
  have fl: "f_flags f AND NEBULA_O_WRONLY \<noteq> 0" using s(5) rdwr_flags(1) by simp
  note o = posix.fsokD [OF a(1)]
  have i: "f_inode f = inode_new (ino_inode_num (f_inode f)) NEBULA_INODE_TYPE_FILE 0x1A4 0" "unat (ino_inode_num (f_inode f)) < inode_count L"
    by (fact s(7,8))+
  have r: "r = Inr 3"
    using posix.file_write_new_block [OF o(1) a(2) o(3) a(3) i fl _ _ _ s(6) w [unfolded nebula_fs_write_def]] by simp
  have nm: "dir_map (posix.mdisk m) L [97] = Some (ino_inode_num (f_inode f))" using s(3) by simp
  obtain q where q: "posix.fsok L m'" "posix.mview L m' [97] = Some q" "afile_write 5 [1, 2, 3] (0, \<lambda>_. None) q"
    using fs_write_refines [OF a nm s(4) fl _ _ w] r s(2) by auto
  then have "fst q = 8" "snd q 6 = Some 2" by (simp_all add: afile_write_def)
  then show ?thesis using w r q by blast
qed

text \<open>
  Property C8.  Reading a file.  On a device without faults a read through an up-to-date handle returns the
  bytes of the named file in the map, zeros where it has none, cut at its size, and changes nothing
  on the device.
\<close>

theorem fs_read_refines:
  assumes "fs_ok posix_ops posix_inv posix_blk L m" and "posix_healthy (io_dev (m_io m))"
    and "dir_map (posix.mdisk m) L name = Some n" and "handle_for (posix.mdisk m) L n f"
    and "f_flags f AND NEBULA_O_RDONLY \<noteq> 0" and "unat off + unat len < 2 ^ 64"
    and "nebula_fs_read m f off len t = (r, f', m')"
  shows "(\<exists>a. fs_view (posix.mdisk m) L name = Some a \<and> r = Inr (afile_read (unat off) (unat len) a))
    \<and> fs_ok posix_ops posix_inv posix_blk L m' \<and> posix.mdisk m' = posix.mdisk m"
  using posix.fs_read_cases [OF assms] by blast

theorem fs_read_refines_witness:
  "\<exists>L m f m' f'. fs_view (posix.mdisk m) L [97] = Some (0, \<lambda>_. None) \<and> nebula_fs_read m f 0 9 7 = (Inr [], f', m')"
proof -
  obtain L m and f :: nebula_file where s: "fs_live L m" "posix.mview L m = [[0x2F] \<mapsto> (0, \<lambda>_. None), [97] \<mapsto> (0, \<lambda>_. None)]"
    "posix.mdir L m = [[0x2F] \<mapsto> 0, [97] \<mapsto> ino_inode_num (f_inode f)]"
    "handle_for (posix.mdisk m) L (ino_inode_num (f_inode f)) f" "f_flags f = NEBULA_O_RDWR"
    by (rule sample_fs_file)
  have a: "posix.fsok L m" "posix.mup m" using s(1) by (auto simp: fs_live_def)
  obtain r f' m' where w: "nebula_fs_read m f 0 9 7 = (r, f', m')" by (rule prod_cases3)
  have fl: "f_flags f AND NEBULA_O_RDONLY \<noteq> 0" using s(5) rdwr_flags(2) by simp
  have nm: "dir_map (posix.mdisk m) L [97] = Some (ino_inode_num (f_inode f))" using s(3) by simp
  have "r = Inr []" using fs_read_refines [OF a nm s(4) fl _ w] s(2) by (simp add: afile_read_def)
  then show ?thesis using w s(2) by (intro exI [of _ L] exI [of _ m] exI [of _ f] exI [of _ m'] exI [of _ f']) simp
qed

end
