(* ===== verification/Nebula_Fsck.thy ===== *)
theory Nebula_Fsck
  imports Nebula_Mkfs
begin

unbundle bit_operations_syntax

text \<open>
  \<open>tools/nebula_fsck.c\<close>: the six checks with the error and warning counters, the exit status, and an
  exact description of the devices it calls clean, and of the blocks that it never looks at.  The values that the checks only print (latest slot,
  sums of free blocks) are left out.
\<close>

section \<open>The code\<close>

record fsck_state =
  fk_errs :: nat
  fk_warns :: nat

definition fsck_FAIL :: "fsck_state \<Rightarrow> fsck_state" where
  "fsck_FAIL s = s\<lparr>fk_errs := fk_errs s + 1\<rparr>"

definition fsck_WARN :: "fsck_state \<Rightarrow> fsck_state" where
  "fsck_WARN s = s\<lparr>fk_warns := fk_warns s + 1\<rparr>"

definition check_mbr :: "'d nebula_io \<Rightarrow> fsck_state \<Rightarrow> nebula_mbr res \<times> fsck_state \<times> 'd nebula_io" where
  "check_mbr io s =
     (case nebula_mbr_read io of
        (Inl e, io1) \<Rightarrow> (Inl e, fsck_FAIL s, io1)
      | (Inr mbr, io1) \<Rightarrow>
          (Inr mbr,
           if mbr_device_capacity_blocks mbr \<noteq> nebula_io_capacity_blocks io1 then fsck_WARN s else s,
           io1))"

text \<open>The comparison of the two copies, and of the head with the MBR.\<close>

definition check_tail :: "nebula_superblock \<Rightarrow> nebula_superblock \<Rightarrow> fsck_state \<Rightarrow> fsck_state" where
  "check_tail head tail s =
     (let s1 = (if sb_device_uuid head \<noteq> sb_device_uuid tail then fsck_FAIL s else s) in
      if sb_uberblock_lba head \<noteq> sb_uberblock_lba tail \<or> sb_bitmap_lba head \<noteq> sb_bitmap_lba tail
      then fsck_FAIL s1 else s1)"

definition check_superblocks ::
    "'d nebula_io \<Rightarrow> nebula_mbr \<Rightarrow> fsck_state \<Rightarrow> nebula_superblock res \<times> fsck_state \<times> 'd nebula_io" where
  "check_superblocks io mbr s =
     (case nebula_superblock_read io (mbr_superblock_head_lba mbr) of
        (Inl e, io1) \<Rightarrow> (Inl e, fsck_FAIL s, io1)
      | (Inr head, io1) \<Rightarrow>
          (case nebula_superblock_read io1 (sb_sb_tail_lba head) of
             (r, io2) \<Rightarrow>
               let s1 = (case r of Inl _ \<Rightarrow> fsck_WARN s | Inr tail \<Rightarrow> check_tail head tail s);
                   s2 = (if sb_device_uuid head \<noteq> mbr_device_uuid mbr then fsck_FAIL s1 else s1)
               in (Inr head, s2, io2)))"

fun check_slots ::
    "nebula_superblock \<Rightarrow> u32 list \<Rightarrow> nat \<Rightarrow> fsck_state \<Rightarrow> 'd nebula_io \<Rightarrow> nat \<times> fsck_state \<times> 'd nebula_io" where
  "check_slots sb [] valid s io = (valid, s, io)"
| "check_slots sb (slot # slots) valid s io =
     (case nebula_uberblock_read_slot io (sb_uberblock_lba sb) (ucast (sb_uberblock_count sb)) slot of
        (Inr ub, io1) \<Rightarrow> check_slots sb slots (valid + 1) s io1
      | (Inl e, io1) \<Rightarrow> check_slots sb slots valid (if e = ENOENT then s else fsck_WARN s) io1)"

definition check_uberblocks ::
    "'d nebula_io \<Rightarrow> nebula_superblock \<Rightarrow> fsck_state \<Rightarrow> unit res \<times> fsck_state \<times> 'd nebula_io" where
  "check_uberblocks io sb s =
     (case check_slots sb (map of_nat [0..<unat (sb_uberblock_count sb)]) 0 s io of
        (valid, s1, io1) \<Rightarrow> if valid = 0 then (Inl EIO, fsck_FAIL s1, io1) else (Inr (), s1, io1))"

definition bad_roots :: "nebula_allocator_root list \<Rightarrow> nat" where
  "bad_roots rs = length (filter (\<lambda>r. ar_checksum r \<noteq> nebula_allocator_root_checksum r) rs)"

definition check_alloc_roots ::
    "'d nebula_io \<Rightarrow> nebula_superblock \<Rightarrow> fsck_state \<Rightarrow> unit res \<times> fsck_state \<times> 'd nebula_io" where
  "check_alloc_roots io sb s =
     (case nebula_allocator_roots_read io (sb_alloc_roots_head_lba sb) of
        (rh, io1) \<Rightarrow>
          (case nebula_allocator_roots_read io1 (sb_alloc_roots_tail_lba sb) of
             (rt, io2) \<Rightarrow>
               (case (rh, rt) of
                  (Inr h, Inr t) \<Rightarrow>
                    if bad_roots h + bad_roots t \<noteq> 0 then (Inl EIO, fsck_FAIL s, io2) else (Inr (), s, io2)
                | _ \<Rightarrow> (Inl EIO, fsck_FAIL s, io2))))"

definition check_root_inode ::
    "'d nebula_io \<Rightarrow> nebula_superblock \<Rightarrow> fsck_state \<Rightarrow> unit res \<times> fsck_state \<times> 'd nebula_io" where
  "check_root_inode io sb s =
     (case nebula_io_read io (sb_inode_page_lba sb) 1 of
        (Inl e, io1) \<Rightarrow> (Inl e, fsck_FAIL s, io1)
      | (Inr block, io1) \<Rightarrow>
          (let ino = dec_ino block in
           if ino_checksum ino \<noteq> nebula_inode_checksum ino then (Inl EIO, fsck_FAIL s, io1)
           else if ino_type ino \<noteq> NEBULA_INODE_TYPE_DIR then (Inl EIO, fsck_FAIL s, io1)
           else (Inr (), s, io1)))"

definition check_dir_header ::
    "'d nebula_io \<Rightarrow> nebula_superblock \<Rightarrow> fsck_state \<Rightarrow> unit res \<times> fsck_state \<times> 'd nebula_io" where
  "check_dir_header io sb s =
     (case nebula_io_read io (sb_dir_page_lba sb) 1 of
        (Inl e, io1) \<Rightarrow> (Inl e, fsck_FAIL s, io1)
      | (Inr block, io1) \<Rightarrow>
          (let h = dec_dh block; got = crc32c (enc_dh (h\<lparr>dh_checksum := 0\<rparr>)) in
           if dh_magic h \<noteq> NEBULA_MAGIC_DIR_PAGE then (Inl EIO, fsck_FAIL s, io1)
           else if got \<noteq> dh_checksum h then (Inl EIO, fsck_FAIL s, io1)
           else (Inr (), s, io1)))"

text \<open>\<open>main\<close> after the device is open: the final counters and the device.\<close>

definition fsck_device :: "'d nebula_io \<Rightarrow> fsck_state \<times> 'd nebula_io" where
  "fsck_device io =
     (case check_mbr io \<lparr>fk_errs = 0, fk_warns = 0\<rparr> of
        (Inl _, s1, io1) \<Rightarrow> (s1, io1)
      | (Inr mbr, s1, io1) \<Rightarrow>
          (case check_superblocks io1 mbr s1 of
             (Inl _, s2, io2) \<Rightarrow> (s2, io2)
           | (Inr sb, s2, io2) \<Rightarrow>
               (case check_uberblocks io2 sb s2 of (_, s3, io3) \<Rightarrow>
                (case check_alloc_roots io3 sb s3 of (_, s4, io4) \<Rightarrow>
                 (case check_root_inode io4 sb s4 of (_, s5, io5) \<Rightarrow>
                  (case check_dir_header io5 sb s5 of (_, s6, io6) \<Rightarrow> (s6, io6)))))))"

definition fsck_status :: "fsck_state \<Rightarrow> nat" where
  "fsck_status s = (if fk_errs s \<noteq> 0 then 2 else if fk_warns s \<noteq> 0 then 1 else 0)"

fun fsck_args :: "string list \<Rightarrow> string option \<Rightarrow> nat + string option" where
  "fsck_args [] path = Inr path"
| "fsck_args (a # rest) path =
     (if a = ''--path'' \<and> rest \<noteq> [] then fsck_args (tl rest) (Some (hd rest)) else Inl 3)"

definition nebula_fsck_main ::
    "string list \<Rightarrow> (string \<Rightarrow> posix_dev res) \<Rightarrow> errno option \<Rightarrow> nat" where
  "nebula_fsck_main argv opened stated =
     (case fsck_args argv None of
        Inl status \<Rightarrow> status
      | Inr None \<Rightarrow> 3
      | Inr (Some path) \<Rightarrow>
          (case nebula_io_open (opened path) False 0 None stated of
             Inl _ \<Rightarrow> 2
           | Inr io \<Rightarrow> fsck_status (fst (fsck_device io))))"

section \<open>What a clean device is\<close>

definition mbr_clean :: "u64 \<Rightarrow> (nat \<Rightarrow> byte list) \<Rightarrow> nebula_mbr \<Rightarrow> bool" where
  "mbr_clean cap d mbr \<longleftrightarrow> 0 < unat cap \<and> mbr_validate (d 0) = Inr mbr \<and> mbr_device_capacity_blocks mbr = cap"

definition sb_clean :: "u64 \<Rightarrow> (nat \<Rightarrow> byte list) \<Rightarrow> nebula_mbr \<Rightarrow> nebula_superblock \<Rightarrow> bool" where
  "sb_clean cap d mbr head \<longleftrightarrow>
     mbr_superblock_head_lba mbr < cap \<and> sb_validate (d (unat (mbr_superblock_head_lba mbr))) = Inr head
     \<and> sb_sb_tail_lba head < cap \<and> sb_device_uuid head = mbr_device_uuid mbr
     \<and> (\<exists>tail. sb_validate (d (unat (sb_sb_tail_lba head))) = Inr tail \<and> sb_device_uuid tail = sb_device_uuid head
          \<and> sb_uberblock_lba tail = sb_uberblock_lba head \<and> sb_bitmap_lba tail = sb_bitmap_lba head)"

definition slot_state :: "u64 \<Rightarrow> (nat \<Rightarrow> byte list) \<Rightarrow> nebula_superblock \<Rightarrow> u32 \<Rightarrow> nebula_uberblock res option" where
  "slot_state cap d sb slot =
     (let a = sb_uberblock_lba sb + ucast slot in if a < cap then Some (ub_validate (d (unat a))) else None)"

definition ubs_clean :: "u64 \<Rightarrow> (nat \<Rightarrow> byte list) \<Rightarrow> nebula_superblock \<Rightarrow> bool" where
  "ubs_clean cap d sb \<longleftrightarrow>
     (\<forall>k < unat (sb_uberblock_count sb). \<exists>r. slot_state cap d sb (of_nat k) = Some r \<and> r \<noteq> Inl EIO)
     \<and> (\<exists>k < unat (sb_uberblock_count sb). \<exists>ub. slot_state cap d sb (of_nat k) = Some (Inr ub))"

definition roots_clean :: "u64 \<Rightarrow> (nat \<Rightarrow> byte list) \<Rightarrow> u64 \<Rightarrow> bool" where
  "roots_clean cap d lba \<longleftrightarrow> lba < cap
     \<and> (\<forall>r \<in> set (dec_array dec_ar 64 NEBULA_ALLOC_ROOTS_HEAD (d (unat lba))). ar_checksum r = nebula_allocator_root_checksum r)"

definition root_inode_clean :: "u64 \<Rightarrow> (nat \<Rightarrow> byte list) \<Rightarrow> u64 \<Rightarrow> bool" where
  "root_inode_clean cap d lba \<longleftrightarrow> lba < cap
     \<and> (let ino = dec_ino (d (unat lba)) in ino_checksum ino = nebula_inode_checksum ino \<and> ino_type ino = NEBULA_INODE_TYPE_DIR)"

definition dir_header_clean :: "u64 \<Rightarrow> (nat \<Rightarrow> byte list) \<Rightarrow> u64 \<Rightarrow> bool" where
  "dir_header_clean cap d lba \<longleftrightarrow> lba < cap
     \<and> (let h = dec_dh (d (unat lba)) in dh_magic h = NEBULA_MAGIC_DIR_PAGE \<and> dh_checksum h = crc32c (enc_dh (h\<lparr>dh_checksum := 0\<rparr>)))"

definition fsck_clean :: "u64 \<Rightarrow> (nat \<Rightarrow> byte list) \<Rightarrow> bool" where
  "fsck_clean cap d \<longleftrightarrow> (\<exists>mbr sb. mbr_clean cap d mbr \<and> sb_clean cap d mbr sb \<and> ubs_clean cap d sb
     \<and> roots_clean cap d (sb_alloc_roots_head_lba sb) \<and> roots_clean cap d (sb_alloc_roots_tail_lba sb)
     \<and> root_inode_clean cap d (sb_inode_page_lba sb) \<and> dir_header_clean cap d (sb_dir_page_lba sb))"

text \<open>The blocks that the conditions speak of, as the MBR and the head superblock locate them.\<close>

definition sb_scope :: "nebula_superblock \<Rightarrow> nat set" where
  "sb_scope sb = {unat (sb_sb_tail_lba sb), unat (sb_alloc_roots_head_lba sb), unat (sb_alloc_roots_tail_lba sb),
      unat (sb_inode_page_lba sb), unat (sb_dir_page_lba sb)}
    \<union> {unat (sb_uberblock_lba sb + ucast (of_nat k :: u32)) | k. k < unat (sb_uberblock_count sb)}"

definition fsck_scope :: "(nat \<Rightarrow> byte list) \<Rightarrow> nat set" where
  "fsck_scope d = insert 0 (case mbr_validate (d 0) of
       Inl _ \<Rightarrow> {}
     | Inr mbr \<Rightarrow> insert (unat (mbr_superblock_head_lba mbr))
         (case sb_validate (d (unat (mbr_superblock_head_lba mbr))) of Inl _ \<Rightarrow> {} | Inr sb \<Rightarrow> sb_scope sb))"

lemma fsck_clean_scope:
  assumes same: "\<And>a. a \<in> fsck_scope d \<Longrightarrow> d' a = d a"
  shows "fsck_clean cap d' \<longleftrightarrow> fsck_clean cap d"
proof -
  have z: "d' 0 = d 0" by (rule same) (simp add: fsck_scope_def)
  have inner: "fsck_clean cap d' \<longleftrightarrow> fsck_clean cap d"
    if m: "mbr_validate (d 0) = Inr mbr" and h: "d' (unat (mbr_superblock_head_lba mbr)) = d (unat (mbr_superblock_head_lba mbr))" for mbr
  proof (cases "sb_validate (d (unat (mbr_superblock_head_lba mbr)))")
    case (Inl e)
    then show ?thesis using m z h by (auto simp: fsck_clean_def mbr_clean_def sb_clean_def)
  next
    case (Inr sb)
    have e: "d' a = d a" if "a \<in> sb_scope sb" for a by (rule same) (use that m Inr in \<open>simp add: fsck_scope_def\<close>)
    have p: "d' (unat (sb_sb_tail_lba sb)) = d (unat (sb_sb_tail_lba sb))"
      "d' (unat (sb_alloc_roots_head_lba sb)) = d (unat (sb_alloc_roots_head_lba sb))"
      "d' (unat (sb_alloc_roots_tail_lba sb)) = d (unat (sb_alloc_roots_tail_lba sb))"
      "d' (unat (sb_inode_page_lba sb)) = d (unat (sb_inode_page_lba sb))" "d' (unat (sb_dir_page_lba sb)) = d (unat (sb_dir_page_lba sb))"
      by (rule e; simp add: sb_scope_def)+
    have "slot_state cap d' sb (of_nat k) = slot_state cap d sb (of_nat k)" if "k < unat (sb_uberblock_count sb)" for k
    proof -
      have "d' (unat (sb_uberblock_lba sb + ucast (of_nat k :: u32))) = d (unat (sb_uberblock_lba sb + ucast (of_nat k :: u32)))"
        by (rule e) (use that in \<open>auto simp: sb_scope_def\<close>)
      then show ?thesis by (simp add: slot_state_def Let_def)
    qed
    then have "ubs_clean cap d' sb \<longleftrightarrow> ubs_clean cap d sb" unfolding ubs_clean_def by auto
    moreover have "sb_clean cap d' mbr x \<longleftrightarrow> sb_clean cap d mbr x \<and> x = sb" "sb_clean cap d mbr x \<longrightarrow> x = sb" for x
      using h p(1) Inr by (auto simp: sb_clean_def)
    moreover have "mbr_clean cap d' y \<longleftrightarrow> mbr_clean cap d y \<and> y = mbr" "mbr_clean cap d y \<longrightarrow> y = mbr" for y
      using z m by (auto simp: mbr_clean_def)
    moreover have "roots_clean cap d' (sb_alloc_roots_head_lba sb) \<longleftrightarrow> roots_clean cap d (sb_alloc_roots_head_lba sb)"
      "roots_clean cap d' (sb_alloc_roots_tail_lba sb) \<longleftrightarrow> roots_clean cap d (sb_alloc_roots_tail_lba sb)"
      "root_inode_clean cap d' (sb_inode_page_lba sb) \<longleftrightarrow> root_inode_clean cap d (sb_inode_page_lba sb)"
      "dir_header_clean cap d' (sb_dir_page_lba sb) \<longleftrightarrow> dir_header_clean cap d (sb_dir_page_lba sb)"
      using p by (simp_all add: roots_clean_def root_inode_clean_def dir_header_clean_def)
    ultimately show ?thesis unfolding fsck_clean_def by metis
  qed
  show ?thesis
  proof (cases "mbr_validate (d 0)")
    case (Inl e)
    then show ?thesis using z by (auto simp: fsck_clean_def mbr_clean_def)
  next
    case (Inr mbr)
    have "d' (unat (mbr_superblock_head_lba mbr)) = d (unat (mbr_superblock_head_lba mbr))"
      by (rule same) (simp add: fsck_scope_def Inr)
    then show ?thesis by (rule inner [OF Inr])
  qed
qed

section \<open>The counters\<close>

definition fsck_le :: "fsck_state \<Rightarrow> fsck_state \<Rightarrow> bool" where
  "fsck_le s t \<longleftrightarrow> fk_errs s \<le> fk_errs t \<and> fk_warns s \<le> fk_warns t"

lemma fsck_le_rules [simp]:
  "fsck_le s s" "fsck_le s (fsck_FAIL s)" "fsck_le s (fsck_WARN s)" "fsck_FAIL s \<noteq> s" "fsck_WARN s \<noteq> s"
  by (auto simp: fsck_le_def fsck_FAIL_def fsck_WARN_def dest: arg_cong [where f = fk_errs] arg_cong [where f = fk_warns])

lemma fsck_le_trans: "fsck_le s t \<Longrightarrow> fsck_le t u \<Longrightarrow> fsck_le s u"
  by (auto simp: fsck_le_def)

lemma fsck_le_antisym: "fsck_le s t \<Longrightarrow> fsck_le t s \<Longrightarrow> s = (t :: fsck_state)"
  by (simp add: fsck_le_def)

lemma fsck_le_between:
  "fsck_le s t \<Longrightarrow> fsck_le t u \<Longrightarrow> u = (s :: fsck_state) \<longleftrightarrow> t = s \<and> u = t"
  by (metis fsck_le_antisym)

lemma fsck_status_0: "fsck_status s = 0 \<longleftrightarrow> s = \<lparr>fk_errs = 0, fk_warns = 0\<rparr>"
  by (cases s) (simp add: fsck_status_def)

section \<open>Exactness\<close>

text \<open>
  The scan of the uberblocks takes \<open>ENOENT\<close> for an empty slot, so it relies on a backend never
  reporting a failed read by that number.
\<close>

locale fsck_backend = block_backend ops blk dinv healthy
  for ops :: "'d nebula_io_ops" and blk and dinv and healthy +
  assumes read_errno: "dinv cap d \<Longrightarrow> healthy d \<Longrightarrow> ops_read ops cap d lba n = (Inl e, d') \<Longrightarrow> e \<noteq> ENOENT"
begin

lemma read_up_cases:
  assumes "okio io" and "up io" and "nebula_io_read io lba 1 = (r, io')"
  shows "next_io io io'" and "disk io' = disk io" and "up io'"
    and "lba < io_capacity_blocks io \<Longrightarrow> r = Inr (disk io (unat lba))"
    and "\<not> lba < io_capacity_blocks io \<Longrightarrow> \<exists>e. r = Inl e \<and> e \<noteq> ENOENT"
proof -
  note f = io_read_frame [OF assms(1,3)]
  show "next_io io io'" "disk io' = disk io" "up io'" using f next_io_up [OF f(1) assms(2)] by auto
  show "r = Inr (disk io (unat lba))" if "lba < io_capacity_blocks io"
  proof -
    have "unat lba + unat (1 :: u32) \<le> ncap io" using that by (simp add: word_less_nat_alt)
    then obtain bs io2 where "nebula_io_read io lba 1 = (Inr bs, io2)" by (rule io_read_succeeds [OF assms(1,2)])
    then show ?thesis using assms(3) io_read1_ok(2) [OF assms(1)] by auto
  qed
  show "\<exists>e. r = Inl e \<and> e \<noteq> ENOENT" if "\<not> lba < io_capacity_blocks io"
  proof (cases r)
    case (Inl e)
    obtain d where "ops_read ops (io_capacity_blocks io) (io_dev io) lba 1 = (Inl e, d)"
      using assms(1,3) Inl by (auto simp: nebula_io_read_def io_ok_def split: prod.splits)
    moreover have "dinv (io_capacity_blocks io) (io_dev io)" using assms(1) by (simp add: io_ok_def)
    ultimately show ?thesis using read_errno assms(2) Inl by blast
  next
    case (Inr bs)
    then show ?thesis using io_read1_ok(1) [OF assms(1)] assms(3) that by (auto simp: word_less_nat_alt)
  qed
qed

lemma load_up_cases:
  assumes "okio io" and "up io" and "io_load io lba v = (r, io')"
  shows "next_io io io'" and "disk io' = disk io" and "up io'"
    and "lba < io_capacity_blocks io \<Longrightarrow> r = v (disk io (unat lba))"
    and "\<not> lba < io_capacity_blocks io \<Longrightarrow> \<exists>e. r = Inl e \<and> e \<noteq> ENOENT"
proof -
  obtain q io1 where q: "nebula_io_read io lba 1 = (q, io1)" by (rule prod.exhaust)
  note c = read_up_cases [OF assms(1,2) q]
  have e: "io' = io1" "r = (case q of Inl e \<Rightarrow> Inl e | Inr b \<Rightarrow> v b)" using assms(3) q by (auto simp: io_load_def split: sum.splits)
  show "next_io io io'" "disk io' = disk io" "up io'" "lba < io_capacity_blocks io \<Longrightarrow> r = v (disk io (unat lba))"
    "\<not> lba < io_capacity_blocks io \<Longrightarrow> \<exists>e. r = Inl e \<and> e \<noteq> ENOENT" using c e by auto
qed

text \<open>A check reads only, never lowers the counters, and leaves them alone exactly on a clean structure.\<close>

definition checks :: "'d nebula_io \<Rightarrow> fsck_state \<Rightarrow> fsck_state \<Rightarrow> 'd nebula_io \<Rightarrow> bool \<Rightarrow> bool" where
  "checks io s s' io' P \<longleftrightarrow> next_io io io' \<and> disk io' = disk io \<and> up io' \<and> fsck_le s s' \<and> (s' = s \<longleftrightarrow> P)"

lemma checks_next: "checks io s s' io' P \<Longrightarrow> okio io' \<and> up io' \<and> disk io' = disk io \<and> io_capacity_blocks io' = io_capacity_blocks io"
  by (auto simp: checks_def io_next_def)

lemma checks_seq:
  assumes "checks io s s1 io1 P" and "checks io1 s1 s2 io2 Q"
  shows "checks io s s2 io2 (P \<and> Q)"
  using assms fsck_le_between [of s s1 s2] fsck_le_trans [of s s1 s2] next_io_trans [of io io1 io2]
  unfolding checks_def by auto

lemma check_mbr_exact:
  assumes "okio io" and "up io" and "check_mbr io s = (r, s', io')"
  shows "checks io s s' io' (\<exists>mbr. mbr_clean (io_capacity_blocks io) (disk io) mbr)"
    and "mbr_clean (io_capacity_blocks io) (disk io) mbr \<Longrightarrow> r = Inr mbr"
    and "r = Inl e \<Longrightarrow> s' \<noteq> s"
    and "mbr_validate (disk io 0) = Inr mbr \<Longrightarrow> 0 < ncap io \<Longrightarrow> r = Inr mbr"
proof -
  obtain q io1 where q: "nebula_mbr_read io = (q, io1)" by (rule prod.exhaust)
  note c = load_up_cases [OF assms(1,2) q [unfolded nebula_mbr_read_def]]
  have cap: "io_capacity_blocks io1 = io_capacity_blocks io" using c(1) by (auto simp: io_next_def)
  have e: "io' = io1" "r = q" "s' = (case q of Inl _ \<Rightarrow> fsck_FAIL s | Inr mbr \<Rightarrow>
      if mbr_device_capacity_blocks mbr \<noteq> io_capacity_blocks io then fsck_WARN s else s)"
    using assms(3) q cap by (auto simp: check_mbr_def nebula_io_capacity_blocks_def split: sum.splits)
  have z: "(0 :: u64) < io_capacity_blocks io \<longleftrightarrow> 0 < ncap io" by (simp add: word_less_nat_alt)
  show "checks io s s' io' (\<exists>mbr. mbr_clean (io_capacity_blocks io) (disk io) mbr)"
    using c e z by (cases "0 < ncap io")
      (auto simp: checks_def mbr_clean_def NEBULA_LBA_MBR_def split: sum.splits)
  show "mbr_clean (io_capacity_blocks io) (disk io) mbr \<Longrightarrow> r = Inr mbr"
    using c e z by (simp add: mbr_clean_def NEBULA_LBA_MBR_def)
  show "r = Inl e \<Longrightarrow> s' \<noteq> s" using e by auto
  show "mbr_validate (disk io 0) = Inr mbr \<Longrightarrow> 0 < ncap io \<Longrightarrow> r = Inr mbr"
    using c e z by (simp add: NEBULA_LBA_MBR_def)
qed

lemma check_tail_clean:
  "fsck_le s (check_tail head tail s)"
  "check_tail head tail s = s \<longleftrightarrow> sb_device_uuid tail = sb_device_uuid head
     \<and> sb_uberblock_lba tail = sb_uberblock_lba head \<and> sb_bitmap_lba tail = sb_bitmap_lba head"
  by (auto simp: check_tail_def Let_def fsck_le_def fsck_FAIL_def dest: arg_cong [where f = fk_errs])

lemma check_superblocks_exact:
  assumes "okio io" and "up io" and "check_superblocks io mbr s = (r, s', io')"
  shows "checks io s s' io' (\<exists>sb. sb_clean (io_capacity_blocks io) (disk io) mbr sb)"
    and "sb_clean (io_capacity_blocks io) (disk io) mbr sb \<Longrightarrow> r = Inr sb"
    and "r = Inl e \<Longrightarrow> s' = fsck_FAIL s"
    and "sb_validate (disk io (unat (mbr_superblock_head_lba mbr))) = Inl e' \<Longrightarrow> r = Inl e' \<or> (\<exists>e. r = Inl e)"
proof (atomize (full), goal_cases)
  case 1
  let ?h = "mbr_superblock_head_lba mbr"
  obtain q io1 where q: "nebula_superblock_read io ?h = (q, io1)" by (rule prod.exhaust)
  note c = load_up_cases [OF assms(1,2) q [unfolded nebula_superblock_read_def]]
  note ok1 = next_io_ok [OF c(1)]
  have cap1: "io_capacity_blocks io1 = io_capacity_blocks io" using c(1) by (auto simp: io_next_def)
  show ?case
  proof (cases q)
    case (Inl e)
    then have "io' = io1" "r = Inl e" "s' = fsck_FAIL s" using assms(3) q by (auto simp: check_superblocks_def)
    moreover have "\<not> sb_clean (io_capacity_blocks io) (disk io) mbr sb" for sb using c(4) Inl by (auto simp: sb_clean_def)
    ultimately show ?thesis using c by (auto simp: checks_def)
  next
    case (Inr head)
    obtain q2 io2 where q2: "nebula_superblock_read io1 (sb_sb_tail_lba head) = (q2, io2)" by (rule prod.exhaust)
    note d = load_up_cases [OF ok1 c(3) q2 [unfolded nebula_superblock_read_def]]
    have h1: "?h < io_capacity_blocks io" using c(5) Inr by auto
    have in_h: "?h < io_capacity_blocks io" "sb_validate (disk io (unat ?h)) = Inr head" using h1 c(4) [OF h1] Inr by auto
    define s1 where "s1 = (case q2 of Inl _ \<Rightarrow> fsck_WARN s | Inr tail \<Rightarrow> check_tail head tail s)"
    have e: "io' = io2" "r = Inr head" "s' = (if sb_device_uuid head \<noteq> mbr_device_uuid mbr then fsck_FAIL s1 else s1)"
      using assms(3) q q2 Inr by (auto simp: check_superblocks_def s1_def Let_def)
    have l1: "fsck_le s s1" by (auto simp: s1_def check_tail_clean split: sum.splits)
    have l2: "fsck_le s1 s'" using e(3) by simp
    have t: "s1 = s \<longleftrightarrow> sb_sb_tail_lba head < io_capacity_blocks io \<and> (\<exists>tail. sb_validate (disk io (unat (sb_sb_tail_lba head))) = Inr tail
        \<and> sb_device_uuid tail = sb_device_uuid head \<and> sb_uberblock_lba tail = sb_uberblock_lba head \<and> sb_bitmap_lba tail = sb_bitmap_lba head)"
      using d(4,5) c(2) cap1 by (cases "sb_sb_tail_lba head < io_capacity_blocks io")
        (auto simp: s1_def check_tail_clean(2) split: sum.splits)
    have "s' = s \<longleftrightarrow> s1 = s \<and> sb_device_uuid head = mbr_device_uuid mbr"
      using fsck_le_between [OF l1 l2] e(3) by auto
    then have cl: "s' = s \<longleftrightarrow> sb_clean (io_capacity_blocks io) (disk io) mbr head" using t in_h by (auto simp: sb_clean_def)
    have only: "sb = head" if "sb_clean (io_capacity_blocks io) (disk io) mbr sb" for sb using that in_h by (simp add: sb_clean_def)
    then show ?thesis
      using cl e in_h fsck_le_trans [OF l1 l2] d(1,2,3) c(1,2) next_io_trans [OF c(1) d(1)] unfolding checks_def by auto
  qed
qed

lemma check_slots_exact:
  assumes "okio io" and "up io" and "\<forall>k \<in> set slots. unat k < unat (sb_uberblock_count sb)"
    and "check_slots sb slots v s io = (v', s', io')"
  shows "checks io s s' io' (\<forall>k \<in> set slots. \<exists>r. slot_state (io_capacity_blocks io) (disk io) sb k = Some r \<and> r \<noteq> Inl EIO)
    \<and> v \<le> v' \<and> (v' = v \<longleftrightarrow> (\<forall>k \<in> set slots. \<forall>ub. slot_state (io_capacity_blocks io) (disk io) sb k \<noteq> Some (Inr ub)))"
  using assms
proof (induction sb slots v s io rule: check_slots.induct)
  case (1 sb valid s io)
  then show ?case by (auto simp: checks_def intro: next_io_refl)
next
  case (2 sb slot slots valid s io)
  let ?a = "sb_uberblock_lba sb + ucast slot" and ?cap = "io_capacity_blocks io"
  have lt: "\<not> (ucast slot :: u64) \<ge> ucast (sb_uberblock_count sb)" using "2.prems"(3) by (simp add: word_le_nat_alt)
  obtain q io1 where q: "nebula_uberblock_read_slot io (sb_uberblock_lba sb) (ucast (sb_uberblock_count sb)) slot = (q, io1)"
    by (rule prod.exhaust)
  have ld: "io_load io ?a ub_validate = (q, io1)" using q lt by (simp add: nebula_uberblock_read_slot_def)
  note c = load_up_cases [OF "2.prems"(1,2) ld]
  have n1: "okio io1" "io_capacity_blocks io1 = ?cap" using c(1) next_io_ok by (auto simp: io_next_def)
  define s1 where "s1 = (case q of Inl e \<Rightarrow> if e = ENOENT then s else fsck_WARN s | Inr _ \<Rightarrow> s)"
  define v1 where "v1 = (case q of Inl _ \<Rightarrow> valid | Inr _ \<Rightarrow> valid + 1)"
  have rec: "check_slots sb slots v1 s1 io1 = (v', s', io')"
    using "2.prems"(4) q by (auto simp: s1_def v1_def split: sum.splits)
  have rest: "\<forall>k \<in> set slots. unat k < unat (sb_uberblock_count sb)" using "2.prems"(3) by simp
  have IH: "checks io1 s1 s' io' (\<forall>k \<in> set slots. \<exists>r. slot_state ?cap (disk io) sb k = Some r \<and> r \<noteq> Inl EIO)
    \<and> v1 \<le> v' \<and> (v' = v1 \<longleftrightarrow> (\<forall>k \<in> set slots. \<forall>ub. slot_state ?cap (disk io) sb k \<noteq> Some (Inr ub)))"
  proof (cases q)
    case (Inl e)
    then show ?thesis
      using "2.IH"(1) [OF q [symmetric] Inl n1(1) c(3) rest] rec n1(2) c(2) by (simp add: s1_def v1_def)
  next
    case (Inr ub)
    then show ?thesis
      using "2.IH"(2) [OF q [symmetric] Inr n1(1) c(3) rest] rec n1(2) c(2) by (simp add: s1_def v1_def)
  qed
  have st: "slot_state ?cap (disk io) sb slot = (if ?a < ?cap then Some q else None)"
    using c(4) by (simp add: slot_state_def Let_def)
  have ub: "q \<noteq> Inl e" if "?a < ?cap" "e \<noteq> ENOENT" "e \<noteq> EIO" for e
    using c(4) [OF that(1)] that(2,3) by (auto simp: ub_validate_def Let_def)
  have ck: "checks io s s1 io1 (\<exists>r. slot_state ?cap (disk io) sb slot = Some r \<and> r \<noteq> Inl EIO)"
    using c st ub unfolding checks_def s1_def by (cases "?a < ?cap") (auto split: sum.splits)
  have v: "valid \<le> v1 \<and> (v1 = valid \<longleftrightarrow> (\<forall>ub. slot_state ?cap (disk io) sb slot \<noteq> Some (Inr ub)))"
    using c(5) st by (cases "?a < ?cap") (auto simp: v1_def split: sum.splits)
  show ?case
  proof (intro conjI)
    show "checks io s s' io' (\<forall>k \<in> set (slot # slots). \<exists>r. slot_state ?cap (disk io) sb k = Some r \<and> r \<noteq> Inl EIO)"
      using checks_seq [OF ck conjunct1 [OF IH]] by simp
    show "valid \<le> v'" using v IH by linarith
    have "v' = valid \<longleftrightarrow> v1 = valid \<and> v' = v1" using v IH by linarith
    then show "(v' = valid) = (\<forall>k\<in>set (slot # slots). \<forall>ub. slot_state ?cap (disk io) sb k \<noteq> Some (Inr ub))"
      using v IH by simp
  qed
qed

lemma check_uberblocks_exact:
  assumes "okio io" and "up io" and "check_uberblocks io sb s = (r, s', io')"
  shows "checks io s s' io' (ubs_clean (io_capacity_blocks io) (disk io) sb)"
proof -
  let ?n = "unat (sb_uberblock_count sb)"
  obtain v s1 io1 where ck: "check_slots sb (map of_nat [0..<?n]) 0 s io = (v, s1, io1)" by (rule prod_cases3)
  have small: "unat (of_nat k :: u32) = k" if "k < ?n" for k
    using that unsigned_less [where ?'a = nat, of "sb_uberblock_count sb"] by (intro unat_of_nat_u32) (simp add: less_trans)
  have "\<forall>k \<in> set (map of_nat [0..<?n]). unat (k :: u32) < ?n" by (auto simp: small)
  note c = check_slots_exact [OF assms(1,2) this ck]
  have e: "io' = io1" "s' = (if v = 0 then fsck_FAIL s1 else s1)"
    using assms(3) ck by (auto simp: check_uberblocks_def split: if_splits)
  have ck1: "checks io s s1 io1 (\<forall>k < ?n. \<exists>r. slot_state (io_capacity_blocks io) (disk io) sb (of_nat k) = Some r \<and> r \<noteq> Inl EIO)"
    using conjunct1 [OF c] by (simp add: atLeast0LessThan lessThan_def)
  have "v \<noteq> 0 \<longleftrightarrow> (\<exists>k < ?n. \<exists>ub. slot_state (io_capacity_blocks io) (disk io) sb (of_nat k) = Some (Inr ub))" using c by auto
  moreover have "checks io1 s1 s' io1 (v \<noteq> 0)"
    using e ck1 checks_next [OF ck1] by (auto simp: checks_def intro: next_io_refl)
  ultimately show ?thesis using checks_seq [OF ck1] e(1) unfolding ubs_clean_def by simp
qed

lemma bad_roots_0: "bad_roots rs = 0 \<longleftrightarrow> (\<forall>r \<in> set rs. ar_checksum r = nebula_allocator_root_checksum r)"
  by (auto simp: bad_roots_def filter_empty_conv)

lemma check_alloc_roots_exact:
  assumes "okio io" and "up io" and "check_alloc_roots io sb s = (r, s', io')"
  shows "checks io s s' io' (roots_clean (io_capacity_blocks io) (disk io) (sb_alloc_roots_head_lba sb)
    \<and> roots_clean (io_capacity_blocks io) (disk io) (sb_alloc_roots_tail_lba sb))"
proof -
  let ?v = "\<lambda>block. Inr (dec_array dec_ar 64 NEBULA_ALLOC_ROOTS_HEAD block) :: nebula_allocator_root list res"
  obtain h io1 where h: "nebula_allocator_roots_read io (sb_alloc_roots_head_lba sb) = (h, io1)" by (rule prod.exhaust)
  note c = load_up_cases [OF assms(1,2) h [unfolded nebula_allocator_roots_read_def]]
  obtain t io2 where t: "nebula_allocator_roots_read io1 (sb_alloc_roots_tail_lba sb) = (t, io2)" by (rule prod.exhaust)
  note d = load_up_cases [OF next_io_ok [OF c(1)] c(3) t [unfolded nebula_allocator_roots_read_def]]
  have cap: "io_capacity_blocks io1 = io_capacity_blocks io" using c(1) by (auto simp: io_next_def)
  define good where "good q \<longleftrightarrow> (case q of Inl (_ :: errno) \<Rightarrow> False | Inr rs \<Rightarrow> bad_roots rs = 0)" for q
  have e: "io' = io2" "s' = (if good h \<and> good t then s else fsck_FAIL s)"
    using assms(3) h t by (auto simp: check_alloc_roots_def good_def split: sum.splits if_splits)
  have "good h \<longleftrightarrow> roots_clean (io_capacity_blocks io) (disk io) (sb_alloc_roots_head_lba sb)"
    using c(4,5) by (cases "sb_alloc_roots_head_lba sb < io_capacity_blocks io") (auto simp: good_def roots_clean_def bad_roots_0)
  moreover have "good t \<longleftrightarrow> roots_clean (io_capacity_blocks io) (disk io) (sb_alloc_roots_tail_lba sb)"
    using d(4,5) c(2) cap by (cases "sb_alloc_roots_tail_lba sb < io_capacity_blocks io") (auto simp: good_def roots_clean_def bad_roots_0)
  ultimately show ?thesis using e c(1,2) d(1,2,3) next_io_trans [OF c(1) d(1)] by (auto simp: checks_def)
qed

lemma check_root_inode_exact:
  assumes "okio io" and "up io" and "check_root_inode io sb s = (r, s', io')"
  shows "checks io s s' io' (root_inode_clean (io_capacity_blocks io) (disk io) (sb_inode_page_lba sb))"
proof -
  obtain q io1 where q: "nebula_io_read io (sb_inode_page_lba sb) 1 = (q, io1)" by (rule prod.exhaust)
  note c = read_up_cases [OF assms(1,2) q]
  show ?thesis
    using assms(3) q c by (cases "sb_inode_page_lba sb < io_capacity_blocks io")
      (auto simp: check_root_inode_def checks_def root_inode_clean_def Let_def split: if_splits)
qed

lemma check_dir_header_exact:
  assumes "okio io" and "up io" and "check_dir_header io sb s = (r, s', io')"
  shows "checks io s s' io' (dir_header_clean (io_capacity_blocks io) (disk io) (sb_dir_page_lba sb))"
proof -
  obtain q io1 where q: "nebula_io_read io (sb_dir_page_lba sb) 1 = (q, io1)" by (rule prod.exhaust)
  note c = read_up_cases [OF assms(1,2) q]
  show ?thesis
    using assms(3) q c by (cases "sb_dir_page_lba sb < io_capacity_blocks io")
      (auto simp: check_dir_header_def checks_def dir_header_clean_def Let_def split: if_splits)
qed

text \<open>The counters stay at zero exactly on the devices that are clean.\<close>

lemma fsck_exact:
  assumes ok: "okio io" and up: "up io" and fs: "fsck_device io = (s, io')"
  shows "next_io io io'" and "disk io' = disk io"
    and "s = \<lparr>fk_errs = 0, fk_warns = 0\<rparr> \<longleftrightarrow> fsck_clean (io_capacity_blocks io) (disk io)"
proof (atomize (full), goal_cases)
  case 1
  let ?z = "\<lparr>fk_errs = 0, fk_warns = 0\<rparr>" and ?cap = "io_capacity_blocks io"
  obtain r1 s1 io1 where c1: "check_mbr io ?z = (r1, s1, io1)" by (rule prod_cases3)
  note m = check_mbr_exact [OF ok up c1]
  note n1 = checks_next [OF m(1)]
  show ?case
  proof (cases r1)
    case (Inl e)
    then have "s = s1" "io' = io1" using fs c1 by (auto simp: fsck_device_def)
    moreover have "\<not> fsck_clean ?cap (disk io)" using m(2) Inl by (auto simp: fsck_clean_def)
    ultimately show ?thesis using m(1) m(3) [OF Inl] by (auto simp: checks_def)
  next
    case (Inr mbr)
    obtain r2 s2 io2 where c2: "check_superblocks io1 mbr s1 = (r2, s2, io2)" by (rule prod_cases3)
    note sb = check_superblocks_exact [OF _ _ c2]
    have sb1: "checks io1 s1 s2 io2 (\<exists>sb. sb_clean ?cap (disk io) mbr sb)" using sb(1) n1 by simp
    note n2 = checks_next [OF sb1] and s12 = checks_seq [OF m(1) sb1]
    show ?thesis
    proof (cases r2)
      case L: (Inl e)
      then have "s = s2" "io' = io2" using fs c1 c2 Inr by (auto simp: fsck_device_def)
      moreover have "\<not> sb_clean ?cap (disk io) mbr x" for x using sb(2) [of x] n1 L by auto
      moreover have "mbr' = mbr" if "mbr_clean ?cap (disk io) mbr'" for mbr' using m(2) [OF that] Inr by simp
      ultimately show ?thesis using s12 unfolding checks_def fsck_clean_def by auto
    next
      case R: (Inr x)
      obtain r3 s3 io3 where c3: "check_uberblocks io2 x s2 = (r3, s3, io3)" by (rule prod_cases3)
      have k3: "checks io2 s2 s3 io3 (ubs_clean ?cap (disk io) x)" using check_uberblocks_exact [OF _ _ c3] n1 n2 by simp
      note n3 = checks_next [OF k3]
      obtain r4 s4 io4 where c4: "check_alloc_roots io3 x s3 = (r4, s4, io4)" by (rule prod_cases3)
      have k4: "checks io3 s3 s4 io4 (roots_clean ?cap (disk io) (sb_alloc_roots_head_lba x) \<and> roots_clean ?cap (disk io) (sb_alloc_roots_tail_lba x))"
        using check_alloc_roots_exact [OF _ _ c4] n1 n2 n3 by simp
      note n4 = checks_next [OF k4]
      obtain r5 s5 io5 where c5: "check_root_inode io4 x s4 = (r5, s5, io5)" by (rule prod_cases3)
      have k5: "checks io4 s4 s5 io5 (root_inode_clean ?cap (disk io) (sb_inode_page_lba x))"
        using check_root_inode_exact [OF _ _ c5] n1 n2 n3 n4 by simp
      note n5 = checks_next [OF k5]
      obtain r6 s6 io6 where c6: "check_dir_header io5 x s5 = (r6, s6, io6)" by (rule prod_cases3)
      have k6: "checks io5 s5 s6 io6 (dir_header_clean ?cap (disk io) (sb_dir_page_lba x))"
        using check_dir_header_exact [OF _ _ c6] n1 n2 n3 n4 n5 by simp
      have e: "s = s6" "io' = io6" using fs c1 c2 c3 c4 c5 c6 Inr R by (auto simp: fsck_device_def)
      note all = checks_seq [OF checks_seq [OF checks_seq [OF checks_seq [OF s12 k3] k4] k5] k6]
      have only: "mbr' = mbr" if "mbr_clean ?cap (disk io) mbr'" for mbr' using m(2) [OF that] Inr by simp
      have only2: "y = x" if "sb_clean ?cap (disk io) mbr y" for y using sb(2) [of y] n1 that R by simp
      have "s6 = ?z \<longleftrightarrow> fsck_clean ?cap (disk io)"
        using all only only2 unfolding checks_def fsck_clean_def by blast
      then show ?thesis using all e unfolding checks_def by simp
    qed
  qed
qed

text \<open>A head superblock that does not validate is counted as an error.\<close>

lemma fsck_head_damage:
  assumes ok: "okio io" and up: "up io" and cap: "0 < ncap io" and mb: "mbr_validate (disk io 0) = Inr mbr"
    and h: "sb_validate (disk io (unat (mbr_superblock_head_lba mbr))) = Inl e"
  shows "fsck_status (fst (fsck_device io)) = 2"
proof -
  obtain r1 s1 io1 where c1: "check_mbr io \<lparr>fk_errs = 0, fk_warns = 0\<rparr> = (r1, s1, io1)" by (rule prod_cases3)
  note m = check_mbr_exact [OF ok up c1]
  note n1 = checks_next [OF m(1)]
  have r1: "r1 = Inr mbr" by (rule m(4) [OF mb cap])
  obtain r2 s2 io2 where c2: "check_superblocks io1 mbr s1 = (r2, s2, io2)" by (rule prod_cases3)
  have "sb_validate (disk io1 (unat (mbr_superblock_head_lba mbr))) = Inl e" using h n1 by simp
  then obtain e2 where "r2 = Inl e2" using check_superblocks_exact(4) [OF _ _ c2] n1 by blast
  moreover have "s2 = fsck_FAIL s1" using check_superblocks_exact(3) [OF _ _ c2] n1 calculation by blast
  ultimately show ?thesis using c1 c2 r1 by (simp add: fsck_device_def fsck_status_def fsck_FAIL_def)
qed

end

section \<open>The POSIX backend\<close>

lemma posix_read_loop_errno:
  assumes "posix_read_loop d off tot dst = (Inl e, d')" and "\<forall>x \<in> set (pf_script d). benign x"
  shows "e = EINVAL \<or> e = EIO"
  using assms
proof (induction d off tot dst rule: posix_read_loop.induct)
  case (1 d off tot dst)
  note step = posix_read_loop.simps [of d off tot dst]
  show ?case
  proof (cases "sys_pread d (tot - length dst) (off + of_nat (length dst))")
    case (Pair q d1)
    have sc: "\<forall>x \<in> set (pf_script d1). benign x" using sys_pread_cases(5) [OF Pair] "1.prems"(2) by blast
    have q: "q = Inl EINVAL \<or> q = Inl EINTR \<or> (\<exists>bs. q = Inr bs)"
      using Pair "1.prems"(2) by (auto simp: sys_pread_def Let_def split: if_splits list.splits sys_result.splits)
    show ?thesis
    proof (cases q)
      case (Inl a)
      then show ?thesis using "1.IH"(1) [OF _ Pair [symmetric] Inl] "1.prems"(1) step Pair q sc by (auto split: if_splits)
    next
      case (Inr bs)
      then show ?thesis using "1.IH"(2) [OF _ Pair [symmetric] Inr] "1.prems"(1) step Pair sc by (auto split: if_splits)
    qed
  qed
qed

interpretation posix_fsck: fsck_backend posix_ops posix_blk posix_inv posix_healthy
proof unfold_locales
  fix cap d lba n e d'
  assume "posix_healthy d" and r: "ops_read posix_ops cap d lba n = (Inl e, d')"
  then have "\<forall>x \<in> set (pf_script d). benign x" by (simp add: posix_healthy_def)
  then show "e \<noteq> ENOENT"
    using r posix_read_loop_errno [of d "push_bit 12 lba" "unat n * 4096" "[]" e d']
    by (auto simp: posix_ops_def posix_read_def split: if_splits)
qed

section \<open>A formatted device is clean\<close>

lemma formatted_clean:
  assumes f: "formatted L u t1 t2 d" and t: "layout_tiles L" and u: "length u = 16"
  shows "fsck_clean (lay_capacity_blocks L) d"
proof -
  let ?cap = "lay_capacity_blocks L" and ?sb = "sb_build u L" and ?mbr = "mbr_build u (lay_capacity_blocks L)"
  have T: "unat (lay_uberblock_lba L) = 2" "unat (lay_uberblock_count L) = 128" "unat (lay_alloc_roots_head_lba L) = 130"
    "unat (lay_alloc_roots_tail_lba L) < unat ?cap" "unat (lay_sb_tail_lba L) < unat ?cap" "131 < unat ?cap"
    "unat (lay_inode_page_lba L) < unat ?cap" "unat (lay_dir_page_lba L) < unat ?cap"
    using t unfolding layout_tiles_def by linarith+
  have F: "d 0 = enc_mbr ?mbr" "d 2 = enc_ub (ub_build L t1)" "\<And>i. 2 < i \<Longrightarrow> i < 130 \<Longrightarrow> d i = zeros 4096"
    "d 130 = enc_array enc_ar (layout_roots L 0)" "d (unat (lay_alloc_roots_tail_lba L)) = enc_array enc_ar (layout_roots L 64)"
    "d (unat (lay_inode_page_lba L)) = enc_ino (inode_new 0 NEBULA_INODE_TYPE_DIR 0x1ED t2)" "dir_fresh L d"
    "d 1 = enc_sb ?sb" "d (unat (lay_sb_tail_lba L)) = enc_sb ?sb"
    using f unfolding formatted_def by auto
  have "mbr_clean ?cap d ?mbr" using F(1) u T(6) by (simp add: mbr_clean_def mbr_validate_build)
  moreover have "sb_clean ?cap d ?mbr ?sb"
    using F(8,9) u T(5,6) by (simp add: sb_clean_def sb_validate_build NEBULA_LBA_SB_HEAD_def word_less_nat_alt)
  moreover have "ubs_clean ?cap d ?sb"
  proof -
    have cnt: "unat (sb_uberblock_count ?sb) = 128" by (simp add: unsigned_ucast_eq take_bit_nat_eq_self T)
    have st: "slot_state ?cap d ?sb (of_nat k) = Some (ub_validate (d (2 + k)))" if "k < 128" for k
    proof -
      have "unat (lay_uberblock_lba L + ucast (of_nat k :: u32)) = 2 + k"
        using that T(1) by (subst unat_plus_if_small) (simp_all add: unat_of_nat_u32)
      then show ?thesis using that T(6) by (simp add: slot_state_def word_less_nat_alt)
    qed
    have "ub_validate (d (2 + k)) = (if k = 0 then Inr (ub_build L t1) else Inl ENOENT)" if "k < 128" for k
      using F(2,3) that by (cases "k = 0") (simp_all add: ub_validate_build ub_validate_zeros)
    then have sl: "slot_state ?cap d ?sb (of_nat k) = Some (if k = 0 then Inr (ub_build L t1) else Inl ENOENT)" if "k < 128" for k
      using st that by simp
    show ?thesis unfolding ubs_clean_def cnt
    proof (intro conjI allI impI)
      show "\<exists>k < 128. \<exists>ub. slot_state ?cap d ?sb (of_nat k) = Some (Inr ub)" using sl [of 0] by (intro exI [of _ 0]) simp
    qed (simp add: sl)
  qed
  moreover have "roots_clean ?cap d (lay_alloc_roots_head_lba L)" "roots_clean ?cap d (lay_alloc_roots_tail_lba L)"
  proof -
    have "dec_array dec_ar 64 64 (enc_array enc_ar (layout_roots L k)) = layout_roots L k" for k
      using layout_roots_wf by (intro ar.dec_enc_array) (auto simp: list_all_iff)
    moreover have "ar_checksum r = nebula_allocator_root_checksum r" if "r \<in> set (layout_roots L k)" for r k
      using that by (auto simp: layout_roots_def fill_roots_def fill_root_def Let_def nebula_allocator_root_checksum_def)
    ultimately show "roots_clean ?cap d (lay_alloc_roots_head_lba L)" "roots_clean ?cap d (lay_alloc_roots_tail_lba L)"
      using F(4,5) T(3,4,6) by (simp_all add: roots_clean_def word_less_nat_alt)
  qed
  moreover have "root_inode_clean ?cap d (lay_inode_page_lba L)"
    using F(6) T(7) inode_new_is_sealed [of 0 NEBULA_INODE_TYPE_DIR "0x1ED" t2] inode_new_wf
    by (simp add: root_inode_clean_def word_less_nat_alt ino.dec_enc inode_sealed_def)
  moreover have "dir_header_clean ?cap d (lay_dir_page_lba L)"
    using F(7) T(8) enc_dh_init(1) [of L]
    by (simp add: dir_header_clean_def word_less_nat_alt dir_fresh_def dh.dec_enc)
       (simp add: dir_header_init_def dir_header_seal_def)
  ultimately show ?thesis unfolding fsck_clean_def by (intro exI [of _ ?mbr] exI [of _ ?sb]) simp
qed

section \<open>Properties\<close>

text \<open>
  Property C32.  What fsck looks at, and what it does not.  On a device whose calls do not fail the exit
  status is 0 exactly when the MBR is valid and states the size of the device, both superblocks are
  valid, name the same identifier (the MBR's), the same uberblock region and the same bitmap region, every
  uberblock slot is empty or valid and one is valid, all 128 allocator roots carry their checksums, the
  root inode is a sealed directory and the directory header is sealed; the check changes no block.  The
  blocks of these structures are all it depends on: a device that differs anywhere else (in the bitmap,
  in the inodes other than the root's, in the directory entries, in the data) is judged the same.
\<close>

theorem fsck_clean_iff:
  assumes "io_ok posix_ops posix_inv io" and "posix_healthy (io_dev io)" and "fsck_device io = (s, io')"
  shows "(fsck_status s = 0 \<longleftrightarrow> fsck_clean (io_capacity_blocks io) (posix_blk (io_dev io)))
    \<and> posix_blk (io_dev io') = posix_blk (io_dev io)
    \<and> (\<forall>io2. io_ok posix_ops posix_inv io2 \<and> posix_healthy (io_dev io2) \<and> io_capacity_blocks io2 = io_capacity_blocks io
         \<and> (\<forall>a \<in> fsck_scope (posix_blk (io_dev io)). posix_blk (io_dev io2) a = posix_blk (io_dev io) a)
         \<longrightarrow> (fsck_status (fst (fsck_device io2)) = 0 \<longleftrightarrow> fsck_status s = 0))"
proof (intro conjI allI impI)
  note f = posix_fsck.fsck_exact [OF assms]
  show e: "fsck_status s = 0 \<longleftrightarrow> fsck_clean (io_capacity_blocks io) (posix_blk (io_dev io))"
    and "posix_blk (io_dev io') = posix_blk (io_dev io)" using f by (simp_all add: fsck_status_0)
  fix io2 :: "posix_dev nebula_io"
  assume a: "io_ok posix_ops posix_inv io2 \<and> posix_healthy (io_dev io2) \<and> io_capacity_blocks io2 = io_capacity_blocks io
      \<and> (\<forall>a \<in> fsck_scope (posix_blk (io_dev io)). posix_blk (io_dev io2) a = posix_blk (io_dev io) a)"
  obtain s2 io2' where f2: "fsck_device io2 = (s2, io2')" by (rule prod.exhaust)
  have "fsck_status s2 = 0 \<longleftrightarrow> fsck_clean (io_capacity_blocks io) (posix_blk (io_dev io2))"
    using posix_fsck.fsck_exact(3) [OF _ _ f2] a by (simp add: fsck_status_0)
  also have "\<dots> \<longleftrightarrow> fsck_clean (io_capacity_blocks io) (posix_blk (io_dev io))"
    using a by (intro fsck_clean_scope) blast
  finally show "fsck_status (fst (fsck_device io2)) = 0 \<longleftrightarrow> fsck_status s = 0" using e f2 by simp
qed

lemma formatted_scope:
  assumes f: "formatted L u t1 t2 d" and t: "layout_tiles L" and u: "length u = 16"
  shows "131 \<notin> fsck_scope d"
proof -
  have F: "d 0 = enc_mbr (mbr_build u (lay_capacity_blocks L))" "d 1 = enc_sb (sb_build u L)" using f unfolding formatted_def by auto
  have T: "unat (lay_uberblock_lba L) = 2" "unat (lay_uberblock_count L) = 128" "unat (lay_alloc_roots_head_lba L) = 130"
    "131 < unat (lay_alloc_roots_tail_lba L)" "131 < unat (lay_sb_tail_lba L)" "131 < unat (lay_inode_page_lba L)" "131 < unat (lay_dir_page_lba L)"
    using t unfolding layout_tiles_def by linarith+
  have cnt: "unat (sb_uberblock_count (sb_build u L)) = 128" by (simp add: unsigned_ucast_eq take_bit_nat_eq_self T)
  have "unat (lay_uberblock_lba L + ucast (of_nat k :: u32)) = 2 + k" if "k < 128" for k
    using that T(1) by (subst unat_plus_if_small) (simp_all add: unat_of_nat_u32)
  then have "131 \<notin> sb_scope (sb_build u L)" using T cnt by (auto simp: sb_scope_def)
  then show ?thesis using F u by (simp add: fsck_scope_def mbr_validate_build sb_validate_build NEBULA_LBA_SB_HEAD_def)
qed

text \<open>A formatted device, and the same with the first block of its bitmap cleared: every block it describes, the superblock's own included, is marked free.\<close>

theorem fsck_clean_iff_witness:
  "\<exists>io io2. fsck_status (fst (fsck_device (io :: posix_dev nebula_io))) = 0 \<and> fsck_status (fst (fsck_device (io2 :: posix_dev nebula_io))) = 0
     \<and> posix_blk (io_dev io2) 131 = zeros 4096 \<and> (\<forall>a. a \<noteq> 131 \<longrightarrow> posix_blk (io_dev io2) a = posix_blk (io_dev io) a)"
proof -
  obtain L io' where f: "lay_capacity_blocks L = 65536" "formatted L (zeros 16) 0 0 (posix.disk io')" "layout_tiles L"
    using posix.format_device_mounts [of "sample_io 65536" NEBULA_INODE_SIZE_DEFAULT "zeros 16" 0 0] sample_io_ok [of 65536]
    by (auto simp: sample_io_def)
  define d where "d = posix.disk io'"
  let ?e = "d(131 := zeros 4096)"
  have len: "length (d a) = 4096" "length (?e a) = 4096" for a by (simp_all add: d_def posix.blk_length)
  note io = image_io_ok [of d 65536, OF len(1)] and io2 = image_io_ok [of ?e 65536, OF len(2)]
  obtain s io1 where fs: "fsck_device (image_io 65536 d) = (s, io1)" by (rule prod.exhaust)
  have "fsck_clean 65536 d" using formatted_clean [OF f(2,3)] f(1) by (simp add: d_def)
  moreover have "131 \<notin> fsck_scope d" using formatted_scope [OF f(2,3)] by (simp add: d_def)
  ultimately have "fsck_status s = 0" "fsck_status (fst (fsck_device (image_io 65536 ?e))) = 0"
    using fsck_clean_iff [OF io(1,2) fs] io(3,4) io2 by auto
  then show ?thesis using fs io(3) io2(3) by (intro exI [of _ "image_io 65536 d"] exI [of _ "image_io 65536 ?e"]) simp
qed

text \<open>
  A device that mkfs has just formatted passes fsck: the exit status is 0.
\<close>

theorem format_then_fsck:
  assumes "io_ok posix_ops posix_inv io" and "posix_healthy (io_dev io)"
    and "65536 \<le> unat (io_capacity_blocks io)" and "unat (io_capacity_blocks io) < 2 ^ 46"
    and "isz = NEBULA_INODE_SIZE_DEFAULT \<or> isz = NEBULA_INODE_SIZE_LARGE" and "length u = 16"
  shows "\<exists>io' s io''. format_device io isz (Inr u) t1 t2 = (0, io') \<and> fsck_device io' = (s, io'') \<and> fsck_status s = 0"
proof -
  obtain L io' where f: "format_device io isz (Inr u) t1 t2 = (0, io')" "lay_capacity_blocks L = io_capacity_blocks io"
    "formatted L u t1 t2 (posix.disk io')" "posix.next_io io io'" "layout_tiles L"
    using posix.format_device_mounts [OF assms, of t1 t2] by blast
  have n: "io_ok posix_ops posix_inv io'" "posix_healthy (io_dev io')" "io_capacity_blocks io' = io_capacity_blocks io"
    using posix.next_io_ok [OF f(4)] posix.next_io_up [OF f(4)] assms(2) f(4) by (auto simp: io_next_def)
  obtain s io'' where c: "fsck_device io' = (s, io'')" by (rule prod.exhaust)
  have "fsck_clean (io_capacity_blocks io') (posix.disk io')" using formatted_clean [OF f(3,5) assms(6)] f(2) n(3) by simp
  then have "fsck_status s = 0" using posix_fsck.fsck_exact(3) [OF n(1,2) c] by (simp add: fsck_status_0)
  then show ?thesis using f(1) c by blast
qed

theorem format_then_fsck_witness:
  "\<exists>io' s io''. format_device (sample_io 65536) NEBULA_INODE_SIZE_LARGE (Inr (zeros 16)) 0 0 = (0, io')
     \<and> fsck_device io' = (s, io'') \<and> fsck_status s = 0"
  using format_then_fsck [of "sample_io 65536" NEBULA_INODE_SIZE_LARGE "zeros 16" 0 0] sample_io_ok [of 65536] by auto

text \<open>
  A device whose head superblock alone is damaged is reported with status 2, which the tool
  documents as unmountable, although the mount recovers from the tail copy.
\<close>

theorem fsck_rejects_mountable:
  assumes "io_ok posix_ops posix_inv io" and "posix_healthy (io_dev io)" and "layout_tiles L"
    and "lay_capacity_blocks L = io_capacity_blocks io" and "unat (io_capacity_blocks io) < 2 ^ 46"
    and "formatted L u t1 t2 (dsk :: nat \<Rightarrow> byte list)" and "length u = 16" and "\<And>i. length (dsk i) = 4096"
    and "i < 4096" and "v \<noteq> dsk 1 ! i" and "posix_blk (io_dev io) = dsk(1 := (dsk 1)[i := v])"
  shows "fsck_status (fst (fsck_device io)) = 2 \<and> (\<exists>m. nebula_mount_open_io io = (Inr m, m_io m))"
proof -
  have F: "dsk 0 = enc_mbr (mbr_build u (lay_capacity_blocks L))" "dsk 1 = enc_sb (sb_build u L)"
    "dsk (unat (lay_sb_tail_lba L)) = enc_sb (sb_build u L)"
    using assms(6) unfolding formatted_def by auto
  have T: "131 < unat (lay_capacity_blocks L)" "unat (lay_bitmap_lba L) = 131" "1 < unat (lay_sb_tail_lba L)"
    using assms(3) unfolding layout_tiles_def by linarith+
  have c51: "unat (lay_capacity_blocks L) \<le> 2 ^ 51" using assms(4,5) by simp
  have len: "length (enc_sb (sb_build u L)) = 4096" using assms(7) by (intro sb.enc_length sb_build_wf)
  obtain e where bad: "sb_validate ((dsk 1)[i := v]) = Inl e"
    using sb_validate_corrupt [OF sb_validate_build [OF assms(7)] len assms(9)] assms(10) F(2) by auto
  have d: "posix_blk (io_dev io) a = (if a = 1 then (dsk 1)[i := v] else dsk a)" for a using assms(11) by simp
  have "fsck_status (fst (fsck_device io)) = 2"
  proof (rule posix_fsck.fsck_head_damage [OF assms(1,2)])
    show "0 < posix.ncap io" using T(1) assms(4) by simp
    show "mbr_validate (posix.disk io 0) = Inr (mbr_build u (lay_capacity_blocks L))"
      using F(1) assms(7) by (simp add: d mbr_validate_build)
    show "sb_validate (posix.disk io (unat (mbr_superblock_head_lba (mbr_build u (lay_capacity_blocks L))))) = Inl e"
      using bad by (simp add: d NEBULA_LBA_SB_HEAD_def)
  qed
  moreover have "\<exists>m. nebula_mount_do io = (Inr m, m_io m)"
  proof -
    note b = posix.formatted_boot [OF assms(6,3,7) c51 assms(8)]
    have boot: "boot_written L u (posix_blk (io_dev io))"
      using b(1) bad F T(3) by (auto simp: boot_written_def d)
    have "valid_slot (posix_blk (io_dev io)) 2 = valid_slot dsk 2" by (rule ext) (simp add: valid_slot_def d)
    then have sc: "scan_slots (valid_slot (posix_blk (io_dev io)) 2) 128 = Some (0, ub_build L t1)" using b(2) by simp
    have "bitmap_region (posix_blk (io_dev io)) L = bitmap_region dsk L"
      using T(2) by (auto simp: bitmap_region_def d intro!: arg_cong [where f = concat])
    then have "tail_clear (bitmap_region (posix_blk (io_dev io)) L) (unat (lay_capacity_blocks L))" using b(3) by simp
    from posix.mount_do_up [OF assms(1-5) boot sc this] show ?thesis by blast
  qed
  ultimately show ?thesis by (simp add: nebula_mount_open_io_def)
qed

theorem fsck_rejects_mountable_witness:
  "\<exists>io. fsck_status (fst (fsck_device (io :: posix_dev nebula_io))) = 2 \<and> (\<exists>m. nebula_mount_open_io io = (Inr m, m_io m))"
proof -
  obtain L io' where f: "lay_capacity_blocks L = 65536" "formatted L (zeros 16) 0 0 (posix.disk io')" "layout_tiles L"
    using posix.format_device_mounts [of "sample_io 65536" NEBULA_INODE_SIZE_DEFAULT "zeros 16" 0 0] sample_io_ok [of 65536]
    by (auto simp: sample_io_def)
  define dsk where "dsk = posix.disk io'"
  have len: "length (dsk a) = 4096" for a by (simp add: dsk_def posix.blk_length)
  define v where "v = dsk 1 ! 9 + 1"
  have v: "v \<noteq> dsk 1 ! 9" by (simp add: v_def)
  let ?d = "dsk(1 := (dsk 1)[9 := v])"
  have len': "length (?d a) = 4096" for a using len by simp
  note io = image_io_ok [of ?d 65536, OF len']
  show ?thesis
    using fsck_rejects_mountable [OF io(1,2) f(3), of "zeros 16" 0 0 dsk 9 v] f(1,2) io(3,4) len v dsk_def by auto
qed

end
