(* ===== verification/Nebula_Root_Sub.thy ===== *)
theory Nebula_Root_Sub
  imports Nebula_Hbm Nebula_Slots
begin

text \<open>
  \<open>src/nebula/nebula_root_sub_alloc.c\<close>: the allocator of 32 KiB directory slots inside a 128 MiB chunk
  of the root inode.  A slot is eight consecutive bits of a 4 KiB bitmap.  The file has its own copies
  of the bit helpers; they are the ones of the block allocator with 32-bit indices.  The abstraction
  is the set of taken slots.
\<close>

section \<open>The code\<close>

record nebula_root_chunk_bitmap =
  rcb_bits :: "byte list"

definition slot_base_subblock :: "u32 \<Rightarrow> u32" where
  "slot_base_subblock slot = slot * of_nat NEBULA_ROOT_DIR_SLOT_SUBBLOCKS"

definition nebula_root_chunk_bitmap_init :: nebula_root_chunk_bitmap where
  "nebula_root_chunk_bitmap_init =
     \<lparr>rcb_bits = fold (\<lambda>i bits. bit_set bits i) [0..<NEBULA_ROOT_DIR_SLOT_SUBBLOCKS] (zeros NEBULA_BLOCK_SIZE)\<rparr>"

text \<open>The inner loop with its early exit: no bit of the slot is set.\<close>

definition slot_free :: "byte list \<Rightarrow> u32 \<Rightarrow> bool" where
  "slot_free bits base =
     list_all (\<lambda>j. \<not> bit_get bits (unat (base + of_nat j))) [0..<NEBULA_ROOT_DIR_SLOT_SUBBLOCKS]"

definition slot_mark :: "(byte list \<Rightarrow> nat \<Rightarrow> byte list) \<Rightarrow> byte list \<Rightarrow> u32 \<Rightarrow> byte list" where
  "slot_mark upd bits base =
     fold (\<lambda>j bits. upd bits (unat (base + of_nat j))) [0..<NEBULA_ROOT_DIR_SLOT_SUBBLOCKS] bits"

fun alloc_dir_loop :: "byte list \<Rightarrow> u32 list \<Rightarrow> u32 option" where
  "alloc_dir_loop bits [] = None"
| "alloc_dir_loop bits (slot # slots) =
     (if slot_free bits (slot_base_subblock slot) then Some slot else alloc_dir_loop bits slots)"

abbreviation chunk_dir_slots :: "u32 list" where
  "chunk_dir_slots \<equiv> map of_nat [1..<NEBULA_ROOT_DIR_SLOTS_PER_CHUNK]"

definition nebula_root_chunk_alloc_dir ::
    "nebula_root_chunk_bitmap \<Rightarrow> u32 res \<times> nebula_root_chunk_bitmap" where
  "nebula_root_chunk_alloc_dir bm =
     (case alloc_dir_loop (rcb_bits bm) chunk_dir_slots of
        None \<Rightarrow> (Inl ENOSPC, bm)
      | Some slot \<Rightarrow>
          (Inr slot, bm\<lparr>rcb_bits := slot_mark bit_set (rcb_bits bm) (slot_base_subblock slot)\<rparr>))"

definition nebula_root_chunk_free_dir ::
    "nebula_root_chunk_bitmap \<Rightarrow> u32 \<Rightarrow> unit res \<times> nebula_root_chunk_bitmap" where
  "nebula_root_chunk_free_dir bm slot =
     (if slot = 0 \<or> slot \<ge> of_nat NEBULA_ROOT_DIR_SLOTS_PER_CHUNK then (Inl EINVAL, bm)
      else
        let base = slot_base_subblock slot in
        if \<not> list_all (\<lambda>j. bit_get (rcb_bits bm) (unat (base + of_nat j))) [0..<NEBULA_ROOT_DIR_SLOT_SUBBLOCKS]
        then (Inl EINVAL, bm)
        else (Inr (), bm\<lparr>rcb_bits := slot_mark bit_clr (rcb_bits bm) base\<rparr>))"

definition nebula_root_chunk_free_slots :: "nebula_root_chunk_bitmap \<Rightarrow> u32" where
  "nebula_root_chunk_free_slots bm =
     fold (\<lambda>slot cnt. if slot_free (rcb_bits bm) (slot_base_subblock slot) then cnt + 1 else cnt) chunk_dir_slots 0"

section \<open>Slots as a set\<close>

definition chunk_wf :: "nebula_root_chunk_bitmap \<Rightarrow> bool" where
  "chunk_wf bm \<longleftrightarrow> length (rcb_bits bm) = 4096
     \<and> (\<forall>s < 4096. \<forall>j < 8. bit_get (rcb_bits bm) (8 * s + j) = bit_get (rcb_bits bm) (8 * s))
     \<and> bit_get (rcb_bits bm) 0"

definition chunk_taken :: "nebula_root_chunk_bitmap \<Rightarrow> u32 set" where
  "chunk_taken bm = {s. unat s < 4096 \<and> bit_get (rcb_bits bm) (8 * unat s)}"

lemma slot_bit_index:
  assumes "unat slot < 4096" and "j < 8"
  shows "unat (slot_base_subblock slot + of_nat j) = 8 * unat slot + j"
proof -
  have "unat (slot_base_subblock slot) = 8 * unat slot"
    using assms(1) unfolding slot_base_subblock_def by (subst unat_times_if_small) auto
  moreover have "unat (of_nat j :: u32) = j" using assms(2) by (intro unat_of_nat_u32) simp
  ultimately show ?thesis using assms by (subst unat_plus_if_small) auto
qed

lemma slot_free_iff:
  assumes "chunk_wf bm" and "unat slot < 4096"
  shows "slot_free (rcb_bits bm) (slot_base_subblock slot) \<longleftrightarrow> slot \<notin> chunk_taken bm"
proof -
  have "slot_free (rcb_bits bm) (slot_base_subblock slot) \<longleftrightarrow> (\<forall>j < 8. \<not> bit_get (rcb_bits bm) (8 * unat slot + j))"
    using assms(2) by (auto simp: slot_free_def list_all_iff slot_bit_index)
  moreover have "(\<forall>j < 8. \<not> bit_get (rcb_bits bm) (8 * unat slot + j)) \<longleftrightarrow> \<not> bit_get (rcb_bits bm) (8 * unat slot)"
    using assms by (metis add.right_neutral chunk_wf_def zero_less_numeral)
  ultimately show ?thesis using assms(2) by (simp add: chunk_taken_def)
qed

lemma slot_mark_eq:
  assumes "unat slot < 4096" and "length bits = 4096"
  shows "slot_mark bit_set bits (slot_base_subblock slot) = set_bits bits (8 * unat slot) 8"
    and "slot_mark bit_clr bits (slot_base_subblock slot) = clr_bits bits (8 * unat slot) 8"
  using assms unfolding slot_mark_def set_bits_def clr_bits_def
  by (auto intro!: fold_cong simp: slot_bit_index)

lemma slot_of_bit: "8 * (a :: nat) \<le> 8 * b + j \<Longrightarrow> 8 * b + j < 8 * a + 8 \<Longrightarrow> j < 8 \<Longrightarrow> a = b"
  by linarith

lemma chunk_wfI:
  assumes "chunk_wf bm" and "length (rcb_bits bm') = 4096" and "bit_get (rcb_bits bm') 0"
    and "\<And>s j. j < 8 \<Longrightarrow> bit_get (rcb_bits bm') (8 * s + j) = f s (bit_get (rcb_bits bm) (8 * s + j))"
  shows "chunk_wf bm'"
proof -
  have "bit_get (rcb_bits bm') (8 * s + j) = bit_get (rcb_bits bm') (8 * s)" if "s < 4096" "j < 8" for s j
  proof -
    have "bit_get (rcb_bits bm) (8 * s + j) = bit_get (rcb_bits bm) (8 * s + 0)"
      using assms(1) that by (simp add: chunk_wf_def)
    then show ?thesis using assms(4) [OF that(2), of s] assms(4) [of 0 s] by simp
  qed
  then show ?thesis using assms(2,3) by (simp add: chunk_wf_def)
qed

lemma chunk_set_slot:
  assumes "chunk_wf bm" and "unat slot < 4096"
  defines "bm' \<equiv> bm\<lparr>rcb_bits := set_bits (rcb_bits bm) (8 * unat slot) 8\<rparr>"
  shows "chunk_wf bm'" and "chunk_taken bm' = insert slot (chunk_taken bm)"
proof -
  have len: "length (rcb_bits bm) = 4096" using assms(1) by (simp add: chunk_wf_def)
  have b: "bit_get (rcb_bits bm') (8 * s + j) \<longleftrightarrow> s = unat slot \<or> bit_get (rcb_bits bm) (8 * s + j)"
    if "j < 8" for s j
    using assms(2) that len by (auto simp: bm'_def bit_get_set_bits dest: slot_of_bit)
  note b0 = b [of 0, simplified]
  have "bit_get (rcb_bits bm') 0" using b0 [of 0] assms(1) by (simp add: chunk_wf_def)
  moreover have "length (rcb_bits bm') = 4096" by (simp add: bm'_def len)
  ultimately show "chunk_wf bm'"
    using b by (intro chunk_wfI [OF assms(1), where f = "\<lambda>s x. s = unat slot \<or> x"]) simp_all
  show "chunk_taken bm' = insert slot (chunk_taken bm)"
    using assms(2) unfolding chunk_taken_def b0 by (auto simp: word_unat_eq_iff)
qed

lemma chunk_clear_slot:
  assumes "chunk_wf bm" and "unat slot < 4096" and "slot \<noteq> 0"
  defines "bm' \<equiv> bm\<lparr>rcb_bits := clr_bits (rcb_bits bm) (8 * unat slot) 8\<rparr>"
  shows "chunk_wf bm'" and "chunk_taken bm' = chunk_taken bm - {slot}"
proof -
  have len: "length (rcb_bits bm) = 4096" using assms(1) by (simp add: chunk_wf_def)
  have b: "bit_get (rcb_bits bm') (8 * s + j) \<longleftrightarrow> s \<noteq> unat slot \<and> bit_get (rcb_bits bm) (8 * s + j)"
    if "j < 8" for s j
    using assms(2) that len by (auto simp: bm'_def bit_get_clr_bits dest: slot_of_bit)
  note b0 = b [of 0, simplified]
  have "0 < unat slot" using assms(3) by (simp add: unat_gt_0)
  then have "bit_get (rcb_bits bm') 0" using b0 [of 0] assms(1) by (simp add: chunk_wf_def)
  moreover have "length (rcb_bits bm') = 4096" by (simp add: bm'_def len)
  ultimately show "chunk_wf bm'"
    using b by (intro chunk_wfI [OF assms(1), where f = "\<lambda>s x. s \<noteq> unat slot \<and> x"]) simp_all
  show "chunk_taken bm' = chunk_taken bm - {slot}"
    using assms(2) unfolding chunk_taken_def b0 by (auto simp: word_unat_eq_iff)
qed

lemma alloc_dir_loop_spec:
  "case alloc_dir_loop bits slots of
     None \<Rightarrow> \<forall>s \<in> set slots. \<not> slot_free bits (slot_base_subblock s)
   | Some k \<Rightarrow> \<exists>i < length slots. slots ! i = k \<and> slot_free bits (slot_base_subblock k)
        \<and> (\<forall>j < i. \<not> slot_free bits (slot_base_subblock (slots ! j)))"
proof (induction slots)
  case (Cons s slots)
  show ?case
  proof (cases "slot_free bits (slot_base_subblock s)")
    case True
    then show ?thesis by auto
  next
    case False
    show ?thesis
    proof (cases "alloc_dir_loop bits slots")
      case None
      then show ?thesis using Cons False by simp
    next
      case (Some k)
      then obtain i where i: "i < length slots" "slots ! i = k" "slot_free bits (slot_base_subblock k)"
        "\<forall>j < i. \<not> slot_free bits (slot_base_subblock (slots ! j))" using Cons by auto
      have "\<not> slot_free bits (slot_base_subblock ((s # slots) ! j))" if "j < Suc i" for j
        using that i(4) False by (cases j) auto
      then show ?thesis using Some False i by (auto intro!: exI [of _ "Suc i"])
    qed
  qed
qed simp

lemma dir_slots_nth: "i < 4095 \<Longrightarrow> unat (chunk_dir_slots ! i) = Suc i"
proof -
  assume "i < 4095"
  then have "chunk_dir_slots ! i = of_nat (Suc i)" "unat (of_nat (Suc i) :: u32) = Suc i"
    by (simp, intro unat_of_nat_u32) simp
  then show ?thesis by (simp only:)
qed

text \<open>The allocation in terms of slots.\<close>

lemma alloc_dir_cases:
  assumes "chunk_wf bm"
  shows "case nebula_root_chunk_alloc_dir bm of
      (Inl e, bm') \<Rightarrow> e = ENOSPC \<and> bm' = bm \<and> (\<forall>s. s \<noteq> 0 \<and> unat s < 4096 \<longrightarrow> s \<in> chunk_taken bm)
    | (Inr k, bm') \<Rightarrow> k \<noteq> 0 \<and> unat k < 4096 \<and> k \<notin> chunk_taken bm \<and> chunk_wf bm'
        \<and> chunk_taken bm' = insert k (chunk_taken bm)
        \<and> (\<forall>s. s \<noteq> 0 \<and> s < k \<longrightarrow> s \<in> chunk_taken bm)"
proof -
  have idx: "s \<noteq> 0 \<and> unat s < 4096 \<Longrightarrow> unat s - 1 < 4095 \<and> chunk_dir_slots ! (unat s - 1) = s" for s :: u32
  proof -
    assume s: "s \<noteq> 0 \<and> unat s < 4096"
    then have "0 < unat s" by (simp add: unat_gt_0)
    then have "unat s - 1 < 4095" "Suc (unat s - 1) = unat s" using s by linarith+
    then show "unat s - 1 < 4095 \<and> chunk_dir_slots ! (unat s - 1) = s"
      using dir_slots_nth [of "unat s - 1"] by (simp only: word_unat_eq_iff)
  qed
  note spec = alloc_dir_loop_spec [where bits = "rcb_bits bm" and slots = chunk_dir_slots]
  show ?thesis
  proof (cases "alloc_dir_loop (rcb_bits bm) chunk_dir_slots")
    case None
    have "s \<in> chunk_taken bm" if "s \<noteq> 0" "unat s < 4096" for s
    proof -
      have "s \<in> set chunk_dir_slots" using idx [of s] that nth_mem [of "unat s - 1" chunk_dir_slots] by simp
      then show ?thesis using spec None slot_free_iff [OF assms that(2)] by auto
    qed
    then show ?thesis using None by (simp add: nebula_root_chunk_alloc_dir_def)
  next
    case (Some k)
    then obtain i where i: "i < 4095" "chunk_dir_slots ! i = k" "slot_free (rcb_bits bm) (slot_base_subblock k)"
      "\<And>j. j < i \<Longrightarrow> \<not> slot_free (rcb_bits bm) (slot_base_subblock (chunk_dir_slots ! j))"
      using spec by auto
    have uk: "unat k = Suc i" using dir_slots_nth [OF i(1)] i(2) by simp
    have k: "k \<noteq> 0" "unat k < 4096" using uk i(1) by auto
    have below: "s \<in> chunk_taken bm" if "s \<noteq> 0" "s < k" for s
    proof -
      have "unat s < Suc i" using that(2) uk by (simp add: word_less_nat_alt)
      moreover have "0 < unat s" using that(1) by (simp add: unat_gt_0)
      ultimately have "unat s - 1 < i" "unat s < 4096" using i(1) by linarith+
      then show ?thesis using i(4) [of "unat s - 1"] idx [of s] that(1) slot_free_iff [OF assms] by auto
    qed
    have "length (rcb_bits bm) = 4096" using assms by (simp add: chunk_wf_def)
    then show ?thesis
      using Some k below i(3) slot_free_iff [OF assms k(2)] chunk_set_slot [OF assms k(2)]
      by (simp add: nebula_root_chunk_alloc_dir_def slot_mark_eq(1) [OF k(2)])
  qed
qed

lemma free_dir_cases:
  assumes "chunk_wf bm"
  shows "nebula_root_chunk_free_dir bm slot =
     (if slot \<noteq> 0 \<and> slot \<in> chunk_taken bm
      then (Inr (), bm\<lparr>rcb_bits := clr_bits (rcb_bits bm) (8 * unat slot) 8\<rparr>) else (Inl EINVAL, bm))"
proof (cases "slot \<noteq> 0 \<and> unat slot < 4096")
  case True
  have "list_all (\<lambda>j. bit_get (rcb_bits bm) (unat (slot_base_subblock slot + of_nat j))) [0..<8]
      \<longleftrightarrow> (\<forall>j < 8. bit_get (rcb_bits bm) (8 * unat slot + j))"
    using True by (auto simp: list_all_iff slot_bit_index)
  also have "\<dots> \<longleftrightarrow> slot \<in> chunk_taken bm"
    using assms True unfolding chunk_wf_def chunk_taken_def
    by (metis (mono_tags, lifting) add.right_neutral mem_Collect_eq zero_less_numeral)
  finally show ?thesis
    using True assms slot_mark_eq(2) [of slot "rcb_bits bm"]
    by (simp add: nebula_root_chunk_free_dir_def Let_def word_le_nat_alt chunk_wf_def)
next
  case False
  then show ?thesis
    by (auto simp: nebula_root_chunk_free_dir_def word_le_nat_alt chunk_taken_def)
qed

definition one_slot :: "unit \<Rightarrow> u32 \<Rightarrow> u32 set" where
  "one_slot q k = {k}"

interpretation chunk: slot_allocator chunk_wf chunk_taken one_slot
  "\<lambda>_. nebula_root_chunk_alloc_dir" "\<lambda>_. nebula_root_chunk_free_dir"
proof unfold_locales
  fix q s s' k assume wf: "chunk_wf s" and a: "nebula_root_chunk_alloc_dir s = (Inr k, s')"
  show "chunk_wf s' \<and> one_slot q k \<noteq> {} \<and> one_slot q k \<inter> chunk_taken s = {} \<and> chunk_taken s' = chunk_taken s \<union> one_slot q k"
    using alloc_dir_cases [OF wf] a by (simp add: one_slot_def)
next
  fix s s' e assume wf: "chunk_wf s" and a: "nebula_root_chunk_alloc_dir s = (Inl e, s')"
  show "chunk_wf s' \<and> chunk_taken s \<subseteq> chunk_taken s'" using alloc_dir_cases [OF wf] a wf by simp
next
  fix q s s' u k assume wf: "chunk_wf s" and f: "nebula_root_chunk_free_dir s k = (Inr u, s')"
  then have "k \<noteq> 0" "unat k < 4096" "k \<in> chunk_taken s"
    by (auto simp: free_dir_cases chunk_taken_def split: if_splits)
  then show "chunk_wf s' \<and> one_slot q k \<subseteq> chunk_taken s \<and> chunk_taken s' = chunk_taken s - one_slot q k"
    using chunk_clear_slot [OF wf, of k] wf f by (auto simp: free_dir_cases one_slot_def)
next
  fix q s s' e k assume wf: "chunk_wf s" and f: "nebula_root_chunk_free_dir s k = (Inl e, s')"
  then show "chunk_wf s' \<and> chunk_taken s - one_slot q k \<subseteq> chunk_taken s'"
    by (auto simp: free_dir_cases split: if_splits)
qed

lemma chunk_init_wf: "chunk_wf nebula_root_chunk_bitmap_init" "chunk_taken nebula_root_chunk_bitmap_init = {0}"
proof -
  have b: "rcb_bits nebula_root_chunk_bitmap_init = set_bits (zeros 4096) 0 8"
    by (simp add: nebula_root_chunk_bitmap_init_def set_bits_def)
  have g: "bit_get (set_bits (zeros 4096) 0 8) i \<longleftrightarrow> i < 8" if "i < 32768" for i
    using that by (simp add: bit_get_set_bits)
  have i: "8 * s + j < 32768" if "s < 4096" "j < 8" for s j :: nat using that by linarith
  show "chunk_wf nebula_root_chunk_bitmap_init"
    unfolding chunk_wf_def b using g i g [of "8 * s" for s] by auto
  show "chunk_taken nebula_root_chunk_bitmap_init = {0}"
    unfolding chunk_taken_def b using g by (auto simp: word_unat_eq_iff)
qed

lemma free_slots_count:
  "fold (\<lambda>slot cnt. if P slot then cnt + 1 else cnt) xs (c :: u32) = c + of_nat (length (filter P xs))"
  by (induction xs arbitrary: c) auto

section \<open>Properties\<close>

text \<open>
  The chunk allocator refines a set of taken slots: it returns the lowest slot above 0
  that is free and adds exactly it, reports \<open>ENOSPC\<close> only when every slot is taken, and frees exactly
  the slot it is given, refusing slot 0 and slots that are free.
\<close>

theorem chunk_allocator_refines_set:
  assumes "chunk_wf bm"
  shows "(case nebula_root_chunk_alloc_dir bm of
      (Inl e, bm') \<Rightarrow> e = ENOSPC \<and> bm' = bm \<and> (\<forall>s. s \<noteq> 0 \<and> unat s < 4096 \<longrightarrow> s \<in> chunk_taken bm)
    | (Inr k, bm') \<Rightarrow> k \<noteq> 0 \<and> k \<notin> chunk_taken bm \<and> chunk_wf bm'
        \<and> chunk_taken bm' = insert k (chunk_taken bm) \<and> (\<forall>s. s \<noteq> 0 \<and> s < k \<longrightarrow> s \<in> chunk_taken bm))
    \<and> (case nebula_root_chunk_free_dir bm slot of
      (Inl e, bm') \<Rightarrow> e = EINVAL \<and> bm' = bm \<and> (slot = 0 \<or> slot \<notin> chunk_taken bm)
    | (Inr _, bm') \<Rightarrow> slot \<in> chunk_taken bm \<and> chunk_wf bm' \<and> chunk_taken bm' = chunk_taken bm - {slot})"
proof -
  have "slot \<noteq> 0 \<and> slot \<in> chunk_taken bm \<Longrightarrow> unat slot < 4096" by (simp add: chunk_taken_def)
  then show ?thesis
    using alloc_dir_cases [OF assms] chunk_clear_slot [OF assms, of slot]
    by (auto simp: free_dir_cases [OF assms] split: prod.splits sum.splits)
qed

theorem chunk_allocator_refines_set_witness:
  "chunk_wf nebula_root_chunk_bitmap_init
   \<and> nebula_root_chunk_free_dir nebula_root_chunk_bitmap_init 5 = (Inl EINVAL, nebula_root_chunk_bitmap_init)"
  using chunk_allocator_refines_set [OF chunk_init_wf(1), of 5] chunk_init_wf
    free_dir_cases [OF chunk_init_wf(1), of 5] by simp

text \<open>
  Starting from a fresh chunk, no sequence of allocations and releases ever hands out a
  slot that is still held, and slot 0, which stores the bitmap itself, is never handed out.
\<close>

theorem chunk_no_double_allocation:
  assumes "slot_run one_slot (\<lambda>_. nebula_root_chunk_alloc_dir) (\<lambda>_. nebula_root_chunk_free_dir) ops {} nebula_root_chunk_bitmap_init
    = (held, bm)"
  shows "held \<subseteq> chunk_taken bm
    \<and> (case nebula_root_chunk_alloc_dir bm of (Inr k, _) \<Rightarrow> k \<notin> held \<and> k \<noteq> 0 | _ \<Rightarrow> True)"
proof -
  have h: "chunk_wf bm" "held \<subseteq> chunk_taken bm"
    using chunk.run_held [OF chunk_init_wf(1) _ assms] by auto
  then show ?thesis using alloc_dir_cases [OF h(1)] by (auto split: prod.splits sum.splits)
qed

theorem chunk_no_double_allocation_witness:
  "\<exists>held bm. slot_run one_slot (\<lambda>_. nebula_root_chunk_alloc_dir) (\<lambda>_. nebula_root_chunk_free_dir)
      [Ask (), Ask (), Give () 1, Ask ()] {} nebula_root_chunk_bitmap_init = (held, bm) \<and> held \<subseteq> chunk_taken bm"
proof -
  obtain held bm where r: "slot_run one_slot (\<lambda>_. nebula_root_chunk_alloc_dir) (\<lambda>_. nebula_root_chunk_free_dir)
      [Ask (), Ask (), Give () 1, Ask ()] {} nebula_root_chunk_bitmap_init = (held, bm)" by (rule prod.exhaust)
  show ?thesis using chunk_no_double_allocation [OF r] r by blast
qed

text \<open>
  The free-slot counter is exact: it is the number of slots other than slot 0 that are
  not taken.
\<close>

theorem chunk_free_slots_exact:
  assumes "chunk_wf bm"
  shows "unat (nebula_root_chunk_free_slots bm) = card {s. s \<noteq> 0 \<and> unat s < 4096 \<and> s \<notin> chunk_taken bm}"
proof -
  let ?P = "\<lambda>s. slot_free (rcb_bits bm) (slot_base_subblock s)"
  have small: "length (filter ?P chunk_dir_slots) < 4294967296"
    by (rule le_less_trans [OF length_filter_le]) simp
  have set: "set chunk_dir_slots = {s. s \<noteq> 0 \<and> unat s < 4096}"
  proof (intro set_eqI iffI)
    fix s assume "s \<in> {s :: u32. s \<noteq> 0 \<and> unat s < 4096}"
    then have "s = of_nat (unat s)" "unat s \<in> {1..<4096}" by (auto simp: Suc_le_eq unat_gt_0)
    then show "s \<in> set chunk_dir_slots" by (metis NEBULA_ROOT_DIR_SLOTS_PER_CHUNK_def image_eqI set_map set_upt)
  qed (auto simp: unat_of_nat_u32 word_unat_eq_iff)
  have "inj_on (of_nat :: nat \<Rightarrow> u32) (set [1..<4096])"
    by (rule inj_onI) (auto simp: word_unat_eq_iff unat_of_nat_u32)
  then have "distinct chunk_dir_slots" by (simp add: distinct_map)
  then have "length (filter ?P chunk_dir_slots) = card (set (filter ?P chunk_dir_slots))"
    by (metis distinct_card distinct_filter)
  also have "set (filter ?P chunk_dir_slots) = {s. s \<noteq> 0 \<and> unat s < 4096 \<and> s \<notin> chunk_taken bm}"
    unfolding set_filter set using slot_free_iff [OF assms] by auto
  finally show ?thesis
    unfolding nebula_root_chunk_free_slots_def free_slots_count using small by (simp add: unat_of_nat_u32)
qed

theorem chunk_free_slots_exact_witness:
  "chunk_wf nebula_root_chunk_bitmap_init
   \<and> unat (nebula_root_chunk_free_slots nebula_root_chunk_bitmap_init)
     = card {s :: u32. s \<noteq> 0 \<and> unat s < 4096 \<and> s \<notin> chunk_taken nebula_root_chunk_bitmap_init}"
  using chunk_free_slots_exact chunk_init_wf(1) by blast

end
