(* ===== verification/Nebula_Dma_Pool.thy ===== *)
theory Nebula_Dma_Pool
  imports Nebula_Bytes
begin

unbundle bit_operations_syntax

text \<open>
  \<open>src/io/nebula_dma_pool.c\<close>: the buffer pool of the SPDK backend.  The free list lives inside the
  buffers it links: the first eight bytes of a free buffer hold the address of the next one.  The model
  therefore keeps the memory as bytes at addresses, and a pool operation takes and returns the memory.
  The DMA memory itself is a parameter, the result of \<open>nebula_spdk_dma_alloc\<close>.
\<close>

section \<open>The code\<close>

type_synonym memory = "nat \<Rightarrow> byte"

definition store_bytes :: "memory \<Rightarrow> nat \<Rightarrow> byte list \<Rightarrow> memory" where
  "store_bytes mem a bs = (\<lambda>i. if a \<le> i \<and> i < a + length bs then bs ! (i - a) else mem i)"

text \<open>\<open>node->next\<close>, read and written.\<close>

definition load_next :: "memory \<Rightarrow> u64 \<Rightarrow> u64" where
  "load_next mem node = le_word (map mem [unat node..<unat node + 8])"

definition store_next :: "memory \<Rightarrow> u64 \<Rightarrow> u64 \<Rightarrow> memory" where
  "store_next mem node v = store_bytes mem (unat node) (le_bytes 8 v)"

record nebula_dma_pool =
  dp_dma_base :: u64
  dp_free_head :: u64
  dp_n_bufs :: u32
  dp_buf_size :: u64
  dp_available :: u32

definition align_up :: "u64 \<Rightarrow> u64 \<Rightarrow> u64" where
  "align_up sz align = (sz + align - 1) AND NOT (align - 1)"

definition pool_buf_size :: "u64 \<Rightarrow> u64" where
  "pool_buf_size buf_size = (let aligned = align_up buf_size 4096 in if aligned < 8 then 8 else aligned)"

text \<open>The loop that links the buffers; \<open>ptr\<close> advances by the buffer size.\<close>

fun pool_link :: "nat \<Rightarrow> u64 \<Rightarrow> u64 \<Rightarrow> u64 \<Rightarrow> memory \<Rightarrow> u64 \<times> memory" where
  "pool_link 0 ptr aligned head mem = (head, mem)"
| "pool_link (Suc n) ptr aligned head mem = pool_link n (ptr + aligned) aligned ptr (store_next mem ptr head)"

text \<open>\<open>base\<close> is what the allocation of \<open>n_bufs * aligned\<close> bytes returned, \<open>None\<close> for a failure.\<close>

definition nebula_dma_pool_create ::
    "u32 \<Rightarrow> u64 \<Rightarrow> (u64 \<Rightarrow> u64 option) \<Rightarrow> memory \<Rightarrow> nebula_dma_pool option \<times> memory" where
  "nebula_dma_pool_create n_bufs buf_size dma_alloc mem =
     (if n_bufs = 0 \<or> buf_size = 0 then (None, mem)
      else
        let aligned = pool_buf_size buf_size; total = ucast n_bufs * aligned in
        case dma_alloc total of
          None \<Rightarrow> (None, mem)
        | Some base \<Rightarrow>
            (case pool_link (unat n_bufs) base aligned 0 mem of
               (head, mem') \<Rightarrow>
                 (Some \<lparr>dp_dma_base = base, dp_free_head = head, dp_n_bufs = n_bufs, dp_buf_size = aligned,
                        dp_available = n_bufs\<rparr>, mem')))"

text \<open>With no free buffer \<open>nebula_dma_pool_get\<close> spins and does not return: the value \<open>None\<close>.\<close>

definition nebula_dma_pool_get :: "nebula_dma_pool \<Rightarrow> memory \<Rightarrow> (u64 \<times> nebula_dma_pool \<times> memory) option" where
  "nebula_dma_pool_get pool mem =
     (if dp_free_head pool = 0 then None
      else
        let node = dp_free_head pool;
            pool1 = pool\<lparr>dp_free_head := load_next mem node, dp_available := dp_available pool - 1\<rparr>
        in Some (node, pool1, store_bytes mem (unat node) (replicate (unat (dp_buf_size pool)) 0)))"

definition nebula_dma_pool_put :: "nebula_dma_pool \<Rightarrow> memory \<Rightarrow> u64 \<Rightarrow> nebula_dma_pool \<times> memory" where
  "nebula_dma_pool_put pool mem buf =
     (if buf = 0 then (pool, mem)
      else (pool\<lparr>dp_free_head := buf, dp_available := dp_available pool + 1\<rparr>, store_next mem buf (dp_free_head pool)))"

definition nebula_dma_pool_available :: "nebula_dma_pool \<Rightarrow> u32" where
  "nebula_dma_pool_available pool = dp_available pool"

section \<open>The free list\<close>

definition buffers :: "nebula_dma_pool \<Rightarrow> u64 set" where
  "buffers p = (\<lambda>i. dp_dma_base p + of_nat i * dp_buf_size p) ` {..<unat (dp_n_bufs p)}"

fun chain :: "memory \<Rightarrow> u64 \<Rightarrow> u64 list \<Rightarrow> bool" where
  "chain mem h [] \<longleftrightarrow> h = 0"
| "chain mem h (x # xs) \<longleftrightarrow> h = x \<and> x \<noteq> 0 \<and> chain mem (load_next mem x) xs"

text \<open>The pool's memory is not the null page, does not wrap around, and holds a pointer per buffer.\<close>

definition pool_geometry :: "nebula_dma_pool \<Rightarrow> bool" where
  "pool_geometry p \<longleftrightarrow> dp_dma_base p \<noteq> 0 \<and> 8 \<le> unat (dp_buf_size p)
     \<and> unat (dp_dma_base p) + unat (dp_n_bufs p) * unat (dp_buf_size p) < 2 ^ 64"

definition pool_ok :: "memory \<Rightarrow> nebula_dma_pool \<Rightarrow> u64 list \<Rightarrow> bool" where
  "pool_ok mem p xs \<longleftrightarrow> pool_geometry p \<and> chain mem (dp_free_head p) xs \<and> distinct xs \<and> set xs \<subseteq> buffers p
     \<and> unat (dp_available p) = length xs"

lemma buffer_address:
  assumes "pool_geometry p" and "i < unat (dp_n_bufs p)"
  shows "unat (dp_dma_base p + of_nat i * dp_buf_size p) = unat (dp_dma_base p) + i * unat (dp_buf_size p)"
proof -
  have "i * unat (dp_buf_size p) \<le> unat (dp_n_bufs p) * unat (dp_buf_size p)" using assms(2) by simp
  then have b: "unat (dp_dma_base p) + i * unat (dp_buf_size p) < 2 ^ 64" using assms(1) unfolding pool_geometry_def by linarith
  have "dp_dma_base p + of_nat i * dp_buf_size p = of_nat (unat (dp_dma_base p) + i * unat (dp_buf_size p))" by simp
  moreover have "unat (of_nat (unat (dp_dma_base p) + i * unat (dp_buf_size p)) :: u64) = unat (dp_dma_base p) + i * unat (dp_buf_size p)"
    using b by (intro unat_of_nat_u64) simp
  ultimately show ?thesis by (simp only:)
qed

lemma buffers_apart:
  assumes g: "pool_geometry p" and x: "x \<in> buffers p" and y: "y \<in> buffers p" and ne: "x \<noteq> y"
  shows "unat x + unat (dp_buf_size p) \<le> unat y \<or> unat y + unat (dp_buf_size p) \<le> unat x"
proof -
  obtain i j where i: "i < unat (dp_n_bufs p)" "x = dp_dma_base p + of_nat i * dp_buf_size p"
    and j: "j < unat (dp_n_bufs p)" "y = dp_dma_base p + of_nat j * dp_buf_size p"
    using x y by (auto simp: buffers_def)
  have "i \<noteq> j" using ne i j by auto
  then consider "Suc i \<le> j" | "Suc j \<le> i" by linarith
  then show ?thesis
  proof cases
    case 1
    then have "Suc i * unat (dp_buf_size p) \<le> j * unat (dp_buf_size p)" by (rule mult_le_mono1)
    then show ?thesis using buffer_address [OF g i(1)] buffer_address [OF g j(1)] i(2) j(2) by simp
  next
    case 2
    then have "Suc j * unat (dp_buf_size p) \<le> i * unat (dp_buf_size p)" by (rule mult_le_mono1)
    then show ?thesis using buffer_address [OF g i(1)] buffer_address [OF g j(1)] i(2) j(2) by simp
  qed
qed

lemma buffer_nonnull: "pool_geometry p \<Longrightarrow> x \<in> buffers p \<Longrightarrow> x \<noteq> 0"
  using buffer_address [of p] by (fastforce simp: buffers_def pool_geometry_def unat_eq_zero dest: arg_cong [where f = unat])

lemma chain_cong:
  assumes "chain mem h xs" and "\<And>x. x \<in> set xs \<Longrightarrow> load_next mem' x = load_next mem x"
  shows "chain mem' h xs"
  using assms by (induction xs arbitrary: h) auto

lemma load_next_store_bytes:
  assumes "unat x + 8 \<le> a \<or> a + length bs \<le> unat x"
  shows "load_next (store_bytes mem a bs) x = load_next mem x"
proof -
  have "map (store_bytes mem a bs) [unat x..<unat x + 8] = map mem [unat x..<unat x + 8]"
    using assms by (auto simp: store_bytes_def)
  then show ?thesis by (simp only: load_next_def)
qed

lemma load_next_store_next: "load_next (store_next mem x v) x = v"
proof -
  have "map (store_next mem x v) [unat x..<unat x + 8] = le_bytes 8 v"
    by (rule nth_equalityI) (auto simp: store_next_def store_bytes_def)
  then show ?thesis by (simp add: load_next_def le_word_le_bytes)
qed

lemma store_other:
  assumes "pool_geometry p" and "x \<in> buffers p" and "a \<in> buffers p" and "x \<noteq> a" and "length bs \<le> unat (dp_buf_size p)"
  shows "load_next (store_bytes mem (unat a) bs) x = load_next mem x"
  using buffers_apart [OF assms(1-4)] assms(1,5) by (intro load_next_store_bytes) (auto simp: pool_geometry_def)

section \<open>Operations\<close>

lemma pool_ok_write:
  assumes ok: "pool_ok mem p xs" and x: "x \<in> buffers p" "x \<notin> set xs" and n: "length bs \<le> unat (dp_buf_size p)"
  shows "pool_ok (store_bytes mem (unat x) bs) p xs"
proof -
  have g: "pool_geometry p" "set xs \<subseteq> buffers p" using ok by (auto simp: pool_ok_def)
  have "load_next (store_bytes mem (unat x) bs) y = load_next mem y" if "y \<in> set xs" for y
    using store_other [OF g(1) _ x(1) _ n, of y] that g(2) x(2) by blast
  then show ?thesis using ok chain_cong unfolding pool_ok_def by blast
qed

lemma pool_free_bound:
  assumes "pool_ok mem p xs"
  shows "x \<in> buffers p \<Longrightarrow> x \<notin> set xs \<Longrightarrow> length xs < unat (dp_n_bufs p)"
proof -
  assume x: "x \<in> buffers p" "x \<notin> set xs"
  have "length xs = card (set xs)" using assms by (simp add: pool_ok_def distinct_card)
  also have "\<dots> < card (buffers p)"
    using assms x by (intro psubset_card_mono) (auto simp: pool_ok_def buffers_def)
  also have "\<dots> \<le> unat (dp_n_bufs p)" unfolding buffers_def by (metis card_image_le card_lessThan finite_lessThan)
  finally show "length xs < unat (dp_n_bufs p)" .
qed

lemma pool_get_ok:
  assumes ok: "pool_ok mem p (x # xs)"
  shows "\<exists>p' mem'. nebula_dma_pool_get p mem = Some (x, p', mem') \<and> pool_ok mem' p' xs \<and> buffers p' = buffers p
    \<and> (\<forall>i < unat (dp_buf_size p). mem' (unat x + i) = 0)"
proof -
  have c: "dp_free_head p = x" "x \<noteq> 0" "chain mem (load_next mem x) xs" "distinct xs" "x \<notin> set xs" "set xs \<subseteq> buffers p"
    "x \<in> buffers p" "unat (dp_available p) = Suc (length xs)" "pool_geometry p"
    using ok by (auto simp: pool_ok_def)
  define p' where "p' = p\<lparr>dp_free_head := load_next mem x, dp_available := dp_available p - 1\<rparr>"
  have b: "buffers p' = buffers p" "pool_geometry p' = pool_geometry p" "dp_buf_size p' = dp_buf_size p"
    by (simp_all add: buffers_def pool_geometry_def p'_def)
  have "unat (dp_available p - 1) = length xs" using c(8) by (simp add: unat_minus_le)
  then have ok': "pool_ok mem p' xs" using c b by (simp add: pool_ok_def p'_def)
  have "pool_ok (store_bytes mem (unat x) (replicate (unat (dp_buf_size p)) 0)) p' xs"
    using pool_ok_write [OF ok'] c(5,7) b by simp
  then show ?thesis using c(1,2) b(1) by (simp add: nebula_dma_pool_get_def p'_def store_bytes_def Let_def)
qed

lemma pool_put_ok:
  assumes ok: "pool_ok mem p xs" and x: "x \<in> buffers p" "x \<notin> set xs" and pt: "nebula_dma_pool_put p mem x = (p', mem')"
  shows "pool_ok mem' p' (x # xs)" and "buffers p' = buffers p"
proof -
  have g: "pool_geometry p" using ok by (simp add: pool_ok_def)
  note nz = buffer_nonnull [OF g x(1)]
  have e: "p' = p\<lparr>dp_free_head := x, dp_available := dp_available p + 1\<rparr>" "mem' = store_next mem x (dp_free_head p)"
    using pt nz by (auto simp: nebula_dma_pool_put_def)
  show b: "buffers p' = buffers p" using e(1) by (simp add: buffers_def)
  have "8 \<le> unat (dp_buf_size p)" using g by (simp add: pool_geometry_def)
  then have "pool_ok mem' p xs" using pool_ok_write [OF ok x, of "le_bytes 8 (dp_free_head p)"] e(2) by (simp add: store_next_def)
  moreover have "load_next mem' x = dp_free_head p" unfolding e(2) by (rule load_next_store_next)
  moreover have "unat (dp_available p + 1) = Suc (unat (dp_available p))"
  proof -
    have "unat (dp_available p) < unat (dp_n_bufs p)" using pool_free_bound [OF ok x] ok by (simp add: pool_ok_def)
    moreover have "unat (dp_n_bufs p) < 2 ^ 32" using unat_less_pow [of "dp_n_bufs p"] by simp
    ultimately have "unat (dp_available p) + unat (1 :: u32) < 2 ^ 32" by (simp only: unat_1)
    then show ?thesis by (subst unat_plus_if_small) auto
  qed
  ultimately show "pool_ok mem' p' (x # xs)"
    using x nz b unfolding pool_ok_def e(1) pool_geometry_def by simp
qed

lemma pool_link_chain:
  assumes "pool_link n ptr a h mem = (h', mem')" and "unat ptr + n * unat a < 2 ^ 64" and "ptr \<noteq> 0" and "8 \<le> unat a"
    and "chain mem h xs" and "\<forall>x \<in> set xs. unat x + 8 \<le> unat ptr" and "distinct xs"
  shows "\<exists>ys. chain mem' h' ys \<and> distinct ys \<and> length ys = length xs + n
    \<and> set ys = set xs \<union> (\<lambda>i. ptr + of_nat i * a) ` {..<n}"
  using assms
proof (induction n ptr a h mem arbitrary: xs rule: pool_link.induct)
  case (1 ptr a h mem)
  then show ?case by auto
next
  case (2 n ptr a h mem)
  have b: "unat ptr + unat a < 2 ^ 64" using "2.prems"(2) by simp
  have up: "unat (ptr + a) = unat ptr + unat a" using b by (subst unat_plus_if_small) auto
  have keep: "load_next (store_next mem ptr h) x = load_next mem x" if "x \<in> set xs" for x
    unfolding store_next_def using "2.prems"(6) that by (intro load_next_store_bytes) auto
  have "chain (store_next mem ptr h) ptr (ptr # xs)"
    using "2.prems"(3) chain_cong [OF "2.prems"(5) keep] by (simp add: load_next_store_next)
  moreover have "unat (ptr + a) + n * unat a < 2 ^ 64" using "2.prems"(2) up by simp
  moreover have "ptr + a \<noteq> 0" using up "2.prems"(4) by (auto dest: arg_cong [where f = unat])
  moreover have "\<forall>x \<in> set (ptr # xs). unat x + 8 \<le> unat (ptr + a)" using "2.prems"(4,6) up by auto
  moreover have "distinct (ptr # xs)" using "2.prems"(6,7) by fastforce
  moreover have "pool_link n (ptr + a) a ptr (store_next mem ptr h) = (h', mem')" using "2.prems"(1) by simp
  ultimately obtain ys where ys: "chain mem' h' ys" "distinct ys" "length ys = length (ptr # xs) + n"
    "set ys = set (ptr # xs) \<union> (\<lambda>i. ptr + a + of_nat i * a) ` {..<n}"
    using "2.IH" [of "ptr # xs"] "2.prems"(4) by blast
  have "(\<lambda>i. ptr + of_nat i * a) ` {..<Suc n} = insert ptr ((\<lambda>i. ptr + a + of_nat i * a) ` {..<n})"
    by (simp add: lessThan_Suc_eq_insert_0 image_image algebra_simps)
  then show ?case using ys by (intro exI [of _ ys]) auto
qed

section \<open>Properties\<close>

text \<open>
  A new pool owns its buffers: when the allocation succeeds and does not wrap around the
  address space, the free list runs through every buffer once.
\<close>

theorem dma_pool_create_ok:
  assumes "n_bufs \<noteq> 0" and "buf_size \<noteq> 0" and "dma_alloc (ucast n_bufs * pool_buf_size buf_size) = Some base"
    and "base \<noteq> 0" and "unat base + unat n_bufs * unat (pool_buf_size buf_size) < 2 ^ 64"
  shows "\<exists>p mem' xs. nebula_dma_pool_create n_bufs buf_size dma_alloc mem = (Some p, mem') \<and> pool_ok mem' p xs
    \<and> set xs = buffers p \<and> length xs = unat n_bufs"
proof -
  let ?a = "pool_buf_size buf_size"
  have a: "8 \<le> unat ?a" by (simp add: pool_buf_size_def Let_def word_less_nat_alt not_less)
  obtain h mem' where lk: "pool_link (unat n_bufs) base ?a 0 mem = (h, mem')" by (rule prod.exhaust)
  obtain xs where xs: "chain mem' h xs" "distinct xs" "length xs = unat n_bufs" "set xs = (\<lambda>i. base + of_nat i * ?a) ` {..<unat n_bufs}"
    using pool_link_chain [OF lk assms(5,4) a, of "[]"] by auto
  define p where "p = \<lparr>dp_dma_base = base, dp_free_head = h, dp_n_bufs = n_bufs, dp_buf_size = ?a, dp_available = n_bufs\<rparr>"
  have "nebula_dma_pool_create n_bufs buf_size dma_alloc mem = (Some p, mem')"
    using assms(1-3) lk by (simp add: nebula_dma_pool_create_def Let_def p_def)
  moreover have "set xs = buffers p" using xs(4) by (simp add: buffers_def p_def)
  moreover have "pool_ok mem' p xs" using xs a assms(4,5) by (simp add: pool_ok_def pool_geometry_def buffers_def p_def)
  ultimately show ?thesis using xs(3) by blast
qed

theorem dma_pool_create_ok_witness:
  "\<exists>p mem' xs. nebula_dma_pool_create 4 100 (\<lambda>_. Some 4096) (\<lambda>_. 0) = (Some p, mem') \<and> pool_ok mem' p xs \<and> length xs = 4"
proof -
  have "pool_buf_size 100 = 4096" by (simp add: pool_buf_size_def align_up_def)
  then show ?thesis using dma_pool_create_ok [of 4 100 "\<lambda>_. Some 4096" 4096 "\<lambda>_. 0"] by auto
qed

text \<open>
  Property C34.  The pool behaves as a stack of free buffers.  Borrowing returns the buffer on top, zeroed,
  and does not return when none is free; giving back a borrowed buffer puts it on top; and whatever a
  client writes inside a buffer it has borrowed, the free list stays intact.
\<close>

theorem dma_pool_stack:
  assumes "pool_ok mem p xs"
  shows "(case xs of
       [] \<Rightarrow> nebula_dma_pool_get p mem = None
     | x # ys \<Rightarrow> \<exists>p' mem'. nebula_dma_pool_get p mem = Some (x, p', mem') \<and> pool_ok mem' p' ys
         \<and> x \<in> buffers p' - set ys \<and> (\<forall>i < unat (dp_buf_size p). mem' (unat x + i) = 0))
    \<and> (\<forall>x \<in> buffers p - set xs. case nebula_dma_pool_put p mem x of (p', mem') \<Rightarrow> pool_ok mem' p' (x # xs))
    \<and> (\<forall>x \<in> buffers p - set xs. \<forall>bs. length bs \<le> unat (dp_buf_size p) \<longrightarrow> pool_ok (store_bytes mem (unat x) bs) p xs)"
proof (intro conjI)
  show "case xs of
       [] \<Rightarrow> nebula_dma_pool_get p mem = None
     | x # ys \<Rightarrow> \<exists>p' mem'. nebula_dma_pool_get p mem = Some (x, p', mem') \<and> pool_ok mem' p' ys
         \<and> x \<in> buffers p' - set ys \<and> (\<forall>i < unat (dp_buf_size p). mem' (unat x + i) = 0)"
  proof (cases xs)
    case Nil
    then show ?thesis using assms by (simp add: pool_ok_def nebula_dma_pool_get_def)
  next
    case (Cons x ys)
    have "x \<in> buffers p - set ys" using assms Cons by (auto simp: pool_ok_def)
    then show ?thesis using pool_get_ok [of mem p x ys] assms Cons by auto
  qed
qed (use assms pool_put_ok(1) pool_ok_write in \<open>auto split: prod.splits\<close>)

theorem dma_pool_stack_witness:
  "\<exists>p mem x p' mem'. nebula_dma_pool_create 1 100 (\<lambda>_. Some 4096) (\<lambda>_. 7) = (Some p, mem)
     \<and> nebula_dma_pool_get p mem = Some (x, p', mem') \<and> mem' (unat x + 50) = 0 \<and> nebula_dma_pool_get p' mem' = None"
proof -
  have sz: "pool_buf_size 100 = 4096" by (simp add: pool_buf_size_def align_up_def)
  define mem where "mem = store_next (\<lambda>_. 7) 4096 0"
  define p where "p = \<lparr>dp_dma_base = 4096, dp_free_head = 4096, dp_n_bufs = 1, dp_buf_size = 4096, dp_available = 1\<rparr>"
  have cr: "nebula_dma_pool_create 1 100 (\<lambda>_. Some 4096) (\<lambda>_. 7) = (Some p, mem)"
    by (simp add: nebula_dma_pool_create_def Let_def sz p_def mem_def)
  have ok: "pool_ok mem p [4096]"
    by (simp add: pool_ok_def pool_geometry_def buffers_def p_def mem_def load_next_store_next)
  obtain p' mem' where g: "nebula_dma_pool_get p mem = Some (4096, p', mem')" "pool_ok mem' p' []" "\<forall>i < 4096. mem' (4096 + i) = 0"
    using dma_pool_stack [OF ok] by (auto simp: p_def)
  have "nebula_dma_pool_get p' mem' = None" using dma_pool_stack [OF g(2)] by simp
  moreover have "mem' (unat (4096 :: u64) + 50) = 0" using g(3) [rule_format, of 50] by simp
  ultimately show ?thesis using cr g(1) by blast
qed

end
