(* ===== verification/Objstore_Common.thy ===== *)
theory Objstore_Common
  imports Nebula_Bytes "HOL-Library.List_Lexorder" "HOL-Library.Monad_Syntax"
begin

unbundle bit_operations_syntax

text \<open>
  \<open>src/objstore/common.h\<close> and \<open>common.cc\<close>: status codes, path validation, the big-endian integers of the
  metadata keys, and the encodings of the metadata values.  Strings are byte lists; a value body is in
  the byte order of the host, which is taken to be little-endian as for the on-disk structures.
\<close>

section \<open>Status codes and tunables\<close>

datatype status =
    OK | ERROR_NOT_FOUND | ERROR_ALREADY_EXISTS | ERROR_PARENT_NOT_FOUND | ERROR_OUT_OF_RANGE | ERROR_NO_SPACE
  | ERROR_IO_FAILURE | ERROR_METADATA | ERROR_INVALID_ARGUMENT | ERROR_INTERNAL

fun status_str :: "status \<Rightarrow> string" where
  "status_str OK = ''OK''"
| "status_str ERROR_NOT_FOUND = ''NOT_FOUND''"
| "status_str ERROR_ALREADY_EXISTS = ''ALREADY_EXISTS''"
| "status_str ERROR_PARENT_NOT_FOUND = ''PARENT_NOT_FOUND''"
| "status_str ERROR_OUT_OF_RANGE = ''OUT_OF_RANGE''"
| "status_str ERROR_NO_SPACE = ''NO_SPACE''"
| "status_str ERROR_IO_FAILURE = ''IO_FAILURE''"
| "status_str ERROR_METADATA = ''METADATA''"
| "status_str ERROR_INVALID_ARGUMENT = ''INVALID_ARGUMENT''"
| "status_str ERROR_INTERNAL = ''INTERNAL''"

definition kBlockSize :: u32 where "kBlockSize = 4096"
definition kChunkSize :: u32 where "kChunkSize = 64 * 1024 * 1024"
definition kChunkBlocks :: u32 where "kChunkBlocks = kChunkSize div kBlockSize"
definition kSchemaVersion :: u32 where "kSchemaVersion = 2"

section \<open>Paths\<close>

text \<open>The loop from position \<open>i\<close> over \<open>p\<close>; \<open>None\<close> is the early return on an empty component.\<close>

function path_scan :: "byte list \<Rightarrow> nat \<Rightarrow> nat \<Rightarrow> nat \<Rightarrow> nat option" where
  "path_scan p i start count =
     (if i \<le> length p then
        let at_end = (i = length p); is_sep = (\<not> at_end \<and> p ! i = 0x2F) in
        if is_sep \<or> at_end then
          if i = start then None else path_scan p (i + 1) (i + 1) (count + 1)
        else path_scan p (i + 1) start count
      else Some count)"
  by pat_completeness auto
termination
  by (relation "measure (\<lambda>(p, i, s, c). Suc (length p) - i)") auto

declare path_scan.simps [simp del]

definition validate_object_path :: "byte list \<Rightarrow> bool" where
  "validate_object_path p \<longleftrightarrow>
     (if length p < 5 then False else if p ! 0 \<noteq> 0x2F then False else path_scan p 1 1 0 = Some 4)"

section \<open>Big-endian integers\<close>

definition put_be16 :: "byte list \<Rightarrow> u16 \<Rightarrow> byte list" where
  "put_be16 out v = out @ [ucast (drop_bit 8 v), ucast v]"

definition put_be32 :: "byte list \<Rightarrow> u32 \<Rightarrow> byte list" where
  "put_be32 out v = out @ [ucast (drop_bit 24 v), ucast (drop_bit 16 v), ucast (drop_bit 8 v), ucast v]"

definition put_be64 :: "byte list \<Rightarrow> u64 \<Rightarrow> byte list" where
  "put_be64 out v = out @ fold (\<lambda>i b. b[7 - i := ucast (drop_bit (i * 8) v)]) [0..<8] (replicate 8 0)"

definition get_be16 :: "byte list \<Rightarrow> u16" where
  "get_be16 p = push_bit 8 (ucast (p ! 0)) OR ucast (p ! 1)"

definition get_be32 :: "byte list \<Rightarrow> u32" where
  "get_be32 p = push_bit 24 (ucast (p ! 0)) OR push_bit 16 (ucast (p ! 1)) OR push_bit 8 (ucast (p ! 2)) OR ucast (p ! 3)"

definition get_be64 :: "byte list \<Rightarrow> u64" where
  "get_be64 p = fold (\<lambda>i v. push_bit 8 v OR ucast (p ! i)) [0..<8] 0"

section \<open>Values\<close>

text \<open>\<open>put_pod\<close> and \<open>get_pod\<close>: the position is threaded through, \<open>None\<close> is the result \<open>false\<close>.\<close>

definition put_pod :: "byte list \<Rightarrow> nat \<Rightarrow> 'a::len word \<Rightarrow> byte list" where
  "put_pod out n v = out @ le_bytes n v"

definition get_pod :: "byte list \<Rightarrow> nat \<Rightarrow> nat \<Rightarrow> ('a::len word \<times> nat) option" where
  "get_pod buf n pos = (if pos + n > length buf then None else Some (le_word (seg pos n buf), pos + n))"

record object_attrs =
  oa_object_id :: u64
  oa_size :: u64
  oa_ctime_ns :: u64
  oa_mtime_ns :: u64
  oa_version :: u64
  oa_num_extents :: u64

definition encode_attrs :: "object_attrs \<Rightarrow> byte list" where
  "encode_attrs a =
     put_pod (put_pod (put_pod (put_pod (put_pod (put_pod [] 8 (oa_object_id a)) 8 (oa_size a)) 8 (oa_ctime_ns a))
       8 (oa_mtime_ns a)) 8 (oa_version a)) 8 (oa_num_extents a)"

definition decode_attrs :: "byte list \<Rightarrow> object_attrs option" where
  "decode_attrs buf = do {
     (i, p1) \<leftarrow> get_pod buf 8 0;
     (s, p2) \<leftarrow> get_pod buf 8 p1;
     (c, p3) \<leftarrow> get_pod buf 8 p2;
     (m, p4) \<leftarrow> get_pod buf 8 p3;
     (v, p5) \<leftarrow> get_pod buf 8 p4;
     (n, p6) \<leftarrow> get_pod buf 8 p5;
     if p6 = length buf
     then Some \<lparr>oa_object_id = i, oa_size = s, oa_ctime_ns = c, oa_mtime_ns = m, oa_version = v, oa_num_extents = n\<rparr>
     else None}"

record extent_entry =
  ee_chunk_id :: u32
  ee_chunk_idx :: u16
  ee_reserved :: u16
  ee_offset_in_chunk :: u32
  ee_length :: u32
  ee_checksum :: u64

definition encode_extent :: "extent_entry \<Rightarrow> byte list" where
  "encode_extent e =
     put_pod (put_pod (put_pod (put_pod (put_pod (put_pod [] 4 (ee_chunk_id e)) 2 (ee_chunk_idx e)) 2 (ee_reserved e))
       4 (ee_offset_in_chunk e)) 4 (ee_length e)) 8 (ee_checksum e)"

definition decode_extent :: "byte list \<Rightarrow> extent_entry option" where
  "decode_extent buf = do {
     (c, p1) \<leftarrow> get_pod buf 4 0;
     (i, p2) \<leftarrow> get_pod buf 2 p1;
     (r, p3) \<leftarrow> get_pod buf 2 p2;
     (f, p4) \<leftarrow> get_pod buf 4 p3;
     (l, p5) \<leftarrow> get_pod buf 4 p4;
     (s, p6) \<leftarrow> get_pod buf 8 p5;
     if p6 = length buf
     then Some \<lparr>ee_chunk_id = c, ee_chunk_idx = i, ee_reserved = r, ee_offset_in_chunk = f, ee_length = l, ee_checksum = s\<rparr>
     else None}"

record chunk =
  ck_chunk_id :: u32
  ck_lba_start :: u64
  ck_write_offset :: u32
  ck_next_idx :: u32
  ck_sealed :: bool

definition encode_chunk :: "chunk \<Rightarrow> byte list" where
  "encode_chunk c =
     put_pod (put_pod (put_pod (put_pod (put_pod [] 4 (ck_chunk_id c)) 8 (ck_lba_start c)) 4 (ck_write_offset c))
       4 (ck_next_idx c)) 1 (if ck_sealed c then 1 else 0 :: byte)"

definition decode_chunk :: "byte list \<Rightarrow> chunk option" where
  "decode_chunk buf = do {
     (c, p1) \<leftarrow> get_pod buf 4 0;
     (l, p2) \<leftarrow> get_pod buf 8 p1;
     (w, p3) \<leftarrow> get_pod buf 4 p2;
     (n, p4) \<leftarrow> get_pod buf 4 p3;
     (s, p5) \<leftarrow> get_pod buf 1 p4;
     if p5 = length buf
     then Some \<lparr>ck_chunk_id = c, ck_lba_start = l, ck_write_offset = w, ck_next_idx = n, ck_sealed = ((s :: byte) \<noteq> 0)\<rparr>
     else None}"

record chunk_rev_entry =
  cr_oid :: u64
  cr_logical_offset :: u64
  cr_length :: u32
  cr_reserved :: u32

definition encode_chunk_rev :: "chunk_rev_entry \<Rightarrow> byte list" where
  "encode_chunk_rev e =
     put_pod (put_pod (put_pod (put_pod [] 8 (cr_oid e)) 8 (cr_logical_offset e)) 4 (cr_length e)) 4 (cr_reserved e)"

definition decode_chunk_rev :: "byte list \<Rightarrow> chunk_rev_entry option" where
  "decode_chunk_rev buf = do {
     (i, p1) \<leftarrow> get_pod buf 8 0;
     (f, p2) \<leftarrow> get_pod buf 8 p1;
     (l, p3) \<leftarrow> get_pod buf 4 p2;
     (r, p4) \<leftarrow> get_pod buf 4 p3;
     if p4 = length buf then Some \<lparr>cr_oid = i, cr_logical_offset = f, cr_length = l, cr_reserved = r\<rparr> else None}"

section \<open>Lemmas\<close>

lemma get_pod_append:
  assumes "length a = pos" and "LENGTH('a::len) = 8 * n"
  shows "get_pod (a @ le_bytes n (v :: 'a word) @ b) n pos = Some (v, pos + n)"
  using assms by (simp add: get_pod_def seg_def le_word_le_bytes)

lemma pods_roundtrip:
  "decode_attrs (encode_attrs a) = Some a" "decode_extent (encode_extent e) = Some e"
  "decode_chunk (encode_chunk c) = Some c" "decode_chunk_rev (encode_chunk_rev r) = Some r"
  by (simp_all add: decode_attrs_def encode_attrs_def decode_extent_def encode_extent_def decode_chunk_def encode_chunk_def
      decode_chunk_rev_def encode_chunk_rev_def put_pod_def get_pod_def seg_def le_word_le_bytes)

lemma pods_length:
  "decode_attrs b = Some a \<Longrightarrow> length b = 48" "decode_extent b = Some e \<Longrightarrow> length b = 24"
  "decode_chunk b = Some c \<Longrightarrow> length b = 21" "decode_chunk_rev b = Some r \<Longrightarrow> length b = 24"
  by (auto simp: decode_attrs_def decode_extent_def decode_chunk_def decode_chunk_rev_def get_pod_def split: if_splits)

lemma pods_defined:
  "length b = 48 \<Longrightarrow> decode_attrs b \<noteq> None" "length b = 24 \<Longrightarrow> decode_extent b \<noteq> None"
  "length b = 21 \<Longrightarrow> decode_chunk b \<noteq> None" "length b = 24 \<Longrightarrow> decode_chunk_rev b \<noteq> None"
  by (simp_all add: decode_attrs_def decode_extent_def decode_chunk_def decode_chunk_rev_def get_pod_def)

lemma put_be_le: "put_be16 out v16 = out @ rev (le_bytes 2 v16)" "put_be32 out v32 = out @ rev (le_bytes 4 v32)"
    "put_be64 out v64 = out @ rev (le_bytes 8 v64)"
  by (simp_all add: put_be16_def put_be32_def put_be64_def le_bytes_def numeral_eq_Suc)

lemma foldl_le_word: "foldl (\<lambda>v b. push_bit 8 v OR ucast b) 0 bs = (le_word (rev bs) :: 'a::len word)"
  by (induction bs rule: rev_induct) (simp_all add: or.commute)

lemma get_be64_fold: "length p = 8 \<Longrightarrow> get_be64 p = foldl (\<lambda>v b. push_bit 8 v OR ucast b) 0 p"
proof -
  assume l: "length p = 8"
  have "foldl (\<lambda>v b. push_bit 8 v OR ucast b) (0 :: u64) (map (\<lambda>i. p ! i) [0..<8]) = get_be64 p"
    by (simp add: get_be64_def foldl_conv_fold fold_map comp_def)
  moreover have "map (\<lambda>i. p ! i) [0..<8] = p" using l by (metis map_nth)
  ultimately show ?thesis by simp
qed

lemma be_roundtrip: "get_be16 (put_be16 [] v16) = v16" "get_be32 (put_be32 [] v32) = v32" "get_be64 (put_be64 [] v64) = v64"
proof -
  show "get_be16 (put_be16 [] v16) = v16"
    by (rule bit_word_eqI) (auto simp: get_be16_def put_be16_def bit_simps)
  have "get_be32 [a, b, c, d] = le_word [d, c, b, a]" for a b c d
    by (simp add: get_be32_def push_bit_or push_bit_push_bit or.assoc or.commute or.left_commute)
  moreover have "put_be32 [] v32 = [ucast (drop_bit 24 v32), ucast (drop_bit 16 v32), ucast (drop_bit 8 v32), ucast v32]"
    by (simp add: put_be32_def)
  moreover have "le_bytes 4 v32 = [ucast v32, ucast (drop_bit 8 v32), ucast (drop_bit 16 v32), ucast (drop_bit 24 v32)]"
    by (simp add: le_bytes_def numeral_eq_Suc)
  moreover have "le_word (le_bytes 4 v32) = v32" by (simp add: le_word_le_bytes)
  ultimately show "get_be32 (put_be32 [] v32) = v32" by simp
  show "get_be64 (put_be64 [] v64) = v64"
    by (simp add: put_be_le get_be64_fold foldl_le_word le_word_le_bytes)
qed

text \<open>The value of a byte string in base 256, the first byte the most significant.\<close>

fun be_val :: "byte list \<Rightarrow> nat" where
  "be_val [] = 0"
| "be_val (b # bs) = unat b * 256 ^ length bs + be_val bs"

lemma be_val_bound: "be_val bs < 256 ^ length bs"
proof (induction bs)
  case (Cons b bs)
  have "unat b < 256" using unat_less_pow [of b] by simp
  then have "unat b + 1 \<le> 256" by simp
  then have le: "(unat b + 1) * 256 ^ length bs \<le> 256 * 256 ^ length bs" by (rule mult_le_mono1)
  have "be_val (b # bs) < (unat b + 1) * 256 ^ length bs" using Cons by simp
  also note le
  finally show ?case by simp
qed simp

lemma be_val_less: "length bs = length cs \<Longrightarrow> bs < cs \<longleftrightarrow> be_val bs < be_val cs"
proof (induction bs cs rule: list_induct2)
  case (Cons b bs c cs)
  have r: "be_val bs < 256 ^ length bs" "be_val cs < 256 ^ length bs" using be_val_bound Cons.hyps by metis+
  consider "unat b < unat c" | "unat c < unat b" | "b = c" by (metis linorder_neqE_nat word_unat_eq_iff)
  then show ?case
  proof cases
    case 1
    then have "(unat b + 1) * 256 ^ length bs \<le> unat c * 256 ^ length bs" by (intro mult_le_mono1) simp
    then have "be_val (b # bs) < be_val (c # cs)" using r Cons.hyps by (simp add: algebra_simps)
    then show ?thesis using 1 by (simp add: word_less_nat_alt)
  next
    case 2
    then have "(unat c + 1) * 256 ^ length bs \<le> unat b * 256 ^ length bs" by (intro mult_le_mono1) simp
    then have "be_val (c # cs) < be_val (b # bs)" using r Cons.hyps by (simp add: algebra_simps)
    then show ?thesis using 2 by (auto simp: word_less_nat_alt)
  next
    case 3
    then show ?thesis using Cons by simp
  qed
qed simp

lemma be_val_rev_le_bytes:
  "LENGTH('a::len) = 8 * n \<Longrightarrow> be_val (rev (le_bytes n w)) = unat (w :: 'a word)"
proof -
  assume n: "LENGTH('a) = 8 * n"
  have "be_val (rev (map (\<lambda>i. ucast (drop_bit (8 * i) w)) [0..<k])) = unat w mod 256 ^ k" for k
  proof (induction k)
    case (Suc k)
    have "unat (drop_bit (8 * k) w) = unat w div 256 ^ k"
      unfolding unat_drop_bit_eq by (simp add: drop_bit_eq_div power_mult)
    then have "unat (ucast (drop_bit (8 * k) w) :: byte) = unat w div 256 ^ k mod 256"
      by (simp add: unsigned_ucast_eq take_bit_eq_mod)
    moreover have "unat w mod 256 ^ Suc k = unat w div 256 ^ k mod 256 * 256 ^ k + unat w mod 256 ^ k"
      using mod_mult2_eq [of "unat w" "256 ^ k" 256] by (simp add: mult.commute)
    ultimately show ?case using Suc by simp
  qed simp
  moreover have "unat w < 256 ^ n" using unat_less_pow [of w] n by (simp add: power_mult)
  ultimately show ?thesis by (simp add: le_bytes_def)
qed

lemma be_order: "put_be64 [] v < put_be64 [] w \<longleftrightarrow> v < w" "put_be32 [] a < put_be32 [] b \<longleftrightarrow> a < b"
  by (simp_all add: put_be_le be_val_less be_val_rev_le_bytes word_less_nat_alt)

section \<open>Components of a path\<close>

fun split_path :: "byte list \<Rightarrow> byte list list" where
  "split_path [] = [[]]"
| "split_path (c # cs) = (if c = 0x2F then [] # split_path cs
     else (c # hd (split_path cs)) # tl (split_path cs))"

lemma split_path_ne [simp]: "split_path p \<noteq> []"
  by (cases p) auto

lemma split_path_sep: "0x2F \<notin> set a \<Longrightarrow> split_path (a @ 0x2F # b) = a # split_path b"
  by (induction a) auto

lemma split_path_last: "0x2F \<notin> set a \<Longrightarrow> split_path a = [a]"
  by (induction a) auto

lemma split_path_join:
  "split_path p = cs \<Longrightarrow> (\<forall>c \<in> set cs. 0x2F \<notin> set c) \<and> p = concat (map (\<lambda>c. 0x2F # c) (tl cs)) \<and> hd cs = []
   \<or> (\<forall>c \<in> set cs. 0x2F \<notin> set c) \<and> p = hd cs @ concat (map (\<lambda>c. 0x2F # c) (tl cs))"
proof (induction p arbitrary: cs)
  case (Cons c p)
  obtain d ds where d: "split_path p = d # ds" by (cases "split_path p") auto
  show ?case using Cons.IH [OF d] Cons.prems d by (auto split: if_splits)
qed auto

lemma path_scan_split:
  assumes "start \<le> i" and "i \<le> length p" and "0x2F \<notin> set (seg start (i - start) p)"
  shows "path_scan p i start count
    = (if [] \<in> set (split_path (drop start p)) then None else Some (count + length (split_path (drop start p))))"
  using assms
proof (induction p i start count rule: path_scan.induct)
  case (1 p i start count)
  have pre: "drop start p = seg start (i - start) p @ drop i p" using "1.prems"(1) by (simp add: seg_append_drop)
  have ln: "length (seg start (i - start) p) = i - start" using "1.prems" by simp
  note step = path_scan.simps [of p i start count]
  consider (fin) "i = length p" | (sep) "i < length p" "p ! i = 0x2F" | (other) "i < length p" "p ! i \<noteq> 0x2F"
    using "1.prems"(2) by linarith
  then show ?case
  proof cases
    case fin
    have sp: "split_path (drop start p) = [seg start (i - start) p]" using pre fin split_path_last [OF "1.prems"(3)] by simp
    have "path_scan p (i + 1) (i + 1) (count + 1) = Some (count + 1)" using fin by (simp add: path_scan.simps)
    moreover have "seg start (i - start) p = [] \<longleftrightarrow> i = start" using ln "1.prems"(1) by (metis diff_is_0_eq le_antisym length_0_conv diff_self_eq_0)
    ultimately show ?thesis unfolding sp step using fin by (simp add: Let_def eq_commute [of "[]"])
  next
    case sep
    have "drop i p = 0x2F # drop (i + 1) p" using sep by (metis Cons_nth_drop_Suc Suc_eq_plus1)
    then have sp: "split_path (drop start p) = seg start (i - start) p # split_path (drop (i + 1) p)"
      using pre split_path_sep [OF "1.prems"(3)] by simp
    show ?thesis
    proof (cases "i = start")
      case True
      then show ?thesis unfolding sp step using sep by (simp add: Let_def seg_def)
    next
      case False
      have IH: "path_scan p (i + 1) (i + 1) (count + 1)
        = (if [] \<in> set (split_path (drop (i + 1) p)) then None else Some (count + 1 + length (split_path (drop (i + 1) p))))"
        using "1.IH"(1) [OF _ refl refl _ False] sep by (simp add: seg_def)
      have "length (seg start (i - start) p) \<noteq> 0" using ln False "1.prems"(1) by linarith
      then have "seg start (i - start) p \<noteq> []" by blast
      then show ?thesis unfolding sp step using sep False IH by (simp add: Let_def)
    qed
  next
    case other
    have "seg start (i + 1 - start) p = seg start (i - start) p @ [p ! i]"
      using other "1.prems"(1) by (simp add: seg_def Suc_diff_le take_Suc_conv_app_nth)
    then have "0x2F \<notin> set (seg start (i + 1 - start) p)" using "1.prems"(3) other by simp
    then have "path_scan p (i + 1) start count
        = (if [] \<in> set (split_path (drop start p)) then None else Some (count + length (split_path (drop start p))))"
      using "1.IH"(2) [OF _ refl refl] other "1.prems"(1) by simp
    then show ?thesis unfolding step using other by (simp add: Let_def)
  qed
qed

lemma split_path_four:
  "(\<exists>a b c d. p = a @ 0x2F # b @ 0x2F # c @ 0x2F # d \<and> a \<noteq> [] \<and> b \<noteq> [] \<and> c \<noteq> [] \<and> d \<noteq> []
     \<and> 0x2F \<notin> set a \<union> set b \<union> set c \<union> set d) \<longleftrightarrow> [] \<notin> set (split_path p) \<and> length (split_path p) = 4"
proof
  assume "\<exists>a b c d. p = a @ 0x2F # b @ 0x2F # c @ 0x2F # d \<and> a \<noteq> [] \<and> b \<noteq> [] \<and> c \<noteq> [] \<and> d \<noteq> []
     \<and> 0x2F \<notin> set a \<union> set b \<union> set c \<union> set d"
  then show "[] \<notin> set (split_path p) \<and> length (split_path p) = 4"
    by (auto simp: split_path_sep split_path_last)
next
  assume r: "[] \<notin> set (split_path p) \<and> length (split_path p) = 4"
  then obtain a b c d where sp: "split_path p = [a, b, c, d]" by (auto simp: length_Suc_conv numeral_eq_Suc)
  have "a \<noteq> []" using r sp by auto
  then have "(\<forall>c \<in> set [a, b, c, d]. 0x2F \<notin> set c) \<and> p = a @ concat (map (\<lambda>c. 0x2F # c) [b, c, d])"
    using split_path_join [OF sp] by auto
  then show "\<exists>a b c d. p = a @ 0x2F # b @ 0x2F # c @ 0x2F # d \<and> a \<noteq> [] \<and> b \<noteq> [] \<and> c \<noteq> [] \<and> d \<noteq> []
     \<and> 0x2F \<notin> set a \<union> set b \<union> set c \<union> set d"
    using r sp by (intro exI [of _ a] exI [of _ b] exI [of _ c] exI [of _ d]) auto
qed

section \<open>Properties\<close>

text \<open>
  A path is accepted exactly when it consists of four components, none empty and none
  containing a slash, each preceded by a slash.
\<close>

theorem validate_object_path_iff:
  "validate_object_path p \<longleftrightarrow> (\<exists>a b c d. p = 0x2F # a @ 0x2F # b @ 0x2F # c @ 0x2F # d
     \<and> a \<noteq> [] \<and> b \<noteq> [] \<and> c \<noteq> [] \<and> d \<noteq> [] \<and> 0x2F \<notin> set a \<union> set b \<union> set c \<union> set d)"
proof (cases p)
  case Nil
  then show ?thesis by (simp add: validate_object_path_def)
next
  case (Cons x q)
  have "path_scan p 1 1 0 = (if [] \<in> set (split_path q) then None else Some (length (split_path q)))"
    using path_scan_split [of 1 1 p 0] Cons by (simp add: seg_def)
  then have "path_scan p 1 1 0 = Some 4 \<longleftrightarrow> [] \<notin> set (split_path q) \<and> length (split_path q) = 4" by auto
  also have "\<dots> \<longleftrightarrow> (\<exists>a b c d. q = a @ 0x2F # b @ 0x2F # c @ 0x2F # d \<and> a \<noteq> [] \<and> b \<noteq> [] \<and> c \<noteq> [] \<and> d \<noteq> []
     \<and> 0x2F \<notin> set a \<union> set b \<union> set c \<union> set d)" (is "_ \<longleftrightarrow> ?four q") by (rule split_path_four [symmetric])
  finally have s: "path_scan p 1 1 0 = Some 4 \<longleftrightarrow> ?four q" .
  have len: "5 \<le> length p" if "?four q"
  proof -
    obtain a b c d where "q = a @ 0x2F # b @ 0x2F # c @ 0x2F # d" "a \<noteq> []" using \<open>?four q\<close> by blast
    then show ?thesis using Cons by (cases a) auto
  qed
  have "validate_object_path p \<longleftrightarrow> 5 \<le> length p \<and> x = 0x2F \<and> ?four q"
    using s Cons by (auto simp: validate_object_path_def)
  then show ?thesis using len Cons by auto
qed

text \<open>
  Metadata keys sort as numbers: the big-endian encodings of two integers compare, byte by
  byte, as the integers do, and decoding returns the integer.
\<close>

theorem be_keys_ordered:
  "(put_be64 pre v < put_be64 pre w \<longleftrightarrow> v < w) \<and> get_be64 (drop (length pre) (put_be64 pre v)) = v
   \<and> (put_be32 pre a < put_be32 pre b \<longleftrightarrow> a < b) \<and> get_be32 (drop (length pre) (put_be32 pre a)) = a"
proof -
  have pre: "put_be64 pre x = pre @ put_be64 [] x" "put_be32 pre y = pre @ put_be32 [] y" for x y
    by (simp_all add: put_be_le)
  have "pre @ (xs :: byte list) < pre @ ys \<longleftrightarrow> xs < ys" for xs ys by (induction pre) auto
  then show ?thesis unfolding pre(1) [of v] pre(1) [of w] pre(2) [of a] pre(2) [of b]
    using be_order be_roundtrip by simp
qed

text \<open>
  The metadata values read back as they were written, and a value of the wrong length is
  rejected.
\<close>

theorem metadata_values_roundtrip:
  "decode_attrs (encode_attrs a) = Some a \<and> decode_extent (encode_extent e) = Some e
   \<and> decode_chunk (encode_chunk c) = Some c \<and> decode_chunk_rev (encode_chunk_rev r) = Some r
   \<and> (decode_attrs buf = None \<longleftrightarrow> length buf \<noteq> 48) \<and> (decode_extent buf = None \<longleftrightarrow> length buf \<noteq> 24)
   \<and> (decode_chunk buf = None \<longleftrightarrow> length buf \<noteq> 21) \<and> (decode_chunk_rev buf = None \<longleftrightarrow> length buf \<noteq> 24)"
proof -
  have "(decode_attrs buf = None) = (length buf \<noteq> 48)" "(decode_extent buf = None) = (length buf \<noteq> 24)"
    "(decode_chunk buf = None) = (length buf \<noteq> 21)" "(decode_chunk_rev buf = None) = (length buf \<noteq> 24)"
    using pods_length [of buf] pods_defined [of buf] by (metis option.exhaust)+
  then show ?thesis using pods_roundtrip by simp
qed

end
