(* ===== verification/Objstore_Metadata.thy ===== *)
theory Objstore_Metadata
  imports Objstore_Common
begin

unbundle bit_operations_syntax

text \<open>
  \<open>src/objstore/metadata.cc\<close>: the metadata of the object store in RocksDB.  RocksDB is a parameter, a
  record of the calls that the code makes; what the code relies on is the locale \<open>rocksdb_store\<close>:
  reads return what was last written, a batch is applied as a whole, and an iterator visits the entries
  in the byte order of their keys.
\<close>

section \<open>RocksDB\<close>

datatype kv_result = Found "byte list" | NotFound | KvError

text \<open>
  \<open>Get\<close>, \<open>Put\<close>, \<open>Write\<close> of a batch, the entries an iterator visits, in order, and whether its final
  \<open>status()\<close> is ok.  A write returns whether it succeeded.
\<close>

record 'db rocksdb =
  kv_get :: "'db \<Rightarrow> byte list \<Rightarrow> kv_result"
  kv_put :: "'db \<Rightarrow> byte list \<Rightarrow> byte list \<Rightarrow> bool \<times> 'db"
  kv_write :: "'db \<Rightarrow> (byte list \<times> byte list) list \<Rightarrow> bool \<times> 'db"
  kv_entries :: "'db \<Rightarrow> (byte list \<times> byte list) list"
  kv_iter_ok :: "'db \<Rightarrow> bool"

text \<open>A position of an iterator is the list of entries from there on; the empty list is not valid.\<close>

definition kv_seek :: "(byte list \<times> byte list) list \<Rightarrow> byte list \<Rightarrow> (byte list \<times> byte list) list" where
  "kv_seek es target = dropWhile (\<lambda>e. fst e < target) es"

definition kv_seek_for_prev :: "(byte list \<times> byte list) list \<Rightarrow> byte list \<Rightarrow> (byte list \<times> byte list) list" where
  "kv_seek_for_prev es target =
     (let n = length (takeWhile (\<lambda>e. fst e \<le> target) es) in if n = 0 then [] else drop (n - 1) es)"

section \<open>Keys\<close>

definition bytes_of :: "string \<Rightarrow> byte list" where
  "bytes_of s = map of_char s"

definition key_path :: "byte list \<Rightarrow> byte list" where
  "key_path p = bytes_of ''ph:'' @ p"

definition key_attrs :: "u64 \<Rightarrow> byte list" where
  "key_attrs oid = put_be64 (bytes_of ''at:'') oid"

definition key_extent_prefix :: "u64 \<Rightarrow> byte list" where
  "key_extent_prefix oid = put_be64 (bytes_of ''ex:'') oid"

definition key_extent :: "u64 \<Rightarrow> u64 \<Rightarrow> byte list" where
  "key_extent oid logical_offset = put_be64 (key_extent_prefix oid) logical_offset"

definition key_chunk :: "u32 \<Rightarrow> byte list" where
  "key_chunk cid = put_be32 (bytes_of ''ck:'') cid"

definition key_chunk_rev :: "u32 \<Rightarrow> u16 \<Rightarrow> byte list" where
  "key_chunk_rev cid idx = put_be16 (put_be32 (bytes_of ''ci:'') cid) idx"

definition kKeyNextObj :: "byte list" where "kKeyNextObj = bytes_of ''ct:next_object_id''"
definition kKeyNextChunk :: "byte list" where "kKeyNextChunk = bytes_of ''ct:next_chunk_id''"
definition kKeySchema :: "byte list" where "kKeySchema = bytes_of ''ct:schema_version''"
definition kKeyRootDir :: "byte list" where "kKeyRootDir = bytes_of ''ph:/''"

definition pod_to_string :: "nat \<Rightarrow> 'a::len word \<Rightarrow> byte list" where
  "pod_to_string n v = le_bytes n v"

definition string_to_pod :: "nat \<Rightarrow> byte list \<Rightarrow> 'a::len word option" where
  "string_to_pod n s = (if length s \<noteq> n then None else Some (le_word s))"

section \<open>The store\<close>

record 'db metadata_store =
  ms_db :: 'db
  ms_next_object_id :: u64
  ms_next_chunk_id :: u32

definition persist_counters_locked :: "'db rocksdb \<Rightarrow> 'db metadata_store \<Rightarrow> status \<times> 'db metadata_store" where
  "persist_counters_locked R ms =
     (case kv_write R (ms_db ms) [(kKeyNextObj, pod_to_string 8 (ms_next_object_id ms)),
                                  (kKeyNextChunk, pod_to_string 4 (ms_next_chunk_id ms))] of
        (ok, db) \<Rightarrow> (if ok then OK else ERROR_METADATA, ms\<lparr>ms_db := db\<rparr>))"

definition read_counters_locked :: "'db rocksdb \<Rightarrow> 'db metadata_store \<Rightarrow> status \<times> 'db metadata_store" where
  "read_counters_locked R ms =
     (let next_obj = (case kv_get R (ms_db ms) kKeyNextObj of
                        NotFound \<Rightarrow> Some 1 | Found v \<Rightarrow> string_to_pod 8 v | KvError \<Rightarrow> None) in
      case next_obj of
        None \<Rightarrow> (ERROR_METADATA, ms)
      | Some o1 \<Rightarrow>
          (let ms1 = ms\<lparr>ms_next_object_id := o1\<rparr>;
               next_chunk = (case kv_get R (ms_db ms) kKeyNextChunk of
                               NotFound \<Rightarrow> Some 1 | Found v \<Rightarrow> string_to_pod 4 v | KvError \<Rightarrow> None) in
           case next_chunk of
             None \<Rightarrow> (ERROR_METADATA, ms1)
           | Some c1 \<Rightarrow> persist_counters_locked R (ms1\<lparr>ms_next_chunk_id := c1\<rparr>)))"

definition init_or_check_schema_locked :: "'db rocksdb \<Rightarrow> 'db metadata_store \<Rightarrow> status \<times> 'db metadata_store" where
  "init_or_check_schema_locked R ms =
     (case kv_get R (ms_db ms) kKeySchema of
        NotFound \<Rightarrow>
          (case kv_put R (ms_db ms) kKeySchema (pod_to_string 4 kSchemaVersion) of
             (ok, db) \<Rightarrow> (if ok then OK else ERROR_METADATA, ms\<lparr>ms_db := db\<rparr>))
      | KvError \<Rightarrow> (ERROR_METADATA, ms)
      | Found val \<Rightarrow>
          (case string_to_pod 4 val of
             None \<Rightarrow> (ERROR_METADATA, ms)
           | Some v \<Rightarrow> (if v \<noteq> kSchemaVersion then ERROR_METADATA else OK, ms)))"

text \<open>\<open>opened\<close> is the database that \<open>DB::Open\<close> returns, \<open>None\<close> when it fails.\<close>

definition metadata_open :: "'db rocksdb \<Rightarrow> 'db option \<Rightarrow> status \<times> 'db metadata_store option" where
  "metadata_open R opened =
     (case opened of
        None \<Rightarrow> (ERROR_METADATA, None)
      | Some db0 \<Rightarrow>
          (let root = (case kv_get R db0 kKeyRootDir of
                         NotFound \<Rightarrow> kv_put R db0 kKeyRootDir (pod_to_string 8 (0 :: u64))
                       | Found _ \<Rightarrow> (True, db0)
                       | KvError \<Rightarrow> (False, db0));
               ms = \<lparr>ms_db = snd root, ms_next_object_id = 1, ms_next_chunk_id = 1\<rparr> in
           if \<not> fst root then (ERROR_METADATA, Some ms)
           else
             (case init_or_check_schema_locked R ms of
                (s, ms1) \<Rightarrow>
                  if s \<noteq> OK then (s, Some ms1)
                  else (case read_counters_locked R ms1 of (s2, ms2) \<Rightarrow> (s2, Some ms2)))))"

definition allocate_object_id :: "'db rocksdb \<Rightarrow> 'db metadata_store \<Rightarrow> status \<times> u64 \<times> 'db metadata_store" where
  "allocate_object_id R ms =
     (let out = ms_next_object_id ms; ms1 = ms\<lparr>ms_next_object_id := out + 1\<rparr> in
      case kv_put R (ms_db ms1) kKeyNextObj (pod_to_string 8 (ms_next_object_id ms1)) of
        (ok, db) \<Rightarrow> (if ok then OK else ERROR_METADATA, out, ms1\<lparr>ms_db := db\<rparr>))"

definition allocate_chunk_id :: "'db rocksdb \<Rightarrow> 'db metadata_store \<Rightarrow> status \<times> u32 \<times> 'db metadata_store" where
  "allocate_chunk_id R ms =
     (let out = ms_next_chunk_id ms; ms1 = ms\<lparr>ms_next_chunk_id := out + 1\<rparr> in
      case kv_put R (ms_db ms1) kKeyNextChunk (pod_to_string 4 (ms_next_chunk_id ms1)) of
        (ok, db) \<Rightarrow> (if ok then OK else ERROR_METADATA, out, ms1\<lparr>ms_db := db\<rparr>))"

definition path_exists :: "'db rocksdb \<Rightarrow> 'db metadata_store \<Rightarrow> byte list \<Rightarrow> bool" where
  "path_exists R ms path = (case kv_get R (ms_db ms) (key_path path) of Found _ \<Rightarrow> True | _ \<Rightarrow> False)"

definition path_lookup :: "'db rocksdb \<Rightarrow> 'db metadata_store \<Rightarrow> byte list \<Rightarrow> status + u64" where
  "path_lookup R ms path =
     (case kv_get R (ms_db ms) (key_path path) of
        NotFound \<Rightarrow> Inl ERROR_NOT_FOUND
      | KvError \<Rightarrow> Inl ERROR_METADATA
      | Found val \<Rightarrow> (case string_to_pod 8 val of None \<Rightarrow> Inl ERROR_METADATA | Some oid \<Rightarrow> Inr oid))"

definition get_attrs :: "'db rocksdb \<Rightarrow> 'db metadata_store \<Rightarrow> u64 \<Rightarrow> status + object_attrs" where
  "get_attrs R ms oid =
     (case kv_get R (ms_db ms) (key_attrs oid) of
        NotFound \<Rightarrow> Inl ERROR_NOT_FOUND
      | KvError \<Rightarrow> Inl ERROR_METADATA
      | Found val \<Rightarrow> (case decode_attrs val of None \<Rightarrow> Inl ERROR_METADATA | Some a \<Rightarrow> Inr a))"

definition get_chunk :: "'db rocksdb \<Rightarrow> 'db metadata_store \<Rightarrow> u32 \<Rightarrow> status + chunk" where
  "get_chunk R ms chunk_id =
     (case kv_get R (ms_db ms) (key_chunk chunk_id) of
        NotFound \<Rightarrow> Inl ERROR_NOT_FOUND
      | KvError \<Rightarrow> Inl ERROR_METADATA
      | Found val \<Rightarrow> (case decode_chunk val of None \<Rightarrow> Inl ERROR_METADATA | Some c \<Rightarrow> Inr c))"

definition put_chunk :: "'db rocksdb \<Rightarrow> 'db metadata_store \<Rightarrow> chunk \<Rightarrow> status \<times> 'db metadata_store" where
  "put_chunk R ms c =
     (case kv_put R (ms_db ms) (key_chunk (ck_chunk_id c)) (encode_chunk c) of
        (ok, db) \<Rightarrow> (if ok then OK else ERROR_METADATA, ms\<lparr>ms_db := db\<rparr>))"

section \<open>Iterating the extents of an object\<close>

text \<open>An extent key of the object: the prefix and eight more bytes, which hold the logical offset.\<close>

definition is_extent_key :: "u64 \<Rightarrow> byte list \<Rightarrow> bool" where
  "is_extent_key oid k \<longleftrightarrow>
     length k = length (key_extent_prefix oid) + 8 \<and> take (length (key_extent_prefix oid)) k = key_extent_prefix oid"

definition extent_key_offset :: "u64 \<Rightarrow> byte list \<Rightarrow> u64" where
  "extent_key_offset oid k = get_be64 (drop (length (key_extent_prefix oid)) k)"

text \<open>The visitor takes the user data and returns whether to go on; the loop ends with \<open>None\<close> on a value it cannot decode.\<close>

type_synonym 'u visitor = "u64 \<Rightarrow> extent_entry \<Rightarrow> 'u \<Rightarrow> bool \<times> 'u"

fun iter_forward :: "u64 \<Rightarrow> u64 \<Rightarrow> 'u visitor \<Rightarrow> (byte list \<times> byte list) list \<Rightarrow> 'u \<Rightarrow> bool \<times> 'u" where
  "iter_forward oid stop cb [] u = (True, u)"
| "iter_forward oid stop cb ((k, val) # it) u =
     (if \<not> is_extent_key oid k then (True, u)
      else
        let off = extent_key_offset oid k in
        if off \<ge> stop then (True, u)
        else
          case decode_extent val of
            None \<Rightarrow> (False, u)
          | Some e \<Rightarrow> (case cb off e u of (go, u') \<Rightarrow> if go then iter_forward oid stop cb it u' else (True, u')))"

definition iter_extents ::
    "'db rocksdb \<Rightarrow> 'db metadata_store \<Rightarrow> u64 \<Rightarrow> u64 \<Rightarrow> u64 \<Rightarrow> 'u visitor \<Rightarrow> 'u \<Rightarrow> status \<times> 'u" where
  "iter_extents R ms oid start stop cb u =
     (if stop \<le> start then (OK, u)
      else
        let lower = key_extent oid start;
            es = kv_entries R (ms_db ms);
            finish = (\<lambda>it u. case iter_forward oid stop cb it u of
                        (fine, u') \<Rightarrow> (if \<not> fine \<or> \<not> kv_iter_ok R (ms_db ms) then ERROR_METADATA else OK, u'))
        in
        case kv_seek_for_prev es lower of
          [] \<Rightarrow> finish (kv_seek es lower) u
        | (k, val) # it \<Rightarrow>
            if is_extent_key oid k then
              (case decode_extent val of
                 None \<Rightarrow> (ERROR_METADATA, u)
               | Some e \<Rightarrow>
                   let off = extent_key_offset oid k in
                   if off + ucast (ee_length e) > start then
                     if off \<ge> stop then (OK, u)
                     else (case cb off e u of (go, u') \<Rightarrow> if \<not> go then (OK, u') else finish it u')
                   else finish (kv_seek es lower) u)
            else finish (kv_seek es lower) u)"

section \<open>Batches\<close>

type_synonym batch = "(byte list \<times> byte list) list"

definition batch_put_path :: "batch \<Rightarrow> byte list \<Rightarrow> u64 \<Rightarrow> batch" where
  "batch_put_path wb path oid = wb @ [(key_path path, pod_to_string 8 oid)]"

definition batch_put_attrs :: "batch \<Rightarrow> object_attrs \<Rightarrow> batch" where
  "batch_put_attrs wb a = wb @ [(key_attrs (oa_object_id a), encode_attrs a)]"

definition batch_put_extent :: "batch \<Rightarrow> u64 \<Rightarrow> u64 \<Rightarrow> extent_entry \<Rightarrow> batch" where
  "batch_put_extent wb oid logical_offset e = wb @ [(key_extent oid logical_offset, encode_extent e)]"

definition batch_put_chunk :: "batch \<Rightarrow> chunk \<Rightarrow> batch" where
  "batch_put_chunk wb c = wb @ [(key_chunk (ck_chunk_id c), encode_chunk c)]"

definition batch_put_chunk_rev :: "batch \<Rightarrow> u32 \<Rightarrow> u16 \<Rightarrow> chunk_rev_entry \<Rightarrow> batch" where
  "batch_put_chunk_rev wb chunk_id idx r = wb @ [(key_chunk_rev chunk_id idx, encode_chunk_rev r)]"

definition metadata_commit :: "'db rocksdb \<Rightarrow> 'db metadata_store \<Rightarrow> batch \<Rightarrow> status \<times> 'db metadata_store" where
  "metadata_commit R ms wb =
     (case kv_write R (ms_db ms) wb of (ok, db) \<Rightarrow> (if ok then OK else ERROR_METADATA, ms\<lparr>ms_db := db\<rparr>))"

section \<open>What the code relies on\<close>

text \<open>
  A read may fail; one that does not returns the current value.  A write reports success only when it
  was applied, and a failed one was applied as a whole or not at all.  An iterator that ends without an
  error visited every entry once, in the order of the keys.
\<close>

locale rocksdb_store =
  fixes R :: "'db rocksdb" and kv :: "'db \<Rightarrow> byte list \<Rightarrow> byte list option"
  assumes get_law: "kv_get R db k = KvError \<or> kv_get R db k = (case kv db k of Some v \<Rightarrow> Found v | None \<Rightarrow> NotFound)"
    and put_law: "kv_put R db k v = (ok, db') \<Longrightarrow> kv db' = (kv db)(k \<mapsto> v) \<or> \<not> ok \<and> kv db' = kv db"
    and write_law: "kv_write R db wb = (ok, db') \<Longrightarrow> kv db' = kv db ++ map_of (rev wb) \<or> \<not> ok \<and> kv db' = kv db"
    and entries_law: "kv_iter_ok R db \<Longrightarrow> sorted (map fst (kv_entries R db)) \<and> distinct (map fst (kv_entries R db))
          \<and> map_of (kv_entries R db) = kv db"

text \<open>A database on which no call fails.\<close>

locale rocksdb_live = rocksdb_store R kv for R :: "'db rocksdb" and kv +
  assumes get_live: "kv_get R db k \<noteq> KvError"
    and put_live: "fst (kv_put R db k v)"
    and write_live: "fst (kv_write R db wb)"
    and iter_live: "kv_iter_ok R db"

section \<open>Keys are distinct\<close>

lemma key_bytes [simp]:
  "bytes_of ''ph:'' = [0x70, 0x68, 0x3A]" "bytes_of ''at:'' = [0x61, 0x74, 0x3A]" "bytes_of ''ex:'' = [0x65, 0x78, 0x3A]"
  "bytes_of ''ck:'' = [0x63, 0x6B, 0x3A]" "bytes_of ''ci:'' = [0x63, 0x69, 0x3A]"
  "take 3 kKeyNextObj = [0x63, 0x74, 0x3A]" "take 3 kKeyNextChunk = [0x63, 0x74, 0x3A]" "take 3 kKeySchema = [0x63, 0x74, 0x3A]"
  "kKeyRootDir = key_path [0x2F]"
  by code_simp+

lemma put_be_append: "put_be16 (a @ b) v16 = a @ put_be16 b v16" "put_be32 (a @ b) v32 = a @ put_be32 b v32"
    "put_be64 (a @ b) v64 = a @ put_be64 b v64"
  by (simp_all add: put_be_le)

lemma put_be_pre: "put_be16 p v16 = p @ put_be16 [] v16" "put_be32 p v32 = p @ put_be32 [] v32"
    "put_be64 p v64 = p @ put_be64 [] v64"
  by (simp_all add: put_be_le)

lemma put_be_nil_inj [simp]: "put_be16 [] a = put_be16 [] b \<longleftrightarrow> a = b" "put_be32 [] c = put_be32 [] d \<longleftrightarrow> c = d"
    "put_be64 [] e = put_be64 [] f \<longleftrightarrow> e = f"
  by (metis be_roundtrip)+

lemma put_be_nil_length [simp]: "length (put_be16 [] a) = 2" "length (put_be32 [] c) = 4" "length (put_be64 [] e) = 8"
  by (simp_all add: put_be_le)

lemmas key_defs = key_path_def key_attrs_def key_extent_def key_extent_prefix_def key_chunk_def key_chunk_rev_def

lemma key_shape:
  "key_path p = [0x70, 0x68, 0x3A] @ p" "key_attrs oid = [0x61, 0x74, 0x3A] @ put_be64 [] oid"
  "key_extent_prefix oid = [0x65, 0x78, 0x3A] @ put_be64 [] oid"
  "key_extent oid off = [0x65, 0x78, 0x3A] @ put_be64 [] oid @ put_be64 [] off"
  "key_chunk c = [0x63, 0x6B, 0x3A] @ put_be32 [] c" "key_chunk_rev c i = [0x63, 0x69, 0x3A] @ put_be32 [] c @ put_be16 [] i"
  unfolding key_defs key_bytes by (metis append_assoc put_be_pre)+

lemma key_inj [simp]:
  "key_path p = key_path q \<longleftrightarrow> p = q" "key_attrs a = key_attrs b \<longleftrightarrow> a = b"
  "key_extent a x = key_extent b y \<longleftrightarrow> a = b \<and> x = y" "key_chunk c = key_chunk d \<longleftrightarrow> c = d"
  "key_chunk_rev c i = key_chunk_rev d j \<longleftrightarrow> c = d \<and> i = j"
  by (auto simp: key_shape append_eq_append_conv)

text \<open>The first three bytes tell the kind of a key.\<close>

lemma key_tag [simp]:
  "take 3 (key_path p) = [0x70, 0x68, 0x3A]" "take 3 (key_attrs a) = [0x61, 0x74, 0x3A]"
  "take 3 (key_extent a x) = [0x65, 0x78, 0x3A]" "take 3 (key_chunk c) = [0x63, 0x6B, 0x3A]"
  "take 3 (key_chunk_rev c i) = [0x63, 0x69, 0x3A]"
  by (simp_all add: key_shape)

lemma counter_keys [simp]: "kKeyNextObj \<noteq> kKeyNextChunk" "kKeyNextObj \<noteq> kKeySchema" "kKeyNextChunk \<noteq> kKeySchema"
    "kKeyNextChunk \<noteq> kKeyNextObj" "kKeySchema \<noteq> kKeyNextObj" "kKeySchema \<noteq> kKeyNextChunk"
  by code_simp+

lemma pod_string [simp]: "LENGTH('a::len) = 8 * n \<Longrightarrow> string_to_pod n (pod_to_string n (v :: 'a word)) = Some v"
  by (simp add: string_to_pod_def pod_to_string_def le_word_le_bytes)

section \<open>The typed view of the database\<close>

record meta_view =
  mv_path :: "byte list \<Rightarrow> u64 option"
  mv_attrs :: "u64 \<Rightarrow> object_attrs option"
  mv_extent :: "u64 \<times> u64 \<Rightarrow> extent_entry option"
  mv_chunk :: "u32 \<Rightarrow> chunk option"
  mv_rev :: "u32 \<times> u16 \<Rightarrow> chunk_rev_entry option"

definition view_of :: "(byte list \<Rightarrow> byte list option) \<Rightarrow> meta_view" where
  "view_of m =
     \<lparr>mv_path = (\<lambda>p. m (key_path p) \<bind> string_to_pod 8),
      mv_attrs = (\<lambda>oid. m (key_attrs oid) \<bind> decode_attrs),
      mv_extent = (\<lambda>(oid, off). m (key_extent oid off) \<bind> decode_extent),
      mv_chunk = (\<lambda>c. m (key_chunk c) \<bind> decode_chunk),
      mv_rev = (\<lambda>(c, i). m (key_chunk_rev c i) \<bind> decode_chunk_rev)\<rparr>"

text \<open>The updates that a batch can stage, on the batch and on the view.\<close>

datatype meta_op = PutPath "byte list" u64 | PutAttrs object_attrs | PutExtent u64 u64 extent_entry
  | PutChunk chunk | PutRev u32 u16 chunk_rev_entry

fun stage_op :: "meta_op \<Rightarrow> batch \<Rightarrow> batch" where
  "stage_op (PutPath p oid) wb = batch_put_path wb p oid"
| "stage_op (PutAttrs a) wb = batch_put_attrs wb a"
| "stage_op (PutExtent oid off e) wb = batch_put_extent wb oid off e"
| "stage_op (PutChunk c) wb = batch_put_chunk wb c"
| "stage_op (PutRev c i r) wb = batch_put_chunk_rev wb c i r"

fun view_op :: "meta_op \<Rightarrow> meta_view \<Rightarrow> meta_view" where
  "view_op (PutPath p oid) v = v\<lparr>mv_path := (mv_path v)(p \<mapsto> oid)\<rparr>"
| "view_op (PutAttrs a) v = v\<lparr>mv_attrs := (mv_attrs v)(oa_object_id a \<mapsto> a)\<rparr>"
| "view_op (PutExtent oid off e) v = v\<lparr>mv_extent := (mv_extent v)((oid, off) \<mapsto> e)\<rparr>"
| "view_op (PutChunk c) v = v\<lparr>mv_chunk := (mv_chunk v)(ck_chunk_id c \<mapsto> c)\<rparr>"
| "view_op (PutRev c i r) v = v\<lparr>mv_rev := (mv_rev v)((c, i) \<mapsto> r)\<rparr>"

definition batch_of :: "meta_op list \<Rightarrow> batch" where
  "batch_of ops = fold stage_op ops []"

fun op_entry :: "meta_op \<Rightarrow> byte list \<times> byte list" where
  "op_entry (PutPath p oid) = (key_path p, pod_to_string 8 oid)"
| "op_entry (PutAttrs a) = (key_attrs (oa_object_id a), encode_attrs a)"
| "op_entry (PutExtent oid off e) = (key_extent oid off, encode_extent e)"
| "op_entry (PutChunk c) = (key_chunk (ck_chunk_id c), encode_chunk c)"
| "op_entry (PutRev c i r) = (key_chunk_rev c i, encode_chunk_rev r)"

text \<open>Every value has the length of its type, and every key of an extent its fixed length.\<close>

definition entry_typed :: "byte list \<Rightarrow> byte list \<Rightarrow> bool" where
  "entry_typed k v \<longleftrightarrow>
     (take 3 k = bytes_of ''ph:'' \<longrightarrow> length v = 8) \<and> (take 3 k = bytes_of ''at:'' \<longrightarrow> length v = 48)
     \<and> (take 3 k = bytes_of ''ex:'' \<longrightarrow> length k = 19 \<and> length v = 24)
     \<and> (take 3 k = bytes_of ''ck:'' \<longrightarrow> length v = 21) \<and> (take 3 k = bytes_of ''ci:'' \<longrightarrow> length v = 24)"

definition meta_typed :: "(byte list \<Rightarrow> byte list option) \<Rightarrow> bool" where
  "meta_typed m \<longleftrightarrow> (\<forall>k v. m k = Some v \<longrightarrow> entry_typed k v)"

lemma stage_op_entry: "stage_op op wb = wb @ [op_entry op]"
  by (cases op) (simp_all add: batch_put_path_def batch_put_attrs_def batch_put_extent_def batch_put_chunk_def batch_put_chunk_rev_def)

lemma batch_of_entries: "batch_of ops = map op_entry ops"
proof -
  have "fold stage_op ops wb = wb @ map op_entry ops" for wb
    by (induction ops arbitrary: wb) (simp_all add: stage_op_entry)
  then show ?thesis by (simp add: batch_of_def)
qed

lemma key_kinds_ne [simp]:
  "key_path p \<noteq> key_attrs a" "key_path p \<noteq> key_extent a x" "key_path p \<noteq> key_chunk c" "key_path p \<noteq> key_chunk_rev c i"
  "key_attrs a \<noteq> key_path p" "key_attrs a \<noteq> key_extent b x" "key_attrs a \<noteq> key_chunk c" "key_attrs a \<noteq> key_chunk_rev c i"
  "key_extent a x \<noteq> key_path p" "key_extent b x \<noteq> key_attrs a" "key_extent a x \<noteq> key_chunk c" "key_extent a x \<noteq> key_chunk_rev c i"
  "key_chunk c \<noteq> key_path p" "key_chunk c \<noteq> key_attrs a" "key_chunk c \<noteq> key_extent a x" "key_chunk d \<noteq> key_chunk_rev c i"
  "key_chunk_rev c i \<noteq> key_path p" "key_chunk_rev c i \<noteq> key_attrs a" "key_chunk_rev c i \<noteq> key_extent a x" "key_chunk_rev c i \<noteq> key_chunk d"
  by (simp_all add: key_shape)

lemma key_counter_ne [simp]:
  assumes "take 3 k = [0x63, 0x74, 0x3A]"
  shows "key_path p \<noteq> k" "key_attrs a \<noteq> k" "key_extent a x \<noteq> k" "key_chunk c \<noteq> k" "key_chunk_rev c i \<noteq> k"
    "k \<noteq> key_path p" "k \<noteq> key_attrs a" "k \<noteq> key_extent a x" "k \<noteq> key_chunk c" "k \<noteq> key_chunk_rev c i"
  using assms by (auto simp: key_shape)

lemma view_upd_op: "view_of (m(fst (op_entry op) \<mapsto> snd (op_entry op))) = view_op op (view_of m)"
  by (cases op) (auto simp: view_of_def fun_eq_iff pods_roundtrip)

lemma view_upd_other: "take 3 k = [0x63, 0x74, 0x3A] \<Longrightarrow> view_of (m(k \<mapsto> v)) = view_of m"
  by (auto simp: view_of_def fun_eq_iff)

lemma view_batch: "view_of (m ++ map_of (rev (batch_of ops))) = fold view_op ops (view_of m)"
proof (induction ops rule: rev_induct)
  case (snoc op ops)
  have "m ++ map_of (rev (batch_of (ops @ [op])))
      = (m ++ map_of (rev (batch_of ops)))(fst (op_entry op) \<mapsto> snd (op_entry op))"
    by (cases "op_entry op") (simp add: batch_of_entries)
  then show ?case by (simp only: view_upd_op snoc.IH fold_append comp_apply fold_simps id_apply)
qed (simp add: batch_of_entries)

lemma pods_encode_length [simp]:
  "length (encode_attrs a) = 48" "length (encode_extent e) = 24" "length (encode_chunk c) = 21" "length (encode_chunk_rev r) = 24"
  by (meson pods_length pods_roundtrip)+

lemma key_extent_length [simp]: "length (key_extent oid off) = 19" "length (key_extent_prefix oid) = 11"
  by (simp_all add: key_shape)

lemma op_entry_typed: "entry_typed (fst (op_entry op)) (snd (op_entry op))"
  by (cases op) (simp_all add: entry_typed_def pod_to_string_def)

lemma typed_upd: "meta_typed m \<Longrightarrow> entry_typed k v \<Longrightarrow> meta_typed (m(k \<mapsto> v))"
  by (simp add: meta_typed_def)

lemma typed_upd_other: "meta_typed m \<Longrightarrow> take 3 k = [0x63, 0x74, 0x3A] \<Longrightarrow> meta_typed (m(k \<mapsto> v))"
  by (rule typed_upd) (simp_all add: entry_typed_def)

lemma typed_batch: "meta_typed m \<Longrightarrow> meta_typed (m ++ map_of (rev (batch_of ops)))"
proof (induction ops rule: rev_induct)
  case (snoc op ops)
  have "m ++ map_of (rev (batch_of (ops @ [op])))
      = (m ++ map_of (rev (batch_of ops)))(fst (op_entry op) \<mapsto> snd (op_entry op))"
    by (cases "op_entry op") (simp add: batch_of_entries)
  then show ?case by (simp only: typed_upd [OF snoc.IH [OF snoc.prems] op_entry_typed])
qed (simp add: batch_of_entries)

lemma typed_empty [simp]: "meta_typed Map.empty"
  by (simp add: meta_typed_def)

text \<open>Keys of another kind are not touched by a batch.\<close>

lemma batch_other: "take 3 k = [0x63, 0x74, 0x3A] \<Longrightarrow> (m ++ map_of (rev (batch_of ops))) k = m k"
proof -
  assume k: "take 3 k = [0x63, 0x74, 0x3A]"
  have "fst (op_entry op) \<noteq> k" for op using k by (cases op) auto
  then have "map_of (rev (batch_of ops)) k = None"
    unfolding batch_of_entries map_of_eq_None_iff set_rev set_map by (metis imageE)
  then show ?thesis by (simp add: map_add_def)
qed

section \<open>The operations on the view\<close>

abbreviation ms_map :: "('db \<Rightarrow> byte list \<Rightarrow> byte list option) \<Rightarrow> 'db metadata_store \<Rightarrow> byte list \<Rightarrow> byte list option" where
  "ms_map kv ms \<equiv> kv (ms_db ms)"

text \<open>Reading a value of a typed database.\<close>

lemma typed_values:
  assumes "meta_typed m"
  shows "m (key_path p) = Some v \<Longrightarrow> \<exists>w. string_to_pod 8 v = Some (w :: u64)"
    and "m (key_attrs oid) = Some v \<Longrightarrow> \<exists>w. decode_attrs v = Some w"
    and "m (key_extent oid off) = Some v \<Longrightarrow> \<exists>w. decode_extent v = Some w"
    and "m (key_chunk c) = Some v \<Longrightarrow> \<exists>w. decode_chunk v = Some w"
proof -
  have t: "m k = Some v \<Longrightarrow> entry_typed k v" for k v using assms by (simp add: meta_typed_def)
  show "m (key_path p) = Some v \<Longrightarrow> \<exists>w. string_to_pod 8 v = Some (w :: u64)"
    using t [of "key_path p" v] by (simp add: entry_typed_def string_to_pod_def)
  show "m (key_attrs oid) = Some v \<Longrightarrow> \<exists>w. decode_attrs v = Some w"
    using t [of "key_attrs oid" v] pods_defined(1) [of v] by (simp add: entry_typed_def)
  show "m (key_extent oid off) = Some v \<Longrightarrow> \<exists>w. decode_extent v = Some w"
    using t [of "key_extent oid off" v] pods_defined(2) [of v] by (simp add: entry_typed_def)
  show "m (key_chunk c) = Some v \<Longrightarrow> \<exists>w. decode_chunk v = Some w"
    using t [of "key_chunk c" v] pods_defined(3) [of v] by (simp add: entry_typed_def)
qed

context rocksdb_store
begin

lemma commit_cases:
  assumes "metadata_commit R ms (batch_of ops) = (s, ms')"
  shows "s \<in> {OK, ERROR_METADATA}"
    and "ms_map kv ms' = ms_map kv ms ++ map_of (rev (batch_of ops)) \<or> s \<noteq> OK \<and> ms_map kv ms' = ms_map kv ms"
    and "ms_next_object_id ms' = ms_next_object_id ms" and "ms_next_chunk_id ms' = ms_next_chunk_id ms"
  using assms by (auto simp: metadata_commit_def split: prod.splits if_splits dest: write_law)

lemma commit_view:
  assumes "metadata_commit R ms (batch_of ops) = (s, ms')"
  shows "view_of (ms_map kv ms') = fold view_op ops (view_of (ms_map kv ms))
      \<or> s \<noteq> OK \<and> view_of (ms_map kv ms') = view_of (ms_map kv ms)"
    and "meta_typed (ms_map kv ms) \<Longrightarrow> meta_typed (ms_map kv ms')"
  using commit_cases(2) [OF assms] by (auto simp: view_batch typed_batch)

lemma put_chunk_cases:
  assumes "put_chunk R ms c = (s, ms')"
  shows "s \<in> {OK, ERROR_METADATA}"
    and "ms_map kv ms' = (ms_map kv ms)(key_chunk (ck_chunk_id c) \<mapsto> encode_chunk c) \<or> s \<noteq> OK \<and> ms_map kv ms' = ms_map kv ms"
    and "ms_next_object_id ms' = ms_next_object_id ms" and "ms_next_chunk_id ms' = ms_next_chunk_id ms"
  using assms by (auto simp: put_chunk_def split: prod.splits if_splits dest: put_law)

lemma put_chunk_view:
  assumes "put_chunk R ms c = (s, ms')"
  shows "view_of (ms_map kv ms') = view_op (PutChunk c) (view_of (ms_map kv ms))
      \<or> s \<noteq> OK \<and> view_of (ms_map kv ms') = view_of (ms_map kv ms)"
    and "meta_typed (ms_map kv ms) \<Longrightarrow> meta_typed (ms_map kv ms')"
  using put_chunk_cases(2) [OF assms] view_upd_op [of _ "PutChunk c"] typed_upd [OF _ op_entry_typed [of "PutChunk c"]]
  by auto

lemma allocate_object_id_cases:
  assumes "allocate_object_id R ms = (s, oid, ms')"
  shows "oid = ms_next_object_id ms" and "ms_next_object_id ms' = oid + 1" and "ms_next_chunk_id ms' = ms_next_chunk_id ms"
    and "s \<in> {OK, ERROR_METADATA}"
    and "ms_map kv ms' = (ms_map kv ms)(kKeyNextObj \<mapsto> pod_to_string 8 (oid + 1)) \<or> s \<noteq> OK \<and> ms_map kv ms' = ms_map kv ms"
  using assms by (auto simp: allocate_object_id_def Let_def split: prod.splits if_splits dest: put_law)

lemma allocate_chunk_id_cases:
  assumes "allocate_chunk_id R ms = (s, cid, ms')"
  shows "cid = ms_next_chunk_id ms" and "ms_next_chunk_id ms' = cid + 1" and "ms_next_object_id ms' = ms_next_object_id ms"
    and "s \<in> {OK, ERROR_METADATA}"
    and "ms_map kv ms' = (ms_map kv ms)(kKeyNextChunk \<mapsto> pod_to_string 4 (cid + 1)) \<or> s \<noteq> OK \<and> ms_map kv ms' = ms_map kv ms"
  using assms by (auto simp: allocate_chunk_id_def Let_def split: prod.splits if_splits dest: put_law)

lemma allocate_ids_view:
  assumes "allocate_object_id R ms = (s, oid, ms') \<or> allocate_chunk_id R ms = (s, cid, ms')"
  shows "view_of (ms_map kv ms') = view_of (ms_map kv ms)" and "meta_typed (ms_map kv ms) \<Longrightarrow> meta_typed (ms_map kv ms')"
  using assms allocate_object_id_cases(5) [of ms s oid ms'] allocate_chunk_id_cases(5) [of ms s cid ms']
  by (auto simp: view_upd_other typed_upd_other)

lemma path_lookup_view:
  assumes "meta_typed (ms_map kv ms)"
  shows "path_lookup R ms p = Inl ERROR_METADATA
      \<or> path_lookup R ms p = (case mv_path (view_of (ms_map kv ms)) p of None \<Rightarrow> Inl ERROR_NOT_FOUND | Some oid \<Rightarrow> Inr oid)"
  using get_law [of "ms_db ms" "key_path p"] typed_values(1) [OF assms, of p]
  by (cases "ms_map kv ms (key_path p)") (auto simp: path_lookup_def view_of_def)

lemma path_exists_view:
  assumes "meta_typed (ms_map kv ms)" and "path_exists R ms p"
  shows "mv_path (view_of (ms_map kv ms)) p \<noteq> None"
  using get_law [of "ms_db ms" "key_path p"] assms(2) typed_values(1) [OF assms(1), of p]
  by (cases "ms_map kv ms (key_path p)") (auto simp: path_exists_def view_of_def)

lemma get_attrs_view:
  assumes "meta_typed (ms_map kv ms)"
  shows "get_attrs R ms oid = Inl ERROR_METADATA
      \<or> get_attrs R ms oid = (case mv_attrs (view_of (ms_map kv ms)) oid of None \<Rightarrow> Inl ERROR_NOT_FOUND | Some a \<Rightarrow> Inr a)"
  using get_law [of "ms_db ms" "key_attrs oid"] typed_values(2) [OF assms, of oid]
  by (cases "ms_map kv ms (key_attrs oid)") (auto simp: get_attrs_def view_of_def)

lemma get_chunk_view:
  assumes "meta_typed (ms_map kv ms)"
  shows "get_chunk R ms c = Inl ERROR_METADATA
      \<or> get_chunk R ms c = (case mv_chunk (view_of (ms_map kv ms)) c of None \<Rightarrow> Inl ERROR_NOT_FOUND | Some x \<Rightarrow> Inr x)"
  using get_law [of "ms_db ms" "key_chunk c"] typed_values(4) [OF assms, of c]
  by (cases "ms_map kv ms (key_chunk c)") (auto simp: get_chunk_def view_of_def)

end

context rocksdb_live
begin

lemma kv_get_live: "kv_get R db k = (case kv db k of Some v \<Rightarrow> Found v | None \<Rightarrow> NotFound)"
  using get_law get_live by blast

lemma commit_live: "fst (metadata_commit R ms wb) = OK" and put_chunk_live: "fst (put_chunk R ms c) = OK"
  and allocate_live: "fst (allocate_object_id R ms) = OK" "fst (allocate_chunk_id R ms) = OK"
  using write_live put_live
  by (auto simp: metadata_commit_def put_chunk_def allocate_object_id_def allocate_chunk_id_def Let_def split: prod.splits)
    (metis fst_conv)+

lemma reads_live:
  assumes "meta_typed (ms_map kv ms)"
  shows "path_lookup R ms p = (case mv_path (view_of (ms_map kv ms)) p of None \<Rightarrow> Inl ERROR_NOT_FOUND | Some oid \<Rightarrow> Inr oid)"
    and "get_attrs R ms oid = (case mv_attrs (view_of (ms_map kv ms)) oid of None \<Rightarrow> Inl ERROR_NOT_FOUND | Some a \<Rightarrow> Inr a)"
    and "get_chunk R ms c = (case mv_chunk (view_of (ms_map kv ms)) c of None \<Rightarrow> Inl ERROR_NOT_FOUND | Some x \<Rightarrow> Inr x)"
    and "path_exists R ms p \<longleftrightarrow> mv_path (view_of (ms_map kv ms)) p \<noteq> None"
  using typed_values(1) [OF assms, of p] typed_values(2) [OF assms, of oid] typed_values(4) [OF assms, of c]
  by (auto simp: kv_get_live path_lookup_def get_attrs_def get_chunk_def path_exists_def view_of_def split: option.splits)

end

end
