(* ===== verification/Objstore_Chunk.thy ===== *)
theory Objstore_Chunk
  imports Nebula_Mount_Io Objstore_Metadata
begin

unbundle bit_operations_syntax

text \<open>
  \<open>src/objstore/chunk.cc\<close>: the chunk engine.  A chunk is a run of 16384 blocks from the block allocator
  of the mounted device; segments are reserved at its end, rounded up to whole blocks.  The engine
  holds pointers to the mount and to the metadata store of the object store that owns it, so one state
  holds the three.  The mutex makes each call one step.
\<close>

section \<open>State\<close>

record ('d, 'db) objstore =
  os_mount :: "'d nebula_mount"
  os_meta :: "'db metadata_store"
  os_active :: "chunk option"

record reservation =
  rv_chunk_id :: u32
  rv_chunk_idx :: u16
  rv_offset_bytes :: u32
  rv_length_bytes :: u32
  rv_padded_bytes :: u32
  rv_physical_lba :: u64

definition round_up_block :: "u32 \<Rightarrow> u32" where
  "round_up_block bytes = (bytes + kBlockSize - 1) AND NOT (kBlockSize - 1)"

section \<open>Operations\<close>

text \<open>
  The forward scan from \<open>cid\<close>, which adopts the last unsealed chunk; it ends at the first identifier that
  is not found.  The counter is 32 bits wide, so the scan need not end when no identifier is missing.
\<close>

partial_function (option) chunk_scan ::
    "'db rocksdb \<Rightarrow> 'db metadata_store \<Rightarrow> u32 \<Rightarrow> chunk option \<Rightarrow> (status \<times> chunk option) option" where
  "chunk_scan R ms cid active =
     (case get_chunk R ms cid of
        Inl s \<Rightarrow> Some (if s = ERROR_NOT_FOUND then OK else s, active)
      | Inr c \<Rightarrow> chunk_scan R ms (cid + 1) (if \<not> ck_sealed c then Some c else active))"

definition chunk_engine_open :: "'db rocksdb \<Rightarrow> 'db metadata_store \<Rightarrow> (status \<times> chunk option) option" where
  "chunk_engine_open R ms = chunk_scan R ms 1 None"

definition allocate_new_chunk_locked :: "'db rocksdb \<Rightarrow> ('d, 'db) objstore \<Rightarrow> status \<times> ('d, 'db) objstore" where
  "allocate_new_chunk_locked R st =
     (case nebula_block_alloc (os_mount st) kChunkBlocks of
        (Inl _, m1) \<Rightarrow> (ERROR_NO_SPACE, st\<lparr>os_mount := m1\<rparr>)
      | (Inr lba, m1) \<Rightarrow>
          (case allocate_chunk_id R (os_meta st) of
             (s, cid, ms1) \<Rightarrow>
               let st1 = st\<lparr>os_mount := m1, os_meta := ms1\<rparr> in
               if s \<noteq> OK then (s, st1)
               else
                 let c = \<lparr>ck_chunk_id = cid, ck_lba_start = lba, ck_write_offset = 0, ck_next_idx = 0, ck_sealed = False\<rparr> in
                 case put_chunk R ms1 c of
                   (s2, ms2) \<Rightarrow>
                     if s2 \<noteq> OK then (s2, st1\<lparr>os_meta := ms2\<rparr>) else (OK, st1\<lparr>os_meta := ms2, os_active := Some c\<rparr>)))"

definition seal_active_locked :: "'db rocksdb \<Rightarrow> ('d, 'db) objstore \<Rightarrow> status \<times> ('d, 'db) objstore" where
  "seal_active_locked R st =
     (case os_active st of
        None \<Rightarrow> (OK, st)
      | Some a \<Rightarrow>
          (case put_chunk R (os_meta st) (a\<lparr>ck_sealed := True\<rparr>) of
             (s, ms1) \<Rightarrow> (s, st\<lparr>os_meta := ms1, os_active := None\<rparr>)))"

text \<open>An active chunk with at least one block of room.\<close>

definition ensure_active :: "'db rocksdb \<Rightarrow> ('d, 'db) objstore \<Rightarrow> status \<times> ('d, 'db) objstore" where
  "ensure_active R st =
     (case os_active st of
        None \<Rightarrow> allocate_new_chunk_locked R st
      | Some a \<Rightarrow>
          if ck_write_offset a \<ge> kChunkSize then
            (case seal_active_locked R st of
               (s, st1) \<Rightarrow> if s \<noteq> OK then (s, st1) else allocate_new_chunk_locked R st1)
          else (OK, st))"

definition reserve_in :: "chunk \<Rightarrow> u32 \<Rightarrow> reservation \<times> chunk" where
  "reserve_in c max_length =
     (let space_left = kChunkSize - ck_write_offset c;
          actual0 = min max_length space_left;
          padded0 = round_up_block actual0;
          padded = (if padded0 > space_left then space_left else padded0);
          actual = (if padded0 > space_left then padded else actual0)
      in (\<lparr>rv_chunk_id = ck_chunk_id c, rv_chunk_idx = ucast (ck_next_idx c), rv_offset_bytes = ck_write_offset c,
           rv_length_bytes = actual, rv_padded_bytes = padded,
           rv_physical_lba = ck_lba_start c + ucast (ck_write_offset c div kBlockSize)\<rparr>,
          c\<lparr>ck_write_offset := ck_write_offset c + padded, ck_next_idx := ck_next_idx c + 1\<rparr>))"

definition reserve :: "'db rocksdb \<Rightarrow> ('d, 'db) objstore \<Rightarrow> u32 \<Rightarrow> (status + reservation) \<times> ('d, 'db) objstore" where
  "reserve R st max_length =
     (if max_length = 0 then (Inl ERROR_INVALID_ARGUMENT, st)
      else
        case ensure_active R st of
          (s, st1) \<Rightarrow>
            if s \<noteq> OK then (Inl s, st1)
            else
              case os_active st1 of
                None \<Rightarrow> (Inl ERROR_INTERNAL, st1)
              | Some c \<Rightarrow> (case reserve_in c max_length of (r, c') \<Rightarrow> (Inr r, st1\<lparr>os_active := Some c'\<rparr>)))"

definition stage_chunk_rev :: "batch \<Rightarrow> u32 \<Rightarrow> u16 \<Rightarrow> u64 \<Rightarrow> u64 \<Rightarrow> u32 \<Rightarrow> batch" where
  "stage_chunk_rev wb chunk_id idx oid logical_offset len =
     batch_put_chunk_rev wb chunk_id idx \<lparr>cr_oid = oid, cr_logical_offset = logical_offset, cr_length = len, cr_reserved = 0\<rparr>"

definition stage_active_chunk :: "('d, 'db) objstore \<Rightarrow> batch \<Rightarrow> batch" where
  "stage_active_chunk st wb = (case os_active st of None \<Rightarrow> wb | Some a \<Rightarrow> batch_put_chunk wb a)"

definition engine_get_chunk :: "'db rocksdb \<Rightarrow> ('d, 'db) objstore \<Rightarrow> u32 \<Rightarrow> status + chunk" where
  "engine_get_chunk R st chunk_id = get_chunk R (os_meta st) chunk_id"

section \<open>Arithmetic of a reservation\<close>

lemma u32_and_not_4095: "unat ((x :: u32) AND NOT 4095) = unat x div 4096 * 4096"
proof -
  have "x AND NOT 4095 = push_bit 12 (drop_bit 12 x)"
  proof (rule bit_word_eqI)
    fix n assume "n < LENGTH(32)"
    have m: "(4095 :: u32) = mask 12" by (simp add: mask_eq_exp_minus_1)
    show "bit (x AND NOT 4095) n = bit (push_bit 12 (drop_bit 12 x)) n"
      unfolding m using \<open>n < LENGTH(32)\<close> by (auto simp: bit_simps)
  qed
  also have "unat \<dots> = unat x div 4096 * 4096"
  proof -
    have "unat (drop_bit 12 x) = unat x div 4096" by (simp add: drop_bit_eq_div unat_div)
    moreover have "unat x div 4096 * 4096 < 2 ^ 32" by (rule le_less_trans [OF div_times_less_eq_dividend]) simp
    ultimately show ?thesis by (simp add: push_bit_eq_mult unat_times_if_small)
  qed
  finally show ?thesis .
qed

lemma chunk_consts [simp]: "kBlockSize = 4096" "kChunkSize = 67108864" "kChunkBlocks = 16384"
  by (simp_all add: kBlockSize_def kChunkSize_def kChunkBlocks_def)

lemma round_up_block_eq: "unat b + 4095 < 2 ^ 32 \<Longrightarrow> unat (round_up_block b) = (unat b + 4095) div 4096 * 4096"
proof -
  assume b: "unat b + 4095 < 2 ^ 32"
  have "b + 4096 - 1 = b + (4095 :: u32)" by simp
  then have "unat (b + 4096 - 1) = unat b + 4095" using b by (simp only:) (subst unat_plus_if_small; simp)
  then show ?thesis using u32_and_not_4095 [of "b + 4096 - 1"] unfolding round_up_block_def chunk_consts
    by (simp only:) simp
qed

text \<open>A chunk record: whole blocks, inside the chunk, and at least one block per index used.\<close>

definition chunk_ok :: "chunk \<Rightarrow> bool" where
  "chunk_ok c \<longleftrightarrow> 4096 dvd unat (ck_write_offset c) \<and> unat (ck_write_offset c) \<le> 67108864
     \<and> unat (ck_next_idx c) * 4096 \<le> unat (ck_write_offset c)"

lemma round_up_nat: "4096 dvd s \<Longrightarrow> n \<le> s \<Longrightarrow> (n + 4095) div 4096 * 4096 \<le> (s :: nat)"
  by (auto simp: dvd_def)

lemma reserve_in_ok:
  assumes c: "chunk_ok c" and room: "unat (ck_write_offset c) < 67108864" and n: "max_length \<noteq> 0"
    and rv: "reserve_in c max_length = (r, c')"
  shows "rv_chunk_id r = ck_chunk_id c" and "rv_offset_bytes r = ck_write_offset c"
    and "unat (rv_length_bytes r) = min (unat max_length) (67108864 - unat (ck_write_offset c))"
    and "unat (rv_padded_bytes r) = (unat (rv_length_bytes r) + 4095) div 4096 * 4096"
    and "unat (ck_write_offset c') = unat (ck_write_offset c) + unat (rv_padded_bytes r)"
    and "chunk_ok c'" and "ck_chunk_id c' = ck_chunk_id c" and "ck_lba_start c' = ck_lba_start c" and "ck_sealed c' = ck_sealed c"
    and "unat (rv_chunk_idx r) = unat (ck_next_idx c)" and "unat (ck_next_idx c') = unat (ck_next_idx c) + 1"
    and "rv_physical_lba r = ck_lba_start c + ucast (ck_write_offset c div 4096)"
proof -
  let ?wo = "unat (ck_write_offset c)"
  define sp where "sp = (67108864 :: u32) - ck_write_offset c"
  have sp: "unat sp = 67108864 - ?wo" using room by (simp add: sp_def unat_minus_le)
  define ac where "ac = min max_length sp"
  have ac: "unat ac = min (unat max_length) (67108864 - ?wo)" using sp by (simp add: ac_def min_def word_le_nat_alt)
  have rd: "unat (round_up_block ac) = (unat ac + 4095) div 4096 * 4096" using ac by (intro round_up_block_eq) auto
  have dv: "4096 dvd 67108864 - ?wo" using c by (auto simp: chunk_ok_def intro: dvd_diff_nat)
  have le: "(unat ac + 4095) div 4096 * 4096 \<le> 67108864 - ?wo" using ac by (intro round_up_nat dv) simp
  have nc: "\<not> round_up_block ac > sp" using le rd sp by (simp add: word_less_nat_alt)
  have r: "r = \<lparr>rv_chunk_id = ck_chunk_id c, rv_chunk_idx = ucast (ck_next_idx c), rv_offset_bytes = ck_write_offset c,
      rv_length_bytes = ac, rv_padded_bytes = round_up_block ac, rv_physical_lba = ck_lba_start c + ucast (ck_write_offset c div 4096)\<rparr>"
    and c': "c' = c\<lparr>ck_write_offset := ck_write_offset c + round_up_block ac, ck_next_idx := ck_next_idx c + 1\<rparr>"
    using rv nc by (auto simp: reserve_in_def Let_def ac_def sp_def)
  have ni: "unat (ck_next_idx c) \<le> 16383" using c room by (auto simp: chunk_ok_def)
  have wo': "unat (ck_write_offset c + round_up_block ac) = ?wo + unat (round_up_block ac)"
    using rd le room by (subst unat_plus_if_small) auto
  have ni': "unat (ck_next_idx c + 1) = unat (ck_next_idx c) + 1" using ni by (subst unat_plus_if_small) auto
  have ac1: "1 \<le> unat ac" using n room ac by (simp add: Suc_le_eq unat_gt_0)
  have "4096 \<le> (unat ac + 4095) div 4096 * 4096" using ac1 by (simp add: div_greater_zero_iff Suc_le_eq)
  then have "(unat (ck_next_idx c) + 1) * 4096 \<le> ?wo + unat (round_up_block ac)" using c rd by (simp add: chunk_ok_def)
  then show "chunk_ok c'" using c le rd room wo' ni' by (auto simp: chunk_ok_def c')
  show "unat (rv_chunk_idx r) = unat (ck_next_idx c)"
    using ni by (simp add: r unsigned_ucast_eq take_bit_eq_mod)
  show "rv_chunk_id r = ck_chunk_id c" "rv_offset_bytes r = ck_write_offset c" "ck_chunk_id c' = ck_chunk_id c"
    "ck_lba_start c' = ck_lba_start c" "ck_sealed c' = ck_sealed c"
    "rv_physical_lba r = ck_lba_start c + ucast (ck_write_offset c div 4096)" by (simp_all add: r c')
  show "unat (rv_length_bytes r) = min (unat max_length) (67108864 - ?wo)" using ac by (simp add: r)
  show "unat (rv_padded_bytes r) = (unat (rv_length_bytes r) + 4095) div 4096 * 4096" using rd by (simp add: r)
  show "unat (ck_write_offset c') = ?wo + unat (rv_padded_bytes r)" using wo' by (simp add: r c')
  show "unat (ck_next_idx c') = unat (ck_next_idx c) + 1" using ni' by (simp add: c')
qed

section \<open>The invariant of the engine\<close>

definition chunk_blocks :: "chunk \<Rightarrow> nat set" where
  "chunk_blocks c = {unat (ck_lba_start c)..<unat (ck_lba_start c) + 16384}"

text \<open>
  Over the free blocks \<open>F\<close> of the device, the next chunk identifier, the chunk records \<open>pc\<close> of the
  database and the active chunk: every recorded chunk owns its blocks, behind the bitmap and inside the
  device, no two share one, and the active chunk is a later state of its record.
\<close>

definition engine_ok ::
    "nebula_layout \<Rightarrow> nat set \<Rightarrow> u32 \<Rightarrow> (u32 \<Rightarrow> chunk option) \<Rightarrow> chunk option \<Rightarrow> bool" where
  "engine_ok L F nc pc act \<longleftrightarrow>
     (\<forall>cid c. pc cid = Some c \<longrightarrow> ck_chunk_id c = cid \<and> cid < nc \<and> chunk_ok c
        \<and> 131 + unat (lay_bitmap_block_count L) \<le> unat (ck_lba_start c)
        \<and> unat (ck_lba_start c) + 16384 \<le> unat (lay_capacity_blocks L) \<and> chunk_blocks c \<inter> F = {})
     \<and> (\<forall>cid c cid' c'. pc cid = Some c \<and> pc cid' = Some c' \<and> cid \<noteq> cid' \<longrightarrow> chunk_blocks c \<inter> chunk_blocks c' = {})
     \<and> (\<forall>a. act = Some a \<longrightarrow> chunk_ok a \<and> (\<exists>c. pc (ck_chunk_id a) = Some c \<and> ck_lba_start c = ck_lba_start a
          \<and> ck_write_offset c \<le> ck_write_offset a))
     \<and> (\<forall>b \<in> F. 131 + unat (lay_bitmap_block_count L) \<le> b)"

lemma engine_okD:
  assumes "engine_ok L F nc pc act"
  shows "pc cid = Some c \<Longrightarrow> ck_chunk_id c = cid \<and> cid < nc \<and> chunk_ok c
        \<and> 131 + unat (lay_bitmap_block_count L) \<le> unat (ck_lba_start c)
        \<and> unat (ck_lba_start c) + 16384 \<le> unat (lay_capacity_blocks L) \<and> chunk_blocks c \<inter> F = {}"
    and "pc cid = Some c \<Longrightarrow> pc cid' = Some c' \<Longrightarrow> cid \<noteq> cid' \<Longrightarrow> chunk_blocks c \<inter> chunk_blocks c' = {}"
    and "act = Some a \<Longrightarrow> chunk_ok a"
    and "act = Some a \<Longrightarrow> \<exists>c. pc (ck_chunk_id a) = Some c \<and> ck_lba_start c = ck_lba_start a \<and> ck_write_offset c \<le> ck_write_offset a"
    and "b \<in> F \<Longrightarrow> 131 + unat (lay_bitmap_block_count L) \<le> b"
  using assms unfolding engine_ok_def by blast+

text \<open>A record replaced by a later state of the same chunk.\<close>

lemma engine_ok_upd:
  assumes ok: "engine_ok L F nc pc act" and c: "pc (ck_chunk_id c') = Some c" and lba: "ck_lba_start c' = ck_lba_start c"
    and c': "chunk_ok c'" and act': "act' = None \<or> act' = act \<and> (\<forall>a. act = Some a \<longrightarrow> ck_chunk_id a = ck_chunk_id c' \<longrightarrow> ck_write_offset c' \<le> ck_write_offset a)"
  shows "engine_ok L F nc (pc(ck_chunk_id c' \<mapsto> c')) act'"
proof -
  have b: "chunk_blocks c' = chunk_blocks c" using lba by (simp add: chunk_blocks_def)
  show ?thesis
    unfolding engine_ok_def
  proof (intro conjI allI impI ballI)
    fix a assume a: "act' = Some a"
    then have "act = Some a" "ck_chunk_id a = ck_chunk_id c' \<longrightarrow> ck_write_offset c' \<le> ck_write_offset a" using act' by auto
    then show "chunk_ok a" "\<exists>ca. (pc(ck_chunk_id c' \<mapsto> c')) (ck_chunk_id a) = Some ca \<and> ck_lba_start ca = ck_lba_start a \<and> ck_write_offset ca \<le> ck_write_offset a"
      using engine_okD(3,4) [OF ok] c lba by fastforce+
  next
    fix cid d assume "(pc(ck_chunk_id c' \<mapsto> c')) cid = Some d"
    then show "ck_chunk_id d = cid" "cid < nc" "chunk_ok d" "131 + unat (lay_bitmap_block_count L) \<le> unat (ck_lba_start d)"
      "unat (ck_lba_start d) + 16384 \<le> unat (lay_capacity_blocks L)" "chunk_blocks d \<inter> F = {}"
      using engine_okD(1) [OF ok] c c' b lba by (auto split: if_splits)
  next
    fix i d j e assume "(pc(ck_chunk_id c' \<mapsto> c')) i = Some d \<and> (pc(ck_chunk_id c' \<mapsto> c')) j = Some e \<and> i \<noteq> j"
    then obtain d0 e0 where "pc i = Some d0" "chunk_blocks d0 = chunk_blocks d" "pc j = Some e0" "chunk_blocks e0 = chunk_blocks e" "i \<noteq> j"
      using c b by (auto split: if_splits)
    then show "chunk_blocks d \<inter> chunk_blocks e = {}" using engine_okD(2) [OF ok, of i d0 j e0] by simp
  qed (use engine_okD(5) [OF ok] in auto)
qed

text \<open>A fresh chunk.\<close>

lemma engine_ok_new:
  assumes ok: "engine_ok L F nc pc act" and c: "chunk_ok c" "ck_chunk_id c = nc" "chunk_blocks c \<subseteq> F"
    "unat (ck_lba_start c) + 16384 \<le> unat (lay_capacity_blocks L)" and nc: "nc < nc + 1" and act': "act' = None \<or> act' = Some c"
  shows "engine_ok L (F - chunk_blocks c) (nc + 1) (pc(nc \<mapsto> c)) act'"
proof -
  have lo: "131 + unat (lay_bitmap_block_count L) \<le> unat (ck_lba_start c)"
  proof (rule engine_okD(5) [OF ok])
    show "unat (ck_lba_start c) \<in> F" using c(3) by (rule subsetD) (simp add: chunk_blocks_def)
  qed
  have dis: "chunk_blocks d \<inter> chunk_blocks c = {}" if "pc i = Some d" for i d
    using engine_okD(1) [OF ok that] c(3) by blast
  show ?thesis
    unfolding engine_ok_def
  proof (intro conjI allI impI ballI)
    fix cid d assume d: "(pc(nc \<mapsto> c)) cid = Some d"
    show "ck_chunk_id d = cid" "cid < nc + 1" "chunk_ok d" "131 + unat (lay_bitmap_block_count L) \<le> unat (ck_lba_start d)"
      "unat (ck_lba_start d) + 16384 \<le> unat (lay_capacity_blocks L)" "chunk_blocks d \<inter> (F - chunk_blocks c) = {}"
      using d engine_okD(1) [OF ok, of cid d] c lo nc by (auto split: if_splits)
  next
    fix i d j e assume "(pc(nc \<mapsto> c)) i = Some d \<and> (pc(nc \<mapsto> c)) j = Some e \<and> i \<noteq> j"
    then have h: "(pc(nc \<mapsto> c)) i = Some d" "(pc(nc \<mapsto> c)) j = Some e" "i \<noteq> j" by simp_all
    show "chunk_blocks d \<inter> chunk_blocks e = {}"
    proof (cases "i = nc")
      case True
      then have "d = c" "pc j = Some e" using h by auto
      then show ?thesis using dis [of j e] by blast
    next
      case False
      then have d: "pc i = Some d" using h by simp
      show ?thesis
      proof (cases "j = nc")
        case True
        then show ?thesis using h dis [OF d] by simp
      next
        case False
        then show ?thesis using h by (intro engine_okD(2) [OF ok d]) simp_all
      qed
    qed
  next
    fix a assume "act' = Some a"
    then have "a = c" using act' by auto
    then show "chunk_ok a" "\<exists>ca. (pc(nc \<mapsto> c)) (ck_chunk_id a) = Some ca \<and> ck_lba_start ca = ck_lba_start a \<and> ck_write_offset ca \<le> ck_write_offset a"
      using c by auto
  qed (use engine_okD(5) [OF ok] in auto)
qed

lemma engine_ok_weaken:
  assumes ok: "engine_ok L F nc pc act" and "F' \<subseteq> F" and "nc \<le> nc'" and act': "act' = None \<or> act' = act"
  shows "engine_ok L F' nc' pc act'"
  unfolding engine_ok_def
proof (intro conjI allI impI ballI)
  fix cid c assume c: "pc cid = Some c"
  note d = engine_okD(1) [OF ok c]
  show "ck_chunk_id c = cid" "chunk_ok c" "131 + unat (lay_bitmap_block_count L) \<le> unat (ck_lba_start c)"
      "unat (ck_lba_start c) + 16384 \<le> unat (lay_capacity_blocks L)" using d by auto
  show "cid < nc'" using d assms(3) by auto
  show "chunk_blocks c \<inter> F' = {}" using d assms(2) by auto
next
  fix i d j e assume "pc i = Some d \<and> pc j = Some e \<and> i \<noteq> j"
  then show "chunk_blocks d \<inter> chunk_blocks e = {}" using engine_okD(2) [OF ok] by blast
next
  fix a assume "act' = Some a"
  then have a: "act = Some a" using act' by auto
  show "chunk_ok a" by (rule engine_okD(3) [OF ok a])
  show "\<exists>c. pc (ck_chunk_id a) = Some c \<and> ck_lba_start c = ck_lba_start a \<and> ck_write_offset c \<le> ck_write_offset a"
    by (rule engine_okD(4) [OF ok a])
next
  fix b assume "b \<in> F'"
  then show "131 + unat (lay_bitmap_block_count L) \<le> b" using engine_okD(5) [OF ok] assms(2) by blast
qed

section \<open>The chunk that a reference sees\<close>

definition eff_chunk :: "chunk option \<Rightarrow> (u32 \<Rightarrow> chunk option) \<Rightarrow> u32 \<Rightarrow> chunk option" where
  "eff_chunk act pc cid = (case act of Some a \<Rightarrow> if ck_chunk_id a = cid then Some a else pc cid | None \<Rightarrow> pc cid)"

text \<open>Chunk records only grow: the blocks stay, the write offset does not go back.\<close>

definition chunks_le :: "(u32 \<Rightarrow> chunk option) \<Rightarrow> (u32 \<Rightarrow> chunk option) \<Rightarrow> bool" where
  "chunks_le pc pc' \<longleftrightarrow> (\<forall>cid c. pc cid = Some c \<longrightarrow>
     (\<exists>c'. pc' cid = Some c' \<and> ck_lba_start c' = ck_lba_start c \<and> ck_write_offset c \<le> ck_write_offset c'))"

lemma chunks_le_refl [simp]: "chunks_le pc pc"
  by (simp add: chunks_le_def)

lemma chunks_le_trans: "chunks_le a b \<Longrightarrow> chunks_le b c \<Longrightarrow> chunks_le a c"
  unfolding chunks_le_def by (fastforce intro: order.trans)

lemma chunks_le_new: "pc cid = None \<Longrightarrow> chunks_le pc (pc(cid \<mapsto> c))"
  by (auto simp: chunks_le_def)

lemma chunks_le_upd:
  "pc cid = Some c \<Longrightarrow> ck_lba_start c' = ck_lba_start c \<Longrightarrow> ck_write_offset c \<le> ck_write_offset c' \<Longrightarrow> chunks_le pc (pc(cid \<mapsto> c'))"
  by (auto simp: chunks_le_def)

lemma chunks_le_eff: "engine_ok L F nc pc act \<Longrightarrow> chunks_le pc (eff_chunk act pc)"
  by (cases act) (auto simp: chunks_le_def eff_chunk_def dest: engine_okD(4))

text \<open>The blocks that belong to chunks.\<close>

definition chunk_area :: "(u32 \<Rightarrow> chunk option) \<Rightarrow> nat set" where
  "chunk_area pc = (\<Union>c \<in> ran pc. chunk_blocks c)"

lemma chunk_area_upd: "chunk_area (pc(cid \<mapsto> c)) \<subseteq> chunk_area pc \<union> chunk_blocks c"
  by (auto simp: chunk_area_def ran_def split: if_splits)

lemma chunk_area_mem: "pc cid = Some c \<Longrightarrow> chunk_blocks c \<subseteq> chunk_area pc"
  by (auto simp: chunk_area_def ran_def)

text \<open>What the engine leaves alone in the view.\<close>

definition same_objects :: "meta_view \<Rightarrow> meta_view \<Rightarrow> bool" where
  "same_objects v v' \<longleftrightarrow> mv_path v' = mv_path v \<and> mv_attrs v' = mv_attrs v \<and> mv_extent v' = mv_extent v \<and> mv_rev v' = mv_rev v"

lemma same_objects_refl [simp]: "same_objects v v"
  by (simp add: same_objects_def)

lemma same_objects_trans: "same_objects a b \<Longrightarrow> same_objects b c \<Longrightarrow> same_objects a c"
  by (simp add: same_objects_def)

lemma same_objects_chunk [simp]: "same_objects v (view_op (PutChunk c) v)"
  by (simp add: same_objects_def)

section \<open>The engine on a device and a database\<close>

locale objstore_env = block_backend ops blk dinv healthy + rocksdb_store R kv
  for ops :: "'d nebula_io_ops" and blk :: "'d \<Rightarrow> nat \<Rightarrow> byte list" and dinv :: "u64 \<Rightarrow> 'd \<Rightarrow> bool" and healthy :: "'d \<Rightarrow> bool"
    and R :: "'db rocksdb" and kv :: "'db \<Rightarrow> byte list \<Rightarrow> byte list option"
begin

abbreviation vw :: "('d, 'db) objstore \<Rightarrow> meta_view" where "vw st \<equiv> view_of (kv (ms_db (os_meta st)))"
abbreviation frees :: "('d, 'db) objstore \<Rightarrow> nat set" where "frees st \<equiv> hbm_free (m_bitmap (os_mount st))"
abbreviation next_chunk :: "('d, 'db) objstore \<Rightarrow> u32" where "next_chunk st \<equiv> ms_next_chunk_id (os_meta st)"
abbreviation eff :: "('d, 'db) objstore \<Rightarrow> u32 \<Rightarrow> chunk option" where "eff st \<equiv> eff_chunk (os_active st) (mv_chunk (vw st))"

abbreviation eok :: "nebula_layout \<Rightarrow> ('d, 'db) objstore \<Rightarrow> bool" where
  "eok L st \<equiv> mount_inv ops dinv L (os_mount st) \<and> meta_typed (ms_map kv (os_meta st))
     \<and> engine_ok L (frees st) (next_chunk st) (mv_chunk (vw st)) (os_active st)"

text \<open>What every step of the engine keeps.\<close>

abbreviation estep :: "nebula_layout \<Rightarrow> ('d, 'db) objstore \<Rightarrow> ('d, 'db) objstore \<Rightarrow> bool" where
  "estep L st st' \<equiv> eok L st' \<and> mount_next L (os_mount st) (os_mount st') \<and> same_outside_bitmap L (os_mount st) (os_mount st')
     \<and> same_objects (vw st) (vw st') \<and> chunks_le (mv_chunk (vw st)) (mv_chunk (vw st'))
     \<and> frees st' \<union> chunk_area (mv_chunk (vw st')) \<subseteq> frees st \<union> chunk_area (mv_chunk (vw st))
     \<and> ms_next_object_id (os_meta st') = ms_next_object_id (os_meta st) \<and> unat (next_chunk st') \<le> unat (next_chunk st) + 1"

lemma estep_refl: "eok L st \<Longrightarrow> estep L st st"
  using mount_next_refl [of L "os_mount st"] by simp

lemma put_chunk_state:
  assumes "put_chunk R ms c = (s, ms')"
  shows "view_of (ms_map kv ms') = view_op (PutChunk c) (view_of (ms_map kv ms)) \<or> s \<noteq> OK \<and> view_of (ms_map kv ms') = view_of (ms_map kv ms)"
    and "meta_typed (ms_map kv ms) \<Longrightarrow> meta_typed (ms_map kv ms')"
    and "ms_next_object_id ms' = ms_next_object_id ms" and "ms_next_chunk_id ms' = ms_next_chunk_id ms"
  using put_chunk_view [OF assms] put_chunk_cases(3,4) [OF assms] by auto

lemma seal_step:
  assumes ok: "eok L st" and act: "os_active st = Some a" and se: "seal_active_locked R st = (s, st')"
  shows "estep L st st'" and "os_active st' = None" and "next_chunk st' = next_chunk st" and "frees st' = frees st"
    and "s = OK \<Longrightarrow> mv_chunk (vw st') = (mv_chunk (vw st))(ck_chunk_id a \<mapsto> a\<lparr>ck_sealed := True\<rparr>)"
    and "s = OK \<Longrightarrow> chunks_le (eff st) (eff st')"
proof -
  let ?c = "a\<lparr>ck_sealed := True\<rparr>"
  obtain ms1 where p: "put_chunk R (os_meta st) ?c = (s, ms1)" and st': "st' = st\<lparr>os_meta := ms1, os_active := None\<rparr>"
    using se act by (auto simp: seal_active_locked_def split: prod.splits)
  note ps = put_chunk_state [OF p]
  note eo = conjunct2 [OF conjunct2 [OF ok]]
  obtain c where c: "mv_chunk (vw st) (ck_chunk_id a) = Some c" "ck_lba_start c = ck_lba_start a" "ck_write_offset c \<le> ck_write_offset a"
    using engine_okD(4) [OF eo act] by auto
  have ca: "chunk_ok ?c" using engine_okD(3) [OF eo act] by (simp add: chunk_ok_def)
  have e1: "engine_ok L (frees st) (next_chunk st) ((mv_chunk (vw st))(ck_chunk_id a \<mapsto> ?c)) None"
    using engine_ok_upd [OF eo, of ?c c None] c ca by simp
  have e2: "engine_ok L (frees st) (next_chunk st) (mv_chunk (vw st)) None" by (rule engine_ok_weaken [OF eo]) simp_all
  have le: "chunks_le (mv_chunk (vw st)) ((mv_chunk (vw st))(ck_chunk_id a \<mapsto> ?c))" using c by (intro chunks_le_upd) auto
  have v: "vw st' = view_op (PutChunk ?c) (vw st) \<or> s \<noteq> OK \<and> vw st' = vw st" using ps(1) by (simp add: st')
  then have "engine_ok L (frees st) (next_chunk st) (mv_chunk (vw st')) None" "same_objects (vw st) (vw st')"
    "chunks_le (mv_chunk (vw st)) (mv_chunk (vw st'))" using e1 e2 le by (auto simp: same_objects_def)
  moreover have "chunk_area (mv_chunk (vw st')) \<subseteq> chunk_area (mv_chunk (vw st))"
  proof -
    have "chunk_blocks ?c \<subseteq> chunk_area (mv_chunk (vw st))" using chunk_area_mem [of "mv_chunk (vw st)", OF c(1)] c(2) by (simp add: chunk_blocks_def)
    then show ?thesis using v chunk_area_upd [of "mv_chunk (vw st)" "ck_chunk_id a" ?c] by auto
  qed
  ultimately show "estep L st st'" using ok ps mount_next_refl [of L "os_mount st"] by (auto simp: st')
  show "os_active st' = None" "next_chunk st' = next_chunk st" "frees st' = frees st" using ps(4) by (simp_all add: st')
  show m: "s = OK \<Longrightarrow> mv_chunk (vw st') = (mv_chunk (vw st))(ck_chunk_id a \<mapsto> ?c)" using v by auto
  show "chunks_le (eff st) (eff st')" if "s = OK"
    using m [OF that] by (auto simp: chunks_le_def eff_chunk_def act st' split: if_splits)
qed

lemma allocate_step:
  assumes ok: "eok L st" and act: "os_active st = None" and room: "unat (next_chunk st) + 1 < 2 ^ 32"
    and al: "allocate_new_chunk_locked R st = (s, st')"
  shows "estep L st st'" and "s = OK \<Longrightarrow> \<exists>c. os_active st' = Some c \<and> ck_write_offset c = 0 \<and> chunk_ok c
      \<and> chunks_le (eff st) (eff st') \<and> eff st (ck_chunk_id c) = None"
proof -
  note eo = conjunct2 [OF conjunct2 [OF ok]]
  obtain r m1 where ba: "nebula_block_alloc (os_mount st) kChunkBlocks = (r, m1)" by (rule prod.exhaust)
  note bc = block_alloc_cases [OF conjunct1 [OF ok] ba]
  have inc: "next_chunk st < next_chunk st + 1" "unat (next_chunk st + 1) = unat (next_chunk st) + 1"
    using room by (simp_all add: word_less_nat_alt unat_plus_if_small)
  show "estep L st st'" and "s = OK \<Longrightarrow> \<exists>c. os_active st' = Some c \<and> ck_write_offset c = 0 \<and> chunk_ok c
      \<and> chunks_le (eff st) (eff st') \<and> eff st (ck_chunk_id c) = None"
  proof (atomize (full), cases r)
    case (Inl e)
    then have st': "st' = st\<lparr>os_mount := m1\<rparr>" and s: "s \<noteq> OK" using al ba by (auto simp: allocate_new_chunk_locked_def)
    show "estep L st st' \<and> (s = OK \<longrightarrow> (\<exists>c. os_active st' = Some c \<and> ck_write_offset c = 0 \<and> chunk_ok c
        \<and> chunks_le (eff st) (eff st') \<and> eff st (ck_chunk_id c) = None))"
      using ok s bc(1,2) bc(3) [OF Inl] by (simp add: st')
  next
    case (Inr lba)
    note b4 = bc(4) [OF Inr, simplified]
    obtain s1 cid ms1 where ai: "allocate_chunk_id R (os_meta st) = (s1, cid, ms1)" by (rule prod_cases3)
    note ac = allocate_chunk_id_cases [OF ai] and av = allocate_ids_view [of "os_meta st" s1 _ ms1 cid, OF disjI2, OF ai]
    define c where "c = \<lparr>ck_chunk_id = cid, ck_lba_start = lba, ck_write_offset = 0, ck_next_idx = 0, ck_sealed = False\<rparr>"
    have cb: "chunk_blocks c = {unat lba..<unat lba + 16384}" by (simp add: chunk_blocks_def c_def)
    have fr: "hbm_free (m_bitmap m1) = frees st - chunk_blocks c"
      using mark_used_ok(2) [OF mount_inv_geometry(7) [OF conjunct1 [OF ok]], of 16384 "unat lba"] b4 by (simp add: cb)
    have capb: "unat lba + 16384 \<le> unat (lay_capacity_blocks L)"
      using run_within [of 16384 "unat lba" "hb_l0_bits (m_bitmap (os_mount st))" "unat (hb_total_blocks (m_bitmap (os_mount st)))"] b4 mount_inv_geometry(8) [OF conjunct1 [OF ok]] by simp
    have ck: "chunk_ok c" by (simp add: chunk_ok_def c_def)
    have e1: "engine_ok L (frees st - chunk_blocks c) (next_chunk st + 1) ((mv_chunk (vw st))(next_chunk st \<mapsto> c)) act'"
      if "act' = None \<or> act' = Some c" for act'
    proof (rule engine_ok_new [OF eo ck _ _ _ inc(1) that])
      show "ck_chunk_id c = next_chunk st" "unat (ck_lba_start c) + 16384 \<le> unat (lay_capacity_blocks L)"
        using ac(1) capb by (simp_all add: c_def)
      show "chunk_blocks c \<subseteq> frees st" using b4 by (simp add: cb)
    qed
    have e0: "engine_ok L (frees st - chunk_blocks c) (next_chunk st + 1) (mv_chunk (vw st)) None"
      using inc by (intro engine_ok_weaken [OF eo]) auto
    have new: "mv_chunk (vw st) (next_chunk st) = None" using engine_okD(1) [OF eo, of "next_chunk st"] by (cases "mv_chunk (vw st) (next_chunk st)") auto
    show "estep L st st' \<and> (s = OK \<longrightarrow> (\<exists>c. os_active st' = Some c \<and> ck_write_offset c = 0 \<and> chunk_ok c
        \<and> chunks_le (eff st) (eff st') \<and> eff st (ck_chunk_id c) = None))"
    proof (cases "s1 = OK")
      case False
      then have st': "st' = st\<lparr>os_mount := m1, os_meta := ms1\<rparr>" and s: "s \<noteq> OK"
        using al ba Inr ai by (auto simp: allocate_new_chunk_locked_def Let_def)
      show ?thesis using ok bc(1,2) e0 fr ac(1-3) av s inc act by (simp add: st' le_supI1)
    next
      case True
      obtain s2 ms2 where p: "put_chunk R ms1 c = (s2, ms2)" by (rule prod.exhaust)
      note ps = put_chunk_state [OF p]
      have st': "st' = st\<lparr>os_mount := m1, os_meta := ms2, os_active := if s2 = OK then Some c else None\<rparr>" and s: "s = OK \<longleftrightarrow> s2 = OK"
        using al ba Inr ai True p act by (auto simp: allocate_new_chunk_locked_def Let_def c_def split: if_splits)
      have v: "vw st' = view_op (PutChunk c) (vw st) \<or> s2 \<noteq> OK \<and> vw st' = vw st" using ps(1) av(1) by (simp add: st')
      have idc: "ck_chunk_id c = next_chunk st" using ac(1) by (simp add: c_def)
      have eo': "engine_ok L (frees st') (next_chunk st') (mv_chunk (vw st')) (os_active st')"
        using v e1 e0 fr ps(4) ac(1,2) idc by (auto simp: st')
      have le: "chunks_le (mv_chunk (vw st)) (mv_chunk (vw st'))" using v new idc by (auto intro: chunks_le_new)
      have ar: "frees st' \<union> chunk_area (mv_chunk (vw st')) \<subseteq> frees st \<union> chunk_area (mv_chunk (vw st))"
        using v chunk_area_upd [of "mv_chunk (vw st)" "next_chunk st" c] fr b4 idc by (auto simp: st' cb)
      have so: "same_objects (vw st) (vw st')" using v by (auto simp: same_objects_def)
      have "estep L st st'" using eo' le so ar bc(1,2) ps ok av ac(1-3) inc(2) by (simp add: st')
      moreover have "chunks_le (eff st) (eff st')" if "s2 = OK"
        using v that new idc by (auto simp: chunks_le_def eff_chunk_def act st' split: if_splits)
      moreover have "eff st (ck_chunk_id c) = None" using new idc act by (simp add: eff_chunk_def)
      ultimately show ?thesis using s ck by (auto simp: st' c_def)
    qed
  qed
qed

end

section \<open>Reservations\<close>

definition chunk_used :: "chunk \<Rightarrow> nat set" where
  "chunk_used c = {unat (ck_lba_start c)..<unat (ck_lba_start c) + unat (ck_write_offset c) div 4096}"

definition frontier :: "(u32 \<Rightarrow> chunk option) \<Rightarrow> nat set" where
  "frontier pc = (\<Union>c \<in> ran pc. chunk_used c)"

lemma frontier_mono: "chunks_le pc pc' \<Longrightarrow> frontier pc \<subseteq> frontier pc'"
proof
  fix b assume le: "chunks_le pc pc'" and "b \<in> frontier pc"
  then obtain cid c where c: "pc cid = Some c" "b \<in> chunk_used c" by (auto simp: frontier_def ran_def)
  then obtain c' where c': "pc' cid = Some c'" "ck_lba_start c' = ck_lba_start c" "ck_write_offset c \<le> ck_write_offset c'"
    using le by (auto simp: chunks_le_def)
  then have "chunk_used c \<subseteq> chunk_used c'" by (auto simp: chunk_used_def word_le_nat_alt intro: less_le_trans div_le_mono)
  then show "b \<in> frontier pc'" using c c' by (auto simp: frontier_def ran_def)
qed

lemma chunk_used_blocks: "chunk_ok c \<Longrightarrow> chunk_used c \<subseteq> chunk_blocks c"
  by (auto simp: chunk_used_def chunk_blocks_def chunk_ok_def)

text \<open>
  A reservation \<open>r\<close> of at most \<open>n\<close> bytes, from the chunks \<open>pc\<close> to the chunks \<open>pc'\<close>: at least one byte, whole
  blocks, at the end of a chunk, and blocks of the device that no chunk had used.
\<close>

definition reserved :: "nebula_layout \<Rightarrow> u32 \<Rightarrow> (u32 \<Rightarrow> chunk option) \<Rightarrow> (u32 \<Rightarrow> chunk option) \<Rightarrow> reservation \<Rightarrow> bool" where
  "reserved L n pc pc' r \<longleftrightarrow>
     (\<exists>c. pc' (rv_chunk_id r) = Some c \<and> 4096 dvd unat (rv_offset_bytes r)
        \<and> 1 \<le> unat (rv_length_bytes r) \<and> rv_length_bytes r \<le> n
        \<and> unat (rv_padded_bytes r) = (unat (rv_length_bytes r) + 4095) div 4096 * 4096
        \<and> unat (ck_write_offset c) = unat (rv_offset_bytes r) + unat (rv_padded_bytes r)
        \<and> unat (ck_write_offset c) \<le> 67108864 \<and> unat (rv_chunk_idx r) < 16384
        \<and> unat (rv_physical_lba r) = unat (ck_lba_start c) + unat (rv_offset_bytes r) div 4096
        \<and> 131 + unat (lay_bitmap_block_count L) \<le> unat (ck_lba_start c) \<and> unat (ck_lba_start c) + 16384 \<le> unat (lay_capacity_blocks L)
        \<and> {unat (rv_physical_lba r)..<unat (rv_physical_lba r) + unat (rv_padded_bytes r) div 4096} \<inter> frontier pc = {})"

lemma chunks_le_None: "chunks_le pc pc' \<Longrightarrow> pc' cid = None \<Longrightarrow> pc cid = None"
  by (cases "pc cid") (force simp: chunks_le_def)+

lemma engine_ok_act:
  assumes ok: "engine_ok L F nc pc (Some c)" and c': "ck_chunk_id c' = ck_chunk_id c" "ck_lba_start c' = ck_lba_start c"
    "chunk_ok c'" "ck_write_offset c \<le> ck_write_offset c'"
  shows "engine_ok L F nc pc (Some c')"
proof -
  obtain d where d: "pc (ck_chunk_id c) = Some d" "ck_lba_start d = ck_lba_start c" "ck_write_offset d \<le> ck_write_offset c"
    using engine_okD(4) [OF ok refl] by blast
  have "\<exists>d. pc (ck_chunk_id c') = Some d \<and> ck_lba_start d = ck_lba_start c' \<and> ck_write_offset d \<le> ck_write_offset c'"
    using d c' by (auto intro: order.trans)
  then show ?thesis using ok c'(3) unfolding engine_ok_def by simp
qed

context objstore_env
begin

lemma estep_seq:
  assumes "estep L st st1" and "next_chunk st1 = next_chunk st" and "estep L st1 st2"
  shows "estep L st st2"
proof -
  have "frees st2 \<union> chunk_area (mv_chunk (vw st2)) \<subseteq> frees st \<union> chunk_area (mv_chunk (vw st))"
    using assms(1,3) by (meson order.trans)
  then show ?thesis
    using assms next_io_trans [of "m_io (os_mount st)" "m_io (os_mount st1)" "m_io (os_mount st2)"]
      same_objects_trans [of "vw st" "vw st1" "vw st2"] chunks_le_trans [of "mv_chunk (vw st)" "mv_chunk (vw st1)" "mv_chunk (vw st2)"]
    by (simp add: same_meta_def)
qed

lemma eff_facts:
  assumes ok: "eok L st" and d: "eff st cid = Some d"
  shows "chunk_ok d" and "ck_chunk_id d = cid" and "131 + unat (lay_bitmap_block_count L) \<le> unat (ck_lba_start d)"
    and "unat (ck_lba_start d) + 16384 \<le> unat (lay_capacity_blocks L)"
    and "\<exists>c. mv_chunk (vw st) cid = Some c \<and> ck_lba_start c = ck_lba_start d \<and> ck_write_offset c \<le> ck_write_offset d"
proof -
  note eo = conjunct2 [OF conjunct2 [OF ok]]
  have "chunk_ok d \<and> ck_chunk_id d = cid
      \<and> (\<exists>c. mv_chunk (vw st) cid = Some c \<and> ck_lba_start c = ck_lba_start d \<and> ck_write_offset c \<le> ck_write_offset d)"
  proof (cases "os_active st")
    case None
    then show ?thesis using d engine_okD(1) [OF eo, of cid d] by (auto simp: eff_chunk_def)
  next
    case (Some a)
    then show ?thesis using d engine_okD(1) [OF eo, of cid d] engine_okD(3,4) [OF eo Some]
      by (auto simp: eff_chunk_def split: if_splits)
  qed
  then obtain c where c: "chunk_ok d" "ck_chunk_id d = cid" "mv_chunk (vw st) cid = Some c" "ck_lba_start c = ck_lba_start d"
      "ck_write_offset c \<le> ck_write_offset d" by blast
  note cf = engine_okD(1) [OF eo c(3)]
  show "chunk_ok d" "ck_chunk_id d = cid"
    "\<exists>c. mv_chunk (vw st) cid = Some c \<and> ck_lba_start c = ck_lba_start d \<and> ck_write_offset c \<le> ck_write_offset d" using c by auto
  show "131 + unat (lay_bitmap_block_count L) \<le> unat (ck_lba_start d)" "unat (ck_lba_start d) + 16384 \<le> unat (lay_capacity_blocks L)"
    using cf c(4) by simp_all
qed

lemma eff_disjoint:
  assumes ok: "eok L st" and "eff st i = Some d" and "eff st j = Some e" and "i \<noteq> j"
  shows "chunk_blocks d \<inter> chunk_blocks e = {}"
proof -
  obtain d' e' where "mv_chunk (vw st) i = Some d'" "ck_lba_start d' = ck_lba_start d" "mv_chunk (vw st) j = Some e'" "ck_lba_start e' = ck_lba_start e"
    using eff_facts(5) [OF ok] assms(2,3) by blast
  then show ?thesis using engine_okD(2) [OF conjunct2 [OF conjunct2 [OF ok]], of i d' j e'] assms(4) by (simp add: chunk_blocks_def)
qed

lemma ensure_active_step:
  assumes ok: "eok L st" and room: "unat (next_chunk st) + 1 < 2 ^ 32" and en: "ensure_active R st = (s, st')"
  shows "estep L st st'" and "s = OK \<Longrightarrow> \<exists>c. os_active st' = Some c \<and> unat (ck_write_offset c) < 67108864
      \<and> chunks_le (eff st) (eff st') \<and> (\<forall>d. eff st (ck_chunk_id c) = Some d \<longrightarrow> d = c)"
proof (atomize (full), cases "os_active st")
  case None
  then have "allocate_new_chunk_locked R st = (s, st')" using en by (simp add: ensure_active_def)
  note a = allocate_step [OF ok None room this]
  have "\<exists>c. os_active st' = Some c \<and> unat (ck_write_offset c) < 67108864
      \<and> chunks_le (eff st) (eff st') \<and> (\<forall>d. eff st (ck_chunk_id c) = Some d \<longrightarrow> d = c)" if "s = OK"
    using a(2) [OF that] by auto
  then show "estep L st st' \<and> (s = OK \<longrightarrow> (\<exists>c. os_active st' = Some c \<and> unat (ck_write_offset c) < 67108864
      \<and> chunks_le (eff st) (eff st') \<and> (\<forall>d. eff st (ck_chunk_id c) = Some d \<longrightarrow> d = c)))"
    using a(1) by blast
next
  case (Some a)
  show "estep L st st' \<and> (s = OK \<longrightarrow> (\<exists>c. os_active st' = Some c \<and> unat (ck_write_offset c) < 67108864
      \<and> chunks_le (eff st) (eff st') \<and> (\<forall>d. eff st (ck_chunk_id c) = Some d \<longrightarrow> d = c)))"
  proof (cases "ck_write_offset a \<ge> kChunkSize")
    case False
    then have "s = OK" "st' = st" using en Some by (auto simp: ensure_active_def)
    then show ?thesis using False Some estep_refl [OF ok] by (simp add: eff_chunk_def word_le_nat_alt not_le)
  next
    case True
    obtain s1 st1 where se: "seal_active_locked R st = (s1, st1)" by (rule prod.exhaust)
    note sl = seal_step [OF ok Some se]
    show ?thesis
    proof (cases "s1 = OK")
      case False
      then have "s = s1" "st' = st1" using en Some True se by (auto simp: ensure_active_def)
      then show ?thesis using False sl(1) by simp
    next
      case sOK: True
      then have al: "allocate_new_chunk_locked R st1 = (s, st')" using en Some True se by (auto simp: ensure_active_def)
      have room1: "unat (next_chunk st1) + 1 < 2 ^ 32" using room sl(3) by simp
      note a = allocate_step [OF conjunct1 [OF sl(1)] sl(2) room1 al]
      have st: "estep L st st'" by (rule estep_seq [OF sl(1) sl(3) a(1)])
      have "\<exists>c. os_active st' = Some c \<and> unat (ck_write_offset c) < 67108864
          \<and> chunks_le (eff st) (eff st') \<and> (\<forall>d. eff st (ck_chunk_id c) = Some d \<longrightarrow> d = c)" if sok: "s = OK"
      proof -
        obtain c where c: "os_active st' = Some c" "ck_write_offset c = 0" "chunks_le (eff st1) (eff st')" "eff st1 (ck_chunk_id c) = None"
          using a(2) [OF sok] by auto
        have l1: "chunks_le (eff st) (eff st1)" by (rule sl(6) [OF sOK])
        then have "eff st (ck_chunk_id c) = None" using c(4) by (rule chunks_le_None)
        then show ?thesis using c chunks_le_trans [OF l1 c(3)] by simp
      qed
      then show ?thesis using st by blast
    qed
  qed
qed

lemma allocate_status: "allocate_new_chunk_locked R st = (s, st') \<Longrightarrow> s \<in> {OK, ERROR_NO_SPACE, ERROR_METADATA}"
  by (auto simp: allocate_new_chunk_locked_def allocate_chunk_id_def put_chunk_def Let_def split: prod.splits sum.splits if_splits)

lemma ensure_status: "ensure_active R st = (s, st') \<Longrightarrow> s \<in> {OK, ERROR_NO_SPACE, ERROR_METADATA}"
  using allocate_status
  by (auto simp: ensure_active_def seal_active_locked_def put_chunk_def split: option.splits prod.splits if_splits)

lemma reserve_step:
  assumes ok: "eok L st" and room: "unat (next_chunk st) + 1 < 2 ^ 32" and re: "reserve R st n = (q, st')"
  shows "estep L st st'" and "q = Inr r \<Longrightarrow> chunks_le (eff st) (eff st') \<and> reserved L n (eff st) (eff st') r"
    and "n \<noteq> 0 \<Longrightarrow> q = Inl e \<Longrightarrow> e \<in> {ERROR_NO_SPACE, ERROR_METADATA}"
proof -
  obtain s st1 where en: "ensure_active R st = (s, st1)" by (rule prod.exhaust)
  note es = ensure_active_step [OF ok room en]
  have err: "s \<in> {OK, ERROR_NO_SPACE, ERROR_METADATA}" by (rule ensure_status [OF en])
  consider (zero) "n = 0" "q = Inl ERROR_INVALID_ARGUMENT" "st' = st" | (fail) "n \<noteq> 0" "s \<noteq> OK" "q = Inl s" "st' = st1"
    | (got) c v c' where "n \<noteq> 0" "s = OK" "os_active st1 = Some c" "reserve_in c n = (v, c')" "q = Inr v" "st' = st1\<lparr>os_active := Some c'\<rparr>"
      "unat (ck_write_offset c) < 67108864" "chunks_le (eff st) (eff st1)" "\<forall>d. eff st (ck_chunk_id c) = Some d \<longrightarrow> d = c"
    using re en es(2) by (cases "n = 0"; cases "s = OK") (auto simp: reserve_def split: prod.splits)
  then have "estep L st st' \<and> (q = Inr r \<longrightarrow> chunks_le (eff st) (eff st') \<and> reserved L n (eff st) (eff st') r)
      \<and> (n \<noteq> 0 \<longrightarrow> q = Inl e \<longrightarrow> e \<in> {ERROR_NO_SPACE, ERROR_METADATA})"
  proof cases
    case zero
    then show ?thesis using estep_refl [OF ok] by simp
  next
    case fail
    then show ?thesis using es(1) err by auto
  next
    case got
    note ok1 = conjunct1 [OF es(1)]
    note eo1 = conjunct2 [OF conjunct2 [OF ok1], unfolded got(3)]
    note ri = reserve_in_ok [OF engine_okD(3) [OF eo1 refl] got(7,1,4)]
    have le: "ck_write_offset c \<le> ck_write_offset c'" using ri(5) by (simp add: word_le_nat_alt)
    have eo': "engine_ok L (frees st1) (next_chunk st1) (mv_chunk (vw st1)) (Some c')"
      by (rule engine_ok_act [OF eo1 ri(7,8,6) le])
    have st: "estep L st st'" using es(1) eo' by (simp add: got(6))
    have ec: "eff st1 (ck_chunk_id c) = Some c" using got(3) by (simp add: eff_chunk_def)
    have ec': "eff st' = (eff st1)(ck_chunk_id c \<mapsto> c')" using got(3,6) ri(7) by (auto simp: eff_chunk_def fun_eq_iff)
    have l1: "chunks_le (eff st1) (eff st')" unfolding ec' using ec ri(8) le by (intro chunks_le_upd [where c = c])
    note ef = eff_facts [OF ok1 ec]
    have cap: "unat (lay_capacity_blocks L) < 2 ^ 46" using mount_inv_geometry(9,10) [OF conjunct1 [OF ok1]] by simp
    have ph: "unat (rv_physical_lba v) = unat (ck_lba_start c) + unat (ck_write_offset c) div 4096"
      using ri(12) ef(4) cap got(7) by (simp add: unat_plus_if_small unat_div)
    have fr: "{unat (rv_physical_lba v)..<unat (rv_physical_lba v) + unat (rv_padded_bytes v) div 4096} \<inter> chunk_used d = {}"
      if "eff st i = Some d" for i d
    proof (cases "i = ck_chunk_id c")
      case True
      then have "d = c" using that got(9) by simp
      then show ?thesis by (auto simp: chunk_used_def ph)
    next
      case False
      obtain d1 where d1: "eff st1 i = Some d1" "ck_lba_start d1 = ck_lba_start d" using got(8) \<open>eff st i = Some d\<close> by (auto simp: chunks_le_def)
      have "chunk_blocks d1 \<inter> chunk_blocks c = {}" by (rule eff_disjoint [OF ok1 d1(1) ec False])
      moreover have "chunk_used d \<subseteq> chunk_blocks d1"
        using chunk_used_blocks [OF eff_facts(1) [OF ok that]] d1(2) by (simp add: chunk_blocks_def)
      moreover have "{unat (rv_physical_lba v)..<unat (rv_physical_lba v) + unat (rv_padded_bytes v) div 4096} \<subseteq> chunk_blocks c"
        using ri(5,6) by (auto simp: chunk_blocks_def ph chunk_ok_def elim!: dvdE)
      ultimately show ?thesis by blast
    qed
    have "reserved L n (eff st) (eff st') v"
      unfolding reserved_def
    proof (intro exI conjI)
      show "eff st' (rv_chunk_id v) = Some c'" using ec' ri(1) by simp
      show "4096 dvd unat (rv_offset_bytes v)" using engine_okD(3) [OF eo1 refl] ri(2) by (simp add: chunk_ok_def)
      show "1 \<le> unat (rv_length_bytes v)" using ri(3) got(1,7) by (simp add: Suc_le_eq unat_gt_0)
      show "rv_length_bytes v \<le> n" using ri(3) by (simp add: word_le_nat_alt)
      show "unat (rv_padded_bytes v) = (unat (rv_length_bytes v) + 4095) div 4096 * 4096" by (rule ri(4))
      show "unat (ck_write_offset c') = unat (rv_offset_bytes v) + unat (rv_padded_bytes v)" using ri(2,5) by simp
      show "unat (ck_write_offset c') \<le> 67108864" using ri(6) by (simp add: chunk_ok_def)
      show "unat (rv_chunk_idx v) < 16384" using ri(10) engine_okD(3) [OF eo1 refl] got(7) by (simp add: chunk_ok_def)
      show "unat (rv_physical_lba v) = unat (ck_lba_start c') + unat (rv_offset_bytes v) div 4096" using ph ri(2,8) by simp
      show "131 + unat (lay_bitmap_block_count L) \<le> unat (ck_lba_start c')" "unat (ck_lba_start c') + 16384 \<le> unat (lay_capacity_blocks L)"
        using ef(3,4) ri(8) by simp_all
      show "{unat (rv_physical_lba v)..<unat (rv_physical_lba v) + unat (rv_padded_bytes v) div 4096} \<inter> frontier (eff st) = {}"
        using fr by (auto simp: frontier_def ran_def)
    qed
    then show ?thesis using st chunks_le_trans [OF got(8) l1] got(5) by auto
  qed
  then show "estep L st st'" and "q = Inr r \<Longrightarrow> chunks_le (eff st) (eff st') \<and> reserved L n (eff st) (eff st') r"
    and "n \<noteq> 0 \<Longrightarrow> q = Inl e \<Longrightarrow> e \<in> {ERROR_NO_SPACE, ERROR_METADATA}" by blast+
qed

text \<open>On a database that does not fail only a lack of space is left.\<close>

lemma reserve_live:
  assumes live: "rocksdb_live R kv" and ok: "eok L st" and room: "unat (next_chunk st) + 1 < 2 ^ 32"
    and re: "reserve R st n = (Inl e, st')" and n: "n \<noteq> 0"
  shows "e = ERROR_NO_SPACE"
proof -
  have pl: "s = OK" if "put_chunk R ms c = (s, ms')" for ms c s ms' using rocksdb_live.put_chunk_live [OF live, of ms c] that by simp
  have al: "s = OK" if "allocate_chunk_id R ms = (s, i, ms')" for ms s i ms' using rocksdb_live.allocate_live(2) [OF live, of ms] that by simp
  have a: "s \<in> {OK, ERROR_NO_SPACE}" if "allocate_new_chunk_locked R x = (s, y)" for x s y
    using that by (auto simp: allocate_new_chunk_locked_def Let_def split: prod.splits sum.splits if_splits dest: pl al)
  have "s \<in> {OK, ERROR_NO_SPACE}" if "ensure_active R x = (s, y)" for x s y
    using that a by (auto simp: ensure_active_def seal_active_locked_def split: option.splits prod.splits if_splits dest: pl)
  moreover obtain s st1 where "ensure_active R st = (s, st1)" by (rule prod.exhaust)
  ultimately show ?thesis
    using re n ensure_active_step(2) [OF ok room, of s st1] by (auto simp: reserve_def split: if_splits prod.splits option.splits)
qed

text \<open>The blocks of a reservation were free or belonged to a chunk.\<close>

lemma reserved_area:
  assumes ok: "eok L st'" and re: "reserved L n pc (eff st') r"
  shows "{unat (rv_physical_lba r)..<unat (rv_physical_lba r) + unat (rv_padded_bytes r) div 4096} \<subseteq> chunk_area (mv_chunk (vw st'))"
proof -
  obtain c where c: "eff st' (rv_chunk_id r) = Some c" "4096 dvd unat (rv_offset_bytes r)"
      "unat (ck_write_offset c) = unat (rv_offset_bytes r) + unat (rv_padded_bytes r)" "unat (ck_write_offset c) \<le> 67108864"
      "unat (rv_physical_lba r) = unat (ck_lba_start c) + unat (rv_offset_bytes r) div 4096"
    using re unfolding reserved_def by blast
  obtain d where d: "mv_chunk (vw st') (rv_chunk_id r) = Some d" "ck_lba_start d = ck_lba_start c" using eff_facts(5) [OF ok c(1)] by blast
  have "{unat (rv_physical_lba r)..<unat (rv_physical_lba r) + unat (rv_padded_bytes r) div 4096} \<subseteq> chunk_blocks d"
    using c(2-5) d(2) by (auto simp: chunk_blocks_def elim!: dvdE)
  then show ?thesis using chunk_area_mem [of "mv_chunk (vw st')", OF d(1)] by blast
qed

end

section \<open>Opening the engine\<close>

text \<open>The last unsealed chunk among the identifiers from \<open>a\<close> below \<open>b\<close>.\<close>

definition adopt :: "(u32 \<Rightarrow> chunk option) \<Rightarrow> nat \<Rightarrow> nat \<Rightarrow> chunk option \<Rightarrow> chunk option" where
  "adopt pc a b act = fold (\<lambda>i act. case pc (of_nat i) of Some c \<Rightarrow> if \<not> ck_sealed c then Some c else act | None \<Rightarrow> act) [a..<b] act"

context rocksdb_live
begin

lemma chunk_scan_adopts:
  assumes ty: "meta_typed (ms_map kv ms)" and "a \<le> b"
    and present: "\<forall>i. a \<le> i \<and> i < b \<longrightarrow> mv_chunk (view_of (ms_map kv ms)) (of_nat i) \<noteq> None"
    and absent: "mv_chunk (view_of (ms_map kv ms)) (of_nat b) = None"
  shows "chunk_scan R ms (of_nat a) act = Some (OK, adopt (mv_chunk (view_of (ms_map kv ms))) a b act)"
  using assms(2,3)
proof (induction "b - a" arbitrary: a act)
  case 0
  then have "a = b" by simp
  then show ?case using absent reads_live(3) [OF ty, of "of_nat b"] by (subst chunk_scan.simps) (simp add: adopt_def)
next
  case (Suc k)
  then have lt: "a < b" by simp
  then obtain c where c: "mv_chunk (view_of (ms_map kv ms)) (of_nat a) = Some c" using Suc.prems(2) by blast
  let ?act = "if \<not> ck_sealed c then Some c else act"
  have "chunk_scan R ms (of_nat a) act = chunk_scan R ms (of_nat (Suc a)) ?act"
    using c reads_live(3) [OF ty, of "of_nat a"] by (subst chunk_scan.simps) (simp add: add.commute)
  also have "\<dots> = Some (OK, adopt (mv_chunk (view_of (ms_map kv ms))) (Suc a) b ?act)"
    using Suc lt by (intro Suc.hyps(1)) auto
  also have "adopt (mv_chunk (view_of (ms_map kv ms))) (Suc a) b ?act = adopt (mv_chunk (view_of (ms_map kv ms))) a b act"
    using c lt by (simp add: adopt_def upt_conv_Cons)
  finally show ?case .
qed

end

end
