(* ===== verification/Objstore_Iter.thy ===== *)
theory Objstore_Iter
  imports Objstore_Metadata
begin

unbundle bit_operations_syntax

text \<open>
  The range scan of \<open>metadata.cc\<close>: over a sorted database the extents of one object are a contiguous
  stretch of keys, and the scan visits exactly those that overlap the range.
\<close>

section \<open>The order of keys\<close>

lemma lex_append_less [simp]: "p @ a < p @ b \<longleftrightarrow> a < (b :: byte list)"
  by (induction p) simp_all

lemma lex_append_le [simp]: "p @ a \<le> p @ b \<longleftrightarrow> a \<le> (b :: byte list)"
  by (induction p) simp_all

lemma lex_prefix_le: "p \<le> p @ (a :: byte list)"
  by (induction p) simp_all

lemma lex_between: "p \<le> k \<Longrightarrow> k \<le> p @ a \<Longrightarrow> take (length p) k = (p :: byte list)"
proof (induction p arbitrary: k)
  case (Cons b p)
  then show ?case by (cases k) auto
qed simp

lemma key_extent_pre: "key_extent oid off = key_extent_prefix oid @ put_be64 [] off"
  by (simp add: key_shape)

lemma key_extent_order [simp]: "key_extent oid x < key_extent oid y \<longleftrightarrow> x < y" "key_extent oid x \<le> key_extent oid y \<longleftrightarrow> x \<le> y"
  by (simp_all add: key_extent_pre be_order flip: linorder_not_less)

lemma extent_key_offset [simp]: "extent_key_offset oid (key_extent oid off) = off" "is_extent_key oid (key_extent oid off)"
  by (simp_all add: extent_key_offset_def is_extent_key_def key_extent_pre be_roundtrip)

lemma is_extent_key_iff: "is_extent_key oid k \<longleftrightarrow> k = key_extent oid (extent_key_offset oid k)"
proof
  assume "is_extent_key oid k"
  then have k: "take 11 k = key_extent_prefix oid" "length (drop 11 k) = 8" by (auto simp: is_extent_key_def)
  have "put_be64 [] (get_be64 (drop 11 k)) = drop 11 k"
    using k(2) by (simp add: get_be64_fold put_be_le foldl_le_word le_bytes_le_word)
  then show "k = key_extent oid (extent_key_offset oid k)"
    using k(1) by (simp add: key_extent_pre extent_key_offset_def) (metis append_take_drop_id)
next
  assume "k = key_extent oid (extent_key_offset oid k)"
  then show "is_extent_key oid k" using extent_key_offset(2) by metis
qed

section \<open>The stretch of an object\<close>

definition has_prefix :: "byte list \<Rightarrow> byte list \<Rightarrow> bool" where
  "has_prefix p k \<longleftrightarrow> take (length p) k = p"

lemma has_prefix_ge: "has_prefix p k \<Longrightarrow> p \<le> k"
  unfolding has_prefix_def by (metis append_take_drop_id lex_prefix_le)

text \<open>A sorted list of entries splits into the keys below a prefix, those with it, and those above.\<close>

lemma sorted_prefix_split:
  fixes es :: "(byte list \<times> 'v) list"
  assumes "sorted (map fst es)"
  obtains A X B where "es = A @ X @ B" and "\<forall>e \<in> set A. fst e < p" and "\<forall>e \<in> set X. has_prefix p (fst e)"
    and "\<forall>e \<in> set B. p < fst e \<and> \<not> has_prefix p (fst e)"
proof
  define A where "A = takeWhile (\<lambda>e. fst e < p) es"
  define C where "C = dropWhile (\<lambda>e. fst e < p) es"
  have C: "p \<le> fst e" if "e \<in> set C" for e
  proof -
    have "sorted (map fst C)" unfolding C_def using assms by (metis map_append sorted_append takeWhile_dropWhile_id)
    moreover have "C \<noteq> [] \<Longrightarrow> \<not> fst (hd C) < p" unfolding C_def by (rule hd_dropWhile)
    ultimately show ?thesis using that by (cases C) auto
  qed
  show "es = A @ takeWhile (\<lambda>e. has_prefix p (fst e)) C @ dropWhile (\<lambda>e. has_prefix p (fst e)) C"
    by (simp add: A_def C_def)
  show "\<forall>e \<in> set A. fst e < p" by (auto simp: A_def dest: set_takeWhileD)
  show "\<forall>e \<in> set (takeWhile (\<lambda>e. has_prefix p (fst e)) C). has_prefix p (fst e)" by (auto dest: set_takeWhileD)
  let ?B = "dropWhile (\<lambda>e. has_prefix p (fst e)) C"
  have sB: "sorted (map fst ?B)" unfolding C_def using assms by (metis map_append sorted_append takeWhile_dropWhile_id)
  show "\<forall>e \<in> set ?B. p < fst e \<and> \<not> has_prefix p (fst e)"
  proof
    fix e assume e: "e \<in> set ?B"
    then have ne: "?B \<noteq> []" by (metis empty_iff list.set(1))
    then have h: "\<not> has_prefix p (fst (hd ?B))" by (rule hd_dropWhile)
    have ph: "p \<le> fst (hd ?B)" using C ne by (meson hd_in_set set_dropWhileD)
    have he: "fst (hd ?B) \<le> fst e" using sB e by (cases ?B) auto
    have "\<not> has_prefix p (fst e)"
    proof
      assume "has_prefix p (fst e)"
      then have "fst e = p @ drop (length p) (fst e)" unfolding has_prefix_def by (metis append_take_drop_id)
      with he ph have "take (length p) (fst (hd ?B)) = p" by (metis lex_between)
      with h show False by (simp add: has_prefix_def)
    qed
    moreover have "p \<le> fst e" using ph he by (rule order.trans)
    moreover have "p \<noteq> fst e" using \<open>\<not> has_prefix p (fst e)\<close> by (auto simp: has_prefix_def)
    ultimately show "p < fst e \<and> \<not> has_prefix p (fst e)" by (simp add: order_less_le)
  qed
qed

section \<open>The forward loop\<close>

fun visit :: "'u visitor \<Rightarrow> (u64 \<times> extent_entry) list \<Rightarrow> 'u \<Rightarrow> 'u" where
  "visit cb [] u = u"
| "visit cb ((off, e) # xs) u = (case cb off e u of (go, u') \<Rightarrow> if go then visit cb xs u' else u')"

definition entry_extent :: "u64 \<Rightarrow> byte list \<times> byte list \<Rightarrow> u64 \<times> extent_entry" where
  "entry_extent oid e = (extent_key_offset oid (fst e), the (decode_extent (snd e)))"

lemma iter_forward_visit:
  assumes "\<forall>e \<in> set X. is_extent_key oid (fst e) \<and> decode_extent (snd e) \<noteq> None"
    and "\<forall>e \<in> set B. \<not> is_extent_key oid (fst e)"
  shows "iter_forward oid stop cb (X @ B) u = (True, visit cb (takeWhile (\<lambda>x. fst x < stop) (map (entry_extent oid) X)) u)"
  using assms(1)
proof (induction X arbitrary: u)
  case Nil
  then show ?case using assms(2) by (cases B) auto
next
  case (Cons e X)
  obtain k v where e: "e = (k, v)" by (cases e)
  obtain x where x: "decode_extent v = Some x" using Cons.prems e by auto
  show ?case
    using Cons e x by (auto simp: entry_extent_def Let_def not_le not_less split: prod.splits)
qed

section \<open>The extents that overlap a range\<close>

definition extents_ok :: "meta_view \<Rightarrow> u64 \<Rightarrow> bool" where
  "extents_ok v oid \<longleftrightarrow>
     (\<forall>off e. mv_extent v (oid, off) = Some e \<longrightarrow> 0 < unat (ee_length e) \<and> unat off + unat (ee_length e) < 2 ^ 64)
     \<and> (\<forall>off e off' e'. mv_extent v (oid, off) = Some e \<and> mv_extent v (oid, off') = Some e' \<and> off < off'
          \<longrightarrow> unat off + unat (ee_length e) \<le> unat off')"

definition overlaps :: "u64 \<Rightarrow> u64 \<Rightarrow> u64 \<times> extent_entry \<Rightarrow> bool" where
  "overlaps start stop x \<longleftrightarrow> fst x < stop \<and> unat start < unat (fst x) + unat (ee_length (snd x))"

lemma filter_less_takeWhile: "sorted (map f xs) \<Longrightarrow> filter (\<lambda>x. f x < c) xs = takeWhile (\<lambda>x. f x < (c :: 'b::linorder)) xs"
proof (induction xs)
  case (Cons x xs)
  show ?case
  proof (cases "f x < c")
    case False
    then have "\<forall>y \<in> set xs. \<not> f y < c" using Cons.prems by force
    then show ?thesis using False by (simp add: filter_empty_conv)
  qed (use Cons in simp)
qed simp

text \<open>The predecessor of the range is visited when it reaches into it, then everything up to its end.\<close>

lemma filter_overlaps_pred:
  fixes Y :: "(u64 \<times> extent_entry) list"
  assumes srt: "sorted (map fst (Y @ Z))" and lt: "start < stop"
    and len: "\<forall>x \<in> set (Y @ Z). 0 < unat (ee_length (snd x))"
    and dis: "\<forall>x \<in> set (Y @ Z). \<forall>y \<in> set (Y @ Z). fst x < fst y \<longrightarrow> unat (fst x) + unat (ee_length (snd x)) \<le> unat (fst y)"
    and Y: "\<forall>x \<in> set Y. fst x \<le> start" and Z: "\<forall>x \<in> set Z. start < fst x" and dist: "distinct (map fst (Y @ Z))"
  shows "filter (overlaps start stop) (Y @ Z)
    = (if Y = [] \<or> \<not> unat start < unat (fst (last Y)) + unat (ee_length (snd (last Y))) then [] else [last Y])
      @ takeWhile (\<lambda>x. fst x < stop) Z"
proof -
  have "filter (overlaps start stop) Z = filter (\<lambda>x. fst x < stop) Z"
    using Z by (intro filter_cong) (auto simp: overlaps_def word_less_nat_alt trans_less_add1)
  also have "\<dots> = takeWhile (\<lambda>x. fst x < stop) Z"
    using srt by (intro filter_less_takeWhile) (simp add: sorted_append)
  finally have z: "filter (overlaps start stop) Z = takeWhile (\<lambda>x. fst x < stop) Z" .
  have "filter (overlaps start stop) Y
    = (if Y = [] \<or> \<not> unat start < unat (fst (last Y)) + unat (ee_length (snd (last Y))) then [] else [last Y])"
  proof (cases Y rule: rev_cases)
    case (snoc Y' y)
    have "\<not> overlaps start stop x" if "x \<in> set Y'" for x
    proof -
      have "fst x \<le> fst y" "fst x \<noteq> fst y" using srt dist that snoc by (auto simp: sorted_append) (metis imageI)
      then have "unat (fst x) + unat (ee_length (snd x)) \<le> unat (fst y)" using dis that snoc by auto
      moreover have "unat (fst y) \<le> unat start" using Y snoc by (simp add: word_le_nat_alt)
      ultimately show ?thesis by (auto simp: overlaps_def)
    qed
    then have "filter (overlaps start stop) Y' = []" by (simp add: filter_empty_conv)
    moreover have "fst y < stop" using Y lt snoc by (auto intro: le_less_trans)
    ultimately show ?thesis using snoc by (simp add: overlaps_def)
  qed simp
  with z show ?thesis by simp
qed

context rocksdb_store
begin

text \<open>The entries of the database around the extents of one object.\<close>

lemma entries_split:
  assumes it: "kv_iter_ok R db" and ty: "meta_typed (kv db)"
  obtains A X B where "kv_entries R db = A @ X @ B"
    and "\<forall>e \<in> set A. fst e < key_extent oid off \<and> \<not> is_extent_key oid (fst e)"
    and "\<forall>e \<in> set X. is_extent_key oid (fst e) \<and> decode_extent (snd e) \<noteq> None"
    and "\<forall>e \<in> set B. key_extent oid off < fst e \<and> \<not> is_extent_key oid (fst e)"
    and "sorted (map fst (map (entry_extent oid) X))" and "distinct (map fst (map (entry_extent oid) X))"
    and "set (map (entry_extent oid) X) = {(off, e). mv_extent (view_of (kv db)) (oid, off) = Some e}"
proof -
  let ?p = "key_extent_prefix oid"
  have es: "sorted (map fst (kv_entries R db))" "distinct (map fst (kv_entries R db))" "map_of (kv_entries R db) = kv db"
    using entries_law [OF it] by auto
  obtain A X B where s: "kv_entries R db = A @ X @ B" and A: "\<forall>e \<in> set A. fst e < ?p"
    and X: "\<forall>e \<in> set X. has_prefix ?p (fst e)" and B: "\<forall>e \<in> set B. ?p < fst e \<and> \<not> has_prefix ?p (fst e)"
    by (rule sorted_prefix_split [OF es(1), of ?p])
  have pre: "has_prefix ?p (key_extent oid y)" for y by (simp add: has_prefix_def key_extent_pre)
  have mem: "kv db (fst e) = Some (snd e)" if "e \<in> set (A @ X @ B)" for e
    using es(2,3) that by (metis map_of_eq_Some_iff prod.collapse s)
  have X1: "is_extent_key oid (fst e) \<and> decode_extent (snd e) \<noteq> None" if e: "e \<in> set X" for e
  proof -
    have "take 3 (fst e) = take 3 (take 11 (fst e))" by simp
    also have "take 11 (fst e) = ?p" using X e by (simp add: has_prefix_def)
    finally have "take 3 (fst e) = bytes_of ''ex:''" by (simp add: key_shape)
    moreover have "entry_typed (fst e) (snd e)" using mem e ty by (simp add: meta_typed_def)
    ultimately have l: "length (fst e) = 19" "length (snd e) = 24" by (simp_all add: entry_typed_def)
    then show ?thesis using X e pods_defined(2) by (simp add: is_extent_key_def has_prefix_def)
  qed
  have key: "fst e = key_extent oid (fst (entry_extent oid e))" if "e \<in> set X" for e
    using X1 [OF that] by (simp add: entry_extent_def is_extent_key_iff)
  have mk: "map fst X = map (key_extent oid) (map fst (map (entry_extent oid) X))" using key by simp
  have sX: "sorted (map fst X)" "distinct (map fst X)" using es(1,2) by (simp_all add: s sorted_append)
  have o1: "sorted (map fst (map (entry_extent oid) X))"
    using sX(1) unfolding mk sorted_map by (simp add: sorted_wrt_map)
  have o2: "distinct (map fst (map (entry_extent oid) X))"
    using sX(2) unfolding mk by (simp only: distinct_map)
  have nA: "\<not> is_extent_key oid (fst e)" if "e \<in> set A" for e
    using A that pre [THEN has_prefix_ge] by (metis is_extent_key_iff not_less)
  have nB: "\<not> is_extent_key oid (fst e)" if "e \<in> set B" for e
    using B that pre by (metis is_extent_key_iff)
  have "(off, e) \<in> set (map (entry_extent oid) X) \<longleftrightarrow> mv_extent (view_of (kv db)) (oid, off) = Some e" for off e
  proof
    assume "(off, e) \<in> set (map (entry_extent oid) X)"
    then obtain y where y: "y \<in> set X" "entry_extent oid y = (off, e)" by auto
    have "fst y = key_extent oid off" using key [OF y(1)] y(2) by simp
    moreover have "decode_extent (snd y) = Some e" using X1 [OF y(1)] y(2) by (auto simp: entry_extent_def)
    ultimately show "mv_extent (view_of (kv db)) (oid, off) = Some e" using mem [of y] y(1) by (simp add: view_of_def)
  next
    assume m: "mv_extent (view_of (kv db)) (oid, off) = Some e"
    then obtain v where v: "kv db (key_extent oid off) = Some v" "decode_extent v = Some e"
      by (auto simp: view_of_def split: bind_splits)
    then have "(key_extent oid off, v) \<in> set (A @ X @ B)" using es(3) s by (metis map_of_SomeD)
    then have "(key_extent oid off, v) \<in> set X" using nA nB by fastforce
    then show "(off, e) \<in> set (map (entry_extent oid) X)" using v(2) by (force simp: entry_extent_def)
  qed
  then have o3: "set (map (entry_extent oid) X) = {(off, e). mv_extent (view_of (kv db)) (oid, off) = Some e}" by auto
  have A': "\<forall>e \<in> set A. fst e < key_extent oid off \<and> \<not> is_extent_key oid (fst e)"
    using A nA pre [THEN has_prefix_ge] by (meson less_le_trans)
  have B': "\<forall>e \<in> set B. key_extent oid off < fst e \<and> \<not> is_extent_key oid (fst e)"
  proof
    fix e assume e: "e \<in> set B"
    have "\<not> fst e \<le> key_extent oid off"
      using B e lex_between [of ?p "fst e"] by (metis has_prefix_def key_extent_pre less_imp_le)
    then show "key_extent oid off < fst e \<and> \<not> is_extent_key oid (fst e)" using nB e by simp
  qed
  show ?thesis using that [OF s A' _ B' o1 o2 o3] X1 by blast
qed

lemma iter_extents_visit:
  assumes it: "kv_iter_ok R (ms_db ms)" and ty: "meta_typed (ms_map kv ms)"
    and ok: "extents_ok (view_of (ms_map kv ms)) oid" and lt: "start < stop"
  obtains xs where "sorted (map fst xs)" and "distinct (map fst xs)"
    and "set xs = {x. mv_extent (view_of (ms_map kv ms)) (oid, fst x) = Some (snd x) \<and> overlaps start stop x}"
    and "\<And>cb u. iter_extents R ms oid start stop cb u = (OK, visit cb xs u)"
proof -
  let ?lower = "key_extent oid start" and ?es = "kv_entries R (ms_db ms)" and ?f = "entry_extent oid"
  obtain A X B where s: "?es = A @ X @ B"
    and A: "\<forall>e \<in> set A. fst e < ?lower \<and> \<not> is_extent_key oid (fst e)"
    and X: "\<forall>e \<in> set X. is_extent_key oid (fst e) \<and> decode_extent (snd e) \<noteq> None"
    and B: "\<forall>e \<in> set B. ?lower < fst e \<and> \<not> is_extent_key oid (fst e)"
    and srt: "sorted (map fst (map ?f X))" and dst: "distinct (map fst (map ?f X))"
    and st: "set (map ?f X) = {(off, e). mv_extent (view_of (ms_map kv ms)) (oid, off) = Some e}"
    by (rule entries_split [OF it ty])
  define Y where "Y = takeWhile (\<lambda>e. fst e \<le> ?lower) X"
  define Z where "Z = dropWhile (\<lambda>e. fst e \<le> ?lower) X"
  have XYZ: "X = Y @ Z" by (simp add: Y_def Z_def)
  have key: "fst e = key_extent oid (fst (?f e))" if "e \<in> set X" for e
    using X that by (simp add: entry_extent_def is_extent_key_iff)
  have Y: "\<forall>x \<in> set (map ?f Y). fst x \<le> start"
  proof
    fix x assume "x \<in> set (map ?f Y)"
    then obtain e where e: "e \<in> set Y" "x = ?f e" by auto
    then have "e \<in> set X" "fst e \<le> ?lower" by (auto simp: Y_def dest: set_takeWhileD)
    with key [of e] e show "fst x \<le> start" by (metis key_extent_order(2))
  qed
  have Z: "\<forall>x \<in> set (map ?f Z). start < fst x"
  proof (cases Z)
    case (Cons z Z')
    have "\<not> fst z \<le> ?lower" using Cons unfolding Z_def by (metis dropWhile_eq_Cons_conv)
    then have "start < fst (?f z)" using key [of z] XYZ Cons by (metis in_set_conv_decomp key_extent_order(2) not_le)
    then show ?thesis using srt XYZ Cons by (auto simp: sorted_append intro: less_le_trans)
  qed simp
  define xs where "xs = filter (overlaps start stop) (map ?f X)"
  have mem: "mv_extent (view_of (ms_map kv ms)) (oid, fst x) = Some (snd x)" if "x \<in> set (map ?f (Y @ Z))" for x
    using st that XYZ by auto
  have xs: "xs = (if map ?f Y = [] \<or> \<not> unat start < unat (fst (last (map ?f Y))) + unat (ee_length (snd (last (map ?f Y))))
      then [] else [last (map ?f Y)]) @ takeWhile (\<lambda>x. fst x < stop) (map ?f Z)"
    unfolding xs_def XYZ map_append
    using srt dst ok mem by (intro filter_overlaps_pred lt Y Z) (auto simp: XYZ extents_ok_def)
  have fwd: "iter_forward oid stop cb (Z @ B) u = (True, visit cb (takeWhile (\<lambda>x. fst x < stop) (map ?f Z)) u)" for cb u
    using X B XYZ by (intro iter_forward_visit) auto
  have prev: "takeWhile (\<lambda>e. fst e \<le> ?lower) ?es = A @ Y"
  proof -
    have "takeWhile (\<lambda>e. fst e \<le> ?lower) B = []" using B by (cases B) auto
    then have "takeWhile (\<lambda>e. fst e \<le> ?lower) (X @ B) = Y"
      by (simp add: Y_def takeWhile_append) (metis takeWhile_eq_all_conv)
    then show ?thesis using A by (simp add: s takeWhile_append2 less_imp_le)
  qed
  have seek: "kv_seek ?es ?lower = Z @ B" if "\<forall>e \<in> set Y. fst e < ?lower"
  proof -
    have "\<forall>e \<in> set Z. \<not> fst e < ?lower" using Z key XYZ by (metis UnCI image_eqI key_extent_order(1) list.set_map not_less_iff_gr_or_eq set_append)
    then have "dropWhile (\<lambda>e. fst e < ?lower) (Z @ B) = Z @ B" using B by (cases Z; cases B) (auto dest: less_asym)
    then show ?thesis using A that by (simp add: kv_seek_def s XYZ dropWhile_append2)
  qed
  have run: "iter_extents R ms oid start stop cb u = (OK, visit cb xs u)" for cb u
  proof (cases Y rule: rev_cases)
    case Nil
    have xs0: "xs = takeWhile (\<lambda>x. fst x < stop) (map ?f Z)" using xs Nil by simp
    have nA: "A \<noteq> [] \<Longrightarrow> \<not> is_extent_key oid (fst (last A))" using A by simp
    have "kv_seek_for_prev ?es ?lower = (if A = [] then [] else last A # Z @ B)"
      using prev Nil by (cases A rule: rev_cases) (simp_all add: kv_seek_for_prev_def Let_def s XYZ)
    then show ?thesis
      using linorder_not_le [THEN iffD2, OF lt] seek Nil it xs0 nA by (cases "last A") (simp add: iter_extents_def Let_def fwd)
  next
    case (snoc Y' y)
    have y: "is_extent_key oid (fst y)" "decode_extent (snd y) = Some (snd (?f y))"
      using X XYZ snoc by (auto simp: entry_extent_def)
    have off: "extent_key_offset oid (fst y) = fst (?f y)" by (simp add: entry_extent_def)
    have my: "mv_extent (view_of (ms_map kv ms)) (oid, fst (?f y)) = Some (snd (?f y))" using mem snoc by simp
    have cov: "fst (?f y) + ucast (ee_length (snd (?f y))) > start
        \<longleftrightarrow> unat start < unat (fst (?f y)) + unat (ee_length (snd (?f y)))"
      using ok my by (simp add: extents_ok_def word_less_nat_alt unat_plus_if_small)
    have nstop: "\<not> stop \<le> fst (?f y)" using Y lt snoc by (auto intro: le_less_trans simp: not_le)
    have lasty: "last (map ?f Y) = ?f y" "map ?f Y \<noteq> []" using snoc by simp_all
    have "kv_seek_for_prev ?es ?lower = y # Z @ B"
      using prev snoc by (simp add: kv_seek_for_prev_def Let_def) (simp add: s XYZ)
    moreover have "kv_seek ?es ?lower = Z @ B" if nc: "\<not> start < fst (?f y) + ucast (ee_length (snd (?f y)))"
    proof (rule seek, rule ballI)
      fix e assume e: "e \<in> set Y"
      have "0 < unat (ee_length (snd (?f y)))" using ok my by (auto simp: extents_ok_def)
      then have "fst (?f y) < start" using nc cov by (simp add: word_less_nat_alt)
      moreover have "fst (?f e) \<le> fst (?f y)" using e srt snoc XYZ by (auto simp: sorted_append)
      ultimately have "key_extent oid (fst (?f e)) < ?lower" by (simp add: le_less_trans)
      then show "fst e < ?lower" using key [of e] e XYZ by simp
    qed
    ultimately show ?thesis
      using linorder_not_le [THEN iffD2, OF lt] it y nstop cov lasty off
      by (cases y; cases "?f y"; cases "cb (fst (?f y)) (snd (?f y)) u") (simp add: iter_extents_def Let_def xs fwd)
  qed
  show ?thesis
  proof (rule that [OF _ _ _ run])
    show "sorted (map fst xs)" "distinct (map fst xs)"
      using srt dst by (simp_all add: xs_def sorted_filter distinct_map_filter)
    show "set xs = {x. mv_extent (view_of (ms_map kv ms)) (oid, fst x) = Some (snd x) \<and> overlaps start stop x}"
      unfolding xs_def set_filter st by auto
  qed
qed

end

end
