(* ===== verification/Objstore_Store.thy ===== *)
theory Objstore_Store
  imports Objstore_Chunk Objstore_Iter Nebula_Fs
begin

unbundle bit_operations_syntax

text \<open>
  \<open>src/objstore/object_store.cc\<close>: the object store over a mounted device, the metadata store and the
  chunk engine.  Object sizes and offsets are 64-bit words, \<open>size_t\<close> too.  Readings of the clock are
  arguments; buffers are byte lists, so the checks for null pointers and for a failed allocation of the
  scratch block have no counterpart.
\<close>

section \<open>Opening\<close>

text \<open>
  What \<open>ObjectStore::open\<close> does once the device is mounted: the metadata store, then the chunk engine;
  \<open>opened\<close> is what RocksDB returns for the metadata path.  A failure releases what was opened.
\<close>

definition object_store_start ::
    "'db rocksdb \<Rightarrow> 'd nebula_mount \<Rightarrow> 'db option \<Rightarrow> (status + ('d, 'db) objstore) option" where
  "object_store_start R m opened =
     (case metadata_open R opened of
        (s, ms) \<Rightarrow>
          if s \<noteq> OK then Some (Inl s)
          else
            (case ms of
               None \<Rightarrow> Some (Inl ERROR_METADATA)
             | Some ms1 \<Rightarrow>
                 (case chunk_engine_open R ms1 of
                    None \<Rightarrow> None
                  | Some (s2, act) \<Rightarrow>
                      Some (if s2 \<noteq> OK then Inl s2 else Inr \<lparr>os_mount = m, os_meta = ms1, os_active = act\<rparr>))))"

text \<open>
  The whole call mounts the device path first: \<open>device\<close> and \<open>stated\<close> are what \<open>open\<close> and \<open>fstat\<close> return for
  it.
\<close>

definition object_store_open ::
    "'db rocksdb \<Rightarrow> posix_dev res \<Rightarrow> errno option \<Rightarrow> 'db option \<Rightarrow> (status + (posix_dev, 'db) objstore) option" where
  "object_store_open R device stated opened =
     (case nebula_fs_mount device stated of
        Inl _ \<Rightarrow> Some (Inl ERROR_IO_FAILURE)
      | Inr m \<Rightarrow> object_store_start R m opened)"

section \<open>Blocks\<close>

definition write_blocks :: "('d, 'db) objstore \<Rightarrow> u64 \<Rightarrow> byte list \<Rightarrow> u32 \<Rightarrow> status \<times> ('d, 'db) objstore" where
  "write_blocks st physical_lba buf n_blocks =
     (case nebula_io_write (m_io (os_mount st)) physical_lba n_blocks buf of
        (r, io') \<Rightarrow> (case r of Inr _ \<Rightarrow> OK | Inl _ \<Rightarrow> ERROR_IO_FAILURE, st\<lparr>os_mount := (os_mount st)\<lparr>m_io := io'\<rparr>\<rparr>))"

definition read_blocks :: "'d nebula_mount \<Rightarrow> u64 \<Rightarrow> u32 \<Rightarrow> (status + byte list) \<times> 'd nebula_mount" where
  "read_blocks m physical_lba n_blocks =
     (case nebula_io_read (m_io m) physical_lba n_blocks of
        (r, io') \<Rightarrow> (case r of Inr bs \<Rightarrow> Inr bs | Inl _ \<Rightarrow> Inl ERROR_IO_FAILURE, m\<lparr>m_io := io'\<rparr>))"

section \<open>Create\<close>

definition object_create :: "'db rocksdb \<Rightarrow> ('d, 'db) objstore \<Rightarrow> byte list \<Rightarrow> u64 \<Rightarrow> status \<times> ('d, 'db) objstore" where
  "object_create R st path now =
     (if \<not> validate_object_path path then (ERROR_INVALID_ARGUMENT, st)
      else if path_exists R (os_meta st) path then (ERROR_ALREADY_EXISTS, st)
      else
        case allocate_object_id R (os_meta st) of
          (s, oid, ms1) \<Rightarrow>
            if s \<noteq> OK then (s, st\<lparr>os_meta := ms1\<rparr>)
            else
              let a = \<lparr>oa_object_id = oid, oa_size = 0, oa_ctime_ns = now, oa_mtime_ns = now, oa_version = 1, oa_num_extents = 0\<rparr>;
                  batch = batch_put_path (batch_put_attrs [] a) path oid
              in case metadata_commit R ms1 batch of (s2, ms2) \<Rightarrow> (s2, st\<lparr>os_meta := ms2\<rparr>))"

section \<open>Write\<close>

text \<open>
  The counters of bytes are natural numbers: a write has fewer than \<open>2 ^ 32\<close> bytes, and a reservation on
  block-aligned chunks is never longer than asked for (\<open>reserve_step\<close>).
\<close>

text \<open>The transfer of one reserved segment: the whole blocks from the caller's buffer, then the zero-padded rest.\<close>

definition write_segment :: "('d, 'db) objstore \<Rightarrow> reservation \<Rightarrow> byte list \<Rightarrow> nat \<Rightarrow> status \<times> ('d, 'db) objstore" where
  "write_segment st r src cursor =
     (let bulk_bytes = rv_length_bytes r AND NOT (kBlockSize - 1);
          tail_bytes = rv_length_bytes r - bulk_bytes;
          (s1, st1) = (if bulk_bytes > 0 then write_blocks st (rv_physical_lba r) (drop cursor src) (bulk_bytes div kBlockSize) else (OK, st))
      in
      if s1 \<noteq> OK then (s1, st1)
      else if tail_bytes > 0 then
        let tail_scratch = put 0 (seg (cursor + unat bulk_bytes) (unat tail_bytes) src) (zeros 4096)
        in write_blocks st1 (rv_physical_lba r + ucast (bulk_bytes div kBlockSize)) tail_scratch 1
      else (OK, st1))"

definition segment_extent :: "reservation \<Rightarrow> extent_entry" where
  "segment_extent r =
     \<lparr>ee_chunk_id = rv_chunk_id r, ee_chunk_idx = rv_chunk_idx r, ee_reserved = 0, ee_offset_in_chunk = rv_offset_bytes r,
      ee_length = rv_length_bytes r, ee_checksum = 0\<rparr>"

lemma reserve_length:
  assumes "reserve R st n = (Inr r, st')"
  shows "rv_length_bytes r \<noteq> 0"
proof -
  obtain s st1 c c' where n: "n \<noteq> 0" and en: "ensure_active R st = (s, st1)" "s = OK" "os_active st1 = Some c"
      and ri: "reserve_in c n = (r, c')"
    using assms by (auto simp: reserve_def split: if_splits prod.splits option.splits)
  have "ck_write_offset c < kChunkSize"
    using en by (auto simp: ensure_active_def allocate_new_chunk_locked_def Let_def split: option.splits prod.splits sum.splits if_splits)
  then have sp: "0 < kChunkSize - ck_write_offset c" by (simp add: word_less_nat_alt unat_minus_le)
  show ?thesis
    using ri n sp by (auto simp: reserve_in_def Let_def min_def split: if_splits)
qed

function write_loop ::
    "'db rocksdb \<Rightarrow> ('d, 'db) objstore \<Rightarrow> u64 \<Rightarrow> byte list \<Rightarrow> nat \<Rightarrow> nat \<Rightarrow> u64 \<Rightarrow> u64 \<Rightarrow> batch
       \<Rightarrow> (status + u64 \<times> batch) \<times> ('d, 'db) objstore" where
  "write_loop R st oid src cursor remaining logical added_extents batch =
     (if remaining = 0 then (Inr (added_extents, batch), st)
      else
        let want = of_nat (min remaining (2 ^ 32 - 1)) in
        case reserve R st want of
          (Inl s, st1) \<Rightarrow> (Inl s, st1)
        | (Inr r, st1) \<Rightarrow>
            (case write_segment st1 r src cursor of
               (s, st2) \<Rightarrow>
                 if s \<noteq> OK then (Inl s, st2)
                 else
                   let batch1 = batch_put_extent batch oid logical (segment_extent r);
                       batch2 = stage_chunk_rev batch1 (rv_chunk_id r) (rv_chunk_idx r) oid logical (rv_length_bytes r);
                       n = unat (rv_length_bytes r)
                   in write_loop R st2 oid src (cursor + n) (remaining - n) (logical + ucast (rv_length_bytes r))
                        (added_extents + 1) batch2))"
  by pat_completeness auto

termination
  by (relation "measure (\<lambda>(R, st, oid, src, cursor, remaining, l, e, b). remaining)")
    (auto dest!: sym [of "(Inr _, _)"] reserve_length simp: unat_gt_0)

definition object_write :: "'db rocksdb \<Rightarrow> ('d, 'db) objstore \<Rightarrow> byte list \<Rightarrow> byte list \<Rightarrow> u64 \<Rightarrow> status \<times> ('d, 'db) objstore" where
  "object_write R st path data now =
     (if \<not> validate_object_path path then (ERROR_INVALID_ARGUMENT, st)
      else
        case path_lookup R (os_meta st) path of
          Inl s \<Rightarrow> (s, st)
        | Inr oid \<Rightarrow>
            (case get_attrs R (os_meta st) oid of
               Inl s \<Rightarrow> (s, st)
             | Inr a \<Rightarrow>
                 if data = [] then (OK, st)
                 else if length data > 2 ^ 32 - 1 then (ERROR_INVALID_ARGUMENT, st)
                 else
                   (case write_loop R st oid data 0 (length data) (oa_size a) 0 [] of
                      (Inl s, st1) \<Rightarrow> (s, st1)
                    | (Inr (added_extents, batch), st1) \<Rightarrow>
                        (case nebula_io_flush (m_io (os_mount st1)) of
                           (r, io') \<Rightarrow>
                             let st2 = st1\<lparr>os_mount := (os_mount st1)\<lparr>m_io := io'\<rparr>\<rparr> in
                             case r of
                               Inl _ \<Rightarrow> (ERROR_IO_FAILURE, st2)
                             | Inr _ \<Rightarrow>
                                 let a1 = a\<lparr>oa_size := oa_size a + of_nat (length data), oa_version := oa_version a + 1,
                                            oa_mtime_ns := now, oa_num_extents := oa_num_extents a + added_extents\<rparr>;
                                     batch1 = stage_active_chunk st2 (batch_put_attrs batch a1)
                                 in case metadata_commit R (os_meta st2) batch1 of (s, ms') \<Rightarrow> (s, st2\<lparr>os_meta := ms'\<rparr>)))))"

section \<open>Read\<close>

text \<open>The variables that the visitor of \<open>read\<close> captures.\<close>

record 'd read_state =
  rs_mount :: "'d nebula_mount"
  rs_cache :: "u32 \<Rightarrow> chunk option"
  rs_status :: status
  rs_cursor :: u64
  rs_remaining :: u64
  rs_dst :: "byte list"

text \<open>\<open>memcpy(dst + (size - remaining), bs, n)\<close> and the two counters.\<close>

definition copy_out :: "u64 \<Rightarrow> byte list \<Rightarrow> u64 \<Rightarrow> 'd read_state \<Rightarrow> 'd read_state" where
  "copy_out sz bs n u =
     u\<lparr>rs_dst := put (unat (sz - rs_remaining u)) bs (rs_dst u), rs_cursor := rs_cursor u + n, rs_remaining := rs_remaining u - n\<rparr>"

text \<open>
  The three phases on one extent: each takes the physical offset and the number of bytes still to copy
  and returns the new ones, or \<open>None\<close> after a failed transfer.
\<close>

definition read_head :: "u64 \<Rightarrow> chunk \<Rightarrow> u64 \<times> u64 \<Rightarrow> 'd read_state \<Rightarrow> (u64 \<times> u64) option \<times> 'd read_state" where
  "read_head sz c pt u =
     (case pt of (phys, to_copy) \<Rightarrow>
        let head_skip = (ucast (phys AND (4096 - 1)) :: u32) in
        if head_skip > 0 \<and> to_copy > 0 then
          (case read_blocks (rs_mount u) (ck_lba_start c + phys div 4096) 1 of
             (Inl s, m) \<Rightarrow> (None, u\<lparr>rs_mount := m, rs_status := s\<rparr>)
           | (Inr scratch, m) \<Rightarrow>
               let this_copy = min to_copy (4096 - ucast head_skip) in
               (Some (phys + this_copy, to_copy - this_copy),
                copy_out sz (seg (unat head_skip) (unat this_copy) scratch) this_copy (u\<lparr>rs_mount := m\<rparr>)))
        else (Some (phys, to_copy), u))"

definition read_bulk :: "u64 \<Rightarrow> chunk \<Rightarrow> u64 \<times> u64 \<Rightarrow> 'd read_state \<Rightarrow> (u64 \<times> u64) option \<times> 'd read_state" where
  "read_bulk sz c pt u =
     (case pt of (phys, to_copy) \<Rightarrow>
        if to_copy \<ge> 4096 then
          let bulk_blocks = (ucast (to_copy div 4096) :: u32); bulk_bytes = ucast bulk_blocks * 4096 in
          (case read_blocks (rs_mount u) (ck_lba_start c + phys div 4096) bulk_blocks of
             (Inl s, m) \<Rightarrow> (None, u\<lparr>rs_mount := m, rs_status := s\<rparr>)
           | (Inr bs, m) \<Rightarrow>
               (Some (phys + bulk_bytes, to_copy - bulk_bytes), copy_out sz bs bulk_bytes (u\<lparr>rs_mount := m\<rparr>)))
        else (Some (phys, to_copy), u))"

definition read_tail :: "u64 \<Rightarrow> chunk \<Rightarrow> u64 \<times> u64 \<Rightarrow> 'd read_state \<Rightarrow> (u64 \<times> u64) option \<times> 'd read_state" where
  "read_tail sz c pt u =
     (case pt of (phys, to_copy) \<Rightarrow>
        if to_copy > 0 then
          (case read_blocks (rs_mount u) (ck_lba_start c + phys div 4096) 1 of
             (Inl s, m) \<Rightarrow> (None, u\<lparr>rs_mount := m, rs_status := s\<rparr>)
           | (Inr scratch, m) \<Rightarrow>
               (Some (phys + to_copy, 0), copy_out sz (take (unat to_copy) scratch) to_copy (u\<lparr>rs_mount := m\<rparr>)))
        else (Some (phys, to_copy), u))"

definition read_extent :: "u64 \<Rightarrow> chunk \<Rightarrow> u64 \<times> u64 \<Rightarrow> 'd read_state \<Rightarrow> bool \<times> 'd read_state" where
  "read_extent sz c pt u =
     (case read_head sz c pt u of
        (None, u1) \<Rightarrow> (False, u1)
      | (Some pt1, u1) \<Rightarrow>
          (case read_bulk sz c pt1 u1 of
             (None, u2) \<Rightarrow> (False, u2)
           | (Some pt2, u2) \<Rightarrow>
               (case read_tail sz c pt2 u2 of
                  (None, u3) \<Rightarrow> (False, u3)
                | (Some _, u3) \<Rightarrow> (rs_remaining u3 > 0, u3))))"

definition read_visit :: "'db rocksdb \<Rightarrow> 'db metadata_store \<Rightarrow> u64 \<Rightarrow> 'd read_state visitor" where
  "read_visit R ms sz ext_off e u =
     (if rs_remaining u = 0 then (False, u)
      else
        let ext_end = ext_off + ucast (ee_length e) in
        if ext_end \<le> rs_cursor u then (True, u)
        else if ext_off \<ge> rs_cursor u + rs_remaining u then (False, u)
        else
          case (case rs_cache u (ee_chunk_id e) of Some c \<Rightarrow> Inr c | None \<Rightarrow> get_chunk R ms (ee_chunk_id e)) of
            Inl s \<Rightarrow> (False, u\<lparr>rs_status := s\<rparr>)
          | Inr c \<Rightarrow>
              let u1 = u\<lparr>rs_cache := (rs_cache u)(ee_chunk_id e \<mapsto> c)\<rparr>;
                  in_ext_off = (if rs_cursor u > ext_off then rs_cursor u - ext_off else 0);
                  in_ext_left = ucast (ee_length e) - in_ext_off;
                  to_copy = min (rs_remaining u) in_ext_left
              in read_extent sz c (ucast (ee_offset_in_chunk e) + in_ext_off, to_copy) u1)"

text \<open>The overload with a caller's buffer: the number of bytes read, the buffer and the store.\<close>

definition object_read ::
    "'db rocksdb \<Rightarrow> ('d, 'db) objstore \<Rightarrow> byte list \<Rightarrow> u64 \<Rightarrow> u64 \<Rightarrow> byte list \<Rightarrow> (status + u64) \<times> byte list \<times> ('d, 'db) objstore" where
  "object_read R st path offset dst_cap dst =
     (if \<not> validate_object_path path then (Inl ERROR_INVALID_ARGUMENT, dst, st)
      else
        case path_lookup R (os_meta st) path of
          Inl s \<Rightarrow> (Inl s, dst, st)
        | Inr oid \<Rightarrow>
            (case get_attrs R (os_meta st) oid of
               Inl s \<Rightarrow> (Inl s, dst, st)
             | Inr a \<Rightarrow>
                 if offset > oa_size a then (Inl ERROR_OUT_OF_RANGE, dst, st)
                 else
                   let avail = oa_size a - offset; sz = (if dst_cap > avail then avail else dst_cap) in
                   if sz = 0 then (Inr 0, dst, st)
                   else
                     case iter_extents R (os_meta st) oid offset (offset + sz) (read_visit R (os_meta st) sz)
                            \<lparr>rs_mount = os_mount st, rs_cache = Map.empty, rs_status = OK, rs_cursor = offset, rs_remaining = sz, rs_dst = dst\<rparr> of
                       (s, u) \<Rightarrow>
                         (if rs_status u \<noteq> OK then Inl (rs_status u) else if s \<noteq> OK then Inl s else Inr (sz - rs_remaining u),
                          rs_dst u, st\<lparr>os_mount := rs_mount u\<rparr>)))"

text \<open>The overload that fills a vector.\<close>

definition object_read_vec ::
    "'db rocksdb \<Rightarrow> ('d, 'db) objstore \<Rightarrow> byte list \<Rightarrow> u64 \<Rightarrow> u64 \<Rightarrow> (status + byte list) \<times> ('d, 'db) objstore" where
  "object_read_vec R st path offset sz =
     (if \<not> validate_object_path path then (Inl ERROR_INVALID_ARGUMENT, st)
      else
        case path_lookup R (os_meta st) path of
          Inl s \<Rightarrow> (Inl s, st)
        | Inr oid \<Rightarrow>
            (case get_attrs R (os_meta st) oid of
               Inl s \<Rightarrow> (Inl s, st)
             | Inr a \<Rightarrow>
                 if offset > oa_size a then (Inl ERROR_OUT_OF_RANGE, st)
                 else
                   let avail = oa_size a - offset; sz1 = (if sz > avail then avail else sz) in
                   if sz1 = 0 then (Inr [], st)
                   else
                     case object_read R st path offset sz1 (zeros (unat sz1)) of
                       (Inl s, _, st1) \<Rightarrow> (Inl s, st1)
                     | (Inr got, out, st1) \<Rightarrow> (Inr (take (unat got) out), st1)))"

definition object_stat :: "'db rocksdb \<Rightarrow> ('d, 'db) objstore \<Rightarrow> byte list \<Rightarrow> status + object_attrs" where
  "object_stat R st path =
     (if \<not> validate_object_path path then Inl ERROR_INVALID_ARGUMENT
      else case path_lookup R (os_meta st) path of Inl s \<Rightarrow> Inl s | Inr oid \<Rightarrow> get_attrs R (os_meta st) oid)"

definition chunk_id_range :: "'db rocksdb \<Rightarrow> ('d, 'db) objstore \<Rightarrow> byte list \<Rightarrow> status + u32 \<times> u32" where
  "chunk_id_range R st path =
     (if \<not> validate_object_path path then Inl ERROR_INVALID_ARGUMENT
      else
        case path_lookup R (os_meta st) path of
          Inl s \<Rightarrow> Inl s
        | Inr oid \<Rightarrow>
            (case get_attrs R (os_meta st) oid of
               Inl s \<Rightarrow> Inl s
             | Inr a \<Rightarrow>
                 if oa_size a = 0 then Inr (0, 0)
                 else
                   case iter_extents R (os_meta st) oid 0 (oa_size a)
                          (\<lambda>off e (lo, hi). (True, (if ee_chunk_id e < lo then ee_chunk_id e else lo,
                                                   if ee_chunk_id e > hi then ee_chunk_id e else hi))) (- 1, 0) of
                     (s, lo_hi) \<Rightarrow> if s \<noteq> OK then Inl s else Inr lo_hi))"

end
