(* ===== verification/Objstore_Data.thy ===== *)
theory Objstore_Data
  imports Objstore_Store
begin

unbundle bit_operations_syntax

text \<open>
  The data path of the object store: what a segment write leaves on the device and what the three
  phases of an extent read return, as ranges of the byte stream of a chunk.
\<close>

section \<open>The byte stream from a block on\<close>

definition sbytes :: "(nat \<Rightarrow> byte list) \<Rightarrow> nat \<Rightarrow> nat \<Rightarrow> nat \<Rightarrow> byte list" where
  "sbytes d b i n = map (\<lambda>j. d (b + j div 4096) ! (j mod 4096)) [i..<i + n]"

lemma sbytes_length [simp]: "length (sbytes d b i n) = n"
  by (simp add: sbytes_def)

lemma sbytes_0 [simp]: "sbytes d b i 0 = []"
  by (simp add: sbytes_def)

lemma sbytes_append: "sbytes d b i m @ sbytes d b (i + m) n = sbytes d b i (m + n)"
  using upt_add_eq_append [of i "i + m" n] by (simp add: sbytes_def add.assoc)

lemma sbytes_seg: "k + n \<le> m \<Longrightarrow> seg k n (sbytes d b i m) = sbytes d b (i + k) n"
  by (simp add: sbytes_def seg_map seg_upt)

lemma sbytes_block:
  assumes "\<And>i. length (d i) = 4096" and "i mod 4096 + n \<le> 4096"
  shows "sbytes d b i n = seg (i mod 4096) n (d (b + i div 4096))"
proof (rule nth_equalityI)
  fix k assume k: "k < length (sbytes d b i n)"
  have "i mod 4096 + k < 4096" using k assms(2) by simp
  then have "(i + k) div 4096 = i div 4096" "(i + k) mod 4096 = i mod 4096 + k"
    using div_add1_eq [of i k 4096] mod_add_left_eq [of i 4096 k] by simp_all
  then show "sbytes d b i n ! k = seg (i mod 4096) n (d (b + i div 4096)) ! k"
    using k assms by (simp add: sbytes_def)
qed (use assms in \<open>auto simp: min_def\<close>)

lemma sbytes_blocks:
  assumes "\<And>i. length (d i) = 4096" and "4096 dvd i"
  shows "concat (map d [b + i div 4096..<b + i div 4096 + k]) = sbytes d b i (4096 * k)"
proof (induction k)
  case (Suc k)
  have i: "(i + 4096 * k) div 4096 = i div 4096 + k" "(i + 4096 * k) mod 4096 = 0" using assms(2) by (auto elim!: dvdE)
  have "sbytes d b i (4096 * Suc k) = sbytes d b i (4096 * k) @ sbytes d b (i + 4096 * k) 4096"
    by (simp add: sbytes_append add.commute)
  also have "sbytes d b (i + 4096 * k) 4096 = d (b + i div 4096 + k)"
    using sbytes_block [OF assms(1), where i = "i + 4096 * k" and n = 4096 and b = b] i assms(1) by (simp add: add.assoc)
  finally show ?case using Suc.IH by simp
qed simp

lemma sbytes_cong:
  assumes "\<And>x. b + i div 4096 \<le> x \<Longrightarrow> x < b + (i + n + 4095) div 4096 \<Longrightarrow> d x = d' x"
  shows "sbytes d b i n = sbytes d' b i n"
proof -
  have "d (b + j div 4096) = d' (b + j div 4096)" if "i \<le> j" "j < i + n" for j
  proof (rule assms)
    show "b + i div 4096 \<le> b + j div 4096" using that by (simp add: div_le_mono)
    have "j div 4096 < (i + n + 4095) div 4096" using that by linarith
    then show "b + j div 4096 < b + (i + n + 4095) div 4096" by simp
  qed
  then show ?thesis by (simp add: sbytes_def)
qed

lemma put_put_append: "p + length a + length b \<le> length xs \<Longrightarrow> put (p + length a) b (put p a xs) = put p (a @ b) xs"
  by (rule nth_equalityI) (auto simp: nth_put nth_append)

lemma put_nil [simp]: "put p [] xs = xs"
  by (simp add: put_def)

section \<open>Reading an extent\<close>

text \<open>\<open>n\<close> bytes moved from the stream at the physical offset into the destination.\<close>

definition moved :: "(nat \<Rightarrow> byte list) \<Rightarrow> nat \<Rightarrow> u64 \<Rightarrow> nat \<Rightarrow> u64 \<times> u64 \<Rightarrow> 'd read_state \<Rightarrow> u64 \<times> u64 \<Rightarrow> 'd read_state \<Rightarrow> bool" where
  "moved d b sz n pt u pt' u' \<longleftrightarrow>
     n \<le> unat (snd pt) \<and> unat (fst pt') = unat (fst pt) + n \<and> unat (snd pt') = unat (snd pt) - n
     \<and> rs_dst u' = put (unat sz - unat (rs_remaining u)) (sbytes d b (unat (fst pt)) n) (rs_dst u)
     \<and> unat (rs_cursor u') = unat (rs_cursor u) + n \<and> unat (rs_remaining u') = unat (rs_remaining u) - n
     \<and> rs_cache u' = rs_cache u \<and> rs_status u' = rs_status u"

text \<open>The room that a read needs: in the destination, in the object and in 64 bits.\<close>

definition room :: "u64 \<Rightarrow> u64 \<times> u64 \<Rightarrow> 'd read_state \<Rightarrow> bool" where
  "room sz pt u \<longleftrightarrow> unat (snd pt) \<le> unat (rs_remaining u) \<and> rs_remaining u \<le> sz \<and> unat sz \<le> length (rs_dst u)
     \<and> unat (fst pt) + unat (snd pt) < 2 ^ 63 \<and> unat (rs_cursor u) + unat (rs_remaining u) < 2 ^ 64"

lemma moved_refl: "room sz pt u \<Longrightarrow> moved d b sz 0 pt u pt u"
  by (simp add: moved_def)

lemma moved_room: "room sz pt u \<Longrightarrow> moved d b sz n pt u pt' u' \<Longrightarrow> room sz pt' u'"
  unfolding room_def moved_def word_le_nat_alt by auto

lemma moved_trans:
  assumes r: "room sz pt u" and m1: "moved d b sz n pt u pt1 u1" and m2: "moved d b sz k pt1 u1 pt2 u2"
  shows "moved d b sz (n + k) pt u pt2 u2"
proof -
  have a: "unat sz - unat (rs_remaining u1) = unat sz - unat (rs_remaining u) + n" "unat (fst pt1) = unat (fst pt) + n"
    using m1 r by (auto simp: moved_def room_def word_le_nat_alt)
  have fit: "unat sz - unat (rs_remaining u) + n + k \<le> length (rs_dst u)" "n + k \<le> unat (snd pt)"
    using m1 m2 r by (auto simp: moved_def room_def word_le_nat_alt)
  have "rs_dst u2 = put (unat sz - unat (rs_remaining u) + n) (sbytes d b (unat (fst pt) + n) k)
      (put (unat sz - unat (rs_remaining u)) (sbytes d b (unat (fst pt)) n) (rs_dst u))"
  proof -
    have "rs_dst u1 = put (unat sz - unat (rs_remaining u)) (sbytes d b (unat (fst pt)) n) (rs_dst u)"
      and "rs_dst u2 = put (unat sz - unat (rs_remaining u1)) (sbytes d b (unat (fst pt1)) k) (rs_dst u1)"
      using m1 m2 by (auto simp: moved_def)
    then show ?thesis by (simp only: a)
  qed
  also have "\<dots> = put (unat sz - unat (rs_remaining u)) (sbytes d b (unat (fst pt)) (n + k)) (rs_dst u)"
    using put_put_append [of "unat sz - unat (rs_remaining u)" "sbytes d b (unat (fst pt)) n" "sbytes d b (unat (fst pt) + n) k" "rs_dst u"] fit
    by (simp add: sbytes_append)
  finally show ?thesis using m1 m2 fit by (auto simp: moved_def)
qed

lemma copy_out_moved:
  assumes r: "room sz (phys, tc) u" and n: "n \<le> tc" and bs: "bs = sbytes d b (unat phys) (unat n)"
  shows "moved d b sz (unat n) (phys, tc) u (phys + n, tc - n) (copy_out sz bs n (u\<lparr>rs_mount := m\<rparr>))"
  using assms unfolding moved_def room_def copy_out_def word_le_nat_alt
  by (auto simp: unat_plus_if_small unat_minus_le)

lemma u64_and_4095: "unat ((x :: u64) AND 4095) = unat x mod 4096"
proof -
  have "(4095 :: u64) = mask 12" by (simp add: mask_eq_exp_minus_1)
  then have "x AND 4095 = take_bit 12 x" by (simp only: take_bit_eq_mask)
  then have "unat (x AND 4095) = take_bit 12 (unat x)" by (simp only: unsigned_take_bit_eq)
  then show ?thesis by (simp add: take_bit_eq_mod)
qed

lemma phys_block: "0 < tc \<Longrightarrow> phys div 4096 < (phys + tc + 4095) div (4096 :: nat)"
proof -
  assume "0 < tc"
  then have "(phys + 4096) div 4096 \<le> (phys + tc + 4095) div 4096" by (intro div_le_mono) simp
  then show ?thesis by simp
qed

context block_backend
begin

abbreviation same_disk :: "nebula_layout \<Rightarrow> 'd nebula_mount \<Rightarrow> 'd nebula_mount \<Rightarrow> bool" where
  "same_disk L m m' \<equiv> mount_next L m m' \<and> m_bitmap m' = m_bitmap m \<and> mdisk m' = mdisk m"

lemma same_disk_trans: "same_disk L a b \<Longrightarrow> same_disk L b c \<Longrightarrow> same_disk L a c"
  using next_io_trans by (auto simp: same_meta_def)

lemma read_blocks_cases:
  assumes inv: "mount_inv ops dinv L m" and rb: "read_blocks m lba n = (r, m')"
  shows "same_disk L m m'" and "r = Inl s \<Longrightarrow> s = ERROR_IO_FAILURE"
    and "r = Inr bs \<Longrightarrow> bs = concat (map (mdisk m) [unat lba..<unat lba + unat n])"
    and "mup m \<Longrightarrow> unat lba + unat n \<le> mcap m \<Longrightarrow> r \<noteq> Inl s"
proof -
  obtain q io' where io: "nebula_io_read (m_io m) lba n = (q, io')" and m': "m' = m\<lparr>m_io := io'\<rparr>"
    and r: "r = (case q of Inr bs \<Rightarrow> Inr bs | Inl _ \<Rightarrow> Inl ERROR_IO_FAILURE)"
    using rb by (auto simp: read_blocks_def split: prod.splits)
  note ok = mount_inv_okio [OF inv]
  note f = io_read_frame [OF ok io]
  show "same_disk L m m'" using mount_set_io [OF inv f(1)] f(2) by (simp add: m')
  show "r = Inl s \<Longrightarrow> s = ERROR_IO_FAILURE" using r by (auto split: sum.splits)
  show "r = Inr bs \<Longrightarrow> bs = concat (map (mdisk m) [unat lba..<unat lba + unat n])"
    using r io io_read_ok(2) [OF ok] by (auto split: sum.splits)
  show "r \<noteq> Inl s" if "mup m" "unat lba + unat n \<le> mcap m"
    using io_read_succeeds [OF ok that] io r by (auto split: sum.splits)
qed

text \<open>A phase: it fails with an I/O error, or moves bytes.\<close>

definition phase_ok ::
    "nebula_layout \<Rightarrow> nat \<Rightarrow> u64 \<Rightarrow> u64 \<times> u64 \<Rightarrow> 'd read_state \<Rightarrow> (u64 \<times> u64) option \<Rightarrow> 'd read_state \<Rightarrow> bool" where
  "phase_ok L b sz pt u q u' \<longleftrightarrow> same_disk L (rs_mount u) (rs_mount u')
     \<and> (case q of None \<Rightarrow> rs_status u' = ERROR_IO_FAILURE \<and> \<not> mup (rs_mount u)
        | Some pt' \<Rightarrow> \<exists>n. moved (mdisk (rs_mount u)) b sz n pt u pt' u')"

lemma mdisk_length: "length (mdisk m i) = 4096"
  by (rule blk_length)

lemma read_addr:
  fixes lba phys :: u64
  assumes inv: "mount_inv ops dinv L m" and cap: "unat lba + (unat phys + unat (tc :: u64) + 4095) div 4096 \<le> mcap m" and tc: "tc > 0"
  shows "unat (lba + phys div 4096) = unat lba + unat phys div 4096" and "unat lba + unat phys div 4096 + 1 \<le> mcap m"
proof -
  have "unat phys div 4096 < (unat phys + unat tc + 4095) div 4096" using tc by (intro phys_block) (simp add: word_less_nat_alt)
  then show c: "unat lba + unat phys div 4096 + 1 \<le> mcap m" using cap by linarith
  have "mcap m \<le> 2 ^ 51" using ncap_bound [OF mount_inv_okio [OF inv]] .
  then show "unat (lba + phys div 4096) = unat lba + unat phys div 4096"
    using c by (subst unat_plus_if_small) (simp_all add: unat_div)
qed

lemma read_head_ok:
  assumes inv: "mount_inv ops dinv L (rs_mount u)" and rm: "room sz (phys, tc) u"
    and cap: "unat (ck_lba_start c) + (unat phys + unat tc + 4095) div 4096 \<le> mcap (rs_mount u)"
    and hd: "read_head sz c (phys, tc) u = (q, u')"
  shows "phase_ok L (unat (ck_lba_start c)) sz (phys, tc) u q u'"
    and "q = Some pt' \<Longrightarrow> 4096 dvd unat (fst pt') \<or> snd pt' = 0"
proof -
  let ?hs = "ucast (phys AND (4096 - 1)) :: u32" and ?lba = "ck_lba_start c + phys div 4096" and ?b = "unat (ck_lba_start c)"
  have hs: "unat ?hs = unat phys mod 4096"
  proof -
    have "unat (phys AND 4095) < 2 ^ 32" unfolding u64_and_4095 by (rule less_trans [of _ 4096]) simp_all
    then have "unat (ucast (phys AND 4095) :: u32) = unat (phys AND 4095)" by (simp add: unsigned_ucast_eq take_bit_eq_mod)
    then show ?thesis using u64_and_4095 by simp
  qed
  have "phase_ok L ?b sz (phys, tc) u q u' \<and> (q = Some pt' \<longrightarrow> 4096 dvd unat (fst pt') \<or> snd pt' = 0)"
  proof (cases "?hs > 0 \<and> tc > 0")
    case False
    then have "q = Some (phys, tc)" "u' = u" using hd by (auto simp: read_head_def Let_def)
    moreover have "4096 dvd unat phys \<or> tc = 0" using False hs by (auto simp: word_less_nat_alt dvd_eq_mod_eq_0 unat_eq_0)
    ultimately show ?thesis using moved_refl [OF rm] mount_next_refl [OF inv] by (auto simp: phase_ok_def)
  next
    case True
    obtain r m where rb: "read_blocks (rs_mount u) ?lba 1 = (r, m)" by (rule prod.exhaust)
    note rc = read_blocks_cases [OF inv rb] and ad = read_addr [OF inv cap conjunct2 [OF True]]
    show ?thesis
    proof (cases r)
      case (Inl s)
      then have "q = None" "u' = u\<lparr>rs_mount := m, rs_status := s\<rparr>" using hd True rb by (auto simp: read_head_def Let_def)
      then show ?thesis using rc(1) rc(2) [OF Inl] rc(4) [of s] Inl ad by (auto simp: phase_ok_def)
    next
      case (Inr bs)
      define n where "n = min tc (4096 - ucast ?hs)"
      have l: "unat phys mod 4096 < 4096" by simp
      have "unat (4096 - ucast ?hs :: u64) = 4096 - unat phys mod 4096" using hs l by (subst unat_minus_le) auto
      then have n: "unat n = min (unat tc) (4096 - unat phys mod 4096)" by (simp add: n_def min_def word_le_nat_alt)
      have bs: "bs = mdisk (rs_mount u) (?b + unat phys div 4096)" using rc(3) [OF Inr] ad by simp
      have sb: "seg (unat ?hs) (unat n) bs = sbytes (mdisk (rs_mount u)) ?b (unat phys) (unat n)"
        unfolding hs bs by (rule sbytes_block [OF mdisk_length, symmetric]) (use n l in simp)
      have q: "q = Some (phys + n, tc - n)" "u' = copy_out sz (seg (unat ?hs) (unat n) bs) n (u\<lparr>rs_mount := m\<rparr>)"
        using hd True rb Inr by (auto simp: read_head_def Let_def n_def)
      have le: "n \<le> tc" by (simp add: n_def)
      note mv = copy_out_moved [OF rm le sb, of m]
      have al: "4096 dvd unat (phys + n) \<or> tc - n = 0"
      proof (cases "unat tc \<le> 4096 - unat phys mod 4096")
        case True
        then have "n = tc" using n by (simp add: word_unat_eq_iff)
        then show ?thesis by simp
      next
        case False
        then have "unat (phys + n) = unat phys + (4096 - unat phys mod 4096)" using mv n by (simp add: moved_def)
        also have "\<dots> = (unat phys div 4096 + 1) * 4096" by (simp add: minus_mod_eq_div_mult [symmetric])
        finally show ?thesis by simp
      qed
      have "rs_mount u' = m" by (simp add: q(2) copy_out_def)
      then show ?thesis using mv al rc(1) q by (auto simp: phase_ok_def)
    qed
  qed
  then show "phase_ok L ?b sz (phys, tc) u q u'" and "q = Some pt' \<Longrightarrow> 4096 dvd unat (fst pt') \<or> snd pt' = 0" by auto
qed

lemma read_bulk_ok:
  assumes inv: "mount_inv ops dinv L (rs_mount u)" and rm: "room sz (phys, tc) u" and tc: "unat tc < 2 ^ 32"
    and al: "4096 dvd unat phys \<or> tc = 0"
    and cap: "unat (ck_lba_start c) + (unat phys + unat tc + 4095) div 4096 \<le> mcap (rs_mount u)"
    and rd: "read_bulk sz c (phys, tc) u = (q, u')"
  shows "phase_ok L (unat (ck_lba_start c)) sz (phys, tc) u q u'"
    and "q = Some pt' \<Longrightarrow> unat (snd pt') < 4096 \<and> (4096 dvd unat (fst pt') \<or> snd pt' = 0)"
proof -
  let ?lba = "ck_lba_start c + phys div 4096" and ?b = "unat (ck_lba_start c)"
  define k where "k = (ucast (tc div 4096) :: u32)"
  define n where "n = (ucast k * 4096 :: u64)"
  have "unat (tc div 4096) < 2 ^ 20" using tc by (simp add: unat_div)
  then have k: "unat k = unat tc div 4096" by (simp add: k_def unsigned_ucast_eq take_bit_eq_mod unat_div)
  have n: "unat n = unat tc div 4096 * 4096" using k tc by (simp add: n_def) (subst unat_times_if_small; simp)
  have le: "n \<le> tc" using n by (simp add: word_le_nat_alt)
  have "phase_ok L ?b sz (phys, tc) u q u' \<and> (q = Some pt' \<longrightarrow> unat (snd pt') < 4096 \<and> (4096 dvd unat (fst pt') \<or> snd pt' = 0))"
  proof (cases "tc \<ge> 4096")
    case False
    then have "q = Some (phys, tc)" "u' = u" using rd by (auto simp: read_bulk_def Let_def)
    then show ?thesis using moved_refl [OF rm] mount_next_refl [OF inv] False al by (auto simp: phase_ok_def word_le_nat_alt)
  next
    case True
    then have t0: "tc > 0" and dv: "4096 dvd unat phys" using al by (auto simp: word_less_nat_alt word_le_nat_alt)
    obtain r m where rb: "read_blocks (rs_mount u) ?lba k = (r, m)" by (rule prod.exhaust)
    note rc = read_blocks_cases [OF inv rb] and ad = read_addr [OF inv cap t0]
    have "unat phys div 4096 + unat tc div 4096 \<le> (unat phys + unat tc + 4095) div 4096" using dv by (auto elim!: dvdE)
    then have rng: "unat ?lba + unat k \<le> mcap (rs_mount u)" using cap ad(1) k by simp
    show ?thesis
    proof (cases r)
      case (Inl s)
      then have "q = None" "u' = u\<lparr>rs_mount := m, rs_status := s\<rparr>" using rd True rb by (auto simp: read_bulk_def Let_def k_def)
      then show ?thesis using rc(1) rc(2) [OF Inl] rc(4) [of s] Inl rng by (auto simp: phase_ok_def)
    next
      case (Inr bs)
      have bs: "bs = sbytes (mdisk (rs_mount u)) ?b (unat phys) (unat n)"
        using rc(3) [OF Inr] sbytes_blocks [OF mdisk_length dv, where b = ?b and k = "unat k"] ad(1) n k
        by (simp add: mult.commute)
      have q: "q = Some (phys + n, tc - n)" "u' = copy_out sz bs n (u\<lparr>rs_mount := m\<rparr>)"
        using rd True rb Inr by (auto simp: read_bulk_def Let_def k_def n_def)
      note mv = copy_out_moved [OF rm le bs, of m]
      have "unat (phys + n) = unat phys + unat n" "unat (tc - n) = unat tc mod 4096"
        using mv n by (simp_all add: moved_def minus_div_mult_eq_mod)
      then have "unat (tc - n) < 4096" "4096 dvd unat (phys + n)" using dv n by simp_all
      moreover have "rs_mount u' = m" by (simp add: q(2) copy_out_def)
      ultimately show ?thesis using mv rc(1) q by (auto simp: phase_ok_def)
    qed
  qed
  then show "phase_ok L ?b sz (phys, tc) u q u'"
    and "q = Some pt' \<Longrightarrow> unat (snd pt') < 4096 \<and> (4096 dvd unat (fst pt') \<or> snd pt' = 0)" by auto
qed

lemma read_tail_ok:
  assumes inv: "mount_inv ops dinv L (rs_mount u)" and rm: "room sz (phys, tc) u" and tc: "unat tc < 4096"
    and al: "4096 dvd unat phys \<or> tc = 0"
    and cap: "unat (ck_lba_start c) + (unat phys + unat tc + 4095) div 4096 \<le> mcap (rs_mount u)"
    and rd: "read_tail sz c (phys, tc) u = (q, u')"
  shows "phase_ok L (unat (ck_lba_start c)) sz (phys, tc) u q u'" and "q = Some pt' \<Longrightarrow> snd pt' = 0"
proof -
  let ?lba = "ck_lba_start c + phys div 4096" and ?b = "unat (ck_lba_start c)"
  have "phase_ok L ?b sz (phys, tc) u q u' \<and> (q = Some pt' \<longrightarrow> snd pt' = 0)"
  proof (cases "tc > 0")
    case False
    then have "q = Some (phys, tc)" "u' = u" "tc = 0" using rd by (auto simp: read_tail_def word_gt_0)
    then show ?thesis using moved_refl [OF rm] mount_next_refl [OF inv] by (auto simp: phase_ok_def)
  next
    case True
    then have dv: "4096 dvd unat phys" using al by auto
    obtain r m where rb: "read_blocks (rs_mount u) ?lba 1 = (r, m)" by (rule prod.exhaust)
    note rc = read_blocks_cases [OF inv rb] and ad = read_addr [OF inv cap True]
    show ?thesis
    proof (cases r)
      case (Inl s)
      then have "q = None" "u' = u\<lparr>rs_mount := m, rs_status := s\<rparr>" using rd True rb by (auto simp: read_tail_def)
      then show ?thesis using rc(1) rc(2) [OF Inl] rc(4) [of s] Inl ad by (auto simp: phase_ok_def)
    next
      case (Inr bs)
      have bs: "bs = mdisk (rs_mount u) (?b + unat phys div 4096)" using rc(3) [OF Inr] ad by simp
      have m0: "unat phys mod 4096 = 0" using dv by (simp add: dvd_eq_mod_eq_0)
      have sb: "take (unat tc) bs = sbytes (mdisk (rs_mount u)) ?b (unat phys) (unat tc)"
        using sbytes_block [OF mdisk_length, where i = "unat phys" and n = "unat tc" and b = ?b] m0 tc bs by simp
      have q: "q = Some (phys + tc, 0)" "u' = copy_out sz (take (unat tc) bs) tc (u\<lparr>rs_mount := m\<rparr>)"
        using rd True rb Inr by (auto simp: read_tail_def)
      have "rs_mount u' = m" by (simp add: q(2) copy_out_def)
      then show ?thesis using copy_out_moved [OF rm order.refl sb, of m] rc(1) q by (auto simp: phase_ok_def)
    qed
  qed
  then show "phase_ok L ?b sz (phys, tc) u q u'" and "q = Some pt' \<Longrightarrow> snd pt' = 0" by auto
qed

text \<open>A later phase stays inside the blocks of the first.\<close>

lemma moved_cap: "moved d b sz n (p, t) u (p', t') u' \<Longrightarrow> unat p' + unat t' = unat p + unat t"
  by (auto simp: moved_def)

lemma read_extent_ok:
  assumes inv: "mount_inv ops dinv L (rs_mount u)" and rm: "room sz (phys, tc) u" and tc: "unat tc < 2 ^ 32"
    and cap: "unat (ck_lba_start c) + (unat phys + unat tc + 4095) div 4096 \<le> mcap (rs_mount u)"
    and rd: "read_extent sz c (phys, tc) u = (go, u')"
  shows "same_disk L (rs_mount u) (rs_mount u')
    \<and> (rs_status u' = ERROR_IO_FAILURE \<and> \<not> go \<and> \<not> mup (rs_mount u)
       \<or> (\<exists>p. moved (mdisk (rs_mount u)) (unat (ck_lba_start c)) sz (unat tc) (phys, tc) u (p, 0) u') \<and> (go \<longleftrightarrow> rs_remaining u' > 0))"
proof -
  let ?b = "unat (ck_lba_start c)" and ?d = "mdisk (rs_mount u)"
  obtain q1 u1 where h: "read_head sz c (phys, tc) u = (q1, u1)" by (rule prod.exhaust)
  note ph = read_head_ok(1) [OF inv rm cap h]
  show ?thesis
  proof (cases q1)
    case None
    then have "go = False" "u' = u1" using rd h by (auto simp: read_extent_def)
    then show ?thesis using ph None by (simp add: phase_ok_def)
  next
    case (Some pt1)
    obtain p1 t1 where pt1: "pt1 = (p1, t1)" by (cases pt1)
    obtain n1 where m1: "moved ?d ?b sz n1 (phys, tc) u (p1, t1) u1" and d1: "same_disk L (rs_mount u) (rs_mount u1)"
      using ph Some pt1 by (auto simp: phase_ok_def)
    have r1: "room sz (p1, t1) u1" by (rule moved_room [OF rm m1])
    have cap1: "unat (ck_lba_start c) + (unat p1 + unat t1 + 4095) div 4096 \<le> mcap (rs_mount u1)"
      using cap moved_cap [OF m1] mount_next_cap [OF conjunct1 [OF d1]] by simp
    have t1: "unat t1 < 2 ^ 32" using m1 tc by (simp add: moved_def)
    have a1: "4096 dvd unat p1 \<or> t1 = 0" using read_head_ok(2) [OF inv rm cap h] Some pt1 by auto
    obtain q2 u2 where bk: "read_bulk sz c (p1, t1) u1 = (q2, u2)" by (rule prod.exhaust)
    note pb = read_bulk_ok [OF conjunct1 [OF conjunct1 [OF d1]] r1 t1 a1 cap1 bk]
    have up: "mup (rs_mount u) \<Longrightarrow> mup (rs_mount u1)" using mount_next_up d1 by blast
    show ?thesis
    proof (cases q2)
      case None
      then have "go = False" "u' = u2" using rd h Some pt1 bk by (auto simp: read_extent_def)
      then show ?thesis using pb(1) None same_disk_trans [OF d1, of "rs_mount u2"] up by (auto simp: phase_ok_def)
    next
      case (Some pt2)
      obtain p2 t2 where pt2: "pt2 = (p2, t2)" by (cases pt2)
      obtain n2 where m2: "moved ?d ?b sz n2 (p1, t1) u1 (p2, t2) u2" and d2: "same_disk L (rs_mount u1) (rs_mount u2)"
        using pb(1) Some pt2 d1 by (auto simp: phase_ok_def)
      have r2: "room sz (p2, t2) u2" by (rule moved_room [OF r1 m2])
      have cap2: "unat (ck_lba_start c) + (unat p2 + unat t2 + 4095) div 4096 \<le> mcap (rs_mount u2)"
        using cap1 moved_cap [OF m2] mount_next_cap [OF conjunct1 [OF d2]] by simp
      have a2: "unat t2 < 4096" "4096 dvd unat p2 \<or> t2 = 0" using pb(2) [of pt2] Some pt2 by auto
      obtain q3 u3 where tl: "read_tail sz c (p2, t2) u2 = (q3, u3)" by (rule prod.exhaust)
      note pl = read_tail_ok [OF conjunct1 [OF conjunct1 [OF d2]] r2 a2 cap2 tl]
      have d12: "same_disk L (rs_mount u) (rs_mount u2)" by (rule same_disk_trans [OF d1 d2])
      have up2: "mup (rs_mount u) \<Longrightarrow> mup (rs_mount u2)" using mount_next_up d12 by blast
      show ?thesis
      proof (cases q3)
        case None
        then have "go = False" "u' = u3" using rd h \<open>q1 = Some pt1\<close> pt1 bk Some pt2 tl by (auto simp: read_extent_def)
        then show ?thesis using pl(1) None same_disk_trans [OF d12, of "rs_mount u3"] up2 by (auto simp: phase_ok_def)
      next
        case q3: (Some pt3)
        obtain p3 t3 where pt3: "pt3 = (p3, t3)" by (cases pt3)
        have go: "go = (rs_remaining u3 > 0)" "u' = u3"
          using rd h \<open>q1 = Some pt1\<close> pt1 bk Some pt2 tl q3 by (auto simp: read_extent_def)
        obtain n3 where m3: "moved ?d ?b sz n3 (p2, t2) u2 (p3, t3) u3" and d3: "same_disk L (rs_mount u2) (rs_mount u3)"
          using pl(1) q3 pt3 d12 by (auto simp: phase_ok_def)
        have t3: "t3 = 0" using pl(2) [of pt3] q3 pt3 by simp
        note mm = moved_trans [OF rm moved_trans [OF rm m1 m2] m3]
        have "n1 + n2 + n3 = unat tc" using m1 m2 m3 t3 by (auto simp: moved_def)
        then show ?thesis using mm t3 go same_disk_trans [OF d12 d3] by auto
      qed
    qed
  qed
qed

end

end
