(* ===== verification/Objstore_Read.thy ===== *)
theory Objstore_Read
  imports Objstore_Data
begin

unbundle bit_operations_syntax

text \<open>
  Objects as the concatenation of their extents, and the read of a range of an object: the visitor of
  \<open>read\<close> over the extents that overlap the range assembles exactly the bytes of the range.
\<close>

section \<open>Extents that tile an object\<close>

fun tiles :: "nat \<Rightarrow> (u64 \<times> extent_entry) list \<Rightarrow> nat \<Rightarrow> bool" where
  "tiles s [] t \<longleftrightarrow> s = t"
| "tiles s (x # xs) t \<longleftrightarrow> unat (fst x) = s \<and> 0 < unat (ee_length (snd x)) \<and> tiles (s + unat (ee_length (snd x))) xs t"

lemma tiles_le: "tiles s xs t \<Longrightarrow> s \<le> t"
  by (induction xs arbitrary: s) force+

lemma tiles_append: "tiles s (xs @ ys) t \<longleftrightarrow> (\<exists>m. tiles s xs m \<and> tiles m ys t)"
  by (induction xs arbitrary: s) auto

lemma tiles_bounds: "tiles s xs t \<Longrightarrow> x \<in> set xs \<Longrightarrow> s \<le> unat (fst x) \<and> unat (fst x) + unat (ee_length (snd x)) \<le> t \<and> 0 < unat (ee_length (snd x))"
proof (induction xs arbitrary: s)
  case (Cons y ys)
  then show ?case using tiles_le by fastforce
qed simp

lemma tiles_sorted: "tiles s xs t \<Longrightarrow> sorted (map fst xs) \<and> distinct (map fst xs)"
proof (induction xs arbitrary: s)
  case (Cons y ys)
  have "fst y < fst x" if "x \<in> set ys" for x
    using tiles_bounds [of "s + unat (ee_length (snd y))" ys t x] Cons.prems that by (auto simp: word_less_nat_alt)
  then show ?case using Cons by (fastforce intro: less_imp_le)
qed simp

lemma tiles_disjoint:
  "tiles s xs t \<Longrightarrow> x \<in> set xs \<Longrightarrow> y \<in> set xs \<Longrightarrow> fst x < fst y \<Longrightarrow> unat (fst x) + unat (ee_length (snd x)) \<le> unat (fst y)"
proof (induction xs arbitrary: s)
  case (Cons z zs)
  note b = tiles_bounds [of "s + unat (ee_length (snd z))" zs t]
  have z: "unat (fst z) = s" and tz: "tiles (s + unat (ee_length (snd z))) zs t" using Cons.prems(1) by auto
  consider "x \<in> set zs" "y \<in> set zs" | "x = z" "y \<in> set zs" | "y = z" "x = z" | "y = z" "x \<in> set zs" using Cons.prems by auto
  then show ?case
  proof cases
    case 1
    then show ?thesis using Cons.IH [OF tz] Cons.prems(4) by simp
  next
    case 2
    then show ?thesis using b [OF tz, of y] z by simp
  next
    case 4
    then show ?thesis using b [OF tz, of x] z Cons.prems(4) by (simp add: word_less_nat_alt)
  qed (use Cons.prems in simp)
qed simp

text \<open>The bytes of an extent on the device, in the chunk that its record names.\<close>

definition ebytes :: "(nat \<Rightarrow> byte list) \<Rightarrow> (u32 \<Rightarrow> chunk option) \<Rightarrow> u64 \<times> extent_entry \<Rightarrow> byte list" where
  "ebytes d ct x = (case ct (ee_chunk_id (snd x)) of None \<Rightarrow> []
     | Some c \<Rightarrow> sbytes d (unat (ck_lba_start c)) (unat (ee_offset_in_chunk (snd x))) (unat (ee_length (snd x))))"

definition content :: "(nat \<Rightarrow> byte list) \<Rightarrow> (u32 \<Rightarrow> chunk option) \<Rightarrow> (u64 \<times> extent_entry) list \<Rightarrow> byte list" where
  "content d ct xs = concat (map (ebytes d ct) xs)"

definition extent_in :: "(u32 \<Rightarrow> chunk option) \<Rightarrow> extent_entry \<Rightarrow> bool" where
  "extent_in ct e \<longleftrightarrow> (\<exists>c. ct (ee_chunk_id e) = Some c \<and> 4096 dvd unat (ee_offset_in_chunk e)
     \<and> unat (ee_offset_in_chunk e) + unat (ee_length e) \<le> unat (ck_write_offset c))"

lemma content_length:
  "tiles s xs t \<Longrightarrow> \<forall>x \<in> set xs. extent_in ct (snd x) \<Longrightarrow> s + length (content d ct xs) = t"
proof (induction xs arbitrary: s)
  case (Cons x xs)
  then obtain c where "ct (ee_chunk_id (snd x)) = Some c" by (auto simp: extent_in_def)
  then have "length (ebytes d ct x) = unat (ee_length (snd x))" by (simp add: ebytes_def)
  then show ?case using Cons.IH [of "s + unat (ee_length (snd x))"] Cons.prems by (simp add: content_def)
qed (simp add: content_def)

section \<open>The visitor\<close>

text \<open>The state of the read when the extents below \<open>s\<close> are done.\<close>

definition rstate ::
    "(u32 \<Rightarrow> chunk option) \<Rightarrow> byte list \<Rightarrow> nat \<Rightarrow> nat \<Rightarrow> byte list \<Rightarrow> nat \<Rightarrow> 'd read_state \<Rightarrow> bool" where
  "rstate ct C start stop dst s u \<longleftrightarrow>
     rs_status u = OK \<and> unat (rs_cursor u) = min stop (max start s) \<and> unat (rs_remaining u) = stop - min stop (max start s)
     \<and> (\<forall>cid c. rs_cache u cid = Some c \<longrightarrow> ct cid = Some c)
     \<and> rs_dst u = put 0 (seg start (min stop (max start s) - start) C) dst"

lemma rstate_skip:
  assumes "rstate ct C start stop dst s u" and "stop \<le> s \<or> s + n \<le> start" and "start < stop"
  shows "rstate ct C start stop dst (s + n) u"
proof -
  have "min stop (max start (s + n)) = min stop (max start s)" using assms(2,3) by auto
  then show ?thesis using assms(1) by (simp add: rstate_def)
qed

context objstore_env
begin

lemma read_visit_step:
  assumes inv: "mount_inv ops dinv L (rs_mount u)" and ty: "meta_typed (ms_map kv ms)"
    and geo: "\<forall>cid c. ct cid = Some c \<longrightarrow> unat (ck_write_offset c) \<le> 67108864 \<and> unat (ck_lba_start c) + 16384 \<le> mcap (rs_mount u)"
    and ct: "ct = mv_chunk (view_of (ms_map kv ms))"
    and rs: "rstate ct C start stop dst s u" and off: "unat off = s" and len: "0 < unat (ee_length e)"
    and ov: "s < stop" "start < s + unat (ee_length e)" and lt: "start < stop"
    and fits: "s + unat (ee_length e) < 2 ^ 64" "stop < 2 ^ 64" "unat sz = stop - start" "stop - start \<le> length dst" "stop \<le> length C"
    and ex: "extent_in ct e" and C: "seg s (unat (ee_length e)) C = ebytes (mdisk (rs_mount u)) ct (off, e)"
    and vs: "read_visit R ms sz off e u = (go, u')"
  shows "same_disk L (rs_mount u) (rs_mount u')
    \<and> (rs_status u' \<in> {ERROR_IO_FAILURE, ERROR_METADATA} \<and> \<not> go
       \<or> rstate ct C start stop dst (s + unat (ee_length e)) u' \<and> (go \<longleftrightarrow> s + unat (ee_length e) < stop))"
    and "rocksdb_live R kv \<Longrightarrow> mup (rs_mount u) \<Longrightarrow> rs_status u' = OK"
proof -
  let ?n = "unat (ee_length e)" and ?cur = "rs_cursor u" and ?rem = "rs_remaining u"
  have cur: "unat ?cur = max start s" "unat ?rem = stop - max start s" and st: "rs_status u = OK"
    and dst: "rs_dst u = put 0 (seg start (max start s - start) C) dst" and cache: "\<And>cid c. rs_cache u cid = Some c \<Longrightarrow> ct cid = Some c"
    using rs ov(1) lt by (auto simp: rstate_def min_def)
  obtain c where c: "ct (ee_chunk_id e) = Some c" "4096 dvd unat (ee_offset_in_chunk e)"
      "unat (ee_offset_in_chunk e) + ?n \<le> unat (ck_write_offset c)" using ex by (auto simp: extent_in_def)
  have gc: "unat (ck_write_offset c) \<le> 67108864" "unat (ck_lba_start c) + 16384 \<le> mcap (rs_mount u)" using geo c(1) by blast+
  have mc: "max start s < stop" "max start s < s + ?n" using ov lt len by auto
  have g1: "?rem \<noteq> 0" using cur(2) mc by (auto simp: unat_eq_0 [symmetric])
  have e1: "unat (off + ucast (ee_length e)) = s + ?n" using off fits(1) by (simp add: unat_plus_if_small)
  have g2: "\<not> off + ucast (ee_length e) \<le> ?cur" using e1 cur(1) mc(2) unfolding word_le_nat_alt by linarith
  have "unat (?cur + ?rem) = stop" using cur mc fits(2) by (simp add: unat_plus_if_small)
  then have g3: "\<not> ?cur + ?rem \<le> off" using off ov(1) by (simp add: word_le_nat_alt)
  define look where "look = (case rs_cache u (ee_chunk_id e) of Some c \<Rightarrow> Inr c | None \<Rightarrow> get_chunk R ms (ee_chunk_id e))"
  have look: "look = Inr c \<or> look = Inl ERROR_METADATA" "rocksdb_live R kv \<Longrightarrow> look = Inr c"
    using get_chunk_view [OF ty, of "ee_chunk_id e"] rocksdb_live.reads_live(3) [of R kv ms "ee_chunk_id e"] ty c(1) cache [of "ee_chunk_id e"]
    by (auto simp: look_def ct split: option.splits)
  define io where "io = (if ?cur > off then ?cur - off else 0)"
  define tc where "tc = min ?rem (ucast (ee_length e) - io)"
  define u1 where "u1 = u\<lparr>rs_cache := (rs_cache u)(ee_chunk_id e \<mapsto> c)\<rparr>"
  have rv: "read_visit R ms sz off e u = (case look of Inl s \<Rightarrow> (False, u\<lparr>rs_status := s\<rparr>)
      | Inr c' \<Rightarrow> read_extent sz c' (ucast (ee_offset_in_chunk e) + io, tc) (u\<lparr>rs_cache := (rs_cache u)(ee_chunk_id e \<mapsto> c')\<rparr>))"
    using g1 g2 g3 unfolding read_visit_def Let_def look_def [symmetric] io_def [symmetric] tc_def [symmetric] by simp
  have io: "unat io = max start s - s" using cur(1) off by (auto simp: io_def word_less_nat_alt unat_minus_le)
  have tc: "unat tc = min stop (s + ?n) - max start s"
  proof -
    have "unat (ucast (ee_length e) - io :: u64) = ?n - (max start s - s)" using io mc by (subst unat_minus_le) auto
    then show ?thesis using cur(2) mc by (auto simp: tc_def min_def word_le_nat_alt add.commute)
  qed
  have phys: "unat (ucast (ee_offset_in_chunk e) + io) = unat (ee_offset_in_chunk e) + (max start s - s)"
    using io c(3) gc mc by (subst unat_plus_if_small) auto
  have pt: "unat (ucast (ee_offset_in_chunk e) + io) + unat tc \<le> 67108864" using phys tc c(3) gc mc by auto
  have rm: "room sz (ucast (ee_offset_in_chunk e) + io, tc) u1"
  proof -
    have "unat tc \<le> stop - max start s" using tc by simp
    moreover have "stop - max start s \<le> stop - start" by simp
    moreover have "max start s + (stop - max start s) < 2 ^ 64" using mc fits(2) by simp
    moreover have "length (rs_dst u) = length dst" unfolding dst using mc fits(4) by (intro length_put) (simp add: max_def)
    ultimately show ?thesis using cur fits(3,4) pt by (simp add: room_def u1_def word_le_nat_alt)
  qed
  have cap: "unat (ck_lba_start c) + (unat (ucast (ee_offset_in_chunk e) + io) + unat tc + 4095) div 4096 \<le> mcap (rs_mount u1)"
  proof -
    have "(unat (ucast (ee_offset_in_chunk e) + io) + unat tc + 4095) div 4096 \<le> (67108864 + 4095) div 4096"
      using pt by (intro div_le_mono) simp
    then show ?thesis using gc by (simp add: u1_def)
  qed
  have tc32: "unat tc < 2 ^ 32" using pt by simp
  obtain go1 u2 where re: "read_extent sz c (ucast (ee_offset_in_chunk e) + io, tc) u1 = (go1, u2)" by (rule prod.exhaust)
  have inv1: "mount_inv ops dinv L (rs_mount u1)" using inv by (simp add: u1_def)
  note ro = read_extent_ok [OF inv1 rm tc32 cap re]
  have out: "rstate ct C start stop dst (s + ?n) u2 \<and> (go1 \<longleftrightarrow> s + ?n < stop)"
    if mv: "moved (mdisk (rs_mount u1)) (unat (ck_lba_start c)) sz (unat tc) (ucast (ee_offset_in_chunk e) + io, tc) u1 (p, 0) u2"
      and go: "go1 \<longleftrightarrow> rs_remaining u2 > 0" for p
  proof -
    let ?k = "max start s" and ?k' = "min stop (s + ?n)"
    have m': "min stop (max start (s + ?n)) = ?k'" using ov by auto
    have piece: "sbytes (mdisk (rs_mount u1)) (unat (ck_lba_start c)) (unat (ucast (ee_offset_in_chunk e) + io)) (unat tc) = seg ?k (unat tc) C"
    proof -
      have "seg (?k - s) (unat tc) (seg s ?n C) = seg (s + (?k - s)) (unat tc) C" using tc mc by (intro seg_seg) auto
      moreover have "seg (?k - s) (unat tc) (ebytes (mdisk (rs_mount u)) ct (off, e))
          = sbytes (mdisk (rs_mount u)) (unat (ck_lba_start c)) (unat (ee_offset_in_chunk e) + (?k - s)) (unat tc)"
        using tc mc by (simp add: ebytes_def c(1) sbytes_seg)
      ultimately show ?thesis using C phys by (simp add: u1_def)
    qed
    have k: "start \<le> ?k" "?k < stop" "?k \<le> ?k'" "?k' \<le> stop" and tk: "unat tc = ?k' - ?k" using tc mc lt ov by auto
    have at: "unat sz - unat (rs_remaining u1) = ?k - start" using fits(3) cur(2) k(1,2) unfolding u1_def by simp
    have l1: "length (seg start (?k - start) C) = ?k - start" using k(1,2) fits(5) unfolding length_seg by linarith
    have l2: "length (seg ?k (unat tc) C) = unat tc" using k tk fits(5) unfolding length_seg by linarith
    have "rs_dst u2 = put (0 + length (seg start (?k - start) C)) (seg ?k (unat tc) C) (put 0 (seg start (?k - start) C) dst)"
      using mv piece at dst unfolding l1 moved_def u1_def by simp
    also have "\<dots> = put 0 (seg start (?k - start) C @ seg ?k (unat tc) C) dst"
      using k tk fits(4) by (intro put_put_append) (unfold l1 l2, linarith)
    also have "seg start (?k - start) C @ seg ?k (unat tc) C = seg start (?k' - start) C"
    proof -
      have "start + (?k - start) = ?k" "?k - start + unat tc = ?k' - start" using k tk by linarith+
      then show ?thesis using seg_append_seg [of start "?k - start" C "unat tc"] by (simp only:)
    qed
    finally have d2: "rs_dst u2 = put 0 (seg start (?k' - start) C) dst" .
    have c2: "unat (rs_cursor u2) = ?k'" using mv cur(1) tk k(3) unfolding moved_def u1_def by simp
    have r2: "unat (rs_remaining u2) = stop - ?k'" using mv cur(2) tk k unfolding moved_def u1_def by simp
    have "\<forall>cid c'. rs_cache u2 cid = Some c' \<longrightarrow> ct cid = Some c'" using mv cache c(1) by (auto simp: moved_def u1_def split: if_splits)
    moreover have "rs_status u2 = OK" using mv st by (simp add: moved_def u1_def)
    moreover have "go1 \<longleftrightarrow> s + ?n < stop" using go r2 by (auto simp: word_less_nat_alt)
    ultimately show ?thesis using d2 c2 r2 by (simp add: rstate_def m')
  qed
  have main: "same_disk L (rs_mount u) (rs_mount u')
    \<and> (rs_status u' \<in> {ERROR_IO_FAILURE, ERROR_METADATA} \<and> \<not> go
       \<or> rstate ct C start stop dst (s + ?n) u' \<and> (go \<longleftrightarrow> s + ?n < stop))"
  proof (cases "look = Inr c")
    case True
    then have "go = go1" "u' = u2" using vs rv re by (auto simp: u1_def)
    then show ?thesis using ro out by (auto simp: u1_def)
  next
    case False
    then have "go = False" "u' = u\<lparr>rs_status := ERROR_METADATA\<rparr>" using vs rv look(1) by auto
    then show ?thesis using mount_next_refl [OF inv] by simp
  qed
  have live: "rs_status u' = OK" if "rocksdb_live R kv" "mup (rs_mount u)"
  proof -
    have "u' = u2" using vs rv re look(2) [OF that(1)] by (auto simp: u1_def)
    moreover have "mup (rs_mount u1)" using that(2) by (simp add: u1_def)
    ultimately show ?thesis using ro st by (auto simp: moved_def u1_def)
  qed
  show "same_disk L (rs_mount u) (rs_mount u')
    \<and> (rs_status u' \<in> {ERROR_IO_FAILURE, ERROR_METADATA} \<and> \<not> go
       \<or> rstate ct C start stop dst (s + ?n) u' \<and> (go \<longleftrightarrow> s + ?n < stop))"
    and "rocksdb_live R kv \<Longrightarrow> mup (rs_mount u) \<Longrightarrow> rs_status u' = OK"
    using main live by blast+
qed

lemma visit_tiles:
  fixes start_w stop_w :: u64
  assumes ty: "meta_typed (ms_map kv ms)" and ct: "ct = mv_chunk (view_of (ms_map kv ms))"
    and fits: "unat start_w < unat stop_w" "unat stop_w \<le> t" "t < 2 ^ 64" "unat sz = unat stop_w - unat start_w"
      "unat stop_w - unat start_w \<le> length dst" "length C = t"
    and "mount_inv ops dinv L (rs_mount u)"
    and "\<forall>cid c. ct cid = Some c \<longrightarrow> unat (ck_write_offset c) \<le> 67108864 \<and> unat (ck_lba_start c) + 16384 \<le> mcap (rs_mount u)"
    and "rstate ct C (unat start_w) (unat stop_w) dst s u" and "tiles s xs t" and "\<forall>x \<in> set xs. extent_in ct (snd x)"
    and "drop s C = content (mdisk (rs_mount u)) ct xs"
  defines "u' \<equiv> visit (read_visit R ms sz) (filter (overlaps start_w stop_w) xs) u"
  shows "same_disk L (rs_mount u) (rs_mount u')
    \<and> (rs_status u' \<in> {ERROR_IO_FAILURE, ERROR_METADATA} \<or> rstate ct C (unat start_w) (unat stop_w) dst t u')
    \<and> (rocksdb_live R kv \<and> mup (rs_mount u) \<longrightarrow> rs_status u' = OK)"
  using assms(9-14) unfolding u'_def
proof (induction xs arbitrary: s u)
  case Nil
  then show ?case using mount_next_refl [OF Nil.prems(1)] by (simp add: rstate_def)
next
  case (Cons x xs)
  obtain off e where x: "x = (off, e)" by (cases x)
  let ?n = "unat (ee_length e)" and ?cb = "read_visit R ms sz" and ?d = "mdisk (rs_mount u)"
  have tl: "unat off = s" "0 < ?n" "tiles (s + ?n) xs t" using Cons.prems(4) x by auto
  have sn: "s + ?n \<le> t" using tiles_le [OF tl(3)] .
  have ex: "extent_in ct e" "\<forall>x \<in> set xs. extent_in ct (snd x)" using Cons.prems(5) x by auto
  have el: "length (ebytes ?d ct (off, e)) = ?n" using ex(1) by (auto simp: extent_in_def ebytes_def)
  have dr: "drop s C = ebytes ?d ct (off, e) @ content ?d ct xs" using Cons.prems(6) x by (simp add: content_def)
  then have sg: "seg s ?n C = ebytes ?d ct (off, e)" using el by (simp add: seg_def)
  have "drop (s + ?n) C = drop ?n (drop s C)" by (simp add: add.commute)
  then have dr': "drop (s + ?n) C = content ?d ct xs" using el by (simp add: dr)
  show ?case
  proof (cases "overlaps start_w stop_w x")
    case False
    have "unat stop_w \<le> s \<or> s + ?n \<le> unat start_w" using False x tl(1) by (auto simp: overlaps_def word_less_nat_alt)
    then have "rstate ct C (unat start_w) (unat stop_w) dst (s + ?n) u" by (rule rstate_skip [OF Cons.prems(3) _ fits(1)])
    from Cons.IH [OF Cons.prems(1,2) this tl(3) ex(2) dr'] show ?thesis using False by simp
  next
    case True
    then have ov: "s < unat stop_w" "unat start_w < s + ?n" using x tl(1) by (auto simp: overlaps_def word_less_nat_alt)
    obtain go u1 where vs: "?cb off e u = (go, u1)" by (rule prod.exhaust)
    have b: "s + ?n < 2 ^ 64" "unat stop_w < 2 ^ 64" "unat stop_w \<le> length C" using sn fits by linarith+
    note st = read_visit_step [OF Cons.prems(1) ty Cons.prems(2) ct Cons.prems(3) tl(1,2) ov fits(1) b(1,2) fits(4,5) b(3) ex(1) sg vs]
    have vis: "visit ?cb (filter (overlaps start_w stop_w) (x # xs)) u
        = (if go then visit ?cb (filter (overlaps start_w stop_w) xs) u1 else u1)" using True x vs by simp
    show ?thesis
    proof (cases go)
      case True
      then have r1: "rstate ct C (unat start_w) (unat stop_w) dst (s + ?n) u1" using st(1) by blast
      note sd = conjunct1 [OF st(1)]
      have g1: "\<forall>cid c. ct cid = Some c \<longrightarrow> unat (ck_write_offset c) \<le> 67108864 \<and> unat (ck_lba_start c) + 16384 \<le> mcap (rs_mount u1)"
        using Cons.prems(2) mount_next_cap [OF conjunct1 [OF sd]] by simp
      have dr1: "drop (s + ?n) C = content (mdisk (rs_mount u1)) ct xs" using dr' sd by simp
      note ih = Cons.IH [OF conjunct1 [OF conjunct1 [OF sd]] g1 r1 tl(3) ex(2) dr1]
      have up: "mup (rs_mount u) \<Longrightarrow> mup (rs_mount u1)" using mount_next_up sd by blast
      show ?thesis unfolding vis using True ih up same_disk_trans [OF sd conjunct1 [OF ih]] by simp
    next
      case False
      have "rstate ct C (unat start_w) (unat stop_w) dst t u1" if r: "rstate ct C (unat start_w) (unat stop_w) dst (s + ?n) u1" "\<not> s + ?n < unat stop_w"
        using rstate_skip [OF r(1) _ fits(1), of "t - (s + ?n)"] r(2) sn by simp
      then show ?thesis unfolding vis using False st by auto
    qed
  qed
qed

end

section \<open>Reads change nothing\<close>

lemma iter_forward_inv:
  "(\<And>off e u. P u \<Longrightarrow> P (snd (cb off e u))) \<Longrightarrow> P u \<Longrightarrow> P (snd (iter_forward oid stop cb it u))"
proof (induction it arbitrary: u)
  case (Cons kv it)
  have step: "P u'" if "cb off e u = (go, u')" for off e go u' using Cons.prems(1) [OF Cons.prems(2), of off e] that by simp
  show ?case using Cons.IH [OF Cons.prems(1)] Cons.prems(2) by (cases kv) (auto simp: Let_def split: option.splits prod.splits dest: step)
qed simp

lemma iter_extents_inv:
  assumes "\<And>off e u. P u \<Longrightarrow> P (snd (cb off e u))" and "P u"
  shows "P (snd (iter_extents R ms oid start stop cb u))"
proof -
  have fw: "P u'" if "iter_forward oid stop cb it u = (f, u')" "P u" for it u f u'
    using iter_forward_inv [of P cb, OF assms(1) that(2), of oid stop it] that(1) by simp
  have step: "P u'" if "cb off e u = (go, u')" for off e go u' using assms(1) [OF assms(2), of off e] that by simp
  show ?thesis
    using assms(2) by (auto simp: iter_extents_def Let_def split: list.splits option.splits prod.splits dest: step fw)
qed

context block_backend
begin

lemma read_phases_same:
  assumes "mount_inv ops dinv L (rs_mount u)"
  shows "same_disk L (rs_mount u) (rs_mount (snd (read_head sz c pt u)))"
    and "same_disk L (rs_mount u) (rs_mount (snd (read_bulk sz c pt u)))"
    and "same_disk L (rs_mount u) (rs_mount (snd (read_tail sz c pt u)))"
  using mount_next_refl [OF assms] read_blocks_cases(1) [OF assms]
  by (simp_all add: read_head_def read_bulk_def read_tail_def copy_out_def Let_def split: prod.splits sum.splits)

lemma read_extent_same:
  assumes inv: "mount_inv ops dinv L (rs_mount u)"
  shows "same_disk L (rs_mount u) (rs_mount (snd (read_extent sz c pt u)))"
proof -
  obtain q1 u1 where h: "read_head sz c pt u = (q1, u1)" by (rule prod.exhaust)
  have s1: "same_disk L (rs_mount u) (rs_mount u1)" using read_phases_same(1) [OF inv, of sz c pt] h by simp
  show ?thesis
  proof (cases q1)
    case None
    then show ?thesis using s1 h by (simp add: read_extent_def)
  next
    case (Some pt1)
    obtain q2 u2 where b: "read_bulk sz c pt1 u1 = (q2, u2)" by (rule prod.exhaust)
    have "same_disk L (rs_mount u1) (rs_mount u2)" using read_phases_same(2) [of L u1 sz c pt1] s1 b by simp
    then have s2: "same_disk L (rs_mount u) (rs_mount u2)" by (rule same_disk_trans [OF s1])
    show ?thesis
    proof (cases q2)
      case None
      then show ?thesis using s2 h b Some by (simp add: read_extent_def)
    next
      case (Some pt2)
      obtain q3 u3 where t: "read_tail sz c pt2 u2 = (q3, u3)" by (rule prod.exhaust)
      have "same_disk L (rs_mount u2) (rs_mount u3)" using read_phases_same(3) [of L u2 sz c pt2] s2 t by simp
      then have "same_disk L (rs_mount u) (rs_mount u3)" by (rule same_disk_trans [OF s2])
      then show ?thesis using h b t Some \<open>q1 = Some pt1\<close> by (simp add: read_extent_def split: option.splits)
    qed
  qed
qed

lemma read_visit_same:
  assumes "mount_inv ops dinv L (rs_mount u)"
  shows "same_disk L (rs_mount u) (rs_mount (snd (read_visit R ms sz off e u)))"
proof -
  have "same_disk L (rs_mount u) (rs_mount (snd (read_extent sz c pt (u\<lparr>rs_cache := ca\<rparr>))))" for c pt ca
    using read_extent_same [of L "u\<lparr>rs_cache := ca\<rparr>" sz c pt] assms by simp
  then show ?thesis using mount_next_refl [OF assms] by (simp add: read_visit_def Let_def split: sum.splits option.splits)
qed

lemma object_read_same:
  assumes inv: "mount_inv ops dinv L (os_mount st)" and rd: "object_read R st p offset cap dst = (q, out, st')"
  shows "same_disk L (os_mount st) (os_mount st') \<and> os_meta st' = os_meta st \<and> os_active st' = os_active st"
proof -
  let ?init = "\<lambda>sz. \<lparr>rs_mount = os_mount st, rs_cache = Map.empty, rs_status = OK, rs_cursor = offset, rs_remaining = sz, rs_dst = dst\<rparr>"
  have it: "same_disk L (os_mount st) (rs_mount (snd (iter_extents R (os_meta st) oid offset (offset + sz) (read_visit R (os_meta st) sz) (?init sz))))" for oid sz
  proof (rule iter_extents_inv [of "\<lambda>u. same_disk L (os_mount st) (rs_mount u)"])
    fix off e and v :: "'d read_state" assume s: "same_disk L (os_mount st) (rs_mount v)"
    show "same_disk L (os_mount st) (rs_mount (snd (read_visit R (os_meta st) sz off e v)))"
      by (rule same_disk_trans [OF s read_visit_same]) (use s in simp)
  qed (use mount_next_refl [OF inv] in simp)
  let ?sz = "\<lambda>a. if cap > oa_size a - offset then oa_size a - offset else cap"
  show ?thesis
  proof (cases "\<exists>oid a. validate_object_path p \<and> path_lookup R (os_meta st) p = Inr oid \<and> get_attrs R (os_meta st) oid = Inr a \<and> \<not> offset > oa_size a \<and> ?sz a \<noteq> 0")
    case False
    then have "st' = st" using rd by (auto simp: object_read_def Let_def split: if_splits sum.splits)
    then show ?thesis using mount_next_refl [OF inv] by simp
  next
    case True
    then obtain oid a where h: "validate_object_path p" "path_lookup R (os_meta st) p = Inr oid" "get_attrs R (os_meta st) oid = Inr a"
      "\<not> offset > oa_size a" "?sz a \<noteq> 0" by blast
    have "st' = st\<lparr>os_mount := rs_mount (snd (iter_extents R (os_meta st) oid offset (offset + ?sz a) (read_visit R (os_meta st) (?sz a)) (?init (?sz a))))\<rparr>"
      using rd h unfolding object_read_def Let_def case_prod_beta by simp
    then show ?thesis using it [of oid "?sz a"] by simp
  qed
qed

end

section \<open>The map of objects\<close>

definition extents_of :: "meta_view \<Rightarrow> u64 \<Rightarrow> (u64 \<times> extent_entry) list" where
  "extents_of v oid = map (\<lambda>off. (off, the (mv_extent v (oid, off)))) (sorted_list_of_set {off. mv_extent v (oid, off) \<noteq> None})"

text \<open>The abstract state: the contents that the paths name, on the blocks \<open>d\<close> of the device.\<close>

definition objects :: "(nat \<Rightarrow> byte list) \<Rightarrow> meta_view \<Rightarrow> byte list \<Rightarrow> byte list option" where
  "objects d v p =
     (if \<not> validate_object_path p then None
      else case mv_path v p of
             None \<Rightarrow> None
           | Some oid \<Rightarrow> (case mv_attrs v oid of None \<Rightarrow> None | Some a \<Rightarrow> Some (content d (mv_chunk v) (extents_of v oid))))"

definition object_ok :: "meta_view \<Rightarrow> u64 \<Rightarrow> object_attrs \<Rightarrow> bool" where
  "object_ok v oid a \<longleftrightarrow> oa_object_id a = oid \<and> tiles 0 (extents_of v oid) (unat (oa_size a))
     \<and> (\<forall>x \<in> set (extents_of v oid). extent_in (mv_chunk v) (snd x))"

text \<open>
  The invariant of the object records, below the next object identifier: the extents of an object tile
  it, extents and paths belong to objects, and no two paths name one object.
\<close>

definition objects_ok :: "u64 \<Rightarrow> meta_view \<Rightarrow> bool" where
  "objects_ok no v \<longleftrightarrow>
     (\<forall>oid a. mv_attrs v oid = Some a \<longrightarrow> oid < no \<and> object_ok v oid a)
     \<and> (\<forall>oid off e. mv_extent v (oid, off) = Some e \<longrightarrow> mv_attrs v oid \<noteq> None)
     \<and> (\<forall>p oid. validate_object_path p \<and> mv_path v p = Some oid \<longrightarrow> mv_attrs v oid \<noteq> None)
     \<and> (\<forall>p q oid. validate_object_path p \<and> validate_object_path q \<and> mv_path v p = Some oid \<and> mv_path v q = Some oid \<longrightarrow> p = q)"

text \<open>What a read of the map returns.\<close>

definition obj_read :: "(byte list \<Rightarrow> byte list option) \<Rightarrow> byte list \<Rightarrow> nat \<Rightarrow> nat \<Rightarrow> status + byte list" where
  "obj_read M p offset n =
     (if \<not> validate_object_path p then Inl ERROR_INVALID_ARGUMENT
      else case M p of
             None \<Rightarrow> Inl ERROR_NOT_FOUND
           | Some bs \<Rightarrow> if offset > length bs then Inl ERROR_OUT_OF_RANGE else Inr (seg offset n bs))"

lemma u64_bound: "unat (x :: u64) < 2 ^ 64"
  using unsigned_less [where 'a = nat and w = x] by simp

lemma extents_of_set: "set (extents_of v oid) = {x. mv_extent v (oid, fst x) = Some (snd x)}"
  by (force simp: extents_of_def image_iff)

lemma extents_of_sorted: "sorted (map fst (extents_of v oid))" "distinct (map fst (extents_of v oid))"
  by (simp_all add: extents_of_def comp_def)

lemma sorted_keys_unique:
  fixes xs ys :: "('k::linorder \<times> 'v) list"
  assumes "sorted (map fst xs)" "distinct (map fst xs)" "sorted (map fst ys)" "distinct (map fst ys)" "set xs = set ys"
  shows "xs = ys"
proof (rule map_sorted_distinct_set_unique [OF _ assms])
  show "inj_on fst (set xs \<union> set ys)" using assms(2,5) by (simp add: distinct_map)
qed

lemma extents_of_eq: "tiles s xs t \<Longrightarrow> set xs = {x. mv_extent v (oid, fst x) = Some (snd x)} \<Longrightarrow> extents_of v oid = xs"
  using tiles_sorted [of s xs t] extents_of_sorted [of v oid] by (intro sorted_keys_unique) (simp_all add: extents_of_set)

lemma tiles_extents_ok: "tiles 0 (extents_of v oid) (unat (sz :: u64)) \<Longrightarrow> extents_ok v oid"
proof -
  assume t: "tiles 0 (extents_of v oid) (unat sz)"
  have m: "(off, e) \<in> set (extents_of v oid)" if "mv_extent v (oid, off) = Some e" for off e using that by (simp add: extents_of_set)
  have b: "0 < unat (ee_length e) \<and> unat off + unat (ee_length e) < 2 ^ 64" if "mv_extent v (oid, off) = Some e" for off e
    using tiles_bounds [OF t m [OF that]] u64_bound [of sz] unfolding fst_conv snd_conv by (auto intro: le_less_trans)
  have d: "unat off + unat (ee_length e) \<le> unat off'" if "mv_extent v (oid, off) = Some e" "mv_extent v (oid, off') = Some e'" "off < off'" for off e off' e'
    using tiles_disjoint [OF t m [OF that(1)] m [OF that(2)]] that(3) by simp
  show ?thesis unfolding extents_ok_def using b d by blast
qed

context objstore_env
begin

abbreviation obj :: "('d, 'db) objstore \<Rightarrow> byte list \<Rightarrow> byte list option" where
  "obj st \<equiv> objects (mdisk (os_mount st)) (vw st)"

abbreviation oinv :: "nebula_layout \<Rightarrow> ('d, 'db) objstore \<Rightarrow> bool" where
  "oinv L st \<equiv> eok L st \<and> objects_ok (ms_next_object_id (os_meta st)) (vw st)"

lemma read_range:
  fixes offset sz :: u64
  assumes inv: "oinv L st" and it: "kv_iter_ok R (ms_db (os_meta st))" and a: "mv_attrs (vw st) oid = Some a"
    and rng: "sz \<noteq> 0" "unat offset + unat sz \<le> unat (oa_size a)" "unat sz \<le> length dst"
    and ie: "iter_extents R (os_meta st) oid offset (offset + sz) (read_visit R (os_meta st) sz)
        \<lparr>rs_mount = os_mount st, rs_cache = Map.empty, rs_status = OK, rs_cursor = offset, rs_remaining = sz, rs_dst = dst\<rparr> = (s, u')"
  defines "C \<equiv> content (mdisk (os_mount st)) (mv_chunk (vw st)) (extents_of (vw st) oid)"
  shows "length C = unat (oa_size a)" and "same_disk L (os_mount st) (rs_mount u')" and "s = OK"
    and "rs_status u' \<in> {ERROR_IO_FAILURE, ERROR_METADATA}
      \<or> rs_status u' = OK \<and> rs_remaining u' = 0 \<and> rs_dst u' = put 0 (seg (unat offset) (unat sz) C) dst"
    and "rocksdb_live R kv \<Longrightarrow> mup (os_mount st) \<Longrightarrow> rs_status u' = OK"
proof -
  let ?ct = "mv_chunk (vw st)" and ?xs = "extents_of (vw st) oid" and ?stop = "offset + sz"
  let ?u = "\<lparr>rs_mount = os_mount st, rs_cache = Map.empty, rs_status = OK, rs_cursor = offset, rs_remaining = sz, rs_dst = dst\<rparr>"
  have ob: "tiles 0 ?xs (unat (oa_size a))" "\<forall>x \<in> set ?xs. extent_in ?ct (snd x)"
    using inv a by (auto simp: objects_ok_def object_ok_def)
  note ty = conjunct1 [OF conjunct2 [OF conjunct1 [OF inv]]] and eo = conjunct2 [OF conjunct2 [OF conjunct1 [OF inv]]]
    and mi = conjunct1 [OF conjunct1 [OF inv]]
  show lenC: "length C = unat (oa_size a)" using content_length [OF ob, of "mdisk (os_mount st)"] by (simp add: C_def)
  note lt64 = u64_bound [of "oa_size a"]
  have st: "unat ?stop = unat offset + unat sz" using le_less_trans [OF rng(2) lt64] by (intro unat_plus_if_small) simp
  have sz0: "0 < unat sz" using rng(1) by (simp add: unat_gt_0)
  have lt: "offset < ?stop" using st sz0 by (simp add: word_less_nat_alt)
  have "\<exists>ys. sorted (map fst ys) \<and> distinct (map fst ys)
      \<and> set ys = {x. mv_extent (vw st) (oid, fst x) = Some (snd x) \<and> overlaps offset ?stop x} \<and> (s, u') = (OK, visit (read_visit R (os_meta st) sz) ys ?u)"
  proof (rule iter_extents_visit [OF it ty tiles_extents_ok [OF ob(1)] lt])
    fix ys
    assume y: "sorted (map fst ys)" "distinct (map fst ys)"
        "set ys = {x. mv_extent (vw st) (oid, fst x) = Some (snd x) \<and> overlaps offset ?stop x}"
      and v: "\<And>(cb :: 'd read_state visitor) u. iter_extents R (os_meta st) oid offset ?stop cb u = (OK, visit cb ys u)"
    then show ?thesis using y v [of "read_visit R (os_meta st) sz" ?u] ie by (intro exI [of _ ys]) simp
  qed
  then obtain ys where ys: "sorted (map fst ys)" "distinct (map fst ys)"
      "set ys = {x. mv_extent (vw st) (oid, fst x) = Some (snd x) \<and> overlaps offset ?stop x}"
      "(s, u') = (OK, visit (read_visit R (os_meta st) sz) ys ?u)" by blast
  have "ys = filter (overlaps offset ?stop) ?xs"
    using extents_of_sorted [of "vw st" oid] ys(3)
    by (intro sorted_keys_unique [OF ys(1,2)]) (auto simp: extents_of_set sorted_filter distinct_map_filter)
  then have u': "s = OK" "u' = visit (read_visit R (os_meta st) sz) (filter (overlaps offset ?stop) ?xs) ?u"
    using ys(4) by simp_all
  show "s = OK" by (rule u'(1))
  have geo: "\<forall>cid c. ?ct cid = Some c \<longrightarrow> unat (ck_write_offset c) \<le> 67108864 \<and> unat (ck_lba_start c) + 16384 \<le> mcap (rs_mount ?u)"
    using engine_okD(1) [OF eo] mi by (auto simp: mount_inv_def chunk_ok_def)
  have r0: "rstate ?ct C (unat offset) (unat ?stop) dst 0 ?u" using st by (simp add: rstate_def seg_def)
  have d0: "drop 0 C = content (mdisk (rs_mount ?u)) ?ct ?xs" by (simp add: C_def)
  have f: "unat offset < unat ?stop" "unat ?stop \<le> unat (oa_size a)" "unat sz = unat ?stop - unat offset"
      "unat ?stop - unat offset \<le> length dst"
    using st sz0 rng by simp_all
  have mi': "mount_inv ops dinv L (rs_mount ?u)" using mi by simp
  note vt = visit_tiles [OF ty refl f(1,2) lt64 f(3,4) lenC mi' geo r0 ob d0, folded u'(2)]
  show "same_disk L (os_mount st) (rs_mount u')" using vt by simp
  have "rs_status u' = OK \<and> rs_remaining u' = 0 \<and> rs_dst u' = put 0 (seg (unat offset) (unat sz) C) dst"
    if r: "rstate ?ct C (unat offset) (unat ?stop) dst (unat (oa_size a)) u'"
  proof -
    have "min (unat ?stop) (max (unat offset) (unat (oa_size a))) = unat ?stop" using f by simp
    then show ?thesis using r st by (simp add: rstate_def unat_eq_0)
  qed
  then show "rs_status u' \<in> {ERROR_IO_FAILURE, ERROR_METADATA}
      \<or> rs_status u' = OK \<and> rs_remaining u' = 0 \<and> rs_dst u' = put 0 (seg (unat offset) (unat sz) C) dst" using vt by blast
  show "rocksdb_live R kv \<Longrightarrow> mup (os_mount st) \<Longrightarrow> rs_status u' = OK" using vt by simp
qed

text \<open>Looking the object up, as every operation on an object begins.\<close>

lemma find_object:
  assumes inv: "oinv L st" and v: "validate_object_path p"
  shows "path_lookup R (os_meta st) p = Inl ERROR_METADATA
    \<or> path_lookup R (os_meta st) p = Inl ERROR_NOT_FOUND \<and> obj st p = None
    \<or> (\<exists>oid a. path_lookup R (os_meta st) p = Inr oid \<and> mv_path (vw st) p = Some oid \<and> mv_attrs (vw st) oid = Some a
        \<and> get_attrs R (os_meta st) oid \<in> {Inl ERROR_METADATA, Inr a}
        \<and> obj st p = Some (content (mdisk (os_mount st)) (mv_chunk (vw st)) (extents_of (vw st) oid)))"
    and "rocksdb_live R kv \<Longrightarrow> path_lookup R (os_meta st) p \<noteq> Inl ERROR_METADATA \<and> get_attrs R (os_meta st) oid \<noteq> Inl ERROR_METADATA"
proof -
  note ty = conjunct1 [OF conjunct2 [OF conjunct1 [OF inv]]]
  have at: "\<exists>a. mv_attrs (vw st) oid = Some a" if "mv_path (vw st) p = Some oid" for oid
  proof -
    have "mv_attrs (vw st) oid \<noteq> None" using conjunct2 [OF inv] v that unfolding objects_ok_def by blast
    then show ?thesis by simp
  qed
  show "path_lookup R (os_meta st) p = Inl ERROR_METADATA
    \<or> path_lookup R (os_meta st) p = Inl ERROR_NOT_FOUND \<and> obj st p = None
    \<or> (\<exists>oid a. path_lookup R (os_meta st) p = Inr oid \<and> mv_path (vw st) p = Some oid \<and> mv_attrs (vw st) oid = Some a
        \<and> get_attrs R (os_meta st) oid \<in> {Inl ERROR_METADATA, Inr a}
        \<and> obj st p = Some (content (mdisk (os_mount st)) (mv_chunk (vw st)) (extents_of (vw st) oid)))"
  proof (cases "mv_path (vw st) p")
    case None
    then show ?thesis using path_lookup_view [OF ty, of p] by (auto simp: objects_def)
  next
    case (Some oid)
    then obtain a where "mv_attrs (vw st) oid = Some a" using at by blast
    then show ?thesis using path_lookup_view [OF ty, of p] get_attrs_view [OF ty, of oid] Some v by (auto simp: objects_def)
  qed
  show "path_lookup R (os_meta st) p \<noteq> Inl ERROR_METADATA \<and> get_attrs R (os_meta st) oid \<noteq> Inl ERROR_METADATA" if "rocksdb_live R kv"
    by (simp add: rocksdb_live.reads_live [OF that ty] split: option.splits)
qed

lemma object_read_ok:
  assumes inv: "oinv L st" and it: "kv_iter_ok R (ms_db (os_meta st))" and dst: "unat cap \<le> length dst"
    and rd: "object_read R st p offset cap dst = (q, out, st')"
  shows "same_disk L (os_mount st) (os_mount st') \<and> os_meta st' = os_meta st \<and> os_active st' = os_active st"
    and "q \<in> {Inl ERROR_IO_FAILURE, Inl ERROR_METADATA}
      \<or> (case obj_read (obj st) p (unat offset) (unat cap) of
           Inl s \<Rightarrow> q = Inl s \<and> out = dst
         | Inr bs \<Rightarrow> q = Inr (of_nat (length bs)) \<and> out = put 0 bs dst)"
    and "rocksdb_live R kv \<Longrightarrow> mup (os_mount st) \<Longrightarrow> q \<notin> {Inl ERROR_IO_FAILURE, Inl ERROR_METADATA}"
proof -
  let ?same = "\<lambda>st'. same_disk L (os_mount st) (os_mount st') \<and> os_meta st' = os_meta st \<and> os_active st' = os_active st"
  let ?spec = "case obj_read (obj st) p (unat offset) (unat cap) of
           Inl s \<Rightarrow> q = Inl s \<and> out = dst | Inr bs \<Rightarrow> q = Inr (of_nat (length bs)) \<and> out = put 0 bs dst"
  note refl = mount_next_refl [OF conjunct1 [OF conjunct1 [OF inv]]]
  have "?same st' \<and> (q \<in> {Inl ERROR_IO_FAILURE, Inl ERROR_METADATA} \<and> \<not> (rocksdb_live R kv \<and> mup (os_mount st)) \<or> q \<notin> {Inl ERROR_IO_FAILURE, Inl ERROR_METADATA} \<and> ?spec)"
  proof (cases "validate_object_path p")
    case False
    then show ?thesis using rd refl by (auto simp: object_read_def obj_read_def)
  next
    case v: True
    note fo = find_object [OF inv v]
    from fo(1) consider (err) "path_lookup R (os_meta st) p = Inl ERROR_METADATA"
      | (none) "path_lookup R (os_meta st) p = Inl ERROR_NOT_FOUND" "obj st p = None"
      | (found) oid a where "path_lookup R (os_meta st) p = Inr oid" "mv_attrs (vw st) oid = Some a"
          "get_attrs R (os_meta st) oid \<in> {Inl ERROR_METADATA, Inr a}"
          "obj st p = Some (content (mdisk (os_mount st)) (mv_chunk (vw st)) (extents_of (vw st) oid))" by (elim disjE exE conjE)
    then show ?thesis
    proof cases
      case err
      then show ?thesis using rd refl v fo(2) by (auto simp: object_read_def)
    next
      case none
      then show ?thesis using rd refl v by (auto simp: object_read_def obj_read_def)
    next
      case found
      define C where "C = content (mdisk (os_mount st)) (mv_chunk (vw st)) (extents_of (vw st) oid)"
      have oC: "obj st p = Some C" using found(4) by (simp add: C_def)
      have lenC: "length C = unat (oa_size a)"
        using content_length [of 0 "extents_of (vw st) oid" "unat (oa_size a)" "mv_chunk (vw st)"] inv found(2)
        by (simp add: C_def objects_ok_def object_ok_def)
      consider (err) "get_attrs R (os_meta st) oid = Inl ERROR_METADATA" | (range) "get_attrs R (os_meta st) oid = Inr a" "offset > oa_size a"
        | (ok) "get_attrs R (os_meta st) oid = Inr a" "\<not> offset > oa_size a" using found(3) by blast
      then show ?thesis
      proof cases
        case err
        then show ?thesis using rd refl v found(1) fo(2) by (auto simp: object_read_def)
      next
        case range
        then have "obj_read (obj st) p (unat offset) (unat cap) = Inl ERROR_OUT_OF_RANGE" using v oC lenC by (simp add: obj_read_def word_less_nat_alt)
        then show ?thesis using rd refl v found(1) range by (auto simp: object_read_def)
      next
        case ok
        define sz where "sz = (if cap > oa_size a - offset then oa_size a - offset else cap)"
        have le: "unat offset \<le> unat (oa_size a)" using ok(2) by (simp add: word_less_nat_alt)
        have sz: "unat sz = min (unat cap) (unat (oa_size a) - unat offset)"
          using le by (simp add: sz_def word_less_nat_alt unat_minus_le min_def)
        have sp: "obj_read (obj st) p (unat offset) (unat cap) = Inr (seg (unat offset) (unat sz) C)"
          using v oC le lenC sz by (simp add: obj_read_def seg_def min_def)
        have sl: "length (seg (unat offset) (unat sz) C) = unat sz" using sz lenC by simp
        show ?thesis
        proof (cases "sz = 0")
          case True
          then have "q = Inr 0" "out = dst" "st' = st" using rd v found(1) ok by (auto simp: object_read_def Let_def sz_def)
          then show ?thesis using refl sp True by (simp add: seg_def)
        next
          case False
          obtain s u' where ie: "iter_extents R (os_meta st) oid offset (offset + sz) (read_visit R (os_meta st) sz)
             \<lparr>rs_mount = os_mount st, rs_cache = Map.empty, rs_status = OK, rs_cursor = offset, rs_remaining = sz, rs_dst = dst\<rparr> = (s, u')"
            by (rule prod.exhaust)
          have b: "unat offset + unat sz \<le> unat (oa_size a)" "unat sz \<le> length dst" using sz le dst by linarith+
          note rr = read_range [OF inv it found(2) False b ie, folded C_def]
          have res: "q = (if rs_status u' \<noteq> OK then Inl (rs_status u') else if s \<noteq> OK then Inl s else Inr (sz - rs_remaining u'))"
            "out = rs_dst u'" "st' = st\<lparr>os_mount := rs_mount u'\<rparr>"
            using rd v found(1) ok False ie by (auto simp: object_read_def Let_def sz_def)
          have of: "of_nat (unat sz) = sz" by simp
          show ?thesis using rr(2-5) res sl sp of by auto
        qed
      qed
    qed
  qed
  then show "?same st'" and "q \<in> {Inl ERROR_IO_FAILURE, Inl ERROR_METADATA} \<or> ?spec"
    and "rocksdb_live R kv \<Longrightarrow> mup (os_mount st) \<Longrightarrow> q \<notin> {Inl ERROR_IO_FAILURE, Inl ERROR_METADATA}" by blast+
qed

lemma object_read_vec_ok:
  assumes inv: "oinv L st" and it: "kv_iter_ok R (ms_db (os_meta st))" and rd: "object_read_vec R st p offset n = (q, st')"
  shows "same_disk L (os_mount st) (os_mount st') \<and> os_meta st' = os_meta st \<and> os_active st' = os_active st"
    and "q \<in> {Inl ERROR_IO_FAILURE, Inl ERROR_METADATA} \<or> q = obj_read (obj st) p (unat offset) (unat n)"
    and "rocksdb_live R kv \<Longrightarrow> mup (os_mount st) \<Longrightarrow> q \<notin> {Inl ERROR_IO_FAILURE, Inl ERROR_METADATA}"
proof -
  let ?sz = "\<lambda>a. if n > oa_size a - offset then oa_size a - offset else n"
  have room: "unat k \<le> length (zeros (unat k))" for k :: u64 by simp
  let ?all = "(same_disk L (os_mount st) (os_mount st') \<and> os_meta st' = os_meta st \<and> os_active st' = os_active st)
    \<and> (q \<in> {Inl ERROR_IO_FAILURE, Inl ERROR_METADATA} \<or> q = obj_read (obj st) p (unat offset) (unat n))
    \<and> (rocksdb_live R kv \<and> mup (os_mount st) \<longrightarrow> q \<notin> {Inl ERROR_IO_FAILURE, Inl ERROR_METADATA})"
  have ?all
  proof (cases "\<exists>oid a. validate_object_path p \<and> path_lookup R (os_meta st) p = Inr oid \<and> get_attrs R (os_meta st) oid = Inr a \<and> \<not> offset > oa_size a \<and> ?sz a \<noteq> 0")
    case True
    then obtain oid a where h: "validate_object_path p" "path_lookup R (os_meta st) p = Inr oid" "get_attrs R (os_meta st) oid = Inr a"
      "\<not> offset > oa_size a" "?sz a \<noteq> 0" by blast
    define k where "k = ?sz a"
    obtain q1 out st1 where ord: "object_read R st p offset k (zeros (unat k)) = (q1, out, st1)" by (rule prod_cases3)
    note ro = object_read_ok [OF inv it room ord]
    have st': "st' = st1" and q: "q = (case q1 of Inl s \<Rightarrow> Inl s | Inr got \<Rightarrow> Inr (take (unat got) out))"
    proof -
      have "object_read_vec R st p offset n = (case object_read R st p offset k (zeros (unat k)) of
          (Inl s, _, st1) \<Rightarrow> (Inl s, st1) | (Inr got, out, st1) \<Rightarrow> (Inr (take (unat got) out), st1))"
        using h by (simp add: object_read_vec_def Let_def k_def)
      then show "st' = st1" "q = (case q1 of Inl s \<Rightarrow> Inl s | Inr got \<Rightarrow> Inr (take (unat got) out))"
        using rd ord by (auto split: sum.splits)
    qed
    have at: "mv_attrs (vw st) oid = Some a" and ob: "obj st p = Some (content (mdisk (os_mount st)) (mv_chunk (vw st)) (extents_of (vw st) oid))"
      using find_object(1) [OF inv h(1)] h(2,3) by auto
    define C where "C = content (mdisk (os_mount st)) (mv_chunk (vw st)) (extents_of (vw st) oid)"
    have lenC: "length C = unat (oa_size a)"
      using content_length [of 0 "extents_of (vw st) oid" "unat (oa_size a)" "mv_chunk (vw st)"] inv at
      by (simp add: C_def objects_ok_def object_ok_def)
    have le: "unat offset \<le> unat (oa_size a)" using h(4) by (simp add: word_less_nat_alt)
    have k: "unat k = min (unat n) (unat (oa_size a) - unat offset)"
      using le by (simp add: k_def word_less_nat_alt unat_minus_le min_def)
    have sp: "obj_read (obj st) p (unat offset) m = Inr (seg (unat offset) m C)" for m
      using h(1) ob le lenC by (simp add: obj_read_def C_def [symmetric])
    have sg: "seg (unat offset) (unat n) C = seg (unat offset) (unat k) C" "length (seg (unat offset) (unat k) C) = unat k"
      using k lenC by (simp_all add: seg_def min_def)
    have "put 0 (seg (unat offset) (unat k) C) (zeros (unat k)) = seg (unat offset) (unat k) C" using sg(2) by (simp add: put_def)
    then have "q = obj_read (obj st) p (unat offset) (unat n)" if "q1 \<notin> {Inl ERROR_IO_FAILURE, Inl ERROR_METADATA}"
      using ro(2) that q sp [of "unat k"] sp [of "unat n"] sg by auto
    then show ?thesis using ro(1,3) q st' by (auto split: sum.splits)
  next
    case False
    obtain q1 out st1 where ord: "object_read R st p offset n (zeros (unat n)) = (q1, out, st1)" by (rule prod_cases3)
    note ro = object_read_ok [OF inv it room ord]
    have "st1 = st \<and> st' = st \<and> (q1 = Inr 0 \<and> q = Inr [] \<or> (\<exists>s. q1 = Inl s \<and> q = Inl s))"
      using rd ord False by (auto simp: object_read_def object_read_vec_def Let_def split: sum.splits if_splits)
    moreover have "bs = []" if "obj_read (obj st) p (unat offset) (unat n) = Inr bs" "of_nat (length bs) = (0 :: u64)" for bs
    proof -
      have "length bs \<le> unat n" using that(1) by (auto simp: obj_read_def split: if_splits option.splits)
      then have "length bs < 2 ^ 64" using u64_bound [of n] by linarith
      then show ?thesis using that(2) by (simp add: word_of_nat_eq_0_iff dvd_def) (use that in auto)
    qed
    ultimately show ?thesis using ro by (auto split: sum.splits)
  qed
  then show "same_disk L (os_mount st) (os_mount st') \<and> os_meta st' = os_meta st \<and> os_active st' = os_active st"
    and "q \<in> {Inl ERROR_IO_FAILURE, Inl ERROR_METADATA} \<or> q = obj_read (obj st) p (unat offset) (unat n)"
    and "rocksdb_live R kv \<Longrightarrow> mup (os_mount st) \<Longrightarrow> q \<notin> {Inl ERROR_IO_FAILURE, Inl ERROR_METADATA}" by blast+
qed

end

end
