(* ===== verification/Objstore_Write.thy ===== *)
theory Objstore_Write
  imports Objstore_Read
begin

unbundle bit_operations_syntax

text \<open>
  The write path of the object store: the transfer of a reserved segment, the loop that reserves and
  transfers until the buffer is used up, and the effect of the commit on the map of objects.
\<close>

declare write_loop.simps [simp del]

section \<open>Transferring a segment\<close>

lemma concat_segs_take: "w * n \<le> length xs \<Longrightarrow> concat (map (\<lambda>i. seg (w * i) w xs) [0..<n]) = take (w * n) xs"
proof (induction n)
  case (Suc n)
  then show ?case using take_add [of "w * n" w xs] by (simp add: seg_def add.commute)
qed simp

context objstore_env
begin

abbreviation only_io :: "nebula_layout \<Rightarrow> ('d, 'db) objstore \<Rightarrow> ('d, 'db) objstore \<Rightarrow> bool" where
  "only_io L st st' \<equiv> mount_next L (os_mount st) (os_mount st') \<and> m_bitmap (os_mount st') = m_bitmap (os_mount st)
     \<and> os_meta st' = os_meta st \<and> os_active st' = os_active st"

lemma only_io_trans: "only_io L a b \<Longrightarrow> only_io L b c \<Longrightarrow> only_io L a c"
  using next_io_trans by (auto simp: same_meta_def)

lemma write_blocks_cases:
  assumes inv: "mount_inv ops dinv L (os_mount st)" and wb: "write_blocks st lba buf n = (s, st')"
  shows "only_io L st st'" and "s \<in> {OK, ERROR_IO_FAILURE}"
    and "i < unat lba \<or> unat lba + unat n \<le> i \<Longrightarrow> mdisk (os_mount st') i = mdisk (os_mount st) i"
    and "s = OK \<Longrightarrow> 4096 * unat n \<le> length buf \<Longrightarrow> unat lba \<le> i \<Longrightarrow> i < unat lba + unat n
      \<Longrightarrow> mdisk (os_mount st') i = seg (4096 * (i - unat lba)) 4096 buf"
    and "mup (os_mount st) \<Longrightarrow> unat lba + unat n \<le> mcap (os_mount st) \<Longrightarrow> s = OK"
proof -
  obtain r io' where io: "nebula_io_write (m_io (os_mount st)) lba n buf = (r, io')"
    and st': "st' = st\<lparr>os_mount := (os_mount st)\<lparr>m_io := io'\<rparr>\<rparr>" and s: "s = (case r of Inr _ \<Rightarrow> OK | Inl _ \<Rightarrow> ERROR_IO_FAILURE)"
    using wb by (auto simp: write_blocks_def split: prod.splits)
  note ok = mount_inv_okio [OF inv]
  note f = io_write_frame [OF ok io]
  show "only_io L st st'" using mount_set_io [OF inv f(1)] by (simp add: st')
  show "s \<in> {OK, ERROR_IO_FAILURE}" by (simp add: s split: sum.splits)
  show "i < unat lba \<or> unat lba + unat n \<le> i \<Longrightarrow> mdisk (os_mount st') i = mdisk (os_mount st) i" using f(2) by (simp add: st')
  show "mdisk (os_mount st') i = seg (4096 * (i - unat lba)) 4096 buf"
    if h: "s = OK" "4096 * unat n \<le> length buf" "unat lba \<le> i" "i < unat lba + unat n"
  proof -
    obtain u where "r = Inr u" using h(1) s by (cases r) auto
    then have "nebula_io_write (m_io (os_mount st)) lba n buf = (Inr u, io')" using io by simp
    from io_write_ok(2) [OF ok this h(2)] h(3,4) show ?thesis by (simp add: st')
  qed
  show "s = OK" if "mup (os_mount st)" "unat lba + unat n \<le> mcap (os_mount st)" using io_write_up [OF ok that io] s by simp
qed

lemma write_segment_ok:
  assumes inv: "mount_inv ops dinv L (os_mount st)" and re: "reserved L n pc (eff st) r"
    and src: "cursor + unat (rv_length_bytes r) \<le> length src" and ws: "write_segment st r src cursor = (s, st')"
    and c: "eff st (rv_chunk_id r) = Some c"
  shows "only_io L st st'" and "s \<in> {OK, ERROR_IO_FAILURE}"
    and "i < unat (rv_physical_lba r) \<or> unat (rv_physical_lba r) + unat (rv_padded_bytes r) div 4096 \<le> i
      \<Longrightarrow> mdisk (os_mount st') i = mdisk (os_mount st) i"
    and "s = OK \<Longrightarrow> sbytes (mdisk (os_mount st')) (unat (ck_lba_start c)) (unat (rv_offset_bytes r)) (unat (rv_length_bytes r))
      = seg cursor (unat (rv_length_bytes r)) src"
    and "mup (os_mount st) \<Longrightarrow> s = OK"
proof -
  let ?len = "unat (rv_length_bytes r)" and ?lba = "rv_physical_lba r" and ?b = "unat (ck_lba_start c)" and ?off = "unat (rv_offset_bytes r)"
  define bulk where "bulk = rv_length_bytes r AND NOT (kBlockSize - 1)"
  define tail where "tail = rv_length_bytes r - bulk"
  let ?k = "?len div 4096"
  have R: "4096 dvd ?off" "unat (rv_padded_bytes r) = (?len + 4095) div 4096 * 4096" "?off + unat (rv_padded_bytes r) \<le> 67108864"
      "unat ?lba = ?b + ?off div 4096" "?b + 16384 \<le> mcap (os_mount st)"
    using re c inv by (auto simp: reserved_def mount_inv_def)
  have kle: "?k * 4096 \<le> ?len" "?len < ?k * 4096 + 4096" by (simp_all add: dividend_less_div_times)
  have bulk: "unat bulk = ?k * 4096" unfolding bulk_def using u32_and_not_4095 by simp
  have bk: "unat (bulk div kBlockSize) = ?k" using bulk by (simp add: unat_div)
  have tail: "unat tail = ?len - ?k * 4096" unfolding tail_def using bulk kle by (simp add: unat_minus_le)
  have pad: "?k + (if unat tail = 0 then 0 else 1) = unat (rv_padded_bytes r) div 4096"
  proof -
    have "(?len + 4095) div 4096 = ?k + (if unat tail = 0 then 0 else 1)"
      using tail kle by (intro div_nat_eqI) auto
    then show ?thesis using R(2) by simp
  qed
  have fit: "unat ?lba + unat (rv_padded_bytes r) div 4096 \<le> mcap (os_mount st)"
  proof -
    have "(?off + unat (rv_padded_bytes r)) div 4096 \<le> 67108864 div 4096" using R(3) by (rule div_le_mono)
    then have "?off div 4096 + unat (rv_padded_bytes r) div 4096 \<le> 16384" using div_plus_div_distrib_dvd_left [OF R(1)] by simp
    then show ?thesis using R(4,5) by simp
  qed
  have lbak: "unat (?lba + ucast (bulk div kBlockSize)) = unat ?lba + ?k" if "unat tail \<noteq> 0"
  proof -
    have "mcap (os_mount st) \<le> 2 ^ 51" by (rule ncap_bound [OF mount_inv_okio [OF inv]])
    then have "unat ?lba + ?k < 2 ^ 64" using fit pad by simp
    then show ?thesis using bk by (subst unat_plus_if_small) simp_all
  qed
  obtain s1 st1 where st1: "(if bulk > 0 then write_blocks st ?lba (drop cursor src) (bulk div kBlockSize) else (OK, st)) = (s1, st1)"
    by (rule prod.exhaust)
  have one: "only_io L st st1 \<and> s1 \<in> {OK, ERROR_IO_FAILURE} \<and> (mup (os_mount st) \<longrightarrow> s1 = OK)
    \<and> (\<forall>i. i < unat ?lba \<or> unat ?lba + ?k \<le> i \<longrightarrow> mdisk (os_mount st1) i = mdisk (os_mount st) i)
    \<and> (s1 = OK \<longrightarrow> (\<forall>j < ?k. mdisk (os_mount st1) (unat ?lba + j) = seg (4096 * j) 4096 (drop cursor src)))"
  proof (cases "bulk > 0")
    case False
    then have "st1 = st" "s1 = OK" "?k = 0" using st1 bulk by (auto simp: word_less_nat_alt)
    then show ?thesis using mount_next_refl [OF inv] by simp
  next
    case True
    then have w: "write_blocks st ?lba (drop cursor src) (bulk div kBlockSize) = (s1, st1)" using st1 by simp
    note wc = write_blocks_cases [OF inv w, unfolded bk]
    have cap: "unat ?lba + ?k \<le> mcap (os_mount st)" using pad fit by simp
    have "4096 * ?k \<le> length (drop cursor src)" using src kle(1) by simp
    then show ?thesis using wc(1-3) wc(4) [of "unat ?lba + j" for j] wc(5) cap by auto
  qed
  have two: "only_io L st1 st' \<and> s \<in> {OK, ERROR_IO_FAILURE} \<and> (mup (os_mount st) \<longrightarrow> s = OK) \<and> (s = OK \<longrightarrow> s1 = OK)
    \<and> (\<forall>i. i < unat ?lba + ?k \<or> unat ?lba + unat (rv_padded_bytes r) div 4096 \<le> i \<longrightarrow> mdisk (os_mount st') i = mdisk (os_mount st1) i)
    \<and> (s = OK \<longrightarrow> unat tail \<noteq> 0 \<longrightarrow> mdisk (os_mount st') (unat ?lba + ?k) = put 0 (seg (cursor + unat bulk) (unat tail) src) (zeros 4096))"
  proof -
    define scratch where "scratch = put 0 (seg (cursor + unat bulk) (unat tail) src) (zeros 4096)"
    have ws': "(s, st') = (if s1 \<noteq> OK then (s1, st1) else if tail > 0 then write_blocks st1 (?lba + ucast (bulk div kBlockSize)) scratch 1 else (OK, st1))"
      using ws st1 unfolding write_segment_def Let_def bulk_def [symmetric] tail_def [symmetric] scratch_def by simp
    note o1 = conjunct1 [OF one]
    note m1 = conjunct1 [OF conjunct1 [OF o1]]
    have t4: "unat tail < 4096" using tail kle by linarith
    consider (fail) "s1 \<noteq> OK" "s = s1" "st' = st1" | (none) "s1 = OK" "unat tail = 0" "s = OK" "st' = st1"
      | (tail) "s1 = OK" "unat tail \<noteq> 0" "write_blocks st1 (?lba + ucast (bulk div kBlockSize)) scratch 1 = (s, st')"
      using ws' by (auto simp: word_less_nat_alt split: if_splits)
    then show ?thesis
    proof cases
      case tail
      note wc = write_blocks_cases [OF m1 tail(3), unfolded lbak [OF tail(2)]]
      have len: "length scratch = 4096" using t4 by (simp add: scratch_def)
      have up: "mup (os_mount st) \<Longrightarrow> mup (os_mount st1)" "mcap (os_mount st1) = mcap (os_mount st)"
        using mount_next_up mount_next_cap [OF conjunct1 [OF o1]] o1 by blast+
      have p1: "unat (rv_padded_bytes r) div 4096 = ?k + 1" using pad tail(2) by simp
      show ?thesis using wc(1-3) wc(4) [of "unat ?lba + ?k"] wc(5) len up fit tail(1) unfolding p1 scratch_def [symmetric] by simp
    qed (use one mount_next_refl [OF m1] in simp_all)
  qed
  show "only_io L st st'" using only_io_trans one two by blast
  show "s \<in> {OK, ERROR_IO_FAILURE}" "mup (os_mount st) \<Longrightarrow> s = OK" using two by blast+
  show "mdisk (os_mount st') i = mdisk (os_mount st) i"
    if "i < unat ?lba \<or> unat ?lba + unat (rv_padded_bytes r) div 4096 \<le> i" using that one two pad by auto
  show "sbytes (mdisk (os_mount st')) ?b ?off ?len = seg cursor ?len src" if ok: "s = OK"
  proof -
    let ?d = "mdisk (os_mount st')"
    have blocks: "?d (unat ?lba + j) = seg (4096 * j) 4096 (drop cursor src)" if "j < ?k" for j
      using one two ok that by simp
    have "sbytes ?d ?b ?off (4096 * ?k) = concat (map ?d [unat ?lba..<unat ?lba + ?k])"
      using sbytes_blocks [OF mdisk_length R(1), where b = ?b and k = ?k] R(4) by simp
    also have "map ?d [unat ?lba..<unat ?lba + ?k] = map (\<lambda>j. seg (4096 * j) 4096 (drop cursor src)) [0..<?k]"
      by (rule nth_equalityI) (simp_all add: blocks)
    also have "concat \<dots> = seg cursor (4096 * ?k) src"
      using concat_segs_take [of 4096 ?k "drop cursor src"] src kle(1) by (simp add: seg_def)
    finally have bulkd: "sbytes ?d ?b ?off (4096 * ?k) = seg cursor (4096 * ?k) src" .
    have taild: "sbytes ?d ?b (?off + 4096 * ?k) (unat tail) = seg (cursor + 4096 * ?k) (unat tail) src"
    proof (cases "unat tail = 0")
      case False
      have al: "(?off + 4096 * ?k) mod 4096 = 0" "(?off + 4096 * ?k) div 4096 = ?off div 4096 + ?k" using R(1) by (auto elim!: dvdE)
      have "unat tail \<le> 4096" using tail kle by linarith
      moreover have "length (seg (cursor + unat bulk) (unat tail) src) = unat tail" using src tail bulk kle by simp
      moreover have "?d (unat ?lba + ?k) = put 0 (seg (cursor + unat bulk) (unat tail) src) (zeros 4096)" using two ok False by blast
      ultimately show ?thesis
        using sbytes_block [OF mdisk_length, where i = "?off + 4096 * ?k" and n = "unat tail" and b = ?b] al R(4) bulk
          seg_put_same [of 0 "seg (cursor + unat bulk) (unat tail) src" "zeros 4096"] by (simp add: add.assoc mult.commute)
    qed (simp add: seg_def)
    have "4096 * ?k + unat tail = ?len" using tail kle by simp
    then show ?thesis using sbytes_append [of ?d ?b ?off "4096 * ?k" "unat tail"] seg_append_seg [of cursor "4096 * ?k" src "unat tail"] bulkd taild
      by simp
  qed
qed

end

section \<open>Data that stays in place\<close>

definition aligned :: "(u32 \<Rightarrow> chunk option) \<Rightarrow> bool" where
  "aligned ct \<longleftrightarrow> (\<forall>cid c. ct cid = Some c \<longrightarrow> 4096 dvd unat (ck_write_offset c))"

lemma extent_in_mono: "chunks_le ct ct' \<Longrightarrow> extent_in ct e \<Longrightarrow> extent_in ct' e"
  unfolding extent_in_def chunks_le_def word_le_nat_alt by (meson order.trans)

lemma ebytes_frame:
  assumes ex: "extent_in ct (snd x)" and al: "aligned ct" and le: "chunks_le ct ct'" and same: "\<forall>i \<in> frontier ct. d' i = d i"
  shows "ebytes d' ct' x = ebytes d ct x"
proof -
  obtain c where c: "ct (ee_chunk_id (snd x)) = Some c" "4096 dvd unat (ee_offset_in_chunk (snd x))"
      "unat (ee_offset_in_chunk (snd x)) + unat (ee_length (snd x)) \<le> unat (ck_write_offset c)" using ex by (auto simp: extent_in_def)
  obtain c' where c': "ct' (ee_chunk_id (snd x)) = Some c'" "ck_lba_start c' = ck_lba_start c" using le c(1) by (auto simp: chunks_le_def)
  have dv: "4096 dvd unat (ck_write_offset c)" using al c(1) by (simp add: aligned_def)
  have "d' i = d i" if "unat (ck_lba_start c) + unat (ee_offset_in_chunk (snd x)) div 4096 \<le> i"
      "i < unat (ck_lba_start c) + (unat (ee_offset_in_chunk (snd x)) + unat (ee_length (snd x)) + 4095) div 4096" for i
  proof -
    have "(unat (ee_offset_in_chunk (snd x)) + unat (ee_length (snd x)) + 4095) div 4096 \<le> (unat (ck_write_offset c) + 4095) div 4096"
      using c(3) by (intro div_le_mono) simp
    also have "\<dots> = unat (ck_write_offset c) div 4096" using dv by (auto elim!: dvdE)
    finally have "i \<in> chunk_used c" using that by (simp add: chunk_used_def)
    then show ?thesis using same c(1) by (auto simp: frontier_def ran_def)
  qed
  then show ?thesis unfolding ebytes_def using c(1) c' by (simp, intro sbytes_cong) simp
qed

lemma content_frame:
  assumes "\<forall>x \<in> set xs. extent_in ct (snd x)" and "aligned ct" and "chunks_le ct ct'" and "\<forall>i \<in> frontier ct. d' i = d i"
  shows "content d' ct' xs = content d ct xs"
  using assms(1) ebytes_frame [OF _ assms(2-4)] by (induction xs) (simp_all add: content_def)

section \<open>The loop\<close>

definition seg_ops :: "u64 \<Rightarrow> u64 \<times> extent_entry \<Rightarrow> meta_op list" where
  "seg_ops oid x = [PutExtent oid (fst x) (snd x),
     PutRev (ee_chunk_id (snd x)) (ee_chunk_idx (snd x))
       \<lparr>cr_oid = oid, cr_logical_offset = fst x, cr_length = ee_length (snd x), cr_reserved = 0\<rparr>]"

context objstore_env
begin

text \<open>
  What the write path keeps: it changes no block outside the bitmap that a chunk has used, and none that
  was neither free nor part of a chunk.
\<close>

abbreviation wstep :: "nebula_layout \<Rightarrow> ('d, 'db) objstore \<Rightarrow> ('d, 'db) objstore \<Rightarrow> bool" where
  "wstep L st st' \<equiv> eok L st' \<and> mount_next L (os_mount st) (os_mount st')
     \<and> same_objects (vw st) (vw st') \<and> chunks_le (mv_chunk (vw st)) (mv_chunk (vw st'))
     \<and> frees st' \<union> chunk_area (mv_chunk (vw st')) \<subseteq> frees st \<union> chunk_area (mv_chunk (vw st))
     \<and> ms_next_object_id (os_meta st') = ms_next_object_id (os_meta st)
     \<and> (\<forall>i. (i < 131 \<or> 131 + unat (lay_bitmap_block_count L) \<le> i)
          \<and> (i \<in> frontier (eff st) \<or> i \<notin> frees st \<union> chunk_area (mv_chunk (vw st))) \<longrightarrow> mdisk (os_mount st') i = mdisk (os_mount st) i)"

lemma estep_wstep: "estep L st st' \<Longrightarrow> wstep L st st'"
  by blast

lemma wstep_trans:
  assumes a: "wstep L st st1" and le: "chunks_le (eff st) (eff st1)" and b: "wstep L st1 st2"
  shows "wstep L st st2"
proof -
  have ar: "frees st2 \<union> chunk_area (mv_chunk (vw st2)) \<subseteq> frees st \<union> chunk_area (mv_chunk (vw st))" using a b by (meson order.trans)
  have "mdisk (os_mount st2) i = mdisk (os_mount st) i" if "i < 131 \<or> 131 + unat (lay_bitmap_block_count L) \<le> i"
      "i \<in> frontier (eff st) \<or> i \<notin> frees st \<union> chunk_area (mv_chunk (vw st))" for i
  proof -
    have "i \<in> frontier (eff st1) \<or> i \<notin> frees st1 \<union> chunk_area (mv_chunk (vw st1))" using that(2) frontier_mono [OF le] a by blast
    then show ?thesis using that a b by metis
  qed
  moreover have "mount_next L (os_mount st) (os_mount st2)" using mount_next_trans a b by blast
  ultimately show ?thesis
    using a b ar same_objects_trans [of "vw st" "vw st1" "vw st2"]
      chunks_le_trans [of "mv_chunk (vw st)" "mv_chunk (vw st1)" "mv_chunk (vw st2)"] by simp
qed

lemma eff_frontier: "eok L st \<Longrightarrow> i \<in> frontier (eff st) \<Longrightarrow> 131 + unat (lay_bitmap_block_count L) \<le> i"
  using eff_facts(3) [of L st] by (fastforce simp: frontier_def ran_def chunk_used_def)

lemma eff_aligned: "eok L st \<Longrightarrow> aligned (eff st)"
  using eff_facts(1) [of L st] by (auto simp: aligned_def chunk_ok_def)

text \<open>One turn: a reservation and its transfer.\<close>

lemma write_turn:
  assumes ok: "eok L st" and room: "unat (next_chunk st) + 1 < 2 ^ 32" and re: "reserve R st n = (Inr r, st1)"
    and src: "cursor + unat n \<le> length src" and ws: "write_segment st1 r src cursor = (s, st2)"
  shows "wstep L st st2" and "unat (next_chunk st2) \<le> unat (next_chunk st) + 1" and "chunks_le (eff st) (eff st2)"
    and "s \<in> {OK, ERROR_IO_FAILURE}" and "mup (os_mount st) \<Longrightarrow> s = OK"
    and "1 \<le> unat (rv_length_bytes r)" and "unat (rv_length_bytes r) \<le> unat n"
    and "extent_in (eff st2) (segment_extent r)"
    and "s = OK \<Longrightarrow> ebytes (mdisk (os_mount st2)) (eff st2) (off, segment_extent r) = seg cursor (unat (rv_length_bytes r)) src"
proof -
  note rs = reserve_step [OF ok room re]
  have le: "chunks_le (eff st) (eff st1)" and rv: "reserved L n (eff st) (eff st1) r" using rs(2) by blast+
  note ok1 = conjunct1 [OF rs(1)]
  obtain c where c: "eff st1 (rv_chunk_id r) = Some c" and len: "1 \<le> unat (rv_length_bytes r)" "unat (rv_length_bytes r) \<le> unat n"
      and al: "4096 dvd unat (rv_offset_bytes r)" "unat (rv_padded_bytes r) = (unat (rv_length_bytes r) + 4095) div 4096 * 4096"
      "unat (ck_write_offset c) = unat (rv_offset_bytes r) + unat (rv_padded_bytes r)"
      and fresh: "{unat (rv_physical_lba r)..<unat (rv_physical_lba r) + unat (rv_padded_bytes r) div 4096} \<inter> frontier (eff st) = {}"
    using rv unfolding reserved_def word_le_nat_alt by blast
  have src': "cursor + unat (rv_length_bytes r) \<le> length src" using src len(2) by simp
  note wo = write_segment_ok [OF conjunct1 [OF ok1] rv src' ws c]
  have e2: "eff st2 = eff st1" and v2: "vw st2 = vw st1" and f2: "frees st2 = frees st1" using wo(1) by simp_all
  have ok2: "eok L st2" using ok1 wo(1) by simp
  have "mdisk (os_mount st2) i = mdisk (os_mount st) i" if "i < 131 \<or> 131 + unat (lay_bitmap_block_count L) \<le> i"
      "i \<in> frontier (eff st) \<or> i \<notin> frees st \<union> chunk_area (mv_chunk (vw st))" for i
  proof -
    have "i \<notin> {unat (rv_physical_lba r)..<unat (rv_physical_lba r) + unat (rv_padded_bytes r) div 4096}"
      using that(2) fresh reserved_area [OF ok1 rv] rs(1) by blast
    then have "mdisk (os_mount st2) i = mdisk (os_mount st1) i" by (intro wo(3)) auto
    then show ?thesis using rs(1) that(1) by simp
  qed
  moreover have "mount_next L (os_mount st) (os_mount st2)" using mount_next_trans rs(1) wo(1) by blast
  ultimately show "wstep L st st2" using rs(1) ok2 wo(1) by simp
  show "unat (next_chunk st2) \<le> unat (next_chunk st) + 1" using rs(1) wo(1) by simp
  show "chunks_le (eff st) (eff st2)" using le e2 by simp
  show "s \<in> {OK, ERROR_IO_FAILURE}" by (rule wo(2))
  show "s = OK" if "mup (os_mount st)" using wo(5) mount_next_up rs(1) that by blast
  show "1 \<le> unat (rv_length_bytes r)" "unat (rv_length_bytes r) \<le> unat n" by (rule len)+
  have "unat (rv_length_bytes r) \<le> (unat (rv_length_bytes r) + 4095) div 4096 * 4096" by linarith
  then show "extent_in (eff st2) (segment_extent r)" unfolding e2 extent_in_def using c al by (simp add: segment_extent_def)
  show "ebytes (mdisk (os_mount st2)) (eff st2) (off, segment_extent r) = seg cursor (unat (rv_length_bytes r)) src" if "s = OK"
    unfolding e2 ebytes_def using c wo(4) [OF that] by (simp add: segment_extent_def)
qed

text \<open>A segment stays in place while the rest is written behind it.\<close>

lemma extend_tail:
  assumes w: "wstep L st2 st'" and ok2: "eok L st2" and x: "extent_in (eff st2) (snd x)"
    "ebytes (mdisk (os_mount st2)) (eff st2) x = seg cursor n src" and le: "chunks_le (eff st2) (eff st')"
    and xs: "\<forall>y \<in> set xs. extent_in (eff st') (snd y)" "content (mdisk (os_mount st')) (eff st') xs = drop (cursor + n) src"
  shows "content (mdisk (os_mount st')) (eff st') (x # xs) = drop cursor src" and "\<forall>y \<in> set (x # xs). extent_in (eff st') (snd y)"
proof -
  have fr: "\<forall>i \<in> frontier (eff st2). mdisk (os_mount st') i = mdisk (os_mount st2) i" using w eff_frontier [OF ok2] by blast
  have "ebytes (mdisk (os_mount st')) (eff st') x = seg cursor n src"
    unfolding x(2) [symmetric] by (rule ebytes_frame [OF x(1) eff_aligned [OF ok2] le fr])
  then have "content (mdisk (os_mount st')) (eff st') (x # xs) = seg cursor n src @ drop (cursor + n) src"
    using xs(2) by (simp add: content_def)
  also have "\<dots> = drop cursor src" by (rule seg_append_drop) simp
  finally show "content (mdisk (os_mount st')) (eff st') (x # xs) = drop cursor src" .
  show "\<forall>y \<in> set (x # xs). extent_in (eff st') (snd y)" using xs(1) extent_in_mono [OF le x(1)] by simp
qed

lemma write_loop_ok:
  assumes "eok L st" and "unat (next_chunk st) + remaining < 2 ^ 32" and "cursor + remaining = length src"
    and "unat logical + remaining < 2 ^ 64"
    and "write_loop R st oid src cursor remaining logical added batch = (q, st')"
  shows "wstep L st st' \<and> unat (next_chunk st') \<le> unat (next_chunk st) + remaining
    \<and> (case q of
         Inl s \<Rightarrow> s \<in> {ERROR_NO_SPACE, ERROR_METADATA, ERROR_IO_FAILURE} \<and> (rocksdb_live R kv \<and> mup (os_mount st) \<longrightarrow> s = ERROR_NO_SPACE)
       | Inr (added', batch') \<Rightarrow> \<exists>xs. chunks_le (eff st) (eff st') \<and> tiles (unat logical) xs (unat logical + remaining)
           \<and> (\<forall>x \<in> set xs. extent_in (eff st') (snd x)) \<and> content (mdisk (os_mount st')) (eff st') xs = drop cursor src
           \<and> batch' = batch @ batch_of (concat (map (seg_ops oid) xs)) \<and> added' = added + of_nat (length xs))"
  using assms
proof (induction remaining arbitrary: st cursor logical added batch rule: less_induct)
  case (less remaining)
  note ok = less.prems(1)
  show ?case
  proof (cases "remaining = 0")
    case True
    then have "q = Inr (added, batch)" "st' = st" using less.prems(5) by (simp_all add: write_loop.simps)
    then show ?thesis using True ok less.prems(3) mount_next_refl [OF conjunct1 [OF ok]]
      by (auto intro!: exI [of _ "[]"] simp: content_def batch_of_def)
  next
    case rem: False
    define want where "want = (of_nat (min remaining (2 ^ 32 - 1)) :: u32)"
    have want: "unat want = remaining" using less.prems(2) by (simp add: want_def unat_of_nat min_def)
    have w0: "want \<noteq> 0" using want rem by auto
    have room: "unat (next_chunk st) + 1 < 2 ^ 32" using less.prems(2) rem by simp
    obtain rr st1 where re: "reserve R st want = (rr, st1)" by (rule prod.exhaust)
    show ?thesis
    proof (cases rr)
      case (Inl e)
      then have "q = Inl e" "st' = st1" using less.prems(5) rem re by (auto simp: write_loop.simps [of R st] Let_def want_def)
      moreover have "rocksdb_live R kv \<Longrightarrow> e = ERROR_NO_SPACE" using reserve_live [OF _ ok room _ w0, of e st1] re Inl by simp
      ultimately show ?thesis using reserve_step(1) [OF ok room re] reserve_step(3) [OF ok room re w0 Inl] rem by auto
    next
      case (Inr r)
      obtain s st2 where ws: "write_segment st1 r src cursor = (s, st2)" by (rule prod.exhaust)
      have src: "cursor + unat want \<le> length src" using want less.prems(3) by simp
      note tu = write_turn [OF ok room re [unfolded Inr] src ws]
      show ?thesis
      proof (cases "s = OK")
        case False
        then have "q = Inl s" "st' = st2" using less.prems(5) rem re Inr ws by (auto simp: write_loop.simps [of R st] Let_def want_def)
        then show ?thesis using tu(1,2,4,5) False rem by auto
      next
        case sok: True
        define n where "n = unat (rv_length_bytes r)"
        have n: "1 \<le> n" "n \<le> remaining" using tu(6,7) want by (simp_all add: n_def)
        define x where "x = (logical, segment_extent r)"
        let ?b2 = "batch @ batch_of (seg_ops oid x)"
        have lg: "unat (logical + ucast (rv_length_bytes r)) = unat logical + n"
          using less.prems(4) n by (simp add: n_def unat_plus_if_small)
        have b2: "stage_chunk_rev (batch_put_extent batch oid logical (segment_extent r)) (rv_chunk_id r) (rv_chunk_idx r) oid logical (rv_length_bytes r) = ?b2"
          by (simp add: stage_chunk_rev_def batch_put_extent_def batch_put_chunk_rev_def batch_of_entries seg_ops_def x_def segment_extent_def)
        have lp: "write_loop R st2 oid src (cursor + n) (remaining - n) (logical + ucast (rv_length_bytes r)) (added + 1) ?b2 = (q, st')"
          using less.prems(5) rem re Inr ws sok by (simp add: write_loop.simps [of R st] Let_def want_def n_def b2)
        have nc: "unat (next_chunk st2) + (remaining - n) < 2 ^ 32" using tu(2) n less.prems(2) by linarith
        have cu: "cursor + n + (remaining - n) = length src" using n less.prems(3) by simp
        have lo: "unat (logical + ucast (rv_length_bytes r)) + (remaining - n) < 2 ^ 64" using lg n less.prems(4) by simp
        have sm: "remaining - n < remaining" using n by simp
        note ih = less.IH [OF sm conjunct1 [OF tu(1)] nc cu lo lp]
        have ws': "wstep L st st'" by (rule wstep_trans [OF tu(1,3) conjunct1 [OF ih]])
        have nx: "unat (next_chunk st') \<le> unat (next_chunk st) + remaining" using ih tu(2) n by linarith
        show ?thesis
        proof (cases q)
          case (Inl e)
          have "mup (os_mount st) \<Longrightarrow> mup (os_mount st2)" using mount_next_up tu(1) by blast
          then show ?thesis using ws' nx ih Inl by auto
        next
          case q: (Inr ab)
          obtain added' batch' where ab: "ab = (added', batch')" by (cases ab)
          obtain xs where xs: "chunks_le (eff st2) (eff st')" "tiles (unat logical + n) xs (unat logical + n + (remaining - n))"
              "\<forall>x \<in> set xs. extent_in (eff st') (snd x)" "content (mdisk (os_mount st')) (eff st') xs = drop (cursor + n) src"
              "batch' = ?b2 @ batch_of (concat (map (seg_ops oid) xs))" "added' = added + 1 + of_nat (length xs)"
            using ih q ab lg by auto
          have x_in: "extent_in (eff st2) (snd x)" using tu(8) by (simp add: x_def)
          have x_by: "ebytes (mdisk (os_mount st2)) (eff st2) x = seg cursor n src" using tu(9) [OF sok] by (simp add: x_def n_def)
          note ct = extend_tail [OF conjunct1 [OF ih] conjunct1 [OF tu(1)] x_in x_by xs(1,3,4)]
          have ti: "tiles (unat logical) (x # xs) (unat logical + remaining)"
            using xs(2) n by (simp add: x_def segment_extent_def n_def [symmetric])
          have "batch' = batch @ batch_of (concat (map (seg_ops oid) (x # xs)))" "added' = added + of_nat (length (x # xs))"
            using xs(5,6) by (simp_all add: batch_of_entries)
          then show ?thesis using ws' nx q ab ct ti chunks_le_trans [OF tu(3) xs(1)] by (auto intro!: exI [of _ "x # xs"] simp del: tiles.simps)
        qed
      qed
    qed
  qed
qed

end

end
