(* ===== verification/Objstore_Objects.thy ===== *)
theory Objstore_Objects
  imports Objstore_Write
begin

text \<open>
  The operations of the object store on the map of objects: creating adds an empty object, writing
  appends, and a failure leaves the map as it was, or applies the operation as a whole when the
  database failed in the commit.
\<close>

section \<open>Views\<close>

lemma objects_okD:
  assumes "objects_ok no v"
  shows "mv_attrs v oid = Some a \<Longrightarrow> oid < no \<and> object_ok v oid a"
    and "mv_extent v (oid, off) = Some e \<Longrightarrow> mv_attrs v oid \<noteq> None"
    and "validate_object_path p \<Longrightarrow> mv_path v p = Some oid \<Longrightarrow> mv_attrs v oid \<noteq> None"
    and "validate_object_path p \<Longrightarrow> validate_object_path q \<Longrightarrow> mv_path v p = Some oid \<Longrightarrow> mv_path v q = Some oid \<Longrightarrow> p = q"
  using assms unfolding objects_ok_def by blast+

lemma extents_of_cong: "(\<And>off. mv_extent v' (oid, off) = mv_extent v (oid, off)) \<Longrightarrow> extents_of v' oid = extents_of v oid"
  by (simp add: extents_of_def)

text \<open>Steps of the engine leave the map alone.\<close>

lemma grow_view:
  assumes ok: "objects_ok no v" and same: "same_objects v v'" and le: "chunks_le (mv_chunk v) (mv_chunk v')"
    and al: "aligned (mv_chunk v)" and fr: "\<forall>i \<in> frontier (mv_chunk v). d' i = d i"
  shows "objects_ok no v'" and "objects d' v' = objects d v"
proof -
  have eq: "mv_path v' = mv_path v" "mv_attrs v' = mv_attrs v" "mv_extent v' = mv_extent v" using same by (simp_all add: same_objects_def)
  have ext: "extents_of v' oid = extents_of v oid" for oid by (rule extents_of_cong) (simp add: eq)
  have "object_ok v' oid a" if "object_ok v oid a" for oid a
    using that extent_in_mono [OF le] unfolding object_ok_def ext by blast
  then show "objects_ok no v'" using ok unfolding objects_ok_def eq by blast
  have "content d' (mv_chunk v') (extents_of v oid) = content d (mv_chunk v) (extents_of v oid)" if "mv_attrs v oid = Some a" for oid a
    using objects_okD(1) [OF ok that] by (intro content_frame [OF _ al le fr]) (simp add: object_ok_def)
  then show "objects d' v' = objects d v" by (auto simp: fun_eq_iff objects_def eq ext split: option.splits)
qed

definition put_extents :: "u64 \<Rightarrow> (u64 \<times> extent_entry) list \<Rightarrow> (u64 \<times> u64 \<Rightarrow> extent_entry option) \<Rightarrow> u64 \<times> u64 \<Rightarrow> extent_entry option" where
  "put_extents oid xs m = fold (\<lambda>x m. m((oid, fst x) \<mapsto> snd x)) xs m"

lemma seg_ops_view:
  "mv_path (fold view_op (concat (map (seg_ops oid) xs)) v) = mv_path v"
  "mv_attrs (fold view_op (concat (map (seg_ops oid) xs)) v) = mv_attrs v"
  "mv_chunk (fold view_op (concat (map (seg_ops oid) xs)) v) = mv_chunk v"
  "mv_extent (fold view_op (concat (map (seg_ops oid) xs)) v) = put_extents oid xs (mv_extent v)"
  by (induction xs arbitrary: v) (simp_all add: seg_ops_def put_extents_def)

lemma put_extents_other: "fst k \<noteq> oid \<or> snd k \<notin> fst ` set xs \<Longrightarrow> put_extents oid xs m k = m k"
  by (induction xs arbitrary: m) (auto simp: put_extents_def)

lemma put_extents_mem: "distinct (map fst xs) \<Longrightarrow> x \<in> set xs \<Longrightarrow> put_extents oid xs m (oid, fst x) = Some (snd x)"
proof (induction xs arbitrary: m)
  case (Cons y ys)
  have step: "put_extents oid (y # ys) m = put_extents oid ys (m((oid, fst y) \<mapsto> snd y))" by (simp add: put_extents_def)
  show ?case
  proof (cases "x \<in> set ys")
    case True
    then show ?thesis using Cons by (simp add: step)
  next
    case False
    then have "x = y" "fst y \<notin> fst ` set ys" using Cons.prems by auto
    then show ?thesis using put_extents_other [of "(oid, fst y)" oid ys] by (simp add: step)
  qed
qed simp

text \<open>Extents appended to an object.\<close>

lemma append_view:
  assumes ok: "objects_ok no v" and p: "validate_object_path p" "mv_path v p = Some oid" "mv_attrs v oid = Some a"
    and le: "chunks_le (mv_chunk v) (mv_chunk v')" and al: "aligned (mv_chunk v)" and fr: "\<forall>i \<in> frontier (mv_chunk v). d' i = d i"
    and xs: "tiles (unat (oa_size a)) xs (unat (oa_size a1))" "\<forall>x \<in> set xs. extent_in (mv_chunk v') (snd x)"
      "content d' (mv_chunk v') xs = data"
    and a1: "oa_object_id a1 = oid"
    and v': "mv_path v' = mv_path v" "mv_attrs v' = (mv_attrs v)(oid \<mapsto> a1)" "mv_extent v' = put_extents oid xs (mv_extent v)"
  shows "objects_ok no v'" and "objects d' v' = (objects d v)(p \<mapsto> content d (mv_chunk v) (extents_of v oid) @ data)"
proof -
  have ob: "oid < no" "tiles 0 (extents_of v oid) (unat (oa_size a))" "\<forall>x \<in> set (extents_of v oid). extent_in (mv_chunk v) (snd x)"
    using objects_okD(1) [OF ok p(3)] by (auto simp: object_ok_def)
  have ds: "distinct (map fst xs)" using tiles_sorted [OF xs(1)] by simp
  have new: "fst x \<noteq> fst y" if "x \<in> set (extents_of v oid)" "y \<in> set xs" for x y
    using tiles_bounds [OF ob(2) that(1)] tiles_bounds [OF xs(1) that(2)] by auto
  have ti: "tiles 0 (extents_of v oid @ xs) (unat (oa_size a1))" using ob(2) xs(1) by (auto simp: tiles_append)
  have "mv_extent v' (oid, off) = Some e \<longleftrightarrow> (off, e) \<in> set (extents_of v oid @ xs)" for off e
  proof (cases "off \<in> fst ` set xs")
    case True
    then obtain e' where e': "(off, e') \<in> set xs" by force
    have "mv_extent v' (oid, off) = Some e'" using put_extents_mem [OF ds e', of oid] by (simp add: v'(3))
    moreover have "e = e'" if "(off, e) \<in> set xs" using ds e' that by (metis eq_key_imp_eq_value)
    moreover have "(off, e) \<notin> set (extents_of v oid)" using new e' by force
    ultimately show ?thesis using e' by auto
  next
    case False
    then have "mv_extent v' (oid, off) = mv_extent v (oid, off)" by (simp add: v'(3) put_extents_other)
    moreover have "(off, e) \<notin> set xs" using False by force
    ultimately show ?thesis by (simp add: extents_of_set)
  qed
  then have ex: "extents_of v' oid = extents_of v oid @ xs" by (intro extents_of_eq [OF ti]) auto
  have ex': "extents_of v' i = extents_of v i" if "i \<noteq> oid" for i
    by (rule extents_of_cong) (simp add: v'(3) put_extents_other that)
  have cf: "content d' (mv_chunk v') (extents_of v i) = content d (mv_chunk v) (extents_of v i)" if "mv_attrs v i = Some b" for i b
    using objects_okD(1) [OF ok that] by (intro content_frame [OF _ al le fr]) (simp add: object_ok_def)
  have "object_ok v' oid a1" using a1 ti ex ob(3) xs(2) extent_in_mono [OF le] by (auto simp: object_ok_def)
  moreover have "object_ok v' i b" if "object_ok v i b" "i \<noteq> oid" for i b
    using that extent_in_mono [OF le] ex' by (auto simp: object_ok_def)
  moreover have "mv_attrs v' i \<noteq> None" if "mv_extent v' (i, off) = Some e" for i off e
    using that objects_okD(2) [OF ok, of i off e] by (cases "i = oid") (auto simp: v' put_extents_other)
  moreover have "mv_attrs v' i \<noteq> None" if "validate_object_path q" "mv_path v' q = Some i" for q i
    using that objects_okD(3) [OF ok, of q i] by (simp add: v')
  moreover have "q = q'" if "validate_object_path q" "validate_object_path q'" "mv_path v' q = Some i" "mv_path v' q' = Some i" for q q' i
    using that objects_okD(4) [OF ok, of q q' i] by (simp add: v')
  ultimately show "objects_ok no v'"
    using objects_okD(1) [OF ok] ob(1) unfolding objects_ok_def v'(2) by (metis fun_upd_apply option.sel)
  show "objects d' v' = (objects d v)(p \<mapsto> content d (mv_chunk v) (extents_of v oid) @ data)"
  proof
    fix q
    show "objects d' v' q = ((objects d v)(p \<mapsto> content d (mv_chunk v) (extents_of v oid) @ data)) q"
    proof (cases "q = p")
      case True
      have "content d' (mv_chunk v') (extents_of v oid @ xs) = content d (mv_chunk v) (extents_of v oid) @ data"
        using cf [OF p(3)] xs(3) by (simp add: content_def)
      then show ?thesis using True p by (simp add: objects_def v' ex)
    next
      case False
      show ?thesis
      proof (cases "validate_object_path q \<and> mv_path v q \<noteq> None")
        case True
        then obtain i where i: "mv_path v q = Some i" by auto
        then have "i \<noteq> oid" using objects_okD(4) [OF ok _ p(1) _ p(2), of q] True False by auto
        then show ?thesis using False i True cf [of i] ex' by (auto simp: objects_def v' split: option.splits)
      qed (use False in \<open>auto simp: objects_def v'\<close>)
    qed
  qed
qed

text \<open>A new object.\<close>

lemma create_view:
  assumes ok: "objects_ok no v" and p: "validate_object_path p" and a: "oa_object_id a = no" "oa_size a = 0" and no: "no < no + 1"
  defines "v' \<equiv> view_op (PutPath p no) (view_op (PutAttrs a) v)"
  shows "objects_ok (no + 1) v'" and "objects d v' = (objects d v)(p \<mapsto> [])"
proof -
  have fresh: "mv_attrs v no = None" using objects_okD(1) [OF ok, of no] by (cases "mv_attrs v no") auto
  then have noext: "mv_extent v (no, off) = None" for off using objects_okD(2) [OF ok, of no off] by (cases "mv_extent v (no, off)") auto
  have v': "mv_path v' = (mv_path v)(p \<mapsto> no)" "mv_attrs v' = (mv_attrs v)(no \<mapsto> a)" "mv_extent v' = mv_extent v" "mv_chunk v' = mv_chunk v"
    using a(1) by (simp_all add: v'_def)
  have ext: "extents_of v' oid = extents_of v oid" for oid by (rule extents_of_cong) (simp add: v')
  have e0: "extents_of v no = []" by (simp add: extents_of_def noext)
  have np: "mv_path v q \<noteq> Some no" if "validate_object_path q" for q using objects_okD(3) [OF ok that, of no] fresh by auto
  show "objects_ok (no + 1) v'"
    unfolding objects_ok_def
  proof (intro conjI allI impI)
    fix oid b assume b: "mv_attrs v' oid = Some b"
    show "oid < no + 1" "object_ok v' oid b"
      using b objects_okD(1) [OF ok, of oid b] a no e0 by (auto simp: v' object_ok_def ext split: if_splits)
  next
    fix oid off e assume "mv_extent v' (oid, off) = Some e"
    then show "mv_attrs v' oid \<noteq> None" using objects_okD(2) [OF ok] by (simp add: v')
  next
    fix q oid assume "validate_object_path q \<and> mv_path v' q = Some oid"
    then show "mv_attrs v' oid \<noteq> None" using objects_okD(3) [OF ok, of q oid] by (auto simp: v' split: if_splits)
  next
    fix q q' oid
    assume "validate_object_path q \<and> validate_object_path q' \<and> mv_path v' q = Some oid \<and> mv_path v' q' = Some oid"
    then show "q = q'" using objects_okD(4) [OF ok, of q q' oid] np [of q] np [of q'] by (auto simp: v' split: if_splits)
  qed
  show "objects d v' = (objects d v)(p \<mapsto> [])"
  proof
    fix q
    show "objects d v' q = ((objects d v)(p \<mapsto> [])) q"
      using p e0 np [of q] by (auto simp: objects_def v' ext content_def split: option.splits)
  qed
qed

section \<open>The operations\<close>

definition stage_active_ops :: "chunk option \<Rightarrow> meta_op list" where
  "stage_active_ops act = (case act of None \<Rightarrow> [] | Some c \<Rightarrow> [PutChunk c])"

lemma eff_chunk_simps [simp]: "eff_chunk None pc = pc" "eff_chunk (Some a) pc = pc(ck_chunk_id a \<mapsto> a)"
  by (auto simp: eff_chunk_def fun_eq_iff)

lemma stage_active_view:
  "mv_path (fold view_op (stage_active_ops act) v) = mv_path v" "mv_attrs (fold view_op (stage_active_ops act) v) = mv_attrs v"
  "mv_extent (fold view_op (stage_active_ops act) v) = mv_extent v" "mv_chunk (fold view_op (stage_active_ops act) v) = eff_chunk act (mv_chunk v)"
  by (simp_all add: stage_active_ops_def split: option.splits)

lemma chunk_area_eff: "engine_ok L F nc pc act \<Longrightarrow> chunk_area (eff_chunk act pc) \<subseteq> chunk_area pc"
proof (cases act)
  case (Some a)
  assume eo: "engine_ok L F nc pc act"
  obtain c where "pc (ck_chunk_id a) = Some c" "ck_lba_start c = ck_lba_start a" using engine_okD(4) [OF eo Some] by blast
  then have "chunk_blocks a \<subseteq> chunk_area pc" using chunk_area_mem [of pc "ck_chunk_id a" c] by (simp add: chunk_blocks_def)
  then show ?thesis using chunk_area_upd [of pc "ck_chunk_id a" a] Some by auto
qed simp

lemma engine_ok_commit: "engine_ok L F nc pc act \<Longrightarrow> engine_ok L F nc (eff_chunk act pc) act"
proof (cases act)
  case (Some a)
  assume eo: "engine_ok L F nc pc act"
  obtain c where c: "pc (ck_chunk_id a) = Some c" "ck_lba_start c = ck_lba_start a" using engine_okD(4) [OF eo Some] by blast
  have "engine_ok L F nc (pc(ck_chunk_id a \<mapsto> a)) act"
    using c engine_okD(3) [OF eo Some] Some by (intro engine_ok_upd [OF eo c(1)]) auto
  then show ?thesis using Some by simp
qed simp

context objstore_env
begin

text \<open>What an operation leaves alone: every block outside the bitmap that was neither free nor part of a chunk.\<close>

abbreviation oframe :: "nebula_layout \<Rightarrow> ('d, 'db) objstore \<Rightarrow> ('d, 'db) objstore \<Rightarrow> bool" where
  "oframe L st st' \<equiv> mount_next L (os_mount st) (os_mount st')
     \<and> frees st' \<union> chunk_area (mv_chunk (vw st')) \<subseteq> frees st \<union> chunk_area (mv_chunk (vw st))
     \<and> (\<forall>i. (i < 131 \<or> 131 + unat (lay_bitmap_block_count L) \<le> i) \<and> i \<notin> frees st \<union> chunk_area (mv_chunk (vw st))
          \<longrightarrow> mdisk (os_mount st') i = mdisk (os_mount st) i)"

lemma oframe_refl: "oinv L st \<Longrightarrow> oframe L st st"
  using mount_next_refl [of L "os_mount st"] by simp

lemma mv_aligned: "eok L st \<Longrightarrow> aligned (mv_chunk (vw st))"
proof -
  assume ok: "eok L st"
  show ?thesis using engine_okD(1) [OF conjunct2 [OF conjunct2 [OF ok]]] by (auto simp: aligned_def chunk_ok_def)
qed

lemma object_create_ok:
  assumes inv: "oinv L st" and room: "unat (ms_next_object_id (os_meta st)) + 1 < 2 ^ 64"
    and cr: "object_create R st p now = (s, st')"
  shows "oinv L st' \<and> oframe L st st' \<and> os_mount st' = os_mount st \<and> os_active st' = os_active st"
    and "s = OK \<Longrightarrow> validate_object_path p \<and> obj st' = (obj st)(p \<mapsto> [])"
    and "s \<noteq> OK \<Longrightarrow> obj st' = obj st \<or> s = ERROR_METADATA \<and> obj st' = (obj st)(p \<mapsto> [])"
    and "s = ERROR_INVALID_ARGUMENT \<longleftrightarrow> \<not> validate_object_path p"
    and "s = ERROR_ALREADY_EXISTS \<Longrightarrow> obj st p \<noteq> None"
    and "rocksdb_live R kv \<Longrightarrow> s = (if \<not> validate_object_path p then ERROR_INVALID_ARGUMENT
           else if obj st p \<noteq> None then ERROR_ALREADY_EXISTS else OK)"
proof -
  let ?no = "ms_next_object_id (os_meta st)"
  note ty = conjunct1 [OF conjunct2 [OF conjunct1 [OF inv]]] and oo = conjunct2 [OF inv]
  have inc: "?no < ?no + 1" using room by (simp add: word_less_nat_alt unat_plus_if_small)
  have grow: "objects_ok (?no + 1) (vw st)" using oo inc unfolding objects_ok_def by (meson order.strict_trans)
  have ex: "obj st p \<noteq> None \<longleftrightarrow> mv_path (vw st) p \<noteq> None" if "validate_object_path p"
    using that objects_okD(3) [OF oo that] by (auto simp: objects_def split: option.splits)
  have "oinv L st' \<and> os_mount st' = os_mount st \<and> os_active st' = os_active st \<and> mv_chunk (vw st') = mv_chunk (vw st)
    \<and> (s = OK \<and> validate_object_path p \<and> obj st' = (obj st)(p \<mapsto> [])
       \<or> s = ERROR_METADATA \<and> validate_object_path p \<and> \<not> rocksdb_live R kv \<and> (obj st' = obj st \<or> obj st' = (obj st)(p \<mapsto> []))
       \<or> s = ERROR_INVALID_ARGUMENT \<and> \<not> validate_object_path p \<and> obj st' = obj st
       \<or> s = ERROR_ALREADY_EXISTS \<and> validate_object_path p \<and> obj st p \<noteq> None \<and> obj st' = obj st)
    \<and> (s = OK \<and> rocksdb_live R kv \<longrightarrow> obj st p = None)"
  proof (cases "validate_object_path p")
    case False
    then show ?thesis using cr inv by (auto simp: object_create_def)
  next
    case v: True
    show ?thesis
    proof (cases "path_exists R (os_meta st) p")
      case True
      then have "s = ERROR_ALREADY_EXISTS" "st' = st" using cr v by (auto simp: object_create_def)
      then show ?thesis using inv v ex path_exists_view [OF ty True] by simp
    next
      case False
      have none: "obj st p = None" if "rocksdb_live R kv" using rocksdb_live.reads_live(4) [OF that ty, of p] False ex v by simp
      obtain s1 oid ms1 where ai: "allocate_object_id R (os_meta st) = (s1, oid, ms1)" by (rule prod_cases3)
      note ac = allocate_object_id_cases [OF ai] and av = allocate_ids_view [of "os_meta st" s1 oid ms1, OF disjI1, OF ai]
      show ?thesis
      proof (cases "s1 = OK")
        case False
        then have "s = ERROR_METADATA" "st' = st\<lparr>os_meta := ms1\<rparr>" using cr v \<open>\<not> path_exists R (os_meta st) p\<close> ai ac(4) by (auto simp: object_create_def)
        moreover have "\<not> rocksdb_live R kv" using rocksdb_live.allocate_live(1) [of R kv "os_meta st"] ai False by auto
        ultimately show ?thesis using inv v grow av ac by simp
      next
        case True
        define a where "a = \<lparr>oa_object_id = oid, oa_size = 0, oa_ctime_ns = now, oa_mtime_ns = now, oa_version = 1, oa_num_extents = 0\<rparr>"
        obtain ms2 where cm: "metadata_commit R ms1 (batch_of [PutAttrs a, PutPath p oid]) = (s, ms2)" and st': "st' = st\<lparr>os_meta := ms2\<rparr>"
          using cr v False ai True by (auto simp: object_create_def Let_def a_def batch_of_def split: prod.splits)
        note cc = commit_cases [OF cm] and cv = commit_view [OF cm]
        have a: "oa_object_id a = ?no" "oa_size a = 0" using ac(1) by (simp_all add: a_def)
        note new = create_view [OF oo v a inc]
        have vw': "vw st' = view_op (PutPath p ?no) (view_op (PutAttrs a) (vw st)) \<or> s \<noteq> OK \<and> vw st' = vw st"
          using cv(1) av(1) ac(1) by (simp add: st')
        then have r: "objects_ok (?no + 1) (vw st')" "obj st' = (obj st)(p \<mapsto> []) \<or> s \<noteq> OK \<and> obj st' = obj st" "mv_chunk (vw st') = mv_chunk (vw st)"
          using new grow by (auto simp: st' simp del: view_op.simps) (simp_all add: a(1))
        have "\<not> rocksdb_live R kv" if "s \<noteq> OK" using rocksdb_live.commit_live [of R kv ms1] cm that by (metis fst_conv)
        then show ?thesis using r inv v cc(1,3,4) cv(2) av(2) ac(1-3) none by (auto simp: st')
      qed
    qed
  qed
  then show "oinv L st' \<and> oframe L st st' \<and> os_mount st' = os_mount st \<and> os_active st' = os_active st"
    and "s = OK \<Longrightarrow> validate_object_path p \<and> obj st' = (obj st)(p \<mapsto> [])"
    and "s \<noteq> OK \<Longrightarrow> obj st' = obj st \<or> s = ERROR_METADATA \<and> obj st' = (obj st)(p \<mapsto> [])"
    and "s = ERROR_INVALID_ARGUMENT \<longleftrightarrow> \<not> validate_object_path p"
    and "s = ERROR_ALREADY_EXISTS \<Longrightarrow> obj st p \<noteq> None"
    and "rocksdb_live R kv \<Longrightarrow> s = (if \<not> validate_object_path p then ERROR_INVALID_ARGUMENT
           else if obj st p \<noteq> None then ERROR_ALREADY_EXISTS else OK)"
    using oframe_refl [OF inv] by auto
qed

text \<open>A write step before the commit changes no object.\<close>

lemma wstep_objects:
  assumes inv: "oinv L st" and w: "wstep L st st'"
  shows "oinv L st'" and "obj st' = obj st" and "oframe L st st'"
proof -
  note ok = conjunct1 [OF inv]
  have fr: "\<forall>i \<in> frontier (mv_chunk (vw st)). mdisk (os_mount st') i = mdisk (os_mount st) i"
  proof
    fix i assume "i \<in> frontier (mv_chunk (vw st))"
    then have "i \<in> frontier (eff st)" using frontier_mono [OF chunks_le_eff [OF conjunct2 [OF conjunct2 [OF ok]]]] by blast
    then show "mdisk (os_mount st') i = mdisk (os_mount st) i" using w eff_frontier [OF ok] by blast
  qed
  have same: "same_objects (vw st) (vw st')" and le: "chunks_le (mv_chunk (vw st)) (mv_chunk (vw st'))" using w by blast+
  note g = grow_view [OF conjunct2 [OF inv] same le mv_aligned [OF ok] fr]
  show "oinv L st'" using w g(1) by simp
  show "obj st' = obj st" by (rule g(2))
  show "oframe L st st'" using w by blast
qed

lemma wstep_only_io:
  assumes w: "wstep L st st1" and o: "only_io L st1 st2" and d: "mdisk (os_mount st2) = mdisk (os_mount st1)"
  shows "wstep L st st2"
proof -
  have "mount_next L (os_mount st) (os_mount st2)" using mount_next_trans w o by blast
  then show ?thesis using w o d by simp
qed

text \<open>The commit that ends a write.\<close>

lemma write_commit:
  assumes inv: "oinv L st" and p: "validate_object_path p" "mv_path (vw st) p = Some oid" "mv_attrs (vw st) oid = Some a"
    and xs: "tiles (unat (oa_size a)) xs (unat (oa_size a1))" "\<forall>x \<in> set xs. extent_in (eff st) (snd x)"
      "content (mdisk (os_mount st)) (eff st) xs = data" and a1: "oa_object_id a1 = oid"
    and cm: "metadata_commit R (os_meta st) (batch_of (concat (map (seg_ops oid) xs) @ PutAttrs a1 # stage_active_ops (os_active st))) = (s, ms')"
  defines "st' \<equiv> st\<lparr>os_meta := ms'\<rparr>"
  shows "oinv L st' \<and> oframe L st st'" and "s \<in> {OK, ERROR_METADATA}"
    and "(\<exists>bs. obj st p = Some bs \<and> obj st' = (obj st)(p \<mapsto> bs @ data)) \<or> s \<noteq> OK \<and> obj st' = obj st"
    and "next_chunk st' = next_chunk st" "ms_next_object_id (os_meta st') = ms_next_object_id (os_meta st)"
proof -
  note ok = conjunct1 [OF inv] and oo = conjunct2 [OF inv]
  note eo = conjunct2 [OF conjunct2 [OF ok]]
  note cc = commit_cases [OF cm] and cv = commit_view [OF cm]
  define v' where "v' = fold view_op (concat (map (seg_ops oid) xs) @ PutAttrs a1 # stage_active_ops (os_active st)) (vw st)"
  have f: "mv_path v' = mv_path (vw st)" "mv_attrs v' = (mv_attrs (vw st))(oid \<mapsto> a1)" "mv_extent v' = put_extents oid xs (mv_extent (vw st))"
      "mv_chunk v' = eff st"
    using a1 by (simp_all add: v'_def seg_ops_view stage_active_view)
  have le: "chunks_le (mv_chunk (vw st)) (mv_chunk v')" unfolding f(4) by (rule chunks_le_eff [OF eo])
  note ap = append_view [OF oo p le mv_aligned [OF ok] _ xs(1) xs(2) [folded f(4)] xs(3) [folded f(4)] a1 f(1-3), of "mdisk (os_mount st)"]
  have vw': "vw st' = v' \<or> s \<noteq> OK \<and> vw st' = vw st" using cv(1) by (simp add: st'_def v'_def)
  have "engine_ok L (frees st') (next_chunk st') (mv_chunk (vw st')) (os_active st')"
    using vw' eo engine_ok_commit [OF eo] cc(4) f(4) by (auto simp: st'_def)
  moreover have "objects_ok (ms_next_object_id (os_meta st')) (vw st')" using vw' oo ap(1) cc(3) by (auto simp: st'_def)
  moreover have "frees st' \<union> chunk_area (mv_chunk (vw st')) \<subseteq> frees st \<union> chunk_area (mv_chunk (vw st))"
    using vw' chunk_area_eff [OF eo] f(4) by (auto simp: st'_def)
  ultimately show "oinv L st' \<and> oframe L st st'" using ok cv(2) mount_next_refl [OF conjunct1 [OF ok]] by (simp add: st'_def)
  show "s \<in> {OK, ERROR_METADATA}" by (rule cc(1))
  show "next_chunk st' = next_chunk st" "ms_next_object_id (os_meta st') = ms_next_object_id (os_meta st)" using cc(3,4) by (simp_all add: st'_def)
  have "obj st p = Some (content (mdisk (os_mount st)) (mv_chunk (vw st)) (extents_of (vw st) oid))" using p by (simp add: objects_def)
  moreover have "obj st' = objects (mdisk (os_mount st)) (vw st')" by (simp add: st'_def)
  ultimately show "(\<exists>bs. obj st p = Some bs \<and> obj st' = (obj st)(p \<mapsto> bs @ data)) \<or> s \<noteq> OK \<and> obj st' = obj st"
    using vw' ap(2) by auto
qed

text \<open>The outcome of appending \<open>data\<close> to the object at \<open>p\<close>.\<close>

abbreviation appended :: "('d, 'db) objstore \<Rightarrow> byte list \<Rightarrow> byte list \<Rightarrow> ('d, 'db) objstore \<Rightarrow> bool" where
  "appended st p data st' \<equiv> \<exists>bs. obj st p = Some bs \<and> obj st' = (obj st)(p \<mapsto> bs @ data)"

abbreviation write_outcome :: "nebula_layout \<Rightarrow> ('d, 'db) objstore \<Rightarrow> byte list \<Rightarrow> byte list \<Rightarrow> status \<Rightarrow> ('d, 'db) objstore \<Rightarrow> bool" where
  "write_outcome L st p data s st' \<equiv> oinv L st' \<and> oframe L st st'
     \<and> unat (next_chunk st') \<le> unat (next_chunk st) + length data \<and> ms_next_object_id (os_meta st') = ms_next_object_id (os_meta st)
     \<and> (s = OK \<and> appended st p data st'
        \<or> s = ERROR_METADATA \<and> (appended st p data st' \<or> obj st' = obj st) \<and> \<not> (rocksdb_live R kv \<and> mup (os_mount st))
        \<or> s = ERROR_IO_FAILURE \<and> obj st' = obj st \<and> \<not> (rocksdb_live R kv \<and> mup (os_mount st))
        \<or> s = ERROR_NO_SPACE \<and> obj st' = obj st)"

text \<open>The stages at which a write on a known object can end: in the loop, at the flush, or with the commit.\<close>

lemma object_write_stages:
  assumes p: "validate_object_path p" "path_lookup R (os_meta st) p = Inr oid" "get_attrs R (os_meta st) oid = Inr a"
    and d: "data \<noteq> []" "length data < 2 ^ 32" and wr: "object_write R st p data now = (s, st')"
    and wl: "write_loop R st oid data 0 (length data) (oa_size a) 0 [] = (q, st1)"
    and fl: "nebula_io_flush (m_io (os_mount st1)) = (r, io')"
    and xs: "\<forall>added batch. q = Inr (added, batch) \<longrightarrow> batch = batch_of (concat (map (seg_ops oid) xs))"
  defines "st2 \<equiv> st1\<lparr>os_mount := (os_mount st1)\<lparr>m_io := io'\<rparr>\<rparr>"
  obtains (loop) "q = Inl s" and "st' = st1"
    | (flush) ab e where "q = Inr ab" and "r = Inl e" and "s = ERROR_IO_FAILURE" and "st' = st2"
    | (commit) ab u a1 ms' where "q = Inr ab" and "r = Inr u" and "oa_object_id a1 = oa_object_id a"
        and "oa_size a1 = oa_size a + of_nat (length data)"
        and "metadata_commit R (os_meta st2) (batch_of (concat (map (seg_ops oid) xs) @ PutAttrs a1 # stage_active_ops (os_active st2))) = (s, ms')"
        and "st' = st2\<lparr>os_meta := ms'\<rparr>"
proof (cases q)
  case (Inl e)
  then show ?thesis using wr p d wl by (intro loop) (auto simp: object_write_def)
next
  case (Inr ab)
  obtain added batch where ab: "ab = (added, batch)" by (cases ab)
  show ?thesis
  proof (cases r)
    case (Inl e)
    then show ?thesis using wr p d wl Inr ab fl by (intro flush [OF Inr Inl]) (auto simp: object_write_def Let_def st2_def)
  next
    case r: (Inr u)
    define a1 where "a1 = a\<lparr>oa_size := oa_size a + of_nat (length data), oa_version := oa_version a + 1,
        oa_mtime_ns := now, oa_num_extents := oa_num_extents a + added\<rparr>"
    have "batch = batch_of (concat (map (seg_ops oid) xs))" using xs Inr ab by simp
    then have bt: "stage_active_chunk st2 (batch_put_attrs batch a1) = batch_of (concat (map (seg_ops oid) xs) @ PutAttrs a1 # stage_active_ops (os_active st2))"
      by (simp add: stage_active_chunk_def stage_active_ops_def batch_of_entries batch_put_attrs_def batch_put_chunk_def split: option.splits)
    obtain ms' where "metadata_commit R (os_meta st2) (batch_of (concat (map (seg_ops oid) xs) @ PutAttrs a1 # stage_active_ops (os_active st2))) = (s, ms')"
        "st' = st2\<lparr>os_meta := ms'\<rparr>"
      using wr p d wl Inr ab fl r bt [symmetric] by (auto simp: object_write_def Let_def st2_def a1_def split: prod.splits)
    then show ?thesis by (intro commit [OF Inr r, of a1 ms']) (simp_all add: a1_def)
  qed
qed

lemma write_object:
  assumes inv: "oinv L st" and p: "validate_object_path p" "mv_path (vw st) p = Some oid" "mv_attrs (vw st) oid = Some a"
    and b: "unat (next_chunk st) + length data < 2 ^ 32" "unat (oa_size a) + length data < 2 ^ 64" and ne: "data \<noteq> []"
    and lk: "path_lookup R (os_meta st) p = Inr oid" "get_attrs R (os_meta st) oid = Inr a"
    and wr: "object_write R st p data now = (s, st')"
  shows "write_outcome L st p data s st'"
proof -
  have oid: "oa_object_id a = oid" using objects_okD(1) [OF conjunct2 [OF inv] p(3)] by (simp add: object_ok_def)
  obtain q st1 where wl: "write_loop R st oid data 0 (length data) (oa_size a) 0 [] = (q, st1)" by (rule prod.exhaust)
  have sz: "0 + length data = length data" "length data < 2 ^ 32" using b by simp_all
  note lo = write_loop_ok [OF conjunct1 [OF inv] b(1) sz(1) b(2) wl]
  obtain xs where xs: "\<forall>added batch. q = Inr (added, batch) \<longrightarrow> batch = batch_of (concat (map (seg_ops oid) xs))"
      "\<And>ab. q = Inr ab \<Longrightarrow> tiles (unat (oa_size a)) xs (unat (oa_size a) + length data) \<and> (\<forall>x \<in> set xs. extent_in (eff st1) (snd x))
         \<and> content (mdisk (os_mount st1)) (eff st1) xs = data"
    using lo by (cases q) auto
  obtain r io' where fl: "nebula_io_flush (m_io (os_mount st1)) = (r, io')" by (rule prod.exhaust)
  define st2 where "st2 = st1\<lparr>os_mount := (os_mount st1)\<lparr>m_io := io'\<rparr>\<rparr>"
  note inv1 = conjunct1 [OF conjunct1 [OF conjunct1 [OF lo]]]
  note ff = io_flush_frame [OF mount_inv_okio [OF inv1] fl]
  have io2: "only_io L st1 st2" "mdisk (os_mount st2) = mdisk (os_mount st1)"
    using mount_set_io [OF inv1 ff(1)] ff(2) by (simp_all add: st2_def)
  have w2: "wstep L st st2" by (rule wstep_only_io [OF conjunct1 [OF lo] io2])
  note o2 = wstep_objects [OF inv w2]
  have nx: "unat (next_chunk st2) \<le> unat (next_chunk st) + length data" "ms_next_object_id (os_meta st2) = ms_next_object_id (os_meta st)"
    using lo w2 by (simp_all add: st2_def)
  show ?thesis
  proof (cases rule: object_write_stages [OF p(1) lk ne sz(2) wr wl fl xs(1)])
    case 1
    then show ?thesis using wstep_objects [OF inv conjunct1 [OF lo]] lo by auto
  next
    case flush: (2 ab e)
    have "mup (os_mount st) \<Longrightarrow> mup (os_mount st1)" using mount_next_up lo by blast
    then have "\<not> mup (os_mount st)" using ff(3) flush(2) by auto
    then show ?thesis using o2 nx flush(3,4) by (simp add: st2_def [symmetric])
  next
    case commit: (3 ab u a1 ms')
    note cm = commit(5) [folded st2_def] and st' = commit(6) [folded st2_def]
    have v2: "mv_path (vw st2) p = Some oid" "mv_attrs (vw st2) oid = Some a" using w2 p by (simp_all add: same_objects_def)
    have "unat (oa_size a1) = unat (oa_size a) + length data" using b(2) commit(4) by (simp add: unat_of_nat unat_word_ariths)
    then have x2: "tiles (unat (oa_size a)) xs (unat (oa_size a1))" "\<forall>x \<in> set xs. extent_in (eff st2) (snd x)"
        "content (mdisk (os_mount st2)) (eff st2) xs = data"
      using xs(2) [OF commit(1)] io2 by simp_all
    note wc = write_commit [OF o2(1) p(1) v2 x2 commit(3) [unfolded oid] cm, folded st']
    have live: "\<not> rocksdb_live R kv" if "s \<noteq> OK"
      using rocksdb_live.commit_live [of R kv "os_meta st2"] cm that by (metis fst_conv)
    have "mount_next L (os_mount st) (os_mount st')" using mount_next_trans o2(3) wc(1) by blast
    moreover have "frees st' \<union> chunk_area (mv_chunk (vw st')) \<subseteq> frees st \<union> chunk_area (mv_chunk (vw st))"
      using o2(3) wc(1) by (meson order.trans)
    ultimately have "oframe L st st'" using o2(3) by (simp add: st')
    then show ?thesis using wc o2(2) nx live by auto
  qed
qed

lemma object_write_ok:
  assumes inv: "oinv L st" and b: "unat (next_chunk st) + length data < 2 ^ 32" "\<forall>bs. obj st p = Some bs \<longrightarrow> length bs + length data < 2 ^ 64"
    and wr: "object_write R st p data now = (s, st')"
  shows "write_outcome L st p data s st' \<and> validate_object_path p \<and> (obj st p \<noteq> None \<or> s = ERROR_METADATA)
    \<or> st' = st \<and> (s = ERROR_INVALID_ARGUMENT \<and> \<not> validate_object_path p
        \<or> s = ERROR_NOT_FOUND \<and> validate_object_path p \<and> obj st p = None)"
proof (cases "validate_object_path p")
  case False
  then show ?thesis using wr by (auto simp: object_write_def)
next
  case v: True
  note fo = find_object [OF inv v]
  from fo(1) consider (err) "path_lookup R (os_meta st) p = Inl ERROR_METADATA"
    | (none) "path_lookup R (os_meta st) p = Inl ERROR_NOT_FOUND" "obj st p = None"
    | (found) oid a where "path_lookup R (os_meta st) p = Inr oid" "mv_path (vw st) p = Some oid" "mv_attrs (vw st) oid = Some a"
        "get_attrs R (os_meta st) oid \<in> {Inl ERROR_METADATA, Inr a}"
        "obj st p = Some (content (mdisk (os_mount st)) (mv_chunk (vw st)) (extents_of (vw st) oid))" by (elim disjE exE conjE)
  then show ?thesis
  proof cases
    case err
    then show ?thesis using wr v inv oframe_refl [OF inv] fo(2) by (auto simp: object_write_def)
  next
    case none
    then show ?thesis using wr v by (auto simp: object_write_def)
  next
    case found
    show ?thesis
    proof (cases "get_attrs R (os_meta st) oid = Inr a")
      case False
      then have "s = ERROR_METADATA" "st' = st" "\<not> rocksdb_live R kv" using wr v found(1,4) fo(2) by (auto simp: object_write_def)
      then show ?thesis using v inv oframe_refl [OF inv] by simp
    next
      case at: True
      show ?thesis
      proof (cases "data = []")
        case True
        then have "s = OK" "st' = st" using wr v found(1) at by (auto simp: object_write_def)
        then show ?thesis using v inv oframe_refl [OF inv] found(5) True by auto
      next
        case False
        have "object_ok (vw st) oid a" using objects_okD(1) [OF conjunct2 [OF inv] found(3)] by simp
        then have "unat (oa_size a) + length data < 2 ^ 64"
          using b(2) found(5) content_length [of 0 "extents_of (vw st) oid" "unat (oa_size a)" "mv_chunk (vw st)" "mdisk (os_mount st)"]
          by (simp add: object_ok_def)
        then show ?thesis using write_object [OF inv v found(2,3) b(1) _ False found(1) at wr] v found(5) by blast
      qed
    qed
  qed
qed

end

end
