(* ===== verification/Objstore_Meta_Correct.thy ===== *)
theory Objstore_Meta_Correct
  imports Objstore_Iter "HOL-Library.RBT"
begin

text \<open>
  What the metadata store guarantees: batches refine the update of a typed view, range scans are exact,
  opening keeps the data and refuses other schema versions, and identifiers are never handed out twice,
  across failed writes and restarts.
\<close>

section \<open>A reference database\<close>

text \<open>An ordered map; the instance shows that the laws are satisfiable and evaluates the concrete cases.\<close>

type_synonym ref_db = "(byte list, byte list) rbt"

definition ref_put :: "byte list \<times> byte list \<Rightarrow> ref_db \<Rightarrow> ref_db" where
  "ref_put e db = RBT.insert (fst e) (snd e) db"

definition ref_rocksdb :: "ref_db rocksdb" where
  "ref_rocksdb =
     \<lparr>kv_get = (\<lambda>db k. case RBT.lookup db k of Some v \<Rightarrow> Found v | None \<Rightarrow> NotFound),
      kv_put = (\<lambda>db k v. (True, ref_put (k, v) db)),
      kv_write = (\<lambda>db wb. (True, fold ref_put wb db)),
      kv_entries = RBT.entries,
      kv_iter_ok = (\<lambda>db. True)\<rparr>"

lemma ref_put_lookup [simp]: "RBT.lookup (ref_put e db) = (RBT.lookup db)(fst e \<mapsto> snd e)"
  by (simp add: ref_put_def)

lemma ref_fold_lookup: "RBT.lookup (fold ref_put wb db) = RBT.lookup db ++ map_of (rev wb)"
proof (induction wb arbitrary: db)
  case (Cons e wb)
  then show ?case by (cases e) (auto simp: fun_eq_iff map_add_def split: option.splits)
qed simp

interpretation ref: rocksdb_live ref_rocksdb RBT.lookup
proof unfold_locales
  fix db :: ref_db
  show "sorted (map fst (kv_entries ref_rocksdb db)) \<and> distinct (map fst (kv_entries ref_rocksdb db))
      \<and> map_of (kv_entries ref_rocksdb db) = RBT.lookup db"
    by (simp add: ref_rocksdb_def RBT.sorted_entries RBT.distinct_entries RBT.map_of_entries)
qed (auto simp: ref_rocksdb_def ref_fold_lookup split: option.splits)

section \<open>Opening\<close>

definition opened_map :: "(byte list \<Rightarrow> byte list option) \<Rightarrow> u64 \<Rightarrow> u32 \<Rightarrow> byte list \<Rightarrow> byte list option" where
  "opened_map m no nc =
     (let m1 = (if m kKeyRootDir = None then m(kKeyRootDir \<mapsto> pod_to_string 8 (0 :: u64)) else m);
          m2 = (if m1 kKeySchema = None then m1(kKeySchema \<mapsto> pod_to_string 4 kSchemaVersion) else m1)
      in m2(kKeyNextObj \<mapsto> pod_to_string 8 no, kKeyNextChunk \<mapsto> pod_to_string 4 nc))"

definition counter_of :: "nat \<Rightarrow> byte list option \<Rightarrow> 'a::len word option" where
  "counter_of n v = (case v of None \<Rightarrow> Some 1 | Some b \<Rightarrow> string_to_pod n b)"

definition schema_ok :: "(byte list \<Rightarrow> byte list option) \<Rightarrow> bool" where
  "schema_ok m \<longleftrightarrow> (case m kKeySchema of None \<Rightarrow> True | Some v \<Rightarrow> string_to_pod 4 v = Some kSchemaVersion)"

context rocksdb_store
begin

lemma schema_check_cases:
  assumes "init_or_check_schema_locked R ms = (OK, ms')"
  shows "schema_ok (ms_map kv ms)" and "ms_next_object_id ms' = ms_next_object_id ms \<and> ms_next_chunk_id ms' = ms_next_chunk_id ms"
    and "ms_map kv ms' = (if ms_map kv ms kKeySchema = None then (ms_map kv ms)(kKeySchema \<mapsto> pod_to_string 4 kSchemaVersion) else ms_map kv ms)"
  using assms get_law [of "ms_db ms" kKeySchema]
  by (auto simp: init_or_check_schema_locked_def schema_ok_def split: kv_result.splits option.splits prod.splits if_splits
      dest!: put_law)

lemma persist_counters_cases:
  assumes "persist_counters_locked R ms = (OK, ms')"
  shows "ms_next_object_id ms' = ms_next_object_id ms \<and> ms_next_chunk_id ms' = ms_next_chunk_id ms
    \<and> ms_map kv ms' = (ms_map kv ms)(kKeyNextObj \<mapsto> pod_to_string 8 (ms_next_object_id ms), kKeyNextChunk \<mapsto> pod_to_string 4 (ms_next_chunk_id ms))"
  using assms by (auto simp: persist_counters_locked_def fun_eq_iff map_add_def split: prod.splits if_splits dest!: write_law)

lemma read_counters_cases:
  assumes "read_counters_locked R ms = (OK, ms')"
  shows "counter_of 8 (ms_map kv ms kKeyNextObj) = Some (ms_next_object_id ms')"
    and "counter_of 4 (ms_map kv ms kKeyNextChunk) = Some (ms_next_chunk_id ms')"
    and "ms_map kv ms' = (ms_map kv ms)(kKeyNextObj \<mapsto> pod_to_string 8 (ms_next_object_id ms'), kKeyNextChunk \<mapsto> pod_to_string 4 (ms_next_chunk_id ms'))"
  using assms get_law [of "ms_db ms" kKeyNextObj] get_law [of "ms_db ms" kKeyNextChunk]
  by (auto simp: read_counters_locked_def counter_of_def Let_def split: kv_result.splits option.splits dest!: persist_counters_cases)

lemma open_cases:
  assumes "metadata_open R (Some db) = (OK, Some ms)"
  shows "schema_ok (kv db)" and "counter_of 8 (kv db kKeyNextObj) = Some (ms_next_object_id ms)"
    and "counter_of 4 (kv db kKeyNextChunk) = Some (ms_next_chunk_id ms)"
    and "ms_map kv ms = opened_map (kv db) (ms_next_object_id ms) (ms_next_chunk_id ms)"
proof -
  define root where "root = (case kv_get R db kKeyRootDir of NotFound \<Rightarrow> kv_put R db kKeyRootDir (pod_to_string 8 (0 :: u64))
      | Found _ \<Rightarrow> (True, db) | KvError \<Rightarrow> (False, db))"
  obtain ok db1 where r: "root = (ok, db1)" by (cases root)
  define ms0 where "ms0 = \<lparr>ms_db = db1, ms_next_object_id = 1, ms_next_chunk_id = 1\<rparr>"
  obtain s ms1 where i: "init_or_check_schema_locked R ms0 = (s, ms1)" by fastforce
  have ok: "ok" and s: "s = OK" and rd: "read_counters_locked R ms1 = (OK, ms)"
    using assms i unfolding metadata_open_def Let_def option.case root_def [symmetric] r fst_conv snd_conv ms0_def [symmetric]
    by (auto split: if_splits prod.splits)
  have m1: "kv db1 = (if kv db kKeyRootDir = None then (kv db)(kKeyRootDir \<mapsto> pod_to_string 8 (0 :: u64)) else kv db)"
    using r ok get_law [of db kKeyRootDir] unfolding root_def
    by (auto split: kv_result.splits option.splits dest!: put_law)
  have k: "kv db1 k = kv db k" if "take 3 k = [0x63, 0x74, 0x3A]" for k using that m1 by auto
  note c = schema_check_cases [OF i [unfolded s]] and rc = read_counters_cases [OF rd]
  show "schema_ok (kv db)" using c(1) k by (simp add: ms0_def schema_ok_def)
  show "counter_of 8 (kv db kKeyNextObj) = Some (ms_next_object_id ms)" "counter_of 4 (kv db kKeyNextChunk) = Some (ms_next_chunk_id ms)"
    using rc(1,2) c(3) k by (simp_all add: ms0_def split: if_splits)
  show "ms_map kv ms = opened_map (kv db) (ms_next_object_id ms) (ms_next_chunk_id ms)"
    unfolding rc(3) c(3) opened_map_def Let_def by (simp add: ms0_def m1)
qed

end

lemma opened_view:
  "view_of (opened_map m no nc) = (if m kKeyRootDir = None then view_op (PutPath [0x2F] 0) (view_of m) else view_of m)"
  "meta_typed m \<Longrightarrow> meta_typed (opened_map m no nc)"
  using view_upd_op [of m "PutPath [0x2F] 0"] typed_upd [of m, OF _ op_entry_typed [of "PutPath [0x2F] 0"]]
  by (auto simp: opened_map_def Let_def view_upd_other typed_upd_other)

section \<open>Identifiers\<close>

datatype id_event = ObjectId u64 | ChunkId u32

text \<open>
  A run of a store that starts from an empty database: \<open>n\<close> calls so far, which handed out the identifiers \<open>ev\<close>.
  Every call may fail; the process may restart between any two of them.
\<close>

inductive meta_run :: "'db rocksdb \<Rightarrow> ('db \<Rightarrow> byte list \<Rightarrow> byte list option) \<Rightarrow> 'db metadata_store \<Rightarrow> nat \<Rightarrow> id_event list \<Rightarrow> bool"
  for R :: "'db rocksdb" and kv :: "'db \<Rightarrow> byte list \<Rightarrow> byte list option" where
  fresh: "kv db = Map.empty \<Longrightarrow> metadata_open R (Some db) = (OK, Some ms) \<Longrightarrow> meta_run R kv ms 0 []"
| object_id: "meta_run R kv ms n ev \<Longrightarrow> allocate_object_id R ms = (s, oid, ms')
    \<Longrightarrow> meta_run R kv ms' (Suc n) (if s = OK then ObjectId oid # ev else ev)"
| chunk_id: "meta_run R kv ms n ev \<Longrightarrow> allocate_chunk_id R ms = (s, cid, ms')
    \<Longrightarrow> meta_run R kv ms' (Suc n) (if s = OK then ChunkId cid # ev else ev)"
| chunk_record: "meta_run R kv ms n ev \<Longrightarrow> put_chunk R ms c = (s, ms') \<Longrightarrow> meta_run R kv ms' (Suc n) ev"
| batch: "meta_run R kv ms n ev \<Longrightarrow> metadata_commit R ms (batch_of ops) = (s, ms') \<Longrightarrow> meta_run R kv ms' (Suc n) ev"
| restart: "meta_run R kv ms n ev \<Longrightarrow> metadata_open R (Some (ms_db ms)) = (OK, Some ms') \<Longrightarrow> meta_run R kv ms' (Suc n) ev"

text \<open>The persisted counters are above every identifier handed out, and the counters in memory are not below them.\<close>

definition ids_below :: "u64 \<Rightarrow> u32 \<Rightarrow> id_event list \<Rightarrow> bool" where
  "ids_below p q ev \<longleftrightarrow> distinct ev \<and> (\<forall>i. ObjectId i \<in> set ev \<longrightarrow> i < p) \<and> (\<forall>i. ChunkId i \<in> set ev \<longrightarrow> i < q)"

definition ids_inv :: "(byte list \<Rightarrow> byte list option) \<Rightarrow> u64 \<Rightarrow> u32 \<Rightarrow> nat \<Rightarrow> id_event list \<Rightarrow> bool" where
  "ids_inv m no nc n ev \<longleftrightarrow>
     (\<exists>p q. m kKeyNextObj = Some (pod_to_string 8 p) \<and> m kKeyNextChunk = Some (pod_to_string 4 q) \<and> p \<le> no \<and> q \<le> nc
        \<and> unat no \<le> n + 1 \<and> unat nc \<le> n + 1 \<and> ids_below p q ev)"

lemma ids_below_object: "ids_below p q ev \<Longrightarrow> p \<le> no \<Longrightarrow> no < no + 1 \<Longrightarrow> ids_below (no + 1) q (ObjectId no # ev)"
  by (auto simp: ids_below_def)

lemma ids_below_chunk: "ids_below p q ev \<Longrightarrow> q \<le> nc \<Longrightarrow> nc < nc + 1 \<Longrightarrow> ids_below p (nc + 1) (ChunkId nc # ev)"
  by (auto simp: ids_below_def)

lemma word_inc: "unat (w :: 'a::len word) + 1 < 2 ^ LENGTH('a) \<Longrightarrow> w < w + 1 \<and> unat (w + 1) = unat w + 1"
  by (simp add: word_less_nat_alt unat_plus_if_small)

lemma ids_inv_object:
  assumes "ids_inv m no nc n ev" and "n + 2 < 2 ^ 32"
    and "m' = m(kKeyNextObj \<mapsto> pod_to_string 8 (no + 1)) \<or> s \<noteq> OK \<and> m' = m"
  shows "ids_inv m' (no + 1) nc (Suc n) (if s = OK then ObjectId no # ev else ev)"
proof -
  obtain p q where pq: "m kKeyNextObj = Some (pod_to_string 8 p)" "m kKeyNextChunk = Some (pod_to_string 4 q)" "p \<le> no" "q \<le> nc"
      "unat no \<le> n + 1" "unat nc \<le> n + 1" "ids_below p q ev"
    using assms(1) by (auto simp: ids_inv_def)
  have i: "no < no + 1 \<and> unat (no + 1) = unat no + 1" using pq(5) assms(2) by (intro word_inc) simp
  have b: "ids_below (no + 1) q (ObjectId no # ev)" "ids_below (no + 1) q ev"
    using ids_below_object [OF pq(7,3)] i by (auto simp: ids_below_def)
  have "\<exists>p'. m' kKeyNextObj = Some (pod_to_string 8 p') \<and> p' \<le> no + 1 \<and> ids_below p' q (if s = OK then ObjectId no # ev else ev)"
    using assms(3) b pq(1,3,7) i by (auto intro: order.trans)
  moreover have "m' kKeyNextChunk = Some (pod_to_string 4 q)" using assms(3) pq(2) by auto
  ultimately show ?thesis using pq i unfolding ids_inv_def by fastforce
qed

lemma ids_inv_chunk:
  assumes "ids_inv m no nc n ev" and "n + 2 < 2 ^ 32"
    and "m' = m(kKeyNextChunk \<mapsto> pod_to_string 4 (nc + 1)) \<or> s \<noteq> OK \<and> m' = m"
  shows "ids_inv m' no (nc + 1) (Suc n) (if s = OK then ChunkId nc # ev else ev)"
proof -
  obtain p q where pq: "m kKeyNextObj = Some (pod_to_string 8 p)" "m kKeyNextChunk = Some (pod_to_string 4 q)" "p \<le> no" "q \<le> nc"
      "unat no \<le> n + 1" "unat nc \<le> n + 1" "ids_below p q ev"
    using assms(1) by (auto simp: ids_inv_def)
  have i: "nc < nc + 1 \<and> unat (nc + 1) = unat nc + 1" using pq(6) assms(2) by (intro word_inc) simp
  have b: "ids_below p (nc + 1) (ChunkId nc # ev)" "ids_below p (nc + 1) ev"
    using ids_below_chunk [OF pq(7,4)] i by (auto simp: ids_below_def)
  have "\<exists>q'. m' kKeyNextChunk = Some (pod_to_string 4 q') \<and> q' \<le> nc + 1 \<and> ids_below p q' (if s = OK then ChunkId nc # ev else ev)"
    using assms(3) b pq(2,4,7) i by (auto intro: order.trans)
  moreover have "m' kKeyNextObj = Some (pod_to_string 8 p)" using assms(3) pq(1) by auto
  ultimately show ?thesis using pq i unfolding ids_inv_def by fastforce
qed

lemma ids_inv_same:
  assumes "ids_inv m no nc n ev" and "m' kKeyNextObj = m kKeyNextObj" and "m' kKeyNextChunk = m kKeyNextChunk"
  shows "ids_inv m' no nc (Suc n) ev"
  using assms unfolding ids_inv_def by (metis add_Suc le_SucI)

lemma ids_inv_reopen:
  assumes "ids_inv m no nc n ev" and "counter_of 8 (m kKeyNextObj) = Some no'" and "counter_of 4 (m kKeyNextChunk) = Some nc'"
  shows "ids_inv (opened_map m no' nc') no' nc' (Suc n) ev"
proof -
  obtain p q where "p = no'" "q = nc'" "p \<le> no" "q \<le> nc" "unat no \<le> n + 1" "unat nc \<le> n + 1" "ids_below p q ev"
    using assms by (auto simp: ids_inv_def counter_of_def)
  moreover have "unat no' \<le> n + 1" "unat nc' \<le> n + 1" using calculation by (auto simp: word_le_nat_alt)
  ultimately show ?thesis by (auto simp: ids_inv_def opened_map_def Let_def)
qed

context rocksdb_store
begin

lemma meta_run_ids:
  assumes "meta_run R kv ms n ev" and "n + 1 < 2 ^ 32"
  shows "ids_inv (ms_map kv ms) (ms_next_object_id ms) (ms_next_chunk_id ms) n ev"
  using assms
proof (induction rule: meta_run.induct)
  case (fresh db ms)
  then show ?case using open_cases [OF fresh.hyps(2)]
    by (auto simp: counter_of_def ids_inv_def opened_map_def Let_def ids_below_def)
next
  case (object_id ms n ev s oid ms')
  have "ids_inv (ms_map kv ms) (ms_next_object_id ms) (ms_next_chunk_id ms) n ev" "n + 2 < 2 ^ 32"
    using object_id.IH object_id.prems by simp_all
  then show ?case using ids_inv_object allocate_object_id_cases [OF object_id.hyps(2)] by metis
next
  case (chunk_id ms n ev s cid ms')
  have "ids_inv (ms_map kv ms) (ms_next_object_id ms) (ms_next_chunk_id ms) n ev" "n + 2 < 2 ^ 32"
    using chunk_id.IH chunk_id.prems by simp_all
  then show ?case using ids_inv_chunk allocate_chunk_id_cases [OF chunk_id.hyps(2)] by metis
next
  case (chunk_record ms n ev c s ms')
  have inv: "ids_inv (ms_map kv ms) (ms_next_object_id ms) (ms_next_chunk_id ms) n ev"
    using chunk_record.IH chunk_record.prems by simp
  show ?case unfolding put_chunk_cases(3,4) [OF chunk_record.hyps(2)]
    by (rule ids_inv_same [OF inv]) (use put_chunk_cases(2) [OF chunk_record.hyps(2)] in auto)
next
  case (batch ms n ev ops s ms')
  have inv: "ids_inv (ms_map kv ms) (ms_next_object_id ms) (ms_next_chunk_id ms) n ev"
    using batch.IH batch.prems by simp
  show ?case unfolding commit_cases(3,4) [OF batch.hyps(2)]
    by (rule ids_inv_same [OF inv]) (use commit_cases(2) [OF batch.hyps(2)] batch_other in auto)
next
  case (restart ms n ev ms')
  have "ids_inv (ms_map kv ms) (ms_next_object_id ms) (ms_next_chunk_id ms) n ev"
    using restart.IH restart.prems by simp
  then show ?case using open_cases [OF restart.hyps(2)] ids_inv_reopen by metis
qed

end

section \<open>Concrete stores\<close>

definition ref_store :: "meta_op list \<Rightarrow> ref_db metadata_store" where
  "ref_store ops = \<lparr>ms_db = fold ref_put (batch_of ops) RBT.empty, ms_next_object_id = 1, ms_next_chunk_id = 1\<rparr>"

lemma ref_store_map: "RBT.lookup (ms_db (ref_store ops)) = Map.empty ++ map_of (rev (batch_of ops))"
  by (simp add: ref_store_def ref_fold_lookup)

lemma ref_store_view: "view_of (RBT.lookup (ms_db (ref_store ops))) = fold view_op ops (view_of Map.empty)"
    "meta_typed (RBT.lookup (ms_db (ref_store ops)))"
  unfolding ref_store_map view_batch by (simp_all only: typed_batch [OF typed_empty])

definition extent8 :: extent_entry where
  "extent8 = \<lparr>ee_chunk_id = 1, ee_chunk_idx = 0, ee_reserved = 0, ee_offset_in_chunk = 0, ee_length = 8, ee_checksum = 0\<rparr>"

definition ref_fresh :: "ref_db metadata_store" where
  "ref_fresh = \<lparr>ms_db = fold ref_put [(kKeyRootDir, pod_to_string 8 (0 :: u64)), (kKeySchema, pod_to_string 4 kSchemaVersion),
       (kKeyNextObj, pod_to_string 8 (1 :: u64)), (kKeyNextChunk, pod_to_string 4 (1 :: u32))] RBT.empty,
     ms_next_object_id = 1, ms_next_chunk_id = 1\<rparr>"

lemma ref_open_fresh: "metadata_open ref_rocksdb (Some RBT.empty) = (OK, Some ref_fresh)"
  by (simp add: metadata_open_def init_or_check_schema_locked_def read_counters_locked_def persist_counters_locked_def
      ref_rocksdb_def ref_fresh_def Let_def)

lemma ref_is_store: "rocksdb_store ref_rocksdb RBT.lookup"
  by unfold_locales

lemma visit_offsets: "visit (\<lambda>off e u. (True, u @ [off])) xs u = u @ map fst xs"
  by (induction xs arbitrary: u) auto

section \<open>Properties\<close>

text \<open>
  Committing a batch is atomic and refines the typed view: when \<open>commit\<close> succeeds, the staged
  paths, attributes, extents, chunks and reverse entries are applied in order and nothing else of the view
  changes; when it fails, all of them are or none is.  Every value stays decodable.
\<close>

theorem metadata_commit_refines:
  assumes "rocksdb_store R kv" and "metadata_commit R ms (batch_of ops) = (s, ms')"
  shows "(view_of (kv (ms_db ms')) = fold view_op ops (view_of (kv (ms_db ms)))
      \<or> s = ERROR_METADATA \<and> view_of (kv (ms_db ms')) = view_of (kv (ms_db ms)))
    \<and> (meta_typed (kv (ms_db ms)) \<longrightarrow> meta_typed (kv (ms_db ms')))"
  using rocksdb_store.commit_view [OF assms] rocksdb_store.commit_cases(1) [OF assms] by auto

theorem metadata_commit_refines_witness:
  "fst (metadata_commit ref_rocksdb (ref_store []) (batch_of [PutPath [0x61] 7])) = OK
   \<and> mv_path (view_of (RBT.lookup (ms_db (snd (metadata_commit ref_rocksdb (ref_store []) (batch_of [PutPath [0x61] 7])))))) [0x61] = Some 7"
proof -
  let ?c = "metadata_commit ref_rocksdb (ref_store []) (batch_of [PutPath [0x61] 7])"
  have ok: "fst ?c = OK" by (rule ref.commit_live)
  have "view_of (RBT.lookup (ms_db (snd ?c))) = fold view_op [PutPath [0x61] 7] (view_of (RBT.lookup (ms_db (ref_store []))))"
    using metadata_commit_refines [OF ref_is_store prod.collapse [symmetric, of ?c]] ok by simp
  then show ?thesis using ok by simp
qed

text \<open>
  Reads return the view: on a typed database a lookup of a path, of attributes or of a chunk
  returns exactly the entry of the view, \<open>ERROR_NOT_FOUND\<close> exactly when there is none, and otherwise can only
  fail with \<open>ERROR_METADATA\<close>, which a database that does not fail never causes.
\<close>

theorem metadata_reads_view:
  assumes "rocksdb_store R kv" and "meta_typed (kv (ms_db ms))"
  shows "(path_lookup R ms p = Inl ERROR_METADATA
      \<or> path_lookup R ms p = (case mv_path (view_of (kv (ms_db ms))) p of None \<Rightarrow> Inl ERROR_NOT_FOUND | Some oid \<Rightarrow> Inr oid))
    \<and> (get_attrs R ms oid = Inl ERROR_METADATA
      \<or> get_attrs R ms oid = (case mv_attrs (view_of (kv (ms_db ms))) oid of None \<Rightarrow> Inl ERROR_NOT_FOUND | Some a \<Rightarrow> Inr a))
    \<and> (get_chunk R ms c = Inl ERROR_METADATA
      \<or> get_chunk R ms c = (case mv_chunk (view_of (kv (ms_db ms))) c of None \<Rightarrow> Inl ERROR_NOT_FOUND | Some x \<Rightarrow> Inr x))
    \<and> (rocksdb_live R kv \<longrightarrow> path_lookup R ms p \<noteq> Inl ERROR_METADATA \<and> get_attrs R ms oid \<noteq> Inl ERROR_METADATA
         \<and> get_chunk R ms c \<noteq> Inl ERROR_METADATA)"
proof -
  have "path_lookup R ms p \<noteq> Inl ERROR_METADATA \<and> get_attrs R ms oid \<noteq> Inl ERROR_METADATA \<and> get_chunk R ms c \<noteq> Inl ERROR_METADATA"
    if "rocksdb_live R kv"
    by (simp add: rocksdb_live.reads_live [OF that assms(2)] split: option.splits)
  then show ?thesis
    by (intro conjI impI rocksdb_store.path_lookup_view [OF assms] rocksdb_store.get_attrs_view [OF assms]
        rocksdb_store.get_chunk_view [OF assms]) simp_all
qed

theorem metadata_reads_view_witness:
  "path_lookup ref_rocksdb (ref_store [PutPath [0x61] 7]) [0x61] = Inr 7
   \<and> get_attrs ref_rocksdb (ref_store [PutPath [0x61] 7]) 7 = Inl ERROR_NOT_FOUND"
proof -
  have e: "mv_attrs (view_of Map.empty) 7 = None" by (simp add: view_of_def)
  have "rocksdb_live ref_rocksdb RBT.lookup" by unfold_locales
  then show ?thesis
    using metadata_reads_view [OF ref_is_store ref_store_view(2), of "[PutPath [0x61] 7]" "[0x61]" 7 0] e
    by (auto simp: ref_store_view(1))
qed

text \<open>
  A range scan is exact.  On a typed database in which the extents of the object do not
  overlap, \<open>iter_extents\<close> presents to its visitor exactly the extents that overlap \<open>[start, stop)\<close>, in
  ascending order of their offsets, the one that begins before \<open>start\<close> included, until the visitor stops.
\<close>

theorem iter_extents_exact:
  fixes cb :: "'u visitor"
  assumes "rocksdb_store R kv" and "kv_iter_ok R (ms_db ms)" and "meta_typed (kv (ms_db ms))"
    and "extents_ok (view_of (kv (ms_db ms))) oid" and "start < stop"
  shows "\<exists>xs. sorted (map fst xs) \<and> distinct (map fst xs)
    \<and> set xs = {x. mv_extent (view_of (kv (ms_db ms))) (oid, fst x) = Some (snd x) \<and> overlaps start stop x}
    \<and> iter_extents R ms oid start stop cb u = (OK, visit cb xs u)"
proof (rule rocksdb_store.iter_extents_visit [OF assms])
  fix xs
  assume "sorted (map fst xs)" and "distinct (map fst xs)"
    and "set xs = {x. mv_extent (view_of (kv (ms_db ms))) (oid, fst x) = Some (snd x) \<and> overlaps start stop x}"
    and "\<And>(cb :: 'u visitor) u. iter_extents R ms oid start stop cb u = (OK, visit cb xs u)"
  then show ?thesis by (intro exI [of _ xs] conjI)
qed

theorem iter_extents_exact_witness:
  "iter_extents ref_rocksdb (ref_store [PutExtent 1 0 extent8, PutExtent 1 8 extent8, PutExtent 1 16 extent8]) 1 4 12
     (\<lambda>off e u. (True, u @ [off])) [] = (OK, [0, 8])"
proof -
  let ?ms = "ref_store [PutExtent 1 0 extent8, PutExtent 1 8 extent8, PutExtent 1 16 extent8]"
  let ?v = "view_of (RBT.lookup (ms_db ?ms))"
  have v: "mv_extent ?v (1, off) = (if off = 0 \<or> off = 8 \<or> off = 16 then Some extent8 else None)" for off
    unfolding ref_store_view(1) by (auto simp: view_of_def)
  have ok: "extents_ok ?v 1" unfolding extents_ok_def v by (auto simp: extent8_def split: if_splits)
  obtain xs where xs: "sorted (map fst xs)" "distinct (map fst xs)"
      "set xs = {x. mv_extent ?v (1, fst x) = Some (snd x) \<and> overlaps 4 12 x}"
      "iter_extents ref_rocksdb ?ms 1 4 12 (\<lambda>off e u. (True, u @ [off])) [] = (OK, visit (\<lambda>off e u. (True, u @ [off])) xs [])"
    using iter_extents_exact [OF ref_is_store ref.iter_live ref_store_view(2) ok,
        of 4 12 "\<lambda>off e u. (True, u @ [off])" "[]"] by auto
  have "set (map fst xs) = set [0, 8]"
    unfolding list.set_map xs(3) v by (auto simp: overlaps_def extent8_def image_iff split: if_splits)
  then have "map fst xs = [0, 8]" by (intro sorted_distinct_set_unique xs(1,2)) auto
  with xs(4) show ?thesis by (simp add: visit_offsets)
qed

text \<open>
  Property C33.  Identifiers are unique: in a run of fewer than \<open>2 ^ 32 - 1\<close> calls from an empty database,
  with writes that fail at any point and restarts between any two calls, no object identifier and no chunk
  identifier that a successful call handed out is handed out again.
\<close>

theorem metadata_ids_unique:
  assumes "rocksdb_store R kv" and "meta_run R kv ms n ev" and "n + 1 < 2 ^ 32"
  shows "distinct ev"
  using rocksdb_store.meta_run_ids [OF assms] by (auto simp: ids_inv_def ids_below_def)

theorem metadata_ids_unique_witness:
  "\<exists>ms. meta_run ref_rocksdb RBT.lookup ms 3 [ObjectId 2, ObjectId 1] \<and> distinct [ObjectId 2, ObjectId 1]"
proof -
  have fresh: "meta_run ref_rocksdb RBT.lookup ref_fresh 0 []" by (rule meta_run.fresh [OF _ ref_open_fresh]) simp
  obtain ms1 where a: "allocate_object_id ref_rocksdb ref_fresh = (OK, 1, ms1)" and n: "ms_next_object_id ms1 = 2"
      and m: "RBT.lookup (ms_db ms1) = (RBT.lookup (ms_db ref_fresh))(kKeyNextObj \<mapsto> pod_to_string 8 (2 :: u64))"
    by (simp add: allocate_object_id_def ref_rocksdb_def ref_fresh_def)
  obtain ms2 where o: "metadata_open ref_rocksdb (Some (ms_db ms1)) = (OK, Some ms2)" and n2: "ms_next_object_id ms2 = 2"
    using m by (simp add: metadata_open_def init_or_check_schema_locked_def read_counters_locked_def persist_counters_locked_def
      ref_rocksdb_def ref_fresh_def Let_def)
  obtain ms3 where b: "allocate_object_id ref_rocksdb ms2 = (OK, 2, ms3)"
    using n2 by (simp add: allocate_object_id_def ref_rocksdb_def)
  have "meta_run ref_rocksdb RBT.lookup ms3 3 [ObjectId 2, ObjectId 1]"
    using meta_run.object_id [OF meta_run.restart [OF meta_run.object_id [OF fresh a] o] b] by (simp add: numeral_eq_Suc)
  with metadata_ids_unique [OF ref_is_store this] show ?thesis by auto
qed

text \<open>
  Opening: a database of another schema version is refused with \<open>ERROR_METADATA\<close>; a successful
  open keeps every entry of the view but the entry of the root path, which it creates when missing, and
  leaves counters that a later open reads back.
\<close>

theorem metadata_open_keeps:
  assumes "rocksdb_store R kv" and "metadata_open R (Some db) = (s, Some ms)"
  shows "(\<not> schema_ok (kv db) \<longrightarrow> s \<noteq> OK)
    \<and> (s = OK \<longrightarrow> view_of (kv (ms_db ms)) = (if kv db kKeyRootDir = None then view_op (PutPath [0x2F] 0) (view_of (kv db)) else view_of (kv db))
         \<and> schema_ok (kv (ms_db ms)) \<and> counter_of 8 (kv (ms_db ms) kKeyNextObj) = Some (ms_next_object_id ms)
         \<and> counter_of 4 (kv (ms_db ms) kKeyNextChunk) = Some (ms_next_chunk_id ms))"
proof -
  have opened: "schema_ok m \<Longrightarrow> schema_ok (opened_map m no nc)" "counter_of 8 (opened_map m no nc kKeyNextObj) = Some no"
    "counter_of 4 (opened_map m no nc kKeyNextChunk) = Some nc" for m no nc
    by (auto simp: schema_ok_def opened_map_def Let_def counter_of_def split: option.splits)
  note oc = rocksdb_store.open_cases [OF assms(1)]
  show ?thesis
  proof (cases "s = OK")
    case True
    then have o: "metadata_open R (Some db) = (OK, Some ms)" using assms(2) by simp
    show ?thesis using oc(1) [OF o] True opened by (simp add: oc(4) [OF o] opened_view(1))
  qed simp
qed

theorem metadata_open_keeps_witness:
  "metadata_open ref_rocksdb (Some RBT.empty) = (OK, Some ref_fresh) \<and> mv_path (view_of (RBT.lookup (ms_db ref_fresh))) [0x2F] = Some 0"
  using metadata_open_keeps [OF ref_is_store ref_open_fresh] ref_open_fresh by simp

end
