(* ===== verification/Objstore_Reopen.thy ===== *)
theory Objstore_Reopen
  imports Objstore_Objects Objstore_Meta_Correct
begin

text \<open>
  Restarting the object store: the counters in the database are above every identifier in use, after
  failed calls too, so that a store that is opened again has the same objects and the invariant.
\<close>

section \<open>The persisted counters\<close>

definition counters_ok :: "(byte list \<Rightarrow> byte list option) \<Rightarrow> u64 \<Rightarrow> u32 \<Rightarrow> bool" where
  "counters_ok m no nc \<longleftrightarrow>
     (\<exists>po pc. m kKeyNextObj = Some (pod_to_string 8 po) \<and> m kKeyNextChunk = Some (pod_to_string 4 pc) \<and> po \<le> no \<and> pc \<le> nc
        \<and> (\<forall>oid a. mv_attrs (view_of m) oid = Some a \<longrightarrow> oid < po) \<and> (\<forall>cid c. mv_chunk (view_of m) cid = Some c \<longrightarrow> cid < pc))"

lemma pod_inj [simp]: "pod_to_string 4 (a :: u32) = pod_to_string 4 b \<longleftrightarrow> a = b" "pod_to_string 8 (c :: u64) = pod_to_string 8 d \<longleftrightarrow> c = d"
proof -
  have "string_to_pod 4 (pod_to_string 4 a) = Some a" "string_to_pod 4 (pod_to_string 4 b) = Some b"
    "string_to_pod 8 (pod_to_string 8 c) = Some c" "string_to_pod 8 (pod_to_string 8 d) = Some d" by simp_all
  then show "pod_to_string 4 a = pod_to_string 4 b \<longleftrightarrow> a = b" "pod_to_string 8 c = pod_to_string 8 d \<longleftrightarrow> c = d"
    by (metis option.inject)+
qed

lemma counters_ok_put:
  assumes "counters_ok m no nc" and "m' kKeyNextObj = m kKeyNextObj" and "m' kKeyNextChunk = m kKeyNextChunk"
    and "dom (mv_attrs (view_of m')) \<subseteq> dom (mv_attrs (view_of m)) \<union> A" and "dom (mv_chunk (view_of m')) \<subseteq> dom (mv_chunk (view_of m)) \<union> B"
    and "\<And>po oid. m kKeyNextObj = Some (pod_to_string 8 po) \<Longrightarrow> oid \<in> A \<Longrightarrow> oid < po"
    and "\<And>pc cid. m kKeyNextChunk = Some (pod_to_string 4 pc) \<Longrightarrow> cid \<in> B \<Longrightarrow> cid < pc"
  shows "counters_ok m' no nc"
proof -
  obtain po pc where c: "m kKeyNextObj = Some (pod_to_string 8 po)" "m kKeyNextChunk = Some (pod_to_string 4 pc)" "po \<le> no" "pc \<le> nc"
      "\<forall>oid \<in> dom (mv_attrs (view_of m)). oid < po" "\<forall>cid \<in> dom (mv_chunk (view_of m)). cid < pc"
    using assms(1) unfolding counters_ok_def by blast
  have "\<forall>oid \<in> dom (mv_attrs (view_of m')). oid < po" "\<forall>cid \<in> dom (mv_chunk (view_of m')). cid < pc"
    using assms(4,5) c(5,6) assms(6) [OF c(1)] assms(7) [OF c(2)] by blast+
  then show ?thesis unfolding counters_ok_def assms(2,3) using c(1-4) by (intro exI [of _ po] exI [of _ pc]) blast
qed

lemma counters_ok_same:
  assumes "counters_ok m no nc" and "m' kKeyNextObj = m kKeyNextObj" and "m' kKeyNextChunk = m kKeyNextChunk"
    and "dom (mv_attrs (view_of m')) \<subseteq> dom (mv_attrs (view_of m))" and "dom (mv_chunk (view_of m')) \<subseteq> dom (mv_chunk (view_of m))"
  shows "counters_ok m' no nc"
  by (rule counters_ok_put [OF assms(1-3), of "{}" "{}"]) (use assms(4,5) in auto)

lemma counters_ok_chunk:
  assumes "counters_ok m no nc" and "nc < nc + 1" and "m' = m(kKeyNextChunk \<mapsto> pod_to_string 4 (nc + 1)) \<or> m' = m"
  shows "counters_ok m' no (nc + 1)"
proof -
  obtain po pc where c: "m kKeyNextObj = Some (pod_to_string 8 po)" "m kKeyNextChunk = Some (pod_to_string 4 pc)" "po \<le> no" "pc \<le> nc"
      "\<forall>oid a. mv_attrs (view_of m) oid = Some a \<longrightarrow> oid < po" "\<forall>cid c. mv_chunk (view_of m) cid = Some c \<longrightarrow> cid < pc"
    using assms(1) unfolding counters_ok_def by blast
  have v: "view_of m' = view_of m" using assms(3) by (auto simp: view_upd_other)
  have "m' kKeyNextObj = Some (pod_to_string 8 po)" "m' kKeyNextChunk = Some (pod_to_string 4 (nc + 1)) \<or> m' kKeyNextChunk = Some (pod_to_string 4 pc)"
    using assms(3) c(1,2) by auto
  moreover have "pc \<le> nc + 1" "\<forall>cid c. mv_chunk (view_of m) cid = Some c \<longrightarrow> cid < nc + 1" using c(4,6) assms(2) by (force+)
  ultimately show ?thesis unfolding counters_ok_def v using c(3,5,6) by blast
qed

lemma counters_ok_object:
  assumes "counters_ok m no nc" and "no < no + 1" and "m' = m(kKeyNextObj \<mapsto> pod_to_string 8 (no + 1)) \<or> m' = m"
  shows "counters_ok m' (no + 1) nc"
proof -
  obtain po pc where c: "m kKeyNextObj = Some (pod_to_string 8 po)" "m kKeyNextChunk = Some (pod_to_string 4 pc)" "po \<le> no" "pc \<le> nc"
      "\<forall>oid a. mv_attrs (view_of m) oid = Some a \<longrightarrow> oid < po" "\<forall>cid c. mv_chunk (view_of m) cid = Some c \<longrightarrow> cid < pc"
    using assms(1) unfolding counters_ok_def by blast
  have v: "view_of m' = view_of m" using assms(3) by (auto simp: view_upd_other)
  have "m' kKeyNextChunk = Some (pod_to_string 4 pc)" "m' kKeyNextObj = Some (pod_to_string 8 (no + 1)) \<or> m' kKeyNextObj = Some (pod_to_string 8 po)"
    using assms(3) c(1,2) by auto
  moreover have "po \<le> no + 1" "\<forall>oid a. mv_attrs (view_of m) oid = Some a \<longrightarrow> oid < no + 1" using c(3,5) assms(2) by (force+)
  ultimately show ?thesis unfolding counters_ok_def v using c(4,5,6) by blast
qed

context objstore_env
begin

abbreviation cok :: "('d, 'db) objstore \<Rightarrow> bool" where
  "cok st \<equiv> counters_ok (ms_map kv (os_meta st)) (ms_next_object_id (os_meta st)) (next_chunk st)"

lemma put_chunk_counters:
  assumes c: "counters_ok (ms_map kv ms) (ms_next_object_id ms) (ms_next_chunk_id ms)" and p: "put_chunk R ms x = (s, ms')"
    and id: "\<And>pc. ms_map kv ms kKeyNextChunk = Some (pod_to_string 4 pc) \<Longrightarrow> ck_chunk_id x < pc"
  shows "counters_ok (ms_map kv ms') (ms_next_object_id ms') (ms_next_chunk_id ms')"
proof -
  note pc = put_chunk_cases [OF p] and pv = put_chunk_view [OF p]
  have k: "ms_map kv ms' kKeyNextObj = ms_map kv ms kKeyNextObj" "ms_map kv ms' kKeyNextChunk = ms_map kv ms kKeyNextChunk" using pc(2) by auto
  have d: "dom (mv_attrs (view_of (ms_map kv ms'))) \<subseteq> dom (mv_attrs (view_of (ms_map kv ms))) \<union> {}"
    "dom (mv_chunk (view_of (ms_map kv ms'))) \<subseteq> dom (mv_chunk (view_of (ms_map kv ms))) \<union> {ck_chunk_id x}" using pv(1) by auto
  show ?thesis unfolding pc(3,4) by (rule counters_ok_put [OF c k d]) (use id in auto)
qed

text \<open>A chunk on record is below the counter.\<close>

lemma recorded_below:
  assumes "counters_ok m no nc" and "mv_chunk (view_of m) cid \<noteq> None" and "m kKeyNextChunk = Some (pod_to_string 4 pc)"
  shows "cid < pc"
  using assms by (auto simp: counters_ok_def)

lemma seal_counters:
  assumes ok: "eok L st" and c: "cok st" and act: "os_active st = Some a" and se: "seal_active_locked R st = (s, st')"
  shows "cok st'"
proof -
  obtain ms1 where p: "put_chunk R (os_meta st) (a\<lparr>ck_sealed := True\<rparr>) = (s, ms1)" and st': "st' = st\<lparr>os_meta := ms1, os_active := None\<rparr>"
    using se act by (auto simp: seal_active_locked_def split: prod.splits)
  have "mv_chunk (vw st) (ck_chunk_id a) \<noteq> None" using engine_okD(4) [OF conjunct2 [OF conjunct2 [OF ok]] act] by auto
  then show ?thesis using put_chunk_counters [OF c p] recorded_below [OF c] by (simp add: st')
qed

lemma allocate_counters:
  assumes c: "cok st" and room: "unat (next_chunk st) + 1 < 2 ^ 32" and al: "allocate_new_chunk_locked R st = (s, st')"
  shows "cok st'"
proof -
  obtain r m1 where ba: "nebula_block_alloc (os_mount st) kChunkBlocks = (r, m1)" by (rule prod.exhaust)
  show ?thesis
  proof (cases r)
    case (Inl e)
    then show ?thesis using al ba c by (auto simp: allocate_new_chunk_locked_def)
  next
    case (Inr lba)
    obtain s1 cid ms1 where ai: "allocate_chunk_id R (os_meta st) = (s1, cid, ms1)" by (rule prod_cases3)
    note ac = allocate_chunk_id_cases [OF ai]
    have inc: "next_chunk st < next_chunk st + 1" using room by (simp add: word_less_nat_alt unat_plus_if_small)
    have c1: "counters_ok (ms_map kv ms1) (ms_next_object_id ms1) (ms_next_chunk_id ms1)"
      unfolding ac(2,3) unfolding ac(1) by (rule counters_ok_chunk [OF c inc]) (use ac(1,5) in auto)
    define x where "x = \<lparr>ck_chunk_id = cid, ck_lba_start = lba, ck_write_offset = 0, ck_next_idx = 0, ck_sealed = False\<rparr>"
    show ?thesis
    proof (cases "s1 = OK")
      case False
      then show ?thesis using al ba Inr ai c1 by (auto simp: allocate_new_chunk_locked_def Let_def)
    next
      case True
      obtain s2 ms2 where p: "put_chunk R ms1 x = (s2, ms2)" by (rule prod.exhaust)
      have "os_meta st' = ms2" using al ba Inr ai True p by (auto simp: allocate_new_chunk_locked_def Let_def x_def split: if_splits)
      moreover have "ck_chunk_id x < pc" if "ms_map kv ms1 kKeyNextChunk = Some (pod_to_string 4 pc)" for pc
      proof -
        have "pc = cid + 1" using that ac(5) True by auto
        then show ?thesis using inc ac(1) by (simp add: x_def)
      qed
      ultimately show ?thesis using put_chunk_counters [OF c1 p] by simp
    qed
  qed
qed

lemma reserve_counters:
  assumes ok: "eok L st" and c: "cok st" and room: "unat (next_chunk st) + 1 < 2 ^ 32" and re: "reserve R st n = (q, st')"
  shows "cok st'"
proof -
  obtain s st1 where en: "ensure_active R st = (s, st1)" by (rule prod.exhaust)
  have "cok st1"
  proof (cases "os_active st")
    case None
    then show ?thesis using en allocate_counters [OF c room] by (simp add: ensure_active_def)
  next
    case (Some a)
    obtain s1 st0 where se: "seal_active_locked R st = (s1, st0)" by (rule prod.exhaust)
    have c0: "cok st0" by (rule seal_counters [OF ok c Some se])
    have "unat (next_chunk st0) + 1 < 2 ^ 32" using seal_step(3) [OF ok Some se] room by simp
    then show ?thesis using en Some se c c0 allocate_counters [OF c0] by (auto simp: ensure_active_def split: if_splits)
  qed
  then show ?thesis using re en c by (auto simp: reserve_def split: if_splits option.splits prod.splits)
qed

lemma write_loop_counters:
  assumes "eok L st" and "cok st" and "unat (next_chunk st) + remaining < 2 ^ 32" and "cursor + remaining = length src"
    and "write_loop R st oid src cursor remaining logical added batch = (q, st')"
  shows "cok st'"
  using assms
proof (induction remaining arbitrary: st cursor logical added batch rule: less_induct)
  case (less remaining)
  note ok = less.prems(1)
  show ?case
  proof (cases "remaining = 0")
    case True
    then show ?thesis using less.prems(2,5) by (simp add: write_loop.simps)
  next
    case rem: False
    define want where "want = (of_nat (min remaining (2 ^ 32 - 1)) :: u32)"
    have want: "unat want = remaining" using less.prems(3) by (simp add: want_def unat_of_nat min_def)
    have room: "unat (next_chunk st) + 1 < 2 ^ 32" using less.prems(3) rem by simp
    obtain rr st1 where re: "reserve R st want = (rr, st1)" by (rule prod.exhaust)
    have c1: "cok st1" by (rule reserve_counters [OF ok less.prems(2) room re])
    show ?thesis
    proof (cases rr)
      case (Inl e)
      then show ?thesis using less.prems(5) rem re c1 by (auto simp: write_loop.simps [of R st] Let_def want_def)
    next
      case (Inr r)
      obtain s st2 where ws: "write_segment st1 r src cursor = (s, st2)" by (rule prod.exhaust)
      have src: "cursor + unat want \<le> length src" using want less.prems(4) by simp
      note tu = write_turn [OF ok room re [unfolded Inr] src ws]
      have "os_meta st2 = os_meta st1" using ws by (auto simp: write_segment_def write_blocks_def Let_def split: prod.splits if_splits)
      then have c2: "cok st2" using c1 by simp
      define n where "n = unat (rv_length_bytes r)"
      have n: "1 \<le> n" "n \<le> remaining" using tu(6,7) want by (simp_all add: n_def)
      show ?thesis
      proof (cases "s = OK")
        case False
        then show ?thesis using less.prems(5) rem re Inr ws c2 by (auto simp: write_loop.simps [of R st] Let_def want_def)
      next
        case True
        then obtain lg ad bt where lp: "write_loop R st2 oid src (cursor + n) (remaining - n) lg ad bt = (q, st')"
          using less.prems(5) rem re Inr ws by (auto simp: write_loop.simps [of R st] Let_def want_def n_def)
        have "remaining - n < remaining" "unat (next_chunk st2) + (remaining - n) < 2 ^ 32" "cursor + n + (remaining - n) = length src"
          using n tu(2) less.prems(3,4) by linarith+
        then show ?thesis using less.IH [OF _ conjunct1 [OF tu(1)] c2 _ _ lp] by simp
      qed
    qed
  qed
qed

lemma object_create_counters:
  assumes c: "cok st" and room: "unat (ms_next_object_id (os_meta st)) + 1 < 2 ^ 64" and cr: "object_create R st p now = (s, st')"
  shows "cok st'"
proof -
  let ?no = "ms_next_object_id (os_meta st)"
  have inc: "?no < ?no + 1" using room by (simp add: word_less_nat_alt unat_plus_if_small)
  obtain s1 oid ms1 where ai: "allocate_object_id R (os_meta st) = (s1, oid, ms1)" by (rule prod_cases3)
  note ac = allocate_object_id_cases [OF ai]
  have c1: "counters_ok (ms_map kv ms1) (ms_next_object_id ms1) (ms_next_chunk_id ms1)"
    unfolding ac(2,3) unfolding ac(1) by (rule counters_ok_object [OF c inc]) (use ac(1,5) in auto)
  let ?a = "\<lparr>oa_object_id = oid, oa_size = 0, oa_ctime_ns = now, oa_mtime_ns = now, oa_version = 1, oa_num_extents = 0\<rparr>"
  obtain s2 ms2 where cm: "metadata_commit R ms1 (batch_of [PutAttrs ?a, PutPath p oid]) = (s2, ms2)" by (rule prod.exhaust)
  consider "st' = st" | "s1 \<noteq> OK" "st' = st\<lparr>os_meta := ms1\<rparr>" | (commit) "s1 = OK" "st' = st\<lparr>os_meta := ms2\<rparr>"
    using cr ai cm by (auto simp: object_create_def Let_def batch_of_def split: if_splits)
  then show ?thesis
  proof cases
    case commit
    note cc = commit_cases [OF cm] and cv = commit_view(1) [OF cm]
    have k: "ms_map kv ms2 kKeyNextObj = ms_map kv ms1 kKeyNextObj" "ms_map kv ms2 kKeyNextChunk = ms_map kv ms1 kKeyNextChunk"
      using cc(2) batch_other by auto
    have d: "dom (mv_attrs (view_of (ms_map kv ms2))) \<subseteq> dom (mv_attrs (view_of (ms_map kv ms1))) \<union> {oid}"
      "dom (mv_chunk (view_of (ms_map kv ms2))) \<subseteq> dom (mv_chunk (view_of (ms_map kv ms1))) \<union> {}" using cv by auto
    have "po = oid + 1" if "ms_map kv ms1 kKeyNextObj = Some (pod_to_string 8 po)" for po using that ac(5) commit(1) by auto
    then have "counters_ok (ms_map kv ms2) (ms_next_object_id ms2) (ms_next_chunk_id ms2)"
      unfolding cc(3,4) by (intro counters_ok_put [OF c1 k d]) (use inc ac(1) in auto)
    then show ?thesis by (simp add: commit(2))
  qed (use c c1 in simp_all)
qed

lemma write_commit_counters:
  assumes inv: "oinv L st" and c: "cok st" and a: "mv_attrs (vw st) (oa_object_id a1) \<noteq> None"
    and cm: "metadata_commit R (os_meta st) (batch_of (concat (map (seg_ops oid) xs) @ PutAttrs a1 # stage_active_ops (os_active st))) = (s, ms')"
  shows "counters_ok (ms_map kv ms') (ms_next_object_id ms') (ms_next_chunk_id ms')"
proof -
  note cc = commit_cases [OF cm] and cv = commit_view(1) [OF cm]
  have k: "ms_map kv ms' kKeyNextObj = ms_map kv (os_meta st) kKeyNextObj" "ms_map kv ms' kKeyNextChunk = ms_map kv (os_meta st) kKeyNextChunk"
    using cc(2) batch_other by auto
  have e: "\<exists>c. mv_chunk (vw st) i = Some c" if "eff st i = Some y" for i y using eff_facts(5) [OF conjunct1 [OF inv] that] by blast
  have d: "dom (mv_attrs (view_of (ms_map kv ms'))) \<subseteq> dom (mv_attrs (vw st))" "dom (mv_chunk (view_of (ms_map kv ms'))) \<subseteq> dom (mv_chunk (vw st))"
    using cv a by (auto simp: seg_ops_view stage_active_view dest: e split: if_splits)
  show ?thesis unfolding cc(3,4) by (rule counters_ok_same [OF c k d])
qed

lemma object_write_counters:
  assumes inv: "oinv L st" and c: "cok st" and b: "unat (next_chunk st) + length data < 2 ^ 32"
    "\<forall>bs. obj st p = Some bs \<longrightarrow> length bs + length data < 2 ^ 64" and wr: "object_write R st p data now = (s, st')"
  shows "cok st'"
proof (cases "\<exists>oid a. validate_object_path p \<and> path_lookup R (os_meta st) p = Inr oid \<and> get_attrs R (os_meta st) oid = Inr a \<and> data \<noteq> []")
  case False
  then have "st' = st" using wr b(1) by (auto simp: object_write_def split: if_splits sum.splits)
  then show ?thesis using c by simp
next
  case True
  then obtain oid a where o: "validate_object_path p" "path_lookup R (os_meta st) p = Inr oid" "get_attrs R (os_meta st) oid = Inr a" "data \<noteq> []" by blast
  have v: "mv_path (vw st) p = Some oid" "mv_attrs (vw st) oid = Some a"
    and ob: "obj st p = Some (content (mdisk (os_mount st)) (mv_chunk (vw st)) (extents_of (vw st) oid))"
    using find_object(1) [OF inv o(1)] o(2,3) by auto
  have ok: "oa_object_id a = oid" "length (content (mdisk (os_mount st)) (mv_chunk (vw st)) (extents_of (vw st) oid)) = unat (oa_size a)"
    using objects_okD(1) [OF conjunct2 [OF inv] v(2)] content_length [of 0 "extents_of (vw st) oid" "unat (oa_size a)" "mv_chunk (vw st)"]
    by (simp_all add: object_ok_def)
  have sz: "unat (oa_size a) + length data < 2 ^ 64" "0 + length data = length data" using b(2) ob ok(2) by simp_all
  obtain q st1 where wl: "write_loop R st oid data 0 (length data) (oa_size a) 0 [] = (q, st1)" by (rule prod.exhaust)
  note lo = write_loop_ok [OF conjunct1 [OF inv] b(1) sz(2,1) wl]
  have c1: "cok st1" by (rule write_loop_counters [OF conjunct1 [OF inv] c b(1) sz(2) wl])
  obtain r io' where fl: "nebula_io_flush (m_io (os_mount st1)) = (r, io')" by (rule prod.exhaust)
  define st2 where "st2 = st1\<lparr>os_mount := (os_mount st1)\<lparr>m_io := io'\<rparr>\<rparr>"
  note inv1 = conjunct1 [OF conjunct1 [OF conjunct1 [OF lo]]]
  have inv2: "oinv L st2"
    using wstep_objects(1) [OF inv conjunct1 [OF lo]] mount_set_io [OF inv1 io_flush_frame(1) [OF mount_inv_okio [OF inv1] fl]] by (simp add: st2_def)
  have c2: "cok st2" using c1 by (simp add: st2_def)
  obtain xs where xs: "\<forall>added batch. q = Inr (added, batch) \<longrightarrow> batch = batch_of (concat (map (seg_ops oid) xs))" using lo by (cases q) auto
  have dl: "length data < 2 ^ 32" using b(1) by simp
  show ?thesis
  proof (cases rule: object_write_stages [OF o dl wr wl fl xs])
    case 1
    then show ?thesis using c1 by simp
  next
    case 2
    then show ?thesis using c2 by (simp add: st2_def)
  next
    case (3 ab u a1 ms')
    have "mv_attrs (vw st2) (oa_object_id a1) \<noteq> None" using conjunct1 [OF lo] v(2) 3(3) ok(1) by (simp add: st2_def same_objects_def)
    then show ?thesis using write_commit_counters [OF inv2 c2 _ 3(5) [folded st2_def]] 3(6) by simp
  qed
qed

section \<open>Opening again\<close>

lemma engine_ok_adopt:
  assumes ok: "engine_ok L F nc pc act" and "F' \<subseteq> F" and "\<forall>cid c. pc cid = Some c \<longrightarrow> cid < nc'"
    and act': "act' = None \<or> (\<exists>i. act' = pc i)"
  shows "engine_ok L F' nc' pc act'"
  unfolding engine_ok_def
proof (intro conjI allI impI ballI)
  fix cid c assume c: "pc cid = Some c"
  note d = engine_okD(1) [OF ok c]
  show "ck_chunk_id c = cid" "chunk_ok c" "131 + unat (lay_bitmap_block_count L) \<le> unat (ck_lba_start c)"
      "unat (ck_lba_start c) + 16384 \<le> unat (lay_capacity_blocks L)" using d by auto
  show "cid < nc'" using assms(3) c by blast
  show "chunk_blocks c \<inter> F' = {}" using d assms(2) by blast
next
  fix i d j e assume "pc i = Some d \<and> pc j = Some e \<and> i \<noteq> j"
  then show "chunk_blocks d \<inter> chunk_blocks e = {}" using engine_okD(2) [OF ok] by blast
next
  fix a assume "act' = Some a"
  then obtain i where i: "pc i = Some a" using act' by auto
  then have "ck_chunk_id a = i" "chunk_ok a" using engine_okD(1) [OF ok i] by simp_all
  then show "chunk_ok a" "\<exists>c. pc (ck_chunk_id a) = Some c \<and> ck_lba_start c = ck_lba_start a \<and> ck_write_offset c \<le> ck_write_offset a"
    using i by auto
next
  fix b assume "b \<in> F'"
  then show "131 + unat (lay_bitmap_block_count L) \<le> b" using engine_okD(5) [OF ok] assms(2) by blast
qed

lemma chunk_scan_record:
  assumes "chunk_scan R ms cid act = Some (s, act')" and ty: "meta_typed (ms_map kv ms)"
  shows "act' = act \<or> (\<exists>i. act' = mv_chunk (view_of (ms_map kv ms)) i)"
proof -
  have "R = R \<and> ms = ms \<longrightarrow> snd (s, act') = act \<or> (\<exists>i. snd (s, act') = mv_chunk (view_of (ms_map kv ms)) i)"
  proof (rule chunk_scan.raw_induct [where P = "\<lambda>R' ms' cid act y. R' = R \<and> ms' = ms \<longrightarrow> snd y = act \<or> (\<exists>i. snd y = mv_chunk (view_of (ms_map kv ms)) i)", OF _ assms(1)])
    fix f R' ms' cid act y
    assume IH: "\<And>R' ms' cid act y. f R' ms' cid act = Some y \<Longrightarrow> R' = R \<and> ms' = ms \<longrightarrow> snd y = act \<or> (\<exists>i. snd y = mv_chunk (view_of (ms_map kv ms)) i)"
      and bd: "(case get_chunk R' ms' cid of Inl s \<Rightarrow> Some (if s = ERROR_NOT_FOUND then OK else s, act)
        | Inr c \<Rightarrow> f R' ms' (cid + 1) (if \<not> ck_sealed c then Some c else act)) = Some y"
    show "R' = R \<and> ms' = ms \<longrightarrow> snd y = act \<or> (\<exists>i. snd y = mv_chunk (view_of (ms_map kv ms)) i)"
    proof
      assume e: "R' = R \<and> ms' = ms"
      show "snd y = act \<or> (\<exists>i. snd y = mv_chunk (view_of (ms_map kv ms)) i)"
      proof (cases "get_chunk R ms cid")
        case (Inl s)
        then show ?thesis using bd e by auto
      next
        case (Inr c)
        have "mv_chunk (view_of (ms_map kv ms)) cid = Some c" using get_chunk_view [OF ty, of cid] Inr by (auto split: option.splits)
        then show ?thesis using bd e Inr IH [of R ms "cid + 1" "if \<not> ck_sealed c then Some c else act" y] by (auto split: if_splits) metis+
      qed
    qed
  qed
  then show ?thesis by simp
qed

lemma root_not_valid: "\<not> validate_object_path [0x2F]"
  by code_simp

lemma objects_root: "objects d (view_op (PutPath [0x2F] 0) v) = objects d v" "objects_ok no (view_op (PutPath [0x2F] 0) v) \<longleftrightarrow> objects_ok no v"
proof -
  define w where "w = view_op (PutPath [0x2F] 0) v"
  have f: "mv_attrs w = mv_attrs v" "mv_extent w = mv_extent v" "mv_chunk w = mv_chunk v" by (simp_all add: w_def)
  have e: "extents_of w oid = extents_of v oid" for oid by (rule extents_of_cong) (simp add: f)
  have p: "mv_path w q = mv_path v q" if "validate_object_path q" for q using that root_not_valid by (auto simp: w_def)
  have "objects d w = objects d v" using p by (auto simp: fun_eq_iff objects_def e f split: option.splits)
  then show "objects d (view_op (PutPath [0x2F] 0) v) = objects d v" by (simp only: w_def)
  have "object_ok w oid a \<longleftrightarrow> object_ok v oid a" for oid a by (simp add: object_ok_def e f)
  then have "objects_ok no w \<longleftrightarrow> objects_ok no v" unfolding objects_ok_def f by (simp add: p cong: conj_cong)
  then show "objects_ok no (view_op (PutPath [0x2F] 0) v) \<longleftrightarrow> objects_ok no v" by (simp only: w_def)
qed

text \<open>
  The device mounted again as \<open>m'\<close>, with the same blocks and no block free that was not: the store opens
  with the same objects, and an active chunk, if any, in its recorded state.
\<close>

lemma reopen_ok:
  assumes inv: "oinv L st" and c: "cok st" and m': "mount_inv ops dinv L m'" "mdisk m' = mdisk (os_mount st)" "hbm_free (m_bitmap m') \<subseteq> frees st"
    and op: "object_store_start R m' (Some (ms_db (os_meta st))) = Some (Inr st')"
  shows "oinv L st'" and "cok st'" and "obj st' = obj st" and "os_mount st' = m'"
    and "ms_next_object_id (os_meta st') \<le> ms_next_object_id (os_meta st)" and "next_chunk st' \<le> next_chunk st"
    and "mv_chunk (vw st') = mv_chunk (vw st)"
proof -
  obtain ms1 act where mo: "metadata_open R (Some (ms_db (os_meta st))) = (OK, Some ms1)" and co: "chunk_engine_open R ms1 = Some (OK, act)"
      and st': "st' = \<lparr>os_mount = m', os_meta = ms1, os_active = act\<rparr>"
    using op by (auto simp: object_store_start_def split: prod.splits if_splits option.splits)
  note oc = open_cases [OF mo]
  obtain po pc where pp: "ms_map kv (os_meta st) kKeyNextObj = Some (pod_to_string 8 po)" "ms_map kv (os_meta st) kKeyNextChunk = Some (pod_to_string 4 pc)"
      "po \<le> ms_next_object_id (os_meta st)" "pc \<le> next_chunk st"
      "\<forall>oid a. mv_attrs (vw st) oid = Some a \<longrightarrow> oid < po" "\<forall>cid c. mv_chunk (vw st) cid = Some c \<longrightarrow> cid < pc"
    using c unfolding counters_ok_def by blast
  have ids: "ms_next_object_id ms1 = po" "ms_next_chunk_id ms1 = pc" using oc(2,3) pp(1,2) by (simp_all add: counter_of_def)
  have v: "vw st' = view_op (PutPath [0x2F] 0) (vw st) \<or> vw st' = vw st" using opened_view(1) [of "ms_map kv (os_meta st)"] oc(4) by (simp add: st')
  have ty: "meta_typed (ms_map kv ms1)" using opened_view(2) inv oc(4) by simp
  have ch: "mv_chunk (vw st') = mv_chunk (vw st)" "mv_attrs (vw st') = mv_attrs (vw st)" using v by auto
  have ac: "act = None \<or> (\<exists>i. act = mv_chunk (vw st) i)"
    using chunk_scan_record [OF co [unfolded chunk_engine_open_def] ty] ch(1) by (simp add: st')
  have "engine_ok L (hbm_free (m_bitmap m')) pc (mv_chunk (vw st)) act"
    by (rule engine_ok_adopt [OF conjunct2 [OF conjunct2 [OF conjunct1 [OF inv]]] m'(3) pp(6) ac])
  moreover have "objects_ok po (vw st)" using conjunct2 [OF inv] pp(5) unfolding objects_ok_def by blast
  then have "objects_ok po (vw st')" using v objects_root(2) by metis
  ultimately show "oinv L st'" using m'(1) ty ch(1) ids by (simp add: st')
  have k: "ms_map kv ms1 kKeyNextObj = Some (pod_to_string 8 po)" "ms_map kv ms1 kKeyNextChunk = Some (pod_to_string 4 pc)"
    unfolding oc(4) ids by (simp_all add: opened_map_def Let_def)
  show "cok st'" unfolding counters_ok_def using k pp(5,6) ch ids by (intro exI [of _ po] exI [of _ pc]) (simp add: st')
  show "obj st' = obj st" using v objects_root(1) [of "mdisk m'" "vw st"] m'(2) by (auto simp: st')
  show "mv_chunk (vw st') = mv_chunk (vw st)" by (rule ch(1))
  show "os_mount st' = m'" "ms_next_object_id (os_meta st') \<le> ms_next_object_id (os_meta st)" "next_chunk st' \<le> next_chunk st"
    using ids pp(3,4) by (simp_all add: st')
qed

end

end
