(* ===== verification/Objstore_Correct.thy ===== *)
theory Objstore_Correct
  imports Objstore_Reopen Nebula_Fs_Correct
begin

text \<open>
  What the object store guarantees on a POSIX device and a RocksDB database that obeys its documented
  laws: the operations refine a map from paths to contents, along every run with failures and restarts.
\<close>

section \<open>Writes that fit\<close>

text \<open>The bytes that the next reservation can get.\<close>

definition chunk_space :: "chunk option \<Rightarrow> nat" where
  "chunk_space act = (case act of Some a \<Rightarrow> if unat (ck_write_offset a) < 67108864 then 67108864 - unat (ck_write_offset a) else 67108864
     | None \<Rightarrow> 67108864)"

definition chunk_free :: "'d nebula_mount \<Rightarrow> bool" where
  "chunk_free m \<longleftrightarrow> (\<exists>s. s + 16384 \<le> unat (io_capacity_blocks (m_io m)) \<and> run_free (hb_l0_bits (m_bitmap m)) s 16384)"

definition has_room :: "chunk option \<Rightarrow> bool" where
  "has_room act \<longleftrightarrow> (\<exists>a. act = Some a \<and> unat (ck_write_offset a) < 67108864)"

context objstore_env
begin

lemma allocate_succeeds:
  assumes live: "rocksdb_live R kv" and inv: "mount_inv ops dinv L (os_mount st)" and up: "mup (os_mount st)" and free: "chunk_free (os_mount st)"
  shows "\<exists>st' c. allocate_new_chunk_locked R st = (OK, st') \<and> os_active st' = Some c \<and> ck_write_offset c = 0 \<and> chunk_ok c"
proof -
  obtain r m1 where ba: "nebula_block_alloc (os_mount st) kChunkBlocks = (r, m1)" by (rule prod.exhaust)
  have "lay_capacity_blocks L = io_capacity_blocks (m_io (os_mount st))" using inv by (simp add: mount_inv_def)
  then obtain lba where r: "r = Inr lba" using block_alloc_cases(5) [OF inv ba up] free by (cases r) (auto simp: chunk_free_def)
  obtain s1 cid ms1 where ai: "allocate_chunk_id R (os_meta st) = (s1, cid, ms1)" by (rule prod_cases3)
  have s1: "s1 = OK" using rocksdb_live.allocate_live(2) [OF live, of "os_meta st"] ai by simp
  define c where "c = \<lparr>ck_chunk_id = cid, ck_lba_start = lba, ck_write_offset = 0, ck_next_idx = 0, ck_sealed = False\<rparr>"
  obtain s2 ms2 where p: "put_chunk R ms1 c = (s2, ms2)" by (rule prod.exhaust)
  have s2: "s2 = OK" using rocksdb_live.put_chunk_live [OF live, of ms1 c] p by simp
  show ?thesis using ba r ai s1 p s2 by (simp add: allocate_new_chunk_locked_def Let_def c_def chunk_ok_def)
qed

lemma reserve_succeeds:
  assumes live: "rocksdb_live R kv" and ok: "eok L st" and up: "mup (os_mount st)"
    and room: "has_room (os_active st) \<or> chunk_free (os_mount st)" and n: "n \<noteq> 0"
  shows "\<exists>r st'. reserve R st n = (Inr r, st') \<and> unat (rv_length_bytes r) = min (unat n) (chunk_space (os_active st))"
proof -
  have "\<exists>st1 c. ensure_active R st = (OK, st1) \<and> os_active st1 = Some c \<and> chunk_ok c \<and> unat (ck_write_offset c) < 67108864
      \<and> 67108864 - unat (ck_write_offset c) = chunk_space (os_active st)"
  proof (cases "has_room (os_active st)")
    case True
    then obtain a where a: "os_active st = Some a" "unat (ck_write_offset a) < 67108864" by (auto simp: has_room_def)
    then show ?thesis using engine_okD(3) [OF conjunct2 [OF conjunct2 [OF ok]] a(1)]
      by (simp add: ensure_active_def chunk_space_def word_le_nat_alt)
  next
    case False
    define st0 where "st0 = (if os_active st = None then st else snd (seal_active_locked R st))"
    have e: "ensure_active R st = allocate_new_chunk_locked R st0" and m0: "os_mount st0 = os_mount st"
      using False rocksdb_live.put_chunk_live [OF live]
      by (auto simp: ensure_active_def seal_active_locked_def st0_def has_room_def word_le_nat_alt not_less split: option.splits prod.splits)
        (metis fst_conv)+
    have "\<exists>st' c. allocate_new_chunk_locked R st0 = (OK, st') \<and> os_active st' = Some c \<and> ck_write_offset c = 0 \<and> chunk_ok c"
      using allocate_succeeds [OF live, of L st0] ok up room False m0 by simp
    moreover have "chunk_space (os_active st) = 67108864" using False by (auto simp: chunk_space_def has_room_def split: option.splits)
    ultimately show ?thesis unfolding e by auto
  qed
  then obtain st1 c where c: "ensure_active R st = (OK, st1)" "os_active st1 = Some c" "chunk_ok c" "unat (ck_write_offset c) < 67108864"
      "67108864 - unat (ck_write_offset c) = chunk_space (os_active st)" by blast
  obtain r c' where ri: "reserve_in c n = (r, c')" by (rule prod.exhaust)
  have "reserve R st n = (Inr r, st1\<lparr>os_active := Some c'\<rparr>)" using c(1,2) n ri by (simp add: reserve_def)
  then show ?thesis using reserve_in_ok(3) [OF c(3,4) n ri] c(5) by auto
qed

lemma write_loop_fits:
  assumes live: "rocksdb_live R kv" and ok: "eok L st" and up: "mup (os_mount st)"
    and room: "has_room (os_active st) \<or> chunk_free (os_mount st)" and sp: "length src \<le> chunk_space (os_active st)" and src: "src \<noteq> []"
    and nc: "unat (next_chunk st) + length src < 2 ^ 32"
  shows "\<exists>x st'. write_loop R st oid src 0 (length src) logical added batch = (Inr x, st')"
proof -
  define want where "want = (of_nat (min (length src) (2 ^ 32 - 1)) :: u32)"
  have want: "unat want = length src" using nc by (simp add: want_def unat_of_nat min_def)
  have w0: "want \<noteq> 0" using want src by auto
  have r1: "unat (next_chunk st) + 1 < 2 ^ 32" using nc src by (cases src) simp_all
  obtain r st1 where re: "reserve R st want = (Inr r, st1)" and len: "unat (rv_length_bytes r) = length src"
    using reserve_succeeds [OF live ok up room w0] sp want by auto
  obtain s st2 where ws: "write_segment st1 r src 0 = (s, st2)" by (rule prod.exhaust)
  have "s = OK" using write_turn(5) [OF ok r1 re _ ws up] want by simp
  then show ?thesis using src re ws len by (simp add: write_loop.simps [of R st] write_loop.simps [of R st2] Let_def want_def)
qed

lemma object_write_fits:
  assumes live: "rocksdb_live R kv" and inv: "oinv L st" and up: "mup (os_mount st)"
    and room: "has_room (os_active st) \<or> chunk_free (os_mount st)" and sp: "length data \<le> chunk_space (os_active st)"
    and b: "unat (next_chunk st) + length data < 2 ^ 32" "length bs + length data < 2 ^ 64" and bs: "obj st p = Some bs"
    and wr: "object_write R st p data now = (s, st')"
  shows "s = OK"
proof -
  have v: "validate_object_path p" using bs by (simp add: objects_def split: if_splits)
  obtain oid a where o: "path_lookup R (os_meta st) p = Inr oid" "get_attrs R (os_meta st) oid = Inr a" "mv_attrs (vw st) oid = Some a"
      "obj st p = Some (content (mdisk (os_mount st)) (mv_chunk (vw st)) (extents_of (vw st) oid))"
    using find_object(1) [OF inv v] find_object(2) [OF inv v live] bs by auto
  have "length bs = unat (oa_size a)"
    using objects_okD(1) [OF conjunct2 [OF inv] o(3)] content_length [of 0 "extents_of (vw st) oid" "unat (oa_size a)" "mv_chunk (vw st)"] o(4) bs
    by (simp add: object_ok_def)
  then have sz: "unat (oa_size a) + length data < 2 ^ 64" "0 + length data = length data" "length data < 2 ^ 32" using b by simp_all
  show ?thesis
  proof (cases "data = []")
    case True
    then show ?thesis using wr v o by (simp add: object_write_def)
  next
    case False
    obtain q x st1 where wl: "write_loop R st oid data 0 (length data) (oa_size a) 0 [] = (q, st1)" and q: "q = Inr x"
      using write_loop_fits [OF live conjunct1 [OF inv] up room sp False b(1)] by blast
    note lo = write_loop_ok [OF conjunct1 [OF inv] b(1) sz(2,1) wl]
    obtain xs where xs: "\<forall>added batch. q = Inr (added, batch) \<longrightarrow> batch = batch_of (concat (map (seg_ops oid) xs))"
      using lo by (cases q) auto
    obtain r io' where fl: "nebula_io_flush (m_io (os_mount st1)) = (r, io')" by (rule prod.exhaust)
    have "mup (os_mount st1)" using mount_next_up lo up by blast
    then have r: "r = Inr ()" using io_flush_frame(3) [OF mount_inv_okio fl] lo by blast
    show ?thesis
    proof (cases rule: object_write_stages [OF v o(1,2) False sz(3) wr wl fl xs])
      case (3 ab u a1 ms')
      then show ?thesis using rocksdb_live.commit_live [OF live] by (metis fst_conv)
    qed (use r q in auto)
  qed
qed

end

section \<open>On a POSIX device\<close>

lemma posix_env: "rocksdb_store R kv \<Longrightarrow> objstore_env posix_ops posix_blk posix_inv posix_healthy R kv"
  by (intro objstore_env.intro posix.block_backend_axioms)

interpretation refos: objstore_env posix_ops posix_blk posix_inv posix_healthy ref_rocksdb RBT.lookup
  by (rule posix_env [OF ref_is_store])

type_synonym 'db store = "(posix_dev, 'db) objstore"

definition store_ok :: "('db \<Rightarrow> byte list \<Rightarrow> byte list option) \<Rightarrow> nebula_layout \<Rightarrow> 'db store \<Rightarrow> bool" where
  "store_ok kv L st \<longleftrightarrow>
     (let m = os_mount st; ms = os_meta st; v = view_of (kv (ms_db ms)) in
      mount_inv posix_ops posix_inv L m \<and> meta_typed (kv (ms_db ms))
      \<and> engine_ok L (hbm_free (m_bitmap m)) (ms_next_chunk_id ms) (mv_chunk v) (os_active st)
      \<and> objects_ok (ms_next_object_id ms) v \<and> counters_ok (kv (ms_db ms)) (ms_next_object_id ms) (ms_next_chunk_id ms))"

text \<open>The map from paths to contents that a store holds.\<close>

definition store_map :: "('db \<Rightarrow> byte list \<Rightarrow> byte list option) \<Rightarrow> 'db store \<Rightarrow> byte list \<Rightarrow> byte list option" where
  "store_map kv st = objects (posix_blk (io_dev (m_io (os_mount st)))) (view_of (kv (ms_db (os_meta st))))"

text \<open>The blocks that the store may use, and that those of others outside the bitmap stay as they are.\<close>

definition store_area :: "('db \<Rightarrow> byte list \<Rightarrow> byte list option) \<Rightarrow> 'db store \<Rightarrow> nat set" where
  "store_area kv st = hbm_free (m_bitmap (os_mount st)) \<union> chunk_area (mv_chunk (view_of (kv (ms_db (os_meta st)))))"

definition store_frame :: "('db \<Rightarrow> byte list \<Rightarrow> byte list option) \<Rightarrow> nebula_layout \<Rightarrow> 'db store \<Rightarrow> 'db store \<Rightarrow> bool" where
  "store_frame kv L st st' \<longleftrightarrow> store_area kv st' \<subseteq> store_area kv st
     \<and> (\<forall>i. (i < 131 \<or> 131 + unat (lay_bitmap_block_count L) \<le> i) \<and> i \<notin> store_area kv st
          \<longrightarrow> posix_blk (io_dev (m_io (os_mount st'))) i = posix_blk (io_dev (m_io (os_mount st))) i)"

lemmas store_defs = store_ok_def store_map_def store_area_def store_frame_def Let_def

lemma store_frame_refl: "store_frame kv L st st"
  by (simp add: store_frame_def)

lemma store_frame_trans: "store_frame kv L a b \<Longrightarrow> store_frame kv L b c \<Longrightarrow> store_frame kv L a c"
  unfolding store_frame_def by (metis (no_types, lifting) order.trans subsetD)

section \<open>Runs\<close>

text \<open>The calls, their effect on the map, and the bytes and calls that they cost.\<close>

datatype store_call = Create "byte list" | Append "byte list" "byte list" | Read | Restart

fun call_apply :: "store_call \<Rightarrow> (byte list \<Rightarrow> byte list option) \<Rightarrow> byte list \<Rightarrow> byte list option" where
  "call_apply (Create p) M = M(p \<mapsto> [])"
| "call_apply (Append p data) M = M(p \<mapsto> the (M p) @ data)"
| "call_apply Read M = M"
| "call_apply Restart M = M"

fun call_legal :: "store_call \<Rightarrow> (byte list \<Rightarrow> byte list option) \<Rightarrow> bool" where
  "call_legal (Create p) M \<longleftrightarrow> validate_object_path p"
| "call_legal (Append p data) M \<longleftrightarrow> M p \<noteq> None"
| "call_legal Read M \<longleftrightarrow> True"
| "call_legal Restart M \<longleftrightarrow> True"

fun call_cost :: "store_call \<Rightarrow> nat" where
  "call_cost (Append p data) = length data + 1"
| "call_cost _ = 1"

text \<open>A call that succeeds is applied; one that fails is not, except that a failed commit may have been.\<close>

definition call_effect :: "store_call \<Rightarrow> status \<Rightarrow> (byte list \<Rightarrow> byte list option) \<Rightarrow> (byte list \<Rightarrow> byte list option) \<Rightarrow> bool" where
  "call_effect c s M M' \<longleftrightarrow> s \<in> {OK, ERROR_METADATA} \<and> call_legal c M \<and> M' = call_apply c M \<or> s \<noteq> OK \<and> M' = M"

inductive explained :: "(byte list \<Rightarrow> byte list option) \<Rightarrow> (store_call \<times> status) list \<Rightarrow> (byte list \<Rightarrow> byte list option) \<Rightarrow> bool" where
  e_nil: "explained M [] M"
| e_snoc: "explained M tr M1 \<Longrightarrow> call_effect c s M1 M2 \<Longrightarrow> explained M (tr @ [(c, s)]) M2"

text \<open>
  A run with the trace of its calls and their statuses: operations that may fail, and restarts, which open
  the database again on the device mounted again; the mount has the same blocks and no block free that was
  not.
\<close>

inductive store_run :: "'db rocksdb \<Rightarrow> nebula_layout \<Rightarrow> 'db store \<Rightarrow> (store_call \<times> status) list \<Rightarrow> 'db store \<Rightarrow> bool"
  for R :: "'db rocksdb" and L :: nebula_layout and st0 :: "'db store" where
  start: "store_run R L st0 [] st0"
| create: "store_run R L st0 tr st \<Longrightarrow> object_create R st p now = (s, st') \<Longrightarrow> store_run R L st0 (tr @ [(Create p, s)]) st'"
| append: "store_run R L st0 tr st \<Longrightarrow> object_write R st p data now = (s, st') \<Longrightarrow> store_run R L st0 (tr @ [(Append p data, s)]) st'"
| read: "store_run R L st0 tr st \<Longrightarrow> object_read R st p offset cap dst = (q, out, st')
    \<Longrightarrow> store_run R L st0 (tr @ [(Read, case q of Inl s \<Rightarrow> s | Inr _ \<Rightarrow> OK)]) st'"
| restart: "store_run R L st0 tr st \<Longrightarrow> mount_inv posix_ops posix_inv L m'
    \<Longrightarrow> posix_blk (io_dev (m_io m')) = posix_blk (io_dev (m_io (os_mount st)))
    \<Longrightarrow> hbm_free (m_bitmap m') \<subseteq> hbm_free (m_bitmap (os_mount st))
    \<Longrightarrow> object_store_start R m' (Some (ms_db (os_meta st))) = Some (Inr st') \<Longrightarrow> store_run R L st0 (tr @ [(Restart, OK)]) st'"

definition run_cost :: "(store_call \<times> status) list \<Rightarrow> nat" where
  "run_cost tr = sum_list (map (call_cost \<circ> fst) tr)"

definition store_bound :: "('db \<Rightarrow> byte list \<Rightarrow> byte list option) \<Rightarrow> nat \<Rightarrow> 'db store \<Rightarrow> bool" where
  "store_bound kv n st \<longleftrightarrow> unat (ms_next_object_id (os_meta st)) \<le> n \<and> unat (ms_next_chunk_id (os_meta st)) \<le> n
     \<and> (\<forall>p bs. store_map kv st p = Some bs \<longrightarrow> length bs \<le> n)"

text \<open>One call: the invariant, the frame and the effect.\<close>

definition store_goes :: "('db \<Rightarrow> byte list \<Rightarrow> byte list option) \<Rightarrow> nebula_layout \<Rightarrow> store_call \<Rightarrow> status \<Rightarrow> 'db store \<Rightarrow> 'db store \<Rightarrow> bool" where
  "store_goes kv L c s st st' \<longleftrightarrow> store_ok kv L st' \<and> store_frame kv L st st' \<and> call_effect c s (store_map kv st) (store_map kv st')"

lemma object_create_ids:
  assumes "object_create R st p now = (s, st')"
  shows "ms_next_object_id (os_meta st') \<in> {ms_next_object_id (os_meta st), ms_next_object_id (os_meta st) + 1}"
    and "ms_next_chunk_id (os_meta st') = ms_next_chunk_id (os_meta st)"
  using assms by (auto simp: object_create_def allocate_object_id_def metadata_commit_def Let_def split: if_splits prod.splits)

text \<open>The invariant, as the operations use it.\<close>

lemma store_ok_iff:
  "store_ok kv L st \<longleftrightarrow>
     ((mount_inv posix_ops posix_inv L (os_mount st) \<and> meta_typed (kv (ms_db (os_meta st)))
       \<and> engine_ok L (hbm_free (m_bitmap (os_mount st))) (ms_next_chunk_id (os_meta st)) (mv_chunk (view_of (kv (ms_db (os_meta st))))) (os_active st))
      \<and> objects_ok (ms_next_object_id (os_meta st)) (view_of (kv (ms_db (os_meta st)))))
     \<and> counters_ok (kv (ms_db (os_meta st))) (ms_next_object_id (os_meta st)) (ms_next_chunk_id (os_meta st))"
  by (auto simp: store_ok_def Let_def)

lemma create_goes:
  assumes R: "rocksdb_store R kv" and ok: "store_ok kv L st" and b: "store_bound kv n st" "n + 1 < 2 ^ 32"
    and cr: "object_create R st p now = (s, st')"
  shows "store_goes kv L (Create p) s st st'" and "store_bound kv (n + 1) st'"
proof -
  note E = posix_env [OF R] and ok' = ok [unfolded store_ok_iff]
  have room: "unat (ms_next_object_id (os_meta st)) + 1 < 2 ^ 64" using b by (simp add: store_bound_def)
  note oc = objstore_env.object_create_ok [OF E conjunct1 [OF ok'] room cr]
  have m: "store_map kv st' = store_map kv st \<or> validate_object_path p \<and> store_map kv st' = (store_map kv st)(p \<mapsto> [])"
    using oc(2-4) unfolding store_map_def by (cases "s = OK") auto
  have "store_ok kv L st'"
    unfolding store_ok_iff using oc(1) objstore_env.object_create_counters [OF E conjunct2 [OF ok'] room cr] by blast
  moreover have "store_frame kv L st st'" unfolding store_frame_def store_area_def using oc(1) by blast
  moreover have "call_effect (Create p) s (store_map kv st) (store_map kv st')"
    using oc(2-4) unfolding store_map_def call_effect_def by (cases "s = OK") auto
  ultimately show "store_goes kv L (Create p) s st st'" by (simp add: store_goes_def)
  have "unat (ms_next_object_id (os_meta st) + 1) = unat (ms_next_object_id (os_meta st)) + 1"
    using word_inc [of "ms_next_object_id (os_meta st)"] room by simp
  then show "store_bound kv (n + 1) st'"
    using b(1) m object_create_ids [OF cr] unfolding store_bound_def by (auto split: if_splits intro: le_SucI)
qed

lemma append_goes:
  assumes R: "rocksdb_store R kv" and ok: "store_ok kv L st" and b: "store_bound kv n st" "n + length data + 1 < 2 ^ 32"
    and wr: "object_write R st p data now = (s, st')"
  shows "store_goes kv L (Append p data) s st st'" and "store_bound kv (n + (length data + 1)) st'"
proof -
  note E = posix_env [OF R] and ok' = ok [unfolded store_ok_iff]
  have nc: "unat (ms_next_chunk_id (os_meta st)) + length data < 2 ^ 32" using b by (simp add: store_bound_def)
  have "length bs \<le> n" if "store_map kv st p = Some bs" for bs using b(1) that by (simp add: store_bound_def)
  then have sz: "\<forall>bs. objects (posix_blk (io_dev (m_io (os_mount st)))) (view_of (kv (ms_db (os_meta st)))) p = Some bs \<longrightarrow> length bs + length data < 2 ^ 64"
    using b(2) unfolding store_map_def by fastforce
  note ow = objstore_env.object_write_ok [OF E conjunct1 [OF ok'] nc sz wr]
  have m: "store_map kv st' = store_map kv st \<or> (\<exists>bs. store_map kv st p = Some bs \<and> store_map kv st' = (store_map kv st)(p \<mapsto> bs @ data))"
    using ow unfolding store_map_def by blast
  have "store_ok kv L st'"
    unfolding store_ok_iff using ow ok' objstore_env.object_write_counters [OF E conjunct1 [OF ok'] conjunct2 [OF ok'] nc sz wr] by blast
  moreover have "store_frame kv L st st'" unfolding store_frame_def store_area_def using ow by blast
  moreover have "call_effect (Append p data) s (store_map kv st) (store_map kv st')"
    using ow unfolding store_map_def call_effect_def by (elim disjE conjE exE) simp_all
  ultimately show "store_goes kv L (Append p data) s st st'" by (simp add: store_goes_def)
  have "unat (ms_next_chunk_id (os_meta st')) \<le> unat (ms_next_chunk_id (os_meta st)) + length data"
    "ms_next_object_id (os_meta st') = ms_next_object_id (os_meta st)" using ow by auto
  moreover have "length bs \<le> n + length data + 1" if "store_map kv st' q = Some bs" for q bs
    using that m b(1) by (fastforce simp: store_bound_def split: if_splits)
  ultimately show "store_bound kv (n + (length data + 1)) st'" using b(1) unfolding store_bound_def by auto
qed

lemma read_goes:
  assumes ok: "store_ok kv L st" and b: "store_bound kv n st" and rd: "object_read R st p offset cap dst = (q, out, st')"
  shows "store_goes kv L Read s st st'" and "store_bound kv (n + 1) st'"
proof -
  have "mount_inv posix_ops posix_inv L (os_mount st)" using ok by (simp add: store_ok_iff)
  note sd = posix.object_read_same [OF this rd]
  have m: "store_map kv st' = store_map kv st" using sd by (simp add: store_map_def)
  then show "store_goes kv L Read s st st'" using sd ok by (auto simp: store_goes_def call_effect_def store_ok_iff store_frame_def store_area_def)
  show "store_bound kv (n + 1) st'" using b sd m by (auto simp: store_bound_def intro: le_SucI)
qed

lemma restart_goes:
  assumes R: "rocksdb_store R kv" and ok: "store_ok kv L st" and b: "store_bound kv n st"
    and m': "mount_inv posix_ops posix_inv L m'" "posix_blk (io_dev (m_io m')) = posix_blk (io_dev (m_io (os_mount st)))"
      "hbm_free (m_bitmap m') \<subseteq> hbm_free (m_bitmap (os_mount st))"
    and op: "object_store_start R m' (Some (ms_db (os_meta st))) = Some (Inr st')"
  shows "store_ok kv L st' \<and> store_map kv st' = store_map kv st" and "store_goes kv L Restart OK st st'" and "store_bound kv (n + 1) st'"
proof -
  note E = posix_env [OF R] and ok' = ok [unfolded store_ok_iff]
  note ro = objstore_env.reopen_ok [OF E conjunct1 [OF ok'] conjunct2 [OF ok'] m' op]
  have sk: "store_ok kv L st'" unfolding store_ok_iff using ro(1,2) by blast
  have m: "store_map kv st' = store_map kv st" using ro(3) by (simp add: store_map_def)
  show "store_ok kv L st' \<and> store_map kv st' = store_map kv st" using sk m by simp
  have "store_frame kv L st st'" using ro(4,7) m' by (auto simp: store_frame_def store_area_def)
  then show "store_goes kv L Restart OK st st'" using sk m by (simp add: store_goes_def call_effect_def)
  show "store_bound kv (n + 1) st'" using b m ro(5,6) by (auto simp: store_bound_def word_le_nat_alt intro: le_SucI)
qed

lemma run_cost_snoc: "run_cost (tr @ [(c, s)]) = run_cost tr + call_cost c"
  by (simp add: run_cost_def)

definition run_ok :: "('db \<Rightarrow> byte list \<Rightarrow> byte list option) \<Rightarrow> nebula_layout \<Rightarrow> 'db store \<Rightarrow> (store_call \<times> status) list \<Rightarrow> 'db store \<Rightarrow> bool" where
  "run_ok kv L st0 tr st \<longleftrightarrow> store_ok kv L st \<and> store_frame kv L st0 st \<and> explained (store_map kv st0) tr (store_map kv st)"

lemma run_ok_snoc: "run_ok kv L st0 tr st \<Longrightarrow> store_goes kv L c s st st' \<Longrightarrow> run_ok kv L st0 (tr @ [(c, s)]) st'"
  unfolding run_ok_def store_goes_def using store_frame_trans e_snoc by blast

lemma store_run_ok:
  assumes R: "rocksdb_store R kv" and "store_run R L st0 tr st" and "store_ok kv L st0" and "store_bound kv n st0" and "n + run_cost tr < 2 ^ 32"
  shows "run_ok kv L st0 tr st \<and> store_bound kv (n + run_cost tr) st"
  using assms(2-)
proof (induction rule: store_run.induct)
  case start
  then show ?case by (simp add: run_ok_def store_frame_refl e_nil run_cost_def)
next
  case (create tr st p now s st')
  have ih: "run_ok kv L st0 tr st" "store_bound kv (n + run_cost tr) st" "n + run_cost tr + 1 < 2 ^ 32" "store_ok kv L st"
    using create.IH create.prems by (simp_all add: run_cost_snoc run_ok_def)
  note g = create_goes [OF R ih(4,2,3) create.hyps(2)]
  show ?case using run_ok_snoc [OF ih(1) g(1)] g(2) by (simp add: run_cost_snoc)
next
  case (append tr st p data now s st')
  have ih: "run_ok kv L st0 tr st" "store_bound kv (n + run_cost tr) st" "n + run_cost tr + length data + 1 < 2 ^ 32" "store_ok kv L st"
    using append.IH append.prems by (simp_all add: run_cost_snoc run_ok_def)
  note g = append_goes [OF R ih(4,2,3) append.hyps(2)]
  show ?case using run_ok_snoc [OF ih(1) g(1)] g(2) by (simp add: run_cost_snoc add.assoc)
next
  case (read tr st p offset cap dst q out st')
  have ih: "run_ok kv L st0 tr st" "store_bound kv (n + run_cost tr) st" "store_ok kv L st"
    using read.IH read.prems by (simp_all add: run_cost_snoc run_ok_def)
  note g = read_goes [OF ih(3,2) read.hyps(2)]
  show ?case using run_ok_snoc [OF ih(1) g(1)] g(2) by (simp add: run_cost_snoc)
next
  case (restart tr st m' st')
  have ih: "run_ok kv L st0 tr st" "store_bound kv (n + run_cost tr) st" "store_ok kv L st"
    using restart.IH restart.prems by (simp_all add: run_cost_snoc run_ok_def)
  note g = restart_goes [OF R ih(3,2) restart.hyps(2-5)]
  show ?case using run_ok_snoc [OF ih(1) g(2)] g(3) by (simp add: run_cost_snoc)
qed

section \<open>Opening succeeds\<close>

text \<open>
  The active chunk after opening: the last unsealed one among the recorded chunks \<open>1, 2, \<dots>\<close> up to the first
  identifier that is not recorded.
\<close>

definition adopted :: "(u32 \<Rightarrow> chunk option) \<Rightarrow> chunk option \<Rightarrow> bool" where
  "adopted pc act \<longleftrightarrow> (\<exists>k. 1 \<le> k \<and> (\<forall>i. 1 \<le> i \<and> i < k \<longrightarrow> pc (of_nat i) \<noteq> None) \<and> pc (of_nat k) = None \<and> act = adopt pc 1 k None)"

context rocksdb_live
begin

lemma put_ok: obtains db' where "kv_put R db k v = (True, db')" and "kv db' = (kv db)(k \<mapsto> v)"
  using put_live [of db k v] put_law [of db k v True] by (cases "kv_put R db k v") auto

lemma write_ok: obtains db' where "kv_write R db wb = (True, db')"
  using write_live [of db wb] by (cases "kv_write R db wb") auto

lemma metadata_open_live:
  assumes sc: "schema_ok (kv db)" and "counter_of 8 (kv db kKeyNextObj) = Some (no :: u64)" and "counter_of 4 (kv db kKeyNextChunk) = Some (nc :: u32)"
  shows "\<exists>ms. metadata_open R (Some db) = (OK, Some ms)"
proof -
  obtain db1 where r: "(case kv_get R db kKeyRootDir of NotFound \<Rightarrow> kv_put R db kKeyRootDir (pod_to_string 8 (0 :: u64))
      | Found _ \<Rightarrow> (True, db) | KvError \<Rightarrow> (False, db)) = (True, db1)" and k1: "\<And>k. k \<noteq> kKeyRootDir \<Longrightarrow> kv db1 k = kv db k"
  proof (cases "kv db kKeyRootDir")
    case None
    obtain db' where "kv_put R db kKeyRootDir (pod_to_string 8 (0 :: u64)) = (True, db')"
        "kv db' = (kv db)(kKeyRootDir \<mapsto> pod_to_string 8 (0 :: u64))" by (rule put_ok)
    then show ?thesis using None by (intro that [of db']) (simp_all add: kv_get_live)
  next
    case (Some x)
    then show ?thesis by (intro that [of db]) (simp_all add: kv_get_live)
  qed
  define ms where "ms = \<lparr>ms_db = db1, ms_next_object_id = 1, ms_next_chunk_id = 1\<rparr>"
  have ck: "kKeySchema \<noteq> kKeyRootDir" "kKeyNextObj \<noteq> kKeyRootDir" "kKeyNextChunk \<noteq> kKeyRootDir" by simp_all
  obtain ms1 where i: "init_or_check_schema_locked R ms = (OK, ms1)" and k2: "\<And>k. k \<noteq> kKeySchema \<Longrightarrow> ms_map kv ms1 k = kv db1 k"
  proof (cases "kv db1 kKeySchema")
    case None
    obtain db' where p: "kv_put R db1 kKeySchema (pod_to_string 4 kSchemaVersion) = (True, db')" "kv db' = (kv db1)(kKeySchema \<mapsto> pod_to_string 4 kSchemaVersion)"
      by (rule put_ok)
    then show ?thesis using None by (intro that [of "ms\<lparr>ms_db := db'\<rparr>"]) (simp_all add: init_or_check_schema_locked_def kv_get_live ms_def)
  next
    case (Some x)
    then have "string_to_pod 4 x = Some kSchemaVersion" using sc k1 [OF ck(1)] by (simp add: schema_ok_def)
    then show ?thesis using Some by (intro that [of ms]) (simp_all add: init_or_check_schema_locked_def kv_get_live ms_def)
  qed
  have c: "counter_of 8 (ms_map kv ms1 kKeyNextObj) = Some no" "counter_of 4 (ms_map kv ms1 kKeyNextChunk) = Some nc"
    using assms(2,3) k1 k2 ck by (simp_all add: k1 k2)
  obtain db2 where w: "kv_write R (ms_db ms1) [(kKeyNextObj, pod_to_string 8 no), (kKeyNextChunk, pod_to_string 4 nc)] = (True, db2)"
    by (rule write_ok)
  have "\<exists>ms2. read_counters_locked R ms1 = (OK, ms2)"
    using c w by (auto simp: read_counters_locked_def persist_counters_locked_def kv_get_live counter_of_def Let_def split: option.splits)
  then show ?thesis using r i by (auto simp: metadata_open_def Let_def ms_def)
qed

lemma chunk_engine_open_live:
  assumes ty: "meta_typed (ms_map kv ms)" and b: "\<And>cid c. mv_chunk (view_of (ms_map kv ms)) cid = Some c \<Longrightarrow> cid < nc"
  shows "\<exists>act. chunk_engine_open R ms = Some (OK, act) \<and> adopted (mv_chunk (view_of (ms_map kv ms))) act"
proof -
  let ?P = "\<lambda>i. 1 \<le> i \<and> mv_chunk (view_of (ms_map kv ms)) (of_nat i) = None"
  have "?P (max 1 (unat nc))"
  proof (cases "unat nc \<le> 1")
    case True
    then have "\<not> 1 < nc" by (simp add: word_less_nat_alt)
    then show ?thesis using True b [of 1] by (cases "mv_chunk (view_of (ms_map kv ms)) 1") (auto simp: max_def)
  next
    case False
    then show ?thesis using b [of nc] by (cases "mv_chunk (view_of (ms_map kv ms)) nc") (auto simp: max_def)
  qed
  then obtain k where k: "?P k" "\<forall>i < k. \<not> ?P i" using exists_least_iff [of ?P] by blast
  have "chunk_scan R ms (of_nat 1) None = Some (OK, adopt (mv_chunk (view_of (ms_map kv ms))) 1 k None)"
    using k by (intro chunk_scan_adopts [OF ty]) auto
  moreover have "adopted (mv_chunk (view_of (ms_map kv ms))) (adopt (mv_chunk (view_of (ms_map kv ms))) 1 k None)"
    unfolding adopted_def using k by (intro exI [of _ k]) auto
  ultimately show ?thesis by (simp add: chunk_engine_open_def)
qed

end

lemma object_store_starts:
  assumes live: "rocksdb_live R kv" and ok: "store_ok kv L st" and sc: "schema_ok (kv (ms_db (os_meta st)))"
  shows "\<exists>st'. object_store_start R m' (Some (ms_db (os_meta st))) = Some (Inr st')
    \<and> adopted (mv_chunk (view_of (kv (ms_db (os_meta st))))) (os_active st')"
proof -
  let ?db = "ms_db (os_meta st)"
  have R: "rocksdb_store R kv" using live by (simp add: rocksdb_live_def)
  note ok' = ok [unfolded store_ok_iff]
  obtain po :: u64 and pc :: u32 where pp: "kv ?db kKeyNextObj = Some (pod_to_string 8 po)" "kv ?db kKeyNextChunk = Some (pod_to_string 4 pc)"
      "\<forall>cid c. mv_chunk (view_of (kv ?db)) cid = Some c \<longrightarrow> cid < pc"
    using conjunct2 [OF ok'] unfolding counters_ok_def by blast
  have co: "counter_of 8 (kv ?db kKeyNextObj) = Some po" "counter_of 4 (kv ?db kKeyNextChunk) = Some pc"
    using pp(1,2) by (simp_all add: counter_of_def)
  obtain ms where mo: "metadata_open R (Some ?db) = (OK, Some ms)" using rocksdb_live.metadata_open_live [OF live sc co] by blast
  have m: "kv (ms_db ms) = opened_map (kv ?db) (ms_next_object_id ms) (ms_next_chunk_id ms)" by (rule rocksdb_store.open_cases(4) [OF R mo])
  have ty: "meta_typed (kv (ms_db ms))" unfolding m using ok by (intro opened_view(2)) (simp add: store_ok_iff)
  have ch: "mv_chunk (view_of (kv (ms_db ms))) = mv_chunk (view_of (kv ?db))" unfolding m opened_view(1) by simp
  then obtain act where "chunk_engine_open R ms = Some (OK, act)" "adopted (mv_chunk (view_of (kv (ms_db ms)))) act"
    using pp(3) rocksdb_live.chunk_engine_open_live [OF live ty, of pc] by auto
  then show ?thesis using mo ch by (simp add: object_store_start_def)
qed

end
