(* ===== verification/Objstore_Durable.thy ===== *)
theory Objstore_Durable
  imports Objstore_Correct
begin

text \<open>
  What the device and the database hold between two runs of the object store, and that it is enough to open
  the store again, the mount included: the boot blocks are in place, the bitmap on the device is the one in
  memory, and the schema version is current.  Calls on a device without faults keep this, whatever the
  database does.
\<close>

section \<open>The bitmap and the schema version\<close>

context objstore_env
begin

abbreviation tails :: "nebula_layout \<Rightarrow> 'd nebula_mount \<Rightarrow> bool" where
  "tails L m \<equiv> bitmap_synced blk L m \<and> tail_clear (hb_l0_bits (m_bitmap m)) (unat (lay_capacity_blocks L))"

abbreviation schema_at :: "('d, 'db) objstore \<Rightarrow> byte list option" where
  "schema_at st \<equiv> ms_map kv (os_meta st) kKeySchema"

abbreviation keeps :: "nebula_layout \<Rightarrow> ('d, 'db) objstore \<Rightarrow> ('d, 'db) objstore \<Rightarrow> bool" where
  "keeps L st st' \<equiv> tails L (os_mount st') \<and> schema_at st' = schema_at st"

lemma bitmap_synced_frame:
  assumes "mount_inv ops dinv L m" and "bitmap_synced blk L m" and "m_bitmap m' = m_bitmap m"
    and "\<And>i. 131 \<le> i \<Longrightarrow> i < 131 + unat (lay_bitmap_block_count L) \<Longrightarrow> mdisk m' i = mdisk m i"
  shows "bitmap_synced blk L m'"
proof -
  have "unat (lay_bitmap_lba L) = 131" using mount_inv_geometry(1) [OF assms(1)] .
  then have "bitmap_region (mdisk m') L = bitmap_region (mdisk m) L"
    unfolding bitmap_region_def using assms(4) by (auto intro!: arg_cong [where f = concat])
  then show ?thesis using assms(2,3) by (simp add: bitmap_synced_def)
qed

lemma block_alloc_tails:
  assumes inv: "mount_inv ops dinv L m" and up: "mup m" and t: "tails L m" and al: "nebula_block_alloc m n = (r, m')"
  shows "tails L m'"
proof (cases r)
  case (Inl e)
  then show ?thesis using block_alloc_cases(5) [OF inv al up] t by auto
next
  case (Inr lba)
  note b = block_alloc_cases(4) [OF inv al Inr]
  note g = mount_inv_geometry [OF inv]
  have fr: "{unat lba..<unat lba + unat n} \<subseteq> hbm_free (m_bitmap m)" and n: "0 < unat n" using b by (auto simp: unat_gt_0)
  have bits: "hb_l0_bits (m_bitmap m') = set_bits (hb_l0_bits (m_bitmap m)) (unat lba) (unat n)"
    using b mark_used_ok(3) [OF g(7) n fr] by simp
  have "unat lba + unat n \<le> unat (lay_capacity_blocks L)"
  proof -
    have "unat lba + unat n - 1 \<in> hbm_free (m_bitmap m)" using fr n by auto
    then show ?thesis using n g(8) by (auto simp: free_blocks_def)
  qed
  then have "tail_clear (hb_l0_bits (m_bitmap m')) (unat (lay_capacity_blocks L))"
    using t g(5,6) unfolding bits tail_clear_def by (auto simp: bit_get_set_bits)
  then show ?thesis using b t by blast
qed

lemma put_chunk_schema: "put_chunk R ms c = (s, ms') \<Longrightarrow> ms_map kv ms' kKeySchema = ms_map kv ms kKeySchema"
  using put_chunk_cases(2) [of ms c s ms'] by auto

lemma allocate_keeps:
  assumes inv: "mount_inv ops dinv L (os_mount st)" and up: "mup (os_mount st)" and t: "tails L (os_mount st)"
    and al: "allocate_new_chunk_locked R st = (s, st')"
  shows "keeps L st st'"
proof -
  obtain r m1 where ba: "nebula_block_alloc (os_mount st) kChunkBlocks = (r, m1)" by (rule prod.exhaust)
  have m1: "tails L m1" by (rule block_alloc_tails [OF inv up t ba])
  obtain s1 cid ms1 where ai: "allocate_chunk_id R (os_meta st) = (s1, cid, ms1)" by (rule prod_cases3)
  have k1: "ms_map kv ms1 kKeySchema = schema_at st" using allocate_chunk_id_cases(5) [OF ai] by auto
  define c where "c = (\<lambda>lba. \<lparr>ck_chunk_id = cid, ck_lba_start = lba, ck_write_offset = 0, ck_next_idx = 0, ck_sealed = False\<rparr>)"
  have "os_mount st' = m1" and "os_meta st' \<in> {os_meta st, ms1} \<or> (\<exists>s2 lba. put_chunk R ms1 (c lba) = (s2, os_meta st'))"
    using al ba ai by (auto simp: allocate_new_chunk_locked_def Let_def c_def split: sum.splits if_splits prod.splits)
  then show ?thesis using m1 k1 put_chunk_schema [of ms1] by auto
qed

lemma reserve_keeps:
  assumes inv: "mount_inv ops dinv L (os_mount st)" and up: "mup (os_mount st)" and t: "tails L (os_mount st)"
    and re: "reserve R st n = (q, st')"
  shows "keeps L st st'"
proof -
  obtain s st1 where en: "ensure_active R st = (s, st1)" by (rule prod.exhaust)
  have "keeps L st st1"
  proof (cases "os_active st")
    case None
    then show ?thesis using en allocate_keeps [OF inv up t] by (simp add: ensure_active_def)
  next
    case (Some a)
    obtain s1 ms1 where p: "put_chunk R (os_meta st) (a\<lparr>ck_sealed := True\<rparr>) = (s1, ms1)" by (rule prod.exhaust)
    define st0 where "st0 = st\<lparr>os_meta := ms1, os_active := None\<rparr>"
    have "keeps L st st0" using t put_chunk_schema [OF p] by (simp add: st0_def)
    moreover have "keeps L st0 st1" if "allocate_new_chunk_locked R st0 = (s, st1)"
      using allocate_keeps [OF _ _ _ that] inv up t by (simp add: st0_def)
    moreover have "st1 \<in> {st, st0} \<or> allocate_new_chunk_locked R st0 = (s, st1)"
      using en Some p by (auto simp: ensure_active_def seal_active_locked_def st0_def split: if_splits)
    ultimately show ?thesis using t by auto
  qed
  then show ?thesis using re en t by (auto simp: reserve_def split: if_splits option.splits prod.splits)
qed

lemma write_loop_keeps:
  assumes "eok L st" and "mup (os_mount st)" and "tails L (os_mount st)" and "unat (next_chunk st) + remaining < 2 ^ 32"
    and "cursor + remaining = length src" and "write_loop R st oid src cursor remaining logical added batch = (q, st')"
  shows "keeps L st st'"
  using assms
proof (induction remaining arbitrary: st cursor logical added batch rule: less_induct)
  case (less remaining)
  note ok = less.prems(1)
  show ?case
  proof (cases "remaining = 0")
    case True
    then show ?thesis using less.prems(3,6) by (simp add: write_loop.simps)
  next
    case rem: False
    define want where "want = (of_nat (min remaining (2 ^ 32 - 1)) :: u32)"
    have want: "unat want = remaining" using less.prems(4) by (simp add: want_def unat_of_nat min_def)
    have room: "unat (next_chunk st) + 1 < 2 ^ 32" using less.prems(4) rem by simp
    obtain rr st1 where re: "reserve R st want = (rr, st1)" by (rule prod.exhaust)
    have k1: "keeps L st st1" by (rule reserve_keeps [OF conjunct1 [OF ok] less.prems(2,3) re])
    show ?thesis
    proof (cases rr)
      case (Inl e)
      then show ?thesis using less.prems(6) rem re k1 by (auto simp: write_loop.simps [of R st] Let_def want_def)
    next
      case (Inr r)
      obtain s st2 where ws: "write_segment st1 r src cursor = (s, st2)" by (rule prod.exhaust)
      have src: "cursor + unat want \<le> length src" using want less.prems(5) by simp
      note tu = write_turn [OF ok room re [unfolded Inr] src ws]
      note rs = reserve_step [OF ok room re]
      have rv: "reserved L want (eff st) (eff st1) r" using rs(2) [OF Inr] by blast
      then obtain c where c: "eff st1 (rv_chunk_id r) = Some c" "131 + unat (lay_bitmap_block_count L) \<le> unat (rv_physical_lba r)"
        unfolding reserved_def by auto
      have inv1: "mount_inv ops dinv L (os_mount st1)" using rs(1) by blast
      have src': "cursor + unat (rv_length_bytes r) \<le> length src" using src tu(7) by simp
      note wo = write_segment_ok [OF inv1 rv src' ws c(1)]
      have b2: "m_bitmap (os_mount st2) = m_bitmap (os_mount st1)" "os_meta st2 = os_meta st1" using wo(1) by simp_all
      have "bitmap_synced blk L (os_mount st2)"
        by (rule bitmap_synced_frame [OF inv1 _ b2(1)]) (use k1 wo(3) c(2) in auto)
      then have k2: "keeps L st st2" using k1 b2 by simp
      define n where "n = unat (rv_length_bytes r)"
      have n: "1 \<le> n" "n \<le> remaining" using tu(6,7) want by (simp_all add: n_def)
      show ?thesis
      proof (cases "s = OK")
        case False
        then show ?thesis using less.prems(6) rem re Inr ws k2 by (auto simp: write_loop.simps [of R st] Let_def want_def)
      next
        case True
        then obtain lg ad bt where lp: "write_loop R st2 oid src (cursor + n) (remaining - n) lg ad bt = (q, st')"
          using less.prems(6) rem re Inr ws by (auto simp: write_loop.simps [of R st] Let_def want_def n_def)
        have "remaining - n < remaining" "unat (next_chunk st2) + (remaining - n) < 2 ^ 32" "cursor + n + (remaining - n) = length src"
          using n tu(2) less.prems(4,5) by linarith+
        moreover have "mup (os_mount st2)" using mount_next_up tu(1) less.prems(2) by blast
        ultimately have "keeps L st2 st'" using less.IH [OF _ conjunct1 [OF tu(1)] _ _ _ _ lp] k2 by simp
        then show ?thesis using k2 by simp
      qed
    qed
  qed
qed

lemma object_write_keeps:
  assumes inv: "oinv L st" and up: "mup (os_mount st)" and t: "tails L (os_mount st)"
    and b: "unat (next_chunk st) + length data < 2 ^ 32"
    "\<forall>bs. obj st p = Some bs \<longrightarrow> length bs + length data < 2 ^ 64" and wr: "object_write R st p data now = (s, st')"
  shows "keeps L st st'"
proof (cases "\<exists>oid a. validate_object_path p \<and> path_lookup R (os_meta st) p = Inr oid \<and> get_attrs R (os_meta st) oid = Inr a \<and> data \<noteq> []")
  case False
  then have "st' = st" using wr b(1) by (auto simp: object_write_def split: if_splits sum.splits)
  then show ?thesis using t by simp
next
  case True
  then obtain oid a where o: "validate_object_path p" "path_lookup R (os_meta st) p = Inr oid" "get_attrs R (os_meta st) oid = Inr a" "data \<noteq> []" by blast
  have v: "mv_path (vw st) p = Some oid" "mv_attrs (vw st) oid = Some a"
    and ob: "obj st p = Some (content (mdisk (os_mount st)) (mv_chunk (vw st)) (extents_of (vw st) oid))"
    using find_object(1) [OF inv o(1)] o(2,3) by auto
  have "length (content (mdisk (os_mount st)) (mv_chunk (vw st)) (extents_of (vw st) oid)) = unat (oa_size a)"
    using objects_okD(1) [OF conjunct2 [OF inv] v(2)] content_length [of 0 "extents_of (vw st) oid" "unat (oa_size a)" "mv_chunk (vw st)"]
    by (simp add: object_ok_def)
  then have sz: "unat (oa_size a) + length data < 2 ^ 64" "0 + length data = length data" using b(2) ob by simp_all
  obtain q st1 where wl: "write_loop R st oid data 0 (length data) (oa_size a) 0 [] = (q, st1)" by (rule prod.exhaust)
  note lo = write_loop_ok [OF conjunct1 [OF inv] b(1) sz(2,1) wl]
  have k1: "keeps L st st1" by (rule write_loop_keeps [OF conjunct1 [OF inv] up t b(1) sz(2) wl])
  have inv1: "mount_inv ops dinv L (os_mount st1)" using lo by blast
  obtain r io' where fl: "nebula_io_flush (m_io (os_mount st1)) = (r, io')" by (rule prod.exhaust)
  define st2 where "st2 = st1\<lparr>os_mount := (os_mount st1)\<lparr>m_io := io'\<rparr>\<rparr>"
  have "mdisk (os_mount st2) = mdisk (os_mount st1)" using io_flush_frame(2) [OF mount_inv_okio [OF inv1] fl] by (simp add: st2_def)
  then have "bitmap_synced blk L (os_mount st2)" using k1 by (simp add: bitmap_synced_def st2_def)
  then have k2: "keeps L st st2" using k1 by (simp add: st2_def)
  obtain xs where xs: "\<forall>added batch. q = Inr (added, batch) \<longrightarrow> batch = batch_of (concat (map (seg_ops oid) xs))" using lo by (cases q) auto
  have dl: "length data < 2 ^ 32" using b(1) by simp
  show ?thesis
  proof (cases rule: object_write_stages [OF o dl wr wl fl xs])
    case 1
    then show ?thesis using k1 by simp
  next
    case 2
    then show ?thesis using k2 by (simp add: st2_def)
  next
    case (3 ab u a1 ms')
    have "ms_map kv ms' kKeySchema = schema_at st2" using commit_cases(2) [OF 3(5) [folded st2_def]] batch_other [of kKeySchema] by auto
    then show ?thesis using k2 3(6) by (simp add: st2_def)
  qed
qed

lemma object_create_keeps:
  assumes t: "tails L (os_mount st)" and cr: "object_create R st p now = (s, st')"
  shows "keeps L st st'"
proof -
  obtain s1 oid ms1 where ai: "allocate_object_id R (os_meta st) = (s1, oid, ms1)" by (rule prod_cases3)
  have k1: "ms_map kv ms1 kKeySchema = schema_at st" using allocate_object_id_cases(5) [OF ai] by auto
  let ?a = "\<lparr>oa_object_id = oid, oa_size = 0, oa_ctime_ns = now, oa_mtime_ns = now, oa_version = 1, oa_num_extents = 0\<rparr>"
  obtain s2 ms2 where cm: "metadata_commit R ms1 (batch_of [PutAttrs ?a, PutPath p oid]) = (s2, ms2)" by (rule prod.exhaust)
  have k2: "ms_map kv ms2 kKeySchema = ms_map kv ms1 kKeySchema" using commit_cases(2) [OF cm] batch_other [of kKeySchema] by auto
  have "os_mount st' = os_mount st" "os_meta st' \<in> {os_meta st, ms1, ms2}"
    using cr ai cm by (auto simp: object_create_def Let_def batch_of_def split: if_splits)
  then show ?thesis using t k1 k2 by auto
qed

end

section \<open>On a POSIX device\<close>

definition store_durable :: "('db \<Rightarrow> byte list \<Rightarrow> byte list option) \<Rightarrow> nebula_layout \<Rightarrow> byte list \<Rightarrow> 'db store \<Rightarrow> bool" where
  "store_durable kv L u st \<longleftrightarrow>
     (let m = os_mount st; d = posix_blk (io_dev (m_io m)) in
      store_ok kv L st \<and> schema_ok (kv (ms_db (os_meta st))) \<and> boot_written L u d \<and> (\<exists>s < 128. valid_slot d 2 s \<noteq> None)
      \<and> bitmap_synced posix_blk L m \<and> tail_clear (hb_l0_bits (m_bitmap m)) (unat (lay_capacity_blocks L))
      \<and> store_area kv st \<subseteq> {unat (lay_data_start_lba L)..<unat (lay_alloc_roots_tail_lba L)})"

text \<open>The device file as the next process finds it: the same blocks and size, and calls that do not fail.\<close>

definition device_again :: "nebula_layout \<Rightarrow> 'db store \<Rightarrow> posix_dev \<Rightarrow> bool" where
  "device_again L st d \<longleftrightarrow> posix_blk d = posix_blk (io_dev (m_io (os_mount st))) \<and> posix_healthy d
     \<and> pf_size d div 4096 = unat (lay_capacity_blocks L) \<and> pf_size d < 2 ^ 63"

lemma store_durableD:
  assumes "store_durable kv L u st"
  shows "store_ok kv L st" and "schema_ok (kv (ms_db (os_meta st)))" and "boot_written L u (posix.mdisk (os_mount st))"
    and "\<exists>s < 128. valid_slot (posix.mdisk (os_mount st)) 2 s \<noteq> None" and "bitmap_synced posix_blk L (os_mount st)"
    and "tail_clear (hb_l0_bits (m_bitmap (os_mount st))) (unat (lay_capacity_blocks L))"
    and "store_area kv st \<subseteq> {unat (lay_data_start_lba L)..<unat (lay_alloc_roots_tail_lba L)}"
    and "mount_inv posix_ops posix_inv L (os_mount st)"
  using assms unfolding store_durable_def Let_def store_ok_iff by auto

text \<open>A call that keeps the bitmap and the schema version keeps the rest too, by its frame.\<close>

lemma durable_step:
  assumes du: "store_durable kv L u st" and ok: "store_ok kv L st'" and fr: "store_frame kv L st st'"
    and k: "bitmap_synced posix_blk L (os_mount st')" "tail_clear (hb_l0_bits (m_bitmap (os_mount st'))) (unat (lay_capacity_blocks L))"
    "kv (ms_db (os_meta st')) kKeySchema = kv (ms_db (os_meta st)) kKeySchema"
  shows "store_durable kv L u st'"
proof -
  note d = store_durableD [OF du]
  have T: "131 + unat (lay_bitmap_block_count L) \<le> unat (lay_data_start_lba L)" "unat (lay_alloc_roots_tail_lba L) < unat (lay_sb_tail_lba L)"
    "unat (lay_data_start_lba L) \<le> unat (lay_alloc_roots_tail_lba L)"
    using mount_inv_geometry(11) [OF d(8)] unfolding layout_tiles_def by linarith+
  have same: "posix.mdisk (os_mount st') i = posix.mdisk (os_mount st) i" if "i < 131 \<or> i = unat (lay_sb_tail_lba L)" for i
  proof -
    have "i \<notin> store_area kv st" using that T d(7) by auto
    then show ?thesis using fr that T unfolding store_frame_def by auto
  qed
  have "boot_written L u (posix.mdisk (os_mount st'))" using d(3) same unfolding boot_written_def by simp
  moreover have "\<exists>s < 128. valid_slot (posix.mdisk (os_mount st')) 2 s \<noteq> None"
  proof -
    obtain s where s: "s < 128" "valid_slot (posix.mdisk (os_mount st)) 2 s \<noteq> None" using d(4) by blast
    moreover have "posix.mdisk (os_mount st') (2 + s) = posix.mdisk (os_mount st) (2 + s)" by (rule same) (use s(1) in simp)
    ultimately show ?thesis unfolding valid_slot_def by auto
  qed
  moreover have "store_area kv st' \<subseteq> {unat (lay_data_start_lba L)..<unat (lay_alloc_roots_tail_lba L)}"
    using fr d(7) unfolding store_frame_def by blast
  moreover have "schema_ok (kv (ms_db (os_meta st')))" using d(2) k(3) by (simp add: schema_ok_def)
  ultimately show ?thesis unfolding store_durable_def Let_def using ok k(1,2) by blast
qed

text \<open>Mounting the device again gives the bitmap that was in memory.\<close>

lemma device_mounts_again:
  assumes du: "store_durable kv L u st" and ag: "device_again L st d"
  shows "\<exists>m'. nebula_fs_mount (Inr d) None = Inr m' \<and> mount_inv posix_ops posix_inv L m' \<and> posix_healthy (io_dev (m_io m'))
    \<and> posix_blk (io_dev (m_io m')) = posix_blk (io_dev (m_io (os_mount st))) \<and> bitmap_synced posix_blk L m'
    \<and> hb_l0_bits (m_bitmap m') = hb_l0_bits (m_bitmap (os_mount st)) \<and> hbm_free (m_bitmap m') = hbm_free (m_bitmap (os_mount st))"
proof -
  note s = store_durableD [OF du] and g = mount_inv_geometry [OF store_durableD(8) [OF du]]
  define c :: u64 where "c = of_nat (pf_size d div 4096)"
  define io where "io = \<lparr>io_ops = posix_ops, io_capacity_blocks = c, io_dev = d\<rparr>"
  have sz: "pf_size d div 4096 = unat (lay_capacity_blocks L)" "pf_size d < 2 ^ 63" and up: "posix_healthy d"
    and eq: "posix_blk d = posix.mdisk (os_mount st)" using ag by (auto simp: device_again_def)
  have c: "lay_capacity_blocks L = c" unfolding c_def sz(1) by simp
  have big: "0 < unat (lay_capacity_blocks L)" using g(4,10) by simp
  have op: "nebula_io_open (Inr d) False 0 None None = Inr io"
  proof -
    have "4096 \<le> pf_size d" using sz(1) big by (metis div_less less_irrefl not_less)
    then show ?thesis by (simp add: nebula_io_open_def io_def c_def)
  qed
  have ok: "io_ok posix_ops posix_inv io"
    using sz c by (simp add: io_ok_def io_def posix_inv_def)
  have dk: "posix.disk io = posix.mdisk (os_mount st)" using eq by (simp add: io_def)
  obtain sl ub where sc: "scan_slots (valid_slot (posix.disk io) 2) 128 = Some (sl, ub)"
    using s(4) dk scan_slots_None [of "valid_slot (posix.disk io) 2" 128] by (cases "scan_slots (valid_slot (posix.disk io) 2) 128") auto
  have re: "bitmap_region (posix.disk io) L = hb_l0_bits (m_bitmap (os_mount st))" using s(5) dk by (simp add: bitmap_synced_def)
  have pre: "layout_tiles L" "lay_capacity_blocks L = io_capacity_blocks io" "unat (io_capacity_blocks io) < 2 ^ 46"
    "boot_written L u (posix.disk io)" "tail_clear (bitmap_region (posix.disk io) L) (unat (lay_capacity_blocks L))"
    using g(9,10,11) c s(3,6) dk re by (simp_all add: io_def)
  have upio: "posix.up io" using up by (simp add: io_def)
  obtain m' where m': "nebula_mount_do io = (Inr m', m_io m')" "posix.next_io io (m_io m')" "posix.disk (m_io m') = posix.disk io"
      "mount_inv posix_ops posix_inv L m'" "bitmap_synced posix_blk L m'"
    using posix.mount_do_up [OF ok upio pre(1-4) sc pre(5)] by blast
  have l0: "hb_l0_bits (m_bitmap m') = hb_l0_bits (m_bitmap (os_mount st))" using m'(3,5) re by (simp add: bitmap_synced_def)
  moreover have "hbm_free (m_bitmap m') = hbm_free (m_bitmap (os_mount st))"
    using l0 mount_inv_geometry(8) [OF m'(4)] g(8) by simp
  moreover have "nebula_fs_mount (Inr d) None = Inr m'" using op m'(1) by (simp add: nebula_fs_mount_def nebula_mount_open_def)
  moreover have "posix_healthy (io_dev (m_io m'))" by (rule posix.next_io_up [OF m'(2) upio])
  ultimately show ?thesis using m'(3,4,5) dk by auto
qed

text \<open>The store opened again is durable in its turn.\<close>

lemma durable_reopen:
  assumes R: "rocksdb_store R kv" and du: "store_durable kv L u st" and b: "store_bound kv n st" and ag: "device_again L st d"
    and op: "object_store_open R (Inr d) None (Some (ms_db (os_meta st))) = Some (Inr st')"
  shows "store_durable kv L u st'" and "store_goes kv L Restart OK st st'" and "store_bound kv (n + 1) st'"
    and "posix_healthy (io_dev (m_io (os_mount st')))" and "store_map kv st' = store_map kv st"
    and "hb_l0_bits (m_bitmap (os_mount st')) = hb_l0_bits (m_bitmap (os_mount st))"
proof -
  note s = store_durableD [OF du]
  obtain m' where m': "nebula_fs_mount (Inr d) None = Inr m'" "mount_inv posix_ops posix_inv L m'" "posix_healthy (io_dev (m_io m'))"
      "posix_blk (io_dev (m_io m')) = posix_blk (io_dev (m_io (os_mount st)))" "bitmap_synced posix_blk L m'"
      "hb_l0_bits (m_bitmap m') = hb_l0_bits (m_bitmap (os_mount st))" "hbm_free (m_bitmap m') = hbm_free (m_bitmap (os_mount st))"
    using device_mounts_again [OF du ag] by blast
  have st: "object_store_start R m' (Some (ms_db (os_meta st))) = Some (Inr st')" using op m'(1) by (simp add: object_store_open_def)
  then have mo: "metadata_open R (Some (ms_db (os_meta st))) = (OK, Some (os_meta st'))" and mt: "os_mount st' = m'"
    by (auto simp: object_store_start_def split: prod.splits if_splits option.splits)
  note g = restart_goes [OF R s(1) b m'(2,4) eq_refl [OF m'(7)] st]
  show "store_goes kv L Restart OK st st'" "store_bound kv (n + 1) st'" by (fact g(2,3))+
  show "store_map kv st' = store_map kv st" using g(1) by blast
  show "posix_healthy (io_dev (m_io (os_mount st')))" "hb_l0_bits (m_bitmap (os_mount st')) = hb_l0_bits (m_bitmap (os_mount st))"
    using m'(3,6) mt by simp_all
  have sc: "schema_ok (kv (ms_db (os_meta st')))"
    using rocksdb_store.open_cases(4) [OF R mo] s(2) by (auto simp: schema_ok_def opened_map_def Let_def)
  have "store_area kv st' \<subseteq> store_area kv st" using g(2) by (simp add: store_goes_def store_frame_def)
  then have "store_area kv st' \<subseteq> {unat (lay_data_start_lba L)..<unat (lay_alloc_roots_tail_lba L)}" using s(7) by blast
  then show "store_durable kv L u st'"
    unfolding store_durable_def Let_def mt using g(1) sc s(3,4,6) m'(4,5,6) by simp
qed

section \<open>Runs with restarts that mount\<close>

text \<open>
  Runs on a device without faults, the database failing as it likes: a restart is the whole of
  \<open>ObjectStore::open\<close> on the device file as the calls before it left it.
\<close>

inductive live_run :: "'db rocksdb \<Rightarrow> nebula_layout \<Rightarrow> 'db store \<Rightarrow> (store_call \<times> status) list \<Rightarrow> 'db store \<Rightarrow> bool"
  for R :: "'db rocksdb" and L :: nebula_layout and st0 :: "'db store" where
  live_start: "live_run R L st0 [] st0"
| live_create: "live_run R L st0 tr st \<Longrightarrow> object_create R st p now = (s, st') \<Longrightarrow> live_run R L st0 (tr @ [(Create p, s)]) st'"
| live_append: "live_run R L st0 tr st \<Longrightarrow> object_write R st p data now = (s, st') \<Longrightarrow> live_run R L st0 (tr @ [(Append p data, s)]) st'"
| live_read: "live_run R L st0 tr st \<Longrightarrow> object_read R st p offset cap dst = (q, out, st')
    \<Longrightarrow> live_run R L st0 (tr @ [(Read, case q of Inl s \<Rightarrow> s | Inr _ \<Rightarrow> OK)]) st'"
| live_restart: "live_run R L st0 tr st \<Longrightarrow> device_again L st d \<Longrightarrow> object_store_open R (Inr d) None (Some (ms_db (os_meta st))) = Some (Inr st')
    \<Longrightarrow> live_run R L st0 (tr @ [(Restart, OK)]) st'"

text \<open>One call of a run.\<close>

abbreviation live_state :: "('db \<Rightarrow> byte list \<Rightarrow> byte list option) \<Rightarrow> nebula_layout \<Rightarrow> byte list \<Rightarrow> 'db store \<Rightarrow> bool" where
  "live_state kv L u st \<equiv> store_durable kv L u st \<and> posix_healthy (io_dev (m_io (os_mount st)))"

lemma create_durable:
  assumes R: "rocksdb_store R kv" and du: "live_state kv L u st" and b: "store_bound kv n st" "n + 1 < 2 ^ 32"
    and cr: "object_create R st p now = (s, st')"
  shows "live_state kv L u st'"
proof -
  note d = store_durableD [OF conjunct1 [OF du]]
  note g = create_goes(1) [OF R d(1) b cr]
  have room: "unat (ms_next_object_id (os_meta st)) + 1 < 2 ^ 64" using b by (simp add: store_bound_def)
  note oc = objstore_env.object_create_ok(1) [OF posix_env [OF R] conjunct1 [OF d(1) [unfolded store_ok_iff]] room cr]
  note k = objstore_env.object_create_keeps [OF posix_env [OF R] conjI [OF d(5,6)] cr]
  have "store_durable kv L u st'" by (rule durable_step [OF conjunct1 [OF du]]) (use g k in \<open>auto simp: store_goes_def\<close>)
  then show ?thesis using du oc by simp
qed

lemma append_durable:
  assumes R: "rocksdb_store R kv" and du: "live_state kv L u st" and b: "store_bound kv n st" "n + length data + 1 < 2 ^ 32"
    and wr: "object_write R st p data now = (s, st')"
  shows "live_state kv L u st'"
proof -
  note d = store_durableD [OF conjunct1 [OF du]] and E = posix_env [OF R]
  note inv = conjunct1 [OF d(1) [unfolded store_ok_iff]]
  note g = append_goes(1) [OF R d(1) b wr]
  have nc: "unat (ms_next_chunk_id (os_meta st)) + length data < 2 ^ 32" using b by (simp add: store_bound_def)
  have "length bs \<le> n" if "store_map kv st p = Some bs" for bs using b(1) that by (simp add: store_bound_def)
  then have sz: "\<forall>bs. objects (posix_blk (io_dev (m_io (os_mount st)))) (view_of (kv (ms_db (os_meta st)))) p = Some bs \<longrightarrow> length bs + length data < 2 ^ 64"
    using b(2) unfolding store_map_def by fastforce
  note ow = objstore_env.object_write_ok [OF E inv nc sz wr]
  note k = objstore_env.object_write_keeps [OF E inv conjunct2 [OF du] conjI [OF d(5,6)] nc sz wr]
  have "store_durable kv L u st'" by (rule durable_step [OF conjunct1 [OF du]]) (use g k in \<open>auto simp: store_goes_def\<close>)
  moreover have "posix_healthy (io_dev (m_io (os_mount st')))" using ow du posix.mount_next_up [of L "os_mount st'" "os_mount st"] by auto
  ultimately show ?thesis by simp
qed

lemma read_durable:
  assumes du: "live_state kv L u st" and b: "store_bound kv n st" and rd: "object_read R st p offset cap dst = (q, out, st')"
  shows "live_state kv L u st'"
proof -
  note d = store_durableD [OF conjunct1 [OF du]]
  note sd = posix.object_read_same [OF d(8) rd] and g = read_goes(1) [OF d(1) b rd, of OK]
  have "store_durable kv L u st'"
    by (rule durable_step [OF conjunct1 [OF du]]) (use g sd d(5,6) in \<open>auto simp: store_goes_def bitmap_synced_def\<close>)
  then show ?thesis using sd du posix.mount_next_up [of L "os_mount st'" "os_mount st"] by auto
qed

lemma live_run_ok:
  assumes R: "rocksdb_store R kv" and "live_run R L st0 tr st" and "live_state kv L u st0" and "store_bound kv n st0" and "n + run_cost tr < 2 ^ 32"
  shows "run_ok kv L st0 tr st \<and> store_bound kv (n + run_cost tr) st \<and> live_state kv L u st"
  using assms(2-)
proof (induction rule: live_run.induct)
  case live_start
  then show ?case using store_durableD(1) by (auto simp: run_ok_def store_frame_refl e_nil run_cost_def)
next
  case (live_create tr st p now s st')
  have ih: "run_ok kv L st0 tr st" "store_bound kv (n + run_cost tr) st" "n + run_cost tr + 1 < 2 ^ 32" "live_state kv L u st" "store_ok kv L st"
    using live_create.IH live_create.prems by (simp_all add: run_cost_snoc run_ok_def)
  note g = create_goes [OF R ih(5,2,3) live_create.hyps(2)]
  show ?case using run_ok_snoc [OF ih(1) g(1)] g(2) create_durable [OF R ih(4,2,3) live_create.hyps(2)] by (simp add: run_cost_snoc)
next
  case (live_append tr st p data now s st')
  have ih: "run_ok kv L st0 tr st" "store_bound kv (n + run_cost tr) st" "n + run_cost tr + length data + 1 < 2 ^ 32" "live_state kv L u st" "store_ok kv L st"
    using live_append.IH live_append.prems by (simp_all add: run_cost_snoc run_ok_def)
  note g = append_goes [OF R ih(5,2,3) live_append.hyps(2)]
  show ?case using run_ok_snoc [OF ih(1) g(1)] g(2) append_durable [OF R ih(4,2,3) live_append.hyps(2)] by (simp add: run_cost_snoc add.assoc)
next
  case (live_read tr st p offset cap dst q out st')
  have ih: "run_ok kv L st0 tr st" "store_bound kv (n + run_cost tr) st" "live_state kv L u st" "store_ok kv L st"
    using live_read.IH live_read.prems by (simp_all add: run_cost_snoc run_ok_def)
  note g = read_goes [OF ih(4,2) live_read.hyps(2)]
  show ?case using run_ok_snoc [OF ih(1) g(1)] g(2) read_durable [OF ih(3,2) live_read.hyps(2)] by (simp add: run_cost_snoc)
next
  case (live_restart tr st d st')
  have ih: "run_ok kv L st0 tr st" "store_bound kv (n + run_cost tr) st" "live_state kv L u st"
    using live_restart.IH live_restart.prems by (simp_all add: run_cost_snoc run_ok_def)
  note g = durable_reopen [OF R conjunct1 [OF ih(3)] ih(2) live_restart.hyps(2,3)]
  show ?case using run_ok_snoc [OF ih(1) g(2)] g(1,3,4) by (simp add: run_cost_snoc)
qed

end
