(* ===== verification/Objstore_Props.thy ===== *)
theory Objstore_Props
  imports Objstore_Durable
begin

text \<open>
  The guarantees of the object store on a POSIX device, over every RocksDB database that obeys the laws
  of \<open>rocksdb_store\<close>, and a sample store that shows the hypotheses can hold: a formatted and mounted device of
  4 GiB and an ordered map as the database.
\<close>

section \<open>A sample store\<close>

definition sample_path :: "byte list" where
  "sample_path = [0x2F, 0x61, 0x2F, 0x62, 0x2F, 0x63, 0x2F, 0x64]"

definition sample_store :: "posix_dev nebula_mount \<Rightarrow> ref_db store" where
  "sample_store m = \<lparr>os_mount = m, os_meta = ref_fresh, os_active = None\<rparr>"

lemma sample_path_valid: "validate_object_path sample_path"
  by code_simp

lemma ref_live: "rocksdb_live ref_rocksdb RBT.lookup"
  by unfold_locales

lemma ref_fresh_view:
  "mv_path (view_of (RBT.lookup (ms_db ref_fresh))) = [[0x2F] \<mapsto> 0]" "mv_attrs (view_of (RBT.lookup (ms_db ref_fresh))) = Map.empty"
  "mv_extent (view_of (RBT.lookup (ms_db ref_fresh))) = Map.empty" "mv_chunk (view_of (RBT.lookup (ms_db ref_fresh))) = Map.empty"
  "meta_typed (RBT.lookup (ms_db ref_fresh))" "schema_ok (RBT.lookup (ms_db ref_fresh))"
  "counters_ok (RBT.lookup (ms_db ref_fresh)) 1 1"
proof -
  let ?m = "RBT.lookup (ms_db ref_fresh)"
  have o: "?m = opened_map Map.empty 1 1"
    using ref.open_cases(4) [OF ref_open_fresh] by (simp add: ref_fresh_def)
  have v: "view_of ?m = view_op (PutPath [0x2F] 0) (view_of Map.empty)" unfolding o opened_view(1) by simp
  show "mv_path (view_of ?m) = [[0x2F] \<mapsto> 0]" "mv_attrs (view_of ?m) = Map.empty" "mv_extent (view_of ?m) = Map.empty" "mv_chunk (view_of ?m) = Map.empty"
    unfolding v by (simp_all add: view_of_def fun_eq_iff)
  then show "counters_ok ?m 1 1" by (simp add: counters_ok_def) (simp add: o opened_map_def Let_def)
  show "meta_typed ?m" unfolding o by (rule opened_view(2)) simp
  show "schema_ok ?m" unfolding o by (simp add: schema_ok_def opened_map_def Let_def)
qed

lemma sample_store_ok:
  obtains L m where "store_ok RBT.lookup L (sample_store m)" and "posix_healthy (io_dev (m_io m))" and "chunk_free m"
    and "store_map RBT.lookup (sample_store m) = Map.empty" and "store_bound RBT.lookup 1 (sample_store m)"
    and "store_durable RBT.lookup L (zeros 16) (sample_store m)" and "lay_capacity_blocks L = 1048576"
proof -
  obtain L m where f: "lay_capacity_blocks L = 1048576" "posix.mup m" "posix.fsok L m"
    "hbm_free (m_bitmap m) = {unat (lay_data_start_lba L)..<unat (lay_alloc_roots_tail_lba L)}" "layout_tiles L"
    "formatted L (zeros 16) 0 0 (posix.mdisk m)"
    using posix.format_device_mounts [of "sample_io 1048576" NEBULA_INODE_SIZE_DEFAULT "zeros 16" 0 0] sample_io_ok [of 1048576]
    by (auto simp: sample_io_def)
  have inv: "mount_inv posix_ops posix_inv L m" and sy: "bitmap_synced posix_blk L m" by (rule posix.fsokD [OF f(3)])+
  have len: "length (zeros 16) = 16" "unat (lay_capacity_blocks L) \<le> 2 ^ 51" by (simp_all add: f(1))
  note bo = posix.formatted_boot [OF f(6,5) len posix.blk_length]
  have t: "131 + unat (lay_bitmap_block_count L) \<le> unat (lay_data_start_lba L)" "unat (lay_data_start_lba L) + 16384 \<le> unat (lay_alloc_roots_tail_lba L)"
    using f(1,5) unfolding layout_tiles_def by simp_all
  have e: "engine_ok L (hbm_free (m_bitmap m)) 1 Map.empty None" using t(1) f(4) by (simp add: engine_ok_def)
  have o: "objects_ok 1 (view_of (RBT.lookup (ms_db ref_fresh)))"
    using refos.root_not_valid by (auto simp: objects_ok_def ref_fresh_view)
  have mp: "store_map RBT.lookup (sample_store m) = Map.empty"
    using refos.root_not_valid by (auto simp: store_map_def sample_store_def objects_def ref_fresh_view fun_eq_iff)
  have id: "ms_next_object_id ref_fresh = 1" "ms_next_chunk_id ref_fresh = 1" by (simp_all add: ref_fresh_def)
  have ok: "store_ok RBT.lookup L (sample_store m)" using inv e o by (simp add: store_ok_iff sample_store_def ref_fresh_view id)
  have sl: "\<exists>s < 128. valid_slot (posix.mdisk m) 2 s \<noteq> None" using bo(2) scan_slots_None [of "valid_slot (posix.mdisk m) 2" 128] by simp
  have ar: "store_area RBT.lookup (sample_store m) = hbm_free (m_bitmap m)"
    by (simp add: store_area_def sample_store_def ref_fresh_view chunk_area_def)
  show ?thesis
  proof (rule that)
    show "store_ok RBT.lookup L (sample_store m)" by (rule ok)
    show "store_durable RBT.lookup L (zeros 16) (sample_store m)"
      unfolding store_durable_def Let_def ar f(4) using ok sl sy bo(1,3)
      by (simp add: sample_store_def ref_fresh_view bitmap_synced_def)
    show "lay_capacity_blocks L = 1048576" by (rule f(1))
    show "posix_healthy (io_dev (m_io m))" by (rule f(2))
    show "chunk_free m"
    proof -
      have "\<not> bit_get (hb_l0_bits (m_bitmap m)) j" if "unat (lay_data_start_lba L) \<le> j" "j < unat (lay_data_start_lba L) + 16384" for j
      proof -
        have "j \<in> hbm_free (m_bitmap m)" unfolding f(4) using that t(2) by simp
        then show ?thesis by (simp add: free_blocks_def)
      qed
      moreover have "unat (lay_data_start_lba L) + 16384 \<le> unat (io_capacity_blocks (m_io m))"
        using t(2) f(5) inv by (simp add: layout_tiles_def mount_inv_def)
      ultimately show ?thesis unfolding chunk_free_def run_free_def by (intro exI [of _ "unat (lay_data_start_lba L)"]) simp
    qed
    show "store_map RBT.lookup (sample_store m) = Map.empty" by (rule mp)
    show "store_bound RBT.lookup 1 (sample_store m)" unfolding store_bound_def mp by (simp add: sample_store_def id)
  qed
qed

text \<open>The sample store with one empty object.\<close>

lemma sample_object:
  obtains L m st where "store_ok RBT.lookup L st" and "posix_healthy (io_dev (m_io (os_mount st)))" and "chunk_free (os_mount st)"
    and "store_map RBT.lookup st = [sample_path \<mapsto> []]" and "store_bound RBT.lookup 2 st" and "os_active st = None"
    and "object_create ref_rocksdb (sample_store m) sample_path 0 = (OK, st)" and "store_ok RBT.lookup L (sample_store m)"
    and "store_map RBT.lookup (sample_store m) = Map.empty" and "store_bound RBT.lookup 1 (sample_store m)"
    and "store_durable RBT.lookup L (zeros 16) (sample_store m)" and "lay_capacity_blocks L = 1048576" and "posix_healthy (io_dev (m_io m))"
proof -
  obtain L m where m: "store_ok RBT.lookup L (sample_store m)" "posix_healthy (io_dev (m_io m))" "chunk_free m"
      "store_map RBT.lookup (sample_store m) = Map.empty" "store_bound RBT.lookup 1 (sample_store m)"
      "store_durable RBT.lookup L (zeros 16) (sample_store m)" "lay_capacity_blocks L = 1048576" by (rule sample_store_ok)
  obtain s st where cr: "object_create ref_rocksdb (sample_store m) sample_path 0 = (s, st)" by (rule prod.exhaust)
  have room: "unat (ms_next_object_id (os_meta (sample_store m))) + 1 < 2 ^ 64" using m(5) by (simp add: store_bound_def)
  note oc = refos.object_create_ok [OF conjunct1 [OF m(1) [unfolded store_ok_iff]] room cr]
  have "s = OK" using oc(6) [OF ref_live] sample_path_valid m(4) by (simp add: store_map_def)
  then have s: "s = OK" "store_map RBT.lookup st = [sample_path \<mapsto> []]" using oc(2) m(4) by (simp_all add: store_map_def)
  have small: "1 + 1 < (2 :: nat) ^ 32" by simp
  note g = create_goes [OF ref_is_store m(1,5) small cr]
  have mt: "os_mount st = m" "os_active st = None" using oc(1) by (simp_all add: sample_store_def)
  show ?thesis
  proof (rule that)
    show "store_ok RBT.lookup L st" using g(1) by (simp add: store_goes_def)
    show "posix_healthy (io_dev (m_io (os_mount st)))" "chunk_free (os_mount st)" using m mt by simp_all
    show "store_bound RBT.lookup 2 st" using g(2) unfolding one_add_one .
    show "object_create ref_rocksdb (sample_store m) sample_path 0 = (OK, st)" using cr s by simp
  qed (use m s mt in simp_all)
qed

text \<open>The same after a write of three bytes.\<close>

lemma sample_written:
  obtains L m st st' where "store_ok RBT.lookup L st" and "posix_healthy (io_dev (m_io (os_mount st)))"
    and "store_map RBT.lookup st = [sample_path \<mapsto> []]" and "store_bound RBT.lookup 2 st"
    and "object_create ref_rocksdb (sample_store m) sample_path 0 = (OK, st)" and "store_ok RBT.lookup L (sample_store m)"
    and "store_map RBT.lookup (sample_store m) = Map.empty" and "store_bound RBT.lookup 1 (sample_store m)"
    and "object_write ref_rocksdb st sample_path [7, 8, 9] 1 = (OK, st')" and "store_ok RBT.lookup L st'"
    and "posix_healthy (io_dev (m_io (os_mount st')))" and "store_map RBT.lookup st' = [sample_path \<mapsto> [7, 8, 9]]"
    and "store_durable RBT.lookup L (zeros 16) (sample_store m)" and "lay_capacity_blocks L = 1048576" and "posix_healthy (io_dev (m_io m))"
proof -
  obtain L m st where o: "store_ok RBT.lookup L st" "posix_healthy (io_dev (m_io (os_mount st)))" "chunk_free (os_mount st)"
    "store_map RBT.lookup st = [sample_path \<mapsto> []]" "store_bound RBT.lookup 2 st" "os_active st = None"
    "object_create ref_rocksdb (sample_store m) sample_path 0 = (OK, st)" "store_ok RBT.lookup L (sample_store m)"
    "store_map RBT.lookup (sample_store m) = Map.empty" "store_bound RBT.lookup 1 (sample_store m)"
    "store_durable RBT.lookup L (zeros 16) (sample_store m)" "lay_capacity_blocks L = 1048576" "posix_healthy (io_dev (m_io m))" by (rule sample_object)
  obtain s st' where wr: "object_write ref_rocksdb st sample_path [7, 8, 9] 1 = (s, st')" by (rule prod.exhaust)
  note ok = conjunct1 [OF o(1) [unfolded store_ok_iff]]
  have ob: "refos.obj st sample_path = Some []" using o(4) by (simp add: store_map_def)
  have nc: "unat (ms_next_chunk_id (os_meta st)) + length [7, 8, 9 :: byte] < 2 ^ 32" using o(5) by (simp add: store_bound_def)
  have "s = OK"
  proof (rule refos.object_write_fits [OF ref_live ok o(2) _ _ nc _ ob wr])
    show "has_room (os_active st) \<or> chunk_free (os_mount st)" using o(3) by simp
    show "length [7, 8, 9 :: byte] \<le> chunk_space (os_active st)" by (simp add: o(6) chunk_space_def)
  qed simp
  with wr have wr': "object_write ref_rocksdb st sample_path [7, 8, 9] 1 = (OK, st')" by simp
  have "posix_healthy (io_dev (m_io (os_mount st')))"
    using refos.object_write_ok [OF ok nc _ wr'] ob posix.mount_next_up [of L "os_mount st'" "os_mount st"] o(2) by auto
  moreover have small: "2 + length [7, 8, 9 :: byte] + 1 < 2 ^ 32" by simp
  note append_goes(1) [OF ref_is_store o(1,5) small wr']
  then have "store_ok RBT.lookup L st'" "store_map RBT.lookup st' = [sample_path \<mapsto> [7, 8, 9]]"
    using o(4) by (auto simp: store_goes_def call_effect_def)
  ultimately show ?thesis using that [OF o(1,2,4,5,7-10) wr'] o(11-13) by simp
qed

section \<open>Properties\<close>

text \<open>
  Property C2.  The object store refines a map from paths to contents.  Along every run of creations, writes, reads and
  restarts, with calls of the device and of the database that fail at any point, the invariant holds, the
  map is explained by the statuses that the calls returned (a successful call is applied, a failed one is
  not, and a write or creation whose commit failed is applied as a whole or not at all), and no block
  outside the bitmap is touched that was neither free nor part of a chunk.
\<close>

theorem store_run_refines:
  assumes "rocksdb_store R kv" and "store_run R L st0 tr st" and "store_ok kv L st0" and "store_bound kv n st0"
    and "n + run_cost tr < 2 ^ 32"
  shows "store_ok kv L st \<and> explained (store_map kv st0) tr (store_map kv st) \<and> store_frame kv L st0 st"
  using store_run_ok [OF assms] by (simp add: run_ok_def)

theorem store_run_refines_witness:
  "\<exists>L st0 st. store_run ref_rocksdb L st0 [(Create sample_path, OK), (Append sample_path [7, 8, 9], OK)] st
     \<and> explained (store_map RBT.lookup st0) [(Create sample_path, OK), (Append sample_path [7, 8, 9], OK)] (store_map RBT.lookup st)"
proof -
  obtain L m st st' where o: "object_create ref_rocksdb (sample_store m) sample_path 0 = (OK, st)" "store_ok RBT.lookup L (sample_store m)"
    "store_bound RBT.lookup 1 (sample_store m)" "object_write ref_rocksdb st sample_path [7, 8, 9] 1 = (OK, st')"
    by (rule sample_written)
  have r: "store_run ref_rocksdb L (sample_store m) [(Create sample_path, OK), (Append sample_path [7, 8, 9], OK)] st'"
    using store_run.append [OF store_run.create [OF store_run.start o(1)] o(4)] by simp
  show ?thesis using store_run_refines [OF ref_is_store r o(2,3)] r by (auto simp: run_cost_def)
qed

text \<open>
  Property C5.  A write appends.  A successful write extends exactly the named object by the data, \<open>ERROR_NOT_FOUND\<close> is
  returned for a path without object and \<open>ERROR_INVALID_ARGUMENT\<close> for an invalid one, both without effect; a
  write that fails changes no object, or appends the whole data when the commit failed; and where neither the
  device nor the database fails, the only failure on an existing object is \<open>ERROR_NO_SPACE\<close>.
\<close>

theorem object_write_refines:
  assumes "rocksdb_store R kv" and "store_ok kv L st" and "unat (ms_next_chunk_id (os_meta st)) + length data < 2 ^ 32"
    and "\<forall>bs. store_map kv st p = Some bs \<longrightarrow> length bs + length data < 2 ^ 64" and "object_write R st p data now = (s, st')"
  defines "M \<equiv> store_map kv st" and "M' \<equiv> store_map kv st'"
  shows "store_ok kv L st' \<and> store_frame kv L st st'
    \<and> (s = OK \<longrightarrow> (\<exists>bs. M p = Some bs \<and> M' = M(p \<mapsto> bs @ data)))
    \<and> (s \<noteq> OK \<longrightarrow> M' = M \<or> s = ERROR_METADATA \<and> (\<exists>bs. M p = Some bs \<and> M' = M(p \<mapsto> bs @ data)))
    \<and> (s = ERROR_INVALID_ARGUMENT \<longleftrightarrow> \<not> validate_object_path p)
    \<and> (rocksdb_live R kv \<and> posix_healthy (io_dev (m_io (os_mount st))) \<and> validate_object_path p
       \<longrightarrow> (if M p = None then s = ERROR_NOT_FOUND else s \<in> {OK, ERROR_NO_SPACE}))"
proof -
  note E = posix_env [OF assms(1)] and ok = assms(2) [unfolded store_ok_iff]
  note ow = objstore_env.object_write_ok [OF E conjunct1 [OF ok] assms(3) assms(4) [unfolded store_map_def] assms(5), folded store_map_def]
  have "store_ok kv L st'"
    unfolding store_ok_iff using ow ok objstore_env.object_write_counters [OF E conjunct1 [OF ok] conjunct2 [OF ok] assms(3) assms(4) [unfolded store_map_def] assms(5)]
    by blast
  moreover have "store_frame kv L st st'" unfolding store_frame_def store_area_def using ow by blast
  moreover have "(s = OK \<longrightarrow> (\<exists>bs. M p = Some bs \<and> M' = M(p \<mapsto> bs @ data)))" "s = ERROR_INVALID_ARGUMENT \<longleftrightarrow> \<not> validate_object_path p"
    and "s \<noteq> OK \<longrightarrow> M' = M \<or> s = ERROR_METADATA \<and> (\<exists>bs. M p = Some bs \<and> M' = M(p \<mapsto> bs @ data))"
    using ow unfolding M_def M'_def by auto
  moreover have "if M p = None then s = ERROR_NOT_FOUND else s \<in> {OK, ERROR_NO_SPACE}"
    if "rocksdb_live R kv" "posix_healthy (io_dev (m_io (os_mount st)))" "validate_object_path p"
    using ow that unfolding M_def by auto
  ultimately show ?thesis by blast
qed

theorem object_write_refines_witness:
  "\<exists>L st st'. store_ok RBT.lookup L st \<and> store_map RBT.lookup st = [sample_path \<mapsto> []]
     \<and> object_write ref_rocksdb st sample_path [7, 8, 9] 1 = (OK, st') \<and> store_map RBT.lookup st' = [sample_path \<mapsto> [7, 8, 9]]"
proof -
  obtain L m st st' where o: "store_ok RBT.lookup L st" "store_map RBT.lookup st = [sample_path \<mapsto> []]" "store_bound RBT.lookup 2 st"
    "object_write ref_rocksdb st sample_path [7, 8, 9] 1 = (OK, st')" by (rule sample_written)
  have b: "unat (ms_next_chunk_id (os_meta st)) + length [7, 8, 9 :: byte] < 2 ^ 32" using o(3) by (simp add: store_bound_def)
  show ?thesis using object_write_refines [OF ref_is_store o(1) b _ o(4)] o by (intro exI [of _ L] exI [of _ st] exI [of _ st']) auto
qed

text \<open>
  Property C6.  A read returns the bytes of the map.  When the iterator of the database ends without an error, a read of
  at most \<open>n\<close> bytes at an offset returns exactly that range of the object, cut at its end, or fails with
  the error of the map (\<open>ERROR_OUT_OF_RANGE\<close> exactly when the offset is behind the end); it changes nothing.
  Failures of the device and of the database are reported, and do not occur where neither fails.
\<close>

theorem object_read_refines:
  assumes "rocksdb_store R kv" and "store_ok kv L st" and "kv_iter_ok R (ms_db (os_meta st))"
    and "object_read_vec R st p offset n = (q, st')"
  shows "store_map kv st' = store_map kv st \<and> store_ok kv L st'
    \<and> (q = obj_read (store_map kv st) p (unat offset) (unat n)
       \<or> q \<in> {Inl ERROR_IO_FAILURE, Inl ERROR_METADATA} \<and> \<not> (rocksdb_live R kv \<and> posix_healthy (io_dev (m_io (os_mount st)))))"
proof -
  note ok = assms(2) [unfolded store_ok_iff]
  note r = objstore_env.object_read_vec_ok [OF posix_env [OF assms(1)] conjunct1 [OF ok] assms(3,4)]
  have "store_map kv st' = store_map kv st" using r(1) by (simp add: store_map_def)
  moreover have "store_ok kv L st'" using r(1) assms(2) by (simp add: store_ok_iff)
  ultimately show ?thesis using r(2,3) by (auto simp: store_map_def)
qed

theorem object_read_refines_witness:
  "\<exists>L st st'. store_ok RBT.lookup L st \<and> fst (object_read_vec ref_rocksdb st sample_path 1 5) = Inl ERROR_OUT_OF_RANGE
     \<and> store_ok RBT.lookup L st' \<and> fst (object_read_vec ref_rocksdb st' sample_path 1 5) = Inr [8, 9]"
proof -
  obtain L m st st' where o: "store_ok RBT.lookup L st" "posix_healthy (io_dev (m_io (os_mount st)))" "store_map RBT.lookup st = [sample_path \<mapsto> []]"
    and o': "store_ok RBT.lookup L st'" "posix_healthy (io_dev (m_io (os_mount st')))" "store_map RBT.lookup st' = [sample_path \<mapsto> [7, 8, 9]]"
    by (rule sample_written)
  have rd: "object_read_vec R x p i n = (fst (object_read_vec R x p i n), snd (object_read_vec R x p i n))" for R :: "ref_db rocksdb" and x p i n
    by simp
  have "obj_read [sample_path \<mapsto> []] sample_path 1 5 = Inl ERROR_OUT_OF_RANGE" "obj_read [sample_path \<mapsto> [7, 8, 9]] sample_path 1 5 = Inr [8, 9]"
    using sample_path_valid by (simp_all add: obj_read_def seg_def)
  then have "fst (object_read_vec ref_rocksdb st sample_path 1 5) = Inl ERROR_OUT_OF_RANGE" "fst (object_read_vec ref_rocksdb st' sample_path 1 5) = Inr [8, 9]"
    using object_read_refines [OF ref_is_store o(1) ref.iter_live rd, of sample_path 1 5]
      object_read_refines [OF ref_is_store o'(1) ref.iter_live rd, of sample_path 1 5] ref_live o(2,3) o'(2,3) by simp_all
  then show ?thesis using o(1) o'(1) by blast
qed

text \<open>
  Property C12.  A creation adds an empty object.  A successful creation binds exactly the path, to empty contents.  A failed
  one has no effect, except that a creation that ends with \<open>ERROR_METADATA\<close> may have bound the path all the same: a
  commit that reports a failure may have been applied.  Neither touches an object that exists unless the lookup of the
  path failed in the database.  An invalid path is refused with \<open>ERROR_INVALID_ARGUMENT\<close>, \<open>ERROR_ALREADY_EXISTS\<close> is
  returned only for an existing object, and no other status occurs.  Where the database does not fail, an
  existing path is refused with \<open>ERROR_ALREADY_EXISTS\<close> and every other valid one succeeds, whether or not an object
  exists at its parent.
\<close>

theorem object_create_refines:
  assumes "rocksdb_store R kv" and "store_ok kv L st" and "unat (ms_next_object_id (os_meta st)) + 1 < 2 ^ 64"
    and "object_create R st p now = (s, st')"
  defines "M \<equiv> store_map kv st" and "M' \<equiv> store_map kv st'" and "seen \<equiv> kv_get R (ms_db (os_meta st)) (key_path p) \<noteq> KvError"
  shows "store_ok kv L st' \<and> os_mount st' = os_mount st
    \<and> (case s of
         OK \<Rightarrow> validate_object_path p \<and> M' = M(p \<mapsto> []) \<and> (seen \<longrightarrow> M p = None)
       | ERROR_METADATA \<Rightarrow> validate_object_path p \<and> (M' = M \<or> M' = M(p \<mapsto> [])) \<and> (seen \<longrightarrow> M p = None)
       | ERROR_INVALID_ARGUMENT \<Rightarrow> \<not> validate_object_path p \<and> M' = M
       | ERROR_ALREADY_EXISTS \<Rightarrow> M p \<noteq> None \<and> M' = M
       | _ \<Rightarrow> False)
    \<and> (rocksdb_live R kv \<longrightarrow> s = (if \<not> validate_object_path p then ERROR_INVALID_ARGUMENT
         else if M p \<noteq> None then ERROR_ALREADY_EXISTS else OK))"
proof -
  note E = posix_env [OF assms(1)] and ok = assms(2) [unfolded store_ok_iff]
  note oc = objstore_env.object_create_ok [OF E conjunct1 [OF ok] assms(3,4), folded store_map_def]
  have "store_ok kv L st'"
    unfolding store_ok_iff using oc(1) objstore_env.object_create_counters [OF E conjunct2 [OF ok] assms(3,4)] by blast
  moreover have st: "s \<in> {OK, ERROR_METADATA, ERROR_INVALID_ARGUMENT, ERROR_ALREADY_EXISTS}"
    using assms(4) by (auto simp: object_create_def allocate_object_id_def metadata_commit_def Let_def split: if_splits prod.splits)
  moreover have "M p = None" if "s \<in> {OK, ERROR_METADATA}" "seen"
  proof -
    have "\<not> path_exists R (os_meta st) p" using assms(4) that(1) by (auto simp: object_create_def split: if_splits)
    then have "kv (ms_db (os_meta st)) (key_path p) = None"
      using rocksdb_store.get_law [OF assms(1), of "ms_db (os_meta st)" "key_path p"] that(2)
      by (auto simp: path_exists_def seen_def split: option.splits)
    then show ?thesis by (simp add: M_def store_map_def objects_def view_of_def)
  qed
  ultimately show ?thesis using oc unfolding M_def M'_def by (cases s) auto
qed

theorem object_create_refines_witness:
  "\<exists>L st st'. store_ok RBT.lookup L st \<and> object_create ref_rocksdb st sample_path 0 = (OK, st')
     \<and> fst (object_create ref_rocksdb st' sample_path 0) = ERROR_ALREADY_EXISTS"
proof -
  obtain L m st where o: "store_ok RBT.lookup L st" "store_map RBT.lookup st = [sample_path \<mapsto> []]" "store_bound RBT.lookup 2 st"
    "object_create ref_rocksdb (sample_store m) sample_path 0 = (OK, st)" "store_ok RBT.lookup L (sample_store m)"
    by (rule sample_object)
  obtain s st2 where c: "object_create ref_rocksdb st sample_path 0 = (s, st2)" by (rule prod.exhaust)
  have b: "unat (ms_next_object_id (os_meta st)) + 1 < 2 ^ 64" using o(3) by (simp add: store_bound_def)
  have "s = ERROR_ALREADY_EXISTS"
    using object_create_refines [OF ref_is_store o(1) b c] ref_live sample_path_valid o(2) by simp
  then show ?thesis using o(4,5) c by (intro exI [of _ L] exI [of _ "sample_store m"] exI [of _ st]) simp
qed

text \<open>
  What was written is read back.  After a successful write, a read of the appended range returns exactly the
  data, where neither the device nor the database fails.
\<close>

theorem object_write_then_read:
  assumes "rocksdb_live R kv" and "store_ok kv L st" and "unat (ms_next_chunk_id (os_meta st)) + length data < 2 ^ 32"
    and "store_map kv st p = Some bs" and "length bs + length data < 2 ^ 64"
    and "object_write R st p data now = (OK, st1)" and "posix_healthy (io_dev (m_io (os_mount st1)))"
    and "object_read_vec R st1 p (of_nat (length bs)) (of_nat (length data)) = (q, st2)"
  shows "q = Inr data"
proof -
  have R: "rocksdb_store R kv" and it: "kv_iter_ok R db" for db
    using assms(1) rocksdb_live.iter_live [OF assms(1)] by (simp_all add: rocksdb_live_def)
  note E = posix_env [OF R] and ok = assms(2) [unfolded store_ok_iff]
  have sz: "\<forall>b. store_map kv st p = Some b \<longrightarrow> length b + length data < 2 ^ 64" using assms(4,5) by simp
  note ow = objstore_env.object_write_ok [OF E conjunct1 [OF ok] assms(3) sz [unfolded store_map_def] assms(6), folded store_map_def]
  have m: "store_map kv st1 p = Some (bs @ data)" "validate_object_path p" using ow assms(4) by auto
  have inv: "(mount_inv posix_ops posix_inv L (os_mount st1) \<and> meta_typed (kv (ms_db (os_meta st1)))
       \<and> engine_ok L (hbm_free (m_bitmap (os_mount st1))) (ms_next_chunk_id (os_meta st1)) (mv_chunk (view_of (kv (ms_db (os_meta st1))))) (os_active st1))
      \<and> objects_ok (ms_next_object_id (os_meta st1)) (view_of (kv (ms_db (os_meta st1))))" using ow by auto
  note r = objstore_env.object_read_vec_ok [OF E inv it assms(8), folded store_map_def]
  have l: "unat (of_nat (length bs) :: u64) = length bs" "unat (of_nat (length data) :: u64) = length data"
    using assms(3,5) by (simp_all add: unat_of_nat)
  have "obj_read (store_map kv st1) p (length bs) (length data) = Inr data" using m by (simp add: obj_read_def seg_def)
  then show ?thesis using r(2,3) assms(1,7) l by auto
qed

theorem object_write_then_read_witness:
  "\<exists>L st st'. store_ok RBT.lookup L st \<and> object_write ref_rocksdb st sample_path [7, 8, 9] 1 = (OK, st')
     \<and> fst (object_read_vec ref_rocksdb st' sample_path 0 3) = Inr [7, 8, 9]"
proof -
  obtain L m st st' where o: "store_ok RBT.lookup L st" "store_map RBT.lookup st = [sample_path \<mapsto> []]" "store_bound RBT.lookup 2 st"
    "object_write ref_rocksdb st sample_path [7, 8, 9] 1 = (OK, st')" "posix_healthy (io_dev (m_io (os_mount st')))"
    by (rule sample_written)
  have b: "unat (ms_next_chunk_id (os_meta st)) + length [7, 8, 9 :: byte] < 2 ^ 32" using o(3) by (simp add: store_bound_def)
  obtain q st2 where rd: "object_read_vec ref_rocksdb st' sample_path 0 3 = (q, st2)" by (rule prod.exhaust)
  have "q = Inr [7, 8, 9]" using object_write_then_read [OF ref_live o(1) b _ _ o(4,5), of "[]" q st2] o(2) rd by simp
  then show ?thesis using o(1,4) rd by (intro exI [of _ L] exI [of _ st] exI [of _ st']) simp
qed

text \<open>
  Property C13.  A write that fits succeeds.  Where neither the device nor the database fails, a write to an existing object
  that is no longer than the room left in the active chunk, or than a chunk of 64 MiB when there is no active
  chunk or it is full and 16384 consecutive blocks are free, returns \<open>OK\<close>.
\<close>

theorem object_write_succeeds:
  assumes "rocksdb_live R kv" and "store_ok kv L st" and "posix_healthy (io_dev (m_io (os_mount st)))"
    and "has_room (os_active st) \<or> chunk_free (os_mount st)" and "length data \<le> chunk_space (os_active st)"
    and "unat (ms_next_chunk_id (os_meta st)) + length data < 2 ^ 32" and "length bs + length data < 2 ^ 64"
    and "store_map kv st p = Some bs"
  shows "fst (object_write R st p data now) = OK"
proof -
  have R: "rocksdb_store R kv" using assms(1) by (simp add: rocksdb_live_def)
  obtain s st' where w: "object_write R st p data now = (s, st')" by (rule prod.exhaust)
  have "s = OK"
    by (rule objstore_env.object_write_fits [OF posix_env [OF R] assms(1) conjunct1 [OF assms(2) [unfolded store_ok_iff]] assms(3-7) assms(8) [unfolded store_map_def] w])
  then show ?thesis using w by simp
qed

theorem object_write_succeeds_witness:
  "\<exists>L st. store_ok RBT.lookup L st \<and> fst (object_write ref_rocksdb st sample_path [7, 8, 9] 1) = OK"
proof -
  obtain L m st where o: "store_ok RBT.lookup L st" "posix_healthy (io_dev (m_io (os_mount st)))" "chunk_free (os_mount st)"
    "store_map RBT.lookup st = [sample_path \<mapsto> []]" "store_bound RBT.lookup 2 st" "os_active st = None" by (rule sample_object)
  have b: "unat (ms_next_chunk_id (os_meta st)) + length [7, 8, 9 :: byte] < 2 ^ 32" using o(5) by (simp add: store_bound_def)
  have "fst (object_write ref_rocksdb st sample_path [7, 8, 9] 1) = OK"
    using object_write_succeeds [OF ref_live o(1,2) disjI2 [OF o(3)] _ b, of "[]" sample_path 1] o(4,6) by (simp add: chunk_space_def)
  then show ?thesis using o(1) by blast
qed



text \<open>
  Property C14.  A read error makes a creation destroy an object.  When the lookup of the path of an existing object fails
  in the database, and its writes do not, the creation takes the path for absent: it returns \<open>OK\<close>, and
  the object has been replaced by an empty one.
\<close>

theorem create_replaces_unread_object:
  assumes "rocksdb_store R kv" and "store_ok kv L st" and "unat (ms_next_object_id (os_meta st)) + 1 < 2 ^ 64"
    and "store_map kv st p = Some bs" and "kv_get R (ms_db (os_meta st)) (key_path p) = KvError"
    and "\<forall>db k v. fst (kv_put R db k v)" and "\<forall>db wb. fst (kv_write R db wb)"
    and "object_create R st p now = (s, st')"
  shows "s = OK \<and> store_map kv st' = (store_map kv st)(p \<mapsto> [])"
proof -
  have v: "validate_object_path p" using assms(4) by (simp add: store_map_def objects_def split: if_splits)
  note oc = objstore_env.object_create_ok [OF posix_env [OF assms(1)] conjunct1 [OF assms(2) [unfolded store_ok_iff]] assms(3,8), folded store_map_def]
  have ok: "fst (allocate_object_id R ms) = OK" "fst (metadata_commit R ms wb) = OK" for ms wb
    using assms(6,7) by (auto simp: allocate_object_id_def metadata_commit_def Let_def split: prod.splits) (metis fst_conv)+
  have "s = OK"
    using assms(5,8) v ok(1) [of "os_meta st"] ok(2)
    by (auto simp: object_create_def path_exists_def Let_def split: prod.splits if_splits) (metis fst_conv)+
  then show ?thesis using oc(2) by blast
qed

definition flaky_rocksdb :: "ref_db rocksdb" where
  "flaky_rocksdb = ref_rocksdb\<lparr>kv_get := \<lambda>db k. KvError\<rparr>"

lemma flaky_is_store: "rocksdb_store flaky_rocksdb RBT.lookup"
proof
  fix db k v ok db' wb
  show "kv_get flaky_rocksdb db k = KvError \<or> kv_get flaky_rocksdb db k = (case RBT.lookup db k of Some v \<Rightarrow> Found v | None \<Rightarrow> NotFound)"
    by (simp add: flaky_rocksdb_def)
  show "kv_put flaky_rocksdb db k v = (ok, db') \<Longrightarrow> RBT.lookup db' = (RBT.lookup db)(k \<mapsto> v) \<or> \<not> ok \<and> RBT.lookup db' = RBT.lookup db"
    using ref.put_law by (simp add: flaky_rocksdb_def)
  show "kv_write flaky_rocksdb db wb = (ok, db') \<Longrightarrow> RBT.lookup db' = RBT.lookup db ++ map_of (rev wb) \<or> \<not> ok \<and> RBT.lookup db' = RBT.lookup db"
    using ref.write_law by (simp add: flaky_rocksdb_def)
  show "kv_iter_ok flaky_rocksdb db \<Longrightarrow> sorted (map fst (kv_entries flaky_rocksdb db)) \<and> distinct (map fst (kv_entries flaky_rocksdb db))
      \<and> map_of (kv_entries flaky_rocksdb db) = RBT.lookup db"
    using ref.entries_law [of db] ref.iter_live [of db] by (simp add: flaky_rocksdb_def)
qed

theorem create_replaces_unread_object_witness:
  "\<exists>L st st'. store_ok RBT.lookup L st \<and> store_map RBT.lookup st sample_path = Some [7, 8, 9]
     \<and> object_create flaky_rocksdb st sample_path 5 = (OK, st') \<and> store_map RBT.lookup st' sample_path = Some []"
proof -
  obtain L m st0 st where o: "store_bound RBT.lookup 2 st0" "object_write ref_rocksdb st0 sample_path [7, 8, 9] 1 = (OK, st)"
    "store_ok RBT.lookup L st0" "store_ok RBT.lookup L st" "store_map RBT.lookup st = [sample_path \<mapsto> [7, 8, 9]]" by (rule sample_written)
  have small: "2 + length [7, 8, 9 :: byte] + 1 < 2 ^ 32" by simp
  have b: "unat (ms_next_object_id (os_meta st)) + 1 < 2 ^ 64"
    using append_goes(2) [OF ref_is_store o(3,1) small o(2)] by (simp add: store_bound_def)
  obtain s st' where c: "object_create flaky_rocksdb st sample_path 5 = (s, st')" by (rule prod.exhaust)
  have "s = OK \<and> store_map RBT.lookup st' = (store_map RBT.lookup st)(sample_path \<mapsto> [])"
    using create_replaces_unread_object [OF flaky_is_store o(4) b _ _ _ _ c, of "[7, 8, 9]"] o(5)
    by (simp add: flaky_rocksdb_def ref_rocksdb_def)
  then show ?thesis using o(4,5) c by (intro exI [of _ L] exI [of _ st] exI [of _ st']) simp
qed

end
