(* ===== verification/Nebula_Rocksdb_Fs.thy ===== *)
theory Nebula_Rocksdb_Fs
  imports Nebula_Fs
begin

unbundle bit_operations_syntax

text \<open>
  \<open>src/rocksdb/nebula_rocksdb_fs.cc\<close>: the file system that RocksDB runs on, a flat namespace over the public
  interface of the mounted device.  The interface class of RocksDB only fixes the signatures; every method
  body here calls \<open>nebula_fs\<close>.  The device is passed explicitly, an object of a file class is a record with
  its handle, and a reading of the clock is an argument.  The text of a status is left out.
\<close>

section \<open>Statuses and names\<close>

datatype io_status = IOStatus_OK | IOStatus_NotFound | IOStatus_InvalidArgument | IOStatus_NoSpace | IOStatus_IOError

text \<open>The return code 0 is \<open>Inr 0\<close>, another non-negative one \<open>Inr n\<close>, and \<open>-e\<close> is \<open>Inl e\<close>.\<close>

fun io_err :: "int res \<Rightarrow> io_status" where
  "io_err (Inr rc) = (if rc = 0 then IOStatus_OK else IOStatus_IOError)"
| "io_err (Inl e) =
     (if e = ENOENT then IOStatus_NotFound
      else if e = EEXIST then IOStatus_InvalidArgument
      else if e = ENOSPC then IOStatus_NoSpace
      else IOStatus_IOError)"

definition rc_of :: "'a res \<Rightarrow> int res" where
  "rc_of r = (case r of Inl e \<Rightarrow> Inl e | Inr _ \<Rightarrow> Inr 0)"

text \<open>The last position of a character, and the part of a path behind its last slash.\<close>

definition rfind :: "byte list \<Rightarrow> byte \<Rightarrow> nat option" where
  "rfind path c = (if c \<in> set path then Some (length path - 1 - length (takeWhile (\<lambda>x. x \<noteq> c) (rev path))) else None)"

definition basename :: "byte list \<Rightarrow> byte list" where
  "basename path = (case rfind path 0x2F of None \<Rightarrow> path | Some pos \<Rightarrow> drop (pos + 1) path)"

text \<open>\<open>std::string::c_str\<close> as a callee of C reads it.\<close>

definition c_str :: "byte list \<Rightarrow> byte list" where
  "c_str s = takeWhile (\<lambda>c. c \<noteq> 0) s"

section \<open>Open files\<close>

record sequential_file =
  sq_fh :: nebula_file
  sq_pos :: u64
  sq_size :: u64

definition sequential_read ::
    "'d nebula_mount \<Rightarrow> sequential_file \<Rightarrow> u64 \<Rightarrow> u64 \<Rightarrow> (io_status + byte list) \<times> sequential_file \<times> 'd nebula_mount" where
  "sequential_read fs f n t =
     (if sq_pos f \<ge> sq_size f then (Inr [], f, fs)
      else
        let to_read = min n (sq_size f - sq_pos f) in
        case nebula_fs_read fs (sq_fh f) (sq_pos f) to_read t of
          (Inl _, fh, m1) \<Rightarrow> (Inl IOStatus_IOError, f\<lparr>sq_fh := fh\<rparr>, m1)
        | (Inr bs, fh, m1) \<Rightarrow> (Inr bs, f\<lparr>sq_fh := fh, sq_pos := sq_pos f + of_nat (length bs)\<rparr>, m1))"

definition sequential_skip :: "sequential_file \<Rightarrow> u64 \<Rightarrow> sequential_file" where
  "sequential_skip f n = f\<lparr>sq_pos := min (sq_pos f + n) (sq_size f)\<rparr>"

definition random_access_read ::
    "'d nebula_mount \<Rightarrow> nebula_file \<Rightarrow> u64 \<Rightarrow> u64 \<Rightarrow> u64 \<Rightarrow> (io_status + byte list) \<times> nebula_file \<times> 'd nebula_mount" where
  "random_access_read fs fh offset n t =
     (let sz = nebula_fs_file_size fh in
      if offset \<ge> sz then (Inr [], fh, fs)
      else
        case nebula_fs_read fs fh offset (min n (sz - offset)) t of
          (Inl _, fh1, m1) \<Rightarrow> (Inl IOStatus_IOError, fh1, m1)
        | (Inr bs, fh1, m1) \<Rightarrow> (Inr bs, fh1, m1))"

record writable_file =
  wr_fh :: "nebula_file option"
  wr_pos :: u64
  wr_closed :: bool

text \<open>
  The handle is null only after a close, when the file is marked closed; a write through a null handle is
  refused by the callee.
\<close>

definition writable_append ::
    "'d nebula_mount \<Rightarrow> writable_file \<Rightarrow> byte list \<Rightarrow> u64 \<Rightarrow> io_status \<times> writable_file \<times> 'd nebula_mount" where
  "writable_append fs w data t =
     (if wr_closed w then (IOStatus_IOError, w, fs)
      else
        case wr_fh w of
          None \<Rightarrow> (IOStatus_IOError, w, fs)
        | Some fh \<Rightarrow>
            (case nebula_fs_write fs fh (wr_pos w) data t of
               (Inl _, fh1, m1) \<Rightarrow> (IOStatus_IOError, w\<lparr>wr_fh := Some fh1\<rparr>, m1)
             | (Inr n, fh1, m1) \<Rightarrow> (IOStatus_OK, w\<lparr>wr_fh := Some fh1, wr_pos := wr_pos w + of_nat n\<rparr>, m1)))"

text \<open>\<open>Flush\<close> and \<open>Sync\<close> do nothing.\<close>

definition writable_sync :: "writable_file \<Rightarrow> io_status" where
  "writable_sync w = IOStatus_OK"

definition writable_close ::
    "'d nebula_mount \<Rightarrow> writable_file \<Rightarrow> u64 \<Rightarrow> io_status \<times> writable_file \<times> 'd nebula_mount" where
  "writable_close fs w t =
     (case wr_fh w of
        Some fh \<Rightarrow>
          if \<not> wr_closed w then
            (case nebula_fs_close fs fh t of (rc, m1) \<Rightarrow> (io_err (rc_of rc), w\<lparr>wr_fh := None, wr_closed := True\<rparr>, m1))
          else (IOStatus_OK, w, fs)
      | None \<Rightarrow> (IOStatus_OK, w, fs))"

text \<open>The destructors close the handle; a writable file does so unless it was closed before.\<close>

definition reader_destroy :: "'d nebula_mount \<Rightarrow> nebula_file \<Rightarrow> u64 \<Rightarrow> 'd nebula_mount" where
  "reader_destroy fs fh t = snd (nebula_fs_close fs fh t)"

definition writable_destroy :: "'d nebula_mount \<Rightarrow> writable_file \<Rightarrow> u64 \<Rightarrow> 'd nebula_mount" where
  "writable_destroy fs w t =
     (case wr_fh w of
        Some fh \<Rightarrow> if \<not> wr_closed w then snd (nebula_fs_close fs fh t) else fs
      | None \<Rightarrow> fs)"

definition writable_file_size :: "writable_file \<Rightarrow> u64" where
  "writable_file_size w = wr_pos w"

section \<open>Mounting\<close>

text \<open>The constructor throws what the mount reports.\<close>

definition nebula_file_system :: "'d nebula_io \<Rightarrow> 'd nebula_mount res" where
  "nebula_file_system io = fst (nebula_fs_mount_io io)"

section \<open>Opening and creating\<close>

definition new_sequential_file ::
    "'d nebula_mount \<Rightarrow> byte list \<Rightarrow> (io_status + sequential_file) \<times> 'd nebula_mount" where
  "new_sequential_file fs fname =
     (case nebula_fs_open fs (c_str (basename fname)) NEBULA_O_RDONLY of
        (Inl e, m1) \<Rightarrow> (Inl (io_err (Inl e)), m1)
      | (Inr fh, m1) \<Rightarrow> (Inr \<lparr>sq_fh = fh, sq_pos = 0, sq_size = nebula_fs_file_size fh\<rparr>, m1))"

definition new_random_access_file ::
    "'d nebula_mount \<Rightarrow> byte list \<Rightarrow> (io_status + nebula_file) \<times> 'd nebula_mount" where
  "new_random_access_file fs fname =
     (case nebula_fs_open fs (c_str (basename fname)) NEBULA_O_RDONLY of
        (Inl e, m1) \<Rightarrow> (Inl (io_err (Inl e)), m1)
      | (Inr fh, m1) \<Rightarrow> (Inr fh, m1))"

definition new_writable_file ::
    "'d nebula_mount \<Rightarrow> byte list \<Rightarrow> u64 \<Rightarrow> (io_status + writable_file) \<times> 'd nebula_mount" where
  "new_writable_file fs fname t =
     (let name = c_str (basename fname) in
      case nebula_fs_delete fs name of
        (_, m1) \<Rightarrow>
          (case nebula_fs_create m1 name 0x1A4 t of
             (Inl e, m2) \<Rightarrow> (Inl (io_err (Inl e)), m2)
           | (Inr fh, m2) \<Rightarrow> (Inr \<lparr>wr_fh = Some fh, wr_pos = 0, wr_closed = False\<rparr>, m2)))"

definition reopen_writable_file ::
    "'d nebula_mount \<Rightarrow> byte list \<Rightarrow> (io_status + writable_file) \<times> 'd nebula_mount" where
  "reopen_writable_file fs fname =
     (case nebula_fs_open fs (c_str (basename fname)) NEBULA_O_RDWR of
        (Inl e, m1) \<Rightarrow> (Inl (io_err (Inl e)), m1)
      | (Inr fh, m1) \<Rightarrow> (Inr \<lparr>wr_fh = Some fh, wr_pos = nebula_fs_file_size fh, wr_closed = False\<rparr>, m1))"

section \<open>Names and metadata\<close>

definition file_exists :: "'d nebula_mount \<Rightarrow> byte list \<Rightarrow> io_status \<times> 'd nebula_mount" where
  "file_exists fs fname =
     (case nebula_fs_lookup fs (c_str (basename fname)) of
        (Inr _, m1) \<Rightarrow> (IOStatus_OK, m1)
      | (Inl _, m1) \<Rightarrow> (IOStatus_NotFound, m1))"

definition list_cb :: "nebula_fs_dirent \<Rightarrow> byte list list \<Rightarrow> int \<times> byte list list" where
  "list_cb de out = (0, if fd_flags de AND NEBULA_DIR_FLAG_DIR \<noteq> 0 then out else out @ [fd_name de])"

definition get_children :: "'d nebula_mount \<Rightarrow> io_status \<times> byte list list \<times> 'd nebula_mount" where
  "get_children fs = (case nebula_fs_readdir fs list_cb [] of (rc, out, m1) \<Rightarrow> (io_err rc, out, m1))"

definition delete_file :: "'d nebula_mount \<Rightarrow> byte list \<Rightarrow> io_status \<times> 'd nebula_mount" where
  "delete_file fs fname = (case nebula_fs_delete fs (c_str (basename fname)) of (rc, m1) \<Rightarrow> (io_err (rc_of rc), m1))"

definition get_file_size :: "'d nebula_mount \<Rightarrow> byte list \<Rightarrow> u64 \<Rightarrow> (io_status + u64) \<times> 'd nebula_mount" where
  "get_file_size fs fname t =
     (case nebula_fs_open fs (c_str (basename fname)) NEBULA_O_RDONLY of
        (Inl e, m1) \<Rightarrow> (Inl (io_err (Inl e)), m1)
      | (Inr fh, m1) \<Rightarrow> (case nebula_fs_close m1 fh t of (_, m2) \<Rightarrow> (Inr (nebula_fs_file_size fh), m2)))"

text \<open>The modification time is the clock, not that of the file.\<close>

definition get_file_modification_time :: "byte list \<Rightarrow> u64 \<Rightarrow> io_status + u64" where
  "get_file_modification_time fname now = Inr now"

section \<open>Renaming\<close>

text \<open>
  A file is renamed by copying: its content is read, the source and then the target are deleted, and the
  content is written to a new file.  \<open>clk\<close> holds the readings of the clock in their order.
\<close>

definition rename_load ::
    "'d nebula_mount \<Rightarrow> byte list \<Rightarrow> (nat \<Rightarrow> u64) \<Rightarrow> (io_status + byte list) \<times> 'd nebula_mount" where
  "rename_load fs sname clk =
     (case nebula_fs_lookup fs sname of
        (Inl e, m1) \<Rightarrow> (Inl (io_err (Inl e)), m1)
      | (Inr _, m1) \<Rightarrow>
          (case nebula_fs_open m1 sname NEBULA_O_RDONLY of
             (Inl e, m2) \<Rightarrow> (Inl (io_err (Inl e)), m2)
           | (Inr rfh, m2) \<Rightarrow>
               let sz = nebula_fs_file_size rfh in
               (case (if sz > 0 then nebula_fs_read m2 rfh 0 sz (clk 0) else (Inr [], rfh, m2)) of
                  (Inl _, rfh1, m3) \<Rightarrow> (case nebula_fs_close m3 rfh1 (clk 1) of (_, m4) \<Rightarrow> (Inl IOStatus_IOError, m4))
                | (Inr got, rfh1, m3) \<Rightarrow>
                    (case nebula_fs_close m3 rfh1 (clk 1) of (_, m4) \<Rightarrow> (Inr (got @ zeros (unat sz - length got)), m4)))))"

definition rename_store ::
    "'d nebula_mount \<Rightarrow> byte list \<Rightarrow> byte list \<Rightarrow> (nat \<Rightarrow> u64) \<Rightarrow> io_status \<times> 'd nebula_mount" where
  "rename_store fs tname buf clk =
     (case nebula_fs_create fs tname 0x1A4 (clk 2) of
        (Inl e, m1) \<Rightarrow> (io_err (Inl e), m1)
      | (Inr wfh, m1) \<Rightarrow>
          (case (if buf \<noteq> [] then nebula_fs_write m1 wfh 0 buf (clk 3) else (Inr 0, wfh, m1)) of
             (Inl _, wfh1, m2) \<Rightarrow> (case nebula_fs_close m2 wfh1 (clk 4) of (_, m3) \<Rightarrow> (IOStatus_IOError, m3))
           | (Inr _, wfh1, m2) \<Rightarrow> (case nebula_fs_close m2 wfh1 (clk 4) of (_, m3) \<Rightarrow> (IOStatus_OK, m3))))"

definition rename_file ::
    "'d nebula_mount \<Rightarrow> byte list \<Rightarrow> byte list \<Rightarrow> (nat \<Rightarrow> u64) \<Rightarrow> io_status \<times> 'd nebula_mount" where
  "rename_file fs src target clk =
     (let sname = c_str (basename src); tname = c_str (basename target) in
      case rename_load fs sname clk of
        (Inl s, m1) \<Rightarrow> (s, m1)
      | (Inr buf, m1) \<Rightarrow>
          (case nebula_fs_delete m1 sname of
             (Inl e, m2) \<Rightarrow> (io_err (Inl e), m2)
           | (Inr _, m2) \<Rightarrow> (case nebula_fs_delete m2 tname of (_, m3) \<Rightarrow> rename_store m3 tname buf clk)))"

section \<open>Directories and locks\<close>

text \<open>The namespace is flat: directories are accepted without effect, nothing is one, and a lock is always granted.\<close>

definition create_dir :: "'d nebula_mount \<Rightarrow> byte list \<Rightarrow> io_status \<times> 'd nebula_mount" where
  "create_dir fs dirname = (IOStatus_OK, fs)"

definition get_absolute_path :: "byte list \<Rightarrow> byte list" where
  "get_absolute_path db_path = (if db_path = [] then [0x2F] else db_path)"

definition is_directory :: "byte list \<Rightarrow> bool" where
  "is_directory path = False"

section \<open>Closing\<close>

text \<open>Destroying an open writer leaves the device as closing it does, and destroying a closed one leaves it alone.\<close>

lemma writable_destroy_close: "snd (snd (writable_close fs w t)) = writable_destroy fs w t"
  by (simp add: writable_close_def writable_destroy_def split: option.splits prod.splits)

lemma writable_destroy_closed: "writable_close fs w t = (s, w1, fs1) \<Longrightarrow> writable_destroy fs1 w1 t1 = fs1"
  by (auto simp: writable_close_def writable_destroy_def split: option.splits prod.splits if_splits)

section \<open>Names\<close>

lemma takeWhile_not: "c \<notin> set xs \<Longrightarrow> takeWhile (\<lambda>x. x \<noteq> c) (xs @ c # ys) = xs" "c \<notin> set xs \<Longrightarrow> takeWhile (\<lambda>x. x \<noteq> c) xs = xs"
  by (induction xs) auto

lemma basename_rev: "basename path = rev (takeWhile (\<lambda>x. x \<noteq> 0x2F) (rev path))"
proof (cases "0x2F \<in> set path")
  case False
  then show ?thesis using takeWhile_not(2) [of "0x2F" "rev path"] by (simp add: basename_def rfind_def del: takeWhile_eq_all_conv)
next
  case True
  then obtain ys zs where p: "path = ys @ 0x2F # zs" "0x2F \<notin> set zs" by (metis split_list_last)
  have w: "takeWhile (\<lambda>x. x \<noteq> 0x2F) (rev path) = rev zs"
    using takeWhile_not(1) [of "0x2F" "rev zs"] p(2) unfolding p(1) by simp
  show ?thesis unfolding basename_def rfind_def w using True p(1) by simp
qed

lemma basename_no_slash: "0x2F \<notin> set (basename path)"
  by (auto simp: basename_rev dest: set_takeWhileD)

text \<open>The name of the root directory cannot be reached through the adapter.\<close>

lemma adapter_name_not_root: "c_str (basename path) \<noteq> [0x2F]"
  using basename_no_slash [of path] by (metis c_str_def list.set_intros(1) set_takeWhileD)

lemma basename_plain: "0x2F \<notin> set p \<Longrightarrow> basename p = p"
  using takeWhile_not(2) [of "0x2F" "rev p"] by (simp add: basename_rev del: takeWhile_eq_all_conv)

end
