(* ===== verification/Nebula_Rocksdb_Session.thy ===== *)
theory Nebula_Rocksdb_Session
  imports Nebula_Rocksdb_Fs Nebula_Fs_Correct
begin

unbundle bit_operations_syntax

text \<open>
  The invariant of a session of the adapter.  RocksDB keeps several files open for appending at a time, so
  the state has a writer for each open name besides the device.  Two maps describe it: \<open>durable\<close>, what a
  reader finds under a name, and the bytes that the writer of a name has accepted, of which the first is a
  prefix.  Every operation on one name keeps the writers of the others.
\<close>

section \<open>Contents of files\<close>

definition content :: "afile \<Rightarrow> byte list" where
  "content a = afile_read 0 (unat (fst a)) a"

text \<open>A file without holes, of a size that a signed offset holds.\<close>

definition solid :: "afile \<Rightarrow> bool" where
  "solid a \<longleftrightarrow> unat (fst a) < 2 ^ 63 \<and> (\<forall>p < unat (fst a). snd a p \<noteq> None)"

definition durable :: "nebula_layout \<Rightarrow> posix_dev nebula_mount \<Rightarrow> byte list \<Rightarrow> byte list option" where
  "durable L m name = map_option content (fs_view (posix_blk (io_dev (m_io m))) L name)"

type_synonym files = "byte list \<Rightarrow> byte list option"

section \<open>The invariant of a session\<close>

text \<open>A writer holds the accepted bytes \<open>C\<close> of its name: all of them are mapped in its copy of the inode.\<close>

definition writer_ok :: "nebula_layout \<Rightarrow> posix_dev nebula_mount \<Rightarrow> byte list \<Rightarrow> nebula_file \<Rightarrow> byte list \<Rightarrow> bool" where
  "writer_ok L m name f C \<longleftrightarrow> (\<exists>n. dir_map (posix.mdisk m) L name = Some n
     \<and> handle_own L (hbm_free (m_bitmap m)) (posix.mdisk m) n f) \<and> f_flags f AND NEBULA_O_WRONLY \<noteq> 0
     \<and> length C < 2 ^ 63 \<and> unat (ino_size_bytes (f_inode f)) \<le> length C
     \<and> C = file_bytes (posix.mdisk m) (f_inode f) 0 (length C)
     \<and> (\<forall>p < length C. file_phys (f_inode f) (of_nat (p div 4096)) \<noteq> None)"

definition open_writer :: "writable_file \<Rightarrow> nebula_file \<Rightarrow> byte list \<Rightarrow> bool" where
  "open_writer w f C \<longleftrightarrow> \<not> wr_closed w \<and> wr_fh w = Some f \<and> unat (wr_pos w) = length C"

definition session_ok ::
    "nebula_layout \<Rightarrow> posix_dev nebula_mount \<Rightarrow> (byte list \<Rightarrow> writable_file option) \<Rightarrow> files \<Rightarrow> bool" where
  "session_ok L m W P \<longleftrightarrow> fs_live L m \<and> (\<forall>name a. fs_view (posix.mdisk m) L name = Some a \<longrightarrow> solid a) \<and> dom W = dom P
     \<and> (\<forall>name w. W name = Some w \<longrightarrow> (\<exists>f C. P name = Some C \<and> open_writer w f C \<and> writer_ok L m name f C))
     \<and> (\<forall>a b w v f g. a \<noteq> b \<and> W a = Some w \<and> W b = Some v \<and> wr_fh w = Some f \<and> wr_fh v = Some g \<longrightarrow>
          set (file_list (f_inode f)) \<inter> set (file_list (f_inode g)) = {})"

section \<open>Contents through a handle\<close>

lemma below_size: "p < unat (a :: u64) \<Longrightarrow> p < 2 ^ 64"
  using less_trans [OF _ unat_u64_less, of p a] by simp

lemma content_view: "content (file_view dsk i) = file_bytes dsk i 0 (unat (ino_size_bytes i))"
  using file_view_byte [OF below_size [of _ "ino_size_bytes i"], of _ dsk i]
  by (simp add: content_def afile_read_def file_bytes_def) (simp add: file_view_def)

lemma solid_view:
  "solid (file_view dsk i) \<longleftrightarrow> unat (ino_size_bytes i) < 2 ^ 63 \<and> (\<forall>p < unat (ino_size_bytes i). file_phys i (of_nat (p div 4096)) \<noteq> None)"
  using below_size [of _ "ino_size_bytes i"] by (auto simp: solid_def file_view_def)

text \<open>A solid file read through a handle that is ahead of it.\<close>

lemma own_content:
  assumes own: "handle_own L fr dsk n f" and s: "solid (file_view dsk (inode_at dsk L (unat n)))"
  shows "content (file_view dsk (inode_at dsk L (unat n))) = file_bytes dsk (f_inode f) 0 (unat (ino_size_bytes (f_inode f)))"
proof -
  let ?d = "inode_at dsk L (unat n)"
  have sz: "ino_size_bytes ?d = ino_size_bytes (f_inode f)" using own by (simp add: handle_own_def)
  have "file_byte dsk ?d p = file_byte dsk (f_inode f) p" if p: "p < unat (ino_size_bytes (f_inode f))" for p
  proof -
    obtain x where x: "file_phys ?d (of_nat (p div 4096)) = Some x" using s p unfolding solid_view sz by blast
    then have "file_phys (f_inode f) (of_nat (p div 4096)) = Some x" using own unfolding handle_own_def by blast
    with x show ?thesis by (simp add: file_byte_def)
  qed
  then show ?thesis unfolding content_view sz by (simp add: file_bytes_def)
qed

lemma take_file_bytes: "k \<le> n \<Longrightarrow> take k (file_bytes dsk i p n) = file_bytes dsk i p k"
  by (simp add: file_bytes_def take_map)

lemma durable_writer:
  assumes "writer_ok L m name f C" and "\<And>a. fs_view (posix.mdisk m) L name = Some a \<Longrightarrow> solid a"
  shows "durable L m name = Some (take (unat (ino_size_bytes (f_inode f))) C)"
proof -
  obtain n where n: "dir_map (posix.mdisk m) L name = Some n" "handle_own L (hbm_free (m_bitmap m)) (posix.mdisk m) n f"
    and C: "unat (ino_size_bytes (f_inode f)) \<le> length C" "C = file_bytes (posix.mdisk m) (f_inode f) 0 (length C)"
    using assms(1) unfolding writer_ok_def by blast
  have v: "fs_view (posix.mdisk m) L name = Some (file_view (posix.mdisk m) (inode_at (posix.mdisk m) L (unat n)))"
    using n(1) by (simp add: fs_view_def)
  have "take (unat (ino_size_bytes (f_inode f))) C = file_bytes (posix.mdisk m) (f_inode f) 0 (unat (ino_size_bytes (f_inode f)))"
    using take_file_bytes [OF C(1)] C(2) by metis
  then show ?thesis using own_content [OF n(2) assms(2) [OF v]] v by (simp add: durable_def)
qed

text \<open>A call on another file leaves a writer as it is.\<close>

lemma writer_frame:
  assumes w: "writer_ok L m name f C" and ok: "posix.fsok L m"
    and fr: "files_frame L X B (posix.mdisk m) (posix.mdisk m')"
    and D: "dir_map (posix.mdisk m') L name = dir_map (posix.mdisk m) L name"
    and X: "\<And>n. dir_map (posix.mdisk m) L name = Some n \<Longrightarrow> unat n \<notin> X"
    and apart: "set (file_list (f_inode f)) \<inter> B = {}" "set (file_list (f_inode f)) \<inter> hbm_free (m_bitmap m') = {}"
    and new: "\<And>k. k \<in> X \<Longrightarrow> inode_used (posix.mdisk m') L k \<Longrightarrow> set (file_list (f_inode f)) \<inter> set (file_list (inode_at (posix.mdisk m') L k)) = {}"
  shows "writer_ok L m' name f C"
proof -
  obtain n where n: "dir_map (posix.mdisk m) L name = Some n" "handle_own L (hbm_free (m_bitmap m)) (posix.mdisk m) n f"
    using w unfolding writer_ok_def by blast
  note h = handle_own_frame [OF n(2) fr X [OF n(1)] posix.named_inode(1) [OF ok n(1)] apart new]
  have "file_bytes (posix.mdisk m') (f_inode f) 0 (length C) = file_bytes (posix.mdisk m) (f_inode f) 0 (length C)"
    using h(2) by (simp add: file_bytes_def)
  then show ?thesis using w h(1) n(1) D unfolding writer_ok_def by auto
qed

section \<open>Appending\<close>

lemma append_bytes:
  assumes eff: "write_effect dsk i dsk' i' (length C) (length C + k) (take k data)" and k: "k \<le> length data"
    and C: "C = file_bytes dsk i 0 (length C)" "\<forall>p < length C. file_phys i (of_nat (p div 4096)) \<noteq> None" and l: "length C < 2 ^ 63"
    and keep: "\<And>c x. file_phys i c = Some x \<Longrightarrow> file_phys i' c = Some x"
  shows "C @ take k data = file_bytes dsk' i' 0 (length C + k)" and "\<forall>p < length C + k. file_phys i' (of_nat (p div 4096)) \<noteq> None"
proof -
  have old: "file_byte dsk' i' p = C ! p" if "p < length C" for p
  proof -
    have "p < 2 ^ 64" using that l by simp
    then have "file_byte dsk' i' p = file_byte dsk i p" using eff that C(2) unfolding write_effect_def by blast
    also have "\<dots> = file_bytes dsk i 0 (length C) ! p" using that by (simp add: file_bytes_def)
    finally show ?thesis using C(1) by simp
  qed
  have new: "file_phys i' (of_nat (p div 4096)) \<noteq> None" "file_byte dsk' i' p = take k data ! (p - length C)"
    if "length C \<le> p" "p < length C + k" for p
    using eff that unfolding write_effect_def by blast+
  show "C @ take k data = file_bytes dsk' i' 0 (length C + k)"
  proof (rule nth_equalityI)
    show "(C @ take k data) ! p = file_bytes dsk' i' 0 (length C + k) ! p" if "p < length (C @ take k data)" for p
      using that k old [of p] new(2) [of p] by (cases "p < length C") (simp_all add: file_bytes_def nth_append)
  qed (use k in simp)
  show "\<forall>p < length C + k. file_phys i' (of_nat (p div 4096)) \<noteq> None"
    using C(2) keep new(1) by (metis not_le option.collapse option.distinct(1))
qed

lemma append_effect:
  assumes live: "fs_live L m" and sol: "\<And>a. fs_view (posix.mdisk m) L name = Some a \<Longrightarrow> solid a"
    and w: "writer_ok L m name f C" and ow: "open_writer w f C" and ne: "data \<noteq> []" and b: "length C + length data < 2 ^ 63"
    and ap: "writable_append m w data t = (s, w', m')" and n: "dir_map (posix.mdisk m) L name = Some n"
  obtains f' k where "k \<le> length data" and "s = IOStatus_OK \<or> s = IOStatus_IOError \<and> k = 0"
    and "open_writer w' f' (C @ take k data)" and "writer_ok L m' name f' (C @ take k data)" and "fs_live L m'"
    and "posix.mdir L m' = posix.mdir L m" and "\<And>b. b \<noteq> name \<Longrightarrow> posix.mview L m' b = posix.mview L m b"
    and "\<And>a. posix.mview L m' name = Some a \<Longrightarrow> solid a"
    and "durable L m' name = (if k = length data then Some (C @ data) else durable L m name)"
    and "hbm_free (m_bitmap m') \<subseteq> hbm_free (m_bitmap m)"
    and "files_frame L {unat n} (set (file_list (f_inode f)) \<union> hbm_free (m_bitmap m)) (posix.mdisk m) (posix.mdisk m')"
    and "set (file_list (f_inode f')) \<subseteq> set (file_list (f_inode f)) \<union> hbm_free (m_bitmap m)"
    and "set (file_list (inode_at (posix.mdisk m') L (unat n))) \<subseteq> set (file_list (f_inode f'))"
proof -
  note a = fs_liveD [OF live]
  have own: "handle_own L (hbm_free (m_bitmap m)) (posix.mdisk m) n f" and fl: "f_flags f AND NEBULA_O_WRONLY \<noteq> 0"
    and C: "length C < 2 ^ 63" "unat (ino_size_bytes (f_inode f)) \<le> length C" "C = file_bytes (posix.mdisk m) (f_inode f) 0 (length C)"
      "\<forall>p < length C. file_phys (f_inode f) (of_nat (p div 4096)) \<noteq> None"
    using w n unfolding writer_ok_def by auto
  have off: "\<not> wr_closed w" "wr_fh w = Some f" "unat (wr_pos w) = length C" using ow by (simp_all add: open_writer_def)
  obtain r f' m1 where wr: "nebula_fs_write m f (wr_pos w) data t = (r, f', m1)" by (rule prod_cases3)
  have fit: "unat (wr_pos w) + length data < 2 ^ 63" using b off(3) by simp
  have res: "m' = m1" "s = (case r of Inl _ \<Rightarrow> IOStatus_IOError | Inr _ \<Rightarrow> IOStatus_OK)"
    "w' = w\<lparr>wr_fh := Some f', wr_pos := wr_pos w + of_nat (case r of Inl _ \<Rightarrow> 0 | Inr j \<Rightarrow> j)\<rparr>"
    using ap off wr by (auto simp: writable_append_def split: sum.splits)
  note c = posix.fs_write_own [OF a(1-3) n own fl ne fit wr, unfolded off(3), folded res(1)]
  obtain k where k: "k \<le> length data" "r = Inr k \<or> k = 0 \<and> r = Inl ENOSPC"
    "write_effect (posix.mdisk m) (f_inode f) (posix.mdisk m') (f_inode f') (length C) (length C + k) (take k data)"
    "if k = length data then r = Inr k \<and> ino_size_bytes (f_inode f') = max (ino_size_bytes (f_inode f)) (wr_pos w + of_nat k) \<and> handle_for (posix.mdisk m') L n f'
     else ino_size_bytes (f_inode f') = ino_size_bytes (f_inode f) \<and> inode_at (posix.mdisk m') L (unat n) = inode_at (posix.mdisk m) L (unat n)"
    using c(10) by blast
  note B = append_bytes [OF k(3,1) C(3,4,1) c(9)]
  have pos: "unat (wr_pos w + of_nat j) = length C + j" if "j \<le> length data" for j
    using that b off(3) by (simp add: unat_word_ariths unat_of_nat)
  have sz: "unat (ino_size_bytes (f_inode f')) = (if k = length data then length C + length data else unat (ino_size_bytes (f_inode f)))"
    using k(4) pos [of "length data"] C(2) by (auto simp: max_def word_le_nat_alt)
  have own': "handle_own L (hbm_free (m_bitmap m')) (posix.mdisk m') n f'" "f_flags f' = f_flags f" using c(6) by auto
  have len: "length (C @ take k data) = length C + k" using k(1) by simp
  have wok: "writer_ok L m' name f' (C @ take k data)"
    unfolding writer_ok_def len using own' n c(3) fl B b k(1) sz C(2) by auto
  have sol': "solid x" if x: "posix.mview L m' name = Some x" for x
  proof -
    have "x = file_view (posix.mdisk m') (inode_at (posix.mdisk m') L (unat n))" using x n c(3) by (simp add: fs_view_def)
    moreover have "solid (file_view (posix.mdisk m') (inode_at (posix.mdisk m') L (unat n)))"
    proof (cases "k = length data")
      case True
      then have "ino_extents (inode_at (posix.mdisk m') L (unat n)) = ino_extents (f_inode f')"
          "ino_size_bytes (inode_at (posix.mdisk m') L (unat n)) = ino_size_bytes (f_inode f')"
        using k(4) by (auto simp: handle_for_def)
      then show ?thesis
        using file_phys_extents [of "inode_at (posix.mdisk m') L (unat n)" "f_inode f'"] B(2) sz True b unfolding solid_view by simp
    next
      case False
      have "solid (file_view (posix.mdisk m) (inode_at (posix.mdisk m) L (unat n)))" using sol n by (simp add: fs_view_def)
      then show ?thesis unfolding solid_view using k(4) False by simp
    qed
    ultimately show ?thesis by simp
  qed
  have "durable L m' name = (if k = length data then Some (C @ data) else durable L m name)"
    using durable_writer [OF wok] durable_writer [OF w] sol sol' sz C(2) k(1) by auto
  moreover have "fs_live L m'" using c(1-3) a(3,4) by (simp add: fs_live_def)
  moreover have "open_writer w' f' (C @ take k data)"
    using off res(3) k(1,2) pos [OF k(1)] by (auto simp: open_writer_def)
  moreover have "s = IOStatus_OK \<or> s = IOStatus_IOError \<and> k = 0" using k(2) res(2) by auto
  moreover have "set (file_list (inode_at (posix.mdisk m') L (unat n))) \<subseteq> set (file_list (f_inode f'))" using own'(1) unfolding handle_own_def by blast
  ultimately show ?thesis using that [OF k(1) _ _ wok _ c(3,5) sol' _ c(4,7)] c(8) by blast
qed

section \<open>Keeping the session\<close>

lemma session_okD:
  assumes "session_ok L m W P"
  shows "fs_live L m" and "\<And>name a. posix.mview L m name = Some a \<Longrightarrow> solid a" and "W name = None \<longleftrightarrow> P name = None"
    and "W name = Some w \<Longrightarrow> \<exists>f C. P name = Some C \<and> open_writer w f C \<and> writer_ok L m name f C"
    and "a \<noteq> b \<Longrightarrow> W a = Some w \<Longrightarrow> W b = Some v \<Longrightarrow> wr_fh w = Some f \<Longrightarrow> wr_fh v = Some g \<Longrightarrow>
          set (file_list (f_inode f)) \<inter> set (file_list (f_inode g)) = {}"
  using assms unfolding session_ok_def by blast+

text \<open>A step that keeps the device and the bitmap.\<close>

lemma session_same:
  assumes "session_ok L m W P" and "posix.fsok L m'" and "posix.mup m'" and "posix.mdisk m' = posix.mdisk m" and "m_bitmap m' = m_bitmap m"
  shows "session_ok L m' W P" and "durable L m' = durable L m"
  using assms unfolding session_ok_def writer_ok_def fs_live_def durable_def by simp_all

text \<open>A step on one name: the writers of the other names stay, and the name gets the writer \<open>ow\<close>.\<close>

lemma session_update:
  assumes S: "session_ok L m W P" and live: "fs_live L m'" and fr: "files_frame L X B (posix.mdisk m) (posix.mdisk m')"
    and D: "\<And>b. b \<noteq> name \<Longrightarrow> posix.mdir L m' b = posix.mdir L m b"
    and X: "\<And>b n. b \<noteq> name \<Longrightarrow> posix.mdir L m b = Some n \<Longrightarrow> unat n \<notin> X"
    and apart: "\<And>b w g n. b \<noteq> name \<Longrightarrow> W b = Some w \<Longrightarrow> wr_fh w = Some g \<Longrightarrow> posix.mdir L m b = Some n \<Longrightarrow>
          handle_own L (hbm_free (m_bitmap m)) (posix.mdisk m) n g \<Longrightarrow>
          set (file_list (f_inode g)) \<inter> B = {} \<and> set (file_list (f_inode g)) \<inter> hbm_free (m_bitmap m') = {}
          \<and> (\<forall>k \<in> X. inode_used (posix.mdisk m') L k \<longrightarrow> set (file_list (f_inode g)) \<inter> set (file_list (inode_at (posix.mdisk m') L k)) = {})
          \<and> (\<forall>w' f'. ow = Some w' \<and> wr_fh w' = Some f' \<longrightarrow> set (file_list (f_inode g)) \<inter> set (file_list (f_inode f')) = {})"
    and sol: "\<And>b a. posix.mview L m' b = Some a \<Longrightarrow> solid a"
    and new: "case ow of None \<Rightarrow> oc = None | Some w' \<Rightarrow> \<exists>f' C'. oc = Some C' \<and> open_writer w' f' C' \<and> writer_ok L m' name f' C'"
  shows "session_ok L m' (W(name := ow)) (P(name := oc))"
  unfolding session_ok_def
proof (intro conjI allI impI)
  note d = session_okD [OF S] and ok = fs_liveD(1) [OF session_okD(1) [OF S]]
  have writer: "\<exists>g C. P b = Some C \<and> open_writer w g C \<and> writer_ok L m b g C \<and> wr_fh w = Some g
      \<and> (\<exists>n. posix.mdir L m b = Some n \<and> handle_own L (hbm_free (m_bitmap m)) (posix.mdisk m) n g)" if "W b = Some w" for b w
    using d(4) [OF that] unfolding writer_ok_def open_writer_def by blast
  show "fs_live L m'" by (rule live)
  show "solid a" if "posix.mview L m' b = Some a" for b a using sol that .
  show "dom (W(name := ow)) = dom (P(name := oc))"
  proof -
    have "dom W = dom P" using S by (simp add: session_ok_def)
    moreover have "ow = None \<longleftrightarrow> oc = None" using new by (auto split: option.splits)
    ultimately show ?thesis by auto
  qed
  show "\<exists>f C. (P(name := oc)) b = Some C \<and> open_writer w f C \<and> writer_ok L m' b f C" if w: "(W(name := ow)) b = Some w" for b w
  proof (cases "b = name")
    case True
    then show ?thesis using w new by auto
  next
    case False
    have wb: "W b = Some w" using w False by simp
    obtain g C n where g: "P b = Some C" "open_writer w g C" "writer_ok L m b g C" "wr_fh w = Some g"
        "posix.mdir L m b = Some n" "handle_own L (hbm_free (m_bitmap m)) (posix.mdisk m) n g"
      using writer [OF wb] by blast
    note ap = apart [OF False wb g(4-6)]
    have "writer_ok L m' b g C"
    proof (rule writer_frame [OF g(3) ok fr D [OF False] X [OF False]])
      show "set (file_list (f_inode g)) \<inter> B = {}" "set (file_list (f_inode g)) \<inter> hbm_free (m_bitmap m') = {}" using ap by blast+
      show "set (file_list (f_inode g)) \<inter> set (file_list (inode_at (posix.mdisk m') L k)) = {}"
        if "k \<in> X" "inode_used (posix.mdisk m') L k" for k using ap that by blast
    qed
    then show ?thesis using g(1,2) False by auto
  qed
  show "set (file_list (f_inode f)) \<inter> set (file_list (f_inode g)) = {}"
    if h: "a \<noteq> b \<and> (W(name := ow)) a = Some w \<and> (W(name := ow)) b = Some v \<and> wr_fh w = Some f \<and> wr_fh v = Some g" for a b w v f g
  proof -
    have new_old: "set (file_list (f_inode f1)) \<inter> set (file_list (f_inode g1)) = {}"
      if t: "b1 \<noteq> name" "W b1 = Some v1" "wr_fh v1 = Some g1" "ow = Some w1" "wr_fh w1 = Some f1" for b1 v1 g1 w1 f1
    proof -
      obtain n where "posix.mdir L m b1 = Some n" "handle_own L (hbm_free (m_bitmap m)) (posix.mdisk m) n g1"
        using writer [OF t(2)] t(3) by auto
      then show ?thesis using apart [OF t(1-3)] t(4,5) by blast
    qed
    consider "a = name" "b \<noteq> name" | "b = name" "a \<noteq> name" | "a \<noteq> name" "b \<noteq> name" using h by blast
    then show ?thesis
    proof cases
      case 1
      then show ?thesis using new_old [of b v g w f] h by simp
    next
      case 2
      then show ?thesis using new_old [of a w f v g] h by (simp add: Int_commute)
    next
      case 3
      then show ?thesis using d(5) [of a b w v f g] h by simp
    qed
  qed
qed

lemma own_no_free: "handle_own L fr dsk n g \<Longrightarrow> set (file_list (f_inode g)) \<inter> fr = {}"
  by (auto simp: handle_own_def file_ok_def)

lemma names_inj:
  assumes "posix.fsok L m" and "posix.mdir L m a = Some i" and "posix.mdir L m b = Some j" and "a \<noteq> b"
  shows "unat i \<noteq> unat j"
  using posix.fsokD(7) [OF assms(1)] assms(2-4) unfolding names_ok_def by (metis word_unat_eq_iff)

section \<open>The operations on a session\<close>

lemma session_append:
  assumes S: "session_ok L m W P" and w: "W name = Some w" and ne: "data \<noteq> []" and b: "unat (wr_pos w) + length data < 2 ^ 63"
    and ap: "writable_append m w data t = (s, w', m')"
  obtains k C where "P name = Some C" and "k \<le> length data" and "s = IOStatus_OK \<or> s = IOStatus_IOError \<and> k = 0"
    and "session_ok L m' (W(name \<mapsto> w')) (P(name \<mapsto> C @ take k data))"
    and "durable L m' = (if k = length data then (durable L m)(name \<mapsto> C @ data) else durable L m)"
proof -
  note d = session_okD [OF S]
  obtain f C where C: "P name = Some C" "open_writer w f C" "writer_ok L m name f C" using d(4) [OF w] by blast
  have fw: "wr_fh w = Some f" and len: "length C + length data < 2 ^ 63" using C(2) b by (simp_all add: open_writer_def)
  obtain n where n: "posix.mdir L m name = Some n" using C(3) unfolding writer_ok_def by blast
  have ok: "posix.fsok L m" by (rule fs_liveD(1) [OF d(1)])
  obtain f' k where a: "k \<le> length data" "s = IOStatus_OK \<or> s = IOStatus_IOError \<and> k = 0"
      "open_writer w' f' (C @ take k data)" "writer_ok L m' name f' (C @ take k data)" "fs_live L m'"
      "posix.mdir L m' = posix.mdir L m" "\<And>b. b \<noteq> name \<Longrightarrow> posix.mview L m' b = posix.mview L m b"
      "\<And>a. posix.mview L m' name = Some a \<Longrightarrow> solid a"
      "durable L m' name = (if k = length data then Some (C @ data) else durable L m name)"
      "hbm_free (m_bitmap m') \<subseteq> hbm_free (m_bitmap m)"
      "files_frame L {unat n} (set (file_list (f_inode f)) \<union> hbm_free (m_bitmap m)) (posix.mdisk m) (posix.mdisk m')"
      "set (file_list (f_inode f')) \<subseteq> set (file_list (f_inode f)) \<union> hbm_free (m_bitmap m)"
      "set (file_list (inode_at (posix.mdisk m') L (unat n))) \<subseteq> set (file_list (f_inode f'))"
    by (rule append_effect [OF d(1,2) C(3,2) ne len ap n]) blast+
  have f': "wr_fh w' = Some f'" using a(3) by (simp add: open_writer_def)
  have "session_ok L m' (W(name := Some w')) (P(name := Some (C @ take k data)))"
  proof (rule session_update [OF S a(5,11)])
    show "unat j \<notin> {unat n}" if "b \<noteq> name" "posix.mdir L m b = Some j" for b j
      using names_inj [OF ok that(2) n that(1)] by simp
    fix b v g j assume h: "b \<noteq> name" "W b = Some v" "wr_fh v = Some g" "handle_own L (hbm_free (m_bitmap m)) (posix.mdisk m) j g"
    have "set (file_list (f_inode g)) \<inter> (set (file_list (f_inode f)) \<union> hbm_free (m_bitmap m)) = {}"
      using d(5) [OF h(1,2) w h(3) fw] own_no_free [OF h(4)] by blast
    then show "set (file_list (f_inode g)) \<inter> (set (file_list (f_inode f)) \<union> hbm_free (m_bitmap m)) = {}
          \<and> set (file_list (f_inode g)) \<inter> hbm_free (m_bitmap m') = {}
          \<and> (\<forall>k \<in> {unat n}. inode_used (posix.mdisk m') L k \<longrightarrow> set (file_list (f_inode g)) \<inter> set (file_list (inode_at (posix.mdisk m') L k)) = {})
          \<and> (\<forall>w'' f''. Some w' = Some w'' \<and> wr_fh w'' = Some f'' \<longrightarrow> set (file_list (f_inode g)) \<inter> set (file_list (f_inode f'')) = {})"
      using a(10,12,13) f' by auto
  next
    show "solid x" if "posix.mview L m' b = Some x" for b x
      using that a(7,8) d(2) by (cases "b = name") auto
  qed (use a(3,4,6) in auto)
  moreover have "durable L m' = (if k = length data then (durable L m)(name \<mapsto> C @ data) else durable L m)"
  proof
    fix b show "durable L m' b = (if k = length data then (durable L m)(name \<mapsto> C @ data) else durable L m) b"
      using a(7) [of b] a(9) by (cases "b = name") (auto simp: durable_def)
  qed
  ultimately show ?thesis using that [OF C(1) a(1,2)] by simp
qed

lemma session_close:
  assumes S: "session_ok L m W P" and w: "W name = Some w" and fw: "wr_fh w = Some f" and cl: "nebula_fs_close m f t = (r, m')"
  shows "r = Inr ()" and "session_ok L m' (W(name := None)) (P(name := None))" and "durable L m' = durable L m"
proof -
  note d = session_okD [OF S]
  obtain C where C: "P name = Some C" "open_writer w f C" "writer_ok L m name f C" using d(4) [OF w] fw by (auto simp: open_writer_def)
  obtain n where n: "posix.mdir L m name = Some n" "handle_own L (hbm_free (m_bitmap m)) (posix.mdisk m) n f" using C(3) unfolding writer_ok_def by blast
  note a = fs_liveD [OF d(1)]
  note c = posix.fs_close_own [OF a(1,2) n cl]
  let ?d = "inode_at (posix.mdisk m) L (unat n)" and ?d' = "inode_at (posix.mdisk m') L (unat n)"
  have ph: "file_phys ?d' c = Some x" if "file_phys ?d c = Some x" for c x
    using that c(8) n(2) file_phys_extents [of ?d' "f_inode f"] file_phys_extents [of ?d' ?d] unfolding handle_own_def by auto
  have lst: "set (file_list ?d') \<subseteq> set (file_list (f_inode f))"
    using c(8) n(2) file_list_extents [of ?d' "f_inode f"] file_list_extents [of ?d' ?d] unfolding handle_own_def by auto
  have v: "posix.mview L m name = Some (file_view (posix.mdisk m) ?d)" "posix.mview L m' name = Some (file_view (posix.mdisk m') ?d')"
    using n(1) c(4) by (simp_all add: fs_view_def)
  have sd: "solid (file_view (posix.mdisk m) ?d)" using d(2) v(1) by blast
  have sd': "solid (file_view (posix.mdisk m') ?d')" using sd ph c(9) unfolding solid_view by (metis not_None_eq)
  have live: "fs_live L m'" using c(2-4) a(3,4) by (simp add: fs_live_def)
  have sol: "solid x" if "posix.mview L m' b = Some x" for b x
    using that c(7) [of b] d(2) v(2) sd' by (cases "b = name") auto
  show "r = Inr ()" by (rule c(1))
  show "session_ok L m' (W(name := None)) (P(name := None))"
  proof (rule session_update [OF S live c(6)])
    show "unat j \<notin> {unat n}" if "b \<noteq> name" "posix.mdir L m b = Some j" for b j
      using names_inj [OF a(1) that(2) n(1) that(1)] by simp
    fix b v g j assume h: "b \<noteq> name" "W b = Some v" "wr_fh v = Some g" "handle_own L (hbm_free (m_bitmap m)) (posix.mdisk m) j g"
    show "set (file_list (f_inode g)) \<inter> {} = {} \<and> set (file_list (f_inode g)) \<inter> hbm_free (m_bitmap m') = {}
          \<and> (\<forall>k \<in> {unat n}. inode_used (posix.mdisk m') L k \<longrightarrow> set (file_list (f_inode g)) \<inter> set (file_list (inode_at (posix.mdisk m') L k)) = {})
          \<and> (\<forall>w'' f''. None = Some w'' \<and> wr_fh w'' = Some f'' \<longrightarrow> set (file_list (f_inode g)) \<inter> set (file_list (f_inode f'')) = {})"
      using d(5) [OF h(1,2) w h(3) fw] own_no_free [OF h(4)] c(5) lst by auto
  qed (use c(4) sol in auto)
  have byte: "file_byte (posix.mdisk m') ?d' p = file_byte (posix.mdisk m) ?d p" if p: "p < unat (ino_size_bytes ?d)" for p
  proof -
    obtain x where x: "file_phys ?d (of_nat (p div 4096)) = Some x" using sd p unfolding solid_view by blast
    have "x \<in> set (file_list ?d)" using file_phys_in_list [OF posix.named_inode(5) [OF a(1) n(1)] x] .
    then have "posix.mdisk m' x = posix.mdisk m x"
      using c(6) posix.named_inode(5) [OF a(1) n(1)] unfolding files_frame_def file_ok_def by auto
    then show ?thesis using x ph [OF x] by (simp add: file_byte_def)
  qed
  have "content (file_view (posix.mdisk m') ?d') = content (file_view (posix.mdisk m) ?d)"
    unfolding content_view c(9) file_bytes_def using byte by simp
  then show "durable L m' = durable L m"
    unfolding durable_def fun_eq_iff using c(7) v by (metis option.map(2))
qed

lemma session_delete:
  assumes S: "session_ok L m W P" and cl: "W name = None" and nr: "name \<noteq> [0x2F]" and len: "length name < NEBULA_DIR_NAME_MAX"
    and de: "nebula_fs_delete m name = (r, m')"
  shows "r = (if durable L m name = None then Inl ENOENT else Inr ())" and "session_ok L m' W P"
    and "durable L m' = (durable L m)(name := None)"
proof -
  note d = session_okD [OF S] and a = fs_liveD [OF session_okD(1) [OF S]]
  note c = posix.fs_delete_cases [OF a(1,2) de len]
  have dn: "durable L m b = None \<longleftrightarrow> posix.mdir L m b = None" for b by (simp add: durable_def fs_view_def)
  have "r = (if durable L m name = None then Inl ENOENT else Inr ()) \<and> session_ok L m' W P \<and> durable L m' = (durable L m)(name := None)"
  proof (cases "posix.mdir L m name")
    case None
    then show ?thesis using c(1) [OF None] session_same [OF S, of m'] dn [of name] by auto
  next
    case (Some n)
    have n0: "n \<noteq> 0" using names_inj [OF a(1) Some a(4)] nr by auto
    have k: "r = Inr ()" "posix.fsok L m'" "posix.mup m'" "posix.mview L m' = (posix.mview L m)(name := None)"
      "posix.mdir L m' = (posix.mdir L m)(name := None)"
      "hbm_free (m_bitmap m') = hbm_free (m_bitmap m) \<union> set (file_list (inode_at (posix.mdisk m) L (unat n)))"
      "files_frame L {unat n} {} (posix.mdisk m) (posix.mdisk m')" "\<not> inode_used (posix.mdisk m') L (unat n)"
      using c(3) [OF Some n0] by blast+
    have live: "fs_live L m'" using k(2,3,5) a(3,4) nr by (simp add: fs_live_def)
    have "session_ok L m' (W(name := None)) (P(name := None))"
    proof (rule session_update [OF S live k(7)])
      show "unat j \<notin> {unat n}" if "b \<noteq> name" "posix.mdir L m b = Some j" for b j
        using names_inj [OF a(1) that(2) Some that(1)] by simp
      fix b v g j assume h: "b \<noteq> name" "posix.mdir L m b = Some j" "handle_own L (hbm_free (m_bitmap m)) (posix.mdisk m) j g"
      have "set (file_list (f_inode g)) \<inter> set (file_list (inode_at (posix.mdisk m) L (unat n))) = {}"
        using h(3) posix.named_inode(1) [OF a(1) Some] names_inj [OF a(1) h(2) Some h(1)] unfolding handle_own_def by metis
      then show "set (file_list (f_inode g)) \<inter> {} = {} \<and> set (file_list (f_inode g)) \<inter> hbm_free (m_bitmap m') = {}
          \<and> (\<forall>k \<in> {unat n}. inode_used (posix.mdisk m') L k \<longrightarrow> set (file_list (f_inode g)) \<inter> set (file_list (inode_at (posix.mdisk m') L k)) = {})
          \<and> (\<forall>w'' f''. None = Some w'' \<and> wr_fh w'' = Some f'' \<longrightarrow> set (file_list (f_inode g)) \<inter> set (file_list (f_inode f'')) = {})"
        using own_no_free [OF h(3)] k(6,8) by auto
    next
      show "solid x" if "posix.mview L m' b = Some x" for b x using that k(4) d(2) by (auto split: if_splits)
    qed (use k(5) in auto)
    moreover have "W(name := None) = W" "P(name := None) = P" using cl d(3) [of name] by auto
    moreover have "durable L m' = (durable L m)(name := None)" unfolding durable_def k(4) by auto
    ultimately show ?thesis using k(1) Some dn [of name] by simp
  qed
  then show "r = (if durable L m name = None then Inl ENOENT else Inr ())" "session_ok L m' W P" "durable L m' = (durable L m)(name := None)" by auto
qed

lemma session_create:
  assumes S: "session_ok L m W P" and cl: "W name = None" and cr: "nebula_fs_create m name mode t = (r, m')"
  shows "r = Inl e \<Longrightarrow> session_ok L m' W P \<and> durable L m' = durable L m"
    and "r = Inr f \<Longrightarrow> durable L m name = None
          \<and> session_ok L m' (W(name \<mapsto> \<lparr>wr_fh = Some f, wr_pos = 0, wr_closed = False\<rparr>)) (P(name \<mapsto> []))
          \<and> durable L m' = (durable L m)(name \<mapsto> [])"
proof -
  note d = session_okD [OF S] and a = fs_liveD [OF session_okD(1) [OF S]]
  note c = posix.fs_create_cases [OF a(1,2) cr]
  have live: "fs_live L m'" by (rule fs_create_live(1) [OF d(1) cr])
  have free: "set (file_list (f_inode g)) \<inter> hbm_free (m_bitmap m') = {}" if "handle_own L (hbm_free (m_bitmap m)) (posix.mdisk m) j g" for j g
    using own_no_free [OF that] c(3) by simp
  show "session_ok L m' W P \<and> durable L m' = durable L m" if r: "r = Inl e"
  proof -
    have "session_ok L m' (W(name := None)) (P(name := None))"
      by (rule session_update [OF S live c(7)]) (use c(4) [OF r] d(2) free in auto)
    moreover have "W(name := None) = W" "P(name := None) = P" using cl d(3) [of name] by auto
    ultimately show ?thesis using c(4) [OF r] by (simp add: durable_def fun_eq_iff)
  qed
  show "durable L m name = None
          \<and> session_ok L m' (W(name \<mapsto> \<lparr>wr_fh = Some f, wr_pos = 0, wr_closed = False\<rparr>)) (P(name \<mapsto> []))
          \<and> durable L m' = (durable L m)(name \<mapsto> [])" if r: "r = Inr f"
  proof -
    let ?x = "ino_inode_num (f_inode f)"
    have k: "posix.mdir L m name = None" "posix.mview L m' = (posix.mview L m)(name \<mapsto> (0, \<lambda>p. None))"
      "posix.mdir L m' = (posix.mdir L m)(name \<mapsto> ?x)" "handle_for (posix.mdisk m') L ?x f" "f_flags f = NEBULA_O_RDWR"
      using c(5) [OF r] by blast+
    obtain x where x: "f_inode f = inode_new x NEBULA_INODE_TYPE_FILE mode t" using fs_create_inode [OF a(1)] cr r by blast
    have empty: "file_list (f_inode f) = []" unfolding x by (rule file_ok_new(2))
    have used: "inode_used (posix.mdisk m') L (unat ?x)" using posix.named_inode(1) [OF c(1), of name] k(3) by simp
    have own: "handle_own L (hbm_free (m_bitmap m')) (posix.mdisk m') ?x f"
      by (rule handle_for_own [OF k(4) posix.fsokD(6) [OF c(1)] used])
    have "fst (file_view (posix.mdisk m') (f_inode f)) = 0" unfolding x file_view_new by simp
    then have sz: "ino_size_bytes (f_inode f) = 0" by (simp add: file_view_def)
    have wok: "writer_ok L m' name f []"
      unfolding writer_ok_def using own k(3,5) sz rdwr_flags(1) by (simp add: file_bytes_def)
    have "session_ok L m' (W(name \<mapsto> \<lparr>wr_fh = Some f, wr_pos = 0, wr_closed = False\<rparr>)) (P(name \<mapsto> []))"
    proof (rule session_update [OF S live c(7)])
      show "solid y" if "posix.mview L m' b = Some y" for b y
        using that k(2) d(2) by (auto simp: solid_def split: if_splits)
    qed (use k(3) wok empty free in \<open>auto simp: open_writer_def\<close>)
    moreover have "durable L m' = (durable L m)(name \<mapsto> [])" unfolding durable_def k(2) by (auto simp: content_def afile_read_def)
    ultimately show ?thesis using k(1) by (simp add: durable_def fs_view_def)
  qed
qed

lemma session_open:
  assumes S: "session_ok L m W P" and len: "length name < NEBULA_DIR_NAME_MAX" and fl: "flags AND NEBULA_O_RDWR \<noteq> 0"
    and op: "nebula_fs_open m name flags = (r, m')"
  shows "session_ok L m' W P" and "durable L m' = durable L m" and "durable L m name = None \<Longrightarrow> r = Inl ENOENT"
    and "durable L m name = Some bs \<Longrightarrow> \<exists>f n. r = Inr f \<and> posix.mdir L m' name = Some n \<and> handle_for (posix.mdisk m') L n f
           \<and> f_flags f = flags \<and> bs = file_bytes (posix.mdisk m') (f_inode f) 0 (unat (ino_size_bytes (f_inode f)))
           \<and> (\<forall>p < length bs. file_phys (f_inode f) (of_nat (p div 4096)) \<noteq> None)"
proof -
  note d = session_okD [OF S] and a = fs_liveD [OF session_okD(1) [OF S]]
  note c = posix.fs_open_cases [OF a(1,2) op len fl]
  show "session_ok L m' W P" "durable L m' = durable L m" using session_same [OF S c(1-4)] by auto
  show "durable L m name = None \<Longrightarrow> r = Inl ENOENT" using c(5) by (simp add: durable_def fs_view_def)
  assume bs: "durable L m name = Some bs"
  then obtain n where n: "posix.mdir L m name = Some n" by (auto simp: durable_def fs_view_def)
  obtain f where f: "r = Inr f" "handle_for (posix.mdisk m) L n f" "f_flags f = flags" using c(6) [OF n] by blast
  let ?d = "inode_at (posix.mdisk m) L (unat n)"
  have e: "ino_extents (f_inode f) = ino_extents ?d" "ino_size_bytes (f_inode f) = ino_size_bytes ?d" using f(2) by (auto simp: handle_for_def)
  have v: "posix.mview L m name = Some (file_view (posix.mdisk m) ?d)" using n by (simp add: fs_view_def)
  have b: "bs = file_bytes (posix.mdisk m) (f_inode f) 0 (unat (ino_size_bytes (f_inode f)))"
    using bs v unfolding durable_def file_bytes_def file_byte_extents [OF e(1)] e(2) by (simp add: content_view file_bytes_def)
  moreover have "\<forall>p < length bs. file_phys (f_inode f) (of_nat (p div 4096)) \<noteq> None"
    using d(2) [OF v] b e(2) unfolding solid_view file_phys_extents [OF e(1)] by simp
  ultimately show "\<exists>f n. r = Inr f \<and> posix.mdir L m' name = Some n \<and> handle_for (posix.mdisk m') L n f
           \<and> f_flags f = flags \<and> bs = file_bytes (posix.mdisk m') (f_inode f) 0 (unat (ino_size_bytes (f_inode f)))
           \<and> (\<forall>p < length bs. file_phys (f_inode f) (of_nat (p div 4096)) \<noteq> None)"
    using f n unfolding c(3) by blast
qed

lemma session_reopen:
  assumes S: "session_ok L m W P" and cl: "W name = None" and bs: "durable L m name = Some bs"
    and h: "posix.mdir L m name = Some n" "handle_for (posix.mdisk m) L n f" "f_flags f = NEBULA_O_RDWR"
    and b: "bs = file_bytes (posix.mdisk m) (f_inode f) 0 (unat (ino_size_bytes (f_inode f)))"
      "\<forall>p < length bs. file_phys (f_inode f) (of_nat (p div 4096)) \<noteq> None"
  shows "session_ok L m (W(name \<mapsto> \<lparr>wr_fh = Some f, wr_pos = nebula_fs_file_size f, wr_closed = False\<rparr>)) (P(name \<mapsto> bs))"
proof (rule session_update [OF S session_okD(1) [OF S] files_frame_refl [of L "{}" "{}"]])
  note d = session_okD [OF S] and a = fs_liveD [OF session_okD(1) [OF S]]
  note used = posix.named_inode(1) [OF a(1) h(1)]
  have own: "handle_own L (hbm_free (m_bitmap m)) (posix.mdisk m) n f"
    by (rule handle_for_own [OF h(2) posix.fsokD(6) [OF a(1)] used])
  have v: "posix.mview L m name = Some (file_view (posix.mdisk m) (inode_at (posix.mdisk m) L (unat n)))" using h(1) by (simp add: fs_view_def)
  have sz: "unat (ino_size_bytes (f_inode f)) < 2 ^ 63"
    using d(2) [OF v] h(2) unfolding solid_view handle_for_def by simp
  have lb: "length bs = unat (ino_size_bytes (f_inode f))" using b(1) by simp
  have "writer_ok L m name f bs"
    unfolding writer_ok_def using own h(1,3) sz b lb rdwr_flags(1) by auto
  then show "case Some \<lparr>wr_fh = Some f, wr_pos = nebula_fs_file_size f, wr_closed = False\<rparr> of None \<Rightarrow> Some bs = None
      | Some w' \<Rightarrow> \<exists>f' C'. Some bs = Some C' \<and> open_writer w' f' C' \<and> writer_ok L m name f' C'"
    using lb by (auto simp: open_writer_def nebula_fs_file_size_def)
  show "solid x" if "posix.mview L m b = Some x" for b x using d(2) that .
  fix c v g j assume g: "c \<noteq> name" "posix.mdir L m c = Some j" "handle_own L (hbm_free (m_bitmap m)) (posix.mdisk m) j g"
  have "file_list (f_inode f) = file_list (inode_at (posix.mdisk m) L (unat n))"
    using h(2) by (intro file_list_extents) (simp add: handle_for_def)
  moreover have "set (file_list (f_inode g)) \<inter> set (file_list (inode_at (posix.mdisk m) L (unat n))) = {}"
    using g(3) used names_inj [OF a(1) g(2) h(1) g(1)] unfolding handle_own_def by metis
  ultimately show "set (file_list (f_inode g)) \<inter> {} = {} \<and> set (file_list (f_inode g)) \<inter> hbm_free (m_bitmap m) = {}
      \<and> (\<forall>k \<in> {}. inode_used (posix.mdisk m) L k \<longrightarrow> set (file_list (f_inode g)) \<inter> set (file_list (inode_at (posix.mdisk m) L k)) = {})
      \<and> (\<forall>w' f'. Some \<lparr>wr_fh = Some f, wr_pos = nebula_fs_file_size f, wr_closed = False\<rparr> = Some w' \<and> wr_fh w' = Some f' \<longrightarrow>
            set (file_list (f_inode g)) \<inter> set (file_list (f_inode f')) = {})"
    using own_no_free [OF g(3)] by auto
qed auto

lemma session_lookup:
  assumes S: "session_ok L m W P" and len: "length name < NEBULA_DIR_NAME_MAX" and lk: "nebula_fs_lookup m name = (r, m')"
  shows "session_ok L m' W P" and "durable L m' = durable L m" and "r = Inl ENOENT \<and> durable L m name = None \<or> (\<exists>n. r = Inr n) \<and> durable L m name \<noteq> None"
proof -
  note a = fs_liveD [OF session_okD(1) [OF S]] and o = posix.fsokD [OF fs_liveD(1) [OF session_okD(1) [OF S]]]
  note c = posix.dir_lookup_cases [OF o(1,4) lk [unfolded nebula_fs_lookup_def]]
  show "session_ok L m' W P" "durable L m' = durable L m"
    using session_same [OF S posix.fsok_read_step [OF a(1) c(1-3)] posix.mount_next_up [OF c(1) a(2)] c(3,2)] by auto
  show "r = Inl ENOENT \<and> durable L m name = None \<or> (\<exists>n. r = Inr n) \<and> durable L m name \<noteq> None"
    using c(5) [OF a(2) len] by (cases "posix.mdir L m name") (auto simp: durable_def fs_view_def)
qed

section \<open>Reading\<close>

lemma afile_read_content: "afile_read off len a = take len (drop off (content a))"
  by (rule nth_equalityI) (auto simp: afile_read_def content_def)

lemma read_keeps:
  assumes "nebula_fs_read m f off len t = (r, f', m')"
  shows "f_flags f' = f_flags f" and "f_dirty f' = f_dirty f" and "ino_size_bytes (f_inode f') = ino_size_bytes (f_inode f)"
  using assms by (auto simp: nebula_fs_read_def nebula_file_read_def Let_def split: if_splits prod.splits sum.splits)

lemma open_clean: "nebula_fs_open m name flags = (Inr f, m') \<Longrightarrow> \<not> f_dirty f"
  by (auto simp: nebula_fs_open_def nebula_file_open_def split: if_splits prod.splits sum.splits)

lemma close_clean: "\<not> f_dirty f \<Longrightarrow> nebula_fs_close m f t = (Inr (), m)"
  by (simp add: nebula_fs_close_def nebula_file_close_def)

lemma session_read:
  assumes S: "session_ok L m W P" and bs: "durable L m name = Some bs" and n: "posix.mdir L m name = Some n"
    and h: "handle_for (posix.mdisk m) L n f" and fl: "f_flags f AND NEBULA_O_RDONLY \<noteq> 0" and fit: "unat off + unat len < 2 ^ 64"
    and rd: "nebula_fs_read m f off len t = (r, f', m')"
  shows "session_ok L m' W P" and "durable L m' = durable L m" and "r = Inr (take (unat len) (drop (unat off) bs))"
    and "posix.mdir L m' = posix.mdir L m" and "handle_for (posix.mdisk m') L n f'"
proof -
  note a = fs_liveD [OF session_okD(1) [OF S]]
  note o = posix.fsokD [OF a(1)] and i = posix.named_inode [OF a(1) n]
  note c = posix.fs_read_cases [OF a(1,2) n h fl fit rd]
  have e: "ino_extents (f_inode f) = ino_extents (inode_at (posix.mdisk m) L (unat n))" "wf_ino (f_inode f)" using h by (simp_all add: handle_for_def)
  note rc = posix.file_read_cases [OF o(1) file_ok_extents [OF i(5) e] rd [unfolded nebula_fs_read_def] fit fl]
  show "session_ok L m' W P" "durable L m' = durable L m" using session_same [OF S c(1-3) rc(2)] by auto
  show "r = Inr (take (unat len) (drop (unat off) bs))" using c(5) bs by (auto simp: durable_def afile_read_content)
  show "posix.mdir L m' = posix.mdir L m" using c(3) by simp
  show "handle_for (posix.mdisk m') L n f'" by (rule c(4))
qed

text \<open>A sequential reader of the file \<open>name\<close> with the content \<open>bs\<close>.\<close>

definition reader_ok :: "nebula_layout \<Rightarrow> posix_dev nebula_mount \<Rightarrow> byte list \<Rightarrow> byte list \<Rightarrow> sequential_file \<Rightarrow> bool" where
  "reader_ok L m name bs q \<longleftrightarrow> durable L m name = Some bs \<and> unat (sq_size q) = length bs \<and> unat (sq_pos q) \<le> length bs
     \<and> f_flags (sq_fh q) = NEBULA_O_RDONLY \<and> (\<exists>n. posix.mdir L m name = Some n \<and> handle_for (posix.mdisk m) L n (sq_fh q))"

lemma rdonly_flags: "NEBULA_O_RDONLY AND NEBULA_O_RDONLY \<noteq> 0" "NEBULA_O_RDONLY AND NEBULA_O_RDWR \<noteq> 0"
  unfolding NEBULA_O_RDWR_def NEBULA_O_RDONLY_def NEBULA_O_WRONLY_def by simp_all

lemma session_sequential:
  assumes S: "session_ok L m W P" and q: "reader_ok L m name bs q" and rd: "sequential_read m q len t = (r, q', m')"
  shows "session_ok L m' W P" and "durable L m' = durable L m" and "reader_ok L m' name bs q'"
    and "r = Inr (take (unat len) (drop (unat (sq_pos q)) bs))"
    and "unat (sq_pos q') = unat (sq_pos q) + length (take (unat len) (drop (unat (sq_pos q)) bs))"
proof -
  obtain n where k: "durable L m name = Some bs" "unat (sq_size q) = length bs" "unat (sq_pos q) \<le> length bs" "f_flags (sq_fh q) = NEBULA_O_RDONLY"
    "posix.mdir L m name = Some n" "handle_for (posix.mdisk m) L n (sq_fh q)" using q unfolding reader_ok_def by blast
  let ?res = "take (unat len) (drop (unat (sq_pos q)) bs)"
  have "session_ok L m' W P \<and> durable L m' = durable L m \<and> reader_ok L m' name bs q' \<and> r = Inr ?res \<and> unat (sq_pos q') = unat (sq_pos q) + length ?res"
  proof (cases "sq_pos q \<ge> sq_size q")
    case True
    then have "r = Inr []" "q' = q" "m' = m" using rd by (simp_all add: sequential_read_def)
    moreover have "drop (unat (sq_pos q)) bs = []" using True k(2) by (simp add: word_le_nat_alt)
    ultimately show ?thesis using S q by simp
  next
    case False
    then have lt: "unat (sq_pos q) < unat (sq_size q)" by (simp add: word_le_nat_alt)
    let ?len = "min len (sq_size q - sq_pos q)"
    have ul: "unat ?len = min (unat len) (length bs - unat (sq_pos q))"
      using lt k(2) by (simp add: min_def word_le_nat_alt unat_minus_le)
    obtain r1 fh m1 where rd1: "nebula_fs_read m (sq_fh q) (sq_pos q) ?len t = (r1, fh, m1)" by (rule prod_cases3)
    have "unat (sq_pos q) + unat ?len \<le> unat (sq_size q)" using ul lt k(2) by simp
    then have fit: "unat (sq_pos q) + unat ?len < 2 ^ 64" using le_less_trans [OF _ unat_u64_less] by simp
    have fl: "f_flags (sq_fh q) AND NEBULA_O_RDONLY \<noteq> 0" using k(4) rdonly_flags(1) by simp
    note c = session_read [OF S k(1,5,6) fl fit rd1]
    have res: "take (unat ?len) (drop (unat (sq_pos q)) bs) = ?res" unfolding ul by (simp add: min_def)
    have m': "r = Inr ?res" "m' = m1" "q' = q\<lparr>sq_fh := fh, sq_pos := sq_pos q + of_nat (length ?res)\<rparr>"
      using rd False rd1 c(3) res by (simp_all add: sequential_read_def Let_def)
    have "unat (sq_pos q) + length ?res < 2 ^ 64"
      using fit ul by simp
    then have pos: "unat (sq_pos q') = unat (sq_pos q) + length ?res"
      unfolding m'(3) by (simp add: unat_word_ariths unat_of_nat)
    have "reader_ok L m' name bs q'"
      unfolding reader_ok_def using c(2,4,5) k m'(2,3) pos read_keeps(1) [OF rd1] by auto
    then show ?thesis using c(1,2) m' pos by simp
  qed
  then show "session_ok L m' W P" "durable L m' = durable L m" "reader_ok L m' name bs q'" "r = Inr ?res"
    "unat (sq_pos q') = unat (sq_pos q) + length ?res" by auto
qed

text \<open>A scan: reads of any positive sizes up to one that returns nothing.\<close>

inductive seq_scan :: "posix_dev nebula_mount \<Rightarrow> sequential_file \<Rightarrow> byte list \<Rightarrow> posix_dev nebula_mount \<Rightarrow> bool" where
  scan_end: "sequential_read m q len t = (Inr [], q', m') \<Longrightarrow> len > 0 \<Longrightarrow> seq_scan m q [] m'"
| scan_more: "sequential_read m q len t = (Inr cs, q', m1) \<Longrightarrow> cs \<noteq> [] \<Longrightarrow> seq_scan m1 q' ds m' \<Longrightarrow> seq_scan m q (cs @ ds) m'"

lemma seq_scan_content:
  assumes "seq_scan m q out m'" and "session_ok L m W P" and "reader_ok L m name bs q"
  shows "out = drop (unat (sq_pos q)) bs \<and> session_ok L m' W P \<and> durable L m' = durable L m"
  using assms
proof (induction rule: seq_scan.induct)
  case (scan_end m q len t q' m')
  note c = session_sequential [OF scan_end.prems scan_end.hyps(1)]
  have "drop (unat (sq_pos q)) bs = []" using c(4) scan_end.hyps(2) by (auto simp: word_less_nat_alt)
  then show ?case using c(1,2) by simp
next
  case (scan_more m q len t cs q' m1 ds m')
  note c = session_sequential [OF scan_more.prems scan_more.hyps(1)]
  have "ds = drop (unat (sq_pos q')) bs" "session_ok L m' W P" "durable L m' = durable L m1" using scan_more.IH [OF c(1,3)] by auto
  moreover have "cs = take (length cs) (drop (unat (sq_pos q)) bs)" "unat (sq_pos q') = length cs + unat (sq_pos q)"
    using c(4,5) by (auto simp: min_def)
  ultimately show ?case using c(2) by (metis append_take_drop_id drop_drop)
qed

text \<open>A scan is always possible, and it ends.\<close>

lemma seq_scan_exists:
  assumes "session_ok L m W P" and "reader_ok L m name bs q" and "(len :: u64) > 0"
  shows "\<exists>out m'. seq_scan m q out m'"
  using assms(1,2)
proof (induction "length bs - unat (sq_pos q)" arbitrary: m q rule: less_induct)
  case less
  obtain r q' m1 where rd: "sequential_read m q len 0 = (r, q', m1)" by (rule prod_cases3)
  note c = session_sequential [OF less.prems rd]
  let ?cs = "take (unat len) (drop (unat (sq_pos q)) bs)"
  show ?case
  proof (cases "?cs = []")
    case True
    then have "sequential_read m q len 0 = (Inr [], q', m1)" using rd c(4) by simp
    then show ?thesis using seq_scan.scan_end assms(3) by blast
  next
    case False
    then have "length bs - unat (sq_pos q') < length bs - unat (sq_pos q)" using c(5) by auto
    then obtain ds m' where "seq_scan m1 q' ds m'" using less.hyps [OF _ c(1,3)] by blast
    then show ?thesis using seq_scan.scan_more [of m q len 0] rd c(4) False by blast
  qed
qed

end
