(* ===== verification/Nebula_Rocksdb_Correct.thy ===== *)
theory Nebula_Rocksdb_Correct
  imports Nebula_Rocksdb_Session
begin

unbundle bit_operations_syntax

text \<open>
  The adapter against its specification: a simulation of every run of creations, appends, closes,
  deletions, renames and scans, with several files open at a time, by the two maps from names to bytes.
\<close>

section \<open>The specification\<close>

text \<open>The events of a session with the status returned to RocksDB.\<close>

datatype rdb_event =
    NewWriter "byte list" io_status
  | Reopen "byte list" io_status
  | Append "byte list" "byte list" io_status
  | Close "byte list"
  | Delete "byte list" io_status
  | Rename "byte list" "byte list" io_status
  | Scan "byte list" "byte list"

text \<open>
  What each event may do to the durable files \<open>D\<close> and the accepted bytes \<open>P\<close>.  An append accepts a prefix of
  its data, also when it returns \<open>OK\<close>, and makes the file durable up to its end only when it accepts all of
  it.  A rename that returns \<open>OK\<close> has moved the content, or lost it.
\<close>

inductive rdb_spec :: "files \<times> files \<Rightarrow> rdb_event \<Rightarrow> files \<times> files \<Rightarrow> bool" where
  sp_new: "P name = None \<Longrightarrow> rdb_spec (D, P) (NewWriter name IOStatus_OK) (D(name \<mapsto> []), P(name \<mapsto> []))"
| sp_new_fail: "P name = None \<Longrightarrow> s \<noteq> IOStatus_OK \<Longrightarrow> rdb_spec (D, P) (NewWriter name s) (D(name := None), P)"
| sp_reopen: "P name = None \<Longrightarrow> D name = Some bs \<Longrightarrow> rdb_spec (D, P) (Reopen name IOStatus_OK) (D, P(name \<mapsto> bs))"
| sp_reopen_none: "D name = None \<Longrightarrow> rdb_spec (D, P) (Reopen name IOStatus_NotFound) (D, P)"
| sp_append: "P name = Some C \<Longrightarrow> rdb_spec (D, P) (Append name data IOStatus_OK) (D(name \<mapsto> C @ data), P(name \<mapsto> C @ data))"
| sp_append_short: "P name = Some C \<Longrightarrow> k < length data \<Longrightarrow> rdb_spec (D, P) (Append name data IOStatus_OK) (D, P(name \<mapsto> C @ take k data))"
| sp_append_empty: "rdb_spec (D, P) (Append name [] IOStatus_OK) (D, P)"
| sp_append_fail: "rdb_spec (D, P) (Append name data IOStatus_IOError) (D, P)"
| sp_close: "rdb_spec (D, P) (Close name) (D, P(name := None))"
| sp_delete: "P name = None \<Longrightarrow> D name \<noteq> None \<Longrightarrow> rdb_spec (D, P) (Delete name IOStatus_OK) (D(name := None), P)"
| sp_delete_none: "D name = None \<Longrightarrow> rdb_spec (D, P) (Delete name IOStatus_NotFound) (D, P)"
| sp_rename: "P a = None \<Longrightarrow> P b = None \<Longrightarrow> D a = Some bs \<Longrightarrow>
    rdb_spec (D, P) (Rename a b IOStatus_OK) (D(a := None, b \<mapsto> bs), P)"
| sp_rename_lost: "P a = None \<Longrightarrow> P b = None \<Longrightarrow> D a = Some bs \<Longrightarrow> bs \<noteq> [] \<Longrightarrow> s \<in> {IOStatus_OK, IOStatus_IOError} \<Longrightarrow>
    rdb_spec (D, P) (Rename a b s) (D(a := None, b \<mapsto> []), P)"
| sp_rename_fail: "P a = None \<Longrightarrow> P b = None \<Longrightarrow> D a = Some bs \<Longrightarrow> s \<noteq> IOStatus_OK \<Longrightarrow>
    rdb_spec (D, P) (Rename a b s) (D(a := None, b := None), P)"
| sp_rename_none: "D a = None \<Longrightarrow> rdb_spec (D, P) (Rename a b IOStatus_NotFound) (D, P)"
| sp_scan: "D name = Some bs \<Longrightarrow> rdb_spec (D, P) (Scan name bs) (D, P)"

section \<open>Renaming\<close>

lemma io_err_fail: "io_err (Inl e) \<noteq> IOStatus_OK"
  by simp

lemma session_rename_load:
  assumes S: "session_ok L m W P" and len: "length sname < NEBULA_DIR_NAME_MAX" and ld: "rename_load m sname clk = (r, m')"
  shows "session_ok L m' W P" and "durable L m' = durable L m"
    and "r = (case durable L m sname of None \<Rightarrow> Inl IOStatus_NotFound | Some bs \<Rightarrow> Inr bs)"
proof -
  obtain q m1 where lk: "nebula_fs_lookup m sname = (q, m1)" by (rule prod.exhaust)
  note l = session_lookup [OF S len lk]
  have "session_ok L m' W P \<and> durable L m' = durable L m \<and> r = (case durable L m sname of None \<Rightarrow> Inl IOStatus_NotFound | Some bs \<Rightarrow> Inr bs)"
  proof (cases "durable L m sname")
    case None
    then have "r = Inl IOStatus_NotFound" "m' = m1" using ld lk l(3) by (auto simp: rename_load_def)
    then show ?thesis using l None by simp
  next
    case (Some bs)
    then obtain x where q: "q = Inr x" using l(3) by auto
    obtain r2 m2 where op: "nebula_fs_open m1 sname NEBULA_O_RDONLY = (r2, m2)" by (rule prod.exhaust)
    note o = session_open [OF l(1) len rdonly_flags(2) op]
    obtain f n where f: "r2 = Inr f" "posix.mdir L m2 sname = Some n" "handle_for (posix.mdisk m2) L n f" "f_flags f = NEBULA_O_RDONLY"
      "bs = file_bytes (posix.mdisk m2) (f_inode f) 0 (unat (ino_size_bytes (f_inode f)))"
      using o(4) [of bs] l(2) Some by auto
    define sz where "sz = nebula_fs_file_size f"
    have szl: "unat sz = length bs" using f(5) by (simp add: sz_def nebula_fs_file_size_def)
    obtain r3 f3 m3 where rd: "(if sz > 0 then nebula_fs_read m2 f 0 sz (clk 0) else (Inr [], f, m2)) = (r3, f3, m3)" by (rule prod_cases3)
    have D2: "durable L m2 sname = Some bs" using o(2) l(2) Some by simp
    have c: "session_ok L m3 W P" "durable L m3 = durable L m2" "r3 = Inr bs" "\<not> f_dirty f3"
    proof -
      have fl: "f_flags f AND NEBULA_O_RDONLY \<noteq> 0" using f(4) rdonly_flags(1) by simp
      have fit: "unat (0 :: u64) + unat sz < 2 ^ 64" by simp
      have cl: "\<not> f_dirty f" using open_clean op f(1) by blast
      have "session_ok L m3 W P \<and> durable L m3 = durable L m2 \<and> r3 = Inr bs \<and> \<not> f_dirty f3"
      proof (cases "sz > 0")
        case True
        then have rd1: "nebula_fs_read m2 f 0 sz (clk 0) = (r3, f3, m3)" using rd by simp
        note sr = session_read [OF o(1) D2 f(2,3) fl fit rd1]
        show ?thesis using sr(1-3) szl read_keeps(2) [OF rd1] cl by simp
      next
        case False
        then have "sz = 0" by (simp add: word_gt_0)
        then have "bs = []" "r3 = Inr []" "f3 = f" "m3 = m2" using rd szl by auto
        then show ?thesis using o(1) cl by simp
      qed
      then show "session_ok L m3 W P" "durable L m3 = durable L m2" "r3 = Inr bs" "\<not> f_dirty f3" by auto
    qed
    have "r = Inr bs" "m' = m3"
      using ld lk q op f(1) rd c(3) szl unfolding sz_def by (auto simp: rename_load_def Let_def close_clean [OF c(4)])
    then show ?thesis using c(1,2) o(2) l(2) Some by simp
  qed
  then show "session_ok L m' W P" "durable L m' = durable L m"
    "r = (case durable L m sname of None \<Rightarrow> Inl IOStatus_NotFound | Some bs \<Rightarrow> Inr bs)" by auto
qed

text \<open>The new file of a rename is a writer for the time of the call.\<close>

lemma session_rename_store:
  assumes S: "session_ok L m W P" and cl: "W tname = None" and b: "length buf < 2 ^ 63" and st: "rename_store m tname buf clk = (s, m')"
  shows "session_ok L m' W P"
    and "s = IOStatus_OK \<and> durable L m' = (durable L m)(tname \<mapsto> buf)
         \<or> buf \<noteq> [] \<and> s \<in> {IOStatus_OK, IOStatus_IOError} \<and> durable L m' = (durable L m)(tname \<mapsto> [])
         \<or> s \<noteq> IOStatus_OK \<and> durable L m' = durable L m"
proof -
  obtain r m1 where cr: "nebula_fs_create m tname 0x1A4 (clk 2) = (r, m1)" by (rule prod.exhaust)
  note c = session_create [OF S cl cr]
  have cl': "P tname = None" using session_okD(3) [OF S] cl by blast
  have "session_ok L m' W P \<and> (s = IOStatus_OK \<and> durable L m' = (durable L m)(tname \<mapsto> buf)
         \<or> buf \<noteq> [] \<and> s \<in> {IOStatus_OK, IOStatus_IOError} \<and> durable L m' = (durable L m)(tname \<mapsto> [])
         \<or> s \<noteq> IOStatus_OK \<and> durable L m' = durable L m)"
  proof (cases r)
    case (Inl e)
    then have "s \<noteq> IOStatus_OK" "m' = m1" using st cr by (auto simp: rename_store_def split: if_splits)
    then show ?thesis using c(1) [OF Inl] by simp
  next
    case (Inr f)
    let ?w = "\<lparr>wr_fh = Some f, wr_pos = 0, wr_closed = False\<rparr>"
    have k: "session_ok L m1 (W(tname \<mapsto> ?w)) (P(tname \<mapsto> []))" "durable L m1 = (durable L m)(tname \<mapsto> [])" using c(2) [OF Inr] by auto
    have closed: "session_ok L m3 W P \<and> durable L m3 = durable L m2"
      if "session_ok L m2 (W(tname \<mapsto> w)) (P(tname \<mapsto> C))" "wr_fh w = Some g" "nebula_fs_close m2 g (clk 4) = (x, m3)" for m2 w C g x m3
    proof -
      have "W(tname := None) = W" "P(tname := None) = P" using cl cl' by auto
      then show ?thesis using session_close [OF that(1) _ that(2,3), of tname] by simp
    qed
    show ?thesis
    proof (cases "buf = []")
      case True
      obtain x m3 where xc: "nebula_fs_close m1 f (clk 4) = (x, m3)" by (rule prod.exhaust)
      have "s = IOStatus_OK" "m' = m3" using st cr Inr True xc by (auto simp: rename_store_def)
      then show ?thesis using closed [OF k(1) _ xc] k(2) True by simp
    next
      case False
      obtain r2 f2 m2 where wr: "nebula_fs_write m1 f 0 buf (clk 3) = (r2, f2, m2)" by (rule prod_cases3)
      obtain s2 w2 m2' where ap: "writable_append m1 ?w buf (clk 3) = (s2, w2, m2')" by (rule prod_cases3)
      have ap': "m2' = m2" "wr_fh w2 = Some f2" "s2 = (case r2 of Inl _ \<Rightarrow> IOStatus_IOError | Inr _ \<Rightarrow> IOStatus_OK)"
        using ap wr by (auto simp: writable_append_def split: sum.splits)
      obtain x m3 where xc: "nebula_fs_close m2 f2 (clk 4) = (x, m3)" by (rule prod.exhaust)
      have s: "s = s2" "m' = m3" using st cr Inr False wr xc ap'(3) by (auto simp: rename_store_def split: sum.splits)
      obtain j where j: "j \<le> length buf" "s2 = IOStatus_OK \<or> s2 = IOStatus_IOError \<and> j = 0"
          "session_ok L m2 (W(tname \<mapsto> w2)) (P(tname \<mapsto> take j buf))"
          "durable L m2 = (if j = length buf then (durable L m1)(tname \<mapsto> buf) else durable L m1)"
        by (rule session_append [OF k(1) _ False _ ap, of tname]) (use b ap'(1) in auto)
      note cd = closed [OF j(3) ap'(2) xc]
      show ?thesis
      proof (cases "j = length buf")
        case True
        then have "s = IOStatus_OK" using j(2) s(1) False by auto
        then show ?thesis using cd j(4) True k(2) s(2) by simp
      next
        case notall: False
        then show ?thesis using cd j(2,4) k(2) s False by auto
      qed
    qed
  qed
  then show "session_ok L m' W P"
    and "s = IOStatus_OK \<and> durable L m' = (durable L m)(tname \<mapsto> buf)
         \<or> buf \<noteq> [] \<and> s \<in> {IOStatus_OK, IOStatus_IOError} \<and> durable L m' = (durable L m)(tname \<mapsto> [])
         \<or> s \<noteq> IOStatus_OK \<and> durable L m' = durable L m" by auto
qed

lemma durable_bound: "session_ok L m W P \<Longrightarrow> durable L m name = Some bs \<Longrightarrow> length bs < 2 ^ 63"
  using session_okD(2) [of L m W P name] by (auto simp: durable_def content_def afile_read_def solid_def)

definition name_ok :: "byte list \<Rightarrow> bool" where
  "name_ok path \<longleftrightarrow> length (c_str (basename path)) < NEBULA_DIR_NAME_MAX"

lemma session_rename:
  assumes S: "session_ok L m W P" and nm: "name_ok src" "name_ok target"
    and cl: "W (c_str (basename src)) = None" "W (c_str (basename target)) = None" and rn: "rename_file m src target clk = (s, m')"
  shows "session_ok L m' W P \<and> rdb_spec (durable L m, P) (Rename (c_str (basename src)) (c_str (basename target)) s) (durable L m', P)"
proof -
  let ?a = "c_str (basename src)" and ?b = "c_str (basename target)"
  have P: "P ?a = None" "P ?b = None" using session_okD(3) [OF S] cl by auto
  obtain r m1 where ld: "rename_load m ?a clk = (r, m1)" by (rule prod.exhaust)
  note l = session_rename_load [OF S nm(1) [unfolded name_ok_def] ld]
  show ?thesis
  proof (cases "durable L m ?a")
    case None
    then have "s = IOStatus_NotFound" "m' = m1" using rn ld l(3) by (auto simp: rename_file_def Let_def)
    then show ?thesis using l(1,2) sp_rename_none [of "durable L m" ?a] None by simp
  next
    case (Some bs)
    obtain r2 m2 where d1: "nebula_fs_delete m1 ?a = (r2, m2)" by (rule prod.exhaust)
    note x = session_delete [OF l(1) cl(1) adapter_name_not_root nm(1) [unfolded name_ok_def] d1]
    obtain r3 m3 where d2: "nebula_fs_delete m2 ?b = (r3, m3)" by (rule prod.exhaust)
    note y = session_delete [OF x(2) cl(2) adapter_name_not_root nm(2) [unfolded name_ok_def] d2]
    have st: "rename_store m3 ?b bs clk = (s, m')"
      using rn ld l(2,3) Some d1 x(1) d2 by (simp add: rename_file_def Let_def)
    note z = session_rename_store [OF y(2) cl(2) durable_bound [OF S Some] st]
    have D: "durable L m3 = (durable L m)(?a := None, ?b := None)" using x(3) y(3) l(2) by simp
    have U: "(durable L m3)(?b \<mapsto> cs) = (durable L m)(?a := None, ?b \<mapsto> cs)" for cs unfolding D by simp
    have "rdb_spec (durable L m, P) (Rename ?a ?b s) (durable L m', P)"
      using z(2) sp_rename [of P ?a ?b "durable L m", OF P Some] sp_rename_lost [of P ?a ?b "durable L m", OF P Some]
        sp_rename_fail [of P ?a ?b "durable L m", OF P Some] unfolding U unfolding D by auto
    then show ?thesis using z(1) by blast
  qed
qed

section \<open>Runs\<close>

text \<open>
  The calls of RocksDB on the device and its open writers.  A name that is open for writing is not opened
  again, deleted or renamed, and a file stays below \<open>2 ^ 63\<close> bytes.
\<close>

type_synonym session = "posix_dev nebula_mount \<times> (byte list \<Rightarrow> writable_file option)"

inductive rdb_step :: "session \<Rightarrow> rdb_event \<Rightarrow> session \<Rightarrow> bool" where
  rs_new: "new_writable_file m path t = (r, m') \<Longrightarrow> name_ok path \<Longrightarrow> name = c_str (basename path) \<Longrightarrow> W name = None \<Longrightarrow>
    rdb_step (m, W) (NewWriter name (case r of Inl s \<Rightarrow> s | Inr _ \<Rightarrow> IOStatus_OK)) (m', case r of Inl _ \<Rightarrow> W | Inr w \<Rightarrow> W(name \<mapsto> w))"
| rs_reopen: "reopen_writable_file m path = (r, m') \<Longrightarrow> name_ok path \<Longrightarrow> name = c_str (basename path) \<Longrightarrow> W name = None \<Longrightarrow>
    rdb_step (m, W) (Reopen name (case r of Inl s \<Rightarrow> s | Inr _ \<Rightarrow> IOStatus_OK)) (m', case r of Inl _ \<Rightarrow> W | Inr w \<Rightarrow> W(name \<mapsto> w))"
| rs_append: "writable_append m w data t = (s, w', m') \<Longrightarrow> W name = Some w \<Longrightarrow> unat (writable_file_size w) + length data < 2 ^ 63 \<Longrightarrow>
    rdb_step (m, W) (Append name data s) (m', W(name \<mapsto> w'))"
| rs_close: "writable_close m w t = (s, w', m') \<Longrightarrow> W name = Some w \<Longrightarrow> rdb_step (m, W) (Close name) (m', W(name := None))"
| rs_delete: "delete_file m path = (s, m') \<Longrightarrow> name_ok path \<Longrightarrow> name = c_str (basename path) \<Longrightarrow> W name = None \<Longrightarrow>
    rdb_step (m, W) (Delete name s) (m', W)"
| rs_rename: "rename_file m src target clk = (s, m') \<Longrightarrow> name_ok src \<Longrightarrow> name_ok target \<Longrightarrow>
    a = c_str (basename src) \<Longrightarrow> b = c_str (basename target) \<Longrightarrow> W a = None \<Longrightarrow> W b = None \<Longrightarrow> rdb_step (m, W) (Rename a b s) (m', W)"
| rs_scan: "new_sequential_file m path = (Inr q, m1) \<Longrightarrow> name_ok path \<Longrightarrow> name = c_str (basename path) \<Longrightarrow> seq_scan m1 q bs m' \<Longrightarrow>
    rdb_step (m, W) (Scan name bs) (m', W)"

inductive_cases rdb_stepE: "rdb_step (m, W) e (m', W')"

lemma new_writer_sim:
  assumes S: "session_ok L m W P" and nm: "name_ok path" and cl: "W (c_str (basename path)) = None" and nw: "new_writable_file m path t = (r, m')"
  defines "name \<equiv> c_str (basename path)"
  shows "\<exists>P'. session_ok L m' (case r of Inl _ \<Rightarrow> W | Inr w \<Rightarrow> W(name \<mapsto> w)) P'
    \<and> rdb_spec (durable L m, P) (NewWriter name (case r of Inl s \<Rightarrow> s | Inr _ \<Rightarrow> IOStatus_OK)) (durable L m', P')"
proof -
  have cl': "W name = None" "P name = None" using cl session_okD(3) [OF S] by (auto simp: name_def)
  obtain r1 m1 where d1: "nebula_fs_delete m name = (r1, m1)" by (rule prod.exhaust)
  note x = session_delete [OF S cl adapter_name_not_root nm [unfolded name_ok_def], folded name_def, OF d1]
  obtain r2 m2 where cr: "nebula_fs_create m1 name 0x1A4 t = (r2, m2)" by (rule prod.exhaust)
  note c = session_create [OF x(2) cl'(1) cr]
  show ?thesis
  proof (cases r2)
    case (Inl e)
    then have r: "r = Inl (io_err (Inl e))" "m' = m2" using nw d1 cr by (auto simp: new_writable_file_def Let_def name_def)
    have "rdb_spec (durable L m, P) (NewWriter name (io_err (Inl e))) ((durable L m)(name := None), P)"
      by (rule sp_new_fail [of P, OF cl'(2) io_err_fail])
    then show ?thesis using r c(1) [OF Inl] x(3) by auto
  next
    case (Inr f)
    then have r: "r = Inr \<lparr>wr_fh = Some f, wr_pos = 0, wr_closed = False\<rparr>" "m' = m2"
      using nw d1 cr by (auto simp: new_writable_file_def Let_def name_def)
    have "durable L m2 = (durable L m)(name \<mapsto> [])" using c(2) [OF Inr] x(3) by simp
    then show ?thesis using r c(2) [OF Inr] sp_new [of P name "durable L m", OF cl'(2)] by auto
  qed
qed

lemma reopen_sim:
  assumes S: "session_ok L m W P" and nm: "name_ok path" and cl: "W (c_str (basename path)) = None" and ro: "reopen_writable_file m path = (r, m')"
  defines "name \<equiv> c_str (basename path)"
  shows "\<exists>P'. session_ok L m' (case r of Inl _ \<Rightarrow> W | Inr w \<Rightarrow> W(name \<mapsto> w)) P'
    \<and> rdb_spec (durable L m, P) (Reopen name (case r of Inl s \<Rightarrow> s | Inr _ \<Rightarrow> IOStatus_OK)) (durable L m', P')"
proof -
  have cl': "W name = None" "P name = None" using cl session_okD(3) [OF S] by (auto simp: name_def)
  have fl: "NEBULA_O_RDWR AND NEBULA_O_RDWR \<noteq> 0" unfolding NEBULA_O_RDWR_def NEBULA_O_RDONLY_def NEBULA_O_WRONLY_def by simp
  obtain q m1 where op: "nebula_fs_open m name NEBULA_O_RDWR = (q, m1)" by (rule prod.exhaust)
  note c = session_open [OF S nm [unfolded name_ok_def, folded name_def] fl op]
  show ?thesis
  proof (cases "durable L m name")
    case None
    then have "r = Inl IOStatus_NotFound" "m' = m1" using ro op c(3) by (auto simp: reopen_writable_file_def name_def)
    then show ?thesis using c(1,2) sp_reopen_none [of "durable L m" name P] None by auto
  next
    case (Some bs)
    obtain f n where f: "q = Inr f" "posix.mdir L m1 name = Some n" "handle_for (posix.mdisk m1) L n f" "f_flags f = NEBULA_O_RDWR"
      "bs = file_bytes (posix.mdisk m1) (f_inode f) 0 (unat (ino_size_bytes (f_inode f)))"
      "\<forall>p < length bs. file_phys (f_inode f) (of_nat (p div 4096)) \<noteq> None" using c(4) [OF Some] by blast
    have r: "r = Inr \<lparr>wr_fh = Some f, wr_pos = nebula_fs_file_size f, wr_closed = False\<rparr>" "m' = m1"
      using ro op f(1) by (auto simp: reopen_writable_file_def name_def)
    have D: "durable L m1 name = Some bs" using c(2) Some by simp
    note s = session_reopen [OF c(1) cl'(1) D f(2-6)]
    show ?thesis using s r c(2) sp_reopen [of P name "durable L m" bs, OF cl'(2) Some] by auto
  qed
qed

lemma append_empty:
  assumes S: "session_ok L m W P" and w: "W name = Some w"
  shows "writable_append m w [] t = (IOStatus_OK, w, m)"
proof -
  obtain f C where f: "open_writer w f C" "writer_ok L m name f C" using session_okD(4) [OF S w] by blast
  have "f_flags f AND NEBULA_O_WRONLY \<noteq> 0" using f(2) by (simp add: writer_ok_def)
  then show ?thesis using f(1) by (simp add: writable_append_def open_writer_def nebula_fs_write_def nebula_file_write_def)
qed

lemma append_sim:
  assumes S: "session_ok L m W P" and w: "W name = Some w" and b: "unat (wr_pos w) + length data < 2 ^ 63" and ap: "writable_append m w data t = (s, w', m')"
  shows "\<exists>P'. session_ok L m' (W(name \<mapsto> w')) P' \<and> rdb_spec (durable L m, P) (Append name data s) (durable L m', P')"
proof (cases "data = []")
  case True
  then have "s = IOStatus_OK" "w' = w" "m' = m" using ap append_empty [OF S w] by auto
  moreover have "W(name \<mapsto> w) = W" using w by auto
  ultimately show ?thesis using S sp_append_empty [of "durable L m" P name] True by auto
next
  case False
  obtain k C where k: "P name = Some C" "k \<le> length data" "s = IOStatus_OK \<or> s = IOStatus_IOError \<and> k = 0"
      "session_ok L m' (W(name \<mapsto> w')) (P(name \<mapsto> C @ take k data))"
      "durable L m' = (if k = length data then (durable L m)(name \<mapsto> C @ data) else durable L m)"
    by (rule session_append [OF S w False b ap])
  have "rdb_spec (durable L m, P) (Append name data s) (durable L m', P(name \<mapsto> C @ take k data))"
  proof (cases "s = IOStatus_OK")
    case True
    then show ?thesis using k(2,5) sp_append [of P name C, OF k(1)] sp_append_short [of P name C k, OF k(1)] by (cases "k = length data") auto
  next
    case no: False
    then have "s = IOStatus_IOError" "k = 0" using k(3) by auto
    moreover have "P(name \<mapsto> C) = P" using k(1) by auto
    ultimately show ?thesis using k(5) False sp_append_fail [of "durable L m" P name data] by simp
  qed
  then show ?thesis using k(4) by blast
qed

lemma rdb_step_sim:
  assumes st: "rdb_step (m, W) e (m', W')" and S: "session_ok L m W P"
  shows "\<exists>P'. session_ok L m' W' P' \<and> rdb_spec (durable L m, P) e (durable L m', P')"
  using st
proof (cases rule: rdb_stepE [consumes 1, case_names rs_new rs_reopen rs_append rs_close rs_delete rs_rename rs_scan])
  case (rs_new path t r)
  then show ?thesis using new_writer_sim [OF S rs_new(4,5,3)] by simp
next
  case (rs_reopen path r)
  then show ?thesis using reopen_sim [OF S rs_reopen(4,5,3)] by simp
next
  case (rs_append w data t s w' name)
  then show ?thesis using append_sim [OF S rs_append(4) _ rs_append(3)] by (simp add: writable_file_size_def)
next
  case (rs_close w t s w' name)
  obtain f C where f: "P name = Some C" "open_writer w f C" using session_okD(4) [OF S rs_close(4)] by blast
  obtain x m1 where cl: "nebula_fs_close m f t = (x, m1)" by (rule prod.exhaust)
  have fw: "wr_fh w = Some f" "m' = m1" using f(2) rs_close(3) cl by (auto simp: open_writer_def writable_close_def)
  note c = session_close [OF S rs_close(4) fw(1) cl]
  show ?thesis using c(2,3) fw(2) rs_close(1,2) sp_close [of "durable L m" P name] by auto
next
  case (rs_delete path s)
  define name where "name = c_str (basename path)"
  obtain r m1 where d1: "nebula_fs_delete m name = (r, m1)" by (rule prod.exhaust)
  have nr: "name \<noteq> [0x2F]" and len: "length name < NEBULA_DIR_NAME_MAX" using rs_delete(4) adapter_name_not_root by (auto simp: name_ok_def name_def)
  have cl: "W name = None" using rs_delete(5) by (simp add: name_def)
  note x = session_delete [OF S cl nr len d1]
  have r: "s = io_err (rc_of r)" "m' = m1" using rs_delete(3) d1 by (auto simp: delete_file_def name_def)
  have P: "P name = None" using session_okD(3) [OF S] cl by blast
  show ?thesis
  proof (cases "durable L m name")
    case None
    then have "s = IOStatus_NotFound" "(durable L m)(name := None) = durable L m" using r x(1) by (auto simp: rc_of_def)
    then show ?thesis using x(2,3) r(2) rs_delete(1,2) sp_delete_none [of "durable L m", OF None] by (auto simp: name_def)
  next
    case (Some bs)
    then have "s = IOStatus_OK" using r x(1) by (simp add: rc_of_def)
    then show ?thesis using x(2,3) r(2) rs_delete(1,2) sp_delete [of P name "durable L m"] P Some by (auto simp: name_def)
  qed
next
  case (rs_rename src target clk s)
  then show ?thesis using session_rename [OF S rs_rename(4-7,3)] by blast
next
  case (rs_scan path q m1 bs)
  define name where "name = c_str (basename path)"
  obtain r m2 where op: "nebula_fs_open m name NEBULA_O_RDONLY = (r, m2)" by (rule prod.exhaust)
  have len: "length name < NEBULA_DIR_NAME_MAX" using rs_scan(4) by (simp add: name_ok_def name_def)
  note c = session_open [OF S len rdonly_flags(2) op]
  obtain f where f: "r = Inr f" "m1 = m2" "q = \<lparr>sq_fh = f, sq_pos = 0, sq_size = nebula_fs_file_size f\<rparr>"
    using rs_scan(3) op by (auto simp: new_sequential_file_def name_def split: sum.splits)
  then obtain cs where cs: "durable L m name = Some cs" using c(3) by (cases "durable L m name") auto
  have "reader_ok L m1 name cs q" using c(2) c(4) [OF cs] cs f by (auto simp: reader_ok_def nebula_fs_file_size_def)
  then have "bs = cs" "session_ok L m' W P" "durable L m' = durable L m"
    using seq_scan_content [OF rs_scan(5), of L W P name cs] c(1,2) f by auto
  then show ?thesis using rs_scan(1,2) sp_scan [of "durable L m", OF cs] by (auto simp: name_def)
qed

inductive rdb_run :: "session \<Rightarrow> rdb_event list \<Rightarrow> session \<Rightarrow> bool" where
  run_nil: "rdb_run x [] x"
| run_snoc: "rdb_run x es y \<Longrightarrow> rdb_step y e z \<Longrightarrow> rdb_run x (es @ [e]) z"

inductive spec_run :: "files \<times> files \<Rightarrow> rdb_event list \<Rightarrow> files \<times> files \<Rightarrow> bool" where
  spec_nil: "spec_run x [] x"
| spec_snoc: "spec_run x es y \<Longrightarrow> rdb_spec y e z \<Longrightarrow> spec_run x (es @ [e]) z"

lemma rdb_run_sim:
  assumes "rdb_run x es y" and "session_ok L (fst x) (snd x) P"
  shows "\<exists>P'. session_ok L (fst y) (snd y) P' \<and> spec_run (durable L (fst x), P) es (durable L (fst y), P')"
  using assms
proof (induction rule: rdb_run.induct)
  case (run_nil x)
  then show ?case using spec_run.spec_nil by blast
next
  case (run_snoc x es y e z)
  then obtain P1 where P1: "session_ok L (fst y) (snd y) P1" "spec_run (durable L (fst x), P) es (durable L (fst y), P1)" by blast
  obtain P2 where "session_ok L (fst z) (snd z) P2" "rdb_spec (durable L (fst y), P1) e (durable L (fst z), P2)"
    using rdb_step_sim [of "fst y" "snd y" e "fst z" "snd z", OF _ P1(1)] run_snoc.hyps(2) by auto
  then show ?case using spec_run.spec_snoc [OF P1(2)] by blast
qed

lemma durable_prefix:
  assumes "session_ok L m W P" and "W name = Some w"
  shows "\<exists>C k. P name = Some C \<and> unat (writable_file_size w) = length C \<and> durable L m name = Some (take k C)"
proof -
  obtain f C where f: "P name = Some C" "open_writer w f C" "writer_ok L m name f C" using session_okD(4) [OF assms] by blast
  then show ?thesis using durable_writer [OF f(3) session_okD(2) [OF assms(1)]]
    by (auto simp: open_writer_def writable_file_size_def)
qed

section \<open>The size of a file without holes\<close>

lemma mapped_bound:
  assumes ok: "file_ok L fr i" and mp: "\<forall>p < n. file_phys i (of_nat (p div 4096)) \<noteq> None" and n: "n < 2 ^ 63"
  shows "n \<le> 4096 * unat (lay_alloc_roots_tail_lba L)"
proof -
  define N where "N = (n + 4095) div 4096"
  have N: "n \<le> 4096 * N" "N < 2 ^ 52" using n by (simp_all add: N_def)
  have each: "\<exists>q. file_phys i (of_nat b) = Some q" if "b < N" for b
  proof -
    have "b * 4096 < n" using that by (simp add: N_def)
    then show ?thesis using mp [rule_format, of "b * 4096"] by auto
  qed
  define g where "g b = the (file_phys i (of_nat b))" for b
  have g: "file_phys i (of_nat b) = Some (g b)" if "b < N" for b using each [OF that] by (auto simp: g_def)
  have "inj_on g {..<N}"
  proof (rule inj_onI)
    fix a b assume ab: "a \<in> {..<N}" "b \<in> {..<N}" "g a = g b"
    then have "(of_nat a :: u64) = of_nat b" using file_phys_inj [OF ok g [of a]] g [of b] by auto
    then have "unat (of_nat a :: u64) = unat (of_nat b :: u64)" by simp
    then show "a = b" using ab(1,2) N(2) by (simp add: unat_of_nat)
  qed
  moreover have "g ` {..<N} \<subseteq> {..<unat (lay_alloc_roots_tail_lba L)}"
    using g file_phys_in_list [OF ok] ok by (fastforce simp: file_ok_def)
  ultimately have "card {..<N} \<le> card {..<unat (lay_alloc_roots_tail_lba L)}" by (intro card_inj_on_le) auto
  then show ?thesis using N(1) by simp
qed

section \<open>A write that starts in a block of the file\<close>

lemma file_write_loop_counts: "file_write_loop m f off buf w = (r, w', f', m') \<Longrightarrow> w \<le> w'"
proof (induction m f off buf w rule: file_write_loop.induct)
  case (1 m f off buf w)
  show ?case
    using 1(2) 1(1) by (subst (asm) file_write_loop.simps) (fastforce simp: Let_def split: if_splits prod.splits sum.splits)
qed

context block_backend
begin

lemma file_write_mapped:
  assumes inv: "mount_inv ops dinv L m" and up: "mup m" and df: "data_free L m" and ad: "addressable L"
    and ok: "file_ok L (hbm_free (m_bitmap m)) (f_inode f)" and fl: "f_flags f AND NEBULA_O_WRONLY \<noteq> 0" and ne: "buf \<noteq> []"
    and fit: "unat off + length buf < 2 ^ 63" and mp: "file_phys (f_inode f) (of_nat (unat off div 4096)) = Some x"
    and wr: "nebula_file_write m f off buf t = (r, f', m')"
  shows "\<exists>k. r = Inr k"
proof -
  define b where "b = (of_nat (unat off div 4096) :: u64)"
  note pos = unat_position [of off 0]
  have p0: "(off + of_nat 0) div 4096 = b" "unat ((off + of_nat 0) mod 4096) = unat off mod 4096"
    using pos fit by (simp_all add: b_def)
  let ?n = "min (NEBULA_BLOCK_SIZE - unat off mod 4096) (length buf - 0)"
  have n: "0 < ?n" using ne by (cases buf) simp_all
  have wf: "wf_ino (f_inode f)" using ok by (simp add: file_ok_def)
  obtain k where k: "extent_find (f_inode f) b = Some k"
    using extent_find_extent [OF wf, of b] mp by (cases "extent_find (f_inode f) b") (auto simp: file_phys_def b_def)
  let ?y = "extent_phys (ino_extents (f_inode f) ! k) b"
  have tg: "file_write_target m f b (of_nat (length buf - 0)) (of_nat (unat off mod 4096)) = (Inr ?y, f, m)"
    using k by (simp add: file_write_target_def)
  have "file_phys (f_inode f) b = Some (unat ?y)"
    using extent_find_extent [OF wf, of b] k by (auto simp: file_phys_def dest: sym)
  note rng = data_block_in_range(3) [OF inv ok this]
  obtain s m2 where pb: "file_put_block m ?y (unat off mod 4096) (seg 0 ?n buf) = (s, m2)" by (rule prod.exhaust)
  have "s = Inr ()" using file_put_block_cases(5) [OF inv pb] up rng by simp
  then have lp: "file_write_loop m f off buf 0 = file_write_loop m2 (f\<lparr>f_dirty := True\<rparr>) off buf (0 + ?n)"
    using file_write_loop.simps [of m f off buf 0, unfolded Let_def p0] tg pb ne by simp
  obtain q w f1 m1 where q: "file_write_loop m f off buf 0 = (q, w, f1, m1)" by (rule prod_cases4)
  have "0 + ?n \<le> w" by (rule file_write_loop_counts [OF q [unfolded lp]])
  then have "0 < w" using n by linarith
  then show ?thesis using wr fl ne q by (auto simp: nebula_file_write_def split: sum.splits prod.splits)
qed

end

section \<open>Runs of appends\<close>

fun append_all ::
    "'d nebula_mount \<Rightarrow> writable_file \<Rightarrow> (byte list \<times> u64) list \<Rightarrow> writable_file \<times> 'd nebula_mount" where
  "append_all m w [] = (w, m)"
| "append_all m w ((data, t) # ds) = (case writable_append m w data t of (_, w1, m1) \<Rightarrow> append_all m1 w1 ds)"

lemma append_all_session:
  assumes "session_ok L m W P" and "W name = Some w" and "P name = Some C"
    and "length C + length (concat (map fst ds)) < 2 ^ 63" and "append_all m w ds = (w', m')"
  shows "\<exists>C'. session_ok L m' (W(name \<mapsto> w')) (P(name \<mapsto> C')) \<and> unat (wr_pos w') = length C'
    \<and> length C' \<le> length C + length (concat (map fst ds)) \<and> (\<forall>b. b \<noteq> name \<longrightarrow> durable L m' b = durable L m b)
    \<and> (length C' = length C + length (concat (map fst ds)) \<and> durable L m name = Some C \<longrightarrow> durable L m' name = Some (C @ concat (map fst ds)))"
  using assms
proof (induction ds arbitrary: m W P w C)
  case Nil
  then have "w' = w" "m' = m" "W(name \<mapsto> w) = W" "P(name \<mapsto> C) = P" by auto
  moreover have "unat (wr_pos w) = length C"
    using durable_prefix [OF Nil.prems(1,2)] Nil.prems(3) by (auto simp: writable_file_size_def)
  ultimately show ?case using Nil.prems(1) by (intro exI [of _ C]) simp
next
  case (Cons d ds)
  obtain data t where d: "d = (data, t)" by (cases d)
  obtain s w1 m1 where ap: "writable_append m w data t = (s, w1, m1)" by (rule prod_cases3)
  have rest: "append_all m1 w1 ds = (w', m')" using Cons.prems(5) d ap by simp
  have pos: "unat (wr_pos w) = length C" using durable_prefix [OF Cons.prems(1,2)] Cons.prems(3) by (auto simp: writable_file_size_def)
  obtain k where k: "k \<le> length data" "session_ok L m1 (W(name \<mapsto> w1)) (P(name \<mapsto> C @ take k data))"
      "\<forall>b. b \<noteq> name \<longrightarrow> durable L m1 b = durable L m b"
      "k = length data \<and> durable L m name = Some C \<longrightarrow> durable L m1 name = Some (C @ data)"
  proof (cases "data = []")
    case True
    then have "w1 = w" "m1 = m" "W(name \<mapsto> w) = W" "P(name \<mapsto> C) = P" using ap append_empty [OF Cons.prems(1,2)] Cons.prems(2,3) by auto
    then show ?thesis using that [of 0] Cons.prems(1) True by simp
  next
    case False
    have b: "unat (wr_pos w) + length data < 2 ^ 63" using Cons.prems(4) pos d by simp
    show ?thesis by (rule session_append [OF Cons.prems(1,2) False b ap], rule that) (use Cons.prems(3) in auto)
  qed
  let ?C = "C @ take k data"
  have l: "length ?C + length (concat (map fst ds)) < 2 ^ 63" using Cons.prems(4) k(1) d by simp
  obtain C' where C': "session_ok L m' ((W(name \<mapsto> w1))(name \<mapsto> w')) ((P(name \<mapsto> ?C))(name \<mapsto> C'))" "unat (wr_pos w') = length C'"
      "length C' \<le> length ?C + length (concat (map fst ds))" "\<forall>b. b \<noteq> name \<longrightarrow> durable L m' b = durable L m1 b"
      "length C' = length ?C + length (concat (map fst ds)) \<and> durable L m1 name = Some ?C \<longrightarrow> durable L m' name = Some (?C @ concat (map fst ds))"
    using Cons.IH [OF k(2) fun_upd_same fun_upd_same l rest] by blast
  have full: "k = length data" if "length C' = length C + length (concat (map fst (d # ds)))" using that C'(3) k(1) d by simp
  show ?case
  proof (intro exI [of _ C'] conjI impI)
    show "session_ok L m' (W(name \<mapsto> w')) (P(name \<mapsto> C'))" using C'(1) by (simp only: fun_upd_upd)
    show "unat (wr_pos w') = length C'" by (rule C'(2))
    show "length C' \<le> length C + length (concat (map fst (d # ds)))" using C'(3) k(1) d by simp
    show "\<forall>b. b \<noteq> name \<longrightarrow> durable L m' b = durable L m b" using C'(4) k(3) by simp
    assume a: "length C' = length C + length (concat (map fst (d # ds))) \<and> durable L m name = Some C"
    then have "k = length data" using full by blast
    then show "durable L m' name = Some (C @ concat (map fst (d # ds)))" using C'(5) k(4) a d by simp
  qed
qed

end
