(* ===== verification/Nebula_Rocksdb_Props.thy ===== *)
theory Nebula_Rocksdb_Props
  imports Nebula_Rocksdb_Correct
begin

unbundle bit_operations_syntax

text \<open>
  What RocksDB can rely on, and what it cannot: the guarantees of the adapter on a POSIX device without
  faults, each with a session on a freshly formatted device on which its hypotheses hold.
\<close>

section \<open>A sample session\<close>

text \<open>The path \<open>/db/a\<close>.\<close>

definition sample_rdb_path :: "byte list" where
  "sample_rdb_path = [0x2F, 0x64, 0x62, 0x2F, 0x61]"

lemma sample_rdb_name: "c_str (basename sample_rdb_path) = [97]" "name_ok sample_rdb_path"
  by (simp_all add: sample_rdb_path_def basename_def rfind_def c_str_def name_ok_def)

lemma sample_session:
  obtains L m where "session_ok L m Map.empty Map.empty" and "durable L m = [[0x2F] \<mapsto> []]" and "hbm_free (m_bitmap m) \<noteq> {}"
    and "\<exists>k. 1 \<le> k \<and> k < inode_count L \<and> ino_type (inode_at (posix.mdisk m) L k) = NEBULA_INODE_TYPE_FREE"
    and "1 < dir_slots_total L" and "posix.mdir L m = [[0x2F] \<mapsto> 0]"
proof -
  obtain L m where s: "fs_live L m" "posix.mview L m = [[0x2F] \<mapsto> (0, \<lambda>_. None)]" "posix.mdir L m = [[0x2F] \<mapsto> 0]"
    "\<exists>k. 1 \<le> k \<and> k < inode_count L \<and> ino_type (inode_at (posix.mdisk m) L k) = NEBULA_INODE_TYPE_FREE"
    "1 < dir_slots_total L" "hbm_free (m_bitmap m) \<noteq> {}" by (rule sample_fs)
  have "session_ok L m Map.empty Map.empty" using s(1,2) by (auto simp: session_ok_def solid_def split: if_splits)
  moreover have "durable L m = [[0x2F] \<mapsto> []]" unfolding durable_def s(2) by (auto simp: content_def afile_read_def)
  ultimately show ?thesis using that s by blast
qed

lemma sample_writer:
  obtains L m w m1 where "session_ok L m Map.empty Map.empty" and "new_writable_file m sample_rdb_path 0 = (Inr w, m1)"
    and "session_ok L m1 [[97] \<mapsto> w] [[97] \<mapsto> []]" and "durable L m1 = [[0x2F] \<mapsto> [], [97] \<mapsto> []]" and "hbm_free (m_bitmap m1) \<noteq> {}"
    and "\<exists>f x. wr_fh w = Some f \<and> f_inode f = inode_new x NEBULA_INODE_TYPE_FILE 0x1A4 0 \<and> unat x < inode_count L" and "wr_pos w = 0"
proof -
  obtain L m where s: "session_ok L m Map.empty Map.empty" "durable L m = [[0x2F] \<mapsto> []]" "hbm_free (m_bitmap m) \<noteq> {}"
    "\<exists>k. 1 \<le> k \<and> k < inode_count L \<and> ino_type (inode_at (posix.mdisk m) L k) = NEBULA_INODE_TYPE_FREE"
    "1 < dir_slots_total L" "posix.mdir L m = [[0x2F] \<mapsto> 0]" by (rule sample_session)
  note a = fs_liveD [OF session_okD(1) [OF s(1)]]
  obtain r0 m0 where d0: "nebula_fs_delete m [97] = (r0, m0)" by (rule prod.exhaust)
  have len: "length [97 :: byte] < NEBULA_DIR_NAME_MAX" by simp
  note x = session_delete [OF s(1) _ _ len d0]
  have c0: "posix.mdisk m0 = posix.mdisk m" "m_bitmap m0 = m_bitmap m" using posix.fs_delete_cases(1) [OF a(1,2) d0 len] s(6) by auto
  have k0: "session_ok L m0 Map.empty Map.empty" "durable L m0 = [[0x2F] \<mapsto> []]" using x(2,3) s(2) by auto
  note a0 = fs_liveD [OF session_okD(1) [OF k0(1)]]
  obtain r m1 where cr: "nebula_fs_create m0 [97] 0x1A4 0 = (r, m1)" by (rule prod.exhaust)
  note c = posix.fs_create_cases [OF a0(1,2) cr]
  obtain f where r: "r = Inr f" using c(6) [OF _ len] s(4,5,6) c0(1) by auto
  obtain y where y: "f_inode f = inode_new y NEBULA_INODE_TYPE_FILE 0x1A4 0" "unat y < inode_count L"
    using fs_create_inode [OF a0(1)] cr r by blast
  let ?w = "\<lparr>wr_fh = Some f, wr_pos = 0, wr_closed = False\<rparr>"
  note sc = session_create(2) [OF k0(1) _ cr r]
  have "new_writable_file m sample_rdb_path 0 = (Inr ?w, m1)"
    using d0 cr r by (simp add: new_writable_file_def sample_rdb_name)
  moreover have "durable L m1 = [[0x2F] \<mapsto> [], [97] \<mapsto> []]" using sc k0(2) by simp
  moreover have "hbm_free (m_bitmap m1) \<noteq> {}" using c(3) c0(2) s(3) by simp
  ultimately show ?thesis using that [of L m ?w m1] s(1) sc y by auto
qed

lemma sample_appended:
  obtains L m w m1 w1 m2 where "session_ok L m Map.empty Map.empty" and "new_writable_file m sample_rdb_path 0 = (Inr w, m1)"
    and "writable_append m1 w [7, 8, 9] 1 = (IOStatus_OK, w1, m2)" and "unat (writable_file_size w1) = 3"
    and "session_ok L m2 [[97] \<mapsto> w1] [[97] \<mapsto> [7, 8, 9]]" and "durable L m2 = [[0x2F] \<mapsto> [], [97] \<mapsto> [7, 8, 9]]"
proof -
  obtain L m w m1 where s: "session_ok L m Map.empty Map.empty" "new_writable_file m sample_rdb_path 0 = (Inr w, m1)"
    "session_ok L m1 [[97] \<mapsto> w] [[97] \<mapsto> []]" "durable L m1 = [[0x2F] \<mapsto> [], [97] \<mapsto> []]" "hbm_free (m_bitmap m1) \<noteq> {}"
    "\<exists>f x. wr_fh w = Some f \<and> f_inode f = inode_new x NEBULA_INODE_TYPE_FILE 0x1A4 0 \<and> unat x < inode_count L" "wr_pos w = 0" by (rule sample_writer)
  obtain f x where f: "wr_fh w = Some f" "f_inode f = inode_new x NEBULA_INODE_TYPE_FILE 0x1A4 0" "unat x < inode_count L" using s(6) by blast
  have sw: "[[97] \<mapsto> w] [97] = Some w" by simp
  obtain g C where g: "open_writer w g C" "writer_ok L m1 [97] g C" using session_okD(4) [OF s(3) sw] by blast
  have ncl: "\<not> wr_closed w" and fl: "f_flags f AND NEBULA_O_WRONLY \<noteq> 0" using g f(1) by (auto simp: open_writer_def writer_ok_def)
  note a = fs_liveD [OF session_okD(1) [OF s(3)]]
  note o = posix.fsokD [OF a(1)]
  obtain r f' m2 where wr: "nebula_fs_write m1 f 0 [7, 8, 9] 1 = (r, f', m2)" by (rule prod_cases3)
  have r: "r = Inr 3"
    using posix.file_write_new_block [OF o(1) a(2) o(3) a(3) f(2,3) fl _ _ _ s(5) wr [unfolded nebula_fs_write_def]] by simp
  let ?w1 = "w\<lparr>wr_fh := Some f', wr_pos := 3\<rparr>"
  have ap: "writable_append m1 w [7, 8, 9] 1 = (IOStatus_OK, ?w1, m2)"
    using ncl f(1) s(7) wr r by (simp add: writable_append_def)
  have ne: "[7, 8, 9 :: byte] \<noteq> []" and b: "unat (wr_pos w) + length [7, 8, 9 :: byte] < 2 ^ 63" using s(7) by simp_all
  obtain k C where k: "([[97] \<mapsto> []] :: files) [97] = Some C" "k \<le> length [7, 8, 9 :: byte]"
      "session_ok L m2 ([[97] \<mapsto> w]([97] \<mapsto> ?w1)) ([[97] \<mapsto> []]([97] \<mapsto> C @ take k [7, 8, 9]))"
      "durable L m2 = (if k = length [7, 8, 9 :: byte] then (durable L m1)([97] \<mapsto> C @ [7, 8, 9]) else durable L m1)"
    by (rule session_append [OF s(3) sw ne b ap]) blast
  have C: "C = []" using k(1) by simp
  obtain D where D: "([[97] \<mapsto> []]([97] \<mapsto> C @ take k [7, 8, 9])) [97] = Some D" "unat (writable_file_size ?w1) = length D"
    using durable_prefix [OF k(3), of "[97]" ?w1] by auto
  have "length (take k [7, 8, 9 :: byte]) = 3" using D C by (simp add: writable_file_size_def)
  then have k3: "k = 3" using k(2) by simp
  show ?thesis
    by (rule that [OF s(1,2) ap]) (use k(3,4) k3 C s(4) in \<open>simp_all add: writable_file_size_def\<close>)
qed

lemma mid_block:
  assumes "(n :: nat) mod 4096 \<noteq> 0"
  shows "(n - 1) div 4096 = n div 4096" and "n - 1 < n"
proof -
  have "0 < n mod 4096" and "n mod 4096 < 4096" using assms by simp_all
  then have "n - 1 = (n mod 4096 - 1) + n div 4096 * 4096" using div_mult_mod_eq [of n 4096] by linarith
  then show "(n - 1) div 4096 = n div 4096" using \<open>n mod 4096 < 4096\<close> by simp
  show "n - 1 < n" using assms by (cases n) simp_all
qed

section \<open>Properties\<close>

text \<open>
  Property C3.  A session of RocksDB on the adapter.  Along every run of creations, appends, closes, deletions, renames and
  scans, with any number of files open for appending at a time, on a device without faults, the invariant
  of the session holds (no two open files share a block, and none shares one with another file or with the
  free space), and the run is one of the specification: each event changes the two maps, what a reader finds
  and what the writers have accepted, as \<open>rdb_spec\<close> says.  What a reader finds under an open name is a prefix of
  what its writer has accepted.
\<close>

theorem rocksdb_session_refines:
  assumes "rdb_run (m, W) es (m', W')" and "session_ok L m W P"
  shows "\<exists>P'. session_ok L m' W' P' \<and> spec_run (durable L m, P) es (durable L m', P')
    \<and> (\<forall>name w. W' name = Some w \<longrightarrow> (\<exists>C k. P' name = Some C \<and> unat (writable_file_size w) = length C \<and> durable L m' name = Some (take k C)))"
  using rdb_run_sim [OF assms(1)] assms(2) durable_prefix by (metis fst_conv snd_conv)

theorem rocksdb_session_refines_witness:
  "\<exists>L m m' W' P'. rdb_run (m, Map.empty) [NewWriter [97] IOStatus_OK, Append [97] [7, 8, 9] IOStatus_OK] (m', W') \<and> [97] \<in> dom W'
     \<and> spec_run (durable L m, Map.empty) [NewWriter [97] IOStatus_OK, Append [97] [7, 8, 9] IOStatus_OK] (durable L m', P')"
proof -
  obtain L m w m1 w1 m2 where s: "session_ok L m Map.empty Map.empty" "new_writable_file m sample_rdb_path 0 = (Inr w, m1)"
    "writable_append m1 w [7, 8, 9] 1 = (IOStatus_OK, w1, m2)" "unat (writable_file_size w1) = 3"
    "session_ok L m2 [[97] \<mapsto> w1] [[97] \<mapsto> [7, 8, 9]]" by (rule sample_appended)
  have step1: "rdb_step (m, Map.empty) (NewWriter [97] IOStatus_OK) (m1, [[97] \<mapsto> w])"
    using rs_new [OF s(2) sample_rdb_name(2) refl, of Map.empty] by (simp add: sample_rdb_name)
  have "unat (writable_file_size w) + length [7, 8, 9 :: byte] < 2 ^ 63"
    using s(2) by (auto simp: new_writable_file_def writable_file_size_def Let_def split: prod.splits sum.splits)
  then have step2: "rdb_step (m1, [[97] \<mapsto> w]) (Append [97] [7, 8, 9] IOStatus_OK) (m2, [[97] \<mapsto> w]([97] \<mapsto> w1))"
    by (intro rs_append [OF s(3)]) simp_all
  have run: "rdb_run (m, Map.empty) [NewWriter [97] IOStatus_OK, Append [97] [7, 8, 9] IOStatus_OK] (m2, [[97] \<mapsto> w]([97] \<mapsto> w1))"
    using run_snoc [OF run_snoc [OF run_nil step1] step2] by simp
  show ?thesis using rocksdb_session_refines [OF run s(1)] run by (intro exI [of _ L] exI [of _ m] exI [of _ m2]) auto
qed

text \<open>
  Property C17.  What was appended is read back.  A new file is written by appends of any sizes; if the size that the writer
  reports is the sum of their lengths, then after closing it a scan with reads of any positive sizes ends, and
  returns exactly the concatenation of the data.
\<close>

theorem rocksdb_append_then_scan:
  assumes "session_ok L m W P" and "name_ok path" and "W (c_str (basename path)) = None"
    and "new_writable_file m path t = (Inr w, m1)" and "append_all m1 w ds = (w2, m2)"
    and "unat (writable_file_size w2) = length (concat (map fst ds))" and "length (concat (map fst ds)) < 2 ^ 63"
    and "writable_close m2 w2 t' = (s, w3, m3)"
  shows "s = IOStatus_OK \<and> (\<exists>q m4. new_sequential_file m3 path = (Inr q, m4) \<and> (\<exists>out m5. seq_scan m4 q out m5)
    \<and> (\<forall>out m5. seq_scan m4 q out m5 \<longrightarrow> out = concat (map fst ds)))"
proof -
  define name where "name = c_str (basename path)"
  let ?data = "concat (map fst ds)"
  obtain P1 where P1: "session_ok L m1 (W(name \<mapsto> w)) P1" "rdb_spec (durable L m, P) (NewWriter name IOStatus_OK) (durable L m1, P1)"
    using new_writer_sim [OF assms(1-4)] by (auto simp: name_def)
  have D1: "durable L m1 name = Some []" "P1 name = Some []" using P1(2) by (auto elim: rdb_spec.cases)
  have l: "length ([] :: byte list) + length ?data < 2 ^ 63" using assms(7) by simp
  have w1: "(W(name \<mapsto> w)) name = Some w" by simp
  obtain C where C: "session_ok L m2 ((W(name \<mapsto> w))(name \<mapsto> w2)) (P1(name \<mapsto> C))" "unat (wr_pos w2) = length C"
      "length C = length ([] :: byte list) + length ?data \<and> durable L m1 name = Some [] \<longrightarrow> durable L m2 name = Some ([] @ ?data)"
    using append_all_session [OF P1(1) w1 D1(2) l assms(5)] by blast
  have D2: "durable L m2 name = Some ?data" using C(2,3) D1(1) assms(6) by (simp add: writable_file_size_def)
  have w2: "((W(name \<mapsto> w))(name \<mapsto> w2)) name = Some w2" by simp
  obtain f where f: "wr_fh w2 = Some f" "\<not> wr_closed w2" using session_okD(4) [OF C(1) w2] by (auto simp: open_writer_def)
  obtain x m3' where cl: "nebula_fs_close m2 f t' = (x, m3')" by (rule prod.exhaust)
  note c = session_close [OF C(1) w2 f(1) cl]
  have m3: "m3' = m3" "s = IOStatus_OK" using assms(8) f cl c(1) by (auto simp: writable_close_def rc_of_def)
  note S3 = c(2) [unfolded m3(1)] and D3 = c(3) [unfolded m3(1)]
  obtain r m4 where op: "nebula_fs_open m3 name NEBULA_O_RDONLY = (r, m4)" by (rule prod.exhaust)
  have len: "length name < NEBULA_DIR_NAME_MAX" using assms(2) by (simp add: name_ok_def name_def)
  note o = session_open [OF S3 len rdonly_flags(2) op]
  have D3': "durable L m3 name = Some ?data" using D3 D2 by simp
  obtain g n where g: "r = Inr g" "posix.mdir L m4 name = Some n" "handle_for (posix.mdisk m4) L n g" "f_flags g = NEBULA_O_RDONLY"
    "?data = file_bytes (posix.mdisk m4) (f_inode g) 0 (unat (ino_size_bytes (f_inode g)))" using o(4) [OF D3'] by blast
  let ?q = "\<lparr>sq_fh = g, sq_pos = 0, sq_size = nebula_fs_file_size g\<rparr>"
  have q: "new_sequential_file m3 path = (Inr ?q, m4)" using op g(1) by (simp add: new_sequential_file_def name_def)
  have "length ?data = unat (ino_size_bytes (f_inode g))" using arg_cong [OF g(5), of length] by simp
  then have rd: "reader_ok L m4 name ?data ?q" using D3' o(2) g(2-4) by (auto simp: reader_ok_def nebula_fs_file_size_def)
  have "\<forall>out m5. seq_scan m4 ?q out m5 \<longrightarrow> out = ?data" using seq_scan_content [OF _ o(1) rd] by auto
  moreover have "\<exists>out m5. seq_scan m4 ?q out m5" by (rule seq_scan_exists [OF o(1) rd, of 1]) simp
  ultimately show ?thesis using q m3(2) by blast
qed

theorem rocksdb_append_then_scan_witness:
  "\<exists>m m1 w w2 m2 w3 m3 q m4 m5. new_writable_file m sample_rdb_path 0 = (Inr w, m1) \<and> append_all m1 w [([7, 8, 9], 1)] = (w2, m2)
     \<and> writable_close m2 w2 2 = (IOStatus_OK, w3, m3) \<and> new_sequential_file m3 sample_rdb_path = (Inr q, m4) \<and> seq_scan m4 q [7, 8, 9] m5"
proof -
  obtain L m w m1 w1 m2 where s: "session_ok L m Map.empty Map.empty" "new_writable_file m sample_rdb_path 0 = (Inr w, m1)"
    "writable_append m1 w [7, 8, 9] 1 = (IOStatus_OK, w1, m2)" "unat (writable_file_size w1) = 3" by (rule sample_appended)
  obtain st w3 m3 where cl: "writable_close m2 w1 2 = (st, w3, m3)" by (rule prod_cases3)
  have ap: "append_all m1 w [([7, 8, 9], 1)] = (w1, m2)" using s(3) by simp
  have sz: "unat (writable_file_size w1) = length (concat (map fst [([7, 8, 9 :: byte], 1 :: u64)]))"
    "length (concat (map fst [([7, 8, 9 :: byte], 1 :: u64)])) < 2 ^ 63" using s(4) by simp_all
  obtain q m4 out m5 where "st = IOStatus_OK" "new_sequential_file m3 sample_rdb_path = (Inr q, m4)" "seq_scan m4 q out m5" "out = [7, 8, 9]"
    using rocksdb_append_then_scan [OF s(1) sample_rdb_name(2) _ s(2) ap sz cl] by auto
  then show ?thesis using s(2) ap cl by blast
qed

text \<open>
  Property C23.  A short append is reported as a success.  When the writer stands inside a block and the data is longer than
  the device, the append returns \<open>OK\<close>, although it has accepted only a part of the data, and what a reader finds
  has not changed at all.
\<close>

theorem append_short_reported_ok:
  assumes "session_ok L m W P" and "W name = Some w" and "unat (writable_file_size w) mod 4096 \<noteq> 0"
    and "4096 * unat (lay_alloc_roots_tail_lba L) < length data" and "unat (writable_file_size w) + length data < 2 ^ 63"
    and "writable_append m w data t = (s, w', m')"
  shows "s = IOStatus_OK \<and> unat (writable_file_size w') < unat (writable_file_size w) + length data \<and> durable L m' = durable L m"
proof -
  note a = fs_liveD [OF session_okD(1) [OF assms(1)]]
  note o = posix.fsokD [OF a(1)]
  have ne: "data \<noteq> []" using assms(4) by auto
  obtain f C where f: "P name = Some C" "open_writer w f C" "writer_ok L m name f C" using session_okD(4) [OF assms(1,2)] by blast
  have w: "wr_fh w = Some f" "\<not> wr_closed w" "unat (wr_pos w) = length C" using f(2) by (simp_all add: open_writer_def)
  obtain n where own: "handle_own L (hbm_free (m_bitmap m)) (posix.mdisk m) n f" using f(3) unfolding writer_ok_def by blast
  have fok: "file_ok L (hbm_free (m_bitmap m)) (f_inode f)" and fl: "f_flags f AND NEBULA_O_WRONLY \<noteq> 0"
    using own f(3) by (simp_all add: handle_own_def writer_ok_def)
  have b: "unat (wr_pos w) + length data < 2 ^ 63" using assms(5) by (simp add: writable_file_size_def)
  have "length C mod 4096 \<noteq> 0" using assms(3) w(3) by (simp add: writable_file_size_def)
  then have "(length C - 1) div 4096 = length C div 4096" "length C - 1 < length C" by (rule mid_block)+
  then have "file_phys (f_inode f) (of_nat (unat (wr_pos w) div 4096)) \<noteq> None" using f(3) w(3) unfolding writer_ok_def by metis
  then obtain x where x: "file_phys (f_inode f) (of_nat (unat (wr_pos w) div 4096)) = Some x" by blast
  obtain r f' m1 where wr: "nebula_fs_write m f (wr_pos w) data t = (r, f', m1)" by (rule prod_cases3)
  obtain k0 where "r = Inr k0"
    using posix.file_write_mapped [OF o(1) a(2) o(3) a(3) fok fl ne b x wr [unfolded nebula_fs_write_def]] by blast
  then have s: "s = IOStatus_OK" using assms(6) w wr by (simp add: writable_append_def)
  obtain k D where k: "P name = Some D" "k \<le> length data" "session_ok L m' (W(name \<mapsto> w')) (P(name \<mapsto> D @ take k data))"
      "durable L m' = (if k = length data then (durable L m)(name \<mapsto> D @ data) else durable L m)"
    by (rule session_append [OF assms(1,2) ne b assms(6)]) blast
  obtain g E where g: "(P(name \<mapsto> D @ take k data)) name = Some E" "open_writer w' g E" "writer_ok L m' name g E"
    using session_okD(4) [OF k(3), of name w'] by auto
  obtain n' where "handle_own L (hbm_free (m_bitmap m')) (posix.mdisk m') n' g" using g(3) unfolding writer_ok_def by blast
  then have gok: "file_ok L (hbm_free (m_bitmap m')) (f_inode g)" by (simp add: handle_own_def)
  have "length E \<le> 4096 * unat (lay_alloc_roots_tail_lba L)"
    by (rule mapped_bound [OF gok]) (use g(3) in \<open>auto simp: writer_ok_def\<close>)
  moreover have E: "E = D @ take k data" "D = C" using g(1) k(1) f(1) by auto
  ultimately have "k < length data" using assms(4) k(2) by auto
  moreover have "unat (wr_pos w') = length C + k" using g(2) E k(2) by (simp add: open_writer_def)
  ultimately show ?thesis using s k(4) w(3) by (simp add: writable_file_size_def)
qed

theorem append_short_reported_ok_witness:
  "\<exists>L m w data w' m'. writable_append m w data 5 = (IOStatus_OK, w', m') \<and> durable L m [97] = Some [7, 8, 9] \<and> durable L m' [97] = Some [7, 8, 9]
     \<and> data \<noteq> []"
proof -
  obtain L w1 m2 where s: "session_ok L m2 [[97] \<mapsto> w1] [[97] \<mapsto> [7, 8, 9]]" "unat (writable_file_size w1) = 3"
    "durable L m2 = [[0x2F] \<mapsto> [], [97] \<mapsto> [7, 8, 9]]" by (rule sample_appended)
  let ?data = "replicate (4096 * unat (lay_alloc_roots_tail_lba L) + 1) (0 :: byte)"
  have "addressable L" by (rule fs_liveD(3) [OF session_okD(1) [OF s(1)]])
  moreover have "mount_inv posix_ops posix_inv L m2" by (rule posix.fsokD(1) [OF fs_liveD(1) [OF session_okD(1) [OF s(1)]]])
  ultimately have "unat (lay_alloc_roots_tail_lba L) \<le> 2 ^ 32"
    using mount_inv_geometry(11) [of posix_ops posix_inv L m2] by (simp add: addressable_def layout_tiles_def)
  then have b: "unat (writable_file_size w1) + length ?data < 2 ^ 63" using s(2) by simp
  obtain st w' m' where ap: "writable_append m2 w1 ?data 5 = (st, w', m')" by (rule prod_cases3)
  have "st = IOStatus_OK" "durable L m' = durable L m2"
    using append_short_reported_ok [OF s(1) _ _ _ b ap, of "[97]"] s(2) by auto
  then show ?thesis using ap s(3) by (intro exI [of _ L] exI [of _ m2] exI [of _ w1] exI [of _ ?data] exI [of _ w'] exI [of _ m']) auto
qed

lemma session_file_size:
  assumes "session_ok L m W P" and "name_ok path" and "get_file_size m path t = (r, m')"
  shows "session_ok L m' W P" and "durable L m' = durable L m"
    and "r = (case durable L m (c_str (basename path)) of None \<Rightarrow> Inl IOStatus_NotFound | Some bs \<Rightarrow> Inr (of_nat (length bs)))"
proof -
  define name where "name = c_str (basename path)"
  have len: "length name < NEBULA_DIR_NAME_MAX" using assms(2) by (simp add: name_ok_def name_def)
  obtain x m1 where op: "nebula_fs_open m name NEBULA_O_RDONLY = (x, m1)" by (rule prod.exhaust)
  note o = session_open [OF assms(1) len rdonly_flags(2) op]
  have "m' = m1 \<and> r = (case durable L m name of None \<Rightarrow> Inl IOStatus_NotFound | Some bs \<Rightarrow> Inr (of_nat (length bs)))"
  proof (cases "durable L m name")
    case None
    then show ?thesis using o(3) assms(3) op by (simp add: get_file_size_def name_def)
  next
    case (Some bs)
    obtain f n where f: "x = Inr f" "handle_for (posix.mdisk m1) L n f"
      "bs = file_bytes (posix.mdisk m1) (f_inode f) 0 (unat (ino_size_bytes (f_inode f)))" using o(4) [OF Some] by blast
    have "\<not> f_dirty f" using open_clean op f(1) by blast
    moreover have "length bs = unat (ino_size_bytes (f_inode f))" using arg_cong [OF f(3), of length] by simp
    ultimately show ?thesis using Some op f(1) assms(3) by (simp add: get_file_size_def name_def close_clean nebula_fs_file_size_def)
  qed
  then show "session_ok L m' W P" "durable L m' = durable L m"
    and "r = (case durable L m (c_str (basename path)) of None \<Rightarrow> Inl IOStatus_NotFound | Some bs \<Rightarrow> Inr (of_nat (length bs)))"
    using o(1,2) by (simp_all add: name_def)
qed

lemma session_random_read:
  assumes "session_ok L m W P" and "name_ok path" and "durable L m (c_str (basename path)) = Some bs"
  obtains f m1 where "new_random_access_file m path = (Inr f, m1)" and "session_ok L m1 W P" and "durable L m1 = durable L m"
    and "\<And>off n t r f' m2. random_access_read m1 f off n t = (r, f', m2) \<Longrightarrow>
           r = Inr (take (unat n) (drop (unat off) bs)) \<and> session_ok L m2 W P \<and> durable L m2 = durable L m"
proof -
  define name where "name = c_str (basename path)"
  have len: "length name < NEBULA_DIR_NAME_MAX" using assms(2) by (simp add: name_ok_def name_def)
  have bs: "durable L m name = Some bs" using assms(3) by (simp add: name_def)
  obtain x m1 where op: "nebula_fs_open m name NEBULA_O_RDONLY = (x, m1)" by (rule prod.exhaust)
  note o = session_open [OF assms(1) len rdonly_flags(2) op]
  obtain f n where f: "x = Inr f" "posix.mdir L m1 name = Some n" "handle_for (posix.mdisk m1) L n f" "f_flags f = NEBULA_O_RDONLY"
    "bs = file_bytes (posix.mdisk m1) (f_inode f) 0 (unat (ino_size_bytes (f_inode f)))" using o(4) [OF bs] by blast
  have sz: "unat (ino_size_bytes (f_inode f)) = length bs" using arg_cong [OF f(5), of length] by simp
  show ?thesis
  proof (rule that [of f m1])
    fix off n' t r f' m2
    assume rd: "random_access_read m1 f off n' t = (r, f', m2)"
    show "r = Inr (take (unat n') (drop (unat off) bs)) \<and> session_ok L m2 W P \<and> durable L m2 = durable L m"
    proof (cases "off \<ge> nebula_fs_file_size f")
      case True
      then have "drop (unat off) bs = []" using sz by (simp add: nebula_fs_file_size_def word_le_nat_alt)
      then show ?thesis using True rd o(1,2) by (simp add: random_access_read_def Let_def)
    next
      case False
      define k where "k = min n' (nebula_fs_file_size f - off)"
      have lt: "off < ino_size_bytes (f_inode f)" using False by (simp add: nebula_fs_file_size_def)
      have "unat (ino_size_bytes (f_inode f) - off) = length bs - unat off"
        using unat_sub [of off "ino_size_bytes (f_inode f)"] lt sz by simp
      then have k: "unat k = min (unat n') (length bs - unat off)"
        unfolding k_def by (simp add: nebula_fs_file_size_def min_def word_le_nat_alt)
      have "length bs < 2 ^ 64" using sz unsigned_less [of "ino_size_bytes (f_inode f)", where ?'a = nat] by simp
      moreover have "unat off \<le> length bs" using lt sz by (simp add: word_less_nat_alt)
      ultimately have fit: "unat off + unat k < 2 ^ 64" unfolding k by linarith
      obtain y g m3 where r3: "nebula_fs_read m1 f off k t = (y, g, m3)" by (rule prod_cases3)
      have fl: "f_flags f AND NEBULA_O_RDONLY \<noteq> 0" using f(4) rdonly_flags(1) by simp
      note s = session_read [OF o(1) _ f(2,3) fl fit r3, of bs]
      have "durable L m1 name = Some bs" using o(2) bs by simp
      moreover have "take (unat k) (drop (unat off) bs) = take (unat n') (drop (unat off) bs)" unfolding k by (simp add: min_def)
      ultimately show ?thesis using s False rd r3 o(2) by (simp add: random_access_read_def Let_def k_def)
    qed
  qed (use op f(1) o(1,2) in \<open>simp_all add: new_random_access_file_def name_def\<close>)
qed

text \<open>
  Property C18.  Queries.  On a session, \<open>FileExists\<close> tells exactly whether the name is bound, \<open>GetFileSize\<close> returns the
  length of what a reader finds or \<open>NotFound\<close>, and a positional read returns exactly the requested range, cut
  at the end of the file; none of them changes a file or disturbs an open writer.
\<close>

theorem rocksdb_queries_exact:
  assumes "session_ok L m W P" and "name_ok path" and "file_exists m path = (s, m1)" and "get_file_size m1 path t = (r, m2)"
    and "new_random_access_file m2 path = (q, m3)"
  shows "s = (if durable L m (c_str (basename path)) = None then IOStatus_NotFound else IOStatus_OK)
    \<and> r = (case durable L m (c_str (basename path)) of None \<Rightarrow> Inl IOStatus_NotFound | Some bs \<Rightarrow> Inr (of_nat (length bs)))
    \<and> session_ok L m3 W P \<and> durable L m3 = durable L m
    \<and> (\<forall>bs. durable L m (c_str (basename path)) = Some bs \<longrightarrow> (\<exists>f. q = Inr f \<and>
         (\<forall>off n t' y f' m4. random_access_read m3 f off n t' = (y, f', m4) \<longrightarrow>
            y = Inr (take (unat n) (drop (unat off) bs)) \<and> session_ok L m4 W P \<and> durable L m4 = durable L m)))"
proof -
  define name where "name = c_str (basename path)"
  have len: "length name < NEBULA_DIR_NAME_MAX" using assms(2) by (simp add: name_ok_def name_def)
  obtain x y where lk: "nebula_fs_lookup m name = (x, y)" by (rule prod.exhaust)
  note l = session_lookup [OF assms(1) len lk]
  have y: "y = m1" using lk assms(3) by (simp add: file_exists_def name_def split: sum.splits)
  have s: "s = (if durable L m name = None then IOStatus_NotFound else IOStatus_OK)"
    using l(3) lk assms(3) by (auto simp: file_exists_def name_def)
  note g = session_file_size [OF l(1) [unfolded y] assms(2,4)]
  have m2: "durable L m2 = durable L m" using g(2) l(2) y by simp
  obtain z m5 where op: "nebula_fs_open m2 name NEBULA_O_RDONLY = (z, m5)" by (rule prod.exhaust)
  note o = session_open [OF g(1) len rdonly_flags(2) op]
  have m5: "m5 = m3" using op assms(5) by (simp add: new_random_access_file_def name_def split: sum.splits)
  have "\<exists>f. q = Inr f \<and> (\<forall>off n t' y f' m4. random_access_read m3 f off n t' = (y, f', m4) \<longrightarrow>
            y = Inr (take (unat n) (drop (unat off) bs)) \<and> session_ok L m4 W P \<and> durable L m4 = durable L m)"
    if bs: "durable L m name = Some bs" for bs
    by (rule session_random_read [OF g(1) assms(2), of bs]) (use bs m2 assms(5) in \<open>auto simp: name_def\<close>)
  then show ?thesis using s g(3) l(2) y o(1,2) m5 m2 by (simp add: name_def)
qed

theorem rocksdb_queries_exact_witness:
  "\<exists>(m :: posix_dev nebula_mount) m1 m2 m3 f f' m4. file_exists m sample_rdb_path = (IOStatus_OK, m1) \<and> get_file_size m1 sample_rdb_path 3 = (Inr 3, m2)
     \<and> new_random_access_file m2 sample_rdb_path = (Inr f, m3) \<and> random_access_read m3 f 1 100 4 = (Inr [8, 9], f', m4)"
proof -
  obtain L w1 m where s: "session_ok L m [[97] \<mapsto> w1] [[97] \<mapsto> [7, 8, 9]]"
    "durable L m = [[0x2F] \<mapsto> [], [97] \<mapsto> [7, 8, 9]]" by (rule sample_appended)
  obtain x m1 where a: "file_exists m sample_rdb_path = (x, m1)" by (rule prod.exhaust)
  obtain r m2 where b: "get_file_size m1 sample_rdb_path 3 = (r, m2)" by (rule prod.exhaust)
  obtain q m3 where c: "new_random_access_file m2 sample_rdb_path = (q, m3)" by (rule prod.exhaust)
  note t = rocksdb_queries_exact [OF s(1) sample_rdb_name(2) a b c]
  have d: "durable L m (c_str (basename sample_rdb_path)) = Some [7, 8, 9]" using s(2) by (simp add: sample_rdb_name)
  obtain f where f: "q = Inr f" "\<And>off n t' y f' m4. random_access_read m3 f off n t' = (y, f', m4) \<Longrightarrow> y = Inr (take (unat n) (drop (unat off) [7, 8, 9]))"
    using t d by blast
  obtain y f' m4 where e: "random_access_read m3 f 1 100 4 = (y, f', m4)" by (rule prod_cases3)
  have "x = IOStatus_OK" "r = Inr 3" using t d by simp_all
  moreover have "y = Inr [8, 9]" using f(2) [OF e] by simp
  ultimately show ?thesis using a b c e f(1) by blast
qed

end
