(* ===== verification/Nebula_Label.thy ===== *)
theory Nebula_Label
  imports Nebula_Mkfs
begin

unbundle bit_operations_syntax

text \<open>
  \<open>tools/nebula_label.c\<close>: reading and rewriting the label of a device, that is the MBR and with it the
  identifier in the two superblocks.  The printed form of an identifier parses back to it; relabelling a
  sound device keeps it mountable, and relabelling one that runs on its tail superblock does not.
\<close>

section \<open>Parsing an identifier\<close>

definition hex_value :: "char \<Rightarrow> nat option" where
  "hex_value c =
     (let n = (of_char c :: nat) in
      if c_isdigit c then Some (n - 48)
      else if 97 \<le> n \<and> n \<le> 102 then Some (n - 97 + 10)
      else if 65 \<le> n \<and> n \<le> 70 then Some (n - 65 + 10)
      else None)"

text \<open>The loop; the end of the list is the terminating zero of the C string.\<close>

fun parse_uuid_loop :: "string \<Rightarrow> byte list \<Rightarrow> byte list res" where
  "parse_uuid_loop [] tmp = (if length tmp \<noteq> 16 then Inl EINVAL else Inr tmp)"
| "parse_uuid_loop (c # p) tmp =
     (if length tmp < 16 then
        if c = CHR ''-'' then parse_uuid_loop p tmp
        else
          (case hex_value c of
             None \<Rightarrow> Inl EINVAL
           | Some hi \<Rightarrow>
               (case p of
                  [] \<Rightarrow> Inl EINVAL
                | c' # p' \<Rightarrow>
                    (case hex_value c' of
                       None \<Rightarrow> Inl EINVAL
                     | Some lo \<Rightarrow> parse_uuid_loop p' (tmp @ [push_bit 4 (of_nat hi) OR of_nat lo]))))
      else if length tmp \<noteq> 16 then Inl EINVAL
      else Inr tmp)"

definition parse_uuid :: "string \<Rightarrow> byte list res" where
  "parse_uuid s = parse_uuid_loop s []"

section \<open>The commands\<close>

text \<open>\<open>read\<close>, on an open device: the exit status and the label it prints.\<close>

definition label_read :: "'d nebula_io \<Rightarrow> nat \<times> nebula_mbr option \<times> 'd nebula_io" where
  "label_read io =
     (case nebula_mbr_read io of
        (Inl _, io1) \<Rightarrow> (1, None, io1)
      | (Inr mbr, io1) \<Rightarrow> (0, Some mbr, io1))"

definition sb_relabel :: "nebula_superblock \<Rightarrow> byte list \<Rightarrow> nebula_superblock" where
  "sb_relabel sb uuid =
     (let sb1 = sb\<lparr>sb_device_uuid := uuid, sb_checksum := 0\<rparr>
      in sb1\<lparr>sb_checksum := nebula_superblock_checksum sb1\<rparr>)"

text \<open>The two superblocks follow the MBR when the head is valid; both are written even if the first write fails.\<close>

definition label_sync :: "'d nebula_io \<Rightarrow> byte list \<Rightarrow> nat \<times> 'd nebula_io" where
  "label_sync io uuid =
     (case nebula_superblock_read io 1 of
        (Inl _, io1) \<Rightarrow> (0, io1)
      | (Inr sb, io1) \<Rightarrow>
          let sb1 = sb_relabel sb uuid in
          (case nebula_io_write io1 1 1 (enc_sb sb1) of
             (w1, io2) \<Rightarrow>
               (case nebula_io_write io2 (sb_sb_tail_lba sb1) 1 (enc_sb sb1) of
                  (w2, io3) \<Rightarrow> (if w1 \<noteq> Inr () \<or> w2 \<noteq> Inr () then 1 else 0, io3))))"

text \<open>
  The identifier: a fresh one without an argument or for \<open>auto\<close>, else the argument.  \<open>generated\<close> is the
  outcome of \<open>nebula_uuid_generate\<close>, \<open>None\<close> if it does not return; \<open>Inl\<close> is the exit status.
\<close>

definition label_uuid :: "string option \<Rightarrow> byte list res option \<Rightarrow> (nat + byte list) option" where
  "label_uuid uuid_arg generated =
     (if uuid_arg = None \<or> uuid_arg = Some ''auto'' then
        map_option (\<lambda>r. case r of Inl _ \<Rightarrow> Inl 1 | Inr u \<Rightarrow> Inr u) generated
      else
        (case parse_uuid (the uuid_arg) of
           Inl _ \<Rightarrow> Some (Inl 2)
         | Inr u \<Rightarrow> Some (Inr u)))"

definition label_write ::
    "'d nebula_io \<Rightarrow> string option \<Rightarrow> u64 \<Rightarrow> byte list res option \<Rightarrow> (nat \<times> 'd nebula_io) option" where
  "label_write io uuid_arg capacity_override generated =
     (let cap_blocks = (if capacity_override > 0 then capacity_override else nebula_io_capacity_blocks io) in
      case label_uuid uuid_arg generated of
        None \<Rightarrow> None
      | Some (Inl status) \<Rightarrow> Some (status, io)
      | Some (Inr uuid) \<Rightarrow>
          (case nebula_mbr_write io uuid cap_blocks of
             (Inl _, io1) \<Rightarrow> Some (1, io1)
           | (Inr _, io1) \<Rightarrow>
               (case label_sync io1 uuid of
                  (status, io2) \<Rightarrow>
                    if status \<noteq> 0 then Some (status, io2)
                    else Some (0, snd (nebula_io_flush io2)))))"

section \<open>The command line\<close>

record label_opts =
  lo_path :: "string option"
  lo_uuid :: "string option"
  lo_cap :: u64

fun label_args :: "string list \<Rightarrow> label_opts \<Rightarrow> nat + label_opts" where
  "label_args [] opts = Inr opts"
| "label_args (a # rest) opts =
     (if a = ''--path'' \<and> rest \<noteq> [] then label_args (tl rest) (opts\<lparr>lo_path := Some (hd rest)\<rparr>)
      else if a = ''--uuid'' \<and> rest \<noteq> [] then label_args (tl rest) (opts\<lparr>lo_uuid := Some (hd rest)\<rparr>)
      else if a = ''--capacity-blocks'' \<and> rest \<noteq> [] then
        label_args (tl rest) (opts\<lparr>lo_cap := fst (strtoull (hd rest))\<rparr>)
      else Inl 2)"

text \<open>
  \<open>main\<close>: the exit status, the label printed, and the device as it is left, if it was opened.
\<close>

definition nebula_label_main ::
    "string list \<Rightarrow> (string \<Rightarrow> posix_dev res) \<Rightarrow> errno option \<Rightarrow> byte list res option
     \<Rightarrow> (nat \<times> nebula_mbr option \<times> posix_dev nebula_io option) option" where
  "nebula_label_main argv opened stated generated =
     (case argv of
        [] \<Rightarrow> Some (2, None, None)
      | sub # args \<Rightarrow>
          (case label_args args \<lparr>lo_path = None, lo_uuid = None, lo_cap = 0\<rparr> of
             Inl status \<Rightarrow> Some (status, None, None)
           | Inr opts \<Rightarrow>
               (case lo_path opts of
                  None \<Rightarrow> Some (2, None, None)
                | Some path \<Rightarrow>
                    if sub = ''read'' \<or> sub = ''write'' then
                      (case nebula_io_open (opened path) False 0 None stated of
                         Inl _ \<Rightarrow> Some (1, None, None)
                       | Inr io \<Rightarrow>
                           if sub = ''read'' then
                             (case label_read io of (status, mbr, io1) \<Rightarrow> Some (status, mbr, Some io1))
                           else
                             map_option (\<lambda>(status, io1). (status, None, Some io1))
                               (label_write io (lo_uuid opts) (lo_cap opts) generated))
                    else Some (2, None, None))))"

section \<open>Parsing what was printed\<close>

lemma hex_value_digit: "n < 16 \<Longrightarrow> hex_value (hex_digit n) = Some n" "n < 16 \<Longrightarrow> hex_digit n \<noteq> CHR ''-''"
  by (auto simp: hex_digit_def hex_value_def c_isdigit_def less_Suc_eq numeral_eq_Suc)

lemma nibbles: "push_bit 4 (of_nat (unat b div 16)) OR of_nat (unat b mod 16) = (b :: byte)"
proof -
  have d: "unat b div 16 = unat (drop_bit 4 b)" by (simp add: unat_drop_bit_eq drop_bit_nat_def)
  have m: "unat b mod 16 = unat (take_bit 4 b)" by (simp add: unsigned_take_bit_eq take_bit_nat_def)
  have "of_nat (unat b div 16) = drop_bit 4 b" "of_nat (unat b mod 16) = take_bit 4 b"
    unfolding d m by simp_all
  moreover have "push_bit 4 (drop_bit 4 b) OR take_bit 4 b = b" by (rule bit_word_eqI) (auto simp: bit_simps)
  ultimately show ?thesis by simp
qed

lemma parse_hex2:
  assumes "length tmp < 16"
  shows "parse_uuid_loop (hex2 b @ p) tmp = parse_uuid_loop p (tmp @ [b])"
proof -
  have "unat b div 16 < 16" using unsigned_less [of b, where ?'a = nat] by simp
  then show ?thesis using assms hex_value_digit [of "unat b div 16"] hex_value_digit [of "unat b mod 16"] by (simp add: hex2_def nibbles)
qed

lemma parse_dash: "length tmp < 16 \<Longrightarrow> parse_uuid_loop (''-'' @ p) tmp = parse_uuid_loop p tmp"
  by simp

lemma parse_uuid_done: "length tmp = 16 \<Longrightarrow> parse_uuid_loop p tmp = Inr tmp"
  by (cases p) simp_all

section \<open>Relabelling\<close>

lemma sb_relabel_build: "sb_relabel (sb_build u L) v = sb_build v L"
  by (simp add: sb_relabel_def sb_build_def Let_def nebula_superblock_checksum_def)

definition relabelled :: "nebula_layout \<Rightarrow> byte list \<Rightarrow> (nat \<Rightarrow> byte list) \<Rightarrow> nat \<Rightarrow> byte list" where
  "relabelled L v d = d(0 := enc_mbr (mbr_build v (lay_capacity_blocks L)), 1 := enc_sb (sb_build v L),
     unat (lay_sb_tail_lba L) := enc_sb (sb_build v L))"

context block_backend
begin

lemma label_mbr_up:
  assumes "okio io" and "up io" and "0 < ncap io" and "length v = 16"
  obtains io1 where "nebula_mbr_write io v cap = (Inr (), io1)" and "next_io io io1" and "disk io1 = (disk io)(0 := enc_mbr (mbr_build v cap))"
proof -
  obtain r io1 where w: "nebula_mbr_write io v cap = (r, io1)" by (rule prod.exhaust)
  note w' = w [unfolded nebula_mbr_write_def NEBULA_LBA_MBR_def]
  have r: "r = Inr ()" using io_write_up [OF assms(1,2) _ w'] assms(3) by simp
  have "length (enc_mbr (mbr_build v cap)) = 4096" using assms(4) by (intro mbr.enc_length mbr_build_wf)
  then show ?thesis using that w r io_write_frame(1) [OF assms(1) w'] io_write1_ok(2) [OF assms(1) w' [unfolded r]] by simp
qed

lemma label_sync_up:
  assumes "okio io" and "up io" and "length u = 16" and "length v = 16" and "disk io 1 = enc_sb (sb_build u L)"
    and "1 < ncap io" and "unat (lay_sb_tail_lba L) < ncap io"
  obtains io1 where "label_sync io v = (0, io1)" and "next_io io io1"
    and "disk io1 = (disk io)(1 := enc_sb (sb_build v L), unat (lay_sb_tail_lba L) := enc_sb (sb_build v L))"
proof -
  let ?b = "enc_sb (sb_build v L)"
  have len: "length ?b = 4096" using assms(4) by (intro sb.enc_length sb_build_wf)
  obtain io1 where r1: "nebula_superblock_read io 1 = (Inr (sb_build u L), io1)"
    using io_load_up [of io 1 sb_validate] assms sb_validate_build [OF assms(3)] by (auto simp: nebula_superblock_read_def)
  note f1 = io_load_frame [OF assms(1) r1 [unfolded nebula_superblock_read_def]]
  note n1 = next_io_ok [OF f1(1)] next_io_up [OF f1(1) assms(2)] next_io_cap [OF f1(1)]
  obtain a io2 where w2: "nebula_io_write io1 1 1 ?b = (a, io2)" by (rule prod.exhaust)
  have a: "a = Inr ()" using io_write_up [OF n1(1,2) _ w2] n1(3) assms(6) by simp
  note f2 = io_write_frame(1) [OF n1(1) w2] and d2 = io_write1_ok(2) [OF n1(1) w2 [unfolded a] len]
  note n2 = next_io_ok [OF f2] next_io_up [OF f2 n1(2)] next_io_cap [OF f2]
  obtain c io3 where w3: "nebula_io_write io2 (lay_sb_tail_lba L) 1 ?b = (c, io3)" by (rule prod.exhaust)
  have c: "c = Inr ()" using io_write_up [OF n2(1,2) _ w3] n1(3) n2(3) assms(7) by simp
  note f3 = io_write_frame(1) [OF n2(1) w3] and d3 = io_write1_ok(2) [OF n2(1) w3 [unfolded c] len]
  have "label_sync io v = (0, io3)" using r1 w2 w3 a c by (simp add: label_sync_def sb_relabel_build Let_def)
  moreover have "next_io io io3" using f1(1) f2 f3 next_io_trans by metis
  ultimately show ?thesis using that d3 d2 f1(2) by simp
qed

text \<open>A sound device: the boot structures carry the new identifier, and no other block changes.\<close>

lemma label_write_sound:
  assumes "okio io" and "up io" and "layout_tiles L" and "lay_capacity_blocks L = io_capacity_blocks io"
    and "length u = 16" and "disk io 1 = enc_sb (sb_build u L)"
    and "label_uuid arg gen = Some (Inr v)" and "length v = 16"
  obtains io' where "label_write io arg 0 gen = Some (0, io')" and "next_io io io'" and "disk io' = relabelled L v (disk io)"
proof -
  have lay: "unat (lay_sb_tail_lba L) + 1 = ncap io" "1 < ncap io" using assms(3,4) by (auto simp: layout_tiles_def)
  obtain io1 where m: "nebula_mbr_write io v (io_capacity_blocks io) = (Inr (), io1)" "next_io io io1"
      "disk io1 = (disk io)(0 := enc_mbr (mbr_build v (io_capacity_blocks io)))"
    by (rule label_mbr_up [OF assms(1,2) _ assms(8)]) (use lay in auto)
  note n1 = next_io_ok [OF m(2)] next_io_up [OF m(2) assms(2)] next_io_cap [OF m(2)]
  obtain io2 where s: "label_sync io1 v = (0, io2)" "next_io io1 io2"
      "disk io2 = (disk io1)(1 := enc_sb (sb_build v L), unat (lay_sb_tail_lba L) := enc_sb (sb_build v L))"
    by (rule label_sync_up [OF n1(1,2) assms(5,8), of L]) (use m(3) n1(3) lay assms(6) in auto)
  obtain r io3 where fl: "nebula_io_flush io2 = (r, io3)" by (rule prod.exhaust)
  note f = io_flush_frame [OF next_io_ok [OF s(2)] fl]
  have "label_write io arg 0 gen = Some (0, io3)"
    using assms(7) m(1) s(1) fl by (simp add: label_write_def nebula_io_capacity_blocks_def)
  moreover have "next_io io io3" using m(2) s(2) f(1) next_io_trans by metis
  moreover have "disk io3 = relabelled L v (disk io)" using f(2) s(3) m(3) assms(4) by (simp add: relabelled_def)
  ultimately show ?thesis using that by blast
qed

text \<open>With an invalid head superblock only the MBR is written.\<close>

lemma label_write_damaged:
  assumes "okio io" and "up io" and "1 < ncap io" and "sb_validate (disk io 1) = Inl e"
    and "label_uuid arg gen = Some (Inr v)" and "length v = 16"
  obtains io' where "label_write io arg 0 gen = Some (0, io')" and "next_io io io'"
    and "disk io' = (disk io)(0 := enc_mbr (mbr_build v (io_capacity_blocks io)))"
proof -
  obtain io1 where m: "nebula_mbr_write io v (io_capacity_blocks io) = (Inr (), io1)" "next_io io io1"
      "disk io1 = (disk io)(0 := enc_mbr (mbr_build v (io_capacity_blocks io)))"
    by (rule label_mbr_up [OF assms(1,2) _ assms(6)]) (use assms(3) in auto)
  note n1 = next_io_ok [OF m(2)] next_io_up [OF m(2) assms(2)] next_io_cap [OF m(2)]
  obtain io2 where r2: "nebula_superblock_read io1 1 = (Inl e, io2)"
    using io_load_up [of io1 1 sb_validate] n1 m(3) assms(3,4) by (auto simp: nebula_superblock_read_def)
  note f2 = io_load_frame [OF n1(1) r2 [unfolded nebula_superblock_read_def]]
  obtain r io3 where fl: "nebula_io_flush io2 = (r, io3)" by (rule prod.exhaust)
  note f3 = io_flush_frame [OF next_io_ok [OF f2(1)] fl]
  have "label_write io arg 0 gen = Some (0, io3)"
    using assms(5) m(1) r2 fl by (simp add: label_write_def label_sync_def nebula_io_capacity_blocks_def)
  moreover have "next_io io io3" using m(2) f2(1) f3(1) next_io_trans by metis
  ultimately show ?thesis using that f3(2) f2(2) m(3) by simp
qed

lemma mount_uuid_mismatch:
  assumes "okio io" and "up io" and "layout_tiles L" and "lay_capacity_blocks L = io_capacity_blocks io"
    and "length u = 16" and "length v = 16" and "u \<noteq> v" and "disk io 0 = enc_mbr (mbr_build v cap)"
    and "sb_validate (disk io 1) = Inl e" and "disk io (unat (lay_sb_tail_lba L)) = enc_sb (sb_build u L)"
  shows "fst (nebula_mount_do io) = Inl EIO"
proof -
  have lay: "unat (lay_sb_tail_lba L) + 1 = ncap io" "1 < ncap io" using assms(3,4) by (auto simp: layout_tiles_def)
  have "mbr_validate (disk io 0) = Inr (mbr_build v cap)" using assms(6,8) by (simp add: mbr_validate_build)
  then obtain io1 where r1: "nebula_mbr_read io = (Inr (mbr_build v cap), io1)"
    using io_load_up [of io 0 mbr_validate] assms(1,2) lay(2) by (auto simp: nebula_mbr_read_def NEBULA_LBA_MBR_def)
  note f1 = io_load_frame [OF assms(1) r1 [unfolded nebula_mbr_read_def]]
  note n1 = next_io_ok [OF f1(1)] next_io_up [OF f1(1) assms(2)] next_io_cap [OF f1(1)]
  obtain io2 where r2: "nebula_superblock_read io1 1 = (Inl e, io2)"
    using io_load_up [of io1 1 sb_validate] n1 f1(2) lay assms(9) by (auto simp: nebula_superblock_read_def)
  note f2 = io_load_frame [OF n1(1) r2 [unfolded nebula_superblock_read_def]]
  note n2 = next_io_ok [OF f2(1)] next_io_up [OF f2(1) n1(2)] next_io_cap [OF f2(1)]
  have tail: "unat (io_capacity_blocks io2 - 1) = unat (lay_sb_tail_lba L)" using lay n1(3) n2(3) by (simp add: unat_minus_le)
  obtain io3 where r3: "nebula_superblock_read io2 (io_capacity_blocks io2 - 1) = (Inr (sb_build u L), io3)"
    using io_load_up [of io2 "io_capacity_blocks io2 - 1" sb_validate] n1 n2 f1(2) f2(2) lay tail assms(10) sb_validate_build [OF assms(5)]
    by (auto simp: nebula_superblock_read_def)
  have "mbr_superblock_head_lba (mbr_build v cap) = 1" "mbr_device_uuid (mbr_build v cap) = v" "sb_device_uuid (sb_build u L) = u"
    by (simp_all add: mbr_build_def sb_build_def Let_def NEBULA_LBA_SB_HEAD_def)
  then show ?thesis using r1 r2 r3 assms(7) by (simp add: nebula_mount_do_def mount_superblock_def nebula_io_capacity_blocks_def)
qed

end

lemma boot_mounts:
  assumes "io_ok posix_ops posix_inv io" and "posix_healthy (io_dev io)" and "layout_tiles L"
    and "lay_capacity_blocks L = io_capacity_blocks io" and "unat (io_capacity_blocks io) < 2 ^ 46"
    and "boot_written L u (posix_blk (io_dev io))" and "ub_validate (posix_blk (io_dev io) 2) = Inr ub"
    and "tail_clear (bitmap_region (posix_blk (io_dev io)) L) (unat (lay_capacity_blocks L))"
  obtains m where "nebula_mount_open_io io = (Inr m, m_io m)" and "mount_inv posix_ops posix_inv L m" and "bitmap_synced posix_blk L m"
    and "m_sb m = sb_build u L" and "posix_blk (io_dev (m_io m)) = posix_blk (io_dev io)"
proof -
  have "valid_slot (posix_blk (io_dev io)) 2 0 = Some ub" using assms(7) by (simp add: valid_slot_def)
  then have "scan_slots (valid_slot (posix_blk (io_dev io)) 2) 128 \<noteq> None"
    by (subst scan_slots_None) (metis option.distinct(1) zero_less_numeral)
  then obtain s ub' where "scan_slots (valid_slot (posix_blk (io_dev io)) 2) 128 = Some (s, ub')" by auto
  from posix.mount_do_up [OF assms(1-6) this assms(8)] that show ?thesis unfolding nebula_mount_open_io_def by blast
qed

lemma relabelled_boot:
  assumes "layout_tiles L" and "length v = 16"
  shows "boot_written L v (relabelled L v d)" and "relabelled L v d 2 = d 2" and "bitmap_region (relabelled L v d) L = bitmap_region d L"
proof -
  have lay: "unat (lay_bitmap_lba L) = 131" "131 + unat (lay_bitmap_block_count L) < unat (lay_sb_tail_lba L)"
    using assms(1) by (auto simp: layout_tiles_def)
  show "boot_written L v (relabelled L v d)" "relabelled L v d 2 = d 2"
    using lay assms(2) by (auto simp: boot_written_def relabelled_def)
  show "bitmap_region (relabelled L v d) L = bitmap_region d L"
    unfolding bitmap_region_def by (rule arg_cong [where f = concat], rule map_cong) (use lay in \<open>auto simp: relabelled_def\<close>)
qed

section \<open>Properties\<close>

text \<open>
  Round trip of identifiers: the printed form of 16 bytes, whatever follows it, parses to these bytes.
\<close>

theorem uuid_parse_format:
  assumes "length u = 16"
  shows "parse_uuid (nebula_uuid_format u @ rest) = Inr u"
proof -
  obtain b0 b1 b2 b3 b4 b5 b6 b7 b8 b9 b10 b11 b12 b13 b14 b15 where u: "u = [b0, b1, b2, b3, b4, b5, b6, b7, b8, b9, b10, b11, b12, b13, b14, b15]"
    using assms by (auto simp: length_Suc_conv numeral_eq_Suc)
  show ?thesis unfolding u parse_uuid_def nebula_uuid_format_def append_assoc
    by (simp add: parse_hex2 parse_dash parse_uuid_done del: parse_uuid_loop.simps append.append_Cons)
qed

theorem uuid_parse_format_witness:
  "parse_uuid (nebula_uuid_format (map of_nat [0..<16]) @ '' '') = Inr (map of_nat [0..<16])"
  by (rule uuid_parse_format) simp

text \<open>
  Property C20.  Relabelling.  On a sound device without faults the tool exits with 0, the device then mounts with the new
  identifier in its superblock and the same bitmap, and no block other than the MBR and the two superblocks
  has changed.
\<close>

theorem label_write_keeps_device:
  assumes "io_ok posix_ops posix_inv io" and "posix_healthy (io_dev io)" and "layout_tiles L"
    and "lay_capacity_blocks L = io_capacity_blocks io" and "unat (io_capacity_blocks io) < 2 ^ 46" and "length u = 16"
    and "posix_blk (io_dev io) 1 = enc_sb (sb_build u L)" and "ub_validate (posix_blk (io_dev io) 2) = Inr ub"
    and "tail_clear (bitmap_region (posix_blk (io_dev io)) L) (unat (lay_capacity_blocks L))"
    and "label_uuid arg gen = Some (Inr v)" and "length v = 16"
  shows "\<exists>io' m. label_write io arg 0 gen = Some (0, io') \<and> nebula_mount_open_io io' = (Inr m, m_io m)
    \<and> mount_inv posix_ops posix_inv L m \<and> m_sb m = sb_build v L \<and> hb_l0_bits (m_bitmap m) = bitmap_region (posix_blk (io_dev io)) L
    \<and> (\<forall>i. i \<notin> {0, 1, unat (lay_sb_tail_lba L)} \<longrightarrow> posix_blk (io_dev io') i = posix_blk (io_dev io) i)"
proof -
  obtain io' where w: "label_write io arg 0 gen = Some (0, io')" "posix.next_io io io'"
      "posix_blk (io_dev io') = relabelled L v (posix_blk (io_dev io))"
    by (rule posix.label_write_sound [OF assms(1-4,6,7,10,11)])
  note n = posix.next_io_ok [OF w(2)] posix.next_io_up [OF w(2) assms(2)] posix.next_io_cap [OF w(2)]
  note b = relabelled_boot [OF assms(3,11), of "posix_blk (io_dev io)"]
  obtain m where "nebula_mount_open_io io' = (Inr m, m_io m)" "mount_inv posix_ops posix_inv L m" "bitmap_synced posix_blk L m"
      "m_sb m = sb_build v L" "posix_blk (io_dev (m_io m)) = posix_blk (io_dev io')"
    by (rule boot_mounts [OF n(1,2) assms(3), of v ub]) (use w(3) n(3) b assms(4,5,8,9) in auto)
  then show ?thesis using w b(3) by (intro exI [of _ io'] exI [of _ m]) (simp add: bitmap_synced_def relabelled_def)
qed

lemma label_uuid_parsed: "parse_uuid s = Inr v \<Longrightarrow> s \<noteq> ''auto'' \<Longrightarrow> label_uuid (Some s) gen = Some (Inr v)"
  by (simp add: label_uuid_def)

lemma sample_label:
  "label_uuid (Some ''00000000-0000-0000-0000-000000000001'') None = Some (Inr (zeros 15 @ [1]))"
  by (rule label_uuid_parsed) (simp_all add: parse_uuid_def hex_value_def c_isdigit_def numeral_eq_Suc)

theorem label_write_keeps_device_witness:
  "\<exists>L io' m. nebula_layout_compute 65536 = Inr L
     \<and> label_write (image_io 65536 (boot_image L (zeros 16))) (Some ''00000000-0000-0000-0000-000000000001'') 0 None = Some (0, io')
     \<and> nebula_mount_open_io io' = (Inr m, m_io m) \<and> m_sb m = sb_build (zeros 15 @ [1]) L"
proof -
  obtain L where L: "nebula_layout_compute 65536 = Inr L" "layout_tiles L" "lay_capacity_blocks L = 65536" by (rule sample_layout)
  let ?d = "boot_image L (zeros 16)"
  have bi: "\<And>i. length (?d i) = 4096" "tail_clear (bitmap_region ?d L) (unat (lay_capacity_blocks L))"
    using boot_image_ok [OF L(2), of "zeros 16"] L(3) by simp_all
  note io = image_io_ok [of ?d 65536, OF bi(1)]
  have d: "?d 1 = enc_sb (sb_build (zeros 16) L)" "ub_validate (?d 2) = Inr (ub_build L 0)"
    using L(2) by (auto simp: boot_image_def ub_validate_build layout_tiles_def)
  have "\<exists>io' m. label_write (image_io 65536 ?d) (Some ''00000000-0000-0000-0000-000000000001'') 0 None = Some (0, io')
      \<and> nebula_mount_open_io io' = (Inr m, m_io m) \<and> m_sb m = sb_build (zeros 15 @ [1]) L"
    using label_write_keeps_device [of "image_io 65536 ?d" L "zeros 16", OF _ _ L(2) _ _ _ _ _ _ sample_label] io bi(2) d L(3) by fastforce
  then show ?thesis using L(1) by blast
qed

text \<open>
  Property C21.  Relabelling a device whose head superblock is damaged: it mounts from the tail copy, the tool exits with 0,
  and afterwards no mount succeeds, because the MBR alone carries the new identifier.
\<close>

theorem label_write_strands_device:
  assumes "io_ok posix_ops posix_inv io" and "posix_healthy (io_dev io)" and "layout_tiles L"
    and "lay_capacity_blocks L = io_capacity_blocks io" and "unat (io_capacity_blocks io) < 2 ^ 46" and "length u = 16"
    and "posix_blk (io_dev io) 0 = enc_mbr (mbr_build u (lay_capacity_blocks L))" and "sb_validate (posix_blk (io_dev io) 1) = Inl e"
    and "posix_blk (io_dev io) (unat (lay_sb_tail_lba L)) = enc_sb (sb_build u L)"
    and "ub_validate (posix_blk (io_dev io) 2) = Inr ub"
    and "tail_clear (bitmap_region (posix_blk (io_dev io)) L) (unat (lay_capacity_blocks L))"
    and "label_uuid arg gen = Some (Inr v)" and "length v = 16" and "v \<noteq> u"
  shows "(\<exists>m. nebula_mount_open_io io = (Inr m, m_io m))
    \<and> (\<exists>io'. label_write io arg 0 gen = Some (0, io') \<and> fst (nebula_mount_open_io io') = Inl EIO)"
proof -
  have lay: "1 < unat (lay_sb_tail_lba L)" "1 < unat (io_capacity_blocks io)" using assms(3,4) by (auto simp: layout_tiles_def)
  have "boot_written L u (posix_blk (io_dev io))" using assms(6-9) by (auto simp: boot_written_def)
  then have m: "\<exists>m. nebula_mount_open_io io = (Inr m, m_io m)" using boot_mounts [OF assms(1-5) _ assms(10,11)] by metis
  obtain io' where w: "label_write io arg 0 gen = Some (0, io')" "posix.next_io io io'"
      "posix_blk (io_dev io') = (posix_blk (io_dev io))(0 := enc_mbr (mbr_build v (io_capacity_blocks io)))"
    by (rule posix.label_write_damaged [OF assms(1,2) lay(2) assms(8,12,13)])
  note n = posix.next_io_ok [OF w(2)] posix.next_io_up [OF w(2) assms(2)] posix.next_io_cap [OF w(2)]
  have "fst (nebula_mount_do io') = Inl EIO"
    by (rule posix.mount_uuid_mismatch [OF n(1,2) assms(3) _ assms(6,13), of "io_capacity_blocks io" e]) (use w(3) n(3) lay assms in auto)
  then show ?thesis using m w(1) by (auto simp: nebula_mount_open_io_def)
qed

theorem label_write_strands_device_witness:
  "\<exists>(io :: posix_dev nebula_io) m io'. nebula_mount_open_io io = (Inr m, m_io m)
     \<and> label_write io (Some ''00000000-0000-0000-0000-000000000001'') 0 None = Some (0, io') \<and> fst (nebula_mount_open_io io') = Inl EIO"
proof -
  obtain L where L: "nebula_layout_compute 65536 = Inr L" "layout_tiles L" "lay_capacity_blocks L = 65536" by (rule sample_layout)
  let ?b = "boot_image L (zeros 16)" and ?s = "enc_sb (sb_build (zeros 16) L)"
  let ?d = "?b(1 := ?s[0 := ?s ! 0 + 1])"
  have lay: "unat (lay_sb_tail_lba L) \<noteq> 1" "unat (lay_sb_tail_lba L) \<noteq> 0" "unat (lay_bitmap_lba L) = 131" using L(2) by (auto simp: layout_tiles_def)
  have sl: "length ?s = 4096" by (intro sb.enc_length sb_build_wf) simp
  have bi: "\<And>i. length (?b i) = 4096" "tail_clear (bitmap_region ?b L) (unat (lay_capacity_blocks L))"
    using boot_image_ok [OF L(2), of "zeros 16"] L(3) by simp_all
  have len: "\<And>i. length (?d i) = 4096" using bi(1) sl by simp
  note io = image_io_ok [of ?d 65536, OF len]
  have reg: "bitmap_region ?d L = bitmap_region ?b L"
    unfolding bitmap_region_def by (rule arg_cong [where f = concat], rule map_cong) (use lay in auto)
  obtain e where e: "sb_validate (?d 1) = Inl e"
    using sb_validate_corrupt [OF sb_validate_build [of "zeros 16" L] sl, of 0 "?s ! 0 + 1"] by auto
  have d: "?d 0 = enc_mbr (mbr_build (zeros 16) (lay_capacity_blocks L))" "?d (unat (lay_sb_tail_lba L)) = ?s" "ub_validate (?d 2) = Inr (ub_build L 0)"
    using L(2) lay by (auto simp: boot_image_def ub_validate_build layout_tiles_def)
  define io where "io = image_io 65536 ?d"
  have dsk: "posix_blk (io_dev io) = ?d" using io(3) by (simp add: io_def)
  have cap: "lay_capacity_blocks L = io_capacity_blocks io" "unat (io_capacity_blocks io) < 2 ^ 46" using io(4) L(3) by (simp_all add: io_def)
  have st: "io_ok posix_ops posix_inv io" "posix_healthy (io_dev io)" using io(1,2) by (simp_all add: io_def)
  have tc: "tail_clear (bitmap_region ?d L) (unat (lay_capacity_blocks L))" using reg bi(2) by simp
  have v: "length (zeros 15 @ [1 :: byte]) = 16" "zeros 15 @ [1 :: byte] \<noteq> zeros 16" by (simp_all add: numeral_eq_Suc)
  note w = label_write_strands_device [OF st L(2) cap _ d(1) [folded dsk] e [folded dsk] d(2) [folded dsk] d(3) [folded dsk] tc [folded dsk] sample_label v]
  show ?thesis using w by auto
qed

end
