(* ===== verification/Nebula_Admin.thy ===== *)
theory Nebula_Admin
  imports Nebula_Fs_Correct
begin

unbundle bit_operations_syntax

text \<open>
  The administration tools that mount a device and run one command on it: \<open>tools/nebula_rw.c\<close>,
  \<open>tools/nebula_inode.c\<close>, \<open>tools/nebula_alloc.c\<close> and \<open>tools/nebula_mount.c\<close>.  A command returns its exit
  status, the values it prints if it succeeds, and the mount.  Readings of the clock are \<open>clk\<close>.
\<close>

section \<open>Arguments\<close>

definition arg_bytes :: "string \<Rightarrow> byte list" where
  "arg_bytes s = map of_char s"

definition arg_u64 :: "string \<Rightarrow> u64" where
  "arg_u64 s = fst (strtoull s)"

text \<open>\<open>strtoul(s, NULL, 8)\<close> of the C library.\<close>

definition c_isoctal :: "char \<Rightarrow> bool" where
  "c_isoctal c \<longleftrightarrow> 48 \<le> (of_char c :: nat) \<and> (of_char c :: nat) \<le> 55"

definition strtoul8 :: "string \<Rightarrow> u64" where
  "strtoul8 s =
     (let s1 = dropWhile c_isspace s;
          neg = (s1 \<noteq> [] \<and> hd s1 = CHR ''-'');
          s2 = (if s1 \<noteq> [] \<and> (hd s1 = CHR ''-'' \<or> hd s1 = CHR ''+'') then tl s1 else s1);
          v = foldl (\<lambda>v c. 8 * v + ((of_char c :: nat) - 48)) 0 (takeWhile c_isoctal s2)
      in if v \<ge> 2 ^ 64 then -1 else if neg then - of_nat v else of_nat v)"

section \<open>nebula\_rw\<close>

datatype rw_out =
    RwCreated "byte list" u64 u32
  | RwWrote nat u64
  | RwContent u64 u64 "byte list option"
  | RwDeleted u64
  | RwAdded "byte list" u64
  | RwFound "byte list" u64
  | RwRemoved "byte list"
  | RwListing "(bool \<times> u64 \<times> byte list) list"

definition rw_create :: "'d nebula_mount \<Rightarrow> string list \<Rightarrow> (nat \<Rightarrow> u64) \<Rightarrow> nat \<times> rw_out option \<times> 'd nebula_mount" where
  "rw_create m args clk =
     (case args of
        [] \<Rightarrow> (1, None, m)
      | a # opt \<Rightarrow>
          let name = arg_bytes a;
              mode = (case opt of [] \<Rightarrow> 0x1A4 | s # _ \<Rightarrow> ucast (strtoul8 s)) in
          (case nebula_file_create m mode (clk 0) of
             (Inl _, m1) \<Rightarrow> (1, None, m1)
           | (Inr f, m1) \<Rightarrow>
               let inum = ino_inode_num (f_inode f) in
               (case nebula_file_close m1 f (clk 1) of
                  (_, m2) \<Rightarrow>
                    (case nebula_dir_add m2 name inum NEBULA_DIR_FLAG_FILE of
                       (Inl _, m3) \<Rightarrow> (1, None, m3)
                     | (Inr _, m3) \<Rightarrow> (0, Some (RwCreated name inum mode), m3)))))"

definition rw_write :: "'d nebula_mount \<Rightarrow> string list \<Rightarrow> (nat \<Rightarrow> u64) \<Rightarrow> nat \<times> rw_out option \<times> 'd nebula_mount" where
  "rw_write m args clk =
     (case args of
        a # text # _ \<Rightarrow>
          let inum = arg_u64 a in
          (case nebula_file_open m inum NEBULA_O_RDWR of
             (Inl _, m1) \<Rightarrow> (1, None, m1)
           | (Inr f, m1) \<Rightarrow>
               (case nebula_file_write m1 f 0 (arg_bytes text) (clk 0) of
                  (r, f1, m2) \<Rightarrow>
                    (case nebula_file_close m2 f1 (clk 1) of
                       (_, m3) \<Rightarrow>
                         (case r of
                            Inl _ \<Rightarrow> (1, None, m3)
                          | Inr n \<Rightarrow> (0, Some (RwWrote n inum), m3)))))
      | _ \<Rightarrow> (1, None, m))"

text \<open>The content is printed up to its first zero byte; a failed read still exits with 0.\<close>

definition rw_read :: "'d nebula_mount \<Rightarrow> string list \<Rightarrow> (nat \<Rightarrow> u64) \<Rightarrow> nat \<times> rw_out option \<times> 'd nebula_mount" where
  "rw_read m args clk =
     (case args of
        [] \<Rightarrow> (1, None, m)
      | a # _ \<Rightarrow>
          let inum = arg_u64 a in
          (case nebula_file_open m inum NEBULA_O_RDONLY of
             (Inl _, m1) \<Rightarrow> (1, None, m1)
           | (Inr f, m1) \<Rightarrow>
               let sz = ino_size_bytes (f_inode f) in
               (case (if sz > 0 then nebula_file_read m1 f 0 sz (clk 0) else (Inr [], f, m1)) of
                  (r, f1, m2) \<Rightarrow>
                    (case nebula_file_close m2 f1 (clk 1) of
                       (_, m3) \<Rightarrow>
                         (0, Some (RwContent inum sz (case r of Inl _ \<Rightarrow> None | Inr bs \<Rightarrow> Some (takeWhile (\<lambda>b. b \<noteq> 0) bs))), m3)))))"

definition rw_delete :: "'d nebula_mount \<Rightarrow> string list \<Rightarrow> nat \<times> rw_out option \<times> 'd nebula_mount" where
  "rw_delete m args =
     (case args of
        [] \<Rightarrow> (1, None, m)
      | a # _ \<Rightarrow>
          let inum = arg_u64 a in
          (case nebula_file_open m inum NEBULA_O_RDWR of
             (Inl _, m1) \<Rightarrow> (1, None, m1)
           | (Inr f, m1) \<Rightarrow>
               (case nebula_file_delete m1 f of
                  (Inl _, m2) \<Rightarrow> (1, None, m2)
                | (Inr _, m2) \<Rightarrow> (0, Some (RwDeleted inum), m2))))"

definition rw_diradd :: "'d nebula_mount \<Rightarrow> string list \<Rightarrow> nat \<times> rw_out option \<times> 'd nebula_mount" where
  "rw_diradd m args =
     (case args of
        a # b # c # _ \<Rightarrow>
          let name = arg_bytes a;
              inum = arg_u64 b;
              tflag = (if c = ''dir'' then NEBULA_DIR_FLAG_DIR else NEBULA_DIR_FLAG_FILE) in
          (case nebula_dir_add m name inum tflag of
             (Inl _, m1) \<Rightarrow> (1, None, m1)
           | (Inr _, m1) \<Rightarrow> (0, Some (RwAdded name inum), m1))
      | _ \<Rightarrow> (1, None, m))"

definition rw_dirlook :: "'d nebula_mount \<Rightarrow> string list \<Rightarrow> nat \<times> rw_out option \<times> 'd nebula_mount" where
  "rw_dirlook m args =
     (case args of
        [] \<Rightarrow> (1, None, m)
      | a # _ \<Rightarrow>
          (case nebula_dir_lookup m (arg_bytes a) of
             (Inl _, m1) \<Rightarrow> (1, None, m1)
           | (Inr inum, m1) \<Rightarrow> (0, Some (RwFound (arg_bytes a) inum), m1)))"

definition rw_dirrm :: "'d nebula_mount \<Rightarrow> string list \<Rightarrow> nat \<times> rw_out option \<times> 'd nebula_mount" where
  "rw_dirrm m args =
     (case args of
        [] \<Rightarrow> (1, None, m)
      | a # _ \<Rightarrow>
          (case nebula_dir_remove m (arg_bytes a) of
             (Inl _, m1) \<Rightarrow> (1, None, m1)
           | (Inr _, m1) \<Rightarrow> (0, Some (RwRemoved (arg_bytes a)), m1)))"

definition rw_list_cb :: "byte list \<Rightarrow> u64 \<Rightarrow> u16 \<Rightarrow> (bool \<times> u64 \<times> byte list) list \<Rightarrow> int \<times> (bool \<times> u64 \<times> byte list) list" where
  "rw_list_cb name inode_num flags out = (0, out @ [(flags AND NEBULA_DIR_FLAG_DIR \<noteq> 0, inode_num, name)])"

definition rw_dirlist :: "'d nebula_mount \<Rightarrow> nat \<times> rw_out option \<times> 'd nebula_mount" where
  "rw_dirlist m =
     (case nebula_dir_list m rw_list_cb [] of
        (r, out, m1) \<Rightarrow> (if r = Inr 0 then 0 else 1, Some (RwListing out), m1))"

text \<open>\<open>main\<close> on the outcome of opening the device, which is the second argument.\<close>

definition nebula_rw_main ::
    "string list \<Rightarrow> (string \<Rightarrow> posix_dev res) \<Rightarrow> errno option \<Rightarrow> (nat \<Rightarrow> u64)
     \<Rightarrow> nat \<times> rw_out option \<times> posix_dev nebula_mount option" where
  "nebula_rw_main argv opened stated clk =
     (case argv of
        subcmd # device # args \<Rightarrow>
          (case nebula_mount_open (opened device) stated of
             Inl _ \<Rightarrow> (1, None, None)
           | Inr m \<Rightarrow>
               (case (if subcmd = ''create'' then rw_create m args clk
                      else if subcmd = ''write'' then rw_write m args clk
                      else if subcmd = ''read'' then rw_read m args clk
                      else if subcmd = ''delete'' then rw_delete m args
                      else if subcmd = ''diradd'' then rw_diradd m args
                      else if subcmd = ''dirlook'' then rw_dirlook m args
                      else if subcmd = ''dirrm'' then rw_dirrm m args
                      else if subcmd = ''dirlist'' then rw_dirlist m
                      else (1, None, m)) of
                  (ret, out, m1) \<Rightarrow> (ret, out, Some m1)))
      | _ \<Rightarrow> (1, None, None))"

section \<open>nebula\_inode\<close>

definition inode_cmd_alloc ::
    "'d nebula_mount \<Rightarrow> string list \<Rightarrow> u64 \<Rightarrow> nat \<times> nebula_inode option \<times> 'd nebula_mount" where
  "inode_cmd_alloc m args t =
     (case args of
        [] \<Rightarrow> (1, None, m)
      | a # opt \<Rightarrow>
          if a \<noteq> ''file'' \<and> a \<noteq> ''dir'' then (1, None, m)
          else
            let type = (if a = ''file'' then NEBULA_INODE_TYPE_FILE else NEBULA_INODE_TYPE_DIR);
                mode = (case opt of
                          [] \<Rightarrow> if type = NEBULA_INODE_TYPE_DIR then 0x1ED else 0x1A4
                        | s # _ \<Rightarrow> ucast (strtoul8 s)) in
            (case nebula_inode_alloc m type mode t of
               (Inl _, m1) \<Rightarrow> (1, None, m1)
             | (Inr inum, m1) \<Rightarrow>
                 (case nebula_inode_read m1 inum of
                    (Inl _, m2) \<Rightarrow> (1, None, m2)
                  | (Inr i, m2) \<Rightarrow> (0, Some i, m2))))"

definition inode_cmd_read :: "'d nebula_mount \<Rightarrow> string list \<Rightarrow> nat \<times> nebula_inode option \<times> 'd nebula_mount" where
  "inode_cmd_read m args =
     (case args of
        [] \<Rightarrow> (1, None, m)
      | a # _ \<Rightarrow>
          (case nebula_inode_read m (arg_u64 a) of
             (Inl _, m1) \<Rightarrow> (1, None, m1)
           | (Inr i, m1) \<Rightarrow> (0, Some i, m1)))"

definition inode_cmd_free :: "'d nebula_mount \<Rightarrow> string list \<Rightarrow> nat \<times> 'd nebula_mount" where
  "inode_cmd_free m args =
     (case args of
        [] \<Rightarrow> (1, m)
      | a # _ \<Rightarrow>
          (case nebula_inode_free m (arg_u64 a) of
             (Inl _, m1) \<Rightarrow> (1, m1)
           | (Inr _, m1) \<Rightarrow> (0, m1)))"

text \<open>A line of the listing is an inode number with the error of reading it, or with the inode.\<close>

fun inode_list_loop ::
    "'d nebula_mount \<Rightarrow> u64 list \<Rightarrow> (u64 \<times> nebula_inode res) list \<Rightarrow> u64 \<Rightarrow> (u64 \<times> nebula_inode res) list \<times> u64 \<times> 'd nebula_mount" where
  "inode_list_loop m [] out used = (out, used, m)"
| "inode_list_loop m (n # ns) out used =
     (case nebula_inode_read m n of
        (Inl e, m1) \<Rightarrow> inode_list_loop m1 ns (out @ [(n, Inl e)]) used
      | (Inr i, m1) \<Rightarrow>
          if ino_type i = NEBULA_INODE_TYPE_FREE then inode_list_loop m1 ns out used
          else inode_list_loop m1 ns (out @ [(n, Inr i)]) (used + 1))"

definition inode_cmd_list :: "'d nebula_mount \<Rightarrow> (u64 \<times> nebula_inode res) list \<times> u64 \<times> 'd nebula_mount" where
  "inode_cmd_list m = inode_list_loop m (map of_nat [0..<unat (sb_inode_page_block_count (m_sb m))]) [] 0"

datatype inode_out = InodeShown nebula_inode | InodeListed "(u64 \<times> nebula_inode res) list" u64

definition nebula_inode_main ::
    "string list \<Rightarrow> (string \<Rightarrow> posix_dev res) \<Rightarrow> errno option \<Rightarrow> u64
     \<Rightarrow> nat \<times> inode_out option \<times> posix_dev nebula_mount option" where
  "nebula_inode_main argv opened stated t =
     (case argv of
        subcmd # device # args \<Rightarrow>
          (case nebula_mount_open (opened device) stated of
             Inl _ \<Rightarrow> (1, None, None)
           | Inr m \<Rightarrow>
               if subcmd = ''alloc'' then
                 (case inode_cmd_alloc m args t of (ret, i, m1) \<Rightarrow> (ret, map_option InodeShown i, Some m1))
               else if subcmd = ''read'' then
                 (case inode_cmd_read m args of (ret, i, m1) \<Rightarrow> (ret, map_option InodeShown i, Some m1))
               else if subcmd = ''free'' then
                 (case inode_cmd_free m args of (ret, m1) \<Rightarrow> (ret, None, Some m1))
               else if subcmd = ''list'' then
                 (case inode_cmd_list m of (out, used, m1) \<Rightarrow> (0, Some (InodeListed out used), Some m1))
               else (1, None, Some m))
      | _ \<Rightarrow> (1, None, None))"

section \<open>nebula\_alloc\<close>

datatype alloc_mode = ModeNone | ModeAlloc | ModeFree | ModeStats

record alloc_opts =
  ao_path :: "string option"
  ao_mode :: alloc_mode
  ao_n :: u32
  ao_lba :: u64

fun alloc_args :: "string list \<Rightarrow> alloc_opts \<Rightarrow> nat + alloc_opts" where
  "alloc_args [] opts = Inr opts"
| "alloc_args (a # rest) opts =
     (if a = ''--path'' \<and> rest \<noteq> [] then alloc_args (tl rest) (opts\<lparr>ao_path := Some (hd rest)\<rparr>)
      else if a = ''--alloc'' \<and> rest \<noteq> [] then
        alloc_args (tl rest) (opts\<lparr>ao_mode := ModeAlloc, ao_n := ucast (arg_u64 (hd rest))\<rparr>)
      else if a = ''--free'' \<and> rest \<noteq> [] then
        alloc_args (tl rest) (opts\<lparr>ao_mode := ModeFree, ao_lba := arg_u64 (hd rest)\<rparr>)
      else if a = ''--n'' \<and> rest \<noteq> [] then alloc_args (tl rest) (opts\<lparr>ao_n := ucast (arg_u64 (hd rest))\<rparr>)
      else if a = ''--stats'' then alloc_args rest (opts\<lparr>ao_mode := ModeStats\<rparr>)
      else Inl 2)"

text \<open>The command on a mounted device: the exit status, and for a change the block and the free counts around it.\<close>

definition alloc_run :: "'d nebula_mount \<Rightarrow> alloc_opts \<Rightarrow> nat \<times> (u64 \<times> u64 \<times> u64) option \<times> 'd nebula_mount" where
  "alloc_run m opts =
     (let before = nebula_hbm_total_free (m_bitmap m) in
      case ao_mode opts of
        ModeAlloc \<Rightarrow>
          (case nebula_block_alloc m (ao_n opts) of
             (Inl _, m1) \<Rightarrow> (1, None, m1)
           | (Inr got, m1) \<Rightarrow> (0, Some (got, before, nebula_hbm_total_free (m_bitmap m1)), m1))
      | ModeFree \<Rightarrow>
          if ao_n opts = 0 then (1, None, m)
          else
            (case nebula_block_free m (ao_lba opts) (ao_n opts) of
               (Inl _, m1) \<Rightarrow> (1, None, m1)
             | (Inr _, m1) \<Rightarrow> (0, Some (ao_lba opts, before, nebula_hbm_total_free (m_bitmap m1)), m1))
      | _ \<Rightarrow> (0, None, m))"

definition nebula_alloc_main ::
    "string list \<Rightarrow> (string \<Rightarrow> posix_dev res) \<Rightarrow> errno option
     \<Rightarrow> nat \<times> (u64 \<times> u64 \<times> u64) option \<times> posix_dev nebula_mount option" where
  "nebula_alloc_main argv opened stated =
     (case alloc_args argv \<lparr>ao_path = None, ao_mode = ModeNone, ao_n = 0, ao_lba = 0\<rparr> of
        Inl status \<Rightarrow> (status, None, None)
      | Inr opts \<Rightarrow>
          (case ao_path opts of
             None \<Rightarrow> (2, None, None)
           | Some path \<Rightarrow>
               if ao_mode opts = ModeNone then (2, None, None)
               else
                 (case nebula_mount_open (opened path) stated of
                    Inl _ \<Rightarrow> (1, None, None)
                  | Inr m \<Rightarrow> (case alloc_run m opts of (ret, out, m1) \<Rightarrow> (ret, out, Some m1)))))"

section \<open>nebula\_mount\<close>

fun mount_args :: "string list \<Rightarrow> string option \<Rightarrow> nat + string option" where
  "mount_args [] path = Inr path"
| "mount_args (a # rest) path =
     (if a = ''--path'' \<and> rest \<noteq> [] then mount_args (tl rest) (Some (hd rest))
      else if a = ''--verbose'' then mount_args rest path
      else Inl 2)"

definition nebula_mount_main ::
    "string list \<Rightarrow> (string \<Rightarrow> posix_dev res) \<Rightarrow> errno option \<Rightarrow> nat \<times> posix_dev nebula_mount option" where
  "nebula_mount_main argv opened stated =
     (case mount_args argv None of
        Inl status \<Rightarrow> (status, None)
      | Inr None \<Rightarrow> (2, None)
      | Inr (Some path) \<Rightarrow>
          (case nebula_mount_open (opened path) stated of
             Inl _ \<Rightarrow> (1, None)
           | Inr m \<Rightarrow> (0, Some m)))"

section \<open>Listing the inodes\<close>

context block_backend
begin

lemma inode_list_read:
  assumes "fsok L m" and "mup m" and "k < inode_count L" and "nebula_inode_read m (of_nat k) = (r, m')"
  shows "fsok L m'" and "mup m'" and "mdisk m' = mdisk m" and "r = Inr (inode_at (mdisk m) L k)"
proof -
  note o = fsokD [OF assms(1)]
  have k: "unat (of_nat k :: u64) = k"
    using assms(3) unsigned_less [of "lay_inode_page_block_count L", where ?'a = nat] by (intro unat_of_nat_u64) (simp add: less_trans)
  note c = inode_read_frame [OF o(1) assms(4)]
  show "fsok L m'" "mup m'" "mdisk m' = mdisk m" using fsok_read_step [OF assms(1) c] mount_next_up [OF c(1) assms(2)] c(3) by auto
  have "r = inode_validate (mdisk m (unat (lay_inode_page_lba L) + k))" using inode_read_up [OF o(1) assms(2) _ assms(4)] assms(3) k by simp
  moreover have "ino_checksum (inode_at (mdisk m) L k) = nebula_inode_checksum (inode_at (mdisk m) L k)"
    if "ino_type (inode_at (mdisk m) L k) \<noteq> NEBULA_INODE_TYPE_FREE"
    using o(6) that assms(3) by (simp add: itab_ok_def inode_used_def inode_sealed_def)
  ultimately show "r = Inr (inode_at (mdisk m) L k)" by (auto simp: inode_validate_def inode_at_def Let_def)
qed

lemma inode_list_loop_exact:
  assumes "fsok L m" and "mup m" and "\<And>k. k \<in> set ks \<Longrightarrow> k < inode_count L"
    and "inode_list_loop m (map of_nat ks) out used = (out', used', m')"
  shows "out' = out @ map (\<lambda>k. (of_nat k, Inr (inode_at (mdisk m) L k))) (filter (inode_used (mdisk m) L) ks)
    \<and> used' = used + of_nat (length (filter (inode_used (mdisk m) L) ks)) \<and> mdisk m' = mdisk m"
  using assms
proof (induction ks arbitrary: m out used)
  case (Cons k ks)
  obtain r m1 where rd: "nebula_inode_read m (of_nat k) = (r, m1)" by (rule prod.exhaust)
  have k: "k < inode_count L" using Cons.prems(3) by simp
  note c = inode_list_read [OF Cons.prems(1,2) k rd]
  note IH = Cons.IH [OF c(1,2) Cons.prems(3)]
  show ?case
  proof (cases "ino_type (inode_at (mdisk m) L k) = NEBULA_INODE_TYPE_FREE")
    case True
    then show ?thesis using IH [of out used] Cons.prems(4) rd c(3,4) by (simp add: inode_used_def)
  next
    case False
    then show ?thesis using IH [of "out @ [(of_nat k, Inr (inode_at (mdisk m) L k))]" "used + 1"] Cons.prems(4) rd c(3,4) k
      by (simp add: inode_used_def)
  qed
qed simp

text \<open>
  A creation by \<open>nebula_rw\<close> whose name is refused: the inode stays allocated, and no name refers to it.
\<close>

lemma rw_create_refused:
  assumes ok: "fsok L m" and up: "mup m" and name: "mdir L m (arg_bytes a) \<noteq> None" "a \<noteq> []" "length a < NEBULA_DIR_NAME_MAX"
    and free: "\<exists>k. 1 \<le> k \<and> k < inode_count L \<and> inode_free_at L m k" and cr: "rw_create m (a # opt) clk = (s, out, m')"
  shows "s = 1" and "out = None" and "fsok L m'" and "mview L m' = mview L m" and "mdir L m' = mdir L m"
    and "\<exists>x. \<not> inode_used (mdisk m) L (unat x) \<and> inode_used (mdisk m') L (unat x) \<and> (\<forall>n. mdir L m' n \<noteq> Some x)"
proof -
  note o = fsokD [OF ok] and R = regions [OF fsokD(1) [OF ok]]
  define mode :: u32 where "mode = (case opt of [] \<Rightarrow> 0x1A4 | s # _ \<Rightarrow> ucast (strtoul8 s))"
  obtain q m1 where fc: "nebula_file_create m mode (clk 0) = (q, m1)" by (rule prod.exhaust)
  note c = file_create_cases [OF o(1) fc]
  obtain f1 where q: "q = Inr f1" using c(6) [OF up] free by (cases q) auto
  obtain x where x: "1 \<le> unat x" "unat x < inode_count L" "inode_free_at L m (unat x)"
    "f1 = \<lparr>f_inode = inode_new x NEBULA_INODE_TYPE_FILE mode (clk 0), f_pos = 0, f_flags = NEBULA_O_RDWR, f_dirty = False\<rparr>"
    "mdisk m1 = (mdisk m)(inode_addr L (unat x) := enc_ino (inode_new x NEBULA_INODE_TYPE_FILE mode (clk 0)))"
    using c(5) [OF q] by blast
  let ?i = "inode_new x NEBULA_INODE_TYPE_FILE mode (clk 0)"
  have at1: "inode_at (mdisk m1) L (unat x) = ?i" using x(5) inode_new_wf by (simp add: inode_at_def ino.dec_enc)
  have unused: "\<not> inode_used (mdisk m) L (unat x)" using x(3) by (simp add: inode_used_def)
  have fr1: "hbm_free (m_bitmap m1) = hbm_free (m_bitmap m)" using c(2) by simp
  note s1 = fsok_slot_step [OF ok c(1) c(3) [OF o(2)] fr1 x(2) unused]
  have "mdisk m1 a = mdisk m a" if "a \<noteq> inode_addr L (unat x)" for a using x(5) that by simp
  then have k1: "fsok L m1" "mview L m1 = mview L m" "mdir L m1 = mdir L m"
    using s1 at1 inode_new_is_sealed file_ok_new by auto
  note o1 = fsokD [OF k1(1)] and up1 = mount_next_up [OF c(1) up]
  have xx: "ino_inode_num (f_inode f1) = x" "nebula_file_close m1 f1 (clk 1) = (Inr (), m1)"
    using x(4) by (simp_all add: nebula_file_close_def)
  obtain q2 m2 where da: "nebula_dir_add m1 (arg_bytes a) x NEBULA_DIR_FLAG_FILE = (q2, m2)" by (rule prod.exhaust)
  note d = dir_add_cases [OF o1(1,4) da]
  have q2: "q2 = Inl EEXIST" using d(7) [OF up1] name k1(3) by (simp add: arg_bytes_def)
  have d2: "mdisk m2 = mdisk m1" by (rule d(6) [OF up1 q2])
  have r: "s = 1" "out = None" "m' = m2"
    using cr fc q xx da q2 by (simp_all add: rw_create_def Let_def mode_def [symmetric])
  show "s = 1" "out = None" by (fact r(1), fact r(2))
  show "fsok L m'" using fsok_read_step [OF k1(1) d(1,2) d2] r(3) by simp
  show "mview L m' = mview L m" "mdir L m' = mdir L m" using k1(2,3) d2 r(3) by simp_all
  have "\<forall>b. mdir L m b \<noteq> Some x" using named_inode(1) [OF ok] unused by blast
  moreover have "inode_used (mdisk m1) L (unat x)"
    using x(2) at1 by (simp add: inode_used_def NEBULA_INODE_TYPE_FILE_def NEBULA_INODE_TYPE_FREE_def)
  ultimately show "\<exists>x. \<not> inode_used (mdisk m) L (unat x) \<and> inode_used (mdisk m') L (unat x) \<and> (\<forall>n. mdir L m' n \<noteq> Some x)"
    using unused k1(3) d2 r(3) by auto
qed

end

section \<open>Properties\<close>

text \<open>
  The listing of \<open>nebula_inode\<close>.  On a live file system it shows exactly the inodes in use, in ascending order
  and each with its content, reports no read error, counts them, and changes no block.
\<close>

theorem inode_list_exact:
  assumes "fs_live L m" and "inode_cmd_list m = (out, used, m')"
  shows "out = map (\<lambda>k. (of_nat k, Inr (inode_at (posix.mdisk m) L k))) (filter (inode_used (posix.mdisk m) L) [0..<inode_count L])
    \<and> unat used = card {k. inode_used (posix.mdisk m) L k} \<and> posix.mdisk m' = posix.mdisk m"
proof -
  let ?u = "inode_used (posix.mdisk m) L"
  have a: "posix.fsok L m" "posix.mup m" using assms(1) by (auto simp: fs_live_def)
  have "sb_inode_page_block_count (m_sb m) = lay_inode_page_block_count L" using mount_inv_sb [OF posix.fsokD(1) [OF a(1)]] by simp
  then have e: "inode_list_loop m (map of_nat [0..<inode_count L]) [] 0 = (out, used, m')" using assms(2) by (simp add: inode_cmd_list_def)
  have r: "out = map (\<lambda>k. (of_nat k, Inr (inode_at (posix.mdisk m) L k))) (filter ?u [0..<inode_count L])"
    "used = of_nat (length (filter ?u [0..<inode_count L]))" "posix.mdisk m' = posix.mdisk m"
    using posix.inode_list_loop_exact [OF a _ e] by auto
  have "length (filter ?u [0..<inode_count L]) = card (set (filter ?u [0..<inode_count L]))" by (simp add: distinct_card del: set_filter)
  also have "set (filter ?u [0..<inode_count L]) = {k. ?u k}" by (auto simp: inode_used_def)
  finally have l: "length (filter ?u [0..<inode_count L]) = card {k. ?u k}" .
  have "length (filter ?u [0..<inode_count L]) < 2 ^ 64"
    by (rule le_less_trans [OF length_filter_le]) (simp add: unsigned_less [of "lay_inode_page_block_count L", where ?'a = nat, simplified])
  then have "unat used = card {k. ?u k}" using r(2) l unat_of_nat_u64 by simp
  then show ?thesis using r by simp
qed

theorem inode_list_exact_witness:
  "\<exists>L m out used m'. fs_live L m \<and> inode_cmd_list m = (out, used, m') \<and> (\<exists>i. (0, Inr i) \<in> set out)"
proof -
  obtain L m where s: "fs_live L m" "posix.mdir L m = [[0x2F] \<mapsto> 0]" by (rule sample_fs)
  obtain out used m' where l: "inode_cmd_list m = (out, used, m')" by (rule prod_cases3)
  have "inode_used (posix.mdisk m) L 0" using posix.named_inode(1) [of L m "[0x2F]" 0] s by (auto simp: fs_live_def)
  then have "(0, Inr (inode_at (posix.mdisk m) L 0)) \<in> set out"
    using inode_list_exact [OF s(1) l] by (force simp: inode_used_def)
  then show ?thesis using s(1) l by blast
qed

text \<open>
  A leak of \<open>nebula_rw create\<close>.  When the name exists already the tool exits with 1 and the files are as they
  were, but the inode it had allocated stays in use and no name refers to it.
\<close>

theorem rw_create_leaks_inode:
  assumes "fs_live L m" and "dir_map (posix.mdisk m) L (arg_bytes a) \<noteq> None" and "a \<noteq> []" and "length a < NEBULA_DIR_NAME_MAX"
    and "1 \<le> k" and "k < inode_count L" and "\<not> inode_used (posix.mdisk m) L k" and "rw_create m (a # opt) clk = (s, out, m')"
  shows "s = 1 \<and> out = None \<and> fs_view (posix.mdisk m') L = fs_view (posix.mdisk m) L
    \<and> (\<exists>x. \<not> inode_used (posix.mdisk m) L (unat x) \<and> inode_used (posix.mdisk m') L (unat x)
        \<and> (\<forall>n. dir_map (posix.mdisk m') L n \<noteq> Some x))"
proof -
  have a: "posix.fsok L m" "posix.mup m" using assms(1) by (auto simp: fs_live_def)
  have "\<exists>k. 1 \<le> k \<and> k < inode_count L \<and> ino_type (inode_at (posix.mdisk m) L k) = NEBULA_INODE_TYPE_FREE"
    using assms(5-7) by (auto simp: inode_used_def)
  note c = posix.rw_create_refused [OF a assms(2-4) this assms(8)]
  show ?thesis using c by blast
qed

theorem rw_create_leaks_inode_witness:
  "\<exists>L m m' x. fs_live L m \<and> rw_create m [''/''] (\<lambda>_. 0) = (1, None, m')
     \<and> \<not> inode_used (posix.mdisk m) L x \<and> inode_used (posix.mdisk m') L x"
proof -
  obtain L m where s: "fs_live L m" "posix.mdir L m = [[0x2F] \<mapsto> 0]"
    "\<exists>k. 1 \<le> k \<and> k < inode_count L \<and> ino_type (inode_at (posix.mdisk m) L k) = NEBULA_INODE_TYPE_FREE" by (rule sample_fs)
  obtain k where k: "1 \<le> k" "k < inode_count L" "\<not> inode_used (posix.mdisk m) L k" using s(3) by (auto simp: inode_used_def)
  obtain r out m' where c: "rw_create m [''/''] (\<lambda>_. 0) = (r, out, m')" by (rule prod_cases3)
  have "dir_map (posix.mdisk m) L (arg_bytes ''/'') \<noteq> None" using s(2) by (simp add: arg_bytes_def)
  from rw_create_leaks_inode [OF s(1) this _ _ k c]
  show ?thesis using s(1) c by auto
qed

end
