(* ===== verification/Nebula_Discover.thy ===== *)
theory Nebula_Discover
  imports Nebula_Mkfs
begin

text \<open>
  \<open>tools/nebula_discover.c\<close>, which looks for labelled devices among the paths it is given, and
  \<open>tools/nebula_dump.c\<close>, which reads one device back.  The answers of the operating system (\<open>stat\<close>,
  \<open>opendir\<close> with \<open>readdir\<close>, \<open>open\<close>, \<open>fstat\<close>, the environment and the host name) are a record.
\<close>

section \<open>Discovery\<close>

datatype st_kind = S_REG | S_BLK | S_CHR | S_DIR | S_OTHER

record host =
  h_stat :: "string \<Rightarrow> st_kind option"
  h_readdir :: "string \<Rightarrow> string list option"
  h_open :: "string \<Rightarrow> posix_dev res"
  h_fstat :: "string \<Rightarrow> errno option"
  h_domain_env :: "string option"
  h_hostname :: "string option"

abbreviation MAX_DEVICES :: nat where "MAX_DEVICES \<equiv> 256"

record discovered =
  dv_path :: string
  dv_is_nebula :: bool
  dv_uuid :: "byte list"
  dv_vmajor :: u16
  dv_vminor :: u16
  dv_capacity_blocks :: u64

text \<open>\<open>snprintf\<close> into a buffer of 512 bytes keeps 511 characters.\<close>

definition snprintf512 :: "string \<Rightarrow> string" where
  "snprintf512 s = take 511 s"

definition try_device :: "host \<Rightarrow> string \<Rightarrow> discovered" where
  "try_device h path =
     (let none = \<lparr>dv_path = snprintf512 path, dv_is_nebula = False, dv_uuid = zeros 16, dv_vmajor = 0, dv_vminor = 0,
                  dv_capacity_blocks = 0\<rparr> in
      case nebula_io_open (h_open h path) False 0 None (h_fstat h path) of
        Inl _ \<Rightarrow> none
      | Inr io \<Rightarrow>
          (case nebula_mbr_read io of
             (Inl _, _) \<Rightarrow> none
           | (Inr mbr, _) \<Rightarrow>
               none\<lparr>dv_is_nebula := True, dv_uuid := mbr_device_uuid mbr, dv_vmajor := mbr_version_major mbr,
                    dv_vminor := mbr_version_minor mbr, dv_capacity_blocks := mbr_device_capacity_blocks mbr\<rparr>))"

definition is_device :: "st_kind option \<Rightarrow> bool" where
  "is_device k \<longleftrightarrow> k = Some S_REG \<or> k = Some S_BLK \<or> k = Some S_CHR"

text \<open>The loop over the entries of a directory.\<close>

fun scan_entries :: "host \<Rightarrow> string \<Rightarrow> string list \<Rightarrow> discovered list \<Rightarrow> discovered list" where
  "scan_entries h p [] arr = arr"
| "scan_entries h p (d_name # rest) arr =
     (if d_name \<noteq> [] \<and> hd d_name = CHR ''.'' then scan_entries h p rest arr
      else
        let full = snprintf512 (p @ ''/'' @ d_name) in
        if \<not> is_device (h_stat h full) then scan_entries h p rest arr
        else if length arr \<ge> MAX_DEVICES then arr
        else scan_entries h p rest (arr @ [try_device h full]))"

definition scan_one :: "host \<Rightarrow> string \<Rightarrow> discovered list \<Rightarrow> discovered list" where
  "scan_one h p arr =
     (case h_stat h p of
        None \<Rightarrow> arr
      | Some k \<Rightarrow>
          if is_device (Some k) then (if length arr \<ge> MAX_DEVICES then arr else arr @ [try_device h p])
          else if k = S_DIR then
            (case h_readdir h p of
               None \<Rightarrow> arr
             | Some names \<Rightarrow> scan_entries h p names arr)
          else arr)"

record discover_opts =
  do_domain :: string
  do_json :: bool

text \<open>
  The option loop.  \<open>all\<close> is \<open>argv[1..]\<close>: the first path is at index 1 unless the loop finds one, so that
  a command line of options alone is scanned as if its options were paths.
\<close>

fun discover_args :: "string list \<Rightarrow> string list \<Rightarrow> discover_opts \<Rightarrow> nat + (discover_opts \<times> string list)" where
  "discover_args all [] opts = Inr (opts, all)"
| "discover_args all (a # rest) opts =
     (if a = ''--domain'' \<and> rest \<noteq> [] then discover_args all (tl rest) (opts\<lparr>do_domain := hd rest\<rparr>)
      else if a = ''--format'' \<and> rest \<noteq> [] then
        (if hd rest = ''json'' then discover_args all (tl rest) (opts\<lparr>do_json := True\<rparr>)
         else if hd rest = ''text'' then discover_args all (tl rest) (opts\<lparr>do_json := False\<rparr>)
         else Inl 2)
      else if a \<noteq> [] \<and> hd a = CHR ''-'' then Inl 2
      else Inr (opts, a # rest))"

definition discover_paths :: "host \<Rightarrow> string list \<Rightarrow> discovered list" where
  "discover_paths h paths = foldl (\<lambda>arr p. scan_one h p arr) [] paths"

text \<open>The exit status and what is reported: the options, the devices found, and the number of paths scanned.\<close>

definition nebula_discover_main :: "host \<Rightarrow> string list \<Rightarrow> nat \<times> (discover_opts \<times> discovered list \<times> nat) option" where
  "nebula_discover_main h argv =
     (let hostname = (case h_hostname h of Some s \<Rightarrow> s | None \<Rightarrow> ''unknown'');
          domain = (case h_domain_env h of Some s \<Rightarrow> s | None \<Rightarrow> hostname) in
      case discover_args argv argv \<lparr>do_domain = domain, do_json = False\<rparr> of
        Inl status \<Rightarrow> (status, None)
      | Inr (opts, paths) \<Rightarrow>
          if paths = [] then (2, None)
          else
            let arr = discover_paths h paths in
            (0, Some (opts, filter dv_is_nebula arr, length arr)))"

section \<open>Dump\<close>

record device_dump =
  dd_mbr :: nebula_mbr
  dd_sb :: nebula_superblock
  dd_tail :: "nebula_superblock res"
  dd_ub :: "nebula_uberblock res"
  dd_roots :: "nebula_allocator_root list res"

text \<open>After the device is open; only the MBR and the head superblock decide the exit status.\<close>

definition dump_device :: "'d nebula_io \<Rightarrow> nat \<times> device_dump option \<times> 'd nebula_io" where
  "dump_device io =
     (case nebula_mbr_read io of
        (Inl _, io1) \<Rightarrow> (1, None, io1)
      | (Inr mbr, io1) \<Rightarrow>
          (case nebula_superblock_read io1 (mbr_superblock_head_lba mbr) of
             (Inl _, io2) \<Rightarrow> (1, None, io2)
           | (Inr sb, io2) \<Rightarrow>
               (case nebula_superblock_read io2 (sb_sb_tail_lba sb) of
                  (tail, io3) \<Rightarrow>
                    (case nebula_uberblock_read_slot io3 (sb_uberblock_lba sb) (ucast (sb_uberblock_count sb)) 0 of
                       (ub, io4) \<Rightarrow>
                         (case nebula_allocator_roots_read io4 (sb_alloc_roots_head_lba sb) of
                            (roots, io5) \<Rightarrow>
                              (0, Some \<lparr>dd_mbr = mbr, dd_sb = sb, dd_tail = tail, dd_ub = ub, dd_roots = roots\<rparr>, io5))))))"

text \<open>\<open>main\<close>.\<close>

fun dump_args :: "string list \<Rightarrow> string option \<Rightarrow> nat + string option" where
  "dump_args [] path = Inr path"
| "dump_args (a # rest) path =
     (if a = ''--path'' \<and> rest \<noteq> [] then dump_args (tl rest) (Some (hd rest)) else Inl 2)"

definition nebula_dump_main :: "string list \<Rightarrow> (string \<Rightarrow> posix_dev res) \<Rightarrow> errno option \<Rightarrow> nat \<times> device_dump option" where
  "nebula_dump_main argv opened stated =
     (case dump_args argv None of
        Inl status \<Rightarrow> (status, None)
      | Inr None \<Rightarrow> (2, None)
      | Inr (Some path) \<Rightarrow>
          (case nebula_io_open (opened path) False 0 None stated of
             Inl _ \<Rightarrow> (1, None)
           | Inr io \<Rightarrow> (case dump_device io of (status, dump, _) \<Rightarrow> (status, dump))))"

section \<open>What discovery tries\<close>

text \<open>The paths that stand for devices: the argument itself, or the plain files of a directory.\<close>

definition candidates :: "host \<Rightarrow> string \<Rightarrow> string list" where
  "candidates h p =
     (if is_device (h_stat h p) then [p]
      else if h_stat h p = Some S_DIR then
        filter (\<lambda>full. is_device (h_stat h full))
          (map (\<lambda>d. snprintf512 (p @ ''/'' @ d)) (filter (\<lambda>d. \<not> (d \<noteq> [] \<and> hd d = CHR ''.''))
             (case h_readdir h p of None \<Rightarrow> [] | Some names \<Rightarrow> names)))
      else [])"

lemma scan_entries_spec:
  assumes "length arr \<le> MAX_DEVICES"
  shows "scan_entries h p names arr = take MAX_DEVICES (arr @ map (try_device h)
    (filter (\<lambda>full. is_device (h_stat h full)) (map (\<lambda>d. snprintf512 (p @ ''/'' @ d)) (filter (\<lambda>d. \<not> (d \<noteq> [] \<and> hd d = CHR ''.'')) names))))"
  using assms by (induction h p names arr rule: scan_entries.induct) (auto simp: Let_def)

lemma scan_one_spec:
  assumes "length arr \<le> MAX_DEVICES"
  shows "scan_one h p arr = take MAX_DEVICES (arr @ map (try_device h) (candidates h p))"
  using assms by (auto simp: scan_one_def candidates_def scan_entries_spec is_device_def split: option.splits)

lemma discover_fold:
  assumes "length arr \<le> MAX_DEVICES"
  shows "foldl (\<lambda>arr p. scan_one h p arr) arr paths = take MAX_DEVICES (arr @ map (try_device h) (concat (map (candidates h) paths)))"
  using assms
proof (induction paths arbitrary: arr)
  case (Cons p paths)
  have "foldl (\<lambda>arr p. scan_one h p arr) arr (p # paths)
      = take MAX_DEVICES (take MAX_DEVICES (arr @ map (try_device h) (candidates h p)) @ map (try_device h) (concat (map (candidates h) paths)))"
    using Cons.IH [of "scan_one h p arr"] by (simp add: scan_one_spec [OF Cons.prems])
  also have "\<dots> = take MAX_DEVICES (arr @ map (try_device h) (candidates h p) @ map (try_device h) (concat (map (candidates h) paths)))"
    by (auto simp: min_def)
  finally show ?case by simp
qed simp

text \<open>The label of the device behind a path.\<close>

definition label_of :: "host \<Rightarrow> string \<Rightarrow> nebula_mbr option" where
  "label_of h p = (case h_open h p of
       Inl _ \<Rightarrow> None
     | Inr d \<Rightarrow> (case mbr_validate (posix_blk d 0) of Inl _ \<Rightarrow> None | Inr mbr \<Rightarrow> Some mbr))"

lemma try_device_label:
  assumes "h_fstat h p = None" and "h_open h p = Inr d" and "posix_healthy d" and "4096 \<le> pf_size d" and "pf_size d < 2 ^ 63"
  shows "dv_path (try_device h p) = snprintf512 p" and "dv_is_nebula (try_device h p) \<longleftrightarrow> label_of h p \<noteq> None"
    and "label_of h p = Some mbr \<Longrightarrow> dv_uuid (try_device h p) = mbr_device_uuid mbr
      \<and> dv_capacity_blocks (try_device h p) = mbr_device_capacity_blocks mbr"
proof -
  let ?io = "\<lparr>io_ops = posix_ops, io_capacity_blocks = of_nat (pf_size d div 4096), io_dev = d\<rparr>"
  have op: "nebula_io_open (h_open h p) False 0 None (h_fstat h p) = Inr ?io" using assms by (simp add: nebula_io_open_def)
  have c: "unat (of_nat (pf_size d div 4096) :: u64) = pf_size d div 4096" using assms(5) by (intro unat_of_nat_u64) simp
  have ok: "io_ok posix_ops posix_inv ?io" using assms(5) c by (simp add: io_ok_def posix_inv_def)
  have "0 < unat (io_capacity_blocks ?io)" using c assms(4) by (simp add: div_greater_zero_iff)
  then obtain io1 where "nebula_mbr_read ?io = (mbr_validate (posix_blk d 0), io1)"
    using posix.io_load_up [of ?io 0 mbr_validate] ok assms(3) by (auto simp: nebula_mbr_read_def NEBULA_LBA_MBR_def)
  then show "dv_path (try_device h p) = snprintf512 p" "dv_is_nebula (try_device h p) \<longleftrightarrow> label_of h p \<noteq> None"
    "label_of h p = Some mbr \<Longrightarrow> dv_uuid (try_device h p) = mbr_device_uuid mbr
      \<and> dv_capacity_blocks (try_device h p) = mbr_device_capacity_blocks mbr"
    using op assms(2) by (auto simp: try_device_def label_of_def Let_def split: sum.splits)
qed

text \<open>
  The status of a dump depends on the MBR and the head superblock alone: a damaged tail superblock,
  uberblock or root table does not change it.
\<close>

context block_backend
begin

lemma dump_status:
  assumes "okio io" and "up io" and "0 < ncap io" and "mbr_validate (disk io 0) = Inr mbr"
    and "unat (mbr_superblock_head_lba mbr) < ncap io"
  shows "fst (dump_device io) = (case sb_validate (disk io (unat (mbr_superblock_head_lba mbr))) of Inl _ \<Rightarrow> 1 | Inr _ \<Rightarrow> 0)"
proof -
  obtain io1 where r1: "nebula_mbr_read io = (Inr mbr, io1)"
    using io_load_up [of io 0 mbr_validate] assms by (auto simp: nebula_mbr_read_def NEBULA_LBA_MBR_def)
  note f1 = io_load_frame [OF assms(1) r1 [unfolded nebula_mbr_read_def]]
  note n1 = next_io_ok [OF f1(1)] next_io_up [OF f1(1) assms(2)] next_io_cap [OF f1(1)]
  obtain io2 where "nebula_superblock_read io1 (mbr_superblock_head_lba mbr) = (sb_validate (disk io (unat (mbr_superblock_head_lba mbr))), io2)"
    using io_load_up [of io1 "mbr_superblock_head_lba mbr" sb_validate] n1 f1(2) assms(5) by (auto simp: nebula_superblock_read_def)
  then show ?thesis using r1 by (simp add: dump_device_def split: prod.splits sum.splits)
qed

end

section \<open>Properties\<close>

text \<open>
  Discovery tries exactly the candidates of its paths, in their order, and at most the first 256 of them.
  Where these can be opened and read, an entry is marked as a Nebula device exactly when its first block is a
  valid label, and it then carries the identifier and the capacity of that label.
\<close>

theorem discover_exact:
  assumes "cs = take MAX_DEVICES (concat (map (candidates h) paths))"
    and "\<forall>p \<in> set cs. h_fstat h p = None \<and> (\<exists>d. h_open h p = Inr d \<and> posix_healthy d \<and> 4096 \<le> pf_size d \<and> pf_size d < 2 ^ 63)"
  shows "map dv_path (discover_paths h paths) = map snprintf512 cs
    \<and> (\<forall>i < length cs. (dv_is_nebula (discover_paths h paths ! i) \<longleftrightarrow> label_of h (cs ! i) \<noteq> None)
        \<and> (\<forall>mbr. label_of h (cs ! i) = Some mbr \<longrightarrow> dv_uuid (discover_paths h paths ! i) = mbr_device_uuid mbr
             \<and> dv_capacity_blocks (discover_paths h paths ! i) = mbr_device_capacity_blocks mbr))"
proof -
  have e: "discover_paths h paths = map (try_device h) cs" unfolding discover_paths_def assms(1) by (subst discover_fold) (simp_all add: take_map)
  have "dv_path (try_device h p) = snprintf512 p \<and> (dv_is_nebula (try_device h p) \<longleftrightarrow> label_of h p \<noteq> None)
      \<and> (\<forall>mbr. label_of h p = Some mbr \<longrightarrow> dv_uuid (try_device h p) = mbr_device_uuid mbr
           \<and> dv_capacity_blocks (try_device h p) = mbr_device_capacity_blocks mbr)" if "p \<in> set cs" for p
    using try_device_label [of h p] assms(2) that by blast
  then show ?thesis unfolding e by auto
qed

definition sample_host :: host where
  "sample_host = \<lparr>h_stat = (\<lambda>p. if p = ''/dev'' then Some S_DIR else if p = ''/dev/b'' then None else Some S_REG),
     h_readdir = (\<lambda>_. Some [''.'', ''a'', ''b'']), h_open = (\<lambda>_. Inr \<lparr>pf_bytes = (\<lambda>_. 0), pf_size = 8192, pf_script = [], pf_fsync = []\<rparr>),
     h_fstat = (\<lambda>_. None), h_domain_env = None, h_hostname = None\<rparr>"

theorem discover_exact_witness:
  "map dv_path (discover_paths sample_host [''/dev'', ''x'']) = [''/dev/a'', ''x'']"
proof -
  have c: "[''/dev/a'', ''x''] = take MAX_DEVICES (concat (map (candidates sample_host) [''/dev'', ''x'']))"
    by (simp add: candidates_def sample_host_def is_device_def snprintf512_def)
  show ?thesis using discover_exact [OF c] by (simp add: sample_host_def posix_healthy_def snprintf512_def)
qed

end
