(* ===== verification/Nebula_Spdk.thy ===== *)
theory Nebula_Spdk
  imports Nebula_Mkfs
begin

unbundle bit_operations_syntax

text \<open>
  The SPDK backend: \<open>src/io/nebula_io_spdk.c\<close>, \<open>src/io/nebula_spdk_nvme.c\<close>, \<open>src/io/nebula_spdk_env.c\<close> and
  the tool \<open>tools/nebula_spdk_probe.c\<close>.  The driver is external: its calls are the record \<open>nvme_calls\<close>, an
  argument of the definitions, and what the backend relies on is the locale \<open>nvme_driver\<close>.  A driver state
  \<open>'v\<close> stands for controller, namespace and queue pair.  Every driver that keeps these laws makes the
  backend a \<open>block_backend\<close>, so that all that is proved of the file system holds on it as well.
\<close>

section \<open>The driver calls\<close>

text \<open>
  Submission returns a code, 0 for an accepted command.  Processing completions may or may not deliver the
  completion of the command: its error flag, and the bytes the device has put at the start of the buffer.
\<close>

record 'v nvme_calls =
  nv_cmd_read :: "'v \<Rightarrow> u64 \<Rightarrow> u32 \<Rightarrow> int \<times> 'v"
  nv_cmd_write :: "'v \<Rightarrow> u64 \<Rightarrow> u32 \<Rightarrow> byte list \<Rightarrow> int \<times> 'v"
  nv_cmd_flush :: "'v \<Rightarrow> int \<times> 'v"
  nv_process_completions :: "'v \<Rightarrow> (bool \<times> byte list) option \<times> 'v"

record 'v nebula_spdk_ns =
  ns_drv :: 'v
  ns_sector_size :: u32
  ns_sectors_per_block :: u32
  ns_capacity_blocks :: u64

text \<open>\<open>memcpy\<close> to the start of a buffer.\<close>

definition copy_in :: "byte list \<Rightarrow> byte list \<Rightarrow> byte list" where
  "copy_in dst src = src @ drop (length src) dst"

lemma copy_in_Nil [simp]: "copy_in dst [] = dst"
  by (simp add: copy_in_def)

lemma length_copy_in: "length src \<le> length dst \<Longrightarrow> length (copy_in dst src) = length dst"
  by (simp add: copy_in_def)

section \<open>Completion polling\<close>

record io_ctx =
  cx_done :: bool
  cx_status :: int

definition io_complete_cb :: "io_ctx \<Rightarrow> bool \<Rightarrow> io_ctx" where
  "io_complete_cb c is_error = c\<lparr>cx_status := if is_error then -1 else 0, cx_done := True\<rparr>"

text \<open>The loop need not end: its result is \<open>None\<close> if the completion never comes.\<close>

partial_function (option) poll_until_done ::
    "'v nvme_calls \<Rightarrow> 'v \<Rightarrow> io_ctx \<Rightarrow> byte list \<Rightarrow> (int \<times> byte list \<times> 'v) option" where
  "poll_until_done C v ctx buf =
     (if cx_done ctx then Some (cx_status ctx, buf, v)
      else
        (case nv_process_completions C v of
           (None, v1) \<Rightarrow> poll_until_done C v1 ctx buf
         | (Some (is_error, bs), v1) \<Rightarrow> poll_until_done C v1 (io_complete_cb ctx is_error) (copy_in buf bs)))"

declare poll_until_done.simps [code]

section \<open>Synchronous I/O on a namespace\<close>

definition nebula_spdk_nvme_read ::
    "'v nvme_calls \<Rightarrow> 'v nebula_spdk_ns \<Rightarrow> u64 \<Rightarrow> u32 \<Rightarrow> byte list \<Rightarrow> (int \<times> byte list \<times> 'v nebula_spdk_ns) option" where
  "nebula_spdk_nvme_read C h lba n_blocks buf =
     (let nvme_lba = lba * ucast (ns_sectors_per_block h);
          nvme_blocks = n_blocks * ns_sectors_per_block h in
      case nv_cmd_read C (ns_drv h) nvme_lba nvme_blocks of
        (rc, v1) \<Rightarrow>
          if rc \<noteq> 0 then Some (-1, buf, h\<lparr>ns_drv := v1\<rparr>)
          else map_option (\<lambda>(status, buf', v2). (status, buf', h\<lparr>ns_drv := v2\<rparr>))
                 (poll_until_done C v1 \<lparr>cx_done = False, cx_status = 0\<rparr> buf))"

definition nebula_spdk_nvme_write ::
    "'v nvme_calls \<Rightarrow> 'v nebula_spdk_ns \<Rightarrow> u64 \<Rightarrow> u32 \<Rightarrow> byte list \<Rightarrow> (int \<times> byte list \<times> 'v nebula_spdk_ns) option" where
  "nebula_spdk_nvme_write C h lba n_blocks buf =
     (let nvme_lba = lba * ucast (ns_sectors_per_block h);
          nvme_blocks = n_blocks * ns_sectors_per_block h in
      case nv_cmd_write C (ns_drv h) nvme_lba nvme_blocks buf of
        (rc, v1) \<Rightarrow>
          if rc \<noteq> 0 then Some (-1, buf, h\<lparr>ns_drv := v1\<rparr>)
          else map_option (\<lambda>(status, buf', v2). (status, buf', h\<lparr>ns_drv := v2\<rparr>))
                 (poll_until_done C v1 \<lparr>cx_done = False, cx_status = 0\<rparr> buf))"

definition nebula_spdk_nvme_flush ::
    "'v nvme_calls \<Rightarrow> 'v nebula_spdk_ns \<Rightarrow> (int \<times> 'v nebula_spdk_ns) option" where
  "nebula_spdk_nvme_flush C h =
     (case nv_cmd_flush C (ns_drv h) of
        (rc, v1) \<Rightarrow>
          if rc \<noteq> 0 then Some (-1, h\<lparr>ns_drv := v1\<rparr>)
          else map_option (\<lambda>(status, _, v2). (status, h\<lparr>ns_drv := v2\<rparr>))
                 (poll_until_done C v1 \<lparr>cx_done = False, cx_status = 0\<rparr> []))"

section \<open>The operation table\<close>

abbreviation SPDK_BOUNCE_BLOCKS :: u32 where "SPDK_BOUNCE_BLOCKS \<equiv> 256"

record 'v spdk_dev =
  sd_ns :: "'v nebula_spdk_ns"
  sd_bounce :: "byte list"

function spdk_read_loop ::
    "'v nvme_calls \<Rightarrow> 'v spdk_dev \<Rightarrow> u64 \<Rightarrow> u32 \<Rightarrow> u32 \<Rightarrow> byte list \<Rightarrow> (byte list res \<times> 'v spdk_dev) option" where
  "spdk_read_loop C d lba remaining done1 buf =
     (if remaining > 0 then
        let batch = (if remaining < SPDK_BOUNCE_BLOCKS then remaining else SPDK_BOUNCE_BLOCKS) in
        (case nebula_spdk_nvme_read C (sd_ns d) (lba + ucast done1) batch (sd_bounce d) of
           None \<Rightarrow> None
         | Some (rc, bounce, ns) \<Rightarrow>
             let d1 = d\<lparr>sd_ns := ns, sd_bounce := bounce\<rparr> in
             if rc \<noteq> 0 then Some (Inl EIO, d1)
             else spdk_read_loop C d1 lba (remaining - batch) (done1 + batch) (buf @ take (unat batch * NEBULA_BLOCK_SIZE) bounce))
      else Some (Inr buf, d))"
  by pat_completeness auto

lemma batch_less: "(remaining :: u32) > 0 \<Longrightarrow> unat (remaining - (if remaining < 256 then remaining else 256)) < unat remaining"
  by (auto simp: word_less_nat_alt word_le_nat_alt unat_minus_le not_less)

termination spdk_read_loop
  by (relation "measure (\<lambda>(C, d, lba, remaining, done1, buf). unat remaining)") (use batch_less in auto)

function spdk_write_loop ::
    "'v nvme_calls \<Rightarrow> 'v spdk_dev \<Rightarrow> u64 \<Rightarrow> u32 \<Rightarrow> u32 \<Rightarrow> byte list \<Rightarrow> (unit res \<times> 'v spdk_dev) option" where
  "spdk_write_loop C d lba remaining done1 buf =
     (if remaining > 0 then
        let batch = (if remaining < SPDK_BOUNCE_BLOCKS then remaining else SPDK_BOUNCE_BLOCKS);
            part = seg (unat done1 * NEBULA_BLOCK_SIZE) (unat batch * NEBULA_BLOCK_SIZE) buf;
            bounce = copy_in (sd_bounce d) part in
        (case nebula_spdk_nvme_write C (sd_ns d) (lba + ucast done1) batch bounce of
           None \<Rightarrow> None
         | Some (rc, bounce1, ns) \<Rightarrow>
             let d1 = d\<lparr>sd_ns := ns, sd_bounce := bounce1\<rparr> in
             if rc \<noteq> 0 then Some (Inl EIO, d1)
             else spdk_write_loop C d1 lba (remaining - batch) (done1 + batch) buf)
      else Some (Inr (), d))"
  by pat_completeness auto

termination spdk_write_loop
  by (relation "measure (\<lambda>(C, d, lba, remaining, done1, buf). unat remaining)") (use batch_less in auto)

declare spdk_read_loop.simps [simp del] spdk_write_loop.simps [simp del]

definition spdk_io_read ::
    "'v nvme_calls \<Rightarrow> u64 \<Rightarrow> 'v spdk_dev \<Rightarrow> u64 \<Rightarrow> u32 \<Rightarrow> (byte list res \<times> 'v spdk_dev) option" where
  "spdk_io_read C capacity_blocks d lba n_blocks =
     (if lba + ucast n_blocks > capacity_blocks then Some (Inl ERANGE, d)
      else spdk_read_loop C d lba n_blocks 0 [])"

definition spdk_io_write ::
    "'v nvme_calls \<Rightarrow> u64 \<Rightarrow> 'v spdk_dev \<Rightarrow> u64 \<Rightarrow> u32 \<Rightarrow> byte list \<Rightarrow> (unit res \<times> 'v spdk_dev) option" where
  "spdk_io_write C capacity_blocks d lba n_blocks buf =
     (if lba + ucast n_blocks > capacity_blocks then Some (Inl ERANGE, d)
      else spdk_write_loop C d lba n_blocks 0 buf)"

definition spdk_io_flush :: "'v nvme_calls \<Rightarrow> 'v spdk_dev \<Rightarrow> (unit res \<times> 'v spdk_dev) option" where
  "spdk_io_flush C d =
     map_option (\<lambda>(rc, ns). (if rc = 0 then Inr () else Inl EIO, d\<lparr>sd_ns := ns\<rparr>)) (nebula_spdk_nvme_flush C (sd_ns d))"

text \<open>
  The table, for drivers whose accepted commands complete: the calls of the backend then return, as is
  shown below, and the alternative for a call that does not is never taken.
\<close>

definition returned :: "'d \<Rightarrow> ('a res \<times> 'd) option \<Rightarrow> 'a res \<times> 'd" where
  "returned d r = (case r of Some x \<Rightarrow> x | None \<Rightarrow> (Inl EIO, d))"

definition spdk_ops :: "'v nvme_calls \<Rightarrow> 'v spdk_dev nebula_io_ops" where
  "spdk_ops C = \<lparr>ops_read = (\<lambda>cap d lba n. returned d (spdk_io_read C cap d lba n)),
     ops_write = (\<lambda>cap d lba n buf. returned d (spdk_io_write C cap d lba n buf)),
     ops_flush = (\<lambda>d. returned d (spdk_io_flush C d))\<rparr>"

section \<open>What the backend relies on\<close>

text \<open>The completion that processing delivers, after some rounds without one.\<close>

inductive polls :: "'v nvme_calls \<Rightarrow> 'v \<Rightarrow> bool \<Rightarrow> byte list \<Rightarrow> 'v \<Rightarrow> bool" for C where
  polls_now: "nv_process_completions C v = (Some (err, bs), v') \<Longrightarrow> polls C v err bs v'"
| polls_later: "nv_process_completions C v = (None, v1) \<Longrightarrow> polls C v1 err bs v' \<Longrightarrow> polls C v err bs v'"

lemma poll_until_done_polls:
  assumes "polls C v err bs v'"
  shows "poll_until_done C v \<lparr>cx_done = False, cx_status = 0\<rparr> buf = Some (if err then -1 else 0, copy_in buf bs, v')"
  using assms
  by induction (subst poll_until_done.simps, simp add: io_complete_cb_def poll_until_done.simps)+

text \<open>
  The laws of a driver.  \<open>byt v\<close> is the content of the namespace by byte, \<open>ssz v\<close> its sector size, \<open>nsec v\<close>
  the number of its sectors, and \<open>live v\<close> says that no command fails.  An accepted command completes.  A
  read returns the sectors it names; a write that succeeds stores its buffer, one that fails may have
  torn its own sectors; a command that leaves the namespace is refused without effect.
\<close>

definition drv_same :: "('v \<Rightarrow> nat) \<Rightarrow> ('v \<Rightarrow> nat) \<Rightarrow> ('v \<Rightarrow> bool) \<Rightarrow> 'v \<Rightarrow> 'v \<Rightarrow> bool" where
  "drv_same ssz nsec live v v' \<longleftrightarrow> ssz v' = ssz v \<and> nsec v' = nsec v \<and> (live v \<longrightarrow> live v')"

locale nvme_driver =
  fixes C :: "'v nvme_calls" and byt :: "'v \<Rightarrow> nat \<Rightarrow> byte" and ssz :: "'v \<Rightarrow> nat" and nsec :: "'v \<Rightarrow> nat" and live :: "'v \<Rightarrow> bool"
  assumes read_refused: "nv_cmd_read C v lba n = (rc, v1) \<Longrightarrow> rc \<noteq> 0 \<Longrightarrow> drv_same ssz nsec live v v1 \<and> byt v1 = byt v"
    and read_completes: "nv_cmd_read C v lba n = (0, v1) \<Longrightarrow> \<exists>err bs v2. polls C v1 err bs v2 \<and> drv_same ssz nsec live v v2 \<and> byt v2 = byt v
          \<and> length bs \<le> unat n * ssz v
          \<and> (\<not> err \<longrightarrow> unat lba + unat n \<le> nsec v \<and> bs = map (byt v) [unat lba * ssz v..<(unat lba + unat n) * ssz v])
          \<and> (live v \<and> unat lba + unat n \<le> nsec v \<longrightarrow> \<not> err)"
    and read_accepted: "live v \<Longrightarrow> unat lba + unat n \<le> nsec v \<Longrightarrow> fst (nv_cmd_read C v lba n) = 0"
    and write_refused: "nv_cmd_write C v lba n buf = (rc, v1) \<Longrightarrow> rc \<noteq> 0 \<Longrightarrow> drv_same ssz nsec live v v1 \<and> byt v1 = byt v"
    and write_completes: "nv_cmd_write C v lba n buf = (0, v1) \<Longrightarrow> unat n * ssz v \<le> length buf \<Longrightarrow>
          \<exists>err v2. polls C v1 err [] v2 \<and> drv_same ssz nsec live v v2
          \<and> (\<forall>i. i < unat lba * ssz v \<or> (unat lba + unat n) * ssz v \<le> i \<longrightarrow> byt v2 i = byt v i)
          \<and> (unat lba + unat n > nsec v \<longrightarrow> err \<and> byt v2 = byt v)
          \<and> (\<not> err \<longrightarrow> (\<forall>i < unat n * ssz v. byt v2 (unat lba * ssz v + i) = buf ! i))
          \<and> (live v \<and> unat lba + unat n \<le> nsec v \<longrightarrow> \<not> err)"
    and write_accepted: "live v \<Longrightarrow> unat lba + unat n \<le> nsec v \<Longrightarrow> fst (nv_cmd_write C v lba n buf) = 0"
    and flush_refused: "nv_cmd_flush C v = (rc, v1) \<Longrightarrow> rc \<noteq> 0 \<Longrightarrow> drv_same ssz nsec live v v1 \<and> byt v1 = byt v"
    and flush_completes: "nv_cmd_flush C v = (0, v1) \<Longrightarrow> \<exists>err bs v2. polls C v1 err bs v2 \<and> drv_same ssz nsec live v v2 \<and> byt v2 = byt v
          \<and> (live v \<longrightarrow> \<not> err)"
    and flush_accepted: "live v \<Longrightarrow> fst (nv_cmd_flush C v) = 0"

text \<open>
  The blocks of a device, and its invariant: the handle describes the namespace, whose sector size divides
  a block, and the namespace holds the capacity.
\<close>

definition spdk_blk :: "('v \<Rightarrow> nat \<Rightarrow> byte) \<Rightarrow> 'v spdk_dev \<Rightarrow> nat \<Rightarrow> byte list" where
  "spdk_blk byt d i = map (byt (ns_drv (sd_ns d))) [i * 4096..<i * 4096 + 4096]"

definition spdk_inv :: "('v \<Rightarrow> nat) \<Rightarrow> ('v \<Rightarrow> nat) \<Rightarrow> u64 \<Rightarrow> 'v spdk_dev \<Rightarrow> bool" where
  "spdk_inv ssz nsec cap d \<longleftrightarrow>
     (let h = sd_ns d; v = ns_drv h; spb = unat (ns_sectors_per_block h) in
      length (sd_bounce d) = 1048576 \<and> spb * ssz v = 4096 \<and> unat cap * spb \<le> nsec v \<and> nsec v * ssz v < 2 ^ 63)"

definition spdk_healthy :: "('v \<Rightarrow> bool) \<Rightarrow> 'v spdk_dev \<Rightarrow> bool" where
  "spdk_healthy live d \<longleftrightarrow> live (ns_drv (sd_ns d))"

lemma blocks_bytes: "concat (map (\<lambda>i. map f [i * 4096..<i * 4096 + 4096]) [a..<a + n]) = map f [a * 4096..<(a + n) * 4096]"
proof (induction n)
  case (Suc n)
  have "[a * 4096..<(a + Suc n) * 4096] = [a * 4096..<(a + n) * 4096] @ [(a + n) * 4096..<(a + n) * 4096 + 4096]"
    using upt_add_eq_append [of "a * 4096" "(a + n) * 4096" 4096] by (simp add: algebra_simps)
  then show ?case using Suc by simp
qed simp

context nvme_driver
begin

abbreviation "sblk \<equiv> spdk_blk byt"
abbreviation "sinv \<equiv> spdk_inv ssz nsec"
abbreviation "slive \<equiv> spdk_healthy live"

text \<open>The sectors of a batch of blocks; addresses near the top of the 64-bit range leave the namespace.\<close>

lemma sector_range:
  assumes "sinv cap d" and "unat batch \<le> 256"
  defines "h \<equiv> sd_ns d" and "spb \<equiv> unat (ns_sectors_per_block (sd_ns d))" and "v \<equiv> ns_drv (sd_ns d)"
  shows "unat (batch * ns_sectors_per_block h) = unat batch * spb" and "unat batch * spb * ssz v = unat batch * 4096"
    and "unat lba < 2 ^ 52 \<Longrightarrow> unat (lba * ucast (ns_sectors_per_block h) :: u64) = unat lba * spb"
    and "unat lba \<ge> 2 ^ 64 - 2 ^ 32 \<Longrightarrow> unat (lba * ucast (ns_sectors_per_block h) :: u64) > nsec v"
    and "0 < spb" and "spb \<le> 4096"
proof -
  have inv: "spb * ssz v = 4096" "nsec v * ssz v < 2 ^ 63" using assms(1) by (simp_all add: spdk_inv_def Let_def spb_def v_def)
  show pos: "0 < spb" using inv(1) by (cases "spb = 0") simp_all
  have s0: "0 < ssz v" using inv(1) by (cases "ssz v = 0") simp_all
  show le: "spb \<le> 4096" using inv(1) s0 by (metis One_nat_def Suc_leI mult.right_neutral mult_le_mono2)
  have "unat batch * spb \<le> 256 * 4096" using assms(2) le by (rule mult_le_mono)
  then show "unat (batch * ns_sectors_per_block h) = unat batch * spb"
    by (simp add: unat_times_if_small spb_def h_def)
  show "unat batch * spb * ssz v = unat batch * 4096" using inv(1) by (simp add: mult.assoc)
  show "unat (lba * ucast (ns_sectors_per_block h) :: u64) = unat lba * spb" if "unat lba < 2 ^ 52"
  proof -
    have "unat lba * spb \<le> unat lba * 4096" using le by (rule mult_le_mono2)
    also have "\<dots> < 2 ^ 64" using that by simp
    finally have "unat lba * spb < 2 ^ 64" .
    then show ?thesis by (simp add: unat_times_if_small spb_def h_def)
  qed
  show "unat (lba * ucast (ns_sectors_per_block h) :: u64) > nsec v" if big: "unat lba \<ge> 2 ^ 64 - 2 ^ 32"
  proof -
    define k where "k = 2 ^ 64 - unat lba"
    have "unat lba < 2 ^ 64" using unat_u64_less [of lba] by simp
    then have k: "unat lba + k = 2 ^ 64" "k \<le> 2 ^ 32" "0 < k" using big unfolding k_def by linarith+
    have kb: "k * spb \<le> 2 ^ 32 * 4096" using k(2) le by (rule mult_le_mono)
    have k0: "0 < k * spb" using k(3) pos by simp
    have e: "unat lba * spb + k * spb = 2 ^ 64 * spb" using k(1) by (simp flip: add_mult_distrib)
    have e2: "2 ^ 64 * spb = (2 :: nat) ^ 64 * (spb - 1) + 2 ^ 64" using pos by (cases spb) simp_all
    have split: "x = a + (b - y)" if "x + y = z" "z = a + b" "y \<le> b" for x y z a b :: nat using that by linarith
    have "k * spb \<le> 2 ^ 64" using kb by simp
    then have "unat lba * spb = 2 ^ 64 * (spb - 1) + (2 ^ 64 - k * spb)" by (rule split [OF e e2])
    then have "(unat lba * spb) mod 2 ^ 64 = (2 ^ 64 - k * spb) mod 2 ^ 64" by (simp add: mod_mult_self4)
    also have "\<dots> = 2 ^ 64 - k * spb" using k0 by (intro mod_less) simp
    finally have "unat (lba * ucast (ns_sectors_per_block h) :: u64) = 2 ^ 64 - k * spb"
      by (simp add: unat_word_ariths spb_def h_def)
    moreover have "nsec v < 2 ^ 63" using inv(2) s0 by (metis One_nat_def Suc_leI le_less_trans mult.right_neutral mult_le_mono2)
    ultimately show ?thesis using kb by simp
  qed
qed

text \<open>What the handle keeps when only the driver's state changes, and the blocks of the bytes it holds.\<close>

lemma same_device:
  assumes "drv_same ssz nsec live (ns_drv (sd_ns d)) v'"
  defines "d' \<equiv> d\<lparr>sd_ns := (sd_ns d)\<lparr>ns_drv := v'\<rparr>\<rparr>"
  shows "sinv cap d \<Longrightarrow> sinv cap d'" and "slive d \<Longrightarrow> slive d'" and "byt v' = byt (ns_drv (sd_ns d)) \<Longrightarrow> sblk d' = sblk d"
  using assms(1) by (simp_all add: d'_def spdk_inv_def spdk_blk_def spdk_healthy_def drv_same_def fun_eq_iff Let_def)

lemma sblk_frame:
  assumes "\<And>q. q < a * 4096 \<or> b * 4096 \<le> q \<Longrightarrow> byt v' q = byt (ns_drv (sd_ns d)) q" and "i < a \<or> b \<le> i"
  shows "sblk (d\<lparr>sd_ns := (sd_ns d)\<lparr>ns_drv := v'\<rparr>\<rparr>) i = sblk d i"
proof -
  have "byt v' q = byt (ns_drv (sd_ns d)) q" if "q \<in> {i * 4096..<i * 4096 + 4096}" for q
    using assms(2) that by (intro assms(1)) auto
  then show ?thesis by (simp add: spdk_blk_def)
qed

lemma sblk_stored:
  assumes "\<And>i. i < n * 4096 \<Longrightarrow> byt v' (a * 4096 + i) = bo ! i" and "n * 4096 \<le> length bo" and "j < n"
  shows "sblk (d\<lparr>sd_ns := h\<lparr>ns_drv := v'\<rparr>\<rparr>) (a + j) = seg (4096 * j) 4096 bo"
proof (rule nth_equalityI)
  let ?b = "sblk (d\<lparr>sd_ns := h\<lparr>ns_drv := v'\<rparr>\<rparr>) (a + j)"
  show "length ?b = length (seg (4096 * j) 4096 bo)" using assms(2,3) by (simp add: spdk_blk_def)
  fix i assume "i < length ?b"
  then have i: "i < 4096" by (simp add: spdk_blk_def)
  then have "byt v' (a * 4096 + (4096 * j + i)) = bo ! (4096 * j + i)" using assms(3) by (intro assms(1)) simp
  then show "?b ! i = seg (4096 * j) 4096 bo ! i"
    using i assms(2,3) by (simp add: spdk_blk_def seg_def add_mult_distrib algebra_simps)
qed

lemma cap_small:
  assumes "sinv cap d"
  shows "unat cap \<le> 2 ^ 51"
proof -
  define v spb where "v = ns_drv (sd_ns d)" and "spb = unat (ns_sectors_per_block (sd_ns d))"
  have iv: "spb * ssz v = 4096" "unat cap * spb \<le> nsec v" "nsec v * ssz v < 2 ^ 63"
    using assms by (simp_all add: spdk_inv_def Let_def spb_def v_def)
  have "unat cap * 4096 \<le> nsec v * ssz v" using mult_le_mono1 [OF iv(2), of "ssz v"] iv(1) by (simp add: mult.assoc)
  then show ?thesis using iv(3) by simp
qed

text \<open>The bytes a batch of blocks names: those of its blocks, inside the namespace when the batch is inside the capacity.\<close>

lemma batch_bytes:
  fixes lba :: u64
  assumes inv: "sinv cap d" and b: "unat batch \<le> 256"
  defines "v \<equiv> ns_drv (sd_ns d)" and "nlba \<equiv> lba * ucast (ns_sectors_per_block (sd_ns d))" and "nblk \<equiv> batch * ns_sectors_per_block (sd_ns d)"
  shows "unat nblk * ssz v = unat batch * 4096"
    and "unat lba < 2 ^ 52 \<Longrightarrow> unat nlba * ssz v = unat lba * 4096"
    and "unat lba < 2 ^ 52 \<Longrightarrow> (unat nlba + unat nblk) * ssz v = (unat lba + unat batch) * 4096"
    and "unat lba + unat batch \<le> unat cap \<Longrightarrow> unat nlba + unat nblk \<le> nsec v"
    and "unat lba < 2 ^ 52 \<or> unat lba \<ge> 2 ^ 64 - 2 ^ 32 \<Longrightarrow> unat nlba + unat nblk \<le> nsec v \<Longrightarrow> unat lba < 2 ^ 52"
proof -
  note sr = sector_range [OF inv b, folded v_def nlba_def nblk_def]
  define spb where "spb = unat (ns_sectors_per_block (sd_ns d))"
  have iv: "spb * ssz v = 4096" "unat cap * spb \<le> nsec v" using inv by (simp_all add: spdk_inv_def Let_def spb_def v_def)
  have sl: "unat nlba = unat lba * spb" if "unat lba < 2 ^ 52" using sr(3) [OF that] by (simp add: nlba_def spb_def)
  show nb: "unat nblk * ssz v = unat batch * 4096" using sr(1,2) by (simp add: nblk_def)
  show nl: "unat nlba * ssz v = unat lba * 4096" if "unat lba < 2 ^ 52" using sl [OF that] iv(1) by (simp add: mult.assoc)
  show "(unat nlba + unat nblk) * ssz v = (unat lba + unat batch) * 4096" if "unat lba < 2 ^ 52"
    using nl [OF that] nb by (simp add: add_mult_distrib)
  show "unat nlba + unat nblk \<le> nsec v" if "unat lba + unat batch \<le> unat cap"
  proof -
    have "unat lba < 2 ^ 52" using that cap_small [OF inv] by simp
    moreover have "(unat lba + unat batch) * spb \<le> unat cap * spb" using that by (rule mult_le_mono1)
    ultimately show ?thesis using sr(1) sl iv(2) by (simp add: nblk_def spb_def add_mult_distrib)
  qed
  show "unat lba < 2 ^ 52" if "unat lba < 2 ^ 52 \<or> unat lba \<ge> 2 ^ 64 - 2 ^ 32" "unat nlba + unat nblk \<le> nsec v"
    using that sr(4) [of lba] unfolding nlba_def by linarith
qed

lemma nvme_read_batch:
  assumes inv: "sinv cap d" and b: "unat batch \<le> 256" and lba: "unat lba < 2 ^ 52 \<or> unat lba \<ge> 2 ^ 64 - 2 ^ 32" and bo: "unat batch * 4096 \<le> length bo"
  obtains rc bounce ns where "nebula_spdk_nvme_read C (sd_ns d) lba batch bo = Some (rc, bounce, ns)" and "length bounce = length bo"
    and "sinv cap (d\<lparr>sd_ns := ns\<rparr>)" and "sblk (d\<lparr>sd_ns := ns\<rparr>) = sblk d"
    and "slive d \<Longrightarrow> slive (d\<lparr>sd_ns := ns\<rparr>)"
    and "rc = 0 \<Longrightarrow> unat lba < 2 ^ 52 \<and> take (unat batch * 4096) bounce = concat (map (sblk d) [unat lba..<unat lba + unat batch])"
    and "slive d \<Longrightarrow> unat lba + unat batch \<le> unat cap \<Longrightarrow> rc = 0"
proof -
  define h v where "h = sd_ns d" and "v = ns_drv h"
  define nlba nblk where "nlba = lba * ucast (ns_sectors_per_block h)" and "nblk = batch * ns_sectors_per_block h"
  note bb = batch_bytes(1) [OF inv b, folded h_def, folded v_def nlba_def nblk_def] batch_bytes(2-) [OF inv b, of lba, folded h_def, folded v_def nlba_def nblk_def]
  note keep = same_device [of d, folded h_def, folded v_def]
  obtain rc0 v1 where sub: "nv_cmd_read C v nlba nblk = (rc0, v1)" by (rule prod.exhaust)
  note model = nebula_spdk_nvme_read_def Let_def nlba_def nblk_def v_def h_def
  show ?thesis
  proof (cases "rc0 = 0")
    case False
    note fr = read_refused [OF sub False]
    have "nebula_spdk_nvme_read C (sd_ns d) lba batch bo = Some (-1, bo, h\<lparr>ns_drv := v1\<rparr>)"
      using sub False by (simp add: model)
    moreover have "False" if "slive d" "unat lba + unat batch \<le> unat cap"
      using read_accepted [of v nlba nblk] bb(4) [OF that(2)] that(1) sub False by (simp add: spdk_healthy_def h_def v_def)
    ultimately show ?thesis using keep [OF conjunct1 [OF fr]] fr inv by (intro that [of "-1" bo "h\<lparr>ns_drv := v1\<rparr>"]) auto
  next
    case True
    obtain err bs v2 where p: "polls C v1 err bs v2" "drv_same ssz nsec live v v2" "byt v2 = byt v" "length bs \<le> unat nblk * ssz v"
      "\<not> err \<Longrightarrow> unat nlba + unat nblk \<le> nsec v \<and> bs = map (byt v) [unat nlba * ssz v..<(unat nlba + unat nblk) * ssz v]"
      "live v \<and> unat nlba + unat nblk \<le> nsec v \<Longrightarrow> \<not> err"
      using read_completes [OF sub [unfolded True]] by blast
    let ?bo = "copy_in bo bs" and ?ns = "h\<lparr>ns_drv := v2\<rparr>" and ?rc = "if err then -1 else 0 :: int"
    have "nebula_spdk_nvme_read C (sd_ns d) lba batch bo = Some (?rc, ?bo, ?ns)"
      using sub True poll_until_done_polls [OF p(1)] by (simp add: model)
    moreover have "length ?bo = length bo" using p(4) bb(1) bo by (simp add: length_copy_in)
    moreover have "unat lba < 2 ^ 52 \<and> take (unat batch * 4096) ?bo = concat (map (sblk d) [unat lba..<unat lba + unat batch])" if "\<not> err"
    proof -
      note q = p(5) [OF that]
      have l: "unat lba < 2 ^ 52" using bb(5) [OF lba conjunct1 [OF q]] .
      have bs: "bs = map (byt v) [unat lba * 4096..<(unat lba + unat batch) * 4096]" using q bb(2,3) [OF l] by simp
      then have "length bs = unat batch * 4096" by (simp add: add_mult_distrib)
      moreover have "bs = concat (map (sblk d) [unat lba..<unat lba + unat batch])"
        using bs blocks_bytes [of "byt v" "unat lba" "unat batch"] by (simp add: spdk_blk_def [abs_def] v_def h_def)
      ultimately show ?thesis using l by (simp add: copy_in_def)
    qed
    moreover have "?rc = 0" if "slive d" "unat lba + unat batch \<le> unat cap"
      using p(6) bb(4) [OF that(2)] that(1) by (simp add: spdk_healthy_def h_def v_def)
    ultimately show ?thesis using keep [OF p(2)] p(3) inv by (intro that [of ?rc ?bo ?ns]) (auto split: if_splits)
  qed
qed

lemma batch_bound: "unat (if (r :: u32) < 256 then r else 256) \<le> 256" "unat (if (r :: u32) < 256 then r else 256) \<le> unat r"
  by (auto simp: word_less_nat_alt)

text \<open>The bounce buffer is no part of the device.\<close>

lemma bounce_irrelevant:
  "length bo = 1048576 \<Longrightarrow> sinv cap d \<Longrightarrow> sinv cap (d\<lparr>sd_bounce := bo\<rparr>)" "sblk (d\<lparr>sd_bounce := bo\<rparr>) = sblk d" "slive (d\<lparr>sd_bounce := bo\<rparr>) = slive d"
  by (simp_all add: spdk_inv_def spdk_blk_def spdk_healthy_def Let_def fun_eq_iff)

text \<open>A transfer inside the capacity, by the loop over batches.\<close>

lemma read_loop_ok:
  assumes "sinv cap d" and "unat lba + unat done1 + unat remaining \<le> unat cap" and "unat done1 + unat remaining < 2 ^ 32"
  shows "\<exists>r d'. spdk_read_loop C d lba remaining done1 buf = Some (r, d') \<and> sinv cap d' \<and> sblk d' = sblk d \<and> (slive d \<longrightarrow> slive d')
    \<and> (\<forall>bs. r = Inr bs \<longrightarrow> bs = buf @ concat (map (sblk d) [unat lba + unat done1..<unat lba + unat done1 + unat remaining]))
    \<and> (slive d \<longrightarrow> (\<exists>bs. r = Inr bs))"
  using assms
proof (induction "unat remaining" arbitrary: d remaining done1 buf rule: less_induct)
  case less
  show ?case
  proof (cases "remaining > 0")
    case False
    then show ?thesis using less(2) by (subst spdk_read_loop.simps) (simp add: word_less_nat_alt)
  next
    case True
    define batch where "batch = (if remaining < 256 then remaining else 256)"
    have b: "unat batch \<le> 256" "unat batch \<le> unat remaining" "unat (remaining - batch) < unat remaining"
      using batch_bound [of remaining] batch_less [OF True] by (simp_all add: batch_def)
    have "unat lba + unat done1 < 2 ^ 64" using less(3) cap_small [OF less(2)] by simp
    then have l: "unat (lba + ucast done1) = unat lba + unat done1" by (simp add: unat_plus_if_small)
    have n: "unat (remaining - batch) = unat remaining - unat batch" "unat (done1 + batch) = unat done1 + unat batch"
      using b(2) less(4) by (simp_all add: unat_minus_le unat_plus_if_small)
    have "unat (lba + ucast done1) < 2 ^ 52 \<or> unat (lba + ucast done1) \<ge> 2 ^ 64 - 2 ^ 32"
      using l less(3) cap_small [OF less(2)] by simp
    note cond = this
    have bl: "length (sd_bounce d) = 1048576" using less(2) by (simp add: spdk_inv_def Let_def)
    have bw: "unat batch * 4096 \<le> length (sd_bounce d)" using bl b(1) by simp
    obtain rc bo ns where r: "nebula_spdk_nvme_read C (sd_ns d) (lba + ucast done1) batch (sd_bounce d) = Some (rc, bo, ns)"
      "sinv cap (d\<lparr>sd_ns := ns, sd_bounce := bo\<rparr>)" "sblk (d\<lparr>sd_ns := ns, sd_bounce := bo\<rparr>) = sblk d"
      "slive d \<Longrightarrow> slive (d\<lparr>sd_ns := ns, sd_bounce := bo\<rparr>)"
      "rc = 0 \<Longrightarrow> take (unat batch * 4096) bo = concat (map (sblk d) [unat lba + unat done1..<unat lba + unat done1 + unat batch])"
      "slive d \<Longrightarrow> unat lba + unat done1 + unat batch \<le> unat cap \<Longrightarrow> rc = 0"
      by (rule nvme_read_batch [OF less(2) b(1) cond bw]) (use bounce_irrelevant bl in \<open>simp_all add: l\<close>)
    let ?d = "d\<lparr>sd_ns := ns, sd_bounce := bo\<rparr>" and ?part = "take (unat batch * 4096) bo"
    have step: "spdk_read_loop C d lba remaining done1 buf =
        (if rc \<noteq> 0 then Some (Inl EIO, ?d) else spdk_read_loop C ?d lba (remaining - batch) (done1 + batch) (buf @ ?part))"
      using True r(1) by (subst spdk_read_loop.simps) (simp add: Let_def batch_def [symmetric])
    show ?thesis
    proof (cases "rc = 0")
      case False
      moreover have "unat lba + unat done1 + unat batch \<le> unat cap" using b(2) less(3) by simp
      ultimately show ?thesis using step r(2-4,6) by auto
    next
      case rc: True
      have ext: "[unat lba + unat done1..<unat lba + unat done1 + unat remaining] = [unat lba + unat done1..<unat lba + unat done1 + unat batch]
          @ [unat lba + unat (done1 + batch)..<unat lba + unat (done1 + batch) + unat (remaining - batch)]"
        using upt_add_eq_append [of "unat lba + unat done1" "unat lba + unat done1 + unat batch" "unat remaining - unat batch"] b(2) n by (simp add: add.assoc)
      have "unat lba + unat (done1 + batch) + unat (remaining - batch) \<le> unat cap" "unat (done1 + batch) + unat (remaining - batch) < 2 ^ 32"
        using n b(2) less(3,4) by simp_all
      from less(1) [OF b(3) r(2) this, of "buf @ ?part"]
      show ?thesis unfolding step ext using rc r(3,4,5) by auto
    qed
  qed
qed

text \<open>A range that wraps passes the check of the backend; the driver refuses its first batch.\<close>

lemma read_loop_wrap:
  assumes "sinv cap d" and "unat lba \<ge> 2 ^ 64 - 2 ^ 32" and "n > 0"
  shows "\<exists>d'. spdk_read_loop C d lba n 0 [] = Some (Inl EIO, d') \<and> sinv cap d' \<and> sblk d' = sblk d \<and> (slive d \<longrightarrow> slive d')"
proof -
  define batch where "batch = (if n < 256 then n else 256)"
  have b: "unat batch \<le> 256" using batch_bound by (simp add: batch_def)
  have nl: "\<not> unat lba < 2 ^ 52" using assms(2) by simp
  have bl: "length (sd_bounce d) = 1048576" using assms(1) by (simp add: spdk_inv_def Let_def)
  have bw: "unat batch * 4096 \<le> length (sd_bounce d)" using bl b by simp
  obtain rc bo ns where r: "nebula_spdk_nvme_read C (sd_ns d) lba batch (sd_bounce d) = Some (rc, bo, ns)"
    "sinv cap (d\<lparr>sd_ns := ns, sd_bounce := bo\<rparr>)" "sblk (d\<lparr>sd_ns := ns, sd_bounce := bo\<rparr>) = sblk d"
    "slive d \<Longrightarrow> slive (d\<lparr>sd_ns := ns, sd_bounce := bo\<rparr>)" "rc \<noteq> 0"
    by (rule nvme_read_batch [OF assms(1) b disjI2 [OF assms(2)] bw]) (use bounce_irrelevant bl nl in \<open>auto simp del: not_less\<close>)
  have "spdk_read_loop C d lba n 0 [] = Some (Inl EIO, d\<lparr>sd_ns := ns, sd_bounce := bo\<rparr>)"
    using assms(3) r(1,5) by (subst spdk_read_loop.simps) (simp add: Let_def batch_def [symmetric])
  then show ?thesis using r by blast
qed

lemma nvme_write_batch:
  assumes inv: "sinv cap d" and b: "unat batch \<le> 256" and lba: "unat lba < 2 ^ 52 \<or> unat lba \<ge> 2 ^ 64 - 2 ^ 32" and bo: "unat batch * 4096 \<le> length bo"
  obtains rc ns where "nebula_spdk_nvme_write C (sd_ns d) lba batch bo = Some (rc, bo, ns)"
    and "sinv cap (d\<lparr>sd_ns := ns\<rparr>)" and "slive d \<Longrightarrow> slive (d\<lparr>sd_ns := ns\<rparr>)"
    and "\<And>i. i < unat lba \<or> unat lba + unat batch \<le> i \<Longrightarrow> unat lba < 2 ^ 52 \<Longrightarrow> sblk (d\<lparr>sd_ns := ns\<rparr>) i = sblk d i"
    and "\<not> unat lba < 2 ^ 52 \<Longrightarrow> rc \<noteq> 0 \<and> sblk (d\<lparr>sd_ns := ns\<rparr>) = sblk d"
    and "\<And>j. rc = 0 \<Longrightarrow> j < unat batch \<Longrightarrow> sblk (d\<lparr>sd_ns := ns\<rparr>) (unat lba + j) = seg (4096 * j) 4096 bo"
    and "slive d \<Longrightarrow> unat lba + unat batch \<le> unat cap \<Longrightarrow> rc = 0"
proof -
  define h v where "h = sd_ns d" and "v = ns_drv h"
  define nlba nblk where "nlba = lba * ucast (ns_sectors_per_block h)" and "nblk = batch * ns_sectors_per_block h"
  note bb = batch_bytes(1) [OF inv b, folded h_def, folded v_def nlba_def nblk_def] batch_bytes(2-) [OF inv b, of lba, folded h_def, folded v_def nlba_def nblk_def]
  note keep = same_device [of d, folded h_def, folded v_def]
  obtain rc0 v1 where sub: "nv_cmd_write C v nlba nblk bo = (rc0, v1)" by (rule prod.exhaust)
  note model = nebula_spdk_nvme_write_def Let_def nlba_def nblk_def v_def h_def
  show ?thesis
  proof (cases "rc0 = 0")
    case False
    note fr = write_refused [OF sub False]
    have "nebula_spdk_nvme_write C (sd_ns d) lba batch bo = Some (-1, bo, h\<lparr>ns_drv := v1\<rparr>)"
      using sub False by (simp add: model)
    moreover have "False" if "slive d" "unat lba + unat batch \<le> unat cap"
      using write_accepted [of v nlba nblk bo] bb(4) [OF that(2)] that(1) sub False by (simp add: spdk_healthy_def h_def v_def)
    ultimately show ?thesis using keep [OF conjunct1 [OF fr]] fr inv by (intro that [of "-1" "h\<lparr>ns_drv := v1\<rparr>"]) auto
  next
    case True
    obtain err v2 where p: "polls C v1 err [] v2" "drv_same ssz nsec live v v2"
      "\<And>i. i < unat nlba * ssz v \<or> (unat nlba + unat nblk) * ssz v \<le> i \<Longrightarrow> byt v2 i = byt v i"
      "unat nlba + unat nblk > nsec v \<Longrightarrow> err \<and> byt v2 = byt v"
      "\<And>i. \<not> err \<Longrightarrow> i < unat nblk * ssz v \<Longrightarrow> byt v2 (unat nlba * ssz v + i) = bo ! i"
      "live v \<and> unat nlba + unat nblk \<le> nsec v \<Longrightarrow> \<not> err"
      using write_completes [OF sub [unfolded True]] bb(1) bo by auto
    let ?ns = "h\<lparr>ns_drv := v2\<rparr>" and ?rc = "if err then -1 else 0 :: int"
    let ?d = "d\<lparr>sd_ns := ?ns\<rparr>"
    show ?thesis
    proof (rule that [of ?rc ?ns])
      show "nebula_spdk_nvme_write C (sd_ns d) lba batch bo = Some (?rc, bo, ?ns)"
        using sub True poll_until_done_polls [OF p(1)] by (simp add: model)
      show "sinv cap ?d" by (rule keep(1) [OF p(2) inv])
      show "slive ?d" if "slive d" by (rule keep(2) [OF p(2) that])
      show "sblk ?d i = sblk d i" if o: "i < unat lba \<or> unat lba + unat batch \<le> i" and l: "unat lba < 2 ^ 52" for i
        using sblk_frame [OF _ o, of v2 d] p(3) unfolding bb(2,3) [OF l] by (simp add: h_def v_def)
      show "?rc \<noteq> 0 \<and> sblk ?d = sblk d" if "\<not> unat lba < 2 ^ 52"
        using p(4) bb(5) [OF lba] that keep(3) [OF p(2)] not_le by auto
      show "sblk ?d (unat lba + j) = seg (4096 * j) 4096 bo" if ok: "?rc = 0" and j: "j < unat batch" for j
      proof -
        have ne: "\<not> err" using ok by (simp split: if_splits)
        have l: "unat lba < 2 ^ 52" using p(4) ne by (intro bb(5) [OF lba]) force
        show ?thesis using p(5) [OF ne] unfolding bb(1) bb(2) [OF l] by (rule sblk_stored [OF _ bo j])
      qed
      show "?rc = 0" if "slive d" "unat lba + unat batch \<le> unat cap"
        using p(6) bb(4) [OF that(2)] that(1) by (simp add: spdk_healthy_def h_def v_def)
    qed
  qed
qed

lemma write_loop_ok:
  assumes "sinv cap d" and "unat lba + unat done1 + unat remaining \<le> unat cap" and "unat done1 + unat remaining < 2 ^ 32"
  shows "\<exists>r d'. spdk_write_loop C d lba remaining done1 buf = Some (r, d') \<and> sinv cap d' \<and> (slive d \<longrightarrow> slive d')
    \<and> (\<forall>i. i < unat lba + unat done1 \<or> unat lba + unat done1 + unat remaining \<le> i \<longrightarrow> sblk d' i = sblk d i)
    \<and> (r = Inr () \<and> (unat done1 + unat remaining) * 4096 \<le> length buf \<longrightarrow>
         (\<forall>j < unat remaining. sblk d' (unat lba + unat done1 + j) = seg (4096 * (unat done1 + j)) 4096 buf))
    \<and> (slive d \<longrightarrow> r = Inr ())"
  using assms
proof (induction "unat remaining" arbitrary: d remaining done1 rule: less_induct)
  case less
  show ?case
  proof (cases "remaining > 0")
    case False
    then show ?thesis using less(2) by (subst spdk_write_loop.simps) (simp add: word_less_nat_alt)
  next
    case True
    define batch where "batch = (if remaining < 256 then remaining else 256)"
    define part where "part = seg (unat done1 * 4096) (unat batch * 4096) buf"
    define bo where "bo = copy_in (sd_bounce d) part"
    have b: "unat batch \<le> 256" "unat batch \<le> unat remaining" "unat (remaining - batch) < unat remaining"
      using batch_bound [of remaining] batch_less [OF True] by (simp_all add: batch_def)
    have "unat lba + unat done1 < 2 ^ 64" using less(3) cap_small [OF less(2)] by simp
    then have l: "unat (lba + ucast done1) = unat lba + unat done1" by (simp add: unat_plus_if_small)
    have n: "unat (remaining - batch) = unat remaining - unat batch" "unat (done1 + batch) = unat done1 + unat batch"
      using b(2) less(4) by (simp_all add: unat_minus_le unat_plus_if_small)
    have lo: "unat (lba + ucast done1) < 2 ^ 52" using l less(3) cap_small [OF less(2)] by simp
    have "length part \<le> unat batch * 4096" by (simp add: part_def seg_def)
    then have bl: "length bo = 1048576" using b(1) less(2) by (simp add: bo_def spdk_inv_def Let_def length_copy_in)
    have bw: "unat batch * 4096 \<le> length bo" using bl b(1) by simp
    obtain rc ns where r: "nebula_spdk_nvme_write C (sd_ns d) (lba + ucast done1) batch bo = Some (rc, bo, ns)"
      "sinv cap (d\<lparr>sd_ns := ns, sd_bounce := bo\<rparr>)" "slive d \<Longrightarrow> slive (d\<lparr>sd_ns := ns, sd_bounce := bo\<rparr>)"
      "\<And>i. i < unat lba + unat done1 \<or> unat lba + unat done1 + unat batch \<le> i \<Longrightarrow> sblk (d\<lparr>sd_ns := ns, sd_bounce := bo\<rparr>) i = sblk d i"
      "\<And>j. rc = 0 \<Longrightarrow> j < unat batch \<Longrightarrow> sblk (d\<lparr>sd_ns := ns, sd_bounce := bo\<rparr>) (unat lba + unat done1 + j) = seg (4096 * j) 4096 bo"
      "slive d \<Longrightarrow> unat lba + unat done1 + unat batch \<le> unat cap \<Longrightarrow> rc = 0"
      by (rule nvme_write_batch [OF less(2) b(1) disjI1 [OF lo] bw]) (use lo bounce_irrelevant(1) [OF bl] bounce_irrelevant(2,3) in \<open>simp_all add: l\<close>)
    let ?d = "d\<lparr>sd_ns := ns, sd_bounce := bo\<rparr>"
    have step: "spdk_write_loop C d lba remaining done1 buf =
        (if rc \<noteq> 0 then Some (Inl EIO, ?d) else spdk_write_loop C ?d lba (remaining - batch) (done1 + batch) buf)"
      using True r(1) by (subst spdk_write_loop.simps) (simp add: Let_def batch_def [symmetric] part_def [symmetric] bo_def [symmetric] del: length_seg)
    show ?thesis
    proof (cases "rc = 0")
      case False
      moreover have "unat lba + unat done1 + unat batch \<le> unat cap" using b(2) less(3) by simp
      ultimately show ?thesis using step r(2,3,4,6) b(2) by auto
    next
      case rc: True
      have c: "unat lba + unat (done1 + batch) + unat (remaining - batch) \<le> unat cap" "unat (done1 + batch) + unat (remaining - batch) < 2 ^ 32"
        using n b(2) less(3,4) by simp_all
      obtain q d' where q: "spdk_write_loop C ?d lba (remaining - batch) (done1 + batch) buf = Some (q, d')" "sinv cap d'" "slive ?d \<longrightarrow> slive d'"
        "\<And>i. i < unat lba + unat done1 + unat batch \<or> unat lba + unat done1 + unat remaining \<le> i \<Longrightarrow> sblk d' i = sblk ?d i"
        "\<And>j. q = Inr () \<Longrightarrow> (unat done1 + unat remaining) * 4096 \<le> length buf \<Longrightarrow> j < unat remaining - unat batch \<Longrightarrow>
           sblk d' (unat lba + unat done1 + unat batch + j) = seg (4096 * (unat done1 + unat batch + j)) 4096 buf"
        "slive ?d \<longrightarrow> q = Inr ()"
        using less(1) [OF b(3) r(2) c] b(2) unfolding n by (auto simp: add.assoc)
      have out: "sblk d' i = sblk d i" if "i < unat lba + unat done1 \<or> unat lba + unat done1 + unat remaining \<le> i" for i
        using q(4) [of i] r(4) [of i] that b(2) by auto
      have dat: "sblk d' (unat lba + unat done1 + j) = seg (4096 * (unat done1 + j)) 4096 buf"
        if ok: "q = Inr ()" "(unat done1 + unat remaining) * 4096 \<le> length buf" and j: "j < unat remaining" for j
      proof (cases "j < unat batch")
        case True
        have "length part = unat batch * 4096" using ok(2) b(2) by (simp add: part_def seg_def)
        then have "seg (4096 * j) 4096 bo = seg (4096 * j) 4096 part" using True by (simp add: bo_def copy_in_def seg_append_left)
        also have "\<dots> = seg (4096 * (unat done1 + j)) 4096 buf" using True by (simp add: part_def seg_seg algebra_simps)
        finally show ?thesis using q(4) [of "unat lba + unat done1 + j"] r(5) [OF rc True] True by simp
      next
        case False
        then have "j - unat batch < unat remaining - unat batch" using j by simp
        from q(5) [OF ok this] show ?thesis using False by (simp add: add.assoc)
      qed
      have e: "spdk_write_loop C d lba remaining done1 buf = Some (q, d')" unfolding step using rc q(1) by simp
      show ?thesis using e q(2,3,6) out dat r(3) by (intro exI [of _ q] exI [of _ d']) blast
    qed
  qed
qed

lemma write_loop_wrap:
  assumes "sinv cap d" and "unat lba \<ge> 2 ^ 64 - 2 ^ 32" and "n > 0"
  shows "\<exists>d'. spdk_write_loop C d lba n 0 buf = Some (Inl EIO, d') \<and> sinv cap d' \<and> sblk d' = sblk d \<and> (slive d \<longrightarrow> slive d')"
proof -
  define batch where "batch = (if n < 256 then n else 256)"
  define part where "part = seg 0 (unat batch * 4096) buf"
  define bo where "bo = copy_in (sd_bounce d) part"
  have b: "unat batch \<le> 256" using batch_bound by (simp add: batch_def)
  have "length part \<le> unat batch * 4096" by (simp add: part_def seg_def)
  then have bl: "length bo = 1048576" using b(1) assms(1) by (simp add: bo_def spdk_inv_def Let_def length_copy_in)
  have nl: "\<not> unat lba < 2 ^ 52" using assms(2) by simp
  have bw: "unat batch * 4096 \<le> length bo" using bl b by simp
  obtain rc ns where r: "nebula_spdk_nvme_write C (sd_ns d) lba batch bo = Some (rc, bo, ns)"
    "sinv cap (d\<lparr>sd_ns := ns, sd_bounce := bo\<rparr>)" "slive d \<Longrightarrow> slive (d\<lparr>sd_ns := ns, sd_bounce := bo\<rparr>)"
    "rc \<noteq> 0" "sblk (d\<lparr>sd_ns := ns, sd_bounce := bo\<rparr>) = sblk d"
    by (rule nvme_write_batch [OF assms(1) b disjI2 [OF assms(2)] bw]) (use nl bounce_irrelevant(1) [OF bl] bounce_irrelevant(2,3) in simp_all)
  have "spdk_write_loop C d lba n 0 buf = Some (Inl EIO, d\<lparr>sd_ns := ns, sd_bounce := bo\<rparr>)"
    using assms(3) r(1,4) by (subst spdk_write_loop.simps) (simp add: Let_def batch_def [symmetric] part_def [symmetric, unfolded seg_0] bo_def [symmetric])
  then show ?thesis using r by blast
qed

lemma wrap_high:
  assumes "2 ^ 64 \<le> unat (lba :: u64) + unat (n :: u32)"
  shows "2 ^ 64 - 2 ^ 32 \<le> unat lba" and "0 < n"
proof -
  have "unat n < 2 ^ 32" "unat lba < 2 ^ 64" by simp_all
  then show "2 ^ 64 - 2 ^ 32 \<le> unat lba" and "0 < n" using assms unfolding word_less_nat_alt unsigned_0 by linarith+
qed

lemma range_split:
  assumes "sinv cap d"
  obtains (out) "lba + ucast (n :: u32) > cap" "\<not> unat lba + unat n \<le> unat cap"
    | (fit) "\<not> lba + ucast n > cap" "unat lba + unat n \<le> unat cap"
    | (wrap) "\<not> lba + ucast n > cap" "\<not> unat lba + unat n \<le> unat cap" "2 ^ 64 - 2 ^ 32 \<le> unat lba" "0 < n"
proof (cases "lba + ucast n > cap")
  case True
  then show ?thesis by (intro out) (auto simp: word_less_nat_alt unat_word_ariths not_le dest: le_less_trans)
next
  case False
  show ?thesis
  proof (cases "unat lba + unat n < 2 ^ 64")
    case True
    then show ?thesis using False by (intro fit) (simp_all add: word_less_nat_alt unat_plus_if_small not_less)
  next
    case wr: False
    then show ?thesis using False cap_small [OF assms] wrap_high [of lba n] by (intro wrap) simp_all
  qed
qed

text \<open>Every call of the backend returns.\<close>

lemma spdk_read_cases:
  assumes "sinv cap d"
  obtains r d' where "spdk_io_read C cap d lba n = Some (r, d')" and "sinv cap d'" and "sblk d' = sblk d" and "slive d \<Longrightarrow> slive d'"
    and "\<And>bs. r = Inr bs \<Longrightarrow> unat lba + unat n \<le> unat cap \<and> bs = concat (map (sblk d) [unat lba..<unat lba + unat n])"
    and "slive d \<Longrightarrow> unat lba + unat n \<le> unat cap \<Longrightarrow> \<exists>bs. r = Inr bs"
using assms
proof (cases rule: range_split [where lba = lba and n = n])
  case out
  then show ?thesis using that [of "Inl ERANGE" d] assms by (simp add: spdk_io_read_def)
next
  case fit
  then show ?thesis using read_loop_ok [OF assms, of lba 0 n "[]"] that by (auto simp: spdk_io_read_def)
next
  case wrap
  then show ?thesis using read_loop_wrap [OF assms] that by (auto simp: spdk_io_read_def)
qed

lemma spdk_write_cases:
  assumes "sinv cap d"
  obtains r d' where "spdk_io_write C cap d lba n buf = Some (r, d')" and "sinv cap d'" and "slive d \<Longrightarrow> slive d'"
    and "\<And>i. i < unat lba \<or> unat lba + unat n \<le> i \<Longrightarrow> sblk d' i = sblk d i"
    and "r = Inr () \<Longrightarrow> unat lba + unat n \<le> unat cap \<and> (unat n * 4096 \<le> length buf \<longrightarrow>
           (\<forall>j < unat n. sblk d' (unat lba + j) = seg (4096 * j) 4096 buf))"
    and "slive d \<Longrightarrow> unat lba + unat n \<le> unat cap \<Longrightarrow> r = Inr ()"
using assms
proof (cases rule: range_split [where lba = lba and n = n])
  case out
  then show ?thesis using that [of "Inl ERANGE" d] assms by (simp add: spdk_io_write_def)
next
  case fit
  then show ?thesis using write_loop_ok [OF assms, of lba 0 n buf] that by (auto simp: spdk_io_write_def)
next
  case wrap
  obtain d' where "spdk_write_loop C d lba n 0 buf = Some (Inl EIO, d')" "sinv cap d'" "sblk d' = sblk d" "slive d \<longrightarrow> slive d'"
    using write_loop_wrap [OF assms wrap(3,4)] by blast
  then show ?thesis using wrap(1,2) by (intro that [of "Inl EIO" d']) (simp_all add: spdk_io_write_def)
qed

lemma spdk_flush_cases:
  assumes "sinv cap d"
  obtains r d' where "spdk_io_flush C d = Some (r, d')" and "sinv cap d'" and "sblk d' = sblk d" and "slive d \<Longrightarrow> slive d' \<and> r = Inr ()"
proof -
  define h v where "h = sd_ns d" and "v = ns_drv h"
  obtain rc v1 where sub: "nv_cmd_flush C v = (rc, v1)" by (rule prod.exhaust)
  note keep = same_device [of d, folded h_def, folded v_def]
  show ?thesis
  proof (cases "rc = 0")
    case False
    then have "spdk_io_flush C d = Some (Inl EIO, d\<lparr>sd_ns := h\<lparr>ns_drv := v1\<rparr>\<rparr>)"
      using sub by (simp add: spdk_io_flush_def nebula_spdk_nvme_flush_def h_def v_def)
    moreover have "\<not> slive d" using flush_accepted [of v] sub False by (auto simp: spdk_healthy_def h_def v_def)
    ultimately show ?thesis using keep flush_refused [OF sub False] assms that by blast
  next
    case True
    obtain err bs v2 where p: "polls C v1 err bs v2" "drv_same ssz nsec live v v2" "byt v2 = byt v" "live v \<longrightarrow> \<not> err"
      using flush_completes [OF sub [unfolded True]] by blast
    have "spdk_io_flush C d = Some (if err then Inl EIO else Inr (), d\<lparr>sd_ns := h\<lparr>ns_drv := v2\<rparr>\<rparr>)"
      using sub True poll_until_done_polls [OF p(1)] by (simp add: spdk_io_flush_def nebula_spdk_nvme_flush_def h_def v_def)
    then show ?thesis using keep [OF p(2)] p(3,4) assms that by (auto simp: spdk_healthy_def h_def v_def)
  qed
qed

end

section \<open>The backend keeps the contract of a block device\<close>

sublocale nvme_driver \<subseteq> spdk: block_backend "spdk_ops C" "spdk_blk byt" "spdk_inv ssz nsec" "spdk_healthy live"
proof unfold_locales
  show "length (spdk_blk byt d i) = 4096" for d i by (simp add: spdk_blk_def)
  show "unat cap \<le> 2 ^ 51" if "sinv cap d" for cap d by (rule cap_small [OF that])
next
  fix cap d lba n r d'
  assume a: "sinv cap d" "ops_read (spdk_ops C) cap d lba n = (r, d')"
  show "sinv cap d' \<and> sblk d' = sblk d \<and> (slive d \<longrightarrow> slive d')"
    by (rule spdk_read_cases [OF a(1), of lba n]) (use a(2) in \<open>auto simp: spdk_ops_def returned_def\<close>)
next
  fix cap d lba n bs d'
  assume a: "sinv cap d" "ops_read (spdk_ops C) cap d lba n = (Inr bs, d')"
  show "unat lba + unat n \<le> unat cap \<and> bs = concat (map (sblk d) [unat lba..<unat lba + unat n])"
    by (rule spdk_read_cases [OF a(1), of lba n]) (use a(2) in \<open>auto simp: spdk_ops_def returned_def\<close>)
next
  fix cap d and lba :: u64 and n :: u32
  assume a: "sinv cap d" "slive d" "unat lba + unat n \<le> unat cap"
  show "\<exists>bs d'. ops_read (spdk_ops C) cap d lba n = (Inr bs, d')"
    by (rule spdk_read_cases [OF a(1), of lba n]) (use a(2,3) in \<open>auto simp: spdk_ops_def returned_def\<close>)
next
  fix cap d lba n buf r d'
  assume a: "sinv cap d" "ops_write (spdk_ops C) cap d lba n buf = (r, d')"
  show "sinv cap d' \<and> (slive d \<longrightarrow> slive d') \<and> (\<forall>i. i < unat lba \<or> unat lba + unat n \<le> i \<longrightarrow> sblk d' i = sblk d i)"
    by (rule spdk_write_cases [OF a(1), of lba n buf]) (use a(2) in \<open>auto simp: spdk_ops_def returned_def\<close>)
next
  fix cap d n lba u d' and buf :: "byte list"
  assume a: "sinv cap d" "unat n * 4096 \<le> length buf" "ops_write (spdk_ops C) cap d lba n buf = (Inr u, d')"
  have w: "unat lba + unat n \<le> unat cap \<and> (\<forall>j < unat n. sblk d' (unat lba + j) = seg (4096 * j) 4096 buf)"
    by (rule spdk_write_cases [OF a(1), of lba n buf]) (use a(2,3) in \<open>auto simp: spdk_ops_def returned_def\<close>)
  have "sblk d' i = seg (4096 * (i - unat lba)) 4096 buf" if "unat lba \<le> i" "i < unat lba + unat n" for i
    using conjunct2 [OF w, rule_format, of "i - unat lba"] that by simp
  then show "unat lba + unat n \<le> unat cap \<and> (\<forall>i. unat lba \<le> i \<and> i < unat lba + unat n \<longrightarrow> sblk d' i = seg (4096 * (i - unat lba)) 4096 buf)"
    using w by blast
next
  fix cap d buf and lba :: u64 and n :: u32
  assume a: "sinv cap d" "slive d" "unat lba + unat n \<le> unat cap"
  show "\<exists>d'. ops_write (spdk_ops C) cap d lba n buf = (Inr (), d')"
    by (rule spdk_write_cases [OF a(1), of lba n buf]) (use a(2,3) in \<open>auto simp: spdk_ops_def returned_def\<close>)
next
  fix cap d r d'
  assume a: "sinv cap d" "ops_flush (spdk_ops C) d = (r, d')"
  show "sinv cap d' \<and> sblk d' = sblk d \<and> (slive d \<longrightarrow> slive d' \<and> r = Inr ())"
    by (rule spdk_flush_cases [OF a(1)]) (use a(2) in \<open>auto simp: spdk_ops_def returned_def\<close>)
qed

context nvme_driver
begin

lemma backend: "block_backend (spdk_ops C) (spdk_blk byt) (spdk_inv ssz nsec) (spdk_healthy live)"
  by (rule spdk.block_backend_axioms)

end

section \<open>A driver that keeps the laws\<close>

text \<open>
  A namespace in memory with scripted commands: each is refused, fails, or completes after some rounds of
  polling; without a script it completes at once.
\<close>

datatype nvme_outcome = Refused | Fails nat | Completes nat

record ram_nvme =
  rn_bytes :: "nat \<Rightarrow> byte"
  rn_sectors :: nat
  rn_sector_size :: nat
  rn_script :: "nvme_outcome list"
  rn_wait :: nat
  rn_result :: "bool \<times> byte list"

definition ram_submit :: "ram_nvme \<Rightarrow> (ram_nvme \<Rightarrow> ram_nvme) \<Rightarrow> int \<times> ram_nvme" where
  "ram_submit v effect =
     (let w = v\<lparr>rn_script := tl (rn_script v)\<rparr> in
      case (case rn_script v of [] \<Rightarrow> Completes 0 | x # _ \<Rightarrow> x) of
        Refused \<Rightarrow> (-1, w)
      | Fails k \<Rightarrow> (0, w\<lparr>rn_wait := k, rn_result := (True, [])\<rparr>)
      | Completes k \<Rightarrow> (0, effect (w\<lparr>rn_wait := k, rn_result := (False, [])\<rparr>)))"

definition ram_calls :: "ram_nvme nvme_calls" where
  "ram_calls =
     \<lparr>nv_cmd_read = (\<lambda>v lba n. ram_submit v (\<lambda>w.
        if unat lba + unat n \<le> rn_sectors w
        then w\<lparr>rn_result := (False, map (rn_bytes w) [unat lba * rn_sector_size w..<(unat lba + unat n) * rn_sector_size w])\<rparr>
        else w\<lparr>rn_result := (True, [])\<rparr>)),
      nv_cmd_write = (\<lambda>v lba n buf. ram_submit v (\<lambda>w.
        if unat lba + unat n \<le> rn_sectors w
        then w\<lparr>rn_bytes := (\<lambda>i. if unat lba * rn_sector_size w \<le> i \<and> i < (unat lba + unat n) * rn_sector_size w
                 then buf ! (i - unat lba * rn_sector_size w) else rn_bytes w i)\<rparr>
        else w\<lparr>rn_result := (True, [])\<rparr>)),
      nv_cmd_flush = (\<lambda>v. ram_submit v (\<lambda>w. w)),
      nv_process_completions = (\<lambda>v. if rn_wait v > 0 then (None, v\<lparr>rn_wait := rn_wait v - 1\<rparr>) else (Some (rn_result v), v))\<rparr>"

lemma ram_polls: "polls ram_calls v (fst (rn_result v)) (snd (rn_result v)) (v\<lparr>rn_wait := 0\<rparr>)"
proof (induction "rn_wait v" arbitrary: v)
  case 0
  then show ?case by (intro polls_now) (simp add: ram_calls_def)
next
  case (Suc k)
  have "polls ram_calls (v\<lparr>rn_wait := k\<rparr>) (fst (rn_result v)) (snd (rn_result v)) (v\<lparr>rn_wait := 0\<rparr>)"
    using Suc(1) [of "v\<lparr>rn_wait := k\<rparr>"] by simp
  then show ?case using Suc(2) by (intro polls_later [of _ v "v\<lparr>rn_wait := k\<rparr>"]) (simp_all add: ram_calls_def flip: Suc(2))
qed

lemma ram_submit_cases:
  assumes "ram_submit v effect = (rc, v1)"
  obtains (refused) "rc \<noteq> 0" "rn_script v \<noteq> []" "v1 = v\<lparr>rn_script := tl (rn_script v)\<rparr>"
    | (failed) k where "rc = 0" "rn_script v \<noteq> []" "v1 = v\<lparr>rn_script := tl (rn_script v), rn_wait := k, rn_result := (True, [])\<rparr>"
    | (completed) k where "rc = 0" "v1 = effect (v\<lparr>rn_script := tl (rn_script v), rn_wait := k, rn_result := (False, [])\<rparr>)"
  using assms by (auto simp: ram_submit_def Let_def split: list.splits nvme_outcome.splits)

abbreviation "ram_live v \<equiv> rn_script v = []"

interpretation ram: nvme_driver ram_calls rn_bytes rn_sector_size rn_sectors "\<lambda>v. ram_live v"
proof unfold_locales
  fix v :: ram_nvme and lba :: u64 and n :: u32 and rc v1
  assume "nv_cmd_read ram_calls v lba n = (rc, v1)" "rc \<noteq> 0"
  then show "drv_same rn_sector_size rn_sectors (\<lambda>v. ram_live v) v v1 \<and> rn_bytes v1 = rn_bytes v"
    by (auto simp: ram_calls_def drv_same_def elim!: ram_submit_cases)
next
  fix v :: ram_nvme and lba :: u64 and n :: u32 and v1
  assume "nv_cmd_read ram_calls v lba n = (0, v1)"
  then show "\<exists>err bs v2. polls ram_calls v1 err bs v2 \<and> drv_same rn_sector_size rn_sectors (\<lambda>v. ram_live v) v v2 \<and> rn_bytes v2 = rn_bytes v
          \<and> length bs \<le> unat n * rn_sector_size v
          \<and> (\<not> err \<longrightarrow> unat lba + unat n \<le> rn_sectors v \<and> bs = map (rn_bytes v) [unat lba * rn_sector_size v..<(unat lba + unat n) * rn_sector_size v])
          \<and> (ram_live v \<and> unat lba + unat n \<le> rn_sectors v \<longrightarrow> \<not> err)"
    by (intro exI [of _ "fst (rn_result v1)"] exI [of _ "snd (rn_result v1)"] exI [of _ "v1\<lparr>rn_wait := 0\<rparr>"] conjI ram_polls)
      (auto simp: ram_calls_def drv_same_def add_mult_distrib elim!: ram_submit_cases split: if_splits)
next
  fix v :: ram_nvme and lba :: u64 and n :: u32 and buf rc v1
  assume "nv_cmd_write ram_calls v lba n buf = (rc, v1)" "rc \<noteq> 0"
  then show "drv_same rn_sector_size rn_sectors (\<lambda>v. ram_live v) v v1 \<and> rn_bytes v1 = rn_bytes v"
    by (auto simp: ram_calls_def drv_same_def elim!: ram_submit_cases)
next
  fix v :: ram_nvme and lba :: u64 and n :: u32 and buf v1
  assume w: "nv_cmd_write ram_calls v lba n buf = (0, v1)"
  have res: "snd (rn_result v1) = []" using w by (auto simp: ram_calls_def elim!: ram_submit_cases split: if_splits)
  have "polls ram_calls v1 (fst (rn_result v1)) [] (v1\<lparr>rn_wait := 0\<rparr>)" using ram_polls [of v1] res by simp
  then show "\<exists>err v2. polls ram_calls v1 err [] v2 \<and> drv_same rn_sector_size rn_sectors (\<lambda>v. ram_live v) v v2
          \<and> (\<forall>i. i < unat lba * rn_sector_size v \<or> (unat lba + unat n) * rn_sector_size v \<le> i \<longrightarrow> rn_bytes v2 i = rn_bytes v i)
          \<and> (unat lba + unat n > rn_sectors v \<longrightarrow> err \<and> rn_bytes v2 = rn_bytes v)
          \<and> (\<not> err \<longrightarrow> (\<forall>i < unat n * rn_sector_size v. rn_bytes v2 (unat lba * rn_sector_size v + i) = buf ! i))
          \<and> (ram_live v \<and> unat lba + unat n \<le> rn_sectors v \<longrightarrow> \<not> err)"
    using w by (intro exI [of _ "fst (rn_result v1)"] exI [of _ "v1\<lparr>rn_wait := 0\<rparr>"] conjI)
      (auto simp: ram_calls_def drv_same_def add_mult_distrib elim!: ram_submit_cases split: if_splits)
next
  fix v :: ram_nvme and rc v1
  assume "nv_cmd_flush ram_calls v = (rc, v1)" "rc \<noteq> 0"
  then show "drv_same rn_sector_size rn_sectors (\<lambda>v. ram_live v) v v1 \<and> rn_bytes v1 = rn_bytes v"
    by (auto simp: ram_calls_def drv_same_def elim!: ram_submit_cases)
next
  fix v v1 :: ram_nvme
  assume "nv_cmd_flush ram_calls v = (0, v1)"
  then show "\<exists>err bs v2. polls ram_calls v1 err bs v2 \<and> drv_same rn_sector_size rn_sectors (\<lambda>v. ram_live v) v v2 \<and> rn_bytes v2 = rn_bytes v
          \<and> (ram_live v \<longrightarrow> \<not> err)"
    by (intro exI [of _ "fst (rn_result v1)"] exI [of _ "snd (rn_result v1)"] exI [of _ "v1\<lparr>rn_wait := 0\<rparr>"] conjI ram_polls)
      (auto simp: ram_calls_def drv_same_def elim!: ram_submit_cases)
qed (auto simp: ram_calls_def ram_submit_def Let_def)

end
