(* ===== verification/Nebula_Spdk_Probe.thy ===== *)
theory Nebula_Spdk_Probe
  imports Nebula_Spdk
begin

text \<open>
  Finding and opening a namespace (\<open>src/io/nebula_spdk_nvme.c\<close>, \<open>src/io/nebula_io_spdk.c\<close>), the options of the
  environment (\<open>src/io/nebula_spdk_env.c\<close>), the probe tool (\<open>tools/nebula_spdk_probe.c\<close>), and the properties of
  the SPDK backend.  What the controllers report is an argument.
\<close>

section \<open>Probing\<close>

text \<open>A namespace as the driver reports it; \<open>nn_qpair\<close> is the queue pair that can be allocated for it.\<close>

record 'v nvme_namespace =
  nn_active :: bool
  nn_sector_size :: u32
  nn_num_sectors :: u64
  nn_qpair :: "'v option"

record 'v nvme_ctrlr =
  ct_traddr :: string
  ct_namespaces :: "'v nvme_namespace list"

definition probe_cb :: "string option \<Rightarrow> 'v nebula_spdk_ns option \<Rightarrow> string \<Rightarrow> bool" where
  "probe_cb traddr result trid_traddr =
     (if result \<noteq> None then False
      else case traddr of Some a \<Rightarrow> trid_traddr = a | None \<Rightarrow> True)"

fun attach_walk :: "'v nvme_namespace list \<Rightarrow> 'v nebula_spdk_ns option" where
  "attach_walk [] = None"
| "attach_walk (ns # rest) =
     (if \<not> nn_active ns then attach_walk rest
      else
        let ss = nn_sector_size ns in
        if ss > 4096 then attach_walk rest
        else
          (case nn_qpair ns of
             None \<Rightarrow> attach_walk rest
           | Some v \<Rightarrow>
               let spb = 4096 div ss in
               Some \<lparr>ns_drv = v, ns_sector_size = ss, ns_sectors_per_block = spb,
                     ns_capacity_blocks = nn_num_sectors ns div ucast spb\<rparr>))"

definition attach_cb :: "'v nebula_spdk_ns option \<Rightarrow> 'v nvme_namespace list \<Rightarrow> 'v nebula_spdk_ns option" where
  "attach_cb result namespaces = (if result \<noteq> None then result else attach_walk namespaces)"

text \<open>
  \<open>spdk_nvme_probe\<close> offers each controller to \<open>probe_cb\<close> and passes the claimed ones to \<open>attach_cb\<close>; \<open>rc\<close> is what
  it returns.  The address of the context is the array inside the transport identifier, so it is never null.
\<close>

definition nebula_spdk_nvme_probe_trid :: "string \<Rightarrow> int \<Rightarrow> 'v nvme_ctrlr list \<Rightarrow> 'v nebula_spdk_ns option" where
  "nebula_spdk_nvme_probe_trid trid_traddr rc ctrlrs =
     (if rc \<noteq> 0 then None
      else foldl (\<lambda>result c. if probe_cb (Some trid_traddr) result (ct_traddr c) then attach_cb result (ct_namespaces c) else result)
             None ctrlrs)"

text \<open>\<open>tsize\<close> is the size of the address array of the driver's transport identifier.\<close>

definition nebula_spdk_nvme_probe :: "nat \<Rightarrow> string option \<Rightarrow> int \<Rightarrow> 'v nvme_ctrlr list \<Rightarrow> 'v nebula_spdk_ns option" where
  "nebula_spdk_nvme_probe tsize traddr rc ctrlrs =
     nebula_spdk_nvme_probe_trid (case traddr of None \<Rightarrow> [] | Some s \<Rightarrow> take (tsize - 1) s) rc ctrlrs"

definition nebula_spdk_nvme_capacity_blocks :: "'v nebula_spdk_ns \<Rightarrow> u64" where
  "nebula_spdk_nvme_capacity_blocks ns = ns_capacity_blocks ns"

section \<open>Opening\<close>

text \<open>The bounce buffer comes zeroed; \<open>dma\<close> says whether it can be allocated.\<close>

definition open_from_ns :: "'v nvme_calls \<Rightarrow> 'v nebula_spdk_ns \<Rightarrow> bool \<Rightarrow> 'v spdk_dev nebula_io res" where
  "open_from_ns C ns dma =
     (if \<not> dma then Inl ENOMEM
      else Inr \<lparr>io_ops = spdk_ops C, io_capacity_blocks = nebula_spdk_nvme_capacity_blocks ns,
                io_dev = \<lparr>sd_ns = ns, sd_bounce = zeros 1048576\<rparr>\<rparr>)"

text \<open>\<open>strchr\<close> and the cut at the colon it finds.\<close>

definition cut_colon :: "string \<Rightarrow> (string \<times> string) option" where
  "cut_colon s = (if CHR '':'' \<in> set s
     then Some (takeWhile (\<lambda>c. c \<noteq> CHR '':'') s, tl (dropWhile (\<lambda>c. c \<noteq> CHR '':'') s)) else None)"

definition parse_tcp :: "string \<Rightarrow> (string \<times> string \<times> string) res" where
  "parse_tcp traddr =
     (case cut_colon (take 511 (drop 4 traddr)) of
        None \<Rightarrow> Inl EINVAL
      | Some (ip, rest) \<Rightarrow>
          (case cut_colon rest of
             None \<Rightarrow> Inl EINVAL
           | Some (port, nqn) \<Rightarrow> Inr (ip, port, nqn)))"

text \<open>
  \<open>tcp\<close> gives the return code and the controllers of a probe at an address over TCP, \<open>pcie\<close> those on the local
  bus.  The probe over TCP compares controllers with the address as well.
\<close>

definition nebula_io_spdk_open_tcp ::
    "'v nvme_calls \<Rightarrow> nat \<Rightarrow> (string \<Rightarrow> string \<Rightarrow> string \<Rightarrow> int \<times> 'v nvme_ctrlr list) \<Rightarrow> bool \<Rightarrow> string \<Rightarrow> string \<Rightarrow> string
     \<Rightarrow> 'v spdk_dev nebula_io res" where
  "nebula_io_spdk_open_tcp C tsize tcp dma ip port nqn =
     (case tcp ip port nqn of
        (rc, ctrlrs) \<Rightarrow>
          (case nebula_spdk_nvme_probe_trid (take (tsize - 1) ip) rc ctrlrs of
             None \<Rightarrow> Inl ENODEV
           | Some ns \<Rightarrow> open_from_ns C ns dma))"

definition nebula_io_spdk_open ::
    "'v nvme_calls \<Rightarrow> nat \<Rightarrow> (string \<Rightarrow> string \<Rightarrow> string \<Rightarrow> int \<times> 'v nvme_ctrlr list) \<Rightarrow> int \<times> 'v nvme_ctrlr list \<Rightarrow> bool
     \<Rightarrow> string option \<Rightarrow> 'v spdk_dev nebula_io res" where
  "nebula_io_spdk_open C tsize tcp pcie dma traddr =
     (if (case traddr of Some s \<Rightarrow> take 4 s = ''tcp:'' | None \<Rightarrow> False) then
        (case parse_tcp (the traddr) of
           Inl e \<Rightarrow> Inl e
         | Inr (ip, port, nqn) \<Rightarrow> nebula_io_spdk_open_tcp C tsize tcp dma ip port nqn)
      else
        (case nebula_spdk_nvme_probe tsize traddr (fst pcie) (snd pcie) of
           None \<Rightarrow> Inl ENODEV
         | Some ns \<Rightarrow> open_from_ns C ns dma))"

section \<open>The environment\<close>

datatype spdk_log_level = SPDK_LOG_ERROR | SPDK_LOG_WARN | SPDK_LOG_INFO | SPDK_LOG_DEBUG

record nebula_spdk_env_opts =
  eo_name :: "string option"
  eo_mem_mb :: u64
  eo_core_mask :: int
  eo_log_level :: "string option"

record spdk_env_opts =
  so_name :: "string option"
  so_mem_size :: int
  so_core_mask :: "string option"

text \<open>
  The return value, and the options and the log level that are passed on; \<open>init\<close> holds what the driver presets,
  \<open>rc\<close> is what its initialisation returns.
\<close>

definition env_overrides :: "nebula_spdk_env_opts \<Rightarrow> spdk_env_opts \<Rightarrow> spdk_env_opts" where
  "env_overrides o1 s0 =
     (let s1 = (if eo_name o1 \<noteq> None then s0\<lparr>so_name := eo_name o1\<rparr> else s0);
          s2 = (if eo_mem_mb o1 \<noteq> 0 then s1\<lparr>so_mem_size := sint (ucast (eo_mem_mb o1) :: 32 word)\<rparr> else s1)
      in if eo_core_mask o1 \<noteq> 0 then s2\<lparr>so_core_mask := None\<rparr> else s2)"

definition nebula_spdk_env_init :: "nebula_spdk_env_opts option \<Rightarrow> spdk_env_opts \<Rightarrow> int \<Rightarrow> int \<times> spdk_env_opts \<times> spdk_log_level" where
  "nebula_spdk_env_init opts init rc =
     (let s1 = (case opts of None \<Rightarrow> init | Some o1 \<Rightarrow> env_overrides o1 init);
          s2 = (if so_name s1 = None then s1\<lparr>so_name := Some ''nebula''\<rparr> else s1);
          s3 = (if so_mem_size s2 = 0 then s2\<lparr>so_mem_size := 256\<rparr> else s2);
          lvl = (case opts of None \<Rightarrow> ''WARN'' | Some o1 \<Rightarrow> (case eo_log_level o1 of None \<Rightarrow> ''WARN'' | Some l \<Rightarrow> l))
      in (if rc < 0 then -1 else 0, s3, if lvl = ''ERROR'' then SPDK_LOG_ERROR else if lvl = ''INFO'' then SPDK_LOG_INFO
              else if lvl = ''DEBUG'' then SPDK_LOG_DEBUG else SPDK_LOG_WARN))"

section \<open>The probe tool\<close>

text \<open>
  The self-test on block 0; \<open>None\<close> if a command does not complete.  The buffers are DMA memory of one block.
\<close>

definition spdk_selftest :: "'v nvme_calls \<Rightarrow> 'v nebula_spdk_ns \<Rightarrow> (nat \<times> 'v nebula_spdk_ns) option" where
  "spdk_selftest C ns =
     (let wbuf = replicate NEBULA_BLOCK_SIZE 0xA5 in
      case nebula_spdk_nvme_write C ns 0 1 wbuf of
        None \<Rightarrow> None
      | Some (rc, _, ns1) \<Rightarrow>
          if rc \<noteq> 0 then Some (1, ns1)
          else
            (case nebula_spdk_nvme_read C ns1 0 1 (zeros NEBULA_BLOCK_SIZE) of
               None \<Rightarrow> None
             | Some (rc2, rbuf, ns2) \<Rightarrow>
                 if rc2 \<noteq> 0 then Some (1, ns2)
                 else Some (if rbuf \<noteq> wbuf then 1 else 0, ns2)))"

definition do_probe ::
    "'v nvme_calls \<Rightarrow> nat \<Rightarrow> int \<times> 'v nvme_ctrlr list \<Rightarrow> bool \<Rightarrow> string option \<Rightarrow> (nat \<times> 'v nebula_spdk_ns option) option" where
  "do_probe C tsize pcie dma traddr =
     (case nebula_spdk_nvme_probe tsize traddr (fst pcie) (snd pcie) of
        None \<Rightarrow> Some (1, None)
      | Some ns \<Rightarrow>
          if \<not> dma then Some (1, Some ns)
          else map_option (\<lambda>(status, ns1). (status, Some ns1)) (spdk_selftest C ns))"

definition do_mount_check ::
    "'v nvme_calls \<Rightarrow> nat \<Rightarrow> (string \<Rightarrow> string \<Rightarrow> string \<Rightarrow> int \<times> 'v nvme_ctrlr list) \<Rightarrow> int \<times> 'v nvme_ctrlr list \<Rightarrow> bool
     \<Rightarrow> string option \<Rightarrow> nat \<times> u64 option" where
  "do_mount_check C tsize tcp pcie dma traddr =
     (case nebula_io_spdk_open C tsize tcp pcie dma traddr of
        Inl _ \<Rightarrow> (1, None)
      | Inr io \<Rightarrow> (0, Some (nebula_io_capacity_blocks io)))"

text \<open>\<open>main\<close>; \<open>init\<close> and \<open>rc\<close> are the presets and the return value of the initialisation of the driver.\<close>

definition nebula_spdk_probe_main ::
    "'v nvme_calls \<Rightarrow> nat \<Rightarrow> (string \<Rightarrow> string \<Rightarrow> string \<Rightarrow> int \<times> 'v nvme_ctrlr list) \<Rightarrow> int \<times> 'v nvme_ctrlr list \<Rightarrow> bool \<Rightarrow> spdk_env_opts \<Rightarrow> int
     \<Rightarrow> string list \<Rightarrow> nat option" where
  "nebula_spdk_probe_main C tsize tcp pcie dma init rc args =
     (let traddr = (case args of [] \<Rightarrow> None | a # _ \<Rightarrow> Some a);
          do_mount = (case args of _ # b # _ \<Rightarrow> b = ''mount'' | _ \<Rightarrow> False);
          opts = \<lparr>eo_name = Some ''nebula_spdk_probe'', eo_mem_mb = 256, eo_core_mask = 0, eo_log_level = Some ''WARN''\<rparr> in
      if fst (nebula_spdk_env_init (Some opts) init rc) \<noteq> 0 then Some 1
      else if do_mount then Some (fst (do_mount_check C tsize tcp pcie dma traddr))
      else map_option fst (do_probe C tsize pcie dma traddr))"

section \<open>Addresses\<close>

lemma cut_colon_append: "CHR '':'' \<notin> set s \<Longrightarrow> cut_colon (s @ CHR '':'' # rest) = Some (s, rest)"
  by (auto simp: cut_colon_def takeWhile_tail dropWhile_append)

text \<open>An address over TCP splits at its first two colons after the prefix; the name may contain more.\<close>

lemma parse_tcp_parts:
  assumes "CHR '':'' \<notin> set ip" and "CHR '':'' \<notin> set port" and "length ip + length port + length nqn + 2 \<le> 511"
  shows "parse_tcp (''tcp:'' @ ip @ CHR '':'' # port @ CHR '':'' # nqn) = Inr (ip, port, nqn)"
proof -
  have "take 511 (drop 4 (''tcp:'' @ ip @ CHR '':'' # port @ CHR '':'' # nqn)) = ip @ CHR '':'' # port @ CHR '':'' # nqn"
    using assms(3) by simp
  then show ?thesis using assms(1,2) by (simp add: parse_tcp_def cut_colon_append)
qed

section \<open>What probing finds\<close>

lemma attach_walk_Some:
  assumes "attach_walk nss = Some h"
  obtains ns where "ns \<in> set nss" "nn_active ns" "nn_sector_size ns \<le> 4096" "nn_qpair ns = Some (ns_drv h)" "ns_sector_size h = nn_sector_size ns"
    "ns_sectors_per_block h = 4096 div nn_sector_size ns" "ns_capacity_blocks h = nn_num_sectors ns div ucast (4096 div nn_sector_size ns)"
  using assms
proof (induction nss)
  case (Cons ns nss)
  show ?case
  proof (cases "nn_active ns \<and> \<not> nn_sector_size ns > 4096 \<and> nn_qpair ns \<noteq> None")
    case True
    then show ?thesis using Cons.prems(2) by (intro Cons.prems(1) [of ns]) (auto simp: Let_def)
  next
    case False
    then have "attach_walk nss = Some h" using Cons.prems(2) by (auto simp: Let_def split: if_splits)
    then show ?thesis using Cons.IH Cons.prems(1) by (meson list.set_intros(2))
  qed
qed simp

text \<open>A sector size that divides a block makes the handle describe whole blocks inside the namespace.\<close>

lemma attach_geometry:
  fixes ss :: u32 and ns :: u64
  assumes "unat ss dvd 4096"
  shows "unat (4096 div ss) * unat ss = 4096" and "unat (ns div ucast (4096 div ss)) * unat (4096 div ss) \<le> unat ns"
    and "c * 4096 \<le> unat ns * unat ss \<Longrightarrow> c \<le> unat (ns div ucast (4096 div ss))"
proof -
  have u: "unat (4096 div ss) = 4096 div unat ss" by (simp add: unat_div_word)
  show e: "unat (4096 div ss) * unat ss = 4096" using assms by (simp add: u)
  have q: "unat (ns div ucast (4096 div ss)) = unat ns div unat (4096 div ss)" by (simp add: unat_div_word)
  show "unat (ns div ucast (4096 div ss)) * unat (4096 div ss) \<le> unat ns" unfolding q by simp
  assume "c * 4096 \<le> unat ns * unat ss"
  then have "(c * unat (4096 div ss)) * unat ss \<le> unat ns * unat ss" using e by (simp add: mult.assoc)
  moreover have p: "0 < unat ss" "0 < unat (4096 div ss)" using e by (metis gr0I mult_0 mult_0_right zero_neq_numeral)+
  ultimately have "c * unat (4096 div ss) \<le> unat ns" by simp
  then show "c \<le> unat (ns div ucast (4096 div ss))" unfolding q using p(2) by (simp add: less_eq_div_iff_mult_less_eq)
qed

lemma mbr_validate_pattern: "mbr_validate (replicate 4096 0xA5) = Inl EINVAL"
proof -
  have "mbr_magic (dec_mbr (replicate 4096 0xA5)) = replicate 8 0xA5" by (simp add: dec_mbr_def)
  moreover have "replicate 8 (0xA5 :: byte) \<noteq> NEBULA_MAGIC_MBR_STR"
    by (auto simp: NEBULA_MAGIC_MBR_STR_def dest!: arg_cong [where f = hd])
  ultimately show ?thesis by (simp add: mbr_validate_def Let_def)
qed

section \<open>Properties\<close>

text \<open>
  Property C4.  The SPDK backend is a block device.  Over every driver whose accepted commands complete and act on the
  sectors they name, its operation table keeps the contract that the file system is proved against, and every
  call of it returns.
\<close>

theorem spdk_backend_contract:
  assumes "nvme_driver C byt ssz nsec live"
  shows "block_backend (spdk_ops C) (spdk_blk byt) (spdk_inv ssz nsec) (spdk_healthy live)
    \<and> (\<forall>cap d lba n buf. spdk_inv ssz nsec cap d \<longrightarrow>
         spdk_io_read C cap d lba n \<noteq> None \<and> spdk_io_write C cap d lba n buf \<noteq> None \<and> spdk_io_flush C d \<noteq> None)"
proof (intro conjI allI impI)
  note D = assms
  show "block_backend (spdk_ops C) (spdk_blk byt) (spdk_inv ssz nsec) (spdk_healthy live)"
    by (rule nvme_driver.backend [OF D])
qed (use nvme_driver.spdk_read_cases [OF assms] nvme_driver.spdk_write_cases [OF assms] nvme_driver.spdk_flush_cases [OF assms] in \<open>metis option.distinct(1)\<close>)+

theorem spdk_backend_contract_witness:
  "block_backend (spdk_ops ram_calls) (spdk_blk rn_bytes) (spdk_inv rn_sector_size rn_sectors) (spdk_healthy (\<lambda>v. ram_live v))"
  using spdk_backend_contract [OF ram.nvme_driver_axioms] by blast

text \<open>
  Property C19.  From probe to file system.  A namespace whose sector size divides 4096 bytes, on a driver without failures
  and of 256 MiB to 256 PiB, is opened; formatting it succeeds, and it then mounts with the root directory alone.
\<close>

theorem spdk_format_then_mount:
  assumes "nvme_driver C byt ssz nsec live" and "attach_walk nss = Some h" and "open_from_ns C h dma = Inr io"
    and "\<forall>ns \<in> set nss. \<forall>v. nn_qpair ns = Some v \<longrightarrow> unat (nn_sector_size ns) dvd 4096 \<and> ssz v = unat (nn_sector_size ns)
           \<and> nsec v = unat (nn_num_sectors ns) \<and> live v \<and> 2 ^ 28 \<le> nsec v * ssz v \<and> nsec v * ssz v < 2 ^ 58"
    and "isz = NEBULA_INODE_SIZE_DEFAULT \<or> isz = NEBULA_INODE_SIZE_LARGE" and "length u = 16"
  shows "\<exists>L io' m. format_device io isz (Inr u) t1 t2 = (0, io') \<and> nebula_fs_mount_io io' = (Inr m, m_io m)
    \<and> fs_ok (spdk_ops C) (spdk_inv ssz nsec) (spdk_blk byt) L m
    \<and> fs_view (spdk_blk byt (io_dev (m_io m))) L = [[0x2F] \<mapsto> (0, \<lambda>_. None)]"
proof -
  obtain ns where n: "ns \<in> set nss" "nn_qpair ns = Some (ns_drv h)" "ns_sectors_per_block h = 4096 div nn_sector_size ns"
      "ns_capacity_blocks h = nn_num_sectors ns div ucast (4096 div nn_sector_size ns)"
    by (rule attach_walk_Some [OF assms(2)])
  let ?v = "ns_drv h" and ?cap = "ns_capacity_blocks h"
  have g: "unat (nn_sector_size ns) dvd 4096" "ssz ?v = unat (nn_sector_size ns)" "nsec ?v = unat (nn_num_sectors ns)" "live ?v"
      "2 ^ 28 \<le> nsec ?v * ssz ?v" "nsec ?v * ssz ?v < 2 ^ 58"
    using assms(4) n(1,2) by blast+
  note geo = attach_geometry(1) [OF g(1), folded n(3)] attach_geometry(2,3) [OF g(1), where ns = "nn_num_sectors ns", folded n(3), folded n(4) [folded n(3)]]
  have io: "io = \<lparr>io_ops = spdk_ops C, io_capacity_blocks = ?cap, io_dev = \<lparr>sd_ns = h, sd_bounce = zeros 1048576\<rparr>\<rparr>"
    using assms(3) by (simp add: open_from_ns_def nebula_spdk_nvme_capacity_blocks_def split: if_splits)
  have inv: "spdk_inv ssz nsec ?cap (io_dev io)" using geo(1,2) g(2,3,6) by (simp add: io spdk_inv_def Let_def)
  have ok: "io_ok (spdk_ops C) (spdk_inv ssz nsec) io" using inv by (simp add: io io_ok_def)
  have up: "spdk_healthy live (io_dev io)" using g(4) by (simp add: io spdk_healthy_def)
  have lo: "65536 \<le> unat (io_capacity_blocks io)" using geo(3) [of 65536] g(2,3,5) by (simp add: io)
  have "unat ?cap * 4096 \<le> nsec ?v * ssz ?v" using mult_le_mono1 [OF geo(2), of "ssz ?v"] geo(1) g(2,3) by (simp add: mult.assoc)
  then have hi: "unat (io_capacity_blocks io) < 2 ^ 46" using g(6) by (simp add: io)
  show ?thesis
    using block_backend.format_device_mounts [OF nvme_driver.backend [OF assms(1)] ok up lo hi assms(5,6), of t1 t2] by blast
qed

text \<open>
  Probing without an address finds nothing: the address is documented as optional, with any local device as
  the default, but the empty address is compared with that of each controller.
\<close>

theorem spdk_probe_any_fails:
  assumes "\<forall>c \<in> set ctrlrs. ct_traddr c \<noteq> []"
  shows "nebula_spdk_nvme_probe tsize None rc ctrlrs = None \<and> nebula_io_spdk_open C tsize tcp (rc, ctrlrs) dma None = Inl ENODEV"
proof -
  have "foldl (\<lambda>result c. if probe_cb (Some []) result (ct_traddr c) then attach_cb result (ct_namespaces c) else result) None ctrlrs = None"
    using assms by (induction ctrlrs) (auto simp: probe_cb_def)
  then show ?thesis by (simp add: nebula_spdk_nvme_probe_def nebula_spdk_nvme_probe_trid_def nebula_io_spdk_open_def)
qed

definition sample_ctrlr :: "ram_nvme nvme_ctrlr" where
  "sample_ctrlr = \<lparr>ct_traddr = ''0000:01:00.0'', ct_namespaces = [\<lparr>nn_active = True, nn_sector_size = 512, nn_num_sectors = 524288,
     nn_qpair = Some \<lparr>rn_bytes = (\<lambda>_. 0), rn_sectors = 524288, rn_sector_size = 512, rn_script = [], rn_wait = 0, rn_result = (False, [])\<rparr>\<rparr>]\<rparr>"

lemma sample_ctrlr_attach:
  obtains h where "attach_walk (ct_namespaces sample_ctrlr) = Some h" and "ns_capacity_blocks h = 65536" and "ns_sectors_per_block h = 8"
    and "ns_drv h = \<lparr>rn_bytes = (\<lambda>_. 0), rn_sectors = 524288, rn_sector_size = 512, rn_script = [], rn_wait = 0, rn_result = (False, [])\<rparr>"
proof -
  obtain h where h: "attach_walk (ct_namespaces sample_ctrlr) = Some h" by (simp add: sample_ctrlr_def)
  show ?thesis by (rule that [OF h]) (use h in \<open>auto simp: sample_ctrlr_def\<close>)
qed

theorem spdk_probe_any_fails_witness:
  "nebula_spdk_nvme_probe 257 None 0 [sample_ctrlr] = None \<and> (\<exists>h. nebula_spdk_nvme_probe 257 (Some ''0000:01:00.0'') 0 [sample_ctrlr] = Some h)"
proof -
  obtain h where "attach_walk (ct_namespaces sample_ctrlr) = Some h" by (rule sample_ctrlr_attach)
  then have "nebula_spdk_nvme_probe 257 (Some ''0000:01:00.0'') 0 [sample_ctrlr] = Some h"
    by (simp add: nebula_spdk_nvme_probe_def nebula_spdk_nvme_probe_trid_def probe_cb_def attach_cb_def) (simp add: sample_ctrlr_def)
  moreover have "nebula_spdk_nvme_probe 257 None 0 [sample_ctrlr] = None"
    using spdk_probe_any_fails [of "[sample_ctrlr]" 257 0] by (simp add: sample_ctrlr_def)
  ultimately show ?thesis by blast
qed

theorem spdk_format_then_mount_witness:
  "\<exists>h io io' m. attach_walk (ct_namespaces sample_ctrlr) = Some h \<and> open_from_ns ram_calls h True = Inr io
     \<and> format_device io NEBULA_INODE_SIZE_DEFAULT (Inr (zeros 16)) 0 0 = (0, io') \<and> nebula_fs_mount_io io' = (Inr m, m_io m)"
proof -
  obtain h where h: "attach_walk (ct_namespaces sample_ctrlr) = Some h" by (rule sample_ctrlr_attach)
  obtain io where io: "open_from_ns ram_calls h True = Inr io" by (simp add: open_from_ns_def)
  have "\<forall>ns \<in> set (ct_namespaces sample_ctrlr). \<forall>v. nn_qpair ns = Some v \<longrightarrow> unat (nn_sector_size ns) dvd 4096 \<and> rn_sector_size v = unat (nn_sector_size ns)
           \<and> rn_sectors v = unat (nn_num_sectors ns) \<and> ram_live v \<and> 2 ^ 28 \<le> rn_sectors v * rn_sector_size v \<and> rn_sectors v * rn_sector_size v < 2 ^ 58"
    by (simp add: sample_ctrlr_def)
  from spdk_format_then_mount [OF ram.nvme_driver_axioms h io this, of NEBULA_INODE_SIZE_DEFAULT "zeros 16" 0 0]
  show ?thesis using h io by auto
qed

text \<open>
  Property C22.  The self-test of the probe tool.  It is announced for devices that are not formatted, but it writes block 0
  of every device it finds: the tool reports success, and no device mounts afterwards.
\<close>

theorem spdk_selftest_destroys_label:
  assumes "nvme_driver C byt ssz nsec live" and "spdk_inv ssz nsec cap \<lparr>sd_ns = ns, sd_bounce = bo\<rparr>" and "live (ns_drv ns)" and "1 \<le> unat cap"
  shows "\<exists>ns1. spdk_selftest C ns = Some (0, ns1)
    \<and> fst (nebula_mount_open_io \<lparr>io_ops = spdk_ops C, io_capacity_blocks = cap, io_dev = \<lparr>sd_ns = ns1, sd_bounce = bo\<rparr>\<rparr>) = Inl EINVAL"
proof -
  let ?d = "\<lparr>sd_ns = ns, sd_bounce = bo\<rparr>" and ?w = "replicate 4096 (0xA5 :: byte)" and ?blk = "spdk_blk byt"
  have lv: "spdk_healthy live ?d" using assms(3) by (simp add: spdk_healthy_def)
  have one: "unat (1 :: u32) \<le> 256" "unat (0 :: u64) < 2 ^ 52 \<or> unat (0 :: u64) \<ge> 2 ^ 64 - 2 ^ 32" "unat (1 :: u32) * 4096 \<le> length ?w"
    "unat (1 :: u32) * 4096 \<le> length (zeros 4096)" by simp_all
  obtain rc ns1 where w: "nebula_spdk_nvme_write C ns 0 1 ?w = Some (rc, ?w, ns1)" "spdk_inv ssz nsec cap \<lparr>sd_ns = ns1, sd_bounce = bo\<rparr>"
      "spdk_healthy live \<lparr>sd_ns = ns1, sd_bounce = bo\<rparr>" "rc = 0" "?blk \<lparr>sd_ns = ns1, sd_bounce = bo\<rparr> 0 = ?w"
    by (rule nvme_driver.nvme_write_batch [OF assms(1,2) one(1,2,3)]) (use lv assms(4) in \<open>auto simp: seg_replicate\<close>)
  let ?d1 = "\<lparr>sd_ns = ns1, sd_bounce = bo\<rparr>"
  obtain rc2 rb ns2 where r: "nebula_spdk_nvme_read C ns1 0 1 (zeros 4096) = Some (rc2, rb, ns2)" "length rb = 4096"
      "spdk_inv ssz nsec cap \<lparr>sd_ns = ns2, sd_bounce = bo\<rparr>" "?blk \<lparr>sd_ns = ns2, sd_bounce = bo\<rparr> = ?blk ?d1"
      "spdk_healthy live \<lparr>sd_ns = ns2, sd_bounce = bo\<rparr>" "rc2 = 0" "take 4096 rb = ?blk ?d1 0"
    by (rule nvme_driver.nvme_read_batch [OF assms(1) w(2) one(1,2,4)]) (use w(3) assms(4) in auto)
  have st: "spdk_selftest C ns = Some (0, ns2)" using w r by (simp add: spdk_selftest_def Let_def)
  define io where "io = \<lparr>io_ops = spdk_ops C, io_capacity_blocks = cap, io_dev = \<lparr>sd_ns = ns2, sd_bounce = bo\<rparr>\<rparr>"
  have ok: "io_ok (spdk_ops C) (spdk_inv ssz nsec) io" "spdk_healthy live (io_dev io)" "0 < unat (io_capacity_blocks io)"
    using r(3,5) assms(4) by (simp_all add: io_def io_ok_def)
  have "mbr_validate (?blk (io_dev io) 0) = Inl EINVAL" using r(4) w(5) by (simp add: io_def mbr_validate_pattern)
  then obtain io1 where "nebula_mbr_read io = (Inl EINVAL, io1)"
    using block_backend.io_load_up [OF nvme_driver.backend [OF assms(1)] ok(1,2), of 0 mbr_validate] ok(3)
    by (auto simp: nebula_mbr_read_def NEBULA_LBA_MBR_def)
  then have "fst (nebula_mount_open_io io) = Inl EINVAL" by (simp add: nebula_mount_open_io_def nebula_mount_do_def)
  then show ?thesis using st by (auto simp: io_def)
qed

theorem spdk_selftest_destroys_label_witness:
  "\<exists>h ns1. attach_walk (ct_namespaces sample_ctrlr) = Some h \<and> spdk_selftest ram_calls h = Some (0, ns1)
     \<and> fst (nebula_mount_open_io \<lparr>io_ops = spdk_ops ram_calls, io_capacity_blocks = 65536, io_dev = \<lparr>sd_ns = ns1, sd_bounce = zeros 1048576\<rparr>\<rparr>) = Inl EINVAL"
proof -
  obtain h where h: "attach_walk (ct_namespaces sample_ctrlr) = Some h" "ns_sectors_per_block h = 8"
      "ns_drv h = \<lparr>rn_bytes = (\<lambda>_. 0), rn_sectors = 524288, rn_sector_size = 512, rn_script = [], rn_wait = 0, rn_result = (False, [])\<rparr>"
    by (rule sample_ctrlr_attach)
  have "spdk_inv rn_sector_size rn_sectors 65536 \<lparr>sd_ns = h, sd_bounce = zeros 1048576\<rparr>" using h(2,3) by (simp add: spdk_inv_def Let_def)
  from spdk_selftest_destroys_label [OF ram.nvme_driver_axioms this] show ?thesis using h by auto
qed

end
