(* ===== verification/Spec2Isabelle.thy ===== *)
theory Spec2Isabelle
  imports Nebula_Fs_Correct Nebula_Fsck Nebula_Root_Sub Nebula_Dma_Pool Objstore_Props Nebula_Rocksdb_Props
    Nebula_Label Nebula_Admin Nebula_Discover Nebula_Spdk_Probe
begin

text \<open>
  A verification development for Nebula, a block-device file system in C, its command-line tools, and
  the object store in C++ that is built on it.  All paths below are under \<^verbatim>\<open>src/\<close>.

  \<^bold>\<open>The program.\<close>  A device is an array of 4096-byte blocks behind an operation table
  (\<^verbatim>\<open>src/io\<close>).  The formatting tool lays regions out (\<^verbatim>\<open>nebula_layout.c\<close>) and writes, in this
  order, the MBR, uberblocks, allocator roots, bitmap, inode table, directory page and last the two
  superblocks.  Mounting reads the MBR, the head superblock or else its tail copy, the newest uberblock,
  and loads the bitmap.  Files are inodes with a short list of extents; names live in one directory
  region; the interface \<^verbatim>\<open>nebula_fs.c\<close> composes inode table, directory, block allocator and file
  contents.  The object store keeps its metadata in RocksDB, and its data in 64 MiB chunks that it takes
  from the block allocator of a mounted device.  RocksDB itself can run on the file system, through an
  adapter that implements its environment.  The operation table has two implementations, one over system
  calls on a file and one over an NVMe driver.  Small tools label, find, dump, check and administer devices.

  \<^bold>\<open>The theories, in the order of their imports.\<close>
  \<^item> \<open>Nebula_Prelude\<close>, \<open>Nebula_Bytes\<close>: list, word and arithmetic lemmas, the collections \<open>wordarith\<close>
    and \<open>codec_laws\<close>, little-endian encodings and slices of blocks.
  \<^item> \<open>Crc32c\<close> (\<^verbatim>\<open>util/crc32c.c\<close>): the table-driven checksum, proved equal to the bit-serial
    definition and to detect every change of one byte.  \<open>Nebula_Seal\<close>: the locale of a sealed structure,
    one whose checksum field covers the rest; the structures of the disk interpret it.
  \<^item> \<open>Nebula_Format\<close> (\<^verbatim>\<open>nebula_format.h\<close>, \<^verbatim>\<open>nebula_types.h\<close>): every packed structure as a
    record with a byte-exact encoder and decoder.  \<open>Nebula_Layout\<close>: the region computation in 64-bit words.
  \<^item> \<open>Nebula_Io\<close> (\<^verbatim>\<open>nebula_io_internal.h\<close>, \<^verbatim>\<open>nebula_io_posix.c\<close>): the operation table, and
    the POSIX backend over scripted system calls, so that short transfers, interrupts and errors are
    part of the model; on a healthy device calls are interrupted and cut short at will, but do not fail.  Its locale states what a client may assume of a backend (which blocks a call can
    change, what a successful read returns, that calls succeed on a healthy device); the POSIX backend
    interprets it, and all components above are proved inside it.
  \<^item> \<open>Nebula_Boot\<close>: MBR, superblock, uberblock and allocator roots.  \<open>Nebula_Hbm\<close>: the formatted
    bitmap and its hierarchical summary in memory.  \<open>Nebula_Mount\<close>, \<open>Nebula_Mount_Io\<close>: mounting with
    the fall-back to the tail superblock, and the invariant of a mounted device.
  \<^item> \<open>Nebula_Block_Alloc\<close>: first-fit allocation with write-back and roll-back, and freeing.
    \<open>Nebula_Slots\<close>, \<open>Nebula_Root_Sub\<close>: the locale of an allocator that is asked for something and hands out
    items (runs of blocks, inodes, slots), with histories of requests and returns, and the allocator of 32 KiB slots.
  \<^item> \<open>Nebula_Inode\<close>, \<open>Nebula_Dir\<close>, \<open>Nebula_File\<close>, \<open>Nebula_File_Rw\<close>, \<open>Nebula_File_Correct\<close>: inode
    table, directory (a map from names to inode numbers), extents, and reading, writing and deleting.
  \<^item> \<open>Nebula_Fs\<close>, \<open>Nebula_Fs_Correct\<close> (\<^verbatim>\<open>nebula_fs.c\<close>): the public interface, the invariant
    \<open>fs_ok\<close> of a mounted file system, the abstraction \<open>fs_view\<close> to a map from names to contents, and the
    refinement of every operation.  A run is a sequence of calls with their arguments and results; every
    run is one of the abstract file system \<open>afs_step\<close>, which gives the results from the map alone.
  \<^item> \<open>Nebula_Handles\<close>, \<open>Nebula_Rocksdb_Fs\<close>, \<open>Nebula_Rocksdb_Session\<close>, \<open>Nebula_Rocksdb_Correct\<close>,
    \<open>Nebula_Rocksdb_Props\<close> (\<^verbatim>\<open>rocksdb/nebula_rocksdb_fs.cc\<close>): what several open handles own at a time, the
    file classes and the file system of the adapter, and sessions of RocksDB on it.  \<open>session_ok\<close> is the
    invariant with any number of writers open; \<open>durable\<close> is what a reader finds, a second map what the
    writers have accepted; every run of operations refines the specification \<open>rdb_spec\<close> on the two maps.
  \<^item> \<open>Nebula_Uuid\<close>, \<open>Nebula_Mkfs\<close>, \<open>Nebula_Fsck\<close>: identifiers, the formatting tool (argument parsing,
    the ordered steps, that the result mounts and that a format stopped behind the MBR does not, over
    superblocks of an earlier format too) and the checker, with the blocks that its verdict depends on.
  \<^item> \<open>Nebula_Label\<close>, \<open>Nebula_Admin\<close>, \<open>Nebula_Discover\<close> (\<^verbatim>\<open>tools/\<close>): rewriting the label, which keeps a
    sound device mountable and strands one that runs on its tail superblock; the commands on a mounted device;
    the search for labelled devices and the dump.  A command returns its exit status and what it prints.
  \<^item> \<open>Nebula_Spdk\<close>, \<open>Nebula_Spdk_Probe\<close> (\<^verbatim>\<open>io/nebula_io_spdk.c\<close>, \<^verbatim>\<open>io/nebula_spdk_nvme.c\<close>): the second
    backend.  The driver is a parameter, its laws the locale \<open>nvme_driver\<close>, which a namespace in memory with
    scripted commands interprets; a sublocale shows that every such driver makes the backend a
    \<open>block_backend\<close>, so that the results on the file system hold over it.  Probing, opening and the probe tool.
  \<^item> \<open>Nebula_Dma_Pool\<close> (\<^verbatim>\<open>io/nebula_dma_pool.c\<close>): the free list inside the buffers of a pool,
    over a byte-addressed memory.
  \<^item> \<open>Objstore_Common\<close>, \<open>Objstore_Metadata\<close>, \<open>Objstore_Iter\<close>, \<open>Objstore_Meta_Correct\<close>
    (\<^verbatim>\<open>objstore/common.cc\<close>, \<^verbatim>\<open>objstore/metadata.cc\<close>): paths, key and value encodings, and the
    metadata store.  RocksDB is a parameter, a record of the calls made to it; the locale
    \<open>rocksdb_store\<close> states its documented behaviour with reads and writes that may fail, \<open>rocksdb_live\<close>
    extends it to a database that does not, and an ordered map interprets both.
  \<^item> \<open>Objstore_Chunk\<close> (\<^verbatim>\<open>objstore/chunk.cc\<close>): the chunk engine over the block allocator and the
    metadata store, its invariant \<open>engine_ok\<close> (chunks are disjoint runs of allocated blocks, the active one
    is ahead of its record) and that a reservation is a fresh area.  Its locale \<open>objstore_env\<close> joins the
    contract of a block backend with that of a database; the proofs of the object store are made inside it.
  \<^item> \<open>Objstore_Store\<close> (\<^verbatim>\<open>objstore/object_store.cc\<close>): opening, creating, writing, reading, and the
    two queries.  \<open>Objstore_Data\<close>, \<open>Objstore_Read\<close>: the bytes of an extent, that the extents of an object
    tile it, and that a read returns its content.  \<open>Objstore_Write\<close>, \<open>Objstore_Objects\<close>: that a segment goes
    to fresh blocks only, the loop over segments, and the effect of a write and of a creation on the map
    from paths to contents.  \<open>Objstore_Reopen\<close>: what opening after a restart finds.
  \<^item> \<open>Objstore_Correct\<close>, \<open>Objstore_Durable\<close>, \<open>Objstore_Props\<close>: the interpretation on the POSIX backend and an
    ordered map, runs of calls and restarts with failures at any point, what is on the device and in the
    database between two processes (\<open>store_durable\<close>) and runs whose restarts mount the device file again, and the
    guarantees with a sample store.

  \<^bold>\<open>How the code is represented.\<close>  A C structure is a record, an enumeration a datatype, a machine
  integer a word of its width, so that wrap-around is the code's.  A function that can fail returns
  \<open>Inl\<close> of its error code or \<open>Inr\<close> of its result; the device and the mount are passed explicitly.  Loops
  are recursive functions over the list of remaining indices or with a measure.  Readings of the clock
  and of the random device are arguments.

  \<^bold>\<open>Bounds.\<close>  Devices have fewer than \<open>2 ^ 46\<close> blocks where byte addresses are computed, and at most
  \<open>2 ^ 32\<close> blocks where files are written, since an extent stores 32 address bits; file offsets stay
  below \<open>2 ^ 63\<close>.  An object store is followed as long as the identifiers handed out and the bytes
  written stay below \<open>2 ^ 32\<close>, the width of a chunk identifier.  Files written through the adapter stay below
  \<open>2 ^ 63\<close> bytes, and a name that is open for writing is not opened for writing again, deleted or renamed
  meanwhile, which is how RocksDB uses it.  Sector sizes divide 4096 bytes where the NVMe backend is used.  In the runs
  with failures of the device (\<open>store_run\<close>) a restart is given the same device mounted again, with no block free that was
  not free before; in the runs on a device without faults (\<open>live_run\<close>) the restart performs the mount, and
  this is proved of it.  No fuel is used: the retry loops consume the script
  of system calls, and a loop that need not end (the scan for chunks, waiting for a buffer or for the
  completion of a command) is a partial
  function whose end is proved where it is claimed.

  \<^bold>\<open>Not modelled.\<close>  Failures of \<^verbatim>\<open>malloc\<close> and \<^verbatim>\<open>aligned_alloc\<close> and checks for null
  arguments, which the typed model excludes; the text that is printed and logged (\<^verbatim>\<open>util/log.c\<close>); the
  release of handles, queue pairs and memory; the benchmarks, demos and tests.  Mutexes make each call one
  step, so calls are interleaved but never overlap.
\<close>

end
